(* ===== verification/HdPrelude.thy ===== *)
theory HdPrelude
  imports Main "HOL-Library.Word" "HOL-Library.Multiset"
begin

text \<open>
  What the components share: the names of Rust's fixed-width integers, the little-endian byte
  form of an integer, the fallible accesses of slices and vectors (\<open>get\<close> on an index and on
  a range), saturating and checked arithmetic, and the generic lemmas on lists and words the
  component proofs use. The collection \<open>codec_simps\<close> gathers the read-after-write equations of
  the byte codecs; \<open>frame_simps\<close> gathers the equations saying which fields an operation leaves
  alone.
\<close>

named_theorems codec_simps "read-after-write equations of the byte codecs"
named_theorems frame_simps "what an operation leaves unchanged"

unbundle bit_operations_syntax

type_synonym u8 = "8 word"
type_synonym u16 = "16 word"
type_synonym u32 = "32 word"
type_synonym u64 = "64 word"
type_synonym u128 = "128 word"

section \<open>Fallible accesses\<close>

text \<open>\<open>xs.get(i)\<close> and \<open>xs.get(a..b)\<close>: \<open>None\<close> out of range.\<close>

definition get_at :: "'a list \<Rightarrow> nat \<Rightarrow> 'a option" where
  "get_at xs i = (if i < length xs then Some (xs ! i) else None)"

definition get_range :: "'a list \<Rightarrow> nat \<Rightarrow> nat \<Rightarrow> 'a list option" where
  "get_range xs a b = (if a \<le> b \<and> b \<le> length xs then Some (take (b - a) (drop a xs)) else None)"

lemma get_at_Some [simp]: "get_at xs i = Some x \<longleftrightarrow> i < length xs \<and> x = xs ! i"
  by (auto simp: get_at_def)

lemma get_at_None [simp]: "get_at xs i = None \<longleftrightarrow> length xs \<le> i"
  by (auto simp: get_at_def)

lemma get_range_append [simp]:
  "get_range (xs @ ys @ zs) (length xs) (length xs + length ys) = Some ys"
  by (simp add: get_range_def)

lemma get_range_Some:
  "get_range xs a b = Some ys \<longleftrightarrow> a \<le> b \<and> b \<le> length xs \<and> ys = take (b - a) (drop a xs)"
  by (auto simp: get_range_def)

lemma get_range_None: "get_range xs a b = None \<longleftrightarrow> b < a \<or> length xs < b"
  by (auto simp: get_range_def)

text \<open>\<open>xs.swap(i, j)\<close>.\<close>

definition swap :: "'a list \<Rightarrow> nat \<Rightarrow> nat \<Rightarrow> 'a list" where
  "swap xs i j = xs[i := xs ! j, j := xs ! i]"

lemma length_swap [simp]: "length (swap xs i j) = length xs"
  by (simp add: swap_def)

lemma nth_swap:
  "i < length xs \<Longrightarrow> j < length xs \<Longrightarrow> k < length xs \<Longrightarrow>
   swap xs i j ! k = (if k = j then xs ! i else if k = i then xs ! j else xs ! k)"
  by (simp add: swap_def nth_list_update)

lemma mset_swap_eq:
  "i < length xs \<Longrightarrow> j < length xs \<Longrightarrow> mset (swap xs i j) = mset xs"
  by (simp add: swap_def mset_swap)

section \<open>Saturating and checked arithmetic\<close>

definition sat_add64 :: "u64 \<Rightarrow> u64 \<Rightarrow> u64" where
  "sat_add64 a b = (if unat a + unat b < 2 ^ 64 then a + b else - 1)"

lemma unat_sat_add64: "unat (sat_add64 a b) = min (unat a + unat b) (2 ^ 64 - 1)"
proof (cases "unat a + unat b < 2 ^ 64")
  case True
  then show ?thesis by (simp add: sat_add64_def unat_word_ariths)
next
  case False
  have "unat (- 1 :: u64) = 2 ^ 64 - 1"
    by (simp add: unsigned_minus_1_eq_mask mask_eq_exp_minus_1)
  with False show ?thesis by (simp add: sat_add64_def del: unat_1)
qed

text \<open>A \<open>u32\<close> counter at \<open>u32::MAX\<close>: adding one overflows. The code equation compares binary numerals.\<close>

definition u32_max :: "nat \<Rightarrow> bool" where
  "u32_max n = (n + 1 = 2 ^ 32)"

lemma u32_max_code [code]: "u32_max n = (int n + 1 = 2 ^ 32)"
  by (auto simp: u32_max_def)

section \<open>Little-endian bytes\<close>

definition le_bytes :: "nat \<Rightarrow> 'a::len word \<Rightarrow> u8 list" where
  "le_bytes n w = map (\<lambda>i. word_of_nat (unat w div 256 ^ i)) [0..<n]"

definition of_le_bytes :: "u8 list \<Rightarrow> 'a::len word" where
  "of_le_bytes bs = word_of_nat (horner_sum unat 256 bs)"

lemma length_le_bytes [simp]: "length (le_bytes n w) = n"
  by (simp add: le_bytes_def)

lemma horner_le_digits:
  "horner_sum unat 256 (map (\<lambda>i. word_of_nat (k div 256 ^ i) :: u8) [0..<n]) = k mod 256 ^ n"
proof (induction n arbitrary: k)
  case 0
  then show ?case by simp
next
  case (Suc n)
  have "map (\<lambda>i. word_of_nat (k div 256 ^ i) :: u8) [0..<Suc n] =
        word_of_nat k # map (\<lambda>i. word_of_nat ((k div 256) div 256 ^ i)) [0..<n]"
    by (simp add: upt_conv_Cons map_Suc_upt [symmetric] div_mult2_eq del: upt_Suc)
  then have "horner_sum unat 256 (map (\<lambda>i. word_of_nat (k div 256 ^ i) :: u8) [0..<Suc n]) =
        k mod 256 + 256 * (k div 256 mod 256 ^ n)"
    using Suc.IH [of "k div 256"] by (simp add: unat_of_nat take_bit_eq_mod del: upt_Suc)
  also have "\<dots> = k mod 256 ^ Suc n"
    by (simp add: mod_mult2_eq)
  finally show ?case .
qed

lemma of_le_bytes_le_bytes [codec_simps]:
  "8 * n = LENGTH('a) \<Longrightarrow> of_le_bytes (le_bytes n w) = (w :: 'a::len word)"
proof -
  assume n: "8 * n = LENGTH('a)"
  have "(256::nat) ^ n = 2 ^ (8 * n)"
    by (simp add: power_mult)
  then have "(256::nat) ^ n = 2 ^ LENGTH('a)"
    by (simp add: n)
  moreover have "unat w < 2 ^ LENGTH('a)" by (rule unsigned_less)
  ultimately have "unat w mod 256 ^ n = unat w" by simp
  then have "horner_sum unat 256 (le_bytes n w) = unat w"
    by (simp only: le_bytes_def horner_le_digits)
  then show ?thesis
    by (simp add: of_le_bytes_def)
qed

lemma le_bytes_inject:
  "8 * n = LENGTH('a) \<Longrightarrow> le_bytes n v = le_bytes n w \<longleftrightarrow> v = (w :: 'a::len word)"
  by (metis of_le_bytes_le_bytes)

section \<open>Lists\<close>

lemma sorted_wrt_unique:
  assumes irrefl: "\<And>x. \<not> R x x" and trans: "\<And>x y z. R x y \<Longrightarrow> R y z \<Longrightarrow> R x z"
    and "sorted_wrt R xs" "sorted_wrt R ys" "set xs = set ys"
  shows "xs = ys"
  using assms(3-5)
proof (induction xs arbitrary: ys)
  case Nil
  then show ?case by simp
next
  case (Cons x xs)
  then obtain y zs where ys: "ys = y # zs" by (cases ys) auto
  have xy: "x = y"
  proof (rule ccontr)
    assume "x \<noteq> y"
    with Cons.prems ys have "y \<in> set xs" "x \<in> set zs" by auto
    with Cons.prems ys have "R x y" "R y x" by auto
    then show False using trans irrefl by blast
  qed
  have "x \<notin> set xs" "y \<notin> set zs"
    using Cons.prems ys irrefl by auto
  with Cons.prems ys xy have "set xs = set zs" by auto
  with Cons.IH [of zs] Cons.prems ys xy show ?case by simp
qed

lemma sorted_wrt_distinct:
  "sorted_wrt R xs \<Longrightarrow> (\<And>x. \<not> R x x) \<Longrightarrow> distinct xs"
  by (induction xs) auto

section \<open>Runs that may not return\<close>

text \<open>
  The result of a computation that may panic (a failed assertion, an index out of range, an
  arithmetic overflow of a checked build) or, where a loop is bounded by fuel, use it up.
\<close>

datatype 'a outcome = Panicked | OutOfFuel | Returned 'a

section \<open>Systems of steps\<close>

text \<open>
  The contract between a step relation and its invariant, and between a detailed and an abstract
  step relation: one step of the detailed system is zero or more steps of the abstract one.
\<close>

locale invariant_system =
  fixes step :: "'s \<Rightarrow> 's \<Rightarrow> bool" and good :: "'s \<Rightarrow> bool"
  assumes keeps: "step a b \<Longrightarrow> good a \<Longrightarrow> good b"
begin

lemma reachable_good: "step\<^sup>*\<^sup>* a b \<Longrightarrow> good a \<Longrightarrow> good b"
  by (induction rule: rtranclp_induct) (blast intro: keeps)+

end

locale simulation =
  fixes cstep :: "'c \<Rightarrow> 'c \<Rightarrow> bool" and astep :: "'a \<Rightarrow> 'a \<Rightarrow> bool" and rel :: "'c \<Rightarrow> 'a \<Rightarrow> bool"
  assumes simulates: "cstep c c' \<Longrightarrow> rel c a \<Longrightarrow> \<exists>a'. astep\<^sup>*\<^sup>* a a' \<and> rel c' a'"
begin

lemma run_simulates: "cstep\<^sup>*\<^sup>* c c' \<Longrightarrow> rel c a \<Longrightarrow> \<exists>a'. astep\<^sup>*\<^sup>* a a' \<and> rel c' a'"
proof (induction rule: rtranclp_induct)
  case base
  then show ?case by blast
next
  case (step c' c'')
  then obtain b where b: "astep\<^sup>*\<^sup>* a b" "rel c' b" by blast
  from simulates [OF step(2) b(2)] obtain d where d: "astep\<^sup>*\<^sup>* b d" "rel c'' d" by blast
  from rtranclp_trans [OF b(1) d(1)] d(2) show ?case by blast
qed

end

section \<open>UTF-8\<close>

text \<open>\<open>core::str::from_utf8\<close>: the well-formed byte sequences of the Unicode standard.\<close>

definition utf8_cont :: "u8 \<Rightarrow> bool" where
  "utf8_cont b \<longleftrightarrow> 0x80 \<le> b \<and> b \<le> 0xBF"

fun utf8_valid :: "u8 list \<Rightarrow> bool" where
  "utf8_valid [] \<longleftrightarrow> True"
| "utf8_valid (a # bs) \<longleftrightarrow>
     (if a < 0x80 then utf8_valid bs
      else if 0xC2 \<le> a \<and> a \<le> 0xDF then
        (case bs of b # rest \<Rightarrow> utf8_cont b \<and> utf8_valid rest | _ \<Rightarrow> False)
      else if 0xE0 \<le> a \<and> a \<le> 0xEF then
        (case bs of
           b # c # rest \<Rightarrow>
             (if a = 0xE0 then 0xA0 \<le> b \<and> b \<le> 0xBF
              else if a = 0xED then 0x80 \<le> b \<and> b \<le> 0x9F
              else utf8_cont b) \<and> utf8_cont c \<and> utf8_valid rest
         | _ \<Rightarrow> False)
      else if 0xF0 \<le> a \<and> a \<le> 0xF4 then
        (case bs of
           b # c # d # rest \<Rightarrow>
             (if a = 0xF0 then 0x90 \<le> b \<and> b \<le> 0xBF
              else if a = 0xF4 then 0x80 \<le> b \<and> b \<le> 0x8F
              else utf8_cont b) \<and> utf8_cont c \<and> utf8_cont d \<and> utf8_valid rest
         | _ \<Rightarrow> False)
      else False)"

section \<open>String slices\<close>

text \<open>
  A \<open>str\<close> is its UTF-8 bytes. \<open>&s[a..b]\<close> panics (\<open>None\<close>) out of range and inside a character.
\<close>

type_synonym str = "u8 list"

definition char_boundary :: "str \<Rightarrow> nat \<Rightarrow> bool" where
  "char_boundary s i \<longleftrightarrow> i = length s \<or> i < length s \<and> \<not> utf8_cont (s ! i)"

definition str_slice :: "str \<Rightarrow> nat \<Rightarrow> nat \<Rightarrow> str option" where
  "str_slice s a b =
     (if a \<le> b \<and> b \<le> length s \<and> char_boundary s a \<and> char_boundary s b
      then Some (take (b - a) (drop a s)) else None)"

section \<open>Checked arithmetic\<close>

text \<open>A result in \<open>i128\<close>; past it a checked build panics (\<open>None\<close>).\<close>

definition i128_of :: "int \<Rightarrow> int option" where
  "i128_of x = (if - (2 ^ 127) \<le> x \<and> x < 2 ^ 127 then Some x else None)"

end
