(* ===== verification/HdBase.thy ===== *)
theory HdBase
  imports HdPrelude
begin

text \<open>
  \<^verbatim>\<open>crates/hd_base/src/lib.rs\<close> and \<^verbatim>\<open>crates/hd_base/src/hash.rs\<close>: the 32-bit ids with
  their absent sentinel, the \<open>Fuel\<close> work budget, and the seeded word mixer of the in-run hash
  tables.
\<close>

section \<open>Ids\<close>

text \<open>The macro \<open>id!\<close>: every id is a \<open>u32\<close> whose greatest value means "none".\<close>

datatype id32 = Id (raw: u32)

definition id_none :: id32 where
  "id_none = Id (- 1)"

definition id_from_raw :: "u32 \<Rightarrow> id32" where
  "id_from_raw r = Id r"

definition id_get :: "id32 \<Rightarrow> id32 option" where
  "id_get i = (if raw i = - 1 then None else Some i)"

text \<open>\<open>idx\<close> asserts that the id is present; \<open>None\<close> is the failed assertion.\<close>

definition id_idx :: "id32 \<Rightarrow> nat option" where
  "id_idx i = (if raw i \<noteq> - 1 then Some (unat (raw i)) else None)"

lemma id_get_from_raw: "id_get (id_from_raw r) = (if id_from_raw r = id_none then None else Some (Id r))"
  by (simp add: id_get_def id_from_raw_def id_none_def)

lemma id_idx_bound: "id_idx i = Some n \<Longrightarrow> n < 2 ^ 32 - 1"
proof -
  assume a: "id_idx i = Some n"
  then have ne: "raw i \<noteq> - 1" and n: "n = unat (raw i)"
    by (auto simp: id_idx_def split: if_splits)
  have "unat (raw i) < 2 ^ 32" using unsigned_less [of "raw i"] by simp
  moreover have "unat (raw i) \<noteq> 2 ^ 32 - 1"
    using ne word_unat_eq_iff [of "raw i" "- 1"]
    by (simp add: unsigned_minus_1_eq_mask mask_eq_exp_minus_1)
  ultimately show ?thesis using n by linarith
qed

section \<open>Fuel\<close>

record fuel =
  fuel_left :: u64
  fuel_spent :: u64

definition fuel_new :: "u64 \<Rightarrow> fuel" where
  "fuel_new steps = \<lparr>fuel_left = steps, fuel_spent = 0\<rparr>"

definition fuel_charge :: "fuel \<Rightarrow> u64 \<Rightarrow> bool \<times> fuel" where
  "fuel_charge f steps =
     (let f = f\<lparr>fuel_spent := sat_add64 (fuel_spent f) steps\<rparr>
      in if fuel_left f < steps then (False, f\<lparr>fuel_left := 0\<rparr>)
         else (True, f\<lparr>fuel_left := fuel_left f - steps\<rparr>))"

definition fuel_is_empty :: "fuel \<Rightarrow> bool" where
  "fuel_is_empty f \<longleftrightarrow> fuel_left f = 0"

text \<open>A run of charges: whether every one of them was granted, and the fuel afterwards.\<close>

fun fuel_charges :: "fuel \<Rightarrow> u64 list \<Rightarrow> bool \<times> fuel" where
  "fuel_charges f [] = (True, f)"
| "fuel_charges f (s # ss) =
     (let (ok, f1) = fuel_charge f s; (oks, f2) = fuel_charges f1 ss in (ok \<and> oks, f2))"

lemma fuel_charge_granted:
  "fst (fuel_charge f s) \<longleftrightarrow> unat s \<le> unat (fuel_left f)"
  by (auto simp: fuel_charge_def Let_def word_less_nat_alt)

lemma fuel_charge_left:
  "unat (fuel_left (snd (fuel_charge f s))) = unat (fuel_left f) - unat s"
  by (auto simp: fuel_charge_def Let_def word_less_nat_alt unat_sub word_le_nat_alt not_less)

lemma fuel_charge_spent:
  "unat (fuel_spent (snd (fuel_charge f s))) = min (unat (fuel_spent f) + unat s) (2 ^ 64 - 1)"
  by (auto simp: fuel_charge_def Let_def unat_sat_add64)

lemma fuel_charge_refused:
  "\<not> fst (fuel_charge f s) \<Longrightarrow> fuel_is_empty (snd (fuel_charge f s))"
  by (auto simp: fuel_charge_def Let_def fuel_is_empty_def)

lemma fuel_charges_granted:
  "fst (fuel_charges f ss) \<longleftrightarrow> sum_list (map unat ss) \<le> unat (fuel_left f)"
proof (induction ss arbitrary: f)
  case Nil
  then show ?case by simp
next
  case (Cons s ss)
  have "fst (fuel_charges f (s # ss)) \<longleftrightarrow>
      fst (fuel_charge f s) \<and> fst (fuel_charges (snd (fuel_charge f s)) ss)"
    by (simp add: Let_def split: prod.splits)
  with Cons.IH [of "snd (fuel_charge f s)"] show ?case
    by (auto simp: fuel_charge_granted fuel_charge_left)
qed

lemma fuel_charges_spent:
  "unat (fuel_spent (snd (fuel_charges f ss))) =
     min (unat (fuel_spent f) + sum_list (map unat ss)) (2 ^ 64 - 1)"
proof (induction ss arbitrary: f)
  case Nil
  have "unat (fuel_spent f) < 2 ^ 64" using unsigned_less [of "fuel_spent f"] by simp
  then show ?case by simp
next
  case (Cons s ss)
  have "snd (fuel_charges f (s # ss)) = snd (fuel_charges (snd (fuel_charge f s)) ss)"
    by (simp add: Let_def split: prod.splits)
  with Cons.IH [of "snd (fuel_charge f s)"] show ?case
    by (simp add: fuel_charge_spent)
qed

section \<open>The in-run hasher\<close>

text \<open>
  \<open>FixedHasher\<close>: one 64-bit word of state. \<open>write\<close> mixes in the length, then the eight-byte
  chunks, then the zero-padded tail when there is one.
\<close>

definition fh_mul :: u64 where
  "fh_mul = 0xf1357aea2e62a9c5"

definition fh_word :: "u64 \<Rightarrow> u64 \<Rightarrow> u64" where
  "fh_word h w = (h + w) * fh_mul"

definition fh_finish :: "u64 \<Rightarrow> u64" where
  "fh_finish h = word_rotl 26 h"

function fh_chunks :: "u64 \<Rightarrow> u8 list \<Rightarrow> u64" where
  "fh_chunks h bs =
     (if 8 \<le> length bs then fh_chunks (fh_word h (of_le_bytes (take 8 bs))) (drop 8 bs)
      else if bs \<noteq> [] then fh_word h (of_le_bytes (bs @ replicate (8 - length bs) 0))
      else h)"
  by pat_completeness auto
termination
  by (relation "measure (\<lambda>(h, bs). length bs)") auto

declare fh_chunks.simps [simp del]

definition fh_write :: "u64 \<Rightarrow> u8 list \<Rightarrow> u64" where
  "fh_write h bytes = fh_chunks (fh_word h (word_of_nat (length bytes))) bytes"

definition fh_write_u8 :: "u64 \<Rightarrow> u8 \<Rightarrow> u64" where
  "fh_write_u8 h v = fh_word h (ucast v)"

definition fh_write_u16 :: "u64 \<Rightarrow> u16 \<Rightarrow> u64" where
  "fh_write_u16 h v = fh_word h (ucast v)"

definition fh_write_u32 :: "u64 \<Rightarrow> u32 \<Rightarrow> u64" where
  "fh_write_u32 h v = fh_word h (ucast v)"

definition fh_write_u64 :: "u64 \<Rightarrow> u64 \<Rightarrow> u64" where
  "fh_write_u64 h v = fh_word h v"

text \<open>The multiplier is odd, so one mixing step is a bijection in either argument.\<close>

lemma fh_mul_inverse: "fh_mul * 0x781494a55daaed0d = 1"
  unfolding fh_mul_def
  by (rule word_unat_eq_iff [THEN iffD2]) (simp add: unat_word_ariths)

lemma fh_word_inject_word: "fh_word h v = fh_word h w \<longleftrightarrow> v = w"
proof
  assume "fh_word h v = fh_word h w"
  then have "(h + v) * fh_mul * 0x781494a55daaed0d = (h + w) * fh_mul * 0x781494a55daaed0d"
    by (simp add: fh_word_def)
  then show "v = w"
    by (simp only: mult.assoc fh_mul_inverse) simp
qed simp

lemma fh_word_inject_state: "fh_word g w = fh_word h w \<longleftrightarrow> g = h"
  using fh_word_inject_word [of w g h] by (simp add: fh_word_def add.commute)

lemma fh_finish_inject: "fh_finish g = fh_finish h \<longleftrightarrow> g = h"
  by (metis fh_finish_def word_rot_lr)

text \<open>The words a byte string is mixed in as.\<close>

function fh_words :: "u8 list \<Rightarrow> u64 list" where
  "fh_words bs =
     (if 8 \<le> length bs then of_le_bytes (take 8 bs) # fh_words (drop 8 bs)
      else if bs \<noteq> [] then [of_le_bytes (bs @ replicate (8 - length bs) 0)]
      else [])"
  by pat_completeness auto
termination
  by (relation "measure length") auto

declare fh_words.simps [simp del]

lemma fh_chunks_words: "fh_chunks h bs = foldl fh_word h (fh_words bs)"
proof (induction h bs rule: fh_chunks.induct)
  case (1 h bs)
  then show ?case
    by (simp add: fh_chunks.simps [of h bs] fh_words.simps [of bs])
qed

lemma foldl_fh_word_inject_state: "foldl fh_word g ws = foldl fh_word h ws \<longleftrightarrow> g = h"
  by (induction ws arbitrary: g h) (auto simp: fh_word_inject_state)

lemma foldl_fh_word_one_change:
  "v \<noteq> w \<Longrightarrow> foldl fh_word h (us @ v # ws) \<noteq> foldl fh_word h (us @ w # ws)"
  by (simp add: foldl_fh_word_inject_state fh_word_inject_word)

section \<open>Budgets and single words\<close>

text \<open>A run of charges against a budget is granted as a whole exactly when the charges add up to at
  most the budget, and the fuel counts every charge, granted or not, up to the greatest \<open>u64\<close>.\<close>

lemma fuel_charges_budget:
  "(fst (fuel_charges (fuel_new b) cs) \<longleftrightarrow> sum_list (map unat cs) \<le> unat b) \<and>
   unat (fuel_spent (snd (fuel_charges (fuel_new b) cs))) = min (sum_list (map unat cs)) (2 ^ 64 - 1)"
  by (simp add: fuel_charges_granted fuel_charges_spent) (simp add: fuel_new_def)

text \<open>The in-run hasher never loses one word: two byte strings written to the same state, of the
  same length and with the same words but one, finish with different hashes.\<close>

lemma fh_write_one_word:
  assumes "length bs = length cs" "fh_words bs = us @ v # ws" "fh_words cs = us @ w # ws" "v \<noteq> w"
  shows "fh_finish (fh_write h bs) \<noteq> fh_finish (fh_write h cs)"
  using assms foldl_fh_word_one_change [of v w "fh_word h (word_of_nat (length cs))" us ws]
  by (simp add: fh_write_def fh_chunks_words fh_finish_inject)

lemma fh_write_one_word_example:
  "fh_finish (fh_write 0 [1, 2, 3]) \<noteq> fh_finish (fh_write 0 [1, 2, 4])"
proof (rule fh_write_one_word [where us = "[]" and ws = "[]"])
  show "length [1, 2, 3 :: u8] = length [1, 2, 4 :: u8]" by simp
  show "fh_words [1, 2, 3] = [] @ of_le_bytes [1, 2, 3, 0, 0, 0, 0, 0] # []"
    and "fh_words [1, 2, 4] = [] @ of_le_bytes [1, 2, 4, 0, 0, 0, 0, 0] # []"
    by (simp_all add: fh_words.simps eval_nat_numeral)
  show "(of_le_bytes [1, 2, 3, 0, 0, 0, 0, 0] :: u64) \<noteq> of_le_bytes [1, 2, 4, 0, 0, 0, 0, 0]"
    by (simp add: of_le_bytes_def)
qed

end
