(* ===== verification/Sched.thy ===== *)
theory Sched
  imports HdPrelude
begin

text \<open>
  \<^verbatim>\<open>crates/hd_sched/src/lib.rs\<close> and \<^verbatim>\<open>crates/hd_sched/src/pool.rs\<close>: the dynamic task graph of
  a run and its executors. A task id is an index into the node list. \<open>None\<close> is a panic: an index
  out of range, the assertion of \<open>edge\<close>, or the overflow checks of a checked build on the
  \<open>u32\<close> counter \<open>waiting_on\<close>. The ready queue is private to the graph and holds only
  existing ids (\<open>graph_ok\<close>), so \<open>pop\<close> never indexes out of range.
\<close>

section \<open>The graph\<close>

datatype ext_task = Collect | Link | Precompile | RunCase u32

datatype task_kind =
    Skim u32 | Parse u32 | FolderGraph | FolderIface u32 | HeaderCheck u32 | ModulePrep u32
  | Body u32 | ModuleFinish u32 | Coherence | InitOrder u32 | PackageResult | Ext ext_task

datatype task_state = Waiting | Ready | Running | Done | Cancelled

record task_node =
  kind :: task_kind
  waiting_on :: nat
  successors :: "nat list"
  state :: task_state
  priority :: u32

record task_graph =
  nodes :: "task_node list"
  ready :: "nat list"

datatype serial_order = Fifo | Priority | Shuffled u64

definition empty_graph :: task_graph where
  "empty_graph = \<lparr>nodes = [], ready = []\<rparr>"

definition put_node :: "task_graph \<Rightarrow> nat \<Rightarrow> task_node \<Rightarrow> task_graph" where
  "put_node g i n = g\<lparr>nodes := (nodes g)[i := n]\<rparr>"

text \<open>
  \<open>n.waiting_on -= 1\<close> and, when nothing is left to wait for, \<open>Ready\<close> and onto the queue: the
  shared step of \<open>release\<close> and \<open>complete\<close>.
\<close>

definition release :: "task_graph \<Rightarrow> nat \<Rightarrow> task_graph option" where
  "release g tid =
     (if tid < length (nodes g) then
        let n = nodes g ! tid
        in if waiting_on n = 0 then None
           else let n' = n\<lparr>waiting_on := waiting_on n - 1\<rparr>
                in if waiting_on n' = 0 \<and> state n' = Waiting
                   then Some ((put_node g tid (n'\<lparr>state := Ready\<rparr>))\<lparr>ready := ready g @ [tid]\<rparr>)
                   else Some (put_node g tid n')
      else None)"

definition edge :: "task_graph \<Rightarrow> nat \<Rightarrow> nat \<Rightarrow> task_graph option" where
  "edge g from to =
     (if \<not> to < length (nodes g) \<or> state (nodes g ! to) \<notin> {Waiting, Ready} then None
      else if \<not> from < length (nodes g) then None
      else if state (nodes g ! from) \<in> {Done, Cancelled} then Some g
      else
        let g1 = (if state (nodes g ! to) = Ready
                  then (put_node g to ((nodes g ! to)\<lparr>state := Waiting\<rparr>))
                         \<lparr>ready := filter (\<lambda>r. r \<noteq> to) (ready g)\<rparr>
                  else g);
            f = nodes g1 ! from;
            g2 = put_node g1 from (f\<lparr>successors := successors f @ [to]\<rparr>);
            t = nodes g2 ! to
        in if waiting_on t + 1 < 2 ^ 32
           then Some (put_node g2 to (t\<lparr>waiting_on := waiting_on t + 1\<rparr>))
           else None)"

fun edges_into :: "task_graph \<Rightarrow> nat list \<Rightarrow> nat \<Rightarrow> task_graph option" where
  "edges_into g [] tid = Some g"
| "edges_into g (d # ds) tid = (case edge g d tid of None \<Rightarrow> None | Some g' \<Rightarrow> edges_into g' ds tid)"

definition add_held :: "task_graph \<Rightarrow> task_kind \<Rightarrow> nat list \<Rightarrow> u32 \<Rightarrow> (nat \<times> task_graph) option" where
  "add_held g k deps prio =
     (let tid = length (nodes g);
          n = \<lparr>kind = k, waiting_on = 1, successors = [], state = Waiting, priority = prio\<rparr>;
          g' = g\<lparr>nodes := nodes g @ [n]\<rparr>
      in map_option (Pair tid) (edges_into g' deps tid))"

definition add_with_priority :: "task_graph \<Rightarrow> task_kind \<Rightarrow> nat list \<Rightarrow> u32 \<Rightarrow> (nat \<times> task_graph) option" where
  "add_with_priority g k deps prio =
     (case add_held g k deps prio of
        None \<Rightarrow> None
      | Some (tid, g') \<Rightarrow> map_option (Pair tid) (release g' tid))"

definition add :: "task_graph \<Rightarrow> task_kind \<Rightarrow> nat list \<Rightarrow> (nat \<times> task_graph) option" where
  "add g k deps = add_with_priority g k deps 0"

text \<open>
  \<open>max_by_key\<close> over the queue: the last position of the greatest key, which is the priority and
  then \<open>usize::MAX - id\<close>.
\<close>

definition key_le :: "task_graph \<Rightarrow> nat \<Rightarrow> nat \<Rightarrow> bool" where
  "key_le g s t \<longleftrightarrow>
     (let p = priority (nodes g ! s); q = priority (nodes g ! t) in p < q \<or> p = q \<and> t \<le> s)"

fun best_from :: "task_graph \<Rightarrow> nat \<Rightarrow> nat \<Rightarrow> nat \<Rightarrow> nat list \<Rightarrow> nat" where
  "best_from g best at i [] = at"
| "best_from g best at i (t # ts) =
     (if key_le g best t then best_from g t i (Suc i) ts else best_from g best at (Suc i) ts)"

definition pick :: "serial_order \<Rightarrow> task_graph \<Rightarrow> nat option" where
  "pick order g =
     (case order of
        Fifo \<Rightarrow> Some 0
      | Priority \<Rightarrow> (case ready g of [] \<Rightarrow> None | t # ts \<Rightarrow> Some (best_from g t 0 1 ts))
      | Shuffled seed \<Rightarrow>
          if ready g = [] then None
          else let x = seed XOR (word_of_nat (length (nodes g)) * 0x9e3779b97f4a7c15)
                         XOR word_of_nat (length (ready g))
               in Some (unat (drop_bit 33 (x * 0xbf58476d1ce4e5b9)) mod length (ready g)))"

definition remove_at :: "'a list \<Rightarrow> nat \<Rightarrow> 'a list" where
  "remove_at xs i = take i xs @ drop (Suc i) xs"

definition start_at :: "task_graph \<Rightarrow> nat \<Rightarrow> nat \<times> task_graph" where
  "start_at g at =
     (let tid = ready g ! at
      in (tid, (put_node g tid ((nodes g ! tid)\<lparr>state := Running\<rparr>))
                 \<lparr>ready := remove_at (ready g) at\<rparr>))"

definition pop :: "serial_order \<Rightarrow> task_graph \<Rightarrow> (nat \<times> task_graph) option" where
  "pop order g =
     (case pick order g of
        None \<Rightarrow> None
      | Some at \<Rightarrow> if at < length (ready g) then Some (start_at g at) else None)"

fun release_all :: "task_graph \<Rightarrow> nat list \<Rightarrow> task_graph option" where
  "release_all g [] = Some g"
| "release_all g (s # ss) = (case release g s of None \<Rightarrow> None | Some g' \<Rightarrow> release_all g' ss)"

definition complete :: "task_graph \<Rightarrow> nat \<Rightarrow> task_graph option" where
  "complete g tid =
     (if tid < length (nodes g) then
        let n = nodes g ! tid
        in release_all (put_node g tid (n\<lparr>state := Done, successors := []\<rparr>)) (successors n)
      else None)"

definition cancel_all :: "task_graph \<Rightarrow> task_graph" where
  "cancel_all g =
     g\<lparr>nodes := map (\<lambda>n. if state n \<noteq> Done then n\<lparr>state := Cancelled\<rparr> else n) (nodes g), ready := []\<rparr>"

definition unfinished :: "task_graph \<Rightarrow> nat" where
  "unfinished g = length (filter (\<lambda>n. state n \<notin> {Done, Cancelled}) (nodes g))"

section \<open>The invariant of the graph\<close>

text \<open>How many unfinished edges lead into a task.\<close>

definition in_degree :: "task_graph \<Rightarrow> nat \<Rightarrow> nat" where
  "in_degree g t = sum_list (map (\<lambda>n. count_list (successors n) t) (nodes g))"

text \<open>
  \<open>held\<close> is the set of tasks behind their creation guard, which the code does not record, and
  \<open>owed\<close> the decrements \<open>complete\<close> still has to make. A task waits exactly while something is
  left to wait for, and it is queued exactly while it is ready.
\<close>

definition graph_ok :: "nat set \<Rightarrow> nat list \<Rightarrow> task_graph \<Rightarrow> bool" where
  "graph_ok held owed g \<longleftrightarrow>
     distinct (ready g) \<and>
     set (ready g) = {t. t < length (nodes g) \<and> state (nodes g ! t) = Ready} \<and>
     held \<subseteq> {..<length (nodes g)} \<and> set owed \<subseteq> {..<length (nodes g)} \<and>
     (\<forall>t < length (nodes g).
        state (nodes g ! t) \<noteq> Cancelled \<and>
        (state (nodes g ! t) = Done \<longrightarrow> successors (nodes g ! t) = []) \<and>
        set (successors (nodes g ! t)) \<subseteq> {..<length (nodes g)} \<and>
        waiting_on (nodes g ! t) =
          in_degree g t + (if t \<in> held then 1 else 0) + count_list owed t \<and>
        (state (nodes g ! t) = Waiting \<longleftrightarrow> 0 < waiting_on (nodes g ! t)))"

lemma graph_okI:
  assumes "distinct (ready g)"
    and "\<And>t. t \<in> set (ready g) \<longleftrightarrow> t < length (nodes g) \<and> state (nodes g ! t) = Ready"
    and "held \<subseteq> {..<length (nodes g)}" "set owed \<subseteq> {..<length (nodes g)}"
    and "\<And>t. t < length (nodes g) \<Longrightarrow> state (nodes g ! t) \<noteq> Cancelled"
    and "\<And>t. t < length (nodes g) \<Longrightarrow> state (nodes g ! t) = Done \<Longrightarrow> successors (nodes g ! t) = []"
    and "\<And>t. t < length (nodes g) \<Longrightarrow> set (successors (nodes g ! t)) \<subseteq> {..<length (nodes g)}"
    and "\<And>t. t < length (nodes g) \<Longrightarrow>
           waiting_on (nodes g ! t) = in_degree g t + (if t \<in> held then 1 else 0) + count_list owed t"
    and "\<And>t. t < length (nodes g) \<Longrightarrow> state (nodes g ! t) = Waiting \<longleftrightarrow> 0 < waiting_on (nodes g ! t)"
  shows "graph_ok held owed g"
  unfolding graph_ok_def using assms by (intro conjI) auto

lemma graph_okD:
  assumes "graph_ok held owed g"
  shows "distinct (ready g)"
    and "t \<in> set (ready g) \<longleftrightarrow> t < length (nodes g) \<and> state (nodes g ! t) = Ready"
    and "held \<subseteq> {..<length (nodes g)}" "set owed \<subseteq> {..<length (nodes g)}"
    and "t < length (nodes g) \<Longrightarrow> state (nodes g ! t) \<noteq> Cancelled"
    and "t < length (nodes g) \<Longrightarrow> state (nodes g ! t) = Done \<Longrightarrow> successors (nodes g ! t) = []"
    and "t < length (nodes g) \<Longrightarrow> set (successors (nodes g ! t)) \<subseteq> {..<length (nodes g)}"
    and "t < length (nodes g) \<Longrightarrow>
           waiting_on (nodes g ! t) = in_degree g t + (if t \<in> held then 1 else 0) + count_list owed t"
    and "t < length (nodes g) \<Longrightarrow> state (nodes g ! t) = Waiting \<longleftrightarrow> 0 < waiting_on (nodes g ! t)"
  using assms unfolding graph_ok_def by blast+

lemma count_list_snoc: "count_list (xs @ [x]) t = count_list xs t + (if x = t then 1 else 0)"
  by (induction xs) auto

lemma sum_list_update_add:
  fixes f :: "'a \<Rightarrow> nat"
  shows "i < length xs \<Longrightarrow>
    sum_list (map f (xs[i := x])) + f (xs ! i) = sum_list (map f xs) + f x"
proof (induction xs arbitrary: i)
  case Nil
  then show ?case by simp
next
  case (Cons y ys)
  show ?case
  proof (cases i)
    case 0
    then show ?thesis by simp
  next
    case (Suc j)
    with Cons.prems have "j < length ys" by simp
    from Cons.IH [OF this] Suc show ?thesis by simp
  qed
qed

lemma in_degree_put_node:
  "i < length (nodes g) \<Longrightarrow>
   in_degree (put_node g i n) t + count_list (successors (nodes g ! i)) t =
     in_degree g t + count_list (successors n) t"
  unfolding in_degree_def put_node_def
  using sum_list_update_add [of i "nodes g" "\<lambda>n. count_list (successors n) t" n] by simp

lemma in_degree_put_same [simp]:
  "i < length (nodes g) \<Longrightarrow> successors n = successors (nodes g ! i) \<Longrightarrow>
   in_degree (put_node g i n) t = in_degree g t"
  using in_degree_put_node [of i g n t] by simp

lemma in_degree_ready [simp]: "in_degree (g\<lparr>ready := q\<rparr>) t = in_degree g t"
  by (simp add: in_degree_def)

lemma nodes_put_node [simp]: "nodes (put_node g i n) = (nodes g)[i := n]"
  by (simp add: put_node_def)

lemma ready_put_node [simp]: "ready (put_node g i n) = ready g"
  by (simp add: put_node_def)

lemma in_degree_pos:
  assumes "i < length (nodes g)" "t \<in> set (successors (nodes g ! i))"
  shows "0 < in_degree g t"
proof -
  have "0 < count_list (successors (nodes g ! i)) t"
    using assms(2) by (metis count_list_0_iff gr0I)
  moreover have "count_list (successors (nodes g ! i)) t \<in>
      set (map (\<lambda>n. count_list (successors n) t) (nodes g))"
    using assms(1) by auto
  ultimately show ?thesis
    unfolding in_degree_def by (metis gr0I member_le_sum_list not_less zero_le)
qed

lemma in_degree_witness:
  assumes "0 < in_degree g t"
  obtains i where "i < length (nodes g)" "t \<in> set (successors (nodes g ! i))"
proof -
  have "\<exists>n \<in> set (nodes g). 0 < count_list (successors n) t"
  proof (rule ccontr)
    assume "\<not> ?thesis"
    then have "\<forall>x \<in> set (map (\<lambda>n. count_list (successors n) t) (nodes g)). x = 0" by auto
    then have "in_degree g t = 0" unfolding in_degree_def by (simp only: sum_list_eq_0_iff)
    with assms show False by simp
  qed
  then obtain n where "n \<in> set (nodes g)" "0 < count_list (successors n) t" by blast
  then show ?thesis
    using that by (metis count_list_0_iff in_set_conv_nth less_irrefl)
qed

lemma graph_ok_empty: "graph_ok {} [] empty_graph"
  by (simp add: graph_ok_def empty_graph_def)

text \<open>What the invariant gives: an edge leads to a waiting task, a held task waits.\<close>

lemma graph_ok_successor:
  assumes "graph_ok held owed g" "i < length (nodes g)" "t \<in> set (successors (nodes g ! i))"
  shows "t < length (nodes g)" "state (nodes g ! t) = Waiting"
proof -
  show t: "t < length (nodes g)"
    using assms by (auto simp: graph_ok_def)
  have "0 < in_degree g t" using assms(2,3) by (rule in_degree_pos)
  with t assms(1) show "state (nodes g ! t) = Waiting"
    by (auto simp: graph_ok_def)
qed

lemma graph_ok_held:
  "graph_ok held owed g \<Longrightarrow> t \<in> held \<Longrightarrow> t < length (nodes g) \<and> state (nodes g ! t) = Waiting"
  by (auto simp: graph_ok_def)

section \<open>Every operation keeps the invariant\<close>

text \<open>\<open>release\<close> pays one unit: the guard of a held task, or a decrement owed by \<open>complete\<close>.\<close>

lemma release_ok:
  assumes ok: "graph_ok held owed g" and r: "release g t = Some g'"
    and pays: "t \<in> held \<and> held' = held - {t} \<and> owed' = owed \<or> held' = held \<and> owed = t # owed'"
  shows "graph_ok held' owed' g'"
proof -
  let ?n = "nodes g ! t"
  have t: "t < length (nodes g)" and w: "waiting_on ?n \<noteq> 0"
    using r by (auto simp: release_def Let_def split: if_splits)
  have st: "state ?n = Waiting" using ok t w by (auto simp: graph_ok_def)
  have dec: "waiting_on ?n - 1 = in_degree g t + (if t \<in> held' then 1 else 0) + count_list owed' t"
    using ok t pays by (auto simp: graph_ok_def)
  have oth: "(if u \<in> held' then 1 else 0) + count_list owed' u =
      (if u \<in> held then 1 else (0::nat)) + count_list owed u" if "u \<noteq> t" for u
    using pays that by auto
  have sub: "held' \<subseteq> {..<length (nodes g)}" "set owed' \<subseteq> {..<length (nodes g)}"
    using ok pays by (auto simp: graph_ok_def)
  have rd: "distinct (ready g)" "set (ready g) = {t. t < length (nodes g) \<and> state (nodes g ! t) = Ready}"
    using ok by (auto simp: graph_ok_def)
  have old: "state (nodes g ! u) \<noteq> Cancelled" "state (nodes g ! u) = Done \<longrightarrow> successors (nodes g ! u) = []"
      "set (successors (nodes g ! u)) \<subseteq> {..<length (nodes g)}"
      "waiting_on (nodes g ! u) = in_degree g u + (if u \<in> held then 1 else 0) + count_list owed u"
      "state (nodes g ! u) = Waiting \<longleftrightarrow> 0 < waiting_on (nodes g ! u)"
    if "u < length (nodes g)" for u
    using ok that by (auto simp: graph_ok_def)
  show ?thesis
  proof (cases "waiting_on ?n - 1 = 0")
    case True
    let ?m = "?n\<lparr>waiting_on := waiting_on ?n - 1, state := Ready\<rparr>"
    have g': "g' = (put_node g t ?m)\<lparr>ready := ready g @ [t]\<rparr>"
      using r t w st True by (auto simp: release_def Let_def)
    have "t \<notin> set (ready g)" using rd(2) st by auto
    with rd t have "distinct (ready g')" "set (ready g') = {u. u < length (nodes g') \<and> state (nodes g' ! u) = Ready}"
      by (auto simp: g' nth_list_update)
    moreover have "in_degree g' u = in_degree g u" for u
      using t by (simp add: g')
    ultimately show ?thesis
      using t True dec oth sub old st unfolding graph_ok_def
      by (auto simp: g' nth_list_update)
  next
    case False
    let ?m = "?n\<lparr>waiting_on := waiting_on ?n - 1\<rparr>"
    have g': "g' = put_node g t ?m"
      using r t w st False by (auto simp: release_def Let_def)
    from rd t st have "distinct (ready g')" "set (ready g') = {u. u < length (nodes g') \<and> state (nodes g' ! u) = Ready}"
      by (auto simp: g' nth_list_update)
    moreover have "in_degree g' u = in_degree g u" for u
      using t by (simp add: g')
    ultimately show ?thesis
      using t False dec oth sub old st unfolding graph_ok_def
      by (auto simp: g' nth_list_update)
  qed
qed

lemma release_all_ok:
  "graph_ok held (owed @ owed') g \<Longrightarrow> release_all g owed = Some g' \<Longrightarrow> graph_ok held owed' g'"
proof (induction owed arbitrary: g)
  case Nil
  then show ?case by simp
next
  case (Cons t ts)
  then obtain g1 where g1: "release g t = Some g1" "release_all g1 ts = Some g'"
    by (auto split: option.splits)
  have "graph_ok held (ts @ owed') g1"
    by (rule release_ok [OF Cons.prems(1) g1(1)]) simp
  then show ?case using g1(2) by (rule Cons.IH)
qed

text \<open>Under the invariant \<open>complete\<close> and \<open>release\<close> never panic.\<close>

lemma release_total:
  assumes "graph_ok held owed g" "t \<in> held \<or> t \<in> set owed"
  shows "\<exists>g'. release g t = Some g'"
proof -
  have "t < length (nodes g)" using assms by (auto simp: graph_ok_def)
  moreover have "0 < (if t \<in> held then 1 else 0) + count_list owed t"
    using assms(2) by (metis add_gr_0 count_list_0_iff gr0I zero_less_one)
  ultimately show ?thesis
    using assms(1) by (auto simp: release_def Let_def graph_ok_def)
qed

lemma release_all_total:
  "graph_ok held (owed @ owed') g \<Longrightarrow> \<exists>g'. release_all g owed = Some g'"
proof (induction owed arbitrary: g)
  case Nil
  then show ?case by simp
next
  case (Cons t ts)
  from release_total [OF Cons.prems, of t] obtain g1 where g1: "release g t = Some g1" by auto
  have "graph_ok held (ts @ owed') g1"
    by (rule release_ok [OF Cons.prems g1]) simp
  then obtain g' where "release_all g1 ts = Some g'" using Cons.IH by blast
  with g1 show ?case by simp
qed

text \<open>What \<open>edge\<close> does when its source is still to finish.\<close>

lemma edge_open:
  assumes e: "edge g f t = Some g'" and f: "state (nodes g ! f) \<notin> {Done, Cancelled}"
  shows "t < length (nodes g)" "f < length (nodes g)" "state (nodes g ! t) \<in> {Waiting, Ready}"
    "length (nodes g') = length (nodes g)"
    "ready g' = (if state (nodes g ! t) = Ready then filter (\<lambda>r. r \<noteq> t) (ready g) else ready g)"
    "\<And>u. u < length (nodes g) \<Longrightarrow> state (nodes g' ! u) = (if u = t then Waiting else state (nodes g ! u))"
    "\<And>u. u < length (nodes g) \<Longrightarrow>
       waiting_on (nodes g' ! u) = waiting_on (nodes g ! u) + (if u = t then 1 else 0)"
    "\<And>u. u < length (nodes g) \<Longrightarrow>
       successors (nodes g' ! u) = successors (nodes g ! u) @ (if u = f then [t] else [])"
    "\<And>u. u < length (nodes g) \<Longrightarrow> kind (nodes g' ! u) = kind (nodes g ! u)"
    "\<And>u. in_degree g' u = in_degree g u + (if u = t then 1 else 0)"
proof -
  let ?g1 = "if state (nodes g ! t) = Ready
             then (put_node g t ((nodes g ! t)\<lparr>state := Waiting\<rparr>))\<lparr>ready := filter (\<lambda>r. r \<noteq> t) (ready g)\<rparr>
             else g"
  let ?g2 = "put_node ?g1 f ((nodes ?g1 ! f)\<lparr>successors := successors (nodes ?g1 ! f) @ [t]\<rparr>)"
  show len: "t < length (nodes g)" "f < length (nodes g)" and st: "state (nodes g ! t) \<in> {Waiting, Ready}"
    using e f by (auto simp: edge_def split: if_splits)
  have g': "g' = put_node ?g2 t ((nodes ?g2 ! t)\<lparr>waiting_on := waiting_on (nodes ?g2 ! t) + 1\<rparr>)"
    using e f len st by (simp add: edge_def Let_def split: if_splits)
  show "length (nodes g') = length (nodes g)"
    "ready g' = (if state (nodes g ! t) = Ready then filter (\<lambda>r. r \<noteq> t) (ready g) else ready g)"
    by (simp_all add: g')
  show "state (nodes g' ! u) = (if u = t then Waiting else state (nodes g ! u))"
      "waiting_on (nodes g' ! u) = waiting_on (nodes g ! u) + (if u = t then 1 else 0)"
      "successors (nodes g' ! u) = successors (nodes g ! u) @ (if u = f then [t] else [])"
      "kind (nodes g' ! u) = kind (nodes g ! u)"
    if "u < length (nodes g)" for u
    using len st that by (auto simp: g' nth_list_update)
  have "in_degree ?g1 u = in_degree g u" "length (nodes ?g1) = length (nodes g)" for u
    using len by simp_all
  moreover from this have "in_degree ?g2 u = in_degree ?g1 u + (if u = t then 1 else 0)" for u
    using in_degree_put_node [of f ?g1 "(nodes ?g1 ! f)\<lparr>successors := successors (nodes ?g1 ! f) @ [t]\<rparr>" u] len
    by (auto simp: count_list_snoc)
  ultimately show "in_degree g' u = in_degree g u + (if u = t then 1 else 0)" for u
    using len unfolding g' by (subst in_degree_put_same) auto
qed

lemma edge_closed:
  "edge g f t = Some g' \<Longrightarrow> state (nodes g ! f) \<in> {Done, Cancelled} \<Longrightarrow> g' = g"
  by (auto simp: edge_def split: if_splits)

lemma edge_ok:
  assumes ok: "graph_ok held owed g" and e: "edge g f t = Some g'"
  shows "graph_ok held owed g'"
proof (cases "state (nodes g ! f) \<in> {Done, Cancelled}")
  case True
  with ok e edge_closed show ?thesis by blast
next
  case False
  note o = edge_open [OF e False]
  note d = graph_okD [OF ok]
  show ?thesis
  proof (rule graph_okI)
    show "distinct (ready g')" using d(1) o(5) by auto
    show "u \<in> set (ready g') \<longleftrightarrow> u < length (nodes g') \<and> state (nodes g' ! u) = Ready" for u
    proof (cases "u < length (nodes g)")
      case True
      then show ?thesis
        using d(2) [of u] o(3) o(6) [OF True] by (cases "u = t") (auto simp: o(4,5))
    next
      case False
      then show ?thesis using d(2) [of u] by (simp add: o(4,5))
    qed
    show "held \<subseteq> {..<length (nodes g')}" "set owed \<subseteq> {..<length (nodes g')}"
      using d(3,4) o(4) by simp_all
  next
    fix u assume "u < length (nodes g')"
    then have u: "u < length (nodes g)" using o(4) by simp
    show "state (nodes g' ! u) \<noteq> Cancelled" using d(5) [OF u] o(6) [OF u] by simp
    show "successors (nodes g' ! u) = []" if "state (nodes g' ! u) = Done"
      using that d(6) [OF u] o(6,8) [OF u] False by (auto split: if_splits)
    show "set (successors (nodes g' ! u)) \<subseteq> {..<length (nodes g')}"
      using d(7) [OF u] o(1,4) o(8) [OF u] by auto
    show "waiting_on (nodes g' ! u) =
        in_degree g' u + (if u \<in> held then 1 else 0) + count_list owed u"
      using d(8) [OF u] o(7) [OF u] o(10) by simp
    show "state (nodes g' ! u) = Waiting \<longleftrightarrow> 0 < waiting_on (nodes g' ! u)"
      using d(9) [OF u] o(6,7) [OF u] by simp
  qed
qed

lemma edges_into_ok:
  "graph_ok held owed g \<Longrightarrow> edges_into g ds t = Some g' \<Longrightarrow> graph_ok held owed g'"
  by (induction ds arbitrary: g) (auto split: option.splits dest: edge_ok)

lemma edge_length: "edge g f t = Some g' \<Longrightarrow> length (nodes g') = length (nodes g)"
  using edge_open(4) edge_closed by blast

lemma edges_into_length: "edges_into g ds t = Some g' \<Longrightarrow> length (nodes g') = length (nodes g)"
  by (induction ds arbitrary: g) (auto split: option.splits dest: edge_length)

lemma push_ok:
  assumes ok: "graph_ok held owed g"
  shows "graph_ok (insert (length (nodes g)) held) owed
           (g\<lparr>nodes := nodes g @ [\<lparr>kind = k, waiting_on = 1, successors = [], state = Waiting, priority = p\<rparr>]\<rparr>)"
    (is "graph_ok _ _ ?g")
proof -
  let ?n = "length (nodes g)"
  note d = graph_okD [OF ok]
  have deg: "in_degree ?g t = in_degree g t" for t by (simp add: in_degree_def)
  have zero: "in_degree g ?n = 0"
  proof (rule ccontr)
    assume "in_degree g ?n \<noteq> 0"
    then obtain i where "i < length (nodes g)" "?n \<in> set (successors (nodes g ! i))"
      by (meson in_degree_witness neq0_conv)
    with d(7) show False by auto
  qed
  have new: "?n \<notin> held" "count_list owed ?n = 0"
    using d(3,4) by (auto simp: count_list_0_iff)
  show ?thesis
  proof (rule graph_okI)
    show "distinct (ready ?g)" using d(1) by simp
    show "u \<in> set (ready ?g) \<longleftrightarrow> u < length (nodes ?g) \<and> state (nodes ?g ! u) = Ready" for u
      using d(2) [of u] by (cases "u < length (nodes g)") (simp_all add: nth_append)
    show "insert ?n held \<subseteq> {..<length (nodes ?g)}" "set owed \<subseteq> {..<length (nodes ?g)}"
      using d(3,4) by auto
  next
    fix u assume "u < length (nodes ?g)"
    then consider "u < length (nodes g)" | "u = ?n" by (auto simp: less_Suc_eq)
    note cs = this
    show "state (nodes ?g ! u) \<noteq> Cancelled" using cs d(5) by cases (auto simp: nth_append)
    show "successors (nodes ?g ! u) = []" if "state (nodes ?g ! u) = Done"
      using cs that d(6) by cases (auto simp: nth_append)
    show "set (successors (nodes ?g ! u)) \<subseteq> {..<length (nodes ?g)}"
      using cs d(7) by cases (fastforce simp: nth_append)+
    show "waiting_on (nodes ?g ! u) = in_degree ?g u + (if u \<in> insert ?n held then 1 else 0) + count_list owed u"
      using cs d(8) zero new deg by cases (simp_all add: nth_append)
    show "state (nodes ?g ! u) = Waiting \<longleftrightarrow> 0 < waiting_on (nodes ?g ! u)"
      using cs d(9) by cases (simp_all add: nth_append)
  qed
qed

lemma add_held_ok:
  assumes "graph_ok held owed g" "add_held g k ds p = Some (t, g')"
  shows "graph_ok (insert t held) owed g'" "t = length (nodes g)" "t \<notin> held"
    "length (nodes g') = Suc t"
  using assms edges_into_ok [OF push_ok [OF assms(1), of k p]] graph_okD(3) [OF assms(1)]
  by (auto simp: add_held_def Let_def dest: edges_into_length)

lemma release_length: "release g t = Some g' \<Longrightarrow> length (nodes g') = length (nodes g)"
  by (auto simp: release_def Let_def split: if_splits)

lemma add_with_priority_ok:
  assumes ok: "graph_ok held owed g" and r: "add_with_priority g k ds p = Some (t, g')"
  shows "graph_ok held owed g'" "t = length (nodes g)" "t \<notin> held" "length (nodes g') = Suc t"
proof -
  obtain g1 where a: "add_held g k ds p = Some (t, g1)" "release g1 t = Some g'"
    using r by (auto simp: add_with_priority_def split: option.splits)
  note h = add_held_ok [OF ok a(1)]
  show "t = length (nodes g)" "t \<notin> held" using h by auto
  then have "insert t held - {t} = held" by auto
  with release_ok [OF h(1) a(2), of held owed] show "graph_ok held owed g'" by auto
  show "length (nodes g') = Suc t" using h(4) release_length [OF a(2)] by simp
qed

lemma remove_at_props:
  assumes "i < length xs" "distinct xs"
  shows "distinct (remove_at xs i)" "u \<in> set (remove_at xs i) \<longleftrightarrow> u \<in> set xs \<and> u \<noteq> xs ! i"
    "Suc (length (remove_at xs i)) = length xs"
proof -
  have xs: "xs = take i xs @ xs ! i # drop (Suc i) xs"
    using assms(1) by (rule id_take_nth_drop)
  then have d: "distinct (take i xs @ xs ! i # drop (Suc i) xs)"
    using assms(2) by simp
  then show "distinct (remove_at xs i)" by (auto simp: remove_at_def)
  have "u \<in> set xs \<longleftrightarrow> u \<in> set (take i xs) \<or> u = xs ! i \<or> u \<in> set (drop (Suc i) xs)"
    by (subst (1) xs) auto
  with d show "u \<in> set (remove_at xs i) \<longleftrightarrow> u \<in> set xs \<and> u \<noteq> xs ! i"
    by (auto simp: remove_at_def)
  show "Suc (length (remove_at xs i)) = length xs"
    using assms(1) by (simp add: remove_at_def)
qed

text \<open>Starting a task: it was ready, so it waits for nothing.\<close>

lemma start_at_fields:
  assumes ok: "graph_ok held owed g" and at: "at < length (ready g)" and r: "start_at g at = (t, g')"
  shows "t = ready g ! at" "t < length (nodes g)" "state (nodes g ! t) = Ready"
    "waiting_on (nodes g ! t) = 0"
    "g' = (put_node g t ((nodes g ! t)\<lparr>state := Running\<rparr>))\<lparr>ready := remove_at (ready g) at\<rparr>"
proof -
  note d = graph_okD [OF ok]
  show t: "t = ready g ! at"
    and "g' = (put_node g t ((nodes g ! t)\<lparr>state := Running\<rparr>))\<lparr>ready := remove_at (ready g) at\<rparr>"
    using r by (auto simp: start_at_def Let_def)
  then have "t \<in> set (ready g)" using at by simp
  with d(2) show "t < length (nodes g)" "state (nodes g ! t) = Ready" by auto
  with d(9) [of t] show "waiting_on (nodes g ! t) = 0" by simp
qed

lemma start_at_ok:
  assumes ok: "graph_ok held owed g" and at: "at < length (ready g)" and r: "start_at g at = (t, g')"
  shows "graph_ok held owed g'"
proof -
  note d = graph_okD [OF ok] and f = start_at_fields [OF ok at r]
  have deg: "in_degree g' u = in_degree g u" for u
    using f(2) by (simp add: f(5))
  have nth: "nodes g' ! u = (if u = t then (nodes g ! t)\<lparr>state := Running\<rparr> else nodes g ! u)" for u
    using f(2) by (simp add: f(5))
  have len: "length (nodes g') = length (nodes g)" by (simp add: f(5))
  show ?thesis
  proof (rule graph_okI)
    show "distinct (ready g')" using remove_at_props(1) [OF at d(1)] by (simp add: f(5))
    show "u \<in> set (ready g') \<longleftrightarrow> u < length (nodes g') \<and> state (nodes g' ! u) = Ready" for u
      using remove_at_props(2) [OF at d(1), of u] d(2) [of u] f(1) len nth [of u] by (simp add: f(5))
    show "held \<subseteq> {..<length (nodes g')}" "set owed \<subseteq> {..<length (nodes g')}"
      using d(3,4) len by simp_all
  next
    fix u assume "u < length (nodes g')"
    then have u: "u < length (nodes g)" using len by simp
    show "state (nodes g' ! u) \<noteq> Cancelled" using d(5) [OF u] nth by simp
    show "successors (nodes g' ! u) = []" if "state (nodes g' ! u) = Done"
      using that d(6) [OF u] nth [of u] by (simp split: if_splits)
    show "set (successors (nodes g' ! u)) \<subseteq> {..<length (nodes g')}"
      using d(7) [OF u] nth [of u] len by (auto split: if_splits)
    show "waiting_on (nodes g' ! u) =
        in_degree g' u + (if u \<in> held then 1 else 0) + count_list owed u"
      using d(8) [OF u] nth [of u] deg by (cases "u = t") simp_all
    show "state (nodes g' ! u) = Waiting \<longleftrightarrow> 0 < waiting_on (nodes g' ! u)"
      using d(9) [OF u] nth [of u] f(3,4) by simp
  qed
qed

text \<open>A running task completes: its edges become decrements owed, and are paid.\<close>

lemma finish_ok:
  assumes ok: "graph_ok held [] g" and t: "t < length (nodes g)" "state (nodes g ! t) = Running"
  shows "graph_ok held (successors (nodes g ! t))
           (put_node g t ((nodes g ! t)\<lparr>state := Done, successors := []\<rparr>))"
    (is "graph_ok _ ?owed ?g")
proof -
  note d = graph_okD [OF ok]
  have deg: "in_degree ?g u + count_list ?owed u = in_degree g u" for u
    using in_degree_put_node [OF t(1), of "(nodes g ! t)\<lparr>state := Done, successors := []\<rparr>" u] by simp
  have nth: "nodes ?g ! u = (if u = t then (nodes g ! t)\<lparr>state := Done, successors := []\<rparr> else nodes g ! u)" for u
    using t(1) by simp
  show ?thesis
  proof (rule graph_okI)
    show "distinct (ready ?g)" using d(1) by simp
    show "u \<in> set (ready ?g) \<longleftrightarrow> u < length (nodes ?g) \<and> state (nodes ?g ! u) = Ready" for u
      using d(2) [of u] t by (auto simp: nth_list_update)
    show "held \<subseteq> {..<length (nodes ?g)}" "set ?owed \<subseteq> {..<length (nodes ?g)}"
      using d(3) d(7) [OF t(1)] by simp_all
  next
    fix u assume "u < length (nodes ?g)"
    then have u: "u < length (nodes g)" by simp
    show "state (nodes ?g ! u) \<noteq> Cancelled" using d(5) [OF u] nth [of u] by simp
    show "successors (nodes ?g ! u) = []" if "state (nodes ?g ! u) = Done"
      using that d(6) [OF u] nth [of u] by (simp split: if_splits)
    show "set (successors (nodes ?g ! u)) \<subseteq> {..<length (nodes ?g)}"
      using d(7) [OF u] nth [of u] by simp
    show "waiting_on (nodes ?g ! u) =
        in_degree ?g u + (if u \<in> held then 1 else 0) + count_list ?owed u"
      using d(8) [OF u] nth [of u] deg [of u] by (cases "u = t") simp_all
    show "state (nodes ?g ! u) = Waiting \<longleftrightarrow> 0 < waiting_on (nodes ?g ! u)"
      using d(9) [OF u] d(9) [OF t(1)] nth [of u] t by (simp del: nodes_put_node)
  qed
qed

lemma complete_ok:
  assumes ok: "graph_ok held [] g" and t: "t < length (nodes g)" "state (nodes g ! t) = Running"
  shows "\<exists>g'. complete g t = Some g' \<and> graph_ok held [] g'"
proof -
  have f: "graph_ok held (successors (nodes g ! t) @ [])
      (put_node g t ((nodes g ! t)\<lparr>state := Done, successors := []\<rparr>))"
    using finish_ok [OF assms] by simp
  from release_all_total [OF f] obtain g' where
    r: "release_all (put_node g t ((nodes g ! t)\<lparr>state := Done, successors := []\<rparr>))
         (successors (nodes g ! t)) = Some g'" by blast
  moreover from this have "graph_ok held [] g'" by (rule release_all_ok [OF f])
  ultimately show ?thesis using t(1) by (simp add: complete_def Let_def)
qed

section \<open>What an operation leaves unchanged\<close>

text \<open>
  No operation of \<open>Spawn\<close> starts or finishes a task or drops an edge, and the tasks it creates are
  not started.
\<close>

definition leaves :: "task_graph \<Rightarrow> task_graph \<Rightarrow> bool" where
  "leaves g g' \<longleftrightarrow> length (nodes g) \<le> length (nodes g') \<and>
     (\<forall>u < length (nodes g). kind (nodes g' ! u) = kind (nodes g ! u) \<and>
        (state (nodes g' ! u) = Running \<longleftrightarrow> state (nodes g ! u) = Running) \<and>
        (state (nodes g' ! u) = Done \<longleftrightarrow> state (nodes g ! u) = Done) \<and>
        set (successors (nodes g ! u)) \<subseteq> set (successors (nodes g' ! u))) \<and>
     (\<forall>u. length (nodes g) \<le> u \<longrightarrow> u < length (nodes g') \<longrightarrow>
        state (nodes g' ! u) \<noteq> Running \<and> state (nodes g' ! u) \<noteq> Done)"

lemma leavesD:
  assumes "leaves g g'"
  shows "length (nodes g) \<le> length (nodes g')"
    and "u < length (nodes g) \<Longrightarrow> kind (nodes g' ! u) = kind (nodes g ! u)"
    and "u < length (nodes g) \<Longrightarrow> state (nodes g' ! u) = Running \<longleftrightarrow> state (nodes g ! u) = Running"
    and "u < length (nodes g) \<Longrightarrow> state (nodes g' ! u) = Done \<longleftrightarrow> state (nodes g ! u) = Done"
    and "u < length (nodes g) \<Longrightarrow> set (successors (nodes g ! u)) \<subseteq> set (successors (nodes g' ! u))"
    and "length (nodes g) \<le> u \<Longrightarrow> u < length (nodes g') \<Longrightarrow> state (nodes g' ! u) \<noteq> Running"
    and "length (nodes g) \<le> u \<Longrightarrow> u < length (nodes g') \<Longrightarrow> state (nodes g' ! u) \<noteq> Done"
  using assms unfolding leaves_def by blast+

lemma leaves_refl [frame_simps]: "leaves g g"
  by (simp add: leaves_def)

lemma leaves_trans:
  assumes "leaves g h" "leaves h k"
  shows "leaves g k"
  unfolding leaves_def
proof (intro conjI allI impI)
  show "length (nodes g) \<le> length (nodes k)"
    using leavesD(1) [OF assms(1)] leavesD(1) [OF assms(2)] by simp
next
  fix u assume u: "u < length (nodes g)"
  then have v: "u < length (nodes h)" using leavesD(1) [OF assms(1)] by simp
  note a = leavesD(2-5) [OF assms(1) u] leavesD(2-5) [OF assms(2) v]
  show "kind (nodes k ! u) = kind (nodes g ! u)"
    "state (nodes k ! u) = Running \<longleftrightarrow> state (nodes g ! u) = Running"
    "state (nodes k ! u) = Done \<longleftrightarrow> state (nodes g ! u) = Done"
    "set (successors (nodes g ! u)) \<subseteq> set (successors (nodes k ! u))"
    using a by simp_all
next
  fix u assume u: "length (nodes g) \<le> u" "u < length (nodes k)"
  show "state (nodes k ! u) \<noteq> Running" "state (nodes k ! u) \<noteq> Done"
    using leavesD(3,4) [OF assms(2), of u] leavesD(6,7) [OF assms(2) _ u(2)] leavesD(6,7) [OF assms(1) u(1)]
    by (cases "u < length (nodes h)"; simp)+
qed

lemma leaves_release [frame_simps]: "release g t = Some g' \<Longrightarrow> leaves g g'"
  by (auto simp: release_def Let_def leaves_def nth_list_update split: if_splits)

lemma leaves_release_all: "release_all g ts = Some g' \<Longrightarrow> leaves g g'"
  by (induction ts arbitrary: g)
    (auto split: option.splits simp: frame_simps dest: leaves_release intro: leaves_trans)

lemma leaves_edge [frame_simps]:
  assumes "edge g f t = Some g'"
  shows "leaves g g'"
proof (cases "state (nodes g ! f) \<in> {Done, Cancelled}")
  case True
  then show ?thesis using edge_closed [OF assms] by (simp add: frame_simps)
next
  case False
  note o = edge_open [OF assms False]
  show ?thesis
    using o(3,4) unfolding leaves_def by (auto simp: o(6,8,9))
qed

lemma leaves_edges_into: "edges_into g ds t = Some g' \<Longrightarrow> leaves g g'"
  by (induction ds arbitrary: g)
    (auto split: option.splits simp: frame_simps dest: leaves_edge intro: leaves_trans)

lemma leaves_push:
  "leaves g (g\<lparr>nodes := nodes g @ [\<lparr>kind = k, waiting_on = w, successors = ss, state = Waiting, priority = p\<rparr>]\<rparr>)"
  by (auto simp: leaves_def nth_append)

lemma leaves_add_held [frame_simps]: "add_held g k ds p = Some (t, g') \<Longrightarrow> leaves g g'"
  using leaves_push [of g k 1 "[]" p]
  by (auto simp: add_held_def Let_def dest!: leaves_edges_into intro: leaves_trans)

lemma leaves_add [frame_simps]: "add g k ds = Some (t, g') \<Longrightarrow> leaves g g'"
  by (auto simp: add_def add_with_priority_def split: option.splits
      dest!: leaves_add_held leaves_release intro: leaves_trans)

section \<open>Declared dependencies\<close>

text \<open>A declared edge is kept until its source is done.\<close>

definition deps_ok :: "(nat \<times> nat) set \<Rightarrow> task_graph \<Rightarrow> bool" where
  "deps_ok D g \<longleftrightarrow>
     (\<forall>(f, t) \<in> D. f < length (nodes g) \<and> t < length (nodes g) \<and>
        (state (nodes g ! f) = Done \<or> t \<in> set (successors (nodes g ! f))))"

lemma deps_ok_mono:
  assumes "deps_ok D g" and len: "length (nodes g) \<le> length (nodes g')"
    and don: "\<And>f. f < length (nodes g) \<Longrightarrow> state (nodes g ! f) = Done \<Longrightarrow> state (nodes g' ! f) = Done"
    and suc: "\<And>f t. f < length (nodes g) \<Longrightarrow> t \<in> set (successors (nodes g ! f)) \<Longrightarrow>
      state (nodes g' ! f) = Done \<or> t \<in> set (successors (nodes g' ! f))"
  shows "deps_ok D g'"
  unfolding deps_ok_def
proof (rule ballI)
  fix x assume "x \<in> D"
  moreover obtain f t where x: "x = (f, t)" by (cases x)
  ultimately have "f < length (nodes g)" "t < length (nodes g)"
      "state (nodes g ! f) = Done \<or> t \<in> set (successors (nodes g ! f))"
    using assms(1) by (auto simp: deps_ok_def)
  then show "case x of (f, t) \<Rightarrow> f < length (nodes g') \<and> t < length (nodes g') \<and>
      (state (nodes g' ! f) = Done \<or> t \<in> set (successors (nodes g' ! f)))"
    using don suc len by (auto simp: x)
qed

lemma deps_ok_leaves:
  assumes "deps_ok D g" "leaves g g'"
  shows "deps_ok D g'"
  using assms(1) leavesD(1) [OF assms(2)]
proof (rule deps_ok_mono)
  show "state (nodes g' ! f) = Done" if "f < length (nodes g)" "state (nodes g ! f) = Done" for f
    using leavesD(4) [OF assms(2) that(1)] that(2) by simp
  show "state (nodes g' ! f) = Done \<or> t \<in> set (successors (nodes g' ! f))"
    if "f < length (nodes g)" "t \<in> set (successors (nodes g ! f))" for f t
    using leavesD(5) [OF assms(2) that(1)] that(2) by blast
qed

lemma deps_ok_edge:
  assumes "deps_ok D g" "edge g f t = Some g'" "state (nodes g ! f) \<noteq> Cancelled"
  shows "deps_ok (insert (f, t) D) g'"
proof -
  have "deps_ok D g'" using assms leaves_edge deps_ok_leaves by blast
  moreover have "f < length (nodes g') \<and> t < length (nodes g') \<and>
      (state (nodes g' ! f) = Done \<or> t \<in> set (successors (nodes g' ! f)))"
  proof (cases "state (nodes g ! f) = Done")
    case True
    then show ?thesis using assms(2) by (auto simp: edge_def split: if_splits)
  next
    case False
    with assms(3) have "state (nodes g ! f) \<notin> {Done, Cancelled}" by simp
    note o = edge_open [OF assms(2) this]
    show ?thesis using o(1,2,4) o(8) [OF o(2)] by simp
  qed
  ultimately show ?thesis by (simp add: deps_ok_def)
qed

lemma deps_ok_edges_into:
  "deps_ok D g \<Longrightarrow> graph_ok held owed g \<Longrightarrow> edges_into g ds t = Some g' \<Longrightarrow>
   deps_ok (D \<union> {(d, t) | d. d \<in> set ds}) g'"
proof (induction ds arbitrary: g D)
  case Nil
  then show ?case by simp
next
  case (Cons d ds)
  then obtain g1 where g1: "edge g d t = Some g1" "edges_into g1 ds t = Some g'"
    by (auto split: option.splits)
  have "d < length (nodes g)" using g1(1) by (auto simp: edge_def split: if_splits)
  with Cons.prems(2) have "state (nodes g ! d) \<noteq> Cancelled" by (rule graph_okD(5))
  with Cons.prems(1) g1(1) have "deps_ok (insert (d, t) D) g1" by (rule deps_ok_edge)
  from Cons.IH [OF this edge_ok [OF Cons.prems(2) g1(1)] g1(2)]
  have "deps_ok (insert (d, t) D \<union> {(d, t) |d. d \<in> set ds}) g'" .
  moreover have "insert (d, t) D \<union> {(d, t) |d. d \<in> set ds} = D \<union> {(d', t) |d'. d' \<in> set (d # ds)}"
    by auto
  ultimately show ?case by simp
qed

lemma deps_ok_add_held:
  assumes "deps_ok D g" "graph_ok held owed g" "add_held g k ds p = Some (t, g')"
  shows "deps_ok (D \<union> {(d, t) | d. d \<in> set ds}) g'"
  using assms(3) deps_ok_edges_into [OF deps_ok_leaves [OF assms(1) leaves_push] push_ok [OF assms(2)]]
  by (auto simp: add_held_def Let_def)

lemma deps_ok_add:
  assumes "deps_ok D g" "graph_ok held owed g" "add g k ds = Some (t, g')"
  shows "deps_ok (D \<union> {(d, t) | d. d \<in> set ds}) g'"
  using assms(3) deps_ok_add_held [OF assms(1,2)] deps_ok_leaves leaves_release
  by (fastforce simp: add_def add_with_priority_def split: option.splits)

text \<open>So a task that is ready, running or done has all its dependencies done.\<close>

lemma deps_ok_started:
  assumes "graph_ok held owed g" "deps_ok D g" "(f, t) \<in> D" "state (nodes g ! t) \<noteq> Waiting"
  shows "state (nodes g ! f) = Done"
proof (rule ccontr)
  assume "state (nodes g ! f) \<noteq> Done"
  with assms(2,3) have "f < length (nodes g)" "t \<in> set (successors (nodes g ! f))"
    by (auto simp: deps_ok_def)
  with assms(1) have "state (nodes g ! t) = Waiting" by (rule graph_ok_successor)
  with assms(4) show False by simp
qed

text \<open>Conversely every edge in the graph was declared.\<close>

definition succ_ok :: "(nat \<times> nat) set \<Rightarrow> task_graph \<Rightarrow> bool" where
  "succ_ok D g \<longleftrightarrow> (\<forall>f < length (nodes g). \<forall>t \<in> set (successors (nodes g ! f)). (f, t) \<in> D)"

lemma succ_ok_same:
  "succ_ok D g \<Longrightarrow> length (nodes g') = length (nodes g) \<Longrightarrow>
   (\<And>u. u < length (nodes g) \<Longrightarrow> set (successors (nodes g' ! u)) \<subseteq> set (successors (nodes g ! u))) \<Longrightarrow>
   succ_ok D g'"
  unfolding succ_ok_def by (metis subsetD)

lemma release_successors:
  "release g t = Some g' \<Longrightarrow> u < length (nodes g) \<Longrightarrow> successors (nodes g' ! u) = successors (nodes g ! u)"
  by (auto simp: release_def Let_def nth_list_update split: if_splits)

lemma release_all_successors:
  "release_all g ts = Some g' \<Longrightarrow> u < length (nodes g) \<Longrightarrow> successors (nodes g' ! u) = successors (nodes g ! u)"
proof (induction ts arbitrary: g)
  case (Cons s ss)
  then obtain h where h: "release g s = Some h" "release_all h ss = Some g'"
    by (auto split: option.splits)
  from Cons.IH [OF h(2)] Cons.prems(2) release_length [OF h(1)] release_successors [OF h(1) Cons.prems(2)]
  show ?case by simp
qed simp

lemma release_all_length: "release_all g ts = Some g' \<Longrightarrow> length (nodes g') = length (nodes g)"
  by (induction ts arbitrary: g) (auto split: option.splits dest: release_length)

lemma succ_ok_release: "succ_ok D g \<Longrightarrow> release g t = Some g' \<Longrightarrow> succ_ok D g'"
  by (erule succ_ok_same) (simp_all add: release_length release_successors)

lemma succ_ok_edge:
  assumes s: "succ_ok D g" and e: "edge g f t = Some g'"
  shows "succ_ok (insert (f, t) D) g'"
proof (cases "state (nodes g ! f) \<in> {Done, Cancelled}")
  case True
  then show ?thesis using edge_closed [OF e] s by (auto simp: succ_ok_def)
next
  case False
  note o = edge_open [OF e False]
  show ?thesis using s unfolding succ_ok_def by (auto simp: o(4,8))
qed

lemma succ_ok_edges_into:
  "succ_ok D g \<Longrightarrow> edges_into g ds t = Some g' \<Longrightarrow> succ_ok (D \<union> {(d, t) | d. d \<in> set ds}) g'"
proof (induction ds arbitrary: g D)
  case Nil
  then show ?case by simp
next
  case (Cons d ds)
  then obtain g1 where g1: "edge g d t = Some g1" "edges_into g1 ds t = Some g'"
    by (auto split: option.splits)
  from Cons.IH [OF succ_ok_edge [OF Cons.prems(1) g1(1)] g1(2)]
  have "succ_ok (insert (d, t) D \<union> {(d, t) |d. d \<in> set ds}) g'" .
  moreover have "insert (d, t) D \<union> {(d, t) |d. d \<in> set ds} = D \<union> {(d', t) |d'. d' \<in> set (d # ds)}"
    by auto
  ultimately show ?case by simp
qed

lemma succ_ok_add_held:
  assumes "succ_ok D g" "add_held g k ds p = Some (t, g')"
  shows "succ_ok (D \<union> {(d, t) | d. d \<in> set ds}) g'"
proof -
  have "succ_ok D (g\<lparr>nodes := nodes g @ [\<lparr>kind = k, waiting_on = 1, successors = [], state = Waiting, priority = p\<rparr>]\<rparr>)"
    using assms(1) by (auto simp: succ_ok_def nth_append)
  from succ_ok_edges_into [OF this] assms(2) show ?thesis by (auto simp: add_held_def Let_def)
qed

lemma succ_ok_add:
  assumes "succ_ok D g" "add_with_priority g k ds p = Some (t, g')"
  shows "succ_ok (D \<union> {(d, t) | d. d \<in> set ds}) g'"
  using assms(2) succ_ok_add_held [OF assms(1)] succ_ok_release
  by (fastforce simp: add_with_priority_def split: option.splits)

lemma succ_ok_complete:
  assumes "succ_ok D g" "complete g t = Some g'"
  shows "succ_ok D g'"
proof -
  let ?g1 = "put_node g t ((nodes g ! t)\<lparr>state := Done, successors := []\<rparr>)"
  have r: "release_all ?g1 (successors (nodes g ! t)) = Some g'" "t < length (nodes g)"
    using assms(2) by (auto simp: complete_def Let_def split: if_splits)
  have "succ_ok D ?g1"
    using assms(1) by (rule succ_ok_same) (simp_all add: nth_list_update r(2))
  then show ?thesis
    by (rule succ_ok_same) (use release_all_length [OF r(1)] release_all_successors [OF r(1)] in auto)
qed

section \<open>Graphs built before a run\<close>

text \<open>What a client can build before the executor starts, with the edges it declared.\<close>

inductive built :: "(nat \<times> nat) set \<Rightarrow> task_graph \<Rightarrow> bool" where
  built_empty: "built {} empty_graph"
| built_add: "built D g \<Longrightarrow> add_with_priority g k ds p = Some (t, g') \<Longrightarrow>
    built (D \<union> {(d, t) | d. d \<in> set ds}) g'"
| built_edge: "built D g \<Longrightarrow> edge g f t = Some g' \<Longrightarrow> built (insert (f, t) D) g'"

lemma built_ok:
  "built D g \<Longrightarrow> graph_ok {} [] g \<and> deps_ok D g \<and> succ_ok D g \<and>
     (\<forall>t < length (nodes g). state (nodes g ! t) \<notin> {Running, Done})"
proof (induction rule: built.induct)
  case built_empty
  show ?case by (simp add: graph_ok_empty deps_ok_def succ_ok_def) (simp add: empty_graph_def)
next
  case (built_add D g k ds p t g')
  have l: "leaves g g'"
    using built_add(2) by (auto simp: add_with_priority_def split: option.splits
        dest!: leaves_add_held leaves_release intro: leaves_trans)
  have "deps_ok (D \<union> {(d, t) | d. d \<in> set ds}) g'"
    using built_add(2) deps_ok_add_held [of D g] built_add(3) deps_ok_leaves leaves_release
    by (fastforce simp: add_with_priority_def split: option.splits)
  moreover have "state (nodes g' ! u) \<notin> {Running, Done}" if "u < length (nodes g')" for u
    using leavesD(3,4,6,7) [OF l, of u] built_add(3) that by (cases "u < length (nodes g)") auto
  ultimately show ?case
    using add_with_priority_ok(1) [OF _ built_add(2)] succ_ok_add [OF _ built_add(2)] built_add(3) by blast
next
  case (built_edge D g f t g')
  have l: "leaves g g'" using built_edge(2) by (rule leaves_edge)
  have "f < length (nodes g)" using built_edge(2) by (auto simp: edge_def split: if_splits)
  with built_edge(3) have "state (nodes g ! f) \<noteq> Cancelled" by (auto dest: graph_okD(5))
  then have "deps_ok (insert (f, t) D) g'" using deps_ok_edge built_edge by blast
  moreover have "state (nodes g' ! u) \<notin> {Running, Done}" if "u < length (nodes g')" for u
    using leavesD(3,4,6,7) [OF l, of u] built_edge(3) that by (cases "u < length (nodes g)") auto
  ultimately show ?case
    using edge_ok [OF _ built_edge(2)] succ_ok_edge [OF _ built_edge(2)] built_edge(3) by blast
qed

end
