(* ===== verification/Executors.thy ===== *)
theory Executors
  imports Sched
begin

text \<open>
  The executors of \<^verbatim>\<open>crates/hd_sched/src/lib.rs\<close> (serial and stepping) and
  \<^verbatim>\<open>crates/hd_sched/src/pool.rs\<close> (the rayon pool), over the graph of \<open>Sched\<close>; the abstract system
  \<open>sched_step\<close> in which any ready task may start at any time, whose invariant is proved once; and
  the refinement lemmas that every executor is one of its schedules.
\<close>

section \<open>Tasks and the serial executors\<close>

text \<open>
  A task is code that calls \<open>Spawn\<close>: its calls in order, each continuing with the id the call
  returned. It reaches the graph in no other way.
\<close>

datatype spawn_prog =
    Finish
  | SpawnAdd task_kind "nat list" "nat \<Rightarrow> spawn_prog"
  | SpawnEdge nat nat spawn_prog
  | SpawnAddHeld task_kind "nat list" "nat \<Rightarrow> spawn_prog"
  | SpawnRelease nat spawn_prog

type_synonym exec = "nat \<Rightarrow> task_kind \<Rightarrow> spawn_prog"

text \<open>\<open>SerialSpawn\<close>: every call goes to the graph at once.\<close>

primrec run_prog :: "spawn_prog \<Rightarrow> task_graph \<Rightarrow> task_graph option" where
  "run_prog Finish g = Some g"
| "run_prog (SpawnAdd k deps cont) g =
     (case add g k deps of None \<Rightarrow> None | Some r \<Rightarrow> run_prog (cont (fst r)) (snd r))"
| "run_prog (SpawnEdge from to cont) g =
     (case edge g from to of None \<Rightarrow> None | Some g' \<Rightarrow> run_prog cont g')"
| "run_prog (SpawnAddHeld k deps cont) g =
     (case add_held g k deps 0 of None \<Rightarrow> None | Some r \<Rightarrow> run_prog (cont (fst r)) (snd r))"
| "run_prog (SpawnRelease tid cont) g =
     (case release g tid of None \<Rightarrow> None | Some g' \<Rightarrow> run_prog cont g')"

text \<open>One turn of the executors' loop after \<open>pop\<close>: run the task, then complete it.\<close>

definition run_task :: "exec \<Rightarrow> nat \<Rightarrow> task_graph \<Rightarrow> task_graph option" where
  "run_task exec tid g =
     (case run_prog (exec tid (kind (nodes g ! tid))) g of
        None \<Rightarrow> None
      | Some g' \<Rightarrow> complete g' tid)"

fun serial_run :: "nat \<Rightarrow> serial_order \<Rightarrow> exec \<Rightarrow> task_graph \<Rightarrow> (task_graph \<times> nat) outcome" where
  "serial_run 0 order exec g = OutOfFuel"
| "serial_run (Suc fuel) order exec g =
     (case pop order g of
        None \<Rightarrow> Returned (g, unfinished g)
      | Some (tid, g1) \<Rightarrow>
          (case run_task exec tid g1 of
             None \<Rightarrow> Panicked
           | Some g2 \<Rightarrow> serial_run fuel order exec g2))"

datatype progress = ProgressDone | Yielded nat | ProgressCancelled

text \<open>
  \<open>run_for\<close>: at most \<open>steps\<close> more tasks after \<open>turns\<close>. The cancellation flag is shared with other
  threads, so its value is a function of the turn it is read in.
\<close>

fun run_for :: "nat \<Rightarrow> (nat \<Rightarrow> bool) \<Rightarrow> serial_order \<Rightarrow> exec \<Rightarrow> nat \<Rightarrow> task_graph \<Rightarrow>
    (task_graph \<times> progress) outcome" where
  "run_for 0 cancelled order exec turns g =
     Returned (g, if unfinished g = 0 then ProgressDone else Yielded turns)"
| "run_for (Suc steps) cancelled order exec turns g =
     (if cancelled turns then Returned (cancel_all g, ProgressCancelled)
      else case pop order g of
             None \<Rightarrow> Returned (g, ProgressDone)
           | Some (tid, g1) \<Rightarrow>
               (case run_task exec tid g1 of
                  None \<Rightarrow> Panicked
                | Some g2 \<Rightarrow> run_for steps cancelled order exec (Suc turns) g2))"

section \<open>The pool\<close>

text \<open>
  The pool's state: the graph behind the mutex and the closures spawned into the scope, each at the
  call it makes next. A call of \<open>PoolSpawn\<close> and the end of a closure are one step each, under the
  lock, after which the tasks that became ready are spawned (\<open>drain\<close>); which closure steps next is
  the scheduler's choice.
\<close>

function drain :: "task_graph \<Rightarrow> (nat \<times> task_kind) list \<times> task_graph" where
  "drain g =
     (case pop Fifo g of
        None \<Rightarrow> ([], g)
      | Some (tid, g') \<Rightarrow> (case drain g' of (out, g'') \<Rightarrow> ((tid, kind (nodes g' ! tid)) # out, g'')))"
  by pat_completeness auto

lemma pop_shorter: "pop order g = Some (t, g') \<Longrightarrow> length (ready g') < length (ready g)"
  by (auto simp: pop_def start_at_def remove_at_def Let_def split: option.splits if_splits)

termination drain
  by (relation "measure (\<lambda>g. length (ready g))") (auto simp: pop_shorter)

declare drain.simps [simp del]

record pool =
  pgraph :: task_graph
  scope :: "(nat \<times> spawn_prog) list"

definition spawn :: "exec \<Rightarrow> (nat \<times> task_kind) list \<Rightarrow> (nat \<times> spawn_prog) list" where
  "spawn exec ts = map (\<lambda>(tid, k). (tid, exec tid k)) ts"

text \<open>\<open>PoolSpawn::after\<close>, once its closure has changed the graph to \<open>g\<close>.\<close>

definition after :: "exec \<Rightarrow> task_graph \<Rightarrow> (nat \<times> spawn_prog) list \<Rightarrow> pool" where
  "after exec g sc = (case drain g of (out, g') \<Rightarrow> \<lparr>pgraph = g', scope = sc @ spawn exec out\<rparr>)"

inductive pool_step :: "exec \<Rightarrow> pool \<Rightarrow> pool \<Rightarrow> bool" for exec where
  pool_add: "scope s = xs @ (t, SpawnAdd k deps cont) # ys \<Longrightarrow> add (pgraph s) k deps = Some (n, g) \<Longrightarrow>
    pool_step exec s (after exec g (xs @ (t, cont n) # ys))"
| pool_edge: "scope s = xs @ (t, SpawnEdge from to cont) # ys \<Longrightarrow> edge (pgraph s) from to = Some g \<Longrightarrow>
    pool_step exec s (after exec g (xs @ (t, cont) # ys))"
| pool_add_held: "scope s = xs @ (t, SpawnAddHeld k deps cont) # ys \<Longrightarrow>
    add_held (pgraph s) k deps 0 = Some (n, g) \<Longrightarrow>
    pool_step exec s (after exec g (xs @ (t, cont n) # ys))"
| pool_release: "scope s = xs @ (t, SpawnRelease r cont) # ys \<Longrightarrow> release (pgraph s) r = Some g \<Longrightarrow>
    pool_step exec s (after exec g (xs @ (t, cont) # ys))"
| pool_finish: "scope s = xs @ (t, Finish) # ys \<Longrightarrow> complete (pgraph s) t = Some g \<Longrightarrow>
    pool_step exec s (after exec g (xs @ ys))"

inductive_cases pool_stepE: "pool_step exec s s'"

definition pool_init :: "exec \<Rightarrow> task_graph \<Rightarrow> pool" where
  "pool_init exec g = after exec g []"

text \<open>\<open>run_pool\<close> returns once no closure is left; its second result is then \<open>unfinished\<close>.\<close>

definition pool_done :: "pool \<Rightarrow> bool" where
  "pool_done s \<longleftrightarrow> scope s = []"

definition pool_left :: "pool \<Rightarrow> nat" where
  "pool_left s = unfinished (pgraph s)"

section \<open>The abstract system\<close>

text \<open>
  Any ready task may start, any running task may make its next call, and a running task whose calls
  are over may complete. Ghost state: \<open>guards\<close> gives the owner of every creation guard not yet
  dropped, \<open>declared\<close> the edges asked for so far, \<open>log\<close> the starts and ends in order.
\<close>

datatype event = Began nat | Ended nat

record sys =
  sgraph :: task_graph
  running :: "(nat \<times> spawn_prog) list"
  guards :: "nat \<Rightarrow> nat option"
  declared :: "(nat \<times> nat) set"
  log :: "event list"

inductive sched_step :: "exec \<Rightarrow> sys \<Rightarrow> sys \<Rightarrow> bool" for exec where
  start: "at < length (ready (sgraph a)) \<Longrightarrow> start_at (sgraph a) at = (t, g) \<Longrightarrow>
    sched_step exec a
      (a\<lparr>sgraph := g, running := running a @ [(t, exec t (kind (nodes g ! t)))], log := log a @ [Began t]\<rparr>)"
| call_add: "running a = xs @ (t, SpawnAdd k deps cont) # ys \<Longrightarrow> add (sgraph a) k deps = Some (n, g) \<Longrightarrow>
    sched_step exec a
      (a\<lparr>sgraph := g, running := xs @ (t, cont n) # ys, declared := declared a \<union> {(d, n) | d. d \<in> set deps}\<rparr>)"
| call_edge: "running a = xs @ (t, SpawnEdge f to cont) # ys \<Longrightarrow> edge (sgraph a) f to = Some g \<Longrightarrow>
    sched_step exec a
      (a\<lparr>sgraph := g, running := xs @ (t, cont) # ys, declared := insert (f, to) (declared a)\<rparr>)"
| call_add_held: "running a = xs @ (t, SpawnAddHeld k deps cont) # ys \<Longrightarrow>
    add_held (sgraph a) k deps 0 = Some (n, g) \<Longrightarrow>
    sched_step exec a
      (a\<lparr>sgraph := g, running := xs @ (t, cont n) # ys, guards := (guards a)(n \<mapsto> t),
         declared := declared a \<union> {(d, n) | d. d \<in> set deps}\<rparr>)"
| call_release: "running a = xs @ (t, SpawnRelease r cont) # ys \<Longrightarrow> guards a r = Some t \<Longrightarrow>
    release (sgraph a) r = Some g \<Longrightarrow>
    sched_step exec a (a\<lparr>sgraph := g, running := xs @ (t, cont) # ys, guards := (guards a)(r := None)\<rparr>)"
| finish: "running a = xs @ (t, Finish) # ys \<Longrightarrow> complete (sgraph a) t = Some g \<Longrightarrow>
    sched_step exec a (a\<lparr>sgraph := g, running := xs @ ys, log := log a @ [Ended t]\<rparr>)"

text \<open>
  The order of the log: a task begins after every dependency ended, once, and ends once, after it
  began. \<open>in_order D l\<close> says so of a log and the declared edges.
\<close>

definition event_ok :: "(nat \<times> nat) set \<Rightarrow> event set \<Rightarrow> event \<Rightarrow> bool" where
  "event_ok D before e \<longleftrightarrow>
     (case e of Began t \<Rightarrow> \<forall>f. (f, t) \<in> D \<longrightarrow> Ended f \<in> before | Ended t \<Rightarrow> Began t \<in> before)"

definition in_order :: "(nat \<times> nat) set \<Rightarrow> event list \<Rightarrow> bool" where
  "in_order D l \<longleftrightarrow> distinct l \<and> (\<forall>i < length l. event_ok D (set (take i l)) (l ! i))"

lemma in_order_snoc:
  "in_order D (l @ [e]) \<longleftrightarrow> in_order D l \<and> e \<notin> set l \<and> event_ok D (set l) e"
  unfolding in_order_def by (auto simp: nth_append less_Suc_eq)

lemma in_order_declare:
  assumes "in_order D l" "\<And>f t. (f, t) \<in> E \<Longrightarrow> Began t \<in> set l \<Longrightarrow> (f, t) \<in> D"
  shows "in_order (D \<union> E) l"
  unfolding in_order_def
proof (intro conjI allI impI)
  show "distinct l" using assms(1) by (simp add: in_order_def)
  fix i assume i: "i < length l"
  with assms(1) have "event_ok D (set (take i l)) (l ! i)" by (simp add: in_order_def)
  moreover have "l ! i \<in> set l" using i by simp
  ultimately show "event_ok (D \<union> E) (set (take i l)) (l ! i)"
    using assms(2) by (auto simp: event_ok_def split: event.splits)
qed

text \<open>What every reachable state of the abstract system satisfies.\<close>

definition sys_ok :: "sys \<Rightarrow> bool" where
  "sys_ok a \<longleftrightarrow> graph_ok (dom (guards a)) [] (sgraph a) \<and> deps_ok (declared a) (sgraph a) \<and>
     distinct (map fst (running a)) \<and>
     (\<forall>t. t \<in> fst ` set (running a) \<longleftrightarrow>
        t < length (nodes (sgraph a)) \<and> state (nodes (sgraph a) ! t) = Running) \<and>
     in_order (declared a) (log a) \<and>
     (\<forall>t. Began t \<in> set (log a) \<longleftrightarrow>
        t < length (nodes (sgraph a)) \<and> state (nodes (sgraph a) ! t) \<in> {Running, Done}) \<and>
     (\<forall>t. Ended t \<in> set (log a) \<longleftrightarrow>
        t < length (nodes (sgraph a)) \<and> state (nodes (sgraph a) ! t) = Done)"

lemma sys_okD:
  assumes "sys_ok a"
  shows "graph_ok (dom (guards a)) [] (sgraph a)" "deps_ok (declared a) (sgraph a)"
    and "distinct (map fst (running a))"
    and "t \<in> fst ` set (running a) \<longleftrightarrow>
        t < length (nodes (sgraph a)) \<and> state (nodes (sgraph a) ! t) = Running"
    and "in_order (declared a) (log a)"
    and "Began t \<in> set (log a) \<longleftrightarrow>
        t < length (nodes (sgraph a)) \<and> state (nodes (sgraph a) ! t) \<in> {Running, Done}"
    and "Ended t \<in> set (log a) \<longleftrightarrow>
        t < length (nodes (sgraph a)) \<and> state (nodes (sgraph a) ! t) = Done"
  using assms unfolding sys_ok_def by blast+

text \<open>The calls of \<open>Spawn\<close>: the graph changes by one that \<open>leaves\<close> the started tasks alone.\<close>

lemma sys_ok_call:
  assumes ok: "sys_ok a" and g: "graph_ok (dom G) [] g" "leaves (sgraph a) g" "deps_ok D g"
    and D: "D = declared a \<union> E" and E: "\<And>f t. (f, t) \<in> E \<Longrightarrow> state (nodes g ! t) \<notin> {Running, Done}"
    and r: "running a = xs @ (t, p) # ys"
  shows "sys_ok (a\<lparr>sgraph := g, running := xs @ (t, q) # ys, guards := G, declared := D\<rparr>)"
proof -
  note s = sys_okD [OF ok] and l = leavesD [OF g(2)]
  have run: "u < length (nodes g) \<and> state (nodes g ! u) = Running \<longleftrightarrow>
      u < length (nodes (sgraph a)) \<and> state (nodes (sgraph a) ! u) = Running" for u
    using l(1) l(3) [of u] l(6) [of u] by (cases "u < length (nodes (sgraph a))") auto
  have don: "u < length (nodes g) \<and> state (nodes g ! u) = Done \<longleftrightarrow>
      u < length (nodes (sgraph a)) \<and> state (nodes (sgraph a) ! u) = Done" for u
    using l(1) l(4) [of u] l(7) [of u] by (cases "u < length (nodes (sgraph a))") auto
  have beg: "Began u \<in> set (log a) \<longleftrightarrow> u < length (nodes g) \<and> state (nodes g ! u) \<in> {Running, Done}" for u
    using s(6) [of u] run [of u] don [of u] by auto
  have "in_order (declared a \<union> E) (log a)"
  proof (rule in_order_declare [OF s(5)])
    fix f t assume "(f, t) \<in> E" "Began t \<in> set (log a)"
    then show "(f, t) \<in> declared a" using E [of f t] beg [of t] by auto
  qed
  then show ?thesis
    using g(1,3) s(3) s(4) s(7) run don beg r unfolding sys_ok_def D by simp
qed

lemma fresh_not_started:
  assumes "leaves g g'" "length (nodes g) \<le> n" "n < length (nodes g')"
  shows "state (nodes g' ! n) \<notin> {Running, Done}"
  using leavesD(6,7) [OF assms] by simp

lemma edge_target_not_started:
  assumes "edge g f t = Some g'"
  shows "state (nodes g' ! t) \<notin> {Running, Done}"
proof -
  have "t < length (nodes g)" "state (nodes g ! t) \<in> {Waiting, Ready}"
    using assms by (auto simp: edge_def split: if_splits)
  then show ?thesis
    using leavesD(3,4) [OF leaves_edge [OF assms]] by auto
qed

lemma sched_step_ok:
  assumes "sched_step exec a b" "sys_ok a"
  shows "sys_ok b"
  using assms
proof (induction rule: sched_step.induct)
  case (start at a t g)
  note s = sys_okD [OF start(3)] and f = start_at_fields [OF sys_okD(1) [OF start(3)] start(1,2)]
  have nth: "nodes g ! u = (if u = t then (nodes (sgraph a) ! t)\<lparr>state := Running\<rparr> else nodes (sgraph a) ! u)"
    "length (nodes g) = length (nodes (sgraph a))" for u
    using f(2) by (simp_all add: f(5))
  have "deps_ok (declared a) g"
    using s(2) by (rule deps_ok_mono) (auto simp: nth f(3))
  moreover have "in_order (declared a) (log a @ [Began t])"
    unfolding in_order_snoc
  proof (intro conjI)
    show "in_order (declared a) (log a)" by (rule s(5))
    show "Began t \<notin> set (log a)" using s(6) [of t] f(3) by simp
    show "event_ok (declared a) (set (log a)) (Began t)"
      using deps_ok_started [OF s(1,2), of _ t] s(2) s(7) f(3) by (auto simp: event_ok_def deps_ok_def)
  qed
  moreover have "t \<notin> fst ` set (running a)" using s(4) [of t] f(3) by simp
  moreover have "u < length (nodes g) \<and> state (nodes g ! u) = Running \<longleftrightarrow>
      u = t \<or> u \<in> fst ` set (running a)" for u
    using s(4) [of u] f(2) nth(1) [of u] by (auto simp: nth(2))
  moreover have "u < length (nodes g) \<and> state (nodes g ! u) = Done \<longleftrightarrow> Ended u \<in> set (log a)" for u
    using s(7) [of u] f(3) nth(1) [of u] by (auto simp: nth(2))
  moreover have "u < length (nodes g) \<and> state (nodes g ! u) \<in> {Running, Done} \<longleftrightarrow>
      u = t \<or> Began u \<in> set (log a)" for u
    using s(6) [of u] f(2) nth(1) [of u] by (auto simp: nth(2))
  ultimately show ?case
    using start_at_ok [OF s(1) start(1,2)] s(3) unfolding sys_ok_def by (auto simp del: nth)
next
  case (call_add a xs t k deps cont ys n g)
  note s = sys_okD [OF call_add(3)]
  have l: "leaves (sgraph a) g" using call_add(2) by (rule leaves_add)
  have n: "n = length (nodes (sgraph a))" "length (nodes g) = Suc n"
    and ok: "graph_ok (dom (guards a)) [] g"
    using add_with_priority_ok [OF s(1) call_add(2) [unfolded add_def]] by simp_all
  have "deps_ok (declared a \<union> {(d, n) | d. d \<in> set deps}) g"
    by (rule deps_ok_add [OF s(2) s(1) call_add(2)])
  from sys_ok_call [OF call_add(3) ok l this refl _ call_add(1), of "cont n"]
  show ?case using fresh_not_started [OF l, of n] n by auto
next
  case (call_edge a xs t f to cont ys g)
  note s = sys_okD [OF call_edge(3)]
  have l: "leaves (sgraph a) g" using call_edge(2) by (rule leaves_edge)
  have "state (nodes (sgraph a) ! f) \<noteq> Cancelled"
    using call_edge(2) graph_okD(5) [OF s(1)] by (auto simp: edge_def split: if_splits)
  with s(2) call_edge(2) have d: "deps_ok (declared a \<union> {(f, to)}) g"
    using deps_ok_edge by force
  from sys_ok_call [OF call_edge(3) edge_ok [OF s(1) call_edge(2)] l d refl _ call_edge(1), of cont]
  show ?case using edge_target_not_started [OF call_edge(2)] by simp
next
  case (call_add_held a xs t k deps cont ys n g)
  note s = sys_okD [OF call_add_held(3)]
  have l: "leaves (sgraph a) g" using call_add_held(2) by (rule leaves_add_held)
  note h = add_held_ok [OF s(1) call_add_held(2)]
  have ok: "graph_ok (dom ((guards a)(n \<mapsto> t))) [] g" using h(1) by simp
  have d: "deps_ok (declared a \<union> {(d, n) | d. d \<in> set deps}) g"
    by (rule deps_ok_add_held [OF s(2) s(1) call_add_held(2)])
  from sys_ok_call [OF call_add_held(3) ok l d refl _ call_add_held(1), of "cont n"]
  show ?case using fresh_not_started [OF l, of n] h(2,4) by (auto simp: fun_upd_def)
next
  case (call_release a xs t r cont ys g)
  note s = sys_okD [OF call_release(4)]
  have l: "leaves (sgraph a) g" using call_release(3) by (rule leaves_release)
  have "graph_ok (dom (guards a) - {r}) [] g"
    by (rule release_ok [OF s(1) call_release(3)]) (use call_release(2) in auto)
  then have ok: "graph_ok (dom ((guards a)(r := None))) [] g" by simp
  have d: "deps_ok (declared a \<union> {}) g" using deps_ok_leaves [OF s(2) l] by simp
  from sys_ok_call [OF call_release(4) ok l d refl _ call_release(1), of cont]
  show ?case by (simp add: fun_upd_def)
next
  case (finish a xs t ys g)
  note s = sys_okD [OF finish(3)]
  have t: "t < length (nodes (sgraph a))" "state (nodes (sgraph a) ! t) = Running"
    using s(4) [of t] finish(1) by auto
  let ?g1 = "put_node (sgraph a) t ((nodes (sgraph a) ! t)\<lparr>state := Done, successors := []\<rparr>)"
  have r: "release_all ?g1 (successors (nodes (sgraph a) ! t)) = Some g"
    using finish(2) t(1) by (simp add: complete_def Let_def)
  have l: "leaves ?g1 g" using r by (rule leaves_release_all)
  have len: "length (nodes g) = length (nodes (sgraph a))"
  proof -
    have "length (nodes g) = length (nodes ?g1)"
      using r by (rule release_all_length)
    then show ?thesis by simp
  qed
  have len1: "length (nodes ?g1) = length (nodes (sgraph a))" by simp
  have nth: "state (nodes ?g1 ! u) = (if u = t then Done else state (nodes (sgraph a) ! u))"
    "successors (nodes ?g1 ! u) = (if u = t then [] else successors (nodes (sgraph a) ! u))" for u
    using t(1) by (simp_all add: nth_list_update)
  have "deps_ok (declared a) ?g1"
    using s(2) by (rule deps_ok_mono) (simp, (auto simp: nth simp del: nodes_put_node))
  then have dp: "deps_ok (declared a) g" using l by (rule deps_ok_leaves)
  have run: "u < length (nodes g) \<and> state (nodes g ! u) = Running \<longleftrightarrow>
      u \<noteq> t \<and> u \<in> fst ` set (running a)" for u
    using s(4) [of u] leavesD(3) [OF l, of u, unfolded len1 nth] len by (auto split: if_splits)
  have don: "u < length (nodes g) \<and> state (nodes g ! u) = Done \<longleftrightarrow>
      u = t \<or> Ended u \<in> set (log a)" for u
    using s(7) [of u] leavesD(4) [OF l, of u, unfolded len1 nth] len t by auto
  have "in_order (declared a) (log a @ [Ended t])"
    unfolding in_order_snoc
    using s(5) s(6) [of t] s(7) [of t] t by (auto simp: event_ok_def)
  moreover have "distinct (map fst (xs @ ys))" "u \<in> fst ` set (xs @ ys) \<longleftrightarrow> u \<noteq> t \<and> u \<in> fst ` set (running a)" for u
    using s(3) finish(1) by auto
  moreover have "u < length (nodes g) \<and> state (nodes g ! u) \<in> {Running, Done} \<longleftrightarrow> Began u \<in> set (log a)" for u
    using s(6) [of u] run [of u] don [of u] s(4) [of u] s(7) [of u] t by auto
  moreover have "graph_ok (dom (guards a)) [] g"
    using complete_ok [OF s(1) t] finish(2) by auto
  ultimately show ?case
    using dp run don unfolding sys_ok_def by auto
qed

section \<open>Disciplined tasks\<close>

text \<open>
  \<open>disciplined p h\<close>: run while it owns the guards \<open>h\<close>, the task drops only guards of tasks it
  created with \<open>add_held\<close>, each once. The code relies on it: \<open>release\<close> checks nothing.
\<close>

primrec disciplined :: "spawn_prog \<Rightarrow> nat set \<Rightarrow> bool" where
  "disciplined Finish = (\<lambda>h. True)"
| "disciplined (SpawnAdd k deps cont) = (\<lambda>h. \<forall>n. n \<notin> h \<longrightarrow> disciplined (cont n) h)"
| "disciplined (SpawnEdge f t cont) = disciplined cont"
| "disciplined (SpawnAddHeld k deps cont) = (\<lambda>h. \<forall>n. n \<notin> h \<longrightarrow> disciplined (cont n) (insert n h))"
| "disciplined (SpawnRelease r cont) = (\<lambda>h. r \<in> h \<and> disciplined cont (h - {r}))"

abbreviation owned :: "sys \<Rightarrow> nat \<Rightarrow> nat set" where
  "owned a t \<equiv> {n. guards a n = Some t}"

definition owners_ok :: "sys \<Rightarrow> bool" where
  "owners_ok a \<longleftrightarrow> (\<forall>(t, p) \<in> set (running a). disciplined p (owned a t)) \<and>
     (\<forall>n t. guards a n = Some t \<longrightarrow> Began t \<in> set (log a))"

lemma owners_okD:
  assumes "owners_ok a"
  shows "(t, p) \<in> set (running a) \<Longrightarrow> disciplined p (owned a t)"
    and "guards a n = Some t \<Longrightarrow> Began t \<in> set (log a)"
  using assms unfolding owners_ok_def by auto

lemma owners_ok_upd:
  assumes r: "running a = xs @ (t, p) # ys" and d: "distinct (map fst (running a))" and ok: "owners_ok a"
    and q: "disciplined q {n. G n = Some t}" and G: "\<And>u. u \<noteq> t \<Longrightarrow> {n. G n = Some u} = owned a u"
    and beg: "Began t \<in> set (log a)"
  shows "owners_ok (a\<lparr>sgraph := g, running := xs @ (t, q) # ys, guards := G, declared := D\<rparr>)"
proof -
  have "disciplined p' {n. G n = Some u}" if "(u, p') \<in> set (xs @ (t, q) # ys)" for u p'
  proof (cases "u = t")
    case True
    have "t \<notin> fst ` set (xs @ ys)" using d r by auto
    with that True have "(u, p') = (t, q)" by force
    with q show ?thesis by simp
  next
    case False
    with that r have "(u, p') \<in> set (running a)" by auto
    with ok have "disciplined p' (owned a u)" by (rule owners_okD)
    with G [OF False] show ?thesis by simp
  qed
  moreover have "Began u \<in> set (log a)" if "G n = Some u" for n u
  proof (cases "u = t")
    case True
    with beg show ?thesis by simp
  next
    case False
    with that G have "guards a n = Some u" by auto
    with ok show ?thesis by (rule owners_okD)
  qed
  ultimately show ?thesis unfolding owners_ok_def by auto
qed

lemma sched_step_owners:
  assumes "sched_step exec a b" "sys_ok a" "owners_ok a" "\<And>t k. disciplined (exec t k) {}"
  shows "owners_ok b"
  using assms
proof (induction rule: sched_step.induct)
  case (start at a t g)
  note s = sys_okD [OF start(3)] and f = start_at_fields [OF sys_okD(1) [OF start(3)] start(1,2)]
  have "Began t \<notin> set (log a)" using s(6) [of t] f(3) by simp
  then have "owned a t = {}" using owners_okD(2) [OF start(4)] by auto
  then show ?case using start(4,5) by (auto simp: owners_ok_def)
next
  case (call_add a xs t k deps cont ys n g)
  note s = sys_okD [OF call_add(3)]
  have n: "n \<notin> owned a t"
    using add_with_priority_ok(3) [OF s(1) call_add(2) [unfolded add_def]] by auto
  have "disciplined (SpawnAdd k deps cont) (owned a t)"
    by (rule owners_okD(1) [OF call_add(4)]) (simp add: call_add(1))
  with n have "disciplined (cont n) (owned a t)" by simp
  then show ?case using call_add(1,4) by (auto simp: owners_ok_def)
next
  case (call_edge a xs t f to cont ys g)
  then show ?case by (auto simp: owners_ok_def)
next
  case (call_add_held a xs t k deps cont ys n g)
  note s = sys_okD [OF call_add_held(3)]
  have n: "n \<notin> dom (guards a)" using add_held_ok(3) [OF s(1) call_add_held(2)] .
  then have n': "n \<notin> owned a u" for u by auto
  have "disciplined (SpawnAddHeld k deps cont) (owned a t)"
    by (rule owners_okD(1) [OF call_add_held(4)]) (simp add: call_add_held(1))
  with n' have new: "disciplined (cont n) (insert n (owned a t))" by simp
  have beg: "Began t \<in> set (log a)"
    using s(6) [of t] s(4) [of t] call_add_held(1) by auto
  show ?case
  proof (rule owners_ok_upd [OF call_add_held(1) s(3) call_add_held(4)])
    have "{m. ((guards a)(n \<mapsto> t)) m = Some t} = insert n (owned a t)" by auto
    then show "disciplined (cont n) {m. ((guards a)(n \<mapsto> t)) m = Some t}" using new by simp
    show "{m. ((guards a)(n \<mapsto> t)) m = Some u} = owned a u" if "u \<noteq> t" for u
      using that n by auto
  qed (rule beg)
next
  case (call_release a xs t r cont ys g)
  note s = sys_okD [OF call_release(4)]
  have "disciplined (SpawnRelease r cont) (owned a t)"
    by (rule owners_okD(1) [OF call_release(5)]) (simp add: call_release(1))
  then have new: "disciplined cont (owned a t - {r})" by simp
  have beg: "Began t \<in> set (log a)"
    using s(6) [of t] s(4) [of t] call_release(1) by auto
  have "owners_ok (a\<lparr>sgraph := g, running := xs @ (t, cont) # ys, guards := (guards a)(r := None),
      declared := declared a\<rparr>)"
  proof (rule owners_ok_upd [OF call_release(1) s(3) call_release(5)])
    have "{m. ((guards a)(r := None)) m = Some t} = owned a t - {r}" by auto
    then show "disciplined cont {m. ((guards a)(r := None)) m = Some t}" using new by simp
    show "{m. ((guards a)(r := None)) m = Some u} = owned a u" if "u \<noteq> t" for u
      using that call_release(2) by auto
  qed (rule beg)
  then show ?case by simp
next
  case (finish a xs t ys g)
  then show ?case by (auto simp: owners_ok_def)
qed

text \<open>The invariant of the executions, kept along any number of steps.\<close>

definition sys_inv :: "sys \<Rightarrow> bool" where
  "sys_inv a \<longleftrightarrow> sys_ok a \<and> owners_ok a \<and> succ_ok (declared a) (sgraph a)"

lemma sched_step_succ:
  assumes "sched_step exec a b" "sys_ok a" "succ_ok (declared a) (sgraph a)"
  shows "succ_ok (declared b) (sgraph b)"
  using assms
proof (induction rule: sched_step.induct)
  case (start at a t g)
  note f = start_at_fields [OF sys_okD(1) [OF start(3)] start(1,2)]
  have "succ_ok (declared a) g"
    using start(4) by (rule succ_ok_same) (use f(2) in \<open>auto simp: f(5) nth_list_update\<close>)
  then show ?case by simp
next
  case (call_add a xs t k deps cont ys n g)
  then show ?case using succ_ok_add [of "declared a" "sgraph a" k deps 0 n g] by (simp add: add_def)
next
  case (call_edge a xs t f to cont ys g)
  then show ?case using succ_ok_edge [of "declared a" "sgraph a" f to g] by simp
next
  case (call_add_held a xs t k deps cont ys n g)
  then show ?case using succ_ok_add_held [of "declared a" "sgraph a" k deps 0 n g] by simp
next
  case (call_release a xs t r cont ys g)
  then show ?case using succ_ok_release [of "declared a" "sgraph a" r g] by simp
next
  case (finish a xs t ys g)
  then show ?case using succ_ok_complete [of "declared a" "sgraph a" t g] by simp
qed

definition disciplined_exec :: "exec \<Rightarrow> bool" where
  "disciplined_exec exec \<longleftrightarrow> (\<forall>t k. disciplined (exec t k) {})"

definition disciplined_step :: "exec \<Rightarrow> sys \<Rightarrow> sys \<Rightarrow> bool" where
  "disciplined_step exec a b \<longleftrightarrow> disciplined_exec exec \<and> sched_step exec a b"

interpretation sched: invariant_system "disciplined_step exec" sys_inv for exec
proof
  fix a b
  assume "disciplined_step exec a b" "sys_inv a"
  then show "sys_inv b"
    using sched_step_ok [of exec a b] sched_step_owners [of exec a b] sched_step_succ [of exec a b]
    by (simp add: sys_inv_def disciplined_exec_def disciplined_step_def)
qed

lemma disciplined_step_eq: "disciplined_exec exec \<Longrightarrow> disciplined_step exec = sched_step exec"
  by (simp add: disciplined_step_def fun_eq_iff)

lemma sys_inv_steps:
  "(sched_step exec)\<^sup>*\<^sup>* a b \<Longrightarrow> sys_inv a \<Longrightarrow> disciplined_exec exec \<Longrightarrow> sys_inv b"
  using sched.reachable_good [of exec a b] by (simp add: disciplined_step_eq)

section \<open>The executors are schedules of the abstract system\<close>

text \<open>Starting the tasks that became ready.\<close>

lemma drain_steps:
  assumes "graph_ok (dom (guards a)) [] (sgraph a)" "drain (sgraph a) = (out, g)"
  shows "(sched_step exec)\<^sup>*\<^sup>* a
      (a\<lparr>sgraph := g, running := running a @ spawn exec out, log := log a @ map (Began \<circ> fst) out\<rparr>)
    \<and> ready g = []"
  using assms
proof (induction "sgraph a" arbitrary: a out g rule: drain.induct)
  case 1
  show ?case
  proof (cases "pop Fifo (sgraph a)")
    case None
    then have "out = []" "g = sgraph a"
      using 1(3) by (simp_all add: drain.simps)
    moreover have "ready (sgraph a) = []"
      using None by (simp add: pop_def pick_def split: if_splits)
    ultimately show ?thesis by (simp add: spawn_def)
  next
    case (Some r)
    then obtain t h where p: "pop Fifo (sgraph a) = Some (t, h)" by (cases r) auto
    obtain out' where o: "drain h = (out', g)" "out = (t, kind (nodes h ! t)) # out'"
      using 1(3) p by (auto simp: drain.simps [of "sgraph a"] split: prod.splits)
    have s: "0 < length (ready (sgraph a))" "start_at (sgraph a) 0 = (t, h)"
      using p by (auto simp: pop_def pick_def split: if_splits)
    let ?b = "a\<lparr>sgraph := h, running := running a @ [(t, exec t (kind (nodes h ! t)))], log := log a @ [Began t]\<rparr>"
    have step: "sched_step exec a ?b" using s by (rule sched_step.start)
    have ok: "graph_ok (dom (guards ?b)) [] (sgraph ?b)"
      using start_at_ok [OF 1(2) s] by simp
    have "(sched_step exec)\<^sup>*\<^sup>* ?b (?b\<lparr>sgraph := g, running := running ?b @ spawn exec out',
        log := log ?b @ map (Began \<circ> fst) out'\<rparr>) \<and> ready g = []"
      by (rule 1(1) [OF p _ ok]) (simp_all add: o)
    then show ?thesis
      using converse_rtranclp_into_rtranclp [where r = "sched_step exec", OF step] by (simp add: o spawn_def)
  qed
qed

text \<open>A pool state and the abstract state it implements.\<close>

definition implements :: "pool \<Rightarrow> sys \<Rightarrow> bool" where
  "implements s a \<longleftrightarrow> pgraph s = sgraph a \<and> scope s = running a \<and> sys_inv a \<and> ready (sgraph a) = []"

lemma after_implements:
  assumes i: "sys_inv b" and d: "disciplined_exec exec" and st: "(sched_step exec)\<^sup>*\<^sup>* a b"
  shows "\<exists>c. (sched_step exec)\<^sup>*\<^sup>* a c \<and> implements (after exec (sgraph b) (running b)) c"
proof -
  obtain out g where o: "drain (sgraph b) = (out, g)" by (cases "drain (sgraph b)")
  let ?c = "b\<lparr>sgraph := g, running := running b @ spawn exec out, log := log b @ map (Began \<circ> fst) out\<rparr>"
  have "graph_ok (dom (guards b)) [] (sgraph b)" using i by (simp add: sys_inv_def sys_ok_def)
  from drain_steps [OF this o] have c: "(sched_step exec)\<^sup>*\<^sup>* b ?c" "ready g = []" by auto
  from sys_inv_steps [OF c(1) i d] have "sys_inv ?c" .
  with c(2) have "implements (after exec (sgraph b) (running b)) ?c"
    by (simp add: implements_def after_def o)
  moreover have "(sched_step exec)\<^sup>*\<^sup>* a ?c" using st c(1) by (rule rtranclp_trans)
  ultimately show ?thesis by blast
qed

lemma pool_step_refines:
  assumes "pool_step exec s s'" "implements s a" "disciplined_exec exec"
  shows "\<exists>b. (sched_step exec)\<^sup>*\<^sup>* a b \<and> implements s' b"
proof -
  have "\<exists>b. sched_step exec a b \<and> s' = after exec (sgraph b) (running b)"
    using assms(1)
  proof (cases rule: pool_step.cases)
    case (pool_add xs t k deps cont ys n g)
    then show ?thesis using assms(2) sched_step.call_add [of a xs t k deps cont ys n g exec]
      by (force simp: implements_def)
  next
    case (pool_edge xs t f to cont ys g)
    then show ?thesis using assms(2) sched_step.call_edge [of a xs t f to cont ys g exec]
      by (force simp: implements_def)
  next
    case (pool_add_held xs t k deps cont ys n g)
    then show ?thesis using assms(2) sched_step.call_add_held [of a xs t k deps cont ys n g exec]
      by (force simp: implements_def)
  next
    case (pool_release xs t r cont ys g)
    have "(t, SpawnRelease r cont) \<in> set (running a)"
      using pool_release assms(2) unfolding implements_def by (metis in_set_conv_decomp)
    then have "disciplined (SpawnRelease r cont) (owned a t)"
      using assms(2) by (auto simp: implements_def sys_inv_def dest: owners_okD(1))
    then have "guards a r = Some t" by simp
    then show ?thesis using pool_release assms(2) sched_step.call_release [of a xs t r cont ys g exec]
      by (force simp: implements_def)
  next
    case (pool_finish xs t ys g)
    then show ?thesis using assms(2) sched_step.finish [of a xs t ys g exec]
      by (force simp: implements_def)
  qed
  then obtain b where b: "sched_step exec a b" "s' = after exec (sgraph b) (running b)" by blast
  have ab: "(sched_step exec)\<^sup>*\<^sup>* a b" using b(1) by (rule r_into_rtranclp)
  have "sys_inv a" using assms(2) by (simp add: implements_def)
  from after_implements [OF sys_inv_steps [OF ab this assms(3)] assms(3) ab] b(2)
  show ?thesis by simp
qed

interpretation pool: simulation
  "\<lambda>s s'. disciplined_exec exec \<and> pool_step exec s s'" "sched_step exec" implements for exec
  by unfold_locales (blast intro: pool_step_refines)

lemma pool_steps_refine:
  assumes "(pool_step exec)\<^sup>*\<^sup>* s s'" "implements s a" "disciplined_exec exec"
  shows "\<exists>b. (sched_step exec)\<^sup>*\<^sup>* a b \<and> implements s' b"
  using pool.run_simulates [of exec s s' a] assms by simp

text \<open>\<open>pop\<close> takes one of the ready tasks in any order, and finds one whenever there is one.\<close>

lemma best_from_range: "at < i \<Longrightarrow> best_from g b at i ts < i + length ts"
proof (induction g b at i ts rule: best_from.induct)
  case (2 g best at i t ts)
  then show ?case by (cases "key_le g best t") (force+)
qed simp

lemma pop_None: "pop order g = None \<longleftrightarrow> ready g = []"
proof (cases order)
  case Fifo
  then show ?thesis by (simp add: pop_def pick_def)
next
  case Priority
  then show ?thesis
    using best_from_range [of 0 1 g "hd (ready g)" "tl (ready g)"]
    by (cases "ready g") (simp_all add: pop_def pick_def)
next
  case (Shuffled seed)
  then show ?thesis by (simp add: pop_def pick_def Let_def)
qed

lemma pop_start:
  assumes "pop order g = Some (t, h)"
  obtains at where "at < length (ready g)" "start_at g at = (t, h)"
  using assms by (auto simp: pop_def split: option.splits if_splits)

lemma run_prog_steps:
  assumes "run_prog p (sgraph a) = Some g" "running a = xs @ (t, p) # ys" "sys_inv a" "disciplined_exec exec"
  shows "\<exists>b. (sched_step exec)\<^sup>*\<^sup>* a b \<and> sgraph b = g \<and> running b = xs @ (t, Finish) # ys \<and> log b = log a"
  using assms
proof (induction p arbitrary: a)
  case Finish
  then show ?case by auto
next
  case (SpawnAdd k deps cont)
  then obtain n h where h: "add (sgraph a) k deps = Some (n, h)" "run_prog (cont n) h = Some g"
    by (auto split: option.splits)
  let ?b = "a\<lparr>sgraph := h, running := xs @ (t, cont n) # ys, declared := declared a \<union> {(d, n) | d. d \<in> set deps}\<rparr>"
  have st: "sched_step exec a ?b" by (rule sched_step.call_add [OF SpawnAdd(3) h(1)])
  have "sys_inv ?b" by (rule sys_inv_steps [OF r_into_rtranclp [where r = "sched_step exec", OF st] SpawnAdd(4,5)])
  from SpawnAdd(1) [of "cont n" ?b, OF rangeI _ _ this SpawnAdd(5)] h obtain c where
    "(sched_step exec)\<^sup>*\<^sup>* ?b c" "sgraph c = g" "running c = xs @ (t, Finish) # ys" "log c = log a" by auto
  then show ?case using converse_rtranclp_into_rtranclp [where r = "sched_step exec", OF st] by blast
next
  case (SpawnEdge f to cont)
  then obtain h where h: "edge (sgraph a) f to = Some h" "run_prog cont h = Some g"
    by (auto split: option.splits)
  let ?b = "a\<lparr>sgraph := h, running := xs @ (t, cont) # ys, declared := insert (f, to) (declared a)\<rparr>"
  have st: "sched_step exec a ?b" by (rule sched_step.call_edge [OF SpawnEdge(3) h(1)])
  have "sys_inv ?b" by (rule sys_inv_steps [OF r_into_rtranclp [where r = "sched_step exec", OF st] SpawnEdge(4,5)])
  from SpawnEdge(1) [of ?b, OF _ _ this SpawnEdge(5)] h obtain c where
    "(sched_step exec)\<^sup>*\<^sup>* ?b c" "sgraph c = g" "running c = xs @ (t, Finish) # ys" "log c = log a" by auto
  then show ?case using converse_rtranclp_into_rtranclp [where r = "sched_step exec", OF st] by blast
next
  case (SpawnAddHeld k deps cont)
  then obtain n h where h: "add_held (sgraph a) k deps 0 = Some (n, h)" "run_prog (cont n) h = Some g"
    by (auto split: option.splits)
  let ?b = "a\<lparr>sgraph := h, running := xs @ (t, cont n) # ys, guards := (guards a)(n \<mapsto> t),
      declared := declared a \<union> {(d, n) | d. d \<in> set deps}\<rparr>"
  have st: "sched_step exec a ?b" by (rule sched_step.call_add_held [OF SpawnAddHeld(3) h(1)])
  have "sys_inv ?b" by (rule sys_inv_steps [OF r_into_rtranclp [where r = "sched_step exec", OF st] SpawnAddHeld(4,5)])
  from SpawnAddHeld(1) [of "cont n" ?b, OF rangeI _ _ this SpawnAddHeld(5)] h obtain c where
    "(sched_step exec)\<^sup>*\<^sup>* ?b c" "sgraph c = g" "running c = xs @ (t, Finish) # ys" "log c = log a" by auto
  then show ?case using converse_rtranclp_into_rtranclp [where r = "sched_step exec", OF st] by blast
next
  case (SpawnRelease r cont)
  then obtain h where h: "release (sgraph a) r = Some h" "run_prog cont h = Some g"
    by (auto split: option.splits)
  have "disciplined (SpawnRelease r cont) (owned a t)"
    by (rule owners_okD(1)) (use SpawnRelease(3,4) in \<open>auto simp: sys_inv_def\<close>)
  then have own: "guards a r = Some t" by simp
  let ?b = "a\<lparr>sgraph := h, running := xs @ (t, cont) # ys, guards := (guards a)(r := None)\<rparr>"
  have st: "sched_step exec a ?b" by (rule sched_step.call_release [OF SpawnRelease(3) own h(1)])
  have "sys_inv ?b" by (rule sys_inv_steps [OF r_into_rtranclp [where r = "sched_step exec", OF st] SpawnRelease(4,5)])
  from SpawnRelease(1) [of ?b, OF _ _ this SpawnRelease(5)] h obtain c where
    "(sched_step exec)\<^sup>*\<^sup>* ?b c" "sgraph c = g" "running c = xs @ (t, Finish) # ys" "log c = log a" by auto
  then show ?case using converse_rtranclp_into_rtranclp [where r = "sched_step exec", OF st] by blast
qed

lemma turn_steps:
  assumes "pop order (sgraph a) = Some (t, g1)" "run_task exec t g1 = Some g2"
    and "running a = []" "sys_inv a" "disciplined_exec exec"
  shows "\<exists>b. (sched_step exec)\<^sup>*\<^sup>* a b \<and> sgraph b = g2 \<and> running b = [] \<and> log b = log a @ [Began t, Ended t]"
proof -
  obtain at where at: "at < length (ready (sgraph a))" "start_at (sgraph a) at = (t, g1)"
    using assms(1) by (rule pop_start)
  obtain g' where g': "run_prog (exec t (kind (nodes g1 ! t))) g1 = Some g'" "complete g' t = Some g2"
    using assms(2) by (auto simp: run_task_def split: option.splits)
  let ?b = "a\<lparr>sgraph := g1, running := running a @ [(t, exec t (kind (nodes g1 ! t)))], log := log a @ [Began t]\<rparr>"
  have st: "sched_step exec a ?b" using at by (rule sched_step.start)
  have "sys_inv ?b" by (rule sys_inv_steps [OF r_into_rtranclp [where r = "sched_step exec", OF st] assms(4,5)])
  from run_prog_steps [of _ ?b g' "[]" t "[]", OF _ _ this assms(5)] g'(1) assms(3)
  obtain c where c: "(sched_step exec)\<^sup>*\<^sup>* ?b c" "sgraph c = g'" "running c = [] @ (t, Finish) # []"
      "log c = log a @ [Began t]"
    by auto
  have "sched_step exec c (c\<lparr>sgraph := g2, running := [] @ [], log := log c @ [Ended t]\<rparr>)"
    by (rule sched_step.finish [OF c(3)]) (simp add: c(2) g'(2))
  with c(1) have "(sched_step exec)\<^sup>*\<^sup>* ?b (c\<lparr>sgraph := g2, running := [], log := log c @ [Ended t]\<rparr>)"
    by simp
  with converse_rtranclp_into_rtranclp [where r = "sched_step exec", OF st]
  show ?thesis using c(4) by (intro exI [of _ "c\<lparr>sgraph := g2, running := [], log := log c @ [Ended t]\<rparr>"]) simp
qed

text \<open>The log of tasks run one after the other.\<close>

definition one_by_one :: "nat list \<Rightarrow> event list" where
  "one_by_one ts = concat (map (\<lambda>t. [Began t, Ended t]) ts)"

lemma one_by_one_Ended [simp]: "Ended t \<in> set (one_by_one ts) \<longleftrightarrow> t \<in> set ts"
  by (auto simp: one_by_one_def)

lemma one_by_one_distinct: "distinct (one_by_one ts) \<Longrightarrow> distinct ts"
  by (induction ts) (auto simp: one_by_one_def)

lemma serial_run_steps:
  assumes "serial_run fuel order exec (sgraph a) = Returned (g, left)"
    and "running a = []" "sys_inv a" "disciplined_exec exec"
  shows "\<exists>b ts. (sched_step exec)\<^sup>*\<^sup>* a b \<and> sgraph b = g \<and> running b = [] \<and> ready g = [] \<and> left = unfinished g \<and>
    log b = log a @ one_by_one ts"
  using assms
proof (induction fuel arbitrary: a)
  case 0
  then show ?case by simp
next
  case (Suc fuel)
  show ?case
  proof (cases "pop order (sgraph a)")
    case None
    with Suc.prems show ?thesis using pop_None [of order "sgraph a"]
      by (intro exI [of _ a] exI [of _ "[]"]) (auto simp: one_by_one_def)
  next
    case (Some r)
    obtain t g1 where r: "r = (t, g1)" by (cases r)
    with Some Suc.prems(1) obtain g2 where
      g2: "run_task exec t g1 = Some g2" "serial_run fuel order exec g2 = Returned (g, left)"
      by (auto split: option.splits)
    from turn_steps [OF Some [unfolded r] g2(1) Suc.prems(2-4)] obtain b where
      b: "(sched_step exec)\<^sup>*\<^sup>* a b" "sgraph b = g2" "running b = []" "log b = log a @ [Began t, Ended t]" by blast
    have "sys_inv b" by (rule sys_inv_steps [OF b(1) Suc.prems(3,4)])
    from Suc.IH [of b, OF _ b(3) this Suc.prems(4)] g2(2) b(2) obtain c ts where
      c: "(sched_step exec)\<^sup>*\<^sup>* b c" "sgraph c = g" "running c = []" "ready g = []" "left = unfinished g"
        "log c = log b @ one_by_one ts"
      by auto
    have "log c = log a @ one_by_one (t # ts)" using c(6) b(4) by (simp add: one_by_one_def)
    with rtranclp_trans [OF b(1) c(1)] c(2-5) show ?thesis by blast
  qed
qed

section \<open>Runs that end\<close>

definition sys_of :: "(nat \<times> nat) set \<Rightarrow> task_graph \<Rightarrow> sys" where
  "sys_of D g = \<lparr>sgraph = g, running = [], guards = (\<lambda>_. None), declared = D, log = []\<rparr>"

lemma sys_of_inv: "built D g \<Longrightarrow> sys_inv (sys_of D g)"
  using built_ok [of D g]
  by (auto simp: sys_inv_def sys_ok_def owners_ok_def sys_of_def in_order_def)

lemma declared_mono:
  "(sched_step exec)\<^sup>*\<^sup>* a b \<Longrightarrow> declared a \<subseteq> declared b"
proof (induction rule: rtranclp_induct)
  case (step b c)
  from step(2) have "declared b \<subseteq> declared c" by cases auto
  with step(3) show ?case by blast
qed simp

text \<open>When nothing is ready or running and no guard is left, a task that is not done waits for one
  that is not done: there is a cycle of declared edges.\<close>

lemma stuck_predecessor:
  assumes i: "sys_inv a" and q: "running a = []" "ready (sgraph a) = []" "guards a = (\<lambda>_. None)"
    and t: "t < length (nodes (sgraph a))" "state (nodes (sgraph a) ! t) \<noteq> Done"
  obtains f where "(f, t) \<in> declared a" "f < length (nodes (sgraph a))" "state (nodes (sgraph a) ! f) \<noteq> Done"
proof -
  note s = sys_okD [OF i [unfolded sys_inv_def, THEN conjunct1]]
  note d = graph_okD [OF s(1)]
  have "state (nodes (sgraph a) ! t) = Waiting"
    using t d(2) [of t] d(5) [of t] q(1,2) s(4) [of t] by (cases "state (nodes (sgraph a) ! t)") auto
  then have "0 < waiting_on (nodes (sgraph a) ! t)" using d(9) [OF t(1)] by simp
  then have "0 < in_degree (sgraph a) t" using d(8) [OF t(1)] q(3) by simp
  then obtain f where f: "f < length (nodes (sgraph a))" "t \<in> set (successors (nodes (sgraph a) ! f))"
    by (rule in_degree_witness)
  then have "state (nodes (sgraph a) ! f) \<noteq> Done" using d(6) [OF f(1)] by auto
  moreover have "(f, t) \<in> declared a"
    using i f by (auto simp: sys_inv_def succ_ok_def)
  ultimately show thesis using that f(1) by blast
qed

lemma no_predecessor_cycle:
  fixes R :: "(nat \<times> nat) set"
  assumes S: "finite S" "x \<in> S" and pred: "\<And>t. t \<in> S \<Longrightarrow> \<exists>f \<in> S. (f, t) \<in> R"
  shows "\<not> acyclic R"
proof
  assume ac: "acyclic R"
  let ?Q = "R \<inter> S \<times> S"
  have "finite ?Q" using S(1) by auto
  moreover have "acyclic ?Q" using ac by (rule acyclic_subset) auto
  ultimately have "wf ?Q" by (rule finite_acyclic_wf)
  from wfE_min [OF this S(2)] obtain z where z: "z \<in> S" "\<And>y. (y, z) \<in> ?Q \<Longrightarrow> y \<notin> S" by blast
  from pred [OF z(1)] z show False by blast
qed

lemma event_before:
  assumes "in_order D l" "i < length l"
  shows "event_ok D (set (take i l)) (l ! i)"
  using assms by (auto simp: in_order_def)

lemma in_order_trancl:
  assumes o: "in_order D l" and "(f, t) \<in> D\<^sup>+" "i < length l" "l ! i = Began t"
  shows "Ended f \<in> set (take i l)"
  using assms(2-)
proof (induction arbitrary: i rule: trancl_induct)
  case (base t)
  then show ?case using event_before [OF o base(2)] by (auto simp: event_ok_def)
next
  case (step y z)
  have "Ended y \<in> set (take i l)"
    using event_before [OF o step(4)] step(2,5) by (auto simp: event_ok_def)
  then obtain j where j: "j < i" "l ! j = Ended y" by (auto simp: in_set_conv_nth)
  have "Began y \<in> set (take j l)"
    using event_before [OF o, of j] j step(4) by (auto simp: event_ok_def)
  then obtain k where k: "k < j" "l ! k = Began y" by (auto simp: in_set_conv_nth)
  have "Ended f \<in> set (take k l)" using step(3) [of k] k j(1) step(4) by simp
  moreover have "set (take k l) \<subseteq> set (take i l)"
    by (rule set_take_subset_set_take) (use k(1) j(1) in simp)
  ultimately show ?case by blast
qed

lemma in_order_acyclic:
  assumes o: "in_order D l" and "(t, t) \<in> D\<^sup>+"
  shows "Began t \<notin> set l"
proof
  assume "Began t \<in> set l"
  then obtain i where i: "i < length l" "l ! i = Began t" by (auto simp: in_set_conv_nth)
  from in_order_trancl [OF o assms(2) i] obtain j where j: "j < i" "l ! j = Ended t"
    by (auto simp: in_set_conv_nth)
  with event_before [OF o, of j] i have "Began t \<in> set (take j l)" by (auto simp: event_ok_def)
  then obtain k where k: "k < j" "l ! k = Began t" by (auto simp: in_set_conv_nth)
  have "distinct l" using o by (simp add: in_order_def)
  moreover have "k < length l" "k \<noteq> i" "l ! k = l ! i" using i j(1) k by simp_all
  ultimately show False using i(1) by (metis nth_eq_iff_index_eq)
qed

lemma unfinished_0:
  "unfinished g = 0 \<longleftrightarrow> (\<forall>t < length (nodes g). state (nodes g ! t) \<in> {Done, Cancelled})"
  by (simp add: unfinished_def filter_empty_conv all_set_conv_all_nth)

lemma left_iff_acyclic:
  assumes i: "sys_inv a" and q: "running a = []" "ready (sgraph a) = []" "guards a = (\<lambda>_. None)"
  shows "unfinished (sgraph a) = 0 \<longleftrightarrow> acyclic (declared a)"
proof
  note s = sys_okD [OF i [unfolded sys_inv_def, THEN conjunct1]]
  assume "unfinished (sgraph a) = 0"
  then have don: "state (nodes (sgraph a) ! t) = Done" if "t < length (nodes (sgraph a))" for t
    using that graph_okD(5) [OF s(1) that] by (auto simp: unfinished_0)
  show "acyclic (declared a)"
    unfolding acyclic_def
  proof (intro allI notI)
    fix t assume c: "(t, t) \<in> (declared a)\<^sup>+"
    then obtain u where "(t, u) \<in> declared a" by (meson tranclD)
    then have "t < length (nodes (sgraph a))" using s(2) by (auto simp: deps_ok_def)
    with don s(6) [of t] have "Began t \<in> set (log a)" by simp
    with in_order_acyclic [OF s(5) c] show False by simp
  qed
next
  assume ac: "acyclic (declared a)"
  show "unfinished (sgraph a) = 0"
  proof (rule ccontr)
    let ?S = "{t. t < length (nodes (sgraph a)) \<and> state (nodes (sgraph a) ! t) \<noteq> Done}"
    assume "unfinished (sgraph a) \<noteq> 0"
    then obtain x where "x \<in> ?S" by (auto simp: unfinished_0)
    moreover have "\<exists>f \<in> ?S. (f, t) \<in> declared a" if "t \<in> ?S" for t
      using stuck_predecessor [OF i q, of t] that by blast
    ultimately have "\<not> acyclic (declared a)"
      by (intro no_predecessor_cycle [of ?S x]) auto
    with ac show False by simp
  qed
qed

text \<open>A run whose tasks make no calls ends after one turn per task.\<close>

lemma sum_list_update_less:
  fixes f :: "'a \<Rightarrow> nat"
  assumes "length ys = length xs" "\<And>i. i < length xs \<Longrightarrow> f (ys ! i) \<le> f (xs ! i)"
    and "i < length xs" "f (ys ! i) < f (xs ! i)"
  shows "sum_list (map f ys) < sum_list (map f xs)"
proof -
  have "sum_list (map f ys) = (\<Sum>j < length xs. f (ys ! j))"
    using assms(1) by (simp add: sum_list_sum_nth atLeast0LessThan)
  also have "\<dots> < (\<Sum>j < length xs. f (xs ! j))"
    using assms(2-4) by (intro sum_strict_mono_ex1) auto
  also have "\<dots> = sum_list (map f xs)"
    by (simp add: sum_list_sum_nth atLeast0LessThan)
  finally show ?thesis .
qed

lemma unfinished_sum:
  "unfinished g = sum_list (map (\<lambda>n. if state n \<in> {Done, Cancelled} then 0 else 1) (nodes g))"
proof -
  have "length (filter (\<lambda>n. state n \<notin> {Done, Cancelled}) ns) =
      sum_list (map (\<lambda>n. if state n \<in> {Done, Cancelled} then 0 else 1) ns)" for ns
    by (induction ns) auto
  then show ?thesis by (simp add: unfinished_def)
qed

lemma static_turn:
  assumes ok: "graph_ok {} [] g" and p: "pop order g = Some (t, g1)"
  shows "\<exists>g2. run_task (\<lambda>_ _. Finish) t g1 = Some g2 \<and> graph_ok {} [] g2 \<and> unfinished g2 < unfinished g"
proof -
  obtain at where at: "at < length (ready g)" "start_at g at = (t, g1)" using p by (rule pop_start)
  note f = start_at_fields [OF ok at]
  have t: "t < length (nodes g1)" "state (nodes g1 ! t) = Running"
    using f(2) by (simp_all add: f(5))
  obtain g2 where g2: "complete g1 t = Some g2" "graph_ok {} [] g2"
    using complete_ok [OF start_at_ok [OF ok at] t] by blast
  let ?h = "put_node g1 t ((nodes g1 ! t)\<lparr>state := Done, successors := []\<rparr>)"
  have r: "release_all ?h (successors (nodes g1 ! t)) = Some g2"
    using g2(1) t(1) by (simp add: complete_def Let_def)
  note l = leavesD [OF leaves_release_all [OF r]]
  have len: "length (nodes ?h) = length (nodes g)" "length (nodes g2) = length (nodes g)"
    using release_all_length [OF r] by (simp_all add: f(5))
  have st: "state (nodes ?h ! u) = (if u = t then Done else state (nodes g ! u))" if "u < length (nodes g)" for u
    using f(2) that by (simp add: f(5) nth_list_update)
  let ?f = "\<lambda>n. if state n \<in> {Done, Cancelled} then 0 else 1 :: nat"
  have "sum_list (map ?f (nodes g2)) < sum_list (map ?f (nodes g))"
  proof (rule sum_list_update_less [of _ _ _ t])
    fix u assume u: "u < length (nodes g)"
    then have "state (nodes g2 ! u) = Done \<longleftrightarrow> u = t \<or> state (nodes g ! u) = Done"
      using l(4) [of u] st [OF u] len by auto
    moreover have "state (nodes g ! u) \<noteq> Cancelled" using graph_okD(5) [OF ok u] .
    ultimately show "?f (nodes g2 ! u) \<le> ?f (nodes g ! u)" by auto
  next
    have "state (nodes g2 ! t) = Done"
      using l(4) [of t] st [OF f(2)] len f(2) by auto
    then show "?f (nodes g2 ! t) < ?f (nodes g ! t)" using f(3) by simp
  qed (use len f(2) in auto)
  then have "unfinished g2 < unfinished g" by (simp only: unfinished_sum)
  with g2 show ?thesis by (simp add: run_task_def)
qed

lemma static_run:
  "graph_ok {} [] g \<Longrightarrow> unfinished g < fuel \<Longrightarrow>
   \<exists>g' left. serial_run fuel order (\<lambda>_ _. Finish) g = Returned (g', left)"
proof (induction fuel arbitrary: g)
  case (Suc fuel)
  show ?case
  proof (cases "pop order g")
    case (Some r)
    obtain t g1 where r: "r = (t, g1)" by (cases r)
    from static_turn [OF Suc.prems(1) Some [unfolded r]] obtain g2 where
      g2: "run_task (\<lambda>_ _. Finish) t g1 = Some g2" "graph_ok {} [] g2" "unfinished g2 < unfinished g" by blast
    from Suc.IH [OF g2(2)] g2(3) Suc.prems(2) Some r g2(1) show ?thesis by simp
  qed simp
qed simp

text \<open>A graph that makes no calls keeps its declared edges, and no guard appears.\<close>

lemma static_steps:
  "(sched_step (\<lambda>_ _. Finish))\<^sup>*\<^sup>* a b \<Longrightarrow> \<forall>(t, p) \<in> set (running a). p = Finish \<Longrightarrow>
   declared b = declared a \<and> guards b = guards a \<and> (\<forall>(t, p) \<in> set (running b). p = Finish)"
proof (induction rule: rtranclp_induct)
  case (step b c)
  then have b: "declared b = declared a" "guards b = guards a" "\<forall>(t, p) \<in> set (running b). p = Finish" by simp_all
  from step(2) b show ?case by cases auto
qed simp

section \<open>Slices\<close>

lemma run_for_slice:
  "run_for m (\<lambda>_. False) order exec k g = Returned (g1, Yielded j) \<Longrightarrow>
   j = k + m \<and> serial_run (m + fuel) order exec g = serial_run fuel order exec g1"
proof (induction m arbitrary: k g)
  case 0
  then show ?case by (simp split: if_splits)
next
  case (Suc m)
  then show ?case by (force split: option.splits)
qed

section \<open>The priority order\<close>

lemma key_le_refl: "key_le g t t"
  by (simp add: key_le_def)

lemma key_le_trans: "key_le g r s \<Longrightarrow> key_le g s t \<Longrightarrow> key_le g r t"
  unfolding key_le_def Let_def by (auto dest: order.strict_trans)

lemma key_le_total: "key_le g s t \<or> key_le g t s"
  unfolding key_le_def Let_def by (auto simp: not_less)

text \<open>\<open>best_from\<close> returns the position of a greatest element of the queue.\<close>

lemma best_from_greatest:
  "q = us @ ts \<Longrightarrow> at < length us \<Longrightarrow> us ! at = b \<Longrightarrow> \<forall>u \<in> set us. key_le g u b \<Longrightarrow>
   (let r = best_from g b at (length us) ts in r < length q \<and> (\<forall>u \<in> set q. key_le g u (q ! r)))"
proof (induction ts arbitrary: us b at)
  case Nil
  then show ?case by simp
next
  case (Cons t ts)
  show ?case
  proof (cases "key_le g b t")
    case True
    with Cons.prems(4) have "\<forall>u \<in> set (us @ [t]). key_le g u t"
      using key_le_trans key_le_refl by auto
    with Cons.IH [of "us @ [t]" "length us" t] Cons.prems(1) True show ?thesis by simp
  next
    case False
    with key_le_total have "key_le g t b" by blast
    with Cons.prems have "\<forall>u \<in> set (us @ [t]). key_le g u b" by auto
    with Cons.IH [of "us @ [t]" at b] Cons.prems False show ?thesis by (simp add: nth_append)
  qed
qed

text \<open>Executions from a graph built before the run.\<close>

lemma serial_run_from:
  assumes "built D g" "disciplined_exec exec" "serial_run fuel order exec g = Returned (g', left)"
  obtains b ts where "(sched_step exec)\<^sup>*\<^sup>* (sys_of D g) b" "sgraph b = g'" "running b = []"
    "ready g' = []" "left = unfinished g'" "D \<subseteq> declared b" "sys_inv b" "log b = one_by_one ts"
proof -
  have i: "sys_inv (sys_of D g)" using assms(1) by (rule sys_of_inv)
  have s: "serial_run fuel order exec (sgraph (sys_of D g)) = Returned (g', left)"
    using assms(3) by (simp only: sys_of_def sys.simps)
  have r: "running (sys_of D g) = []" by (simp add: sys_of_def)
  from serial_run_steps [OF s r i assms(2)] obtain b ts where
    b: "(sched_step exec)\<^sup>*\<^sup>* (sys_of D g) b" "sgraph b = g'" "running b = []" "ready g' = []"
      "left = unfinished g'" "log b = log (sys_of D g) @ one_by_one ts" by blast
  then have lg: "log b = one_by_one ts" by (simp add: sys_of_def)
  have "D \<subseteq> declared b" using declared_mono [OF b(1)] by (simp add: sys_of_def)
  then show thesis using that b(1-5) sys_inv_steps [OF b(1) i assms(2)] lg by blast
qed

lemma pool_from:
  assumes "built D g" "disciplined_exec exec" "(pool_step exec)\<^sup>*\<^sup>* (pool_init exec g) s"
  obtains b where "(sched_step exec)\<^sup>*\<^sup>* (sys_of D g) b" "implements s b" "D \<subseteq> declared b"
proof -
  have i: "sys_inv (sys_of D g)" using assms(1) by (rule sys_of_inv)
  have p: "pool_init exec g = after exec (sgraph (sys_of D g)) (running (sys_of D g))"
    by (simp add: pool_init_def sys_of_def)
  from after_implements [OF i assms(2) rtranclp.rtrancl_refl [of "sched_step exec"]] obtain a where
    a: "(sched_step exec)\<^sup>*\<^sup>* (sys_of D g) a" "implements (pool_init exec g) a"
    unfolding p by blast
  from pool_steps_refine [OF assms(3) a(2) assms(2)] obtain b where
    b: "(sched_step exec)\<^sup>*\<^sup>* a b" "implements s b" by blast
  have st: "(sched_step exec)\<^sup>*\<^sup>* (sys_of D g) b" using a(1) b(1) by (rule rtranclp_trans)
  have "D \<subseteq> declared b" using declared_mono [OF st] by (simp add: sys_of_def)
  with that st b(2) show thesis by blast
qed

section \<open>Properties\<close>

text \<open>The graph and the tasks of the examples: a task that creates a guarded task, a second one, and
  the edge between them.\<close>

definition demo_graph :: task_graph where
  "demo_graph =
     \<lparr>nodes = [\<lparr>kind = FolderGraph, waiting_on = 0, successors = [1], state = Ready, priority = 0\<rparr>,
               \<lparr>kind = PackageResult, waiting_on = 1, successors = [], state = Waiting, priority = 0\<rparr>],
      ready = [0]\<rparr>"

definition demo_exec :: exec where
  "demo_exec t k =
     (if k = PackageResult
      then SpawnAddHeld (Ext Link) [] (\<lambda>l. SpawnAdd (Body 0) [] (\<lambda>b. SpawnEdge b l (SpawnRelease l Finish)))
      else Finish)"

lemma serial_run_numeral [simp]:
  "serial_run (numeral n) order exec g =
     (case pop order g of
        None \<Rightarrow> Returned (g, unfinished g)
      | Some (tid, g1) \<Rightarrow>
          (case run_task exec tid g1 of
             None \<Rightarrow> Panicked
           | Some g2 \<Rightarrow> serial_run (pred_numeral n) order exec g2))"
  by (simp add: numeral_eq_Suc)

lemmas graph_run = add_def add_with_priority_def add_held_def release_def edge_def put_node_def Let_def
  complete_def run_task_def pop_def pick_def start_at_def remove_at_def unfinished_def

lemma demo_built: "built {(0, 1)} demo_graph"
proof -
  let ?g1 = "\<lparr>nodes = [\<lparr>kind = FolderGraph, waiting_on = 0, successors = [], state = Ready, priority = 0\<rparr>],
      ready = [0]\<rparr>"
  have "add_with_priority empty_graph FolderGraph [] 0 = Some (0, ?g1)"
    by (simp add: graph_run empty_graph_def)
  from built.built_add [OF built.built_empty this] have g1: "built {} ?g1" by simp
  have "add_with_priority ?g1 PackageResult [0] 0 = Some (1, demo_graph)"
    by (simp add: graph_run demo_graph_def)
  from built.built_add [OF g1 this] show ?thesis by simp
qed

lemma demo_disciplined: "disciplined_exec demo_exec"
  by (auto simp: disciplined_exec_def demo_exec_def)

text \<open>C29. Whatever the order of the serial executor, for tasks that drop only guards they own, each once:
  when \<open>run\<close> returns, the run was a schedule of the abstract system in which the tasks ran one at a time.
  Its log is the begin and the end of a task, then the begin and the end of the next, and so on; each ran
  once and began after all its declared dependencies had ended; nothing is left ready or running, the tasks
  done are exactly those that ran, and the second result is the number of tasks not done.\<close>

theorem serial_run_refines:
  assumes "built D g" "disciplined_exec exec" "serial_run fuel order exec g = Returned (g', left)"
  shows "\<exists>b ts. (sched_step exec)\<^sup>*\<^sup>* (sys_of D g) b \<and> sgraph b = g' \<and> running b = [] \<and> ready g' = [] \<and>
    left = unfinished g' \<and> D \<subseteq> declared b \<and> log b = one_by_one ts \<and> distinct ts \<and> in_order (declared b) (log b) \<and>
    (\<forall>t. t \<in> set ts \<longleftrightarrow> t < length (nodes g') \<and> state (nodes g' ! t) = Done)"
proof -
  obtain b ts where b: "(sched_step exec)\<^sup>*\<^sup>* (sys_of D g) b" "sgraph b = g'" "running b = []"
    "ready g' = []" "left = unfinished g'" "D \<subseteq> declared b" "sys_inv b" "log b = one_by_one ts"
    using assms by (rule serial_run_from)
  have ok: "sys_ok b" using b(7) by (simp add: sys_inv_def)
  have o: "in_order (declared b) (log b)" by (rule sys_okD(5) [OF ok])
  then have "distinct ts" unfolding b(8) by (intro one_by_one_distinct) (simp add: in_order_def)
  moreover have "t \<in> set ts \<longleftrightarrow> t < length (nodes g') \<and> state (nodes g' ! t) = Done" for t
    using sys_okD(7) [OF ok, of t] unfolding b(2,8) by simp
  ultimately show ?thesis using b o by blast
qed

theorem serial_run_refines_witness:
  "\<exists>b ts. (sched_step demo_exec)\<^sup>*\<^sup>* (sys_of {(0, 1)} demo_graph) b \<and> log b = one_by_one ts \<and>
     unfinished (sgraph b) = 0 \<and> in_order (declared b) (log b)"
proof -
  have "\<exists>g'. serial_run 10 Fifo demo_exec demo_graph = Returned (g', 0)"
    by (simp add: graph_run demo_graph_def demo_exec_def)
  then obtain g' where "serial_run 10 Fifo demo_exec demo_graph = Returned (g', 0)" by blast
  from serial_run_refines [OF demo_built demo_disciplined this] obtain b ts
    where "(sched_step demo_exec)\<^sup>*\<^sup>* (sys_of {(0, 1)} demo_graph) b" "sgraph b = g'" "0 = unfinished g'"
      "log b = one_by_one ts" "in_order (declared b) (log b)" by blast
  then show ?thesis by auto
qed



text \<open>A run without calls of \<open>Spawn\<close> ends, in any order, after at most one turn per task, and it
  reports that no task is left exactly when the declared dependencies have no cycle.\<close>

lemma serial_run_left:
  assumes "built D g"
  shows "\<exists>g' left. serial_run (Suc (length (nodes g))) order (\<lambda>_ _. Finish) g = Returned (g', left) \<and>
    (left = 0 \<longleftrightarrow> acyclic D)"
proof -
  let ?e = "\<lambda>_ _. Finish"
  have d: "disciplined_exec ?e" by (simp add: disciplined_exec_def)
  have "unfinished g < Suc (length (nodes g))"
    by (simp add: unfinished_def less_Suc_eq_le)
  with static_run built_ok [OF assms] obtain g' left where
    r: "serial_run (Suc (length (nodes g))) order ?e g = Returned (g', left)" by blast
  from assms d r obtain b where b: "(sched_step ?e)\<^sup>*\<^sup>* (sys_of D g) b" "sgraph b = g'" "running b = []"
    "ready g' = []" "left = unfinished g'" "D \<subseteq> declared b" "sys_inv b"
    by (rule serial_run_from)
  have "declared b = D" "guards b = (\<lambda>_. None)"
    using static_steps [OF b(1)] by (simp_all add: sys_of_def)
  with left_iff_acyclic [OF b(7,3)] b(2,4,5) have "left = 0 \<longleftrightarrow> acyclic D" by simp
  with r show ?thesis by blast
qed

lemma serial_run_left_witness:
  "\<exists>g' left. serial_run 3 Fifo (\<lambda>_ _. Finish) demo_graph = Returned (g', left) \<and> (left = 0 \<longleftrightarrow> acyclic {(0::nat, 1)})"
proof -
  have "length (nodes demo_graph) = 2" by code_simp
  with serial_run_left [OF demo_built, of Fifo] show ?thesis by (simp add: numeral_3_eq_3)
qed

text \<open>When the pool has no closure left and every creation guard was dropped, the number it
  returns is 0 exactly when the edges declared during the whole run have no cycle.\<close>

lemma pool_left_acyclic:
  assumes "built D g" "disciplined_exec exec" "(pool_step exec)\<^sup>*\<^sup>* (pool_init exec g) s" "pool_done s"
  shows "\<exists>b. (sched_step exec)\<^sup>*\<^sup>* (sys_of D g) b \<and> pgraph s = sgraph b \<and>
    (guards b = (\<lambda>_. None) \<longrightarrow> (pool_left s = 0 \<longleftrightarrow> acyclic (declared b)))"
proof -
  obtain b where b: "(sched_step exec)\<^sup>*\<^sup>* (sys_of D g) b" "implements s b" "D \<subseteq> declared b"
    using assms(1-3) by (rule pool_from)
  have i: "pgraph s = sgraph b" "running b = []" "ready (sgraph b) = []" "sys_inv b"
    using b(2) assms(4) by (simp_all add: implements_def pool_done_def)
  have "pool_left s = 0 \<longleftrightarrow> acyclic (declared b)" if "guards b = (\<lambda>_. None)"
    using left_iff_acyclic [OF i(4,2,3) that] i(1) by (simp add: pool_left_def)
  with b(1) i(1) show ?thesis by (intro exI [of _ b]) simp
qed

lemma pool_left_acyclic_witness:
  "\<exists>s (b :: sys). (pool_step (\<lambda>_ _. Finish))\<^sup>*\<^sup>* (pool_init (\<lambda>_ _. Finish) demo_graph) s \<and> pool_left s = 0 \<and>
     pgraph s = sgraph b \<and> (guards b = (\<lambda>_. None) \<longrightarrow> (pool_left s = 0 \<longleftrightarrow> acyclic (declared b)))"
proof -
  let ?e = "\<lambda>_ _. Finish" and ?s0 = "pool_init (\<lambda>_ _. Finish) demo_graph"
  let ?n = "\<lambda>k st w ss. \<lparr>kind = k, waiting_on = w, successors = ss, state = st, priority = 0 :: u32\<rparr>"
  let ?g0 = "\<lparr>nodes = [?n FolderGraph Running 0 [1], ?n PackageResult Waiting 1 []], ready = []\<rparr>"
  let ?g1 = "\<lparr>nodes = [?n FolderGraph Done 0 [], ?n PackageResult Ready 0 []], ready = [1]\<rparr>"
  let ?g2 = "\<lparr>nodes = [?n FolderGraph Done 0 [], ?n PackageResult Running 0 []], ready = []\<rparr>"
  let ?g3 = "\<lparr>nodes = [?n FolderGraph Done 0 [], ?n PackageResult Done 0 []], ready = []\<rparr>"
  have s0: "?s0 = \<lparr>pgraph = ?g0, scope = [(0, Finish)]\<rparr>"
    by (simp add: pool_init_def after_def demo_graph_def drain.simps graph_run spawn_def)
  have "pool_step ?e ?s0 (after ?e ?g1 ([] @ []))"
    by (rule pool_finish [where t = 0]) (simp_all add: s0 graph_run)
  moreover have s1: "after ?e ?g1 ([] @ []) = \<lparr>pgraph = ?g2, scope = [(1, Finish)]\<rparr>"
    by (simp add: after_def drain.simps graph_run spawn_def)
  moreover have "pool_step ?e \<lparr>pgraph = ?g2, scope = [(1, Finish)]\<rparr> (after ?e ?g3 ([] @ []))"
    by (rule pool_finish [where t = 1]) (simp_all add: graph_run)
  moreover have s2: "after ?e ?g3 ([] @ []) = \<lparr>pgraph = ?g3, scope = []\<rparr>"
    by (simp add: after_def drain.simps graph_run spawn_def)
  ultimately have st: "(pool_step ?e)\<^sup>*\<^sup>* ?s0 \<lparr>pgraph = ?g3, scope = []\<rparr>"
    by (metis (no_types, lifting) converse_rtranclp_into_rtranclp r_into_rtranclp)
  define s where "s = \<lparr>pgraph = ?g3, scope = [] :: (nat \<times> spawn_prog) list\<rparr>"
  have d: "disciplined_exec ?e" "pool_done s"
    by (simp_all add: disciplined_exec_def pool_done_def s_def)
  have l: "pool_left s = 0" by (simp add: s_def pool_left_def unfinished_def)
  from st have st: "(pool_step ?e)\<^sup>*\<^sup>* ?s0 s" by (simp only: s_def)
  from pool_left_acyclic [OF demo_built d(1) st d(2)] st l show ?thesis by blast
qed

text \<open>The stepping executor that yields has run exactly its budget of tasks, and left the graph
  where the serial executor is after the same turns: the slices of a run are the run.\<close>

lemma run_for_slices:
  assumes "run_for m (\<lambda>_. False) order exec 0 g = Returned (g1, Yielded j)"
  shows "j = m \<and> serial_run (m + fuel) order exec g = serial_run fuel order exec g1"
  using run_for_slice [OF assms] by simp

lemma run_for_slices_witness:
  "\<exists>g1. run_for 1 (\<lambda>_. False) Fifo demo_exec 0 demo_graph = Returned (g1, Yielded 1) \<and>
     serial_run (1 + 5) Fifo demo_exec demo_graph = serial_run 5 Fifo demo_exec g1"
proof -
  have "\<exists>g1. run_for 1 (\<lambda>_. False) Fifo demo_exec 0 demo_graph = Returned (g1, Yielded 1)"
    by (simp add: graph_run demo_graph_def demo_exec_def)
  then obtain g1 where g1: "run_for 1 (\<lambda>_. False) Fifo demo_exec 0 demo_graph = Returned (g1, Yielded 1)"
    by blast
  with run_for_slices [OF this, of 5] show ?thesis by (intro exI [of _ g1]) simp
qed

text \<open>The priority order takes a ready task of the highest priority, and of those the one created
  first; it finds one whenever a task is ready.\<close>

lemma pop_priority:
  assumes "ready g \<noteq> []"
  shows "\<exists>t g'. pop Priority g = Some (t, g') \<and> t \<in> set (ready g) \<and>
    (\<forall>u \<in> set (ready g). priority (nodes g ! u) < priority (nodes g ! t) \<or>
       priority (nodes g ! u) = priority (nodes g ! t) \<and> t \<le> u)"
proof -
  obtain r rs where q: "ready g = r # rs" using assms by (cases "ready g") auto
  let ?at = "best_from g r 0 1 rs"
  have b: "?at < length (ready g)" "\<forall>u \<in> set (ready g). key_le g u (ready g ! ?at)"
    using best_from_greatest [of "ready g" "[r]" rs 0 r g] q key_le_refl by (simp_all add: Let_def)
  from b(1) obtain g' where "pop Priority g = Some (ready g ! ?at, g')"
    by (simp add: pop_def pick_def q start_at_def Let_def)
  moreover have "ready g ! ?at \<in> set (ready g)" using b(1) by (rule nth_mem)
  moreover have "priority (nodes g ! u) < priority (nodes g ! (ready g ! ?at)) \<or>
      priority (nodes g ! u) = priority (nodes g ! (ready g ! ?at)) \<and> ready g ! ?at \<le> u"
    if "u \<in> set (ready g)" for u
    using b(2) that by (auto simp: key_le_def Let_def)
  ultimately show ?thesis by blast
qed

lemma pop_priority_witness:
  "\<exists>t g'. pop Priority demo_graph = Some (t, g') \<and> t \<in> set (ready demo_graph)"
proof -
  have "ready demo_graph \<noteq> []" by (simp add: demo_graph_def)
  from pop_priority [OF this] show ?thesis by blast
qed

end
