(* ===== verification/SliceSort.thy ===== *)
theory SliceSort
  imports HdPrelude
begin

text \<open>
  \<^verbatim>\<open>crates/hd_base/src/sort.rs\<close>: the workspace's slice sort. Up to 20 elements it inserts in
  place; above that it merge-sorts an array of positions bottom-up, in two arrays that swap roles,
  and then moves the elements into place by following the cycles of that permutation with swaps.
  The comparison closure \<open>less\<close> is a parameter \<open>lt\<close>. \<open>None\<close> is a panic (a slice of \<open>2 ^ 32\<close> or more
  elements) or, for the cycle loop, running out of fuel; the fuel is the length of the slice, and
  \<open>permute_eq\<close> shows that it is enough. The contract is \<open>stable_sort_of\<close>.
\<close>

section \<open>The code\<close>

definition small :: nat where
  "small = 20"

text \<open>\<open>while j > 0 && less(&v[j], &v[j - 1])\<close>: move element \<open>j\<close> down to its place.\<close>

fun insert_back :: "('a \<Rightarrow> 'a \<Rightarrow> bool) \<Rightarrow> 'a list \<Rightarrow> nat \<Rightarrow> 'a list" where
  "insert_back lt v 0 = v"
| "insert_back lt v (Suc j) =
     (if lt (v ! Suc j) (v ! j) then insert_back lt (swap v j (Suc j)) j else v)"

definition insertion_sort :: "('a \<Rightarrow> 'a \<Rightarrow> bool) \<Rightarrow> 'a list \<Rightarrow> 'a list" where
  "insertion_sort lt v = foldl (insert_back lt) v [1..<length v]"

text \<open>The slots of one merged chunk: \<open>i\<close> and \<open>j\<close> index the left and the right run.\<close>

fun merge_slots :: "('p \<Rightarrow> 'p \<Rightarrow> bool) \<Rightarrow> 'p list \<Rightarrow> 'p list \<Rightarrow> nat \<Rightarrow> nat \<Rightarrow> nat \<Rightarrow> 'p list" where
  "merge_slots lt left right i j 0 = []"
| "merge_slots lt left right i j (Suc slots) =
     (if i < length left \<and> (j = length right \<or> \<not> lt (right ! j) (left ! i))
      then left ! i # merge_slots lt left right (Suc i) j slots
      else right ! j # merge_slots lt left right i (Suc j) slots)"

definition merge_chunk :: "('p \<Rightarrow> 'p \<Rightarrow> bool) \<Rightarrow> 'p list \<Rightarrow> nat \<Rightarrow> nat \<Rightarrow> 'p list" where
  "merge_chunk lt src width start =
     (let n = length src; mid = min (start + width) n; stop = min (start + 2 * width) n;
          left = take (mid - start) (drop start src);
          right = take (stop - mid) (drop mid src)
      in merge_slots lt left right 0 0 (stop - start))"

text \<open>\<open>for start in (0..n).step_by(2 * width)\<close>: each chunk is written over \<open>dst\<close>.\<close>

function merge_pass :: "('p \<Rightarrow> 'p \<Rightarrow> bool) \<Rightarrow> 'p list \<Rightarrow> 'p list \<Rightarrow> nat \<Rightarrow> nat \<Rightarrow> 'p list" where
  "merge_pass lt src dst width start =
     (if start < length src \<and> 0 < width
      then let out = merge_chunk lt src width start
           in merge_pass lt src (take start dst @ out @ drop (start + length out) dst) width
                (start + 2 * width)
      else dst)"
  by pat_completeness auto
termination
  by (relation "measure (\<lambda>(lt, src, dst, width, start). length src - start)") auto

declare merge_pass.simps [simp del]

lemma length_merge_slots: "length (merge_slots lt left right i j slots) = slots"
  by (induction lt left right i j slots rule: merge_slots.induct) auto

lemma length_merge_chunk:
  "length (merge_chunk lt src width start) = min (start + 2 * width) (length src) - start"
  by (simp add: merge_chunk_def Let_def length_merge_slots)

lemma length_merge_pass:
  "length dst = length src \<Longrightarrow> length (merge_pass lt src dst width start) = length src"
proof (induction lt src dst width start rule: merge_pass.induct)
  case (1 lt src dst width start)
  then show ?case
    by (subst merge_pass.simps) (auto simp: Let_def length_merge_chunk)
qed

text \<open>\<open>while width < n\<close>, with \<open>std::mem::swap\<close> of the two arrays and \<open>width *= 2\<close>.\<close>

function merge_loop :: "('p \<Rightarrow> 'p \<Rightarrow> bool) \<Rightarrow> 'p list \<Rightarrow> 'p list \<Rightarrow> nat \<Rightarrow> nat \<Rightarrow> 'p list" where
  "merge_loop lt src dst n width =
     (if width < n \<and> 0 < width then merge_loop lt (merge_pass lt src dst width 0) src n (2 * width)
      else src)"
  by pat_completeness auto
termination
  by (relation "measure (\<lambda>(lt, src, dst, n, width). n - width)") auto

declare merge_loop.simps [simp del]

definition positions :: "nat \<Rightarrow> (nat \<Rightarrow> nat \<Rightarrow> bool) \<Rightarrow> nat list option" where
  "positions n lt =
     (if n < 2 ^ 32 then Some (merge_loop lt [0..<n] (replicate n 0) n 1) else None)"

text \<open>The inner \<open>loop\<close> of \<open>permute\<close>: one cycle of \<open>order\<close>, from \<open>start\<close> back to \<open>start\<close>.\<close>

fun permute_cycle :: "nat \<Rightarrow> 'a list \<Rightarrow> nat list \<Rightarrow> nat \<Rightarrow> nat \<Rightarrow> ('a list \<times> nat list) option" where
  "permute_cycle 0 v order start at = None"
| "permute_cycle (Suc fuel) v order start at =
     (let from = order ! at; order' = order[at := at]
      in if from = start then Some (v, order')
         else permute_cycle fuel (swap v at from) order' start from)"

fun permute_from :: "nat list \<Rightarrow> 'a list \<Rightarrow> nat list \<Rightarrow> ('a list \<times> nat list) option" where
  "permute_from [] v order = Some (v, order)"
| "permute_from (start # starts) v order =
     (case permute_cycle (length v) v order start start of
        None \<Rightarrow> None
      | Some (v', order') \<Rightarrow> permute_from starts v' order')"

definition permute :: "'a list \<Rightarrow> nat list \<Rightarrow> ('a list \<times> nat list) option" where
  "permute v order = permute_from [0..<length v] v order"

definition sort_by_less :: "('a \<Rightarrow> 'a \<Rightarrow> bool) \<Rightarrow> 'a list \<Rightarrow> 'a list option" where
  "sort_by_less lt v =
     (if length v \<le> small then Some (insertion_sort lt v)
      else case positions (length v) (\<lambda>a b. lt (v ! a) (v ! b)) of
             None \<Rightarrow> None
           | Some order \<Rightarrow> map_option fst (permute v order))"

definition sort_stable_by_key :: "('a \<Rightarrow> 'k::linorder) \<Rightarrow> 'a list \<Rightarrow> 'a list option" where
  "sort_stable_by_key f v = sort_by_less (\<lambda>a b. f a < f b) v"

definition sort_stable_by_cached_key :: "('a \<Rightarrow> 'k::linorder) \<Rightarrow> 'a list \<Rightarrow> 'a list option" where
  "sort_stable_by_cached_key f v =
     (if length v < 2 then Some v
      else let keys = map f v
           in case positions (length v) (\<lambda>a b. keys ! a < keys ! b) of
                None \<Rightarrow> None
              | Some order \<Rightarrow> map_option fst (permute v order))"

section \<open>The contract\<close>

definition same_class :: "('a \<Rightarrow> 'a \<Rightarrow> bool) \<Rightarrow> 'a \<Rightarrow> 'a \<Rightarrow> bool" where
  "same_class lt x y \<longleftrightarrow> \<not> lt x y \<and> \<not> lt y x"

text \<open>
  \<open>w\<close> is \<open>v\<close> stably sorted: the same elements, no later one less than an earlier one, and the
  elements of each class of ties in the order they had in \<open>v\<close>.
\<close>

definition stable_sort_of :: "('a \<Rightarrow> 'a \<Rightarrow> bool) \<Rightarrow> 'a list \<Rightarrow> 'a list \<Rightarrow> bool" where
  "stable_sort_of lt v w \<longleftrightarrow>
     mset w = mset v \<and> sorted_wrt (\<lambda>x y. \<not> lt y x) w \<and>
     (\<forall>x \<in> set v. filter (same_class lt x) w = filter (same_class lt x) v)"

text \<open>What a comparison owes the sort: a strict weak order.\<close>

locale weak_order =
  fixes lt :: "'a \<Rightarrow> 'a \<Rightarrow> bool"
  assumes lt_irrefl: "\<not> lt x x"
    and lt_trans: "lt x y \<Longrightarrow> lt y z \<Longrightarrow> lt x z"
    and lt_cotrans: "lt x z \<Longrightarrow> lt x y \<or> lt y z"
begin

lemma lt_asym: "lt x y \<Longrightarrow> \<not> lt y x"
  using lt_irrefl lt_trans by blast

lemma not_lt_trans: "\<not> lt y x \<Longrightarrow> \<not> lt z y \<Longrightarrow> \<not> lt z x"
  using lt_cotrans by blast

lemma same_class_refl: "same_class lt x x"
  by (simp add: same_class_def lt_irrefl)

lemma same_class_sym: "same_class lt x y \<Longrightarrow> same_class lt y x"
  by (simp add: same_class_def)

lemma same_class_trans: "same_class lt x y \<Longrightarrow> same_class lt y z \<Longrightarrow> same_class lt x z"
  using lt_cotrans unfolding same_class_def by blast

lemma lt_not_same_class: "lt x y \<Longrightarrow> same_class lt z x \<Longrightarrow> \<not> same_class lt z y"
  using same_class_trans same_class_sym unfolding same_class_def by blast

text \<open>A stable sort is determined by its input.\<close>

lemma stable_sort_unique:
  assumes "stable_sort_of lt v w" and "stable_sort_of lt v w'"
  shows "w = w'"
proof -
  have gen: "w = w'"
    if "mset w = mset w'" "sorted_wrt (\<lambda>x y. \<not> lt y x) w" "sorted_wrt (\<lambda>x y. \<not> lt y x) w'"
       "\<forall>x \<in> set w. filter (same_class lt x) w = filter (same_class lt x) w'" for w w'
    using that
  proof (induction w arbitrary: w')
    case Nil
    then show ?case by simp
  next
    case (Cons x xs)
    then obtain y ys where w': "w' = y # ys"
      by (cases w') auto
    have xin: "x \<in> set (y # ys)" and yin: "y \<in> set (x # xs)"
      using Cons.prems(1) w' by (metis list.set_intros(1) set_mset_mset)+
    have "\<not> lt y x" using Cons.prems(2) yin lt_irrefl by auto
    moreover have "\<not> lt x y" using Cons.prems(3) w' xin lt_irrefl by auto
    ultimately have "same_class lt x y" by (simp add: same_class_def)
    with Cons.prems(4) w' same_class_refl have "x = y"
      by (metis (no_types, lifting) filter.simps(2) list.inject list.set_intros(1))
    moreover have "\<forall>z \<in> set xs. filter (same_class lt z) xs = filter (same_class lt z) ys"
      using Cons.prems(4) w' \<open>x = y\<close>
      by (metis (no_types, lifting) filter.simps(2) list.inject list.set_intros(2))
    ultimately show ?case
      using Cons.IH [of ys] Cons.prems w' by auto
  qed
  have "set w = set v" using assms(1) by (metis stable_sort_of_def set_mset_mset)
  with assms show ?thesis
    by (intro gen) (auto simp: stable_sort_of_def)
qed

end

section \<open>Insertion\<close>

text \<open>
  \<open>insert_back\<close> reads the sorted prefix from its end, so the proofs state it over the reversed
  prefix.
\<close>

fun ins_rev :: "('a \<Rightarrow> 'a \<Rightarrow> bool) \<Rightarrow> 'a \<Rightarrow> 'a list \<Rightarrow> 'a list" where
  "ins_rev lt x [] = [x]"
| "ins_rev lt x (y # ys) = (if lt x y then y # ins_rev lt x ys else x # y # ys)"

lemma insert_back_rev:
  "insert_back lt (rev ys @ x # rest) (length ys) = rev (ins_rev lt x ys) @ rest"
proof (induction ys arbitrary: rest)
  case Nil
  then show ?case by simp
next
  case (Cons y ys)
  have "swap (rev ys @ y # x # rest) (length ys) (Suc (length ys)) = rev ys @ x # y # rest"
    by (simp add: swap_def nth_append list_update_append)
  with Cons.IH [of "y # rest"] show ?case
    by (simp add: nth_append)
qed

lemma mset_ins_rev: "mset (ins_rev lt x ys) = add_mset x (mset ys)"
  by (induction ys) auto

lemma set_ins_rev: "set (ins_rev lt x ys) = insert x (set ys)"
  by (induction ys) auto

context weak_order
begin

lemma sorted_ins_rev:
  "sorted_wrt (\<lambda>x y. \<not> lt x y) ys \<Longrightarrow> sorted_wrt (\<lambda>x y. \<not> lt x y) (ins_rev lt x ys)"
proof (induction ys)
  case Nil
  then show ?case by simp
next
  case (Cons y ys)
  show ?case
  proof (cases "lt x y")
    case True
    with Cons lt_asym show ?thesis by (auto simp: set_ins_rev)
  next
    case False
    then have "\<not> lt x z" if "z \<in> set ys" for z
      using Cons.prems that not_lt_trans by auto
    with False Cons.prems show ?thesis by auto
  qed
qed

lemma filter_ins_rev:
  "filter (same_class lt z) (ins_rev lt x ys) = filter (same_class lt z) (x # ys)"
  by (induction ys) (auto dest: lt_not_same_class)

lemma insertion_step:
  assumes "stable_sort_of lt us (rev ys)"
  shows "stable_sort_of lt (us @ [x]) (rev (ins_rev lt x ys))"
proof -
  have mset: "mset (rev (ins_rev lt x ys)) = mset (us @ [x])"
    using assms by (simp add: mset_ins_rev stable_sort_of_def)
  have "sorted_wrt (\<lambda>a b. \<not> lt a b) ys"
    using assms by (simp add: stable_sort_of_def sorted_wrt_rev)
  then have "sorted_wrt (\<lambda>a b. \<not> lt b a) (rev (ins_rev lt x ys))"
    by (simp add: sorted_wrt_rev sorted_ins_rev)
  moreover have "filter (same_class lt z) (rev (ins_rev lt x ys)) = filter (same_class lt z) (us @ [x])"
    if "z \<in> set (us @ [x])" for z
  proof (cases "\<exists>u \<in> set us. same_class lt z u")
    case True
    then obtain u where u: "u \<in> set us" "same_class lt z u" by auto
    have "same_class lt u = same_class lt z"
      using u(2) same_class_sym same_class_trans by blast
    with u assms have "filter (same_class lt z) (rev ys) = filter (same_class lt z) us"
      unfolding stable_sort_of_def by metis
    then show ?thesis
      by (simp add: filter_ins_rev flip: rev_filter)
  next
    case False
    have "set ys = set us" using assms by (metis set_rev set_mset_mset stable_sort_of_def)
    with False have "filter (same_class lt z) ys = []" "filter (same_class lt z) us = []"
      by (auto simp: filter_empty_conv)
    then show ?thesis by (simp add: filter_ins_rev flip: rev_filter)
  qed
  ultimately show ?thesis
    using mset unfolding stable_sort_of_def by blast
qed

lemma insertion_loop:
  "k \<le> length v \<Longrightarrow> 0 < k \<Longrightarrow>
   \<exists>ys. foldl (insert_back lt) v [1..<k] = rev ys @ drop k v \<and> stable_sort_of lt (take k v) (rev ys)"
proof (induction k)
  case 0
  then show ?case by simp
next
  case (Suc k)
  show ?case
  proof (cases "k = 0")
    case True
    with Suc.prems obtain a as where "v = a # as" by (cases v) auto
    with True show ?thesis
      by (intro exI [of _ "[a]"]) (simp add: stable_sort_of_def)
  next
    case False
    with Suc obtain ys where ys: "foldl (insert_back lt) v [1..<k] = rev ys @ drop k v"
        "stable_sort_of lt (take k v) (rev ys)"
      by auto
    have len: "length ys = k"
      using ys(2) Suc.prems(1)
      by (metis Suc_leD length_rev length_take min.absorb2 size_mset stable_sort_of_def)
    have v: "drop k v = v ! k # drop (Suc k) v"
      using Suc.prems(1) by (simp add: Cons_nth_drop_Suc)
    have "foldl (insert_back lt) v [1..<Suc k] = insert_back lt (rev ys @ v ! k # drop (Suc k) v) k"
      using False ys(1) v by simp
    also have "\<dots> = rev (ins_rev lt (v ! k) ys) @ drop (Suc k) v"
      using insert_back_rev [of lt ys "v ! k" "drop (Suc k) v"] len by simp
    finally show ?thesis
      using insertion_step [OF ys(2), of "v ! k"] Suc.prems(1)
      by (auto simp: take_Suc_conv_app_nth)
  qed
qed

lemma insertion_sort_stable: "stable_sort_of lt v (insertion_sort lt v)"
proof (cases v)
  case Nil
  then show ?thesis by (simp add: insertion_sort_def stable_sort_of_def)
next
  case (Cons a as)
  then show ?thesis
    using insertion_loop [of "length v" v] by (auto simp: insertion_sort_def)
qed

end

section \<open>The order of positions\<close>

text \<open>
  Ties broken by position, so a strict total order: a stable sort of positions is the one list
  sorted by it.
\<close>

definition before :: "(nat \<Rightarrow> nat \<Rightarrow> bool) \<Rightarrow> nat \<Rightarrow> nat \<Rightarrow> bool" where
  "before lt a b \<longleftrightarrow> lt a b \<or> \<not> lt b a \<and> a < b"

fun merge_runs :: "('p \<Rightarrow> 'p \<Rightarrow> bool) \<Rightarrow> 'p list \<Rightarrow> 'p list \<Rightarrow> 'p list" where
  "merge_runs lt [] right = right"
| "merge_runs lt (x # left) [] = x # left"
| "merge_runs lt (x # left) (y # right) =
     (if \<not> lt y x then x # merge_runs lt left (y # right)
      else y # merge_runs lt (x # left) right)"

lemma merge_runs_Nil2 [simp]: "merge_runs lt left [] = left"
  by (cases left) auto

lemma merge_slots_runs:
  "i \<le> length left \<Longrightarrow> j \<le> length right \<Longrightarrow>
   slots = length left - i + (length right - j) \<Longrightarrow>
   merge_slots lt left right i j slots = merge_runs lt (drop i left) (drop j right)"
proof (induction lt left right i j slots rule: merge_slots.induct)
  case (1 lt left right i j)
  then show ?case by simp
next
  case (2 lt left right i j slots)
  show ?case
  proof (cases "i < length left")
    case False
    then have "i = length left" and j: "j < length right" using "2.prems" by auto
    have "drop j right = right ! j # drop (Suc j) right"
      using j by (simp add: Cons_nth_drop_Suc)
    have "merge_slots lt left right i j (Suc slots) =
        right ! j # merge_slots lt left right i (Suc j) slots"
      using False by simp
    moreover have "slots = length left - i + (length right - Suc j)"
      using "2.prems" j by simp
    ultimately show ?thesis
      using False j \<open>i = length left\<close> "2.IH"(2) \<open>drop j right = _\<close> by simp
  next
    case True
    note li = this
    have dl: "drop i left = left ! i # drop (Suc i) left"
      using li by (simp add: Cons_nth_drop_Suc)
    show ?thesis
    proof (cases "j < length right")
      case False
      with "2.prems" have "j = length right" by simp
      have "merge_slots lt left right i j (Suc slots) =
          left ! i # merge_slots lt left right (Suc i) j slots"
        using li \<open>j = length right\<close> by simp
      moreover have "slots = length left - Suc i + (length right - j)"
        using "2.prems" li by simp
      ultimately show ?thesis
        using li \<open>j = length right\<close> dl "2.IH"(1) by simp
    next
      case True
      then have dr: "drop j right = right ! j # drop (Suc j) right"
        by (simp add: Cons_nth_drop_Suc)
      show ?thesis
      proof (cases "lt (right ! j) (left ! i)")
        case True
        have "slots = length left - i + (length right - Suc j)"
          using "2.prems" \<open>j < length right\<close> by simp
        then have "merge_slots lt left right i (Suc j) slots =
            merge_runs lt (drop i left) (drop (Suc j) right)"
          using "2.IH"(2) True \<open>j < length right\<close> "2.prems" by simp
        then have "merge_slots lt left right i j (Suc slots) =
            right ! j # merge_runs lt (drop i left) (drop (Suc j) right)"
          using True \<open>j < length right\<close> by simp
        with True dl dr show ?thesis by simp
      next
        case False
        have "slots = length left - Suc i + (length right - j)"
          using "2.prems" li by simp
        then have "merge_slots lt left right (Suc i) j slots =
            merge_runs lt (drop (Suc i) left) (drop j right)"
          using "2.IH"(1) False li "2.prems" by simp
        then have "merge_slots lt left right i j (Suc slots) =
            left ! i # merge_runs lt (drop (Suc i) left) (drop j right)"
          using False li by simp
        with False dl dr show ?thesis by simp
      qed
    qed
  qed
qed

lemma mset_merge_runs: "mset (merge_runs lt left right) = mset left + mset right"
  by (induction lt left right rule: merge_runs.induct) auto

lemma set_merge_runs: "set (merge_runs lt left right) = set left \<union> set right"
  by (metis mset_append mset_merge_runs set_append set_mset_mset)

context weak_order
begin

lemma before_irrefl: "\<not> before (\<lambda>a b. lt (v ! a) (v ! b)) a a"
  by (simp add: before_def lt_irrefl)

lemma before_trans:
  "before (\<lambda>a b. lt (v ! a) (v ! b)) a b \<Longrightarrow> before (\<lambda>a b. lt (v ! a) (v ! b)) b c \<Longrightarrow>
   before (\<lambda>a b. lt (v ! a) (v ! b)) a c"
  unfolding before_def using lt_trans lt_cotrans by (metis order.strict_trans)

end

text \<open>What the merge needs of the comparison of positions: that \<open>before\<close> is transitive.\<close>

lemma sorted_merge_runs:
  "transp (before lt) \<Longrightarrow> sorted_wrt (before lt) left \<Longrightarrow> sorted_wrt (before lt) right \<Longrightarrow>
   \<forall>a \<in> set left. \<forall>b \<in> set right. a < b \<Longrightarrow> sorted_wrt (before lt) (merge_runs lt left right)"
proof (induction lt left right rule: merge_runs.induct)
  case (1 lt right)
  then show ?case by simp
next
  case (2 lt x left)
  then show ?case by simp
next
  case (3 lt x left y right)
  show ?case
  proof (cases "lt y x")
    case True
    then have "before lt y x" by (simp add: before_def)
    with "3.prems" have "\<forall>z \<in> set (x # left) \<union> set right. before lt y z"
      by (auto dest: transpD)
    with True 3 show ?thesis by (simp add: set_merge_runs)
  next
    case False
    with "3.prems"(4) have "before lt x y" by (simp add: before_def)
    with "3.prems" have "\<forall>z \<in> set left \<union> set (y # right). before lt x z"
      by (auto dest: transpD)
    with False 3 show ?thesis by (simp add: set_merge_runs)
  qed
qed

section \<open>Runs of a growing width\<close>

definition run_at :: "'p list \<Rightarrow> nat \<Rightarrow> nat \<Rightarrow> 'p list" where
  "run_at src width start = take width (drop start src)"

text \<open>Every run of the given width holds the positions of its own place, sorted.\<close>

definition runs_ok :: "(nat \<Rightarrow> nat \<Rightarrow> bool) \<Rightarrow> nat list \<Rightarrow> nat \<Rightarrow> bool" where
  "runs_ok lt src width \<longleftrightarrow>
     (\<forall>start < length src. width dvd start \<longrightarrow>
        set (run_at src width start) = {start..<min (start + width) (length src)} \<and>
        sorted_wrt (before lt) (run_at src width start))"

lemma runs_ok_initial: "runs_ok lt [0..<n] 1"
proof -
  have "run_at [0..<n] 1 start = [start]" if "start < n" for start
    using that by (simp add: run_at_def take_upt)
  then show ?thesis by (auto simp: runs_ok_def)
qed

lemma merge_chunk_runs:
  assumes "start < length src"
  shows "merge_chunk lt src width start =
    merge_runs lt (run_at src width start) (run_at src width (start + width))"
proof -
  let ?n = "length src"
  let ?mid = "min (start + width) ?n" and ?stop = "min (start + 2 * width) ?n"
  let ?l = "take (?mid - start) (drop start src)" and ?r = "take (?stop - ?mid) (drop ?mid src)"
  have l: "?l = run_at src width start"
    using assms by (auto simp: run_at_def min_def)
  have r: "?r = run_at src width (start + width)"
    using assms by (auto simp: run_at_def min_def)
  have split: "e - s = (m - s) - 0 + ((e - m) - 0)" if "s \<le> m" "m \<le> e" for s m e :: nat
    using that by simp
  have len: "length ?l = ?mid - start" "length ?r = ?stop - ?mid"
    by simp_all
  have "start \<le> ?mid" "?mid \<le> ?stop"
    using assms by simp_all
  then have "?stop - start = length ?l - 0 + (length ?r - 0)"
    unfolding len by (rule split)
  then have "merge_chunk lt src width start = merge_runs lt ?l ?r"
    using merge_slots_runs [of 0 ?l 0 ?r "?stop - start" lt]
    by (simp only: merge_chunk_def Let_def drop_0 le0)
  with l r show ?thesis by simp
qed

lemma merge_chunk_ok:
  assumes "transp (before lt)" "runs_ok lt src width" "0 < width"
    and "start < length src" "(2 * width) dvd start"
  shows "set (merge_chunk lt src width start) = {start..<min (start + 2 * width) (length src)} \<and>
    sorted_wrt (before lt) (merge_chunk lt src width start)"
proof -
  let ?l = "run_at src width start" and ?r = "run_at src width (start + width)"
  have "width dvd start"
    using assms(5) by (rule dvd_mult_right)
  then have d: "width dvd start" "width dvd start + width"
    by simp_all
  have l: "set ?l = {start..<min (start + width) (length src)}" "sorted_wrt (before lt) ?l"
    using assms(2,4) d(1) by (simp_all add: runs_ok_def)
  have r: "set ?r = {start + width..<min (start + 2 * width) (length src)} \<and> sorted_wrt (before lt) ?r"
  proof (cases "start + width < length src")
    case True
    with assms(2) d(2) show ?thesis by (simp add: runs_ok_def mult_2 add.assoc)
  next
    case False
    then show ?thesis by (simp add: run_at_def)
  qed
  have "\<forall>a \<in> set ?l. \<forall>b \<in> set ?r. a < b"
    using l(1) r by simp
  with assms(1) l(2) r [THEN conjunct2] have "sorted_wrt (before lt) (merge_runs lt ?l ?r)"
    by (rule sorted_merge_runs)
  moreover have "set (merge_runs lt ?l ?r) = {start..<min (start + 2 * width) (length src)}"
  proof -
    have "{start..<min (start + width) n} \<union> {start + width..<min (start + 2 * width) n} =
        {start..<min (start + 2 * width) n}" for n
      by (rule set_eqI) (simp only: Un_iff atLeastLessThan_iff min_less_iff_conj, arith)
    then show ?thesis using l(1) r by (simp add: set_merge_runs)
  qed
  ultimately show ?thesis
    using assms(4) by (simp add: merge_chunk_runs)
qed

text \<open>A pass leaves the chunks before \<open>start\<close> alone and writes every later one.\<close>

lemma merge_pass_run:
  assumes "length dst = length src" "0 < width" "(2 * width) dvd start"
  shows "(\<forall>i < start. i < length src \<longrightarrow> merge_pass lt src dst width start ! i = dst ! i) \<and>
    (\<forall>s. start \<le> s \<longrightarrow> s < length src \<longrightarrow> (2 * width) dvd s \<longrightarrow>
       run_at (merge_pass lt src dst width start) (2 * width) s = merge_chunk lt src width s)"
  using assms
proof (induction lt src dst width start rule: merge_pass.induct)
  case (1 lt src dst width start)
  show ?case
  proof (cases "start < length src")
    case False
    then show ?thesis
      by (subst merge_pass.simps, subst merge_pass.simps) auto
  next
    case True
    let ?out = "merge_chunk lt src width start"
    let ?dst = "take start dst @ ?out @ drop (start + length ?out) dst"
    let ?next = "start + 2 * width"
    let ?res = "merge_pass lt src ?dst width ?next"
    have eq: "merge_pass lt src dst width start = ?res"
      using True "1.prems" by (subst merge_pass.simps) (simp add: Let_def)
    have lo: "length ?out = min ?next (length src) - start"
      by (simp add: length_merge_chunk)
    have ld: "length ?dst = length src"
      using "1.prems"(1) True lo by simp
    have lr: "length ?res = length src"
      using ld by (rule length_merge_pass)
    have IH: "\<forall>i < ?next. i < length src \<longrightarrow> ?res ! i = ?dst ! i"
       "\<forall>s. ?next \<le> s \<longrightarrow> s < length src \<longrightarrow> (2 * width) dvd s \<longrightarrow>
          run_at ?res (2 * width) s = merge_chunk lt src width s"
      using "1.IH" True "1.prems" ld by auto
    have pre: "?res ! i = dst ! i" if "i < start" for i
      using IH(1) that True "1.prems"(1) by (simp add: nth_append)
    have here: "run_at ?res (2 * width) start = ?out"
    proof (rule nth_equalityI)
      show "length (run_at ?res (2 * width) start) = length ?out"
        using lr lo by (simp add: run_at_def)
    next
      fix i assume "i < length (run_at ?res (2 * width) start)"
      then have i: "i < 2 * width" "start + i < length src"
        using lr by (auto simp: run_at_def)
      then have "run_at ?res (2 * width) start ! i = ?dst ! (start + i)"
        using IH(1) lr True by (simp add: run_at_def)
      also have "\<dots> = ?out ! i"
      proof -
        have "i < length ?out" using i lo by simp
        then show ?thesis using True "1.prems"(1) by (simp add: nth_append)
      qed
      finally show "run_at ?res (2 * width) start ! i = ?out ! i" .
    qed
    have "run_at ?res (2 * width) s = merge_chunk lt src width s"
      if s: "start \<le> s" "s < length src" "(2 * width) dvd s" for s
    proof (cases "s = start")
      case True
      with here show ?thesis by simp
    next
      case False
      have "2 * width \<le> s - start"
        using s False "1.prems"(3) by (intro dvd_imp_le) auto
      with s IH(2) show ?thesis by simp
    qed
    with pre eq show ?thesis by simp
  qed
qed

lemma runs_ok_pass:
  assumes "transp (before lt)" "runs_ok lt src width" "0 < width" "length dst = length src"
  shows "runs_ok lt (merge_pass lt src dst width 0) (2 * width)"
  unfolding runs_ok_def
  using merge_chunk_ok [OF assms(1-3)] merge_pass_run [OF assms(4,3), of 0 lt]
  by (simp add: length_merge_pass assms(4))

lemma merge_loop_ok:
  assumes "transp (before lt)"
  shows "runs_ok lt src width \<Longrightarrow> 0 < width \<Longrightarrow> length src = n \<Longrightarrow> length dst = n \<Longrightarrow>
    set (merge_loop lt src dst n width) = {0..<n} \<and> length (merge_loop lt src dst n width) = n \<and>
    sorted_wrt (before lt) (merge_loop lt src dst n width)"
proof (induction "n - width" arbitrary: src dst width rule: less_induct)
  case less
  show ?case
  proof (cases "width < n")
    case True
    have "runs_ok lt (merge_pass lt src dst width 0) (2 * width)"
      using less.prems assms by (intro runs_ok_pass) auto
    with True less show ?thesis
      by (subst merge_loop.simps, subst merge_loop.simps, subst merge_loop.simps)
        (simp add: length_merge_pass)
  next
    case False
    show ?thesis
    proof (cases "n = 0")
      case True
      with less.prems show ?thesis by (simp add: merge_loop.simps)
    next
      case n: False
      with less.prems have "set (run_at src width 0) = {0..<min width n}"
        "sorted_wrt (before lt) (run_at src width 0)"
        by (auto simp: runs_ok_def)
      with False less.prems show ?thesis by (simp add: merge_loop.simps run_at_def)
    qed
  qed
qed

lemma positions_sorted:
  assumes "transp (before lt)" and "n < 2 ^ 32"
  obtains order where "positions n lt = Some order" "set order = {0..<n}" "length order = n"
    "sorted_wrt (before lt) order"
proof -
  have "runs_ok lt [0..<n] 1" by (rule runs_ok_initial)
  from merge_loop_ok [OF assms(1) this, of n "replicate n 0"] assms(2) that show ?thesis
    by (simp add: positions_def)
qed

section \<open>Following the cycles\<close>

definition is_perm :: "nat list \<Rightarrow> nat \<Rightarrow> bool" where
  "is_perm order n \<longleftrightarrow> length order = n \<and> distinct order \<and> set order = {..<n}"

lemma is_perm_nth: "is_perm order n \<Longrightarrow> i < n \<Longrightarrow> order ! i < n"
  by (metis is_perm_def lessThan_iff nth_mem)

lemma is_perm_inject:
  "is_perm order n \<Longrightarrow> i < n \<Longrightarrow> j < n \<Longrightarrow> order ! i = order ! j \<longleftrightarrow> i = j"
  by (auto simp: is_perm_def nth_eq_iff_index_eq)

text \<open>
  The part of the cycle walked so far, \<open>D\<close>: it holds \<open>start\<close> and every place it holds but
  \<open>start\<close> is the source of another one; \<open>at\<close> is the next place.
\<close>

definition walked :: "nat list \<Rightarrow> nat \<Rightarrow> nat \<Rightarrow> nat set \<Rightarrow> bool" where
  "walked order start at D \<longleftrightarrow>
     D \<subseteq> {..<length order} \<and> at < length order \<and> at \<notin> D \<and>
     (D = {} \<longrightarrow> at = start) \<and> (D \<noteq> {} \<longrightarrow> start \<in> D \<and> at \<in> (!) order ` D) \<and>
     D - {start} \<subseteq> (!) order ` D"

definition cycle_state :: "'a list \<Rightarrow> nat list \<Rightarrow> nat \<Rightarrow> nat \<Rightarrow> nat set \<Rightarrow> 'a list \<Rightarrow> nat list \<Rightarrow> bool" where
  "cycle_state v order start at D v' order' \<longleftrightarrow>
     length v' = length order \<and> length order' = length order \<and>
     (\<forall>i < length order. order' ! i = (if i \<in> D then i else order ! i)) \<and>
     (\<forall>i < length order. v' ! i = (if i \<in> D then v ! (order ! i) else if i = at then v ! start else v ! i))"

lemma walked_step:
  assumes perm: "is_perm order n" and w: "walked order start at D"
    and ne: "order ! at \<noteq> start"
  shows "walked order start (order ! at) (insert at D)" and "order ! at \<noteq> at"
proof -
  have n: "length order = n" using perm by (simp add: is_perm_def)
  have at: "at < n" "at \<notin> D" "D \<subseteq> {..<n}" using w n by (auto simp: walked_def)
  have fresh: "order ! at \<notin> D"
  proof
    assume "order ! at \<in> D"
    with ne w obtain d where "d \<in> D" "order ! at = order ! d" by (auto simp: walked_def)
    with is_perm_inject [OF perm, of at d] at show False by auto
  qed
  show other: "order ! at \<noteq> at"
  proof
    assume eq: "order ! at = at"
    with ne have "at \<noteq> start" by simp
    with w obtain d where "d \<in> D" "at = order ! d" by (auto simp: walked_def)
    with eq is_perm_inject [OF perm, of at d] at show False by auto
  qed
  show "walked order start (order ! at) (insert at D)"
    using w fresh other at is_perm_nth [OF perm, of at] n unfolding walked_def by auto
qed

lemma permute_cycle_walk:
  assumes perm: "is_perm order n" and lv: "length v = n"
  shows "walked order start at D \<Longrightarrow> cycle_state v order start at D v' order' \<Longrightarrow>
    n \<le> fuel + card D \<Longrightarrow>
    \<exists>E v'' order''. permute_cycle fuel v' order' start at = Some (v'', order'') \<and>
      start \<in> E \<and> E \<subseteq> {..<n} \<and> E \<subseteq> (!) order ` E \<and>
      length v'' = n \<and> length order'' = n \<and>
      (\<forall>i < n. order'' ! i = (if i \<in> E then i else order ! i)) \<and>
      (\<forall>i < n. v'' ! i = (if i \<in> E then v ! (order ! i) else v ! i))"
proof (induction fuel arbitrary: at D v' order')
  case 0
  have "length order = n" using perm by (simp add: is_perm_def)
  with 0 have D: "D \<subseteq> {..<n}" "at < n" "at \<notin> D" by (auto simp: walked_def)
  have "D \<subset> {..<n}" using D by auto
  then have "card D < n" using psubset_card_mono [of "{..<n}" D] by simp
  with 0 show ?case by simp
next
  case (Suc fuel)
  have n: "length order = n" using perm by (simp add: is_perm_def)
  have at: "at < n" "at \<notin> D" "D \<subseteq> {..<n}" "finite D"
    using Suc.prems(1) n finite_subset [of D "{..<n}"] by (auto simp: walked_def)
  have frm: "order' ! at = order ! at"
    using Suc.prems(2) at n by (simp add: cycle_state_def)
  show ?case
  proof (cases "order ! at = start")
    case True
    let ?E = "insert at D"
    have r: "permute_cycle (Suc fuel) v' order' start at = Some (v', order'[at := at])"
      using True frm by simp
    have startE: "start \<in> ?E" using Suc.prems(1) by (auto simp: walked_def)
    have "?E \<subseteq> (!) order ` ?E"
      using Suc.prems(1) True unfolding walked_def by auto
    moreover have "\<forall>i < n. order'[at := at] ! i = (if i \<in> ?E then i else order ! i)"
      using Suc.prems(2) n at(1) by (auto simp: cycle_state_def nth_list_update)
    moreover have "\<forall>i < n. v' ! i = (if i \<in> ?E then v ! (order ! i) else v ! i)"
      using Suc.prems(2) n True at by (auto simp: cycle_state_def)
    ultimately show ?thesis
      using r startE Suc.prems at n
      by (intro exI [of _ ?E] exI [of _ v'] exI [of _ "order'[at := at]"])
        (auto simp: cycle_state_def)
  next
    case False
    let ?from = "order ! at"
    have w: "walked order start ?from (insert at D)" and ne: "?from \<noteq> at"
      using walked_step [OF perm Suc.prems(1) False] by auto
    have fr: "?from < n" "?from \<notin> D"
      using w n by (auto simp: walked_def)
    have cs: "cycle_state v order start ?from (insert at D) (swap v' at ?from) (order'[at := at])"
      using Suc.prems(2) at fr n ne False lv
      by (auto simp: cycle_state_def nth_swap nth_list_update)
    have fuel: "n \<le> fuel + card (insert at D)"
      using Suc.prems(3) at by simp
    have "permute_cycle (Suc fuel) v' order' start at =
        permute_cycle fuel (swap v' at ?from) (order'[at := at]) start ?from"
      using False frm by (simp add: Let_def)
    with Suc.IH [OF w cs fuel] show ?thesis
      by (simp only:)
  qed
qed

text \<open>One whole cycle keeps \<open>v[order[i]]\<close> at every \<open>i\<close> and fixes the places of the cycle.\<close>

lemma permute_cycle_ok:
  assumes perm: "is_perm order n" and lv: "length v = n" and start: "start < n"
  obtains v' order' where "permute_cycle n v order start start = Some (v', order')"
    "is_perm order' n" "length v' = n" "order' ! start = start"
    "\<forall>i < n. order ! i = i \<longrightarrow> order' ! i = i"
    "\<forall>i < n. v' ! (order' ! i) = v ! (order ! i)"
proof -
  have n: "length order = n" using perm by (simp add: is_perm_def)
  have "walked order start start {}" using start n by (simp add: walked_def)
  moreover have "cycle_state v order start start {} v order"
    using n lv by (simp add: cycle_state_def)
  ultimately obtain E v' order' where E:
      "permute_cycle n v order start start = Some (v', order')" "start \<in> E" "E \<subseteq> {..<n}"
      "E \<subseteq> (!) order ` E" "length v' = n" "length order' = n"
      "\<forall>i < n. order' ! i = (if i \<in> E then i else order ! i)"
      "\<forall>i < n. v' ! i = (if i \<in> E then v ! (order ! i) else v ! i)"
    using permute_cycle_walk [OF perm lv, of start start "{}" v order n] by auto
  have finE: "finite E" using E(3) finite_subset by blast
  have inj: "inj_on ((!) order) E"
    using is_perm_inject [OF perm] E(3) by (auto simp: inj_on_def)
  have img: "(!) order ` E = E"
    using card_image [OF inj] E(4) finE by (metis card_seteq finite_imageI order_refl)
  have out: "order ! i \<notin> E" if "i < n" "i \<notin> E" for i
  proof
    assume "order ! i \<in> E"
    then obtain e where "e \<in> E" "order ! i = order ! e" using img by (metis imageE)
    with is_perm_inject [OF perm, of i e] that E(3) show False by auto
  qed
  have keep: "v' ! (order' ! i) = v ! (order ! i)" if i: "i < n" for i
    using E(7,8) i out [of i] is_perm_nth [OF perm i] by auto
  have inj': "i = j" if "i < n" "j < n" "order' ! i = order' ! j" for i j
    using that E(7) out is_perm_inject [OF perm, of i j] by (auto split: if_splits)
  have "distinct order'"
    using inj' E(6) by (auto simp: distinct_conv_nth)
  moreover have "set order' \<subseteq> {..<n}"
    using E(6,7) is_perm_nth [OF perm] by (auto simp: in_set_conv_nth)
  ultimately have "is_perm order' n"
    using E(6) by (metis card_lessThan card_seteq distinct_card finite_lessThan is_perm_def order_refl)
  then show ?thesis
    using that [OF E(1) _ E(5)] E(2,7) start keep by auto
qed

lemma permute_from_ok:
  "is_perm order n \<Longrightarrow> length v = n \<Longrightarrow> k \<le> n \<Longrightarrow> \<forall>i < k. order ! i = i \<Longrightarrow>
   permute_from [k..<n] v order = Some (map (\<lambda>i. v ! (order ! i)) [0..<n], [0..<n])"
proof (induction "n - k" arbitrary: k v order)
  case 0
  then have k: "k = n" by simp
  with 0 have "order = [0..<n]"
    by (intro nth_equalityI) (auto simp: is_perm_def)
  moreover from this have "map (\<lambda>i. v ! (order ! i)) [0..<n] = v"
    using 0 by (intro nth_equalityI) auto
  ultimately show ?case using k by simp
next
  case (Suc m)
  then have kn: "k < n" by simp
  from permute_cycle_ok [OF Suc.prems(1,2) kn] obtain v' order' where c:
      "permute_cycle n v order k k = Some (v', order')"
      "is_perm order' n" "length v' = n" "order' ! k = k"
      "\<forall>i < n. order ! i = i \<longrightarrow> order' ! i = i"
      "\<forall>i < n. v' ! (order' ! i) = v ! (order ! i)"
    by metis
  have "\<forall>i < Suc k. order' ! i = i"
    using c(4,5) Suc.prems(4) kn by (auto simp: less_Suc_eq)
  then have "permute_from [Suc k..<n] v' order' = Some (map (\<lambda>i. v' ! (order' ! i)) [0..<n], [0..<n])"
    using Suc.hyps(2) kn by (intro Suc.hyps(1) c(2,3)) auto
  moreover have "[k..<n] = k # [Suc k..<n]" using kn by (simp add: upt_conv_Cons)
  moreover have "map (\<lambda>i. v' ! (order' ! i)) [0..<n] = map (\<lambda>i. v ! (order ! i)) [0..<n]"
    using c(6) by simp
  ultimately show ?case using c(1) Suc.prems(2) by simp
qed

lemma permute_eq:
  assumes "is_perm order (length v)"
  shows "permute v order = Some (map (\<lambda>i. v ! (order ! i)) [0..<length v], [0..<length v])"
  using permute_from_ok [OF assms refl, of 0] by (simp add: permute_def)

lemma permute_map:
  assumes "is_perm order (length v)"
  shows "permute v order = Some (map ((!) v) order, [0..<length v])"
proof -
  have "map (\<lambda>i. v ! (order ! i)) [0..<length v] = map ((!) v) (map ((!) order) [0..<length order])"
    using assms by (simp add: is_perm_def)
  then show ?thesis using permute_eq [OF assms] by (simp add: map_nth)
qed

section \<open>The whole sort\<close>

context weak_order
begin

lemma filter_positions:
  assumes sorted: "sorted_wrt (before (\<lambda>a b. lt (v ! a) (v ! b))) order"
    and set: "set order = {0..<length v}"
  shows "filter (same_class lt x) (map ((!) v) order) = filter (same_class lt x) v"
proof -
  let ?P = "\<lambda>i. same_class lt x (v ! i)"
  have tie: "a < b" if "a \<in> set (filter ?P order)" "b \<in> set (filter ?P order)"
      "before (\<lambda>a b. lt (v ! a) (v ! b)) a b" for a b
    using that lt_not_same_class by (auto simp: before_def)
  have "sorted_wrt (<) (filter ?P order)"
    using sorted_wrt_mono_rel [of "filter ?P order"] sorted_wrt_filter [OF sorted, of ?P] tie
    by blast
  moreover have "sorted_wrt (<) (filter ?P [0..<length v])"
    by (intro sorted_wrt_filter) simp
  ultimately have "filter ?P order = filter ?P [0..<length v]"
    by (intro sorted_wrt_unique [where R = "(<)"]) (auto simp: set)
  then have "map ((!) v) (filter ?P order) = map ((!) v) (filter ?P [0..<length v])"
    by simp
  moreover have "filter (same_class lt x) v = map ((!) v) (filter ?P [0..<length v])"
    by (metis (no_types, lifting) filter_cong filter_map map_nth comp_def)
  ultimately show ?thesis by (simp add: filter_map comp_def)
qed

lemma sorted_positions_stable:
  assumes sorted: "sorted_wrt (before (\<lambda>a b. lt (v ! a) (v ! b))) order"
    and set: "set order = {0..<length v}"
  shows "stable_sort_of lt v (map ((!) v) order)"
proof -
  have "distinct order"
    using sorted before_irrefl by (rule sorted_wrt_distinct)
  then have "mset order = mset [0..<length v]"
    using set mset_set_set [of order] by simp
  then have "mset (map ((!) v) order) = mset (map ((!) v) [0..<length v])"
    by (metis mset_map)
  then have m: "mset (map ((!) v) order) = mset v"
    by (simp only: map_nth)
  have "sorted_wrt (\<lambda>a b. \<not> lt (v ! b) (v ! a)) order"
    using sorted by (rule sorted_wrt_mono_rel [rotated]) (auto simp: before_def dest: lt_asym)
  then have "sorted_wrt (\<lambda>x y. \<not> lt y x) (map ((!) v) order)"
    by (simp add: sorted_wrt_map)
  with m filter_positions [OF sorted set] show ?thesis
    by (simp add: stable_sort_of_def)
qed

lemma positions_stable:
  assumes "length v < 2 ^ 32"
  obtains order where "positions (length v) (\<lambda>a b. lt (v ! a) (v ! b)) = Some order"
    "permute v order = Some (map ((!) v) order, [0..<length v])"
    "stable_sort_of lt v (map ((!) v) order)"
proof -
  have "transp (before (\<lambda>a b. lt (v ! a) (v ! b)))"
    using before_trans by (intro transpI) blast
  then obtain order where o: "positions (length v) (\<lambda>a b. lt (v ! a) (v ! b)) = Some order"
      "set order = {0..<length v}" "length order = length v"
      "sorted_wrt (before (\<lambda>a b. lt (v ! a) (v ! b))) order"
    using positions_sorted assms by blast
  have "distinct order" using o(4) before_irrefl by (rule sorted_wrt_distinct)
  then have "is_perm order (length v)"
    using o(2,3) by (simp add: is_perm_def lessThan_atLeast0)
  from that [OF o(1) permute_map [OF this] sorted_positions_stable [OF o(4,2)]] show ?thesis .
qed

lemma sort_by_lt_stable:
  assumes "length v < 2 ^ 32"
  shows "\<exists>w. sort_by_less lt v = Some w \<and> stable_sort_of lt v w"
proof (cases "length v \<le> small")
  case True
  then show ?thesis by (simp add: sort_by_less_def insertion_sort_stable)
next
  case False
  from positions_stable [OF assms] obtain order where
    "positions (length v) (\<lambda>a b. lt (v ! a) (v ! b)) = Some order"
    "permute v order = Some (map ((!) v) order, [0..<length v])"
    "stable_sort_of lt v (map ((!) v) order)" .
  with False show ?thesis by (simp add: sort_by_less_def)
qed

end

text \<open>A key comparison is a strict weak order whatever the key, so every keyed sort is stable.\<close>

interpretation key_order: weak_order "\<lambda>a b. (f :: 'a \<Rightarrow> 'k::linorder) a < f b" for f
  by unfold_locales auto

text \<open>The positions sorted by the cached keys are the positions sorted by the keys of the elements.\<close>

lemma cached_key_stable:
  fixes f :: "'a \<Rightarrow> 'k::linorder"
  assumes "length v < 2 ^ 32"
  shows "\<exists>w. sort_stable_by_cached_key f v = Some w \<and> stable_sort_of (\<lambda>a b. f a < f b) v w"
proof (cases "length v < 2")
  case True
  then have "stable_sort_of (\<lambda>a b. f a < f b) v v"
    by (cases v) (auto simp: stable_sort_of_def)
  with True show ?thesis by (simp add: sort_stable_by_cached_key_def)
next
  case False
  let ?lt = "\<lambda>a b. map f v ! a < map f v ! b" and ?lt' = "\<lambda>a b. f (v ! a) < f (v ! b)"
  have "transp (before ?lt)"
    using key_order.before_trans [of "\<lambda>x. x" "map f v"] by (intro transpI) blast
  then obtain order where o: "positions (length v) ?lt = Some order" "set order = {0..<length v}"
      "length order = length v" "sorted_wrt (before ?lt) order"
    using positions_sorted assms by blast
  have s: "sorted_wrt (before ?lt') order"
    by (rule sorted_wrt_mono_rel [OF _ o(4)]) (auto simp: before_def o(2))
  then have "distinct order" using key_order.before_irrefl by (rule sorted_wrt_distinct)
  then have "is_perm order (length v)"
    using o(2,3) by (simp add: is_perm_def lessThan_atLeast0)
  from permute_map [OF this] o(1) False key_order.sorted_positions_stable [OF s o(2)]
  show ?thesis by (simp add: sort_stable_by_cached_key_def Let_def)
qed

section \<open>Properties\<close>

text \<open>C36. Sorting by a key always returns on a slice of fewer than \<open>2^32\<close> elements, short or long, and
  returns the stable sort: the same elements, in the order of their keys, those of one key in their
  original order.\<close>

theorem sort_by_key_stable:
  fixes f :: "'a \<Rightarrow> 'k::linorder"
  assumes "length v < 2 ^ 32"
  shows "\<exists>w. sort_stable_by_key f v = Some w \<and> mset w = mset v \<and> sorted (map f w) \<and>
    (\<forall>k. filter (\<lambda>x. f x = k) w = filter (\<lambda>x. f x = k) v)"
proof -
  from key_order.sort_by_lt_stable [OF assms, of f] obtain w where
    w: "sort_stable_by_key f v = Some w" "stable_sort_of (\<lambda>a b. f a < f b) v w"
    by (auto simp: sort_stable_by_key_def)
  have "sorted (map f w)"
    using w(2) by (simp add: stable_sort_of_def sorted_wrt_map not_less)
  moreover have "filter (\<lambda>x. f x = k) w = filter (\<lambda>x. f x = k) v" for k
  proof (cases "k \<in> f ` set v")
    case True
    then obtain x where x: "x \<in> set v" "k = f x" by blast
    then have "(\<lambda>y. f y = k) = same_class (\<lambda>a b. f a < f b) x"
      by (auto simp: same_class_def fun_eq_iff)
    with w(2) x(1) show ?thesis by (simp add: stable_sort_of_def)
  next
    case False
    moreover have "set w = set v" using w(2) by (metis stable_sort_of_def mset_eq_setD)
    ultimately have "filter (\<lambda>x. f x = k) w = []" "filter (\<lambda>x. f x = k) v = []"
      by (auto simp: filter_empty_conv)
    then show ?thesis by simp
  qed
  ultimately show ?thesis using w by (auto simp: stable_sort_of_def)
qed

theorem sort_by_key_stable_witness:
  "\<exists>w. sort_stable_by_key (\<lambda>n. n mod 10) [13, 21, 3, 11 :: nat] = Some w \<and>
     sorted (map (\<lambda>n. n mod 10) w) \<and> filter (\<lambda>n. n mod 10 = 3) w = [13, 3]"
proof -
  have "length [13, 21, 3, 11 :: nat] < 2 ^ 32" by simp
  from sort_by_key_stable [OF this, of "\<lambda>n. n mod 10"] obtain w where
    "sort_stable_by_key (\<lambda>n. n mod 10) [13, 21, 3, 11 :: nat] = Some w"
    "sorted (map (\<lambda>n. n mod 10) w)" "filter (\<lambda>n. n mod 10 = 3) w = filter (\<lambda>n. n mod 10 = 3) [13, 21, 3, 11]"
    by blast
  then show ?thesis by simp
qed

text \<open>The two keyed sorts agree: computing the key once per element, over positions and one
  permutation in place, gives the list that comparing keys each time gives.\<close>

lemma sort_cached_key_eq:
  fixes f :: "'a \<Rightarrow> 'k::linorder"
  assumes "length v < 2 ^ 32"
  shows "sort_stable_by_cached_key f v = sort_stable_by_key f v"
  using cached_key_stable [OF assms, of f] key_order.sort_by_lt_stable [OF assms, of f]
    key_order.stable_sort_unique [of f v]
  by (auto simp: sort_stable_by_key_def)

lemma sort_cached_key_eq_witness:
  "sort_stable_by_cached_key (\<lambda>n. n mod 10) [13, 21, 3, 11 :: nat] =
   sort_stable_by_key (\<lambda>n. n mod 10) [13, 21, 3, 11]"
  by (rule sort_cached_key_eq) simp

text \<open>\<open>permute\<close> follows every cycle to its end: for any permutation it moves \<open>v[order[i]]\<close> to
  position \<open>i\<close> and leaves \<open>order\<close> the identity, with at most one round of each cycle per element.\<close>

lemma permute_moves:
  assumes "is_perm order (length v)"
  shows "permute v order = Some (map (\<lambda>i. v ! (order ! i)) [0..<length v], [0..<length v])"
  using assms by (rule permute_eq)

lemma permute_moves_witness: "permute ''abcd'' [2, 0, 3, 1] = Some (''cadb'', [0, 1, 2, 3])"
proof -
  have "is_perm [2, 0, 3, 1] (length ''abcd'')" by (auto simp: is_perm_def)
  from permute_moves [OF this] show ?thesis by simp
qed

end
