(* ===== verification/Wire.thy ===== *)
theory Wire
  imports HdPrelude
begin

text \<open>
  \<^verbatim>\<open>crates/hd_base/src/wire.rs\<close>: the little-endian codec of cache-entry sections. The writer is
  its byte vector; a write of a blob or a list length of \<open>2 ^ 32\<close> or more panics (\<open>None\<close>). The
  reader never panics: a read past the end yields zeros and marks it bad. A slice is never longer
  than \<open>isize::MAX\<close>, so the saturating addition of \<open>take\<close> only ever saturates to an end past the
  slice, where the plain addition ends too.
\<close>

section \<open>The writer\<close>

definition w_u8 :: "u8 list \<Rightarrow> u8 \<Rightarrow> u8 list" where
  "w_u8 w v = w @ [v]"

definition w_u32 :: "u8 list \<Rightarrow> u32 \<Rightarrow> u8 list" where
  "w_u32 w v = w @ le_bytes 4 v"

definition w_u64 :: "u8 list \<Rightarrow> u64 \<Rightarrow> u8 list" where
  "w_u64 w v = w @ le_bytes 8 v"

definition w_hash :: "u8 list \<Rightarrow> u128 \<Rightarrow> u8 list" where
  "w_hash w h = w @ le_bytes 16 h"

definition w_blob :: "u8 list \<Rightarrow> u8 list \<Rightarrow> u8 list option" where
  "w_blob w b = (if length b < 2 ^ 32 then Some (w_u32 w (word_of_nat (length b)) @ b) else None)"

text \<open>A \<open>str\<close> is its UTF-8 bytes.\<close>

definition w_str :: "u8 list \<Rightarrow> u8 list \<Rightarrow> u8 list option" where
  "w_str w s = w_blob w s"

definition w_len_of :: "u8 list \<Rightarrow> 'a list \<Rightarrow> u8 list option" where
  "w_len_of w v = (if length v < 2 ^ 32 then Some (w_u32 w (word_of_nat (length v))) else None)"

section \<open>The reader\<close>

record reader =
  r_bytes :: "u8 list"
  r_pos :: nat
  r_bad :: bool

definition r_new :: "u8 list \<Rightarrow> reader" where
  "r_new bytes = \<lparr>r_bytes = bytes, r_pos = 0, r_bad = False\<rparr>"

definition r_take :: "nat \<Rightarrow> reader \<Rightarrow> u8 list \<times> reader" where
  "r_take n r =
     (case get_range (r_bytes r) (r_pos r) (r_pos r + n) of
        Some s \<Rightarrow> (s, r\<lparr>r_pos := r_pos r + n\<rparr>)
      | None \<Rightarrow> ([], r\<lparr>r_bad := True, r_pos := length (r_bytes r)\<rparr>))"

text \<open>\<open>try_into().unwrap_or([0; N])\<close>: a short read is all zeros.\<close>

definition r_arr :: "nat \<Rightarrow> reader \<Rightarrow> u8 list \<times> reader" where
  "r_arr n r = (let (s, r') = r_take n r in (if length s = n then s else replicate n 0, r'))"

definition r_u8 :: "reader \<Rightarrow> u8 \<times> reader" where
  "r_u8 r = (let (s, r') = r_arr 1 r in (s ! 0, r'))"

definition r_u32 :: "reader \<Rightarrow> u32 \<times> reader" where
  "r_u32 r = (let (s, r') = r_arr 4 r in (of_le_bytes s, r'))"

definition r_u64 :: "reader \<Rightarrow> u64 \<times> reader" where
  "r_u64 r = (let (s, r') = r_arr 8 r in (of_le_bytes s, r'))"

definition r_hash :: "reader \<Rightarrow> u128 \<times> reader" where
  "r_hash r = (let (s, r') = r_arr 16 r in (of_le_bytes s, r'))"

definition r_blob :: "reader \<Rightarrow> u8 list \<times> reader" where
  "r_blob r = (let (n, r') = r_u32 r in r_take (unat n) r')"

definition r_str :: "reader \<Rightarrow> u8 list \<times> reader" where
  "r_str r = (let (b, r') = r_blob r in if utf8_valid b then (b, r') else ([], r'\<lparr>r_bad := True\<rparr>))"

definition r_count :: "reader \<Rightarrow> nat \<times> reader" where
  "r_count r =
     (let (n, r') = r_u32 r
      in if unat n > length (r_bytes r') - r_pos r' then (0, r'\<lparr>r_bad := True\<rparr>) else (unat n, r'))"

definition r_ok :: "reader \<Rightarrow> bool" where
  "r_ok r \<longleftrightarrow> \<not> r_bad r"

definition r_at_end :: "reader \<Rightarrow> bool" where
  "r_at_end r \<longleftrightarrow> r_pos r = length (r_bytes r)"

section \<open>Sections of fields\<close>

text \<open>
  A section is a list of fields; a schema lists their shapes. Writing a section and reading it with
  its schema is how the entry codecs use the two sides.
\<close>

datatype field = FU8 u8 | FU32 u32 | FU64 u64 | FHash u128 | FBlob "u8 list" | FStr "u8 list"

datatype shape = SU8 | SU32 | SU64 | SHash | SBlob | SStr

fun shape_of :: "field \<Rightarrow> shape" where
  "shape_of (FU8 _) = SU8"
| "shape_of (FU32 _) = SU32"
| "shape_of (FU64 _) = SU64"
| "shape_of (FHash _) = SHash"
| "shape_of (FBlob _) = SBlob"
| "shape_of (FStr _) = SStr"

fun w_field :: "u8 list \<Rightarrow> field \<Rightarrow> u8 list option" where
  "w_field w (FU8 v) = Some (w_u8 w v)"
| "w_field w (FU32 v) = Some (w_u32 w v)"
| "w_field w (FU64 v) = Some (w_u64 w v)"
| "w_field w (FHash v) = Some (w_hash w v)"
| "w_field w (FBlob b) = w_blob w b"
| "w_field w (FStr s) = w_str w s"

fun r_field :: "shape \<Rightarrow> reader \<Rightarrow> field \<times> reader" where
  "r_field SU8 r = map_prod FU8 id (r_u8 r)"
| "r_field SU32 r = map_prod FU32 id (r_u32 r)"
| "r_field SU64 r = map_prod FU64 id (r_u64 r)"
| "r_field SHash r = map_prod FHash id (r_hash r)"
| "r_field SBlob r = map_prod FBlob id (r_blob r)"
| "r_field SStr r = map_prod FStr id (r_str r)"

fun w_fields :: "u8 list \<Rightarrow> field list \<Rightarrow> u8 list option" where
  "w_fields w [] = Some w"
| "w_fields w (f # fs) = (case w_field w f of None \<Rightarrow> None | Some w' \<Rightarrow> w_fields w' fs)"

fun r_fields :: "shape list \<Rightarrow> reader \<Rightarrow> field list \<times> reader" where
  "r_fields [] r = ([], r)"
| "r_fields (s # ss) r =
     (let (f, r1) = r_field s r; (fs, r2) = r_fields ss r1 in (f # fs, r2))"

text \<open>What a \<open>str\<close> always is in Rust: its bytes are UTF-8.\<close>

fun field_ok :: "field \<Rightarrow> bool" where
  "field_ok (FStr s) = utf8_valid s"
| "field_ok _ = True"

section \<open>Lemmas\<close>

text \<open>The bytes one field adds, and that a write only appends them.\<close>

fun field_bytes :: "field \<Rightarrow> u8 list" where
  "field_bytes (FU8 v) = [v]"
| "field_bytes (FU32 v) = le_bytes 4 v"
| "field_bytes (FU64 v) = le_bytes 8 v"
| "field_bytes (FHash v) = le_bytes 16 v"
| "field_bytes (FBlob b) = le_bytes 4 (word_of_nat (length b) :: u32) @ b"
| "field_bytes (FStr s) = le_bytes 4 (word_of_nat (length s) :: u32) @ s"

fun field_fits :: "field \<Rightarrow> bool" where
  "field_fits (FBlob b) = (length b < 2 ^ 32)"
| "field_fits (FStr s) = (length s < 2 ^ 32)"
| "field_fits _ = True"

lemmas writer_defs = w_u8_def w_u32_def w_u64_def w_hash_def w_blob_def w_str_def

lemma w_field_eq: "w_field w f = (if field_fits f then Some (w @ field_bytes f) else None)"
  by (cases f) (simp_all add: writer_defs)

lemma w_fields_eq:
  "w_fields w fs = (if list_all field_fits fs then Some (w @ concat (map field_bytes fs)) else None)"
  by (induction fs arbitrary: w) (auto simp: w_field_eq)

text \<open>Reading from inside a byte string: the reader stands between \<open>pre\<close> and what is left.\<close>

definition reading :: "reader \<Rightarrow> u8 list \<Rightarrow> u8 list \<Rightarrow> bool" where
  "reading r pre rest \<longleftrightarrow> r_bytes r = pre @ rest \<and> r_pos r = length pre \<and> \<not> r_bad r"

lemma reading_new: "reading (r_new bs) [] bs"
  by (simp add: reading_def r_new_def)

lemma r_take_reading:
  assumes "reading r pre (s @ rest)"
  obtains r' where "r_take (length s) r = (s, r')" "reading r' (pre @ s) rest"
proof
  show "r_take (length s) r = (s, r\<lparr>r_pos := r_pos r + length s\<rparr>)"
    using assms by (simp add: reading_def r_take_def)
  show "reading (r\<lparr>r_pos := r_pos r + length s\<rparr>) (pre @ s) rest"
    using assms by (simp add: reading_def)
qed

lemma r_arr_reading:
  assumes "reading r pre (s @ rest)"
  obtains r' where "r_arr (length s) r = (s, r')" "reading r' (pre @ s) rest"
proof -
  from assms obtain r' where "r_take (length s) r = (s, r')" "reading r' (pre @ s) rest"
    by (rule r_take_reading)
  then show ?thesis using that by (simp add: r_arr_def)
qed

lemma r_u32_reading:
  assumes "reading r pre (le_bytes 4 v @ rest)"
  obtains r' where "r_u32 r = (v, r')" "reading r' (pre @ le_bytes 4 v) rest"
proof -
  obtain r' where "r_arr 4 r = (le_bytes 4 v, r')" "reading r' (pre @ le_bytes 4 v) rest"
    using r_arr_reading [OF assms] by auto
  then show ?thesis using that by (simp add: r_u32_def codec_simps)
qed

lemma r_blob_reading:
  assumes "reading r pre (le_bytes 4 (word_of_nat (length b) :: u32) @ b @ rest)" "length b < 2 ^ 32"
  obtains r' where "r_blob r = (b, r')"
    "reading r' (pre @ le_bytes 4 (word_of_nat (length b) :: u32) @ b) rest"
proof -
  obtain r1 where r1: "r_u32 r = (word_of_nat (length b), r1)"
      "reading r1 (pre @ le_bytes 4 (word_of_nat (length b) :: u32)) (b @ rest)"
    using r_u32_reading [OF assms(1)] by auto
  obtain r2 where "r_take (length b) r1 = (b, r2)"
      "reading r2 ((pre @ le_bytes 4 (word_of_nat (length b) :: u32)) @ b) rest"
    using r_take_reading [OF r1(2)] by auto
  moreover have "unat (word_of_nat (length b) :: u32) = length b"
    using assms(2) by (simp add: unat_of_nat take_bit_eq_mod)
  ultimately show ?thesis using that r1(1) by (simp add: r_blob_def)
qed

lemma r_field_reading:
  assumes "reading r pre (field_bytes f @ rest)" "field_fits f" "field_ok f"
  obtains r' where "r_field (shape_of f) r = (f, r')" "reading r' (pre @ field_bytes f) rest"
proof (cases f)
  case (FU8 v)
  with assms obtain r' where "r_arr 1 r = ([v], r')" "reading r' (pre @ [v]) rest"
    using r_arr_reading [of r pre "[v]" rest] by auto
  with FU8 that show ?thesis by (simp add: r_u8_def)
next
  case (FU32 v)
  with assms obtain r' where "r_u32 r = (v, r')" "reading r' (pre @ le_bytes 4 v) rest"
    using r_u32_reading [of r pre v rest] by auto
  with FU32 that show ?thesis by simp
next
  case (FU64 v)
  with assms obtain r' where "r_arr 8 r = (le_bytes 8 v, r')" "reading r' (pre @ le_bytes 8 v) rest"
    using r_arr_reading [of r pre "le_bytes 8 v" rest] by auto
  with FU64 that show ?thesis by (simp add: r_u64_def codec_simps)
next
  case (FHash v)
  with assms obtain r' where "r_arr 16 r = (le_bytes 16 v, r')" "reading r' (pre @ le_bytes 16 v) rest"
    using r_arr_reading [of r pre "le_bytes 16 v" rest] by auto
  with FHash that show ?thesis by (simp add: r_hash_def codec_simps)
next
  case (FBlob b)
  with assms obtain r' where "r_blob r = (b, r')" "reading r' (pre @ field_bytes f) rest"
    using r_blob_reading [of r pre b rest] by auto
  with FBlob that show ?thesis by simp
next
  case (FStr s)
  with assms obtain r' where "r_blob r = (s, r')" "reading r' (pre @ field_bytes f) rest"
    using r_blob_reading [of r pre s rest] by auto
  with FStr assms(3) that show ?thesis by (simp add: r_str_def)
qed

lemma r_fields_reading:
  assumes "reading r pre (concat (map field_bytes fs) @ rest)" "list_all field_fits fs"
    "list_all field_ok fs"
  shows "\<exists>r'. r_fields (map shape_of fs) r = (fs, r') \<and>
    reading r' (pre @ concat (map field_bytes fs)) rest"
  using assms
proof (induction fs arbitrary: r pre)
  case Nil
  then show ?case by simp
next
  case (Cons f fs)
  then obtain r1 where r1: "r_field (shape_of f) r = (f, r1)"
      "reading r1 (pre @ field_bytes f) (concat (map field_bytes fs) @ rest)"
    using r_field_reading [of r pre f "concat (map field_bytes fs) @ rest"] by auto
  with Cons.IH [OF r1(2)] Cons.prems show ?case by auto
qed

text \<open>The reader's invariant: its position never leaves the bytes.\<close>

definition reader_inv :: "reader \<Rightarrow> bool" where
  "reader_inv r \<longleftrightarrow> r_pos r \<le> length (r_bytes r)"

lemma r_take_inv:
  "reader_inv r \<Longrightarrow> r_take n r = (s, r') \<Longrightarrow>
   reader_inv r' \<and> r_bytes r' = r_bytes r \<and> (r_bad r \<longrightarrow> r_bad r') \<and> r_pos r \<le> r_pos r' \<and>
   (\<not> r_bad r' \<longrightarrow> r_pos r' = r_pos r + n)"
  by (auto simp: reader_inv_def r_take_def get_range_Some get_range_None split: option.splits)

lemma r_arr_inv:
  "reader_inv r \<Longrightarrow> r_arr n r = (s, r') \<Longrightarrow>
   reader_inv r' \<and> r_bytes r' = r_bytes r \<and> (r_bad r \<longrightarrow> r_bad r') \<and> r_pos r \<le> r_pos r' \<and>
   (\<not> r_bad r' \<longrightarrow> r_pos r' = r_pos r + n)"
  using r_take_inv by (auto simp: r_arr_def Let_def split: prod.splits)

lemma r_u32_inv:
  "reader_inv r \<Longrightarrow> r_u32 r = (v, r') \<Longrightarrow>
   reader_inv r' \<and> r_bytes r' = r_bytes r \<and> (r_bad r \<longrightarrow> r_bad r') \<and> r_pos r \<le> r_pos r' \<and>
   (\<not> r_bad r' \<longrightarrow> r_pos r' = r_pos r + 4)"
  using r_arr_inv by (auto simp: r_u32_def Let_def split: prod.splits)

lemma r_blob_inv:
  "reader_inv r \<Longrightarrow> r_blob r = (v, r') \<Longrightarrow>
   reader_inv r' \<and> r_bytes r' = r_bytes r \<and> (r_bad r \<longrightarrow> r_bad r') \<and> r_pos r \<le> r_pos r'"
  unfolding r_blob_def Let_def
  by (auto split: prod.splits) (metis r_take_inv r_u32_inv order.trans)+

lemma r_field_inv:
  "reader_inv r \<Longrightarrow> r_field s r = (f, r') \<Longrightarrow>
   reader_inv r' \<and> r_bytes r' = r_bytes r \<and> (r_bad r \<longrightarrow> r_bad r') \<and> r_pos r \<le> r_pos r'"
proof (cases s)
  case SStr
  assume a: "reader_inv r" "r_field s r = (f, r')"
  obtain b r1 where b: "r_blob r = (b, r1)" by fastforce
  with a SStr r_blob_inv [OF a(1) b] show ?thesis
    by (auto simp: r_str_def reader_inv_def split: if_splits)
qed (auto simp: map_prod_def r_u8_def r_u64_def r_hash_def Let_def split: prod.splits
      dest: r_arr_inv r_u32_inv r_blob_inv)

lemma r_fields_inv:
  "reader_inv r \<Longrightarrow> r_fields ss r = (fs, r') \<Longrightarrow>
   reader_inv r' \<and> r_bytes r' = r_bytes r \<and> (r_bad r \<longrightarrow> r_bad r') \<and> r_pos r \<le> r_pos r'"
proof (induction ss arbitrary: r fs)
  case Nil
  then show ?case by simp
next
  case (Cons s ss)
  obtain f r1 where f: "r_field s r = (f, r1)" by fastforce
  obtain fs' r2 where fs': "r_fields ss r1 = (fs', r2)" by fastforce
  have r2: "r' = r2" using Cons.prems(2) f fs' by simp
  with r_field_inv [OF Cons.prems(1) f] Cons.IH [of r1 fs'] fs' show ?case by auto
qed

text \<open>
  A read that stays good reads the same from a longer byte string, so a reader over a proper prefix
  of a written section cannot finish it and stay good.
\<close>

definition extend :: "reader \<Rightarrow> u8 list \<Rightarrow> reader" where
  "extend r ext = r\<lparr>r_bytes := r_bytes r @ ext\<rparr>"

lemma r_take_extend:
  "r_take n r = (s, r') \<Longrightarrow> \<not> r_bad r' \<Longrightarrow> r_take n (extend r ext) = (s, extend r' ext)"
  by (auto simp: r_take_def extend_def get_range_Some get_range_None get_range_def
      split: option.splits if_splits)

lemma r_arr_extend:
  "r_arr n r = (s, r') \<Longrightarrow> \<not> r_bad r' \<Longrightarrow> r_arr n (extend r ext) = (s, extend r' ext)"
  by (auto simp: r_arr_def Let_def r_take_extend split: prod.splits dest: r_take_extend [of _ _ _ _ ext])

lemma r_u32_extend:
  "r_u32 r = (v, r') \<Longrightarrow> \<not> r_bad r' \<Longrightarrow> r_u32 (extend r ext) = (v, extend r' ext)"
  by (auto simp: r_u32_def Let_def split: prod.splits dest: r_arr_extend [of _ _ _ _ ext])

lemma r_blob_extend:
  assumes "reader_inv r" "r_blob r = (v, r')" "\<not> r_bad r'"
  shows "r_blob (extend r ext) = (v, extend r' ext)"
proof -
  obtain n r1 where n: "r_u32 r = (n, r1)" by fastforce
  with assms have t: "r_take (unat n) r1 = (v, r')" by (simp add: r_blob_def)
  with assms n have "\<not> r_bad r1" using r_u32_inv r_take_inv by blast
  with n t assms(3) show ?thesis
    by (simp add: r_blob_def r_u32_extend r_take_extend)
qed

lemma r_field_extend:
  assumes "reader_inv r" "r_field s r = (f, r')" "\<not> r_bad r'"
  shows "r_field s (extend r ext) = (f, extend r' ext)"
proof (cases s)
  case SStr
  obtain b r1 where b: "r_blob r = (b, r1)" by fastforce
  with assms SStr have "\<not> r_bad r1" "utf8_valid b" "f = FStr b" "r' = r1"
    by (auto simp: r_str_def split: if_splits)
  with SStr b r_blob_extend [OF assms(1) b] show ?thesis by (simp add: r_str_def)
qed (use assms in \<open>auto simp: map_prod_def r_u8_def r_u64_def r_hash_def Let_def split: prod.splits
      dest: r_arr_extend [of _ _ _ _ ext] r_u32_extend [of _ _ _ ext] r_blob_extend [of _ _ _ ext]\<close>)

lemma r_fields_extend:
  "reader_inv r \<Longrightarrow> r_fields ss r = (fs, r') \<Longrightarrow> \<not> r_bad r' \<Longrightarrow>
   r_fields ss (extend r ext) = (fs, extend r' ext)"
proof (induction ss arbitrary: r fs)
  case Nil
  then show ?case by simp
next
  case (Cons s ss)
  obtain f r1 where f: "r_field s r = (f, r1)" by fastforce
  obtain fs' r2 where fs': "r_fields ss r1 = (fs', r2)" by fastforce
  have eq: "r' = r2" "fs = f # fs'" using Cons.prems(2) f fs' by auto
  have inv1: "reader_inv r1" using r_field_inv [OF Cons.prems(1) f] by simp
  have "\<not> r_bad r1" using r_fields_inv [OF inv1 fs'] Cons.prems(3) eq by auto
  then have "r_field s (extend r ext) = (f, extend r1 ext)"
    using r_field_extend [OF Cons.prems(1) f] by simp
  moreover have "r_fields ss (extend r1 ext) = (fs', extend r' ext)"
    using Cons.IH [OF inv1] fs' eq Cons.prems(3) by simp
  ultimately show ?case using eq by simp
qed

lemma r_fields_truncated:
  assumes w: "w_fields [] fs = Some (bytes @ ext)" and ext: "ext \<noteq> []" and ok: "list_all field_ok fs"
  shows "r_bad (snd (r_fields (map shape_of fs) (r_new bytes)))"
proof (rule ccontr)
  assume good: "\<not> ?thesis"
  obtain gs r' where r: "r_fields (map shape_of fs) (r_new bytes) = (gs, r')" by fastforce
  have inv: "reader_inv (r_new bytes)" by (simp add: reader_inv_def r_new_def)
  have "extend (r_new bytes) ext = r_new (bytes @ ext)"
    by (simp add: extend_def r_new_def)
  with r_fields_extend [OF inv r, of ext] good r
  have r2: "r_fields (map shape_of fs) (r_new (bytes @ ext)) = (gs, extend r' ext)" by simp
  have "bytes @ ext = concat (map field_bytes fs)" "list_all field_fits fs"
    using w by (auto simp: w_fields_eq split: if_splits)
  with r_fields_reading [of "r_new (bytes @ ext)" "[]" fs "[]"] ok reading_new [of "bytes @ ext"] r2
  have "r_pos (extend r' ext) = length (bytes @ ext)"
    by (auto simp: reading_def)
  moreover have "r_pos r' \<le> length bytes"
    using r_fields_inv [OF inv r] by (auto simp: reader_inv_def r_new_def)
  ultimately show False using ext by (simp add: extend_def)
qed

lemma r_count_capped:
  assumes "reader_inv r" and "r_count r = (n, r')"
  shows "n \<le> length (r_bytes r') - r_pos r' \<and> reader_inv r'"
proof -
  obtain v r1 where v: "r_u32 r = (v, r1)" by fastforce
  with r_u32_inv [OF assms(1) v] assms(2) show ?thesis
    by (cases "unat v > length (r_bytes r1) - r_pos r1") (auto simp: r_count_def reader_inv_def)
qed

section \<open>Properties\<close>

text \<open>Any sequence of fields a writer accepted is read back by the same sequence of reads, exactly,
  and the reader ends good and at the end of the bytes.\<close>

lemma wire_round_trip:
  assumes "w_fields [] fs = Some bytes" "list_all field_ok fs"
  shows "\<exists>r. r_fields (map shape_of fs) (r_new bytes) = (fs, r) \<and> r_ok r \<and> r_at_end r"
proof -
  have b: "bytes = concat (map field_bytes fs)" "list_all field_fits fs"
    using assms(1) by (auto simp: w_fields_eq split: if_splits)
  with r_fields_reading [of "r_new bytes" "[]" fs "[]"] assms(2) reading_new [of bytes]
  show ?thesis by (auto simp: reading_def r_ok_def r_at_end_def)
qed

lemma wire_round_trip_witness:
  "\<exists>r. r_fields [SU32, SStr] (r_new [7, 0, 0, 0, 2, 0, 0, 0, 97, 98]) = ([FU32 7, FStr [97, 98]], r) \<and>
     r_ok r \<and> r_at_end r"
proof -
  have "w_fields [] [FU32 7, FStr [97, 98]] = Some [7, 0, 0, 0, 2, 0, 0, 0, 97, 98]"
    by (simp add: writer_defs le_bytes_def upt_conv_Cons)
  moreover have "list_all field_ok [FU32 7, FStr [97, 98]]" by simp
  ultimately show ?thesis using wire_round_trip by fastforce
qed

text \<open>A section cut anywhere is flagged: reading the fields of a written section from a proper
  prefix of its bytes leaves the reader bad.\<close>

lemma wire_truncated:
  assumes "w_fields [] fs = Some (bytes @ ext)" "ext \<noteq> []" "list_all field_ok fs"
  shows "\<not> r_ok (snd (r_fields (map shape_of fs) (r_new bytes)))"
  using r_fields_truncated [OF assms] by (simp add: r_ok_def)

lemma wire_truncated_witness:
  "\<not> r_ok (snd (r_fields [SU32, SStr] (r_new [7, 0, 0, 0, 2, 0, 0, 0, 97])))"
proof -
  have "w_fields [] [FU32 7, FStr [97, 98]] = Some ([7, 0, 0, 0, 2, 0, 0, 0, 97] @ [98])"
    by (simp add: writer_defs le_bytes_def upt_conv_Cons)
  moreover have "list_all field_ok [FU32 7, FStr [97, 98]]" by simp
  ultimately show ?thesis using wire_truncated by fastforce
qed

text \<open>Whatever the bytes are, no sequence of reads moves the reader past their end or makes a bad
  reader good, and a length read with \<open>count\<close> is at most the number of bytes left.\<close>

lemma wire_reads_bounded:
  "(let r = snd (r_fields ss (r_new bytes)); (n, r') = r_count r
    in r_pos r \<le> length bytes \<and> r_pos r' \<le> length bytes \<and> n \<le> length bytes - r_pos r' \<and>
       (\<not> r_ok r \<longrightarrow> \<not> r_ok r'))"
proof -
  obtain fs r where r: "r_fields ss (r_new bytes) = (fs, r)" by fastforce
  obtain n r' where c: "r_count r = (n, r')" by fastforce
  have i: "reader_inv (r_new bytes)" by (simp add: reader_inv_def r_new_def)
  with r_fields_inv [OF i r] have ri: "reader_inv r" "r_bytes r = bytes" by (simp_all add: r_new_def)
  obtain v r1 where v: "r_u32 r = (v, r1)" by fastforce
  have "r_bytes r' = bytes \<and> (\<not> r_ok r \<longrightarrow> \<not> r_ok r')"
    using r_u32_inv [OF ri(1) v] ri(2) c v by (auto simp: r_count_def Let_def r_ok_def split: if_splits)
  with r_count_capped [OF ri(1) c] r c ri show ?thesis
    by (auto simp: reader_inv_def)
qed

lemma wire_reads_bounded_witness:
  "(let r = snd (r_fields [SU32] (r_new [9, 0])); (n, r') = r_count r
    in r_pos r \<le> length [9 :: u8, 0] \<and> r_pos r' \<le> length [9 :: u8, 0] \<and> n \<le> length [9 :: u8, 0] - r_pos r' \<and>
       (\<not> r_ok r \<longrightarrow> \<not> r_ok r'))"
  by (rule wire_reads_bounded)

end
