(* ===== verification/DocPrinter.thy ===== *)
theory DocPrinter
  imports HdPrelude
begin

text \<open>
  \<^verbatim>\<open>crates/hd_fmt/src/document.rs\<close>: the formatter's document printer. The commands of a
  document are printed left to right; a group is printed on one line when \<open>fits\<close> says that what
  follows up to the next possible line break is within \<open>MAX_COLUMNS\<close>. \<open>fits_optimized\<close> jumps over
  commands of no width with tables computed once; \<open>fits_reference\<close> is the plain scan the code's
  tests compare it with. Text is UTF-8 bytes; \<open>None\<close> is a panic of a checked build (a slice out of
  range, one of the \<open>debug_assert!\<close>s). The stack of modes is kept top first.
\<close>

unbundle bit_operations_syntax

section \<open>Commands and widths\<close>

datatype command =
    Text nat nat
  | Atom str
  | StartGroup
  | EndGroup
  | StartIndent
  | EndIndent
  | StartConditionalIndent
  | EndConditionalIndent
  | StartFlat
  | EndFlat
  | SoftLine str
  | HardLine
  | BlankLine
  | LineSuffix nat nat bool
  | ModeText str str

definition MAX_COLUMNS :: nat where
  "MAX_COLUMNS = 100"

definition usize_max :: nat where
  "usize_max = 2 ^ 64 - 1"

text \<open>The bytes that start a character, one column each.\<close>

definition starts_char :: "u8 \<Rightarrow> bool" where
  "starts_char b \<longleftrightarrow> b AND 0xc0 \<noteq> 0x80"

fun capped_from :: "nat \<times> bool \<Rightarrow> str \<Rightarrow> nat \<times> bool" where
  "capped_from (w, nl) [] = (w, nl)"
| "capped_from (w, nl) (b # bs) =
     capped_from (if starts_char b then min (w + 1) (MAX_COLUMNS + 1) else w, nl \<or> b = 10) bs"

definition capped_width :: "str \<Rightarrow> nat \<times> bool" where
  "capped_width text = capped_from (0, False) text"

definition scalar_width :: "str \<Rightarrow> nat" where
  "scalar_width text = length (filter starts_char text)"

section \<open>The printer\<close>

record print_stats =
  preprocessing_visits :: nat
  printing_visits :: nat
  fit_calls :: nat
  fits_events :: nat
  fit_jumps :: nat
  groups :: nat

record printer =
  source :: str
  commands :: "command list"
  group_end :: "nat list"
  next_flat :: "nat list"
  next_broken :: "nat list"
  flat_measure :: "u8 list"
  out :: str
  column :: nat
  indent :: nat
  line_start :: bool
  modes :: "bool list"
  preserve_line_end :: bool
  stats :: print_stats

text \<open>The matching ends of the groups: \<open>open\<close> is the stack of starts, top first.\<close>

fun group_ends :: "nat \<Rightarrow> command list \<Rightarrow> nat list \<Rightarrow> nat list \<Rightarrow> nat list \<times> nat list" where
  "group_ends i [] opened ends = (ends, opened)"
| "group_ends i (c # cs) opened ends =
     (case c of
        StartGroup \<Rightarrow> group_ends (Suc i) cs (i # opened) ends
      | EndGroup \<Rightarrow>
          (case opened of
             [] \<Rightarrow> group_ends (Suc i) cs [] ends
           | start # rest \<Rightarrow> group_ends (Suc i) cs rest (ends[start := i]))
      | _ \<Rightarrow> group_ends (Suc i) cs opened ends)"

definition present :: "command \<Rightarrow> bool" where
  "present c =
     (case c of
        Text a b \<Rightarrow> a < b
      | Atom text \<Rightarrow> text \<noteq> []
      | SoftLine text \<Rightarrow> text \<noteq> []
      | HardLine \<Rightarrow> True
      | BlankLine \<Rightarrow> True
      | LineSuffix a b sp \<Rightarrow> True
      | ModeText flat broken \<Rightarrow> flat \<noteq> [] \<or> broken \<noteq> []
      | _ \<Rightarrow> False)"

text \<open>\<open>content[i]\<close>: how many of the first \<open>i\<close> commands print something.\<close>

definition content :: "command list \<Rightarrow> nat \<Rightarrow> nat" where
  "content cs i = length (filter present (take i cs))"

definition no_empty_group :: "command list \<Rightarrow> nat list \<Rightarrow> bool" where
  "no_empty_group cs ends =
     list_all (\<lambda>start. ends ! start = usize_max \<or> content cs (start + 1) < content cs (ends ! start))
       [0..<length ends]"

text \<open>The width and newline of a command printed flat, and printed broken.\<close>

definition command_measure :: "str \<Rightarrow> command \<Rightarrow> ((nat \<times> bool) \<times> nat \<times> bool) option" where
  "command_measure src c =
     (case c of
        Text a b \<Rightarrow> map_option (\<lambda>t. (capped_width t, capped_width t)) (str_slice src a b)
      | Atom text \<Rightarrow> Some (capped_width text, capped_width text)
      | SoftLine text \<Rightarrow> Some (capped_width text, (0, True))
      | ModeText flat broken \<Rightarrow> Some (capped_width flat, capped_width broken)
      | HardLine \<Rightarrow> Some ((0, True), (0, True))
      | BlankLine \<Rightarrow> Some ((0, True), (0, True))
      | _ \<Rightarrow> Some ((0, False), (0, False)))"

definition hard_break :: "command \<Rightarrow> bool" where
  "hard_break c \<longleftrightarrow> c = HardLine \<or> c = BlankLine"

text \<open>
  The loop over \<open>(0..len).rev()\<close>: the tables of the commands from \<open>i\<close> on. The heads of the first two
  are \<open>following_flat\<close> and \<open>following_broken\<close>.
\<close>

fun jump_tables :: "str \<Rightarrow> nat \<Rightarrow> nat \<Rightarrow> command list \<Rightarrow> (nat list \<times> nat list \<times> u8 list) option" where
  "jump_tables src len i [] = Some ([len], [len], [])"
| "jump_tables src len i (c # cs) =
     (case jump_tables src len (Suc i) cs of
        None \<Rightarrow> None
      | Some (nf, nb, fm) \<Rightarrow>
          (case command_measure src c of
             None \<Rightarrow> None
           | Some ((width, newline), (expanded_width, expanded_newline)) \<Rightarrow>
               Some ((if 0 < width \<or> newline \<or> hard_break c then i else hd nf) # nf,
                     (if 0 < expanded_width \<or> expanded_newline \<or> hard_break c then i else hd nb) # nb,
                     (word_of_nat width OR (if newline then 0x80 else 0)) # fm)))"

definition printer_new :: "str \<Rightarrow> command list \<Rightarrow> printer option" where
  "printer_new src cs =
     (let (ends, opened) = group_ends 0 cs [] (replicate (length cs) usize_max)
      in if opened \<noteq> [] \<or> \<not> no_empty_group cs ends then None
         else case jump_tables src (length cs) 0 cs of
                None \<Rightarrow> None
              | Some (nf, nb, fm) \<Rightarrow>
                  Some \<lparr>source = src, commands = cs, group_end = ends, next_flat = nf, next_broken = nb,
                        flat_measure = fm, out = [], column = 0, indent = 0, line_start = True,
                        modes = [], preserve_line_end = False,
                        stats = \<lparr>preprocessing_visits = length cs, printing_visits = 0, fit_calls = 0,
                                 fits_events = 0, fit_jumps = 0, groups = 0\<rparr>\<rparr>)"

section \<open>Fits\<close>

definition start_remaining :: "printer \<Rightarrow> nat" where
  "start_remaining p = MAX_COLUMNS - (if line_start p then indent p else column p)"

definition measured :: "printer \<Rightarrow> nat \<Rightarrow> nat" where
  "measured p i = unat (flat_measure p ! i AND 0x7f)"

definition measured_newline :: "printer \<Rightarrow> nat \<Rightarrow> bool" where
  "measured_newline p i \<longleftrightarrow> flat_measure p ! i AND 0x80 \<noteq> 0"

text \<open>
  What one command does to the scan of \<open>fits_optimized\<close>: return a result, or continue with a width
  that is charged to the line.
\<close>

datatype probe = Stop bool | Width nat

definition probe_at :: "printer \<Rightarrow> nat \<Rightarrow> bool \<Rightarrow> probe" where
  "probe_at p i continuation =
     (case commands p ! i of
        Text a b \<Rightarrow> if measured_newline p i then Stop False else Width (measured p i)
      | SoftLine text \<Rightarrow> if continuation then Stop True else Width (measured p i)
      | Atom text \<Rightarrow> Width (measured p i)
      | ModeText flat broken \<Rightarrow>
          Width (if continuation then fst (capped_width broken) else measured p i)
      | HardLine \<Rightarrow> Stop continuation
      | BlankLine \<Rightarrow> Stop continuation
      | _ \<Rightarrow> Width 0)"

definition count_jump :: "printer \<Rightarrow> printer" where
  "count_jump p = p\<lparr>stats := (stats p)\<lparr>fit_jumps := fit_jumps (stats p) + 1\<rparr>\<rparr>"

definition count_event :: "printer \<Rightarrow> printer" where
  "count_event p = p\<lparr>stats := (stats p)\<lparr>fits_events := fits_events (stats p) + 1\<rparr>\<rparr>"

text \<open>
  The loop of \<open>fits_optimized\<close>. The jump tables of a printer only go forward, which the type does
  not say: the loop is bounded by \<open>fuel\<close>, one more than the commands left.
\<close>

fun fits_optimized_from :: "nat \<Rightarrow> printer \<Rightarrow> nat \<Rightarrow> nat \<Rightarrow> nat \<Rightarrow> nat \<Rightarrow> (bool \<times> printer) option" where
  "fits_optimized_from 0 p index stop remaining positive = None"
| "fits_optimized_from (Suc fuel) p index stop remaining positive =
     (if \<not> index < length (commands p) then Some (True, p)
      else
        let i = (if index < stop
                 then (let next = next_flat p ! index in if next < stop then next else stop)
                 else next_broken p ! index);
            p = count_jump p
        in if length (commands p) \<le> i then Some (True, p)
           else case probe_at p i (stop \<le> i) of
                  Stop result \<Rightarrow> Some (result, p)
                | Width width \<Rightarrow>
                    let p = (if 0 < width then count_event p else p);
                        positive = (if 0 < width then positive + 1 else positive)
                    in if remaining < width then Some (False, p)
                       else if MAX_COLUMNS + 1 < positive then Some (False, p)
                       else fits_optimized_from fuel p (i + 1) stop (remaining - width) positive)"

definition fits_optimized :: "printer \<Rightarrow> nat \<Rightarrow> nat \<Rightarrow> (bool \<times> printer) option" where
  "fits_optimized p index stop =
     fits_optimized_from (Suc (length (commands p) - index)) p index stop (start_remaining p) 0"

text \<open>The plain scan, from \<open>index\<close> on.\<close>

function fits_reference_from :: "printer \<Rightarrow> nat \<Rightarrow> nat \<Rightarrow> nat \<Rightarrow> nat \<Rightarrow> bool" where
  "fits_reference_from p index stop remaining positive =
     (if \<not> index < length (commands p) then True
      else
        let continuation = stop \<le> index;
            step = (\<lambda>width. if width = 0 then fits_reference_from p (index + 1) stop remaining positive
                            else if remaining < width \<or> MAX_COLUMNS + 1 < positive + 1 then False
                            else fits_reference_from p (index + 1) stop (remaining - width) (positive + 1))
        in case commands p ! index of
             Text a b \<Rightarrow> if measured_newline p index then False else step (measured p index)
           | Atom text \<Rightarrow> step (measured p index)
           | SoftLine text \<Rightarrow> if continuation then True else step (measured p index)
           | ModeText flat broken \<Rightarrow>
               if continuation then step (fst (capped_width broken)) else step (measured p index)
           | HardLine \<Rightarrow> continuation
           | BlankLine \<Rightarrow> continuation
           | _ \<Rightarrow> step 0)"
  by pat_completeness auto
termination
  by (relation "measure (\<lambda>(p, index, stop, remaining, positive). length (commands p) - index)") auto

declare fits_reference_from.simps [simp del]

definition fits_reference :: "printer \<Rightarrow> nat \<Rightarrow> nat \<Rightarrow> bool" where
  "fits_reference p index stop = fits_reference_from p index stop (start_remaining p) 0"

text \<open>\<open>fits\<close> counts the call; outside the tests it is \<open>fits_optimized\<close>.\<close>

definition fits :: "printer \<Rightarrow> nat \<Rightarrow> nat \<Rightarrow> (bool \<times> printer) option" where
  "fits p index stop =
     fits_optimized (p\<lparr>stats := (stats p)\<lparr>fit_calls := fit_calls (stats p) + 1\<rparr>\<rparr>) index stop"

section \<open>Writing\<close>

text \<open>The current indentation, at the start of a line, in runs of at most 64 spaces.\<close>

function push_spaces :: "str \<Rightarrow> nat \<Rightarrow> str" where
  "push_spaces s left =
     (if 0 < left then let run = min left 64 in push_spaces (s @ replicate run 32) (left - run) else s)"
  by pat_completeness auto
termination
  by (relation "measure snd") (auto simp: min_def)

declare push_spaces.simps [simp del]

definition indent_line :: "printer \<Rightarrow> printer" where
  "indent_line p =
     (if line_start p
      then p\<lparr>out := push_spaces (out p) (indent p), column := indent p, line_start := False\<rparr>
      else p)"

text \<open>\<open>text.rsplit_once('\n')\<close>, of which the second half is used.\<close>

definition after_newline :: "str \<Rightarrow> str" where
  "after_newline text = rev (takeWhile (\<lambda>b. b \<noteq> 10) (rev text))"

definition write_text :: "printer \<Rightarrow> str \<Rightarrow> printer" where
  "write_text p text =
     (if text = [] then p
      else
        let p = indent_line p; p = p\<lparr>out := out p @ text\<rparr>
        in if 10 \<in> set text
           then p\<lparr>column := scalar_width (after_newline text), line_start := last text = 10\<rparr>
           else p\<lparr>column := column p + scalar_width text\<rparr>)"

definition write_measured :: "printer \<Rightarrow> nat \<Rightarrow> str \<Rightarrow> printer" where
  "write_measured p i text =
     (if measured_newline p i \<or> MAX_COLUMNS < measured p i \<or> text = [] then write_text p text
      else let p = indent_line p in p\<lparr>out := out p @ text, column := column p + measured p i\<rparr>)"

definition blank_byte :: "u8 \<Rightarrow> bool" where
  "blank_byte b \<longleftrightarrow> b = 32 \<or> b = 9 \<or> b = 13"

definition trim_end :: "(u8 \<Rightarrow> bool) \<Rightarrow> str \<Rightarrow> str" where
  "trim_end P s = rev (dropWhile P (rev s))"

definition ends_with :: "str \<Rightarrow> str \<Rightarrow> bool" where
  "ends_with s suf \<longleftrightarrow> length suf \<le> length s \<and> drop (length s - length suf) s = suf"

definition newline :: "printer \<Rightarrow> bool \<Rightarrow> printer" where
  "newline p blank =
     (let p = (if preserve_line_end p then p else p\<lparr>out := trim_end blank_byte (out p)\<rparr>)
      in if out p = [] then p\<lparr>column := 0, line_start := True\<rparr>
         else
           let p = (if \<not> ends_with (out p) [10] then p\<lparr>out := out p @ [10]\<rparr> else p);
               p = (if blank \<and> \<not> ends_with (out p) [10, 10] then p\<lparr>out := out p @ [10]\<rparr> else p)
           in p\<lparr>column := 0, line_start := True, preserve_line_end := False\<rparr>)"

section \<open>Printing\<close>

text \<open>\<open>self.modes.last()\<close>, with the default \<open>false\<close>.\<close>

definition flat_mode :: "printer \<Rightarrow> bool" where
  "flat_mode p = (case modes p of [] \<Rightarrow> False | m # _ \<Rightarrow> m)"

definition print_command :: "printer \<Rightarrow> nat \<Rightarrow> command \<Rightarrow> printer option" where
  "print_command p i c =
     (case c of
        Text a b \<Rightarrow> map_option (write_measured p i) (str_slice (source p) a b)
      | Atom text \<Rightarrow> Some (write_measured p i text)
      | StartGroup \<Rightarrow>
          let p = p\<lparr>stats := (stats p)\<lparr>groups := groups (stats p) + 1\<rparr>\<rparr>
          in if flat_mode p then Some (p\<lparr>modes := True # modes p\<rparr>)
             else map_option (\<lambda>(flat, p). p\<lparr>modes := flat # modes p\<rparr>) (fits p (i + 1) (group_end p ! i))
      | EndGroup \<Rightarrow> Some (p\<lparr>modes := tl (modes p)\<rparr>)
      | StartIndent \<Rightarrow> Some (p\<lparr>indent := indent p + 4\<rparr>)
      | EndIndent \<Rightarrow> Some (p\<lparr>indent := indent p - 4\<rparr>)
      | StartConditionalIndent \<Rightarrow> Some (if flat_mode p then p else p\<lparr>indent := indent p + 4\<rparr>)
      | EndConditionalIndent \<Rightarrow> Some (if flat_mode p then p else p\<lparr>indent := indent p - 4\<rparr>)
      | StartFlat \<Rightarrow> Some (p\<lparr>modes := True # modes p\<rparr>)
      | EndFlat \<Rightarrow> Some (p\<lparr>modes := tl (modes p)\<rparr>)
      | SoftLine flat \<Rightarrow> Some (if flat_mode p then write_text p flat else newline p False)
      | HardLine \<Rightarrow> Some (newline p False)
      | BlankLine \<Rightarrow> Some (newline p True)
      | LineSuffix a b leading_space \<Rightarrow>
          let p = (if leading_space then write_text p [32] else p)
          in map_option (\<lambda>t. (write_text p t)\<lparr>preserve_line_end := True\<rparr>) (str_slice (source p) a b)
      | ModeText flat broken \<Rightarrow> Some (write_text p (if flat_mode p then flat else broken)))"

fun print_from :: "printer \<Rightarrow> nat \<Rightarrow> command list \<Rightarrow> printer option" where
  "print_from p i [] = Some p"
| "print_from p i (c # cs) =
     (case print_command (p\<lparr>stats := (stats p)\<lparr>printing_visits := printing_visits (stats p) + 1\<rparr>\<rparr>) i c of
        None \<Rightarrow> None
      | Some p' \<Rightarrow> print_from p' (Suc i) cs)"

definition finish_output :: "str \<Rightarrow> str" where
  "finish_output s = (let s = trim_end (\<lambda>b. b = 10) s in if s = [] then [] else s @ [10])"

definition printer_print :: "printer \<Rightarrow> (str \<times> print_stats) option" where
  "printer_print p =
     (case print_from p 0 (commands p) of
        None \<Rightarrow> None
      | Some p' \<Rightarrow> if modes p' = [] then Some (finish_output (out p'), stats p') else None)"

definition document_print :: "str \<Rightarrow> command list \<Rightarrow> (str \<times> print_stats) option" where
  "document_print src cs = (case printer_new src cs of None \<Rightarrow> None | Some p \<Rightarrow> printer_print p)"

section \<open>Widths\<close>

lemma scalar_width_append [simp]: "scalar_width (s @ t) = scalar_width s + scalar_width t"
  by (simp add: scalar_width_def)

lemma capped_from_eq:
  "w \<le> MAX_COLUMNS + 1 \<Longrightarrow>
   capped_from (w, nl) t = (min (w + scalar_width t) (MAX_COLUMNS + 1), nl \<or> 10 \<in> set t)"
  by (induction t arbitrary: w nl) (auto simp: scalar_width_def)

lemma capped_width_eq: "capped_width t = (min (scalar_width t) (MAX_COLUMNS + 1), 10 \<in> set t)"
  by (simp add: capped_width_def capped_from_eq)

text \<open>The byte \<open>width | newline << 7\<close> gives both back.\<close>

lemma measure_byte:
  fixes w :: nat
  assumes "w < 128"
  shows "unat ((word_of_nat w OR (if nl then 0x80 else 0) :: u8) AND 0x7f) = w"
    and "(word_of_nat w OR (if nl then 0x80 else 0) :: u8) AND 0x80 \<noteq> 0 \<longleftrightarrow> nl"
proof -
  have small: "\<forall>x \<in> set [0..<128]. \<forall>b. unat ((word_of_nat x OR (if b then 0x80 else 0) :: u8) AND 0x7f) = x \<and>
      ((word_of_nat x OR (if b then 0x80 else 0) :: u8) AND 0x80 \<noteq> 0 \<longleftrightarrow> b)"
    by code_simp
  then show "unat ((word_of_nat w OR (if nl then 0x80 else 0) :: u8) AND 0x7f) = w"
    and "(word_of_nat w OR (if nl then 0x80 else 0) :: u8) AND 0x80 \<noteq> 0 \<longleftrightarrow> nl"
    using assms by auto
qed

section \<open>The tables\<close>

definition flat_stop :: "str \<Rightarrow> command \<Rightarrow> bool" where
  "flat_stop src c =
     (case command_measure src c of
        Some ((w, nl), _) \<Rightarrow> 0 < w \<or> nl \<or> hard_break c | None \<Rightarrow> False)"

definition broken_stop :: "str \<Rightarrow> command \<Rightarrow> bool" where
  "broken_stop src c =
     (case command_measure src c of
        Some (_, (w, nl)) \<Rightarrow> 0 < w \<or> nl \<or> hard_break c | None \<Rightarrow> False)"

text \<open>What \<open>printer_new\<close> establishes and printing never changes.\<close>

definition tables_ok :: "printer \<Rightarrow> bool" where
  "tables_ok p \<longleftrightarrow>
     (let n = length (commands p) in
        next_flat p ! n = n \<and> next_broken p ! n = n \<and>
        (\<forall>i < n. \<exists>w nl ew enl.
           command_measure (source p) (commands p ! i) = Some ((w, nl), (ew, enl)) \<and>
           flat_measure p ! i = word_of_nat w OR (if nl then 0x80 else 0) \<and>
           next_flat p ! i = (if flat_stop (source p) (commands p ! i) then i else next_flat p ! Suc i) \<and>
           next_broken p ! i = (if broken_stop (source p) (commands p ! i) then i else next_broken p ! Suc i)))"

lemma jump_tables_ok:
  "jump_tables src len i cs = Some (nf, nb, fm) \<Longrightarrow> len = i + length cs \<Longrightarrow>
   length nf = Suc (length cs) \<and> length nb = Suc (length cs) \<and> length fm = length cs \<and>
   nf ! length cs = len \<and> nb ! length cs = len \<and>
   (\<forall>j < length cs. \<exists>w nl ew enl.
      command_measure src (cs ! j) = Some ((w, nl), (ew, enl)) \<and>
      fm ! j = word_of_nat w OR (if nl then 0x80 else 0) \<and>
      nf ! j = (if flat_stop src (cs ! j) then i + j else nf ! Suc j) \<and>
      nb ! j = (if broken_stop src (cs ! j) then i + j else nb ! Suc j))"
proof (induction cs arbitrary: i nf nb fm)
  case Nil
  then show ?case by auto
next
  case (Cons c cs)
  from Cons.prems(1) obtain nf' nb' fm' w nl ew enl where
    r: "jump_tables src len (Suc i) cs = Some (nf', nb', fm')"
      "command_measure src c = Some ((w, nl), (ew, enl))"
      "nf = (if 0 < w \<or> nl \<or> hard_break c then i else hd nf') # nf'"
      "nb = (if 0 < ew \<or> enl \<or> hard_break c then i else hd nb') # nb'"
      "fm = (word_of_nat w OR (if nl then 0x80 else 0)) # fm'"
    by (auto split: option.splits prod.splits)
  note ih = Cons.IH [OF r(1)]
  have len: "len = Suc i + length cs" using Cons.prems(2) by simp
  then have ne: "nf' \<noteq> []" "nb' \<noteq> []" using ih by auto
  show ?case
  proof (intro conjI allI impI)
    show "length nf = Suc (length (c # cs))" "length nb = Suc (length (c # cs))" "length fm = length (c # cs)"
      "nf ! length (c # cs) = len" "nb ! length (c # cs) = len"
      using ih len r(3-5) by simp_all
    fix j assume j: "j < length (c # cs)"
    show "\<exists>w nl ew enl.
      command_measure src ((c # cs) ! j) = Some ((w, nl), (ew, enl)) \<and>
      fm ! j = word_of_nat w OR (if nl then 0x80 else 0) \<and>
      nf ! j = (if flat_stop src ((c # cs) ! j) then i + j else nf ! Suc j) \<and>
      nb ! j = (if broken_stop src ((c # cs) ! j) then i + j else nb ! Suc j)"
    proof (cases j)
      case 0
      have "hd nf' = nf' ! 0" "hd nb' = nb' ! 0" using ne by (simp_all add: hd_conv_nth)
      with 0 r show ?thesis by (simp add: flat_stop_def broken_stop_def)
    next
      case (Suc k)
      with j ih len obtain w nl ew enl where
        "command_measure src (cs ! k) = Some ((w, nl), (ew, enl))"
        "fm' ! k = word_of_nat w OR (if nl then 0x80 else 0)"
        "nf' ! k = (if flat_stop src (cs ! k) then Suc i + k else nf' ! Suc k)"
        "nb' ! k = (if broken_stop src (cs ! k) then Suc i + k else nb' ! Suc k)" by auto
      with Suc r(3-5) show ?thesis by simp
    qed
  qed
qed

lemma printer_new_Some:
  assumes "printer_new src cs = Some p"
  obtains ends nf nb fm where "jump_tables src (length cs) 0 cs = Some (nf, nb, fm)"
    "group_ends 0 cs [] (replicate (length cs) usize_max) = (ends, [])" "no_empty_group cs ends"
    "p = \<lparr>source = src, commands = cs, group_end = ends, next_flat = nf, next_broken = nb,
      flat_measure = fm, out = [], column = 0, indent = 0, line_start = True,
      modes = [], preserve_line_end = False,
      stats = \<lparr>preprocessing_visits = length cs, printing_visits = 0, fit_calls = 0,
               fits_events = 0, fit_jumps = 0, groups = 0\<rparr>\<rparr>"
  using assms unfolding printer_new_def Let_def
  by (auto split: prod.splits if_splits option.splits)

lemma printer_new_tables:
  assumes "printer_new src cs = Some p"
  shows "tables_ok p" "commands p = cs" "source p = src"
proof -
  from assms obtain ends nf nb fm where j: "jump_tables src (length cs) 0 cs = Some (nf, nb, fm)"
    and p: "p = \<lparr>source = src, commands = cs, group_end = ends, next_flat = nf, next_broken = nb,
      flat_measure = fm, out = [], column = 0, indent = 0, line_start = True,
      modes = [], preserve_line_end = False,
      stats = \<lparr>preprocessing_visits = length cs, printing_visits = 0, fit_calls = 0,
               fits_events = 0, fit_jumps = 0, groups = 0\<rparr>\<rparr>" by (rule printer_new_Some)
  show "tables_ok p"
    using jump_tables_ok [OF j add_0 [symmetric]] unfolding p tables_ok_def Let_def
    by (simp only: printer.simps add_0 simp_thms) blast
  show "commands p = cs" "source p = src" by (simp_all add: p)
qed

text \<open>What a probe of a command sees.\<close>

lemma command_measure_small:
  "command_measure src c = Some ((w, nl), (ew, enl)) \<Longrightarrow> w \<le> 101 \<and> ew \<le> 101"
  by (auto simp: command_measure_def capped_width_eq MAX_COLUMNS_def split: command.splits)

lemma tables_okE:
  assumes "tables_ok p" "i < length (commands p)"
  obtains w nl ew enl where
    "command_measure (source p) (commands p ! i) = Some ((w, nl), (ew, enl))"
    "measured p i = w" "measured_newline p i = nl"
    "next_flat p ! i = (if flat_stop (source p) (commands p ! i) then i else next_flat p ! Suc i)"
    "next_broken p ! i = (if broken_stop (source p) (commands p ! i) then i else next_broken p ! Suc i)"
proof -
  from assms obtain w nl ew enl where
    c: "command_measure (source p) (commands p ! i) = Some ((w, nl), (ew, enl))"
      "flat_measure p ! i = word_of_nat w OR (if nl then 0x80 else 0)"
      "next_flat p ! i = (if flat_stop (source p) (commands p ! i) then i else next_flat p ! Suc i)"
      "next_broken p ! i = (if broken_stop (source p) (commands p ! i) then i else next_broken p ! Suc i)"
    unfolding tables_ok_def Let_def by blast
  have "w < 128" using command_measure_small [OF c(1)] by simp
  with c(2) measure_byte [of w nl] have "measured p i = w" "measured_newline p i = nl"
    by (simp_all add: measured_def measured_newline_def)
  with c that show thesis by blast
qed

lemma probe_flat_skip:
  assumes "tables_ok p" "i < length (commands p)" "\<not> flat_stop (source p) (commands p ! i)"
  shows "probe_at p i False = Width 0"
proof -
  from assms(1,2) obtain w nl ew enl where
    c: "command_measure (source p) (commands p ! i) = Some ((w, nl), (ew, enl))"
      "measured p i = w" "measured_newline p i = nl" by (rule tables_okE)
  with assms(3) show ?thesis
    by (auto simp: flat_stop_def probe_at_def hard_break_def split: command.splits)
qed

lemma probe_broken_skip:
  assumes "tables_ok p" "i < length (commands p)" "\<not> broken_stop (source p) (commands p ! i)"
  shows "probe_at p i True = Width 0"
proof -
  from assms(1,2) obtain w nl ew enl where
    c: "command_measure (source p) (commands p ! i) = Some ((w, nl), (ew, enl))"
      "measured p i = w" "measured_newline p i = nl" by (rule tables_okE)
  with assms(3) show ?thesis
    by (auto simp: broken_stop_def probe_at_def hard_break_def command_measure_def
        split: command.splits option.splits)
qed

text \<open>A command the scan stops at stops it, or has a width.\<close>

lemma newline_width: "10 \<in> set t \<Longrightarrow> 0 < min (scalar_width t) (MAX_COLUMNS + 1)"
  by (auto simp: scalar_width_def starts_char_def filter_empty_conv MAX_COLUMNS_def intro!: bexI [of _ 10])

lemma command_measure_newline:
  assumes "command_measure src c = Some ((w, nl), (ew, enl))" "\<not> hard_break c"
  shows "nl \<Longrightarrow> 0 < w" "enl \<Longrightarrow> (\<And>t. c \<noteq> SoftLine t) \<Longrightarrow> 0 < ew"
  using assms newline_width
  by (cases c; auto simp: command_measure_def capped_width_eq hard_break_def split: option.splits)+

lemma probe_flat_stop:
  assumes "tables_ok p" "i < length (commands p)" "flat_stop (source p) (commands p ! i)"
    "probe_at p i False = Width w"
  shows "0 < w"
proof -
  from assms(1,2) obtain w' nl ew enl where
    c: "command_measure (source p) (commands p ! i) = Some ((w', nl), (ew, enl))"
      "measured p i = w'" "measured_newline p i = nl" by (rule tables_okE)
  have h: "\<not> hard_break (commands p ! i)"
    using assms(4) by (auto simp: hard_break_def probe_at_def)
  with command_measure_newline(1) [OF c(1) h] assms(3) c(1) have "0 < w'"
    by (auto simp: flat_stop_def)
  with assms(4) c show ?thesis
    by (cases "commands p ! i"; auto simp: probe_at_def command_measure_def split: if_splits)
qed

lemma probe_broken_stop:
  assumes "tables_ok p" "i < length (commands p)" "broken_stop (source p) (commands p ! i)"
    "probe_at p i True = Width w"
  shows "0 < w"
proof -
  from assms(1,2) obtain w' nl ew enl where
    c: "command_measure (source p) (commands p ! i) = Some ((w', nl), (ew, enl))"
      "measured p i = w'" "measured_newline p i = nl" by (rule tables_okE)
  have h: "\<not> hard_break (commands p ! i)" "\<And>t. commands p ! i \<noteq> SoftLine t"
    using assms(4) by (auto simp: hard_break_def probe_at_def)
  with command_measure_newline(2) [OF c(1) h(1)] assms(3) c(1) have "0 < ew"
    by (auto simp: broken_stop_def)
  with assms(4) c show ?thesis
    by (cases "commands p ! i"; auto simp: probe_at_def command_measure_def split: if_splits option.splits)
qed

section \<open>The two scans agree\<close>

lemma reference_probe:
  assumes "i < length (commands p)"
  shows "fits_reference_from p i stop r pos =
    (case probe_at p i (stop \<le> i) of
       Stop b \<Rightarrow> b
     | Width w \<Rightarrow>
         if w = 0 then fits_reference_from p (i + 1) stop r pos
         else if r < w \<or> MAX_COLUMNS + 1 < pos + 1 then False
         else fits_reference_from p (i + 1) stop (r - w) (pos + 1))"
  using assms
  by (subst fits_reference_from.simps) (cases "commands p ! i"; simp add: probe_at_def Let_def)

lemma reference_end: "length (commands p) \<le> i \<Longrightarrow> fits_reference_from p i stop r pos"
  by (subst fits_reference_from.simps) simp

text \<open>A jump of the flat table moves over commands of no effect, and lands on one it stops at.\<close>

lemma flat_jump:
  assumes "tables_ok p" "i \<le> length (commands p)"
  shows "i \<le> next_flat p ! i \<and> next_flat p ! i \<le> length (commands p) \<and>
    (next_flat p ! i < length (commands p) \<longrightarrow> flat_stop (source p) (commands p ! (next_flat p ! i))) \<and>
    (i < stop \<longrightarrow> fits_reference_from p i stop r pos =
       fits_reference_from p (if next_flat p ! i < stop then next_flat p ! i else stop) stop r pos)"
  using assms(2)
proof (induction "length (commands p) - i" arbitrary: i)
  case 0
  then have "i = length (commands p)" by simp
  moreover from this have "next_flat p ! i = length (commands p)"
    using assms(1) by (simp add: tables_ok_def Let_def)
  ultimately show ?case by (auto simp: reference_end)
next
  case (Suc d)
  then have i: "i < length (commands p)" by simp
  from assms(1) i have n: "next_flat p ! i =
      (if flat_stop (source p) (commands p ! i) then i else next_flat p ! Suc i)" by (rule tables_okE)
  show ?case
  proof (cases "flat_stop (source p) (commands p ! i)")
    case True
    with n i show ?thesis by simp
  next
    case False
    with n have ni: "next_flat p ! i = next_flat p ! Suc i" by simp
    have ih: "Suc i \<le> next_flat p ! Suc i \<and> next_flat p ! Suc i \<le> length (commands p) \<and>
      (next_flat p ! Suc i < length (commands p) \<longrightarrow> flat_stop (source p) (commands p ! (next_flat p ! Suc i))) \<and>
      (Suc i < stop \<longrightarrow> fits_reference_from p (Suc i) stop r pos =
         fits_reference_from p (if next_flat p ! Suc i < stop then next_flat p ! Suc i else stop) stop r pos)"
      using Suc.hyps(1) [of "Suc i"] Suc.hyps(2) i by simp
    have "fits_reference_from p i stop r pos = fits_reference_from p (Suc i) stop r pos" if "i < stop"
      using reference_probe [OF i] probe_flat_skip [OF assms(1) i False] that by simp
    moreover have "next_flat p ! Suc i < stop \<longrightarrow> Suc i < stop" using ih by simp
    ultimately show ?thesis
      using ih ni by (cases "Suc i < stop") (auto simp: not_less le_Suc_eq)
  qed
qed

lemma broken_jump:
  assumes "tables_ok p" "i \<le> length (commands p)"
  shows "i \<le> next_broken p ! i \<and> next_broken p ! i \<le> length (commands p) \<and>
    (next_broken p ! i < length (commands p) \<longrightarrow> broken_stop (source p) (commands p ! (next_broken p ! i))) \<and>
    (stop \<le> i \<longrightarrow> fits_reference_from p i stop r pos = fits_reference_from p (next_broken p ! i) stop r pos)"
  using assms(2)
proof (induction "length (commands p) - i" arbitrary: i)
  case 0
  then have "i = length (commands p)" by simp
  moreover from this have "next_broken p ! i = length (commands p)"
    using assms(1) by (simp add: tables_ok_def Let_def)
  ultimately show ?case by simp
next
  case (Suc d)
  then have i: "i < length (commands p)" by simp
  from assms(1) i have n: "next_broken p ! i =
      (if broken_stop (source p) (commands p ! i) then i else next_broken p ! Suc i)" by (rule tables_okE)
  show ?case
  proof (cases "broken_stop (source p) (commands p ! i)")
    case True
    with n i show ?thesis by simp
  next
    case False
    with n have ni: "next_broken p ! i = next_broken p ! Suc i" by simp
    have "length (commands p) - Suc i = d" "Suc i \<le> length (commands p)" using Suc.hyps(2) i by simp_all
    note ih = Suc.hyps(1) [of "Suc i", OF this(1) [symmetric] this(2)]
    have "fits_reference_from p i stop r pos = fits_reference_from p (Suc i) stop r pos" if "stop \<le> i"
      using reference_probe [OF i] probe_broken_skip [OF assms(1) i False] that by simp
    then show ?thesis using ih ni by auto
  qed
qed

text \<open>Counting leaves everything the scan looks at.\<close>

lemma tables_stats [simp]: "tables_ok (p\<lparr>stats := s\<rparr>) = tables_ok p"
  by (simp add: tables_ok_def)

lemma measured_stats [simp]:
  "measured (p\<lparr>stats := s\<rparr>) i = measured p i" "measured_newline (p\<lparr>stats := s\<rparr>) i = measured_newline p i"
  by (simp_all add: measured_def measured_newline_def)

lemma probe_stats [simp]: "probe_at (p\<lparr>stats := s\<rparr>) i b = probe_at p i b"
  by (cases "commands p ! i"; simp add: probe_at_def)

lemma reference_stats [simp]:
  "fits_reference_from (p\<lparr>stats := s\<rparr>) i stop r pos = fits_reference_from p i stop r pos"
proof (induction "length (commands p) - i" arbitrary: i r pos)
  case 0
  then show ?case by (simp add: reference_end)
next
  case (Suc d)
  then have i: "i < length (commands p)" "length (commands p) - (i + 1) = d" by simp_all
  note ih = Suc.hyps(1) [OF i(2) [symmetric]]
  from i show ?case by (simp add: reference_probe ih [simplified] split: probe.splits)
qed

lemma count_fields [simp]:
  "commands (count_jump p) = commands p" "commands (count_event p) = commands p"
  "tables_ok (count_jump p) = tables_ok p" "tables_ok (count_event p) = tables_ok p"
  "probe_at (count_jump p) i b = probe_at p i b" "probe_at (count_event p) i b = probe_at p i b"
  "fits_reference_from (count_jump p) i stop r pos = fits_reference_from p i stop r pos"
  "fits_reference_from (count_event p) i stop r pos = fits_reference_from p i stop r pos"
  by (simp_all add: count_jump_def count_event_def)

text \<open>
  The loop of \<open>fits_optimized\<close> from any place, with fuel for the commands left: it returns the
  answer of the plain scan, and counts at most one event per column left and one more, and at
  most one jump per event and one for each of the two tables.
\<close>

lemma fits_optimized_from_ok:
  assumes "tables_ok p" "length (commands p) - i < fuel" "pos + r \<le> MAX_COLUMNS"
  shows "\<exists>ev jumps. fits_optimized_from fuel p i stop r pos =
      Some (fits_reference_from p i stop r pos,
            p\<lparr>stats := (stats p)\<lparr>fits_events := fits_events (stats p) + ev, fit_jumps := fit_jumps (stats p) + jumps\<rparr>\<rparr>) \<and>
    ev \<le> r + 1 \<and> jumps \<le> r + (if i < stop then 2 else 1)"
  using assms
proof (induction fuel arbitrary: p i r pos)
  case 0
  then show ?case by simp
next
  case (Suc fuel)
  show ?case
  proof (cases "i < length (commands p)")
    case False
    then show ?thesis by (intro exI [of _ 0]) (simp add: reference_end)
  next
    case True
    let ?j = "if i < stop then (if next_flat p ! i < stop then next_flat p ! i else stop) else next_broken p ! i"
    define q where "q = count_jump p"
    note fj = flat_jump [OF Suc.prems(1), of i stop r pos] and bj = broken_jump [OF Suc.prems(1), of i stop r pos]
    have ref: "fits_reference_from p i stop r pos = fits_reference_from p ?j stop r pos"
      using fj bj True by (simp split: if_splits)
    have ij: "i \<le> ?j" using fj bj True by simp
    show ?thesis
    proof (cases "length (commands p) \<le> ?j")
      case c: True
      then have "fits_optimized_from (Suc fuel) p i stop r pos = Some (True, q)"
        using True by (simp add: Let_def q_def split: if_splits)
      moreover have "fits_reference_from p i stop r pos" using ref c by (simp add: reference_end)
      ultimately show ?thesis
        by (intro exI [of _ 0] exI [of _ 1]) (simp add: q_def count_jump_def)
    next
      case c: False
      define j where "j = ?j"
      have j: "i \<le> j" "j < length (commands p)" using ij c by (simp_all add: j_def)
      have fuel: "length (commands p) - Suc j < fuel" using Suc.prems(2) j by linarith
      have un: "fits_optimized_from (Suc fuel) p i stop r pos =
          (case probe_at p j (stop \<le> j) of
             Stop result \<Rightarrow> Some (result, q)
           | Width width \<Rightarrow>
               let p = (if 0 < width then count_event q else q);
                   positive = (if 0 < width then pos + 1 else pos)
               in if r < width then Some (False, p)
                  else if MAX_COLUMNS + 1 < positive then Some (False, p)
                  else fits_optimized_from fuel p (Suc j) stop (r - width) positive)"
        using True c unfolding j_def q_def
        by (subst fits_optimized_from.simps) (simp only: Let_def count_fields if_True if_False
            Suc_eq_plus1 not_True_eq_False)
      have ref: "fits_reference_from p i stop r pos = (case probe_at p j (stop \<le> j) of
           Stop b \<Rightarrow> b
         | Width w \<Rightarrow>
             if w = 0 then fits_reference_from p (Suc j) stop r pos
             else if r < w \<or> MAX_COLUMNS + 1 < pos + 1 then False
             else fits_reference_from p (Suc j) stop (r - w) (pos + 1))"
        using ref reference_probe [OF j(2), of stop r pos] by (simp only: j_def [symmetric] Suc_eq_plus1)
      show ?thesis
      proof (cases "probe_at p j (stop \<le> j)")
        case (Stop b)
        then show ?thesis
          using un ref by (intro exI [of _ 0] exI [of _ 1]) (simp add: q_def count_jump_def)
      next
        case (Width w)
        consider "r < w" | "w = 0" | "0 < w" "w \<le> r" by linarith
        then show ?thesis
        proof cases
          case 1
          then show ?thesis
            using un ref Width
            by (intro exI [of _ 1]) (simp add: q_def count_jump_def count_event_def Let_def)
        next
          case 2
          have stop: "i < stop" "j = stop"
          proof -
            have "\<not> stop \<le> i"
            proof
              assume s: "stop \<le> i"
              then have "broken_stop (source p) (commands p ! j)" "stop \<le> j"
                using bj True c j(1) by (auto simp: j_def)
              with probe_broken_stop [OF Suc.prems(1) j(2)] Width 2 show False by simp
            qed
            then show "i < stop" by simp
            show "j = stop"
            proof (rule ccontr)
              assume "j \<noteq> stop"
              then have "j < stop" "flat_stop (source p) (commands p ! j)"
                using fj c True \<open>i < stop\<close> by (auto simp: j_def split: if_splits)
              with probe_flat_stop [OF Suc.prems(1) j(2)] Width 2 show False by simp
            qed
          qed
          have "tables_ok q" "length (commands q) - Suc j < fuel"
            using Suc.prems(1) fuel by (simp_all add: q_def count_jump_def)
          from Suc.IH [OF this Suc.prems(3)] obtain ev jumps where
            "fits_optimized_from fuel q (Suc j) stop r pos =
              Some (fits_reference_from p (Suc j) stop r pos,
                q\<lparr>stats := (stats q)\<lparr>fits_events := fits_events (stats q) + ev, fit_jumps := fit_jumps (stats q) + jumps\<rparr>\<rparr>)"
            "ev \<le> r + 1" "jumps \<le> r + 1"
            using stop by (auto simp: q_def count_jump_def)
          then show ?thesis
            using un ref Width 2 stop Suc.prems(3)
            by (intro exI [of _ ev] exI [of _ "Suc jumps"]) (simp add: q_def count_jump_def Let_def)
        next
          case 3
          let ?q = "count_event q"
          have "tables_ok ?q" "length (commands ?q) - Suc j < fuel" "(pos + 1) + (r - w) \<le> MAX_COLUMNS"
            using Suc.prems(1,3) fuel 3 by (simp_all add: q_def count_jump_def count_event_def)
          from Suc.IH [OF this] obtain ev jumps where
            r: "fits_optimized_from fuel ?q (Suc j) stop (r - w) (pos + 1) =
              Some (fits_reference_from p (Suc j) stop (r - w) (pos + 1),
                ?q\<lparr>stats := (stats ?q)\<lparr>fits_events := fits_events (stats ?q) + ev, fit_jumps := fit_jumps (stats ?q) + jumps\<rparr>\<rparr>)"
            "ev \<le> r - w + 1" "jumps \<le> r - w + (if Suc j < stop then 2 else 1)"
            by (auto simp: q_def count_jump_def count_event_def)
          have "jumps + 1 \<le> r + (if i < stop then 2 else 1)"
            using r(3) 3 j(1) by (auto split: if_splits)
          then show ?thesis
            using un ref Width 3 Suc.prems(3) r(1,2)
            by (intro exI [of _ "Suc ev"] exI [of _ "Suc jumps"])
              (simp add: q_def count_jump_def count_event_def Let_def)
        qed
      qed
    qed
  qed
qed

section \<open>Printing keeps the tables and the counts\<close>

text \<open>What one command leaves alone: what was printed and the tables of the rest.\<close>

definition same_tables :: "printer \<Rightarrow> printer \<Rightarrow> bool" where
  "same_tables p q \<longleftrightarrow> source q = source p \<and> commands q = commands p \<and> group_end q = group_end p \<and>
     next_flat q = next_flat p \<and> next_broken q = next_broken p \<and> flat_measure q = flat_measure p"

lemma same_tables_refl [frame_simps]: "same_tables p p"
  by (simp add: same_tables_def)

lemma same_tables_trans: "same_tables p q \<Longrightarrow> same_tables q r \<Longrightarrow> same_tables p r"
  by (simp add: same_tables_def)

lemma same_tables_ok: "same_tables p q \<Longrightarrow> tables_ok q = tables_ok p"
  by (simp add: same_tables_def tables_ok_def)

lemma same_tables_measured:
  "same_tables p q \<Longrightarrow> measured q i = measured p i"
  "same_tables p q \<Longrightarrow> measured_newline q i = measured_newline p i"
  by (simp_all add: same_tables_def measured_def measured_newline_def)

lemma write_fields [simp, frame_simps]:
  "source (indent_line p) = source p" "commands (indent_line p) = commands p" "group_end (indent_line p) = group_end p" "next_flat (indent_line p) = next_flat p" "next_broken (indent_line p) = next_broken p"
  "flat_measure (indent_line p) = flat_measure p" "modes (indent_line p) = modes p" "indent (indent_line p) = indent p" "stats (indent_line p) = stats p"
  "source (write_text p t) = source p" "commands (write_text p t) = commands p" "group_end (write_text p t) = group_end p" "next_flat (write_text p t) = next_flat p" "next_broken (write_text p t) = next_broken p"
  "flat_measure (write_text p t) = flat_measure p" "modes (write_text p t) = modes p" "indent (write_text p t) = indent p" "stats (write_text p t) = stats p"
  "source (write_measured p i t) = source p" "commands (write_measured p i t) = commands p" "group_end (write_measured p i t) = group_end p" "next_flat (write_measured p i t) = next_flat p" "next_broken (write_measured p i t) = next_broken p"
  "flat_measure (write_measured p i t) = flat_measure p" "modes (write_measured p i t) = modes p" "indent (write_measured p i t) = indent p" "stats (write_measured p i t) = stats p"
  "source (newline p b) = source p" "commands (newline p b) = commands p" "group_end (newline p b) = group_end p" "next_flat (newline p b) = next_flat p" "next_broken (newline p b) = next_broken p"
  "flat_measure (newline p b) = flat_measure p" "modes (newline p b) = modes p" "indent (newline p b) = indent p" "stats (newline p b) = stats p"
  by (simp_all add: indent_line_def write_text_def write_measured_def newline_def Let_def)

lemma fits_ok:
  assumes "tables_ok p"
  shows "\<exists>ev jumps. fits p i stop = Some (fits_reference p i stop,
      p\<lparr>stats := (stats p)\<lparr>fit_calls := fit_calls (stats p) + 1, fits_events := fits_events (stats p) + ev,
                          fit_jumps := fit_jumps (stats p) + jumps\<rparr>\<rparr>) \<and>
    ev \<le> MAX_COLUMNS + 1 \<and> jumps \<le> MAX_COLUMNS + 2"
proof -
  let ?p = "p\<lparr>stats := (stats p)\<lparr>fit_calls := fit_calls (stats p) + 1\<rparr>\<rparr>"
  have t: "tables_ok ?p" using assms by simp
  have r: "0 + start_remaining ?p \<le> MAX_COLUMNS" by (simp add: start_remaining_def)
  have f: "length (commands ?p) - i < Suc (length (commands ?p) - i)" by simp
  from fits_optimized_from_ok [OF t f r, of stop] obtain ev jumps where
    o: "fits_optimized_from (Suc (length (commands ?p) - i)) ?p i stop (start_remaining ?p) 0 =
      Some (fits_reference_from ?p i stop (start_remaining ?p) 0,
        ?p\<lparr>stats := (stats ?p)\<lparr>fits_events := fits_events (stats ?p) + ev, fit_jumps := fit_jumps (stats ?p) + jumps\<rparr>\<rparr>)"
    "ev \<le> start_remaining ?p + 1" "jumps \<le> start_remaining ?p + (if i < stop then 2 else 1)" by blast
  have sr: "start_remaining ?p = start_remaining p" by (simp add: start_remaining_def)
  have "fits p i stop = Some (fits_reference_from ?p i stop (start_remaining ?p) 0,
        ?p\<lparr>stats := (stats ?p)\<lparr>fits_events := fits_events (stats ?p) + ev, fit_jumps := fit_jumps (stats ?p) + jumps\<rparr>\<rparr>)"
    using o(1) by (simp only: fits_def fits_optimized_def)
  moreover have "fits_reference_from ?p i stop (start_remaining ?p) 0 = fits_reference p i stop"
    by (simp only: sr fits_reference_def reference_stats)
  moreover have "ev \<le> MAX_COLUMNS + 1" "jumps \<le> MAX_COLUMNS + 2"
    using o(2,3) r by (auto split: if_splits)
  ultimately show ?thesis by (intro exI [of _ ev] exI [of _ jumps]) simp
qed

text \<open>The depth of the stack of modes, and the spans a command slices while it is printed.\<close>

definition depth_step :: "command \<Rightarrow> nat \<Rightarrow> nat" where
  "depth_step c d =
     (if c = StartGroup \<or> c = StartFlat then d + 1 else if c = EndGroup \<or> c = EndFlat then d - 1 else d)"

definition spans_ok :: "str \<Rightarrow> command \<Rightarrow> bool" where
  "spans_ok src c = (case c of Text a b \<Rightarrow> str_slice src a b \<noteq> None
                             | LineSuffix a b l \<Rightarrow> str_slice src a b \<noteq> None | _ \<Rightarrow> True)"

text \<open>One command: when it panics, and what it does to the tables, the modes and the counts.\<close>

definition counts_ok :: "print_stats \<Rightarrow> bool" where
  "counts_ok s \<longleftrightarrow> fits_events s \<le> (MAX_COLUMNS + 1) * fit_calls s \<and>
     fit_jumps s \<le> (MAX_COLUMNS + 2) * fit_calls s \<and> fit_calls s \<le> groups s \<and> groups s \<le> printing_visits s"

lemma print_command_None:
  assumes "tables_ok p"
  shows "print_command p i c = None \<longleftrightarrow> \<not> spans_ok (source p) c"
proof (cases c)
  case StartGroup
  let ?p = "p\<lparr>stats := (stats p)\<lparr>groups := groups (stats p) + 1\<rparr>\<rparr>"
  have "tables_ok ?p" using assms by simp
  from fits_ok [OF this, of "i + 1" "group_end p ! i"] StartGroup show ?thesis
    by (auto simp: print_command_def spans_ok_def Let_def)
qed (auto simp: print_command_def spans_ok_def Let_def write_text_def indent_line_def)

lemma print_command_frame:
  assumes "tables_ok p" "print_command p i c = Some q"
  shows "same_tables p q" "length (modes q) = depth_step c (length (modes p))"
proof -
  have "same_tables p q \<and> length (modes q) = depth_step c (length (modes p))"
  proof (cases c)
    case StartGroup
    let ?p = "p\<lparr>stats := (stats p)\<lparr>groups := groups (stats p) + 1\<rparr>\<rparr>"
    have "tables_ok ?p" using assms(1) by simp
    from fits_ok [OF this, of "i + 1" "group_end p ! i"] StartGroup assms(2) show ?thesis
      by (auto simp: print_command_def Let_def same_tables_def depth_step_def split: if_splits)
  next
    case (LineSuffix a b l)
    with assms(2) show ?thesis
      by (cases l; auto simp: print_command_def Let_def depth_step_def same_tables_def)
  qed (use assms(2) in \<open>auto simp: print_command_def depth_step_def same_tables_def split: if_splits\<close>)
  then show "same_tables p q" "length (modes q) = depth_step c (length (modes p))" by simp_all
qed

abbreviation visit :: "printer \<Rightarrow> printer" where
  "visit p \<equiv> p\<lparr>stats := (stats p)\<lparr>printing_visits := printing_visits (stats p) + 1\<rparr>\<rparr>"

text \<open>The counts are kept within their bounds: \<open>groups\<close> may be one short of the visits.\<close>

lemma print_command_counts:
  assumes "tables_ok p" "counts_ok (stats p)" "print_command (visit p) i c = Some q"
  shows "counts_ok (stats q)" "preprocessing_visits (stats q) = preprocessing_visits (stats p)"
    "printing_visits (stats q) = printing_visits (stats p) + 1"
proof -
  have "counts_ok (stats q) \<and> preprocessing_visits (stats q) = preprocessing_visits (stats p) \<and>
      printing_visits (stats q) = printing_visits (stats p) + 1"
  proof (cases c)
    case StartGroup
    let ?p = "(visit p)\<lparr>stats := (stats (visit p))\<lparr>groups := groups (stats (visit p)) + 1\<rparr>\<rparr>"
    have "tables_ok ?p" using assms(1) by simp
    from fits_ok [OF this, of "i + 1" "group_end p ! i"] obtain ev jumps where
      "fits ?p (i + 1) (group_end p ! i) = Some (fits_reference ?p (i + 1) (group_end p ! i),
        ?p\<lparr>stats := (stats ?p)\<lparr>fit_calls := fit_calls (stats ?p) + 1, fits_events := fits_events (stats ?p) + ev,
                          fit_jumps := fit_jumps (stats ?p) + jumps\<rparr>\<rparr>)"
      "ev \<le> MAX_COLUMNS + 1" "jumps \<le> MAX_COLUMNS + 2" by blast
    with StartGroup assms(2,3) show ?thesis
      by (auto simp: print_command_def Let_def counts_ok_def MAX_COLUMNS_def split: if_splits)
  next
    case (LineSuffix a b l)
    with assms(2,3) show ?thesis
      by (cases l; auto simp: print_command_def Let_def counts_ok_def)
  qed (use assms(2,3) in \<open>auto simp: print_command_def counts_ok_def split: if_splits\<close>)
  then show "counts_ok (stats q)" "preprocessing_visits (stats q) = preprocessing_visits (stats p)"
    "printing_visits (stats q) = printing_visits (stats p) + 1" by simp_all
qed

lemma print_from_ok:
  assumes "tables_ok p" "counts_ok (stats p)"
  shows "(print_from p i cs = None \<longleftrightarrow> \<not> list_all (spans_ok (source p)) cs) \<and>
    (\<forall>q. print_from p i cs = Some q \<longrightarrow> same_tables p q \<and> counts_ok (stats q) \<and>
       length (modes q) = fold depth_step cs (length (modes p)) \<and>
       preprocessing_visits (stats q) = preprocessing_visits (stats p) \<and>
       printing_visits (stats q) = printing_visits (stats p) + length cs)"
  using assms
proof (induction cs arbitrary: p i)
  case Nil
  then show ?case by (simp add: same_tables_refl)
next
  case (Cons c cs)
  have t: "tables_ok (visit p)" using Cons.prems(1) by simp
  note n = print_command_None [OF t, of i c]
  show ?case
  proof (cases "print_command (visit p) i c")
    case None
    with n show ?thesis by simp
  next
    case (Some p')
    have f: "same_tables p p'" "length (modes p') = depth_step c (length (modes p))"
      using print_command_frame [OF t Some] by (simp_all add: same_tables_def)
    note k = print_command_counts [OF Cons.prems Some]
    have t': "tables_ok p'" "source p' = source p"
      using same_tables_ok [OF f(1)] Cons.prems(1) f(1) by (simp_all add: same_tables_def)
    note ih = Cons.IH [OF t'(1) k(1), of "Suc i"]
    have "spans_ok (source p) c" using n Some by simp
    then show ?thesis
      using ih f k t'(2) Some same_tables_trans [OF f(1)] by auto
  qed
qed

lemma group_ends_length: "length (fst (group_ends i cs opened ends)) = length ends"
  by (induction cs arbitrary: i opened ends) (auto split: command.splits list.splits)

section \<open>The column\<close>

text \<open>The printer knows where it is: at the start of a line, or at the column of the last line.\<close>

definition column_ok :: "printer \<Rightarrow> bool" where
  "column_ok p \<longleftrightarrow>
     (if line_start p then out p = [] \<or> last (out p) = 10
      else column p = scalar_width (after_newline (out p)))"

lemma after_newline_append:
  "after_newline (s @ t) = (if 10 \<in> set t then after_newline t else after_newline s @ t)"
  by (auto simp: after_newline_def takeWhile_append)

lemma after_newline_end: "s = [] \<or> last s = 10 \<Longrightarrow> after_newline s = []"
  by (cases s rule: rev_cases) (auto simp: after_newline_def)

lemma scalar_width_spaces [simp]: "scalar_width (replicate n 32) = n"
  by (simp add: scalar_width_def starts_char_def)

lemma push_spaces_eq: "push_spaces s n = s @ replicate n 32"
proof (induction s n rule: push_spaces.induct)
  case (1 s left)
  show ?case
  proof (cases "0 < left")
    case True
    have "replicate (min left 64) (32 :: u8) @ replicate (left - min left 64) 32 = replicate left 32"
      by (simp add: replicate_add [symmetric])
    with True 1 [OF True refl] show ?thesis
      by (subst push_spaces.simps) (simp add: Let_def)
  qed (subst push_spaces.simps, simp)
qed

lemma indent_line_column:
  assumes "column_ok p"
  shows "\<not> line_start (indent_line p)" "column (indent_line p) = scalar_width (after_newline (out (indent_line p)))"
proof -
  show "\<not> line_start (indent_line p)" by (simp add: indent_line_def)
  show "column (indent_line p) = scalar_width (after_newline (out (indent_line p)))"
    using assms by (auto simp: indent_line_def column_ok_def push_spaces_eq after_newline_append after_newline_end)
qed

lemma write_text_column:
  assumes "column_ok p"
  shows "column_ok (write_text p t)"
proof (cases "t = []")
  case True
  with assms show ?thesis by (simp add: write_text_def)
next
  case False
  note i = indent_line_column [OF assms]
  show ?thesis
  proof (cases "10 \<in> set t")
    case True
    with False show ?thesis
      by (auto simp: write_text_def Let_def column_ok_def after_newline_append)
  next
    case n: False
    with False i show ?thesis
      by (simp add: write_text_def Let_def column_ok_def after_newline_append)
  qed
qed

lemma write_measured_column:
  assumes "column_ok p" and m: "measured p i = min (scalar_width t) (MAX_COLUMNS + 1)" "measured_newline p i = (10 \<in> set t)"
  shows "column_ok (write_measured p i t)"
proof (cases "measured_newline p i \<or> MAX_COLUMNS < measured p i \<or> t = []")
  case True
  then show ?thesis using write_text_column [OF assms(1)] by (simp add: write_measured_def)
next
  case False
  then have "measured p i = scalar_width t" "10 \<notin> set t" using m by auto
  moreover have "measured (indent_line p) i = measured p i" by (simp add: measured_def)
  ultimately show ?thesis using False indent_line_column [OF assms(1)]
    by (simp add: write_measured_def Let_def column_ok_def after_newline_append)
qed

lemma ends_with_newline: "ends_with s [10] \<longleftrightarrow> s \<noteq> [] \<and> last s = 10"
  by (cases s rule: rev_cases) (auto simp: ends_with_def)

lemma newline_column: "column_ok (newline p blank)"
  by (auto simp: newline_def Let_def column_ok_def ends_with_newline)

text \<open>The measure of the command being printed is the width of the text it writes.\<close>

lemma measured_command:
  assumes "tables_ok p" "i < length (commands p)"
  shows "commands p ! i = Text a b \<Longrightarrow> str_slice (source p) a b = Some t \<Longrightarrow>
      measured p i = min (scalar_width t) (MAX_COLUMNS + 1) \<and> measured_newline p i = (10 \<in> set t)"
    and "commands p ! i = Atom t \<Longrightarrow>
      measured p i = min (scalar_width t) (MAX_COLUMNS + 1) \<and> measured_newline p i = (10 \<in> set t)"
proof -
  from assms obtain w nl ew enl where
    c: "command_measure (source p) (commands p ! i) = Some ((w, nl), (ew, enl))"
      "measured p i = w" "measured_newline p i = nl" by (rule tables_okE)
  then show "commands p ! i = Text a b \<Longrightarrow> str_slice (source p) a b = Some t \<Longrightarrow>
      measured p i = min (scalar_width t) (MAX_COLUMNS + 1) \<and> measured_newline p i = (10 \<in> set t)"
    and "commands p ! i = Atom t \<Longrightarrow>
      measured p i = min (scalar_width t) (MAX_COLUMNS + 1) \<and> measured_newline p i = (10 \<in> set t)"
    by (auto simp: command_measure_def capped_width_eq)
qed

lemma column_ok_frame:
  "column_ok p \<Longrightarrow> column_ok (p\<lparr>stats := s\<rparr>)" "column_ok p \<Longrightarrow> column_ok (p\<lparr>modes := m\<rparr>)"
  "column_ok p \<Longrightarrow> column_ok (p\<lparr>indent := n\<rparr>)" "column_ok p \<Longrightarrow> column_ok (p\<lparr>preserve_line_end := b\<rparr>)"
  by (simp_all add: column_ok_def)

lemma print_command_column:
  assumes t: "tables_ok p" "i < length (commands p)" "commands p ! i = c"
    and ok: "column_ok p" and q: "print_command p i c = Some q"
  shows "column_ok q"
proof (cases c)
  case (Text a b)
  with q obtain s where "str_slice (source p) a b = Some s" "q = write_measured p i s"
    by (auto simp: print_command_def)
  with measured_command(1) [OF t(1,2), of a b s] t(3) Text ok show ?thesis
    by (simp add: write_measured_column)
next
  case (Atom s)
  with measured_command(2) [OF t(1,2), of s] t(3) ok q show ?thesis
    by (auto simp: print_command_def intro: write_measured_column)
next
  case StartGroup
  let ?p = "p\<lparr>stats := (stats p)\<lparr>groups := groups (stats p) + 1\<rparr>\<rparr>"
  have "tables_ok ?p" using t(1) by simp
  from fits_ok [OF this, of "i + 1" "group_end p ! i"] StartGroup q ok show ?thesis
    by (auto simp: print_command_def Let_def column_ok_def split: if_splits)
next
  case (LineSuffix a b l)
  with q ok show ?thesis
    by (cases l; auto simp: print_command_def Let_def intro!: column_ok_frame write_text_column)
qed (use q ok in \<open>auto simp: print_command_def Let_def intro!: column_ok_frame write_text_column newline_column
      split: if_splits\<close>)

lemma print_from_column:
  assumes "tables_ok p" "column_ok p" "i + length cs \<le> length (commands p)" "take (length cs) (drop i (commands p)) = cs"
    and "print_from p i cs = Some q"
  shows "column_ok q"
  using assms
proof (induction cs arbitrary: p i)
  case Nil
  then show ?case by simp
next
  case (Cons c cs)
  from Cons.prems(5) obtain p' where
    p': "print_command (visit p) i c = Some p'" "print_from p' (Suc i) cs = Some q"
    by (auto split: option.splits)
  have i: "i < length (commands p)" using Cons.prems(3) by simp
  then have d: "drop i (commands p) = commands p ! i # drop (Suc i) (commands p)"
    by (simp add: Cons_nth_drop_Suc)
  then have c: "commands p ! i = c" "take (length cs) (drop (Suc i) (commands p)) = cs"
    using Cons.prems(4) by simp_all
  have t: "tables_ok (visit p)" "i < length (commands (visit p))" "commands (visit p) ! i = c"
    using Cons.prems(1) i c(1) by simp_all
  have "column_ok p'"
    by (rule print_command_column [OF t _ p'(1)]) (simp add: Cons.prems(2) column_ok_frame)
  moreover have s: "same_tables p p'"
    using print_command_frame(1) [OF t(1) p'(1)] by (simp add: same_tables_def)
  ultimately show ?case
    using Cons.IH [of p' "Suc i"] p'(2) c(2) Cons.prems(1,3) same_tables_ok [OF s]
    by (simp add: same_tables_def)
qed

section \<open>Properties\<close>

text \<open>The document of the examples: \<open>f(a)\<close> as a group that may break inside the parentheses.\<close>

definition demo_source :: str where
  "demo_source = [102, 40, 97, 41]"

definition demo_commands :: "command list" where
  "demo_commands =
     [StartGroup, Text 0 2, StartIndent, SoftLine [], Text 2 3, EndIndent, SoftLine [], Atom [41], EndGroup]"

lemma jump_tables_None:
  "jump_tables src len i cs = None \<longleftrightarrow> (\<exists>c \<in> set cs. command_measure src c = None)"
proof (induction cs arbitrary: i)
  case (Cons c cs)
  from Cons [of "Suc i"] show ?case
    by (cases "jump_tables src len (Suc i) cs"; cases "command_measure src c") (auto split: prod.splits)
qed simp

lemma demo_new: "\<exists>p. printer_new demo_source demo_commands = Some p"
proof -
  have g: "group_ends 0 demo_commands [] (replicate (length demo_commands) usize_max) =
      ([8] @ replicate 8 usize_max, [])"
    by (simp add: demo_commands_def numeral_eq_Suc)
  have "content demo_commands 1 < content demo_commands 8"
    by (simp add: content_def present_def demo_commands_def)
  then have n: "no_empty_group demo_commands ([8] @ replicate 8 usize_max)"
    by (auto simp: no_empty_group_def list_all_iff nth_Cons split: nat.splits)
  have "jump_tables demo_source (length demo_commands) 0 demo_commands \<noteq> None"
    unfolding jump_tables_None
    by (simp add: command_measure_def demo_commands_def demo_source_def str_slice_def
        char_boundary_def utf8_cont_def)
  with g n show ?thesis by (auto simp: printer_new_def)
qed

lemma printer_new_start:
  assumes "printer_new src cs = Some p"
  shows "column_ok p" "counts_ok (stats p)" "modes p = []" "printing_visits (stats p) = 0"
    "preprocessing_visits (stats p) = length cs"
  using assms by (auto elim!: printer_new_Some simp: column_ok_def counts_ok_def)

lemma printer_print_None:
  assumes "printer_new src cs = Some p"
  shows "printer_print p = None \<longleftrightarrow> (\<exists>c \<in> set cs. \<not> spans_ok src c) \<or> fold depth_step cs 0 \<noteq> 0"
proof -
  note n = printer_new_tables [OF assms] printer_new_start [OF assms]
  from print_from_ok [OF n(1,5), of 0 cs] n(2,3,6) show ?thesis
    by (cases "print_from p 0 cs") (auto simp: printer_print_def list_all_iff simp flip: length_0_conv)
qed

lemma demo_spans: "\<forall>c \<in> set demo_commands. spans_ok demo_source c" "fold depth_step demo_commands 0 = 0"
  by (auto simp: demo_commands_def spans_ok_def demo_source_def str_slice_def char_boundary_def utf8_cont_def
      depth_step_def)

lemma demo_print:
  obtains p s st where "printer_new demo_source demo_commands = Some p"
    "document_print demo_source demo_commands = Some (s, st)"
proof -
  obtain p where p: "printer_new demo_source demo_commands = Some p" using demo_new by blast
  with printer_print_None [OF p] demo_spans obtain s st where "printer_print p = Some (s, st)" by auto
  with that p show thesis by (simp add: document_print_def)
qed

text \<open>C35. The jump tables lose nothing: wherever the printer stands in a document, \<open>fits_optimized\<close>
  returns, for any range, what the plain scan of the commands returns.\<close>

theorem fits_optimized_reference:
  assumes "printer_new src cs = Some p" "print_from p 0 (take k cs) = Some q"
  shows "\<exists>q'. fits_optimized q i stop = Some (fits_reference q i stop, q')"
proof -
  have t: "tables_ok q"
    using printer_new_tables(1) [OF assms(1)] printer_new_start(2) [OF assms(1)] print_from_ok [of p 0 "take k cs"]
      assms(2) same_tables_ok by blast
  have r: "0 + start_remaining q \<le> MAX_COLUMNS" by (simp add: start_remaining_def)
  have f: "length (commands q) - i < Suc (length (commands q) - i)" by simp
  from fits_optimized_from_ok [OF t f r, of stop] show ?thesis
    unfolding fits_optimized_def fits_reference_def by blast
qed

theorem fits_optimized_reference_witness:
  "\<exists>p q'. printer_new demo_source demo_commands = Some p \<and>
     fits_optimized p 1 8 = Some (fits_reference p 1 8, q')"
proof -
  obtain p where p: "printer_new demo_source demo_commands = Some p" using demo_new by blast
  have "print_from p 0 (take 0 demo_commands) = Some p" by simp
  from fits_optimized_reference [OF p this, of 1 8] p show ?thesis by blast
qed

text \<open>Printing is linear, however deep the groups are nested: every command is visited once before
  and once while printing, a fit is probed at most once per group, and one probe looks at no more
  than 101 texts and takes no more than 102 jumps.\<close>

lemma document_print_linear:
  assumes "document_print src cs = Some (s, st)"
  shows "preprocessing_visits st = length cs \<and> printing_visits st = length cs \<and>
    fit_calls st \<le> groups st \<and> groups st \<le> length cs \<and>
    fits_events st \<le> 101 * fit_calls st \<and> fit_jumps st \<le> 102 * fit_calls st"
proof -
  obtain p where p: "printer_new src cs = Some p" "printer_print p = Some (s, st)"
    using assms by (auto simp: document_print_def split: option.splits)
  note n = printer_new_tables [OF p(1)] printer_new_start [OF p(1)]
  obtain q where q: "print_from p 0 cs = Some q" "st = stats q"
    using p(2) n(2) by (auto simp: printer_print_def split: option.splits if_splits)
  from print_from_ok [OF n(1,5), of 0 cs] q n show ?thesis
    by (auto simp: counts_ok_def MAX_COLUMNS_def)
qed

text \<open>A document whose groups are balanced and not empty panics while printing exactly when a span
  of a text or of a line suffix is not a range of whole characters of the source, or its flat
  regions are not balanced.\<close>

lemma printer_print_panics:
  assumes "printer_new src cs = Some p"
  shows "printer_print p = None \<longleftrightarrow> (\<exists>c \<in> set cs. \<not> spans_ok src c) \<or> fold depth_step cs 0 \<noteq> 0"
  using assms by (rule printer_print_None)

lemma printer_print_panics_witness:
  "\<exists>p. printer_new demo_source demo_commands = Some p \<and> printer_print p \<noteq> None"
proof -
  obtain p where p: "printer_new demo_source demo_commands = Some p" using demo_new by blast
  from printer_print_panics [OF p] demo_spans p show ?thesis by auto
qed

lemma document_print_linear_witness:
  "\<exists>s st. document_print demo_source demo_commands = Some (s, st) \<and> printing_visits st = 9 \<and>
     fit_jumps st \<le> 102 * fit_calls st"
proof -
  obtain p s st where d: "document_print demo_source demo_commands = Some (s, st)" by (rule demo_print)
  have "length demo_commands = 9" by (simp add: demo_commands_def)
  with document_print_linear [OF d] d show ?thesis by auto
qed

text \<open>The output is empty, or ends with exactly one newline after a byte that is not one.\<close>

lemma document_print_shape:
  assumes "document_print src cs = Some (s, st)"
  shows "s = [] \<or> (\<exists>t. s = t @ [10] \<and> t \<noteq> [] \<and> last t \<noteq> 10)"
proof -
  obtain x where "s = finish_output x"
    using assms by (auto simp: document_print_def printer_print_def split: option.splits if_splits)
  moreover have "last (trim_end (\<lambda>b. b = 10) x) \<noteq> 10" if "trim_end (\<lambda>b. b = 10) x \<noteq> []"
  proof -
    have "dropWhile (\<lambda>b. b = 10) (rev x) \<noteq> []" using that by (simp add: trim_end_def)
    from hd_dropWhile [OF this] show ?thesis
      using that by (simp add: trim_end_def last_rev)
  qed
  ultimately show ?thesis by (auto simp: finish_output_def Let_def)
qed

lemma document_print_shape_witness:
  "\<exists>s st. document_print demo_source demo_commands = Some (s, st) \<and>
     (s = [] \<or> (\<exists>t. s = t @ [10] \<and> t \<noteq> [] \<and> last t \<noteq> 10))"
proof -
  obtain p s st where d: "document_print demo_source demo_commands = Some (s, st)" by (rule demo_print)
  with document_print_shape [OF d] show ?thesis by blast
qed

text \<open>The printer always knows its column: after any number of commands it is at the start of a
  line, or its column is the number of characters after the last newline it wrote.\<close>

lemma print_column:
  assumes "printer_new src cs = Some p" "print_from p 0 (take k cs) = Some q"
  shows "if line_start q then out q = [] \<or> last (out q) = 10
    else column q = scalar_width (after_newline (out q))"
proof -
  note n = printer_new_tables [OF assms(1)] printer_new_start [OF assms(1)]
  have "column_ok q"
    by (rule print_from_column [OF n(1,4) _ _ assms(2)]) (simp_all add: n(2) min_def)
  then show ?thesis by (simp add: column_ok_def)
qed

lemma print_column_witness:
  "\<exists>p q. printer_new demo_source demo_commands = Some p \<and> print_from p 0 (take 2 demo_commands) = Some q \<and>
     (if line_start q then out q = [] \<or> last (out q) = 10
      else column q = scalar_width (after_newline (out q)))"
proof -
  obtain p s st where p: "printer_new demo_source demo_commands = Some p" by (rule demo_print)
  note n = printer_new_tables [OF p] printer_new_start [OF p]
  have "list_all (spans_ok (source p)) (take 2 demo_commands)"
    using demo_spans(1) n(3) by (auto simp: list_all_iff dest: in_set_takeD)
  with print_from_ok [OF n(1,5), of 0 "take 2 demo_commands"] obtain q where
    q: "print_from p 0 (take 2 demo_commands) = Some q" by (cases "print_from p 0 (take 2 demo_commands)") auto
  from print_column [OF p q] p q show ?thesis by blast
qed

end
