(* ===== verification/Uleb.thy ===== *)
theory Uleb
  imports HdPrelude
begin

text \<open>
  The byte codecs of \<^verbatim>\<open>crates/hd_run/src/journal.rs\<close>: the unsigned LEB128 integers and the
  CRC-32 of a row. A decoder reads a byte string at a position and returns the value and the
  position after it, or \<open>None\<close>.
\<close>

unbundle bit_operations_syntax

section \<open>Unsigned LEB128\<close>

lemma unat_shr: "unat (drop_bit n (v :: 'a::len word)) = unat v div 2 ^ n"
proof -
  have "take_bit LENGTH('a) (unat v) = unat v"
    by (rule take_bit_nat_eq_self) (rule unsigned_less)
  then show ?thesis by (simp only: unsigned_drop_bit_eq) (simp only: drop_bit_eq_div)
qed

lemma drop_bit_less:
  fixes v :: "'a::len word"
  assumes "drop_bit (Suc n) v \<noteq> 0"
  shows "unat (drop_bit (Suc n) v) < unat v"
proof -
  have "0 < unat v" using assms by (cases "v = 0") (auto simp: unat_gt_0)
  moreover have "(1::nat) < 2 ^ Suc n" by (rule one_less_power) simp_all
  ultimately have "unat v div 2 ^ Suc n < unat v" by (intro div_less_dividend)
  then show ?thesis by (simp only: unat_shr)
qed

function put_uleb :: "u8 list \<Rightarrow> u64 \<Rightarrow> u8 list" where
  "put_uleb out v =
     (let byte = ucast (v AND 0x7f) :: u8; v' = drop_bit 7 v
      in if v' = 0 then out @ [byte] else put_uleb (out @ [byte OR 0x80]) v')"
  by pat_completeness auto
termination
  by (relation "measure (\<lambda>(out, v). unat v)") (use drop_bit_less [of 6] in auto)

declare put_uleb.simps [simp del]

text \<open>The number of significant bits: \<open>64 - v.leading_zeros()\<close>.\<close>

function bit_length :: "u64 \<Rightarrow> nat" where
  "bit_length v = (if v = 0 then 0 else Suc (bit_length (drop_bit 1 v)))"
  by pat_completeness auto
termination
proof (relation "measure unat")
  fix v :: u64
  assume "v \<noteq> 0"
  then have "0 < unat v" by (simp add: unat_gt_0)
  then show "(drop_bit 1 v, v) \<in> measure unat"
    by (simp only: in_measure unat_shr) simp
qed simp

declare bit_length.simps [simp del]

definition uleb_len :: "u64 \<Rightarrow> nat" where
  "uleb_len v = (bit_length (max v 1) + 6) div 7"

fun get_uleb_from :: "nat list \<Rightarrow> u8 list \<Rightarrow> nat \<Rightarrow> u64 \<Rightarrow> (u64 \<times> nat) option" where
  "get_uleb_from [] b at v = None"
| "get_uleb_from (shift # shifts) b at v =
     (case get_at b at of
        None \<Rightarrow> None
      | Some byte \<Rightarrow>
          let v = v OR push_bit shift (ucast (byte AND 0x7f))
          in if byte AND 0x80 = 0 then Some (v, at + 1) else get_uleb_from shifts b (at + 1) v)"

text \<open>\<open>(0..64).step_by(7)\<close>.\<close>

definition uleb_shifts :: "nat list" where
  "uleb_shifts = [0, 7, 14, 21, 28, 35, 42, 49, 56, 63]"

definition get_uleb :: "u8 list \<Rightarrow> nat \<Rightarrow> (u64 \<times> nat) option" where
  "get_uleb b at = get_uleb_from uleb_shifts b at 0"

section \<open>CRC-32\<close>

definition crc_bit :: "u32 \<Rightarrow> u32" where
  "crc_bit c = (if c AND 1 \<noteq> 0 then drop_bit 1 c XOR 0xEDB88320 else drop_bit 1 c)"

definition crc_table :: "u32 list" where
  "crc_table = map (\<lambda>i. (crc_bit ^^ 8) (word_of_nat i)) [0..<256]"

definition crc_step :: "u32 \<Rightarrow> u8 \<Rightarrow> u32" where
  "crc_step c b = crc_table ! unat ((c XOR ucast b) AND 0xff) XOR drop_bit 8 c"

definition crc32 :: "u8 list \<Rightarrow> u32" where
  "crc32 bytes = NOT (foldl crc_step (NOT 0) bytes)"

section \<open>Lemmas on LEB128\<close>

text \<open>The bytes of a number, and that writing appends them.\<close>

function uleb :: "u64 \<Rightarrow> u8 list" where
  "uleb v =
     (if drop_bit 7 v = 0 then [ucast (v AND 0x7f)]
      else (ucast (v AND 0x7f) OR 0x80) # uleb (drop_bit 7 v))"
  by pat_completeness auto
termination
  by (relation "measure unat") (use drop_bit_less [of 6] in auto)

declare uleb.simps [simp del]

lemma put_uleb_eq [codec_simps]: "put_uleb out v = out @ uleb v"
proof (induction out v rule: put_uleb.induct)
  case (1 out v)
  show ?case
    using 1 by (subst put_uleb.simps, subst uleb.simps) (simp add: Let_def)
qed

lemma bit_0x80: "bit (0x80 :: 'a::len word) n \<longleftrightarrow> n = 7 \<and> 7 < LENGTH('a)"
proof -
  have "bit (0x80 :: 'a word) n \<longleftrightarrow> bit (push_bit 7 1 :: 'a word) n" by simp
  also have "\<dots> \<longleftrightarrow> n = 7 \<and> 7 < LENGTH('a)" by (simp only: bit_push_bit_iff) (auto simp: bit_1_iff)
  finally show ?thesis .
qed

lemma bit_0x80_int: "bit (0x80 :: int) n \<longleftrightarrow> n = 7"
proof -
  have "bit (0x80 :: int) n \<longleftrightarrow> bit (push_bit 7 1 :: int) n" by simp
  also have "\<dots> \<longleftrightarrow> n = 7" by (simp only: bit_push_bit_iff) (auto simp: bit_1_iff)
  finally show ?thesis .
qed

lemma low7_byte:
  fixes v :: u64
  shows "ucast ((ucast (v AND 0x7f) :: u8) AND 0x7f) = v AND 0x7f"
    "(ucast (v AND 0x7f) :: u8) AND 0x80 = 0"
    "ucast (((ucast (v AND 0x7f) :: u8) OR 0x80) AND 0x7f) = v AND 0x7f"
    "((ucast (v AND 0x7f) :: u8) OR 0x80) AND 0x80 \<noteq> 0"
proof -
  have m: "(0x7f :: 'a::len word) = mask 7" by (simp add: mask_eq_exp_minus_1)
  note b = bit_0x80 bit_0x80_int
  show "ucast ((ucast (v AND 0x7f) :: u8) AND 0x7f) = v AND 0x7f"
    unfolding m by (rule bit_word_eqI) (auto simp: bit_simps)
  show "(ucast (v AND 0x7f) :: u8) AND 0x80 = 0"
    unfolding m by (rule bit_word_eqI) (auto simp: bit_simps b)
  show "ucast (((ucast (v AND 0x7f) :: u8) OR 0x80) AND 0x7f) = v AND 0x7f"
    unfolding m by (rule bit_word_eqI) (auto simp: bit_simps b)
  have "bit (((ucast (v AND 0x7f) :: u8) OR 0x80) AND 0x80) 7"
    by (simp add: bit_simps b)
  then show "((ucast (v AND 0x7f) :: u8) OR 0x80) AND 0x80 \<noteq> 0" by (intro notI) simp
qed

lemma split7: "(v :: u64) = (v AND 0x7f) OR push_bit 7 (drop_bit 7 v)"
proof -
  have m: "(0x7f :: u64) = mask 7" by (simp add: mask_eq_exp_minus_1)
  show ?thesis
    unfolding m
  proof (rule bit_word_eqI)
    fix n
    show "bit v n \<longleftrightarrow> bit ((v AND mask 7) OR push_bit 7 (drop_bit 7 v)) n" if "n < LENGTH(64)"
      using that by (cases "n < 7") (simp_all add: bit_simps not_less)
  qed
qed

lemma get_uleb_from_uleb:
  assumes "\<forall>i < length shifts. shifts ! i = s + 7 * i" "unat v < 2 ^ (7 * length shifts)" "shifts \<noteq> []"
  shows "get_uleb_from shifts (pre @ uleb v @ rest) (length pre) acc =
    Some (acc OR push_bit s v, length pre + length (uleb v))"
  using assms
proof (induction shifts arbitrary: s v pre acc)
  case Nil
  then show ?case by simp
next
  case (Cons sh shifts)
  have sh: "sh = s" using Cons.prems(1) by (auto dest: spec [of _ 0])
  show ?case
  proof (cases "drop_bit 7 v = 0")
    case True
    then have u: "uleb v = [ucast (v AND 0x7f)]" by (subst uleb.simps) simp
    have "v AND 0x7f = v" using split7 [of v] True by simp
    then show ?thesis
      using low7_byte(1,2) [of v] by (simp add: u sh get_at_def Let_def)
  next
    case False
    then have u: "uleb v = (ucast (v AND 0x7f) OR 0x80) # uleb (drop_bit 7 v)" by (subst uleb.simps) simp
    have ne: "shifts \<noteq> []"
    proof
      assume "shifts = []"
      with Cons.prems(2) have "unat v < 128" by simp
      then have "unat (drop_bit 7 v) = 0" by (simp only: unat_shr) simp
      with False show False by (simp only: unat_eq_zero)
    qed
    have sub: "\<forall>i < length shifts. shifts ! i = (s + 7) + 7 * i"
      using Cons.prems(1) by (auto dest: spec [of _ "Suc _"])
    have bound: "unat (drop_bit 7 v) < 2 ^ (7 * length shifts)"
    proof -
      have "unat v div 128 < 2 ^ (7 * length shifts)"
        using Cons.prems(2) by (intro less_mult_imp_div_less) (simp add: power_add mult.commute)
      then show ?thesis by (simp only: unat_shr) simp
    qed
    let ?byte = "ucast (v AND 0x7f) OR 0x80 :: u8"
    have "get_uleb_from (sh # shifts) (pre @ uleb v @ rest) (length pre) acc =
        get_uleb_from shifts ((pre @ [?byte]) @ uleb (drop_bit 7 v) @ rest) (length (pre @ [?byte]))
          (acc OR push_bit s (v AND 0x7f))"
      using low7_byte(3,4) [of v] by (simp add: u sh get_at_def Let_def)
    also have "\<dots> = Some ((acc OR push_bit s (v AND 0x7f)) OR push_bit (s + 7) (drop_bit 7 v),
        length (pre @ [?byte]) + length (uleb (drop_bit 7 v)))"
      by (rule Cons.IH [OF sub bound ne])
    also have "(acc OR push_bit s (v AND 0x7f)) OR push_bit (s + 7) (drop_bit 7 v) = acc OR push_bit s v"
    proof -
      have "push_bit s v = push_bit s (v AND 0x7f) OR push_bit (s + 7) (drop_bit 7 v)"
        by (subst split7) (simp only: push_bit_or push_bit_push_bit)
      then show ?thesis by (simp only: or.assoc)
    qed
    finally show ?thesis by (simp add: u)
  qed
qed

lemma get_uleb_uleb [codec_simps]:
  "get_uleb (pre @ uleb v @ rest) (length pre) = Some (v, length pre + length (uleb v))"
proof -
  have "unat v < 2 ^ 64" using unsigned_less [of v] by simp
  then have "unat v < 2 ^ (7 * length uleb_shifts)" by (simp add: uleb_shifts_def)
  moreover have "\<forall>i < length uleb_shifts. uleb_shifts ! i = 0 + 7 * i"
    by (auto simp: uleb_shifts_def less_Suc_eq numeral_eq_Suc)
  ultimately show ?thesis
    using get_uleb_from_uleb [of uleb_shifts 0 v pre rest 0] by (simp add: get_uleb_def uleb_shifts_def)
qed

lemma bit_length_drop: "drop_bit n v \<noteq> 0 \<Longrightarrow> bit_length v = n + bit_length (drop_bit n v)"
proof (induction n arbitrary: v)
  case (Suc n)
  have d: "drop_bit n (drop_bit 1 v) = drop_bit (Suc n) v" by (simp only: drop_bit_drop_bit) simp
  with Suc.prems have "v \<noteq> 0" "drop_bit n (drop_bit 1 v) \<noteq> 0" by auto
  with Suc.IH [OF this(2)] d show ?case by (subst bit_length.simps) simp
qed simp

lemma bit_length_le: "drop_bit n v = 0 \<Longrightarrow> bit_length v \<le> n"
proof (induction n arbitrary: v)
  case 0
  then show ?case by (simp add: bit_length.simps)
next
  case (Suc n)
  have "drop_bit n (drop_bit 1 v) = drop_bit (Suc n) v" by (simp only: drop_bit_drop_bit) simp
  with Suc have "bit_length (drop_bit 1 v) \<le> n" by simp
  then show ?case by (subst bit_length.simps) simp
qed

lemma bit_length_pos: "v \<noteq> 0 \<Longrightarrow> 0 < bit_length v"
  by (subst bit_length.simps) simp

lemma length_uleb: "length (uleb v) = uleb_len v"
proof -
  have pos: "length (uleb v) = (bit_length v + 6) div 7" if "v \<noteq> 0" for v
    using that
  proof (induction v rule: uleb.induct)
    case (1 v)
    show ?case
    proof (cases "drop_bit 7 v = 0")
      case True
      then have "0 < bit_length v" "bit_length v \<le> 7" using 1(2) bit_length_pos bit_length_le by auto
      then have "(bit_length v + 6) div 7 = 1" by simp
      with True show ?thesis by (subst uleb.simps) simp
    next
      case False
      with bit_length_drop [OF False] 1(1) show ?thesis by (subst uleb.simps) simp
    qed
  qed
  show ?thesis
  proof (cases "v = 0")
    case True
    have "bit_length 1 = 1" by (simp add: bit_length.simps [of 1] bit_length.simps [of 0])
    with True show ?thesis by (subst uleb.simps) (simp add: uleb_len_def)
  next
    case False
    then have "1 \<le> unat v" by (simp add: Suc_le_eq unat_gt_0)
    then have "1 \<le> v" by (simp add: word_le_nat_alt)
    then have "max v 1 = v" by (rule max_absorb1)
    with pos [OF False] show ?thesis by (simp add: uleb_len_def)
  qed
qed

lemma uleb_not_empty [simp]: "uleb v \<noteq> []"
  by (subst uleb.simps) simp

text \<open>Cut anywhere, a number does not read: every byte but the last says that more follow.\<close>

lemma get_uleb_from_cut:
  "n < length (uleb v) \<Longrightarrow> get_uleb_from shifts (pre @ take n (uleb v)) (length pre) acc = None"
proof (induction shifts arbitrary: v pre acc n)
  case (Cons sh shifts)
  show ?case
  proof (cases n)
    case 0
    then show ?thesis by (simp add: get_at_def)
  next
    case (Suc m)
    with Cons.prems have d: "drop_bit 7 v \<noteq> 0" by (subst (asm) uleb.simps) (auto split: if_splits)
    let ?byte = "ucast (v AND 0x7f) OR 0x80 :: u8"
    from d have u: "uleb v = ?byte # uleb (drop_bit 7 v)" by (subst uleb.simps) simp
    have "get_uleb_from (sh # shifts) (pre @ take n (uleb v)) (length pre) acc =
        get_uleb_from shifts ((pre @ [?byte]) @ take m (uleb (drop_bit 7 v))) (length (pre @ [?byte]))
          (acc OR push_bit sh (v AND 0x7f))"
      using low7_byte(3,4) [of v] Suc by (simp add: u get_at_def Let_def nth_append)
    also have "\<dots> = None" by (rule Cons.IH) (use Cons.prems Suc u in simp)
    finally show ?thesis .
  qed
qed simp

lemma get_uleb_cut: "n < length (uleb v) \<Longrightarrow> get_uleb (pre @ take n (uleb v)) (length pre) = None"
  unfolding get_uleb_def by (rule get_uleb_from_cut)

lemma get_uleb_advances: "get_uleb b at = Some (v, at') \<Longrightarrow> at < at' \<and> at' \<le> length b"
proof -
  have "get_uleb_from shifts b at acc = Some (v, at') \<Longrightarrow> at < at' \<and> at' \<le> length b" for shifts acc
  proof (induction shifts arbitrary: at acc)
    case (Cons sh shifts)
    then show ?case
      by (force simp: Let_def split: option.splits if_splits)
  qed simp
  then show "get_uleb b at = Some (v, at') \<Longrightarrow> at < at' \<and> at' \<le> length b"
    unfolding get_uleb_def .
qed

section \<open>Lemmas on the CRC\<close>

text \<open>
  One step of the table is eight steps of the shift register on the state with the byte mixed in:
  the register is linear over exclusive or, and on a state whose low byte is 0 it only shifts.
\<close>

lemma and_1_bit: "(c :: u32) AND 1 \<noteq> 0 \<longleftrightarrow> bit c 0"
  by (simp add: and_one_eq bit_0 mod_2_eq_odd)

lemma crc_bit_xor: "crc_bit (x XOR y) = crc_bit x XOR crc_bit y"
proof -
  have "\<not> (bit x 0 \<longleftrightarrow> bit y 0) \<longleftrightarrow> bit (x XOR y) 0" by (auto simp: bit_xor_iff)
  moreover have "drop_bit 1 (x XOR y) = drop_bit 1 x XOR drop_bit 1 y" by (rule drop_bit_xor)
  ultimately show ?thesis
    unfolding crc_bit_def and_1_bit
    by (cases "bit x 0"; cases "bit y 0") (simp_all add: ac_simps)
qed

lemma crc_bits_xor: "(crc_bit ^^ n) (x XOR y) = (crc_bit ^^ n) x XOR (crc_bit ^^ n) y"
  by (induction n arbitrary: x y) (simp_all add: crc_bit_xor)

lemma crc_bits_shift: "take_bit n y = 0 \<Longrightarrow> (crc_bit ^^ n) y = drop_bit n y"
proof (induction n arbitrary: y)
  case (Suc n)
  have b: "\<not> bit y i" if "i < Suc n" for i
    using Suc.prems that by (metis bit_0_eq bit_take_bit_iff bot_apply bot_bool_def)
  then have "crc_bit y = drop_bit 1 y" by (simp add: crc_bit_def and_1_bit)
  moreover have "take_bit n (drop_bit 1 y) = 0"
    by (rule bit_word_eqI) (use b in \<open>auto simp: bit_simps\<close>)
  moreover have "(crc_bit ^^ Suc n) y = (crc_bit ^^ n) (crc_bit y)" by (simp only: funpow_Suc_right o_apply)
  ultimately show ?case using Suc.IH by (simp add: drop_bit_drop_bit)
qed simp

lemma crc_step_register: "crc_step c b = (crc_bit ^^ 8) (c XOR ucast b)"
proof -
  let ?x = "c XOR ucast b :: u32"
  let ?i = "unat (?x AND 0xff)"
  have m: "(0xff :: u32) = mask 8" by (simp add: mask_eq_exp_minus_1)
  have i: "?i < 256"
  proof -
    have "?x AND 0xff < 2 ^ 8" unfolding m by (rule and_mask_less') simp
    then show ?thesis by (simp add: word_less_nat_alt)
  qed
  then have t: "crc_table ! ?i = (crc_bit ^^ 8) (?x AND 0xff)"
    by (simp add: crc_table_def)
  have x: "?x = (?x AND 0xff) XOR push_bit 8 (drop_bit 8 c)"
    unfolding m
  proof (rule bit_word_eqI)
    fix n
    assume "n < LENGTH(32)"
    then show "bit ?x n \<longleftrightarrow> bit ((?x AND mask 8) XOR push_bit 8 (drop_bit 8 c)) n"
      by (cases "n < 8") (auto simp: bit_simps not_less dest: bit_imp_le_length)
  qed
  have "(crc_bit ^^ 8) (push_bit 8 (drop_bit 8 c)) = drop_bit 8 c"
  proof -
    have "take_bit 8 (push_bit 8 (drop_bit 8 c)) = 0" by (rule bit_word_eqI) (auto simp: bit_simps)
    then have "(crc_bit ^^ 8) (push_bit 8 (drop_bit 8 c)) = drop_bit 8 (push_bit 8 (drop_bit 8 c))"
      by (rule crc_bits_shift)
    also have "\<dots> = drop_bit 8 c" by (rule bit_word_eqI) (auto simp: bit_simps dest: bit_imp_le_length)
    finally show ?thesis .
  qed
  then have "(crc_bit ^^ 8) ((?x AND 0xff) XOR push_bit 8 (drop_bit 8 c)) = crc_step c b"
    by (simp only: crc_bits_xor crc_step_def t)
  with x show ?thesis by simp
qed

text \<open>The register loses nothing, so neither does a step in its state or in its byte.\<close>

lemma xor_cancel: "c XOR a = c XOR b \<longleftrightarrow> a = (b :: u32)"
proof
  assume "c XOR a = c XOR b"
  then have "c XOR (c XOR a) = c XOR (c XOR b)" by simp
  then show "a = b" by (simp only: xor.assoc [symmetric] xor_self_eq xor.left_neutral)
qed simp

lemma crc_bit_inject: "crc_bit x = crc_bit y \<longleftrightarrow> x = y"
proof
  assume e: "crc_bit x = crc_bit y"
  have top: "bit (crc_bit c) 31 \<longleftrightarrow> bit c 0" for c
    using bit_imp_le_length [of c 32] by (auto simp: crc_bit_def and_1_bit bit_simps)
  from e top have l: "bit x 0 \<longleftrightarrow> bit y 0" by metis
  with e have d: "drop_bit 1 x = drop_bit 1 y"
    unfolding crc_bit_def and_1_bit
    by (cases "bit y 0") (simp_all add: xor_cancel [of "0xEDB88320", simplified xor.commute])
  show "x = y"
  proof (rule bit_word_eqI)
    fix n
    show "bit x n \<longleftrightarrow> bit y n"
    proof (cases n)
      case 0
      with l show ?thesis by simp
    next
      case (Suc m)
      then show ?thesis using arg_cong [OF d, of "\<lambda>z. bit z m"] by (simp add: bit_drop_bit_eq)
    qed
  qed
qed simp

lemma crc_bits_inject: "(crc_bit ^^ n) x = (crc_bit ^^ n) y \<longleftrightarrow> x = y"
  by (induction n arbitrary: x y) (simp_all add: crc_bit_inject)

lemma crc_step_inject_state: "crc_step c b = crc_step d b \<longleftrightarrow> c = d"
  unfolding crc_step_register crc_bits_inject
  using xor_cancel [of "ucast b" c d] by (simp only: xor.commute)

lemma crc_step_inject_byte: "crc_step c a = crc_step c b \<longleftrightarrow> a = b"
proof
  assume "crc_step c a = crc_step c b"
  then have "(ucast a :: u32) = ucast b"
    unfolding crc_step_register crc_bits_inject xor_cancel .
  then have "unat (ucast a :: u32) = unat (ucast b :: u32)" by simp
  moreover have "unat (ucast x :: u32) = unat x" for x :: u8
  proof -
    have "unat x < (2 :: nat) ^ 8" using unsigned_less [of x] by simp
    then show ?thesis by (simp add: unsigned_ucast_eq take_bit_nat_eq_self)
  qed
  ultimately show "a = b" by (simp add: word_unat_eq_iff)
qed simp

lemma foldl_crc_inject: "foldl crc_step c bs = foldl crc_step d bs \<longleftrightarrow> c = d"
  by (induction bs arbitrary: c d) (simp_all add: crc_step_inject_state)

lemma crc32_one_byte: "a \<noteq> b \<Longrightarrow> crc32 (pre @ a # post) \<noteq> crc32 (pre @ b # post)"
  by (simp add: crc32_def foldl_crc_inject crc_step_inject_byte)

section \<open>Properties\<close>

text \<open>A 64-bit number written in base 128 is read back from inside any byte string, the reader stops
  right after it, and the number of bytes is what \<open>uleb_len\<close> computed from the bit length.\<close>

lemma uleb_round_trip:
  "get_uleb (put_uleb pre v @ rest) (length pre) = Some (v, length (put_uleb pre v)) \<and>
   length (put_uleb pre v) = length pre + uleb_len v"
  using get_uleb_uleb [of pre v rest] by (simp add: put_uleb_eq length_uleb)

end
