(* ===== verification/Journal.thy ===== *)
theory Journal
  imports Uleb "HOL-Library.Monad_Syntax"
begin

text \<open>
  \<^verbatim>\<open>crates/hd_run/src/journal.rs\<close>: the rows of an execution journal, their framing, the reader
  that stops at the first torn or corrupt row, the payload of each row kind, and the \<open>Recorder\<close>.
  An \<open>i64\<close> or \<open>i32\<close> is the word of its bits; a length is a natural number, and \<open>as u64\<close> its word.
  The digests of requests, source texts and modules (the external xxh3) are the parameters
  \<open>digest\<close> and \<open>hash128\<close>.
\<close>

unbundle bit_operations_syntax

section \<open>Rows\<close>

datatype row_kind = KHeader | KInput | KCall | KFinish | KWake | KBlock | KAbort | KCancel | KEnd

text \<open>\<open>RowKind::ALL\<close>; \<open>kind as u8\<close> is the position.\<close>

definition all_kinds :: "row_kind list" where
  "all_kinds = [KHeader, KInput, KCall, KFinish, KWake, KBlock, KAbort, KCancel, KEnd]"

fun kind_byte :: "row_kind \<Rightarrow> u8" where
  "kind_byte KHeader = 0"
| "kind_byte KInput = 1"
| "kind_byte KCall = 2"
| "kind_byte KFinish = 3"
| "kind_byte KWake = 4"
| "kind_byte KBlock = 5"
| "kind_byte KAbort = 6"
| "kind_byte KCancel = 7"
| "kind_byte KEnd = 8"

record row =
  rkind :: row_kind
  rindex :: u64
  payload :: "u8 list"

definition FORMAT :: u64 where
  "FORMAT = 1"

definition append_parts :: "u8 list \<Rightarrow> row_kind \<Rightarrow> u64 \<Rightarrow> u8 list \<Rightarrow> u8 list" where
  "append_parts out k index pl =
     (let start = length out;
          out = out @ [kind_byte k];
          out = put_uleb out index;
          out = put_uleb out (word_of_nat (length pl));
          out = out @ pl;
          crc = crc32 (drop start out)
      in out @ le_bytes 4 crc)"

definition append_row :: "u8 list \<Rightarrow> row \<Rightarrow> u8 list" where
  "append_row out r = append_parts out (rkind r) (rindex r) (payload r)"

text \<open>
  The closure of \<open>read\<close> for the row whose kind byte \<open>k\<close> is at \<open>start\<close>: a row and the position after
  its payload, no row, or the overflow of \<open>at + len\<close>.
\<close>

datatype row_read = RowPanic | RowBad | RowOk row nat

definition parse_row :: "u8 list \<Rightarrow> nat \<Rightarrow> u8 \<Rightarrow> row_read" where
  "parse_row b start k =
     (case get_at all_kinds (unat k) of
        None \<Rightarrow> RowBad
      | Some kd \<Rightarrow>
     (case get_uleb b (start + 1) of
        None \<Rightarrow> RowBad
      | Some (index, at) \<Rightarrow>
     (case get_uleb b at of
        None \<Rightarrow> RowBad
      | Some (len, at) \<Rightarrow>
          if 2 ^ 64 \<le> at + unat len then RowPanic
          else
     (case get_range b at (at + unat len) of
        None \<Rightarrow> RowBad
      | Some pl \<Rightarrow>
     (case get_range b (at + unat len) (at + unat len + 4) of
        None \<Rightarrow> RowBad
      | Some c \<Rightarrow>
          if of_le_bytes c = crc32 (take (at + unat len - start) (drop start b))
          then RowOk \<lparr>rkind = kd, rindex = index, payload = pl\<rparr> (at + unat len)
          else RowBad)))))"

lemma parse_row_advances: "parse_row b start k = RowOk r at \<Longrightarrow> start < at \<and> at < length b"
  by (auto simp: parse_row_def get_range_Some Let_def split: option.splits prod.splits if_splits
      dest!: get_uleb_advances)

function read_from :: "u8 list \<Rightarrow> nat \<Rightarrow> row list \<Rightarrow> (row list \<times> nat) option" where
  "read_from b at rows =
     (case get_at b at of
        None \<Rightarrow> Some (rows, at)
      | Some k \<Rightarrow>
          (case parse_row b at k of
             RowPanic \<Rightarrow> None
           | RowBad \<Rightarrow> Some (rows, at)
           | RowOk r at' \<Rightarrow>
               if rindex r = word_of_nat (length rows) then read_from b (at' + 4) (rows @ [r])
               else Some (rows, at)))"
  by pat_completeness auto
termination
  by (relation "measure (\<lambda>(b, at, rows). length b - at)") (auto dest!: parse_row_advances)

declare read_from.simps [simp del]

definition read :: "u8 list \<Rightarrow> (row list \<times> nat) option" where
  "read b = read_from b 0 []"

section \<open>Payloads\<close>

datatype rvalue = VVoid | VInt u64 | VF64 u64 | VPair u32 u32

fun value_tag :: "rvalue \<Rightarrow> u8" where
  "value_tag VVoid = 0"
| "value_tag (VInt _) = 1"
| "value_tag (VF64 _) = 2"
| "value_tag (VPair _ _) = 3"

datatype request = Args "u8 list" | Digest u64 u64

definition request_of :: "(u8 list \<Rightarrow> u64) \<Rightarrow> u8 list \<Rightarrow> request" where
  "request_of digest args =
     (if length args \<le> 8 then Args args else Digest (word_of_nat (length args)) (digest args))"

definition put_int_arg :: "u8 list \<Rightarrow> u64 \<Rightarrow> u8 list" where
  "put_int_arg args v = put_uleb args v"

definition put_float_arg :: "u8 list \<Rightarrow> u64 \<Rightarrow> u8 list" where
  "put_float_arg args bits = args @ le_bytes 8 bits"

datatype end_kind = EExit u8 | ETrapped | EStopped | ECancelled | EFailed

datatype event =
    EvHeader u64 u128
  | EvInput u32 u128 u128
  | EvCall str str request rvalue "u8 list option"
  | EvFinish u32 rvalue "u8 list option"
  | EvWake u64 "u32 list"
  | EvBlock "u32 list"
  | EvAbort u32
  | EvCancel u64
  | EvEnd end_kind

definition u32_of :: "u64 \<Rightarrow> u32 option" where
  "u32_of v = (if v < 2 ^ 32 then Some (ucast v) else None)"

text \<open>\<open>at.checked_add(len)\<close> and \<open>get\<close>: out of range and overflow are both \<open>None\<close>.\<close>

definition get_bytes :: "u8 list \<Rightarrow> nat \<Rightarrow> nat \<Rightarrow> (u8 list \<times> nat) option" where
  "get_bytes b at len =
     (if 2 ^ 64 \<le> at + len then None
      else map_option (\<lambda>bs. (bs, at + len)) (get_range b at (at + len)))"

definition get_u128 :: "u8 list \<Rightarrow> nat \<Rightarrow> (u128 \<times> nat) option" where
  "get_u128 b at = do { (bs, at) \<leftarrow> get_bytes b at 16; Some (of_le_bytes bs, at) }"

definition get_text :: "u8 list \<Rightarrow> nat \<Rightarrow> (str \<times> nat) option" where
  "get_text b at = do {
     (len, at) \<leftarrow> get_uleb b at;
     (bs, at) \<leftarrow> get_bytes b at (unat len);
     if utf8_valid bs then Some (bs, at) else None }"

fun get_handles_from :: "nat \<Rightarrow> u8 list \<Rightarrow> nat \<Rightarrow> (u32 list \<times> nat) option" where
  "get_handles_from 0 b at = Some ([], at)"
| "get_handles_from (Suc n) b at = do {
     (v, at) \<leftarrow> get_uleb b at;
     h \<leftarrow> u32_of v;
     (hs, at) \<leftarrow> get_handles_from n b at;
     Some (h # hs, at) }"

definition get_handles :: "u8 list \<Rightarrow> nat \<Rightarrow> (u32 list \<times> nat) option" where
  "get_handles b at = do { (n, at) \<leftarrow> get_uleb b at; get_handles_from (unat n) b at }"

definition get_reply :: "u8 list \<Rightarrow> nat \<Rightarrow> (rvalue \<times> u8 list option \<times> nat) option" where
  "get_reply b at = do {
     (tags, at) \<leftarrow> get_bytes b at 1;
     let tag = tags ! 0;
     (value, at) \<leftarrow>
       (if tag AND 3 = 0 then Some (VVoid, at)
        else if tag AND 3 = 1 then do { (v, at) \<leftarrow> get_uleb b at; Some (VInt v, at) }
        else if tag AND 3 = 2 then do { (bs, at) \<leftarrow> get_bytes b at 8; Some (VF64 (of_le_bytes bs), at) }
        else do { (s, at) \<leftarrow> get_uleb b at; (v, at) \<leftarrow> get_uleb b at; Some (VPair (ucast s) (ucast v), at) });
     if drop_bit 2 tag = 0 then Some (value, None, at)
     else if drop_bit 2 tag = 1 then do {
       (len, at) \<leftarrow> get_uleb b at;
       (bs, at) \<leftarrow> get_bytes b at (unat len);
       Some (value, Some bs, at) }
     else None }"

type_synonym methods = "(str \<times> str) list"

text \<open>\<open>decode_row\<close>: the event and the methods named so far; the payload must be used up.\<close>

definition decode_payload :: "row_kind \<Rightarrow> u8 list \<Rightarrow> methods \<Rightarrow> (event \<times> methods \<times> nat) option" where
  "decode_payload k b ms =
     (case k of
        KHeader \<Rightarrow> do {
          (format, at) \<leftarrow> get_uleb b 0; (execution, at) \<leftarrow> get_u128 b at;
          Some (EvHeader format execution, ms, at) }
      | KInput \<Rightarrow> do {
          (v, at) \<leftarrow> get_uleb b 0; number \<leftarrow> u32_of v;
          (source, at) \<leftarrow> get_u128 b at; (module, at) \<leftarrow> get_u128 b at;
          Some (EvInput number source module, ms, at) }
      | KCall \<Rightarrow> do {
          (method, at) \<leftarrow> get_uleb b 0;
          (ms, at) \<leftarrow> (if unat method = length ms
                     then do { (module, at) \<leftarrow> get_text b at; (name, at) \<leftarrow> get_text b at;
                               Some (ms @ [(module, name)], at) }
                     else Some (ms, at));
          (module, name) \<leftarrow> get_at ms (unat method);
          (len, at) \<leftarrow> get_uleb b at;
          (request, at) \<leftarrow> (if len \<le> 8
                          then do { (bs, at) \<leftarrow> get_bytes b at (unat len); Some (Args bs, at) }
                          else do { (bs, at) \<leftarrow> get_bytes b at 8; Some (Digest len (of_le_bytes bs), at) });
          (val, result, at) \<leftarrow> get_reply b at;
          Some (EvCall module name request val result, ms, at) }
      | KFinish \<Rightarrow> do {
          (v, at) \<leftarrow> get_uleb b 0; handle \<leftarrow> u32_of v; (val, result, at) \<leftarrow> get_reply b at;
          Some (EvFinish handle val result, ms, at) }
      | KWake \<Rightarrow> do {
          (poll, at) \<leftarrow> get_uleb b 0; (handles, at) \<leftarrow> get_handles b at;
          Some (EvWake poll handles, ms, at) }
      | KBlock \<Rightarrow> do { (handles, at) \<leftarrow> get_handles b 0; Some (EvBlock handles, ms, at) }
      | KAbort \<Rightarrow> do { (v, at) \<leftarrow> get_uleb b 0; handle \<leftarrow> u32_of v; Some (EvAbort handle, ms, at) }
      | KCancel \<Rightarrow> do { (poll, at) \<leftarrow> get_uleb b 0; Some (EvCancel poll, ms, at) }
      | KEnd \<Rightarrow> do {
          (tags, at) \<leftarrow> get_bytes b 0 1;
          let tag = tags ! 0;
          (e, at) \<leftarrow>
            (if tag = 0 then do { (st, at) \<leftarrow> get_bytes b at 1; Some (EExit (st ! 0), at) }
             else if tag = 1 then Some (ETrapped, at)
             else if tag = 2 then Some (EStopped, at)
             else if tag = 3 then Some (ECancelled, at)
             else if tag = 4 then Some (EFailed, at)
             else None);
          Some (EvEnd e, ms, at) })"

definition decode_row :: "row \<Rightarrow> methods \<Rightarrow> (event \<times> methods) option" where
  "decode_row r ms = do {
     (ev, ms, at) \<leftarrow> decode_payload (rkind r) (payload r) ms;
     if at = length (payload r) then Some (ev, ms) else None }"

text \<open>\<open>decode\<close>: the events, or the index and kind of the first row that does not decode.\<close>

fun decode_from :: "methods \<Rightarrow> row list \<Rightarrow> (u64 \<times> row_kind) + event list" where
  "decode_from ms [] = Inr []"
| "decode_from ms (r # rs) =
     (case decode_row r ms of
        None \<Rightarrow> Inl (rindex r, rkind r)
      | Some (ev, ms) \<Rightarrow>
          (case decode_from ms rs of Inl e \<Rightarrow> Inl e | Inr evs \<Rightarrow> Inr (ev # evs)))"

definition decode :: "row list \<Rightarrow> (u64 \<times> row_kind) + event list" where
  "decode rows = decode_from [] rows"

definition put_reply :: "u8 list \<Rightarrow> rvalue \<Rightarrow> u8 list option \<Rightarrow> u8 list" where
  "put_reply out value result =
     (let out = out @ [value_tag value OR (if result \<noteq> None then 4 else 0)];
          out = (case value of
                   VVoid \<Rightarrow> out
                 | VInt v \<Rightarrow> put_uleb out v
                 | VF64 bits \<Rightarrow> out @ le_bytes 8 bits
                 | VPair st v \<Rightarrow> put_uleb (put_uleb out (ucast st)) (ucast v))
      in case result of
           None \<Rightarrow> out
         | Some bytes \<Rightarrow> put_uleb out (word_of_nat (length bytes)) @ bytes)"

fun put_uleb_all :: "u8 list \<Rightarrow> u32 list \<Rightarrow> u8 list" where
  "put_uleb_all out [] = out"
| "put_uleb_all out (h # hs) = put_uleb_all (put_uleb out (ucast h)) hs"

definition put_handles :: "u8 list \<Rightarrow> u32 list \<Rightarrow> u8 list" where
  "put_handles out handles = put_uleb_all (put_uleb out (word_of_nat (length handles))) handles"

section \<open>The recorder\<close>

datatype rec_state = On | Off bool

record recorder =
  bytes :: "u8 list"
  cap :: nat
  next_index :: u64
  sites :: "u32 list"
  named :: u32
  rowbuf :: "u8 list"
  polls :: u64
  rstate :: rec_state

text \<open>
  \<open>push\<close>. The counters are checked: \<open>None\<close> is the overflow panic of \<open>next += 1\<close>.
\<close>

definition push :: "row_kind \<Rightarrow> recorder \<Rightarrow> recorder option" where
  "push k r =
     (let len = length (rowbuf r);
          size = 1 + uleb_len (next_index r) + uleb_len (word_of_nat len) + len + 4
      in if cap r < length (bytes r) + size
         then Some (r\<lparr>rstate := Off False, bytes := [], sites := [], rowbuf := []\<rparr>)
         else if next_index r = - 1 then None
         else Some (r\<lparr>bytes := append_parts (bytes r) k (next_index r) (rowbuf r),
                      next_index := next_index r + 1, rowbuf := []\<rparr>))"

definition recorder_new :: "nat \<Rightarrow> u128 \<Rightarrow> recorder option" where
  "recorder_new c execution =
     push KHeader \<lparr>bytes = [], cap = c, next_index = 0, sites = [], named = 0,
                   rowbuf = put_uleb [] FORMAT @ le_bytes 16 execution, polls = 0, rstate = On\<rparr>"

definition rec_journal :: "recorder \<Rightarrow> u8 list option" where
  "rec_journal r = (if rstate r = On then Some (bytes r) else None)"

definition set_cap :: "nat \<Rightarrow> recorder \<Rightarrow> recorder" where
  "set_cap c r = r\<lparr>cap := c\<rparr>"

definition take_notice :: "recorder \<Rightarrow> bool \<times> recorder" where
  "take_notice r = (if rstate r = Off False then (True, r\<lparr>rstate := Off True\<rparr>) else (False, r))"

definition rec_call :: "(u8 list \<Rightarrow> u64) \<Rightarrow> nat \<Rightarrow> str \<Rightarrow> str \<Rightarrow> u8 list \<Rightarrow> rvalue \<Rightarrow> u8 list option \<Rightarrow>
    recorder \<Rightarrow> recorder option" where
  "rec_call digest site module name request value result r =
     (if rstate r \<noteq> On then Some r
      else
        let ss = (if length (sites r) \<le> site then sites r @ replicate (site + 1 - length (sites r)) 0 else sites r);
            n = ss ! site
        in if n = 0 \<and> named r = - 1 then None
           else
             let (row, ss, names) =
                   (if n = 0
                    then let row = put_uleb (rowbuf r) (ucast (named r));
                             row = put_uleb row (word_of_nat (length module)) @ module;
                             row = put_uleb row (word_of_nat (length name)) @ name
                         in (row, ss[site := named r + 1], named r + 1)
                    else (put_uleb (rowbuf r) (ucast (n - 1)), ss, named r));
                 row = put_uleb row (word_of_nat (length request));
                 row = (if length request \<le> 8 then row @ request else row @ le_bytes 8 (digest request));
                 row = put_reply row value result
             in push KCall (r\<lparr>sites := ss, named := names, rowbuf := row\<rparr>))"

definition rec_finish :: "u32 \<Rightarrow> rvalue \<Rightarrow> u8 list option \<Rightarrow> recorder \<Rightarrow> recorder option" where
  "rec_finish handle value result r =
     (if rstate r = On
      then push KFinish (r\<lparr>rowbuf := put_reply (put_uleb (rowbuf r) (ucast handle)) value result\<rparr>)
      else Some r)"

definition rec_block :: "u32 list \<Rightarrow> recorder \<Rightarrow> recorder option" where
  "rec_block handles r =
     (if rstate r = On then push KBlock (r\<lparr>rowbuf := put_handles (rowbuf r) handles\<rparr>) else Some r)"

definition rec_abort :: "u32 \<Rightarrow> recorder \<Rightarrow> recorder option" where
  "rec_abort handle r =
     (if rstate r = On then push KAbort (r\<lparr>rowbuf := put_uleb (rowbuf r) (ucast handle)\<rparr>) else Some r)"

definition rec_poll :: "recorder \<Rightarrow> recorder option" where
  "rec_poll r = (if polls r = - 1 then None else Some (r\<lparr>polls := polls r + 1\<rparr>))"

definition rec_wake :: "u32 list \<Rightarrow> recorder \<Rightarrow> recorder option" where
  "rec_wake handles r =
     (if rstate r = On
      then push KWake (r\<lparr>rowbuf := put_handles (put_uleb (rowbuf r) (polls r)) handles\<rparr>)
      else Some r)"

definition rec_cancel :: "recorder \<Rightarrow> recorder option" where
  "rec_cancel r =
     (if rstate r = On then push KCancel (r\<lparr>rowbuf := put_uleb (rowbuf r) (polls r)\<rparr>) else Some r)"

definition rec_input :: "(u8 list \<Rightarrow> u128) \<Rightarrow> u32 \<Rightarrow> u8 list \<Rightarrow> u8 list \<Rightarrow> recorder \<Rightarrow> recorder option" where
  "rec_input hash128 number source module r =
     (let r = r\<lparr>polls := 0\<rparr>
      in if rstate r = On
         then push KInput (r\<lparr>rowbuf := put_uleb (rowbuf r) (ucast number)
                               @ le_bytes 16 (hash128 source) @ le_bytes 16 (hash128 module)\<rparr>)
         else Some r)"

definition rec_end :: "end_kind \<Rightarrow> recorder \<Rightarrow> recorder option" where
  "rec_end e r =
     (if rstate r = On
      then push KEnd (r\<lparr>rowbuf := rowbuf r @
             (case e of EExit st \<Rightarrow> [0, st] | ETrapped \<Rightarrow> [1] | EStopped \<Rightarrow> [2] | ECancelled \<Rightarrow> [3] | EFailed \<Rightarrow> [4])\<rparr>)
      else Some r)"

section \<open>Frames\<close>

definition frame :: "row \<Rightarrow> u8 list" where
  "frame r =
     (let body = kind_byte (rkind r) # uleb (rindex r) @ uleb (word_of_nat (length (payload r))) @ payload r
      in body @ le_bytes 4 (crc32 body))"

lemma append_row_frame [codec_simps]: "append_row out r = out @ frame r"
  by (simp add: append_row_def append_parts_def frame_def put_uleb_eq Let_def)

lemma append_parts_frame [codec_simps]:
  "append_parts out k i pl = out @ frame \<lparr>rkind = k, rindex = i, payload = pl\<rparr>"
  using append_row_frame [of out "\<lparr>rkind = k, rindex = i, payload = pl\<rparr>"] by (simp add: append_row_def)

lemma length_frame:
  "length (frame r) = 1 + uleb_len (rindex r) + uleb_len (word_of_nat (length (payload r))) + length (payload r) + 4"
  by (simp add: frame_def Let_def length_uleb)

lemma kind_byte_get: "get_at all_kinds (unat (kind_byte k)) = Some k"
  by (cases k) (simp_all add: all_kinds_def get_at_def)

lemma get_range_mid: "get_range (pre @ mid @ rest) (length pre) (length pre + length mid) = Some mid"
  by (simp add: get_range_def)

lemma unat_word_of_nat: "n < 2 ^ LENGTH('a) \<Longrightarrow> unat (word_of_nat n :: 'a::len word) = n"
  by (simp add: unat_of_nat take_bit_nat_eq_self)

text \<open>A row reads back from inside a byte string, and one cut short does not read.\<close>

lemma parse_row_frame:
  assumes "length (pre @ frame r @ rest) < 2 ^ 64"
  shows "parse_row (pre @ frame r @ rest) (length pre) (kind_byte (rkind r)) =
    RowOk r (length pre + length (frame r) - 4)"
proof -
  let ?k = "kind_byte (rkind r)" and ?i = "uleb (rindex r)" and ?l = "uleb (word_of_nat (length (payload r)))"
  let ?body = "?k # ?i @ ?l @ payload r"
  let ?c = "le_bytes 4 (crc32 ?body)"
  let ?b = "pre @ frame r @ rest"
  have fr: "frame r = ?body @ ?c" by (simp add: frame_def Let_def)
  have len: "unat (word_of_nat (length (payload r)) :: u64) = length (payload r)"
    using assms by (intro unat_word_of_nat) (simp add: fr)
  have i: "get_uleb ?b (length pre + 1) = Some (rindex r, length (pre @ [?k] @ ?i))"
    using get_uleb_uleb [of "pre @ [?k]" "rindex r" "?l @ payload r @ ?c @ rest"] by (simp add: fr)
  have l: "get_uleb ?b (length (pre @ [?k] @ ?i)) =
      Some (word_of_nat (length (payload r)), length (pre @ [?k] @ ?i @ ?l))"
    using get_uleb_uleb [of "pre @ [?k] @ ?i" "word_of_nat (length (payload r))" "payload r @ ?c @ rest"]
    by (simp add: fr)
  let ?at = "length (pre @ [?k] @ ?i @ ?l)"
  have p: "get_range ?b ?at (?at + length (payload r)) = Some (payload r)"
    using get_range_mid [of "pre @ [?k] @ ?i @ ?l" "payload r" "?c @ rest"] by (simp add: fr)
  have c: "get_range ?b (?at + length (payload r)) (?at + length (payload r) + 4) = Some ?c"
    using get_range_mid [of "pre @ ?body" ?c rest] by (simp add: fr add.assoc)
  have body: "take (?at + length (payload r) - length pre) (drop (length pre) ?b) = ?body"
    by (simp add: fr)
  have over: "\<not> 2 ^ 64 \<le> ?at + length (payload r)" using assms by (simp add: fr)
  have crc: "of_le_bytes ?c = crc32 ?body" by (simp add: codec_simps)
  have fin: "?at + length (payload r) = length pre + length (frame r) - 4" by (simp add: fr)
  show ?thesis
    unfolding parse_row_def kind_byte_get option.case i l prod.case len p c body crc
    using over fin by simp
qed

lemma parse_row_cut:
  assumes "0 < n" "n < length (frame r)" "length (pre @ frame r) < 2 ^ 64"
  shows "parse_row (pre @ take n (frame r)) (length pre) (kind_byte (rkind r)) = RowBad"
proof -
  let ?k = "kind_byte (rkind r)" and ?i = "uleb (rindex r)" and ?l = "uleb (word_of_nat (length (payload r)))"
  let ?body = "?k # ?i @ ?l @ payload r"
  let ?c = "le_bytes 4 (crc32 ?body)"
  have fr: "frame r = ?k # ?i @ ?l @ payload r @ ?c" by (simp add: frame_def Let_def)
  have len: "unat (word_of_nat (length (payload r)) :: u64) = length (payload r)"
    using assms by (intro unat_word_of_nat) (simp add: fr)
  let ?b = "pre @ take n (frame r)"
  consider (index) "n < 1 + length ?i" | (len) "1 + length ?i \<le> n" "n < 1 + length ?i + length ?l"
    | (rest) "1 + length ?i + length ?l \<le> n" by linarith
  then show ?thesis
  proof cases
    case index
    then have "?b = (pre @ [?k]) @ take (n - 1) ?i"
      using assms(1) by (cases n) (simp_all add: fr)
    then have "get_uleb ?b (length pre + 1) = None"
      using get_uleb_cut [of "n - 1" "rindex r" "pre @ [?k]"] index assms(1) by simp
    then show ?thesis by (simp add: parse_row_def kind_byte_get)
  next
    case len
    then have b: "?b = (pre @ [?k] @ ?i) @ take (n - 1 - length ?i) ?l"
      by (cases n) (simp_all add: fr)
    have "get_uleb ?b (length pre + 1) = Some (rindex r, length (pre @ [?k] @ ?i))"
      using get_uleb_uleb [of "pre @ [?k]" "rindex r" "take (n - 1 - length ?i) ?l"] by (simp add: b)
    moreover have "get_uleb ?b (length (pre @ [?k] @ ?i)) = None"
      using get_uleb_cut [of "n - 1 - length ?i" "word_of_nat (length (payload r))" "pre @ [?k] @ ?i"] len b
      by simp
    ultimately show ?thesis by (simp add: parse_row_def kind_byte_get)
  next
    case rest
    let ?m = "n - 1 - length ?i - length ?l"
    have b: "?b = (pre @ [?k] @ ?i @ ?l) @ take ?m (payload r @ ?c)"
      using rest by (cases n) (simp_all add: fr)
    have i: "get_uleb ?b (length pre + 1) = Some (rindex r, length (pre @ [?k] @ ?i))"
      using get_uleb_uleb [of "pre @ [?k]" "rindex r" "?l @ take ?m (payload r @ ?c)"] by (simp add: b)
    have l: "get_uleb ?b (length (pre @ [?k] @ ?i)) =
        Some (word_of_nat (length (payload r)), length (pre @ [?k] @ ?i @ ?l))"
      using get_uleb_uleb [of "pre @ [?k] @ ?i" "word_of_nat (length (payload r))" "take ?m (payload r @ ?c)"]
      by (simp add: b)
    let ?at = "length (pre @ [?k] @ ?i @ ?l)"
    have short: "length ?b < ?at + length (payload r) + 4"
      using assms(2) rest by (simp add: b) (simp add: fr)
    then have c: "get_range ?b (?at + length (payload r)) (?at + length (payload r) + 4) = None"
      by (simp add: get_range_None)
    have over: "\<not> 2 ^ 64 \<le> ?at + length (payload r)" using assms(3) by (simp add: fr)
    show ?thesis
      unfolding parse_row_def kind_byte_get option.case i l prod.case len c
      using over by (auto split: option.splits)
  qed
qed

section \<open>Reading a journal\<close>

definition frames :: "row list \<Rightarrow> u8 list" where
  "frames rs = concat (map frame rs)"

lemma frames_simps [simp]: "frames [] = []" "frames (r # rs) = frame r @ frames rs"
  "frames (rs @ rs') = frames rs @ frames rs'"
  by (simp_all add: frames_def)

lemma frame_not_empty: "0 < length (frame r)" "4 < length (frame r)" "frame r ! 0 = kind_byte (rkind r)"
  by (simp_all add: frame_def Let_def)

text \<open>Rows are numbered from \<open>n\<close>.\<close>

fun numbered :: "nat \<Rightarrow> row list \<Rightarrow> bool" where
  "numbered n [] = True"
| "numbered n (r # rs) = (rindex r = word_of_nat n \<and> numbered (Suc n) rs)"

lemma numbered_append: "numbered n (rs @ rs') = (numbered n rs \<and> numbered (n + length rs) rs')"
  by (induction rs arbitrary: n) simp_all

text \<open>How many whole frames the first \<open>m\<close> bytes hold.\<close>

fun whole_frames :: "nat \<Rightarrow> row list \<Rightarrow> nat" where
  "whole_frames m [] = 0"
| "whole_frames m (r # rs) =
     (if length (frame r) \<le> m then Suc (whole_frames (m - length (frame r)) rs) else 0)"

lemma whole_frames_bounds:
  "whole_frames m rs \<le> length rs \<and> length (frames (take (whole_frames m rs) rs)) \<le> m \<and>
   (whole_frames m rs < length rs \<longrightarrow> m < length (frames (take (Suc (whole_frames m rs)) rs)))"
proof (induction m rs rule: whole_frames.induct)
  case (2 m r rs)
  then show ?case by (cases "length (frame r) \<le> m") auto
qed simp

lemma read_from_cut:
  assumes "numbered (length done) rs" "length (pre @ frames rs) < 2 ^ 64" "m \<le> length (frames rs)"
  shows "read_from (pre @ take m (frames rs)) (length pre) done =
    Some (done @ take (whole_frames m rs) rs, length (pre @ frames (take (whole_frames m rs) rs)))"
  using assms
proof (induction rs arbitrary: pre m "done")
  case Nil
  then show ?case by (subst read_from.simps) (simp add: get_at_def)
next
  case (Cons r rs)
  show ?case
  proof (cases "length (frame r) \<le> m")
    case True
    let ?m = "m - length (frame r)"
    let ?b = "pre @ frame r @ take ?m (frames rs)"
    have b: "pre @ take m (frames (r # rs)) = ?b" using True by simp
    have bound: "length ?b < 2 ^ 64"
    proof -
      have "length ?b \<le> length (pre @ frames (r # rs))" by simp
      with Cons.prems(2) show ?thesis by linarith
    qed
    have k: "get_at ?b (length pre) = Some (kind_byte (rkind r))"
      using frame_not_empty [of r] by (simp add: get_at_def nth_append)
    have step: "read_from ?b (length pre) done = read_from ?b (length pre + length (frame r)) (done @ [r])"
      using Cons.prems(1) frame_not_empty(2) [of r]
      by (subst read_from.simps) (simp only: k parse_row_frame [OF bound] option.case row_read.case
        numbered.simps append.assoc if_True simp_thms diff_add le_add_diff_inverse2 less_imp_le_nat)
    have "read_from ((pre @ frame r) @ take ?m (frames rs)) (length (pre @ frame r)) (done @ [r]) =
        Some ((done @ [r]) @ take (whole_frames ?m rs) rs,
              length ((pre @ frame r) @ frames (take (whole_frames ?m rs) rs)))"
      by (rule Cons.IH) (use Cons.prems True in auto)
    with step True show ?thesis by (simp add: b)
  next
    case False
    show ?thesis
    proof (cases "m = 0")
      case True
      with False show ?thesis by (subst read_from.simps) (simp add: get_at_def)
    next
      case nz: False
      let ?b = "pre @ take m (frame r)"
      have b: "pre @ take m (frames (r # rs)) = ?b" using False by simp
      have k: "get_at ?b (length pre) = Some (kind_byte (rkind r))"
        using frame_not_empty [of r] nz False by (simp add: get_at_def nth_append)
      have "parse_row ?b (length pre) (kind_byte (rkind r)) = RowBad"
        by (rule parse_row_cut) (use nz False Cons.prems(2) in auto)
      then have "read_from ?b (length pre) done = Some (done, length pre)"
        by (subst read_from.simps) (simp only: k option.case row_read.case)
      with False show ?thesis unfolding b by simp
    qed
  qed
qed

lemma read_cut:
  assumes "numbered 0 rs" "length (frames rs) < 2 ^ 64" "m \<le> length (frames rs)"
  shows "read (take m (frames rs)) =
    Some (take (whole_frames m rs) rs, length (frames (take (whole_frames m rs) rs)))"
  using read_from_cut [of "[]" rs "[]" m] assms by (simp add: read_def)

lemma whole_frames_all: "whole_frames (length (frames rs)) rs = length rs"
  by (induction rs) simp_all

lemma read_frames:
  "numbered 0 rs \<Longrightarrow> length (frames rs) < 2 ^ 64 \<Longrightarrow> read (frames rs) = Some (rs, length (frames rs))"
  using read_cut [of rs "length (frames rs)"] by (simp add: whole_frames_all)

section \<open>Payloads read back\<close>

text \<open>
  A decoder reads what its encoder wrote, from inside any byte string short enough to have
  positions below \<open>2^64\<close>, and stops after it.
\<close>

locale codec =
  fixes enc :: "'a \<Rightarrow> u8 list" and dec :: "u8 list \<Rightarrow> nat \<Rightarrow> ('a \<times> nat) option" and good :: "'a \<Rightarrow> bool"
  assumes reads: "good v \<Longrightarrow> length (pre @ enc v @ rest) < 2 ^ 64 \<Longrightarrow>
    dec (pre @ enc v @ rest) (length pre) = Some (v, length pre + length (enc v))"
begin

lemma reads_at:
  "good v \<Longrightarrow> b = pre @ enc v @ rest \<Longrightarrow> at = length pre \<Longrightarrow> length b < 2 ^ 64 \<Longrightarrow>
   dec b at = Some (v, length (pre @ enc v))"
  using reads [of v pre rest] by simp

text \<open>A whole list of values, with the values counted first.\<close>

lemma reads_inject:
  assumes "good v" "good w" "enc v @ rest = enc w @ rest'" "length (enc v @ rest) < 2 ^ 64"
  shows "v = w"
proof -
  have "dec (enc v @ rest) 0 = Some (v, length (enc v))" using reads [of v "[]" rest] assms(1,4) by simp
  moreover have "dec (enc w @ rest') 0 = Some (w, length (enc w))"
    using reads [of w "[]" rest'] assms by simp
  ultimately show ?thesis using assms(3) by simp
qed

end

interpretation uleb_codec: codec uleb get_uleb "\<lambda>_. True"
  by unfold_locales (rule get_uleb_uleb)

definition u32_bytes :: "u32 \<Rightarrow> u8 list" where
  "u32_bytes v = uleb (ucast v)"

definition get_u32 :: "u8 list \<Rightarrow> nat \<Rightarrow> (u32 \<times> nat) option" where
  "get_u32 b at = do { (v, at) \<leftarrow> get_uleb b at; w \<leftarrow> u32_of v; Some (w, at) }"

lemma u32_of_ucast: "u32_of (ucast (v :: u32)) = Some v"
proof -
  have "unat v < (2 :: nat) ^ 32" using unsigned_less [of v] by simp
  then have "(ucast v :: u64) < 2 ^ 32"
    by (simp add: word_less_nat_alt unsigned_ucast_eq take_bit_nat_eq_self)
  moreover have "(ucast (ucast v :: u64) :: u32) = v"
    by (rule bit_word_eqI) (simp add: bit_simps)
  ultimately show ?thesis by (simp add: u32_of_def)
qed

interpretation u32_codec: codec u32_bytes get_u32 "\<lambda>_. True"
  by unfold_locales (simp add: get_u32_def u32_bytes_def get_uleb_uleb u32_of_ucast)

definition counted :: "u8 list \<Rightarrow> u8 list" where
  "counted bs = uleb (word_of_nat (length bs)) @ bs"

definition get_counted :: "u8 list \<Rightarrow> nat \<Rightarrow> (u8 list \<times> nat) option" where
  "get_counted b at = do { (len, at) \<leftarrow> get_uleb b at; get_bytes b at (unat len) }"

lemma get_bytes_mid:
  "length (pre @ bs @ rest) < 2 ^ 64 \<Longrightarrow> n = length bs \<Longrightarrow>
   get_bytes (pre @ bs @ rest) (length pre) n = Some (bs, length (pre @ bs))"
  by (simp add: get_bytes_def get_range_mid)

interpretation counted_codec: codec counted get_counted "\<lambda>_. True"
proof
  fix v pre rest :: "u8 list"
  assume "length (pre @ counted v @ rest) < 2 ^ 64"
  then have l: "length ((pre @ uleb (word_of_nat (length v))) @ v @ rest) < 2 ^ 64" "length v < 2 ^ 64"
    by (simp_all add: counted_def)
  then have "unat (word_of_nat (length v) :: u64) = length v" by (intro unat_word_of_nat) simp
  then show "get_counted (pre @ counted v @ rest) (length pre) = Some (v, length pre + length (counted v))"
    using get_bytes_mid [OF l(1), of "length v"] get_uleb_uleb [of pre "word_of_nat (length v)" "v @ rest"]
    by (simp add: get_counted_def counted_def)
qed

interpretation text_codec: codec counted get_text utf8_valid
proof
  fix v pre rest :: "u8 list"
  assume u: "utf8_valid v" and l: "length (pre @ counted v @ rest) < 2 ^ 64"
  have "get_text b at = do { (bs, at) \<leftarrow> get_counted b at; if utf8_valid bs then Some (bs, at) else None }" for b at
    by (simp add: get_text_def get_counted_def split: bind_splits)
  with counted_codec.reads [OF TrueI l] u
  show "get_text (pre @ counted v @ rest) (length pre) = Some (v, length pre + length (counted v))" by simp
qed

section \<open>Decoding what was written\<close>

text \<open>The cursor \<open>at\<close> of \<open>b\<close> has \<open>rest\<close> before it.\<close>

definition at_rest :: "u8 list \<Rightarrow> nat \<Rightarrow> u8 list \<Rightarrow> bool" where
  "at_rest b at rest = (length b < 2 ^ 64 \<and> (\<exists>pre. b = pre @ rest \<and> at = length pre))"

lemma at_rest_start: "length b < 2 ^ 64 \<Longrightarrow> at_rest b 0 b"
  by (simp add: at_rest_def)

lemma at_rest_end: "at_rest b at [] \<Longrightarrow> at = length b"
  by (auto simp: at_rest_def)

lemma at_rest_length: "at_rest b at rest \<Longrightarrow> length rest < 2 ^ 64"
  by (auto simp: at_rest_def)

lemma at_rest_bytes:
  assumes "at_rest b at (bs @ rest)" "n = length bs"
  obtains at' where "get_bytes b at n = Some (bs, at')" "at_rest b at' rest"
proof -
  from assms(1) obtain pre where b: "b = pre @ bs @ rest" "at = length pre" "length b < 2 ^ 64"
    by (auto simp: at_rest_def)
  then have "get_bytes b at n = Some (bs, length (pre @ bs))" using get_bytes_mid [of pre bs rest n] assms(2) by simp
  moreover have "at_rest b (length (pre @ bs)) rest"
    unfolding at_rest_def by (rule conjI [OF b(3)], rule exI [of _ "pre @ bs"]) (simp add: b)
  ultimately show thesis by (rule that)
qed

context codec
begin

lemma steps:
  assumes "at_rest b at (enc v @ rest)" "good v"
  obtains at' where "dec b at = Some (v, at')" "at_rest b at' rest"
proof -
  from assms(1) obtain pre where b: "b = pre @ enc v @ rest" "at = length pre" "length b < 2 ^ 64"
    by (auto simp: at_rest_def)
  then have "dec b at = Some (v, length (pre @ enc v))" by (intro reads_at [OF assms(2)])
  moreover have "at_rest b (length (pre @ enc v)) rest"
    unfolding at_rest_def by (rule conjI [OF b(3)], rule exI [of _ "pre @ enc v"]) (simp add: b)
  ultimately show thesis by (rule that)
qed

end

lemma codecI:
  assumes "\<And>b at v rest. good v \<Longrightarrow> at_rest b at (enc v @ rest) \<Longrightarrow>
    \<exists>at'. dec b at = Some (v, at') \<and> at_rest b at' rest"
  shows "codec enc dec good"
proof
  fix v pre rest assume "good v" "length (pre @ enc v @ rest) < 2 ^ 64"
  moreover from this(2) have "at_rest (pre @ enc v @ rest) (length pre) (enc v @ rest)"
    unfolding at_rest_def by blast
  ultimately obtain at' where "dec (pre @ enc v @ rest) (length pre) = Some (v, at')"
    "at_rest (pre @ enc v @ rest) at' rest" using assms by blast
  then show "dec (pre @ enc v @ rest) (length pre) = Some (v, length pre + length (enc v))"
    by (auto simp: at_rest_def)
qed

interpretation u128_codec: codec "le_bytes 16" get_u128 "\<lambda>_. True"
proof (rule codecI)
  fix b at v rest assume "at_rest b at (le_bytes 16 (v :: u128) @ rest)"
  then show "\<exists>at'. get_u128 b at = Some (v, at') \<and> at_rest b at' rest"
    by (elim at_rest_bytes [where n = 16]) (auto simp: get_u128_def codec_simps)
qed

definition get_u64 :: "u8 list \<Rightarrow> nat \<Rightarrow> (u64 \<times> nat) option" where
  "get_u64 b at = do { (bs, at) \<leftarrow> get_bytes b at 8; Some (of_le_bytes bs, at) }"

interpretation u64_codec: codec "le_bytes 8" get_u64 "\<lambda>_. True"
proof (rule codecI)
  fix b at v rest assume "at_rest b at (le_bytes 8 (v :: u64) @ rest)"
  then show "\<exists>at'. get_u64 b at = Some (v, at') \<and> at_rest b at' rest"
    by (elim at_rest_bytes [where n = 8]) (auto simp: get_u64_def codec_simps)
qed

text \<open>The reply of a call: its tag, its value and the bytes of the exchange buffer.\<close>

definition value_bytes :: "rvalue \<Rightarrow> u8 list" where
  "value_bytes v = (case v of VVoid \<Rightarrow> [] | VInt v \<Rightarrow> uleb v | VF64 w \<Rightarrow> le_bytes 8 w
     | VPair s w \<Rightarrow> uleb (ucast s) @ uleb (ucast w))"

definition reply_bytes :: "rvalue \<times> u8 list option \<Rightarrow> u8 list" where
  "reply_bytes = (\<lambda>(v, res). [value_tag v OR (if res \<noteq> None then 4 else 0)] @ value_bytes v @
     (case res of None \<Rightarrow> [] | Some bs \<Rightarrow> counted bs))"

lemma put_reply_bytes: "put_reply out v res = out @ reply_bytes (v, res)"
  by (cases v; cases res)
    (simp_all add: put_reply_def reply_bytes_def value_bytes_def counted_def put_uleb_eq Let_def)

definition get_value :: "u8 \<Rightarrow> u8 list \<Rightarrow> nat \<Rightarrow> (rvalue \<times> nat) option" where
  "get_value tag b at =
     (if tag AND 3 = 0 then Some (VVoid, at)
      else if tag AND 3 = 1 then do { (v, at) \<leftarrow> get_uleb b at; Some (VInt v, at) }
      else if tag AND 3 = 2 then do { (bs, at) \<leftarrow> get_bytes b at 8; Some (VF64 (of_le_bytes bs), at) }
      else do { (s, at) \<leftarrow> get_uleb b at; (v, at) \<leftarrow> get_uleb b at; Some (VPair (ucast s) (ucast v), at) })"

definition get_result :: "u8 \<Rightarrow> rvalue \<Rightarrow> u8 list \<Rightarrow> nat \<Rightarrow> (rvalue \<times> u8 list option \<times> nat) option" where
  "get_result tag value b at =
     (if drop_bit 2 tag = 0 then Some (value, None, at)
      else if drop_bit 2 tag = 1
           then do { (len, at) \<leftarrow> get_uleb b at; (bs, at) \<leftarrow> get_bytes b at (unat len); Some (value, Some bs, at) }
           else None)"

lemma get_reply_parts:
  "get_reply b at = do { (tags, at) \<leftarrow> get_bytes b at 1; (value, at) \<leftarrow> get_value (tags ! 0) b at;
     get_result (tags ! 0) value b at }"
  by (simp add: get_reply_def get_value_def get_result_def Let_def)

lemma reply_tag:
  "(value_tag v OR (if res then 4 else 0)) AND 3 = value_tag v"
  "drop_bit 2 (value_tag v OR (if res then 4 else 0)) = (if res then 1 else 0)"
  by (cases v; cases res; simp)+

lemma ucast_back: "(ucast (ucast (v :: u32) :: u64) :: u32) = v"
  by (rule bit_word_eqI) (simp add: bit_simps)

lemma get_value_bytes:
  assumes "at_rest b at (value_bytes v @ rest)"
  obtains at' where "get_value (value_tag v OR (if res then 4 else 0)) b at = Some (v, at')" "at_rest b at' rest"
proof (cases v)
  case VVoid
  with assms that show thesis by (simp add: get_value_def reply_tag value_bytes_def)
next
  case (VInt w)
  with assms obtain at' where "get_uleb b at = Some (w, at')" "at_rest b at' rest"
    by (auto simp: value_bytes_def elim: uleb_codec.steps)
  with VInt that show thesis by (simp add: get_value_def reply_tag)
next
  case (VF64 w)
  with assms obtain at' where "get_bytes b at 8 = Some (le_bytes 8 w, at')" "at_rest b at' rest"
    by (auto simp: value_bytes_def codec_simps elim: at_rest_bytes [where n = 8])
  with VF64 that show thesis by (simp add: get_value_def reply_tag codec_simps)
next
  case (VPair s w)
  with assms have "at_rest b at (uleb (ucast s) @ uleb (ucast w) @ rest)" by (simp add: value_bytes_def)
  then obtain a where 1: "get_uleb b at = Some (ucast s, a)" "at_rest b a (uleb (ucast w) @ rest)"
    by (rule uleb_codec.steps) simp
  from 1(2) obtain at' where "get_uleb b a = Some (ucast w, at')" "at_rest b at' rest"
    by (rule uleb_codec.steps) simp
  with 1 VPair that show thesis by (simp add: get_value_def reply_tag ucast_back)
qed

lemma reply_steps:
  assumes "at_rest b at (reply_bytes (v, res) @ rest)"
  obtains at' where "get_reply b at = Some (v, res, at')" "at_rest b at' rest"
proof -
  let ?t = "value_tag v OR (if res \<noteq> None then 4 else 0)"
  let ?r = "case res of None \<Rightarrow> [] | Some bs \<Rightarrow> counted bs"
  from assms have "at_rest b at ([?t] @ value_bytes v @ ?r @ rest)" by (simp add: reply_bytes_def)
  then obtain a where a: "get_bytes b at 1 = Some ([?t], a)" "at_rest b a (value_bytes v @ ?r @ rest)"
    by (rule at_rest_bytes [where n = 1]) simp_all
  from a(2) obtain a' where a': "get_value ?t b a = Some (v, a')" "at_rest b a' (?r @ rest)"
    by (rule get_value_bytes)
  show thesis
  proof (cases res)
    case None
    with a a' that show thesis by (simp add: get_reply_parts get_result_def reply_tag [of _ False, simplified])
  next
    case (Some bs)
    from a'(2) Some have "at_rest b a' (counted bs @ rest)" by simp
    then obtain at' where at': "get_counted b a' = Some (bs, at')" "at_rest b at' rest"
      by (rule counted_codec.steps) simp
    have "get_result ?t v b a' = Some (v, Some bs, at')"
      using at'(1) Some reply_tag(2) [of v True]
      by (auto simp: get_result_def get_counted_def split: bind_splits)
    with a a' at' Some that show thesis by (simp add: get_reply_parts)
  qed
qed

text \<open>Handles, counted first.\<close>

definition handle_bytes :: "u32 list \<Rightarrow> u8 list" where
  "handle_bytes hs = uleb (word_of_nat (length hs)) @ concat (map u32_bytes hs)"

lemma put_uleb_all_bytes: "put_uleb_all out hs = out @ concat (map u32_bytes hs)"
  by (induction hs arbitrary: out) (simp_all add: u32_bytes_def put_uleb_eq)

lemma put_handles_bytes: "put_handles out hs = out @ handle_bytes hs"
  by (simp add: put_handles_def handle_bytes_def put_uleb_all_bytes put_uleb_eq)

lemma handles_from_steps:
  "at_rest b at (concat (map u32_bytes hs) @ rest) \<Longrightarrow>
   \<exists>at'. get_handles_from (length hs) b at = Some (hs, at') \<and> at_rest b at' rest"
proof (induction hs arbitrary: at)
  case (Cons h hs)
  then have "at_rest b at (u32_bytes h @ concat (map u32_bytes hs) @ rest)" by simp
  then obtain a where a: "get_u32 b at = Some (h, a)" "at_rest b a (concat (map u32_bytes hs) @ rest)"
    by (rule u32_codec.steps) simp
  from Cons.IH [OF a(2)] a(1) show ?case by (auto simp: get_u32_def split: bind_splits)
qed simp

lemma length_uleb_pos: "0 < length (uleb v)"
  by (subst uleb.simps) (simp add: Let_def)

lemma length_handle_bytes: "length hs \<le> length (concat (map u32_bytes hs))"
proof (induction hs)
  case (Cons h hs)
  have "length (concat (map u32_bytes (h # hs))) = length (uleb (ucast h)) + length (concat (map u32_bytes hs))"
    by (simp add: u32_bytes_def)
  with Cons length_uleb_pos [of "ucast h"] show ?case by (simp del: length_0_conv length_greater_0_conv)
qed simp

lemma handles_steps:
  assumes "at_rest b at (handle_bytes hs @ rest)"
  obtains at' where "get_handles b at = Some (hs, at')" "at_rest b at' rest"
proof -
  have len: "unat (word_of_nat (length hs) :: u64) = length hs"
    using at_rest_length [OF assms] length_handle_bytes [of hs]
    by (intro unat_word_of_nat) (simp add: handle_bytes_def)
  from assms have "at_rest b at (uleb (word_of_nat (length hs)) @ concat (map u32_bytes hs) @ rest)"
    by (simp add: handle_bytes_def)
  then obtain a where a: "get_uleb b at = Some (word_of_nat (length hs), a)"
    "at_rest b a (concat (map u32_bytes hs) @ rest)"
    by (rule uleb_codec.steps) simp
  from handles_from_steps [OF a(2)] a(1) len that show thesis by (auto simp: get_handles_def)
qed

section \<open>What the recorder writes\<close>

text \<open>The calls of a recorder: one host call or driver event each.\<close>

datatype rec_op =
    OpCall nat str str "u8 list" rvalue "u8 list option"
  | OpFinish u32 rvalue "u8 list option"
  | OpBlock "u32 list"
  | OpAbort u32
  | OpPoll
  | OpWake "u32 list"
  | OpCancel
  | OpInput u32 "u8 list" "u8 list"
  | OpEnd end_kind
  | OpCap nat
  | OpNotice

definition rec_step :: "(u8 list \<Rightarrow> u64) \<Rightarrow> (u8 list \<Rightarrow> u128) \<Rightarrow> rec_op \<Rightarrow> recorder \<Rightarrow> recorder option" where
  "rec_step digest hash128 a r =
     (case a of
        OpCall site module name request val res \<Rightarrow> rec_call digest site module name request val res r
      | OpFinish handle val res \<Rightarrow> rec_finish handle val res r
      | OpBlock hs \<Rightarrow> rec_block hs r
      | OpAbort handle \<Rightarrow> rec_abort handle r
      | OpPoll \<Rightarrow> rec_poll r
      | OpWake hs \<Rightarrow> rec_wake hs r
      | OpCancel \<Rightarrow> rec_cancel r
      | OpInput number source module \<Rightarrow> rec_input hash128 number source module r
      | OpEnd e \<Rightarrow> rec_end e r
      | OpCap c \<Rightarrow> Some (set_cap c r)
      | OpNotice \<Rightarrow> Some (snd (take_notice r)))"

fun rec_run :: "(u8 list \<Rightarrow> u64) \<Rightarrow> (u8 list \<Rightarrow> u128) \<Rightarrow> rec_op list \<Rightarrow> recorder \<Rightarrow> recorder option" where
  "rec_run digest hash128 [] r = Some r"
| "rec_run digest hash128 (a # as) r =
     (case rec_step digest hash128 a r of None \<Rightarrow> None | Some r \<Rightarrow> rec_run digest hash128 as r)"

text \<open>The events these calls stand for, and the polls they leave.\<close>

fun op_polls :: "rec_op \<Rightarrow> u64 \<Rightarrow> u64" where
  "op_polls OpPoll n = n + 1"
| "op_polls (OpInput _ _ _) n = 0"
| "op_polls _ n = n"

fun op_event :: "(u8 list \<Rightarrow> u64) \<Rightarrow> (u8 list \<Rightarrow> u128) \<Rightarrow> u64 \<Rightarrow> rec_op \<Rightarrow> event list" where
  "op_event digest hash128 n (OpCall site module name request val res) =
     [EvCall module name (request_of digest request) val res]"
| "op_event digest hash128 n (OpFinish handle val res) = [EvFinish handle val res]"
| "op_event digest hash128 n (OpBlock hs) = [EvBlock hs]"
| "op_event digest hash128 n (OpAbort handle) = [EvAbort handle]"
| "op_event digest hash128 n (OpWake hs) = [EvWake n hs]"
| "op_event digest hash128 n OpCancel = [EvCancel n]"
| "op_event digest hash128 n (OpInput number source module) =
     [EvInput number (hash128 source) (hash128 module)]"
| "op_event digest hash128 n (OpEnd e) = [EvEnd e]"
| "op_event digest hash128 n _ = []"

fun op_events :: "(u8 list \<Rightarrow> u64) \<Rightarrow> (u8 list \<Rightarrow> u128) \<Rightarrow> u64 \<Rightarrow> rec_op list \<Rightarrow> event list" where
  "op_events digest hash128 n [] = []"
| "op_events digest hash128 n (a # as) =
     op_event digest hash128 n a @ op_events digest hash128 (op_polls a n) as"

text \<open>
  A call site stands for one import, whose names are texts of the module, and a cap fits the
  address space.
\<close>

fun op_ok :: "(nat \<Rightarrow> str \<times> str) \<Rightarrow> rec_op \<Rightarrow> bool" where
  "op_ok names (OpCall site module name request val res) =
     (names site = (module, name) \<and> utf8_valid module \<and> utf8_valid name)"
| "op_ok names (OpCap c) = (c < 2 ^ 64)"
| "op_ok names _ = True"

text \<open>The payload of a row: what \<open>push\<close> is given for it.\<close>

definition method_bytes :: "nat option \<Rightarrow> u32 \<Rightarrow> str \<Rightarrow> str \<Rightarrow> u8 list" where
  "method_bytes seen n module name =
     (case seen of Some m \<Rightarrow> uleb (word_of_nat m) | None \<Rightarrow> uleb (ucast n) @ counted module @ counted name)"

definition request_bytes :: "(u8 list \<Rightarrow> u64) \<Rightarrow> u8 list \<Rightarrow> u8 list" where
  "request_bytes digest request =
     uleb (word_of_nat (length request)) @ (if length request \<le> 8 then request else le_bytes 8 (digest request))"

definition end_bytes :: "end_kind \<Rightarrow> u8 list" where
  "end_bytes e = (case e of EExit st \<Rightarrow> [0, st] | ETrapped \<Rightarrow> [1] | EStopped \<Rightarrow> [2] | ECancelled \<Rightarrow> [3] | EFailed \<Rightarrow> [4])"

definition get_request :: "u8 list \<Rightarrow> nat \<Rightarrow> (request \<times> nat) option" where
  "get_request b at = do {
     (len, at) \<leftarrow> get_uleb b at;
     (if len \<le> 8
      then do { (bs, at) \<leftarrow> get_bytes b at (unat len); Some (Args bs, at) }
      else do { (bs, at) \<leftarrow> get_bytes b at 8; Some (Digest len (of_le_bytes bs), at) }) }"

lemma request_steps:
  assumes "at_rest b at (request_bytes digest request @ rest)" "length request < 2 ^ 64"
  obtains at' where "get_request b at = Some (request_of digest request, at')" "at_rest b at' rest"
proof -
  let ?l = "word_of_nat (length request) :: u64"
  have l: "unat ?l = length request" using assms(2) by (intro unat_word_of_nat) simp
  have small: "?l \<le> 8 \<longleftrightarrow> length request \<le> 8" by (simp add: word_le_nat_alt l)
  let ?d = "if length request \<le> 8 then request else le_bytes 8 (digest request)"
  from assms(1) have "at_rest b at (uleb ?l @ ?d @ rest)" by (simp add: request_bytes_def)
  then obtain a where a: "get_uleb b at = Some (?l, a)" "at_rest b a (?d @ rest)"
    by (rule uleb_codec.steps) simp
  show thesis
  proof (cases "length request \<le> 8")
    case True
    with a(2) obtain at' where "get_bytes b a (length request) = Some (request, at')" "at_rest b at' rest"
      by (auto elim: at_rest_bytes [where n = "length request"])
    with a True that show thesis by (simp add: get_request_def small l request_of_def)
  next
    case False
    with a(2) obtain at' where "get_bytes b a 8 = Some (le_bytes 8 (digest request), at')" "at_rest b at' rest"
      by (auto simp: codec_simps elim: at_rest_bytes [where n = 8])
    with a False that show thesis by (simp add: get_request_def small l request_of_def codec_simps)
  qed
qed

lemma decode_call_parts:
  "decode_payload KCall b ms = do {
     (method, at) \<leftarrow> get_uleb b 0;
     (ms, at) \<leftarrow> (if unat method = length ms
                then do { (module, at) \<leftarrow> get_text b at; (name, at) \<leftarrow> get_text b at;
                          Some (ms @ [(module, name)], at) }
                else Some (ms, at));
     (module, name) \<leftarrow> get_at ms (unat method);
     (request, at) \<leftarrow> get_request b at;
     (val, result, at) \<leftarrow> get_reply b at;
     Some (EvCall module name request val result, ms, at) }"
  by (simp add: decode_payload_def get_request_def case_prod_unfold)

definition call_payload :: "(u8 list \<Rightarrow> u64) \<Rightarrow> nat option \<Rightarrow> u32 \<Rightarrow> str \<Rightarrow> str \<Rightarrow> u8 list \<Rightarrow> rvalue \<Rightarrow>
    u8 list option \<Rightarrow> u8 list" where
  "call_payload digest seen n module name request v res =
     method_bytes seen n module name @ request_bytes digest request @ reply_bytes (v, res)"

lemma decode_call_known:
  assumes "m < length ms" "ms ! m = (module, name)" "length request < 2 ^ 64" "m < 2 ^ 64"
    and len: "length (call_payload digest (Some m) n module name request v res) < 2 ^ 64"
  shows "decode_row \<lparr>rkind = KCall, rindex = i, payload = call_payload digest (Some m) n module name request v res\<rparr> ms =
    Some (EvCall module name (request_of digest request) v res, ms)"
proof -
  let ?b = "call_payload digest (Some m) n module name request v res"
  have m: "unat (word_of_nat m :: u64) = m" using assms(4) by (intro unat_word_of_nat) simp
  have "at_rest ?b 0 (uleb (word_of_nat m) @ request_bytes digest request @ reply_bytes (v, res) @ [])"
    using at_rest_start [OF len] by (simp add: call_payload_def method_bytes_def)
  then obtain a1 where 1: "get_uleb ?b 0 = Some (word_of_nat m, a1)"
    "at_rest ?b a1 (request_bytes digest request @ reply_bytes (v, res) @ [])"
    by (rule uleb_codec.steps) simp
  from 1(2) assms(3) obtain a2 where 2: "get_request ?b a1 = Some (request_of digest request, a2)"
    "at_rest ?b a2 (reply_bytes (v, res) @ [])" by (rule request_steps)
  from 2(2) obtain a3 where 3: "get_reply ?b a2 = Some (v, res, a3)" "at_rest ?b a3 []" by (rule reply_steps)
  from 1 2 3 assms(1,2) m at_rest_end [OF 3(2)] show ?thesis
    by (simp add: decode_row_def decode_call_parts get_at_def)
qed

lemma decode_call_new:
  assumes "unat n = length ms" "utf8_valid module" "utf8_valid name" "length request < 2 ^ 64"
    and len: "length (call_payload digest None n module name request v res) < 2 ^ 64"
  shows "decode_row \<lparr>rkind = KCall, rindex = i, payload = call_payload digest None n module name request v res\<rparr> ms =
    Some (EvCall module name (request_of digest request) v res, ms @ [(module, name)])"
proof -
  let ?b = "call_payload digest None n module name request v res"
  let ?rest = "request_bytes digest request @ reply_bytes (v, res) @ []"
  have "unat n < 2 ^ 32" using unsigned_less [of n] by simp
  then have m: "unat (ucast n :: u64) = length ms"
    using assms(1) by (simp add: unsigned_ucast_eq take_bit_nat_eq_self)
  have "at_rest ?b 0 (uleb (ucast n) @ counted module @ counted name @ ?rest)"
    using at_rest_start [OF len] by (simp add: call_payload_def method_bytes_def)
  then obtain a1 where 1: "get_uleb ?b 0 = Some (ucast n, a1)" "at_rest ?b a1 (counted module @ counted name @ ?rest)"
    by (rule uleb_codec.steps) simp
  from 1(2) assms(2) obtain a2 where 2: "get_text ?b a1 = Some (module, a2)" "at_rest ?b a2 (counted name @ ?rest)"
    by (rule text_codec.steps)
  from 2(2) assms(3) obtain a3 where 3: "get_text ?b a2 = Some (name, a3)" "at_rest ?b a3 ?rest"
    by (rule text_codec.steps)
  from 3(2) assms(4) obtain a4 where 4: "get_request ?b a3 = Some (request_of digest request, a4)"
    "at_rest ?b a4 (reply_bytes (v, res) @ [])" by (rule request_steps)
  from 4(2) obtain a5 where 5: "get_reply ?b a4 = Some (v, res, a5)" "at_rest ?b a5 []" by (rule reply_steps)
  from 1 2 3 4 5 m at_rest_end [OF 5(2)] show ?thesis
    by (simp add: decode_row_def decode_call_parts get_at_def)
qed

text \<open>The rows of the other kinds.\<close>

lemma decode_header:
  "decode_row \<lparr>rkind = KHeader, rindex = i, payload = uleb f @ le_bytes 16 x\<rparr> ms = Some (EvHeader f x, ms)"
    if len: "length (uleb f @ le_bytes 16 x) < 2 ^ 64"
proof -
  let ?b = "uleb f @ le_bytes 16 x"
  have "at_rest ?b 0 (uleb f @ le_bytes 16 x @ [])" using at_rest_start [OF len] by simp
  then obtain a1 where 1: "get_uleb ?b 0 = Some (f, a1)" "at_rest ?b a1 (le_bytes 16 x @ [])"
    by (rule uleb_codec.steps) simp
  from 1(2) obtain a2 where "get_u128 ?b a1 = Some (x, a2)" "at_rest ?b a2 []" by (rule u128_codec.steps) simp
  with 1 at_rest_end [OF this(2)] show ?thesis by (simp add: decode_row_def decode_payload_def)
qed

lemma decode_input:
  "decode_row \<lparr>rkind = KInput, rindex = i, payload = u32_bytes n @ le_bytes 16 x @ le_bytes 16 y\<rparr> ms =
    Some (EvInput n x y, ms)"
    if len: "length (u32_bytes n @ le_bytes 16 x @ le_bytes 16 y) < 2 ^ 64"
proof -
  let ?b = "u32_bytes n @ le_bytes 16 x @ le_bytes 16 y"
  have "at_rest ?b 0 (u32_bytes n @ le_bytes 16 x @ le_bytes 16 y @ [])" using at_rest_start [OF len] by simp
  then obtain a1 where 1: "get_u32 ?b 0 = Some (n, a1)" "at_rest ?b a1 (le_bytes 16 x @ le_bytes 16 y @ [])"
    by (rule u32_codec.steps) simp
  from 1(2) obtain a2 where 2: "get_u128 ?b a1 = Some (x, a2)" "at_rest ?b a2 (le_bytes 16 y @ [])"
    by (rule u128_codec.steps) simp
  from 2(2) obtain a3 where "get_u128 ?b a2 = Some (y, a3)" "at_rest ?b a3 []" by (rule u128_codec.steps) simp
  with 1 2 at_rest_end [OF this(2)] show ?thesis
    by (auto simp: decode_row_def decode_payload_def get_u32_def split: bind_splits)
qed

lemma decode_finish:
  "decode_row \<lparr>rkind = KFinish, rindex = i, payload = u32_bytes h @ reply_bytes (v, res)\<rparr> ms =
    Some (EvFinish h v res, ms)"
    if len: "length (u32_bytes h @ reply_bytes (v, res)) < 2 ^ 64"
proof -
  let ?b = "u32_bytes h @ reply_bytes (v, res)"
  have "at_rest ?b 0 (u32_bytes h @ reply_bytes (v, res) @ [])" using at_rest_start [OF len] by simp
  then obtain a1 where 1: "get_u32 ?b 0 = Some (h, a1)" "at_rest ?b a1 (reply_bytes (v, res) @ [])"
    by (rule u32_codec.steps) simp
  from 1(2) obtain a2 where "get_reply ?b a1 = Some (v, res, a2)" "at_rest ?b a2 []" by (rule reply_steps)
  with 1 at_rest_end [OF this(2)] show ?thesis
    by (auto simp: decode_row_def decode_payload_def get_u32_def split: bind_splits)
qed

lemma decode_wake:
  "decode_row \<lparr>rkind = KWake, rindex = i, payload = uleb n @ handle_bytes hs\<rparr> ms = Some (EvWake n hs, ms)"
    if len: "length (uleb n @ handle_bytes hs) < 2 ^ 64"
proof -
  let ?b = "uleb n @ handle_bytes hs"
  have "at_rest ?b 0 (uleb n @ handle_bytes hs @ [])" using at_rest_start [OF len] by simp
  then obtain a1 where 1: "get_uleb ?b 0 = Some (n, a1)" "at_rest ?b a1 (handle_bytes hs @ [])"
    by (rule uleb_codec.steps) simp
  from 1(2) obtain a2 where "get_handles ?b a1 = Some (hs, a2)" "at_rest ?b a2 []" by (rule handles_steps)
  with 1 at_rest_end [OF this(2)] show ?thesis by (simp add: decode_row_def decode_payload_def)
qed

lemma decode_block:
  "decode_row \<lparr>rkind = KBlock, rindex = i, payload = handle_bytes hs\<rparr> ms = Some (EvBlock hs, ms)"
    if len: "length (handle_bytes hs) < 2 ^ 64"
proof -
  have "at_rest (handle_bytes hs) 0 (handle_bytes hs @ [])" using at_rest_start [OF len] by simp
  then obtain a where "get_handles (handle_bytes hs) 0 = Some (hs, a)" "at_rest (handle_bytes hs) a []"
    by (rule handles_steps)
  with at_rest_end [OF this(2)] show ?thesis by (simp add: decode_row_def decode_payload_def)
qed

lemma decode_abort:
  "decode_row \<lparr>rkind = KAbort, rindex = i, payload = u32_bytes h\<rparr> ms = Some (EvAbort h, ms)"
    if len: "length (u32_bytes h) < 2 ^ 64"
proof -
  have "at_rest (u32_bytes h) 0 (u32_bytes h @ [])" using at_rest_start [OF len] by simp
  then obtain a where "get_u32 (u32_bytes h) 0 = Some (h, a)" "at_rest (u32_bytes h) a []"
    by (rule u32_codec.steps) simp
  with at_rest_end [OF this(2)] show ?thesis
    by (auto simp: decode_row_def decode_payload_def get_u32_def split: bind_splits)
qed

lemma decode_cancel:
  "decode_row \<lparr>rkind = KCancel, rindex = i, payload = uleb n\<rparr> ms = Some (EvCancel n, ms)"
    if len: "length (uleb n) < 2 ^ 64"
proof -
  have "at_rest (uleb n) 0 (uleb n @ [])" using at_rest_start [OF len] by simp
  then obtain a where "get_uleb (uleb n) 0 = Some (n, a)" "at_rest (uleb n) a []"
    by (rule uleb_codec.steps) simp
  with at_rest_end [OF this(2)] show ?thesis by (simp add: decode_row_def decode_payload_def)
qed

lemma decode_end: "decode_row \<lparr>rkind = KEnd, rindex = i, payload = end_bytes e\<rparr> ms = Some (EvEnd e, ms)"
  by (cases e) (simp_all add: decode_row_def decode_payload_def end_bytes_def get_bytes_def get_range_def)

section \<open>The recorder's journal\<close>

text \<open>\<open>decode\<close> with the methods it ends with.\<close>

fun decode_rows :: "methods \<Rightarrow> row list \<Rightarrow> (event list \<times> methods) option" where
  "decode_rows ms [] = Some ([], ms)"
| "decode_rows ms (r # rs) = do {
     (ev, ms) \<leftarrow> decode_row r ms; (evs, ms) \<leftarrow> decode_rows ms rs; Some (ev # evs, ms) }"

lemma decode_rows_from: "decode_rows ms rs = Some (evs, ms') \<Longrightarrow> decode_from ms rs = Inr evs"
  by (induction rs arbitrary: ms evs) (auto split: bind_splits)

lemma decode_rows_snoc:
  "decode_rows ms rs = Some (evs, ms') \<Longrightarrow> decode_row r ms' = Some (ev, ms'') \<Longrightarrow>
   decode_rows ms (rs @ [r]) = Some (evs @ [ev], ms'')"
  by (induction rs arbitrary: ms evs) (auto split: bind_splits)

text \<open>
  The bytes of a recorder that records are the frames of rows that decode to \<open>evs\<close> and name the
  methods \<open>ms\<close>.
\<close>

definition rec_rows :: "event list \<Rightarrow> methods \<Rightarrow> recorder \<Rightarrow> bool" where
  "rec_rows evs ms r = (\<exists>rows. bytes r = frames rows \<and> numbered 0 rows \<and> unat (next_index r) = length rows \<and>
     length (bytes r) < 2 ^ 64 \<and> cap r < 2 ^ 64 \<and> decode_rows [] rows = Some (evs, ms))"

definition site_names :: "(nat \<Rightarrow> str \<times> str) \<Rightarrow> methods \<Rightarrow> recorder \<Rightarrow> bool" where
  "site_names names ms r = (unat (named r) = length ms \<and>
     (\<forall>s<length (sites r). sites r ! s \<noteq> 0 \<longrightarrow>
        unat (sites r ! s) \<le> length ms \<and> ms ! (unat (sites r ! s) - 1) = names s))"

definition rec_good :: "(nat \<Rightarrow> str \<times> str) \<Rightarrow> event list \<Rightarrow> recorder \<Rightarrow> bool" where
  "rec_good names evs r = (rowbuf r = [] \<and> (rstate r = On \<longrightarrow>
     (\<exists>ms. rec_rows evs ms r \<and> site_names names ms r)))"

lemma push_cases:
  assumes "push k r = Some r'" "rstate r = On"
  obtains (stop) "r' = r\<lparr>rstate := Off False, bytes := [], sites := [], rowbuf := []\<rparr>"
  | (row) "r' = r\<lparr>bytes := bytes r @ frame \<lparr>rkind = k, rindex = next_index r, payload = rowbuf r\<rparr>,
                  next_index := next_index r + 1, rowbuf := []\<rparr>"
      "length (bytes r') \<le> cap r" "next_index r \<noteq> - 1" "length (rowbuf r) < cap r"
proof (cases "cap r < length (bytes r) + (1 + uleb_len (next_index r) + uleb_len (word_of_nat (length (rowbuf r)))
    + length (rowbuf r) + 4)")
  case True
  with assms(1) show thesis by (intro stop) (simp add: push_def Let_def)
next
  case False
  with assms(1) show thesis
    by (intro row) (auto simp: push_def Let_def codec_simps length_frame split: if_splits)
qed

lemma unat_minus_one_word: "(n :: 'a::len word) \<noteq> 0 \<Longrightarrow> unat (n - 1) = unat n - 1"
  by (metis unat_minus_one)

lemma unat_suc_word: "(n :: 'a::len word) \<noteq> - 1 \<Longrightarrow> unat (n + 1) = Suc (unat n)"
  using unatSuc [of n] by (metis add.commute add_eq_0_iff)

lemma push_rows:
  assumes push: "push k r = Some r'" "rstate r = On" "rstate r' = On" and rows: "rec_rows evs ms r"
    and dec: "\<And>i. length (rowbuf r) < 2 ^ 64 \<Longrightarrow>
      decode_row \<lparr>rkind = k, rindex = i, payload = rowbuf r\<rparr> ms = Some (ev, ms')"
  shows "rec_rows (evs @ [ev]) ms' r'" "named r' = named r" "sites r' = sites r"
  using push(1,2)
proof (atomize (full), cases rule: push_cases)
  case stop
  with push(3) show "rec_rows (evs @ [ev]) ms' r' \<and> named r' = named r \<and> sites r' = sites r" by simp
next
  case row
  from rows obtain rs where rs: "bytes r = frames rs" "numbered 0 rs" "unat (next_index r) = length rs"
    "length (bytes r) < 2 ^ 64" "cap r < 2 ^ 64" "decode_rows [] rs = Some (evs, ms)"
    by (auto simp: rec_rows_def)
  let ?row = "\<lparr>rkind = k, rindex = next_index r, payload = rowbuf r\<rparr>"
  have "next_index r = word_of_nat (length rs)" using rs(3) by (metis of_nat_unat ucast_id)
  then have "numbered 0 (rs @ [?row])" using rs(2) by (simp add: numbered_append)
  moreover have "decode_rows [] (rs @ [?row]) = Some (evs @ [ev], ms')"
    by (rule decode_rows_snoc [OF rs(6) dec]) (use row(4) rs(5) in simp)
  moreover have "unat (next_index r + 1) = Suc (length rs)"
    using row(3) rs(3) by (simp add: unat_suc_word)
  ultimately have "rec_rows (evs @ [ev]) ms' r'"
    unfolding rec_rows_def using row(1,2) rs(1,5) by (intro exI [of _ "rs @ [?row]"]) simp
  with row(1) show "rec_rows (evs @ [ev]) ms' r' \<and> named r' = named r \<and> sites r' = sites r" by simp
qed

lemma push_frame: "push k r = Some r' \<Longrightarrow> rowbuf r' = [] \<and> polls r' = polls r \<and> (rstate r' = On \<longrightarrow> rstate r = On)"
  by (auto simp: push_def Let_def split: if_splits)

lemma rec_rows_cong:
  "bytes r = bytes q \<Longrightarrow> next_index r = next_index q \<Longrightarrow> cap r = cap q \<Longrightarrow> rec_rows evs ms r = rec_rows evs ms q"
  by (simp add: rec_rows_def)

text \<open>One row whose payload decodes to \<open>ev\<close> and names no method.\<close>

lemma push_good:
  assumes "push k (r\<lparr>rowbuf := pl\<rparr>) = Some r'" "rec_good names evs r" "rstate r = On"
    "\<And>i ms. length pl < 2 ^ 64 \<Longrightarrow> decode_row \<lparr>rkind = k, rindex = i, payload = pl\<rparr> ms = Some (ev, ms)"
  shows "rec_good names (evs @ [ev]) r' \<and> polls r' = polls r"
proof -
  note f = push_frame [OF assms(1)]
  have "\<exists>ms. rec_rows (evs @ [ev]) ms r' \<and> site_names names ms r'" if "rstate r' = On"
  proof -
    from assms(2,3) obtain ms where ms: "rec_rows evs ms r" "site_names names ms r" by (auto simp: rec_good_def)
    then have "rec_rows evs ms (r\<lparr>rowbuf := pl\<rparr>)" by (simp add: rec_rows_def)
    from push_rows [OF assms(1) _ that this, of ev ms] assms(3,4) ms(2) show ?thesis
      by (auto simp: site_names_def)
  qed
  with f show ?thesis by (simp add: rec_good_def)
qed

text \<open>A call: a site's first call names the method, a later one refers to it.\<close>

definition grow :: "nat \<Rightarrow> u32 list \<Rightarrow> u32 list" where
  "grow site ss = (if length ss \<le> site then ss @ replicate (site + 1 - length ss) 0 else ss)"

lemma grow_nth: "s < length (grow site ss) \<Longrightarrow> grow site ss ! s = (if s < length ss then ss ! s else 0)"
  "site < length (grow site ss)"
  by (auto simp: grow_def nth_append)

lemma rec_call_push:
  assumes "rec_call digest site module name request v res r = Some r'" "rstate r = On" "rowbuf r = []"
  shows "push KCall (if grow site (sites r) ! site = 0
      then r\<lparr>sites := (grow site (sites r))[site := named r + 1], named := named r + 1,
             rowbuf := call_payload digest None (named r) module name request v res\<rparr>
      else r\<lparr>sites := grow site (sites r),
             rowbuf := call_payload digest (Some (unat (grow site (sites r) ! site - 1))) 0 module name request v res\<rparr>)
    = Some r' \<and> (grow site (sites r) ! site = 0 \<longrightarrow> named r \<noteq> - 1)"
proof -
  have u: "(word_of_nat (unat n) :: u64) = ucast n" for n :: u32 by simp
  from assms show ?thesis
    by (auto simp: rec_call_def grow_def [symmetric] Let_def call_payload_def method_bytes_def request_bytes_def
        counted_def put_uleb_eq put_reply_bytes u split: if_splits)
qed

lemma site_names_known:
  assumes names: "site_names names ms r" and n: "grow site (sites r) ! site \<noteq> 0"
  shows "unat (grow site (sites r) ! site - 1) < length ms \<and>
    ms ! unat (grow site (sites r) ! site - 1) = names site \<and>
    site_names names ms (r\<lparr>sites := grow site (sites r), rowbuf := x\<rparr>)"
proof -
  have s: "site < length (sites r)" "grow site (sites r) ! site = sites r ! site"
    using n grow_nth(1) [of site site "sites r"] grow_nth(2) [of site "sites r"] by (auto split: if_splits)
  then have g: "grow site (sites r) = sites r" by (simp add: grow_def)
  from names s n have "unat (sites r ! site) \<le> length ms" "ms ! (unat (sites r ! site) - 1) = names site"
    by (auto simp: site_names_def)
  moreover have "0 < unat (sites r ! site)" using n s(2) by (simp add: unat_gt_0)
  ultimately show ?thesis using names n s(2) by (simp add: g site_names_def unat_minus_one_word)
qed

lemma site_names_new:
  assumes "site_names names ms r" "named r \<noteq> - 1" "names site = (module, name)"
  shows "site_names names (ms @ [(module, name)])
    (r\<lparr>sites := (grow site (sites r))[site := named r + 1], named := named r + 1, rowbuf := x\<rparr>)"
  unfolding site_names_def
proof (intro conjI allI impI, goal_cases)
  case 1
  from assms show ?case by (simp add: site_names_def unat_suc_word)
next
  case (2 s)
  show ?case
  proof (cases "s = site")
    case True
    with assms grow_nth(2) [of site "sites r"] show ?thesis by (simp add: site_names_def unat_suc_word)
  next
    case False
    with 2 have s: "s < length (sites r)" "sites r ! s \<noteq> 0" by (auto simp: grow_nth split: if_splits)
    with assms(1) have "unat (sites r ! s) \<le> length ms" "ms ! (unat (sites r ! s) - 1) = names s"
      by (auto simp: site_names_def)
    moreover have "0 < unat (sites r ! s)" using s(2) by (simp add: unat_gt_0)
    ultimately show ?thesis using False 2 s by (auto simp: grow_nth nth_append)
  qed
next
  case (3 s)
  show ?case
  proof (cases "s = site")
    case True
    with assms grow_nth(2) [of site "sites r"] show ?thesis by (simp add: site_names_def unat_suc_word)
  next
    case False
    with 3 have s: "s < length (sites r)" "sites r ! s \<noteq> 0" by (auto simp: grow_nth split: if_splits)
    with assms(1) have "unat (sites r ! s) \<le> length ms" "ms ! (unat (sites r ! s) - 1) = names s"
      by (auto simp: site_names_def)
    moreover have "0 < unat (sites r ! s)" using s(2) by (simp add: unat_gt_0)
    ultimately show ?thesis using False 3 s by (auto simp: grow_nth nth_append)
  qed
qed

lemma site_names_cong: "sites r = sites q \<Longrightarrow> named r = named q \<Longrightarrow> site_names names ms r = site_names names ms q"
  by (simp add: site_names_def)

lemma rec_call_good:
  assumes call: "rec_call digest site module name request v res r = Some r'" and good: "rec_good names evs r"
    and on: "rstate r = On" and ok: "names site = (module, name)" "utf8_valid module" "utf8_valid name"
      "length request < 2 ^ 64"
  shows "rec_good names (evs @ [EvCall module name (request_of digest request) v res]) r' \<and> polls r' = polls r"
proof -
  let ?ev = "EvCall module name (request_of digest request) v res"
  let ?n = "grow site (sites r) ! site"
  from good on obtain ms where ms: "rec_rows evs ms r" "site_names names ms r" and empty: "rowbuf r = []"
    by (auto simp: rec_good_def)
  note push = rec_call_push [OF call on empty]
  have "\<exists>ms. rec_rows (evs @ [?ev]) ms r' \<and> site_names names ms r'" if on': "rstate r' = On"
  proof (cases "?n = 0")
    case True
    let ?q = "r\<lparr>sites := (grow site (sites r))[site := named r + 1], named := named r + 1,
             rowbuf := call_payload digest None (named r) module name request v res\<rparr>"
    from push True have p: "push KCall ?q = Some r'" "named r \<noteq> - 1" by simp_all
    have len: "unat (named r) = length ms" using ms(2) by (simp add: site_names_def)
    have "rec_rows evs ms ?q" using ms(1) by (simp add: rec_rows_def)
    note res = push_rows [OF p(1) _ on' this, of ?ev "ms @ [(module, name)]"]
    from res decode_call_new [OF len ok(2,3,4)] on
    have "rec_rows (evs @ [?ev]) (ms @ [(module, name)]) r'" "named r' = named ?q" "sites r' = sites ?q"
      by simp_all
    with site_names_new [OF ms(2) p(2) ok(1)] show ?thesis by (metis site_names_cong)
  next
    case False
    let ?m = "unat (?n - 1)"
    let ?q = "r\<lparr>sites := grow site (sites r),
             rowbuf := call_payload digest (Some ?m) 0 module name request v res\<rparr>"
    from push False have p: "push KCall ?q = Some r'" by simp
    note known = site_names_known [OF ms(2) False]
    have "unat (?n - 1) < 2 ^ LENGTH(32)" by (rule unsigned_less)
    then have m: "?m < 2 ^ 64" by simp
    have "rec_rows evs ms ?q" using ms(1) by (simp add: rec_rows_def)
    note res = push_rows [OF p _ on' this, of ?ev ms]
    have at_m: "?m < length ms" "ms ! ?m = (module, name)" using known ok(1) by auto
    have pl: "rowbuf ?q = call_payload digest (Some ?m) 0 module name request v res" by simp
    have dec: "decode_row \<lparr>rkind = KCall, rindex = i, payload = rowbuf ?q\<rparr> ms = Some (?ev, ms)"
      if "length (rowbuf ?q) < 2 ^ 64" for i
      using decode_call_known [OF at_m ok(4) m, of digest 0 v res i] that unfolding pl .
    have on_q: "rstate ?q = On" using on by simp
    have "rec_rows (evs @ [?ev]) ms r'" by (rule res(1) [OF on_q dec])
    moreover have "named r' = named ?q" by (rule res(2) [OF on_q dec])
    moreover have "sites r' = sites ?q" by (rule res(3) [OF on_q dec])
    ultimately show ?thesis
      using known site_names_cong [of r' ?q names ms] by blast
  qed
  moreover have "polls r' = polls r" "rowbuf r' = []" using push push_frame by (auto split: if_splits)
  ultimately show ?thesis by (simp add: rec_good_def)
qed

text \<open>Every call keeps the journal and adds its event.\<close>

fun request_fits :: "rec_op \<Rightarrow> bool" where
  "request_fits (OpCall _ _ _ request _ _) = (length request < 2 ^ 64)"
| "request_fits _ = True"

lemma rec_good_keep:
  "rec_good names evs r \<Longrightarrow> bytes r' = bytes r \<Longrightarrow> next_index r' = next_index r \<Longrightarrow> cap r' = cap r \<Longrightarrow>
   sites r' = sites r \<Longrightarrow> named r' = named r \<Longrightarrow> rowbuf r' = rowbuf r \<Longrightarrow>
   (rstate r' = On \<Longrightarrow> rstate r = On) \<Longrightarrow> rec_good names evs r'"
  unfolding rec_good_def using rec_rows_cong [of r' r] site_names_cong [of r' r] by metis

lemma rec_good_off: "rstate r \<noteq> On \<Longrightarrow> rec_good names evs r \<Longrightarrow> rec_good names evs' r"
  by (simp add: rec_good_def)

lemma rec_step_good:
  assumes step: "rec_step digest hash128 a r = Some r'" and good: "rec_good names evs r"
    and ok: "op_ok names a" "request_fits a"
  shows "rec_good names (evs @ op_event digest hash128 (polls r) a) r' \<and> polls r' = op_polls a (polls r)"
proof -
  have empty: "rowbuf r = []" using good by (simp add: rec_good_def)
  show ?thesis
  proof (cases "rstate r = On")
    case False
    show ?thesis
    proof (cases a)
      case (OpCap c)
      with step good False show ?thesis
        by (auto simp: rec_step_def set_cap_def rec_good_def)
    qed (use step False good in \<open>auto simp: rec_step_def rec_call_def rec_finish_def rec_block_def rec_abort_def
          rec_poll_def rec_wake_def rec_cancel_def rec_input_def rec_end_def take_notice_def rec_good_def Let_def
          split: if_splits\<close>)
  next
    case On: True
    show ?thesis
    proof (cases a)
      case (OpCall site module name request v res)
      with step ok have "rec_call digest site module name request v res r = Some r'" "names site = (module, name)"
        "utf8_valid module" "utf8_valid name" "length request < 2 ^ 64" by (simp_all add: rec_step_def)
      with rec_call_good [OF _ good On] OpCall show ?thesis by simp
    next
      case (OpFinish h v res)
      with step On empty have "push KFinish (r\<lparr>rowbuf := u32_bytes h @ reply_bytes (v, res)\<rparr>) = Some r'"
        by (simp add: rec_step_def rec_finish_def put_uleb_eq put_reply_bytes u32_bytes_def)
      from push_good [OF this good On decode_finish] OpFinish show ?thesis by simp
    next
      case (OpBlock hs)
      with step On empty have "push KBlock (r\<lparr>rowbuf := handle_bytes hs\<rparr>) = Some r'"
        by (simp add: rec_step_def rec_block_def put_handles_bytes)
      from push_good [OF this good On decode_block] OpBlock show ?thesis by simp
    next
      case (OpAbort h)
      with step On empty have "push KAbort (r\<lparr>rowbuf := u32_bytes h\<rparr>) = Some r'"
        by (simp add: rec_step_def rec_abort_def put_uleb_eq u32_bytes_def)
      from push_good [OF this good On decode_abort] OpAbort show ?thesis by simp
    next
      case OpPoll
      with step have "r' = r\<lparr>polls := polls r + 1\<rparr>" by (auto simp: rec_step_def rec_poll_def split: if_splits)
      moreover from this have "rec_good names evs r'" by (intro rec_good_keep [OF good]) simp_all
      ultimately show ?thesis using OpPoll by simp
    next
      case (OpWake hs)
      with step On empty have "push KWake (r\<lparr>rowbuf := uleb (polls r) @ handle_bytes hs\<rparr>) = Some r'"
        by (simp add: rec_step_def rec_wake_def put_handles_bytes put_uleb_eq)
      from push_good [OF this good On decode_wake] OpWake show ?thesis by simp
    next
      case OpCancel
      with step On empty have "push KCancel (r\<lparr>rowbuf := uleb (polls r)\<rparr>) = Some r'"
        by (simp add: rec_step_def rec_cancel_def put_uleb_eq)
      from push_good [OF this good On decode_cancel] OpCancel show ?thesis by simp
    next
      case (OpInput n source module)
      let ?r = "r\<lparr>polls := 0\<rparr>"
      from OpInput step On empty have p: "push KInput (?r\<lparr>rowbuf := u32_bytes n @ le_bytes 16 (hash128 source)
          @ le_bytes 16 (hash128 module)\<rparr>) = Some r'"
        by (simp add: rec_step_def rec_input_def put_uleb_eq u32_bytes_def)
      have "rec_good names evs ?r" by (rule rec_good_keep [OF good]) simp_all
      from push_good [OF p this _ decode_input] On OpInput show ?thesis by simp
    next
      case (OpEnd e)
      with step On empty have "push KEnd (r\<lparr>rowbuf := end_bytes e\<rparr>) = Some r'"
        by (simp add: rec_step_def rec_end_def end_bytes_def)
      from push_good [OF this good On decode_end] OpEnd show ?thesis by simp
    next
      case (OpCap c)
      with step ok have "r' = r\<lparr>cap := c\<rparr>" "c < 2 ^ 64" by (auto simp: rec_step_def set_cap_def)
      with OpCap good show ?thesis
        by (auto simp: rec_good_def rec_rows_def site_names_def)
    next
      case OpNotice
      with step On have "r' = r" by (simp add: rec_step_def take_notice_def)
      with OpNotice good show ?thesis by simp
    qed
  qed
qed

lemma rec_run_good:
  "rec_run digest hash128 as r = Some r' \<Longrightarrow> rec_good names evs r \<Longrightarrow> (\<forall>a\<in>set as. op_ok names a \<and> request_fits a) \<Longrightarrow>
   rec_good names (evs @ op_events digest hash128 (polls r) as) r'"
proof (induction as arbitrary: r evs)
  case (Cons a as)
  from Cons.prems(1) obtain q where q: "rec_step digest hash128 a r = Some q" "rec_run digest hash128 as q = Some r'"
    by (auto split: option.splits)
  note step = rec_step_good [OF q(1) Cons.prems(2)]
  from Cons.prems(3) step have "rec_good names (evs @ op_event digest hash128 (polls r) a) q"
    "polls q = op_polls a (polls r)" by simp_all
  with Cons.IH [OF q(2) this(1)] Cons.prems(3) show ?case by simp
qed simp

lemma recorder_new_good:
  assumes "recorder_new c x = Some r" "c < 2 ^ 64"
  shows "rec_good names [EvHeader FORMAT x] r \<and> polls r = 0"
proof -
  let ?r = "\<lparr>bytes = [], cap = c, next_index = 0, sites = [], named = 0, rowbuf = [], polls = 0, rstate = On\<rparr>"
  have "rec_rows [] [] ?r" using assms(2) by (auto simp: rec_rows_def intro: exI [of _ "[]"])
  then have "rec_good names [] ?r" by (auto simp: rec_good_def site_names_def)
  moreover have "push KHeader (?r\<lparr>rowbuf := uleb FORMAT @ le_bytes 16 x\<rparr>) = Some r"
    using assms(1) by (simp add: recorder_new_def put_uleb_eq)
  ultimately show ?thesis using push_good [where r = ?r and evs = "[]" and names = names, OF _ _ _ decode_header] by simp
qed

lemma recorder_rows:
  assumes "recorder_new c x = Some r" "c < 2 ^ 64"
    "rec_run digest hash128 as r = Some r'" "\<forall>a\<in>set as. op_ok names a \<and> request_fits a"
    "rec_journal r' = Some b"
  shows "\<exists>rows ms. b = frames rows \<and> numbered 0 rows \<and> length b < 2 ^ 64 \<and>
    decode_rows [] rows = Some (EvHeader FORMAT x # op_events digest hash128 0 as, ms)"
proof -
  from recorder_new_good [OF assms(1,2)] rec_run_good [OF assms(3) _ assms(4)]
  have "rec_good names (EvHeader FORMAT x # op_events digest hash128 0 as) r'" by fastforce
  moreover from assms(5) have "rstate r' = On" "b = bytes r'" by (auto simp: rec_journal_def split: if_splits)
  ultimately show ?thesis by (auto simp: rec_good_def rec_rows_def)
qed

lemma rec_run_append:
  "rec_run digest hash128 (as @ bs) r =
   (case rec_run digest hash128 as r of None \<Rightarrow> None | Some r \<Rightarrow> rec_run digest hash128 bs r)"
  by (induction as arbitrary: r) (auto split: option.splits)

lemma rec_step_polls:
  "rec_step digest hash128 a r = Some r' \<Longrightarrow> polls r' = op_polls a (polls r) \<and> (a = OpPoll \<longrightarrow> polls r \<noteq> - 1)"
  by (cases a)
    (auto simp: rec_step_def rec_call_def rec_finish_def rec_block_def rec_abort_def rec_poll_def rec_wake_def
      rec_cancel_def rec_input_def rec_end_def set_cap_def take_notice_def Let_def split: if_splits dest!: push_frame)

lemma decode_rows_take:
  "decode_rows ms rs = Some (evs, ms') \<Longrightarrow>
   length evs = length rs \<and> (\<exists>ms''. decode_rows ms (take k rs) = Some (take k evs, ms''))"
proof (induction rs arbitrary: ms evs k)
  case (Cons r rs)
  from Cons.prems obtain ev ms1 evs1 where *: "decode_row r ms = Some (ev, ms1)" "decode_rows ms1 rs = Some (evs1, ms')"
    "evs = ev # evs1" by (auto split: bind_splits)
  show ?case
  proof (cases k)
    case (Suc j)
    from Cons.IH [OF *(2), of j] *(1,3) Suc show ?thesis by auto
  qed (use Cons.IH [OF *(2)] * in auto)
qed simp

lemma frames_foldl: "foldl append_row b rs = b @ frames rs"
  by (induction rs arbitrary: b) (simp_all add: codec_simps)

lemma numbered_nth: "(\<forall>i<length rs. rindex (rs ! i) = word_of_nat (n + i)) \<Longrightarrow> numbered n rs"
proof (induction rs arbitrary: n)
  case (Cons r rs)
  from Cons.prems have "rindex r = word_of_nat n" by auto
  moreover have "numbered (Suc n) rs"
  proof (rule Cons.IH, intro allI impI)
    fix i assume "i < length rs"
    with Cons.prems [rule_format, of "Suc i"] show "rindex (rs ! i) = word_of_nat (Suc n + i)" by simp
  qed
  ultimately show ?case by simp
qed simp

text \<open>A row with one byte of its payload changed under the old checksum.\<close>

lemma parse_row_flipped:
  assumes "length (pre @ frame r @ rest) < 2 ^ 64" "i < length (payload r)" "x \<noteq> payload r ! i"
    and b: "b = (pre @ frame r @ rest)[length pre + 1 + length (uleb (rindex r))
      + length (uleb (word_of_nat (length (payload r)))) + i := x]"
  shows "parse_row b (length pre) (kind_byte (rkind r)) = RowBad"
proof -
  let ?k = "kind_byte (rkind r)" and ?i = "uleb (rindex r)" and ?l = "uleb (word_of_nat (length (payload r)))"
  let ?p = "(payload r)[i := x]"
  let ?head = "?k # ?i @ ?l"
  let ?c = "le_bytes 4 (crc32 (?head @ payload r))"
  have fr: "frame r = ?head @ payload r @ ?c" by (simp add: frame_def Let_def)
  have "length (pre @ frame r @ rest) = length (pre @ ?head) + length (payload r @ ?c @ rest)" by (simp add: fr)
  then have len: "unat (word_of_nat (length (payload r)) :: u64) = length (payload r)"
    using assms(1) by (intro unat_word_of_nat) simp
  have b: "b = pre @ ?head @ ?p @ ?c @ rest"
    using assms(2) unfolding b by (simp add: fr list_update_append)
  have i: "get_uleb b (length pre + 1) = Some (rindex r, length (pre @ [?k] @ ?i))"
    using get_uleb_uleb [of "pre @ [?k]" "rindex r" "?l @ ?p @ ?c @ rest"] by (simp add: b)
  have l: "get_uleb b (length (pre @ [?k] @ ?i)) =
      Some (word_of_nat (length (payload r)), length (pre @ [?k] @ ?i @ ?l))"
    using get_uleb_uleb [of "pre @ [?k] @ ?i" "word_of_nat (length (payload r))" "?p @ ?c @ rest"]
    by (simp add: b)
  let ?at = "length (pre @ [?k] @ ?i @ ?l)"
  have p: "get_range b ?at (?at + length (payload r)) = Some ?p"
    using get_range_mid [of "pre @ [?k] @ ?i @ ?l" ?p "?c @ rest"] by (simp add: b)
  have c: "get_range b (?at + length (payload r)) (?at + length (payload r) + 4) = Some ?c"
    using get_range_mid [of "pre @ ?head @ ?p" ?c rest] by (simp add: b add.assoc)
  have body: "take (?at + length (payload r) - length pre) (drop (length pre) b) = ?head @ ?p" by (simp add: b)
  have over: "\<not> 2 ^ 64 \<le> ?at + length (payload r)" using assms(1) by (simp add: fr)
  have "payload r = take i (payload r) @ payload r ! i # drop (Suc i) (payload r)"
    "?p = take i (payload r) @ x # drop (Suc i) (payload r)"
    using assms(2) by (simp_all add: id_take_nth_drop [symmetric] upd_conv_take_nth_drop)
  with crc32_one_byte [OF assms(3) [symmetric], of "?head @ take i (payload r)" "drop (Suc i) (payload r)"]
  have crc: "of_le_bytes ?c \<noteq> crc32 (?head @ ?p)" by (simp add: codec_simps)
  show ?thesis
    unfolding parse_row_def kind_byte_get option.case i l prod.case len p c body
    using over crc by simp
qed

lemma read_from_prefix:
  "numbered (length done) rs \<Longrightarrow> length (pre @ frames rs @ rest) < 2 ^ 64 \<Longrightarrow>
   read_from (pre @ frames rs @ rest) (length pre) done =
   read_from (pre @ frames rs @ rest) (length (pre @ frames rs)) (done @ rs)"
proof (induction rs arbitrary: pre "done")
  case (Cons r rs)
  let ?b = "pre @ frame r @ frames rs @ rest"
  have bound: "length ?b < 2 ^ 64" using Cons.prems(2) by simp
  have k: "get_at ?b (length pre) = Some (kind_byte (rkind r))"
    using frame_not_empty [of r] by (simp add: get_at_def nth_append)
  have "read_from ?b (length pre) done = read_from ?b (length pre + length (frame r)) (done @ [r])"
    using Cons.prems(1) frame_not_empty(2) [of r]
    by (subst read_from.simps) (simp only: k parse_row_frame [OF bound] option.case row_read.case
      numbered.simps append.assoc if_True simp_thms diff_add le_add_diff_inverse2 less_imp_le_nat)
  moreover have "read_from ((pre @ frame r) @ frames rs @ rest) (length (pre @ frame r)) (done @ [r]) =
      read_from ((pre @ frame r) @ frames rs @ rest) (length ((pre @ frame r) @ frames rs)) ((done @ [r]) @ rs)"
    by (rule Cons.IH) (use Cons.prems in auto)
  ultimately show ?case by simp
qed simp

text \<open>What the cap and the notice do.\<close>

lemma rec_step_cap:
  assumes "rec_step digest hash128 a r = Some r'" "\<forall>c. a \<noteq> OpCap c"
    "length (bytes r) \<le> cap r" "rstate r \<noteq> On \<Longrightarrow> bytes r = []"
  shows "cap r' = cap r \<and> length (bytes r') \<le> cap r' \<and> (rstate r' \<noteq> On \<longrightarrow> bytes r' = [])"
proof -
  have push: "cap q' = cap q \<and> length (bytes q') \<le> cap q' \<and> (rstate q' \<noteq> On \<longrightarrow> bytes q' = [])"
    if "push k q = Some q'" "rstate q = On" "cap q = cap r" "bytes q = bytes r" for k q q'
    using that(1,2)
  proof (cases rule: push_cases)
    case row
    with that(2) show ?thesis by simp
  qed simp
  show ?thesis
    using assms by (cases a)
      (auto simp: rec_step_def rec_call_def rec_finish_def rec_block_def rec_abort_def rec_poll_def rec_wake_def
        rec_cancel_def rec_input_def rec_end_def take_notice_def Let_def split: if_splits dest!: push)
qed

lemma rec_step_off:
  "rec_step digest hash128 a r = Some r' \<Longrightarrow> rstate r = Off told \<Longrightarrow> rstate r' = Off (told \<or> a = OpNotice)"
  by (cases a)
    (auto simp: rec_step_def rec_call_def rec_finish_def rec_block_def rec_abort_def rec_poll_def rec_wake_def
      rec_cancel_def rec_input_def rec_end_def set_cap_def take_notice_def Let_def split: if_splits)

lemma rec_run_off:
  "rec_run digest hash128 as r = Some r' \<Longrightarrow> rstate r = Off told \<Longrightarrow> rstate r' = Off (told \<or> OpNotice \<in> set as)"
proof (induction as arbitrary: r told)
  case (Cons a as)
  from Cons.prems(1) obtain q where q: "rec_step digest hash128 a r = Some q" "rec_run digest hash128 as q = Some r'"
    by (auto split: option.splits)
  from Cons.IH [OF q(2) rec_step_off [OF q(1) Cons.prems(2)]] show ?case by auto
qed simp

lemma rec_run_cap:
  "rec_run digest hash128 as r = Some r' \<Longrightarrow> \<forall>c. OpCap c \<notin> set as \<Longrightarrow> length (bytes r) \<le> cap r \<Longrightarrow>
   (rstate r \<noteq> On \<longrightarrow> bytes r = []) \<Longrightarrow> length (bytes r') \<le> cap r \<and> (rstate r' \<noteq> On \<longrightarrow> bytes r' = [])"
proof (induction as arbitrary: r)
  case (Cons a as)
  from Cons.prems(1) obtain q where q: "rec_step digest hash128 a r = Some q" "rec_run digest hash128 as q = Some r'"
    by (auto split: option.splits)
  from rec_step_cap [OF q(1)] Cons.prems have "cap q = cap r \<and> length (bytes q) \<le> cap q \<and> (rstate q \<noteq> On \<longrightarrow> bytes q = [])"
    by auto
  with Cons.IH [OF q(2)] Cons.prems(2) show ?case by auto
qed simp

section \<open>Properties\<close>

text \<open>A journal that records is read back whole: whatever calls a recorder got since it was made,
  while it still records, the reader accepts every byte of its journal, and the rows decode to the
  header and to one event per call, in the order of the calls, with the arguments, values and polls
  they had (a long request as its digest).\<close>

lemma recorder_decodes:
  assumes "recorder_new c x = Some r" "c < 2 ^ 64"
    "rec_run digest hash128 as r = Some r'" "\<forall>a\<in>set as. op_ok names a \<and> request_fits a"
    "rec_journal r' = Some b"
  shows "\<exists>rows. read b = Some (rows, length b) \<and>
    decode rows = Inr (EvHeader FORMAT x # op_events digest hash128 0 as)"
proof -
  from recorder_rows [OF assms] obtain rows ms where "b = frames rows" "numbered 0 rows" "length b < 2 ^ 64"
    "decode_rows [] rows = Some (EvHeader FORMAT x # op_events digest hash128 0 as, ms)"
    by blast
  with read_frames [of rows] decode_rows_from show ?thesis by (auto simp: decode_def)
qed

text \<open>C37. A torn journal reads as the rows whose bytes all arrived: from any prefix of the appended
  rows, cut anywhere, the reader returns exactly the rows that are whole in it and the position where
  they end, without an error.\<close>

theorem read_torn_tail:
  assumes "\<forall>i<length rows. rindex (rows ! i) = word_of_nat i" "length (foldl append_row [] rows) < 2 ^ 64"
    "m \<le> length (foldl append_row [] rows)"
  shows "\<exists>k n. read (take m (foldl append_row [] rows)) = Some (take k rows, n) \<and>
    n = length (foldl append_row [] (take k rows)) \<and> n \<le> m \<and> k \<le> length rows \<and>
    (k = length rows \<or> m < length (foldl append_row [] (take (Suc k) rows)))"
  using read_cut [of rows m] numbered_nth [of rows 0] whole_frames_bounds [of m rows] assms
  by (intro exI [of _ "whole_frames m rows"] exI [of _ "length (frames (take (whole_frames m rows) rows))"])
    (auto simp: frames_foldl)

text \<open>C38. The row length is trusted before the checksum: a row whose length field holds \<open>2^64 - 1\<close>
  makes the reader's \<open>at + len\<close> overflow, whatever kind, index and bytes it has, so a checked build
  panics on the corrupt row it should stop at.\<close>

theorem read_length_panics: "read (kind_byte k # uleb i @ uleb (- 1) @ rest) = None"
proof -
  let ?b = "kind_byte k # uleb i @ uleb (- 1) @ rest"
  have i: "get_uleb ?b (0 + 1) = Some (i, 1 + length (uleb i))"
    using get_uleb_uleb [of "[kind_byte k]" i "uleb (- 1) @ rest"] by simp
  have l: "get_uleb ?b (1 + length (uleb i)) = Some (- 1, 1 + length (uleb i) + length (uleb (- 1)))"
    using get_uleb_uleb [of "kind_byte k # uleb i" "- 1" rest] by simp
  have "unat (- 1 :: u64) = 2 ^ 64 - 1" by (simp add: unsigned_minus_1_eq_mask mask_eq_exp_minus_1)
  then have "2 ^ 64 \<le> 1 + length (uleb i) + length (uleb (- 1)) + unat (- 1 :: u64)" by simp
  then have "parse_row ?b 0 (kind_byte k) = RowPanic"
    unfolding parse_row_def kind_byte_get option.case i l prod.case by (simp only: if_True)
  moreover have "get_at ?b 0 = Some (kind_byte k)" by (simp add: get_at_def)
  ultimately show ?thesis
    unfolding read_def by (subst read_from.simps) (simp only: option.case row_read.case)
qed

text \<open>A corrupt payload stops the reader before its row: when one byte of the payload of row \<open>j\<close>
  is changed, reading the journal returns the rows before \<open>j\<close> and the position where they end.\<close>

lemma read_flipped_payload:
  assumes "\<forall>i<length rows. rindex (rows ! i) = word_of_nat i" "length (foldl append_row [] rows) < 2 ^ 64"
    "j < length rows" "i < length (payload (rows ! j))" "x \<noteq> payload (rows ! j) ! i"
    "start = length (foldl append_row [] (take j rows))"
    "p = start + 1 + uleb_len (rindex (rows ! j)) + uleb_len (word_of_nat (length (payload (rows ! j)))) + i"
  shows "read ((foldl append_row [] rows)[p := x]) = Some (take j rows, start)"
proof -
  let ?r = "rows ! j" and ?pre = "frames (take j rows)" and ?rest = "frames (drop (Suc j) rows)"
  let ?p = "1 + length (uleb (rindex ?r)) + length (uleb (word_of_nat (length (payload ?r)))) + i"
  have all: "foldl append_row [] rows = ?pre @ frame ?r @ ?rest"
    using id_take_nth_drop [OF assms(3)] frames_simps by (metis frames_foldl append_Nil)
  have start: "start = length ?pre" using assms(6) by (simp add: frames_foldl)
  have p: "p = length ?pre + ?p" using assms(7) by (simp add: start length_uleb)
  let ?b = "(foldl append_row [] rows)[p := x]"
  have split: "?b = ?pre @ (frame ?r @ ?rest)[?p := x]"
    unfolding all p by (subst list_update_append) (simp add: add.assoc)
  have num: "numbered 0 (take j rows)"
    using numbered_nth [of rows 0] numbered_append [of 0 "take j rows" "drop j rows"] assms(1) by simp
  have len: "length (?pre @ (frame ?r @ ?rest)[?p := x]) < 2 ^ 64"
    using assms(2) unfolding split [symmetric] by simp
  have "read ?b = read_from ?b (length ?pre) (take j rows)"
    using read_from_prefix [of "[]" "take j rows" "[]" "(frame ?r @ ?rest)[?p := x]"] num len
    unfolding split read_def by simp
  moreover have "parse_row ?b (length ?pre) (kind_byte (rkind ?r)) = RowBad"
    by (rule parse_row_flipped [OF _ assms(4,5)]) (use assms(2) p all in \<open>simp_all add: algebra_simps\<close>)
  moreover have "get_at ?b (length ?pre) = Some (kind_byte (rkind ?r))"
    using frame_not_empty [of ?r] unfolding split by (simp add: get_at_def nth_append)
  ultimately show ?thesis unfolding start by (subst (asm) read_from.simps) simp
qed

text \<open>Recording never passes its cap, and stopping is final: with the cap left alone the journal
  never holds more bytes than it, and none once recording stopped; and once it stopped there is no
  journal whatever is called, and the notice is given to the first that asks and to no other.\<close>

lemma recorder_cap_stops:
  assumes "recorder_new c x = Some r" "rec_run digest hash128 as r = Some r'"
    "rec_run digest hash128 as' r' = Some r''"
  shows "((\<forall>d. OpCap d \<notin> set as) \<longrightarrow> length (bytes r') \<le> c \<and> (rec_journal r' = None \<longrightarrow> bytes r' = [])) \<and>
    (rec_journal r' = None \<longrightarrow> rec_journal r'' = None) \<and>
    (rstate r' = Off False \<longrightarrow> fst (take_notice r'') = (OpNotice \<notin> set as')) \<and>
    (rstate r' = Off True \<longrightarrow> \<not> fst (take_notice r''))"
proof -
  have "length (bytes r) \<le> cap r \<and> cap r = c \<and> (rstate r \<noteq> On \<longrightarrow> bytes r = [])"
    using assms(1) unfolding recorder_new_def by (elim push_cases) auto
  with rec_run_cap [OF assms(2)]
  have "(\<forall>d. OpCap d \<notin> set as) \<Longrightarrow> length (bytes r') \<le> c \<and> (rec_journal r' = None \<longrightarrow> bytes r' = [])"
    by (auto simp: rec_journal_def)
  moreover have "rec_journal r' = None \<longrightarrow> rec_journal r'' = None"
    using rec_run_off [OF assms(3)] by (cases "rstate r'") (auto simp: rec_journal_def)
  moreover have "rstate r' = Off False \<longrightarrow> fst (take_notice r'') = (OpNotice \<notin> set as')"
    using rec_run_off [OF assms(3), of False] by (auto simp: take_notice_def)
  moreover have "rstate r' = Off True \<longrightarrow> \<not> fst (take_notice r'')"
    using rec_run_off [OF assms(3), of True] by (auto simp: take_notice_def)
  ultimately show ?thesis by simp
qed

text \<open>Witnesses.\<close>

definition sample_ops :: "rec_op list" where
  "sample_ops = [OpPoll, OpCall 0 [104] [105] [1] VVoid (Some [9]), OpWake [3]]"

definition a_digest :: "u8 list \<Rightarrow> u64" where
  "a_digest xs = word_of_nat (length xs)"

definition a_hash :: "u8 list \<Rightarrow> u128" where
  "a_hash xs = word_of_nat (length xs)"

definition sample_recorder :: "recorder \<times> recorder" where
  "sample_recorder = (let r = the (recorder_new 4096 5) in (r, the (rec_run a_digest a_hash sample_ops r)))"

lemma uleb_small: "v < 128 \<Longrightarrow> uleb v = [ucast v]"
proof -
  assume "v < 128"
  then have v: "unat v < 128" by (simp add: word_less_nat_alt)
  then have "drop_bit 7 v = 0" by (simp add: word_unat_eq_iff drop_bit_eq_div unat_div)
  moreover have "v AND 0x7f = take_bit 7 v" by (simp add: take_bit_eq_mask mask_eq_exp_minus_1)
  moreover have "take_bit 7 v = v"
    using v by (simp add: word_unat_eq_iff unsigned_take_bit_eq take_bit_nat_eq_self)
  ultimately show ?thesis by (subst uleb.simps) simp
qed

lemma uleb_len_small: "v < 128 \<Longrightarrow> uleb_len v = 1"
  using length_uleb [of v] by (simp add: uleb_small)

lemmas record_eval = push_def Let_def uleb_len_small put_uleb_eq uleb_small append_parts_frame length_frame
  put_reply_bytes put_handles_bytes reply_bytes_def value_bytes_def counted_def handle_bytes_def u32_bytes_def

lemma sample_start:
  "fst sample_recorder = \<lparr>bytes = frame \<lparr>rkind = KHeader, rindex = 0, payload = 1 # le_bytes 16 (5 :: u128)\<rparr>,
     cap = 4096, next_index = 1, sites = [], named = 0, rowbuf = [], polls = 0, rstate = On\<rparr> \<and>
   recorder_new 4096 5 = Some (fst sample_recorder)"
  by (simp add: sample_recorder_def recorder_new_def FORMAT_def record_eval)

definition sample_rows :: "row list" where
  "sample_rows = [\<lparr>rkind = KHeader, rindex = 0, payload = [1, 2]\<rparr>, \<lparr>rkind = KEnd, rindex = 1, payload = [0, 3]\<rparr>]"

lemma sample_run:
  "rec_run a_digest a_hash sample_ops (fst sample_recorder) = Some (snd sample_recorder) \<and>
   rstate (snd sample_recorder) = On"
proof -
  have "\<exists>q. rec_run a_digest a_hash sample_ops (fst sample_recorder) = Some q \<and> rstate q = On"
    unfolding conjunct1 [OF sample_start] sample_ops_def
    by (simp add: rec_step_def rec_poll_def rec_call_def rec_wake_def record_eval)
  then obtain q where "rec_run a_digest a_hash sample_ops (fst sample_recorder) = Some q" "rstate q = On" by blast
  moreover have "snd sample_recorder = the (rec_run a_digest a_hash sample_ops (fst sample_recorder))"
    by (simp only: sample_recorder_def Let_def fst_conv snd_conv)
  ultimately show ?thesis by simp
qed

lemma recorder_decodes_witness:
  "\<exists>b rows. rec_journal (snd sample_recorder) = Some b \<and> read b = Some (rows, length b) \<and>
    decode rows = Inr [EvHeader 1 5, EvCall [104] [105] (Args [1]) VVoid (Some [9]), EvWake 1 [3]]"
proof -
  have j: "rec_journal (snd sample_recorder) = Some (bytes (snd sample_recorder))"
    by (simp add: rec_journal_def sample_run)
  have "op_events a_digest a_hash 0 sample_ops = [EvCall [104] [105] (Args [1]) VVoid (Some [9]), EvWake 1 [3]]"
    by (simp add: sample_ops_def request_of_def)
  with recorder_decodes [OF conjunct2 [OF sample_start] _ conjunct1 [OF sample_run] _ j, of "\<lambda>_. ([104], [105])"]
  show ?thesis using j by (auto simp: sample_ops_def FORMAT_def utf8_valid.simps)
qed

theorem read_torn_tail_witness:
  "\<exists>k n. read (take 9 (foldl append_row [] sample_rows)) = Some (take k sample_rows, n) \<and>
    n = length (foldl append_row [] (take k sample_rows)) \<and> n \<le> 9 \<and> k \<le> length sample_rows \<and>
    (k = length sample_rows \<or> 9 < length (foldl append_row [] (take (Suc k) sample_rows)))"
  by (rule read_torn_tail)
    (simp_all add: sample_rows_def less_Suc_eq append_row_frame length_frame uleb_len_small)

lemma read_flipped_payload_witness:
  "read ((foldl append_row [] sample_rows)[12 := 9]) = Some (take 1 sample_rows, 9)"
  by (rule read_flipped_payload [where i = 0])
    (simp_all add: sample_rows_def less_Suc_eq append_row_frame length_frame uleb_len_small)

lemma recorder_cap_stops_witness:
  "length (bytes (snd sample_recorder)) \<le> 4096 \<and> recorder_new 4096 5 = Some (fst sample_recorder)"
  using recorder_cap_stops [OF conjunct2 [OF sample_start] conjunct1 [OF sample_run], where as' = "[]" and r'' = "snd sample_recorder"] sample_start
  by (simp add: sample_ops_def)
end
