(* ===== verification/Replay.thy ===== *)
theory Replay
  imports Journal
begin

text \<open>
  \<^verbatim>\<open>crates/hd_run/src/replay.rs\<close>: the inputs a journal recorded, and the replay that serves one
  input's host calls and wakes from its rows. The texts of errors and divergences are data: one
  constructor per message, with what the message names. \<open>hash128\<close> is a parameter, as in \<open>Journal\<close>.
\<close>

section \<open>Recorded inputs\<close>

record recorded_input =
  ri_number :: u32
  ri_source :: u128
  ri_module :: u128
  ri_events :: "event list"
  ri_end :: "end_kind option"

definition ran_text :: "(u8 list \<Rightarrow> u128) \<Rightarrow> recorded_input \<Rightarrow> str \<Rightarrow> bool" where
  "ran_text hash128 i source = (hash128 source = ri_source i)"

record recorded =
  rc_execution :: u128
  rc_inputs :: "recorded_input list"

text \<open>\<open>describe\<close>: a row as a message names it.\<close>

datatype found = FNothing | FHeader | FInput u32 | FCall str str | FFinish u32 | FWake u64 | FBlock
  | FAbort u32 | FCancel | FEnd end_kind

fun describe :: "event option \<Rightarrow> found" where
  "describe None = FNothing"
| "describe (Some (EvHeader _ _)) = FHeader"
| "describe (Some (EvInput number _ _)) = FInput number"
| "describe (Some (EvCall module name _ _ _)) = FCall module name"
| "describe (Some (EvFinish handle _ _)) = FFinish handle"
| "describe (Some (EvWake poll _)) = FWake poll"
| "describe (Some (EvBlock _)) = FBlock"
| "describe (Some (EvAbort handle)) = FAbort handle"
| "describe (Some (EvCancel _)) = FCancel"
| "describe (Some (EvEnd e)) = FEnd e"

datatype record_error = RowFails u64 row_kind | BadFormat u64 | NoHeader | OutsideInput found

text \<open>The loop of \<open>recorded\<close> over the events after the header; the inputs so far are in order.\<close>

fun group_inputs :: "recorded_input list \<Rightarrow> event list \<Rightarrow> record_error + recorded_input list" where
  "group_inputs inputs [] = Inr inputs"
| "group_inputs inputs (ev # evs) =
     (case ev of
        EvInput number source module \<Rightarrow>
          group_inputs (inputs @ [\<lparr>ri_number = number, ri_source = source, ri_module = module,
                                   ri_events = [], ri_end = None\<rparr>]) evs
      | _ \<Rightarrow>
          if inputs = [] \<or> ri_end (last inputs) \<noteq> None then Inl (OutsideInput (describe (Some ev)))
          else
            (case ev of
               EvEnd e \<Rightarrow> group_inputs (butlast inputs @ [(last inputs)\<lparr>ri_end := Some e\<rparr>]) evs
             | other \<Rightarrow> group_inputs (butlast inputs @
                 [(last inputs)\<lparr>ri_events := ri_events (last inputs) @ [other]\<rparr>]) evs))"

text \<open>\<open>None\<close> is the panic of the reader.\<close>

definition recorded_of :: "u8 list \<Rightarrow> (record_error + recorded) option" where
  "recorded_of bs =
     (case read bs of
        None \<Rightarrow> None
      | Some (rows, _) \<Rightarrow> Some
          (case decode rows of
             Inl (index, kind) \<Rightarrow> Inl (RowFails index kind)
           | Inr [] \<Rightarrow> Inl NoHeader
           | Inr (EvHeader format execution # evs) \<Rightarrow>
               if format = FORMAT
               then (case group_inputs [] evs of
                       Inl e \<Rightarrow> Inl e
                     | Inr inputs \<Rightarrow> Inr \<lparr>rc_execution = execution, rc_inputs = inputs\<rparr>)
               else Inl (BadFormat format)
           | Inr (_ # evs) \<Rightarrow> Inl NoHeader))"

section \<open>Replay\<close>

datatype asked = AskCall str str | AskFinish u32 | AskBlock | AskAbort u32 | AskWait u64 | AskEarly end_kind

datatype divergence =
    OtherArgs u32 asked
  | Unexpected u32 asked found
  | EndedOtherwise u32 end_kind end_kind
  | CutShort u32 end_kind

record replay =
  rp_number :: u32
  rp_events :: "event list"
  rp_polls :: u64
  rp_diverged :: "divergence option"

type_synonym reply = "rvalue \<times> u8 list option"

definition replay_new :: "recorded_input \<Rightarrow> replay" where
  "replay_new i = \<lparr>rp_number = ri_number i, rp_events = ri_events i, rp_polls = 0, rp_diverged = None\<rparr>"

text \<open>\<open>get_or_insert\<close>: the first divergence stays.\<close>

definition diverge :: "divergence \<Rightarrow> replay \<Rightarrow> divergence \<times> replay" where
  "diverge d r =
     (case rp_diverged r of None \<Rightarrow> (d, r\<lparr>rp_diverged := Some d\<rparr>) | Some first \<Rightarrow> (first, r))"

definition front :: "replay \<Rightarrow> event option" where
  "front r = (case rp_events r of [] \<Rightarrow> None | ev # _ \<Rightarrow> Some ev)"

definition unexpected :: "asked \<Rightarrow> replay \<Rightarrow> divergence \<times> replay" where
  "unexpected a r = diverge (Unexpected (rp_number r) a (describe (front r))) r"

text \<open>The error of a diverging request.\<close>

definition failed :: "divergence \<times> replay \<Rightarrow> (divergence + 'a) \<times> replay" where
  "failed = (\<lambda>(d, r). (Inl d, r))"

definition pop_event :: "replay \<Rightarrow> replay" where
  "pop_event r = r\<lparr>rp_events := tl (rp_events r)\<rparr>"

definition replay_call :: "(u8 list \<Rightarrow> u64) \<Rightarrow> str \<Rightarrow> str \<Rightarrow> u8 list \<Rightarrow> replay \<Rightarrow> (divergence + reply) \<times> replay" where
  "replay_call digest module name args r =
     (case front r of
        Some (EvCall m n req val res) \<Rightarrow>
          if m = module \<and> n = name
          then if req \<noteq> request_of digest args
               then failed (diverge (OtherArgs (rp_number r) (AskCall module name)) r)
               else (Inr (val, res), pop_event r)
          else failed (unexpected (AskCall module name) r)
      | _ \<Rightarrow> failed (unexpected (AskCall module name) r))"

definition replay_finish :: "u32 \<Rightarrow> replay \<Rightarrow> (divergence + reply) \<times> replay" where
  "replay_finish handle r =
     (case front r of
        Some (EvFinish h val res) \<Rightarrow>
          if h = handle then (Inr (val, res), pop_event r) else failed (unexpected (AskFinish handle) r)
      | _ \<Rightarrow> failed (unexpected (AskFinish handle) r))"

definition replay_block :: "replay \<Rightarrow> (divergence + u32 list option) \<times> replay" where
  "replay_block r =
     (case front r of
        None \<Rightarrow> (Inr None, r)
      | Some (EvBlock handles) \<Rightarrow> (Inr (Some handles), pop_event r)
      | Some _ \<Rightarrow> failed (unexpected AskBlock r))"

definition replay_abort :: "u32 \<Rightarrow> replay \<Rightarrow> (divergence + unit) \<times> replay" where
  "replay_abort handle r =
     (case front r of
        Some (EvAbort h) \<Rightarrow>
          if h = handle then (Inr (), pop_event r) else failed (unexpected (AskAbort handle) r)
      | _ \<Rightarrow> failed (unexpected (AskAbort handle) r))"

text \<open>\<open>None\<close> is the overflow panic.\<close>

definition replay_poll :: "replay \<Rightarrow> replay option" where
  "replay_poll r = (if rp_polls r = - 1 then None else Some (r\<lparr>rp_polls := rp_polls r + 1\<rparr>))"

definition wake_next :: "replay \<Rightarrow> bool" where
  "wake_next r = (case front r of Some (EvWake _ _) \<Rightarrow> True | _ \<Rightarrow> False)"

definition replay_wake :: "replay \<Rightarrow> (divergence + u32 list) \<times> replay" where
  "replay_wake r =
     (case front r of
        Some (EvWake poll handles) \<Rightarrow>
          if poll = rp_polls r then (Inr handles, pop_event r)
          else failed (unexpected (AskWait (rp_polls r)) r)
      | _ \<Rightarrow> failed (unexpected (AskWait (rp_polls r)) r))"

definition replay_end :: "end_kind \<Rightarrow> end_kind option \<Rightarrow> replay \<Rightarrow> (divergence + unit) \<times> replay" where
  "replay_end e recorded r =
     (case rp_diverged r of
        Some d \<Rightarrow> (Inl d, r)
      | None \<Rightarrow>
          if rp_events r \<noteq> [] then failed (unexpected (AskEarly e) r)
          else
            (case recorded of
               Some e' \<Rightarrow>
                 if e' = e then (Inr (), r) else failed (diverge (EndedOtherwise (rp_number r) e e') r)
             | None \<Rightarrow> failed (diverge (CutShort (rp_number r) e) r)))"

section \<open>Runs of a replay\<close>

datatype replay_op = RpCall str str "u8 list" | RpFinish u32 | RpBlock | RpAbort u32 | RpPoll | RpWake

datatype answer = AReply reply | AHandles "u32 list" | ANothing | AOk

text \<open>One request of the program: its answer or the divergence.\<close>

definition replay_step :: "(u8 list \<Rightarrow> u64) \<Rightarrow> replay_op \<Rightarrow> replay \<Rightarrow> ((divergence + answer) \<times> replay) option" where
  "replay_step digest a r =
     (case a of
        RpCall module name args \<Rightarrow> Some (apfst (map_sum (\<lambda>d. d) AReply) (replay_call digest module name args r))
      | RpFinish handle \<Rightarrow> Some (apfst (map_sum (\<lambda>d. d) AReply) (replay_finish handle r))
      | RpBlock \<Rightarrow> Some (apfst (map_sum (\<lambda>d. d) (\<lambda>h. case h of None \<Rightarrow> ANothing | Some hs \<Rightarrow> AHandles hs)) (replay_block r))
      | RpAbort handle \<Rightarrow> Some (apfst (map_sum (\<lambda>d. d) (\<lambda>_. AOk)) (replay_abort handle r))
      | RpPoll \<Rightarrow> map_option (\<lambda>r. (Inr AOk, r)) (replay_poll r)
      | RpWake \<Rightarrow> Some (apfst (map_sum (\<lambda>d. d) AHandles) (replay_wake r)))"

text \<open>A program that goes on whatever it is answered, as a trapped one may not.\<close>

fun replay_run :: "(u8 list \<Rightarrow> u64) \<Rightarrow> replay_op list \<Rightarrow> replay \<Rightarrow> ((divergence + answer) list \<times> replay) option" where
  "replay_run digest [] r = Some ([], r)"
| "replay_run digest (a # as) r =
     (case replay_step digest a r of
        None \<Rightarrow> None
      | Some (x, r) \<Rightarrow>
          (case replay_run digest as r of None \<Rightarrow> None | Some (xs, r) \<Rightarrow> Some (x # xs, r)))"

section \<open>What a replay answers\<close>

text \<open>The answer an event holds for a request made after \<open>n\<close> polls.\<close>

fun event_answer :: "(u8 list \<Rightarrow> u64) \<Rightarrow> u64 \<Rightarrow> event \<Rightarrow> replay_op \<Rightarrow> answer option" where
  "event_answer digest n (EvCall m f req val res) (RpCall module name args) =
     (if m = module \<and> f = name \<and> req = request_of digest args then Some (AReply (val, res)) else None)"
| "event_answer digest n (EvFinish h val res) (RpFinish handle) =
     (if h = handle then Some (AReply (val, res)) else None)"
| "event_answer digest n (EvBlock hs) RpBlock = Some (AHandles hs)"
| "event_answer digest n (EvAbort h) (RpAbort handle) = (if h = handle then Some AOk else None)"
| "event_answer digest n (EvWake poll hs) RpWake = (if poll = n then Some (AHandles hs) else None)"
| "event_answer digest n _ _ = None"

text \<open>The requests ask for exactly the events, in order, and get the answers \<open>xs\<close>.\<close>

fun served :: "(u8 list \<Rightarrow> u64) \<Rightarrow> u64 \<Rightarrow> event list \<Rightarrow> replay_op list \<Rightarrow> answer list \<Rightarrow> bool" where
  "served digest n evs [] xs = (evs = [] \<and> xs = [])"
| "served digest n evs (RpPoll # as) (x # xs) = (x = AOk \<and> n \<noteq> - 1 \<and> served digest (n + 1) evs as xs)"
| "served digest n [] (a # as) (x # xs) = (a = RpBlock \<and> x = ANothing \<and> served digest n [] as xs)"
| "served digest n (ev # evs) (a # as) (x # xs) =
     (event_answer digest n ev a = Some x \<and> served digest n evs as xs)"
| "served digest n evs (a # as) [] = False"

lemma event_answer_poll [simp]: "event_answer digest n ev RpPoll = None"
  by (cases ev) simp_all

lemma step_ok:
  "replay_step digest a r = Some (Inr y, r') \<longleftrightarrow>
     a = RpPoll \<and> y = AOk \<and> rp_polls r \<noteq> - 1 \<and> r' = r\<lparr>rp_polls := rp_polls r + 1\<rparr> \<or>
     a = RpBlock \<and> rp_events r = [] \<and> y = ANothing \<and> r' = r \<or>
     (\<exists>ev evs. rp_events r = ev # evs \<and> event_answer digest (rp_polls r) ev a = Some y \<and> r' = r\<lparr>rp_events := evs\<rparr>)"
proof (cases "rp_events r")
  case Nil
  then show ?thesis
    by (cases a) (auto simp: replay_step_def replay_call_def replay_finish_def replay_block_def replay_abort_def
      replay_poll_def replay_wake_def front_def failed_def unexpected_def diverge_def split: option.splits)
next
  case (Cons ev evs)
  then show ?thesis
    by (cases a; cases ev) (auto simp: replay_step_def replay_call_def replay_finish_def replay_block_def
      replay_abort_def replay_poll_def replay_wake_def front_def failed_def unexpected_def diverge_def pop_event_def
      split: option.splits if_splits)
qed

text \<open>A divergence is kept, and answered to every later one.\<close>

lemma step_diverged:
  "replay_step digest a r = Some (Inl d, r') \<Longrightarrow> rp_diverged r' = Some d \<and> (rp_diverged r = None \<or> rp_diverged r = Some d)"
  by (cases a)
    (auto simp: replay_step_def replay_call_def replay_finish_def replay_block_def replay_abort_def
      replay_poll_def replay_wake_def failed_def unexpected_def diverge_def
      split: option.splits if_splits event.splits)

lemma step_keeps: "replay_step digest a r = Some (Inr y, r') \<Longrightarrow> rp_diverged r' = rp_diverged r"
  by (auto simp: step_ok)

lemma run_diverged:
  "replay_run digest as r = Some (xs, r') \<Longrightarrow>
   (\<forall>d. Inl d \<in> set xs \<longrightarrow> rp_diverged r' = Some d) \<and>
   (\<forall>d. rp_diverged r = Some d \<longrightarrow> rp_diverged r' = Some d) \<and>
   ((\<forall>d. Inl d \<notin> set xs) \<longrightarrow> rp_diverged r' = rp_diverged r)"
proof (induction as arbitrary: r xs)
  case (Cons a as)
  then obtain x q ys where *: "replay_step digest a r = Some (x, q)" "replay_run digest as q = Some (ys, r')" "xs = x # ys"
    by (auto split: option.splits)
  note IH = Cons.IH [OF *(2)]
  show ?case
  proof (cases x)
    case (Inl d)
    from step_diverged [OF *(1) [unfolded Inl]] IH *(3) Inl show ?thesis by auto
  next
    case (Inr y)
    from step_keeps [OF *(1) [unfolded Inr]] IH *(3) Inr show ?thesis by auto
  qed
qed simp

lemma run_served:
  "replay_run digest as r = Some (map Inr ys, r') \<Longrightarrow> rp_events r' = [] \<Longrightarrow>
   served digest (rp_polls r) (rp_events r) as ys"
proof (induction as arbitrary: r ys)
  case (Cons a as)
  then obtain y q zs where *: "replay_step digest a r = Some (Inr y, q)"
    "replay_run digest as q = Some (map Inr zs, r')" "ys = y # zs"
    by (cases ys) (auto split: option.splits)
  from Cons.IH [OF *(2) Cons.prems(2)] *(1,3) show ?case
    unfolding step_ok by (cases "rp_events r"; cases a) auto
qed auto

lemma served_step:
  assumes "served digest (rp_polls r) (rp_events r) (a # as) ys"
  obtains y zs q where "ys = y # zs" "replay_step digest a r = Some (Inr y, q)"
    "served digest (rp_polls q) (rp_events q) as zs"
proof (cases ys)
  case (Cons y zs)
  show thesis
  proof (cases "a = RpPoll")
    case True
    with assms Cons show thesis
      by (intro that [of y zs "r\<lparr>rp_polls := rp_polls r + 1\<rparr>"] step_ok [THEN iffD2]) auto
  next
    case a: False
    show thesis
    proof (cases "rp_events r")
      case Nil
      with assms a Cons show thesis
        by (intro that [of y zs r] step_ok [THEN iffD2]) (cases a; auto)+
    next
      case (Cons ev evs)
      with assms a \<open>ys = y # zs\<close> show thesis
        by (intro that [of y zs "r\<lparr>rp_events := evs\<rparr>"] step_ok [THEN iffD2]) (cases a; auto)+
    qed
  qed
qed (use assms in \<open>cases a; auto\<close>)

lemma served_run:
  "served digest (rp_polls r) (rp_events r) as ys \<Longrightarrow>
   \<exists>r'. replay_run digest as r = Some (map Inr ys, r') \<and> rp_events r' = [] \<and> rp_diverged r' = rp_diverged r"
proof (induction as arbitrary: r ys)
  case (Cons a as)
  from Cons.prems obtain y zs q where *: "ys = y # zs" "replay_step digest a r = Some (Inr y, q)"
    "served digest (rp_polls q) (rp_events q) as zs" by (rule served_step)
  from Cons.IH [OF *(3)] *(1,2) step_keeps [OF *(2)] show ?case by auto
qed simp

lemma served_new:
  "served digest 0 (ri_events i) as ys \<Longrightarrow>
   \<exists>q. replay_run digest as (replay_new i) = Some (map Inr ys, q) \<and> rp_events q = [] \<and> rp_diverged q = None"
  using served_run [of digest "replay_new i" as ys] by (simp add: replay_new_def)

lemma all_Inr: "\<forall>d. Inl d \<notin> set xs \<Longrightarrow> \<exists>ys. xs = map Inr ys"
proof (induction xs)
  case (Cons x xs)
  then obtain ys where "xs = map Inr ys" by auto
  with Cons.prems show ?case by (cases x) (auto intro: exI [of _ "_ # ys"])
qed simp

lemma run_length: "replay_run digest as r = Some (xs, r') \<Longrightarrow> length xs = length as"
  by (induction as arbitrary: r xs) (auto split: option.splits)

section \<open>Sessions\<close>

text \<open>A session's input: its number, source, module, the host calls it made and how it ended.\<close>

record session_input =
  si_number :: u32
  si_source :: "u8 list"
  si_module :: "u8 list"
  si_ops :: "rec_op list"
  si_end :: end_kind

definition input_ops :: "session_input \<Rightarrow> rec_op list" where
  "input_ops s = OpInput (si_number s) (si_source s) (si_module s) # si_ops s @ [OpEnd (si_end s)]"

definition session_ops :: "session_input list \<Rightarrow> rec_op list" where
  "session_ops ss = concat (map input_ops ss)"

text \<open>The calls a replay serves: all but the cancels.\<close>

fun served_op :: "rec_op \<Rightarrow> bool" where
  "served_op (OpCall _ _ _ _ _ _) = True"
| "served_op (OpFinish _ _ _) = True"
| "served_op (OpBlock _) = True"
| "served_op (OpAbort _) = True"
| "served_op OpPoll = True"
| "served_op (OpWake _) = True"
| "served_op _ = False"

text \<open>The request the program makes when it runs again, and the answer it had.\<close>

fun ask_of :: "rec_op \<Rightarrow> replay_op" where
  "ask_of (OpCall _ module name request _ _) = RpCall module name request"
| "ask_of (OpFinish handle _ _) = RpFinish handle"
| "ask_of (OpBlock _) = RpBlock"
| "ask_of (OpAbort handle) = RpAbort handle"
| "ask_of (OpWake _) = RpWake"
| "ask_of _ = RpPoll"

fun answer_of :: "rec_op \<Rightarrow> answer" where
  "answer_of (OpCall _ _ _ _ val res) = AReply (val, res)"
| "answer_of (OpFinish _ val res) = AReply (val, res)"
| "answer_of (OpBlock hs) = AHandles hs"
| "answer_of (OpWake hs) = AHandles hs"
| "answer_of _ = AOk"

text \<open>What the journal holds of an input.\<close>

definition recorded_as :: "(u8 list \<Rightarrow> u64) \<Rightarrow> (u8 list \<Rightarrow> u128) \<Rightarrow> session_input \<Rightarrow> recorded_input" where
  "recorded_as digest hash128 s =
     \<lparr>ri_number = si_number s, ri_source = hash128 (si_source s), ri_module = hash128 (si_module s),
      ri_events = op_events digest hash128 0 (si_ops s), ri_end = Some (si_end s)\<rparr>"

definition input_events :: "recorded_input \<Rightarrow> event list" where
  "input_events i = EvInput (ri_number i) (ri_source i) (ri_module i) # ri_events i @ [EvEnd (the (ri_end i))]"

lemma op_events_append:
  "op_events digest hash128 n (as @ bs) =
   op_events digest hash128 n as @ op_events digest hash128 (fold op_polls as n) bs"
  by (induction as arbitrary: n) simp_all

lemma session_events:
  "op_events digest hash128 n (session_ops ss) = concat (map (input_events \<circ> recorded_as digest hash128) ss)"
  by (induction ss arbitrary: n)
    (simp_all add: session_ops_def input_ops_def op_events_append input_events_def recorded_as_def)

text \<open>Events between an \<open>Input\<close> and its \<open>End\<close>.\<close>

fun inner :: "event \<Rightarrow> bool" where
  "inner (EvInput _ _ _) = False"
| "inner (EvEnd _) = False"
| "inner _ = True"

lemma inner_events: "\<forall>a\<in>set as. served_op a \<Longrightarrow> \<forall>ev\<in>set (op_events digest hash128 n as). inner ev"
proof (induction as arbitrary: n)
  case (Cons a as)
  then show ?case by (cases a) auto
qed simp

lemma group_inner:
  "\<forall>ev\<in>set evs. inner ev \<Longrightarrow> ri_end i = None \<Longrightarrow>
   group_inputs (acc @ [i]) (evs @ rest) = group_inputs (acc @ [i\<lparr>ri_events := ri_events i @ evs\<rparr>]) rest"
proof (induction evs arbitrary: i)
  case (Cons ev evs)
  have "group_inputs (acc @ [i]) ((ev # evs) @ rest) =
      group_inputs (acc @ [i\<lparr>ri_events := ri_events i @ [ev]\<rparr>]) (evs @ rest)"
    using Cons.prems by (cases ev) simp_all
  also have "\<dots> = group_inputs (acc @ [i\<lparr>ri_events := ri_events i @ ev # evs\<rparr>]) rest"
    using Cons.IH [of "i\<lparr>ri_events := ri_events i @ [ev]\<rparr>"] Cons.prems by simp
  finally show ?case .
qed simp

definition whole_input :: "recorded_input \<Rightarrow> bool" where
  "whole_input i = ((\<forall>ev\<in>set (ri_events i). inner ev) \<and> ri_end i \<noteq> None)"

lemma group_input:
  assumes "whole_input i"
  shows "group_inputs acc (input_events i @ rest) = group_inputs (acc @ [i]) rest"
proof -
  let ?i = "\<lparr>ri_number = ri_number i, ri_source = ri_source i, ri_module = ri_module i, ri_events = [], ri_end = None\<rparr>"
  have "group_inputs acc (input_events i @ rest) =
      group_inputs (acc @ [?i]) (ri_events i @ EvEnd (the (ri_end i)) # rest)"
    by (simp add: input_events_def)
  also have "\<dots> = group_inputs (acc @ [?i\<lparr>ri_events := ri_events i\<rparr>]) (EvEnd (the (ri_end i)) # rest)"
    using group_inner [of "ri_events i" ?i "acc" "EvEnd (the (ri_end i)) # rest"] assms
    by (simp add: whole_input_def)
  also have "\<dots> = group_inputs (acc @ [i]) rest"
    using assms by (cases i) (auto simp: whole_input_def)
  finally show ?thesis .
qed

text \<open>Grouping the first \<open>k\<close> events: the input they cut keeps the events before the cut and has no end.\<close>

fun cut_inputs :: "nat \<Rightarrow> recorded_input list \<Rightarrow> recorded_input list" where
  "cut_inputs 0 is = []"
| "cut_inputs k [] = []"
| "cut_inputs k (i # is) =
     (if length (ri_events i) + 2 \<le> k then i # cut_inputs (k - (length (ri_events i) + 2)) is
      else [i\<lparr>ri_events := take (k - 1) (ri_events i), ri_end := None\<rparr>])"

lemma group_cut:
  "\<forall>i\<in>set is. whole_input i \<Longrightarrow>
   group_inputs acc (take k (concat (map input_events is))) = Inr (acc @ cut_inputs k is)"
proof (induction k "is" arbitrary: acc rule: cut_inputs.induct)
  case (3 k i "is")
  let ?n = "length (ri_events i) + 2"
  have len: "length (input_events i) = ?n" by (simp add: input_events_def)
  show ?case
  proof (cases "?n \<le> Suc k")
    case True
    then have "take (Suc k) (concat (map input_events (i # is))) =
        input_events i @ take (Suc k - ?n) (concat (map input_events is))"
      by (simp add: len)
    with 3 True show ?thesis by (simp add: group_input)
  next
    case False
    let ?i = "\<lparr>ri_number = ri_number i, ri_source = ri_source i, ri_module = ri_module i, ri_events = [], ri_end = None\<rparr>"
    have "take (Suc k) (concat (map input_events (i # is))) = take (Suc k) (input_events i)"
      using False by (simp add: len)
    also have "\<dots> = EvInput (ri_number i) (ri_source i) (ri_module i) # take k (ri_events i) @ []"
      using False by (simp add: input_events_def)
    finally have "group_inputs acc (take (Suc k) (concat (map input_events (i # is)))) =
        group_inputs (acc @ [?i]) (take k (ri_events i) @ [])"
      by simp
    also have "\<dots> = group_inputs (acc @ [?i\<lparr>ri_events := take k (ri_events i)\<rparr>]) []"
      using group_inner [of "take k (ri_events i)" ?i "acc" "[]"] 3(2)
      by (simp add: whole_input_def) (meson in_set_takeD)
    finally show ?thesis using False by simp
  qed
qed (auto simp: group_inputs.simps)

lemma cut_inputs_all: "cut_inputs (length (concat (map input_events is))) is = is"
proof (induction "is")
  case (Cons i "is")
  have "length (concat (map input_events (i # is))) = Suc (length (ri_events i) + 1 + length (concat (map input_events is)))"
    by (simp add: input_events_def)
  with Cons show ?case by simp
qed simp

lemma group_whole:
  "\<forall>i\<in>set is. whole_input i \<Longrightarrow> group_inputs [] (concat (map input_events is)) = Inr is"
  using group_cut [of "is" "[]" "length (concat (map input_events is))"] by (simp add: cut_inputs_all)

lemma recorded_whole:
  "\<forall>a\<in>set (si_ops s). served_op a \<Longrightarrow> whole_input (recorded_as digest hash128 s)"
  using inner_events by (simp add: whole_input_def recorded_as_def)

lemma asks_served:
  "rec_run digest hash128 as r = Some r' \<Longrightarrow> \<forall>a\<in>set as. served_op a \<Longrightarrow>
   served digest (polls r) (op_events digest hash128 (polls r) as) (map ask_of as) (map answer_of as)"
proof (induction as arbitrary: r)
  case (Cons a as)
  from Cons.prems(1) obtain q where q: "rec_step digest hash128 a r = Some q" "rec_run digest hash128 as q = Some r'"
    by (auto split: option.splits)
  note IH = Cons.IH [OF q(2)] rec_step_polls [OF q(1)]
  show ?case using IH Cons.prems(2) by (cases a) auto
qed simp

lemma input_served:
  assumes "rec_run digest hash128 (input_ops s) r = Some r'" "\<forall>a\<in>set (si_ops s). served_op a"
  shows "served digest 0 (ri_events (recorded_as digest hash128 s)) (map ask_of (si_ops s)) (map answer_of (si_ops s))"
proof -
  from assms(1) obtain q q' where "rec_step digest hash128 (OpInput (si_number s) (si_source s) (si_module s)) r = Some q"
    "rec_run digest hash128 (si_ops s) q = Some q'"
    by (auto simp: input_ops_def rec_run_append split: option.splits)
  with asks_served [OF this(2) assms(2)] rec_step_polls [OF this(1)] show ?thesis by (simp add: recorded_as_def)
qed

lemma session_served:
  "rec_run digest hash128 (session_ops ss) r = Some r' \<Longrightarrow> \<forall>s\<in>set ss. \<forall>a\<in>set (si_ops s). served_op a \<Longrightarrow>
   \<forall>s\<in>set ss. served digest 0 (ri_events (recorded_as digest hash128 s)) (map ask_of (si_ops s)) (map answer_of (si_ops s))"
proof (induction ss arbitrary: r)
  case (Cons s ss)
  from Cons.prems(1) obtain q where "rec_run digest hash128 (input_ops s) r = Some q"
    "rec_run digest hash128 (session_ops ss) q = Some r'"
    by (auto simp: session_ops_def rec_run_append split: option.splits)
  with Cons input_served show ?case by simp
qed simp

lemma session_op_ok:
  "\<forall>s\<in>set ss. \<forall>a\<in>set (si_ops s). served_op a \<and> op_ok names a \<and> request_fits a \<Longrightarrow>
   \<forall>a\<in>set (session_ops ss). op_ok names a \<and> request_fits a"
  by (auto simp: session_ops_def input_ops_def)

lemma session_whole:
  "\<forall>s\<in>set ss. \<forall>a\<in>set (si_ops s). served_op a \<and> op_ok names a \<and> request_fits a \<Longrightarrow>
   \<forall>i\<in>set (map (recorded_as digest hash128) ss). whole_input i"
  using recorded_whole by auto

section \<open>Properties\<close>

text \<open>C32. A recorded session replays: when a recorder that started empty got a session's inputs, each with
  the host calls it made (calls, finishes, blocks, aborts, polls and wakes) and its end, and still records,
  its journal gives back the execution and every input with the hashes of its texts; and an input that
  makes the same requests again is served the replies it had, in order, and ends without a divergence.\<close>

theorem replay_after_record:
  assumes "recorder_new c x = Some r" "c < 2 ^ 64" "rec_run digest hash128 (session_ops ss) r = Some r'"
    "\<forall>s\<in>set ss. \<forall>a\<in>set (si_ops s). served_op a \<and> op_ok names a \<and> request_fits a" "rec_journal r' = Some b"
  shows "recorded_of b = Some (Inr \<lparr>rc_execution = x, rc_inputs = map (recorded_as digest hash128) ss\<rparr>) \<and>
    (\<forall>s\<in>set ss. \<exists>q. replay_run digest (map ask_of (si_ops s)) (replay_new (recorded_as digest hash128 s)) =
        Some (map (Inr \<circ> answer_of) (si_ops s), q) \<and>
      fst (replay_end (si_end s) (ri_end (recorded_as digest hash128 s)) q) = Inr ())"
proof
  let ?is = "map (recorded_as digest hash128) ss"
  from recorder_rows [OF assms(1-3) session_op_ok [OF assms(4)] assms(5)] obtain rows ms where
    b: "b = frames rows" "numbered 0 rows" "length b < 2 ^ 64"
      "decode_rows [] rows = Some (EvHeader FORMAT x # concat (map input_events ?is), ms)"
    by (auto simp: session_events)
  then have "decode rows = Inr (EvHeader FORMAT x # concat (map input_events ?is))"
    by (simp add: decode_def decode_rows_from)
  with b(1-3) read_frames [of rows] group_whole [OF session_whole [OF assms(4)]]
  show "recorded_of b = Some (Inr \<lparr>rc_execution = x, rc_inputs = ?is\<rparr>)"
    by (simp add: recorded_of_def)
  show "\<forall>s\<in>set ss. \<exists>q. replay_run digest (map ask_of (si_ops s)) (replay_new (recorded_as digest hash128 s)) =
        Some (map (Inr \<circ> answer_of) (si_ops s), q) \<and>
      fst (replay_end (si_end s) (ri_end (recorded_as digest hash128 s)) q) = Inr ()"
  proof
    fix s assume s: "s \<in> set ss"
    let ?i = "recorded_as digest hash128 s"
    from session_served [OF assms(3)] assms(4) s
    have "served digest 0 (ri_events ?i) (map ask_of (si_ops s)) (map answer_of (si_ops s))" by simp
    from served_new [OF this] obtain q where
      "replay_run digest (map ask_of (si_ops s)) (replay_new ?i) = Some (map (Inr \<circ> answer_of) (si_ops s), q)"
      "rp_events q = []" "rp_diverged q = None"
      by auto
    then show "\<exists>q. replay_run digest (map ask_of (si_ops s)) (replay_new ?i) =
        Some (map (Inr \<circ> answer_of) (si_ops s), q) \<and> fst (replay_end (si_end s) (ri_end ?i) q) = Inr ()"
      by (auto simp: replay_end_def recorded_as_def)
  qed
qed

text \<open>A replay accepts exactly its record: a run of requests is answered throughout and its end is
  accepted if and only if the record ended the same way and its events, taken in order, are what the
  requests ask for (the method and the arguments or their digest, the handle, the poll of a wake).\<close>

lemma replay_accepts:
  assumes "replay_run digest as (replay_new i) = Some (xs, r)"
  shows "fst (replay_end e (ri_end i) r) = Inr () \<longleftrightarrow>
    ri_end i = Some e \<and> (\<exists>ys. xs = map Inr ys \<and> served digest 0 (ri_events i) as ys)"
proof
  assume ok: "fst (replay_end e (ri_end i) r) = Inr ()"
  then have r: "rp_diverged r = None" "rp_events r = []" "ri_end i = Some e"
    by (auto simp: replay_end_def failed_def diverge_def unexpected_def split: option.splits if_splits)
  have "\<forall>d. Inl d \<notin> set xs" using run_diverged [OF assms] r(1) by auto
  then obtain ys where ys: "xs = map Inr ys" using all_Inr by blast
  with run_served [of digest as "replay_new i" ys r] assms r(2)
  have "served digest 0 (ri_events i) as ys" by (simp add: replay_new_def)
  with r(3) ys show "ri_end i = Some e \<and> (\<exists>ys. xs = map Inr ys \<and> served digest 0 (ri_events i) as ys)"
    by blast
next
  assume "ri_end i = Some e \<and> (\<exists>ys. xs = map Inr ys \<and> served digest 0 (ri_events i) as ys)"
  then obtain ys where ys: "ri_end i = Some e" "served digest 0 (ri_events i) as ys" by blast
  from served_new [OF ys(2)] assms have "rp_events r = []" "rp_diverged r = None" by auto
  with ys(1) show "fst (replay_end e (ri_end i) r) = Inr ()" by (simp add: replay_end_def)
qed

text \<open>The first divergence is the only one: once a request diverged, every later diverging request
  and the end of the input report that same divergence, and nothing the program does makes the replay
  accept its end.\<close>

lemma replay_first_divergence:
  assumes "replay_run digest as (replay_new i) = Some (xs, r)" "Inl d \<in> set xs"
  shows "(\<forall>d'. Inl d' \<in> set xs \<longrightarrow> d' = d) \<and> rp_diverged r = Some d \<and> fst (replay_end e recd r) = Inl d"
proof -
  from run_diverged [OF assms(1)] have *: "\<forall>d'. Inl d' \<in> set xs \<longrightarrow> rp_diverged r = Some d'" by blast
  with assms(2) have "rp_diverged r = Some d" by blast
  with * show ?thesis by (auto simp: replay_end_def)
qed

text \<open>A torn session loses only its tail: from the journal of a session cut at any byte, reading its
  inputs fails only when the header row itself is cut; otherwise it gives the inputs that were whole and
  at most one more, which keeps the events before the cut and has no end.\<close>

lemma recorded_torn:
  assumes "recorder_new c x = Some r" "c < 2 ^ 64" "rec_run digest hash128 (session_ops ss) r = Some r'"
    "\<forall>s\<in>set ss. \<forall>a\<in>set (si_ops s). served_op a \<and> op_ok names a \<and> request_fits a" "rec_journal r' = Some b"
    "m \<le> length b"
  shows "\<exists>k. recorded_of (take m b) = Some
    (case k of 0 \<Rightarrow> Inl NoHeader
     | Suc k \<Rightarrow> Inr \<lparr>rc_execution = x, rc_inputs = cut_inputs k (map (recorded_as digest hash128) ss)\<rparr>) \<and>
    (m = length b \<longrightarrow> k = Suc (length (op_events digest hash128 0 (session_ops ss))))"
proof -
  let ?is = "map (recorded_as digest hash128) ss"
  let ?evs = "concat (map input_events ?is)"
  from recorder_rows [OF assms(1-3) session_op_ok [OF assms(4)] assms(5)] obtain rows ms where
    b: "b = frames rows" "numbered 0 rows" "length b < 2 ^ 64"
      "decode_rows [] rows = Some (EvHeader FORMAT x # ?evs, ms)"
    by (auto simp: session_events)
  let ?k = "whole_frames m rows"
  from read_cut [of rows m] b assms(6)
  have r: "read (take m b) = Some (take ?k rows, length (frames (take ?k rows)))" by simp
  from decode_rows_take [OF b(4), of ?k] obtain ms' where
    "decode_rows [] (take ?k rows) = Some (take ?k (EvHeader FORMAT x # ?evs), ms')" by blast
  then have d: "decode (take ?k rows) = Inr (take ?k (EvHeader FORMAT x # ?evs))"
    by (simp add: decode_def decode_rows_from)
  have "recorded_of (take m b) = Some
    (case ?k of 0 \<Rightarrow> Inl NoHeader | Suc k \<Rightarrow> Inr \<lparr>rc_execution = x, rc_inputs = cut_inputs k ?is\<rparr>)"
    using group_cut [OF session_whole [OF assms(4), of digest hash128], of "[]"] d
    by (cases ?k) (simp_all add: recorded_of_def r del: map_map)
  moreover have "m = length b \<Longrightarrow> ?k = Suc (length (op_events digest hash128 0 (session_ops ss)))"
    using decode_rows_take [OF b(4)] b(1) by (simp add: whole_frames_all session_events)
  ultimately show ?thesis by (intro exI [of _ ?k]) simp
qed

text \<open>Witnesses.\<close>

definition sample_session :: "session_input list" where
  "sample_session = [\<lparr>si_number = 1, si_source = [97], si_module = [98],
     si_ops = [OpPoll, OpCall 0 [104] [105] [1] VVoid (Some [9]), OpWake [3]], si_end = EExit 0\<rparr>]"

definition session_end :: recorder where
  "session_end = the (rec_run a_digest a_hash (session_ops sample_session) (fst sample_recorder))"

lemma session_run:
  "rec_run a_digest a_hash (session_ops sample_session) (fst sample_recorder) = Some session_end \<and>
   rec_journal session_end = Some (bytes session_end)"
proof -
  have "\<exists>q. rec_run a_digest a_hash (session_ops sample_session) (fst sample_recorder) = Some q \<and> rstate q = On"
    unfolding conjunct1 [OF sample_start] sample_session_def session_ops_def input_ops_def
    by (simp add: rec_step_def rec_poll_def rec_call_def rec_wake_def rec_input_def rec_end_def record_eval)
  then obtain q where "rec_run a_digest a_hash (session_ops sample_session) (fst sample_recorder) = Some q" "rstate q = On"
    by blast
  then show ?thesis by (simp add: session_end_def rec_journal_def)
qed

lemma session_fits:
  "\<forall>s\<in>set sample_session. \<forall>a\<in>set (si_ops s).
     served_op a \<and> op_ok (\<lambda>_. ([104], [105])) a \<and> request_fits a"
  by (simp add: sample_session_def utf8_valid.simps)

theorem replay_after_record_witness:
  "\<exists>q. recorded_of (bytes session_end) =
      Some (Inr \<lparr>rc_execution = 5, rc_inputs = map (recorded_as a_digest a_hash) sample_session\<rparr>) \<and>
    replay_run a_digest [RpPoll, RpCall [104] [105] [1], RpWake] (replay_new (recorded_as a_digest a_hash (hd sample_session))) =
      Some ([Inr AOk, Inr (AReply (VVoid, Some [9])), Inr (AHandles [3])], q)"
  using replay_after_record [OF conjunct2 [OF sample_start] _ conjunct1 [OF session_run] session_fits
      conjunct2 [OF session_run]]
  by (auto simp: sample_session_def)

definition sample_input :: recorded_input where
  "sample_input = \<lparr>ri_number = 2, ri_source = 0, ri_module = 0, ri_events = [EvBlock [4], EvAbort 4], ri_end = Some ETrapped\<rparr>"

lemma replay_accepts_witness:
  "\<exists>r. replay_run a_digest [RpBlock, RpAbort 4] (replay_new sample_input) = Some ([Inr (AHandles [4]), Inr AOk], r) \<and>
    fst (replay_end ETrapped (ri_end sample_input) r) = Inr ()"
proof -
  obtain r where r: "replay_run a_digest [RpBlock, RpAbort 4] (replay_new sample_input) = Some ([Inr (AHandles [4]), Inr AOk], r)"
    by (simp add: sample_input_def replay_new_def replay_step_def replay_block_def replay_abort_def front_def pop_event_def)
  have "\<exists>ys. [Inr (AHandles [4]), Inr AOk] = map Inr ys \<and> served a_digest 0 (ri_events sample_input) [RpBlock, RpAbort 4] ys"
    by (rule exI [of _ "[AHandles [4], AOk]"]) (simp add: sample_input_def)
  with replay_accepts [OF r, of ETrapped] r show ?thesis by (auto simp: sample_input_def)
qed

lemma replay_first_divergence_witness:
  "\<exists>r. replay_run a_digest [RpAbort 4, RpBlock] (replay_new sample_input) =
      Some ([Inl (Unexpected 2 (AskAbort 4) FBlock), Inr (AHandles [4])], r) \<and>
    fst (replay_end ETrapped (Some ETrapped) r) = Inl (Unexpected 2 (AskAbort 4) FBlock)"
proof -
  obtain r where r: "replay_run a_digest [RpAbort 4, RpBlock] (replay_new sample_input) =
      Some ([Inl (Unexpected 2 (AskAbort 4) FBlock), Inr (AHandles [4])], r)"
    by (simp add: sample_input_def replay_new_def replay_step_def replay_block_def replay_abort_def front_def
      pop_event_def failed_def unexpected_def diverge_def)
  from replay_first_divergence [OF r] r show ?thesis by auto
qed

lemma recorded_torn_witness:
  "recorded_of (take (length (bytes session_end)) (bytes session_end)) = Some
    (Inr \<lparr>rc_execution = 5, rc_inputs = cut_inputs 4 (map (recorded_as a_digest a_hash) sample_session)\<rparr>)"
proof -
  from recorded_torn [OF conjunct2 [OF sample_start] _ conjunct1 [OF session_run] session_fits
      conjunct2 [OF session_run], of "length (bytes session_end)"]
  obtain k where k: "recorded_of (take (length (bytes session_end)) (bytes session_end)) = Some
    (case k of 0 \<Rightarrow> Inl NoHeader
     | Suc k \<Rightarrow> Inr \<lparr>rc_execution = 5, rc_inputs = cut_inputs k (map (recorded_as a_digest a_hash) sample_session)\<rparr>)"
    "k = Suc (length (op_events a_digest a_hash 0 (session_ops sample_session)))"
    by auto
  have "k = Suc 4" using k(2) by (simp add: session_ops_def input_ops_def sample_session_def)
  with k(1) show ?thesis by (simp only: nat.case)
qed

end
