(* ===== verification/Utf8.thy ===== *)
theory Utf8
  imports HdPrelude
begin

text \<open>
  The characters of a \<open>str\<close>: \<open>chars().next()\<close> at a position, and the facts about character
  boundaries that positions moving over well-formed UTF-8 need.
\<close>

unbundle bit_operations_syntax

text \<open>\<open>len_utf8\<close> of the character whose first byte is \<open>a\<close>.\<close>

definition char_width :: "u8 \<Rightarrow> nat" where
  "char_width a = (if a < 0x80 then 1 else if a < 0xE0 then 2 else if a < 0xF0 then 3 else 4)"

definition cont_bits :: "str \<Rightarrow> nat \<Rightarrow> u32" where
  "cont_bits s i = (if i < length s then ucast (s ! i AND 0x3F) else 0)"

text \<open>\<open>core::str::next_code_point\<close> of a string that is not empty.\<close>

definition decode_char :: "str \<Rightarrow> u32" where
  "decode_char s =
     (let a = s ! 0 in
      if a < 0x80 then ucast a
      else if a < 0xE0 then push_bit 6 (ucast (a AND 0x1F)) OR cont_bits s 1
      else if a < 0xF0 then push_bit 12 (ucast (a AND 0x0F)) OR push_bit 6 (cont_bits s 1) OR cont_bits s 2
      else push_bit 18 (ucast (a AND 0x07)) OR push_bit 12 (cont_bits s 1) OR push_bit 6 (cont_bits s 2) OR cont_bits s 3)"

text \<open>\<open>s[p..].chars().next()\<close>: \<open>None\<close> is the panic inside a character or past the end.\<close>

definition next_char :: "str \<Rightarrow> nat \<Rightarrow> u32 option option" where
  "next_char s p =
     (if p \<le> length s \<and> char_boundary s p
      then Some (if p = length s then None else Some (decode_char (drop p s))) else None)"

section \<open>Boundaries\<close>

lemma char_width_pos [simp]: "0 < char_width a"
  by (simp add: char_width_def)

lemma utf8_first: "utf8_valid (a # bs) \<Longrightarrow> \<not> utf8_cont a"
  by (auto simp: utf8_cont_def word_le_nat_alt word_less_nat_alt split: if_splits)

lemma utf8_valid_char:
  assumes "utf8_valid (a # bs)"
  shows "char_width a \<le> length (a # bs) \<and> utf8_valid (drop (char_width a) (a # bs)) \<and>
    (\<forall>i. 0 < i \<longrightarrow> i < char_width a \<longrightarrow> utf8_cont ((a # bs) ! i))"
proof -
  have ord: "x < y \<longleftrightarrow> unat x < unat y" "x \<le> y \<longleftrightarrow> unat x \<le> unat y" for x y :: u8
    by (simp_all add: word_less_nat_alt word_le_nat_alt)
  consider (1) "a < 0x80" | (2) "0xC2 \<le> a" "a \<le> 0xDF" | (3) "0xE0 \<le> a" "a \<le> 0xEF" | (4) "0xF0 \<le> a" "a \<le> 0xF4"
    using assms by (auto split: if_splits)
  then show ?thesis
  proof cases
    case 1
    with assms show ?thesis by (simp add: char_width_def)
  next
    case 2
    then have w: "char_width a = 2" "\<not> a < 0x80" by (simp_all add: char_width_def ord)
    with 2 assms obtain b rest where "bs = b # rest" "utf8_cont b" "utf8_valid rest"
      by (auto split: list.splits)
    with w show ?thesis by (auto simp: less_Suc_eq numeral_eq_Suc)
  next
    case 3
    then have w: "char_width a = 3" "\<not> a < 0x80" "\<not> a \<le> 0xDF" by (simp_all add: char_width_def ord)
    with 3 assms obtain b c rest where bs: "bs = b # c # rest" "utf8_cont b \<or> 0xA0 \<le> b \<and> b \<le> 0xBF \<or> 0x80 \<le> b \<and> b \<le> 0x9F"
      "utf8_cont c" "utf8_valid rest"
      by (auto split: list.splits if_splits)
    from bs(2) have "utf8_cont b" by (auto simp: utf8_cont_def ord)
    with bs w show ?thesis by (auto simp: less_Suc_eq numeral_eq_Suc)
  next
    case 4
    then have w: "char_width a = 4" "\<not> a < 0x80" "\<not> a \<le> 0xDF" "\<not> a \<le> 0xEF" by (simp_all add: char_width_def ord)
    with 4 assms obtain b c d rest where bs: "bs = b # c # d # rest"
      "utf8_cont b \<or> 0x90 \<le> b \<and> b \<le> 0xBF \<or> 0x80 \<le> b \<and> b \<le> 0x8F"
      "utf8_cont c" "utf8_cont d" "utf8_valid rest"
      by (auto split: list.splits if_splits)
    from bs(2) have "utf8_cont b" by (auto simp: utf8_cont_def ord)
    with bs w show ?thesis by (auto simp: less_Suc_eq numeral_eq_Suc)
  qed
qed

lemma valid_drop: "utf8_valid s \<Longrightarrow> char_boundary s p \<Longrightarrow> utf8_valid (drop p s)"
proof (induction "length s" arbitrary: s p rule: less_induct)
  case less
  show ?case
  proof (cases "p = 0 \<or> s = []")
    case True
    with less.prems show ?thesis by auto
  next
    case False
    then obtain a bs where s: "s = a # bs" by (cases s) auto
    note ch = utf8_valid_char [of a bs, folded s, OF less.prems(1)]
    have p: "char_width a \<le> p"
    proof (rule ccontr)
      assume "\<not> char_width a \<le> p"
      with ch False have "utf8_cont (s ! p)" "p < length s" by auto
      with less.prems(2) show False by (simp add: char_boundary_def)
    qed
    have "utf8_valid (drop (p - char_width a) (drop (char_width a) s))"
    proof (rule less.hyps)
      show "length (drop (char_width a) s) < length s" using s by simp
      show "utf8_valid (drop (char_width a) s)" using ch by simp
      show "char_boundary (drop (char_width a) s) (p - char_width a)"
        using less.prems(2) p ch by (auto simp: char_boundary_def)
    qed
    with p show ?thesis by simp
  qed
qed

lemma boundary_next:
  assumes "utf8_valid s" "char_boundary s p" "p < length s"
  shows "p + char_width (s ! p) \<le> length s \<and> char_boundary s (p + char_width (s ! p))"
proof -
  let ?w = "char_width (s ! p)"
  have d: "drop p s = s ! p # drop (Suc p) s" using assms(3) by (simp add: Cons_nth_drop_Suc)
  from utf8_valid_char [of "s ! p" "drop (Suc p) s", folded d] valid_drop [OF assms(1,2)]
  have *: "?w \<le> length (drop p s)" "utf8_valid (drop ?w (drop p s))" by blast+
  have "char_boundary s (p + ?w)"
  proof (cases "drop ?w (drop p s)")
    case Nil
    with * assms(3) have "p + ?w = length s" by simp
    then show ?thesis by (simp add: char_boundary_def)
  next
    case (Cons x xs)
    then have "p + ?w < length s" "s ! (p + ?w) = x"
      by (metis drop_drop drop_eq_Nil add.commute list.distinct(1) not_le, metis Cons drop_drop hd_drop_conv_nth list.sel(1) drop_eq_Nil add.commute list.distinct(1) not_le)
    moreover have "\<not> utf8_cont x" using * Cons utf8_first by simp
    ultimately show ?thesis by (simp add: char_boundary_def)
  qed
  with * assms(3) show ?thesis by simp
qed

lemma ascii_boundary: "p < length s \<Longrightarrow> s ! p < 0x80 \<Longrightarrow> char_boundary s p"
  by (simp add: char_boundary_def utf8_cont_def word_le_nat_alt word_less_nat_alt)

lemma ascii_next: "utf8_valid s \<Longrightarrow> p < length s \<Longrightarrow> s ! p < 0x80 \<Longrightarrow> char_boundary s (Suc p)"
  using boundary_next [of s p] ascii_boundary [of p s] by (simp add: char_width_def)

lemma boundary_end [simp]: "char_boundary s (length s)"
  by (simp add: char_boundary_def)

lemma boundary_start: "utf8_valid s \<Longrightarrow> char_boundary s 0"
  using utf8_first by (cases s) (auto simp: char_boundary_def)

end
