(* ===== verification/FixIts.thy ===== *)
theory FixIts
  imports SliceSort Utf8 "HOL-Library.List_Lexorder" "HOL-Library.Product_Lexorder"
begin

text \<open>
  \<^verbatim>\<open>crates/hd_cli/src/fix.rs\<close>: the rounds of \<open>hd check --fix\<close>. The check of a state of the texts
  is a parameter. A diagnostic code is one of the two the pass tells apart, or another; a text map is
  a finite map from paths to texts; a panic is \<open>None\<close>.
\<close>

section \<open>Diagnostics and edits\<close>

record edit =
  efile :: str
  estart :: u32
  eend :: u32
  etext :: str

record fixit =
  fmessage :: str
  fedits :: "edit list"
  fexact :: bool

datatype code = RedundantLetMut | MissingCapability | OtherCode nat

datatype severity = Error | Warning

record diag =
  dcode :: "code option"
  dseverity :: severity
  dmessage :: str
  dfile :: "str option"
  dfixes :: "fixit list"

definition is_error :: "diag \<Rightarrow> bool" where
  "is_error d = (dseverity d = Error)"

datatype mode = CheckMode | LintMode

fun accepts :: "mode \<Rightarrow> code option \<Rightarrow> bool" where
  "accepts CheckMode c = True"
| "accepts LintMode c = (c = Some RedundantLetMut)"

definition ROUNDS :: nat where
  "ROUNDS = 3"

type_synonym texts = "str \<Rightarrow> str option"

type_synonym key = "code option \<times> bool \<times> str option \<times> str"

definition diag_key :: "diag \<Rightarrow> key" where
  "diag_key d = (dcode d, is_error d, dfile d, dmessage d)"

record change =
  cfile :: str
  cline :: nat
  ccolumn :: nat
  cdiag :: key
  cmessage :: str
  cedits :: "edit list"

record fixed =
  fx_texts :: texts
  fx_changes :: "change list"
  fx_remaining :: "diag list"

text \<open>\<open>line_column\<close>: 1-based, counting characters; past the text or inside a character, its end.\<close>

definition line_column :: "str \<Rightarrow> nat \<Rightarrow> nat \<times> nat" where
  "line_column text at =
     (let pre = (if char_boundary text at \<and> at \<le> length text then take at text else text)
      in (length (filter (\<lambda>b. b = 10) pre) + 1,
          length (filter (\<lambda>b. \<not> utf8_cont b) (rev (takeWhile (\<lambda>b. b \<noteq> 10) (rev pre)))) + 1))"

section \<open>Applying edits\<close>

definition edit_fits :: "str \<Rightarrow> edit \<Rightarrow> bool" where
  "edit_fits text e =
     (let start = unat (estart e); stop = unat (eend e)
      in start \<le> stop \<and> stop \<le> length text \<and> char_boundary text start \<and> char_boundary text stop)"

definition overlap :: "edit \<Rightarrow> edit \<Rightarrow> bool" where
  "overlap a b =
     (efile a = efile b \<and> ((estart a < eend b \<and> estart b < eend a) \<or> estart a = estart b))"

text \<open>\<open>String::replace_range\<close>, which panics out of range and inside a character.\<close>

definition replace_range :: "str \<Rightarrow> nat \<Rightarrow> nat \<Rightarrow> str \<Rightarrow> str option" where
  "replace_range text a b new =
     (if a \<le> b \<and> b \<le> length text \<and> char_boundary text a \<and> char_boundary text b
      then Some (take a text @ new @ drop b text) else None)"

fun apply_edits :: "texts \<Rightarrow> edit list \<Rightarrow> texts option" where
  "apply_edits texts [] = Some texts"
| "apply_edits texts (e # es) =
     (case texts (efile e) of
        None \<Rightarrow> apply_edits texts es
      | Some text \<Rightarrow>
          (case replace_range text (unat (estart e)) (unat (eend e)) (etext e) of
             None \<Rightarrow> None
           | Some text \<Rightarrow> apply_edits (texts(efile e \<mapsto> text)) es))"

text \<open>The order of \<open>apply\<close>: from the end of each file backwards.\<close>

definition edit_key :: "edit \<Rightarrow> str \<times> u32 \<times> u32" where
  "edit_key e = (efile e, estart e, eend e)"

definition all_edits :: "change list \<Rightarrow> edit list" where
  "all_edits changes = concat (map cedits changes)"

definition apply_changes :: "texts \<Rightarrow> change list \<Rightarrow> texts option" where
  "apply_changes texts changes =
     (case sort_by_less (\<lambda>a b. edit_key b < edit_key a) (all_edits changes) of
        None \<Rightarrow> None
      | Some edits \<Rightarrow> apply_edits texts edits)"

section \<open>Rounds\<close>

text \<open>\<open>adds_none\<close>: no key occurs more often after than before.\<close>

definition occurrences :: "key \<Rightarrow> diag list \<Rightarrow> nat" where
  "occurrences k ds = length (filter (\<lambda>d. diag_key d = k) ds)"

definition adds_none :: "diag list \<Rightarrow> diag list \<Rightarrow> bool" where
  "adds_none old after =
     (\<forall>k\<in>set (map diag_key (old @ after)). occurrences k after \<le> occurrences k old)"

definition manifest_name :: str where
  "manifest_name = [104, 100, 46, 116, 111, 109, 108]"

definition plan_one :: "texts \<Rightarrow> (key \<times> str) set \<Rightarrow> mode \<Rightarrow> change list \<Rightarrow> diag \<Rightarrow> change list" where
  "plan_one texts rejected mode taken d =
     (if \<not> accepts mode (dcode d) then taken
      else
        let k = diag_key d
        in case find (\<lambda>f. fexact f \<and> (k, fmessage f) \<notin> rejected) (dfixes d) of
             None \<Rightarrow> taken
           | Some f \<Rightarrow>
               if (\<exists>e\<in>set (fedits f). efile e = manifest_name) \<and> dcode d \<noteq> Some MissingCapability then taken
               else
                 (case fedits f of
                    [] \<Rightarrow> taken
                  | first # _ \<Rightarrow>
                      if \<not> (\<forall>e\<in>set (fedits f). case texts (efile e) of None \<Rightarrow> False | Some t \<Rightarrow> edit_fits t e) then taken
                      else if \<exists>a\<in>set (all_edits taken). \<exists>b\<in>set (fedits f). overlap a b then taken
                      else
                        let (line, column) = line_column (the (texts (efile first))) (unat (estart first))
                        in taken @ [\<lparr>cfile = efile first, cline = line, ccolumn = column, cdiag = k,
                                     cmessage = fmessage f, cedits = fedits f\<rparr>]))"

definition plan :: "diag list \<Rightarrow> texts \<Rightarrow> (key \<times> str) set \<Rightarrow> mode \<Rightarrow> change list" where
  "plan diags texts rejected mode = foldl (plan_one texts rejected mode) [] diags"

text \<open>The loop of \<open>round\<close>: each change in turn on top of the ones kept.\<close>

fun round_each :: "(texts \<Rightarrow> diag list) \<Rightarrow> texts \<Rightarrow> change list \<Rightarrow> diag list \<Rightarrow> (key \<times> str) set \<Rightarrow> change list \<Rightarrow>
    (change list \<times> diag list \<times> (key \<times> str) set) option" where
  "round_each check texts kept current rejected [] = Some (kept, current, rejected)"
| "round_each check texts kept current rejected (c # cs) =
     (case apply_changes texts (kept @ [c]) of
        None \<Rightarrow> None
      | Some tried \<Rightarrow>
          let after = check tried
          in if adds_none current after then round_each check texts (kept @ [c]) after rejected cs
             else round_each check texts kept current (insert (cdiag c, cmessage c) rejected) cs)"

definition round_of :: "(texts \<Rightarrow> diag list) \<Rightarrow> texts \<Rightarrow> diag list \<Rightarrow> change list \<Rightarrow> (key \<times> str) set \<Rightarrow>
    (change list \<times> diag list \<times> (key \<times> str) set) option" where
  "round_of check texts old offered rejected =
     (case apply_changes texts offered of
        None \<Rightarrow> None
      | Some tried \<Rightarrow>
          let after = check tried
          in if adds_none old after then Some (offered, after, rejected)
             else
               (case offered of
                  [only] \<Rightarrow> Some ([], old, insert (cdiag only, cmessage only) rejected)
                | _ \<Rightarrow> round_each check texts [] old rejected offered))"

fun fix_rounds :: "(texts \<Rightarrow> diag list) \<Rightarrow> mode \<Rightarrow> nat \<Rightarrow> texts \<Rightarrow> diag list \<Rightarrow> change list \<Rightarrow> (key \<times> str) set \<Rightarrow>
    fixed option" where
  "fix_rounds check mode 0 texts diags changes rejected =
     Some \<lparr>fx_texts = texts, fx_changes = changes, fx_remaining = diags\<rparr>"
| "fix_rounds check mode (Suc n) texts diags changes rejected =
     (let offered = plan diags texts rejected mode
      in if offered = [] then Some \<lparr>fx_texts = texts, fx_changes = changes, fx_remaining = diags\<rparr>
         else
           (case round_of check texts diags offered rejected of
              None \<Rightarrow> None
            | Some (kept, after, rejected) \<Rightarrow>
                if kept = [] then fix_rounds check mode n texts diags changes rejected
                else
                  (case apply_changes texts kept of
                     None \<Rightarrow> None
                   | Some texts \<Rightarrow> fix_rounds check mode n texts after (changes @ kept) rejected)))"

definition fix_texts :: "(texts \<Rightarrow> diag list) \<Rightarrow> mode \<Rightarrow> texts \<Rightarrow> fixed option" where
  "fix_texts check mode texts = fix_rounds check mode ROUNDS texts (check texts) [] {}"

section \<open>Applying is replacing at once\<close>

text \<open>A text with the edits of a list replaced from the left; \<open>pos\<close> is where the last one ended.\<close>

fun splice_edits :: "nat \<Rightarrow> str \<Rightarrow> edit list \<Rightarrow> str" where
  "splice_edits pos t [] = drop pos t"
| "splice_edits pos t (e # es) =
     take (unat (estart e) - pos) (drop pos t) @ etext e @ splice_edits (unat (eend e)) t es"

definition left_to_right :: "edit list \<Rightarrow> bool" where
  "left_to_right es = sorted_wrt (\<lambda>a b. estart a < estart b \<and> eend a \<le> estart b) es"

lemma splice_boundary:
  "p \<le> length t \<Longrightarrow> char_boundary t p \<Longrightarrow> \<forall>e\<in>set es. edit_fits t e \<and> utf8_valid (etext e) \<and> p \<le> unat (estart e) \<Longrightarrow>
   left_to_right es \<Longrightarrow> splice_edits p t es = [] \<or> \<not> utf8_cont (hd (splice_edits p t es))"
proof (induction es arbitrary: p)
  case Nil
  then show ?case by (cases "p = length t") (auto simp: char_boundary_def hd_drop_conv_nth)
next
  case (Cons e es)
  let ?a = "unat (estart e)" and ?b = "unat (eend e)"
  from Cons.prems have e: "?a \<le> ?b" "?b \<le> length t" "char_boundary t ?b" "p \<le> ?a"
    by (auto simp: edit_fits_def Let_def)
  show ?case
  proof (cases "p < ?a")
    case True
    with e have "take (?a - p) (drop p t) \<noteq> []" "hd (take (?a - p) (drop p t)) = t ! p"
      by (auto simp: hd_drop_conv_nth)
    with Cons.prems(1,2) e True show ?thesis by (auto simp: char_boundary_def)
  next
    case False
    show ?thesis
    proof (cases "etext e")
      case (Cons x xs)
      with Cons.prems False utf8_first show ?thesis by auto
    next
      case Nil
      have "splice_edits ?b t es = [] \<or> \<not> utf8_cont (hd (splice_edits ?b t es))"
        by (rule Cons.IH) (use Cons.prems e in \<open>auto simp: left_to_right_def word_le_nat_alt\<close>)
      with Nil False show ?thesis by auto
    qed
  qed
qed

text \<open>One edit of a text of which the part after \<open>p\<close> is done.\<close>

lemma replace_done:
  assumes fits: "edit_fits t e" "\<forall>x\<in>set es. edit_fits t x \<and> utf8_valid (etext x)" and lr: "left_to_right (e # es)"
  shows "replace_range (take (unat (eend e)) t @ splice_edits (unat (eend e)) t es) (unat (estart e)) (unat (eend e)) (etext e) =
    Some (take (unat (estart e)) t @ etext e @ splice_edits (unat (eend e)) t es)"
proof -
  let ?a = "unat (estart e)" and ?b = "unat (eend e)"
  let ?t = "take ?b t @ splice_edits ?b t es"
  from fits have e: "?a \<le> ?b" "?b \<le> length t" "char_boundary t ?a" "char_boundary t ?b"
    by (auto simp: edit_fits_def Let_def)
  have s: "splice_edits ?b t es = [] \<or> \<not> utf8_cont (hd (splice_edits ?b t es))"
    by (rule splice_boundary) (use fits e lr in \<open>auto simp: left_to_right_def word_le_nat_alt\<close>)
  have b: "char_boundary ?t ?b"
    using s e by (cases "splice_edits ?b t es") (auto simp: char_boundary_def nth_append)
  have "char_boundary ?t ?a"
  proof (cases "?a = ?b")
    case False
    with e show ?thesis by (auto simp: char_boundary_def nth_append)
  qed (use b in simp)
  with e b show ?thesis by (simp add: replace_range_def)
qed

text \<open>The edits of one file, from the last to the first.\<close>

fun edit_text :: "str \<Rightarrow> edit list \<Rightarrow> str option" where
  "edit_text t [] = Some t"
| "edit_text t (e # es) =
     (case replace_range t (unat (estart e)) (unat (eend e)) (etext e) of None \<Rightarrow> None | Some t \<Rightarrow> edit_text t es)"

lemma edit_text_append:
  "edit_text t (es @ fs) = (case edit_text t es of None \<Rightarrow> None | Some t \<Rightarrow> edit_text t fs)"
  by (induction es arbitrary: t) (auto split: option.splits)

lemma edit_text_splice:
  assumes "\<forall>e\<in>set es. edit_fits t e \<and> utf8_valid (etext e)" "left_to_right es"
  shows "edit_text t (rev es) = Some (splice_edits 0 t es)"
proof -
  have "\<forall>e\<in>set es. p \<le> unat (estart e) \<Longrightarrow> p \<le> length t \<Longrightarrow> edit_text t (rev es) = Some (take p t @ splice_edits p t es)"
    if "\<forall>e\<in>set es. edit_fits t e \<and> utf8_valid (etext e)" "left_to_right es" for p es
    using that
  proof (induction es arbitrary: p)
    case Nil
    then show ?case by simp
  next
    case (Cons e es)
    let ?a = "unat (estart e)" and ?b = "unat (eend e)"
    have e: "?a \<le> ?b" "?b \<le> length t" using Cons.prems by (auto simp: edit_fits_def Let_def)
    have "edit_text t (rev es) = Some (take ?b t @ splice_edits ?b t es)"
      by (rule Cons.IH) (use Cons.prems e in \<open>auto simp: left_to_right_def word_le_nat_alt\<close>)
    then have "edit_text t (rev (e # es)) = Some (take ?a t @ etext e @ splice_edits ?b t es)"
      using replace_done [of t e es] Cons.prems by (simp add: edit_text_append)
    moreover have "take ?a t = take p t @ take (?a - p) (drop p t)"
      using Cons.prems(1) by (metis list.set_intros(1) le_add_diff_inverse take_add)
    ultimately show ?case by simp
  qed
  from this [OF assms, of 0] show ?thesis by simp
qed

text \<open>In every file the edits of that file are made, in their order.\<close>

lemma apply_edits_file:
  "(\<forall>f t. texts f = Some t \<longrightarrow> edit_text t (filter (\<lambda>e. efile e = f) es) \<noteq> None) \<Longrightarrow>
   \<exists>out. apply_edits texts es = Some out \<and>
     (\<forall>f. out f = (case texts f of None \<Rightarrow> None | Some t \<Rightarrow> edit_text t (filter (\<lambda>e. efile e = f) es)))"
proof (induction es arbitrary: texts)
  case Nil
  then show ?case by (auto split: option.splits)
next
  case (Cons e es)
  show ?case
  proof (cases "texts (efile e)")
    case None
    have "\<forall>f t. texts f = Some t \<longrightarrow> edit_text t (filter (\<lambda>e. efile e = f) es) \<noteq> None"
      using Cons.prems None by (metis (mono_tags, lifting) filter.simps(2) option.distinct(1))
    from Cons.IH [OF this] obtain out where out: "apply_edits texts es = Some out"
      "\<And>f. out f = (case texts f of None \<Rightarrow> None | Some t \<Rightarrow> edit_text t (filter (\<lambda>e. efile e = f) es))" by blast
    show ?thesis by (rule exI [of _ out]) (use out None in \<open>auto split: option.splits\<close>)
  next
    case (Some s0)
    from Cons.prems Some obtain s1 where r:
      "replace_range s0 (unat (estart e)) (unat (eend e)) (etext e) = Some s1"
      "edit_text s1 (filter (\<lambda>x. efile x = efile e) es) \<noteq> None"
      by (fastforce split: option.splits)
    let ?texts = "texts(efile e \<mapsto> s1)"
    have "edit_text t (filter (\<lambda>x. efile x = f) es) \<noteq> None" if "?texts f = Some t" for f t
      using that r(2) Cons.prems [rule_format, of f t] by (auto split: if_splits)
    then obtain out where out: "apply_edits ?texts es = Some out"
      "\<And>f. out f = (case ?texts f of None \<Rightarrow> None | Some t \<Rightarrow> edit_text t (filter (\<lambda>e. efile e = f) es))"
      using Cons.IH [of ?texts] by blast
    show ?thesis by (rule exI [of _ out]) (use out Some r in \<open>auto split: option.splits\<close>)
  qed
qed

interpretation edit_order: weak_order "\<lambda>a b. edit_key b < edit_key a"
  by unfold_locales auto

text \<open>Edits that overlap nowhere, each with another.\<close>

fun disjoint_edits :: "edit list \<Rightarrow> bool" where
  "disjoint_edits [] = True"
| "disjoint_edits (e # es) = ((\<forall>x\<in>set es. \<not> overlap e x) \<and> disjoint_edits es)"

lemma overlap_sym: "overlap a b = overlap b a"
  by (auto simp: overlap_def)

lemma disjoint_edits_append:
  "disjoint_edits (es @ fs) = (disjoint_edits es \<and> disjoint_edits fs \<and> (\<forall>a\<in>set es. \<forall>b\<in>set fs. \<not> overlap a b))"
  by (induction es) auto

lemma disjoint_edits_mset: "mset es = mset fs \<Longrightarrow> disjoint_edits es = disjoint_edits fs"
proof (induction es arbitrary: fs)
  case (Cons e es)
  then have "e \<in> set fs" by (metis list.set_intros(1) mset_eq_setD)
  then obtain as bs where fs: "fs = as @ e # bs" by (meson split_list)
  with Cons.prems have "mset es = mset (as @ bs)" by simp
  then have "disjoint_edits es = disjoint_edits (as @ bs)" "set es = set (as @ bs)"
    by (rule Cons.IH, rule mset_eq_setD)
  with fs show ?case by (auto simp: disjoint_edits_append overlap_sym [of e])
qed simp

lemma disjoint_edits_filter: "disjoint_edits es \<Longrightarrow> disjoint_edits (filter P es)"
  by (induction es) auto

lemma disjoint_left_to_right:
  assumes "disjoint_edits es" "sorted_wrt (\<lambda>a b. \<not> edit_key b < edit_key a) es" "\<forall>e\<in>set es. efile e = f \<and> estart e \<le> eend e"
  shows "left_to_right es"
  using assms
proof (induction es)
  case (Cons a es)
  have "estart a < estart b \<and> eend a \<le> estart b" if b: "b \<in> set es" for b
  proof -
    have ov: "\<not> overlap a b" "\<not> edit_key b < edit_key a" "efile a = efile b" "estart b \<le> eend b"
      using Cons.prems b by auto
    then have "estart a \<noteq> estart b" by (auto simp: overlap_def)
    with ov have lt: "estart a < estart b" by (auto simp: edit_key_def less_prod_def')
    with ov show ?thesis by (auto simp: overlap_def)
  qed
  with Cons show ?case by (auto simp: left_to_right_def)
qed (simp add: left_to_right_def)

text \<open>The edits of file \<open>f\<close>, first to last.\<close>

definition file_edits :: "str \<Rightarrow> change list \<Rightarrow> edit list" where
  "file_edits f changes = sort_key (\<lambda>e. unat (estart e)) (filter (\<lambda>e. efile e = f) (all_edits changes))"

text \<open>Changes that may be applied together to the texts.\<close>

definition applicable :: "texts \<Rightarrow> change list \<Rightarrow> bool" where
  "applicable texts changes =
     (disjoint_edits (all_edits changes) \<and> length (all_edits changes) < 2 ^ 32 \<and>
      (\<forall>e\<in>set (all_edits changes). utf8_valid (etext e) \<and>
         (case texts (efile e) of None \<Rightarrow> False | Some t \<Rightarrow> edit_fits t e)))"

lemma left_to_right_unique:
  assumes "mset es = mset fs" "left_to_right es" "left_to_right fs"
  shows "es = fs"
proof (rule sorted_wrt_unique)
  show "sorted_wrt (\<lambda>a b. estart a < estart b) es" "sorted_wrt (\<lambda>a b. estart a < estart b) fs"
    using assms(2,3) by (auto simp: left_to_right_def intro: sorted_wrt_mono_rel [rotated])
  show "set es = set fs" by (rule mset_eq_setD [OF assms(1)])
qed auto

lemma file_edits_left_to_right:
  assumes "applicable texts changes"
  shows "left_to_right (file_edits f changes)"
proof -
  let ?es = "filter (\<lambda>e. efile e = f) (all_edits changes)"
  let ?fs = "sort_key (\<lambda>e. unat (estart e)) ?es"
  have fits: "\<forall>e\<in>set ?fs. estart e \<le> eend e" "\<forall>e\<in>set ?fs. efile e = f"
    using assms by (auto simp: applicable_def edit_fits_def Let_def word_le_nat_alt split: option.splits)
  have dis: "disjoint_edits ?fs"
    using assms disjoint_edits_mset [of ?fs ?es] disjoint_edits_filter by (simp add: applicable_def)
  have srt: "sorted_wrt (\<lambda>a b. unat (estart a) \<le> unat (estart b)) ?fs"
    using sorted_sort_key [of "\<lambda>e. unat (estart e)" ?es] by (simp add: sorted_wrt_map)
  have "left_to_right xs" if "\<forall>e\<in>set xs. estart e \<le> eend e" "\<forall>e\<in>set xs. efile e = f" "disjoint_edits xs"
    "sorted_wrt (\<lambda>a b. unat (estart a) \<le> unat (estart b)) xs" for xs
    using that
  proof (induction xs)
    case (Cons a xs)
    have "estart a < estart b \<and> eend a \<le> estart b" if b: "b \<in> set xs" for b
    proof -
      have ov: "\<not> overlap a b" "estart a \<le> estart b" "efile a = efile b" "estart b \<le> eend b"
        using Cons.prems b by (auto simp: word_le_nat_alt)
      then have "estart a \<noteq> estart b" by (auto simp: overlap_def)
      with ov show ?thesis by (auto simp: overlap_def)
    qed
    with Cons show ?case by (auto simp: left_to_right_def)
  qed (simp add: left_to_right_def)
  from this [OF fits dis srt] show ?thesis by (simp add: file_edits_def)
qed

lemma apply_changes_splice:
  assumes "applicable texts changes"
  shows "apply_changes texts changes = Some (\<lambda>f. map_option (\<lambda>t. splice_edits 0 t (file_edits f changes)) (texts f))"
proof -
  let ?es = "all_edits changes"
  from edit_order.sort_by_lt_stable [of ?es] assms obtain ws where
    ws: "sort_by_less (\<lambda>a b. edit_key b < edit_key a) ?es = Some ws"
      "mset ws = mset ?es" "sorted_wrt (\<lambda>x y. \<not> edit_key x < edit_key y) ws"
    by (auto simp: applicable_def stable_sort_of_def)
  have set_ws: "set ws = set ?es" using mset_eq_setD [OF ws(2)] .
  have one: "edit_text t (filter (\<lambda>e. efile e = f) ws) = Some (splice_edits 0 t (file_edits f changes))" if t: "texts f = Some t" for f t
  proof -
    let ?rs = "rev (filter (\<lambda>e. efile e = f) ws)"
    have fits: "\<forall>e\<in>set ?rs. edit_fits t e \<and> utf8_valid (etext e)"
      using assms t set_ws by (auto simp: applicable_def split: option.splits)
    have "left_to_right ?rs"
    proof (rule disjoint_left_to_right)
      have "disjoint_edits ws" using assms disjoint_edits_mset [OF ws(2)] by (simp add: applicable_def)
      then show "disjoint_edits ?rs"
        using disjoint_edits_filter disjoint_edits_mset [of ?rs "filter (\<lambda>e. efile e = f) ws"] by simp
      show "sorted_wrt (\<lambda>a b. \<not> edit_key b < edit_key a) ?rs"
        using ws(3) by (simp add: sorted_wrt_rev sorted_wrt_filter)
      show "\<forall>e\<in>set ?rs. efile e = f \<and> estart e \<le> eend e"
        using fits by (auto simp: edit_fits_def Let_def word_le_nat_alt)
    qed
    moreover have "mset ?rs = mset (file_edits f changes)"
      using ws(2) by (simp add: file_edits_def mset_filter)
    ultimately have "?rs = file_edits f changes"
      using left_to_right_unique file_edits_left_to_right [OF assms] by blast
    then have "filter (\<lambda>e. efile e = f) ws = rev (file_edits f changes)" by (simp add: rev_swap)
    with edit_text_splice [OF fits \<open>left_to_right ?rs\<close>] show ?thesis by simp
  qed
  from apply_edits_file [of texts ws] one obtain out where out: "apply_edits texts ws = Some out"
    "\<And>f. out f = (case texts f of None \<Rightarrow> None | Some t \<Rightarrow> edit_text t (filter (\<lambda>e. efile e = f) ws))"
    by auto
  have "out = (\<lambda>f. map_option (\<lambda>t. splice_edits 0 t (file_edits f changes)) (texts f))"
    by (rule ext) (simp add: out(2) one split: option.splits)
  with out(1) ws(1) show ?thesis by (simp add: apply_changes_def)
qed

section \<open>What a plan takes\<close>

definition edits_fit :: "texts \<Rightarrow> edit list \<Rightarrow> bool" where
  "edits_fit texts es = (\<forall>e\<in>set es. \<exists>t. texts (efile e) = Some t \<and> edit_fits t e)"

lemma edits_fit_iff:
  "(\<forall>e\<in>set es. case texts (efile e) of None \<Rightarrow> False | Some t \<Rightarrow> edit_fits t e) = edits_fit texts es"
  unfolding edits_fit_def by (intro ball_cong refl) (auto split: option.splits)

text \<open>A change the check offers: the first exact fix-it of a diagnostic, not rejected, that fits.\<close>

definition offered_by :: "diag list \<Rightarrow> texts \<Rightarrow> (key \<times> str) set \<Rightarrow> mode \<Rightarrow> change \<Rightarrow> bool" where
  "offered_by diags texts rejected mode c =
     (\<exists>d\<in>set diags. \<exists>f\<in>set (dfixes d). fexact f \<and> accepts mode (dcode d) \<and>
        cdiag c = diag_key d \<and> cmessage c = fmessage f \<and> cedits c = fedits f \<and> cedits c \<noteq> [] \<and>
        (cdiag c, cmessage c) \<notin> rejected \<and>
        edits_fit texts (cedits c) \<and>
        ((\<exists>e\<in>set (cedits c). efile e = manifest_name) \<longrightarrow> dcode d = Some MissingCapability))"

definition apart :: "change \<Rightarrow> change \<Rightarrow> bool" where
  "apart c d = (\<forall>a\<in>set (cedits c). \<forall>b\<in>set (cedits d). \<not> overlap a b)"

lemma plan_one_cases:
  obtains "plan_one texts rejected mode taken d = taken"
  | c where "plan_one texts rejected mode taken d = taken @ [c]" "offered_by [d] texts rejected mode c"
      "\<forall>t\<in>set taken. apart t c"
proof -
  let ?P = "\<lambda>f. fexact f \<and> (diag_key d, fmessage f) \<notin> rejected"
  show thesis
  proof (cases "\<not> accepts mode (dcode d)")
    case True
    then have "plan_one texts rejected mode taken d = taken" by (simp add: plan_one_def)
    then show thesis by (rule that)
  next
    case acc: False
    show thesis
    proof (cases "find ?P (dfixes d)")
      case None
      with acc have "plan_one texts rejected mode taken d = taken" by (simp add: plan_one_def Let_def)
      then show thesis by (rule that)
    next
      case (Some f)
      then have f: "f \<in> set (dfixes d)" "?P f" by (auto simp: find_Some_iff)
      show thesis
      proof (cases "fedits f")
        case Nil
        with acc Some have "plan_one texts rejected mode taken d = taken" by (simp add: plan_one_def Let_def)
        then show thesis by (rule that)
      next
        case (Cons e es)
        let ?lc = "line_column (the (texts (efile e))) (unat (estart e))"
        let ?c = "\<lparr>cfile = efile e, cline = fst ?lc, ccolumn = snd ?lc, cdiag = diag_key d,
          cmessage = fmessage f, cedits = fedits f\<rparr>"
        let ?bad = "((\<exists>e\<in>set (fedits f). efile e = manifest_name) \<and> dcode d \<noteq> Some MissingCapability) \<or>
          \<not> (\<forall>e\<in>set (fedits f). case texts (efile e) of None \<Rightarrow> False | Some t \<Rightarrow> edit_fits t e) \<or>
          (\<exists>a\<in>set (all_edits taken). \<exists>b\<in>set (fedits f). overlap a b)"
        have eq: "plan_one texts rejected mode taken d = (if ?bad then taken else taken @ [?c])"
          using acc Some unfolding plan_one_def Let_def
          by (simp add: Cons case_prod_unfold) blast
        show thesis
        proof (cases ?bad)
          case True
          with eq have "plan_one texts rejected mode taken d = taken" by (simp only: if_True)
          then show thesis by (rule that)
        next
          case False
          with eq have "plan_one texts rejected mode taken d = taken @ [?c]" by (simp only: if_False)
          moreover have "offered_by [d] texts rejected mode ?c"
          proof -
            from False have "edits_fit texts (fedits f)" by (auto simp: edits_fit_iff)
            then show ?thesis using acc f False Cons unfolding offered_by_def by (auto intro!: bexI [of _ f])
          qed
          moreover have "\<forall>t\<in>set taken. apart t ?c" using False by (auto simp: apart_def all_edits_def)
          ultimately show thesis by (rule that)
        qed
      qed
    qed
  qed
qed

lemma plan_offered:
  "(\<forall>c\<in>set (plan diags texts rejected mode). offered_by diags texts rejected mode c) \<and>
   sorted_wrt apart (plan diags texts rejected mode)"
proof -
  have "(\<forall>c\<in>set (foldl (plan_one texts rejected mode) taken ds). offered_by diags texts rejected mode c) \<and>
     sorted_wrt apart (foldl (plan_one texts rejected mode) taken ds)"
    if "set ds \<subseteq> set diags" "\<forall>c\<in>set taken. offered_by diags texts rejected mode c" "sorted_wrt apart taken" for ds taken
    using that
  proof (induction ds arbitrary: taken)
    case (Cons d ds)
    show ?case
    proof (cases rule: plan_one_cases [of texts rejected mode taken d])
      case 1
      with Cons show ?thesis by simp
    next
      case (2 c)
      from 2(2) Cons.prems(1) have "offered_by diags texts rejected mode c"
        unfolding offered_by_def by (elim bexE) (auto intro!: bexI [of _ d])
      moreover have "set ds \<subseteq> set diags" using Cons.prems(1) by simp
      moreover have "sorted_wrt apart (taken @ [c])" using Cons.prems(3) 2(3) by (simp add: sorted_wrt_append)
      moreover have "\<forall>x\<in>set (taken @ [c]). offered_by diags texts rejected mode x"
        using Cons.prems(2) calculation(1) by simp
      ultimately show ?thesis unfolding foldl_Cons 2(1) by (intro Cons.IH) blast+
    qed
  qed simp
  from this [of diags "[]"] show ?thesis by (simp add: plan_def)
qed

section \<open>Rounds keep the texts checked\<close>

text \<open>What a check must promise of an exact fix-it: its own edits overlap nowhere and write text.\<close>

definition sound_check :: "(texts \<Rightarrow> diag list) \<Rightarrow> bool" where
  "sound_check check =
     (\<forall>texts. length (concat (map fedits (concat (map dfixes (check texts))))) < 2 ^ 32 \<and>
        (\<forall>d\<in>set (check texts). \<forall>f\<in>set (dfixes d). fexact f \<longrightarrow>
           disjoint_edits (fedits f) \<and> (\<forall>e\<in>set (fedits f). utf8_valid (etext e))))"

lemma all_edits_append [simp]: "all_edits (cs @ ds) = all_edits cs @ all_edits ds"
  by (simp add: all_edits_def)

lemma all_edits_Cons [simp]: "all_edits (c # cs) = cedits c @ all_edits cs"
  by (simp add: all_edits_def)

lemma all_edits_Nil [simp]: "all_edits [] = []"
  by (simp add: all_edits_def)

lemma apart_disjoint:
  "sorted_wrt apart cs \<Longrightarrow> \<forall>c\<in>set cs. disjoint_edits (cedits c) \<Longrightarrow> disjoint_edits (all_edits cs)"
  by (induction cs) (auto simp: disjoint_edits_append apart_def all_edits_def)

lemma length_plan:
  "length (all_edits (foldl (plan_one texts rejected mode) taken ds)) \<le>
   length (all_edits taken) + length (concat (map fedits (concat (map dfixes ds))))"
proof (induction ds arbitrary: taken)
  case (Cons d ds)
  let ?n = "length (concat (map fedits (dfixes d)))"
  have "length (all_edits (plan_one texts rejected mode taken d)) \<le> length (all_edits taken) + ?n"
  proof (cases rule: plan_one_cases [of texts rejected mode taken d])
    case (2 c)
    then obtain f where "f \<in> set (dfixes d)" "cedits c = fedits f" by (auto simp: offered_by_def)
    then obtain as bs where "dfixes d = as @ f # bs" by (meson split_list)
    with 2 \<open>cedits c = fedits f\<close> show ?thesis by simp
  qed simp
  with Cons [of "plan_one texts rejected mode taken d"] show ?case by simp
qed simp

lemma plan_applicable:
  assumes "sound_check check"
  shows "applicable texts (plan (check texts) texts rejected mode)"
proof -
  let ?p = "plan (check texts) texts rejected mode"
  note plan = plan_offered [of "check texts" texts rejected mode]
  have own: "disjoint_edits (cedits c) \<and> (\<forall>e\<in>set (cedits c). utf8_valid (etext e)) \<and> edits_fit texts (cedits c)"
    if "c \<in> set ?p" for c
  proof -
    from plan that have "offered_by (check texts) texts rejected mode c" by blast
    then obtain d f where "d \<in> set (check texts)" "f \<in> set (dfixes d)" "fexact f" "cedits c = fedits f"
      "edits_fit texts (cedits c)" by (auto simp: offered_by_def)
    with assms show ?thesis by (simp add: sound_check_def)
  qed
  have "disjoint_edits (all_edits ?p)" using apart_disjoint [of ?p] plan own by blast
  moreover have "length (all_edits ?p) < 2 ^ 32"
    using length_plan [of texts rejected mode "[]" "check texts"] assms
    by (simp add: plan_def sound_check_def le_less_trans)
  moreover have "\<forall>e\<in>set (all_edits ?p). utf8_valid (etext e)" "edits_fit texts (all_edits ?p)"
    using own by (auto simp: all_edits_def edits_fit_def)
  ultimately show ?thesis unfolding applicable_def edits_fit_iff [symmetric] by blast
qed

lemma applicable_drop:
  "applicable texts (kept @ c # cs) \<Longrightarrow> applicable texts (kept @ [c]) \<and> applicable texts (kept @ cs) \<and>
   applicable texts kept"
  by (auto simp: applicable_def disjoint_edits_append)

lemma apply_none [simp]: "apply_changes texts [] = Some texts"
proof -
  have "(\<lambda>f. map_option (\<lambda>t. splice_edits 0 t (file_edits f [])) (texts f)) = texts"
    by (rule ext) (auto simp: file_edits_def option.map_ident)
  with apply_changes_splice [of texts "[]"] show ?thesis by (simp add: applicable_def)
qed

lemma adds_none_iff: "adds_none old after = (\<forall>k. occurrences k after \<le> occurrences k old)"
proof
  assume *: "adds_none old after"
  show "\<forall>k. occurrences k after \<le> occurrences k old"
  proof
    fix k show "occurrences k after \<le> occurrences k old"
    proof (cases "k \<in> set (map diag_key (old @ after))")
      case False
      then have "occurrences k after = 0" by (auto simp: occurrences_def filter_empty_conv)
      then show ?thesis by simp
    qed (use * in \<open>auto simp: adds_none_def\<close>)
  qed
qed (auto simp: adds_none_def)

lemma adds_none_refl: "adds_none ds ds"
  by (simp add: adds_none_iff)

lemma adds_none_trans: "adds_none a b \<Longrightarrow> adds_none b c \<Longrightarrow> adds_none a c"
  unfolding adds_none_iff by (meson le_trans)

lemma round_each_ok:
  assumes "applicable texts (kept @ cs)" "apply_changes texts kept = Some tk" "current = check tk"
  shows "\<exists>kept' after rejected' tk'. round_each check texts kept current rejected cs = Some (kept', after, rejected') \<and>
    apply_changes texts kept' = Some tk' \<and> after = check tk' \<and> adds_none current after \<and> applicable texts kept' \<and>
    set kept' \<subseteq> set kept \<union> set cs"
  using assms
proof (induction cs arbitrary: kept current rejected tk)
  case Nil
  then show ?case by (auto simp: adds_none_refl)
next
  case (Cons c cs)
  note app = applicable_drop [OF Cons.prems(1)]
  from app obtain tried where tried: "apply_changes texts (kept @ [c]) = Some tried"
    using apply_changes_splice by blast
  show ?case
  proof (cases "adds_none current (check tried)")
    case True
    have "applicable texts ((kept @ [c]) @ cs)" using Cons.prems(1) by simp
    from Cons.IH [OF this tried refl, of rejected] tried True adds_none_trans [OF True] show ?thesis by fastforce
  next
    case False
    from Cons.IH [of kept tk current "insert (cdiag c, cmessage c) rejected"] app Cons.prems(2,3) tried False
    show ?thesis by fastforce
  qed
qed

lemma round_ok:
  assumes "applicable texts offered"
  shows "\<exists>kept after rejected' tk. round_of check texts (check texts) offered rejected = Some (kept, after, rejected') \<and>
    apply_changes texts kept = Some tk \<and> after = check tk \<and> adds_none (check texts) after \<and> set kept \<subseteq> set offered \<and>
    applicable texts kept"
proof -
  from apply_changes_splice [OF assms] obtain tried where tried: "apply_changes texts offered = Some tried" by blast
  show ?thesis
  proof (cases "adds_none (check texts) (check tried)")
    case True
    with tried assms show ?thesis by (simp add: round_of_def)
  next
    case False
    from round_each_ok [of texts "[]" offered texts "check texts" check rejected] assms obtain kept after rejected' tk where
      r: "round_each check texts [] (check texts) rejected offered = Some (kept, after, rejected')"
        "apply_changes texts kept = Some tk" "after = check tk" "adds_none (check texts) after" "set kept \<subseteq> set offered"
        "applicable texts kept"
      by auto
    show ?thesis
    proof (cases "\<exists>only. offered = [only]")
      case True
      with tried False show ?thesis by (auto simp: round_of_def adds_none_refl applicable_def)
    next
      case several: False
      then have "round_of check texts (check texts) offered rejected = round_each check texts [] (check texts) rejected offered"
        using tried False by (auto simp: round_of_def split: list.splits)
      with r show ?thesis by auto
    qed
  qed
qed

lemma fix_rounds_ok:
  assumes "sound_check check"
  shows "\<exists>out rejected'. fix_rounds check mode n texts (check texts) changes rejected = Some out \<and>
    fx_remaining out = check (fx_texts out) \<and> adds_none (check texts) (fx_remaining out) \<and>
    dom (fx_texts out) = dom texts \<and>
    (\<exists>new. fx_changes out = changes @ new \<and> (\<forall>c\<in>set new. \<exists>seen rej. offered_by (check seen) seen rej mode c))"
proof (induction n arbitrary: texts changes rejected)
  case 0
  show ?case by (simp add: adds_none_refl)
next
  case (Suc n)
  let ?p = "plan (check texts) texts rejected mode"
  show ?case
  proof (cases "?p = []")
    case True
    then show ?thesis by (simp add: Let_def adds_none_refl)
  next
    case False
    from round_ok [OF plan_applicable [OF assms, of texts rejected mode], of check rejected]
    obtain kept after rejected' tk where r:
      "round_of check texts (check texts) ?p rejected = Some (kept, after, rejected')"
      "apply_changes texts kept = Some tk" "after = check tk" "adds_none (check texts) after" "set kept \<subseteq> set ?p"
      "applicable texts kept"
      by blast
    show ?thesis
    proof (cases "kept = []")
      case True
      from Suc.IH [of texts changes rejected'] r(1) False True show ?thesis by (simp add: Let_def)
    next
      case kept: False
      have dom: "dom tk = dom texts" using r(2) apply_changes_splice [OF r(6)] by (auto simp: dom_def)
      have new: "\<forall>c\<in>set kept. \<exists>seen rej. offered_by (check seen) seen rej mode c"
        using plan_offered [of "check texts" texts rejected mode] r(5) by blast
      from Suc.IH [of tk "changes @ kept" rejected'] obtain out where out:
        "fix_rounds check mode n tk (check tk) (changes @ kept) rejected' = Some out"
        "fx_remaining out = check (fx_texts out)" "adds_none (check tk) (fx_remaining out)"
        "dom (fx_texts out) = dom tk"
        "\<exists>new. fx_changes out = (changes @ kept) @ new \<and> (\<forall>c\<in>set new. \<exists>seen rej. offered_by (check seen) seen rej mode c)"
        by blast
      from out(5) new have "\<exists>new. fx_changes out = changes @ new \<and> (\<forall>c\<in>set new. \<exists>seen rej. offered_by (check seen) seen rej mode c)"
        by (metis append.assoc set_append Un_iff)
      moreover have "fix_rounds check mode (Suc n) texts (check texts) changes rejected = Some out"
        using False kept r(1-3) out(1) by (simp add: Let_def)
      ultimately show ?thesis
        using out(2,4) dom adds_none_trans [OF r(4), of "fx_remaining out"] out(3) r(3) by auto
    qed
  qed
qed

section \<open>Properties\<close>

text \<open>Applying fix-its is one simultaneous replacement: for changes whose edits fit the texts and
  overlap nowhere, the backward loop never panics, and each file becomes its old text with every edit's
  range, from left to right, replaced by the edit's text; files without edits keep theirs.\<close>

lemma apply_at_once:
  assumes "disjoint_edits (all_edits changes)" "length (all_edits changes) < 2 ^ 32"
    "\<forall>e\<in>set (all_edits changes). utf8_valid (etext e) \<and>
       (case texts (efile e) of None \<Rightarrow> False | Some t \<Rightarrow> edit_fits t e)"
  shows "\<exists>out. apply_changes texts changes = Some out \<and>
    (\<forall>f. out f = map_option (\<lambda>t. splice_edits 0 t (file_edits f changes)) (texts f)) \<and>
    (\<forall>f. file_edits f changes = [] \<or> left_to_right (file_edits f changes))"
proof -
  from assms have "applicable texts changes" by (simp add: applicable_def)
  from apply_changes_splice [OF this] file_edits_left_to_right [OF this] show ?thesis by simp
qed

text \<open>The plan takes only what may be written, and nothing that overlaps: every change of a plan is
  the exact, unrejected fix-it of a diagnostic the mode accepts, its edits lie in the texts on character
  boundaries, it edits the manifest only for a missing capability, and no edit of one change overlaps an
  edit of another.\<close>

lemma plan_takes:
  "(\<forall>c\<in>set (plan diags texts rejected mode). offered_by diags texts rejected mode c) \<and>
   sorted_wrt apart (plan diags texts rejected mode)"
  by (rule plan_offered)

text \<open>C31. Fixing never makes things worse and always returns: whatever the check is, as long as each exact
  fix-it's own edits are text and overlap nowhere, the rounds do not panic, the remaining diagnostics are
  the check of the final texts, no diagnostic (by code, severity, file and message) occurs more often than
  before fixing, no file appears or disappears, and every change made was offered by a check of some
  state of the texts that the mode accepts.\<close>

theorem fix_never_adds:
  assumes "sound_check check"
  shows "\<exists>out. fix_texts check mode texts = Some out \<and> fx_remaining out = check (fx_texts out) \<and>
    (\<forall>k. occurrences k (fx_remaining out) \<le> occurrences k (check texts)) \<and>
    dom (fx_texts out) = dom texts \<and>
    (\<forall>c\<in>set (fx_changes out). \<exists>seen rej. offered_by (check seen) seen rej mode c)"
  using fix_rounds_ok [OF assms, of mode ROUNDS texts "[]" "{}"]
  by (auto simp: fix_texts_def adds_none_iff)

text \<open>Witnesses.\<close>

definition sample_texts :: texts where
  "sample_texts = [[102] \<mapsto> [97, 98]]"

definition sample_fix :: fixit where
  "sample_fix = \<lparr>fmessage = [105],
     fedits = [\<lparr>efile = [102], estart = 1, eend = 1, etext = [99]\<rparr>, \<lparr>efile = [102], estart = 0, eend = 1, etext = []\<rparr>],
     fexact = True\<rparr>"

definition sample_diag :: diag where
  "sample_diag = \<lparr>dcode = Some MissingCapability, dseverity = Error, dmessage = [109], dfile = Some [102], dfixes = [sample_fix]\<rparr>"

text \<open>A check that complains about the first byte of \<open>f\<close>.\<close>

definition sample_check :: "texts \<Rightarrow> diag list" where
  "sample_check texts = (case texts [102] of Some (b # _) \<Rightarrow> if b = 97 then [sample_diag] else [] | _ \<Rightarrow> [])"

definition sample_change :: change where
  "sample_change = \<lparr>cfile = [102], cline = 1, ccolumn = 2, cdiag = diag_key sample_diag, cmessage = [105],
     cedits = fedits sample_fix\<rparr>"

lemma plan_takes_witness:
  "length (plan [sample_diag] sample_texts {} CheckMode) = 1 \<and>
   offered_by [sample_diag] sample_texts {} CheckMode (hd (plan [sample_diag] sample_texts {} CheckMode))"
proof -
  have one: "length (plan [sample_diag] sample_texts {} CheckMode) = 1"
    by (simp add: plan_def plan_one_def sample_diag_def sample_fix_def sample_texts_def manifest_name_def
      all_edits_def edit_fits_def char_boundary_def utf8_cont_def split: prod.split)
  then have "hd (plan [sample_diag] sample_texts {} CheckMode) \<in> set (plan [sample_diag] sample_texts {} CheckMode)"
    by (cases "plan [sample_diag] sample_texts {} CheckMode") auto
  with plan_takes [of "[sample_diag]" sample_texts "{}" CheckMode] one show ?thesis by blast
qed

lemma apply_at_once_witness:
  "\<exists>out. apply_changes sample_texts [sample_change] = Some out \<and> out [102] = Some [99, 98]"
proof -
  have "file_edits [102] [sample_change] =
    [\<lparr>efile = [102], estart = 0, eend = 1, etext = []\<rparr>, \<lparr>efile = [102], estart = 1, eend = 1, etext = [99]\<rparr>]"
    by (simp add: file_edits_def sample_change_def sample_fix_def)
  with apply_at_once [of "[sample_change]" sample_texts] show ?thesis
    by (auto simp: sample_change_def sample_fix_def sample_texts_def overlap_def edit_fits_def Let_def
      char_boundary_def utf8_cont_def)
qed

theorem fix_never_adds_witness:
  "\<exists>out. fix_texts sample_check CheckMode sample_texts = Some out \<and> fx_remaining out = sample_check (fx_texts out)"
proof -
  have "sound_check sample_check"
    by (auto simp: sound_check_def sample_check_def sample_diag_def sample_fix_def overlap_def
      split: option.splits list.splits if_splits)
  from fix_never_adds [OF this, of CheckMode sample_texts] show ?thesis by blast
qed

end
