(* ===== verification/Tokens.thy ===== *)
theory Tokens
  imports Utf8
begin

text \<open>
  \<^verbatim>\<open>crates/hd_syntax/src/lexer.rs\<close>, the token buffer: the kinds, the parallel vectors with one
  entry per token, line and comment, the table of lines built before lexing, and the lookups the
  layout cursor and the parser make. Symbols, which a run's interner fills in later, are left out.
\<close>

unbundle bit_operations_syntax

text \<open>The bytes of an ASCII literal.\<close>

definition ascii :: "string \<Rightarrow> str" where
  "ascii s = map of_char s"

section \<open>Token kinds\<close>

text \<open>
  \<open>TokenKind\<close>, in groups: the delimiters, the one-byte and the longer operators, and the reserved words.
\<close>

datatype (plugins only: code size) delimiter =
    LParen | RParen | LBracket | RBracket | LBrace | RBrace

datatype (plugins only: code size) punct =
    Comma | Dot | Colon | Semicolon | Plus | Minus | Star | Slash
  | Percent | Amp | Pipe | Caret | Tilde | Eq | Lt | Gt
  | Question | Bang | Dollar | At

datatype (plugins only: code size) compound =
    StarStar | Shl | Shr | AndAnd | OrOr | PipeGt | EqEq | NotEq
  | LtEq | GtEq | ColonEq | Arrow | FatArrow | Ellipsis | ColonColon | PlusEq
  | MinusEq | StarEq | SlashEq | PercentEq | AmpEq | PipeEq | CaretEq | ShlEq
  | ShrEq | DotDot | DotDotEq

datatype (plugins only: code size) reserved =
    KwSelfType | KwBreak | KwContinue | KwData | KwDyn | KwElse | KwEnum | KwFalse
  | KwFn | KwFor | KwIf | KwImpl | KwIn | KwIs | KwLet | KwMatch
  | KwMut | KwPass | KwPub | KwReturn | KwSelfValue | KwStruct | KwTests | KwTrait
  | KwTrue | KwType | KwWhile

datatype (plugins only: code size) token_kind =
    TError | TIdent | TRawIdent | TPlaceholder | TNumber | TString | TChar | TLifetime
  | TStrHead | TStrMid | TStrTail | TDelim delimiter | TPunct punct | TCompound compound | TKw reserved

definition is_open_delimiter :: "token_kind \<Rightarrow> bool" where
  "is_open_delimiter k = (k = TDelim LParen \<or> k = TDelim LBracket \<or> k = TDelim LBrace)"

definition is_close_delimiter :: "token_kind \<Rightarrow> bool" where
  "is_close_delimiter k = (k = TDelim RParen \<or> k = TDelim RBracket \<or> k = TDelim RBrace)"

text \<open>A nesting level for layout: a bracket or an interpolation.\<close>

definition opens :: "token_kind \<Rightarrow> bool" where
  "opens k = (is_open_delimiter k \<or> k = TStrHead)"

definition closes :: "token_kind \<Rightarrow> bool" where
  "closes k = (is_close_delimiter k \<or> k = TStrTail)"

definition keyword_table :: "(str \<times> reserved) list" where
  "keyword_table =
     [(ascii ''Self'', KwSelfType), (ascii ''break'', KwBreak), (ascii ''continue'', KwContinue),
      (ascii ''data'', KwData), (ascii ''dyn'', KwDyn), (ascii ''else'', KwElse),
      (ascii ''enum'', KwEnum), (ascii ''false'', KwFalse), (ascii ''fn'', KwFn),
      (ascii ''for'', KwFor), (ascii ''if'', KwIf), (ascii ''impl'', KwImpl),
      (ascii ''in'', KwIn), (ascii ''is'', KwIs), (ascii ''let'', KwLet),
      (ascii ''match'', KwMatch), (ascii ''mut'', KwMut), (ascii ''pass'', KwPass),
      (ascii ''pub'', KwPub), (ascii ''return'', KwReturn), (ascii ''self'', KwSelfValue),
      (ascii ''struct'', KwStruct), (ascii ''tests'', KwTests), (ascii ''trait'', KwTrait),
      (ascii ''true'', KwTrue), (ascii ''type'', KwType), (ascii ''while'', KwWhile)]"

definition keyword :: "str \<Rightarrow> token_kind option" where
  "keyword t = map_option TKw (map_of keyword_table t)"

datatype comment_kind = PlainComment | DocComment | ModuleDoc

section \<open>The token buffer\<close>

definition NON_ASCII :: u8 where "NON_ASCII = 1"

definition HAS_TAB :: u8 where "HAS_TAB = 2"

definition CONTINUES_STRING :: u8 where "CONTINUES_STRING = 4"

record token_buf =
  tk_kind :: "token_kind list"
  tk_start :: "u32 list"
  tk_end :: "u32 list"
  line_first :: "u32 list"
  line_start :: "u32 list"
  line_tok :: "u32 list"
  line_indent :: "u16 list"
  line_flags :: "u8 list"
  com_start :: "u32 list"
  com_end :: "u32 list"
  com_kind :: "comment_kind list"
  resync :: "u32 list"

definition empty_tokens :: token_buf where
  "empty_tokens = \<lparr>tk_kind = [], tk_start = [], tk_end = [], line_first = [], line_start = [], line_tok = [],
     line_indent = [], line_flags = [], com_start = [], com_end = [], com_kind = [], resync = []\<rparr>"

text \<open>\<open>value.try_into().unwrap_or(u32::MAX - 1)\<close>.\<close>

definition to_u32 :: "nat \<Rightarrow> u32" where
  "to_u32 v = (if v < 2 ^ 32 then word_of_nat v else - 2)"

lemma to_u32_code [code]: "to_u32 v = (if int v < 2 ^ 32 then word_of_int (int v) else - 2)"
  by (simp add: to_u32_def)

definition to_u16 :: "nat \<Rightarrow> u16" where
  "to_u16 v = (if v < 2 ^ 16 then word_of_nat v else - 1)"

lemma to_u16_code [code]: "to_u16 v = (if int v < 2 ^ 16 then word_of_int (int v) else - 1)"
  by (simp add: to_u16_def)

definition no_token :: u32 where
  "no_token = - 1"

text \<open>\<open>TokenBuf::push\<close>: \<open>None\<close> is the panic when there is no line \<open>line\<close>.\<close>

definition push_token :: "token_kind \<Rightarrow> nat \<Rightarrow> nat \<Rightarrow> nat \<Rightarrow> token_buf \<Rightarrow> token_buf option" where
  "push_token k start stop line tb =
     (let token = length (tk_kind tb);
          tb = tb\<lparr>tk_kind := tk_kind tb @ [k], tk_start := tk_start tb @ [to_u32 start], tk_end := tk_end tb @ [to_u32 stop],
                  line_first := line_first tb @ replicate (token div 32 + 1 - length (line_first tb)) 0\<rparr>
      in case get_at (line_tok tb) line of
           None \<Rightarrow> None
         | Some first \<Rightarrow>
             if first = no_token
             then (case get_at (line_flags tb) line of
                     None \<Rightarrow> None
                   | Some flags \<Rightarrow>
                       if flags AND CONTINUES_STRING = 0
                       then Some (tb\<lparr>line_tok := (line_tok tb)[line := to_u32 token],
                                     line_first := (line_first tb)[token div 32 :=
                                       line_first tb ! (token div 32) OR push_bit (token mod 32) 1]\<rparr>)
                       else Some tb)
             else Some tb)"

definition is_line_first :: "token_buf \<Rightarrow> u32 \<Rightarrow> bool" where
  "is_line_first tb token =
     (case get_at (line_first tb) (unat token div 32) of
        None \<Rightarrow> False
      | Some word \<Rightarrow> word AND push_bit (unat token mod 32) 1 \<noteq> 0)"

text \<open>\<open>partition_point(start <= offset).saturating_sub(1)\<close> of the ascending line starts.\<close>

definition line_of :: "token_buf \<Rightarrow> u32 \<Rightarrow> nat" where
  "line_of tb offset = length (takeWhile (\<lambda>s. s \<le> offset) (line_start tb)) - 1"

text \<open>\<open>resync\<close> is ascending, so the binary search finds what is there.\<close>

definition is_resync :: "token_buf \<Rightarrow> nat \<Rightarrow> bool" where
  "is_resync tb index = (to_u32 index \<in> set (resync tb))"

definition starts_item_at_column_zero :: "token_buf \<Rightarrow> nat \<Rightarrow> bool" where
  "starts_item_at_column_zero tb index =
     (if \<not> is_line_first tb (to_u32 index) \<or> line_indent tb ! line_of tb (tk_start tb ! index) \<noteq> 0 then False
      else
        let k = tk_kind tb ! index
        in if k = TKw KwFn then (case get_at (tk_kind tb) (index + 1) of Some k' \<Rightarrow> k' = TIdent \<or> k' = TRawIdent | None \<Rightarrow> False)
           else k \<in> {TKw KwStruct, TKw KwEnum, TKw KwTrait, TKw KwImpl, TKw KwType, TKw KwPub, TKw KwTests})"

definition token_text :: "token_buf \<Rightarrow> nat \<Rightarrow> str \<Rightarrow> str option" where
  "token_text tb index source = str_slice source (unat (tk_start tb ! index)) (unat (tk_end tb ! index))"

text \<open>\<open>reconstruct\<close>: the source again, from the gaps and the tokens.\<close>

fun reconstruct_from :: "str \<Rightarrow> nat \<Rightarrow> (u32 \<times> u32) list \<Rightarrow> str option" where
  "reconstruct_from source previous [] = str_slice source previous (length source)"
| "reconstruct_from source previous ((s, e) # spans) =
     (case str_slice source previous (unat s) of
        None \<Rightarrow> None
      | Some gap \<Rightarrow>
          (case str_slice source (unat s) (unat e) of
             None \<Rightarrow> None
           | Some tok \<Rightarrow> map_option (\<lambda>rest. gap @ tok @ rest) (reconstruct_from source (unat e) spans)))"

definition reconstruct :: "token_buf \<Rightarrow> str \<Rightarrow> str option" where
  "reconstruct tb source = reconstruct_from source 0 (zip (tk_start tb) (tk_end tb))"

section \<open>Lines\<close>

definition line_break :: "u8 \<Rightarrow> bool" where
  "line_break b = (b = 10 \<or> b = 13)"

text \<open>The inner loop of \<open>build_lines\<close>: where the line ends, its indentation and its flags.\<close>

fun scan_line :: "str \<Rightarrow> nat \<Rightarrow> nat \<Rightarrow> nat \<Rightarrow> u8 \<Rightarrow> bool \<Rightarrow> nat \<times> nat \<times> u8" where
  "scan_line source 0 stop indent flags leading = (stop, indent, flags)"
| "scan_line source (Suc n) stop indent flags leading =
     (if stop < length source \<and> \<not> line_break (source ! stop)
      then
        let byte = source ! stop;
            (indent, leading) = (if leading \<and> byte = 32 then (indent + 1, leading) else (indent, False));
            flags = (if 0x80 \<le> byte then flags OR NON_ASCII else if byte = 9 then flags OR HAS_TAB else flags)
        in scan_line source n (stop + 1) indent flags leading
      else (stop, indent, flags))"

function build_lines_from :: "str \<Rightarrow> nat \<Rightarrow> token_buf \<Rightarrow> token_buf" where
  "build_lines_from source start tb =
     (let (stop, indent, flags) = scan_line source (length source - start) start 0 0 True;
          tb = tb\<lparr>line_start := line_start tb @ [to_u32 start], line_tok := line_tok tb @ [no_token],
                  line_indent := line_indent tb @ [to_u16 indent], line_flags := line_flags tb @ [flags]\<rparr>
      in if length source \<le> stop \<or> stop < start then tb
         else
           let start = stop + (if source ! stop = 13 \<and> get_at source (stop + 1) = Some 10 then 1 else 0) + 1
           in if length source < start then tb else build_lines_from source start tb)"
  by pat_completeness auto
termination
  by (relation "measure (\<lambda>(source, start, tb). Suc (length source) - start)") (auto split: if_splits)

declare build_lines_from.simps [simp del]

definition build_lines :: "str \<Rightarrow> token_buf \<Rightarrow> token_buf" where
  "build_lines source tb = build_lines_from source 0 tb"

end
