(* ===== verification/Lexer.thy ===== *)
theory Lexer
  imports Tokens "HOL-Library.Monad_Syntax"
begin

text \<open>
  \<^verbatim>\<open>crates/hd_syntax/src/lexer.rs\<close>, the lexer. It works on a \<open>str\<close>; a slice or a \<open>chars()\<close> inside
  a character, an index past a vector and an overflowing counter are the value \<open>None\<close> or
  \<open>Panicked\<close>. The tables of the Unicode crates (\<open>xid_start\<close>, \<open>xid_continue\<close>, NFC) and of
  \<open>char::is_alphanumeric\<close> and \<open>char::is_control\<close> are the parameter \<open>u\<close>. The scanner of one token is
  a function from positions to positions and diagnostics; the steps thread the lexer's state. A
  diagnostic's text is data: one constructor per text, with the pieces of source it quotes.
\<close>

record unicode =
  xid_start :: "u32 \<Rightarrow> bool"
  xid_continue :: "u32 \<Rightarrow> bool"
  nfc :: "str \<Rightarrow> bool"
  alphanumeric :: "u32 \<Rightarrow> bool"
  control :: "u32 \<Rightarrow> bool"

datatype (plugins only: code size) lex_code =
    InvalidToken | TabWhitespace | SyntaxError | UnterminatedString | NestingTooDeep | InvalidEscape
  | UnclosedDelimiter | UnmatchedDelimiter | UnexpectedBom | ReservedSemicolon

datatype (plugins only: code size) lex_message =
    NotUtf8 | IndentationTab | WhitespaceTab | BareReturn | NeedsIdentifier | NotNfc str | PrefixReserved str
  | SuffixReserved str str | InvalidInteger str | InvalidNumeric str | LiteralTab | Unterminated
  | UnterminatedInterpolation | TooDeep | ReservedDollar | OneScalar | BadUnicodeEscape | BadEscape "u32 option"
  | MisplacedBom | UnexpectedChar str | SemicolonReserved | UnclosedText str | UnexpectedText str

type_synonym lex_diag = "lex_code \<times> nat \<times> nat \<times> lex_message"

record lexer =
  lx_pos :: nat
  lx_line :: nat
  lx_tokens :: token_buf
  lx_diags :: "lex_diag list"
  string_depth :: nat

definition MAX_STRING_DEPTH :: nat where
  "MAX_STRING_DEPTH = 64"

section \<open>Bytes\<close>

definition is_ascii_digit :: "u8 \<Rightarrow> bool" where
  "is_ascii_digit b = (48 \<le> b \<and> b \<le> 57)"

definition is_ascii_alphabetic :: "u8 \<Rightarrow> bool" where
  "is_ascii_alphabetic b = (65 \<le> b \<and> b \<le> 90 \<or> 97 \<le> b \<and> b \<le> 122)"

definition is_ascii_alphanumeric :: "u8 \<Rightarrow> bool" where
  "is_ascii_alphanumeric b = (is_ascii_alphabetic b \<or> is_ascii_digit b)"

definition is_ascii_hexdigit :: "u8 \<Rightarrow> bool" where
  "is_ascii_hexdigit b = (is_ascii_digit b \<or> 65 \<le> b \<and> b \<le> 70 \<or> 97 \<le> b \<and> b \<le> 102)"

definition is_ascii_whitespace :: "u8 \<Rightarrow> bool" where
  "is_ascii_whitespace b = (b = 32 \<or> b = 9 \<or> b = 10 \<or> b = 12 \<or> b = 13)"

definition is_ascii :: "str \<Rightarrow> bool" where
  "is_ascii s = (\<forall>b\<in>set s. b < 0x80)"

text \<open>The byte at \<open>p\<close>, if any, satisfies \<open>P\<close>.\<close>

definition byte_at :: "str \<Rightarrow> nat \<Rightarrow> (u8 \<Rightarrow> bool) \<Rightarrow> bool" where
  "byte_at b p P = (p < length b \<and> P (b ! p))"

text \<open>\<open>while bytes.get(p).is_some_and(P) { p += 1 }\<close>.\<close>

function skip_while :: "(u8 \<Rightarrow> bool) \<Rightarrow> str \<Rightarrow> nat \<Rightarrow> nat" where
  "skip_while P b p = (if byte_at b p P then skip_while P b (p + 1) else p)"
  by pat_completeness auto
termination
  by (relation "measure (\<lambda>(P, b, p). length b - p)") (auto simp: byte_at_def)

declare skip_while.simps [simp del]

text \<open>\<open>char_len\<close>: \<open>None\<close> inside a character.\<close>

definition char_len :: "str \<Rightarrow> nat \<Rightarrow> nat option" where
  "char_len b p = map_option (\<lambda>c. if c = None then 1 else char_width (b ! p)) (next_char b p)"

definition is_ident_start_byte :: "unicode \<Rightarrow> u8 \<Rightarrow> str \<Rightarrow> nat \<Rightarrow> bool option" where
  "is_ident_start_byte u byte b p =
     (if byte = 95 \<or> is_ascii_alphabetic byte then Some True
      else if byte < 0x80 then Some False
      else map_option (\<lambda>c. case c of None \<Rightarrow> False | Some c \<Rightarrow> xid_start u c) (next_char b p))"

definition digit_for_radix :: "nat \<Rightarrow> u8 \<Rightarrow> bool" where
  "digit_for_radix radix b =
     (if radix = 2 then b = 48 \<or> b = 49
      else if radix = 8 then 48 \<le> b \<and> b \<le> 55
      else if radix = 10 then is_ascii_digit b
      else if radix = 16 then is_ascii_hexdigit b
      else False)"

definition hex_value :: "u8 \<Rightarrow> nat" where
  "hex_value b = (if b \<le> 57 then unat b - 48 else if b \<le> 70 then unat b - 55 else unat b - 87)"

text \<open>At most \<open>n\<close> hexadecimal digits from \<open>p\<close>.\<close>

fun skip_hex :: "nat \<Rightarrow> str \<Rightarrow> nat \<Rightarrow> nat" where
  "skip_hex 0 b p = p"
| "skip_hex (Suc n) b p = (if byte_at b p is_ascii_hexdigit then skip_hex n b (p + 1) else p)"

definition valid_escape :: "str \<Rightarrow> nat \<Rightarrow> bool" where
  "valid_escape b p =
     (case get_at b (p + 1) of
        None \<Rightarrow> False
      | Some c \<Rightarrow>
          if c \<in> {92, 34, 39, 110, 114, 116, 48, 36} then True
          else if c = 117 then
            (if \<not> byte_at b (p + 2) (\<lambda>c. c = 123) then False
             else
               let first = p + 3; at = skip_hex 6 b first
               in if at = first \<or> \<not> byte_at b at (\<lambda>c. c = 125) then False
                  else
                    let v = foldl (\<lambda>v d. 16 * v + hex_value d) 0 (take (at - first) (drop first b))
                    in v < 0x110000 \<and> \<not> (0xD800 \<le> v \<and> v < 0xE000))
          else False)"

section \<open>Scanners\<close>

text \<open>The loop over \<open>chars()\<close> at the end of \<open>consume_identifier_chars\<close>.\<close>

function ident_chars :: "unicode \<Rightarrow> str \<Rightarrow> nat \<Rightarrow> nat option" where
  "ident_chars u b p =
     (case next_char b p of
        None \<Rightarrow> None
      | Some None \<Rightarrow> Some p
      | Some (Some c) \<Rightarrow>
          if p < length b \<and> (c = 95 \<or> xid_continue u c) then ident_chars u b (p + char_width (b ! p)) else Some p)"
  by pat_completeness auto
termination
  by (relation "measure (\<lambda>(u, b, p). length b - p)") (auto simp: diff_less_mono2)

declare ident_chars.simps [simp del]

definition ident_rest :: "unicode \<Rightarrow> str \<Rightarrow> nat \<Rightarrow> nat \<Rightarrow> (bool \<times> nat) option" where
  "ident_rest u b start p =
     (case next_char b p of
        None \<Rightarrow> None
      | Some None \<Rightarrow> Some (start < p, p)
      | Some (Some c) \<Rightarrow>
          if p = start \<and> c \<noteq> 95 \<and> \<not> xid_start u c then Some (False, p)
          else if p = start \<or> xid_continue u c
               then map_option (\<lambda>q. (start < q, q)) (ident_chars u b (p + char_width (b ! p)))
               else Some (True, p))"

text \<open>\<open>consume_identifier_chars\<close>: whether there is an identifier, and the new position.\<close>

definition consume_ident :: "unicode \<Rightarrow> str \<Rightarrow> nat \<Rightarrow> (bool \<times> nat) option" where
  "consume_ident u b p =
     (case get_at b p of
        None \<Rightarrow> Some (False, p)
      | Some first \<Rightarrow>
          if first < 0x80 then
            (if first \<noteq> 95 \<and> \<not> is_ascii_alphabetic first then Some (False, p)
             else
               let q = skip_while (\<lambda>c. c = 95 \<or> is_ascii_alphanumeric c) b (p + 1)
               in if \<not> byte_at b q (\<lambda>c. 0x80 \<le> c) then Some (True, q) else ident_rest u b p q)
          else ident_rest u b p p)"

text \<open>The recovery loop of \<open>raw_identifier\<close>, which moves by characters.\<close>

function skip_raw :: "str \<Rightarrow> nat \<Rightarrow> nat option" where
  "skip_raw b p =
     (if p < length b \<and> b ! p \<noteq> 96 \<and> \<not> line_break (b ! p)
      then (case next_char b p of None \<Rightarrow> None | Some c \<Rightarrow> skip_raw b (p + char_width (b ! p)))
      else Some p)"
  by pat_completeness auto
termination
  by (relation "measure (\<lambda>(b, p). length b - p)") (auto simp: diff_less_mono2)

declare skip_raw.simps [simp del]

definition scan_raw_identifier :: "unicode \<Rightarrow> str \<Rightarrow> nat \<Rightarrow> (token_kind \<times> nat \<times> lex_diag list) option" where
  "scan_raw_identifier u b start = do {
     (ok, p) \<leftarrow> consume_ident u b (start + 1);
     if \<not> ok \<or> \<not> byte_at b p (\<lambda>c. c = 96)
     then do {
       p \<leftarrow> skip_raw b p;
       let p = (if byte_at b p (\<lambda>c. c = 96) then p + 1 else p);
       Some (TError, p, [(InvalidToken, start, p, NeedsIdentifier)]) }
     else do {
       content \<leftarrow> str_slice b (start + 1) p;
       Some (TRawIdent, p + 1,
         if content = [95] then [(InvalidToken, start, p + 1, NeedsIdentifier)]
         else if \<not> is_ascii content \<and> \<not> nfc u content then [(InvalidToken, start, p + 1, NotNfc content)]
         else []) } }"

text \<open>The identifier that is not a string's prefix: its kind, its end and its diagnostics.\<close>

definition scan_identifier :: "unicode \<Rightarrow> str \<Rightarrow> nat \<Rightarrow> nat \<Rightarrow> str \<Rightarrow> token_kind \<times> lex_diag list" where
  "scan_identifier u b start p t =
     ((case keyword t of Some k \<Rightarrow> k | None \<Rightarrow> if t = [95] then TPlaceholder else TIdent),
      (if byte_at b p (\<lambda>c. c = 34) then [(SyntaxError, start, p, PrefixReserved t)] else []) @
      (if \<not> is_ascii t \<and> \<not> nfc u t then [(InvalidToken, start, p, NotNfc t)] else []))"

text \<open>Digits and separators; whether a separator is doubled or last.\<close>

function skip_digits :: "(u8 \<Rightarrow> bool) \<Rightarrow> str \<Rightarrow> nat \<Rightarrow> bool \<Rightarrow> bool \<Rightarrow> nat \<times> bool" where
  "skip_digits digit b p bad previous =
     (if byte_at b p digit then skip_digits digit b (p + 1) bad False
      else if byte_at b p (\<lambda>c. c = 95) then skip_digits digit b (p + 1) (bad \<or> previous) True
      else (p, bad \<or> previous))"
  by pat_completeness auto
termination
  by (relation "measure (\<lambda>(digit, b, p, bad, previous). length b - p)") (auto simp: byte_at_def)

declare skip_digits.simps [simp del]

definition scan_fraction :: "str \<Rightarrow> nat \<Rightarrow> bool \<Rightarrow> nat \<times> bool" where
  "scan_fraction b p bad =
     (if byte_at b p (\<lambda>c. c = 46) \<and> byte_at b (p + 1) is_ascii_digit
      then skip_digits is_ascii_digit b (p + 1) bad False else (p, bad))"

definition scan_exponent :: "str \<Rightarrow> nat \<Rightarrow> bool \<Rightarrow> nat \<times> bool" where
  "scan_exponent b p bad =
     (if byte_at b p (\<lambda>c. c = 101 \<or> c = 69) then
        let look = (if byte_at b (p + 1) (\<lambda>c. c = 43 \<or> c = 45) then p + 2 else p + 1)
        in if byte_at b look is_ascii_digit then skip_digits is_ascii_digit b look bad False
           else if byte_at b look (\<lambda>c. c = 95)
                then (skip_while (\<lambda>c. is_ascii_alphanumeric c \<or> c = 95) b (look + 1), True)
                else (p, bad)
      else (p, bad))"

text \<open>The suffix of a decimal literal.\<close>

definition scan_suffix :: "unicode \<Rightarrow> str \<Rightarrow> nat \<Rightarrow> nat \<Rightarrow> (nat \<times> lex_diag list) option" where
  "scan_suffix u b start p = do {
     c \<leftarrow> next_char b p;
     if (case c of None \<Rightarrow> False | Some c \<Rightarrow> xid_start u c)
     then do {
       (ok, q) \<leftarrow> consume_ident u b p;
       word \<leftarrow> str_slice b p q;
       if keyword word \<noteq> None
       then do { number \<leftarrow> str_slice b start p; Some (q, [(SyntaxError, start, q, SuffixReserved number word)]) }
       else Some (q, []) }
     else Some (p, []) }"

text \<open>The letters after the digits of a radix literal.\<close>

function skip_alnum :: "unicode \<Rightarrow> str \<Rightarrow> nat \<Rightarrow> nat option" where
  "skip_alnum u b p =
     (case next_char b p of
        None \<Rightarrow> None
      | Some None \<Rightarrow> Some p
      | Some (Some c) \<Rightarrow>
          if p < length b \<and> (c = 95 \<or> alphanumeric u c) then skip_alnum u b (p + char_width (b ! p)) else Some p)"
  by pat_completeness auto
termination
  by (relation "measure (\<lambda>(u, b, p). length b - p)") (auto simp: diff_less_mono2)

declare skip_alnum.simps [simp del]

definition scan_radix_tail :: "unicode \<Rightarrow> str \<Rightarrow> nat \<Rightarrow> nat \<Rightarrow> (nat \<times> lex_diag list) option" where
  "scan_radix_tail u b start p =
     (if p = start + 2
      then do { t \<leftarrow> str_slice b start p; Some (p, [(SyntaxError, start, p, InvalidInteger t)]) }
      else do {
        q \<leftarrow> skip_alnum u b p;
        if q \<noteq> p then do { t \<leftarrow> str_slice b start q; Some (q, [(SyntaxError, start, q, InvalidInteger t)]) }
        else Some (p, []) })"

definition number_radix :: "str \<Rightarrow> nat \<Rightarrow> nat" where
  "number_radix b start =
     (if byte_at b start (\<lambda>c. c = 48) then
        (case get_at b (start + 1) of
           None \<Rightarrow> 10
         | Some c \<Rightarrow> if c = 98 \<or> c = 66 then 2 else if c = 111 \<or> c = 79 then 8 else if c = 120 \<or> c = 88 then 16 else 10)
      else 10)"

definition scan_number :: "unicode \<Rightarrow> str \<Rightarrow> nat \<Rightarrow> (nat \<times> lex_diag list) option" where
  "scan_number u b start = do {
     let radix = number_radix b start;
     let (p, bad) = skip_digits (digit_for_radix radix) b (if radix = 10 then start else start + 2) False False;
     let (p, bad) = (if radix = 10 then (let (p, bad) = scan_fraction b p bad in scan_exponent b p bad) else (p, bad));
     (p, ds) \<leftarrow> (if radix = 10 then scan_suffix u b start p else scan_radix_tail u b start p);
     if bad then do {
       t \<leftarrow> str_slice b start p;
       Some (p, ds @ [(InvalidToken, start, p, if radix = 10 then InvalidNumeric t else InvalidInteger t)]) }
     else Some (p, ds) }"

text \<open>\<open>dollar_name\<close>, at the \<open>$\<close>.\<close>

definition scan_dollar :: "unicode \<Rightarrow> str \<Rightarrow> nat \<Rightarrow> (nat \<times> lex_diag list) option" where
  "scan_dollar u b dollar =
     (case get_at b (dollar + 1) of
        None \<Rightarrow> Some (dollar + 1, [])
      | Some byte \<Rightarrow> do {
          ident \<leftarrow> is_ident_start_byte u byte b (dollar + 1);
          if \<not> ident then Some (dollar + 1, [])
          else do {
            (ok, p) \<leftarrow> consume_ident u b (dollar + 1);
            t \<leftarrow> str_slice b (dollar + 1) p;
            Some (p, if t \<noteq> ascii ''self'' \<and> keyword t \<noteq> None then [(SyntaxError, dollar, p, ReservedDollar)] else []) } })"

text \<open>\<open>invalid_escape\<close>, at the backslash.\<close>

definition escape_diag :: "unicode \<Rightarrow> str \<Rightarrow> nat \<Rightarrow> lex_diag option" where
  "escape_diag u b p =
     (let stop = min (p + 2) (length b)
      in if byte_at b (p + 1) (\<lambda>c. c = 117) then Some (InvalidEscape, p, stop, BadUnicodeEscape)
         else do {
           next \<leftarrow> next_char b (p + 1);
           Some (InvalidEscape, p, stop,
             BadEscape (case next of None \<Rightarrow> None | Some c \<Rightarrow> if control u c then None else Some c)) })"

text \<open>The operators of three, two and one bytes; the longest is taken.\<close>

definition operators3 :: "((u8 \<times> u8 \<times> u8) \<times> token_kind) list" where
  "operators3 =
     [((46, 46, 46), TCompound Ellipsis), ((46, 46, 61), TCompound DotDotEq), ((60, 60, 61), TCompound ShlEq),
      ((62, 62, 61), TCompound ShrEq)]"

definition operators2 :: "((u8 \<times> u8) \<times> token_kind) list" where
  "operators2 =
     [((42, 42), TCompound StarStar), ((38, 38), TCompound AndAnd), ((124, 124), TCompound OrOr), ((124, 62), TCompound PipeGt),
      ((61, 61), TCompound EqEq), ((33, 61), TCompound NotEq), ((60, 61), TCompound LtEq), ((62, 61), TCompound GtEq),
      ((58, 61), TCompound ColonEq), ((45, 62), TCompound Arrow), ((61, 62), TCompound FatArrow), ((58, 58), TCompound ColonColon),
      ((43, 61), TCompound PlusEq), ((45, 61), TCompound MinusEq), ((42, 61), TCompound StarEq), ((47, 61), TCompound SlashEq),
      ((37, 61), TCompound PercentEq), ((38, 61), TCompound AmpEq), ((124, 61), TCompound PipeEq), ((94, 61), TCompound CaretEq),
      ((60, 60), TCompound Shl), ((62, 62), TCompound Shr), ((46, 46), TCompound DotDot)]"

definition operators1 :: "(u8 \<times> token_kind) list" where
  "operators1 =
     [(40, TDelim LParen), (41, TDelim RParen), (91, TDelim LBracket), (93, TDelim RBracket), (123, TDelim LBrace),
      (125, TDelim RBrace), (44, TPunct Comma), (46, TPunct Dot), (58, TPunct Colon), (59, TPunct Semicolon),
      (43, TPunct Plus), (45, TPunct Minus), (42, TPunct Star), (47, TPunct Slash), (37, TPunct Percent),
      (38, TPunct Amp), (124, TPunct Pipe), (94, TPunct Caret), (126, TPunct Tilde), (61, TPunct Eq),
      (60, TPunct Lt), (62, TPunct Gt), (63, TPunct Question), (33, TPunct Bang), (36, TPunct Dollar),
      (64, TPunct At)]"

definition operator_at :: "str \<Rightarrow> nat \<Rightarrow> token_kind \<times> nat" where
  "operator_at b p =
     (let k3 = (if p + 2 < length b then map_of operators3 (b ! p, b ! (p + 1), b ! (p + 2)) else None);
          k2 = (if p + 1 < length b then map_of operators2 (b ! p, b ! (p + 1)) else None)
      in case k3 of Some k \<Rightarrow> (k, 3)
         | None \<Rightarrow> (case k2 of Some k \<Rightarrow> (k, 2)
         | None \<Rightarrow> (case map_of operators1 (b ! p) of Some k \<Rightarrow> (k, 1) | None \<Rightarrow> (TError, 1))))"

text \<open>\<open>punctuation_or_error\<close>: the kind, the end and the diagnostics.\<close>

definition scan_punctuation :: "str \<Rightarrow> nat \<Rightarrow> (token_kind \<times> nat \<times> lex_diag list) option" where
  "scan_punctuation b start =
     (let (k, width) = operator_at b start
      in if k = TError then do {
           n \<leftarrow> char_len b start;
           t \<leftarrow> str_slice b start (start + n);
           Some (TError, start + n,
             [if take 3 t = [0xEF, 0xBB, 0xBF] then (UnexpectedBom, start, start + n, MisplacedBom)
              else (InvalidToken, start, start + n, UnexpectedChar t)]) }
         else Some (k, start + width,
           if k = TPunct Semicolon then [(ReservedSemicolon, start, start + width, SemicolonReserved)] else []))"

text \<open>
  The loop of \<open>character\<close>: the end, whether the quote was found, and the scalars between; a
  position that meets the end of the line stops it.
\<close>

definition escape_diags :: "unicode \<Rightarrow> str \<Rightarrow> nat \<Rightarrow> lex_diag list option" where
  "escape_diags u b p =
     (if valid_escape b p then Some [] else map_option (\<lambda>d. [d]) (escape_diag u b p))"

text \<open>The position after the escape whose backslash is at \<open>p\<close>; whether the literal stops there.\<close>

definition skip_char_escape :: "str \<Rightarrow> nat \<Rightarrow> (nat \<times> bool) option" where
  "skip_char_escape b p =
     (if byte_at b (p + 1) (\<lambda>c. c = 117) \<and> byte_at b (p + 2) (\<lambda>c. c = 123) then
        let q = skip_while (\<lambda>c. c \<noteq> 125 \<and> c \<noteq> 39 \<and> \<not> line_break c) b (p + 1)
        in Some (if byte_at b q (\<lambda>c. c = 125) then q + 1 else q, False)
      else if length b \<le> p + 1 \<or> line_break (b ! (p + 1)) then Some (p + 1, True)
      else map_option (\<lambda>n. (p + 1 + n, False)) (char_len b (p + 1)))"

lemma skip_while_ge: "p \<le> skip_while P b p"
proof (induction P b p rule: skip_while.induct)
  case (1 P b p)
  then show ?case by (subst skip_while.simps) auto
qed

lemma skip_char_escape_less: "skip_char_escape b p = Some (q, stop) \<Longrightarrow> p < q"
  using skip_while_ge [of "p + 1" "\<lambda>c. c \<noteq> 125 \<and> c \<noteq> 39 \<and> \<not> line_break c" b]
  by (auto simp: skip_char_escape_def Let_def split: if_splits)

lemma char_len_pos: "char_len b p = Some n \<Longrightarrow> 0 < n"
  by (auto simp: char_len_def split: if_splits)

function scan_char_loop :: "unicode \<Rightarrow> str \<Rightarrow> nat \<Rightarrow> nat \<Rightarrow> lex_diag list \<Rightarrow>
    (nat \<times> bool \<times> nat \<times> lex_diag list) option" where
  "scan_char_loop u b p scalars ds =
     (if length b \<le> p \<or> line_break (b ! p) then Some (p, False, scalars, ds)
      else
        let byte = b ! p;
            ds = (if byte = 9 then ds @ [(TabWhitespace, p, p + 1, LiteralTab)] else ds)
        in if byte = 39 then Some (p + 1, True, scalars, ds)
           else if u32_max scalars then None
           else if byte = 92 then
             (case escape_diags u b p of
                None \<Rightarrow> None
              | Some ds' \<Rightarrow>
                  (case skip_char_escape b p of
                     None \<Rightarrow> None
                   | Some (q, stop) \<Rightarrow>
                       if stop then Some (q, False, scalars + 1, ds @ ds')
                       else scan_char_loop u b q (scalars + 1) (ds @ ds')))
           else
             (case char_len b p of
                None \<Rightarrow> None
              | Some n \<Rightarrow> scan_char_loop u b (p + n) (scalars + 1) ds))"
  by pat_completeness auto
termination
  by (relation "measure (\<lambda>(u, b, p, scalars, ds). length b - p)") (auto dest!: skip_char_escape_less char_len_pos)

declare scan_char_loop.simps [simp del]

definition scan_character :: "unicode \<Rightarrow> str \<Rightarrow> nat \<Rightarrow> (nat \<times> lex_diag list) option" where
  "scan_character u b start = do {
     (p, closed, scalars, ds) \<leftarrow> scan_char_loop u b (start + 1) 0 [];
     Some (p, ds @ (if \<not> closed then [(UnterminatedString, start, p, Unterminated)]
                    else if scalars \<noteq> 1 then [(InvalidToken, start, p, OneScalar)] else [])) }"

text \<open>\<open>lifetime_or_character\<close>.\<close>

definition scan_lifetime :: "unicode \<Rightarrow> str \<Rightarrow> nat \<Rightarrow> (token_kind \<times> nat \<times> lex_diag list) option" where
  "scan_lifetime u b start = do {
     (ok, p) \<leftarrow> consume_ident u b (start + 1);
     if ok \<and> \<not> byte_at b p (\<lambda>c. c = 39) then Some (TLifetime, p, [])
     else do { (p, ds) \<leftarrow> scan_character u b start; Some (TChar, p, ds) } }"

section \<open>Steps\<close>

definition lx_error :: "lex_code \<Rightarrow> nat \<Rightarrow> nat \<Rightarrow> lex_message \<Rightarrow> lexer \<Rightarrow> lexer" where
  "lx_error code start stop m l = l\<lparr>lx_diags := lx_diags l @ [(code, start, stop, m)]\<rparr>"

definition move_to :: "nat \<Rightarrow> lexer \<Rightarrow> lexer" where
  "move_to p l = l\<lparr>lx_pos := p\<rparr>"

text \<open>A token from \<open>start\<close> on line \<open>line\<close> up to the cursor.\<close>

definition lx_push :: "token_kind \<Rightarrow> nat \<Rightarrow> nat \<Rightarrow> lexer \<Rightarrow> lexer outcome" where
  "lx_push k start line l =
     (case push_token k start (lx_pos l) line (lx_tokens l) of
        None \<Rightarrow> Panicked
      | Some tb \<Rightarrow> Returned (l\<lparr>lx_tokens := tb\<rparr>))"

text \<open>What a scanner found: the diagnostics, then the token on the current line.\<close>

definition lx_scanned :: "nat \<Rightarrow> (token_kind \<times> nat \<times> lex_diag list) option \<Rightarrow> lexer \<Rightarrow> lexer outcome" where
  "lx_scanned start r l =
     (case r of
        None \<Rightarrow> Panicked
      | Some (k, p, ds) \<Rightarrow> lx_push k start (lx_line l) (l\<lparr>lx_pos := p, lx_diags := lx_diags l @ ds\<rparr>))"

definition new_line :: "lexer \<Rightarrow> lexer" where
  "new_line l =
     (let line = lx_line l + 1; tb = lx_tokens l
      in l\<lparr>lx_line := line,
           lx_tokens := (if 0 < string_depth l \<and> line < length (line_flags tb)
                         then tb\<lparr>line_flags := (line_flags tb)[line := line_flags tb ! line OR CONTINUES_STRING]\<rparr>
                         else tb)\<rparr>)"

definition lx_comment :: "str \<Rightarrow> lexer \<Rightarrow> lexer" where
  "lx_comment b l =
     (let start = lx_pos l; p = skip_while (\<lambda>c. \<not> line_break c) b start; tb = lx_tokens l
      in l\<lparr>lx_pos := p,
           lx_tokens := tb\<lparr>com_start := com_start tb @ [to_u32 start], com_end := com_end tb @ [to_u32 p],
             com_kind := com_kind tb @ [if byte_at b (start + 1) (\<lambda>c. c = 35) then DocComment else PlainComment]\<rparr>\<rparr>)"

definition in_indentation :: "str \<Rightarrow> nat \<Rightarrow> bool" where
  "in_indentation b p =
     (case find (\<lambda>c. c \<noteq> 32 \<and> c \<noteq> 9) (rev (take p b)) of None \<Rightarrow> True | Some c \<Rightarrow> line_break c)"

text \<open>Whether the bytes at \<open>p\<close> are \<open>n\<close> quotes.\<close>

definition quotes_at :: "nat \<Rightarrow> str \<Rightarrow> nat \<Rightarrow> bool" where
  "quotes_at n b p = (get_range b p (p + n) = Some (replicate n 34))"

text \<open>The locals of \<open>string\<close> other than the escape flag.\<close>

record string_state =
  ss_start :: nat
  ss_prefixed :: bool
  ss_delimiter :: nat
  ss_piece_start :: nat
  ss_piece_line :: nat
  ss_interpolated :: bool

text \<open>The end of \<open>string\<close>, after its loop.\<close>

definition string_end :: "string_state \<Rightarrow> bool \<Rightarrow> lexer \<Rightarrow> lexer outcome" where
  "string_end s closed l =
     (let l = l\<lparr>string_depth := string_depth l - 1\<rparr>;
          l = (if closed then l else lx_error UnterminatedString (ss_start s) (lx_pos l) Unterminated l)
      in lx_push (if ss_interpolated s then TStrTail else if closed then TString else TError)
           (ss_piece_start s) (ss_piece_line s) l)"

text \<open>
  What \<open>step\<close> does with the byte at the position: all of it, or everything up to the loop of
  \<open>string\<close>, whose locals it has set up.
\<close>

datatype (plugins only: code size) step_turn =
    StepDone "lexer outcome"
  | StepString string_state lexer

definition string_start :: "str \<Rightarrow> nat \<Rightarrow> nat \<Rightarrow> bool \<Rightarrow> lexer \<Rightarrow> step_turn" where
  "string_start b start q prefixed l =
     (let delimiter = (if quotes_at 3 b q then 3 else 1)
      in if u32_max (string_depth l) then StepDone Panicked
         else StepString \<lparr>ss_start = start, ss_prefixed = prefixed, ss_delimiter = delimiter, ss_piece_start = start,
                ss_piece_line = lx_line l, ss_interpolated = False\<rparr>
                (l\<lparr>lx_pos := q + delimiter, string_depth := string_depth l + 1\<rparr>))"

text \<open>The last arms of \<open>step\<close>: a word, with the string it may prefix, or punctuation.\<close>

definition step_word :: "unicode \<Rightarrow> str \<Rightarrow> u8 \<Rightarrow> lexer \<Rightarrow> step_turn" where
  "step_word u b byte l =
     (let p = lx_pos l in
      case is_ident_start_byte u byte b p of
        None \<Rightarrow> StepDone Panicked
      | Some False \<Rightarrow> StepDone (lx_scanned p (scan_punctuation b p) l)
      | Some True \<Rightarrow>
          (case consume_ident u b p of
             None \<Rightarrow> StepDone Panicked
           | Some (ok, q) \<Rightarrow>
               (case str_slice b p q of
                  None \<Rightarrow> StepDone Panicked
                | Some t \<Rightarrow>
                    if byte_at b q (\<lambda>c. c = 34) \<and> keyword t = None then string_start b p q True l
                    else (let (k, ds) = scan_identifier u b p q t
                          in StepDone (lx_scanned p (Some (k, q, ds)) l)))))"

definition step_act :: "unicode \<Rightarrow> str \<Rightarrow> lexer \<Rightarrow> step_turn" where
  "step_act u b l =
     (let p = lx_pos l in
      case get_at b p of
        None \<Rightarrow> StepDone Panicked
      | Some byte \<Rightarrow>
          if byte = 32 then StepDone (Returned (move_to (p + 1) l))
          else if byte = 9 then
            StepDone (Returned (move_to (p + 1)
              (lx_error TabWhitespace p (p + 1) (if in_indentation b p then IndentationTab else WhitespaceTab) l)))
          else if byte = 10 then StepDone (Returned (new_line (move_to (p + 1) l)))
          else if byte = 13 \<and> byte_at b (p + 1) (\<lambda>c. c = 10) then StepDone (Returned (new_line (move_to (p + 2) l)))
          else if byte = 13 then
            StepDone (Returned (new_line (move_to (p + 1) (lx_error InvalidToken p (p + 1) BareReturn l))))
          else if byte = 35 then StepDone (Returned (lx_comment b l))
          else if byte = 96 then StepDone (lx_scanned p (scan_raw_identifier u b p) l)
          else if byte = 34 then string_start b p p False l
          else if byte = 39 then StepDone (lx_scanned p (scan_lifetime u b p) l)
          else if is_ascii_digit byte then
            StepDone (lx_scanned p (map_option (\<lambda>(q, ds). (TNumber, q, ds)) (scan_number u b p)) l)
          else step_word u b byte l)"

text \<open>
  One turn of the loop of \<open>string\<close>: it ends, it goes on with the next escape flag, or it opens an
  interpolation, with the head or middle piece pushed.
\<close>

datatype (plugins only: code size) string_turn =
    StringDone "lexer outcome"
  | StringNext bool lexer
  | StringHole lexer

definition string_dollar :: "unicode \<Rightarrow> str \<Rightarrow> string_state \<Rightarrow> lexer \<Rightarrow> string_turn" where
  "string_dollar u b s l =
     (let p = lx_pos l; opened = byte_at b (p + 1) (\<lambda>c. c = 123) in
      if opened \<and> string_depth l \<le> MAX_STRING_DEPTH then
        (case lx_push (if ss_interpolated s then TStrMid else TStrHead) (ss_piece_start s) (ss_piece_line s)
                (move_to (p + 2) l) of
           Panicked \<Rightarrow> StringDone Panicked
         | OutOfFuel \<Rightarrow> StringDone OutOfFuel
         | Returned l \<Rightarrow> StringHole l)
      else
        let l = (if opened then lx_error NestingTooDeep p (p + 2) TooDeep l else l)
        in (case scan_dollar u b p of
              None \<Rightarrow> StringDone Panicked
            | Some (q, ds) \<Rightarrow> StringNext False (l\<lparr>lx_pos := q, lx_diags := lx_diags l @ ds\<rparr>)))"

definition string_act :: "unicode \<Rightarrow> str \<Rightarrow> string_state \<Rightarrow> bool \<Rightarrow> lexer \<Rightarrow> string_turn" where
  "string_act u b s escaped l =
     (let p = lx_pos l in
      case get_at b p of
        None \<Rightarrow> StringDone (string_end s False l)
      | Some byte \<Rightarrow>
          if \<not> escaped \<and> quotes_at (ss_delimiter s) b p then
            StringDone (string_end s True (move_to (p + ss_delimiter s) l))
          else if ss_delimiter s = 1 \<and> line_break byte then StringDone (string_end s False l)
          else
            let l = (if byte = 9 then lx_error TabWhitespace p (p + 1) LiteralTab l else l)
            in if byte = 36 \<and> \<not> escaped then string_dollar u b s l
               else if byte = 10 then StringNext False (new_line (move_to (p + 1) l))
               else if byte = 13 \<and> byte_at b (p + 1) (\<lambda>c. c = 10) then
                 StringNext False (new_line (move_to (p + 2) l))
               else if \<not> ss_prefixed s \<and> byte = 92 \<and> \<not> escaped then
                 (case escape_diags u b p of
                    None \<Rightarrow> StringDone Panicked
                  | Some ds \<Rightarrow> StringNext True (l\<lparr>lx_pos := p + 1, lx_diags := lx_diags l @ ds\<rparr>))
               else StringNext (ss_prefixed s \<and> byte = 92 \<and> \<not> escaped) (move_to (p + 1) l))"

text \<open>The turn of the loop of \<open>string\<close> after an interpolation closed: the next piece starts at its \<open>}\<close>.\<close>

definition after_hole :: "string_state \<Rightarrow> lexer \<Rightarrow> string_state" where
  "after_hole s l = s\<lparr>ss_piece_start := lx_pos l, ss_piece_line := lx_line l, ss_interpolated := True\<rparr>"

definition open_hole :: "string_state \<Rightarrow> lexer \<Rightarrow> lexer" where
  "open_hole s l =
     lx_error UnterminatedString (ss_start s) (lx_pos l) UnterminatedInterpolation
       (l\<lparr>string_depth := string_depth l - 1\<rparr>)"

text \<open>
  \<open>step\<close>, \<open>string\<close> and \<open>interpolation\<close> call one another; the first argument is the fuel.
\<close>

fun step :: "nat \<Rightarrow> unicode \<Rightarrow> str \<Rightarrow> lexer \<Rightarrow> lexer outcome"
  and string_loop :: "nat \<Rightarrow> unicode \<Rightarrow> str \<Rightarrow> string_state \<Rightarrow> bool \<Rightarrow> lexer \<Rightarrow> lexer outcome"
  and interpolation :: "nat \<Rightarrow> unicode \<Rightarrow> str \<Rightarrow> nat \<Rightarrow> lexer \<Rightarrow> (bool \<times> lexer) outcome"
where
  "step 0 u b l = OutOfFuel"
| "step (Suc n) u b l =
     (case step_act u b l of
        StepDone r \<Rightarrow> r
      | StepString s l \<Rightarrow> string_loop n u b s False l)"
| "string_loop 0 u b s escaped l = OutOfFuel"
| "string_loop (Suc n) u b s escaped l =
     (case string_act u b s escaped l of
        StringDone r \<Rightarrow> r
      | StringNext escaped l \<Rightarrow> string_loop n u b s escaped l
      | StringHole l \<Rightarrow>
          (case interpolation n u b 0 l of
             Panicked \<Rightarrow> Panicked
           | OutOfFuel \<Rightarrow> OutOfFuel
           | Returned (closed, l) \<Rightarrow>
               if closed then string_loop n u b (after_hole s l) False (move_to (lx_pos l + 1) l)
               else Returned (open_hole s l)))"
| "interpolation 0 u b braces l = OutOfFuel"
| "interpolation (Suc n) u b braces l =
     (case get_at b (lx_pos l) of
        None \<Rightarrow> Returned (False, l)
      | Some byte \<Rightarrow>
          if byte = 125 \<and> braces = 0 then Returned (True, l)
          else if byte = 123 \<and> u32_max braces then Panicked
          else
            (case step n u b l of
               Panicked \<Rightarrow> Panicked
             | OutOfFuel \<Rightarrow> OutOfFuel
             | Returned l \<Rightarrow>
                 interpolation n u b (if byte = 123 then braces + 1 else if byte = 125 then braces - 1 else braces) l))"

declare step.simps [simp del] string_loop.simps [simp del] interpolation.simps [simp del]

text \<open>Fuel that is always enough: three for each byte left, and one.\<close>

definition lex_fuel :: "str \<Rightarrow> nat" where
  "lex_fuel b = 3 * length b + 1"

fun lex_run :: "nat \<Rightarrow> unicode \<Rightarrow> str \<Rightarrow> lexer \<Rightarrow> lexer outcome" where
  "lex_run n u b l =
     (if length b \<le> lx_pos l then Returned l
      else case n of
        0 \<Rightarrow> OutOfFuel
      | Suc n \<Rightarrow>
          (case step (lex_fuel b) u b l of
             Panicked \<Rightarrow> Panicked
           | OutOfFuel \<Rightarrow> OutOfFuel
           | Returned l \<Rightarrow> lex_run n u b l))"

declare lex_run.simps [simp del]

definition lexer_new :: "str \<Rightarrow> lexer" where
  "lexer_new b =
     \<lparr>lx_pos = (if take 3 b = [0xEF, 0xBB, 0xBF] then 3 else 0), lx_line = 0, lx_tokens = build_lines b empty_tokens,
      lx_diags = [], string_depth = 0\<rparr>"

section \<open>Delimiters\<close>

text \<open>
  \<open>match_delimiters\<close>. The stack's top is the head of the list; a diagnostic quotes the token's text,
  whose slice could panic. The item starts of the whole buffer are those before the loop: it changes
  only \<open>resync\<close>.
\<close>

record delim_state =
  dl_stack :: "(token_kind \<times> nat) list"
  dl_resync :: "u32 list"
  dl_diags :: "lex_diag list"

definition unclosed_diag :: "str \<Rightarrow> token_buf \<Rightarrow> token_kind \<times> nat \<Rightarrow> lex_diag option" where
  "unclosed_diag b tb opener =
     map_option (\<lambda>t. (UnclosedDelimiter, unat (tk_start tb ! snd opener), unat (tk_end tb ! snd opener), UnclosedText t))
       (token_text tb (snd opener) b)"

fun unclosed_diags :: "str \<Rightarrow> token_buf \<Rightarrow> (token_kind \<times> nat) list \<Rightarrow> lex_diag list option" where
  "unclosed_diags b tb [] = Some []"
| "unclosed_diags b tb (opener # st) = do {
     d \<leftarrow> unclosed_diag b tb opener;
     ds \<leftarrow> unclosed_diags b tb st;
     Some (d # ds) }"

definition delims_match :: "token_kind \<Rightarrow> token_kind \<Rightarrow> bool" where
  "delims_match opener closer =
     ((opener, closer) \<in> {(TDelim LParen, TDelim RParen), (TDelim LBracket, TDelim RBracket), (TDelim LBrace, TDelim RBrace)})"

text \<open>An item start at column 0 ends the scope of the openers before it.\<close>

definition resync_at :: "str \<Rightarrow> token_buf \<Rightarrow> nat \<Rightarrow> delim_state \<Rightarrow> delim_state option" where
  "resync_at b tb index d =
     (if dl_stack d \<noteq> [] \<and> starts_item_at_column_zero tb index
      then map_option (\<lambda>ds. \<lparr>dl_stack = [], dl_resync = dl_resync d @ [to_u32 index], dl_diags = dl_diags d @ ds\<rparr>)
             (unclosed_diags b tb (rev (dl_stack d)))
      else Some d)"

definition match_at :: "str \<Rightarrow> token_buf \<Rightarrow> nat \<Rightarrow> delim_state \<Rightarrow> delim_state option" where
  "match_at b tb index d = do {
     d \<leftarrow> resync_at b tb index d;
     let kind = tk_kind tb ! index;
     if is_open_delimiter kind then Some (d\<lparr>dl_stack := (kind, index) # dl_stack d\<rparr>)
     else if is_close_delimiter kind then
       (if dl_stack d \<noteq> [] \<and> delims_match (fst (hd (dl_stack d))) kind then Some (d\<lparr>dl_stack := tl (dl_stack d)\<rparr>)
        else do {
          closer \<leftarrow> token_text tb index b;
          Some (d\<lparr>dl_stack := tl (dl_stack d),
                  dl_diags := dl_diags d @ [(UnmatchedDelimiter, unat (tk_start tb ! index), unat (tk_end tb ! index),
                                             UnexpectedText closer)]\<rparr>) })
     else Some d }"

fun match_all :: "str \<Rightarrow> token_buf \<Rightarrow> nat list \<Rightarrow> delim_state \<Rightarrow> delim_state option" where
  "match_all b tb [] d = Some d"
| "match_all b tb (i # is) d = do { d \<leftarrow> match_at b tb i d; match_all b tb is d }"

definition match_delimiters :: "str \<Rightarrow> lexer \<Rightarrow> lexer option" where
  "match_delimiters b l =
     (let tb = lx_tokens l in do {
        d \<leftarrow> match_all b tb [0..<length (tk_kind tb)] \<lparr>dl_stack = [], dl_resync = [], dl_diags = []\<rparr>;
        ds \<leftarrow> unclosed_diags b tb (rev (dl_stack d));
        Some (l\<lparr>lx_tokens := tb\<lparr>resync := resync tb @ dl_resync d\<rparr>, lx_diags := lx_diags l @ dl_diags d @ ds\<rparr>) })"

section \<open>The module's documentation\<close>

text \<open>\<open>line_is_blank\<close>: \<open>None\<close> past the lines or for a range that is not one.\<close>

definition line_is_blank :: "str \<Rightarrow> nat \<Rightarrow> u32 list \<Rightarrow> bool option" where
  "line_is_blank b line starts = do {
     start \<leftarrow> get_at starts line;
     bytes \<leftarrow> get_range b (unat start) (case get_at starts (line + 1) of None \<Rightarrow> length b | Some v \<Rightarrow> unat v);
     Some (\<forall>c\<in>set bytes. is_ascii_whitespace c) }"

text \<open>The loop of \<open>module_doc\<close>: the end of the run of documentation comments on adjacent lines.\<close>

function doc_run :: "token_buf \<Rightarrow> u32 \<Rightarrow> nat \<Rightarrow> nat \<Rightarrow> nat" where
  "doc_run tb first_token start stop =
     (if stop < length (com_kind tb) \<and> com_kind tb ! stop = DocComment \<and> com_start tb ! stop < first_token \<and>
         (stop = start \<or> line_of tb (com_start tb ! (stop - 1)) + 1 = line_of tb (com_start tb ! stop))
      then doc_run tb first_token start (stop + 1) else stop)"
  by pat_completeness auto
termination
  by (relation "measure (\<lambda>(tb, first_token, start, stop). length (com_kind tb) - stop)") auto

declare doc_run.simps [simp del]

definition module_doc :: "str \<Rightarrow> token_buf \<Rightarrow> token_buf option" where
  "module_doc b tb =
     (let first_token = (case tk_start tb of [] \<Rightarrow> - 1 | s # _ \<Rightarrow> s);
          start = length (takeWhile (\<lambda>k. k \<noteq> DocComment) (com_kind tb))
      in if start = length (com_kind tb) then Some tb
         else
           let stop = doc_run tb first_token start start
           in if stop = start then Some tb
              else
                let last_line = line_of tb (com_start tb ! (stop - 1))
                in if \<not> last_line + 1 < length (line_start tb) then Some tb
                   else map_option (\<lambda>blank. if blank
                          then tb\<lparr>com_kind := take start (com_kind tb) @ replicate (stop - start) ModuleDoc @ drop stop (com_kind tb)\<rparr>
                          else tb)
                        (line_is_blank b (last_line + 1) (line_start tb)))"

section \<open>The lexer\<close>

definition lex :: "unicode \<Rightarrow> str \<Rightarrow> (token_buf \<times> lex_diag list) outcome" where
  "lex u source =
     (if \<not> utf8_valid source
      then Returned (empty_tokens, [(InvalidToken, 0, length source, NotUtf8)])
      else
        (case lex_run (length source) u source (lexer_new source) of
           Panicked \<Rightarrow> Panicked
         | OutOfFuel \<Rightarrow> OutOfFuel
         | Returned l \<Rightarrow>
             (case match_delimiters source l of
                None \<Rightarrow> Panicked
              | Some l \<Rightarrow>
                  (case module_doc source (lx_tokens l) of
                     None \<Rightarrow> Panicked
                   | Some tb \<Rightarrow> Returned (tb, lx_diags l)))))"

end
