(* ===== verification/Scanners.thy ===== *)
theory Scanners
  imports Lexer
begin

text \<open>
  Where the scanners of the lexer land: every one, given a position on a character boundary, returns
  a later one inside the source, without a panic.
\<close>

section \<open>Where the scanners land\<close>

definition lands :: "str \<Rightarrow> nat \<Rightarrow> nat \<Rightarrow> bool" where
  "lands b p q \<longleftrightarrow> p \<le> q \<and> q \<le> length b \<and> char_boundary b q"

lemma lands_trans: "lands b p q \<Longrightarrow> lands b q r \<Longrightarrow> lands b p r"
  by (simp add: lands_def)

lemma lands_refl: "p \<le> length b \<Longrightarrow> char_boundary b p \<Longrightarrow> lands b p p"
  by (simp add: lands_def)

lemma lands_self: "lands b p q \<Longrightarrow> lands b q q"
  by (simp add: lands_def)

lemma lands_char: "utf8_valid b \<Longrightarrow> lands b p q \<Longrightarrow> q < length b \<Longrightarrow> lands b p (q + char_width (b ! q))"
  using boundary_next [of b q] by (simp add: lands_def)

lemma lands_ascii: "utf8_valid b \<Longrightarrow> lands b p q \<Longrightarrow> q < length b \<Longrightarrow> b ! q < 0x80 \<Longrightarrow> lands b p (Suc q)"
  using ascii_next [of b q] by (simp add: lands_def)

lemma lands_at_ascii: "p \<le> q \<Longrightarrow> q < length b \<Longrightarrow> b ! q < 0x80 \<Longrightarrow> lands b p q"
  by (simp add: lands_def ascii_boundary)

lemma next_char_lands:
  "lands b p q \<Longrightarrow> next_char b q = Some (if q = length b then None else Some (decode_char (drop q b)))"
  by (simp add: lands_def next_char_def)

lemma lands_slice: "lands b p p \<Longrightarrow> lands b p q \<Longrightarrow> str_slice b p q = Some (take (q - p) (drop p b))"
  by (simp add: lands_def str_slice_def)

lemma ident_chars_lands: "utf8_valid b \<Longrightarrow> lands b p p \<Longrightarrow> \<exists>q. ident_chars u b p = Some q \<and> lands b p q"
proof (induction u b p rule: ident_chars.induct)
  case (1 u b p)
  let ?q = "p + char_width (b ! p)"
  show ?case
  proof (cases "p < length b \<and> (decode_char (drop p b) = 95 \<or> xid_continue u (decode_char (drop p b)))")
    case True
    have l: "lands b p ?q" using lands_char [OF 1(2,3)] True by simp
    with 1(1) [OF next_char_lands [OF 1(3)]] 1(2) True
    obtain q where q: "ident_chars u b ?q = Some q" "lands b ?q q" by (auto simp: lands_self)
    with l have "lands b p q" by (auto intro: lands_trans)
    with q show ?thesis using True by (simp add: ident_chars.simps [of u b p] next_char_lands [OF 1(3)])
  next
    case False
    then show ?thesis using 1(3) by (auto simp: ident_chars.simps [of u b p] next_char_lands [OF 1(3)])
  qed
qed

lemma skip_alnum_lands: "utf8_valid b \<Longrightarrow> lands b p p \<Longrightarrow> \<exists>q. skip_alnum u b p = Some q \<and> lands b p q"
proof (induction u b p rule: skip_alnum.induct)
  case (1 u b p)
  let ?q = "p + char_width (b ! p)"
  show ?case
  proof (cases "p < length b \<and> (decode_char (drop p b) = 95 \<or> alphanumeric u (decode_char (drop p b)))")
    case True
    have l: "lands b p ?q" using lands_char [OF 1(2,3)] True by simp
    with 1(1) [OF next_char_lands [OF 1(3)]] 1(2) True
    obtain q where q: "skip_alnum u b ?q = Some q" "lands b ?q q" by (auto simp: lands_self)
    with l have "lands b p q" by (auto intro: lands_trans)
    with q show ?thesis using True by (simp add: skip_alnum.simps [of u b p] next_char_lands [OF 1(3)])
  next
    case False
    then show ?thesis using 1(3) by (auto simp: skip_alnum.simps [of u b p] next_char_lands [OF 1(3)])
  qed
qed

lemma skip_raw_lands: "utf8_valid b \<Longrightarrow> lands b p p \<Longrightarrow> \<exists>q. skip_raw b p = Some q \<and> lands b p q"
proof (induction b p rule: skip_raw.induct)
  case (1 b p)
  let ?q = "p + char_width (b ! p)"
  show ?case
  proof (cases "p < length b \<and> b ! p \<noteq> 96 \<and> \<not> line_break (b ! p)")
    case True
    have l: "lands b p ?q" using lands_char [OF 1(2,3)] True by simp
    with 1(1) [OF _ next_char_lands [OF 1(3)]] 1(2) True
    obtain q where q: "skip_raw b ?q = Some q" "lands b ?q q" by (auto simp: lands_self)
    with l have "lands b p q" by (auto intro: lands_trans)
    with q show ?thesis using True by (simp add: skip_raw.simps [of b p] next_char_lands [OF 1(3)])
  next
    case False
    then show ?thesis using 1(3) by (auto simp: skip_raw.simps [of b p])
  qed
qed

lemma skip_while_le: "p \<le> length b \<Longrightarrow> skip_while P b p \<le> length b"
proof (induction P b p rule: skip_while.induct)
  case (1 P b p)
  then show ?case by (subst skip_while.simps) (auto simp: byte_at_def)
qed

lemma skip_while_stop: "\<not> byte_at b (skip_while P b p) P"
proof (induction P b p rule: skip_while.induct)
  case (1 P b p)
  then show ?case by (cases "byte_at b p P") (simp_all add: skip_while.simps [of P b p])
qed

text \<open>A loop over bytes that stops only at ASCII bytes, or runs only over them, stays on boundaries.\<close>

lemma skip_while_until:
  "p \<le> length b \<Longrightarrow> (\<And>c. \<not> P c \<Longrightarrow> c < 0x80) \<Longrightarrow> lands b p (skip_while P b p)"
  using skip_while_ge [of p P b] skip_while_le [of p b P] skip_while_stop [of b P p]
  by (auto simp: lands_def byte_at_def le_less ascii_boundary)

lemma skip_while_over:
  "utf8_valid b \<Longrightarrow> (\<And>c. P c \<Longrightarrow> c < 0x80) \<Longrightarrow> lands b p p \<Longrightarrow> lands b p (skip_while P b p)"
proof (induction P b p rule: skip_while.induct)
  case (1 P b p)
  show ?case
  proof (cases "byte_at b p P")
    case True
    then have "lands b p (p + 1)" using lands_ascii [OF 1(2,4)] 1(3) by (simp add: byte_at_def)
    with 1(1) [OF True 1(2,3)] True show ?thesis
      by (auto simp: skip_while.simps [of P b p] intro: lands_trans lands_self)
  next
    case False
    with 1(4) show ?thesis by (simp add: skip_while.simps [of P b p])
  qed
qed

lemma skip_digits_lands:
  "utf8_valid b \<Longrightarrow> (\<And>c. digit c \<Longrightarrow> c < 0x80) \<Longrightarrow> lands b p p \<Longrightarrow>
   lands b p (fst (skip_digits digit b p bad previous))"
proof (induction digit b p bad previous rule: skip_digits.induct)
  case (1 digit b p bad previous)
  have step: "lands b p (p + 1)" if "byte_at b p digit \<or> byte_at b p (\<lambda>c. c = 95)"
    using lands_ascii [OF 1(3,5)] 1(4) that by (auto simp: byte_at_def)
  consider "byte_at b p digit" | "\<not> byte_at b p digit" "byte_at b p (\<lambda>c. c = 95)"
    | "\<not> byte_at b p digit" "\<not> byte_at b p (\<lambda>c. c = 95)" by blast
  then show ?case
  proof cases
    case 1
    with "1.IH"(1) "1.prems" step show ?thesis
      by (auto simp: skip_digits.simps [of digit b p] intro: lands_trans lands_self)
  next
    case 2
    with "1.IH"(2) "1.prems" step show ?thesis
      by (auto simp: skip_digits.simps [of digit b p] intro: lands_trans lands_self)
  next
    case 3
    with "1.prems" show ?thesis by (simp add: skip_digits.simps [of digit b p])
  qed
qed

lemma ascii_classes:
  "is_ascii_digit c \<Longrightarrow> c < 0x80" "is_ascii_alphabetic c \<Longrightarrow> c < 0x80" "is_ascii_hexdigit c \<Longrightarrow> c < 0x80"
  "is_ascii_alphanumeric c \<Longrightarrow> c < 0x80" "line_break c \<Longrightarrow> c < 0x80" "digit_for_radix r c \<Longrightarrow> c < 0x80"
  by (auto simp: is_ascii_digit_def is_ascii_alphabetic_def is_ascii_hexdigit_def is_ascii_alphanumeric_def
    line_break_def digit_for_radix_def word_le_nat_alt word_less_nat_alt split: if_splits)

lemma ident_rest_lands:
  assumes "utf8_valid b" "lands b q q" "start \<le> q"
  shows "\<exists>ok r. ident_rest u b start q = Some (ok, r) \<and> lands b q r"
proof (cases "q < length b")
  case True
  then have l: "lands b q (q + char_width (b ! q))" using lands_char [OF assms(1,2)] by simp
  from ident_chars_lands [OF assms(1) lands_self [OF l]] l
  show ?thesis using True assms
    by (auto simp: ident_rest_def next_char_lands [OF assms(2)] intro: lands_trans)
next
  case False
  with assms(2) have "q = length b" by (simp add: lands_def)
  then show ?thesis using next_char_lands [OF assms(2)] assms(2) by (simp add: ident_rest_def)
qed

lemma consume_ident_lands:
  assumes "utf8_valid b" "lands b p p"
  shows "\<exists>ok q. consume_ident u b p = Some (ok, q) \<and> lands b p q"
proof (cases "p < length b")
  case False
  with assms show ?thesis by (auto simp: consume_ident_def get_at_def)
next
  case p: True
  show ?thesis
  proof (cases "b ! p < 0x80 \<and> (b ! p = 95 \<or> is_ascii_alphabetic (b ! p))")
    case True
    let ?q = "skip_while (\<lambda>c. c = 95 \<or> is_ascii_alphanumeric c) b (p + 1)"
    from True p have 1: "lands b p (p + 1)" using lands_ascii [OF assms] by simp
    have 2: "lands b (p + 1) ?q"
      by (rule skip_while_over) (use 1 assms in \<open>auto simp: lands_self ascii_classes\<close>)
    from 1 2 have 3: "lands b p ?q" by (rule lands_trans)
    then have "p \<le> ?q" by (simp add: lands_def)
    from ident_rest_lands [OF assms(1) lands_self [OF 3] this, of u] 3
    obtain ok r where "ident_rest u b p ?q = Some (ok, r)" "lands b p r" by (blast intro: lands_trans)
    with True p 3 show ?thesis by (auto simp: consume_ident_def Let_def get_at_def)
  next
    case False
    with p assms ident_rest_lands [OF assms, of p u] show ?thesis
      by (cases "b ! p < 0x80") (auto simp: consume_ident_def get_at_def)
  qed
qed

text \<open>What starts an identifier is consumed.\<close>

lemma consume_ident_start:
  assumes "utf8_valid b" "lands b p p" "p < length b" "is_ident_start_byte u (b ! p) b p = Some True"
  shows "\<exists>ok q. consume_ident u b p = Some (ok, q) \<and> lands b p q \<and> p < q"
proof -
  from consume_ident_lands [OF assms(1,2)] obtain ok q where q: "consume_ident u b p = Some (ok, q)" "lands b p q"
    by blast
  have "p < q"
  proof (cases "b ! p < 0x80")
    case True
    let ?q = "skip_while (\<lambda>c. c = 95 \<or> is_ascii_alphanumeric c) b (p + 1)"
    have ge: "p + 1 \<le> ?q" by (rule skip_while_ge)
    have l: "lands b (p + 1) ?q"
      by (rule skip_while_over)
        (use lands_ascii [OF assms(1-3)] True assms in \<open>auto simp: lands_self ascii_classes\<close>)
    have "ident_rest u b p ?q = Some (ok, q) \<Longrightarrow> ?q \<le> q"
      using ident_rest_lands [OF assms(1) lands_self [OF l], of p u] ge by (auto simp: lands_def)
    with ge q(1) True assms(3,4) show ?thesis
      by (auto simp: consume_ident_def is_ident_start_byte_def Let_def get_at_def split: if_splits)
  next
    case False
    have l: "lands b p (p + char_width (b ! p))" using lands_char [OF assms(1,2)] assms(3) by simp
    from ident_chars_lands [OF assms(1) lands_self [OF l], of u]
    obtain r where r: "ident_chars u b (p + char_width (b ! p)) = Some r" "p + char_width (b ! p) \<le> r"
      by (auto simp: lands_def)
    from r(2) char_width_pos [of "b ! p"] have "p < r" by linarith
    have n: "next_char b p = Some (Some (decode_char (drop p b)))"
      using next_char_lands [OF assms(2)] assms(3) by simp
    have "b ! p \<noteq> 95" using False by auto
    moreover have "\<not> is_ascii_alphabetic (b ! p)" using False ascii_classes(2) by blast
    ultimately have "xid_start u (decode_char (drop p b))" using assms(4) n False by (simp add: is_ident_start_byte_def)
    with r False q(1) assms(3) n \<open>p < r\<close> show ?thesis
      by (auto simp: consume_ident_def ident_rest_def get_at_def)
  qed
  with q show ?thesis by blast
qed

section \<open>One token\<close>

text \<open>The position a scanner returns is a later boundary.\<close>

definition scans :: "str \<Rightarrow> nat \<Rightarrow> (nat \<times> 'd) option \<Rightarrow> bool" where
  "scans b p r \<longleftrightarrow> (\<exists>q d. r = Some (q, d) \<and> lands b p q)"

lemma scan_raw_identifier_lands:
  assumes "utf8_valid b" "lands b p p" "p < length b" "b ! p < 0x80"
  shows "\<exists>k q ds. scan_raw_identifier u b p = Some (k, q, ds) \<and> lands b (p + 1) q"
proof -
  have p1: "lands b (p + 1) (p + 1)" using lands_ascii [OF assms] by (simp add: lands_def)
  from consume_ident_lands [OF assms(1) p1, of u] obtain ok q where
    q: "consume_ident u b (p + 1) = Some (ok, q)" "lands b (p + 1) q" by blast
  show ?thesis
  proof (cases "\<not> ok \<or> \<not> byte_at b q (\<lambda>c. c = 96)")
    case True
    from skip_raw_lands [OF assms(1) lands_self [OF q(2)]] obtain r where r: "skip_raw b q = Some r" "lands b q r"
      by blast
    have "lands b (p + 1) (if byte_at b r (\<lambda>c. c = 96) then r + 1 else r)"
      using lands_trans [OF q(2) r(2)] lands_ascii [OF assms(1) lands_trans [OF q(2) r(2)]] by (auto simp: byte_at_def)
    with True q r show ?thesis by (simp add: scan_raw_identifier_def Let_def)
  next
    case False
    then have "lands b (p + 1) (q + 1)" using lands_ascii [OF assms(1) q(2)] by (simp add: byte_at_def)
    with False q lands_slice [OF p1 q(2)] show ?thesis by (simp add: scan_raw_identifier_def)
  qed
qed

lemma number_parts_land:
  assumes "utf8_valid b" "lands b p q"
  shows "lands b p (fst (scan_fraction b q bad))" "lands b p (fst (scan_exponent b q bad))"
proof -
  have digits: "lands b p (fst (skip_digits is_ascii_digit b r bad' False))" if "lands b p r" for r bad'
    using skip_digits_lands [OF assms(1) _ lands_self [OF that], of is_ascii_digit bad' False] that
    by (auto intro: lands_trans simp: ascii_classes)
  have byte: "lands b p (r + 1)" if "lands b p r" "byte_at b r P" "\<And>c. P c \<Longrightarrow> c < 0x80" for r P
    using lands_ascii [OF assms(1) that(1)] that by (simp add: byte_at_def)
  show "lands b p (fst (scan_fraction b q bad))"
    using byte [OF assms(2), of "\<lambda>c. c = 46"] assms digits [of "q + 1"] by (auto simp: scan_fraction_def)
  show "lands b p (fst (scan_exponent b q bad))"
  proof (cases "byte_at b q (\<lambda>c. c = 101 \<or> c = 69)")
    case True
    define look where "look = (if byte_at b (q + 1) (\<lambda>c. c = 43 \<or> c = 45) then q + 2 else q + 1)"
    have 1: "lands b p (q + 1)" by (rule byte [OF assms(2) True]) auto
    have "lands b p (q + 1 + 1)" if "byte_at b (q + 1) (\<lambda>c. c = 43 \<or> c = 45)"
      by (rule byte [OF 1 that]) auto
    with 1 have look: "lands b p look" by (simp add: look_def)
    have "lands b p (skip_while (\<lambda>c. is_ascii_alphanumeric c \<or> c = 95) b (look + 1))"
      if *: "byte_at b look (\<lambda>c. c = 95)"
    proof -
      from byte [OF look *] have **: "lands b p (look + 1)" by auto
      have "lands b (look + 1) (skip_while (\<lambda>c. is_ascii_alphanumeric c \<or> c = 95) b (look + 1))"
        by (rule skip_while_over) (use assms(1) lands_self [OF **] in \<open>auto simp: ascii_classes\<close>)
      with ** show ?thesis by (rule lands_trans)
    qed
    with look digits [OF look] assms(2) True show ?thesis
      by (auto simp: scan_exponent_def Let_def look_def)
  next
    case False
    with assms(2) show ?thesis by (simp add: scan_exponent_def)
  qed
qed

lemma scan_suffix_lands:
  assumes "utf8_valid b" "lands b p p" "lands b p q"
  shows "\<exists>r ds. scan_suffix u b p q = Some (r, ds) \<and> lands b p r"
proof -
  from consume_ident_lands [OF assms(1) lands_self [OF assms(3)], of u] obtain ok r where
    r: "consume_ident u b q = Some (ok, r)" "lands b q r" by blast
  with lands_slice [OF lands_self [OF assms(3)] r(2)] lands_slice [OF assms(2,3)] assms(3) lands_trans [OF assms(3) r(2)]
  show ?thesis by (auto simp: scan_suffix_def next_char_lands [OF assms(3)])
qed

lemma scan_radix_tail_lands:
  assumes "utf8_valid b" "lands b p p" "lands b p q"
  shows "\<exists>r ds. scan_radix_tail u b p q = Some (r, ds) \<and> lands b p r"
proof -
  from skip_alnum_lands [OF assms(1) lands_self [OF assms(3)], of u] obtain r where
    r: "skip_alnum u b q = Some r" "lands b q r" by blast
  with lands_trans [OF assms(3) r(2)] assms(3) lands_slice [OF assms(2,3)] lands_slice [OF assms(2) lands_trans [OF assms(3) r(2)]]
  show ?thesis by (auto simp: scan_radix_tail_def)
qed

lemma scan_number_lands:
  assumes "utf8_valid b" "lands b p p" "byte_at b p is_ascii_digit"
  shows "\<exists>q ds. scan_number u b p = Some (q, ds) \<and> lands b (p + 1) q"
proof -
  let ?r = "number_radix b p"
  let ?start = "if ?r = 10 then p else p + 2"
  let ?d = "skip_digits (digit_for_radix ?r) b ?start False False"
  from assms(3) have p: "p < length b" "b ! p < 0x80" by (auto simp: byte_at_def ascii_classes)
  have p1: "lands b (p + 1) (p + 1)" using lands_ascii [OF assms(1,2) p] by (simp add: lands_def)
  have p2: "lands b (p + 1) (p + 2)" if "?r \<noteq> 10"
  proof -
    from that have "p + 1 < length b" "b ! (p + 1) < 0x80"
      by (auto simp: number_radix_def get_at_def split: if_splits)
    from lands_ascii [OF assms(1) p1 this] show ?thesis by simp
  qed
  have d: "lands b (p + 1) (fst ?d)"
  proof (cases "?r = 10")
    case True
    then have "byte_at b p (digit_for_radix ?r)" using assms(3) by (simp add: byte_at_def digit_for_radix_def)
    then have "?d = skip_digits (digit_for_radix ?r) b (p + 1) False False"
      using True by (subst skip_digits.simps) simp
    with skip_digits_lands [OF assms(1) ascii_classes(6) p1] show ?thesis by simp
  next
    case False
    with skip_digits_lands [OF assms(1) ascii_classes(6) lands_self [OF p2 [OF False]]] p2
    show ?thesis by (auto intro: lands_trans)
  qed
  obtain q bad where qd: "?d = (q, bad)" by (cases ?d)
  define e where "e = (if ?r = 10 then (let (q, bad) = scan_fraction b q bad in scan_exponent b q bad) else (q, bad))"
  have "lands b (p + 1) (fst e)"
    using number_parts_land [OF assms(1)] d qd by (auto simp: e_def split: prod.split) (metis fst_conv)+
  then have e: "lands b p (fst e)" and e1: "lands b (p + 1) (fst e)" by (auto simp: lands_def)
  obtain r ds where r: "(if ?r = 10 then scan_suffix u b p (fst e) else scan_radix_tail u b p (fst e)) = Some (r, ds)"
    "lands b p r"
    using scan_suffix_lands [OF assms(1,2) e, of u] scan_radix_tail_lands [OF assms(1,2) e, of u] by (cases "?r = 10") auto
  have "lands b (fst e) r"
  proof (cases "?r = 10")
    case True
    with scan_suffix_lands [OF assms(1) lands_self [OF e] lands_self [OF e]] r show ?thesis
      using consume_ident_lands [OF assms(1) lands_self [OF e], of u] lands_slice
      by (auto simp: scan_suffix_def next_char_lands [OF e] lands_self [OF e] split: if_splits bind_splits)
  next
    case False
    with r skip_alnum_lands [OF assms(1) lands_self [OF e], of u] show ?thesis
      by (auto simp: scan_radix_tail_def lands_self [OF e] split: if_splits bind_splits)
  qed
  with e1 have "lands b (p + 1) r" by (rule lands_trans)
  moreover have "scan_number u b p = (case e of (q, bad) \<Rightarrow>
      (if ?r = 10 then scan_suffix u b p q else scan_radix_tail u b p q) \<bind>
        (\<lambda>(q, ds). if bad then str_slice b p q \<bind>
           (\<lambda>t. Some (q, ds @ [(InvalidToken, p, q, if ?r = 10 then InvalidNumeric t else InvalidInteger t)]))
         else Some (q, ds)))"
    unfolding scan_number_def e_def Let_def qd prod.case ..
  ultimately show ?thesis using r(1) lands_slice [OF assms(2) r(2)] by (cases e) auto
qed

lemma scan_dollar_lands:
  assumes "utf8_valid b" "lands b p p" "p < length b" "b ! p < 0x80"
  shows "\<exists>q ds. scan_dollar u b p = Some (q, ds) \<and> lands b (p + 1) q"
proof -
  have p1: "lands b (p + 1) (p + 1)" using lands_ascii [OF assms] by (simp add: lands_def)
  from consume_ident_lands [OF assms(1) p1, of u] obtain ok q where
    q: "consume_ident u b (p + 1) = Some (ok, q)" "lands b (p + 1) q" by blast
  have "is_ident_start_byte u byte b (p + 1) \<noteq> None" for byte
    using next_char_lands [OF p1] by (auto simp: is_ident_start_byte_def)
  then obtain s where "p + 1 < length b \<Longrightarrow> is_ident_start_byte u (b ! (p + 1)) b (p + 1) = Some s" by blast
  with q lands_slice [OF p1 q(2)] p1 show ?thesis
    by (auto simp: scan_dollar_def get_at_def)
qed

lemma char_len_lands:
  "lands b p q \<Longrightarrow> char_len b q = Some (if q = length b then 1 else char_width (b ! q))"
  by (simp add: char_len_def next_char_lands)

lemma escape_diags_total:
  assumes "utf8_valid b" "lands b p p" "p < length b" "b ! p < 0x80"
  shows "\<exists>ds. escape_diags u b p = Some ds"
proof -
  have p1: "lands b p (p + 1)" using lands_ascii [OF assms] by simp
  from next_char_lands [OF p1] show ?thesis by (auto simp: escape_diags_def escape_diag_def Let_def)
qed

lemma skip_char_escape_lands:
  assumes "utf8_valid b" "lands b p p" "p < length b" "b ! p < 0x80"
  shows "\<exists>q stop. skip_char_escape b p = Some (q, stop) \<and> lands b (p + 1) q"
proof -
  have p1: "lands b (p + 1) (p + 1)" using lands_ascii [OF assms] by (simp add: lands_def)
  let ?P = "\<lambda>c. c \<noteq> 125 \<and> c \<noteq> 39 \<and> \<not> line_break c"
  let ?q = "skip_while ?P b (p + 1)"
  have q: "lands b (p + 1) ?q"
    by (rule skip_while_until) (use p1 in \<open>auto simp: lands_def ascii_classes\<close>)
  have "lands b (p + 1) (if byte_at b ?q (\<lambda>c. c = 125) then ?q + 1 else ?q)"
    using q lands_ascii [OF assms(1) q] by (auto simp: byte_at_def)
  moreover have "p + 1 < length b \<Longrightarrow> lands b (p + 1) (p + 1 + char_width (b ! (p + 1)))"
    using lands_char [OF assms(1) p1] by simp
  ultimately show ?thesis using p1 char_len_lands [OF p1]
    by (auto simp: skip_char_escape_def Let_def)
qed

lemma scan_char_loop_lands:
  "utf8_valid b \<Longrightarrow> lands b p p \<Longrightarrow> scalars + (length b - p) < 2 ^ 32 \<Longrightarrow>
   \<exists>q rest. scan_char_loop u b p scalars ds = Some (q, rest) \<and> lands b p q"
proof (induction u b p scalars ds rule: scan_char_loop.induct)
  case (1 u b p scalars ds)
  note valid = "1.prems"(1) and l = "1.prems"(2) and room = "1.prems"(3)
  show ?case
  proof (cases "length b \<le> p \<or> line_break (b ! p)")
    case True
    with l show ?thesis by (subst scan_char_loop.simps) auto
  next
    case False
    define ds' where "ds' = (if b ! p = 9 then ds @ [(TabWhitespace, p, p + 1, LiteralTab)] else ds)"
    have scalars: "\<not> u32_max scalars" unfolding u32_max_def using room False by linarith
    consider (quote) "b ! p = 39" | (escape) "b ! p = 92" | (other) "b ! p \<noteq> 39" "b ! p \<noteq> 92" by blast
    then show ?thesis
    proof cases
      case quote
      then have "lands b p (p + 1)" using lands_ascii [OF valid l] False by simp
      with quote False show ?thesis by (subst scan_char_loop.simps) auto
    next
      case escape
      from escape_diags_total [OF valid l, of u] False escape obtain es where es: "escape_diags u b p = Some es" by auto
      from skip_char_escape_lands [OF valid l] False escape obtain q stop where
        q: "skip_char_escape b p = Some (q, stop)" "lands b (p + 1) q" by auto
      then have pq: "lands b p q" "p < q" by (auto simp: lands_def)
      have eq: "scan_char_loop u b p scalars ds =
        (if stop then Some (q, False, scalars + 1, ds' @ es) else scan_char_loop u b q (scalars + 1) (ds' @ es))"
        using False escape scalars es q(1) by (subst scan_char_loop.simps) (simp add: ds'_def)
      show ?thesis
      proof (cases stop)
        case True
        with eq pq show ?thesis by auto
      next
        case ns: False
        have "\<exists>r rest. scan_char_loop u b q (scalars + 1) (ds' @ es) = Some (r, rest) \<and> lands b q r"
        proof (rule "1.IH"(1) [OF False refl _ _ _ _ es q(1) refl ns valid lands_self [OF pq(1)]])
          show "ds' = (if b ! p = 9 then ds @ [(TabWhitespace, p, p + 1, LiteralTab)] else ds)" by (rule ds'_def)
          show "scalars + 1 + (length b - q) < 2 ^ 32" using room pq False by (auto simp: lands_def)
        qed (use escape scalars in auto)
        with eq ns pq show ?thesis by (auto intro: lands_trans)
      qed
    next
      case other
      let ?q = "p + char_width (b ! p)"
      have n: "char_len b p = Some (char_width (b ! p))" using False by (simp add: char_len_lands [OF l])
      have pq: "lands b p ?q" using lands_char [OF valid l] False by simp
      have eq: "scan_char_loop u b p scalars ds = scan_char_loop u b ?q (scalars + 1) ds'"
        using False other scalars n by (subst scan_char_loop.simps) (simp add: ds'_def)
      have "\<exists>r rest. scan_char_loop u b ?q (scalars + 1) ds' = Some (r, rest) \<and> lands b ?q r"
      proof (rule "1.IH"(2) [OF False refl _ _ _ _ n valid lands_self [OF pq]])
        show "ds' = (if b ! p = 9 then ds @ [(TabWhitespace, p, p + 1, LiteralTab)] else ds)" by (rule ds'_def)
        have "0 < char_width (b ! p)" by simp
        with pq have "1 + (length b - ?q) \<le> length b - p" unfolding lands_def by linarith
        with room show "scalars + 1 + (length b - ?q) < 2 ^ 32" by linarith
      qed (use other scalars in auto)
      with eq pq show ?thesis by (auto intro: lands_trans)
    qed
  qed
qed

lemma scan_character_lands:
  assumes "utf8_valid b" "lands b p p" "p < length b" "b ! p < 0x80" "length b < 2 ^ 32"
  shows "\<exists>q ds. scan_character u b p = Some (q, ds) \<and> lands b (p + 1) q"
proof -
  have p1: "lands b (p + 1) (p + 1)" using lands_ascii [OF assms(1-4)] by (simp add: lands_def)
  have "0 + (length b - (p + 1)) < 2 ^ 32" using assms(5) by linarith
  from scan_char_loop_lands [OF assms(1) p1 this, of u "[]"] show ?thesis by (auto simp: scan_character_def)
qed

lemma scan_lifetime_lands:
  assumes "utf8_valid b" "lands b p p" "p < length b" "b ! p < 0x80" "length b < 2 ^ 32"
  shows "\<exists>k q ds. scan_lifetime u b p = Some (k, q, ds) \<and> lands b (p + 1) q"
proof -
  have p1: "lands b (p + 1) (p + 1)" using lands_ascii [OF assms(1-4)] by (simp add: lands_def)
  from consume_ident_lands [OF assms(1) p1, of u] scan_character_lands [OF assms, of u]
  show ?thesis by (auto simp: scan_lifetime_def)
qed

text \<open>An operator is made of ASCII bytes, all inside the source.\<close>

lemma operator_bytes:
  "(\<forall>((x, y, z), k)\<in>set operators3. x < 0x80 \<and> y < 0x80 \<and> z < 0x80 \<and> k \<noteq> TError)"
  "(\<forall>((x, y), k)\<in>set operators2. x < 0x80 \<and> y < 0x80 \<and> k \<noteq> TError)"
  "(\<forall>(x, k)\<in>set operators1. x < 0x80 \<and> k \<noteq> TError)"
  by (simp_all add: operators3_def operators2_def operators1_def)

lemma operator_at_ascii:
  assumes "operator_at b p = (k, w)" "k \<noteq> TError" "p < length b"
  shows "0 < w \<and> p + w \<le> length b \<and> (\<forall>i<w. b ! (p + i) < 0x80)"
proof -
  let ?k3 = "if p + 2 < length b then map_of operators3 (b ! p, b ! (p + 1), b ! (p + 2)) else None"
  let ?k2 = "if p + 1 < length b then map_of operators2 (b ! p, b ! (p + 1)) else None"
  let ?k1 = "map_of operators1 (b ! p)"
  consider (3) "?k3 = Some k" "w = 3" | (2) "?k2 = Some k" "w = 2" | (1) "?k1 = Some k" "w = 1"
    using assms(1,2) unfolding operator_at_def Let_def by (auto split: option.splits)
  then show ?thesis
  proof cases
    case 3
    then have "p + 2 < length b" "((b ! p, b ! (p + 1), b ! (p + 2)), k) \<in> set operators3"
      by (auto split: if_splits dest: map_of_SomeD)
    with operator_bytes(1) 3(2) show ?thesis by (force simp: less_Suc_eq numeral_eq_Suc)
  next
    case 2
    then have "p + 1 < length b" "((b ! p, b ! (p + 1)), k) \<in> set operators2"
      by (auto split: if_splits dest: map_of_SomeD)
    with operator_bytes(2) 2(2) show ?thesis by (force simp: less_Suc_eq numeral_eq_Suc)
  next
    case 1
    then have "(b ! p, k) \<in> set operators1" by (auto dest: map_of_SomeD)
    with operator_bytes(3) 1(2) assms(3) show ?thesis by force
  qed
qed

lemma lands_ascii_run:
  "utf8_valid b \<Longrightarrow> lands b p p \<Longrightarrow> p + w \<le> length b \<Longrightarrow> \<forall>i<w. b ! (p + i) < 0x80 \<Longrightarrow> lands b p (p + w)"
proof (induction w)
  case (Suc w)
  then have "lands b p (p + w)" by simp
  with Suc.prems lands_ascii [of b p "p + w"] show ?case by simp
qed simp

lemma scan_punctuation_lands:
  assumes "utf8_valid b" "lands b p p" "p < length b"
  shows "\<exists>k q ds. scan_punctuation b p = Some (k, q, ds) \<and> lands b p q \<and> p < q"
proof -
  obtain k w where kw: "operator_at b p = (k, w)" by fastforce
  show ?thesis
  proof (cases "k = TError")
    case True
    have l: "lands b p (p + char_width (b ! p))" using lands_char [OF assms(1,2)] assms(3) by simp
    with True kw lands_slice [OF assms(2) l] char_len_lands [OF assms(2)] assms(3)
    show ?thesis by (simp add: scan_punctuation_def)
  next
    case False
    from operator_at_ascii [OF kw False assms(3)] lands_ascii_run [OF assms(1,2), of w]
    have "lands b p (p + w)" "0 < w" by auto
    with kw False show ?thesis by (simp add: scan_punctuation_def)
  qed
qed

end
