(* ===== verification/Lines.thy ===== *)
theory Lines
  imports Tokens
begin

text \<open>
  The table of lines of \<^verbatim>\<open>crates/hd_syntax/src/lexer.rs\<close> against its specification: a line
  starts at 0 and after every line ending (LF, CRLF or a bare CR), its indentation is its leading
  spaces, and \<open>line_of\<close> finds the line of every offset.
\<close>

definition ends_line :: "str \<Rightarrow> nat \<Rightarrow> bool" where
  "ends_line b i \<longleftrightarrow> i < length b \<and> (b ! i = 10 \<or> b ! i = 13 \<and> get_at b (i + 1) \<noteq> Some 10)"

definition lineno :: "str \<Rightarrow> nat \<Rightarrow> nat" where
  "lineno b p = length (filter (ends_line b) [0..<p])"

definition line_starts :: "str \<Rightarrow> nat \<Rightarrow> nat list" where
  "line_starts b start = start # map Suc (filter (ends_line b) [start..<length b])"

lemma lineno_0 [simp]: "lineno b 0 = 0"
  by (simp add: lineno_def)

lemma lineno_Suc: "lineno b (Suc p) = lineno b p + (if ends_line b p then 1 else 0)"
  by (simp add: lineno_def)

lemma lineno_mono: "p \<le> q \<Longrightarrow> lineno b p \<le> lineno b q"
proof (induction q)
  case (Suc q)
  then show ?case by (cases "p = Suc q") (auto simp: lineno_Suc)
qed simp

section \<open>One line\<close>

lemma scan_line_stop:
  "n = length b - stop \<Longrightarrow> stop \<le> length b \<Longrightarrow>
   fst (scan_line b n stop i f l) = stop + length (takeWhile (\<lambda>c. \<not> line_break c) (drop stop b))"
proof (induction n arbitrary: stop i f l)
  case 0
  then show ?case by simp
next
  case (Suc n)
  then have s: "stop < length b" by simp
  then have d: "drop stop b = b ! stop # drop (Suc stop) b" by (simp add: Cons_nth_drop_Suc)
  show ?case
  proof (cases "line_break (b ! stop)")
    case True
    with d show ?thesis by simp
  next
    case False
    have "n = length b - Suc stop" "Suc stop \<le> length b" using Suc.prems s by auto
    from Suc.IH [OF this] False s d show ?thesis by (simp add: Let_def split: prod.split)
  qed
qed

lemma scan_line_indent:
  "n = length b - stop \<Longrightarrow> stop \<le> length b \<Longrightarrow>
   fst (snd (scan_line b n stop i f l)) = i + (if l then length (takeWhile (\<lambda>c. c = 32) (drop stop b)) else 0)"
proof (induction n arbitrary: stop i f l)
  case 0
  then show ?case by simp
next
  case (Suc n)
  then have s: "stop < length b" by simp
  then have d: "drop stop b = b ! stop # drop (Suc stop) b" by (simp add: Cons_nth_drop_Suc)
  show ?case
  proof (cases "line_break (b ! stop)")
    case True
    then have "b ! stop \<noteq> 32" by (auto simp: line_break_def)
    with True d show ?thesis by simp
  next
    case False
    have "n = length b - Suc stop" "Suc stop \<le> length b" using Suc.prems s by auto
    from Suc.IH [OF this] False s d show ?thesis by (auto simp: Let_def split: prod.split)
  qed
qed

text \<open>The flags of a line are the two about its bytes; none continues a string yet.\<close>

lemma scan_line_flags:
  "f AND CONTINUES_STRING = 0 \<Longrightarrow> snd (snd (scan_line b n stop i f l)) AND CONTINUES_STRING = 0"
proof (induction b n stop i f l rule: scan_line.induct)
  case (2 b n stop i f l)
  have "(f OR NON_ASCII) AND CONTINUES_STRING = 0" "(f OR HAS_TAB) AND CONTINUES_STRING = 0"
    using "2.prems" by (simp_all add: bit.conj_disj_distrib2 NON_ASCII_def HAS_TAB_def CONTINUES_STRING_def)
  with 2 show ?case by (auto simp: Let_def)
qed simp

lemma takeWhile_stop:
  assumes "start \<le> length b" "stop = start + length (takeWhile (\<lambda>c. \<not> P c) (drop start b))"
  shows "start \<le> stop" "stop \<le> length b" "\<forall>i. start \<le> i \<longrightarrow> i < stop \<longrightarrow> \<not> P (b ! i)" "stop < length b \<longrightarrow> P (b ! stop)"
proof -
  let ?w = "takeWhile (\<lambda>c. \<not> P c) (drop start b)"
  have w: "length ?w \<le> length b - start" using length_takeWhile_le [of "\<lambda>c. \<not> P c" "drop start b"] by simp
  show "start \<le> stop" "stop \<le> length b" using assms w by auto
  show "\<forall>i. start \<le> i \<longrightarrow> i < stop \<longrightarrow> \<not> P (b ! i)"
  proof (intro allI impI)
    fix i assume "start \<le> i" "i < stop"
    then have i: "i - start < length ?w" using assms(2) by auto
    then have "?w ! (i - start) \<in> set ?w" by simp
    then have "\<not> P (?w ! (i - start))" using set_takeWhileD by fast
    moreover have "?w ! (i - start) = b ! i"
      using takeWhile_nth [OF i] assms(1) \<open>start \<le> i\<close> by simp
    ultimately show "\<not> P (b ! i)" by simp
  qed
  show "stop < length b \<longrightarrow> P (b ! stop)"
  proof
    assume "stop < length b"
    then have l: "length ?w < length (drop start b)" using assms by simp
    from nth_length_takeWhile [OF l] have "P (drop start b ! length ?w)" by simp
    with assms show "P (b ! stop)" by (simp add: add.commute)
  qed
qed

section \<open>The table\<close>

lemma line_starts_last:
  assumes "start \<le> length b" "\<forall>i. start \<le> i \<longrightarrow> i < length b \<longrightarrow> \<not> line_break (b ! i)"
  shows "line_starts b start = [start]"
proof -
  have "filter (ends_line b) [start..<length b] = []"
    using assms(2) by (auto simp: filter_empty_conv ends_line_def line_break_def)
  then show ?thesis by (simp add: line_starts_def)
qed

lemma line_starts_next:
  assumes "start \<le> e" "e < length b" "ends_line b e" "\<forall>i. start \<le> i \<longrightarrow> i < e \<longrightarrow> \<not> ends_line b i"
  shows "line_starts b start = start # line_starts b (Suc e)"
proof -
  have "[start..<length b] = [start..<e] @ e # [Suc e..<length b]"
    using assms(1,2) upt_add_eq_append [of start e "length b - e"] upt_conv_Cons [of e "length b"] by simp
  moreover have "filter (ends_line b) [start..<e] = []" using assms(4) by (auto simp: filter_empty_conv)
  ultimately show ?thesis using assms(3) by (simp add: line_starts_def)
qed

text \<open>What building the lines adds to a buffer, and what it leaves alone.\<close>

definition lines_added :: "str \<Rightarrow> nat \<Rightarrow> token_buf \<Rightarrow> token_buf \<Rightarrow> bool" where
  "lines_added b start tb tb' \<longleftrightarrow>
     (\<exists>indents flags.
        tb' = tb\<lparr>line_start := line_start tb @ map to_u32 (line_starts b start),
                 line_tok := line_tok tb @ replicate (length (line_starts b start)) no_token,
                 line_indent := line_indent tb @ indents, line_flags := line_flags tb @ flags\<rparr> \<and>
        indents = map (\<lambda>s. to_u16 (length (takeWhile (\<lambda>c. c = 32) (drop s b)))) (line_starts b start) \<and>
        length flags = length (line_starts b start) \<and> (\<forall>f\<in>set flags. f AND CONTINUES_STRING = 0))"

lemma build_lines_from_added: "start \<le> length b \<Longrightarrow> lines_added b start tb (build_lines_from b start tb)"
proof (induction b start tb rule: build_lines_from.induct)
  case (1 b start tb)
  obtain stop i f where s: "scan_line b (length b - start) start 0 0 True = (stop, i, f)" by (metis prod_cases3)
  have stop: "stop = start + length (takeWhile (\<lambda>c. \<not> line_break c) (drop start b))"
    using scan_line_stop [OF refl "1.prems", of 0 0 True] s by simp
  have i: "i = length (takeWhile (\<lambda>c. c = 32) (drop start b))"
    using scan_line_indent [OF refl "1.prems", of 0 0 True] s by simp
  have f: "f AND CONTINUES_STRING = 0"
    using scan_line_flags [of 0 b "length b - start" start 0 True] s by simp
  note tw = takeWhile_stop [OF "1.prems" stop]
  define tb1 where "tb1 = tb\<lparr>line_start := line_start tb @ [to_u32 start], line_tok := line_tok tb @ [no_token],
    line_indent := line_indent tb @ [to_u16 i], line_flags := line_flags tb @ [f]\<rparr>"
  show ?case
  proof (cases "stop = length b")
    case True
    with tw(3) have "line_starts b start = [start]" by (intro line_starts_last "1.prems") auto
    moreover have "build_lines_from b start tb = tb1"
      using True s by (subst build_lines_from.simps) (simp add: tb1_def Let_def)
    ultimately show ?thesis using i f by (auto simp: lines_added_def tb1_def)
  next
    case False
    with tw have lt: "stop < length b" "line_break (b ! stop)" by auto
    define start' where "start' = stop + (if b ! stop = 13 \<and> get_at b (stop + 1) = Some 10 then 1 else 0) + 1"
    let ?e = "start' - 1"
    have e: "start \<le> ?e" "?e < length b" "Suc ?e = start'" "ends_line b ?e"
      using tw lt by (auto simp: start'_def ends_line_def line_break_def)
    have none: "\<forall>j. start \<le> j \<longrightarrow> j < ?e \<longrightarrow> \<not> ends_line b j"
    proof (intro allI impI)
      fix j assume j: "start \<le> j" "j < ?e"
      then have "j < stop \<or> j = stop \<and> b ! stop = 13 \<and> get_at b (stop + 1) = Some 10"
        by (auto simp: start'_def split: if_splits)
      with tw(3) j lt show "\<not> ends_line b j" by (auto simp: ends_line_def line_break_def)
    qed
    from line_starts_next [OF e(1,2,4) none] e(3) have ls: "line_starts b start = start # line_starts b start'" by simp
    have eq: "build_lines_from b start tb = build_lines_from b start' tb1"
      using lt tw e(2,3) s
      by (subst build_lines_from.simps) (auto simp: tb1_def Let_def start'_def)
    have "lines_added b start' tb1 (build_lines_from b start' tb1)"
      using "1.IH" [OF s [symmetric] refl refl refl _ start'_def, of ] lt e tw by (auto simp: tb1_def)
    then obtain indents flags where *: "build_lines_from b start' tb1 =
          tb1\<lparr>line_start := line_start tb1 @ map to_u32 (line_starts b start'),
            line_tok := line_tok tb1 @ replicate (length (line_starts b start')) no_token,
            line_indent := line_indent tb1 @ indents, line_flags := line_flags tb1 @ flags\<rparr>"
      "indents = map (\<lambda>s. to_u16 (length (takeWhile (\<lambda>c. c = 32) (drop s b)))) (line_starts b start')"
      "length flags = length (line_starts b start')" "\<forall>f\<in>set flags. f AND CONTINUES_STRING = 0"
      by (auto simp: lines_added_def)
    show ?thesis
      unfolding lines_added_def eq *(1)
      by (rule exI [of _ "to_u16 i # indents"], rule exI [of _ "f # flags"])
        (use *(2-) ls i f in \<open>auto simp: tb1_def\<close>)
  qed
qed

lemma length_line_starts: "length (line_starts b 0) = Suc (lineno b (length b))"
  by (simp add: line_starts_def lineno_def)

lemma to_u32_less: "v < 2 ^ 32 \<Longrightarrow> unat (to_u32 v) = v"
  by (simp add: to_u32_def unat_of_nat take_bit_nat_eq_self)

lemma to_u32_le: "v < 2 ^ 32 \<Longrightarrow> w < 2 ^ 32 \<Longrightarrow> to_u32 v \<le> to_u32 w \<longleftrightarrow> v \<le> w"
  by (simp add: word_le_nat_alt to_u32_less)

text \<open>The starts not after an offset: the first line's, and one for each line ending before it.\<close>

lemma line_starts_upto:
  assumes "p \<le> length b"
  shows "length (takeWhile (\<lambda>s. s \<le> p) (line_starts b 0)) = Suc (lineno b p)"
proof -
  have "[0..<length b] = [0..<p] @ [p..<length b]" using assms upt_add_eq_append [of 0 p "length b - p"] by simp
  then have "line_starts b 0 = (0 # map Suc (filter (ends_line b) [0..<p])) @ map Suc (filter (ends_line b) [p..<length b])"
    by (simp add: line_starts_def)
  moreover have "takeWhile (\<lambda>s. s \<le> p) (map Suc (filter (ends_line b) [p..<length b])) = []"
  proof (cases "filter (ends_line b) [p..<length b]")
    case (Cons a as)
    then have "a \<in> set (filter (ends_line b) [p..<length b])" by simp
    then have "p \<le> a" by simp
    with Cons show ?thesis by simp
  qed simp
  moreover have "takeWhile (\<lambda>s. s \<le> p) (map Suc (filter (ends_line b) [0..<p]) @ ys) =
      map Suc (filter (ends_line b) [0..<p]) @ takeWhile (\<lambda>s. s \<le> p) ys" for ys
    by (rule takeWhile_append2) auto
  ultimately show ?thesis by (simp add: lineno_def)
qed

lemma line_of_lineno:
  assumes "line_start tb = map to_u32 (line_starts b 0)" "p \<le> length b" "length b < 2 ^ 32"
  shows "line_of tb (to_u32 p) = lineno b p"
proof -
  have "takeWhile (\<lambda>s. to_u32 s \<le> to_u32 p) (line_starts b 0) = takeWhile (\<lambda>s. s \<le> p) (line_starts b 0)"
    by (rule takeWhile_cong) (use assms(2,3) in \<open>auto simp: line_starts_def to_u32_le\<close>)
  then show ?thesis
    using assms line_starts_upto [OF assms(2)] by (simp add: line_of_def takeWhile_map comp_def)
qed

text \<open>The table of lines is right: for a source below 4 GiB the line starts are 0 and the position after
  each line ending (LF, CRLF counted once, or a bare CR), the indentations are the runs of spaces there, no
  line is marked as continuing a string, and looking up any offset gives the number of line endings before it.\<close>

lemma build_lines_table:
  assumes "length b < 2 ^ 32"
  shows "map unat (line_start (build_lines b empty_tokens)) = line_starts b 0 \<and>
    line_indent (build_lines b empty_tokens) =
      map (\<lambda>s. to_u16 (length (takeWhile (\<lambda>c. c = 32) (drop s b)))) (line_starts b 0) \<and>
    (\<forall>f\<in>set (line_flags (build_lines b empty_tokens)). f AND CONTINUES_STRING = 0) \<and>
    (\<forall>p. p \<le> length b \<longrightarrow> line_of (build_lines b empty_tokens) (to_u32 p) = lineno b p)"
proof -
  have "lines_added b 0 empty_tokens (build_lines b empty_tokens)"
    using build_lines_from_added [of 0 b empty_tokens] by (simp add: build_lines_def)
  then have *: "line_start (build_lines b empty_tokens) = map to_u32 (line_starts b 0)"
    "line_indent (build_lines b empty_tokens) =
      map (\<lambda>s. to_u16 (length (takeWhile (\<lambda>c. c = 32) (drop s b)))) (line_starts b 0)"
    "\<forall>f\<in>set (line_flags (build_lines b empty_tokens)). f AND CONTINUES_STRING = 0"
    by (auto simp: lines_added_def empty_tokens_def)
  have "\<forall>s\<in>set (line_starts b 0). s < 2 ^ 32"
    using assms by (auto simp: line_starts_def)
  then have "map (unat \<circ> to_u32) (line_starts b 0) = line_starts b 0"
    by (intro map_idI) (simp add: to_u32_less)
  with * line_of_lineno [OF *(1) _ assms] show ?thesis by simp
qed

lemma build_lines_table_witness:
  "map unat (line_start (build_lines [97, 13, 10, 32, 32, 98, 13, 99, 10] empty_tokens)) = [0, 3, 7, 9]"
  using build_lines_table [of "[97, 13, 10, 32, 32, 98, 13, 99, 10]"]
  by (simp add: line_starts_def ends_line_def upt_rec get_at_def)

end
