(* ===== verification/LexerTotal.thy ===== *)
theory LexerTotal
  imports Scanners Lines
begin

text \<open>
  The lexer always returns, and its tokens and comments tile the source. Every step keeps the cursor
  on a character boundary and the line counter below the number of lines, so that no slice, index or
  counter panics, and leaves everything before the cursor in the buffer.
\<close>

section \<open>The invariant\<close>

type_synonym span = "nat \<times> nat"

definition tok_spans :: "token_buf \<Rightarrow> span list" where
  "tok_spans tb = zip (map unat (tk_start tb)) (map unat (tk_end tb))"

definition com_spans :: "token_buf \<Rightarrow> span list" where
  "com_spans tb = zip (map unat (com_start tb)) (map unat (com_end tb))"

text \<open>Spans that are not empty, on character boundaries, in order, apart, and end by \<open>q\<close>.\<close>

definition laid_out :: "str \<Rightarrow> nat \<Rightarrow> span list \<Rightarrow> bool" where
  "laid_out b q ss \<longleftrightarrow>
     (\<forall>(s, e)\<in>set ss. s < e \<and> e \<le> q \<and> char_boundary b s \<and> char_boundary b e) \<and>
     sorted_wrt (\<lambda>x y. snd x \<le> fst y) ss"

definition inside :: "nat \<Rightarrow> span \<Rightarrow> bool" where
  "inside i x \<longleftrightarrow> fst x \<le> i \<and> i < snd x"

definition has_bom :: "str \<Rightarrow> bool" where
  "has_bom b \<longleftrightarrow> take 3 b = [0xEF, 0xBB, 0xBF]"

text \<open>A byte before \<open>q\<close> is in a token or a comment, or it is white space or the initial mark.\<close>

definition covered :: "str \<Rightarrow> nat \<Rightarrow> span list \<Rightarrow> bool" where
  "covered b q ss \<longleftrightarrow>
     (\<forall>i<q. i < length b \<longrightarrow> (\<exists>x\<in>set ss. inside i x) \<or> b ! i \<in> {9, 10, 13, 32} \<or> i < 3 \<and> has_bom b)"

definition buffer_tables :: "str \<Rightarrow> token_buf \<Rightarrow> bool" where
  "buffer_tables b tb \<longleftrightarrow>
     line_start tb = map to_u32 (line_starts b 0) \<and>
     line_indent tb = map (\<lambda>s. to_u16 (length (takeWhile (\<lambda>c. c = 32) (drop s b)))) (line_starts b 0) \<and>
     length (line_tok tb) = length (line_starts b 0) \<and> length (line_flags tb) = length (line_starts b 0) \<and>
     length (tk_start tb) = length (tk_kind tb) \<and> length (tk_end tb) = length (tk_kind tb) \<and>
     length (com_start tb) = length (com_kind tb) \<and> length (com_end tb) = length (com_kind tb) \<and> resync tb = []"

definition buffer_ok :: "str \<Rightarrow> nat \<Rightarrow> token_buf \<Rightarrow> bool" where
  "buffer_ok b q tb \<longleftrightarrow>
     buffer_tables b tb \<and> laid_out b q (tok_spans tb) \<and> laid_out b q (com_spans tb) \<and>
     (\<forall>x\<in>set (tok_spans tb). \<forall>y\<in>set (com_spans tb). snd x \<le> fst y \<or> snd y \<le> fst x) \<and>
     covered b q (tok_spans tb @ com_spans tb)"

text \<open>The lexer with everything before \<open>q\<close> in its buffer.\<close>

definition lexing :: "str \<Rightarrow> nat \<Rightarrow> lexer \<Rightarrow> bool" where
  "lexing b q l \<longleftrightarrow>
     q \<le> lx_pos l \<and> lx_pos l \<le> length b \<and> char_boundary b q \<and> lx_line l \<le> lineno b (lx_pos l) \<and> buffer_ok b q (lx_tokens l)"

lemma laid_out_snoc:
  "laid_out b q ss \<Longrightarrow> q \<le> s \<Longrightarrow> s < e \<Longrightarrow> char_boundary b s \<Longrightarrow> char_boundary b e \<Longrightarrow> laid_out b e (ss @ [(s, e)])"
  by (fastforce simp: laid_out_def sorted_wrt_append)

lemma laid_out_mono: "laid_out b q ss \<Longrightarrow> q \<le> r \<Longrightarrow> laid_out b r ss"
  by (auto simp: laid_out_def)

lemma covered_snoc:
  assumes "covered b q ss" "\<And>x. x \<in> set ss \<Longrightarrow> x \<in> set ss'" "(q, e) \<in> set ss'"
  shows "covered b e ss'"
  unfolding covered_def
proof (intro allI impI)
  fix i assume i: "i < e" "i < length b"
  show "(\<exists>x\<in>set ss'. inside i x) \<or> b ! i \<in> {9, 10, 13, 32} \<or> i < 3 \<and> has_bom b"
  proof (cases "i < q")
    case True
    with assms i show ?thesis by (auto simp: covered_def)
  next
    case False
    with i assms(3) have "\<exists>x\<in>set ss'. inside i x" by (intro bexI [of _ "(q, e)"]) (auto simp: inside_def)
    then show ?thesis ..
  qed
qed

lemma covered_blank:
  assumes "covered b q ss" "\<And>i. q \<le> i \<Longrightarrow> i < r \<Longrightarrow> b ! i \<in> {9, 10, 13, 32}"
  shows "covered b r ss"
  using assms unfolding covered_def by (meson not_le)

text \<open>Blank bytes are passed over.\<close>

lemma buffer_ok_blank:
  "buffer_ok b q tb \<Longrightarrow> q \<le> r \<Longrightarrow> (\<And>i. q \<le> i \<Longrightarrow> i < r \<Longrightarrow> b ! i \<in> {9, 10, 13, 32}) \<Longrightarrow> buffer_ok b r tb"
  unfolding buffer_ok_def by (blast intro: laid_out_mono covered_blank)

lemma push_token_fields:
  "push_token k q e line tb = Some tb' \<Longrightarrow>
     tk_kind tb' = tk_kind tb @ [k] \<and> tk_start tb' = tk_start tb @ [to_u32 q] \<and> tk_end tb' = tk_end tb @ [to_u32 e] \<and>
     line_start tb' = line_start tb \<and> line_indent tb' = line_indent tb \<and> line_flags tb' = line_flags tb \<and>
     length (line_tok tb') = length (line_tok tb) \<and> com_start tb' = com_start tb \<and> com_end tb' = com_end tb \<and>
     com_kind tb' = com_kind tb \<and> resync tb' = resync tb"
  by (auto simp: push_token_def Let_def split: option.splits if_splits)

lemma push_token_total:
  "line < length (line_tok tb) \<Longrightarrow> line < length (line_flags tb) \<Longrightarrow> \<exists>tb'. push_token k q e line tb = Some tb'"
  by (auto simp: push_token_def Let_def split: option.splits)

text \<open>A pushed token covers from \<open>q\<close> to the cursor.\<close>

lemma push_token_ok:
  assumes "buffer_ok b q tb" "q < e" "e \<le> length b" "char_boundary b q" "char_boundary b e"
    "line \<le> lineno b (length b)" "length b < 2 ^ 32"
  shows "\<exists>tb'. push_token k q e line tb = Some tb' \<and> buffer_ok b e tb'"
proof -
  from assms(1) have t: "buffer_tables b tb" by (simp add: buffer_ok_def)
  then have ln: "line < length (line_tok tb)" "line < length (line_flags tb)"
    using assms(6) by (simp_all add: buffer_tables_def length_line_starts)
  have room: "unat (to_u32 q) = q" "unat (to_u32 e) = e" using assms(2,3,7) by (simp_all add: to_u32_less)
  from push_token_total [OF ln] obtain tb' where p: "push_token k q e line tb = Some tb'" by blast
  note tb' = push_token_fields [OF p]
  have s: "tok_spans tb' = tok_spans tb @ [(q, e)]"
    using t tb' room by (simp add: tok_spans_def buffer_tables_def)
  have c: "com_spans tb' = com_spans tb" using tb' by (simp add: com_spans_def)
  from assms(1) have cov: "covered b q (tok_spans tb @ com_spans tb)" and lt: "laid_out b q (tok_spans tb)"
    and lc: "laid_out b q (com_spans tb)" by (simp_all add: buffer_ok_def)
  have "buffer_tables b tb'" using t tb' by (simp add: buffer_tables_def)
  moreover have "laid_out b e (tok_spans tb')"
    unfolding s by (rule laid_out_snoc [OF lt order_refl assms(2,4,5)])
  moreover have "laid_out b e (com_spans tb')"
    unfolding c using laid_out_mono [OF lc] assms(2) by simp
  moreover have "\<forall>y\<in>set (com_spans tb). snd y \<le> q" using lc by (auto simp: laid_out_def)
  moreover have "covered b e (tok_spans tb' @ com_spans tb')"
    by (rule covered_snoc [OF cov]) (auto simp: s c)
  moreover have "\<forall>x\<in>set (tok_spans tb'). \<forall>y\<in>set (com_spans tb'). snd x \<le> fst y \<or> snd y \<le> fst x"
    using assms(1) calculation(4) unfolding s c buffer_ok_def by auto
  ultimately have "buffer_ok b e tb'" unfolding buffer_ok_def by blast
  with p show ?thesis by blast
qed

text \<open>What a step of the lexer leaves behind: a later boundary, everything before it in the buffer.\<close>

definition stepped :: "str \<Rightarrow> lexer \<Rightarrow> lexer \<Rightarrow> bool" where
  "stepped b l l' \<longleftrightarrow>
     lexing b (lx_pos l') l' \<and> lx_pos l < lx_pos l' \<and> lx_line l \<le> lx_line l' \<and> string_depth l' = string_depth l"

lemma lx_push_ok:
  assumes "lexing b q l" "q < lx_pos l" "char_boundary b (lx_pos l)" "line \<le> lx_line l" "length b < 2 ^ 32"
  shows "\<exists>l'. lx_push k q line l = Returned l' \<and> lexing b (lx_pos l) l' \<and>
    lx_pos l' = lx_pos l \<and> lx_line l' = lx_line l \<and> string_depth l' = string_depth l"
proof -
  from assms(1) have ok: "buffer_ok b q (lx_tokens l)" "lx_pos l \<le> length b" "char_boundary b q"
    "lx_line l \<le> lineno b (lx_pos l)" by (simp_all add: lexing_def)
  with lineno_mono [OF ok(2), of b] assms(4) have "line \<le> lineno b (length b)" by linarith
  from push_token_ok [OF ok(1) assms(2) ok(2,3) assms(3) this assms(5)]
  obtain tb' where "push_token k q (lx_pos l) line (lx_tokens l) = Some tb'" "buffer_ok b (lx_pos l) tb'" by blast
  with assms(1-3) show ?thesis by (simp add: lx_push_def lexing_def)
qed

lemma lexing_diags [simp]: "lexing b q (l\<lparr>lx_diags := ds\<rparr>) = lexing b q l"
  by (simp add: lexing_def)

lemma lexing_error [simp]: "lexing b q (lx_error c s e m l) = lexing b q l"
  by (simp add: lx_error_def)

lemma lx_error_sel [simp]:
  "lx_pos (lx_error c s e m l) = lx_pos l" "lx_line (lx_error c s e m l) = lx_line l"
  "string_depth (lx_error c s e m l) = string_depth l" "lx_tokens (lx_error c s e m l) = lx_tokens l"
  by (simp_all add: lx_error_def)

lemma lexing_depth [simp]: "lexing b q (l\<lparr>string_depth := n\<rparr>) = lexing b q l"
  by (simp add: lexing_def)

text \<open>Moving the cursor on, in the middle of a token.\<close>

lemma lexing_move: "lexing b q l \<Longrightarrow> lx_pos l \<le> p \<Longrightarrow> p \<le> length b \<Longrightarrow> lexing b q (l\<lparr>lx_pos := p\<rparr>)"
  using lineno_mono [of "lx_pos l" p b] by (simp add: lexing_def)

lemma lx_scanned_ok:
  assumes "lexing b (lx_pos l) l" "r = Some (k, p, ds)" "lands b (lx_pos l) p" "lx_pos l < p" "length b < 2 ^ 32"
  shows "\<exists>l'. lx_scanned (lx_pos l) r l = Returned l' \<and> stepped b l l'"
proof -
  let ?l = "l\<lparr>lx_pos := p, lx_diags := lx_diags l @ ds\<rparr>"
  have "lexing b (lx_pos l) ?l" using lexing_move [OF assms(1), of p] assms(3) by (simp add: lands_def lexing_def)
  from lx_push_ok [OF this, of "lx_line l" k] assms
  show ?thesis by (auto simp: lx_scanned_def stepped_def lands_def)
qed

lemma buffer_tables_flags: "buffer_tables b tb \<Longrightarrow> length fs = length (line_flags tb) \<Longrightarrow> buffer_tables b (tb\<lparr>line_flags := fs\<rparr>)"
  by (simp add: buffer_tables_def)

lemma buffer_ok_flags: "buffer_ok b q tb \<Longrightarrow> length fs = length (line_flags tb) \<Longrightarrow> buffer_ok b q (tb\<lparr>line_flags := fs\<rparr>)"
  by (simp add: buffer_ok_def buffer_tables_flags tok_spans_def com_spans_def)

lemma new_line_sel [simp]:
  "lx_pos (new_line l) = lx_pos l" "lx_line (new_line l) = lx_line l + 1" "string_depth (new_line l) = string_depth l"
  by (simp_all add: new_line_def Let_def)

text \<open>Crossing a line ending that ends at the new cursor.\<close>

lemma new_line_ok:
  assumes "lexing b q l" "lx_pos l \<le> e" "e < length b" "ends_line b e"
  shows "lexing b q (new_line (l\<lparr>lx_pos := Suc e\<rparr>))"
proof -
  have "lx_line l + 1 \<le> lineno b (Suc e)"
    using assms lineno_mono [of "lx_pos l" e b] by (simp add: lexing_def lineno_Suc)
  then show ?thesis using assms by (auto simp: lexing_def new_line_def Let_def buffer_ok_flags)
qed

section \<open>The steps\<close>

lemma lx_comment_ok:
  assumes "lexing b (lx_pos l) l" "lx_pos l < length b" "\<not> line_break (b ! lx_pos l)" "length b < 2 ^ 32"
  shows "stepped b l (lx_comment b l)"
proof -
  let ?q = "lx_pos l" and ?tb = "lx_tokens l"
  define p where "p = skip_while (\<lambda>c. \<not> line_break c) b ?q"
  have l: "lands b ?q p" unfolding p_def
    by (rule skip_while_until) (use assms(2) ascii_classes(5) in auto)
  have "?q < p"
    using assms(2,3) skip_while_ge [of "?q + 1" "\<lambda>c. \<not> line_break c" b]
    unfolding p_def by (subst skip_while.simps) (simp add: byte_at_def)
  from assms(1) have ok: "buffer_ok b ?q ?tb" "char_boundary b ?q" "lx_line l \<le> lineno b ?q" by (simp_all add: lexing_def)
  define k where "k = (if byte_at b (?q + 1) (\<lambda>c. c = 35) then DocComment else PlainComment)"
  define tb where "tb = ?tb\<lparr>com_start := com_start ?tb @ [to_u32 ?q], com_end := com_end ?tb @ [to_u32 p], com_kind := com_kind ?tb @ [k]\<rparr>"
  from ok have t: "buffer_tables b ?tb" and cov: "covered b ?q (tok_spans ?tb @ com_spans ?tb)"
    and lt: "laid_out b ?q (tok_spans ?tb)" and lc: "laid_out b ?q (com_spans ?tb)" by (simp_all add: buffer_ok_def)
  have room: "unat (to_u32 ?q) = ?q" "unat (to_u32 p) = p" using l assms(2,4) by (simp_all add: to_u32_less lands_def)
  have c: "com_spans tb = com_spans ?tb @ [(?q, p)]" using t room by (simp add: tb_def com_spans_def buffer_tables_def)
  have s: "tok_spans tb = tok_spans ?tb" by (simp add: tb_def tok_spans_def)
  have "buffer_tables b tb" using t by (simp add: tb_def buffer_tables_def)
  moreover have "laid_out b p (com_spans tb)"
    unfolding c by (rule laid_out_snoc [OF lc order_refl \<open>?q < p\<close> ok(2)]) (use l in \<open>simp add: lands_def\<close>)
  moreover have "laid_out b p (tok_spans tb)"
    unfolding s using laid_out_mono [OF lt] \<open>?q < p\<close> by simp
  moreover have "covered b p (tok_spans tb @ com_spans tb)" by (rule covered_snoc [OF cov]) (auto simp: s c)
  moreover have "\<forall>x\<in>set (tok_spans ?tb). snd x \<le> ?q" using lt by (auto simp: laid_out_def)
  then have "\<forall>x\<in>set (tok_spans tb). \<forall>y\<in>set (com_spans tb). snd x \<le> fst y \<or> snd y \<le> fst x"
    using ok(1) unfolding s c buffer_ok_def by auto
  ultimately have "buffer_ok b p tb" unfolding buffer_ok_def by blast
  moreover have "lx_comment b l = l\<lparr>lx_pos := p, lx_tokens := tb\<rparr>"
    by (simp add: lx_comment_def Let_def tb_def p_def k_def)
  ultimately show ?thesis
    using l \<open>?q < p\<close> ok(3) lineno_mono [of ?q p b] by (simp add: stepped_def lexing_def lands_def)
qed

text \<open>A blank byte or a line ending.\<close>

lemma stepped_blank:
  assumes "utf8_valid b" "lexing b (lx_pos l) l" "lx_pos l < length b" "b ! lx_pos l \<in> {9, 32}"
  shows "stepped b l (move_to (lx_pos l + 1) l)"
proof -
  let ?q = "lx_pos l"
  from assms(2) have ok: "buffer_ok b ?q (lx_tokens l)" "lx_line l \<le> lineno b ?q" by (simp_all add: lexing_def)
  have "buffer_ok b (?q + 1) (lx_tokens l)"
    by (rule buffer_ok_blank [OF ok(1)]) (use assms(4) in \<open>auto simp: less_Suc_eq\<close>)
  moreover have "char_boundary b (Suc ?q)" using ascii_next [OF assms(1,3)] assms(4) by auto
  ultimately show ?thesis using ok(2) assms(3) lineno_mono [of ?q "?q + 1" b]
    by (simp add: stepped_def lexing_def move_to_def)
qed

lemma stepped_newline:
  assumes "utf8_valid b" "lexing b (lx_pos l) l" "lx_pos l \<le> e" "e < length b" "ends_line b e"
    "\<And>i. lx_pos l \<le> i \<Longrightarrow> i \<le> e \<Longrightarrow> b ! i \<in> {10, 13}"
  shows "stepped b l (new_line (move_to (Suc e) l))"
proof -
  have l: "lexing b (lx_pos l) (new_line (l\<lparr>lx_pos := Suc e\<rparr>))" by (rule new_line_ok [OF assms(2-5)])
  then have "buffer_ok b (lx_pos l) (lx_tokens (new_line (l\<lparr>lx_pos := Suc e\<rparr>)))" by (simp add: lexing_def)
  then have "buffer_ok b (Suc e) (lx_tokens (new_line (l\<lparr>lx_pos := Suc e\<rparr>)))"
    by (rule buffer_ok_blank) (use assms(3,6) in \<open>fastforce simp: less_Suc_eq_le\<close>)+
  moreover have "char_boundary b (Suc e)" using ascii_next [OF assms(1,4)] assms(6) [OF assms(3)] assms(6) [of e] assms(3) by auto
  ultimately show ?thesis using l assms(3) by (simp add: stepped_def lexing_def move_to_def)
qed

lemma stepped_error: "stepped b (lx_error c s e m l) l' = stepped b l l'"
  by (simp add: stepped_def)

text \<open>The locals of a string's loop: its open piece starts at the covered position.\<close>

definition in_string :: "str \<Rightarrow> string_state \<Rightarrow> lexer \<Rightarrow> bool" where
  "in_string b s l \<longleftrightarrow>
     lexing b (ss_piece_start s) l \<and> ss_piece_start s < lx_pos l \<and> ss_piece_line s \<le> lx_line l \<and>
     0 < string_depth l \<and> string_depth l \<le> MAX_STRING_DEPTH + 1 \<and> ss_delimiter s \<in> {1, 3}"

text \<open>What ends a string: the depth is back, everything is in the buffer.\<close>

definition unstrung :: "str \<Rightarrow> lexer \<Rightarrow> lexer \<Rightarrow> bool" where
  "unstrung b l l' \<longleftrightarrow>
     lexing b (lx_pos l') l' \<and> lx_pos l \<le> lx_pos l' \<and> lx_line l \<le> lx_line l' \<and> string_depth l' + 1 = string_depth l"

lemma quotes_at_ascii:
  "quotes_at n b p \<Longrightarrow> p + n \<le> length b \<and> (\<forall>i<n. b ! (p + i) = 34)"
proof -
  assume "quotes_at n b p"
  then have *: "p + n \<le> length b" "take n (drop p b) = replicate n 34" by (auto simp: quotes_at_def get_range_Some)
  have "b ! (p + i) = 34" if "i < n" for i
  proof -
    have "take n (drop p b) ! i = b ! (p + i)" using that *(1) by simp
    with *(2) that show ?thesis by simp
  qed
  with *(1) show ?thesis by blast
qed

lemma quotes_land:
  assumes "utf8_valid b" "quotes_at n b p" "0 < n"
  shows "lands b p (p + n)"
proof -
  from quotes_at_ascii [OF assms(2)] have *: "p + n \<le> length b" "\<forall>i<n. b ! (p + i) < 0x80" by auto
  with assms(3) have "lands b p p" by (intro lands_at_ascii) auto
  from lands_ascii_run [OF assms(1) this *] show ?thesis .
qed

lemma string_end_ok:
  assumes "in_string b s l" "char_boundary b (lx_pos l)" "length b < 2 ^ 32"
  shows "\<exists>l'. string_end s closed l = Returned l' \<and> unstrung b l l' \<and> lx_pos l' = lx_pos l"
proof -
  let ?l = "l\<lparr>string_depth := string_depth l - 1\<rparr>"
  let ?m = "if closed then ?l else lx_error UnterminatedString (ss_start s) (lx_pos ?l) Unterminated ?l"
  from assms(1) have i: "lexing b (ss_piece_start s) l" "ss_piece_start s < lx_pos l" "ss_piece_line s \<le> lx_line l"
    "0 < string_depth l" by (simp_all add: in_string_def)
  let ?k = "if ss_interpolated s then TStrTail else if closed then TString else TError"
  have "lexing b (ss_piece_start s) ?m" "ss_piece_start s < lx_pos ?m" "char_boundary b (lx_pos ?m)" "ss_piece_line s \<le> lx_line ?m"
    using i assms(2) by simp_all
  from lx_push_ok [OF this assms(3), of ?k] i(1,4) show ?thesis
    by (auto simp: string_end_def unstrung_def Let_def split: if_splits)
qed

lemma string_start_ok:
  assumes "lexing b q l" "q < p \<or> p = q" "quotes_at 1 b p" "q \<le> p" "lx_pos l = q" "string_depth l \<le> MAX_STRING_DEPTH"
  shows "\<exists>s l'. string_start b q p prefixed l = StepString s l' \<and> in_string b s l' \<and> lx_pos l < lx_pos l' \<and>
    lx_line l \<le> lx_line l' \<and> string_depth l' = string_depth l + 1"
proof -
  let ?d = "if quotes_at 3 b p then 3 else 1 :: nat"
  let ?l = "l\<lparr>lx_pos := p + ?d, string_depth := string_depth l + 1\<rparr>"
  have "p + ?d \<le> length b" using quotes_at_ascii [OF assms(3)] quotes_at_ascii [of 3 b p] by auto
  then have "lexing b q ?l" using lexing_move [OF assms(1), of "p + ?d"] assms(4,5) by (simp add: lexing_def)
  then show ?thesis using assms(4-6) by (auto simp: string_start_def in_string_def Let_def MAX_STRING_DEPTH_def u32_max_def)
qed

lemma quotes_at_1: "p < length b \<Longrightarrow> b ! p = 34 \<Longrightarrow> quotes_at 1 b p"
  by (simp add: quotes_at_def get_range_def take_Suc_conv_app_nth)

text \<open>What \<open>step\<close> does before it enters the loop of \<open>string\<close>.\<close>

definition step_ready :: "str \<Rightarrow> lexer \<Rightarrow> bool" where
  "step_ready b l \<longleftrightarrow>
     utf8_valid b \<and> length b < 2 ^ 32 \<and> lexing b (lx_pos l) l \<and> lx_pos l < length b \<and> string_depth l \<le> MAX_STRING_DEPTH"

definition act_ok :: "str \<Rightarrow> lexer \<Rightarrow> step_turn \<Rightarrow> bool" where
  "act_ok b l a \<longleftrightarrow>
     (\<exists>l'. a = StepDone (Returned l') \<and> stepped b l l') \<or>
     (\<exists>s l'. a = StepString s l' \<and> in_string b s l' \<and> lx_pos l < lx_pos l' \<and> lx_line l \<le> lx_line l' \<and>
        string_depth l' = string_depth l + 1)"

lemma act_ok_scanned:
  assumes "step_ready b l" "r = Some (k, p, ds)" "lands b (lx_pos l) p" "lx_pos l < p"
  shows "act_ok b l (StepDone (lx_scanned (lx_pos l) r l))"
  using lx_scanned_ok [of b l r k p ds] assms by (auto simp: step_ready_def act_ok_def)

lemma step_ready_lands: "step_ready b l \<Longrightarrow> lands b (lx_pos l) (lx_pos l)"
  by (simp add: step_ready_def lexing_def lands_def)

lemma step_word_ok:
  assumes "step_ready b l"
  shows "act_ok b l (step_word u b (b ! lx_pos l) l)"
proof -
  let ?p = "lx_pos l"
  from assms have r: "utf8_valid b" "?p < length b" "lexing b ?p l" "string_depth l \<le> MAX_STRING_DEPTH"
    by (simp_all add: step_ready_def)
  note l = step_ready_lands [OF assms]
  have "is_ident_start_byte u (b ! ?p) b ?p \<noteq> None"
    using next_char_lands [OF l] by (auto simp: is_ident_start_byte_def)
  then consider (word) "is_ident_start_byte u (b ! ?p) b ?p = Some True" | (punct) "is_ident_start_byte u (b ! ?p) b ?p = Some False"
    by fastforce
  then show ?thesis
  proof cases
    case word
    from consume_ident_start [OF r(1) l r(2) word] obtain ok q where
      q: "consume_ident u b ?p = Some (ok, q)" "lands b ?p q" "?p < q" by blast
    let ?t = "take (q - ?p) (drop ?p b)"
    note t = lands_slice [OF l q(2)]
    show ?thesis
    proof (cases "byte_at b q (\<lambda>c. c = 34) \<and> keyword ?t = None")
      case True
      then have "quotes_at 1 b q" using quotes_at_1 by (simp add: byte_at_def)
      from string_start_ok [OF r(3) _ this _ refl r(4), of True] q(3) word True q(1) t
      show ?thesis by (auto simp: step_word_def act_ok_def)
    next
      case False
      obtain k ds where k: "scan_identifier u b ?p q ?t = (k, ds)" by fastforce
      from act_ok_scanned [OF assms refl q(2,3), of k ds] False word q(1) t k
      show ?thesis by (auto simp: step_word_def)
    qed
  next
    case punct
    from scan_punctuation_lands [OF r(1) l r(2)] obtain k q ds where
      "scan_punctuation b ?p = Some (k, q, ds)" "lands b ?p q" "?p < q" by blast
    from act_ok_scanned [OF assms this] punct show ?thesis by (simp add: step_word_def Let_def)
  qed
qed

lemma act_ok_stepped: "stepped b l l' \<Longrightarrow> act_ok b l (StepDone (Returned l'))"
  by (simp add: act_ok_def)

lemma act_ok_later:
  assumes "step_ready b l" "\<exists>k q ds. r = Some (k, q, ds) \<and> lands b (lx_pos l + 1) q"
  shows "act_ok b l (StepDone (lx_scanned (lx_pos l) r l))"
  using assms act_ok_scanned [OF assms(1)] by (auto simp: lands_def)

lemma step_act_ok:
  assumes "step_ready b l"
  shows "act_ok b l (step_act u b l)"
proof -
  let ?p = "lx_pos l" and ?c = "b ! lx_pos l"
  from assms have r: "utf8_valid b" "?p < length b" "lexing b ?p l" "string_depth l \<le> MAX_STRING_DEPTH" "length b < 2 ^ 32"
    by (simp_all add: step_ready_def)
  note l = step_ready_lands [OF assms]
  consider (space) "?c = 32" | (tab) "?c = 9" | (lf) "?c = 10" | (crlf) "?c = 13" "byte_at b (?p + 1) (\<lambda>c. c = 10)"
    | (cr) "?c = 13" "\<not> byte_at b (?p + 1) (\<lambda>c. c = 10)" | (hash) "?c = 35" | (tick) "?c = 96" | (quote) "?c = 34"
    | (apostrophe) "?c = 39" | (digit) "is_ascii_digit ?c"
    | (other) "?c \<notin> {32, 9, 10, 13, 35, 96, 34, 39}" "\<not> is_ascii_digit ?c" by auto
  then show ?thesis
  proof cases
    case space
    with stepped_blank [OF r(1,3,2)] show ?thesis using r(2) by (simp add: step_act_def get_at_def act_ok_stepped)
  next
    case tab
    let ?l = "lx_error TabWhitespace ?p (?p + 1) (if in_indentation b ?p then IndentationTab else WhitespaceTab) l"
    have "stepped b ?l (move_to (lx_pos ?l + 1) ?l)" by (rule stepped_blank) (use r tab in auto)
    with tab show ?thesis using r(2) by (simp add: step_act_def get_at_def act_ok_stepped stepped_error Let_def)
  next
    case lf
    have "stepped b l (new_line (move_to (Suc ?p) l))"
      by (rule stepped_newline [OF r(1,3) order_refl r(2)]) (use lf r(2) in \<open>auto simp: ends_line_def le_antisym\<close>)
    with lf show ?thesis using r(2) by (simp add: step_act_def get_at_def act_ok_stepped)
  next
    case crlf
    then have e: "?p + 1 < length b" "b ! (?p + 1) = 10" by (auto simp: byte_at_def)
    have "stepped b l (new_line (move_to (Suc (?p + 1)) l))"
      by (rule stepped_newline [OF r(1,3) _ e(1)]) (use crlf(1) e in \<open>auto simp: ends_line_def le_Suc_eq le_antisym\<close>)
    with crlf show ?thesis using r(2) by (simp add: step_act_def get_at_def act_ok_stepped)
  next
    case cr
    let ?l = "lx_error InvalidToken ?p (?p + 1) BareReturn l"
    have "stepped b ?l (new_line (move_to (Suc ?p) ?l))"
      by (rule stepped_newline) (use cr r in \<open>auto simp: ends_line_def le_antisym byte_at_def\<close>)
    with cr show ?thesis using r(2) by (simp add: step_act_def get_at_def act_ok_stepped stepped_error Let_def)
  next
    case hash
    then have "stepped b l (lx_comment b l)" using r by (intro lx_comment_ok) (auto simp: line_break_def)
    with hash show ?thesis using r(2) by (simp add: step_act_def get_at_def act_ok_stepped)
  next
    case tick
    with scan_raw_identifier_lands [OF r(1) l r(2), of u] act_ok_later [OF assms] show ?thesis
      using r(2) by (simp add: step_act_def get_at_def Let_def)
  next
    case quote
    from string_start_ok [OF r(3) _ quotes_at_1 [OF r(2) quote] _ refl r(4), of False] quote r(2)
    show ?thesis by (auto simp: step_act_def get_at_def act_ok_def)
  next
    case apostrophe
    with scan_lifetime_lands [OF r(1) l r(2) _ r(5), of u] act_ok_later [OF assms] show ?thesis
      using r(2) by (simp add: step_act_def get_at_def Let_def)
  next
    case digit
    then have "?c \<notin> {32, 9, 10, 13, 35, 96, 34, 39}" by (auto simp: is_ascii_digit_def word_le_nat_alt)
    moreover from scan_number_lands [OF r(1) l, of u] digit r(2) obtain q ds where
      "scan_number u b ?p = Some (q, ds)" "lands b (?p + 1) q" by (auto simp: byte_at_def)
    then have "\<exists>k q' ds'. map_option (\<lambda>(q, ds). (TNumber, q, ds)) (scan_number u b ?p) = Some (k, q', ds') \<and> lands b (?p + 1) q'"
      by simp
    from act_ok_later [OF assms this] have
      "act_ok b l (StepDone (lx_scanned ?p (map_option (\<lambda>(q, ds). (TNumber, q, ds)) (scan_number u b ?p)) l))" .
    ultimately show ?thesis using r(2) digit by (simp add: step_act_def get_at_def Let_def)
  next
    case other
    with step_word_ok [OF assms, of u] show ?thesis using r(2) by (simp add: step_act_def get_at_def Let_def)
  qed
qed

text \<open>One turn of the loop of \<open>string\<close>.\<close>

definition turn_ok :: "str \<Rightarrow> string_state \<Rightarrow> lexer \<Rightarrow> string_turn \<Rightarrow> bool" where
  "turn_ok b s l a \<longleftrightarrow>
     (\<exists>l'. a = StringDone (Returned l') \<and> unstrung b l l') \<or>
     (lx_pos l < length b \<and>
      ((\<exists>esc l'. a = StringNext esc l' \<and> in_string b s l' \<and> lx_pos l < lx_pos l' \<and> lx_line l \<le> lx_line l' \<and>
          string_depth l' = string_depth l) \<or>
       (\<exists>l'. a = StringHole l' \<and> lexing b (lx_pos l') l' \<and> lx_pos l < lx_pos l' \<and> lx_line l \<le> lx_line l' \<and>
          string_depth l' = string_depth l \<and> string_depth l \<le> MAX_STRING_DEPTH)))"

lemma turn_ok_done:
  "r = Returned l' \<Longrightarrow> unstrung b m l' \<Longrightarrow> lx_pos l \<le> lx_pos m \<Longrightarrow> lx_line l \<le> lx_line m \<Longrightarrow>
   string_depth m = string_depth l \<Longrightarrow> turn_ok b s l (StringDone r)"
  by (auto simp: turn_ok_def unstrung_def)

lemma turn_ok_next:
  assumes "in_string b s l" "lx_pos l < length b" "lx_pos l < p" "p \<le> length b"
  shows "turn_ok b s l (StringNext esc (l\<lparr>lx_pos := p, lx_diags := ds\<rparr>))"
    and "turn_ok b s l (StringNext esc (move_to p l))"
  using assms lexing_move [of b "ss_piece_start s" l p] by (auto simp: turn_ok_def in_string_def move_to_def lexing_def)

lemma turn_ok_newline:
  assumes "in_string b s l" "lx_pos l \<le> e" "e < length b" "ends_line b e"
  shows "turn_ok b s l (StringNext esc (new_line (move_to (Suc e) l)))"
  using assms new_line_ok [of b "ss_piece_start s" l e] by (auto simp: turn_ok_def in_string_def move_to_def)

lemma in_string_diags [simp]: "in_string b s (l\<lparr>lx_diags := ds\<rparr>) = in_string b s l"
  by (simp add: in_string_def)

lemma in_string_error [simp]: "in_string b s (lx_error c x y m l) = in_string b s l"
  by (simp add: in_string_def)

lemma turn_ok_error: "turn_ok b s (lx_error c x y m l) a = turn_ok b s l a"
  by (simp add: turn_ok_def unstrung_def)

lemma string_dollar_ok:
  assumes "utf8_valid b" "length b < 2 ^ 32" "in_string b s l" "lx_pos l < length b" "b ! lx_pos l = 36"
  shows "turn_ok b s l (string_dollar u b s l)"
proof -
  let ?p = "lx_pos l"
  have l: "lands b ?p ?p" using assms(4,5) by (intro lands_at_ascii) auto
  from assms(3) have i: "lexing b (ss_piece_start s) l" "ss_piece_start s < ?p" "ss_piece_line s \<le> lx_line l"
    by (simp_all add: in_string_def)
  show ?thesis
  proof (cases "byte_at b (?p + 1) (\<lambda>c. c = 123) \<and> string_depth l \<le> MAX_STRING_DEPTH")
    case True
    then have c: "?p + 1 < length b" "b ! (?p + 1) = 123" by (auto simp: byte_at_def)
    have "char_boundary b (?p + 2)" using ascii_next [OF assms(1) c(1)] c(2) by simp
    moreover have "lexing b (ss_piece_start s) (move_to (?p + 2) l)"
      using lexing_move [OF i(1), of "?p + 2"] c(1) by (simp add: move_to_def)
    ultimately have *: "\<exists>l'. lx_push k (ss_piece_start s) (ss_piece_line s) (move_to (?p + 2) l) = Returned l' \<and>
        lexing b (?p + 2) l' \<and> lx_pos l' = ?p + 2 \<and> lx_line l' = lx_line l \<and> string_depth l' = string_depth l" for k
      using lx_push_ok [of b "ss_piece_start s" "move_to (?p + 2) l" "ss_piece_line s" k] i assms(2)
      by (auto simp: move_to_def)
    from * [of "if ss_interpolated s then TStrMid else TStrHead"] True assms(4) show ?thesis
      by (auto simp: string_dollar_def turn_ok_def)
  next
    case False
    let ?m = "if byte_at b (?p + 1) (\<lambda>c. c = 123) then lx_error NestingTooDeep ?p (?p + 2) TooDeep l else l"
    from scan_dollar_lands [OF assms(1) l assms(4), of u] assms(5) obtain q ds where
      q: "scan_dollar u b ?p = Some (q, ds)" "lands b (?p + 1) q" by auto
    have "turn_ok b s ?m (StringNext False (?m\<lparr>lx_pos := q, lx_diags := lx_diags ?m @ ds\<rparr>))"
      using q(2) assms(3,4) by (intro turn_ok_next) (auto simp: lands_def)
    then have "turn_ok b s l (StringNext False (?m\<lparr>lx_pos := q, lx_diags := lx_diags ?m @ ds\<rparr>))"
      by (auto simp: turn_ok_error split: if_splits)
    moreover have "string_dollar u b s l = StringNext False (?m\<lparr>lx_pos := q, lx_diags := lx_diags ?m @ ds\<rparr>)"
      using False q(1) by (simp only: string_dollar_def Let_def if_False option.case prod.case)
    ultimately show ?thesis by simp
  qed
qed

lemma string_act_ok:
  assumes "utf8_valid b" "length b < 2 ^ 32" "in_string b s l"
  shows "turn_ok b s l (string_act u b s escaped l)"
proof -
  let ?p = "lx_pos l"
  from assms(3) have i: "lexing b (ss_piece_start s) l" "ss_piece_start s < ?p" "?p \<le> length b" "ss_delimiter s \<in> {1, 3}"
    by (simp_all add: in_string_def lexing_def)
  have stop: "turn_ok b s l (StringDone (string_end s False l))" if "char_boundary b ?p"
    using string_end_ok [OF assms(3) that assms(2), of False] by (auto intro: turn_ok_done)
  show ?thesis
  proof (cases "?p < length b")
    case False
    with i(3) stop show ?thesis by (auto simp: string_act_def Let_def get_at_def)
  next
    case p: True
    let ?c = "b ! ?p"
    have close: "turn_ok b s l (StringDone (string_end s True (move_to (?p + ss_delimiter s) l)))"
      if q: "quotes_at (ss_delimiter s) b ?p"
    proof -
      have "0 < ss_delimiter s" using i(4) by auto
      with quotes_land [OF assms(1) q] have "lands b ?p (?p + ss_delimiter s)" by blast
      then have "in_string b s (move_to (?p + ss_delimiter s) l)" "char_boundary b (lx_pos (move_to (?p + ss_delimiter s) l))"
        using assms(3) lexing_move [OF i(1), of "?p + ss_delimiter s"] by (auto simp: in_string_def lands_def move_to_def)
      from string_end_ok [OF this assms(2), of True] show ?thesis
        by (auto intro: turn_ok_done [of _ _ _ "move_to (?p + ss_delimiter s) l"] simp: move_to_def)
    qed
    have break: "turn_ok b s l (StringDone (string_end s False l))" if "line_break ?c"
      using stop ascii_boundary [OF p] ascii_classes(5) [OF that] by simp
    define m where "m = (if ?c = 9 then lx_error TabWhitespace ?p (?p + 1) LiteralTab l else l)"
    have m: "in_string b s m" "lx_pos m = ?p" "\<And>a. turn_ok b s m a = turn_ok b s l a"
      using assms(3) by (simp_all add: m_def turn_ok_error)
    have pm: "lx_pos m < length b" using m(2) p by simp
    have dollar: "turn_ok b s l (string_dollar u b s m)" if "?c = 36"
      using string_dollar_ok [OF assms(1,2) m(1) pm, of u] that m by simp
    have lf: "turn_ok b s l (StringNext False (new_line (move_to (?p + 1) m)))" if "?c = 10"
      using turn_ok_newline [OF m(1) order_refl pm] that m p by (simp add: ends_line_def)
    have crlf: "turn_ok b s l (StringNext False (new_line (move_to (?p + 2) m)))" if "byte_at b (?p + 1) (\<lambda>c. c = 10)"
      using turn_ok_newline [OF m(1), of "?p + 1" False] that m(2,3) by (simp add: ends_line_def byte_at_def)
    have escape: "turn_ok b s l (case escape_diags u b ?p of None \<Rightarrow> StringDone Panicked
        | Some ds \<Rightarrow> StringNext True (m\<lparr>lx_pos := ?p + 1, lx_diags := lx_diags m @ ds\<rparr>))" if "?c = 92"
    proof -
      have "lands b ?p ?p" using p that by (intro lands_at_ascii) auto
      from escape_diags_total [OF assms(1) this p, of u] that turn_ok_next(1) [OF m(1) pm, of "?p + 1"] m(2,3) p
      show ?thesis by auto
    qed
    have other: "turn_ok b s l (StringNext e (move_to (?p + 1) m))" for e
      using turn_ok_next(2) [OF m(1) pm, of "?p + 1" e] m(2,3) p by simp
    have "string_act u b s escaped l =
       (if \<not> escaped \<and> quotes_at (ss_delimiter s) b ?p then StringDone (string_end s True (move_to (?p + ss_delimiter s) l))
        else if ss_delimiter s = 1 \<and> line_break ?c then StringDone (string_end s False l)
        else if ?c = 36 \<and> \<not> escaped then string_dollar u b s m
        else if ?c = 10 then StringNext False (new_line (move_to (?p + 1) m))
        else if ?c = 13 \<and> byte_at b (?p + 1) (\<lambda>c. c = 10) then StringNext False (new_line (move_to (?p + 2) m))
        else if \<not> ss_prefixed s \<and> ?c = 92 \<and> \<not> escaped then
          (case escape_diags u b ?p of None \<Rightarrow> StringDone Panicked
           | Some ds \<Rightarrow> StringNext True (m\<lparr>lx_pos := ?p + 1, lx_diags := lx_diags m @ ds\<rparr>))
        else StringNext (ss_prefixed s \<and> ?c = 92 \<and> \<not> escaped) (move_to (?p + 1) m))"
      using p unfolding string_act_def Let_def m_def by (simp only: get_at_def if_True option.case)
    then show ?thesis using close break dollar lf crlf escape other by presburger
  qed
qed

section \<open>Enough fuel\<close>

definition hole_ok :: "str \<Rightarrow> lexer \<Rightarrow> bool \<Rightarrow> lexer \<Rightarrow> bool" where
  "hole_ok b l closed l' \<longleftrightarrow>
     lexing b (lx_pos l') l' \<and> lx_pos l \<le> lx_pos l' \<and> lx_line l \<le> lx_line l' \<and> string_depth l' = string_depth l \<and>
     (closed \<longrightarrow> lx_pos l' < length b \<and> b ! lx_pos l' = 125)"

lemma in_string_after_hole:
  assumes "hole_ok b l True l'" "string_depth l = string_depth m" "in_string b s m"
  shows "in_string b (after_hole s l') (move_to (lx_pos l' + 1) l')"
  using assms lexing_move [of b "lx_pos l'" l' "lx_pos l' + 1"]
  by (auto simp: hole_ok_def in_string_def after_hole_def move_to_def)

lemma open_hole_ok:
  "hole_ok b l False l' \<Longrightarrow> string_depth l = string_depth m \<Longrightarrow> in_string b s m \<Longrightarrow> lx_pos m \<le> lx_pos l \<Longrightarrow>
   lx_line m \<le> lx_line l \<Longrightarrow> unstrung b m (open_hole s l')"
  by (auto simp: hole_ok_def in_string_def unstrung_def open_hole_def)

text \<open>Three units of fuel for each byte left are enough for each of the three mutually recursive functions.\<close>

lemma lexing_returns:
  assumes "utf8_valid b" "length b < 2 ^ 32"
  shows "(step_ready b l \<longrightarrow> 3 * (length b - lx_pos l) \<le> n \<longrightarrow> (\<exists>l'. step n u b l = Returned l' \<and> stepped b l l')) \<and>
    (in_string b s l \<longrightarrow> 3 * (length b - lx_pos l) < n \<longrightarrow>
      (\<exists>l'. string_loop n u b s escaped l = Returned l' \<and> unstrung b l l')) \<and>
    (lexing b (lx_pos l) l \<longrightarrow> string_depth l \<le> MAX_STRING_DEPTH \<longrightarrow> braces \<le> lx_pos l \<longrightarrow>
      3 * (length b - lx_pos l) < n \<longrightarrow>
      (\<exists>closed l'. interpolation n u b braces l = Returned (closed, l') \<and> hole_ok b l closed l'))"
proof (induction n arbitrary: l s escaped braces)
  case 0
  then show ?case by (auto simp: step_ready_def)
next
  case (Suc n)
  have step: "\<exists>l'. step n u b l = Returned l' \<and> stepped b l l'"
    if "step_ready b l" "3 * (length b - lx_pos l) \<le> n" for l
    using Suc.IH that by blast
  have string: "\<exists>l'. string_loop n u b s escaped l = Returned l' \<and> unstrung b l l'"
    if "in_string b s l" "3 * (length b - lx_pos l) < n" for s escaped l
    using Suc.IH that by blast
  have hole: "\<exists>closed l'. interpolation n u b braces l = Returned (closed, l') \<and> hole_ok b l closed l'"
    if "lexing b (lx_pos l) l" "string_depth l \<le> MAX_STRING_DEPTH" "braces \<le> lx_pos l" "3 * (length b - lx_pos l) < n"
    for braces l using Suc.IH that by blast
  have "\<exists>l'. step (Suc n) u b l = Returned l' \<and> stepped b l l'"
    if ready: "step_ready b l" and fuel: "3 * (length b - lx_pos l) \<le> Suc n"
  proof -
    from step_act_ok [OF ready, of u] consider l' where "step_act u b l = StepDone (Returned l')" "stepped b l l'"
      | s l' where "step_act u b l = StepString s l'" "in_string b s l'" "lx_pos l < lx_pos l'" "lx_line l \<le> lx_line l'"
        "string_depth l' = string_depth l + 1"
      unfolding act_ok_def by blast
    then show ?thesis
    proof cases
      case 1
      then show ?thesis by (simp add: step.simps)
    next
      case (2 s l')
      from ready have "lx_pos l < length b" by (simp add: step_ready_def)
      then have "3 * (length b - lx_pos l') < n" using 2(3) fuel by linarith
      from string [OF 2(2) this, of False] 2 show ?thesis by (auto simp: step.simps unstrung_def stepped_def)
    qed
  qed
  moreover have "\<exists>l'. string_loop (Suc n) u b s escaped l = Returned l' \<and> unstrung b l l'"
    if i: "in_string b s l" and fuel: "3 * (length b - lx_pos l) < Suc n"
  proof -
    have less: "3 * (length b - p) < n" if "lx_pos l < length b" "lx_pos l < p" for p using fuel that by linarith
    from string_act_ok [OF assms i, of u escaped] consider l' where "string_act u b s escaped l = StringDone (Returned l')" "unstrung b l l'"
      | e l' where "string_act u b s escaped l = StringNext e l'" "in_string b s l'" "lx_pos l < length b" "lx_pos l < lx_pos l'"
        "lx_line l \<le> lx_line l'" "string_depth l' = string_depth l"
      | l' where "string_act u b s escaped l = StringHole l'" "lexing b (lx_pos l') l'" "lx_pos l < length b" "lx_pos l < lx_pos l'"
        "lx_line l \<le> lx_line l'" "string_depth l' = string_depth l" "string_depth l \<le> MAX_STRING_DEPTH"
      unfolding turn_ok_def by blast
    then show ?thesis
    proof cases
      case 1
      then show ?thesis by (simp add: string_loop.simps)
    next
      case (2 e l')
      from string [OF 2(2) less [OF 2(3,4)], of e] 2 show ?thesis by (auto simp: string_loop.simps unstrung_def)
    next
      case (3 l')
      from hole [OF 3(2) _ _ less [OF 3(3,4)], of 0] 3 obtain closed m where
        m: "interpolation n u b 0 l' = Returned (closed, m)" "hole_ok b l' closed m" by auto
      show ?thesis
      proof (cases closed)
        case False
        with 3 m i open_hole_ok [of b l' m l s] show ?thesis by (auto simp: string_loop.simps)
      next
        case True
        let ?m = "move_to (lx_pos m + 1) m"
        have "in_string b (after_hole s m) ?m" using in_string_after_hole [of b l' m l s] m(2) True 3 i by simp
        moreover have "3 * (length b - lx_pos ?m) < n" using less [of "lx_pos ?m"] 3 m(2) by (simp add: hole_ok_def move_to_def)
        ultimately obtain l2 where "string_loop n u b (after_hole s m) False ?m = Returned l2" "unstrung b ?m l2"
          using string by blast
        with 3 m True show ?thesis by (auto simp: string_loop.simps unstrung_def hole_ok_def move_to_def)
      qed
    qed
  qed
  moreover have "\<exists>closed l'. interpolation (Suc n) u b braces l = Returned (closed, l') \<and> hole_ok b l closed l'"
    if l: "lexing b (lx_pos l) l" "string_depth l \<le> MAX_STRING_DEPTH" "braces \<le> lx_pos l" and fuel: "3 * (length b - lx_pos l) < Suc n"
  proof (cases "lx_pos l < length b")
    case False
    with l(1) show ?thesis by (auto simp: interpolation.simps get_at_def hole_ok_def intro: exI [of _ False])
  next
    case p: True
    then have ready: "step_ready b l" using assms l by (simp add: step_ready_def)
    show ?thesis
    proof (cases "b ! lx_pos l = 125 \<and> braces = 0")
      case True
      with l(1) p show ?thesis by (auto simp: interpolation.simps get_at_def hole_ok_def intro: exI [of _ True])
    next
      case False
      have room: "\<not> u32_max braces" unfolding u32_max_def using l(3) p assms(2) by linarith
      from step [OF ready] fuel obtain l' where l': "step n u b l = Returned l'" "stepped b l l'" by auto
      let ?braces = "if b ! lx_pos l = 123 then braces + 1 else if b ! lx_pos l = 125 then braces - 1 else braces"
      have s: "lexing b (lx_pos l') l'" "lx_pos l < lx_pos l'" "lx_line l \<le> lx_line l'" "string_depth l' = string_depth l"
        using l'(2) by (simp_all add: stepped_def)
      have "?braces \<le> lx_pos l'" using s(2) l(3) by auto
      moreover have "3 * (length b - lx_pos l') < n" using fuel s(2) p by linarith
      ultimately obtain closed m where m: "interpolation n u b ?braces l' = Returned (closed, m)" "hole_ok b l' closed m"
        using hole [OF s(1)] s(4) l(2) by metis
      from m(2) s have "hole_ok b l closed m" by (simp add: hole_ok_def)
      moreover have "interpolation (Suc n) u b braces l = Returned (closed, m)"
        using False room p l'(1) m(1) by (auto simp: interpolation.simps get_at_def)
      ultimately show ?thesis by blast
    qed
  qed
  ultimately show ?case by blast
qed

lemma lex_run_returns:
  assumes "utf8_valid b" "length b < 2 ^ 32"
  shows "lexing b (lx_pos l) l \<Longrightarrow> string_depth l \<le> MAX_STRING_DEPTH \<Longrightarrow> length b - lx_pos l \<le> n \<Longrightarrow>
    \<exists>l'. lex_run n u b l = Returned l' \<and> lx_pos l' = length b \<and> lexing b (length b) l'"
proof (induction n arbitrary: l)
  case 0
  then show ?case by (auto simp: lex_run.simps lexing_def)
next
  case (Suc n)
  show ?case
  proof (cases "lx_pos l < length b")
    case False
    with Suc.prems show ?thesis by (auto simp: lex_run.simps lexing_def)
  next
    case True
    then have "step_ready b l" using assms Suc.prems by (simp add: step_ready_def)
    moreover have "3 * (length b - lx_pos l) \<le> lex_fuel b" by (simp add: lex_fuel_def)
    ultimately obtain l' where l': "step (lex_fuel b) u b l = Returned l'" "stepped b l l'"
      using lexing_returns [OF assms, of l "lex_fuel b" u] by blast
    from l'(2) have "lexing b (lx_pos l') l'" "string_depth l' \<le> MAX_STRING_DEPTH" "length b - lx_pos l' \<le> n"
      using Suc.prems True by (auto simp: stepped_def)
    from Suc.IH [OF this] l' True show ?thesis by (simp add: lex_run.simps)
  qed
qed

lemma lexer_new_lexing:
  assumes "utf8_valid b"
  shows "lexing b (lx_pos (lexer_new b)) (lexer_new b) \<and> string_depth (lexer_new b) = 0"
proof -
  let ?p = "lx_pos (lexer_new b)"
  have "lines_added b 0 empty_tokens (build_lines b empty_tokens)"
    using build_lines_from_added [of 0 b empty_tokens] by (simp add: build_lines_def)
  then have tb: "buffer_tables b (build_lines b empty_tokens) \<and> tok_spans (build_lines b empty_tokens) = [] \<and>
    com_spans (build_lines b empty_tokens) = []"
    by (auto simp: lines_added_def buffer_tables_def tok_spans_def com_spans_def empty_tokens_def)
  have pos: "?p \<le> length b \<and> char_boundary b ?p \<and> (0 < ?p \<longrightarrow> has_bom b \<and> ?p = 3)"
  proof (cases "has_bom b")
    case True
    then obtain bs where b: "b = [0xEF, 0xBB, 0xBF] @ bs"
      by (metis append_take_drop_id has_bom_def)
    have "char_width (0xEF :: u8) = 3" by (simp add: char_width_def)
    with boundary_next [OF assms boundary_start [OF assms]] b True show ?thesis
      by (auto simp: lexer_new_def has_bom_def)
  next
    case False
    then show ?thesis using boundary_start [OF assms] by (simp add: lexer_new_def has_bom_def)
  qed
  then have "covered b ?p []" by (auto simp: covered_def)
  with tb pos show ?thesis
    by (simp add: lexing_def lexer_new_def buffer_ok_def laid_out_def)
qed

section \<open>After the run\<close>

lemma token_span:
  assumes "buffer_ok b q tb" "i < length (tk_kind tb)"
  shows "tok_spans tb ! i = (unat (tk_start tb ! i), unat (tk_end tb ! i)) \<and> i < length (tok_spans tb)"
  using assms by (simp add: buffer_ok_def buffer_tables_def tok_spans_def)

lemma token_text_total:
  assumes "buffer_ok b q tb" "q \<le> length b" "i < length (tk_kind tb)"
  shows "\<exists>t. token_text tb i b = Some t \<and> t \<noteq> []"
proof -
  from token_span [OF assms(1,3)] have "(unat (tk_start tb ! i), unat (tk_end tb ! i)) \<in> set (tok_spans tb)"
    by (metis nth_mem)
  with assms(1,2) show ?thesis by (auto simp: buffer_ok_def laid_out_def token_text_def str_slice_def)
qed

lemma unclosed_diags_total:
  assumes "buffer_ok b q tb" "q \<le> length b"
  shows "\<forall>x\<in>set st. snd x < length (tk_kind tb) \<Longrightarrow> \<exists>ds. unclosed_diags b tb st = Some ds \<and> length ds = length st"
proof (induction st)
  case (Cons x st)
  with token_text_total [OF assms, of "snd x"] show ?case by (auto simp: unclosed_diag_def)
qed simp

definition stack_ok :: "nat \<Rightarrow> delim_state \<Rightarrow> bool" where
  "stack_ok n d \<longleftrightarrow> (\<forall>x\<in>set (dl_stack d). snd x < n)"

lemma match_at_total:
  assumes "buffer_ok b q tb" "q \<le> length b" "i < length (tk_kind tb)" "stack_ok (length (tk_kind tb)) d"
  shows "\<exists>d'. match_at b tb i d = Some d' \<and> stack_ok (length (tk_kind tb)) d'"
proof -
  have "\<exists>d'. resync_at b tb i d = Some d' \<and> stack_ok (length (tk_kind tb)) d'"
    using unclosed_diags_total [OF assms(1,2), of "rev (dl_stack d)"] assms(4) by (auto simp: resync_at_def stack_ok_def)
  then obtain d' where d': "resync_at b tb i d = Some d'" "stack_ok (length (tk_kind tb)) d'" by blast
  moreover from d'(2) have "\<forall>x\<in>set (tl (dl_stack d')). snd x < length (tk_kind tb)"
    by (cases "dl_stack d'") (auto simp: stack_ok_def)
  ultimately show ?thesis using token_text_total [OF assms(1-3)] assms(3)
    by (auto simp: match_at_def stack_ok_def Let_def)
qed

lemma match_all_total:
  assumes "buffer_ok b q tb" "q \<le> length b"
  shows "\<forall>i\<in>set is. i < length (tk_kind tb) \<Longrightarrow> stack_ok (length (tk_kind tb)) d \<Longrightarrow>
    \<exists>d'. match_all b tb is d = Some d' \<and> stack_ok (length (tk_kind tb)) d'"
proof (induction "is" arbitrary: d)
  case (Cons i "is")
  with match_at_total [OF assms, of i d] show ?case by fastforce
qed simp

lemma match_delimiters_total:
  assumes "buffer_ok b q (lx_tokens l)" "q \<le> length b"
  shows "\<exists>rs ds. match_delimiters b l = Some (l\<lparr>lx_tokens := (lx_tokens l)\<lparr>resync := rs\<rparr>, lx_diags := lx_diags l @ ds\<rparr>)"
proof -
  let ?n = "length (tk_kind (lx_tokens l))"
  have "stack_ok ?n \<lparr>dl_stack = [], dl_resync = [], dl_diags = []\<rparr>" by (simp add: stack_ok_def)
  with match_all_total [OF assms, of "[0..<?n]"] obtain d where
    d: "match_all b (lx_tokens l) [0..<?n] \<lparr>dl_stack = [], dl_resync = [], dl_diags = []\<rparr> = Some d" "stack_ok ?n d" by auto
  with unclosed_diags_total [OF assms, of "rev (dl_stack d)"] obtain ds where
    "unclosed_diags b (lx_tokens l) (rev (dl_stack d)) = Some ds" by (auto simp: stack_ok_def)
  with d(1) have "match_delimiters b l =
      Some (l\<lparr>lx_tokens := (lx_tokens l)\<lparr>resync := resync (lx_tokens l) @ dl_resync d\<rparr>, lx_diags := lx_diags l @ dl_diags d @ ds\<rparr>)"
    by (simp add: match_delimiters_def Let_def)
  then show ?thesis by blast
qed

lemma doc_run_bounds: "start \<le> stop \<Longrightarrow> stop \<le> length (com_kind tb) \<Longrightarrow>
  stop \<le> doc_run tb f start stop \<and> doc_run tb f start stop \<le> length (com_kind tb)"
proof (induction tb f start stop rule: doc_run.induct)
  case (1 tb f start stop)
  then show ?case by (subst (1 2) doc_run.simps) auto
qed

text \<open>A line of the table is a range of the source.\<close>

lemma line_starts_sorted: "sorted (line_starts b 0)"
  by (auto simp: line_starts_def sorted_map intro: sorted_wrt_mono_rel [OF _ sorted_filter [of id, simplified]])

lemma line_is_blank_total:
  assumes "length b < 2 ^ 32" "line < length (line_starts b 0)"
  shows "\<exists>x. line_is_blank b line (map to_u32 (line_starts b 0)) = Some x"
proof -
  let ?s = "line_starts b 0"
  have le: "s \<le> length b" if "s \<in> set ?s" for s using that by (auto simp: line_starts_def)
  have u: "unat (to_u32 (?s ! i)) = ?s ! i" if "i < length ?s" for i
    using le [OF nth_mem [OF that]] assms(1) by (simp add: to_u32_less)
  have "line + 1 < length ?s \<Longrightarrow> ?s ! line \<le> ?s ! (line + 1)"
    using line_starts_sorted by (simp add: sorted_nth_mono)
  with assms(2) le [OF nth_mem] show ?thesis
    by (auto simp: line_is_blank_def get_at_def get_range_def u Let_def)
qed

lemma module_doc_total:
  assumes "buffer_tables b (tb\<lparr>resync := []\<rparr>)" "length b < 2 ^ 32"
  shows "\<exists>ks. module_doc b tb = Some (tb\<lparr>com_kind := ks\<rparr>) \<and> length ks = length (com_kind tb)"
proof -
  define start where "start = length (takeWhile (\<lambda>k. k \<noteq> DocComment) (com_kind tb))"
  define stop where "stop = doc_run tb (case tk_start tb of [] \<Rightarrow> - 1 | s # _ \<Rightarrow> s) start start"
  have "start \<le> length (com_kind tb)" unfolding start_def by (rule length_takeWhile_le)
  with doc_run_bounds [of start start tb] have stop: "start \<le> stop" "stop \<le> length (com_kind tb)"
    by (auto simp: stop_def)
  define last_line where "last_line = line_of tb (com_start tb ! (stop - 1))"
  from assms(1) have ls: "line_start tb = map to_u32 (line_starts b 0)" by (simp add: buffer_tables_def)
  then have blank: "\<exists>x. line_is_blank b (last_line + 1) (line_start tb) = Some x" if "last_line + 1 < length (line_start tb)"
    using line_is_blank_total [OF assms(2), of "last_line + 1"] that by simp
  have self: "tb = tb\<lparr>com_kind := com_kind tb\<rparr>" by simp
  have eq: "module_doc b tb =
     (if start = length (com_kind tb) then Some tb
      else if stop = start then Some tb
      else if \<not> last_line + 1 < length (line_start tb) then Some tb
      else map_option (\<lambda>blank. if blank
             then tb\<lparr>com_kind := take start (com_kind tb) @ replicate (stop - start) ModuleDoc @ drop stop (com_kind tb)\<rparr>
             else tb) (line_is_blank b (last_line + 1) (line_start tb)))"
    by (simp only: module_doc_def Let_def start_def [symmetric] stop_def [symmetric] last_line_def [symmetric])
  show ?thesis
  proof (cases "start = length (com_kind tb) \<or> stop = start \<or> \<not> last_line + 1 < length (line_start tb)")
    case True
    then have "module_doc b tb = Some (tb\<lparr>com_kind := com_kind tb\<rparr>)" unfolding eq by auto
    then show ?thesis by blast
  next
    case False
    with blank obtain x where x: "line_is_blank b (last_line + 1) (line_start tb) = Some x" by blast
    define ks where "ks = (if x then take start (com_kind tb) @ replicate (stop - start) ModuleDoc @ drop stop (com_kind tb)
      else com_kind tb)"
    have "module_doc b tb = Some (tb\<lparr>com_kind := ks\<rparr>)" using False x unfolding eq by (simp add: ks_def)
    moreover have "length ks = length (com_kind tb)" using stop by (simp add: ks_def)
    ultimately show ?thesis by blast
  qed
qed

section \<open>The result\<close>

text \<open>The tokens and comments of a buffer tile the source: in order, apart, on character boundaries, all of it.\<close>

definition tiles :: "str \<Rightarrow> token_buf \<Rightarrow> bool" where
  "tiles b tb \<longleftrightarrow>
     laid_out b (length b) (tok_spans tb) \<and> laid_out b (length b) (com_spans tb) \<and>
     (\<forall>x\<in>set (tok_spans tb). \<forall>y\<in>set (com_spans tb). snd x \<le> fst y \<or> snd y \<le> fst x) \<and>
     covered b (length b) (tok_spans tb @ com_spans tb)"

lemma drop_pieces:
  assumes "p \<le> s" "s \<le> e"
  shows "drop p b = take (s - p) (drop p b) @ take (e - s) (drop s b) @ drop e b"
proof -
  have "drop p b = take (s - p) (drop p b) @ drop s b"
    using append_take_drop_id [of "s - p" "drop p b"] assms(1) by simp
  moreover have "drop s b = take (e - s) (drop s b) @ drop e b"
    using append_take_drop_id [of "e - s" "drop s b"] assms(2) by simp
  ultimately show ?thesis by simp
qed

lemma reconstruct_spans:
  "laid_out b (length b) (map (\<lambda>(s, e). (unat s, unat e)) ss) \<Longrightarrow> \<forall>x\<in>set ss. p \<le> unat (fst x) \<Longrightarrow> p \<le> length b \<Longrightarrow>
   char_boundary b p \<Longrightarrow> reconstruct_from b p ss = Some (drop p b)"
proof (induction ss arbitrary: p)
  case Nil
  then show ?case by (simp add: str_slice_def)
next
  case (Cons x ss)
  obtain s e where x: "x = (s, e)" by fastforce
  from Cons.prems x have h: "unat s < unat e" "unat e \<le> length b" "char_boundary b (unat s)" "char_boundary b (unat e)"
    "p \<le> unat s" "\<forall>y\<in>set ss. unat e \<le> unat (fst y)" by (auto simp: laid_out_def)
  have "reconstruct_from b (unat e) ss = Some (drop (unat e) b)"
    by (rule Cons.IH) (use Cons.prems(1) h in \<open>auto simp: laid_out_def\<close>)
  moreover have "drop p b = take (unat s - p) (drop p b) @ take (unat e - unat s) (drop (unat s) b) @ drop (unat e) b"
    using h by (intro drop_pieces) auto
  ultimately show ?case using Cons.prems x h by (simp add: str_slice_def)
qed

lemma tiles_reconstruct:
  assumes "tiles b tb" "utf8_valid b"
  shows "reconstruct tb b = Some b"
proof -
  have "tok_spans tb = map (\<lambda>(s, e). (unat s, unat e)) (zip (tk_start tb) (tk_end tb))"
    by (simp add: tok_spans_def zip_map_map)
  with assms(1) reconstruct_spans [of b "zip (tk_start tb) (tk_end tb)" 0] boundary_start [OF assms(2)]
  show ?thesis by (simp add: tiles_def reconstruct_def)
qed

lemma lex_result:
  assumes "utf8_valid b" "length b < 2 ^ 32"
  shows "\<exists>tb ds. lex u b = Returned (tb, ds) \<and> tiles b tb \<and> buffer_tables b (tb\<lparr>resync := []\<rparr>)"
proof -
  have "string_depth (lexer_new b) \<le> MAX_STRING_DEPTH" "length b - lx_pos (lexer_new b) \<le> length b"
    using lexer_new_lexing [OF assms(1)] by simp_all
  with lex_run_returns [OF assms, of "lexer_new b" "length b" u] lexer_new_lexing [OF assms(1)]
  obtain l where l: "lex_run (length b) u b (lexer_new b) = Returned l" "lexing b (length b) l" by blast
  then have ok: "buffer_ok b (length b) (lx_tokens l)" by (simp add: lexing_def)
  then have t: "buffer_tables b (lx_tokens l)" by (simp add: buffer_ok_def)
  from match_delimiters_total [OF ok order_refl] obtain rs ds where
    m: "match_delimiters b l = Some (l\<lparr>lx_tokens := (lx_tokens l)\<lparr>resync := rs\<rparr>, lx_diags := lx_diags l @ ds\<rparr>)" by blast
  let ?tb = "(lx_tokens l)\<lparr>resync := rs\<rparr>"
  from t have t': "buffer_tables b (?tb\<lparr>resync := []\<rparr>)" by (simp add: buffer_tables_def)
  from module_doc_total [OF t' assms(2)] obtain ks where
    ks: "module_doc b ?tb = Some (?tb\<lparr>com_kind := ks\<rparr>)" "length ks = length (com_kind ?tb)" by blast
  have "tok_spans (?tb\<lparr>com_kind := ks\<rparr>) = tok_spans (lx_tokens l)" "com_spans (?tb\<lparr>com_kind := ks\<rparr>) = com_spans (lx_tokens l)"
    by (simp_all add: tok_spans_def com_spans_def)
  then have "tiles b (?tb\<lparr>com_kind := ks\<rparr>)" using ok by (simp add: tiles_def buffer_ok_def)
  moreover have "buffer_tables b (?tb\<lparr>com_kind := ks, resync := []\<rparr>)" using t ks(2) by (simp add: buffer_tables_def)
  moreover have "lex u b = Returned (?tb\<lparr>com_kind := ks\<rparr>, lx_diags l @ ds)"
    using assms(1) l(1) m ks(1) by (simp add: lex_def)
  ultimately show ?thesis by blast
qed

text \<open>C25. Lexing always returns: for every source of less than 4 GiB, valid UTF-8 or not, and whatever the
  Unicode tables say, \<open>lex\<close> ends without a panic: every slice is on a character boundary, every index in
  range, the string and brace counters never overflow, and the mutual recursion of code, strings and
  interpolations uses at most three turns for each byte.\<close>

theorem lex_returns:
  assumes "length source < 2 ^ 32"
  shows "\<exists>tb ds. lex u source = Returned (tb, ds)"
  using lex_result [OF _ assms, of u] by (cases "utf8_valid source") (auto simp: lex_def)

text \<open>C26. Lexing loses nothing: the tokens, and the comments, of a valid source are non-empty, in order, disjoint,
  inside the source and on character boundaries; every byte outside them is a space, a tab or part of a line
  ending, or the byte-order mark at the start; and putting the gaps and tokens together again gives the source.\<close>

theorem lex_tiles:
  assumes "utf8_valid source" "length source < 2 ^ 32" "lex u source = Returned (tb, ds)"
  shows "tiles source tb \<and> reconstruct tb source = Some source"
proof -
  from lex_result [OF assms(1,2), of u] assms(3) have "tiles source tb" by auto
  with tiles_reconstruct [OF this assms(1)] show ?thesis by blast
qed

definition sample_unicode :: unicode where
  "sample_unicode = \<lparr>xid_start = \<lambda>c. False, xid_continue = \<lambda>c. False, nfc = \<lambda>s. True, alphanumeric = \<lambda>c. False,
     control = \<lambda>c. False\<rparr>"

theorem lex_returns_witness:
  "\<exists>tb ds. lex sample_unicode (ascii ''let x = \"a${b}\"'') = Returned (tb, ds)"
  by (rule lex_returns) (simp add: ascii_def)

theorem lex_tiles_witness:
  "\<exists>tb ds. lex sample_unicode [120, 32, 0xC3, 0xA9] = Returned (tb, ds) \<and> reconstruct tb [120, 32, 0xC3, 0xA9] = Some [120, 32, 0xC3, 0xA9]"
proof -
  have v: "utf8_valid [120, 32, 0xC3, 0xA9]" by (simp add: utf8_cont_def)
  moreover have "length [120, 32, 0xC3, 0xA9 :: u8] < 2 ^ 32" by simp
  ultimately obtain tb ds where *: "lex sample_unicode [120, 32, 0xC3, 0xA9] = Returned (tb, ds)" using lex_result by blast
  from lex_tiles [OF v _ this] * show ?thesis by auto
qed

text \<open>A bare carriage return inside a multi-line string is not reported, though the language makes it an
  \<open>invalid-token\<close>, and the lexer does not count it as a line ending, though its table of lines does: after
  \<open>"""CR"""LF\<close> the identifier \<open>x\<close> is on line 2 of the table, but the lexer files it as the first token of
  line 1, and line 2 has none.\<close>

lemma bare_return_in_string:
  "\<exists>tb. lex sample_unicode [34, 34, 34, 13, 34, 34, 34, 10, 120] = Returned (tb, []) \<and>
     tk_kind tb = [TString, TIdent] \<and> line_of tb (tk_start tb ! 1) = 2 \<and> line_tok tb = [0, 1, no_token]"
proof -
  have "case lex sample_unicode [34, 34, 34, 13, 34, 34, 34, 10, 120] of
      Returned (tb, ds) \<Rightarrow> ds = [] \<and> tk_kind tb = [TString, TIdent] \<and> line_of tb (tk_start tb ! 1) = 2 \<and> line_tok tb = [0, 1, no_token]
    | _ \<Rightarrow> False"
    by code_simp
  then show ?thesis by (auto split: outcome.splits)
qed

end
