(* ===== verification/Delims.thy ===== *)
theory Delims
  imports LexerTotal
begin

text \<open>
  \<open>match_delimiters\<close> of \<^verbatim>\<open>crates/hd_syntax/src/lexer.rs\<close> against the grammar of balanced
  delimiters: it reports nothing exactly for the token sequences that grammar derives, unless an item
  at column 0 starts inside brackets.
\<close>

section \<open>Balanced sequences\<close>

inductive balanced :: "token_kind list \<Rightarrow> bool" where
  none: "balanced []"
| other: "\<not> is_open_delimiter k \<Longrightarrow> \<not> is_close_delimiter k \<Longrightarrow> balanced ks \<Longrightarrow> balanced (k # ks)"
| pair: "delims_match opener closer \<Longrightarrow> balanced xs \<Longrightarrow> balanced ys \<Longrightarrow> balanced (opener # xs @ closer # ys)"

text \<open>The stack of openers over a sequence; \<open>None\<close> when a closer does not match.\<close>

definition nest1 :: "token_kind list \<Rightarrow> token_kind \<Rightarrow> token_kind list option" where
  "nest1 st k =
     (if is_open_delimiter k then Some (k # st)
      else if is_close_delimiter k then
        (if st \<noteq> [] \<and> delims_match (hd st) k then Some (tl st) else None)
      else Some st)"

fun nest :: "token_kind list \<Rightarrow> token_kind list \<Rightarrow> token_kind list option" where
  "nest st [] = Some st"
| "nest st (k # ks) = (case nest1 st k of None \<Rightarrow> None | Some st \<Rightarrow> nest st ks)"

lemma delims_match_kinds:
  "delims_match x y \<Longrightarrow> is_open_delimiter x \<and> is_close_delimiter y \<and> \<not> is_open_delimiter y"
  by (auto simp: delims_match_def is_open_delimiter_def is_close_delimiter_def)

lemma nest_balanced: "balanced ks \<Longrightarrow> nest st (ks @ rest) = nest st rest"
proof (induction ks arbitrary: st rest rule: balanced.induct)
  case (other k ks)
  then show ?case by (simp add: nest1_def)
next
  case (pair x y xs ys)
  then show ?case using delims_match_kinds [OF pair(1)] by (simp add: nest1_def)
qed simp

lemma balanced_append: "balanced xs \<Longrightarrow> balanced ys \<Longrightarrow> balanced (xs @ ys)"
  by (induction xs rule: balanced.induct) (auto intro: balanced.intros)

text \<open>A sequence that closes the openers of a stack, the innermost first.\<close>

inductive closes_all :: "token_kind list \<Rightarrow> token_kind list \<Rightarrow> bool" where
  last: "balanced ks \<Longrightarrow> closes_all [] ks"
| more: "balanced xs \<Longrightarrow> delims_match opener k \<Longrightarrow> closes_all st ys \<Longrightarrow> closes_all (opener # st) (xs @ k # ys)"

inductive_cases closes_all_ConsE: "closes_all (opener # st) ks"
inductive_cases closes_all_NilE: "closes_all [] ks"

lemma closes_all_prepend: "closes_all st ks \<Longrightarrow> balanced ws \<Longrightarrow> closes_all st (ws @ ks)"
proof (induction arbitrary: ws rule: closes_all.induct)
  case (last ks)
  then show ?case by (intro closes_all.last balanced_append)
next
  case (more xs opener k st ys)
  from closes_all.more [OF balanced_append [OF more.prems more.hyps(1)] more.hyps(2,3)] show ?case by simp
qed

lemma nest_closes_all: "nest st ks = Some [] \<Longrightarrow> closes_all st ks"
proof (induction ks arbitrary: st)
  case Nil
  then show ?case by (auto intro: closes_all.last balanced.none)
next
  case (Cons k ks)
  from Cons.prems obtain st' where st': "nest1 st k = Some st'" "nest st' ks = Some []"
    by (auto split: option.splits)
  from Cons.IH [OF st'(2)] have c: "closes_all st' ks" .
  consider (opener) "is_open_delimiter k" | (closer) "\<not> is_open_delimiter k" "is_close_delimiter k"
    | (neither) "\<not> is_open_delimiter k" "\<not> is_close_delimiter k" by blast
  then show ?case
  proof cases
    case opener
    with st' c have "closes_all (k # st) ks" by (simp add: nest1_def)
    then obtain xs y ys where *: "ks = xs @ y # ys" "balanced xs" "delims_match k y" "closes_all st ys"
      by (rule closes_all_ConsE)
    from closes_all_prepend [OF *(4) balanced.pair [OF *(3,2) balanced.none]] *(1) show ?thesis by simp
  next
    case closer
    with st' c obtain x where "st = x # st'" "delims_match x k" by (cases st) (auto simp: nest1_def split: if_splits)
    with closes_all.more [OF balanced.none _ c] show ?thesis by fastforce
  next
    case neither
    with st' c have "closes_all st ks" by (simp add: nest1_def)
    from closes_all_prepend [OF this balanced.other [OF neither balanced.none]] show ?thesis by simp
  qed
qed

lemma balanced_nest: "balanced ks \<longleftrightarrow> nest [] ks = Some []"
  using nest_balanced [of ks "[]" "[]"] nest_closes_all [of "[]" ks] by (auto elim: closes_all_NilE)

section \<open>The matcher\<close>

lemma unclosed_diags_length: "unclosed_diags b tb st = Some ds \<Longrightarrow> length ds = length st"
  by (induction st arbitrary: ds) (auto split: bind_splits)

definition grows :: "delim_state \<Rightarrow> delim_state \<Rightarrow> token_kind list option \<Rightarrow> bool" where
  "grows d d' r \<longleftrightarrow>
     (\<exists>ds. dl_diags d' = dl_diags d @ ds) \<and> (\<exists>rs. dl_resync d' = dl_resync d @ rs) \<and>
     (dl_diags d' = dl_diags d \<longleftrightarrow> dl_resync d' = dl_resync d \<and> r \<noteq> None) \<and>
     (dl_resync d' = dl_resync d \<longrightarrow> r \<noteq> None \<longrightarrow> r = Some (map fst (dl_stack d')))"

lemma match_at_grows:
  assumes "match_at b tb i d = Some d'"
  shows "grows d d' (nest1 (map fst (dl_stack d)) (tk_kind tb ! i))"
proof -
  from assms obtain m where m: "resync_at b tb i d = Some m"
    and r: "match_at b tb i d = (let kind = tk_kind tb ! i in
        if is_open_delimiter kind then Some (m\<lparr>dl_stack := (kind, i) # dl_stack m\<rparr>)
        else if is_close_delimiter kind then
          (if dl_stack m \<noteq> [] \<and> delims_match (fst (hd (dl_stack m))) kind then Some (m\<lparr>dl_stack := tl (dl_stack m)\<rparr>)
           else do {
             closer \<leftarrow> token_text tb i b;
             Some (m\<lparr>dl_stack := tl (dl_stack m),
                     dl_diags := dl_diags m @ [(UnmatchedDelimiter, unat (tk_start tb ! i), unat (tk_end tb ! i),
                                                UnexpectedText closer)]\<rparr>) })
        else Some m)"
    by (auto simp: match_at_def split: bind_splits)
  show ?thesis
  proof (cases "dl_stack d \<noteq> [] \<and> starts_item_at_column_zero tb i")
    case True
    with m obtain ds where "unclosed_diags b tb (rev (dl_stack d)) = Some ds"
      "m = \<lparr>dl_stack = [], dl_resync = dl_resync d @ [to_u32 i], dl_diags = dl_diags d @ ds\<rparr>"
      by (auto simp: resync_at_def)
    moreover from this True have "ds \<noteq> []" using unclosed_diags_length by fastforce
    ultimately show ?thesis using assms r by (auto simp: grows_def Let_def split: if_splits bind_splits)
  next
    case False
    with m have "m = d" by (auto simp: resync_at_def split: if_splits)
    with assms r show ?thesis
      by (cases "dl_stack d") (auto simp: grows_def nest1_def Let_def split: if_splits bind_splits)
  qed
qed

lemma match_all_grows:
  "match_all b tb is d = Some d' \<Longrightarrow> grows d d' (nest (map fst (dl_stack d)) (map ((!) (tk_kind tb)) is))"
proof (induction "is" arbitrary: d)
  case Nil
  then show ?case by (simp add: grows_def)
next
  case (Cons i "is")
  from Cons.prems obtain m where m: "match_at b tb i d = Some m" "match_all b tb is m = Some d'"
    by (auto split: bind_splits)
  note g = match_at_grows [OF m(1), unfolded grows_def] and h = Cons.IH [OF m(2), unfolded grows_def]
  from g h obtain ds1 rs1 ds2 rs2 where e: "dl_diags m = dl_diags d @ ds1" "dl_resync m = dl_resync d @ rs1"
    "dl_diags d' = dl_diags m @ ds2" "dl_resync d' = dl_resync m @ rs2" by blast
  show ?case
  proof (cases "nest1 (map fst (dl_stack d)) (tk_kind tb ! i)")
    case None
    with g e show ?thesis by (auto simp: grows_def)
  next
    case (Some st)
    show ?thesis
    proof (cases "rs1 = []")
      case True
      with g e Some have "ds1 = []" "st = map fst (dl_stack m)" by auto
      with h e Some True show ?thesis by (simp add: grows_def)
    next
      case False
      with g e Some have "ds1 \<noteq> []" by auto
      with e False Some show ?thesis by (simp add: grows_def)
    qed
  qed
qed

text \<open>C34. Delimiters are matched exactly: the matcher adds no diagnostic if and only if the kinds of the tokens
  form a balanced sequence (every closer matching the most recent open opener, none left open) and no item
  started at column 0 inside brackets, where the tokens are marked for resynchronisation.\<close>

theorem match_delimiters_balanced:
  assumes "match_delimiters b l = Some l'"
  shows "lx_diags l' = lx_diags l \<longleftrightarrow>
    balanced (tk_kind (lx_tokens l)) \<and> resync (lx_tokens l') = resync (lx_tokens l)"
proof -
  let ?tb = "lx_tokens l"
  from assms obtain d ds where
    d: "match_all b ?tb [0..<length (tk_kind ?tb)] \<lparr>dl_stack = [], dl_resync = [], dl_diags = []\<rparr> = Some d"
    and ds: "unclosed_diags b ?tb (rev (dl_stack d)) = Some ds"
    and l': "l' = l\<lparr>lx_tokens := ?tb\<lparr>resync := resync ?tb @ dl_resync d\<rparr>, lx_diags := lx_diags l @ dl_diags d @ ds\<rparr>"
    by (auto simp: match_delimiters_def Let_def split: bind_splits)
  have "map ((!) (tk_kind ?tb)) [0..<length (tk_kind ?tb)] = tk_kind ?tb" by (rule map_nth)
  with match_all_grows [OF d] have "dl_diags d = [] \<longleftrightarrow> dl_resync d = [] \<and> nest [] (tk_kind ?tb) \<noteq> None"
    "dl_resync d = [] \<Longrightarrow> nest [] (tk_kind ?tb) \<noteq> None \<Longrightarrow> nest [] (tk_kind ?tb) = Some (map fst (dl_stack d))"
    by (simp_all add: grows_def)
  moreover have "ds = [] \<longleftrightarrow> dl_stack d = []" using unclosed_diags_length [OF ds] by auto
  ultimately show ?thesis using l' by (auto simp: balanced_nest)
qed

definition sample_delims :: lexer where
  "sample_delims = (lexer_new [])\<lparr>lx_tokens :=
     empty_tokens\<lparr>tk_kind := [TDelim LParen, TDelim RBracket], tk_start := [0, 1], tk_end := [1, 2]\<rparr>\<rparr>"

theorem match_delimiters_balanced_witness:
  "\<exists>l'. match_delimiters [40, 93] sample_delims = Some l' \<and> lx_diags l' \<noteq> lx_diags sample_delims"
proof -
  have "match_delimiters [40, 93] sample_delims \<noteq> None" by code_simp
  then obtain l' where l': "match_delimiters [40, 93] sample_delims = Some l'" by blast
  have "\<not> balanced (tk_kind (lx_tokens sample_delims))"
    by (simp add: sample_delims_def balanced_nest nest1_def delims_match_def is_open_delimiter_def is_close_delimiter_def)
  with match_delimiters_balanced [OF l'] l' show ?thesis by auto
qed

end
