(* ===== verification/Layout.thy ===== *)
theory Layout
  imports Delims
begin

text \<open>
  \<^verbatim>\<open>crates/hd_syntax/src/layout.rs\<close>: the layout cursor, through which the parser pulls tokens and
  which inserts \<open>NEWLINE\<close>, \<open>INDENT\<close> and \<open>DEDENT\<close>. The vectors \<open>blocks\<close> and \<open>inline\<close> are lists with
  the innermost entry first. Every operation returns an option: \<open>None\<close> is a panic (an empty stack of
  blocks, an index past a vector, a slice inside a character, an overflowing column in a message). A
  message's text is data.
\<close>

datatype layout = Newline | Indent | Dedent | SuiteEnd

datatype cursor_item = CToken u32 | CLayout layout u32 | CEof

datatype suite_kind = SameLine | Indented | Missing

record block =
  bk_indent :: u16
  bk_depth :: u16
  bk_header :: u16
  bk_closure :: bool
  bk_in_brackets :: bool
  bk_logical :: u16
  bk_piped :: bool
  bk_stray :: bool

datatype (plugins only: code size) layout_code = UnexpectedIndentation | LayoutSyntaxError | InvalidDedent

datatype shown_token = EndOfFile | Shown str

datatype (plugins only: code size) layout_message =
    BodyNotDeeper | LineEndingBefore shown_token | ClosureBodyLine nat nat | NotActiveLevel nat | CommaOrCloser shown_token
  | SuiteStillOpen bool | NoDotAfterPipe

type_synonym layout_error = "layout_code \<times> nat \<times> layout_message"

record cursor =
  cu_pos :: nat
  cu_depth :: u16
  cu_blocks :: "block list"
  cu_inline :: "u16 list"
  cu_pending :: "layout list"
  cu_prepared :: "nat option"
  cu_opening :: "bool option"
  cu_eof :: bool
  cu_errors :: "layout_error list"

definition root_block :: block where
  "root_block = \<lparr>bk_indent = 0, bk_depth = 0, bk_header = 0, bk_closure = False, bk_in_brackets = False,
     bk_logical = 0, bk_piped = False, bk_stray = False\<rparr>"

text \<open>\<open>prepared\<close> starts at \<open>usize::MAX\<close>, which is no position: \<open>None\<close>.\<close>

definition cursor_new :: cursor where
  "cursor_new = \<lparr>cu_pos = 0, cu_depth = 0, cu_blocks = [root_block], cu_inline = [], cu_pending = [],
     cu_prepared = None, cu_opening = None, cu_eof = False, cu_errors = []\<rparr>"

section \<open>Lookups\<close>

text \<open>\<open>describe\<close>: the first line of the token, at most 24 characters of it.\<close>

fun take_chars :: "nat \<Rightarrow> str \<Rightarrow> str" where
  "take_chars 0 s = []"
| "take_chars (Suc n) s = (case s of [] \<Rightarrow> [] | a # _ \<Rightarrow> take (char_width a) s @ take_chars n (drop (char_width a) s))"

definition first_line :: "str \<Rightarrow> str" where
  "first_line t =
     (let l = takeWhile (\<lambda>c. c \<noteq> 10) t
      in if length l < length t \<and> l \<noteq> [] \<and> List.last l = 13 then butlast l else l)"

definition describe_token :: "token_buf \<Rightarrow> nat \<Rightarrow> str \<Rightarrow> shown_token option" where
  "describe_token tb index b =
     (if length (tk_kind tb) \<le> index then Some EndOfFile
      else map_option (\<lambda>t. let shown = take_chars 24 (first_line t)
             in Shown (if length shown < length t then shown @ [46, 46, 46] else shown)) (token_text tb index b))"

definition column :: "token_buf \<Rightarrow> nat \<Rightarrow> u16 option" where
  "column tb token = do { s \<leftarrow> get_at (tk_start tb) token; get_at (line_indent tb) (line_of tb s) }"

definition line_first_at :: "token_buf \<Rightarrow> nat \<Rightarrow> bool" where
  "line_first_at tb token = is_line_first tb (if token < 2 ^ 32 then word_of_nat token else 0)"

lemma line_first_at_code [code]:
  "line_first_at tb token = is_line_first tb (if int token < 2 ^ 32 then word_of_int (int token) else 0)"
  by (simp add: line_first_at_def)

text \<open>A header on a line that continues a string: its first line.\<close>

fun header_line :: "token_buf \<Rightarrow> nat \<Rightarrow> nat option" where
  "header_line tb 0 = Some 0"
| "header_line tb (Suc line) =
     (case get_at (line_tok tb) (Suc line) of
        None \<Rightarrow> None
      | Some t \<Rightarrow> if t = no_token then header_line tb line else Some (Suc line))"

definition header_column :: "token_buf \<Rightarrow> cursor \<Rightarrow> u16 option" where
  "header_column tb c =
     (let offset = (case get_at (tk_start tb) (cu_pos c - 1) of None \<Rightarrow> 0 | Some s \<Rightarrow> s)
      in do { line \<leftarrow> header_line tb (line_of tb offset); get_at (line_indent tb) line })"

text \<open>\<open>value + 1\<close> of a column, in a message.\<close>

definition plus_one :: "u16 \<Rightarrow> nat option" where
  "plus_one v = (if v = - 1 then None else Some (unat v + 1))"

section \<open>The start of a line\<close>

text \<open>\<open>continues\<close>: whether the line goes on with the last, and the error it reports then.\<close>

definition continues :: "token_buf \<Rightarrow> cursor \<Rightarrow> token_kind \<Rightarrow> u16 \<Rightarrow> block \<Rightarrow> (bool \<times> layout_error list) option" where
  "continues tb c kind col block =
     (let dot = (kind = TPunct Dot \<and> (case get_at (tk_kind tb) (cu_pos c + 1) of Some k \<Rightarrow> k = TIdent \<or> k = TRawIdent | None \<Rightarrow> False))
      in if \<not> (dot \<or> kind = TCompound PipeGt) \<or> col \<le> bk_logical block then Some (False, [])
         else if cu_pos c = 0 then None
         else
           let previous = tk_kind tb ! (cu_pos c - 1)
           in if previous = TPunct Colon \<or> previous = TCompound FatArrow then Some (False, [])
              else if cu_inline c \<noteq> [] \<and> hd (cu_inline c) = cu_depth c
                   then Some (True, [(LayoutSyntaxError, cu_pos c, SuiteStillOpen dot)])
              else if dot \<and> bk_piped block then Some (True, [(LayoutSyntaxError, cu_pos c, NoDotAfterPipe)])
              else Some (True, []))"

text \<open>The error of a line between a nested suite's header and body.\<close>

definition between_error :: "block \<Rightarrow> u16 \<Rightarrow> nat \<Rightarrow> layout_error option" where
  "between_error block col p =
     (if bk_closure block then do {
        body \<leftarrow> plus_one (bk_indent block);
        found \<leftarrow> plus_one col;
        Some (LayoutSyntaxError, p, ClosureBodyLine body found) }
      else map_option (\<lambda>v. (InvalidDedent, p, NotActiveLevel v)) (plus_one col))"

text \<open>The errors of leaving \<open>block\<close> for a line at \<open>col\<close>: before and after its \<open>DEDENT\<close>.\<close>

definition dedent_errors :: "token_buf \<Rightarrow> str \<Rightarrow> cursor \<Rightarrow> token_kind \<Rightarrow> u16 \<Rightarrow> block \<Rightarrow> layout_error list option" where
  "dedent_errors tb b c kind col block = do {
     between \<leftarrow> (if bk_in_brackets block \<and> bk_header block < col \<and> \<not> bk_stray block
                 then map_option (\<lambda>e. [e]) (between_error block col (cu_pos c)) else Some []);
     after \<leftarrow> (if bk_closure block \<and> bk_in_brackets block \<and> cu_depth c = bk_depth block \<and>
                  \<not> (closes kind \<or> kind = TPunct Comma)
               then map_option (\<lambda>f. [(LayoutSyntaxError, cu_pos c, CommaOrCloser f)]) (describe_token tb (cu_pos c) b)
               else Some []);
     Some (between @ after) }"

text \<open>The loop of \<open>line_start\<close>, over the blocks, innermost first.\<close>

fun line_loop :: "token_buf \<Rightarrow> str \<Rightarrow> token_kind \<Rightarrow> u16 \<Rightarrow> bool \<Rightarrow> block list \<Rightarrow> cursor \<Rightarrow> cursor option" where
  "line_loop tb b kind col newline [] c = None"
| "line_loop tb b kind col newline (block # parents) c =
     (let newlines = (if newline then [] else [Newline]) in
      if bk_depth block < cu_depth c then Some (c\<lparr>cu_blocks := block # parents\<rparr>)
      else if bk_indent block \<le> col \<or> parents = [] then
        (case continues tb c kind col block of
           None \<Rightarrow> None
         | Some (goes_on, errors) \<Rightarrow>
             if goes_on then Some (c\<lparr>cu_blocks := block # parents, cu_errors := cu_errors c @ errors\<rparr>)
             else if bk_indent block < col then
               Some (c\<lparr>cu_pending := cu_pending c @ newlines @ [Indent],
                       cu_blocks := \<lparr>bk_indent = col, bk_depth = cu_depth c, bk_header = bk_indent block, bk_closure = False,
                         bk_in_brackets = False, bk_logical = col, bk_piped = False, bk_stray = True\<rparr> # block # parents\<rparr>)
             else Some (c\<lparr>cu_pending := cu_pending c @ newlines,
                          cu_blocks := block\<lparr>bk_logical := col, bk_piped := False\<rparr> # parents\<rparr>))
      else
        (case dedent_errors tb b c kind col block of
           None \<Rightarrow> None
         | Some errors \<Rightarrow>
             let c = c\<lparr>cu_pending := cu_pending c @ newlines @ [Dedent], cu_errors := cu_errors c @ errors\<rparr>;
                 parent = hd parents
             in if \<not> bk_in_brackets block \<and> bk_depth parent = cu_depth c \<and> bk_indent parent < col then
                  map_option (\<lambda>v. c\<lparr>cu_errors := cu_errors c @ [(InvalidDedent, cu_pos c, NotActiveLevel v)],
                                    cu_blocks := parent\<lparr>bk_logical := col, bk_piped := False\<rparr> # tl parents\<rparr>) (plus_one col)
                else line_loop tb b kind col True parents c))"

definition line_start_layout :: "token_buf \<Rightarrow> str \<Rightarrow> token_kind \<Rightarrow> cursor \<Rightarrow> cursor option" where
  "line_start_layout tb b kind c = do {
     let c = (if 0 < cu_depth c \<and> is_resync tb (cu_pos c) then c\<lparr>cu_depth := 0\<rparr> else c);
     col \<leftarrow> column tb (cu_pos c);
     line_loop tb b kind col False (cu_blocks c) c }"

section \<open>Closers\<close>

fun close_loop :: "token_buf \<Rightarrow> str \<Rightarrow> bool \<Rightarrow> block list \<Rightarrow> cursor \<Rightarrow> cursor option" where
  "close_loop tb b newline [] c = Some (c\<lparr>cu_blocks := []\<rparr>)"
| "close_loop tb b newline (block # parents) c =
     (if parents = [] \<or> bk_depth block \<noteq> cu_depth c \<or> \<not> bk_in_brackets block
      then Some (c\<lparr>cu_blocks := block # parents\<rparr>)
      else
        (case (if bk_closure block \<and> cu_prepared c \<noteq> Some (cu_pos c)
               then map_option (\<lambda>f. [(LayoutSyntaxError, cu_pos c, LineEndingBefore f)]) (describe_token tb (cu_pos c) b)
               else Some []) of
           None \<Rightarrow> None
         | Some errors \<Rightarrow>
             close_loop tb b True parents
               (c\<lparr>cu_pending := cu_pending c @ (if newline then [] else [Newline]) @ [Dedent],
                  cu_errors := cu_errors c @ errors\<rparr>)))"

definition close_nested_at_closer :: "token_buf \<Rightarrow> str \<Rightarrow> cursor \<Rightarrow> cursor option" where
  "close_nested_at_closer tb b c = close_loop tb b False (cu_blocks c) c"

section \<open>The operations\<close>

definition prepare :: "token_buf \<Rightarrow> str \<Rightarrow> cursor \<Rightarrow> cursor option" where
  "prepare tb b c =
     (if cu_pending c \<noteq> [] then Some c
      else if length (tk_kind tb) \<le> cu_pos c then
        Some (if cu_eof c then c
              else c\<lparr>cu_eof := True,
                     cu_pending := (if 0 < cu_pos c then [Newline] else []) @ replicate (length (cu_blocks c) - 1) Dedent,
                     cu_blocks := drop (length (cu_blocks c) - 1) (cu_blocks c)\<rparr>)
      else
        let kind = tk_kind tb ! cu_pos c
        in case (if cu_prepared c \<noteq> Some (cu_pos c) \<and> line_first_at tb (cu_pos c) \<and> 0 < cu_pos c
                 then line_start_layout tb b kind (c\<lparr>cu_prepared := Some (cu_pos c)\<rparr>) else Some c) of
             None \<Rightarrow> None
           | Some c \<Rightarrow>
               if cu_pending c \<noteq> [] then Some c
               else if closes kind \<or> kind = TStrMid then close_nested_at_closer tb b c
               else Some c)"

definition peek :: "token_buf \<Rightarrow> str \<Rightarrow> cursor \<Rightarrow> (cursor_item \<times> cursor) option" where
  "peek tb b c =
     map_option (\<lambda>c. let at = to_u32 (cu_pos c)
       in ((case cu_pending c of
              kind # _ \<Rightarrow> CLayout kind at
            | [] \<Rightarrow> if cu_pos c < length (tk_kind tb) then CToken at else CEof), c))
       (prepare tb b c)"

definition queued :: "cursor \<Rightarrow> layout option" where
  "queued c = (case cu_pending c of [] \<Rightarrow> None | kind # _ \<Rightarrow> Some kind)"

definition pending_layout :: "token_buf \<Rightarrow> str \<Rightarrow> cursor \<Rightarrow> (layout list \<times> cursor) option" where
  "pending_layout tb b c = map_option (\<lambda>c. (cu_pending c, c)) (prepare tb b c)"

definition mark_piped :: "token_kind \<Rightarrow> cursor \<Rightarrow> cursor" where
  "mark_piped kind c =
     (case cu_blocks c of
        block # parents \<Rightarrow>
          if kind = TCompound PipeGt \<and> bk_depth block = cu_depth c
          then c\<lparr>cu_blocks := block\<lparr>bk_piped := True\<rparr> # parents\<rparr> else c
      | [] \<Rightarrow> c)"

definition bump :: "token_buf \<Rightarrow> str \<Rightarrow> cursor \<Rightarrow> cursor option" where
  "bump tb b c =
     map_option (\<lambda>c.
       case cu_pending c of
         _ # rest \<Rightarrow> c\<lparr>cu_pending := rest\<rparr>
       | [] \<Rightarrow>
           if length (tk_kind tb) \<le> cu_pos c then c
           else
             let kind = tk_kind tb ! cu_pos c;
                 c = (if opens kind then c\<lparr>cu_depth := (if cu_depth c = - 1 then - 1 else cu_depth c + 1)\<rparr>
                      else if closes kind then c\<lparr>cu_depth := (if cu_depth c = 0 then 0 else cu_depth c - 1)\<rparr>
                      else c);
                 c = mark_piped kind c
             in c\<lparr>cu_pos := cu_pos c + 1\<rparr>)
       (prepare tb b c)"

definition force_open :: "token_buf \<Rightarrow> u16 \<Rightarrow> cursor \<Rightarrow> cursor option" where
  "force_open tb header c = do {
     let closure = (case cu_opening c of None \<Rightarrow> False | Some v \<Rightarrow> v);
     indent \<leftarrow> column tb (cu_pos c);
     let in_brackets = (case cu_blocks c of [] \<Rightarrow> False | parent # _ \<Rightarrow> bk_depth parent < cu_depth c);
     Some (c\<lparr>cu_opening := None,
             cu_blocks := \<lparr>bk_indent = indent, bk_depth = cu_depth c, bk_header = header, bk_closure = closure,
               bk_in_brackets = in_brackets, bk_logical = indent, bk_piped = False, bk_stray = False\<rparr> # cu_blocks c,
             cu_prepared := Some (cu_pos c),
             cu_pending := cu_pending c @ [Newline, Indent]\<rparr>) }"

definition open_suite :: "token_buf \<Rightarrow> bool \<Rightarrow> cursor \<Rightarrow> (suite_kind \<times> cursor) option" where
  "open_suite tb closure c =
     (if is_resync tb (cu_pos c) then Some (Missing, c)
      else if cu_pos c < length (tk_kind tb) \<and> \<not> line_first_at tb (cu_pos c)
      then Some (SameLine, c\<lparr>cu_inline := cu_depth c # cu_inline c\<rparr>)
      else
        (case cu_blocks c of
           [] \<Rightarrow> None
         | block # _ \<Rightarrow> do {
             header \<leftarrow> header_column tb c;
             if length (tk_kind tb) \<le> cu_pos c then Some (Missing, c)
             else do {
               col \<leftarrow> column tb (cu_pos c);
               let kind = tk_kind tb ! cu_pos c;
               if col \<le> max header (bk_logical block) then
                 (if bk_depth block < cu_depth c \<and> \<not> closes kind \<and> kind \<noteq> TPunct Comma then
                    map_option (Pair Indented)
                      (force_open tb header (c\<lparr>cu_errors := cu_errors c @ [(UnexpectedIndentation, cu_pos c, BodyNotDeeper)],
                                               cu_opening := Some closure\<rparr>))
                  else Some (Missing, c))
               else map_option (Pair Indented) (force_open tb header (c\<lparr>cu_opening := Some closure\<rparr>)) } }))"

definition close_inline :: "cursor \<Rightarrow> cursor" where
  "close_inline c = c\<lparr>cu_inline := tl (cu_inline c)\<rparr>"

definition open_arm :: "token_buf \<Rightarrow> cursor \<Rightarrow> (suite_kind \<times> cursor) option" where
  "open_arm tb c =
     map_option (\<lambda>(kind, c). (kind, if kind = SameLine then close_inline c else c)) (open_suite tb False c)"

end
