(* ===== verification/LayoutProps.thy ===== *)
theory LayoutProps
  imports Layout
begin

text \<open>
  What the layout cursor promises to any parser: the \<open>INDENT\<close>s and \<open>DEDENT\<close>s it delivers are
  balanced, every token is delivered once and in order, it reaches the end in a bounded number of
  steps, it does not panic on the tokens of a lexed source, and outside brackets it is the
  offside rule of the language.
\<close>

section \<open>Levels\<close>

text \<open>The indentation depth after a sequence of layout tokens; \<open>None\<close> when a \<open>DEDENT\<close> has no \<open>INDENT\<close>.\<close>

fun level_from :: "nat \<Rightarrow> layout list \<Rightarrow> nat option" where
  "level_from n [] = Some n"
| "level_from n (Indent # ls) = level_from (Suc n) ls"
| "level_from n (Dedent # ls) = (case n of 0 \<Rightarrow> None | Suc m \<Rightarrow> level_from m ls)"
| "level_from n (Newline # ls) = level_from n ls"
| "level_from n (SuiteEnd # ls) = level_from n ls"

lemma level_from_append:
  "level_from n (xs @ ys) = (case level_from n xs of None \<Rightarrow> None | Some m \<Rightarrow> level_from m ys)"
  by (induction n xs rule: level_from.induct) (auto split: nat.splits)

lemma level_from_dedents: "level_from (n + k) (replicate k Dedent) = Some n"
  by (induction k) simp_all

text \<open>
  What an operation of the cursor does to the queue and the stack of blocks: it appends to the queue
  exactly the \<open>INDENT\<close>s and \<open>DEDENT\<close>s that account for the blocks it opens and closes.
\<close>

definition accounts :: "cursor \<Rightarrow> cursor \<Rightarrow> bool" where
  "accounts c c' \<longleftrightarrow>
     (\<exists>new. cu_pending c' = cu_pending c @ new \<and>
        level_from (length (cu_blocks c) - 1) new = Some (length (cu_blocks c') - 1)) \<and>
     cu_blocks c' \<noteq> []"

lemma accounts_trans: "accounts c d \<Longrightarrow> accounts d e \<Longrightarrow> accounts c e"
  by (auto simp: accounts_def level_from_append)

lemma accounts_refl: "cu_blocks c \<noteq> [] \<Longrightarrow> accounts c c"
  by (simp add: accounts_def)

text \<open>The parts of the cursor the queue's preparation leaves alone.\<close>

definition same_place :: "cursor \<Rightarrow> cursor \<Rightarrow> bool" where
  "same_place c c' \<longleftrightarrow> cu_pos c' = cu_pos c \<and> cu_inline c' = cu_inline c \<and> cu_prepared c' = cu_prepared c \<and>
     cu_opening c' = cu_opening c \<and> cu_eof c' = cu_eof c"

lemma line_loop_accounts:
  "line_loop tb b kind col newline blocks c = Some c' \<Longrightarrow>
   (\<exists>new. cu_pending c' = cu_pending c @ new \<and>
      level_from (length blocks - 1) new = Some (length (cu_blocks c') - 1)) \<and>
   cu_blocks c' \<noteq> [] \<and> same_place c c' \<and> cu_depth c' = cu_depth c"
proof (induction blocks arbitrary: newline c)
  case Nil
  then show ?case by simp
next
  case (Cons block parents)
  let ?nl = "if newline then [] else [Newline]"
  have nl: "level_from n (?nl @ ls) = level_from n ls" for n ls by simp
  show ?case
  proof (cases "bk_depth block < cu_depth c \<or> bk_indent block \<le> col \<or> parents = []")
    case True
    with Cons.prems show ?thesis
      by (auto simp: Let_def same_place_def split: option.splits if_splits prod.splits)
  next
    case False
    then obtain parent rest where p: "parents = parent # rest" by (cases parents) auto
    from False Cons.prems obtain errors where e: "dedent_errors tb b c kind col block = Some errors"
      by (auto simp: Let_def split: option.splits)
    define d where "d = c\<lparr>cu_pending := cu_pending c @ ?nl @ [Dedent], cu_errors := cu_errors c @ errors\<rparr>"
    have d: "cu_pending d = cu_pending c @ ?nl @ [Dedent]" "same_place c d" "cu_depth d = cu_depth c"
      by (simp_all add: d_def same_place_def)
    from Cons.prems False p e consider
        v where "c' = d\<lparr>cu_errors := v, cu_blocks := parent\<lparr>bk_logical := col, bk_piped := False\<rparr> # rest\<rparr>"
      | "line_loop tb b kind col True parents d = Some c'"
      by (auto simp: Let_def d_def split: if_splits)
    then show ?thesis
    proof cases
      case 1
      with d p show ?thesis by (auto simp: same_place_def)
    next
      case 2
      from Cons.IH [OF this] d p show ?thesis by (auto simp: same_place_def)
    qed
  qed
qed

lemma close_loop_accounts:
  "close_loop tb b newline blocks c = Some c' \<Longrightarrow> blocks \<noteq> [] \<Longrightarrow>
   (\<exists>new. cu_pending c' = cu_pending c @ new \<and>
      level_from (length blocks - 1) new = Some (length (cu_blocks c') - 1)) \<and>
   cu_blocks c' \<noteq> [] \<and> same_place c c' \<and> cu_depth c' = cu_depth c"
proof (induction blocks arbitrary: newline c)
  case Nil
  then show ?case by simp
next
  case (Cons block parents)
  let ?nl = "if newline then [] else [Newline]"
  show ?case
  proof (cases "parents = [] \<or> bk_depth block \<noteq> cu_depth c \<or> \<not> bk_in_brackets block")
    case True
    with Cons.prems show ?thesis by (auto simp: same_place_def)
  next
    case False
    with Cons.prems obtain errors where
      "close_loop tb b True parents (c\<lparr>cu_pending := cu_pending c @ ?nl @ [Dedent], cu_errors := cu_errors c @ errors\<rparr>) = Some c'"
      by (auto split: option.splits)
    from Cons.IH [OF this] False show ?thesis
      by (cases parents) (auto simp: same_place_def)
  qed
qed

lemma prepare_accounts:
  assumes "prepare tb b c = Some c'" "cu_blocks c \<noteq> []"
  shows "accounts c c' \<and> cu_pos c' = cu_pos c"
proof (cases "cu_pending c \<noteq> [] \<or> length (tk_kind tb) \<le> cu_pos c")
  case True
  moreover from assms(2) obtain block rest where "cu_blocks c = block # rest" by (cases "cu_blocks c") auto
  ultimately show ?thesis using assms level_from_dedents [of 0 "length (cu_blocks c) - 1"]
    by (auto simp: prepare_def accounts_def split: if_splits)
next
  case False
  let ?kind = "tk_kind tb ! cu_pos c"
  let ?started = "if cu_prepared c \<noteq> Some (cu_pos c) \<and> line_first_at tb (cu_pos c) \<and> 0 < cu_pos c
    then line_start_layout tb b ?kind (c\<lparr>cu_prepared := Some (cu_pos c)\<rparr>) else Some c"
  from False assms(1) obtain d where d: "?started = Some d"
    and c': "(if cu_pending d \<noteq> [] then Some d else if closes ?kind \<or> ?kind = TStrMid then close_nested_at_closer tb b d else Some d) = Some c'"
    by (auto simp: prepare_def Let_def split: option.splits)
  have 1: "accounts c d \<and> cu_pos d = cu_pos c"
  proof (cases "?started = Some c")
    case True
    with d assms(2) show ?thesis by (simp add: accounts_refl)
  next
    case neq: False
    then have "line_start_layout tb b ?kind (c\<lparr>cu_prepared := Some (cu_pos c)\<rparr>) = Some d" using d by (auto split: if_splits)
    then obtain e col where "line_loop tb b ?kind col False (cu_blocks c) e = Some d" "cu_pending e = cu_pending c" "cu_pos e = cu_pos c"
      by (auto simp: line_start_layout_def Let_def split: bind_splits if_splits)
    from line_loop_accounts [OF this(1)] this(2,3) show ?thesis by (auto simp: accounts_def same_place_def)
  qed
  have 2: "accounts d c' \<and> cu_pos c' = cu_pos d"
  proof (cases "cu_pending d = [] \<and> (closes ?kind \<or> ?kind = TStrMid)")
    case True
    with c' close_loop_accounts [of tb b False "cu_blocks d" d c'] 1 show ?thesis
      by (auto simp: close_nested_at_closer_def accounts_def same_place_def)
  next
    case no: False
    with c' 1 show ?thesis by (auto simp: accounts_refl accounts_def split: if_splits)
  qed
  from 1 2 show ?thesis using accounts_trans by auto
qed

text \<open>Preparing again changes nothing: after a closer's suites are closed none is left to close.\<close>

lemma close_loop_settled:
  "close_loop tb b newline blocks c = Some c' \<Longrightarrow>
   close_loop tb b False (cu_blocks c') c' = Some c'"
proof (induction blocks arbitrary: newline c)
  case Nil
  then show ?case by auto
next
  case (Cons block parents)
  show ?case
  proof (cases "parents = [] \<or> bk_depth block \<noteq> cu_depth c \<or> \<not> bk_in_brackets block")
    case True
    with Cons.prems show ?thesis by auto
  next
    case False
    with Cons show ?thesis by (auto split: option.splits)
  qed
qed

lemma line_loop_prepared:
  "line_start_layout tb b kind c = Some d \<Longrightarrow> cu_prepared d = cu_prepared c \<and> cu_pos d = cu_pos c \<and> cu_eof d = cu_eof c"
  by (auto simp: line_start_layout_def Let_def same_place_def dest!: line_loop_accounts split: bind_splits if_splits)

lemma prepare_idem:
  assumes "prepare tb b c = Some c'"
  shows "prepare tb b c' = Some c'"
proof (cases "cu_pending c' \<noteq> []")
  case True
  then show ?thesis by (simp add: prepare_def)
next
  case empty: False
  show ?thesis
  proof (cases "cu_pending c \<noteq> [] \<or> length (tk_kind tb) \<le> cu_pos c")
    case True
    with assms empty show ?thesis by (auto simp: prepare_def split: if_splits)
  next
    case False
    let ?kind = "tk_kind tb ! cu_pos c"
    let ?starts = "cu_prepared c \<noteq> Some (cu_pos c) \<and> line_first_at tb (cu_pos c) \<and> 0 < cu_pos c"
    from False assms obtain d where
      d: "(if ?starts then line_start_layout tb b ?kind (c\<lparr>cu_prepared := Some (cu_pos c)\<rparr>) else Some c) = Some d"
      and c': "(if cu_pending d \<noteq> [] then Some d else if closes ?kind \<or> ?kind = TStrMid then close_nested_at_closer tb b d else Some d) = Some c'"
      by (auto simp: prepare_def Let_def split: option.splits)
    have pos: "cu_pos d = cu_pos c" and nostart: "\<not> (cu_prepared d \<noteq> Some (cu_pos d) \<and> line_first_at tb (cu_pos d) \<and> 0 < cu_pos d)"
      using d line_loop_prepared [of tb b ?kind "c\<lparr>cu_prepared := Some (cu_pos c)\<rparr>" d] by (auto split: if_splits)
    show ?thesis
    proof (cases "cu_pending d = [] \<and> (closes ?kind \<or> ?kind = TStrMid)")
      case True
      with c' have cl: "close_loop tb b False (cu_blocks d) d = Some c'" by (simp add: close_nested_at_closer_def)
      have same: "cu_pos c' = cu_pos d" "cu_prepared c' = cu_prepared d"
        using close_loop_accounts [OF cl] cl by (cases "cu_blocks d"; auto simp: same_place_def)+
      with cl close_loop_settled [OF cl] nostart pos empty False True show ?thesis
        by (auto simp: prepare_def close_nested_at_closer_def Let_def)
    next
      case no: False
      with c' empty have "c' = d" by (auto split: if_splits)
      with nostart pos empty False no show ?thesis by (auto simp: prepare_def Let_def)
    qed
  qed
qed

section \<open>Any parser\<close>

text \<open>What a parser does to the cursor, and what it is given: a \<open>bump\<close> delivers what \<open>peek\<close> shows.\<close>

datatype cursor_op = DoBump | DoPeek | DoOpenSuite bool | DoOpenArm | DoCloseInline

definition deliver :: "token_buf \<Rightarrow> str \<Rightarrow> cursor \<Rightarrow> (cursor_item list \<times> cursor) option" where
  "deliver tb b c = do {
     (item, c) \<leftarrow> peek tb b c;
     c \<leftarrow> bump tb b c;
     Some (if item = CEof then [] else [item], c) }"

definition apply_op :: "token_buf \<Rightarrow> str \<Rightarrow> cursor_op \<Rightarrow> cursor \<Rightarrow> (cursor_item list \<times> cursor) option" where
  "apply_op tb b op c =
     (case op of
        DoBump \<Rightarrow> deliver tb b c
      | DoPeek \<Rightarrow> map_option (\<lambda>(item, c). ([], c)) (peek tb b c)
      | DoOpenSuite closure \<Rightarrow> map_option (\<lambda>(kind, c). ([], c)) (open_suite tb closure c)
      | DoOpenArm \<Rightarrow> map_option (\<lambda>(kind, c). ([], c)) (open_arm tb c)
      | DoCloseInline \<Rightarrow> Some ([], close_inline c))"

fun run_ops :: "token_buf \<Rightarrow> str \<Rightarrow> cursor_op list \<Rightarrow> cursor \<Rightarrow> (cursor_item list \<times> cursor) option" where
  "run_ops tb b [] c = Some ([], c)"
| "run_ops tb b (op # ops) c = do {
     (xs, c) \<leftarrow> apply_op tb b op c;
     (ys, c) \<leftarrow> run_ops tb b ops c;
     Some (xs @ ys, c) }"

definition layouts :: "cursor_item list \<Rightarrow> layout list" where
  "layouts items = concat (map (\<lambda>i. case i of CLayout k _ \<Rightarrow> [k] | _ \<Rightarrow> []) items)"

definition tokens_of :: "cursor_item list \<Rightarrow> u32 list" where
  "tokens_of items = concat (map (\<lambda>i. case i of CToken t \<Rightarrow> [t] | _ \<Rightarrow> []) items)"

lemma items_append [simp]:
  "layouts (xs @ ys) = layouts xs @ layouts ys" "tokens_of (xs @ ys) = tokens_of xs @ tokens_of ys"
  "layouts [] = []" "tokens_of [] = []"
  by (simp_all add: layouts_def tokens_of_def)

text \<open>The cursor between operations: at the end only the root block is left.\<close>

definition cursor_ok :: "token_buf \<Rightarrow> cursor \<Rightarrow> bool" where
  "cursor_ok tb c \<longleftrightarrow>
     cu_blocks c \<noteq> [] \<and> cu_pos c \<le> length (tk_kind tb) \<and>
     (cu_eof c \<longrightarrow> cu_pos c = length (tk_kind tb) \<and> length (cu_blocks c) = 1)"

text \<open>What an operation delivers, with what is left in the queue, accounts for the blocks.\<close>

definition delivers :: "cursor \<Rightarrow> cursor_item list \<Rightarrow> cursor \<Rightarrow> bool" where
  "delivers c items c' \<longleftrightarrow>
     (\<exists>new. layouts items @ cu_pending c' = cu_pending c @ new \<and>
        level_from (length (cu_blocks c) - 1) new = Some (length (cu_blocks c') - 1)) \<and>
     tokens_of items = map to_u32 [cu_pos c..<cu_pos c'] \<and> cu_pos c \<le> cu_pos c'"

lemma delivers_trans: "delivers c xs d \<Longrightarrow> delivers d ys e \<Longrightarrow> delivers c (xs @ ys) e"
proof -
  assume 1: "delivers c xs d" and 2: "delivers d ys e"
  from 1 obtain m where m: "layouts xs @ cu_pending d = cu_pending c @ m"
    "level_from (length (cu_blocks c) - 1) m = Some (length (cu_blocks d) - 1)" by (auto simp: delivers_def)
  from 2 obtain n where n: "layouts ys @ cu_pending e = cu_pending d @ n"
    "level_from (length (cu_blocks d) - 1) n = Some (length (cu_blocks e) - 1)" by (auto simp: delivers_def)
  have "layouts (xs @ ys) @ cu_pending e = cu_pending c @ (m @ n)"
    using m(1) n(1) by (metis append_assoc items_append(1))
  moreover have "level_from (length (cu_blocks c) - 1) (m @ n) = Some (length (cu_blocks e) - 1)"
    using m(2) n(2) by (simp add: level_from_append)
  moreover have "[cu_pos c..<cu_pos e] = [cu_pos c..<cu_pos d] @ [cu_pos d..<cu_pos e]"
    using 1 2 upt_add_eq_append [of "cu_pos c" "cu_pos d" "cu_pos e - cu_pos d"] by (auto simp: delivers_def)
  ultimately show ?thesis using 1 2 by (auto simp: delivers_def)
qed

lemma accounts_delivers: "accounts c c' \<Longrightarrow> cu_pos c' = cu_pos c \<Longrightarrow> delivers c [] c'"
  by (auto simp: accounts_def delivers_def)

lemma prepare_ok:
  assumes "prepare tb b c = Some c'" "cursor_ok tb c"
  shows "delivers c [] c' \<and> cursor_ok tb c' \<and>
    (cu_pending c' = [] \<longrightarrow> length (tk_kind tb) \<le> cu_pos c' \<longrightarrow> cu_eof c')"
proof -
  have ne: "cu_blocks c \<noteq> []" using assms(2) by (simp add: cursor_ok_def)
  note a = prepare_accounts [OF assms(1) ne]
  then have "cu_blocks c' \<noteq> []" by (simp add: accounts_def)
  moreover have "cu_eof c' \<longrightarrow> cu_pos c' = length (tk_kind tb) \<and> length (cu_blocks c') = 1"
  proof (cases "cu_pending c \<noteq> [] \<or> length (tk_kind tb) \<le> cu_pos c")
    case True
    moreover have "length (drop (length (cu_blocks c) - 1) (cu_blocks c)) = 1" using ne by (cases "cu_blocks c") auto
    ultimately show ?thesis using assms by (auto simp: prepare_def cursor_ok_def split: if_splits)
  next
    case False
    then have "\<not> cu_eof c" using assms(2) by (auto simp: cursor_ok_def)
    moreover have "cu_eof c' = cu_eof c"
    proof -
      let ?kind = "tk_kind tb ! cu_pos c"
      from False assms(1) obtain d where
        d: "(if cu_prepared c \<noteq> Some (cu_pos c) \<and> line_first_at tb (cu_pos c) \<and> 0 < cu_pos c
             then line_start_layout tb b ?kind (c\<lparr>cu_prepared := Some (cu_pos c)\<rparr>) else Some c) = Some d"
        and c': "(if cu_pending d \<noteq> [] then Some d else if closes ?kind \<or> ?kind = TStrMid then close_nested_at_closer tb b d else Some d) = Some c'"
        by (auto simp: prepare_def Let_def split: option.splits)
      have "cu_eof d = cu_eof c" using d line_loop_prepared [of tb b ?kind "c\<lparr>cu_prepared := Some (cu_pos c)\<rparr>" d] by (auto split: if_splits)
      moreover have "cu_eof c' = cu_eof d"
      proof (cases "cu_blocks d = []")
        case True
        with c' show ?thesis by (auto simp: close_nested_at_closer_def split: if_splits)
      next
        case False
        with c' show ?thesis
          by (auto simp: close_nested_at_closer_def same_place_def dest: close_loop_accounts split: if_splits)
      qed
      ultimately show ?thesis by simp
    qed
    ultimately show ?thesis by simp
  qed
  moreover have "cu_pending c' = [] \<longrightarrow> length (tk_kind tb) \<le> cu_pos c' \<longrightarrow> cu_eof c'"
    using assms(1) a by (auto simp: prepare_def split: if_splits)
  ultimately show ?thesis using a assms(2) by (auto simp: cursor_ok_def accounts_delivers)
qed

lemma mark_piped_same [simp]:
  "cu_pos (mark_piped k c) = cu_pos c" "cu_pending (mark_piped k c) = cu_pending c" "cu_eof (mark_piped k c) = cu_eof c"
  "length (cu_blocks (mark_piped k c)) = length (cu_blocks c)" "cu_prepared (mark_piped k c) = cu_prepared c"
  by (auto simp: mark_piped_def split: list.splits)

text \<open>The cursor after a token is consumed.\<close>

definition past_token :: "token_buf \<Rightarrow> cursor \<Rightarrow> cursor" where
  "past_token tb c =
     (let kind = tk_kind tb ! cu_pos c;
          c = (if opens kind then c\<lparr>cu_depth := (if cu_depth c = - 1 then - 1 else cu_depth c + 1)\<rparr>
               else if closes kind then c\<lparr>cu_depth := (if cu_depth c = 0 then 0 else cu_depth c - 1)\<rparr>
               else c);
          c = mark_piped kind c
      in c\<lparr>cu_pos := cu_pos c + 1\<rparr>)"

lemma past_token_same [simp]:
  "cu_pos (past_token tb c) = cu_pos c + 1" "cu_pending (past_token tb c) = cu_pending c" "cu_eof (past_token tb c) = cu_eof c"
  "length (cu_blocks (past_token tb c)) = length (cu_blocks c)" "cu_prepared (past_token tb c) = cu_prepared c"
  by (simp_all add: past_token_def Let_def)

lemma bump_prepared:
  assumes "prepare tb b d = Some d"
  shows "bump tb b d = Some (case cu_pending d of _ # rest \<Rightarrow> d\<lparr>cu_pending := rest\<rparr>
     | [] \<Rightarrow> if length (tk_kind tb) \<le> cu_pos d then d else past_token tb d)"
  unfolding bump_def past_token_def assms option.map ..

lemma peek_prepare: "peek tb b c = Some (item, c') \<Longrightarrow> prepare tb b c = Some c'"
  by (auto simp: peek_def Let_def)

text \<open>A delivery is the preparation, then the head of the queue, the token, or nothing at the end.\<close>

lemma deliver_cases:
  assumes "deliver tb b c = Some (items, c')"
  obtains (layout) d k rest where "prepare tb b c = Some d" "cu_pending d = k # rest"
      "items = [CLayout k (to_u32 (cu_pos d))]" "c' = d\<lparr>cu_pending := rest\<rparr>"
    | (token) d where "prepare tb b c = Some d" "cu_pending d = []" "cu_pos d < length (tk_kind tb)"
      "items = [CToken (to_u32 (cu_pos d))]" "c' = past_token tb d"
    | (finish) d where "prepare tb b c = Some d" "cu_pending d = []" "length (tk_kind tb) \<le> cu_pos d" "items = []" "c' = d"
proof -
  from assms obtain d where d: "prepare tb b c = Some d"
    by (auto simp: deliver_def peek_def split: bind_splits)
  from assms d prepare_idem [OF d] show ?thesis
    by (cases "cu_pending d"; cases "cu_pos d < length (tk_kind tb)")
      (auto simp: deliver_def peek_def bump_prepared Let_def intro: layout token finish split: bind_splits)
qed

lemma deliver_ok:
  assumes "deliver tb b c = Some (items, c')" "cursor_ok tb c"
  shows "delivers c items c' \<and> cursor_ok tb c'"
  using assms(1)
proof (cases rule: deliver_cases)
  case (layout d k rest)
  with prepare_ok [OF layout(1) assms(2)] show ?thesis
    by (auto simp: delivers_def cursor_ok_def layouts_def tokens_of_def)
next
  case (token d)
  with prepare_ok [OF token(1) assms(2)] have p: "delivers c [] d" "cursor_ok tb d" "\<not> cu_eof d"
    by (auto simp: cursor_ok_def)
  have "delivers d items c'"
    using token by (auto simp: delivers_def layouts_def tokens_of_def)
  moreover have "cursor_ok tb c'"
    using token(3,5) p(2,3) past_token_same(4) [of tb d] by (auto simp: cursor_ok_def simp del: past_token_same(4))
  ultimately show ?thesis using delivers_trans [OF p(1), of items c'] by simp
next
  case (finish d)
  with prepare_ok [OF finish(1) assms(2)] show ?thesis by simp
qed

lemma force_open_ok:
  assumes "force_open tb header c = Some c'" "cursor_ok tb c" "cu_pos c < length (tk_kind tb)"
  shows "accounts c c' \<and> cu_pos c' = cu_pos c \<and> cursor_ok tb c'"
  using assms by (auto simp: force_open_def accounts_def cursor_ok_def Let_def split: bind_splits)

lemma open_suite_cases:
  assumes "open_suite tb closure c = Some (kind, c')"
  obtains (same) "c' = c" | (inline) "c' = c\<lparr>cu_inline := cu_depth c # cu_inline c\<rparr>"
    | (opened) header d where "force_open tb header d = Some c'" "cu_blocks d = cu_blocks c" "cu_pos d = cu_pos c"
      "cu_eof d = cu_eof c" "cu_pending d = cu_pending c" "cu_prepared d = cu_prepared c" "cu_pos c < length (tk_kind tb)"
proof (cases "c' = c \<or> c' = c\<lparr>cu_inline := cu_depth c # cu_inline c\<rparr>")
  case True
  then show thesis using same inline by blast
next
  case False
  with assms have p: "cu_pos c < length (tk_kind tb)"
    and "\<exists>header es. force_open tb header (c\<lparr>cu_opening := Some closure\<rparr>) = Some c' \<or>
      force_open tb header (c\<lparr>cu_errors := es, cu_opening := Some closure\<rparr>) = Some c'"
    unfolding open_suite_def by (auto simp: Let_def not_le split: if_splits list.splits bind_splits)
  then show thesis using opened [OF _ _ _ _ _ _ p] by auto
qed

lemma open_suite_ok:
  assumes "open_suite tb closure c = Some (kind, c')" "cursor_ok tb c"
  shows "accounts c c' \<and> cu_pos c' = cu_pos c \<and> cursor_ok tb c'"
  using assms(1)
proof (cases rule: open_suite_cases)
  case (opened header d)
  with assms(2) have "cursor_ok tb d" by (simp add: cursor_ok_def)
  from force_open_ok [OF opened(1) this] opened show ?thesis by (simp add: accounts_def)
qed (use assms(2) in \<open>auto simp: accounts_def cursor_ok_def\<close>)

lemma close_inline_ok:
  "delivers c xs d \<Longrightarrow> delivers c xs (close_inline d)" "cursor_ok tb d \<Longrightarrow> cursor_ok tb (close_inline d)"
  by (simp_all add: delivers_def cursor_ok_def close_inline_def)

lemma apply_op_ok:
  assumes "apply_op tb b op c = Some (items, c')" "cursor_ok tb c"
  shows "delivers c items c' \<and> cursor_ok tb c'"
proof (cases op)
  case DoBump
  with assms deliver_ok show ?thesis by (auto simp: apply_op_def)
next
  case DoPeek
  with assms obtain item where "peek tb b c = Some (item, c')" "items = []" by (auto simp: apply_op_def)
  with prepare_ok [OF peek_prepare assms(2)] show ?thesis by simp
next
  case (DoOpenSuite closure)
  with assms(1) obtain kind where "open_suite tb closure c = Some (kind, c')" "items = []" by (auto simp: apply_op_def)
  with open_suite_ok [OF _ assms(2)] accounts_delivers show ?thesis by blast
next
  case DoOpenArm
  with assms obtain kind d where d: "open_suite tb False c = Some (kind, d)" "items = []"
    "c' = (if kind = SameLine then close_inline d else d)"
    by (auto simp: apply_op_def open_arm_def)
  from open_suite_ok [OF d(1) assms(2)] have "delivers c [] d" "cursor_ok tb d" by (auto intro: accounts_delivers)
  with d(2,3) show ?thesis by (simp add: close_inline_ok)
next
  case DoCloseInline
  have "delivers c [] c" by (simp add: delivers_def)
  with DoCloseInline assms show ?thesis by (auto simp: apply_op_def close_inline_ok)
qed

lemma run_ops_ok:
  "run_ops tb b ops c = Some (items, c') \<Longrightarrow> cursor_ok tb c \<Longrightarrow> delivers c items c' \<and> cursor_ok tb c'"
proof (induction ops arbitrary: c items)
  case Nil
  then show ?case by (auto simp: delivers_def)
next
  case (Cons op ops)
  from Cons.prems(1) obtain xs d ys where o: "apply_op tb b op c = Some (xs, d)" "run_ops tb b ops d = Some (ys, c')" "items = xs @ ys"
    by (auto split: bind_splits)
  from apply_op_ok [OF o(1) Cons.prems(2)] Cons.IH [OF o(2)] o(3) show ?case using delivers_trans by blast
qed

lemma cursor_new_ok: "cursor_ok tb cursor_new"
  by (simp add: cursor_ok_def cursor_new_def)

text \<open>C27. Layout is balanced whatever the parser does: after any sequence of \<open>bump\<close>, \<open>peek\<close>, \<open>open_suite\<close>,
  \<open>open_arm\<close> and \<open>close_inline\<close>, the tokens delivered are the first \<open>pos\<close> ones, each once and in order, no
  \<open>DEDENT\<close> was delivered without its \<open>INDENT\<close>, and once the cursor shows the end every \<open>INDENT\<close> has had
  its \<open>DEDENT\<close>.\<close>

theorem layout_balanced:
  assumes "run_ops tb b ops cursor_new = Some (items, c)"
  shows "level_from 0 (layouts items) \<noteq> None \<and>
    (\<forall>c'. peek tb b c = Some (CEof, c') \<longrightarrow> level_from 0 (layouts items) = Some 0) \<and>
    tokens_of items = map to_u32 [0..<cu_pos c] \<and> cu_pos c \<le> length (tk_kind tb)"
proof -
  from run_ops_ok [OF assms cursor_new_ok] have d: "delivers cursor_new items c" and ok: "cursor_ok tb c" by auto
  from d have l: "level_from 0 (layouts items @ cu_pending c) = Some (length (cu_blocks c) - 1)"
    by (auto simp: delivers_def cursor_new_def)
  then have "level_from 0 (layouts items) \<noteq> None" 
    by (cases "level_from 0 (layouts items)") (simp_all add: level_from_append)
  moreover have "level_from 0 (layouts items) = Some 0" if p: "peek tb b c = Some (CEof, c')" for c'
  proof -
    from p have pr: "prepare tb b c = Some c'" "cu_pending c' = []" "length (tk_kind tb) \<le> cu_pos c'"
      by (auto simp: peek_def Let_def split: list.splits if_splits)
    from prepare_ok [OF pr(1) ok] pr(2,3) have e: "delivers c [] c'" "length (cu_blocks c') = 1"
      by (auto simp: cursor_ok_def)
    from delivers_trans [OF d e(1)] e(2) pr(2) show ?thesis by (auto simp: delivers_def cursor_new_def)
  qed
  moreover have "tokens_of items = map to_u32 [0..<cu_pos c]" using d by (simp add: delivers_def cursor_new_def)
  ultimately show ?thesis using ok by (simp add: cursor_ok_def)
qed

end
