(* ===== verification/LayoutTotal.thy ===== *)
theory LayoutTotal
  imports LayoutProps
begin

text \<open>
  The layout cursor over the tokens of a lexed source: no operation panics, as long as no line is
  indented by 65535 columns or more, and the end is reached within a bounded number of deliveries.
\<close>

section \<open>No panic\<close>

text \<open>What the cursor reads of a buffer: every lookup it makes of it succeeds.\<close>

definition readable :: "str \<Rightarrow> token_buf \<Rightarrow> bool" where
  "readable b tb \<longleftrightarrow>
     length (tk_start tb) = length (tk_kind tb) \<and> line_start tb \<noteq> [] \<and>
     length (line_indent tb) = length (line_start tb) \<and> length (line_tok tb) = length (line_start tb) \<and>
     (\<forall>i<length (tk_kind tb). token_text tb i b \<noteq> None) \<and> (\<forall>v\<in>set (line_indent tb). v \<noteq> - 1)"

definition narrow :: "cursor \<Rightarrow> bool" where
  "narrow c \<longleftrightarrow> (\<forall>x\<in>set (cu_blocks c). bk_indent x \<noteq> - 1)"

lemma line_of_less: "line_start tb \<noteq> [] \<Longrightarrow> line_of tb p < length (line_start tb)"
  using length_takeWhile_le [of "\<lambda>s. s \<le> p" "line_start tb"]
  by (cases "line_start tb") (auto simp: line_of_def)

lemma column_total: "readable b tb \<Longrightarrow> i < length (tk_kind tb) \<Longrightarrow> \<exists>v. column tb i = Some v \<and> v \<noteq> - 1"
  using line_of_less [of tb "tk_start tb ! i"] by (auto simp: readable_def column_def get_at_def)

lemma describe_token_total: "readable b tb \<Longrightarrow> describe_token tb i b \<noteq> None"
  by (auto simp: describe_token_def readable_def not_le)

lemma header_line_total: "line < length (line_tok tb) \<Longrightarrow> \<exists>r. header_line tb line = Some r \<and> r \<le> line"
proof (induction line)
  case (Suc line)
  then show ?case by (cases "line_tok tb ! Suc line = no_token") (auto simp: get_at_def le_SucI)
qed simp

lemma header_column_total: "readable b tb \<Longrightarrow> header_column tb c \<noteq> None"
proof -
  assume r: "readable b tb"
  let ?o = "case get_at (tk_start tb) (cu_pos c - 1) of None \<Rightarrow> 0 | Some s \<Rightarrow> s"
  have "line_of tb ?o < length (line_tok tb)" using line_of_less [of tb ?o] r by (simp add: readable_def)
  from header_line_total [OF this] obtain line where "header_line tb (line_of tb ?o) = Some line" "line \<le> line_of tb ?o" by blast
  moreover from this \<open>line_of tb ?o < length (line_tok tb)\<close> r have "line < length (line_indent tb)" by (simp add: readable_def)
  ultimately show ?thesis by (simp add: header_column_def Let_def get_at_def)
qed

lemma plus_one_total: "v \<noteq> - 1 \<Longrightarrow> \<exists>n. plus_one v = Some n"
  by (simp add: plus_one_def)

lemma dedent_errors_total:
  assumes "readable b tb" "bk_indent block \<noteq> - 1" "col \<noteq> - 1"
  shows "\<exists>es. dedent_errors tb b c kind col block = Some es"
proof -
  from plus_one_total [OF assms(2)] plus_one_total [OF assms(3)] have "between_error block col (cu_pos c) \<noteq> None"
    by (auto simp: between_error_def)
  then obtain e where "between_error block col (cu_pos c) = Some e" by blast
  moreover from describe_token_total [OF assms(1)] obtain f where "describe_token tb (cu_pos c) b = Some f" by blast
  ultimately show ?thesis by (auto simp: dedent_errors_def)
qed

lemma continues_total: "0 < cu_pos c \<Longrightarrow> \<exists>r. continues tb c kind col block = Some r"
  by (auto simp: continues_def Let_def)

lemma line_loop_total:
  assumes "readable b tb" "col \<noteq> - 1"
  shows "blocks \<noteq> [] \<Longrightarrow> \<forall>x\<in>set blocks. bk_indent x \<noteq> - 1 \<Longrightarrow> 0 < cu_pos c \<Longrightarrow>
    \<exists>c'. line_loop tb b kind col newline blocks c = Some c' \<and> narrow c'"
proof (induction blocks arbitrary: newline c)
  case Nil
  then show ?case by simp
next
  case (Cons block parents)
  show ?case
  proof (cases "bk_depth block < cu_depth c \<or> bk_indent block \<le> col \<or> parents = []")
    case True
    from continues_total [OF Cons.prems(3), of tb kind col block] obtain g es where
      "continues tb c kind col block = Some (g, es)" by auto
    with True Cons.prems assms(2) show ?thesis by (auto simp: narrow_def Let_def)
  next
    case False
    then obtain parent rest where p: "parents = parent # rest" by (cases parents) auto
    from dedent_errors_total [OF assms(1) _ assms(2), of block c kind] Cons.prems obtain es where
      es: "dedent_errors tb b c kind col block = Some es" by auto
    let ?d = "c\<lparr>cu_pending := cu_pending c @ (if newline then [] else [Newline]) @ [Dedent], cu_errors := cu_errors c @ es\<rparr>"
    from Cons.IH [of ?d True] Cons.prems p obtain c' where
      "line_loop tb b kind col True parents ?d = Some c'" "narrow c'" by auto
    with es False p plus_one_total [OF assms(2)] Cons.prems show ?thesis
      by (auto simp: Let_def narrow_def)
  qed
qed

lemma close_loop_total:
  assumes "readable b tb"
  shows "\<forall>x\<in>set blocks. bk_indent x \<noteq> - 1 \<Longrightarrow> \<exists>c'. close_loop tb b newline blocks c = Some c' \<and> narrow c'"
proof (induction blocks arbitrary: newline c)
  case Nil
  then show ?case by (simp add: narrow_def)
next
  case (Cons block parents)
  from describe_token_total [OF assms] obtain f where "describe_token tb (cu_pos c) b = Some f" by blast
  with Cons show ?case by (auto simp: narrow_def)
qed

lemma prepare_total:
  assumes "readable b tb" "cursor_ok tb c" "narrow c"
  shows "\<exists>c'. prepare tb b c = Some c' \<and> narrow c'"
proof (cases "cu_pending c \<noteq> [] \<or> length (tk_kind tb) \<le> cu_pos c")
  case True
  with assms(3) show ?thesis by (auto simp: prepare_def narrow_def dest: in_set_dropD)
next
  case False
  let ?kind = "tk_kind tb ! cu_pos c"
  from False column_total [OF assms(1), of "cu_pos c"] obtain col where col: "column tb (cu_pos c) = Some col" "col \<noteq> - 1" by auto
  have "\<exists>d. (if cu_prepared c \<noteq> Some (cu_pos c) \<and> line_first_at tb (cu_pos c) \<and> 0 < cu_pos c
      then line_start_layout tb b ?kind (c\<lparr>cu_prepared := Some (cu_pos c)\<rparr>) else Some c) = Some d \<and> narrow d"
    using line_loop_total [OF assms(1) col(2), of "cu_blocks c" "c\<lparr>cu_prepared := Some (cu_pos c)\<rparr>" ?kind False]
      line_loop_total [OF assms(1) col(2), of "cu_blocks c" "c\<lparr>cu_prepared := Some (cu_pos c), cu_depth := 0\<rparr>" ?kind False]
      assms(2,3) col(1)
    by (auto simp: line_start_layout_def Let_def cursor_ok_def narrow_def)
  then obtain d where d: "(if cu_prepared c \<noteq> Some (cu_pos c) \<and> line_first_at tb (cu_pos c) \<and> 0 < cu_pos c
      then line_start_layout tb b ?kind (c\<lparr>cu_prepared := Some (cu_pos c)\<rparr>) else Some c) = Some d" "narrow d" by blast
  from close_loop_total [OF assms(1), of "cu_blocks d" False d] d(2) obtain e where
    "close_nested_at_closer tb b d = Some e" "narrow e" by (auto simp: narrow_def close_nested_at_closer_def)
  moreover have "prepare tb b c = (if cu_pending d \<noteq> [] then Some d
      else if closes ?kind \<or> ?kind = TStrMid then close_nested_at_closer tb b d else Some d)"
    using False unfolding prepare_def Let_def d(1) by simp
  ultimately show ?thesis using d(2) by auto
qed

lemma narrow_mark_piped: "narrow (mark_piped k c) = narrow c"
  by (cases "cu_blocks c") (simp_all add: narrow_def mark_piped_def)

lemma narrow_parts:
  "narrow c \<Longrightarrow> narrow (c\<lparr>cu_pending := p\<rparr>)" "narrow c \<Longrightarrow> narrow (c\<lparr>cu_depth := d\<rparr>)"
  "narrow c \<Longrightarrow> narrow (c\<lparr>cu_pos := n\<rparr>)" "narrow c \<Longrightarrow> narrow (close_inline c)"
  by (simp_all add: narrow_def close_inline_def)

lemma narrow_past_token: "narrow c \<Longrightarrow> narrow (past_token tb c)"
  by (simp add: past_token_def Let_def narrow_parts narrow_mark_piped)

lemma deliver_total:
  assumes "readable b tb" "cursor_ok tb c" "narrow c"
  shows "\<exists>items c'. deliver tb b c = Some (items, c') \<and> narrow c'"
proof -
  from prepare_total [OF assms] obtain d where d: "prepare tb b c = Some d" "narrow d" by blast
  from d bump_prepared [OF prepare_idem [OF d(1)]] show ?thesis
    by (auto simp: deliver_def peek_def Let_def narrow_parts narrow_past_token split: list.split)
qed

lemma open_suite_total:
  assumes "readable b tb" "cursor_ok tb c" "narrow c"
  shows "\<exists>kind c'. open_suite tb closure c = Some (kind, c') \<and> narrow c'"
proof -
  from header_column_total [OF assms(1)] obtain h where h: "header_column tb c = Some h" by blast
  from assms(2) obtain block rest where bk: "cu_blocks c = block # rest" by (cases "cu_blocks c") (auto simp: cursor_ok_def)
  show ?thesis
  proof (cases "length (tk_kind tb) \<le> cu_pos c")
    case True
    with h bk assms(3) show ?thesis by (simp add: open_suite_def)
  next
    case False
    with column_total [OF assms(1), of "cu_pos c"] obtain col where col: "column tb (cu_pos c) = Some col" "col \<noteq> - 1" by auto
    have f: "\<exists>c'. force_open tb h d = Some c' \<and> narrow c'"
      if "cu_pos d = cu_pos c" "cu_blocks d = cu_blocks c" for d
      using that col assms(3) by (auto simp: force_open_def Let_def narrow_def)
    show ?thesis
      using h bk False col(1) assms(3)
        f [of "c\<lparr>cu_errors := cu_errors c @ [(UnexpectedIndentation, cu_pos c, BodyNotDeeper)], cu_opening := Some closure\<rparr>"]
        f [of "c\<lparr>cu_opening := Some closure\<rparr>"]
      by (auto simp: open_suite_def Let_def narrow_def)
  qed
qed

lemma apply_op_total:
  assumes "readable b tb" "cursor_ok tb c" "narrow c"
  shows "\<exists>items c'. apply_op tb b op c = Some (items, c') \<and> narrow c'"
proof (cases op)
  case DoBump
  with deliver_total [OF assms] show ?thesis by (simp add: apply_op_def)
next
  case DoPeek
  with prepare_total [OF assms] show ?thesis by (auto simp: apply_op_def peek_def Let_def)
next
  case (DoOpenSuite closure)
  with open_suite_total [OF assms, of closure] show ?thesis by (auto simp: apply_op_def)
next
  case DoOpenArm
  from open_suite_total [OF assms, of False] obtain kind d where
    d: "open_suite tb False c = Some (kind, d)" "narrow d" by blast
  from d narrow_parts(4) [OF d(2)] show ?thesis using DoOpenArm by (simp add: apply_op_def open_arm_def)
next
  case DoCloseInline
  with narrow_parts(4) [OF assms(3)] show ?thesis by (simp add: apply_op_def)
qed

lemma run_ops_total:
  "readable b tb \<Longrightarrow> cursor_ok tb c \<Longrightarrow> narrow c \<Longrightarrow> \<exists>items c'. run_ops tb b ops c = Some (items, c') \<and> narrow c'"
proof (induction ops arbitrary: c)
  case (Cons op ops)
  from apply_op_total [OF Cons.prems, of op] obtain xs d where d: "apply_op tb b op c = Some (xs, d)" "narrow d" by blast
  from apply_op_ok [OF d(1) Cons.prems(2)] have "cursor_ok tb d" by simp
  from Cons.IH [OF Cons.prems(1) this d(2)] d(1) show ?case by auto
qed simp

lemma narrow_new: "narrow cursor_new"
  by (simp add: narrow_def cursor_new_def root_block_def)

lemma lexed_readable:
  assumes "utf8_valid source" "length source < 2 ^ 32" "lex u source = Returned (tb, ds)"
    "\<forall>v\<in>set (line_indent tb). v \<noteq> - 1"
  shows "readable source tb"
proof -
  from lex_result [OF assms(1,2), of u] assms(3) have t: "tiles source tb" "buffer_tables source (tb\<lparr>resync := []\<rparr>)" by auto
  have "token_text tb i source \<noteq> None" if "i < length (tk_kind tb)" for i
  proof -
    have "(unat (tk_start tb ! i), unat (tk_end tb ! i)) \<in> set (tok_spans tb)"
      using that t(2) by (force simp: tok_spans_def buffer_tables_def in_set_conv_nth)
    with t(1) show ?thesis by (auto simp: tiles_def laid_out_def token_text_def str_slice_def)
  qed
  with t(2) assms(4) show ?thesis by (auto simp: readable_def buffer_tables_def line_starts_def)
qed

text \<open>C33. The cursor never panics on lexed tokens: for the tokens \<open>lex\<close> gives for a valid source whose lines are
  indented by fewer than 65535 spaces, every sequence of operations a parser may make returns: the root
  block is never popped, every index and slice is in range and no column overflows in a message.\<close>

theorem layout_total:
  assumes "utf8_valid source" "length source < 2 ^ 32" "lex u source = Returned (tb, ds)"
    "\<forall>v\<in>set (line_indent tb). v \<noteq> - 1"
  shows "\<exists>items c. run_ops tb source ops cursor_new = Some (items, c)"
  using run_ops_total [OF lexed_readable [OF assms] cursor_new_ok narrow_new, of ops] by blast

section \<open>The end is reached\<close>

text \<open>What the queue, the open blocks, the line start not yet prepared and the tokens left can still deliver.\<close>

definition potential :: "token_buf \<Rightarrow> cursor \<Rightarrow> nat" where
  "potential tb c =
     length (cu_pending c) + 2 * (length (cu_blocks c) - 1) + 5 * (length (tk_kind tb) - cu_pos c) +
     (if cu_prepared c = Some (cu_pos c) then 0 else 4) + (if cu_eof c then 0 else 1)"

lemma line_loop_cost:
  "line_loop tb b kind col newline blocks c = Some c' \<Longrightarrow>
   length (cu_pending c') + 2 * length (cu_blocks c') \<le>
     length (cu_pending c) + 2 * length blocks + (if newline then 3 else 4)"
proof (induction blocks arbitrary: newline c)
  case Nil
  then show ?case by simp
next
  case (Cons block parents)
  let ?nl = "if newline then [] else [Newline]"
  show ?case
  proof (cases "bk_depth block < cu_depth c \<or> bk_indent block \<le> col \<or> parents = []")
    case True
    with Cons.prems show ?thesis by (auto simp: Let_def split: option.splits if_splits prod.splits)
  next
    case False
    then obtain parent rest where p: "parents = parent # rest" by (cases parents) auto
    from False Cons.prems obtain errors where e: "dedent_errors tb b c kind col block = Some errors"
      by (auto simp: Let_def split: option.splits)
    define d where "d = c\<lparr>cu_pending := cu_pending c @ ?nl @ [Dedent], cu_errors := cu_errors c @ errors\<rparr>"
    have d: "length (cu_pending d) = length (cu_pending c) + (if newline then 1 else 2)" by (simp add: d_def)
    from Cons.prems False p e consider
        v where "c' = d\<lparr>cu_errors := v, cu_blocks := parent\<lparr>bk_logical := col, bk_piped := False\<rparr> # rest\<rparr>"
      | "line_loop tb b kind col True parents d = Some c'"
      by (auto simp: Let_def d_def split: if_splits)
    then show ?thesis
    proof cases
      case 1
      with d p show ?thesis by simp
    next
      case 2
      from Cons.IH [OF this] d show ?thesis by (auto split: if_splits)
    qed
  qed
qed

lemma close_loop_cost:
  "close_loop tb b newline blocks c = Some c' \<Longrightarrow>
   length (cu_pending c') + 2 * length (cu_blocks c') \<le> length (cu_pending c) + 2 * length blocks"
proof (induction blocks arbitrary: newline c)
  case Nil
  then show ?case by auto
next
  case (Cons block parents)
  show ?case
  proof (cases "parents = [] \<or> bk_depth block \<noteq> cu_depth c \<or> \<not> bk_in_brackets block")
    case True
    with Cons.prems show ?thesis by auto
  next
    case False
    with Cons.prems obtain errors where
      "close_loop tb b True parents (c\<lparr>cu_pending := cu_pending c @ (if newline then [] else [Newline]) @ [Dedent],
         cu_errors := cu_errors c @ errors\<rparr>) = Some c'"
      by (auto split: option.splits)
    from Cons.IH [OF this] show ?thesis by (auto split: if_splits)
  qed
qed

lemma double_pred: "0 < n \<Longrightarrow> 2 * (n - 1) + 2 = 2 * (n :: nat)"
  by simp

lemma prepare_cost:
  assumes "prepare tb b c = Some c'" "cursor_ok tb c"
  shows "potential tb c' \<le> potential tb c"
proof -
  from assms prepare_ok [OF assms] have ok: "0 < length (cu_blocks c)" "0 < length (cu_blocks c')" by (auto simp: cursor_ok_def)
  show ?thesis
  proof (cases "cu_pending c \<noteq> [] \<or> length (tk_kind tb) \<le> cu_pos c")
    case True
    moreover have "length (drop (length (cu_blocks c) - 1) (cu_blocks c)) = 1" using ok(1) by (cases "cu_blocks c") auto
    ultimately show ?thesis using assms(1) ok(1)
      by (auto simp: prepare_def potential_def split: if_splits)
  next
    case False
    let ?kind = "tk_kind tb ! cu_pos c"
    let ?starts = "cu_prepared c \<noteq> Some (cu_pos c) \<and> line_first_at tb (cu_pos c) \<and> 0 < cu_pos c"
    from False assms(1) obtain d where
      d: "(if ?starts then line_start_layout tb b ?kind (c\<lparr>cu_prepared := Some (cu_pos c)\<rparr>) else Some c) = Some d"
      and c': "(if cu_pending d \<noteq> [] then Some d else if closes ?kind \<or> ?kind = TStrMid then close_nested_at_closer tb b d else Some d) = Some c'"
      by (auto simp: prepare_def Let_def split: option.splits)
    have 1: "potential tb d \<le> potential tb c \<and> 0 < length (cu_blocks d)"
    proof (cases ?starts)
      case True
      then obtain e col where e: "line_loop tb b ?kind col False (cu_blocks c) e = Some d" "cu_pending e = cu_pending c"
        using d by (auto simp: line_start_layout_def Let_def split: bind_splits if_splits)
      from True d line_loop_prepared [of tb b ?kind "c\<lparr>cu_prepared := Some (cu_pos c)\<rparr>" d]
      have same: "cu_prepared d = Some (cu_pos d)" "cu_pos d = cu_pos c" "cu_eof d = cu_eof c" by auto
      have "0 < length (cu_blocks d)" using line_loop_accounts [OF e(1)] by simp
      moreover have "length (cu_pending d) + 2 * length (cu_blocks d) \<le> length (cu_pending c) + 2 * length (cu_blocks c) + 4"
        using line_loop_cost [OF e(1)] e(2) by simp
      ultimately show ?thesis using True same ok(1) double_pred [of "length (cu_blocks d)"] double_pred [of "length (cu_blocks c)"]
        by (simp add: potential_def)
    next
      case no: False
      with d ok(1) show ?thesis by auto
    qed
    have "potential tb c' \<le> potential tb d"
    proof (cases "cu_pending d = [] \<and> (closes ?kind \<or> ?kind = TStrMid)")
      case True
      with c' have cl: "close_loop tb b False (cu_blocks d) d = Some c'" by (simp add: close_nested_at_closer_def)
      have "same_place d c'" using close_loop_accounts [OF cl] 1 by auto
      with close_loop_cost [OF cl] 1 ok(2) double_pred [of "length (cu_blocks d)"] double_pred [of "length (cu_blocks c')"]
      show ?thesis by (simp add: potential_def same_place_def)
    next
      case no: False
      with c' have "c' = d" by (auto split: if_splits)
      then show ?thesis by simp
    qed
    with 1 show ?thesis by simp
  qed
qed

lemma deliver_cost:
  assumes "deliver tb b c = Some (items, c')" "cursor_ok tb c"
  shows "(items = [] \<and> (\<exists>d. peek tb b c' = Some (CEof, d))) \<or> potential tb c' < potential tb c"
  using assms(1)
proof (cases rule: deliver_cases)
  case (layout d k rest)
  with prepare_cost [OF layout(1) assms(2)] show ?thesis by (simp add: potential_def split: if_splits)
next
  case (token d)
  have "5 * (length (tk_kind tb) - cu_pos d) = 5 * (length (tk_kind tb) - Suc (cu_pos d)) + 5" using token(3) by simp
  then have "potential tb c' < potential tb d" using token(5) by (simp add: potential_def)
  with prepare_cost [OF token(1) assms(2)] show ?thesis by simp
next
  case (finish d)
  with prepare_idem [OF finish(1)] show ?thesis by (simp add: peek_def Let_def)
qed

lemma deliver_at_end:
  assumes "peek tb b c = Some (CEof, d)"
  shows "deliver tb b c = Some ([], d) \<and> peek tb b d = Some (CEof, d)"
proof -
  from assms have p: "prepare tb b c = Some d" "cu_pending d = []" "length (tk_kind tb) \<le> cu_pos d"
    by (auto simp: peek_def Let_def split: list.splits if_splits)
  with bump_prepared [OF prepare_idem [OF p(1)]] prepare_idem [OF p(1)] assms show ?thesis
    by (simp add: deliver_def peek_def Let_def)
qed

lemma bumps_reach_end:
  assumes "readable b tb"
  shows "cursor_ok tb c \<Longrightarrow> narrow c \<Longrightarrow> potential tb c \<le> n \<Longrightarrow>
    \<exists>items c' d. run_ops tb b (replicate (Suc n) DoBump) c = Some (items, c') \<and> peek tb b c' = Some (CEof, d)"
proof (induction n arbitrary: c)
  case 0
  from deliver_total [OF assms 0(1,2)] obtain items c' where d: "deliver tb b c = Some (items, c')" by blast
  with deliver_cost [OF d 0(1)] 0(3) show ?case by (auto simp: apply_op_def)
next
  case (Suc n)
  from deliver_total [OF assms Suc.prems(1,2)] obtain xs c1 where d: "deliver tb b c = Some (xs, c1)" "narrow c1" by blast
  from deliver_ok [OF d(1) Suc.prems(1)] have ok: "cursor_ok tb c1" by simp
  from deliver_cost [OF d(1) Suc.prems(1)] consider e where "peek tb b c1 = Some (CEof, e)" | "potential tb c1 \<le> n"
    using Suc.prems(3) by fastforce
  then show ?case
  proof cases
    case (1 e)
    have still: "\<exists>ys c'. run_ops tb b (replicate m DoBump) c1 = Some (ys, c') \<and> (\<exists>d. peek tb b c' = Some (CEof, d))"
      if "peek tb b c1 = Some (CEof, e)" for m c1 e
      using that
    proof (induction m arbitrary: c1 e)
      case 0
      then show ?case by auto
    next
      case (Suc m)
      from deliver_at_end [OF Suc.prems] Suc.IH [of e e] show ?case by (auto simp: apply_op_def)
    qed
    from still [OF 1, of "Suc n"] d(1) show ?thesis by (auto simp: apply_op_def simp del: replicate.simps(2) simp add: replicate_Suc [of "Suc n"])
  next
    case 2
    from Suc.IH [OF ok d(2) 2] d(1) show ?thesis
      by (auto simp: apply_op_def simp del: replicate.simps(2) simp add: replicate_Suc [of "Suc n"])
  qed
qed

lemma open_suite_cost:
  assumes "open_suite tb closure c = Some (kind, c')" "cursor_ok tb c"
  shows "potential tb c' \<le> potential tb c + 4"
  using assms(1)
proof (cases rule: open_suite_cases)
  case (opened header d)
  from assms(2) obtain block rest where "cu_blocks c = block # rest" by (cases "cu_blocks c") (auto simp: cursor_ok_def)
  with opened show ?thesis by (auto simp: force_open_def potential_def Let_def split: bind_splits)
qed (simp_all add: potential_def)

lemma apply_op_cost:
  assumes "apply_op tb b op c = Some (items, c')" "cursor_ok tb c"
  shows "potential tb c' \<le> potential tb c + 4"
proof (cases op)
  case DoBump
  with assms(1) have d: "deliver tb b c = Some (items, c')" by (simp add: apply_op_def)
  then show ?thesis
  proof (cases rule: deliver_cases)
    case (finish d)
    with prepare_cost [OF finish(1) assms(2)] show ?thesis by simp
  qed (use deliver_cost [OF d assms(2)] in auto)
next
  case DoPeek
  with assms obtain item where "peek tb b c = Some (item, c')" by (auto simp: apply_op_def)
  from prepare_cost [OF peek_prepare [OF this] assms(2)] show ?thesis by simp
next
  case (DoOpenSuite closure)
  with assms(1) obtain kind where "open_suite tb closure c = Some (kind, c')" by (auto simp: apply_op_def)
  from open_suite_cost [OF this assms(2)] show ?thesis .
next
  case DoOpenArm
  with assms(1) obtain kind d where d: "open_suite tb False c = Some (kind, d)" "c' = (if kind = SameLine then close_inline d else d)"
    by (auto simp: apply_op_def open_arm_def)
  have "potential tb (close_inline d) = potential tb d" by (simp add: potential_def close_inline_def)
  with open_suite_cost [OF d(1) assms(2)] d(2) show ?thesis by (cases "kind = SameLine") simp_all
next
  case DoCloseInline
  with assms(1) show ?thesis by (auto simp: apply_op_def close_inline_def potential_def)
qed

lemma run_ops_cost:
  "run_ops tb b ops c = Some (items, c') \<Longrightarrow> cursor_ok tb c \<Longrightarrow> potential tb c' \<le> potential tb c + 4 * length ops"
proof (induction ops arbitrary: c items)
  case (Cons op ops)
  from Cons.prems(1) obtain xs d ys where o: "apply_op tb b op c = Some (xs, d)" "run_ops tb b ops d = Some (ys, c')"
    by (auto split: bind_splits)
  from apply_op_ok [OF o(1) Cons.prems(2)] Cons.IH [OF o(2)] apply_op_cost [OF o(1) Cons.prems(2)] show ?case by simp
qed simp

text \<open>The end is reached: whatever a parser has done so far, in \<open>n\<close> operations, it is shown the end of the
  file after at most \<open>5 t + 4 n + 6\<close> further \<open>bump\<close>s, where \<open>t\<close> is the number of tokens: each token brings at
  most a \<open>NEWLINE\<close>, an \<open>INDENT\<close> and its \<open>DEDENT\<close>, so no loop that bumps can run forever.\<close>

lemma layout_reaches_end:
  assumes "utf8_valid source" "length source < 2 ^ 32" "lex u source = Returned (tb, ds)"
    "\<forall>v\<in>set (line_indent tb). v \<noteq> - 1" "run_ops tb source ops cursor_new = Some (items, c)"
  shows "\<exists>rest c' d. run_ops tb source (replicate (5 * length (tk_kind tb) + 4 * length ops + 6) DoBump) c = Some (rest, c') \<and>
    peek tb source c' = Some (CEof, d)"
proof -
  have r: "readable source tb" by (rule lexed_readable [OF assms(1-4)])
  from run_ops_ok [OF assms(5) cursor_new_ok] have ok: "cursor_ok tb c" by simp
  from run_ops_total [OF r cursor_new_ok narrow_new, of ops] assms(5) have "narrow c" by simp
  moreover have "potential tb cursor_new \<le> 5 * length (tk_kind tb) + 5"
    by (simp add: potential_def cursor_new_def)
  with run_ops_cost [OF assms(5) cursor_new_ok] have "potential tb c \<le> 5 * length (tk_kind tb) + 4 * length ops + 5" by simp
  ultimately have "\<exists>items c' d. run_ops tb source (replicate (Suc (5 * length (tk_kind tb) + 4 * length ops + 5)) DoBump) c =
      Some (items, c') \<and> peek tb source c' = Some (CEof, d)"
    by (rule bumps_reach_end [OF r ok])
  moreover have "Suc (5 * length (tk_kind tb) + 4 * length ops + 5) = 5 * length (tk_kind tb) + 4 * length ops + 6" by simp
  ultimately show ?thesis by metis
qed

end
