(* ===== verification/Offside.thy ===== *)
theory Offside
  imports LayoutTotal
begin

text \<open>
  Outside brackets the layout cursor is the offside rule of the language's specification
  (\<^verbatim>\<open>spec/lang/01-lexical-structure.md\<close>, \<open>lex.indent\<close>), stated on the stack of active levels alone, with the
  lines that continue the one before (\<open>lex.dot\<close>, \<open>lex.pipe\<close>).
\<close>

section \<open>The offside rule\<close>

text \<open>
  The rule of the language (\<open>lex.indent\<close>): a stack of active levels, innermost first; a line at the top
  level starts a logical line; one further right opens a level; one further left closes levels until
  one that is not to its right, and is an error if it is not at that level.
\<close>

definition offside :: "u16 list \<Rightarrow> u16 \<Rightarrow> layout list \<times> u16 list \<times> bool" where
  "offside stack col =
     (let left = dropWhile (\<lambda>i. col < i) stack
      in if left = stack
         then (if hd stack < col then ([Newline, Indent], col # stack, False) else ([Newline], stack, False))
         else (Newline # replicate (length stack - length left) Dedent, left, hd left < col))"

text \<open>
  A line continues the logical line before it (\<open>lex.dot\<close>, \<open>lex.pipe\<close>) when it starts with \<open>.name\<close> or \<open>|>\<close>,
  further right than that line does, and what is before it is no \<open>:\<close> or \<open>=>\<close>. It is an error when a suite on
  the same line is still open, or for a \<open>.name\<close> after a \<open>|>\<close>.
\<close>

definition leading_dot :: "token_buf \<Rightarrow> nat \<Rightarrow> token_kind \<Rightarrow> bool" where
  "leading_dot tb p kind \<longleftrightarrow> kind = TPunct Dot \<and> get_at (tk_kind tb) (p + 1) \<in> {Some TIdent, Some TRawIdent}"

definition continuation :: "token_buf \<Rightarrow> cursor \<Rightarrow> token_kind \<Rightarrow> u16 \<Rightarrow> bool" where
  "continuation tb c kind col \<longleftrightarrow> (leading_dot tb (cu_pos c) kind \<or> kind = TCompound PipeGt) \<and>
     bk_logical (hd (cu_blocks c)) < col \<and>
     get_at (tk_kind tb) (cu_pos c - 1) \<notin> {Some (TPunct Colon), Some (TCompound FatArrow)}"

definition continuation_errors :: "cursor \<Rightarrow> bool \<Rightarrow> layout_error list" where
  "continuation_errors c dot =
     (if cu_inline c \<noteq> [] \<and> hd (cu_inline c) = cu_depth c then [(LayoutSyntaxError, cu_pos c, SuiteStillOpen dot)]
      else if dot \<and> bk_piped (hd (cu_blocks c)) then [(LayoutSyntaxError, cu_pos c, NoDotAfterPipe)] else [])"

definition levels :: "cursor \<Rightarrow> u16 list" where
  "levels c = map bk_indent (cu_blocks c)"

text \<open>Outside brackets, with no suite nested in any.\<close>

definition flat_block :: "u16 \<Rightarrow> block \<Rightarrow> bool" where
  "flat_block d x \<longleftrightarrow> bk_depth x = d \<and> \<not> bk_in_brackets x"

lemma dedent_errors_flat: "flat_block d block \<Longrightarrow> dedent_errors tb b c kind col block = Some []"
  by (simp add: dedent_errors_def flat_block_def)

lemma continues_at_level: "col \<le> bk_logical block \<Longrightarrow> continues tb c kind col block = Some (False, [])"
  by (simp add: continues_def Let_def)

lemma continues_continuation:
  assumes "cu_blocks c = block # parents" "0 < cu_pos c" "cu_pos c < length (tk_kind tb)"
  shows "continues tb c kind col block =
    Some (continuation tb c kind col, if continuation tb c kind col then continuation_errors c (leading_dot tb (cu_pos c) kind) else [])"
proof -
  let ?dot = "leading_dot tb (cu_pos c) kind" and ?p = "tk_kind tb ! (cu_pos c - 1)"
  have dot: "(kind = TPunct Dot \<and> (case get_at (tk_kind tb) (cu_pos c + 1) of Some k \<Rightarrow> k = TIdent \<or> k = TRawIdent | None \<Rightarrow> False)) = ?dot"
    by (cases "get_at (tk_kind tb) (cu_pos c + 1)") (auto simp: leading_dot_def simp del: get_at_Some get_at_None)
  have p: "get_at (tk_kind tb) (cu_pos c - 1) = Some ?p" using assms(2,3) by (simp add: get_at_def)
  show ?thesis
    unfolding continues_def Let_def dot
    using assms(1,2) p by (auto simp: continuation_def continuation_errors_def not_le simp del: get_at_Some)
qed

section \<open>The blocks of a cursor\<close>

text \<open>The innermost block is first, the root block at column 0 is last, and no block's logical line starts to the
  left of the block.\<close>

definition steady :: "block list \<Rightarrow> bool" where
  "steady bs \<longleftrightarrow> bs \<noteq> [] \<and> bk_indent (List.last bs) = 0 \<and> (\<forall>x \<in> set bs. bk_indent x \<le> bk_logical x)"

lemma steady_Cons: "steady (x # xs) \<longleftrightarrow> bk_indent x \<le> bk_logical x \<and> (if xs = [] then bk_indent x = 0 else steady xs)"
  by (auto simp: steady_def)

lemma line_loop_steady:
  "line_loop tb b kind col newline blocks c = Some c' \<Longrightarrow> steady blocks \<Longrightarrow> steady (cu_blocks c')"
proof (induction blocks arbitrary: newline c)
  case Nil
  then show ?case by (simp add: steady_def)
next
  case (Cons block parents)
  show ?case
  proof (cases "bk_depth block < cu_depth c \<or> bk_indent block \<le> col \<or> parents = []")
    case True
    with Cons.prems show ?thesis
      by (auto simp: Let_def steady_Cons split: option.splits if_splits prod.splits)
  next
    case False
    then obtain parent rest where p: "parents = parent # rest" by (cases parents) auto
    from False Cons.prems obtain errors where e: "dedent_errors tb b c kind col block = Some errors"
      by (auto simp: Let_def split: option.splits)
    define d where "d = c\<lparr>cu_pending := cu_pending c @ (if newline then [] else [Newline]) @ [Dedent], cu_errors := cu_errors c @ errors\<rparr>"
    have st: "steady parents" using Cons.prems(2) p by (simp add: steady_Cons)
    from Cons.prems False p e consider
        v where "c' = d\<lparr>cu_errors := v, cu_blocks := parent\<lparr>bk_logical := col, bk_piped := False\<rparr> # rest\<rparr>" "bk_indent parent < col"
      | "line_loop tb b kind col True parents d = Some c'"
      by (auto simp: Let_def d_def split: if_splits)
    then show ?thesis
    proof cases
      case 1
      with st p show ?thesis by (auto simp: steady_Cons split: if_splits)
    next
      case 2
      from Cons.IH [OF this st] show ?thesis .
    qed
  qed
qed

lemma close_loop_steady:
  "close_loop tb b newline blocks c = Some c' \<Longrightarrow> steady blocks \<Longrightarrow> steady (cu_blocks c')"
proof (induction blocks arbitrary: newline c)
  case Nil
  then show ?case by (simp add: steady_def)
next
  case (Cons block parents)
  show ?case
  proof (cases "parents = [] \<or> bk_depth block \<noteq> cu_depth c \<or> \<not> bk_in_brackets block")
    case True
    with Cons.prems show ?thesis by auto
  next
    case False
    with Cons show ?thesis by (auto simp: steady_Cons split: option.splits)
  qed
qed

lemma prepare_steady:
  assumes "prepare tb b c = Some c'" "steady (cu_blocks c)"
  shows "steady (cu_blocks c')"
proof (cases "cu_pending c \<noteq> [] \<or> length (tk_kind tb) \<le> cu_pos c")
  case True
  have "drop (length bs - 1) bs = [List.last bs]" if "bs \<noteq> []" for bs :: "block list"
    using that by (induction bs) (auto simp: drop_Cons')
  moreover have "List.last (cu_blocks c) \<in> set (cu_blocks c)" using assms(2) by (simp add: steady_def)
  ultimately have "steady (drop (length (cu_blocks c) - 1) (cu_blocks c))" using assms(2) by (simp add: steady_def)
  with True assms show ?thesis by (auto simp: prepare_def split: if_splits)
next
  case False
  let ?kind = "tk_kind tb ! cu_pos c"
  let ?started = "if cu_prepared c \<noteq> Some (cu_pos c) \<and> line_first_at tb (cu_pos c) \<and> 0 < cu_pos c
    then line_start_layout tb b ?kind (c\<lparr>cu_prepared := Some (cu_pos c)\<rparr>) else Some c"
  from False assms(1) obtain d where d: "?started = Some d"
    and c': "(if cu_pending d \<noteq> [] then Some d else if closes ?kind \<or> ?kind = TStrMid then close_nested_at_closer tb b d else Some d) = Some c'"
    by (auto simp: prepare_def Let_def split: option.splits)
  have "steady (cu_blocks d)"
    using d assms(2) by (auto simp: line_start_layout_def Let_def dest!: line_loop_steady split: bind_splits if_splits)
  with c' show ?thesis by (auto simp: close_nested_at_closer_def dest: close_loop_steady split: if_splits)
qed

lemma bump_steady: "bump tb b c = Some c' \<Longrightarrow> steady (cu_blocks c) \<Longrightarrow> steady (cu_blocks c')"
proof -
  assume b: "bump tb b c = Some c'" "steady (cu_blocks c)"
  from b(1) obtain d where d: "prepare tb b c = Some d" by (auto simp: bump_def)
  from prepare_steady [OF d b(2)] have st: "steady (cu_blocks d)" .
  have mark: "cu_blocks e = cu_blocks d \<Longrightarrow> steady (cu_blocks (mark_piped k e))" for k e
    using st by (auto simp: mark_piped_def steady_Cons split: list.splits)
  have "cu_blocks c' = cu_blocks d \<or> (\<exists>k e. cu_blocks e = cu_blocks d \<and> cu_blocks c' = cu_blocks (mark_piped k e))"
  proof (cases "cu_pending d = [] \<and> cu_pos d < length (tk_kind tb)")
    case True
    let ?k = "tk_kind tb ! cu_pos d"
    let ?e = "if opens ?k then d\<lparr>cu_depth := (if cu_depth d = - 1 then - 1 else cu_depth d + 1)\<rparr>
      else if closes ?k then d\<lparr>cu_depth := (if cu_depth d = 0 then 0 else cu_depth d - 1)\<rparr> else d"
    have "cu_blocks ?e = cu_blocks d" by simp
    moreover have "cu_blocks c' = cu_blocks (mark_piped ?k ?e)"
      using b(1) d True by (auto simp: bump_def Let_def)
    ultimately show ?thesis by blast
  next
    case False
    with b(1) d show ?thesis by (cases "cu_pending d") (auto simp: bump_def)
  qed
  with st mark show ?thesis by auto
qed

lemma force_open_steady: "force_open tb h c = Some c' \<Longrightarrow> steady (cu_blocks c) \<Longrightarrow> steady (cu_blocks c')"
  by (auto simp: force_open_def Let_def steady_Cons bind_eq_Some_conv) (simp_all add: steady_def)

lemma open_suite_steady: "open_suite tb closure c = Some (k, c') \<Longrightarrow> steady (cu_blocks c) \<Longrightarrow> steady (cu_blocks c')"
proof -
  assume o: "open_suite tb closure c = Some (k, c')" "steady (cu_blocks c)"
  have forced: "steady (cu_blocks c')" if "force_open tb h d = Some c'" "cu_blocks d = cu_blocks c" for h d
    using force_open_steady [OF that(1)] that(2) o(2) by simp
  show ?thesis
  proof (cases "is_resync tb (cu_pos c) \<or> cu_pos c < length (tk_kind tb) \<and> \<not> line_first_at tb (cu_pos c)")
    case True
    with o show ?thesis by (auto simp: open_suite_def split: if_splits)
  next
    case False
    then obtain block rest where bk: "cu_blocks c = block # rest" using o(2) by (cases "cu_blocks c") (auto simp: steady_def)
    from False o(1) bk show ?thesis
      by (auto simp: open_suite_def Let_def bind_eq_Some_conv o(2) [unfolded bk] intro: forced split: if_splits)
  qed
qed

lemma apply_op_steady: "apply_op tb b op c = Some (items, c') \<Longrightarrow> steady (cu_blocks c) \<Longrightarrow> steady (cu_blocks c')"
proof (cases op)
  case DoBump
  moreover assume "apply_op tb b op c = Some (items, c')" "steady (cu_blocks c)"
  ultimately show ?thesis
    by (auto simp: apply_op_def deliver_def peek_def Let_def bind_eq_Some_conv intro: bump_steady prepare_steady)
next
  case DoPeek
  moreover assume "apply_op tb b op c = Some (items, c')" "steady (cu_blocks c)"
  ultimately show ?thesis by (auto simp: apply_op_def peek_def Let_def intro: prepare_steady)
next
  case (DoOpenSuite closure)
  moreover assume "apply_op tb b op c = Some (items, c')" "steady (cu_blocks c)"
  ultimately show ?thesis by (auto simp: apply_op_def intro: open_suite_steady)
next
  case DoOpenArm
  moreover assume "apply_op tb b op c = Some (items, c')" "steady (cu_blocks c)"
  ultimately show ?thesis
    by (auto simp: apply_op_def open_arm_def close_inline_def dest!: open_suite_steady split: if_splits)
next
  case DoCloseInline
  moreover assume "apply_op tb b op c = Some (items, c')" "steady (cu_blocks c)"
  ultimately show ?thesis by (auto simp: apply_op_def close_inline_def)
qed

lemma run_ops_steady: "run_ops tb b ops c = Some (items, c') \<Longrightarrow> steady (cu_blocks c) \<Longrightarrow> steady (cu_blocks c')"
proof (induction ops arbitrary: c items)
  case (Cons op ops)
  then show ?case by (auto simp: bind_eq_Some_conv dest: apply_op_steady)
qed simp

lemma new_steady: "steady (cu_blocks cursor_new)"
  by (simp add: steady_def cursor_new_def root_block_def)

section \<open>The start of a line\<close>

text \<open>The loop once it has left a block: it leaves the blocks to the right of the line, then reports a line at no level.\<close>

lemma line_loop_dedents:
  assumes "col \<noteq> - 1"
  shows "\<forall>x\<in>set (block # parents). flat_block (cu_depth c) x \<Longrightarrow> steady (block # parents) \<Longrightarrow>
    col < bk_indent block \<Longrightarrow>
    \<exists>c'. line_loop tb b kind col newline (block # parents) c = Some c' \<and>
      (let left = dropWhile (\<lambda>i. col < i) (map bk_indent parents) in
       cu_pending c' = cu_pending c @ (if newline then [] else [Newline]) @
         replicate (length (block # parents) - length left) Dedent \<and>
       levels c' = left \<and>
       cu_errors c' = cu_errors c @ (if hd left < col then [(InvalidDedent, cu_pos c, NotActiveLevel (unat col + 1))] else []))"
proof (induction parents arbitrary: block newline c)
  case Nil
  then show ?case by (simp add: steady_def)
next
  case (Cons parent rest)
  let ?d = "c\<lparr>cu_pending := cu_pending c @ (if newline then [] else [Newline]) @ [Dedent]\<rparr>"
  have flat: "flat_block (cu_depth c) block" "flat_block (cu_depth c) parent" "\<not> bk_in_brackets block" "bk_depth block = cu_depth c"
    "bk_depth parent = cu_depth c"
    using Cons.prems(1) by (auto simp: flat_block_def)
  have cont: "continues tb e kind col parent = Some (False, [])" if "bk_indent parent = col" for e
    using Cons.prems(2) that by (intro continues_at_level) (simp add: steady_Cons)
  have plus: "plus_one col = Some (unat col + 1)" using assms by (simp add: plus_one_def)
  have nle: "(bk_indent block \<le> col) = False" "(bk_indent block < col) = False" using Cons.prems(3) by auto
  have left: "line_loop tb b kind col newline (block # parent # rest) c =
      (if bk_indent parent < col
       then Some (?d\<lparr>cu_errors := cu_errors c @ [(InvalidDedent, cu_pos c, NotActiveLevel (unat col + 1))],
                     cu_blocks := parent\<lparr>bk_logical := col, bk_piped := False\<rparr> # rest\<rparr>)
       else line_loop tb b kind col True (parent # rest) ?d)"
    using nle flat dedent_errors_flat [OF flat(1)] plus
    by (subst line_loop.simps(2)) (simp add: Let_def del: line_loop.simps)
  consider (report) "bk_indent parent < col" | (at) "bk_indent parent = col" | (on) "col < bk_indent parent" by fastforce
  then show ?case
  proof cases
    case report
    with left show ?thesis by (simp add: levels_def Let_def)
  next
    case at
    then have "line_loop tb b kind col True (parent # rest) ?d =
        Some (?d\<lparr>cu_pending := cu_pending ?d, cu_blocks := parent\<lparr>bk_logical := col, bk_piped := False\<rparr> # rest\<rparr>)"
      using flat cont [OF at] by (simp add: Let_def)
    with left at show ?thesis by (simp add: levels_def Let_def)
  next
    case on
    have "\<forall>x\<in>set (parent # rest). flat_block (cu_depth ?d) x" "steady (parent # rest)"
      using Cons.prems(1,2) by (simp_all add: steady_Cons)
    from Cons.IH [OF this on, of True] obtain c' where
      c': "line_loop tb b kind col True (parent # rest) ?d = Some c'"
      and p: "cu_pending c' = cu_pending ?d @ replicate (length (parent # rest) - length (dropWhile (\<lambda>i. col < i) (map bk_indent rest))) Dedent"
      and r: "levels c' = dropWhile (\<lambda>i. col < i) (map bk_indent rest)"
        "cu_errors c' = cu_errors c @ (if hd (dropWhile (\<lambda>i. col < i) (map bk_indent rest)) < col
           then [(InvalidDedent, cu_pos c, NotActiveLevel (unat col + 1))] else [])"
      by (auto simp: Let_def)
    have dw: "dropWhile (\<lambda>i. col < i) (map bk_indent (parent # rest)) = dropWhile (\<lambda>i. col < i) (map bk_indent rest)" using on by simp
    have "length (dropWhile (\<lambda>i. col < i) (map bk_indent rest)) \<le> length (parent # rest)"
      using length_dropWhile_le [of "\<lambda>i. col < i" "map bk_indent rest"] by simp
    then have "length (block # parent # rest) - length (dropWhile (\<lambda>i. col < i) (map bk_indent rest)) =
        Suc (length (parent # rest) - length (dropWhile (\<lambda>i. col < i) (map bk_indent rest)))" by simp
    then have "cu_pending c' = cu_pending c @ (if newline then [] else [Newline]) @
        replicate (length (block # parent # rest) - length (dropWhile (\<lambda>i. col < i) (map bk_indent rest))) Dedent"
      using p by (simp only: replicate_Suc) simp
    moreover have "line_loop tb b kind col newline (block # parent # rest) c = Some c'"
      using left on c' by (simp only: if_False not_less_iff_gr_or_eq) auto
    ultimately show ?thesis using r unfolding Let_def dw by blast
  qed
qed

lemma offside_end:
  "stack \<noteq> [] \<Longrightarrow> \<not> col < hd stack \<Longrightarrow> offside stack col =
    (if hd stack < col then ([Newline, Indent], col # stack, False) else ([Newline], stack, False))"
  by (cases stack) (simp_all add: offside_def)

text \<open>C28. Outside brackets the cursor is the offside rule. For any cursor a parser can reach, whatever it called
  before, at the first token of a line (not the first of the file, and indented by fewer than 65535 columns),
  outside brackets and with no suite nested in brackets open: a line that continues the one before, by a
  leading \<open>.name\<close> or \<open>|>\<close> further right than it, queues nothing and leaves the blocks alone, and reports just the
  error of a suite still open on the same line or of a \<open>.name\<close> after a \<open>|>\<close>. Any other line queues exactly the
  layout of the rule of the language on the stack of active levels, leaves the rule's stack, and reports
  \<open>invalid-dedent\<close>, with the line's one-based column, exactly when the rule finds the line at no active level.\<close>

theorem line_start_offside:
  assumes "run_ops tb b ops cursor_new = Some (items, c)" "cu_depth c = 0" "\<forall>x\<in>set (cu_blocks c). flat_block 0 x"
    "get_at (tk_kind tb) (cu_pos c) = Some kind" "0 < cu_pos c" "column tb (cu_pos c) = Some col" "col \<noteq> - 1"
  shows "\<exists>c'. line_start_layout tb b kind c = Some c' \<and>
    (if continuation tb c kind col
     then cu_pending c' = cu_pending c \<and> cu_blocks c' = cu_blocks c \<and>
       cu_errors c' = cu_errors c @ continuation_errors c (leading_dot tb (cu_pos c) kind)
     else case offside (levels c) col of (queue, stack, bad) \<Rightarrow>
       cu_pending c' = cu_pending c @ queue \<and> levels c' = stack \<and>
       cu_errors c' = cu_errors c @ (if bad then [(InvalidDedent, cu_pos c, NotActiveLevel (unat col + 1))] else []))"
proof -
  have st: "steady (cu_blocks c)" by (rule run_ops_steady [OF assms(1) new_steady])
  then obtain block parents where bk: "cu_blocks c = block # parents" by (cases "cu_blocks c") (auto simp: steady_def)
  have start: "line_start_layout tb b kind c = line_loop tb b kind col False (block # parents) c"
    using assms(2,6) bk by (simp add: line_start_layout_def)
  have pos: "cu_pos c < length (tk_kind tb)" using assms(4) by (simp add: get_at_def split: if_splits)
  note cont = continues_continuation [OF bk assms(5) pos, of kind col]
  show ?thesis
  proof (cases "col < bk_indent block")
    case True
    have no: "\<not> continuation tb c kind col" using st True bk by (auto simp: continuation_def steady_Cons)
    from line_loop_dedents [OF assms(7), of block parents c tb b kind False] assms(2,3) bk st True
    obtain c' where c': "line_loop tb b kind col False (block # parents) c = Some c'"
      "cu_pending c' = cu_pending c @ [Newline] @ replicate (length (block # parents) - length (dropWhile (\<lambda>i. col < i) (map bk_indent parents))) Dedent"
      "levels c' = dropWhile (\<lambda>i. col < i) (map bk_indent parents)"
      "cu_errors c' = cu_errors c @ (if hd (dropWhile (\<lambda>i. col < i) (map bk_indent parents)) < col
         then [(InvalidDedent, cu_pos c, NotActiveLevel (unat col + 1))] else [])"
      by (auto simp: Let_def)
    have lv: "levels c = bk_indent block # map bk_indent parents" using bk by (simp add: levels_def)
    have ne: "dropWhile (\<lambda>i. col < i) (map bk_indent parents) \<noteq> bk_indent block # map bk_indent parents"
      using length_dropWhile_le [of "\<lambda>i. col < i" "map bk_indent parents"] by (metis Suc_n_not_le_n length_Cons)
    have "offside (levels c) col = (Newline # replicate (length (block # parents) - length (dropWhile (\<lambda>i. col < i) (map bk_indent parents))) Dedent,
       dropWhile (\<lambda>i. col < i) (map bk_indent parents), hd (dropWhile (\<lambda>i. col < i) (map bk_indent parents)) < col)"
      using True ne by (simp add: offside_def lv Let_def)
    with start c' no show ?thesis by simp
  next
    case False
    have d: "bk_depth block = cu_depth c" using assms(2,3) bk by (simp add: flat_block_def)
    show ?thesis
    proof (cases "continuation tb c kind col")
      case True
      with start cont d False bk show ?thesis by (simp add: not_less)
    next
      case no: False
      have "offside (levels c) col =
          (if bk_indent block < col then ([Newline, Indent], col # levels c, False) else ([Newline], levels c, False))"
        using offside_end [of "levels c" col] False bk by (simp add: levels_def)
      with start cont d False bk no show ?thesis by (simp add: Let_def levels_def not_less)
    qed
  qed
qed

end
