(* ===== verification/LayoutSamples.thy ===== *)
theory LayoutSamples
  imports Offside
begin

text \<open>
  The layout properties at concrete sources, and the one panic the cursor has: a line between the header
  of a closure and a body indented by 65535 columns or more.
\<close>

definition sample_tokens :: token_buf where
  "sample_tokens = \<lparr>tk_kind = [TIdent, TPunct Colon, TIdent, TIdent], tk_start = [0, 1, 5, 7], tk_end = [1, 2, 6, 8],
     line_first = [13], line_start = [0, 3, 7], line_tok = [0, 2, 3], line_indent = [0, 2, 0], line_flags = [0, 0, 0],
     com_start = [], com_end = [], com_kind = [], resync = []\<rparr>"

text \<open>The source \<open>f:\<close>, \<open>  x\<close>, \<open>y\<close>, on three lines, and what the lexer makes of it.\<close>

definition sample_source :: str where
  "sample_source = [102, 58, 10, 32, 32, 120, 10, 121]"

lemma sample_lex: "lex sample_unicode sample_source = Returned (sample_tokens, [])"
  by code_simp

definition layout_ops :: "cursor_op list" where
  "layout_ops = [DoBump, DoBump, DoOpenSuite False, DoBump, DoBump, DoBump, DoBump, DoBump, DoBump, DoBump]"

lemma layout_run:
  "map_option fst (run_ops sample_tokens sample_source layout_ops cursor_new) =
     Some [CToken 0, CToken 1, CLayout Newline 2, CLayout Indent 2, CToken 2, CLayout Newline 3, CLayout Dedent 3, CToken 3,
       CLayout Newline 4]"
  by code_simp

theorem layout_balanced_witness:
  "\<exists>items c. run_ops sample_tokens sample_source layout_ops cursor_new = Some (items, c) \<and>
     layouts items = [Newline, Indent, Newline, Dedent, Newline] \<and> level_from 0 (layouts items) \<noteq> None"
proof -
  from layout_run obtain items c where r: "run_ops sample_tokens sample_source layout_ops cursor_new = Some (items, c)"
    and i: "items = [CToken 0, CToken 1, CLayout Newline 2, CLayout Indent 2, CToken 2, CLayout Newline 3, CLayout Dedent 3,
      CToken 3, CLayout Newline 4]" by auto
  from layout_balanced [OF r] have "level_from 0 (layouts items) \<noteq> None" by blast
  moreover have "layouts items = [Newline, Indent, Newline, Dedent, Newline]" by (simp add: i layouts_def)
  ultimately show ?thesis using r by blast
qed

lemma sample_source_ok:
  "utf8_valid sample_source" "length sample_source < 2 ^ 32" "\<forall>v\<in>set (line_indent sample_tokens). v \<noteq> - 1"
  by (simp_all add: sample_source_def sample_tokens_def)

theorem layout_total_witness:
  "\<exists>items c. run_ops sample_tokens sample_source [DoOpenArm, DoBump, DoCloseInline] cursor_new = Some (items, c)"
  by (rule layout_total [OF sample_source_ok(1,2) sample_lex sample_source_ok(3)])

theorem layout_reaches_end_witness:
  "\<exists>rest c' d. run_ops sample_tokens sample_source (replicate 26 DoBump) cursor_new = Some (rest, c') \<and>
     peek sample_tokens sample_source c' = Some (CEof, d)"
proof -
  have "run_ops sample_tokens sample_source [] cursor_new = Some ([], cursor_new)" by simp
  from layout_reaches_end [OF sample_source_ok(1,2) sample_lex sample_source_ok(3) this] show ?thesis
    by (simp add: sample_tokens_def del: replicate.simps)
qed

text \<open>At \<open>y\<close>, with the suite of \<open>f:\<close> open.\<close>

definition sample_cursor :: cursor where
  "sample_cursor = cursor_new\<lparr>cu_pos := 3, cu_blocks := [root_block\<lparr>bk_indent := 2, bk_logical := 2\<rparr>, root_block],
     cu_prepared := Some 2, cu_opening := None\<rparr>"

lemma sample_cursor_reached:
  "map_option snd (run_ops sample_tokens sample_source [DoBump, DoBump, DoOpenSuite False, DoBump, DoBump, DoBump] cursor_new) =
     Some sample_cursor"
  by code_simp

theorem line_start_offside_witness:
  "\<exists>c'. line_start_layout sample_tokens sample_source TIdent sample_cursor = Some c' \<and> cu_pending c' = [Newline, Dedent]"
proof -
  from sample_cursor_reached obtain items where
    r: "run_ops sample_tokens sample_source [DoBump, DoBump, DoOpenSuite False, DoBump, DoBump, DoBump] cursor_new = Some (items, sample_cursor)"
    by auto
  have at: "column sample_tokens (cu_pos sample_cursor) = Some 0"
    "get_at (tk_kind sample_tokens) (cu_pos sample_cursor) = Some TIdent" by code_simp+
  have no: "\<not> continuation sample_tokens sample_cursor TIdent 0" by (simp add: continuation_def leading_dot_def)
  from line_start_offside [OF r _ _ at(2) _ at(1)] no show ?thesis
    by (auto simp: sample_cursor_def cursor_new_def root_block_def flat_block_def levels_def offside_def)
qed

section \<open>A body too wide\<close>

text \<open>
  The tokens of \<open>f(|x|:\<close>, a body \<open>b\<close> on the next line indented by 65535 spaces or more (the column
  saturates), and \<open>y\<close> at column 5 on the line after.
\<close>

definition wide_tokens :: token_buf where
  "wide_tokens = \<lparr>tk_kind = [TIdent, TDelim LParen, TPunct Colon, TIdent, TIdent], tk_start = [0, 1, 2, 70000, 70010],
     tk_end = [1, 2, 3, 70001, 70011], line_first = [25], line_start = [0, 4, 70005], line_tok = [0, 3, 4],
     line_indent = [0, - 1, 5], line_flags = [0, 0, 0], com_start = [], com_end = [], com_kind = [], resync = []\<rparr>"

text \<open>A column overflows in a message: when the body of a closure nested in brackets starts at column 65535,
  a later line between the header's column and the body's makes \<open>line_start\<close> compute \<open>block.indent + 1\<close> in
  \<open>u16\<close>, which panics in a checked build (and shows column 0 in an unchecked one).\<close>

lemma wide_closure_body_panics:
  "run_ops wide_tokens [] [DoBump, DoBump, DoBump, DoOpenSuite True, DoBump, DoBump, DoBump] cursor_new \<noteq> None \<and>
   run_ops wide_tokens [] [DoBump, DoBump, DoBump, DoOpenSuite True, DoBump, DoBump, DoBump, DoPeek] cursor_new = None"
  by code_simp

end
