(* ===== verification/TyTree.thy ===== *)
theory TyTree
  imports HdPrelude
begin

text \<open>
  \<^verbatim>\<open>crates/hd_types/src/pool.rs\<close>, the types as the compiler reads them: \<open>TyData\<close> with the lists and
  rows it names in place of their pool indexes. Interning makes equal contents one index, so \<open>==\<close> on
  \<open>Ty\<close>, \<open>TyList\<close> and \<open>RowId\<close> is equality of these trees; what interning itself does to a type (the
  one-parameter-per-element form of a function type, the order of bindings and of a row's keys) is in
  \<open>intern_ty\<close> and \<open>intern_row\<close>. A row's keys are ordered by their pool index: the argument \<open>ix\<close> gives the
  index of each type. The cached meta word of an item is the function \<open>meta_of\<close>.
\<close>

type_synonym def_id = u32

datatype (plugins only: code size) prim =
    I8 | I16 | I32 | I64 | U8 | U16 | U32 | U64 | Usize | F32 | F64 | PrimBool | PrimChar | PrimString

definition is_integer :: "prim \<Rightarrow> bool" where
  "is_integer p = (p \<in> {I8, I16, I32, I64, U8, U16, U32, U64, Usize})"

definition is_unsigned :: "prim \<Rightarrow> bool" where
  "is_unsigned p = (p \<in> {U8, U16, U32, U64, Usize})"

definition is_float :: "prim \<Rightarrow> bool" where
  "is_float p = (p \<in> {F32, F64})"

datatype (plugins only: code size) const_value = ConstInt prim u64 | ConstBool bool | ConstChar u32 | ConstStr u32

fun const_prim :: "const_value \<Rightarrow> prim" where
  "const_prim (ConstInt p bits) = p"
| "const_prim (ConstBool b) = PrimBool"
| "const_prim (ConstChar c) = PrimChar"
| "const_prim (ConstStr s) = PrimString"

datatype (plugins only: code size) inputs = Fixed | Rest | TupleInputs

record param_ref =
  pr_owner :: def_id
  pr_index :: u16

text \<open>A dependency map's input and result lifetimes, or \<open>FnDeps::NONE\<close>.\<close>

type_synonym fn_deps = "(u32 list \<times> u32 list) option"

datatype (plugins only: code size) ty =
    Prim prim
  | Never
  | Poison
  | Adt def_id "ty list"
  | Tuple "ty list" "ty option"
  | Union "ty list"
  | OptionTy ty
  | Fn "ty list" ty row bool inputs fn_deps
  | TraitValue def_id "ty list" "(def_id \<times> ty) list"
  | Opaque def_id u32 bool "ty list" ty
  | Param param_ref
  | Const const_value
  | Assoc def_id def_id ty "ty list"
  | Mut ty
  | RefTy ty bool bool
  | Infer nat
  | Canon u8
  | RowTy row
  | Context row
and row = Row "ty list" "param_ref list"

primrec row_keys :: "row \<Rightarrow> ty list" where
  "row_keys (Row keys params) = keys"

primrec row_params :: "row \<Rightarrow> param_ref list" where
  "row_params (Row keys params) = params"

lemma size_snd_list [termination_simp]:
  "b \<in> set bs \<Longrightarrow> size (snd b) < Suc (n + size_list (size_prod (\<lambda>_. 0) size) bs)"
  by (induction bs) (auto split: prod.splits)

section \<open>The meta word\<close>

definition HAS_INFER :: u32 where "HAS_INFER = 1"
definition HAS_POISON :: u32 where "HAS_POISON = 2"
definition HAS_PARAM :: u32 where "HAS_PARAM = 4"
definition HAS_ASSOC :: u32 where "HAS_ASSOC = 8"
definition HAS_CANON :: u32 where "HAS_CANON = 16"
definition HAS_REF :: u32 where "HAS_REF = 32"
definition HAS_OPAQUE :: u32 where "HAS_OPAQUE = 64"
definition HAS_FN :: u32 where "HAS_FN = 128"

fun meta_of :: "ty \<Rightarrow> u32" and row_meta :: "row \<Rightarrow> u32" where
  "meta_of (Prim p) = 0"
| "meta_of Never = 0"
| "meta_of Poison = HAS_POISON"
| "meta_of (Adt d args) = fold (\<lambda>x m. m OR meta_of x) args 0"
| "meta_of (Tuple elems rest) =
     fold (\<lambda>x m. m OR meta_of x) elems 0 OR (case rest of None \<Rightarrow> 0 | Some r \<Rightarrow> meta_of r)"
| "meta_of (Union members) = fold (\<lambda>x m. m OR meta_of x) members 0"
| "meta_of (OptionTy t) = meta_of t"
| "meta_of (Fn params result row s i d) =
     HAS_FN OR fold (\<lambda>x m. m OR meta_of x) params 0 OR meta_of result OR row_meta row"
| "meta_of (TraitValue d args bindings) =
     fold (\<lambda>b m. m OR meta_of (snd b)) bindings (fold (\<lambda>x m. m OR meta_of x) args 0)"
| "meta_of (Opaque ow site borrows args bound) =
     HAS_OPAQUE OR (if borrows then HAS_REF else 0) OR fold (\<lambda>x m. m OR meta_of x) args 0 OR meta_of bound"
| "meta_of (Param p) = HAS_PARAM"
| "meta_of (Const v) = 0"
| "meta_of (Assoc a tr self args) = HAS_ASSOC OR meta_of self OR fold (\<lambda>x m. m OR meta_of x) args 0"
| "meta_of (Mut t) = meta_of t"
| "meta_of (RefTy t m c) = HAS_REF OR meta_of t"
| "meta_of (Infer v) = HAS_INFER"
| "meta_of (Canon i) = HAS_CANON"
| "meta_of (RowTy r) = row_meta r"
| "meta_of (Context r) = row_meta r"
| "row_meta (Row keys params) =
     fold (\<lambda>x m. m OR meta_of x) keys 0 OR (if params = [] then 0 else HAS_PARAM)"

definition has_infer :: "ty \<Rightarrow> bool" where "has_infer t = (meta_of t AND HAS_INFER \<noteq> 0)"
definition has_poison :: "ty \<Rightarrow> bool" where "has_poison t = (meta_of t AND HAS_POISON \<noteq> 0)"
definition has_param :: "ty \<Rightarrow> bool" where "has_param t = (meta_of t AND HAS_PARAM \<noteq> 0)"
definition has_ref :: "ty \<Rightarrow> bool" where "has_ref t = (meta_of t AND HAS_REF \<noteq> 0)"
definition has_opaque :: "ty \<Rightarrow> bool" where "has_opaque t = (meta_of t AND HAS_OPAQUE \<noteq> 0)"
definition has_assoc :: "ty \<Rightarrow> bool" where "has_assoc t = (meta_of t AND HAS_ASSOC \<noteq> 0)"
definition has_canon :: "ty \<Rightarrow> bool" where "has_canon t = (meta_of t AND HAS_CANON \<noteq> 0)"
definition has_fn :: "ty \<Rightarrow> bool" where "has_fn t = (meta_of t AND HAS_FN \<noteq> 0)"

section \<open>Interning\<close>

fun intern_ty :: "ty \<Rightarrow> ty" where
  "intern_ty (Fn params result row suspends TupleInputs deps) =
     (case params of
        [Tuple elems None] \<Rightarrow> Fn elems result row suspends Fixed deps
      | [Tuple elems (Some r)] \<Rightarrow> Fn (elems @ [r]) result row suspends Rest deps
      | _ \<Rightarrow> Fn params result row suspends TupleInputs deps)"
| "intern_ty (TraitValue d args bindings) = TraitValue d args (sort_key fst bindings)"
| "intern_ty t = t"

definition param_key :: "param_ref \<Rightarrow> nat" where
  "param_key p = unat (pr_owner p) * 2 ^ 16 + unat (pr_index p)"

fun flat_keys :: "ty \<Rightarrow> ty list" where
  "flat_keys (RowTy r) = row_keys r"
| "flat_keys t = [t]"

fun flat_params :: "ty \<Rightarrow> param_ref list" where
  "flat_params (RowTy r) = row_params r"
| "flat_params t = []"

definition intern_row :: "(ty \<Rightarrow> nat) \<Rightarrow> ty list \<Rightarrow> param_ref list \<Rightarrow> row" where
  "intern_row ix keys params =
     Row (remdups_adj (sort_key ix (concat (map flat_keys keys))))
         (remdups_adj (sort_key param_key (params @ concat (map flat_params keys))))"

fun inputs_tuple :: "ty list \<Rightarrow> inputs \<Rightarrow> ty" where
  "inputs_tuple params TupleInputs = (case params of [one] \<Rightarrow> one | _ \<Rightarrow> Tuple params None)"
| "inputs_tuple params Rest =
     (if params = [] then Tuple params None else Tuple (butlast params) (Some (last params)))"
| "inputs_tuple params Fixed = Tuple params None"

section \<open>Inference variables\<close>

fun ty_vars :: "ty \<Rightarrow> nat set" and row_vars :: "row \<Rightarrow> nat set" where
  "ty_vars (Infer v) = {v}"
| "ty_vars (Adt d args) = (\<Union>x\<in>set args. ty_vars x)"
| "ty_vars (Tuple elems rest) = (\<Union>x\<in>set elems. ty_vars x) \<union> (case rest of None \<Rightarrow> {} | Some r \<Rightarrow> ty_vars r)"
| "ty_vars (Union ms) = (\<Union>x\<in>set ms. ty_vars x)"
| "ty_vars (OptionTy t) = ty_vars t"
| "ty_vars (Fn ps r row s i d) = (\<Union>x\<in>set ps. ty_vars x) \<union> ty_vars r \<union> row_vars row"
| "ty_vars (TraitValue d args bs) = (\<Union>x\<in>set args. ty_vars x) \<union> (\<Union>b\<in>set bs. ty_vars (snd b))"
| "ty_vars (Opaque ow s b args bound) = (\<Union>x\<in>set args. ty_vars x) \<union> ty_vars bound"
| "ty_vars (Assoc a tr self args) = ty_vars self \<union> (\<Union>x\<in>set args. ty_vars x)"
| "ty_vars (Mut t) = ty_vars t"
| "ty_vars (RefTy t m c) = ty_vars t"
| "ty_vars (RowTy r) = row_vars r"
| "ty_vars (Context r) = row_vars r"
| "ty_vars _ = {}"
| "row_vars (Row keys params) = (\<Union>x\<in>set keys. ty_vars x)"

section \<open>The flags are what they say\<close>

lemma flag_or: "((a OR b) AND f = 0) = (a AND f = 0 \<and> b AND f = (0 :: u32))"
  by (simp add: bit.conj_disj_distrib2 or_eq_0_iff)

lemma flag_fold:
  "(fold (\<lambda>x m. m OR g x) xs m AND f = 0) = (m AND f = 0 \<and> (\<forall>x\<in>set xs. g x AND f = (0 :: u32)))"
  by (induction xs arbitrary: m) (auto simp: flag_or)

lemmas flag_words = HAS_INFER_def HAS_POISON_def HAS_PARAM_def HAS_ASSOC_def HAS_CANON_def HAS_REF_def
  HAS_OPAQUE_def HAS_FN_def

lemmas flags = flag_or flag_fold

lemma infer_flag:
  "(meta_of t AND HAS_INFER = 0) = (ty_vars t = {})"
  "(row_meta r AND HAS_INFER = 0) = (row_vars r = {})"
  by (induction t and r rule: meta_of_row_meta.induct)
    (auto simp: flags flag_words split: option.splits)

lemma has_infer_iff: "has_infer t \<longleftrightarrow> ty_vars t \<noteq> {}"
  by (simp add: has_infer_def infer_flag)

end
