(* ===== verification/InferTable.thy ===== *)
theory InferTable
  imports TyTree
begin

text \<open>
  \<^verbatim>\<open>crates/hd_types/src/unify.rs\<close>, the inference table: union-find over the variables of a body with
  union by rank, one binding and one kind per class, and a trail that undoes every write. The columns
  are lists, the trail has its last entry first. An operation that indexes a column past its end, or
  whose fuel runs out, is \<open>None\<close>; fuel bounds the two loops of a lookup (parent links and bindings).
\<close>

datatype (plugins only: code size) var_kind = General | IntLit | SignedIntLit | FloatLit

definition literal_default :: "var_kind \<Rightarrow> ty option" where
  "literal_default k =
     (case k of General \<Rightarrow> None | IntLit \<Rightarrow> Some (Prim Usize)
      | SignedIntLit \<Rightarrow> Some (Prim I32) | FloatLit \<Rightarrow> Some (Prim F64))"

datatype (plugins only: code size) unify_error =
    Mismatch ty ty
  | Occurs nat ty
  | KindError nat ty

datatype (plugins only: code size) undo =
    UndoBind nat
  | UndoParent nat nat
  | UndoRank nat nat
  | UndoKind nat var_kind
  | UndoRebind nat "ty option"

record table =
  it_parent :: "nat list"
  it_rank :: "nat list"
  it_binding :: "ty option list"
  it_kind :: "var_kind list"
  it_trail :: "undo list"

record trial_mark =
  tm_trail :: nat
  tm_vars :: nat

definition empty_table :: table where
  "empty_table = \<lparr>it_parent = [], it_rank = [], it_binding = [], it_kind = [], it_trail = []\<rparr>"

text \<open>\<open>xs[i] = x\<close>: a panic past the end.\<close>

definition set_at :: "'a list \<Rightarrow> nat \<Rightarrow> 'a \<Rightarrow> 'a list option" where
  "set_at xs i x = (if i < length xs then Some (xs[i := x]) else None)"

definition set_parent :: "table \<Rightarrow> nat \<Rightarrow> nat \<Rightarrow> table option" where
  "set_parent tb v p = map_option (\<lambda>c. tb\<lparr>it_parent := c\<rparr>) (set_at (it_parent tb) v p)"

definition set_rank :: "table \<Rightarrow> nat \<Rightarrow> nat \<Rightarrow> table option" where
  "set_rank tb v r = map_option (\<lambda>c. tb\<lparr>it_rank := c\<rparr>) (set_at (it_rank tb) v r)"

definition set_binding :: "table \<Rightarrow> nat \<Rightarrow> ty option \<Rightarrow> table option" where
  "set_binding tb v b = map_option (\<lambda>c. tb\<lparr>it_binding := c\<rparr>) (set_at (it_binding tb) v b)"

definition set_kind :: "table \<Rightarrow> nat \<Rightarrow> var_kind \<Rightarrow> table option" where
  "set_kind tb v k = map_option (\<lambda>c. tb\<lparr>it_kind := c\<rparr>) (set_at (it_kind tb) v k)"

definition log_undo :: "undo \<Rightarrow> table \<Rightarrow> table" where
  "log_undo u tb = tb\<lparr>it_trail := u # it_trail tb\<rparr>"

section \<open>Variables and classes\<close>

definition fresh :: "table \<Rightarrow> var_kind \<Rightarrow> (ty \<times> table) option" where
  "fresh tb kind =
     (let v = length (it_parent tb) in
      if v < 2 ^ 32 then
        Some (Infer v, tb\<lparr>it_parent := it_parent tb @ [v], it_rank := it_rank tb @ [0],
                          it_binding := it_binding tb @ [None], it_kind := it_kind tb @ [kind]\<rparr>)
      else None)"

primrec root :: "nat \<Rightarrow> table \<Rightarrow> nat \<Rightarrow> nat option" where
  "root 0 tb v = None"
| "root (Suc n) tb v =
     (case get_at (it_parent tb) v of
        None \<Rightarrow> None
      | Some p \<Rightarrow> if p = v then Some v else root n tb p)"

primrec shallow :: "nat \<Rightarrow> table \<Rightarrow> ty \<Rightarrow> ty option" where
  "shallow 0 tb t = None"
| "shallow (Suc n) tb t =
     (case t of
        Infer v \<Rightarrow>
          Option.bind (root (Suc n) tb v) (\<lambda>r. Option.bind (get_at (it_binding tb) r) (\<lambda>b.
            (case b of Some u \<Rightarrow> shallow n tb u | None \<Rightarrow> Some (Infer r))))
      | _ \<Rightarrow> Some t)"

section \<open>The trail\<close>

fun undo_entry :: "undo \<Rightarrow> table \<Rightarrow> table option" where
  "undo_entry (UndoBind v) tb = set_binding tb v None"
| "undo_entry (UndoParent v old) tb = set_parent tb v old"
| "undo_entry (UndoRank v old) tb = set_rank tb v old"
| "undo_entry (UndoKind v k) tb = set_kind tb v k"
| "undo_entry (UndoRebind v old) tb = set_binding tb v old"

definition snapshot :: "table \<Rightarrow> nat" where
  "snapshot tb = length (it_trail tb)"

primrec undo_entries :: "undo list \<Rightarrow> nat \<Rightarrow> table \<Rightarrow> table option" where
  "undo_entries [] s tb = Some tb"
| "undo_entries (u # us) s tb =
     (if s < Suc (length us) then Option.bind (undo_entry u (tb\<lparr>it_trail := us\<rparr>)) (undo_entries us s) else Some tb)"

definition rollback :: "nat \<Rightarrow> table \<Rightarrow> table option" where
  "rollback s tb = undo_entries (it_trail tb) s tb"

definition mark_trial :: "table \<Rightarrow> trial_mark" where
  "mark_trial tb = \<lparr>tm_trail = length (it_trail tb), tm_vars = length (it_parent tb)\<rparr>"

definition truncate_vars :: "nat \<Rightarrow> table \<Rightarrow> table" where
  "truncate_vars k tb = tb\<lparr>it_parent := take k (it_parent tb), it_rank := take k (it_rank tb),
     it_binding := take k (it_binding tb), it_kind := take k (it_kind tb)\<rparr>"

definition rollback_trial :: "trial_mark \<Rightarrow> table \<Rightarrow> table option" where
  "rollback_trial m tb = map_option (truncate_vars (tm_vars m)) (rollback (tm_trail m) tb)"

section \<open>The operations on a class\<close>

definition rebind :: "nat \<Rightarrow> table \<Rightarrow> ty \<Rightarrow> ty \<Rightarrow> table option" where
  "rebind n tb var t =
     (case var of
        Infer v \<Rightarrow> Option.bind (root n tb v) (\<lambda>r. Option.bind (get_at (it_binding tb) r) (\<lambda>old.
          set_binding (log_undo (UndoRebind r old) tb) r (Some t)))
      | _ \<Rightarrow> Some tb)"

definition alias_var :: "nat \<Rightarrow> table \<Rightarrow> ty \<Rightarrow> ty \<Rightarrow> table option" where
  "alias_var n tb var t =
     (case var of
        Infer v \<Rightarrow> Option.bind (root n tb v) (\<lambda>r. Option.bind (get_at (it_binding tb) r) (\<lambda>old.
          if old \<noteq> None then Some tb
          else Option.bind (shallow n tb t) (\<lambda>s. Option.bind (shallow n tb var) (\<lambda>s'.
            if s = s' then Some tb
            else set_binding (log_undo (UndoRebind r None) tb) r (Some t)))))
      | _ \<Rightarrow> Some tb)"

definition class_of :: "nat \<Rightarrow> table \<Rightarrow> ty \<Rightarrow> nat option option" where
  "class_of n tb t = (case t of Infer v \<Rightarrow> map_option Some (root n tb v) | _ \<Rightarrow> Some None)"

definition kind_of :: "nat \<Rightarrow> table \<Rightarrow> ty \<Rightarrow> var_kind option option" where
  "kind_of n tb t = Option.bind (shallow n tb t) (\<lambda>u.
     (case u of
        Infer v \<Rightarrow> Option.bind (root n tb v) (\<lambda>r. map_option Some (get_at (it_kind tb) r))
      | _ \<Rightarrow> Some None))"

definition var_count :: "table \<Rightarrow> nat" where
  "var_count tb = length (it_parent tb)"

primrec open_literals_in :: "nat \<Rightarrow> table \<Rightarrow> nat list \<Rightarrow> (ty \<times> var_kind) list option" where
  "open_literals_in n tb [] = Some []"
| "open_literals_in n tb (v # vs) = Option.bind (kind_of n tb (Infer v)) (\<lambda>k.
     map_option (\<lambda>out. (case k of Some q \<Rightarrow> if q \<noteq> General then (Infer v, q) # out else out | None \<Rightarrow> out))
       (open_literals_in n tb vs))"

definition open_literals_since :: "nat \<Rightarrow> table \<Rightarrow> nat \<Rightarrow> (ty \<times> var_kind) list option" where
  "open_literals_since n tb start = open_literals_in n tb [start..<length (it_parent tb)]"

definition mark_signed :: "nat \<Rightarrow> table \<Rightarrow> ty \<Rightarrow> table option" where
  "mark_signed n tb t = Option.bind (shallow n tb t) (\<lambda>u.
     (case u of
        Infer v \<Rightarrow> Option.bind (root n tb v) (\<lambda>r. Option.bind (get_at (it_kind tb) r) (\<lambda>k.
          if k = IntLit then set_kind (log_undo (UndoKind r IntLit) tb) r SignedIntLit else Some tb))
      | _ \<Rightarrow> Some tb))"

text \<open>The union of two unbound classes, by rank; the rank column holds bytes.\<close>

definition merged_kind :: "var_kind \<Rightarrow> var_kind \<Rightarrow> var_kind option" where
  "merged_kind kx ky =
     (if kx = General then Some ky
      else if ky = General then Some kx
      else if kx = FloatLit \<and> ky = FloatLit then Some FloatLit
      else if kx = FloatLit \<or> ky = FloatLit then None
      else if kx = SignedIntLit \<or> ky = SignedIntLit then Some SignedIntLit
      else Some IntLit)"

definition link :: "table \<Rightarrow> nat \<Rightarrow> nat \<Rightarrow> table option" where
  "link tb child rt = Option.bind (get_at (it_parent tb) child) (\<lambda>old.
     set_parent (log_undo (UndoParent child old) tb) child rt)"

definition grow_rank :: "table \<Rightarrow> nat \<Rightarrow> nat \<Rightarrow> table option" where
  "grow_rank tb rt r =
     (if r + 1 < 256 then set_rank (log_undo (UndoRank rt r) tb) rt (r + 1) else None)"

definition merge_kind :: "table \<Rightarrow> nat \<Rightarrow> var_kind \<Rightarrow> table option" where
  "merge_kind tb rt merged = Option.bind (get_at (it_kind tb) rt) (\<lambda>kr.
     if merged \<noteq> kr then set_kind (log_undo (UndoKind rt kr) tb) rt merged else Some tb)"

definition union_classes :: "table \<Rightarrow> nat \<Rightarrow> nat \<Rightarrow> var_kind \<Rightarrow> table option" where
  "union_classes tb x y merged =
     Option.bind (get_at (it_rank tb) x) (\<lambda>rx. Option.bind (get_at (it_rank tb) y) (\<lambda>ry.
       let (child, rt) = (if ry < rx then (y, x) else (x, y)) in
       Option.bind (link tb child rt) (\<lambda>tb.
         Option.bind (if rx = ry then grow_rank tb rt ry else Some tb) (\<lambda>tb.
           merge_kind tb rt merged))))"

end
