(* ===== verification/Unify.thy ===== *)
theory Unify
  imports InferTable
begin

text \<open>
  \<^verbatim>\<open>crates/hd_types/src/unify.rs\<close>, the functions that read types through the table: \<open>resolve\<close>,
  \<open>resolve_row\<close>, \<open>occurs\<close>, \<open>bind\<close> and \<open>unify\<close> with its helpers. \<open>None\<close> is a panic or used-up fuel; fuel
  bounds the depth of the recursion and the loops below it. A unification that fails returns its error
  with the table as the failure left it, since the caller rolls it back.
\<close>

primrec map_opt :: "('a \<Rightarrow> 'b option) \<Rightarrow> 'a list \<Rightarrow> 'b list option" where
  "map_opt f [] = Some []"
| "map_opt f (x # xs) = Option.bind (f x) (\<lambda>y. map_option ((#) y) (map_opt f xs))"

primrec any_opt :: "('a \<Rightarrow> bool option) \<Rightarrow> 'a list \<Rightarrow> bool option" where
  "any_opt f [] = Some False"
| "any_opt f (x # xs) = Option.bind (f x) (\<lambda>b. if b then Some True else any_opt f xs)"

section \<open>Resolving\<close>

definition resolve_row_by :: "(ty \<Rightarrow> ty option) \<Rightarrow> (ty \<Rightarrow> nat) \<Rightarrow> row \<Rightarrow> row option" where
  "resolve_row_by f ix row =
     (if \<not> list_ex has_infer (row_keys row) then Some row
      else map_option (\<lambda>keys. intern_row ix keys (row_params row)) (map_opt f (row_keys row)))"

definition resolve_parts :: "(ty \<Rightarrow> ty option) \<Rightarrow> (row \<Rightarrow> row option) \<Rightarrow> ty \<Rightarrow> ty option" where
  "resolve_parts r rr t =
     (case t of
        Adt d args \<Rightarrow> map_option (Adt d) (map_opt r args)
      | Opaque ow site borrows args bound \<Rightarrow> Option.bind (map_opt r args) (\<lambda>args'.
          map_option (Opaque ow site borrows args') (r bound))
      | Tuple elems rest \<Rightarrow> Option.bind (map_opt r elems) (\<lambda>elems'.
          (case rest of None \<Rightarrow> Some (Tuple elems' None)
           | Some x \<Rightarrow> map_option (\<lambda>x'. Tuple elems' (Some x')) (r x)))
      | Union members \<Rightarrow> map_option Union (map_opt r members)
      | OptionTy i \<Rightarrow> map_option OptionTy (r i)
      | Mut i \<Rightarrow> map_option Mut (r i)
      | RefTy i m c \<Rightarrow> map_option (\<lambda>i'. RefTy i' m c) (r i)
      | Fn params result row suspends ins deps \<Rightarrow>
          Option.bind (map_opt r params) (\<lambda>params'. Option.bind (r result) (\<lambda>result'.
            map_option (\<lambda>row'. Fn params' result' row' suspends ins deps) (rr row)))
      | RowTy row \<Rightarrow> map_option RowTy (rr row)
      | Context row \<Rightarrow> map_option Context (rr row)
      | TraitValue d args bindings \<Rightarrow> Option.bind (map_opt r args) (\<lambda>args'.
          map_option (TraitValue d args') (map_opt (\<lambda>(d, x). map_option (Pair d) (r x)) bindings))
      | Assoc a tr self args \<Rightarrow> Option.bind (r self) (\<lambda>self'.
          map_option (Assoc a tr self') (map_opt r args))
      | _ \<Rightarrow> Some t)"

primrec resolve :: "nat \<Rightarrow> (ty \<Rightarrow> nat) \<Rightarrow> table \<Rightarrow> ty \<Rightarrow> ty option" where
  "resolve 0 ix tb t = None"
| "resolve (Suc n) ix tb t = Option.bind (shallow (Suc n) tb t) (\<lambda>u.
     if has_infer u then
       map_option intern_ty (resolve_parts (resolve n ix tb) (resolve_row_by (resolve n ix tb) ix) u)
     else Some u)"

definition resolve_row :: "nat \<Rightarrow> (ty \<Rightarrow> nat) \<Rightarrow> table \<Rightarrow> row \<Rightarrow> row option" where
  "resolve_row n ix tb = resolve_row_by (resolve n ix tb) ix"

section \<open>The occurs check\<close>

text \<open>The parts of a type the occurs check looks into, in its order.\<close>

fun occurs_parts :: "ty \<Rightarrow> ty list" where
  "occurs_parts (Adt d args) = args"
| "occurs_parts (Opaque ow site borrows args bound) = bound # args"
| "occurs_parts (Tuple elems rest) = elems @ (case rest of None \<Rightarrow> [] | Some r \<Rightarrow> [r])"
| "occurs_parts (Union members) = members"
| "occurs_parts (OptionTy i) = [i]"
| "occurs_parts (Mut i) = [i]"
| "occurs_parts (RefTy i m c) = [i]"
| "occurs_parts (Fn params result row suspends ins deps) = result # params"
| "occurs_parts t = []"

primrec occurs :: "nat \<Rightarrow> table \<Rightarrow> nat \<Rightarrow> ty \<Rightarrow> bool option" where
  "occurs 0 tb v t = None"
| "occurs (Suc n) tb v t = Option.bind (shallow (Suc n) tb t) (\<lambda>u.
     (case u of
        Infer w \<Rightarrow> map_option (\<lambda>r. r = v) (root (Suc n) tb w)
      | _ \<Rightarrow> any_opt (occurs n tb v) (occurs_parts u)))"

section \<open>Binding\<close>

type_synonym unified = "(table \<times> unify_error option) option"

definition okay :: "table \<Rightarrow> unified" where "okay tb = Some (tb, None)"

definition fails :: "table \<Rightarrow> unify_error \<Rightarrow> unified" where "fails tb e = Some (tb, Some e)"

text \<open>The \<open>?\<close> operator.\<close>

definition and_then :: "unified \<Rightarrow> (table \<Rightarrow> unified) \<Rightarrow> unified" where
  "and_then r k = (case r of Some (tb, None) \<Rightarrow> k tb | _ \<Rightarrow> r)"

definition kind_takes :: "var_kind \<Rightarrow> ty \<Rightarrow> bool" where
  "kind_takes k t =
     (k = General \<or>
      (case t of
         Poison \<Rightarrow> True
       | Never \<Rightarrow> True
       | Prim p \<Rightarrow> (case k of IntLit \<Rightarrow> is_integer p | SignedIntLit \<Rightarrow> is_integer p | _ \<Rightarrow> is_float p)
       | _ \<Rightarrow> False))"

definition bind_var :: "nat \<Rightarrow> table \<Rightarrow> nat \<Rightarrow> ty \<Rightarrow> unified" where
  "bind_var n tb v t = Option.bind (occurs n tb v t) (\<lambda>occ.
     if occ then fails tb (Occurs v t)
     else Option.bind (get_at (it_kind tb) v) (\<lambda>k.
       if \<not> kind_takes k t then fails tb (KindError v t)
       else Option.bind (set_binding tb v (Some t)) (\<lambda>tb. okay (log_undo (UndoBind v) tb))))"

definition bind_root :: "nat \<Rightarrow> table \<Rightarrow> nat \<Rightarrow> ty \<Rightarrow> unified" where
  "bind_root n tb v t = Option.bind (root n tb v) (\<lambda>r. bind_var n tb r t)"

section \<open>Unification\<close>

fun infer_of :: "ty \<Rightarrow> nat option" where
  "infer_of (Infer v) = Some v"
| "infer_of t = None"

fun mut_of :: "ty \<Rightarrow> ty option" where
  "mut_of (Mut t) = Some t"
| "mut_of t = None"

fun trait_of :: "ty \<Rightarrow> def_id option" where
  "trait_of (TraitValue d args bindings) = Some d"
| "trait_of t = None"

definition is_general :: "nat \<Rightarrow> table \<Rightarrow> nat \<Rightarrow> bool option" where
  "is_general n tb v = Option.bind (root n tb v) (\<lambda>r. map_option (\<lambda>k. k = General) (get_at (it_kind tb) r))"

definition unify_vars :: "nat \<Rightarrow> table \<Rightarrow> nat \<Rightarrow> nat \<Rightarrow> ty \<Rightarrow> ty \<Rightarrow> unified" where
  "unify_vars n tb v w a b =
     Option.bind (root n tb v) (\<lambda>x. Option.bind (root n tb w) (\<lambda>y.
     Option.bind (get_at (it_kind tb) x) (\<lambda>kx. Option.bind (get_at (it_kind tb) y) (\<lambda>ky.
       (case merged_kind kx ky of
          None \<Rightarrow> fails tb (Mismatch a b)
        | Some merged \<Rightarrow> if x = y then okay tb else Option.bind (union_classes tb x y merged) okay)))))"

type_synonym unifier = "table \<Rightarrow> ty \<Rightarrow> ty \<Rightarrow> unified"

primrec unify_all :: "unifier \<Rightarrow> table \<Rightarrow> (ty \<times> ty) list \<Rightarrow> unified" where
  "unify_all rec tb [] = okay tb"
| "unify_all rec tb (p # ps) = and_then (rec tb (fst p) (snd p)) (\<lambda>tb. unify_all rec tb ps)"

definition unify_lists :: "unifier \<Rightarrow> table \<Rightarrow> ty list \<Rightarrow> ty list \<Rightarrow> ty \<Rightarrow> ty \<Rightarrow> unified" where
  "unify_lists rec tb xs ys a b =
     (if length xs \<noteq> length ys then fails tb (Mismatch a b) else unify_all rec tb (zip xs ys))"

text \<open>The key of a row whose trait is \<open>d\<close>, when it is the only one.\<close>

definition only :: "ty list \<Rightarrow> def_id \<Rightarrow> ty option" where
  "only keys d = (case filter (\<lambda>k. trait_of k = Some d) keys of [k] \<Rightarrow> Some k | _ \<Rightarrow> None)"

definition context_pairs :: "ty list \<Rightarrow> ty list \<Rightarrow> (ty \<times> ty) list" where
  "context_pairs ks1 ks2 = concat (map (\<lambda>k1.
     (case trait_of k1 of
        None \<Rightarrow> []
      | Some d \<Rightarrow> (case (only ks1 d, only ks2 d) of (Some k, Some k2) \<Rightarrow> [(k1, k2)] | _ \<Rightarrow> []))) ks1)"

definition unify_context_rows ::
    "nat \<Rightarrow> (ty \<Rightarrow> nat) \<Rightarrow> unifier \<Rightarrow> table \<Rightarrow> row \<Rightarrow> row \<Rightarrow> ty \<Rightarrow> ty \<Rightarrow> unified" where
  "unify_context_rows n ix rec tb r1 r2 a b =
     Option.bind (resolve_row n ix tb r1) (\<lambda>d1. Option.bind (resolve_row n ix tb r2) (\<lambda>d2.
       if length (row_keys d1) \<noteq> length (row_keys d2) \<or> row_params d1 \<noteq> row_params d2
       then fails tb (Mismatch a b)
       else and_then (unify_all rec tb (context_pairs (row_keys d1) (row_keys d2))) (\<lambda>tb.
         Option.bind (resolve_row n ix tb r1) (\<lambda>s1. Option.bind (resolve_row n ix tb r2) (\<lambda>s2.
           if s1 = s2 then okay tb else fails tb (Mismatch a b))))))"

definition row_variable :: "row \<Rightarrow> nat option" where
  "row_variable r =
     (case row_keys r of [key] \<Rightarrow> if row_params r = [] then infer_of key else None | _ \<Rightarrow> None)"

definition unify_data_rows ::
    "nat \<Rightarrow> (ty \<Rightarrow> nat) \<Rightarrow> table \<Rightarrow> row \<Rightarrow> row \<Rightarrow> ty \<Rightarrow> ty \<Rightarrow> unified" where
  "unify_data_rows n ix tb r1 r2 a b =
     Option.bind (resolve_row n ix tb r1) (\<lambda>r1. Option.bind (resolve_row n ix tb r2) (\<lambda>r2.
       if r1 = r2 then okay tb
       else (case row_variable r1 of
               Some v \<Rightarrow> bind_root n tb v (RowTy r2)
             | None \<Rightarrow> (case row_variable r2 of
                 Some v \<Rightarrow> bind_root n tb v (RowTy r1)
               | None \<Rightarrow> fails tb (Mismatch a b)))))"

definition unify_inputs ::
    "unifier \<Rightarrow> table \<Rightarrow> ty list \<Rightarrow> inputs \<Rightarrow> ty list \<Rightarrow> inputs \<Rightarrow> ty \<Rightarrow> ty \<Rightarrow> unified" where
  "unify_inputs rec tb p1 i1 p2 i2 a b =
     (if i1 = i2 then unify_lists rec tb p1 p2 a b
      else if i1 = TupleInputs \<or> i2 = TupleInputs then rec tb (inputs_tuple p1 i1) (inputs_tuple p2 i2)
      else fails tb (Mismatch a b))"

text \<open>Two types of one constructor; any other pair is a mismatch.\<close>

definition unify_same :: "nat \<Rightarrow> (ty \<Rightarrow> nat) \<Rightarrow> unifier \<Rightarrow> table \<Rightarrow> ty \<Rightarrow> ty \<Rightarrow> unified" where
  "unify_same n ix rec tb a b =
     (let mismatch = fails tb (Mismatch a b) in
      case a of
        RefTy x mx cx \<Rightarrow> (case b of
          RefTy y my cy \<Rightarrow> if mx = my \<and> cx = cy then rec tb x y else mismatch | _ \<Rightarrow> mismatch)
      | Opaque d1 s1 w1 a1 b1 \<Rightarrow> (case b of
          Opaque d2 s2 w2 a2 b2 \<Rightarrow>
            if d1 = d2 \<and> s1 = s2
            then and_then (unify_lists rec tb a1 a2 a b) (\<lambda>tb. rec tb b1 b2) else mismatch
        | _ \<Rightarrow> mismatch)
      | Adt d1 a1 \<Rightarrow> (case b of
          Adt d2 a2 \<Rightarrow> if d1 = d2 then unify_lists rec tb a1 a2 a b else mismatch | _ \<Rightarrow> mismatch)
      | Tuple e1 rest1 \<Rightarrow> (case b of
          Tuple e2 rest2 \<Rightarrow> (case (rest1, rest2) of
            (None, None) \<Rightarrow> unify_lists rec tb e1 e2 a b
          | (Some r1, Some r2) \<Rightarrow> and_then (unify_lists rec tb e1 e2 a b) (\<lambda>tb. rec tb r1 r2)
          | _ \<Rightarrow> mismatch)
        | _ \<Rightarrow> mismatch)
      | Union m1 \<Rightarrow> (case b of Union m2 \<Rightarrow> unify_lists rec tb m1 m2 a b | _ \<Rightarrow> mismatch)
      | OptionTy x \<Rightarrow> (case b of OptionTy y \<Rightarrow> rec tb x y | _ \<Rightarrow> mismatch)
      | TraitValue d1 a1 bs1 \<Rightarrow> (case b of
          TraitValue d2 a2 bs2 \<Rightarrow> if d1 = d2 then unify_lists rec tb a1 a2 a b else mismatch | _ \<Rightarrow> mismatch)
      | Assoc x1 t1 s1 a1 \<Rightarrow> (case b of
          Assoc x2 t2 s2 a2 \<Rightarrow>
            if x1 = x2 then and_then (rec tb s1 s2) (\<lambda>tb. unify_lists rec tb a1 a2 a b) else mismatch
        | _ \<Rightarrow> mismatch)
      | Fn p1 r1 row1 s1 i1 d1 \<Rightarrow> (case b of
          Fn p2 r2 row2 s2 i2 d2 \<Rightarrow>
            if s1 = s2 \<and> d1 = d2
            then and_then (unify_inputs rec tb p1 i1 p2 i2 a b) (\<lambda>tb. rec tb r1 r2) else mismatch
        | _ \<Rightarrow> mismatch)
      | Context r1 \<Rightarrow> (case b of Context r2 \<Rightarrow> unify_context_rows n ix rec tb r1 r2 a b | _ \<Rightarrow> mismatch)
      | RowTy r1 \<Rightarrow> (case b of RowTy r2 \<Rightarrow> unify_data_rows n ix tb r1 r2 a b | _ \<Rightarrow> mismatch)
      | _ \<Rightarrow> mismatch)"

text \<open>A pair with a \<open>mut\<close> or a variable on a side.\<close>

definition unify_mut :: "nat \<Rightarrow> unifier \<Rightarrow> table \<Rightarrow> ty \<Rightarrow> ty \<Rightarrow> nat option \<Rightarrow> ty \<Rightarrow> unified" where
  "unify_mut n rec tb a b v whole =
     (case v of
        None \<Rightarrow> rec tb a b
      | Some x \<Rightarrow> Option.bind (is_general n tb x) (\<lambda>g. if g then bind_root n tb x whole else rec tb a b))"

definition unify_step :: "nat \<Rightarrow> (ty \<Rightarrow> nat) \<Rightarrow> unifier \<Rightarrow> table \<Rightarrow> ty \<Rightarrow> ty \<Rightarrow> unified" where
  "unify_step n ix rec tb a b =
     (if a = b then okay tb
      else if a = Poison \<or> b = Poison then okay tb
      else (case (mut_of a, mut_of b) of
          (Some x, Some y) \<Rightarrow> rec tb x y
        | (Some x, None) \<Rightarrow> unify_mut n rec tb x b (infer_of b) a
        | (None, Some y) \<Rightarrow> unify_mut n rec tb a y (infer_of a) b
        | (None, None) \<Rightarrow> (case (infer_of a, infer_of b) of
            (Some x, Some y) \<Rightarrow> unify_vars n tb x y a b
          | (Some x, None) \<Rightarrow> bind_root n tb x b
          | (None, Some y) \<Rightarrow> bind_root n tb y a
          | (None, None) \<Rightarrow> unify_same n ix rec tb a b)))"

primrec unify :: "nat \<Rightarrow> (ty \<Rightarrow> nat) \<Rightarrow> table \<Rightarrow> ty \<Rightarrow> ty \<Rightarrow> unified" where
  "unify 0 ix tb a b = None"
| "unify (Suc n) ix tb a b =
     Option.bind (shallow (Suc n) tb a) (\<lambda>a. Option.bind (shallow (Suc n) tb b) (\<lambda>b.
       unify_step (Suc n) ix (unify n ix) tb a b))"

lemma map_opt_Some:
  "map_opt f xs = Some ys \<longleftrightarrow> list_all2 (\<lambda>x y. f x = Some y) xs ys"
  by (induction xs arbitrary: ys) (auto simp: list_all2_Cons1 bind_eq_Some_conv)

end
