(* ===== verification/UnifyTrail.thy ===== *)
theory UnifyTrail
  imports Unify
begin

text \<open>
  What a unification does to the table, whatever it is asked: every write is on the trail, so a rollback
  to the state before restores every column, also after a failure and after new variables. The contract
  \<open>table_steps\<close> states what holds of the two writes of \<open>unify\<close> (a binding of an unbound class and a union
  of two) and derives it for \<open>unify\<close>; the invariants of the other theories are instances of it too.
\<close>

section \<open>Lookups\<close>

definition unbound :: "table \<Rightarrow> nat \<Rightarrow> bool" where
  "unbound tb v \<longleftrightarrow> get_at (it_parent tb) v = Some v \<and> get_at (it_binding tb) v = Some None"

lemma root_of_root: "root n tb v = Some r \<Longrightarrow> get_at (it_parent tb) r = Some r"
  by (induction n arbitrary: v) (auto split: option.splits if_splits simp del: get_at_Some)

lemma root_unbound: "unbound tb v \<Longrightarrow> root n tb v = Some r \<Longrightarrow> r = v"
  by (cases n) (auto simp: unbound_def split: option.splits if_splits)

lemma root_Suc_unbound [simp]: "unbound tb v \<Longrightarrow> root (Suc n) tb v = Some v"
  by (auto simp: unbound_def simp del: get_at_Some)

lemma shallow_Infer: "shallow n tb t = Some (Infer v) \<Longrightarrow> unbound tb v"
proof (induction n arbitrary: t)
  case 0
  then show ?case by simp
next
  case (Suc n)
  show ?case
  proof (cases t)
    case (Infer w)
    from Suc.prems [unfolded Infer] obtain r b where r: "root (Suc n) tb w = Some r" "get_at (it_binding tb) r = Some b"
      "(case b of Some u \<Rightarrow> shallow n tb u | None \<Rightarrow> Some (Infer r)) = Some (Infer v)"
      by (auto simp: bind_eq_Some_conv simp del: root.simps get_at_Some)
    show ?thesis
    proof (cases b)
      case None
      with r root_of_root [OF r(1)] show ?thesis by (auto simp: unbound_def)
    next
      case (Some u)
      with r(3) have "shallow n tb u = Some (Infer v)" by simp
      then show ?thesis by (rule Suc.IH)
    qed
  qed (use Suc.prems in auto)
qed

section \<open>Resolved types hold unbound variables only\<close>

lemma map_opt_vars:
  "map_opt f xs = Some ys \<Longrightarrow> y \<in> set ys \<Longrightarrow> \<exists>x\<in>set xs. f x = Some y"
  by (induction xs arbitrary: ys) (auto simp: bind_eq_Some_conv)

lemma flat_keys_vars: "(\<Union>x\<in>set (flat_keys k). ty_vars x) = ty_vars k"
proof (cases k)
  case (RowTy r)
  then show ?thesis by (cases r) auto
qed auto

lemma intern_row_vars: "row_vars (intern_row ix keys params) = (\<Union>k\<in>set keys. ty_vars k)"
  using flat_keys_vars by (auto simp: intern_row_def)

lemma row_vars_keys: "row_vars r = (\<Union>k\<in>set (row_keys r). ty_vars k)"
  by (cases r) simp

lemma intern_ty_vars [simp]: "ty_vars (intern_ty t) = ty_vars t"
  by (cases t rule: intern_ty.cases) (auto split: list.splits ty.splits option.splits)

lemma list_ex_infer: "list_ex has_infer keys \<longleftrightarrow> (\<Union>k\<in>set keys. ty_vars k) \<noteq> {}"
  by (auto simp: list_ex_iff has_infer_iff)

lemma resolve_row_by_vars:
  assumes "resolve_row_by f ix r = Some r'" "\<And>x y. f x = Some y \<Longrightarrow> \<forall>v\<in>ty_vars y. P v"
  shows "\<forall>v\<in>row_vars r'. P v"
proof (cases "list_ex has_infer (row_keys r)")
  case True
  with assms(1) obtain keys where k: "map_opt f (row_keys r) = Some keys" "r' = intern_row ix keys (row_params r)"
    by (auto simp: resolve_row_by_def)
  from map_opt_vars [OF k(1)] assms(2) have "\<forall>k\<in>set keys. \<forall>v\<in>ty_vars k. P v" by blast
  with k(2) show ?thesis by (auto simp: intern_row_vars)
next
  case False
  with assms(1) have "r' = r" "row_vars r = {}"
    by (auto simp: resolve_row_by_def list_ex_infer row_vars_keys)
  then show ?thesis by simp
qed

lemma resolve_parts_vars:
  assumes "resolve_parts f (resolve_row_by f ix) u = Some t" and f: "\<And>x y. f x = Some y \<Longrightarrow> \<forall>v\<in>ty_vars y. P v"
    and u: "\<And>v. u = Infer v \<Longrightarrow> P v"
  shows "\<forall>v\<in>ty_vars t. P v"
proof -
  have l: "\<forall>y\<in>set ys. \<forall>v\<in>ty_vars y. P v" if "map_opt f xs = Some ys" for xs ys
    using map_opt_vars [OF that] f by blast
  have p: "\<forall>y\<in>set ys. \<forall>v\<in>ty_vars (snd y). P v"
    if "map_opt (\<lambda>(d, x). map_option (Pair d) (f x)) xs = Some ys" for xs :: "(def_id \<times> ty) list" and ys
    using map_opt_vars [OF that] f by fastforce
  have r: "\<forall>v\<in>row_vars y. P v" if "resolve_row_by f ix x = Some y" for x y
    using resolve_row_by_vars [OF that] f by blast
  show ?thesis
    using assms(1) u
    by (cases u) (auto simp: resolve_parts_def bind_eq_Some_conv split: option.splits dest!: l p r f)
qed

lemma resolve_unbound: "resolve n ix tb t = Some u \<Longrightarrow> \<forall>v\<in>ty_vars u. unbound tb v"
proof (induction n arbitrary: t u)
  case 0
  then show ?case by simp
next
  case (Suc n)
  from Suc.prems obtain s where s: "shallow (Suc n) tb t = Some s"
    "(if has_infer s then map_option intern_ty (resolve_parts (resolve n ix tb) (resolve_row_by (resolve n ix tb) ix) s)
      else Some s) = Some u"
    unfolding resolve.simps(2) bind_eq_Some_conv by blast
  show ?case
  proof (cases "has_infer s")
    case True
    with s obtain u' where u': "resolve_parts (resolve n ix tb) (resolve_row_by (resolve n ix tb) ix) s = Some u'"
      "u = intern_ty u'" by auto
    have "\<forall>v\<in>ty_vars u'. unbound tb v"
      by (rule resolve_parts_vars [OF u'(1) Suc.IH]) (use s(1) in \<open>auto simp del: shallow.simps dest: shallow_Infer\<close>)
    with u' show ?thesis by simp
  next
    case False
    with s show ?thesis by (auto simp: has_infer_iff)
  qed
qed

lemma infer_of_Some: "infer_of t = Some v \<longleftrightarrow> t = Infer v"
  by (cases t) auto

lemma row_variable_Some: "row_variable r = Some v \<Longrightarrow> row_keys r = [Infer v]"
  by (auto simp: row_variable_def infer_of_Some split: list.splits if_splits)

lemma row_variable_unbound:
  assumes "resolve_row n ix tb r = Some r'" "row_variable r' = Some v"
  shows "unbound tb v"
proof -
  have "\<forall>v\<in>row_vars r'. unbound tb v"
    by (rule resolve_row_by_vars [OF assms(1) [unfolded resolve_row_def]]) (rule resolve_unbound)
  with row_variable_Some [OF assms(2)] show ?thesis by (simp add: row_vars_keys)
qed

section \<open>What holds of every unification\<close>

lemma and_then_Some:
  "and_then r k = Some (tb', e) \<longleftrightarrow>
     (\<exists>tb. r = Some (tb, None) \<and> k tb = Some (tb', e)) \<or> (\<exists>e'. r = Some (tb', Some e') \<and> e = Some e')"
  by (auto simp: and_then_def split: option.splits prod.splits)

lemma unify_same_cases [consumes 1, case_names mismatch Ref Opaque Adt Tuple TupleRest Union Option Trait Assoc Fn Ctx Row]:
  assumes "unify_same n ix rec tb a b = r"
  obtains "r = fails tb (Mismatch a b)"
  | x y m c where "a = RefTy x m c" "b = RefTy y m c" "r = rec tb x y"
  | d s w1 a1 b1 w2 a2 b2 where "a = Opaque d s w1 a1 b1" "b = Opaque d s w2 a2 b2"
      "r = and_then (unify_lists rec tb a1 a2 a b) (\<lambda>tb. rec tb b1 b2)"
  | d a1 a2 where "a = Adt d a1" "b = Adt d a2" "r = unify_lists rec tb a1 a2 a b"
  | e1 e2 where "a = Tuple e1 None" "b = Tuple e2 None" "r = unify_lists rec tb e1 e2 a b"
  | e1 e2 r1 r2 where "a = Tuple e1 (Some r1)" "b = Tuple e2 (Some r2)"
      "r = and_then (unify_lists rec tb e1 e2 a b) (\<lambda>tb. rec tb r1 r2)"
  | m1 m2 where "a = Union m1" "b = Union m2" "r = unify_lists rec tb m1 m2 a b"
  | x y where "a = OptionTy x" "b = OptionTy y" "r = rec tb x y"
  | d a1 a2 bs1 bs2 where "a = TraitValue d a1 bs1" "b = TraitValue d a2 bs2" "r = unify_lists rec tb a1 a2 a b"
  | x t1 t2 s1 s2 a1 a2 where "a = Assoc x t1 s1 a1" "b = Assoc x t2 s2 a2"
      "r = and_then (rec tb s1 s2) (\<lambda>tb. unify_lists rec tb a1 a2 a b)"
  | p1 r1 row1 i1 p2 r2 row2 i2 s d where "a = Fn p1 r1 row1 s i1 d" "b = Fn p2 r2 row2 s i2 d"
      "r = and_then (unify_inputs rec tb p1 i1 p2 i2 a b) (\<lambda>tb. rec tb r1 r2)"
  | r1 r2 where "a = Context r1" "b = Context r2" "r = unify_context_rows n ix rec tb r1 r2 a b"
  | r1 r2 where "a = RowTy r1" "b = RowTy r2" "r = unify_data_rows n ix tb r1 r2 a b"
proof -
  note d = assms [unfolded unify_same_def Let_def]
  show thesis
  proof (cases a)
    case (Adt d1 a1)
    with d that(1,4) show thesis by (cases b) (auto split: if_splits)
  next
    case (Tuple e1 rest1)
    with d that(1,5,6) show thesis by (cases b) (auto split: option.splits)
  next
    case (Union m1)
    with d that(1,7) show thesis by (cases b) auto
  next
    case (OptionTy x)
    with d that(1,8) show thesis by (cases b) auto
  next
    case (Fn p1 r1 row1 s1 i1 d1)
    with d that(1,11) show thesis by (cases b) (auto split: if_splits)
  next
    case (TraitValue d1 a1 bs1)
    with d that(1,9) show thesis by (cases b) (auto split: if_splits)
  next
    case (Opaque d1 s1 w1 a1 b1)
    with d that(1,3) show thesis by (cases b) (auto split: if_splits)
  next
    case (Assoc x1 t1 s1 a1)
    with d that(1,10) show thesis by (cases b) (auto split: if_splits)
  next
    case (RefTy x mx cx)
    with d that(1,2) show thesis by (cases b) (auto split: if_splits)
  next
    case (RowTy r1)
    with d that(1,13) show thesis by (cases b) auto
  next
    case (Context r1)
    with d that(1,12) show thesis by (cases b) auto
  qed (use d that(1) in auto)
qed

locale table_steps =
  fixes R :: "table \<Rightarrow> table \<Rightarrow> bool"
  assumes refl: "R tb tb"
    and trans: "R tb tb' \<Longrightarrow> R tb' tb'' \<Longrightarrow> R tb tb''"
    and bound: "unbound tb v \<Longrightarrow> occurs n tb v t = Some False \<Longrightarrow> get_at (it_kind tb) v = Some k \<Longrightarrow>
      kind_takes k t \<Longrightarrow> R tb (log_undo (UndoBind v) (tb\<lparr>it_binding := (it_binding tb)[v := Some t]\<rparr>))"
    and joined: "unbound tb x \<Longrightarrow> unbound tb y \<Longrightarrow> x \<noteq> y \<Longrightarrow> get_at (it_kind tb) x = Some kx \<Longrightarrow>
      get_at (it_kind tb) y = Some ky \<Longrightarrow> merged_kind kx ky = Some m \<Longrightarrow>
      union_classes tb x y m = Some tb' \<Longrightarrow> R tb tb'"
begin

definition obeys :: "unifier \<Rightarrow> bool" where
  "obeys rec \<longleftrightarrow> (\<forall>tb a b tb' e. rec tb a b = Some (tb', e) \<longrightarrow> R tb tb')"

lemma obeysD: "obeys rec \<Longrightarrow> rec tb a b = Some (tb', e) \<Longrightarrow> R tb tb'"
  unfolding obeys_def by blast

lemma bind_root_R:
  assumes "bind_root n tb v t = Some (tb', e)" "unbound tb v"
  shows "R tb tb'"
proof -
  from assms have r: "root n tb v = Some v" "bind_var n tb v t = Some (tb', e)"
    by (auto simp: bind_root_def bind_eq_Some_conv dest: root_unbound)
  from r(2) show ?thesis
    by (auto simp: bind_var_def fails_def okay_def set_binding_def set_at_def bind_eq_Some_conv refl
        simp del: get_at_Some split: if_splits intro: bound [OF assms(2)])
qed

lemma unify_vars_R:
  assumes "unify_vars n tb v w a b = Some (tb', e)" "unbound tb v" "unbound tb w"
  shows "R tb tb'"
proof -
  from assms(1) obtain x y kx ky where r: "root n tb v = Some x" "root n tb w = Some y"
    and k: "get_at (it_kind tb) x = Some kx" "get_at (it_kind tb) y = Some ky"
    and m: "(case merged_kind kx ky of None \<Rightarrow> fails tb (Mismatch a b)
      | Some merged \<Rightarrow> if x = y then okay tb else Option.bind (union_classes tb x y merged) okay) = Some (tb', e)"
    unfolding unify_vars_def bind_eq_Some_conv by blast
  from r assms(2,3) have [simp]: "x = v" "y = w" by (auto dest: root_unbound)
  show ?thesis
  proof (cases "merged_kind kx ky")
    case None
    with m show ?thesis by (simp add: fails_def refl)
  next
    case (Some merged)
    with m k show ?thesis
      by (auto simp: okay_def bind_eq_Some_conv refl simp del: get_at_Some split: if_splits
          intro: joined [OF assms(2,3)])
  qed
qed

lemma and_then_R:
  assumes "and_then r k = Some (tb', e)" "\<And>tb' e. r = Some (tb', e) \<Longrightarrow> R tb tb'"
    "\<And>tb1. r = Some (tb1, None) \<Longrightarrow> k tb1 = Some (tb', e) \<Longrightarrow> R tb1 tb'"
  shows "R tb tb'"
  using assms(1) unfolding and_then_Some
proof
  assume "\<exists>tb1. r = Some (tb1, None) \<and> k tb1 = Some (tb', e)"
  then show ?thesis using assms(2,3) trans by blast
next
  assume "\<exists>e'. r = Some (tb', Some e') \<and> e = Some e'"
  then show ?thesis using assms(2) by blast
qed

lemma unify_all_R: "obeys rec \<Longrightarrow> unify_all rec tb ps = Some (tb', e) \<Longrightarrow> R tb tb'"
proof (induction ps arbitrary: tb)
  case Nil
  then show ?case by (simp add: okay_def refl)
next
  case (Cons p ps)
  show ?case
    by (rule and_then_R [OF Cons.prems(2) [unfolded unify_all.simps]])
      (use Cons obeysD in blast)+
qed

lemma fails_R: "fails tb x = Some (tb', e) \<Longrightarrow> R tb tb'"
  by (simp add: fails_def refl)

lemma unify_lists_R: "obeys rec \<Longrightarrow> unify_lists rec tb xs ys a b = Some (tb', e) \<Longrightarrow> R tb tb'"
  by (auto simp: unify_lists_def dest: fails_R unify_all_R split: if_splits)

lemma unify_inputs_R: "obeys rec \<Longrightarrow> unify_inputs rec tb p1 i1 p2 i2 a b = Some (tb', e) \<Longrightarrow> R tb tb'"
  by (auto simp: unify_inputs_def dest: fails_R unify_lists_R obeysD split: if_splits)

lemma unify_context_R:
  assumes "obeys rec" "unify_context_rows n ix rec tb r1 r2 a b = Some (tb', e)"
  shows "R tb tb'"
proof -
  from assms(2) consider "fails tb (Mismatch a b) = Some (tb', e)"
    | d1 d2 where "and_then (unify_all rec tb (context_pairs (row_keys d1) (row_keys d2))) (\<lambda>tb.
         Option.bind (resolve_row n ix tb r1) (\<lambda>s1. Option.bind (resolve_row n ix tb r2) (\<lambda>s2.
           if s1 = s2 then okay tb else fails tb (Mismatch a b)))) = Some (tb', e)"
    by (auto simp: unify_context_rows_def bind_eq_Some_conv split: if_splits)
  then show ?thesis
  proof cases
    case 1
    then show ?thesis by (rule fails_R)
  next
    case 2
    then show ?thesis
      by (rule and_then_R)
        (use unify_all_R [OF assms(1)] in \<open>auto simp: bind_eq_Some_conv okay_def refl dest: fails_R split: if_splits\<close>)
  qed
qed

lemma unify_data_R: "unify_data_rows n ix tb r1 r2 a b = Some (tb', e) \<Longrightarrow> R tb tb'"
  by (auto simp: unify_data_rows_def bind_eq_Some_conv okay_def refl split: if_splits option.splits
      dest: fails_R row_variable_unbound bind_root_R)

lemma unify_same_R:
  assumes "obeys rec" "unify_same n ix rec tb a b = Some (tb', e)"
  shows "R tb tb'"
proof -
  note l = unify_lists_R [OF assms(1)] and i = unify_inputs_R [OF assms(1)] and o = obeysD [OF assms(1)]
  have ll: "R tb tb'" if "and_then (unify_lists rec tb xs ys a b) (\<lambda>tb. rec tb x y) = Some (tb', e)" for xs ys x y
    using that by (rule and_then_R) (blast dest: l o)+
  have oo: "R tb tb'" if "and_then (rec tb x y) (\<lambda>tb. unify_lists rec tb xs ys a b) = Some (tb', e)" for xs ys x y
    using that by (rule and_then_R) (blast dest: l o)+
  have ii: "R tb tb'" if "and_then (unify_inputs rec tb p1 i1 p2 i2 a b) (\<lambda>tb. rec tb x y) = Some (tb', e)"
    for p1 i1 p2 i2 x y
    using that by (rule and_then_R) (blast dest: i o)+
  from assms(2) show ?thesis
  proof (cases rule: unify_same_cases)
    case mismatch
    then show ?thesis by (metis fails_R)
  qed (metis l o ll oo ii unify_context_R [OF assms(1)] unify_data_R)+
qed

lemma unify_step_R:
  assumes "obeys rec" "unify_step n ix rec tb a b = Some (tb', e)"
    "\<And>v. a = Infer v \<Longrightarrow> unbound tb v" "\<And>v. b = Infer v \<Longrightarrow> unbound tb v"
  shows "R tb tb'"
proof -
  note o = obeysD [OF assms(1)]
  have m: "R tb tb'" if "unify_mut n rec tb x y v w = Some (tb', e)" "\<And>u. v = Some u \<Longrightarrow> unbound tb u" for x y v w
    using that by (auto simp: unify_mut_def bind_eq_Some_conv split: option.splits if_splits dest: o bind_root_R)
  show ?thesis
    using assms(2-4) unfolding unify_step_def
    by (auto simp: okay_def refl infer_of_Some split: if_splits option.splits
      dest: o m unify_same_R [OF assms(1)] bind_root_R unify_vars_R)
qed

lemma unify_obeys: "obeys (unify n ix)"
proof (induction n)
  case 0
  then show ?case by (simp add: obeys_def)
next
  case (Suc n)
  show ?case unfolding obeys_def
  proof (intro allI impI)
    fix tb a b tb' e
    assume "unify (Suc n) ix tb a b = Some (tb', e)"
    then obtain a' b' where "shallow (Suc n) tb a = Some a'" "shallow (Suc n) tb b = Some b'"
      "unify_step (Suc n) ix (unify n ix) tb a' b' = Some (tb', e)"
      unfolding unify.simps(2) bind_eq_Some_conv by blast
    then show "R tb tb'"
      using unify_step_R [OF Suc] shallow_Infer by blast
  qed
qed

lemma unify_R: "unify n ix tb a b = Some (tb', e) \<Longrightarrow> R tb tb'"
  by (rule obeysD [OF unify_obeys])

end

end
