(* ===== verification/Substitution.thy ===== *)
theory Substitution
  imports UnifyTrail
begin

text \<open>
  The specification side of the unifier: the substitution of types for inference variables that \<open>resolve\<close>
  carries out, on the types whose variables all are where the occurs check looks (\<open>checked\<close>), and the
  relation \<open>agree\<close> between two resolved types that \<open>unify\<close> promises: equal up to \<open>mut\<close> markers, the poison
  type, function rows, a trait value's bindings and an opaque type's borrow flag, none of which \<open>unify\<close>
  compares.
\<close>

definition closed :: "ty \<Rightarrow> bool" where
  "closed t \<longleftrightarrow> ty_vars t = {}"

fun checked :: "ty \<Rightarrow> bool" where
  "checked (Adt d args) = (\<forall>x\<in>set args. checked x)"
| "checked (Tuple elems rest) = ((\<forall>x\<in>set elems. checked x) \<and> (case rest of None \<Rightarrow> True | Some r \<Rightarrow> checked r))"
| "checked (Union ms) = (\<forall>x\<in>set ms. checked x)"
| "checked (OptionTy t) = checked t"
| "checked (Fn ps r row s i d) = ((\<forall>x\<in>set ps. checked x) \<and> checked r \<and> row_vars row = {})"
| "checked (TraitValue d args bs) = closed (TraitValue d args bs)"
| "checked (Opaque ow s b args bound) = ((\<forall>x\<in>set args. checked x) \<and> checked bound)"
| "checked (Assoc a tr self args) = closed (Assoc a tr self args)"
| "checked (Mut t) = checked t"
| "checked (RefTy t m c) = checked t"
| "checked (RowTy r) = (row_vars r = {})"
| "checked (Context r) = (row_vars r = {})"
| "checked _ = True"

fun tsub :: "(nat \<Rightarrow> ty) \<Rightarrow> ty \<Rightarrow> ty" where
  "tsub f (Infer v) = f v"
| "tsub f (Adt d args) = Adt d (map (tsub f) args)"
| "tsub f (Tuple elems rest) = Tuple (map (tsub f) elems) (map_option (tsub f) rest)"
| "tsub f (Union ms) = Union (map (tsub f) ms)"
| "tsub f (OptionTy t) = OptionTy (tsub f t)"
| "tsub f (Fn ps r row s i d) =
     (if \<not> has_infer (Fn ps r row s i d) then Fn ps r row s i d
      else intern_ty (Fn (map (tsub f) ps) (tsub f r) row s i d))"
| "tsub f (Opaque ow s b args bound) = Opaque ow s b (map (tsub f) args) (tsub f bound)"
| "tsub f (Mut t) = Mut (tsub f t)"
| "tsub f (RefTy t m c) = RefTy (tsub f t) m c"
| "tsub f t = t"

lemma closed_checked: "closed t \<Longrightarrow> checked t"
  by (induction t rule: checked.induct) (auto simp: closed_def split: option.splits)

lemma tsub_closed [simp]: "closed t \<Longrightarrow> tsub f t = t"
  by (induction f t rule: tsub.induct) (auto simp: closed_def has_infer_iff map_idI split: option.splits)

lemma intern_checked [simp]: "checked (intern_ty t) = checked t"
  by (cases t rule: intern_ty.cases) (auto simp: closed_def split: list.splits ty.splits option.splits)

lemma tsub_checked: "checked t \<Longrightarrow> \<forall>v\<in>ty_vars t. checked (f v) \<Longrightarrow> checked (tsub f t)"
proof (induction f t rule: tsub.induct)
  case (3 f elems rest)
  then show ?case by (cases rest) auto
next
  case (6 f ps r row s i d)
  then show ?case by (cases "has_infer (Fn ps r row s i d)") (auto simp del: intern_ty.simps)
qed auto

lemma tsub_vars: "checked t \<Longrightarrow> ty_vars (tsub f t) = (\<Union>v\<in>ty_vars t. ty_vars (f v))"
proof (induction f t rule: tsub.induct)
  case (6 f ps r row s i d)
  then show ?case by (auto simp: has_infer_iff simp del: intern_ty.simps)
qed (auto simp: closed_def split: option.splits)

lemma tsub_cong: "\<forall>v\<in>ty_vars t. f v = g v \<Longrightarrow> tsub f t = tsub g t"
proof (induction f t rule: tsub.induct)
  case (6 f ps r row s i d)
  show ?case
  proof (cases "has_infer (Fn ps r row s i d)")
    case True
    with 6 have "map (tsub f) ps = map (tsub g) ps" "tsub f r = tsub g r" by auto
    then show ?thesis by (simp del: map_eq_conv)
  qed simp
qed (auto split: option.splits)

lemma map_tsub_closed: "\<forall>x\<in>set xs. closed x \<Longrightarrow> map (tsub f) xs = xs"
  by (simp add: map_idI)

lemma closed_Fn: "row_vars row = {} \<Longrightarrow> \<not> has_infer (Fn ps r row s i d) \<longleftrightarrow> (\<forall>x\<in>set ps. closed x) \<and> closed r"
  by (auto simp: has_infer_iff closed_def)

text \<open>Substituting in an interned function type is interning the substituted parts.\<close>

lemma tsub_intern:
  assumes "\<forall>x\<in>set ps. checked x" "checked r" "row_vars row = {}"
  shows "tsub g (intern_ty (Fn ps r row s i d)) = intern_ty (Fn (map (tsub g) ps) (tsub g r) row s i d)"
proof -
  have plain: "tsub g (Fn ps r row s i d) = intern_ty (Fn (map (tsub g) ps) (tsub g r) row s i d)"
    if "i \<noteq> TupleInputs" for ps i
    using that assms(3) by (cases i) (auto simp: closed_Fn map_tsub_closed)
  show ?thesis
  proof (cases "i = TupleInputs")
    case False
    then have "intern_ty (Fn ps r row s i d) = Fn ps r row s i d" by (cases i) auto
    with plain [OF False] show ?thesis by simp
  next
    case True
    show ?thesis
    proof (cases "\<exists>es rest. ps = [Tuple es rest]")
      case t: True
      then obtain es rest where ps: "ps = [Tuple es rest]" by blast
      show ?thesis
        using plain [of Fixed es] plain [of Rest "es @ [the rest]"]
        by (cases rest) (simp_all add: True ps del: tsub.simps(6))
    next
      case False
      then have i: "intern_ty (Fn ps r row s i d) = Fn ps r row s i d"
        by (auto simp: True split: list.splits ty.splits option.splits)
      show ?thesis
      proof (cases "has_infer (Fn ps r row s i d)")
        case False
        with assms(3) have "map (tsub g) ps = ps" "tsub g r = r" by (auto simp: closed_Fn map_tsub_closed)
        with i show ?thesis using False by simp
      next
        case True
        then show ?thesis by (simp only: i tsub.simps if_False simp_thms)
      qed
    qed
  qed
qed

lemma tsub_tsub:
  assumes "checked t" "\<And>v. checked (f v)"
  shows "tsub g (tsub f t) = tsub (\<lambda>v. tsub g (f v)) t"
  using assms
proof (induction f t rule: tsub.induct)
  case (6 f ps r row s i d)
  have c: "\<forall>x\<in>set (map (tsub f) ps). checked x" "checked (tsub f r)"
    using 6 tsub_checked by auto
  show ?case
  proof (cases "has_infer (Fn ps r row s i d)")
    case True
    have "map (tsub g \<circ> tsub f) ps = map (tsub (\<lambda>v. tsub g (f v))) ps"
      "tsub g (tsub f r) = tsub (\<lambda>v. tsub g (f v)) r"
      using 6 True by auto
    then show ?thesis
      using True tsub_intern [OF c, of row g s i d] "6.prems"(1) by (simp del: map_eq_conv)
  next
    case False
    then show ?thesis by simp
  qed
qed (auto simp: option.map_comp intro!: option.map_cong0 split: option.splits)

text \<open>A type none of whose function types is left to intern is unchanged by the empty substitution.\<close>

fun interned :: "ty \<Rightarrow> bool" where
  "interned (Adt d args) = (\<forall>x\<in>set args. interned x)"
| "interned (Tuple elems rest) = ((\<forall>x\<in>set elems. interned x) \<and> (case rest of None \<Rightarrow> True | Some r \<Rightarrow> interned r))"
| "interned (Union ms) = (\<forall>x\<in>set ms. interned x)"
| "interned (OptionTy t) = interned t"
| "interned (Fn ps r row s i d) = (has_infer (Fn ps r row s i d) \<longrightarrow>
     (\<forall>x\<in>set ps. interned x) \<and> interned r \<and> intern_ty (Fn ps r row s i d) = Fn ps r row s i d)"
| "interned (Opaque ow s b args bound) = ((\<forall>x\<in>set args. interned x) \<and> interned bound)"
| "interned (Mut t) = interned t"
| "interned (RefTy t m c) = interned t"
| "interned t = True"

lemma interned_intern:
  assumes "\<forall>x\<in>set ps. interned x" "interned r"
  shows "interned (intern_ty (Fn ps r row s i d))"
proof (cases "\<exists>es rest. ps = [Tuple es rest] \<and> i = TupleInputs")
  case True
  with assms show ?thesis by (auto split: option.splits)
next
  case False
  then have "intern_ty (Fn ps r row s i d) = Fn ps r row s i d"
    by (cases i) (auto split: list.splits ty.splits option.splits)
  with assms show ?thesis by simp
qed

lemma tsub_interned: "(\<And>v. interned (f v)) \<Longrightarrow> interned (tsub f t)"
proof (induction f t rule: tsub.induct)
  case (3 f elems rest)
  then show ?case by (cases rest) auto
next
  case (6 f ps r row s i d)
  show ?case
  proof (cases "has_infer (Fn ps r row s i d)")
    case True
    with 6 show ?thesis by (auto simp del: intern_ty.simps intro!: interned_intern)
  qed simp
qed auto

lemma tsub_Infer: "interned t \<Longrightarrow> tsub Infer t = t"
proof (induction "Infer :: nat \<Rightarrow> ty" t rule: tsub.induct)
  case (3 elems rest)
  then show ?case by (cases rest) (auto simp: map_idI)
next
  case (6 ps r row s i d)
  show ?case
  proof (cases "has_infer (Fn ps r row s i d)")
    case True
    with 6 have "map (tsub Infer) ps = ps" "tsub Infer r = r" by (auto intro: map_idI)
    with True 6 show ?thesis by (simp del: intern_ty.simps)
  qed simp
qed (auto simp: map_idI)

lemma tsub_away:
  assumes "interned t" "v \<notin> ty_vars t"
  shows "tsub (Infer(v := u)) t = t"
proof -
  have "tsub (Infer(v := u)) t = tsub Infer t" using assms(2) by (intro tsub_cong) auto
  with tsub_Infer [OF assms(1)] show ?thesis by simp
qed

section \<open>Agreement\<close>

inductive agree :: "ty \<Rightarrow> ty \<Rightarrow> bool" where
  refl: "agree t t"
| poison_l: "agree Poison t"
| poison_r: "agree t Poison"
| mut_l: "agree x b \<Longrightarrow> agree (Mut x) b"
| mut_r: "agree a y \<Longrightarrow> agree a (Mut y)"
| ref: "agree x y \<Longrightarrow> agree (RefTy x m c) (RefTy y m c)"
| adt: "list_all2 agree xs ys \<Longrightarrow> agree (Adt d xs) (Adt d ys)"
| tuple: "list_all2 agree xs ys \<Longrightarrow> rel_option agree rx ry \<Longrightarrow> agree (Tuple xs rx) (Tuple ys ry)"
| union: "list_all2 agree xs ys \<Longrightarrow> agree (Union xs) (Union ys)"
| option: "agree x y \<Longrightarrow> agree (OptionTy x) (OptionTy y)"
| opaque: "list_all2 agree xs ys \<Longrightarrow> agree b1 b2 \<Longrightarrow> agree (Opaque ow s w1 xs b1) (Opaque ow s w2 ys b2)"
| fn: "agree (inputs_tuple p1 i1) (inputs_tuple p2 i2) \<Longrightarrow> agree r1 r2 \<Longrightarrow>
    agree (Fn p1 r1 row1 s i1 d) (Fn p2 r2 row2 s i2 d)"
| trait: "list_all2 agree xs ys \<Longrightarrow> agree (TraitValue d xs bs1) (TraitValue d ys bs2)"
| assoc: "agree s1 s2 \<Longrightarrow> list_all2 agree xs ys \<Longrightarrow> agree (Assoc a t1 s1 xs) (Assoc a t2 s2 ys)"

lemma inputs_tsub:
  assumes "checked (Fn p r row s i d)"
  shows "\<exists>p' i'. tsub g (Fn p r row s i d) = Fn p' (tsub g r) row s i' d \<and>
    inputs_tuple p' i' = tsub g (inputs_tuple p i)"
proof (cases "has_infer (Fn p r row s i d)")
  case False
  with assms have c: "map (tsub g) p = p" "tsub g r = r" "\<forall>x\<in>set p. closed x" by (auto simp: closed_Fn map_tsub_closed)
  have "closed (inputs_tuple p i)"
    using c(3) by (cases "(p, i)" rule: inputs_tuple.cases) (auto simp: closed_def split: list.splits dest: in_set_butlastD)
  with c False show ?thesis by (intro exI [of _ p] exI [of _ i]) simp
next
  case True
  have "\<exists>p' i'. intern_ty (Fn (map (tsub g) p) (tsub g r) row s i d) = Fn p' (tsub g r) row s i' d \<and>
    inputs_tuple p' i' = tsub g (inputs_tuple p i)"
  proof (cases i)
    case TupleInputs
    show ?thesis
    proof (cases "\<exists>x. p = [x]")
      case True
      then obtain x where p: "p = [x]" by blast
      show ?thesis
        by (cases "tsub g x") (auto simp: TupleInputs p split: option.splits)
    next
      case False
      then have "intern_ty (Fn (map (tsub g) p) (tsub g r) row s TupleInputs d) =
          Fn (map (tsub g) p) (tsub g r) row s TupleInputs d" "inputs_tuple p TupleInputs = Tuple p None"
        "inputs_tuple (map (tsub g) p) TupleInputs = Tuple (map (tsub g) p) None"
        by (auto split: list.splits ty.splits option.splits)
      then show ?thesis by (simp add: TupleInputs)
    qed
  qed (auto simp: map_butlast last_map)
  with True show ?thesis by simp
qed

lemma list_all2_tsub:
  "list_all2 (\<lambda>x y. agree x y \<and> (checked x \<longrightarrow> checked y \<longrightarrow> agree (tsub g x) (tsub g y))) xs ys \<Longrightarrow>
   \<forall>x\<in>set xs. checked x \<Longrightarrow> \<forall>y\<in>set ys. checked y \<Longrightarrow> list_all2 agree (map (tsub g) xs) (map (tsub g) ys)"
  by (auto simp: list_all2_conv_all_nth)

lemma inputs_checked: "\<forall>x\<in>set p. checked x \<Longrightarrow> checked (inputs_tuple p i)"
  by (cases "(p, i)" rule: inputs_tuple.cases) (auto split: list.splits dest: in_set_butlastD)

lemma agree_tsub: "agree a b \<Longrightarrow> checked a \<Longrightarrow> checked b \<Longrightarrow> agree (tsub g a) (tsub g b)"
proof (induction rule: agree.induct)
  case (fn p1 i1 p2 i2 r1 r2 row1 s d row2)
  obtain q1 j1 q2 j2 where "tsub g (Fn p1 r1 row1 s i1 d) = Fn q1 (tsub g r1) row1 s j1 d"
    "inputs_tuple q1 j1 = tsub g (inputs_tuple p1 i1)"
    "tsub g (Fn p2 r2 row2 s i2 d) = Fn q2 (tsub g r2) row2 s j2 d"
    "inputs_tuple q2 j2 = tsub g (inputs_tuple p2 i2)"
    using inputs_tsub [OF fn.prems(1)] inputs_tsub [OF fn.prems(2)] by blast
  with fn show ?case by (auto intro!: agree.fn simp: inputs_checked)
next
  case (tuple xs ys rx ry)
  then show ?case
    by (auto intro!: agree.tuple list_all2_tsub simp: option.rel_map elim!: option.rel_mono_strong split: option.splits)
next
  case (trait xs ys d bs1 bs2)
  then show ?case
    by (auto intro!: agree.trait elim: list.rel_mono_strong)
next
  case (assoc s1 s2 xs ys a t1 t2)
  then show ?case
    by (auto intro!: agree.assoc elim: list.rel_mono_strong simp: closed_def dest!: closed_checked [unfolded closed_def])
qed (auto intro: agree.intros list_all2_tsub)

end
