(* ===== verification/Trials.thy ===== *)
theory Trials
  imports UnifyTrail
begin

text \<open>
  Trials (\<^verbatim>\<open>crates/hd_types/src/unify.rs\<close>, \<open>snapshot\<close>, \<open>rollback\<close>, \<open>trial_mark\<close>, \<open>rollback_trial\<close>): from
  any table, whatever operations a trial runs, rolling back to its mark gives the table it started from:
  every parent, rank, binding and kind, the trail, and no variable of the trial left.
\<close>

definition columns_ok :: "table \<Rightarrow> bool" where
  "columns_ok tb \<longleftrightarrow> length (it_rank tb) = length (it_parent tb) \<and>
     length (it_binding tb) = length (it_parent tb) \<and> length (it_kind tb) = length (it_parent tb)"

primrec undo_var :: "undo \<Rightarrow> nat" where
  "undo_var (UndoBind v) = v"
| "undo_var (UndoParent v p) = v"
| "undo_var (UndoRank v r) = v"
| "undo_var (UndoKind v k) = v"
| "undo_var (UndoRebind v b) = v"

lemmas setters = set_parent_def set_rank_def set_binding_def set_kind_def set_at_def

lemma undo_entry_columns:
  "undo_entry u tb = Some tb' \<Longrightarrow> columns_ok tb \<Longrightarrow>
     columns_ok tb' \<and> length (it_parent tb') = length (it_parent tb) \<and> it_trail tb' = it_trail tb"
  by (cases u) (auto simp: setters columns_ok_def split: if_splits)

lemma undo_entry_Some:
  "columns_ok tb \<Longrightarrow> undo_var u < length (it_parent tb) \<Longrightarrow> \<exists>tb'. undo_entry u tb = Some tb'"
  by (cases u) (auto simp: setters columns_ok_def)

lemma undo_entry_truncate:
  assumes "columns_ok tb" "undo_var u < k" "k \<le> length (it_parent tb)"
  shows "undo_entry u (truncate_vars k tb) = map_option (truncate_vars k) (undo_entry u tb)"
  using assms
  by (cases u) (auto simp: setters columns_ok_def truncate_vars_def take_update_swap)

lemma undo_entry_trail:
  "undo_entry u (tb\<lparr>it_trail := us\<rparr>) = map_option (\<lambda>t. t\<lparr>it_trail := us\<rparr>) (undo_entry u tb)"
  by (cases u) (auto simp: setters)

lemma truncate_trail: "truncate_vars k (tb\<lparr>it_trail := us\<rparr>) = (truncate_vars k tb)\<lparr>it_trail := us\<rparr>"
  by (simp add: truncate_vars_def)

lemma undo_entries_truncate:
  assumes "columns_ok tb" "\<forall>u\<in>set es. undo_var u < k" "k \<le> length (it_parent tb)"
  shows "undo_entries (es @ us) (length us) (truncate_vars k tb) =
    map_option (truncate_vars k) (undo_entries (es @ us) (length us) tb)"
  using assms
proof (induction es arbitrary: tb)
  case Nil
  then show ?case by (cases us) auto
next
  case (Cons u es)
  let ?tb = "tb\<lparr>it_trail := es @ us\<rparr>"
  have c: "columns_ok ?tb" using Cons.prems by (simp add: columns_ok_def)
  obtain tb1 where tb1: "undo_entry u ?tb = Some tb1"
    using undo_entry_Some [OF c, of u] Cons.prems by auto
  from undo_entry_columns [OF tb1 c] Cons.prems
  have "undo_entries (es @ us) (length us) (truncate_vars k tb1) =
    map_option (truncate_vars k) (undo_entries (es @ us) (length us) tb1)"
    by (intro Cons.IH) auto
  moreover have "undo_entry u (truncate_vars k ?tb) = Some (truncate_vars k tb1)"
    using undo_entry_truncate [OF c, of u k] Cons.prems tb1 by simp
  ultimately show ?case
    by (simp add: tb1 truncate_trail [symmetric])
qed

lemma undo_entries_split:
  assumes "s \<le> length us"
  shows "undo_entries (es @ us) s tb = Option.bind (undo_entries (es @ us) (length us) tb) (undo_entries us s)"
proof (induction es arbitrary: tb)
  case Nil
  show ?case by (cases us) auto
next
  case (Cons u es)
  then show ?case using assms by (auto intro: Option.bind_cong)
qed

lemma undo_entries_columns:
  "undo_entries es s tb = Some tb' \<Longrightarrow> columns_ok tb \<Longrightarrow> columns_ok tb' \<and> length (it_parent tb') = length (it_parent tb)"
proof (induction es arbitrary: tb)
  case Nil
  then show ?case by simp
next
  case (Cons u es)
  have c: "columns_ok (tb\<lparr>it_trail := es\<rparr>)" using Cons.prems by (simp add: columns_ok_def)
  show ?case
    using Cons.prems(1) Cons.IH undo_entry_columns [OF _ c] Cons.prems(2)
    by (auto simp: bind_eq_Some_conv split: if_splits)
qed

section \<open>A table that a rollback takes back\<close>

definition reverts :: "table \<Rightarrow> table \<Rightarrow> bool" where
  "reverts tb tb' \<longleftrightarrow> (columns_ok tb \<longrightarrow> columns_ok tb' \<and> length (it_parent tb) \<le> length (it_parent tb') \<and>
     (\<exists>es. it_trail tb' = es @ it_trail tb \<and> (\<forall>u\<in>set es. undo_var u < length (it_parent tb'))) \<and>
     rollback_trial (mark_trial tb) tb' = Some tb)"

lemma truncate_all: "columns_ok tb \<Longrightarrow> length (it_parent tb) \<le> k \<Longrightarrow> truncate_vars k tb = tb"
  by (simp add: truncate_vars_def columns_ok_def)

lemma truncate_truncate: "j \<le> k \<Longrightarrow> truncate_vars j (truncate_vars k tb) = truncate_vars j tb"
  by (simp add: truncate_vars_def min_absorb1)

lemma undo_entries_none [simp]: "undo_entries us (length us) tb = Some tb"
  by (cases us) auto

lemma reverts_refl: "reverts tb tb"
  by (auto simp: reverts_def rollback_trial_def rollback_def mark_trial_def truncate_all)

lemma reverts_trans:
  assumes "reverts tb tb1" "reverts tb1 tb2"
  shows "reverts tb tb2"
  unfolding reverts_def
proof
  assume c: "columns_ok tb"
  with assms(1) obtain es where 1: "columns_ok tb1" "length (it_parent tb) \<le> length (it_parent tb1)"
    "it_trail tb1 = es @ it_trail tb" "\<forall>u\<in>set es. undo_var u < length (it_parent tb1)"
    "rollback_trial (mark_trial tb) tb1 = Some tb" by (auto simp: reverts_def)
  with assms(2) obtain fs where 2: "columns_ok tb2" "length (it_parent tb1) \<le> length (it_parent tb2)"
    "it_trail tb2 = fs @ it_trail tb1" "\<forall>u\<in>set fs. undo_var u < length (it_parent tb2)"
    "rollback_trial (mark_trial tb1) tb2 = Some tb1" by (auto simp: reverts_def)
  from 2(5) obtain x where x: "undo_entries (fs @ it_trail tb1) (length (it_trail tb1)) tb2 = Some x"
    "truncate_vars (length (it_parent tb1)) x = tb1"
    by (auto simp: rollback_trial_def rollback_def mark_trial_def 2(3))
  have cx: "columns_ok x" "length (it_parent x) = length (it_parent tb2)"
    using undo_entries_columns [OF x(1) 2(1)] by auto
  have "undo_entries (es @ it_trail tb) (length (it_trail tb)) tb1 =
    map_option (truncate_vars (length (it_parent tb1))) (undo_entries (es @ it_trail tb) (length (it_trail tb)) x)"
    using undo_entries_truncate [OF cx(1) 1(4), of "it_trail tb"] 2(2) cx(2) x(2) by simp
  with 1(5) 1(2) obtain y where y: "undo_entries (es @ it_trail tb) (length (it_trail tb)) x = Some y"
    "truncate_vars (length (it_parent tb)) y = tb"
    by (auto simp: rollback_trial_def rollback_def mark_trial_def 1(3) truncate_truncate)
  have "rollback_trial (mark_trial tb) tb2 = Some tb"
    using undo_entries_split [of "length (it_trail tb)" "it_trail tb1" fs tb2] x(1) y
    by (simp add: rollback_trial_def rollback_def mark_trial_def 2(3) 1(3))
  moreover have "\<forall>u\<in>set (fs @ es). undo_var u < length (it_parent tb2)"
    using 1(4) 2(2,4) by fastforce
  ultimately show "columns_ok tb2 \<and> length (it_parent tb) \<le> length (it_parent tb2) \<and>
     (\<exists>es. it_trail tb2 = es @ it_trail tb \<and> (\<forall>u\<in>set es. undo_var u < length (it_parent tb2))) \<and>
     rollback_trial (mark_trial tb) tb2 = Some tb"
    using 1 2 by auto
qed

text \<open>One logged write.\<close>

lemma reverts_write:
  assumes "columns_ok tb \<Longrightarrow> it_trail tb' = u # it_trail tb \<and> undo_var u < length (it_parent tb) \<and>
    columns_ok tb' \<and> length (it_parent tb') = length (it_parent tb) \<and>
    undo_entry u (tb'\<lparr>it_trail := it_trail tb\<rparr>) = Some tb"
  shows "reverts tb tb'"
  using assms unfolding reverts_def
  by (auto simp: rollback_trial_def rollback_def mark_trial_def truncate_all)

lemmas writes = log_undo_def setters columns_ok_def

lemma reverts_link: "link tb c p = Some tb' \<Longrightarrow> reverts tb tb'"
  by (rule reverts_write [of _ _ "UndoParent c (it_parent tb ! c)"])
    (auto simp: link_def bind_eq_Some_conv writes split: if_splits)

lemma reverts_grow_rank: "grow_rank tb v r = Some tb' \<Longrightarrow> get_at (it_rank tb) v = Some r \<Longrightarrow> reverts tb tb'"
  by (rule reverts_write [of _ _ "UndoRank v r"]) (auto simp: grow_rank_def writes split: if_splits)

lemma reverts_set_kind:
  "set_kind (log_undo (UndoKind v old) tb) v k = Some tb' \<Longrightarrow> get_at (it_kind tb) v = Some old \<Longrightarrow> reverts tb tb'"
  by (rule reverts_write [of _ _ "UndoKind v old"]) (auto simp: writes split: if_splits)

lemma reverts_set_binding:
  "set_binding (log_undo (UndoRebind v old) tb) v b = Some tb' \<Longrightarrow> get_at (it_binding tb) v = Some old \<Longrightarrow>
   reverts tb tb'"
  by (rule reverts_write [of _ _ "UndoRebind v old"]) (auto simp: writes split: if_splits)

lemma reverts_merge_kind: "merge_kind tb v k = Some tb' \<Longrightarrow> reverts tb tb'"
  by (auto simp: merge_kind_def bind_eq_Some_conv reverts_refl split: if_splits dest: reverts_set_kind)

lemma link_ranks: "link tb c p = Some tb' \<Longrightarrow> it_rank tb' = it_rank tb"
  by (auto simp: link_def bind_eq_Some_conv writes split: if_splits)

lemma reverts_union:
  assumes "union_classes tb x y m = Some tb'"
  shows "reverts tb tb'"
proof -
  from assms obtain rx ry c rt tb1 tb2 where u: "get_at (it_rank tb) x = Some rx" "get_at (it_rank tb) y = Some ry"
    "(c, rt) = (if ry < rx then (y, x) else (x, y))" "link tb c rt = Some tb1"
    "(if rx = ry then grow_rank tb1 rt ry else Some tb1) = Some tb2" "merge_kind tb2 rt m = Some tb'"
    unfolding union_classes_def bind_eq_Some_conv Let_def by (force split: prod.splits simp: bind_eq_Some_conv)
  have "reverts tb1 tb2"
    using u(1-3,5) link_ranks [OF u(4)] by (auto split: if_splits simp: reverts_refl dest!: reverts_grow_rank)
  with u(4,6) show ?thesis
    by (blast intro: reverts_trans reverts_link reverts_merge_kind)
qed

lemma reverts_bind:
  assumes "unbound tb v"
  shows "reverts tb (log_undo (UndoBind v) (tb\<lparr>it_binding := (it_binding tb)[v := Some t]\<rparr>))"
  by (rule reverts_write [of _ _ "UndoBind v"])
    (use assms list_update_id [of "it_binding tb" v] in \<open>auto simp: writes unbound_def\<close>)

interpretation trail: table_steps reverts
  by unfold_locales (blast intro: reverts_refl reverts_trans reverts_bind reverts_union)+

lemma reverts_fresh:
  assumes "fresh tb k = Some (t, tb')"
  shows "reverts tb tb'"
proof -
  from assms have tb': "tb' = tb\<lparr>it_parent := it_parent tb @ [length (it_parent tb)], it_rank := it_rank tb @ [0],
      it_binding := it_binding tb @ [None], it_kind := it_kind tb @ [k]\<rparr>"
    unfolding fresh_def Let_def by (metis (no_types, lifting) option.inject option.distinct(1) prod.inject)
  show ?thesis
    unfolding reverts_def
    by (simp add: tb' columns_ok_def rollback_trial_def rollback_def mark_trial_def truncate_vars_def)
qed

lemma reverts_rebind: "rebind n tb var t = Some tb' \<Longrightarrow> reverts tb tb'"
  by (cases var) (auto simp: rebind_def bind_eq_Some_conv reverts_refl simp del: get_at_Some
      dest: reverts_set_binding)

lemma reverts_alias:
  assumes "alias_var n tb var t = Some tb'"
  shows "reverts tb tb'"
proof (cases "\<exists>v. var = Infer v")
  case True
  with assms obtain r old where r: "get_at (it_binding tb) r = Some old"
    "(if old \<noteq> None then Some tb
          else Option.bind (shallow n tb t) (\<lambda>s. Option.bind (shallow n tb var) (\<lambda>s'.
            if s = s' then Some tb
            else set_binding (log_undo (UndoRebind r None) tb) r (Some t)))) = Some tb'"
    by (auto simp: alias_var_def bind_eq_Some_conv simp del: get_at_Some)
  then show ?thesis
    by (auto simp: bind_eq_Some_conv reverts_refl simp del: get_at_Some split: if_splits dest: reverts_set_binding)
next
  case False
  with assms show ?thesis by (cases var) (auto simp: alias_var_def reverts_refl)
qed

lemma reverts_mark_signed:
  assumes "mark_signed n tb t = Some tb'"
  shows "reverts tb tb'"
proof -
  from assms obtain u where u: "(case u of
        Infer v \<Rightarrow> Option.bind (root n tb v) (\<lambda>r. Option.bind (get_at (it_kind tb) r) (\<lambda>k.
          if k = IntLit then set_kind (log_undo (UndoKind r IntLit) tb) r SignedIntLit else Some tb))
      | _ \<Rightarrow> Some tb) = Some tb'"
    unfolding mark_signed_def bind_eq_Some_conv by blast
  then show ?thesis
    by (cases u) (auto simp: bind_eq_Some_conv reverts_refl simp del: get_at_Some split: if_splits
        dest: reverts_set_kind)
qed

section \<open>Trials\<close>

text \<open>What the checker does to a table during a trial; a trial may run and roll back trials of its own.\<close>

inductive trial :: "table \<Rightarrow> table \<Rightarrow> bool" where
  none: "trial tb tb"
| fresh: "trial tb tb1 \<Longrightarrow> fresh tb1 k = Some (t, tb2) \<Longrightarrow> trial tb tb2"
| unify: "trial tb tb1 \<Longrightarrow> unify n ix tb1 a b = Some (tb2, e) \<Longrightarrow> trial tb tb2"
| rebind: "trial tb tb1 \<Longrightarrow> rebind n tb1 var t = Some tb2 \<Longrightarrow> trial tb tb2"
| alias_var: "trial tb tb1 \<Longrightarrow> alias_var n tb1 var t = Some tb2 \<Longrightarrow> trial tb tb2"
| mark_signed: "trial tb tb1 \<Longrightarrow> mark_signed n tb1 t = Some tb2 \<Longrightarrow> trial tb tb2"
| nested: "trial tb tb1 \<Longrightarrow> trial tb1 tb2 \<Longrightarrow> rollback_trial (mark_trial tb1) tb2 = Some tb3 \<Longrightarrow> trial tb tb3"

lemma reverts_columns: "reverts tb tb' \<Longrightarrow> columns_ok tb \<Longrightarrow> columns_ok tb' \<and> rollback_trial (mark_trial tb) tb' = Some tb"
  by (auto simp: reverts_def)

lemma trial_reverts: "trial tb tb' \<Longrightarrow> columns_ok tb \<Longrightarrow> reverts tb tb'"
proof (induction rule: trial.induct)
  case (nested tb tb1 tb2 tb3)
  then have "columns_ok tb1" using reverts_columns by blast
  with nested have "tb3 = tb1" using reverts_columns [of tb1 tb2] by simp
  with nested show ?case by simp
qed (blast intro: reverts_refl reverts_trans reverts_fresh trail.unify_R reverts_rebind reverts_alias
  reverts_mark_signed)+

text \<open>C4. A trial leaves no trace: whatever variables it makes and whatever it unifies (with success or not),
  rebinds, aliases or marks, and whatever trials it runs itself, rolling back to the mark taken before it gives
  back the whole inference table, every column and the trail.\<close>

theorem rollback_trial_exact:
  assumes "columns_ok tb" "trial tb tb'"
  shows "rollback_trial (mark_trial tb) tb' = Some tb"
  using trial_reverts [OF assms(2,1)] assms(1) by (simp add: reverts_def)

definition sample_table :: table where
  "sample_table = \<lparr>it_parent = [0, 1], it_rank = [0, 0], it_binding = [None, None],
     it_kind = [General, IntLit], it_trail = []\<rparr>"

lemma sample_unify:
  "unify 3 (\<lambda>_. 0) sample_table (Infer 0) (Infer 1) =
     Some (\<lparr>it_parent = [1, 1], it_rank = [0, 1], it_binding = [None, None], it_kind = [General, IntLit],
       it_trail = [UndoRank 1 0, UndoParent 0 0]\<rparr>, None)"
  by code_simp

theorem rollback_trial_exact_witness:
  "\<exists>tb' e. unify 3 (\<lambda>_. 0) sample_table (Infer 0) (Infer 1) = Some (tb', e) \<and> tb' \<noteq> sample_table \<and>
     rollback_trial (mark_trial sample_table) tb' = Some sample_table"
proof -
  have c: "columns_ok sample_table" by (simp add: columns_ok_def sample_table_def)
  from rollback_trial_exact [OF c trial.unify [OF trial.none sample_unify]] show ?thesis
    unfolding sample_unify by (auto simp: sample_table_def)
qed

end
