(* ===== verification/Classes.thy ===== *)
theory Classes
  imports Trials
begin

text \<open>
  The classes of the inference table (\<^verbatim>\<open>crates/hd_types/src/unify.rs\<close>): the parent links are a forest whose
  ranks grow towards the root, and a root of rank \<open>r\<close> has at least \<open>2 ^ r\<close> variables in its class. So
  ranks stay far below the 256 values of their column, and a lookup follows few links whatever was unified.
\<close>

definition links :: "nat list \<Rightarrow> (nat \<times> nat) set" where
  "links ps = {(v, p). v < length ps \<and> p = ps ! v \<and> p \<noteq> v}"

definition class_set :: "nat list \<Rightarrow> nat \<Rightarrow> nat set" where
  "class_set ps r = {v. v < length ps \<and> (v, r) \<in> (links ps)\<^sup>*}"

definition forest_ok :: "nat list \<Rightarrow> nat list \<Rightarrow> bool" where
  "forest_ok ps rs \<longleftrightarrow> length rs = length ps \<and> length ps \<le> 2 ^ 32 \<and>
     (\<forall>v<length ps. ps ! v < length ps \<and> (ps ! v \<noteq> v \<longrightarrow> rs ! v < rs ! (ps ! v))) \<and>
     (\<forall>r<length ps. ps ! r = r \<longrightarrow> 2 ^ (rs ! r) \<le> card (class_set ps r))"

lemma members_finite [simp]: "finite (class_set ps r)"
  by (simp add: class_set_def)

lemma members_le: "card (class_set ps r) \<le> length ps"
  using card_mono [of "{..<length ps}" "class_set ps r"] by (auto simp: class_set_def)

lemma root_rank:
  assumes "forest_ok ps rs" "r < length ps" "ps ! r = r"
  shows "rs ! r \<le> 32"
proof -
  have "2 ^ (rs ! r) \<le> card (class_set ps r)" using assms by (simp add: forest_ok_def)
  also have "\<dots> \<le> length ps" by (rule members_le)
  also have "\<dots> \<le> 2 ^ 32" using assms(1) unfolding forest_ok_def by blast
  finally show ?thesis by (subst (asm) power_increasing_iff) auto
qed

lemma links_rank:
  assumes "forest_ok ps rs" "(v, r) \<in> (links ps)\<^sup>*"
  shows "rs ! v \<le> rs ! r"
  using assms(2)
proof (induction rule: rtrancl_induct)
  case base
  then show ?case by simp
next
  case (step y z)
  then have "rs ! y < rs ! z" using assms(1) by (auto simp: links_def forest_ok_def)
  with step show ?case by simp
qed

text \<open>Every variable has a root: ranks grow, and there is a largest one.\<close>

definition top_rank :: "nat list \<Rightarrow> nat" where
  "top_rank rs = Max (insert 0 (set rs))"

lemma rank_le_top: "v < length rs \<Longrightarrow> rs ! v \<le> top_rank rs"
  by (simp add: top_rank_def)

lemma has_root:
  assumes "forest_ok ps rs" "v < length ps"
  shows "\<exists>r<length ps. ps ! r = r \<and> (v, r) \<in> (links ps)\<^sup>*"
  using assms(2)
proof (induction "top_rank rs - rs ! v" arbitrary: v rule: less_induct)
  case less
  show ?case
  proof (cases "ps ! v = v")
    case True
    with less.prems show ?thesis by blast
  next
    case False
    let ?p = "ps ! v"
    have p: "?p < length ps" "rs ! v < rs ! ?p" using assms(1) less.prems False by (auto simp: forest_ok_def)
    have "rs ! ?p \<le> top_rank rs" using p(1) assms(1) by (simp add: rank_le_top forest_ok_def)
    with p(2) have "top_rank rs - rs ! ?p < top_rank rs - rs ! v" by simp
    from less.hyps [OF this p(1)] obtain r where r: "r < length ps" "ps ! r = r" "(?p, r) \<in> (links ps)\<^sup>*" by blast
    have "(v, ?p) \<in> links ps" using less.prems False by (simp add: links_def)
    with r show ?thesis by (meson converse_rtrancl_into_rtrancl)
  qed
qed

lemma rank_bound:
  assumes "forest_ok ps rs" "v < length ps"
  shows "rs ! v \<le> 32"
proof -
  obtain r where r: "r < length ps" "ps ! r = r" "(v, r) \<in> (links ps)\<^sup>*" using has_root [OF assms] by blast
  from links_rank [OF assms(1) r(3)] root_rank [OF assms(1) r(1,2)] show ?thesis by simp
qed

lemma root_found:
  assumes "forest_ok (it_parent tb) (it_rank tb)" "v < length (it_parent tb)" "33 \<le> n + it_rank tb ! v"
  shows "\<exists>r. root n tb v = Some r \<and> r < length (it_parent tb)"
  using assms(2,3)
proof (induction n arbitrary: v)
  case 0
  then show ?case using rank_bound [OF assms(1), of v] by simp
next
  case (Suc n)
  let ?p = "it_parent tb ! v"
  have p: "?p < length (it_parent tb)" "?p \<noteq> v \<Longrightarrow> it_rank tb ! v < it_rank tb ! ?p"
    using assms(1) Suc.prems by (auto simp: forest_ok_def)
  show ?case
  proof (cases "?p = v")
    case True
    with Suc.prems show ?thesis by (simp add: get_at_def)
  next
    case False
    with p Suc.prems Suc.IH [of ?p] show ?thesis by (simp add: get_at_def)
  qed
qed

section \<open>Unions\<close>

lemma links_chain:
  assumes "(v, r) \<in> (links ps)\<^sup>*" "(v, s) \<in> (links ps)\<^sup>*" "ps ! r = r" "ps ! s = s"
  shows "r = s"
  using assms(1,2)
proof (induction rule: converse_rtrancl_induct)
  case base
  then show ?case
  proof (cases rule: converse_rtranclE)
    case (step y)
    with assms(3) show ?thesis by (simp add: links_def)
  qed simp
next
  case (step y z)
  from step.prems have "(z, s) \<in> (links ps)\<^sup>*"
  proof (cases rule: converse_rtranclE)
    case base
    with step.hyps(1) assms(4) show ?thesis by (simp add: links_def)
  next
    case (step w)
    with \<open>(y, z) \<in> links ps\<close> show ?thesis by (simp add: links_def)
  qed
  with step.IH show ?case .
qed

lemma links_link:
  assumes "c < length ps" "ps ! c = c" "p \<noteq> c"
  shows "links (ps[c := p]) = insert (c, p) (links ps)"
  using assms by (auto simp: links_def nth_list_update)

lemma members_link:
  assumes "c < length ps" "p < length ps" "ps ! c = c" "ps ! p = p" "p \<noteq> c"
  shows "class_set ps c \<union> class_set ps p \<subseteq> class_set (ps[c := p]) p"
    and "class_set ps r \<subseteq> class_set (ps[c := p]) r"
    and "class_set ps c \<inter> class_set ps p = {}"
proof -
  have l: "(links ps)\<^sup>* \<subseteq> (links (ps[c := p]))\<^sup>*" "(c, p) \<in> links (ps[c := p])"
    using rtrancl_mono [of "links ps"] links_link [OF assms(1,3,5)] by auto
  then show "class_set ps c \<union> class_set ps p \<subseteq> class_set (ps[c := p]) p" "class_set ps r \<subseteq> class_set (ps[c := p]) r"
    by (auto simp: class_set_def intro: rtrancl_into_rtrancl)
  show "class_set ps c \<inter> class_set ps p = {}"
    using links_chain [of _ c ps p] assms(3-5) by (auto simp: class_set_def)
qed

lemma forest_link:
  assumes f: "forest_ok ps rs" and c: "c < length ps" "p < length ps" "ps ! c = c" "ps ! p = p" "p \<noteq> c"
    and k: "rs ! c < k" "rs ! p \<le> k" "k \<le> rs ! p \<or> k = Suc (rs ! c) \<and> rs ! c = rs ! p"
  shows "forest_ok (ps[c := p]) (rs[p := k])"
proof -
  note m = members_link [OF c]
  have "2 ^ k \<le> card (class_set (ps[c := p]) p)"
  proof (cases "k \<le> rs ! p")
    case True
    then have "(2::nat) ^ k \<le> 2 ^ (rs ! p)" by simp
    also have "\<dots> \<le> card (class_set ps p)" using f c by (simp add: forest_ok_def)
    also have "\<dots> \<le> card (class_set (ps[c := p]) p)" by (rule card_mono) (use m(2) in auto)
    finally show ?thesis .
  next
    case False
    with k have "(2::nat) ^ k = 2 ^ (rs ! c) + 2 ^ (rs ! p)" by auto
    also have "\<dots> \<le> card (class_set ps c) + card (class_set ps p)"
      using f c by (intro add_mono) (auto simp: forest_ok_def)
    also have "\<dots> = card (class_set ps c \<union> class_set ps p)"
      by (rule card_Un_disjoint [symmetric]) (use m(3) in auto)
    also have "\<dots> \<le> card (class_set (ps[c := p]) p)" by (rule card_mono) (use m(1) in auto)
    finally show ?thesis .
  qed
  moreover have "2 ^ (rs ! r) \<le> card (class_set (ps[c := p]) r)" if "r < length ps" "ps ! r = r" for r
  proof -
    have "2 ^ (rs ! r) \<le> card (class_set ps r)" using f that by (simp add: forest_ok_def)
    also have "\<dots> \<le> card (class_set (ps[c := p]) r)" by (rule card_mono) (use m(2) in auto)
    finally show ?thesis .
  qed
  moreover have "rs ! v < k" if "v < length ps" "ps ! v = p" "v \<noteq> p" for v
  proof -
    have "rs ! v < rs ! p" using f that by (auto simp: forest_ok_def)
    with k(2) show ?thesis by simp
  qed
  ultimately show ?thesis
    using f c k by (auto simp: forest_ok_def nth_list_update)
qed

section \<open>Tables\<close>

definition classes_ok :: "table \<Rightarrow> bool" where
  "classes_ok tb \<longleftrightarrow> columns_ok tb \<and> forest_ok (it_parent tb) (it_rank tb)"

lemma union_classes_columns:
  assumes "classes_ok tb" "unbound tb x" "unbound tb y" "x \<noteq> y"
  defines "rx \<equiv> it_rank tb ! x" and "ry \<equiv> it_rank tb ! y"
  defines "c \<equiv> (if ry < rx then y else x)" and "p \<equiv> (if ry < rx then x else y)"
  shows "\<exists>tb'. union_classes tb x y m = Some tb' \<and> it_parent tb' = (it_parent tb)[c := p] \<and>
    it_rank tb' = (it_rank tb)[p := (if rx = ry then Suc ry else it_rank tb ! p)] \<and>
    it_binding tb' = it_binding tb \<and> it_kind tb' = (it_kind tb)[p := m] \<and> classes_ok tb'"
proof -
  have b: "x < length (it_parent tb)" "y < length (it_parent tb)" "it_parent tb ! x = x" "it_parent tb ! y = y"
    using assms(2,3) by (auto simp: unbound_def)
  have len: "length (it_rank tb) = length (it_parent tb)" "length (it_kind tb) = length (it_parent tb)"
    "length (it_binding tb) = length (it_parent tb)" and f: "forest_ok (it_parent tb) (it_rank tb)"
    using assms(1) by (auto simp: classes_ok_def columns_ok_def)
  have r: "ry \<le> 32" using rank_bound [OF f b(2)] by (simp add: ry_def)
  have cp: "c < length (it_parent tb)" "p < length (it_parent tb)" "it_parent tb ! c = c" "it_parent tb ! p = p" "p \<noteq> c"
    using b assms(4) by (auto simp: c_def p_def)
  define k where "k = (if rx = ry then Suc ry else it_rank tb ! p)"
  have "forest_ok ((it_parent tb)[c := p]) ((it_rank tb)[p := k])"
    by (rule forest_link [OF f cp]) (auto simp: k_def c_def p_def rx_def ry_def)
  moreover have kl: "kr[p := kr ! p] = kr" for kr :: "var_kind list" by (rule list_update_id)
  moreover have "(it_rank tb)[p := it_rank tb ! p] = it_rank tb" by (rule list_update_id)
  ultimately show ?thesis
    using b len r cp
    unfolding union_classes_def link_def grow_rank_def merge_kind_def k_def [symmetric]
    by (auto simp: get_at_def writes Let_def classes_ok_def c_def p_def rx_def ry_def k_def)
qed

lemma classes_ok_columns [dest]: "classes_ok tb \<Longrightarrow> columns_ok tb"
  by (simp add: classes_ok_def)

interpretation classes: table_steps "\<lambda>tb tb'. classes_ok tb \<longrightarrow> classes_ok tb'"
proof unfold_locales
  show "classes_ok tb \<longrightarrow> classes_ok (log_undo (UndoBind v) (tb\<lparr>it_binding := (it_binding tb)[v := Some t]\<rparr>))" for tb v t
    by (simp add: classes_ok_def columns_ok_def log_undo_def)
  show "classes_ok tb \<longrightarrow> classes_ok tb'"
    if "unbound tb x" "unbound tb y" "x \<noteq> y" "union_classes tb x y m = Some tb'" for tb x y m tb'
    using union_classes_columns [OF _ that(1-3), of m] that(4) by auto
qed auto

lemma members_grow: "class_set ps r \<subseteq> class_set (ps @ [length ps]) r"
proof -
  have "links ps \<subseteq> links (ps @ [length ps])" by (auto simp: links_def nth_append)
  from rtrancl_mono [OF this] show ?thesis by (auto simp: class_set_def)
qed

lemma classes_fresh:
  assumes "fresh tb k = Some (t, tb')" "classes_ok tb"
  shows "classes_ok tb'"
proof -
  let ?ps = "it_parent tb" and ?n = "length (it_parent tb)"
  from assms(1) have n: "?n < 2 ^ 32" and tb': "tb' = tb\<lparr>it_parent := ?ps @ [?n], it_rank := it_rank tb @ [0],
      it_binding := it_binding tb @ [None], it_kind := it_kind tb @ [k]\<rparr>"
    unfolding fresh_def Let_def by (metis (no_types, lifting) option.inject option.distinct(1) prod.inject)+
  from assms(2) have f: "forest_ok ?ps (it_rank tb)" by (simp add: classes_ok_def)
  have "2 ^ (it_rank tb ! r) \<le> card (class_set (?ps @ [?n]) r)" if "r < ?n" "?ps ! r = r" for r
  proof -
    have "2 ^ (it_rank tb ! r) \<le> card (class_set ?ps r)" using f that by (simp add: forest_ok_def)
    also have "\<dots> \<le> card (class_set (?ps @ [?n]) r)" by (rule card_mono) (use members_grow in auto)
    finally show ?thesis .
  qed
  moreover have "1 \<le> card (class_set (?ps @ [?n]) ?n)"
    using card_mono [of "class_set (?ps @ [?n]) ?n" "{?n}"] by (simp add: class_set_def)
  ultimately have "forest_ok (?ps @ [?n]) (it_rank tb @ [0])"
    using f n unfolding forest_ok_def by (auto simp: nth_append less_Suc_eq)
  then show ?thesis using assms(2) by (simp add: tb' classes_ok_def columns_ok_def)
qed

lemma set_binding_classes: "set_binding (log_undo u tb) v b = Some tb' \<Longrightarrow> classes_ok tb \<Longrightarrow> classes_ok tb'"
  by (auto simp: writes classes_ok_def split: if_splits)

lemma set_kind_classes: "set_kind (log_undo u tb) v b = Some tb' \<Longrightarrow> classes_ok tb \<Longrightarrow> classes_ok tb'"
  by (auto simp: writes classes_ok_def split: if_splits)

lemma classes_rebind: "rebind n tb var t = Some tb' \<Longrightarrow> classes_ok tb \<Longrightarrow> classes_ok tb'"
  by (cases var) (auto simp: rebind_def bind_eq_Some_conv simp del: get_at_Some intro: set_binding_classes)

lemma classes_alias: "alias_var n tb var t = Some tb' \<Longrightarrow> classes_ok tb \<Longrightarrow> classes_ok tb'"
  by (cases var) (auto simp: alias_var_def bind_eq_Some_conv simp del: get_at_Some shallow.simps split: if_splits
      intro: set_binding_classes)

lemma classes_mark_signed:
  assumes "mark_signed n tb t = Some tb'" "classes_ok tb"
  shows "classes_ok tb'"
proof -
  from assms(1) obtain u where u: "(case u of
        Infer v \<Rightarrow> Option.bind (root n tb v) (\<lambda>r. Option.bind (get_at (it_kind tb) r) (\<lambda>k.
          if k = IntLit then set_kind (log_undo (UndoKind r IntLit) tb) r SignedIntLit else Some tb))
      | _ \<Rightarrow> Some tb) = Some tb'"
    unfolding mark_signed_def bind_eq_Some_conv by blast
  then show ?thesis using assms(2)
    by (cases u) (auto simp: bind_eq_Some_conv simp del: get_at_Some split: if_splits intro: set_kind_classes)
qed

lemma trial_classes: "trial tb tb' \<Longrightarrow> classes_ok tb \<Longrightarrow> classes_ok tb'"
proof (induction rule: trial.induct)
  case (nested tb tb1 tb2 tb3)
  then have "tb3 = tb1" using trial_reverts [of tb1 tb2] reverts_columns [of tb1 tb2] by auto
  with nested show ?case by simp
next
  case (unify tb tb1 n ix a b tb2 e)
  then show ?case using classes.unify_R by blast
qed (blast intro: classes_fresh classes_rebind classes_alias classes_mark_signed)+

lemma empty_classes: "classes_ok empty_table"
  by (simp add: classes_ok_def columns_ok_def forest_ok_def empty_table_def)

text \<open>C18. In every table the checker can reach, whatever was unified, undone or bound in between, each class
  is found after at most 32 links, and the byte of a rank never overflows: union by rank keeps ranks at most
  the logarithm of the number of variables, of which there are at most \<open>2 ^ 32\<close>.\<close>

theorem lookups_are_short:
  assumes "trial empty_table tb" "v < var_count tb"
  shows "(\<exists>r. root 33 tb v = Some r) \<and> it_rank tb ! v \<le> 32"
proof -
  have f: "forest_ok (it_parent tb) (it_rank tb)"
    using trial_classes [OF assms(1) empty_classes] by (simp add: classes_ok_def)
  with root_found [OF f, of v 33] rank_bound [OF f, of v] assms(2) show ?thesis by (auto simp: var_count_def)
qed

theorem lookups_are_short_witness:
  "\<exists>tb. trial empty_table tb \<and> var_count tb = 1 \<and> root 33 tb 0 = Some 0"
proof -
  let ?tb = "empty_table\<lparr>it_parent := [0], it_rank := [0], it_binding := [None], it_kind := [General]\<rparr>"
  have "fresh empty_table General = Some (Infer 0, ?tb)"
    by (simp add: fresh_def empty_table_def)
  then have t: "trial empty_table ?tb" by (rule trial.fresh [OF trial.none])
  from lookups_are_short [OF t, of 0] have "\<exists>r. root 33 ?tb 0 = Some r" by (simp add: var_count_def)
  moreover have "root 33 ?tb 0 = Some 0" by code_simp
  ultimately show ?thesis using t by (intro exI [of _ ?tb]) (simp add: var_count_def)
qed

end
