(* ===== verification/Literals.thy ===== *)
theory Literals
  imports Classes
begin

text \<open>
  Literal kinds (\<^verbatim>\<open>crates/hd_types/src/unify.rs\<close>, \<open>VarKind\<close>, \<open>bind\<close>, \<open>unify\<close>): the class of an integer
  literal stays one whatever is unified and takes integer types only. \<open>kinded\<close> has the steps by which a
  table is built; the two writes that look at no kind, \<open>rebind\<close> and \<open>alias\<close>, are among them for a type that the
  kind of the class takes.
\<close>

definition int_kind :: "var_kind \<Rightarrow> bool" where
  "int_kind k \<longleftrightarrow> k = IntLit \<or> k = SignedIntLit"

definition int_type :: "ty \<Rightarrow> bool" where
  "int_type t \<longleftrightarrow> t = Poison \<or> t = Never \<or> (\<exists>p. t = Prim p \<and> is_integer p)"

lemma kind_takes_int: "int_kind k \<Longrightarrow> kind_takes k t \<longleftrightarrow> int_type t"
  by (cases t) (auto simp: kind_takes_def int_kind_def int_type_def)

lemma merged_int: "merged_kind kx ky = Some m \<Longrightarrow> int_kind kx \<or> int_kind ky \<Longrightarrow> int_kind m"
  by (cases kx; cases ky) (auto simp: merged_kind_def int_kind_def)

definition kinds_hold :: "table \<Rightarrow> bool" where
  "kinds_hold tb \<longleftrightarrow> (\<forall>v<length (it_parent tb). \<forall>t. it_binding tb ! v = Some t \<longrightarrow> kind_takes (it_kind tb ! v) t)"

definition rep :: "table \<Rightarrow> nat \<Rightarrow> nat \<Rightarrow> bool" where
  "rep tb v r \<longleftrightarrow> (v, r) \<in> (links (it_parent tb))\<^sup>* \<and> r < length (it_parent tb) \<and> it_parent tb ! r = r"

lemma root_rep: "root n tb v = Some r \<Longrightarrow> rep tb v r"
proof (induction n arbitrary: v)
  case 0
  then show ?case by simp
next
  case (Suc n)
  then obtain p where p: "v < length (it_parent tb)" "p = it_parent tb ! v" "if p = v then Some v = Some r else root n tb p = Some r"
    by (auto split: option.splits if_splits)
  show ?case
  proof (cases "p = v")
    case True
    with p show ?thesis by (auto simp: rep_def)
  next
    case False
    with p Suc.IH have "rep tb p r" "(v, p) \<in> links (it_parent tb)" by (auto simp: links_def)
    then show ?thesis by (auto simp: rep_def intro: converse_rtrancl_into_rtrancl)
  qed
qed

lemma rep_unique: "rep tb v r \<Longrightarrow> rep tb v s \<Longrightarrow> r = s"
  using links_chain [of v r "it_parent tb" s] by (auto simp: rep_def)

lemma rep_root: "classes_ok tb \<Longrightarrow> v < length (it_parent tb) \<Longrightarrow> rep tb v r \<Longrightarrow> root 33 tb v = Some r"
  using root_found [of tb v 33] root_rep [of 33 tb v] rep_unique by (fastforce simp: classes_ok_def)

definition literals_kept :: "table \<Rightarrow> table \<Rightarrow> bool" where
  "literals_kept tb tb' \<longleftrightarrow> (classes_ok tb \<and> kinds_hold tb \<longrightarrow> classes_ok tb' \<and> kinds_hold tb' \<and>
     length (it_parent tb) \<le> length (it_parent tb') \<and>
     (\<forall>v r. rep tb v r \<and> int_kind (it_kind tb ! r) \<longrightarrow> (\<exists>s. rep tb' v s \<and> int_kind (it_kind tb' ! s))))"

lemma kept_bind:
  assumes "unbound tb v" "get_at (it_kind tb) v = Some k" "kind_takes k t"
  shows "literals_kept tb (log_undo (UndoBind v) (tb\<lparr>it_binding := (it_binding tb)[v := Some t]\<rparr>))"
  using assms
  by (auto simp: literals_kept_def classes_ok_def columns_ok_def kinds_hold_def log_undo_def rep_def nth_list_update)

lemma rep_union:
  assumes "rep tb v r" "c < length ps" "ps = it_parent tb" "ps ! c = c" "ps ! p = p" "p < length ps" "p \<noteq> c"
    "it_parent tb' = ps[c := p]"
  shows "rep tb' v (if r = c then p else r)"
proof -
  have l: "(v, r) \<in> (links (it_parent tb'))\<^sup>*" "(c, p) \<in> links (it_parent tb')"
    using assms(1) rtrancl_mono [of "links ps"] links_link [OF assms(2,4,7)] assms(3,8) by (auto simp: rep_def)
  then show ?thesis
    using assms by (auto simp: rep_def nth_list_update intro: rtrancl_into_rtrancl)
qed

lemma kept_union:
  assumes xy: "unbound tb x" "unbound tb y" "x \<noteq> y" "get_at (it_kind tb) x = Some kx"
    "get_at (it_kind tb) y = Some ky" "merged_kind kx ky = Some m" "union_classes tb x y m = Some tb'"
  shows "literals_kept tb tb'"
  unfolding literals_kept_def
proof
  assume tb: "classes_ok tb \<and> kinds_hold tb"
  define c where "c = (if it_rank tb ! y < it_rank tb ! x then y else x)"
  define p where "p = (if it_rank tb ! y < it_rank tb ! x then x else y)"
  note u = union_classes_columns [of tb x y m, folded c_def p_def]
  from u tb xy have tb': "it_parent tb' = (it_parent tb)[c := p]" "it_binding tb' = it_binding tb"
    "it_kind tb' = (it_kind tb)[p := m]" "classes_ok tb'"
    by auto
  have cp: "c < length (it_parent tb)" "p < length (it_parent tb)" "it_parent tb ! c = c" "it_parent tb ! p = p"
    "p \<noteq> c" "it_binding tb ! p = None" "{c, p} = {x, y}"
    using xy(1-3) by (auto simp: c_def p_def unbound_def)
  have len: "length (it_kind tb) = length (it_parent tb)" using tb by (simp add: classes_ok_def columns_ok_def)
  have "kinds_hold tb'" using tb cp len by (auto simp: kinds_hold_def tb' nth_list_update)
  moreover have "\<exists>s. rep tb' v s \<and> int_kind (it_kind tb' ! s)"
    if "rep tb v r" "int_kind (it_kind tb ! r)" for v r
  proof -
    have "rep tb' v (if r = c then p else r)"
      by (rule rep_union [OF that(1) cp(1) refl cp(3,4,2,5) tb'(1)])
    moreover have "int_kind (it_kind tb' ! (if r = c then p else r))"
      using that(2) merged_int [OF xy(6)] xy(4,5) cp(2,7) len by (auto simp: tb'(3) nth_list_update doubleton_eq_iff)
    ultimately show ?thesis by blast
  qed
  ultimately show "classes_ok tb' \<and> kinds_hold tb' \<and> length (it_parent tb) \<le> length (it_parent tb') \<and>
     (\<forall>v r. rep tb v r \<and> int_kind (it_kind tb ! r) \<longrightarrow> (\<exists>s. rep tb' v s \<and> int_kind (it_kind tb' ! s)))"
    using tb' by auto
qed

lemma kept_trans: "literals_kept tb tb1 \<Longrightarrow> literals_kept tb1 tb2 \<Longrightarrow> literals_kept tb tb2"
  unfolding literals_kept_def by (meson le_trans)

lemma kept_refl: "literals_kept tb tb"
  by (auto simp: literals_kept_def)

interpretation literals: table_steps literals_kept
proof unfold_locales
  show "literals_kept tb tb" for tb by (rule kept_refl)
qed (blast intro: kept_trans kept_bind kept_union)+

section \<open>The other steps\<close>

lemma kept_fresh:
  assumes "fresh tb k = Some (t, tb')"
  shows "literals_kept tb tb'"
  unfolding literals_kept_def
proof (intro impI)
  assume tb: "classes_ok tb \<and> kinds_hold tb"
  let ?n = "length (it_parent tb)"
  from assms have tb': "tb' = tb\<lparr>it_parent := it_parent tb @ [?n], it_rank := it_rank tb @ [0],
      it_binding := it_binding tb @ [None], it_kind := it_kind tb @ [k]\<rparr>"
    unfolding fresh_def Let_def by (metis (no_types, lifting) option.inject option.distinct(1) prod.inject)
  have len: "length (it_kind tb) = ?n" "length (it_binding tb) = ?n" using tb by (simp_all add: classes_ok_def columns_ok_def)
  have "links (it_parent tb) \<subseteq> links (it_parent tb')" by (auto simp: links_def tb' nth_append)
  from rtrancl_mono [OF this] have "rep tb' v r \<and> it_kind tb' ! r = it_kind tb ! r" if "rep tb v r" for v r
    using that len by (auto simp: rep_def tb' nth_append)
  moreover have "kinds_hold tb'" using tb len by (auto simp: kinds_hold_def tb' nth_append less_Suc_eq)
  moreover have len_le: "?n \<le> length (it_parent tb')" by (simp add: tb')
  moreover have "classes_ok tb'" using classes_fresh [OF assms] tb by blast
  ultimately show "classes_ok tb' \<and> kinds_hold tb' \<and> ?n \<le> length (it_parent tb') \<and>
     (\<forall>v r. rep tb v r \<and> int_kind (it_kind tb ! r) \<longrightarrow> (\<exists>s. rep tb' v s \<and> int_kind (it_kind tb' ! s)))"
    using len_le by metis
qed

text \<open>A binding of a type that the kind of the class takes.\<close>

lemma kept_set_binding:
  assumes "set_binding (log_undo u tb) r (Some t) = Some tb'" "kind_takes (it_kind tb ! r) t"
  shows "literals_kept tb tb'"
  using assms
  by (auto simp: literals_kept_def set_binding_def set_at_def log_undo_def classes_ok_def columns_ok_def kinds_hold_def
      rep_def nth_list_update split: if_splits)

lemma kept_rebind:
  assumes "root n tb v = Some r" "kind_takes (it_kind tb ! r) t" "rebind n tb (Infer v) t = Some tb'"
  shows "literals_kept tb tb'"
  using assms kept_set_binding [of _ tb r t tb'] by (auto simp: rebind_def bind_eq_Some_conv simp del: get_at_Some)

lemma kept_alias:
  assumes "root n tb v = Some r" "kind_takes (it_kind tb ! r) t" "alias_var n tb (Infer v) t = Some tb'"
  shows "literals_kept tb tb'"
  using assms kept_set_binding [of _ tb r t tb'] kept_refl
  by (auto simp: alias_var_def bind_eq_Some_conv simp del: get_at_Some shallow.simps split: if_splits)

lemma kept_mark_signed:
  assumes "mark_signed n tb t = Some tb'"
  shows "literals_kept tb tb'"
proof -
  from assms obtain u where u: "shallow n tb t = Some u" "(case u of
        Infer v \<Rightarrow> Option.bind (root n tb v) (\<lambda>r. Option.bind (get_at (it_kind tb) r) (\<lambda>k.
          if k = IntLit then set_kind (log_undo (UndoKind r IntLit) tb) r SignedIntLit else Some tb))
      | _ \<Rightarrow> Some tb) = Some tb'"
    unfolding mark_signed_def bind_eq_Some_conv by blast
  show ?thesis
  proof (cases "tb' = tb")
    case True
    then show ?thesis by (simp add: kept_refl)
  next
    case False
    with u(2) obtain v where v: "u = Infer v" by (cases u) auto
    with u(1) shallow_Infer have open_v: "unbound tb v" by blast
    from u(2) v False obtain r where r: "root n tb v = Some r" "set_kind (log_undo (UndoKind r IntLit) tb) r SignedIntLit = Some tb'"
      by (auto simp: bind_eq_Some_conv simp del: get_at_Some split: if_splits)
    from root_unbound [OF open_v r(1)] have "r = v" .
    moreover have "it_binding tb ! v = None" using open_v by (auto simp: unbound_def)
    ultimately show ?thesis using r(2)
      by (auto simp: literals_kept_def set_kind_def set_at_def log_undo_def classes_ok_def columns_ok_def kinds_hold_def
          rep_def nth_list_update int_kind_def split: if_splits)
  qed
qed

text \<open>What is done to a table. \<open>rebind\<close> and \<open>alias\<close> look at no kind, so their rules ask for a type that the kind of
  the class takes, as \<open>General\<close> takes every type and every kind the poison type.\<close>

inductive kinded :: "table \<Rightarrow> table \<Rightarrow> bool" where
  start: "kinded tb tb"
| fresh_var: "kinded tb tb1 \<Longrightarrow> fresh tb1 k = Some (t, tb2) \<Longrightarrow> kinded tb tb2"
| unify_types: "kinded tb tb1 \<Longrightarrow> unify n ix tb1 a b = Some (tb2, e) \<Longrightarrow> kinded tb tb2"
| signed: "kinded tb tb1 \<Longrightarrow> mark_signed n tb1 t = Some tb2 \<Longrightarrow> kinded tb tb2"
| rebind_taken: "kinded tb tb1 \<Longrightarrow> root n tb1 v = Some r \<Longrightarrow> kind_takes (it_kind tb1 ! r) t \<Longrightarrow>
    rebind n tb1 (Infer v) t = Some tb2 \<Longrightarrow> kinded tb tb2"
| alias_taken: "kinded tb tb1 \<Longrightarrow> root n tb1 v = Some r \<Longrightarrow> kind_takes (it_kind tb1 ! r) t \<Longrightarrow>
    alias_var n tb1 (Infer v) t = Some tb2 \<Longrightarrow> kinded tb tb2"
| rolled_back: "kinded tb tb1 \<Longrightarrow> trial tb1 tb2 \<Longrightarrow> rollback_trial (mark_trial tb1) tb2 = Some tb3 \<Longrightarrow> kinded tb tb3"

lemma kinded_kept: "kinded tb tb' \<Longrightarrow> literals_kept tb tb'"
proof (induction rule: kinded.induct)
  case (start tb)
  show ?case by (rule kept_refl)
next
  case (rolled_back tb tb1 tb2 tb3)
  have "tb3 = tb1" if "classes_ok tb1"
    using that rolled_back.hyps(2,3) trial_reverts [of tb1 tb2] reverts_columns [of tb1 tb2] by (auto simp: classes_ok_def)
  with rolled_back.IH show ?case by (auto simp: literals_kept_def)
qed (blast intro: kept_trans kept_fresh literals.unify_R kept_mark_signed kept_rebind kept_alias)+

lemma empty_kinds: "classes_ok empty_table \<and> kinds_hold empty_table"
  using empty_classes by (simp add: kinds_hold_def empty_table_def)

text \<open>C17. The type of an integer literal: in every table built from the empty one (by fresh
  variables, unifications of any two types, failed or not, \<open>mark_signed\<close>, trials that are rolled back, and
  \<open>rebind\<close> and \<open>alias\<close> to a type that the kind of the class takes), a variable whose class is an integer literal
  stays in an integer literal class, whatever of this is done later; and when that class is bound, it is to an
  integer type (or to \<open>never\<close> or the poison type), never to a float or anything else.\<close>

theorem integer_literals_stay:
  assumes "kinded empty_table tb" "kinded tb tb'" "root 33 tb v = Some r" "int_kind (it_kind tb ! r)"
  shows "\<exists>s. root 33 tb' v = Some s \<and> int_kind (it_kind tb' ! s) \<and>
    (\<forall>t. it_binding tb' ! s = Some t \<longrightarrow> int_type t)"
proof -
  have tb: "classes_ok tb \<and> kinds_hold tb" using kinded_kept [OF assms(1)] empty_kinds by (simp add: literals_kept_def)
  have v: "v < length (it_parent tb)" using assms(3) by (cases "33 :: nat") (auto split: option.splits)
  have k: "classes_ok tb'" "kinds_hold tb'" "length (it_parent tb) \<le> length (it_parent tb')"
    "\<exists>s. rep tb' v s \<and> int_kind (it_kind tb' ! s)"
    using kinded_kept [OF assms(2)] tb assms(4) root_rep [OF assms(3)] unfolding literals_kept_def by blast+
  then obtain s where s: "rep tb' v s" "int_kind (it_kind tb' ! s)" by blast
  from rep_root [OF k(1) _ s(1)] v k(3) have "root 33 tb' v = Some s" by simp
  moreover have "int_type t" if "it_binding tb' ! s = Some t" for t
    using k(2) s that kind_takes_int by (auto simp: kinds_hold_def rep_def)
  ultimately show ?thesis using s(2) by blast
qed

theorem integer_literals_stay_witness:
  "\<exists>tb'. kinded sample_table tb' \<and> it_parent tb' = [1, 1] \<and> (\<exists>s. root 33 tb' 1 = Some s \<and> int_kind (it_kind tb' ! s))"
proof -
  let ?one = "\<lparr>it_parent = [0], it_rank = [0], it_binding = [None], it_kind = [General], it_trail = []\<rparr>"
  have "fresh empty_table General = Some (Infer 0, ?one)" "fresh ?one IntLit = Some (Infer 1, sample_table)"
    by (simp_all add: fresh_def empty_table_def sample_table_def)
  then have s: "kinded empty_table sample_table"
    using kinded.fresh_var [OF kinded.fresh_var [OF kinded.start]] by blast
  have u: "kinded sample_table \<lparr>it_parent = [1, 1], it_rank = [0, 1], it_binding = [None, None],
      it_kind = [General, IntLit], it_trail = [UndoRank 1 0, UndoParent 0 0]\<rparr>"
    by (rule kinded.unify_types [OF kinded.start sample_unify])
  have "root 33 sample_table 1 = Some 1" "int_kind (it_kind sample_table ! 1)"
    by code_simp+
  from integer_literals_stay [OF s u this] u show ?thesis
    by (metis table.select_convs(1))
qed

end
