(* ===== verification/UnifySound.thy ===== *)
theory UnifySound
  imports Substitution Literals
begin

text \<open>
  Unification is sound: read as a substitution, the table a successful unification leaves makes its two
  types agree. A table stands for the substitution \<open>f\<close> when \<open>f\<close> sends a variable to the variable of its
  class, if the class is open, and otherwise to what \<open>f\<close> makes of its binding.
\<close>

definition fits_in :: "table \<Rightarrow> ty \<Rightarrow> bool" where
  "fits_in tb t \<longleftrightarrow> checked t \<and> ty_vars t \<subseteq> {..<length (it_parent tb)}"

definition table_good :: "table \<Rightarrow> bool" where
  "table_good tb \<longleftrightarrow> classes_ok tb \<and>
     (\<forall>v<length (it_parent tb). \<forall>t. it_binding tb ! v = Some t \<longrightarrow> fits_in tb t \<and> infer_of t = None)"

definition stands_for :: "table \<Rightarrow> (nat \<Rightarrow> ty) \<Rightarrow> bool" where
  "stands_for tb f \<longleftrightarrow> (\<forall>v. checked (f v) \<and> interned (f v)) \<and>
     (\<forall>v r. rep tb v r \<longrightarrow> v < length (it_parent tb) \<longrightarrow>
        f v = (case it_binding tb ! r of None \<Rightarrow> Infer r | Some t \<Rightarrow> tsub f t))"

definition solved :: "table \<Rightarrow> (nat \<Rightarrow> ty) \<Rightarrow> bool" where
  "solved tb f \<longleftrightarrow> table_good tb \<and> stands_for tb f"

definition open_count :: "table \<Rightarrow> nat" where
  "open_count tb = card {v. unbound tb v}"

lemma unbound_finite [simp]: "finite {v. unbound tb v}"
  by (rule finite_subset [of _ "{..<length (it_parent tb)}"]) (auto simp: unbound_def)

lemma unbound_rep: "unbound tb v \<Longrightarrow> rep tb v v"
  by (auto simp: rep_def unbound_def)

lemma solved_open: "solved tb f \<Longrightarrow> unbound tb v \<Longrightarrow> f v = Infer v"
  using unbound_rep [of tb v] by (auto simp: solved_def stands_for_def unbound_def)

lemma solved_checked: "solved tb f \<Longrightarrow> checked (f v)"
  by (simp add: solved_def stands_for_def)

lemma solved_tsub: "solved tb f \<Longrightarrow> interned (tsub f t)"
  by (simp add: solved_def stands_for_def tsub_interned)

section \<open>Reading a type through the table\<close>

lemma shallow_tsub:
  assumes "solved tb f" "fits_in tb t" "shallow n tb t = Some u"
  shows "tsub f u = tsub f t \<and> fits_in tb u"
  using assms(2,3)
proof (induction n arbitrary: t)
  case 0
  then show ?case by simp
next
  case (Suc n)
  show ?case
  proof (cases "\<exists>v. t = Infer v")
    case True
    then obtain v where t: "t = Infer v" by blast
    with Suc.prems obtain r where r: "root (Suc n) tb v = Some r" "r < length (it_binding tb)"
      "(case it_binding tb ! r of Some u \<Rightarrow> shallow n tb u | None \<Rightarrow> Some (Infer r)) = Some u"
      by (auto simp: bind_eq_Some_conv simp del: root.simps)
    have v: "v < length (it_parent tb)" using Suc.prems(1) t by (simp add: fits_in_def)
    have rr: "rep tb v r" using r(1) by (rule root_rep)
    then have r': "r < length (it_parent tb)" "rep tb r r" by (auto simp: rep_def)
    note f = assms(1) [unfolded solved_def stands_for_def]
    show ?thesis
    proof (cases "it_binding tb ! r")
      case None
      with f rr v r' have "f v = Infer r" "f r = Infer r" by auto
      with r(3) None t r' show ?thesis by (auto simp: fits_in_def)
    next
      case (Some w)
      with f rr v have "f v = tsub f w" by auto
      moreover have "fits_in tb w" using f Some r' by (auto simp: table_good_def)
      ultimately show ?thesis using Suc.IH [of w] r(3) Some t by simp
    qed
  next
    case False
    with Suc.prems have "u = t" by (cases t) auto
    with Suc.prems show ?thesis by simp
  qed
qed

lemma any_opt_iff:
  "any_opt f xs = Some b \<Longrightarrow> (\<And>x c. x \<in> set xs \<Longrightarrow> f x = Some c \<Longrightarrow> c = P x) \<Longrightarrow> b = (\<exists>x\<in>set xs. P x)"
proof (induction xs)
  case (Cons x xs)
  from Cons.prems(1) obtain c where c: "f x = Some c" "(if c then Some True else any_opt f xs) = Some b"
    by (auto simp: bind_eq_Some_conv)
  have px: "c = P x" by (rule Cons.prems(2) [OF _ c(1)]) simp
  show ?case
  proof (cases c)
    case True
    with c px show ?thesis by simp
  next
    case False
    with c have "any_opt f xs = Some b" by simp
    from Cons.IH [OF this Cons.prems(2)] False px show ?thesis by simp
  qed
qed simp

lemma fits_parts: "fits_in tb t \<Longrightarrow> x \<in> set (occurs_parts t) \<Longrightarrow> fits_in tb x"
  by (cases t) (auto simp: fits_in_def split: option.splits)

lemma tsub_parts_vars:
  assumes "checked t" "infer_of t = None"
  shows "ty_vars (tsub f t) = (\<Union>x\<in>set (occurs_parts t). ty_vars (tsub f x))"
proof -
  have parts: "checked x" if "x \<in> set (occurs_parts t)" for x
    using that assms(1) by (cases t) (auto split: option.splits)
  have "ty_vars t = (\<Union>x\<in>set (occurs_parts t). ty_vars x)"
    using assms by (cases t) (auto simp: closed_def split: option.splits)
  then show ?thesis using assms(1) parts by (simp add: tsub_vars)
qed

lemma infer_of_None: "infer_of t = None \<longleftrightarrow> (\<forall>v. t \<noteq> Infer v)"
  by (cases t) auto

lemma occurs_step:
  "infer_of u = None \<Longrightarrow> (case u of
        Infer w \<Rightarrow> map_option (\<lambda>r. r = v) (root (Suc n) tb w)
      | _ \<Rightarrow> any_opt (occurs n tb v) (occurs_parts u)) = any_opt (occurs n tb v) (occurs_parts u)"
  by (cases u) auto

lemma occurs_iff:
  assumes "solved tb f" "unbound tb v" "fits_in tb t" "occurs n tb v t = Some b"
  shows "b = (v \<in> ty_vars (tsub f t))"
  using assms(3,4)
proof (induction n arbitrary: t b)
  case 0
  then show ?case by simp
next
  case (Suc n)
  from Suc.prems(2) obtain u where u: "shallow (Suc n) tb t = Some u"
    and b: "(case u of
        Infer w \<Rightarrow> map_option (\<lambda>r. r = v) (root (Suc n) tb w)
      | _ \<Rightarrow> any_opt (occurs n tb v) (occurs_parts u)) = Some b"
    unfolding occurs.simps(2) bind_eq_Some_conv by blast
  have f: "tsub f u = tsub f t" "fits_in tb u" using shallow_tsub [OF assms(1) Suc.prems(1) u] by auto
  have "b = (v \<in> ty_vars (tsub f u))"
  proof (cases "infer_of u")
    case (Some w)
    then have w: "u = Infer w" by (simp add: infer_of_Some)
    with u have "unbound tb w" using shallow_Infer by blast
    with b w solved_open [OF assms(1)] show ?thesis by (auto dest: root_unbound simp del: root.simps)
  next
    case None
    from b have "any_opt (occurs n tb v) (occurs_parts u) = Some b" unfolding occurs_step [OF None] .
    then have "b = (\<exists>x\<in>set (occurs_parts u). v \<in> ty_vars (tsub f x))"
      by (rule any_opt_iff) (use Suc.IH fits_parts [OF f(2)] in blast)
    then show ?thesis using tsub_parts_vars [of u f] f(2) None by (simp add: fits_in_def)
  qed
  with f show ?case by simp
qed

lemma map_opt_tsub:
  "map_opt g xs = Some ys \<Longrightarrow> (\<And>x y. x \<in> set xs \<Longrightarrow> g x = Some y \<Longrightarrow> y = h x) \<Longrightarrow> ys = map h xs"
  by (induction xs arbitrary: ys) (auto simp: bind_eq_Some_conv)

lemma shallow_other: "infer_of t = None \<Longrightarrow> shallow (Suc n) tb t = Some t"
  by (cases t) auto

lemma resolve_row_closed: "row_vars r = {} \<Longrightarrow> resolve_row_by g ix r = Some r"
  by (simp add: resolve_row_by_def list_ex_infer row_vars_keys)

lemma resolve_parts_tsub:
  assumes u: "checked u" "infer_of u = None" "has_infer u"
    and g: "\<And>x y. x \<in> set (occurs_parts u) \<Longrightarrow> g x = Some y \<Longrightarrow> y = tsub f x"
    and r: "resolve_parts g (resolve_row_by g ix) u = Some t"
  shows "intern_ty t = tsub f u"
proof -
  have l: "ys = map (tsub f) xs" if "map_opt g xs = Some ys" "set xs \<subseteq> set (occurs_parts u)" for xs ys
    using map_opt_tsub [OF that(1)] g that(2) by blast
  show ?thesis
  proof (cases u)
    case (Fn ps res row s i d)
    with r u(1) obtain ps' res' where "map_opt g ps = Some ps'" "g res = Some res'" "t = Fn ps' res' row s i d"
      by (auto simp: resolve_parts_def bind_eq_Some_conv resolve_row_closed)
    with l [of ps ps'] g [of res res'] Fn u(3) show ?thesis by (simp add: subset_insertI del: intern_ty.simps)
  next
    case (Tuple es rest)
    from r [unfolded Tuple] obtain es' where e: "map_opt g es = Some es'"
      "(case rest of None \<Rightarrow> Some (Tuple es' None) | Some x \<Rightarrow> map_option (\<lambda>x'. Tuple es' (Some x')) (g x)) = Some t"
      by (auto simp: resolve_parts_def bind_eq_Some_conv)
    moreover from e(1) have "es' = map (tsub f) es" by (rule l) (auto simp: Tuple)
    ultimately show ?thesis using g Tuple by (cases rest) auto
  next
    case (Opaque ow s b args bound)
    with r obtain args' bound' where a: "map_opt g args = Some args'" "g bound = Some bound'"
      "t = Opaque ow s b args' bound'"
      by (auto simp: resolve_parts_def bind_eq_Some_conv)
    moreover from a(1) have "args' = map (tsub f) args" by (rule l) (auto simp: Opaque)
    ultimately show ?thesis using g Opaque by auto
  next
    case (TraitValue d args bs)
    with u show ?thesis by (simp add: closed_def has_infer_iff)
  next
    case (Assoc a tr self args)
    with u show ?thesis by (simp add: closed_def has_infer_iff)
  qed (use u r l g in \<open>auto simp: resolve_parts_def has_infer_iff\<close>)
qed

text \<open>What \<open>resolve\<close> returns is the substitution the table stands for.\<close>

lemma resolve_tsub:
  assumes "solved tb f" "fits_in tb t" "resolve n ix tb t = Some u"
  shows "u = tsub f t"
  using assms(2,3)
proof (induction n arbitrary: t u)
  case 0
  then show ?case by simp
next
  case (Suc n)
  from Suc.prems(2) obtain s where s: "shallow (Suc n) tb t = Some s"
    "(if has_infer s then map_option intern_ty (resolve_parts (resolve n ix tb) (resolve_row_by (resolve n ix tb) ix) s)
      else Some s) = Some u"
    unfolding resolve.simps(2) bind_eq_Some_conv by blast
  have f: "tsub f s = tsub f t" "fits_in tb s" using shallow_tsub [OF assms(1) Suc.prems(1) s(1)] by auto
  have "u = tsub f s"
  proof (cases "has_infer s")
    case False
    with s have "u = s" "closed s" by (auto simp: has_infer_iff closed_def)
    then show ?thesis by simp
  next
    case True
    with s(2) obtain t' where t': "resolve_parts (resolve n ix tb) (resolve_row_by (resolve n ix tb) ix) s = Some t'"
      "u = intern_ty t'" by auto
    show ?thesis
    proof (cases "infer_of s")
      case (Some w)
      then have w: "s = Infer w" by (simp add: infer_of_Some)
      with s(1) have "unbound tb w" using shallow_Infer by blast
      moreover have "t' = Infer w" using t'(1) w by (simp add: resolve_parts_def)
      ultimately show ?thesis using t'(2) w solved_open [OF assms(1)] by simp
    next
      case None
      have "intern_ty t' = tsub f s"
        by (rule resolve_parts_tsub [OF _ None True _ t'(1)])
          (use f(2) fits_parts [OF f(2)] Suc.IH in \<open>auto simp: fits_in_def\<close>)
      with t'(2) show ?thesis by simp
    qed
  qed
  with f show ?case by simp
qed

section \<open>The two writes\<close>

text \<open>Going on: the substitution of the new table refines the old one.\<close>

definition refines :: "(nat \<Rightarrow> ty) \<Rightarrow> (nat \<Rightarrow> ty) \<Rightarrow> bool" where
  "refines f f' \<longleftrightarrow> (\<forall>a b. checked a \<longrightarrow> checked b \<longrightarrow>
     (tsub f a = tsub f b \<longrightarrow> tsub f' a = tsub f' b) \<and> (agree (tsub f a) (tsub f b) \<longrightarrow> agree (tsub f' a) (tsub f' b)))"

lemma refines_refl: "refines f f"
  by (simp add: refines_def)

lemma refines_trans: "refines f g \<Longrightarrow> refines g h \<Longrightarrow> refines f h"
  unfolding refines_def by blast

lemma refines_comp:
  assumes "\<And>v. checked (f v)"
  shows "refines f (\<lambda>v. tsub g (f v))"
proof -
  have "tsub (\<lambda>v. tsub g (f v)) a = tsub g (tsub f a)" "checked (tsub f a)" if "checked a" for a
    using that assms by (simp_all add: tsub_tsub tsub_checked)
  then show ?thesis unfolding refines_def using agree_tsub by metis
qed

definition goes_on :: "table \<Rightarrow> (nat \<Rightarrow> ty) \<Rightarrow> table \<Rightarrow> (nat \<Rightarrow> ty) \<Rightarrow> bool" where
  "goes_on tb f tb' f' \<longleftrightarrow> solved tb' f' \<and> length (it_parent tb') = length (it_parent tb) \<and> refines f f' \<and>
     (open_count tb' < open_count tb \<or> open_count tb' = open_count tb \<and> f' = f)"

lemma goes_on_refl: "solved tb f \<Longrightarrow> goes_on tb f tb f"
  by (simp add: goes_on_def refines_refl)

lemma goes_on_trans: "goes_on tb f tb1 f1 \<Longrightarrow> goes_on tb1 f1 tb2 f2 \<Longrightarrow> goes_on tb f tb2 f2"
  by (auto simp: goes_on_def intro: refines_trans)

lemma goes_on_fits: "goes_on tb f tb' f' \<Longrightarrow> fits_in tb' t = fits_in tb t"
  by (simp add: goes_on_def fits_in_def)

lemma goes_on_bind:
  assumes tb: "solved tb f" and v: "unbound tb v" and t: "fits_in tb t" "infer_of t = None" "v \<notin> ty_vars (tsub f t)"
  defines "tb' \<equiv> log_undo (UndoBind v) (tb\<lparr>it_binding := (it_binding tb)[v := Some t]\<rparr>)"
  defines "g \<equiv> Infer(v := tsub f t)"
  shows "goes_on tb f tb' (\<lambda>w. tsub g (f w))" "tsub (\<lambda>w. tsub g (f w)) t = tsub (\<lambda>w. tsub g (f w)) (Infer v)"
proof -
  note f = tb [unfolded solved_def stands_for_def]
  have vl: "v < length (it_parent tb)" "v < length (it_binding tb)" "it_binding tb ! v = None"
    using v by (auto simp: unbound_def)
  have t': "checked t" using t by (simp add: fits_in_def)
  have g: "checked (g w)" "interned (g w)" for w
    using tsub_checked [OF t'] f solved_tsub [OF tb] by (auto simp: g_def)
  have away: "tsub g (tsub f t) = tsub f t" unfolding g_def by (rule tsub_away [OF solved_tsub [OF tb] t(3)])
  have ft: "tsub (\<lambda>w. tsub g (f w)) u = tsub g (tsub f u)" if "checked u" for u
    using that f by (simp add: tsub_tsub)
  have rep: "rep tb' = rep tb" by (intro ext) (simp add: rep_def tb'_def log_undo_def)
  have "table_good tb'"
    using f t vl by (auto simp: table_good_def tb'_def log_undo_def classes_ok_def columns_ok_def fits_in_def nth_list_update)
  moreover have "stands_for tb' (\<lambda>w. tsub g (f w))"
    unfolding stands_for_def rep
  proof (intro conjI allI impI)
    fix w
    show "checked (tsub g (f w))" "interned (tsub g (f w))"
      using tsub_checked f g tsub_interned by blast+
  next
    fix w r
    assume r: "rep tb w r" "w < length (it_parent tb')"
    then have fw: "f w = (case it_binding tb ! r of None \<Rightarrow> Infer r | Some t \<Rightarrow> tsub f t)"
      and rl: "r < length (it_parent tb)" using f by (auto simp: tb'_def log_undo_def rep_def)
    show "tsub g (f w) = (case it_binding tb' ! r of None \<Rightarrow> Infer r | Some t \<Rightarrow> tsub (\<lambda>w. tsub g (f w)) t)"
    proof (cases "r = v")
      case True
      with fw vl away ft [OF t'] show ?thesis by (simp add: tb'_def log_undo_def g_def)
    next
      case False
      have "checked u" if "it_binding tb ! r = Some u" for u
        using f rl that by (auto simp: table_good_def fits_in_def)
      with False fw ft show ?thesis by (simp add: tb'_def log_undo_def g_def split: option.splits)
    qed
  qed
  moreover have "{w. unbound tb' w} = {w. unbound tb w} - {v}"
    using vl by (auto simp: unbound_def tb'_def log_undo_def nth_list_update split: if_splits)
  then have "open_count tb' < open_count tb"
    using v unfolding open_count_def by (metis card_Diff1_less mem_Collect_eq unbound_finite)
  ultimately show "goes_on tb f tb' (\<lambda>w. tsub g (f w))"
    using refines_comp [of f g] f by (simp add: goes_on_def solved_def) (simp add: tb'_def log_undo_def)
  show "tsub (\<lambda>w. tsub g (f w)) t = tsub (\<lambda>w. tsub g (f w)) (Infer v)"
    using away ft [OF t'] solved_open [OF tb v] by (simp add: g_def)
qed

lemma goes_on_union:
  assumes tb: "solved tb f" and xy: "unbound tb x" "unbound tb y" "x \<noteq> y" "union_classes tb x y m = Some tb'"
  shows "\<exists>f'. goes_on tb f tb' f' \<and> f' x = f' y"
proof -
  note f = tb [unfolded solved_def stands_for_def]
  have ok: "classes_ok tb" using f by (simp add: table_good_def)
  define c where "c = (if it_rank tb ! y < it_rank tb ! x then y else x)"
  define p where "p = (if it_rank tb ! y < it_rank tb ! x then x else y)"
  from union_classes_columns [OF ok xy(1-3), of m, folded c_def p_def] xy(4)
  have tb': "it_parent tb' = (it_parent tb)[c := p]" "it_binding tb' = it_binding tb" "classes_ok tb'" by auto
  have cp: "c < length (it_parent tb)" "p < length (it_parent tb)" "it_parent tb ! c = c" "it_parent tb ! p = p"
    "p \<noteq> c" "it_binding tb ! p = None" "it_binding tb ! c = None" "{c, p} = {x, y}" "unbound tb c" "unbound tb p"
    using xy(1-3) by (auto simp: c_def p_def unbound_def)
  define g where "g = Infer(c := Infer p)"
  let ?f = "\<lambda>w. tsub g (f w)"
  have ft: "tsub ?f u = tsub g (tsub f u)" if "checked u" for u
    using that f by (simp add: tsub_tsub)
  have "table_good tb'" using f tb' by (auto simp: table_good_def fits_in_def)
  moreover have "stands_for tb' ?f"
    unfolding stands_for_def
  proof (intro conjI allI impI)
    fix w
    show "checked (?f w)" "interned (?f w)"
      using f by (auto intro!: tsub_checked tsub_interned simp: g_def)
  next
    fix w s
    assume s: "rep tb' w s" "w < length (it_parent tb')"
    then have w: "w < length (it_parent tb)" by (simp add: tb')
    then obtain r where r: "rep tb w r"
      using has_root [of "it_parent tb" "it_rank tb" w] ok by (auto simp: classes_ok_def rep_def)
    have sr: "s = (if r = c then p else r)"
      using rep_unique [OF s(1) rep_union [OF r cp(1) HOL.refl cp(3,4,2,5) tb'(1)]] .
    have fw: "f w = (case it_binding tb ! r of None \<Rightarrow> Infer r | Some t \<Rightarrow> tsub f t)" using f r w by auto
    have "checked u" if "it_binding tb ! r = Some u" for u
      using f r that by (auto simp: table_good_def fits_in_def rep_def)
    with fw sr ft cp show "?f w = (case it_binding tb' ! s of None \<Rightarrow> Infer s | Some t \<Rightarrow> tsub ?f t)"
      by (auto simp: tb' g_def split: option.splits)
  qed
  moreover have "{w. unbound tb' w} = {w. unbound tb w} - {c}"
    using cp by (auto simp: unbound_def tb' nth_list_update split: if_splits)
  then have "open_count tb' < open_count tb"
    using cp(9) unfolding open_count_def by (metis card_Diff1_less mem_Collect_eq unbound_finite)
  ultimately have "goes_on tb f tb' ?f"
    using refines_comp [of f g] f by (simp add: goes_on_def solved_def) (simp add: tb')
  moreover have "?f x = ?f y"
    using solved_open [OF tb cp(9)] solved_open [OF tb cp(10)] cp(5,8) by (auto simp: g_def doubleton_eq_iff)
  ultimately show ?thesis by blast
qed

end
