(* ===== verification/UnifyAgrees.thy ===== *)
theory UnifyAgrees
  imports UnifySound
begin

text \<open>
  The induction over the recursion of \<open>unify\<close>: each branch goes on to a table whose substitution refines
  the one before, and a success makes the two types of the branch agree.
\<close>

definition sound :: "unifier \<Rightarrow> bool" where
  "sound rec \<longleftrightarrow> (\<forall>tb f a b tb' e. solved tb f \<longrightarrow> fits_in tb a \<longrightarrow> fits_in tb b \<longrightarrow>
     rec tb a b = Some (tb', e) \<longrightarrow>
     (\<exists>f'. goes_on tb f tb' f' \<and> (e = None \<longrightarrow> agree (tsub f' a) (tsub f' b))))"

lemma soundD:
  "sound rec \<Longrightarrow> rec tb a b = Some (tb', e) \<Longrightarrow> solved tb f \<Longrightarrow> fits_in tb a \<Longrightarrow> fits_in tb b \<Longrightarrow>
   \<exists>f'. goes_on tb f tb' f' \<and> (e = None \<longrightarrow> agree (tsub f' a) (tsub f' b))"
  unfolding sound_def by blast

lemma goes_on_solved: "goes_on tb f tb' f' \<Longrightarrow> solved tb' f'"
  by (simp add: goes_on_def)

lemma goes_on_agree:
  "goes_on tb f tb' f' \<Longrightarrow> agree (tsub f a) (tsub f b) \<Longrightarrow> checked a \<Longrightarrow> checked b \<Longrightarrow> agree (tsub f' a) (tsub f' b)"
  unfolding goes_on_def refines_def by blast

lemma goes_on_same:
  "goes_on tb f tb' f' \<Longrightarrow> tsub f a = tsub f b \<Longrightarrow> checked a \<Longrightarrow> checked b \<Longrightarrow> tsub f' a = tsub f' b"
  unfolding goes_on_def refines_def by blast

lemma fits_checked: "fits_in tb t \<Longrightarrow> checked t"
  by (simp add: fits_in_def)

lemma sound_all:
  assumes "sound rec"
  shows "solved tb f \<Longrightarrow> \<forall>p\<in>set ps. fits_in tb (fst p) \<and> fits_in tb (snd p) \<Longrightarrow>
    unify_all rec tb ps = Some (tb', e) \<Longrightarrow>
    \<exists>f'. goes_on tb f tb' f' \<and> (e = None \<longrightarrow> (\<forall>p\<in>set ps. agree (tsub f' (fst p)) (tsub f' (snd p))))"
proof (induction ps arbitrary: tb f)
  case Nil
  then show ?case by (auto simp: okay_def intro: goes_on_refl)
next
  case (Cons p ps)
  from Cons.prems(3) consider tb1 where "rec tb (fst p) (snd p) = Some (tb1, None)" "unify_all rec tb1 ps = Some (tb', e)"
    | x where "rec tb (fst p) (snd p) = Some (tb', Some x)" "e = Some x"
    unfolding unify_all.simps and_then_Some by blast
  then show ?case
  proof cases
    case 1
    from soundD [OF assms 1(1) Cons.prems(1)] Cons.prems(2)
    obtain f1 where f1: "goes_on tb f tb1 f1" "agree (tsub f1 (fst p)) (tsub f1 (snd p))" by auto
    from Cons.IH [OF goes_on_solved [OF f1(1)] _ 1(2)] Cons.prems(2)
    obtain f2 where f2: "goes_on tb1 f1 tb' f2" "e = None \<longrightarrow> (\<forall>p\<in>set ps. agree (tsub f2 (fst p)) (tsub f2 (snd p)))"
      by (auto simp: goes_on_fits [OF f1(1)])
    have "agree (tsub f2 (fst p)) (tsub f2 (snd p))"
      using goes_on_agree [OF f2(1) f1(2)] Cons.prems(2) fits_checked by auto
    with f2 goes_on_trans [OF f1(1) f2(1)] show ?thesis by auto
  next
    case 2
    from soundD [OF assms 2(1) Cons.prems(1)] Cons.prems(2) 2(2) show ?thesis by auto
  qed
qed

lemma sound_lists:
  assumes "sound rec" "solved tb f" "\<forall>x\<in>set xs. fits_in tb x" "\<forall>y\<in>set ys. fits_in tb y"
    "unify_lists rec tb xs ys a b = Some (tb', e)"
  shows "\<exists>f'. goes_on tb f tb' f' \<and> (e = None \<longrightarrow> list_all2 (\<lambda>x y. agree (tsub f' x) (tsub f' y)) xs ys)"
proof (cases "length xs = length ys")
  case True
  with assms(5) have u: "unify_all rec tb (zip xs ys) = Some (tb', e)" by (simp add: unify_lists_def)
  have z: "\<forall>p\<in>set (zip xs ys). fits_in tb (fst p) \<and> fits_in tb (snd p)"
    using assms(3,4) by (auto dest: set_zip_leftD set_zip_rightD)
  from sound_all [OF assms(1,2) z u] True show ?thesis by (force simp: list_all2_iff split_beta)
next
  case False
  with assms(2,5) goes_on_refl show ?thesis by (auto simp: unify_lists_def fails_def)
qed

text \<open>A step, then another.\<close>

lemma sound_then:
  assumes "and_then r k = Some (tb', e)"
    and first: "\<And>tb1 e1. r = Some (tb1, e1) \<Longrightarrow> \<exists>f1. goes_on tb f tb1 f1 \<and> (e1 = None \<longrightarrow> P f1)"
    and second: "\<And>tb1 f1. goes_on tb f tb1 f1 \<Longrightarrow> k tb1 = Some (tb', e) \<Longrightarrow> \<exists>f2. goes_on tb1 f1 tb' f2 \<and> (e = None \<longrightarrow> Q f2)"
    and keep: "\<And>tb1 f1 f2. P f1 \<Longrightarrow> goes_on tb1 f1 tb' f2 \<Longrightarrow> P f2"
  shows "\<exists>f'. goes_on tb f tb' f' \<and> (e = None \<longrightarrow> P f' \<and> Q f')"
proof -
  from assms(1) consider tb1 where "r = Some (tb1, None)" "k tb1 = Some (tb', e)" | x where "r = Some (tb', Some x)" "e = Some x"
    unfolding and_then_Some by blast
  then show ?thesis
  proof cases
    case 1
    from first [OF 1(1)] obtain f1 where f1: "goes_on tb f tb1 f1" "P f1" by auto
    from second [OF f1(1) 1(2)] obtain f2 where f2: "goes_on tb1 f1 tb' f2" "e = None \<longrightarrow> Q f2" by auto
    with keep [OF f1(2) f2(1)] goes_on_trans [OF f1(1) f2(1)] show ?thesis by blast
  next
    case 2
    with first [OF 2(1)] show ?thesis by auto
  qed
qed

lemma agree_lists: "list_all2 (\<lambda>x y. agree (tsub f x) (tsub f y)) xs ys \<Longrightarrow> list_all2 agree (map (tsub f) xs) (map (tsub f) ys)"
  by (simp add: list_all2_map1 list_all2_map2)

lemma agree_inputs:
  assumes "list_all2 (\<lambda>x y. agree (tsub f x) (tsub f y)) p1 p2"
  shows "agree (tsub f (inputs_tuple p1 i)) (tsub f (inputs_tuple p2 i))"
proof -
  have t: "agree (tsub f (Tuple p1 None)) (tsub f (Tuple p2 None))"
    using agree_lists [OF assms] by (auto intro!: agree.tuple)
  have l: "length p1 = length p2" using assms by (rule list_all2_lengthD)
  show ?thesis
  proof (cases i)
    case Rest
    show ?thesis
    proof (cases "p1 = []")
      case False
      then have "p2 \<noteq> []" using l by auto
      with False have p: "p1 = butlast p1 @ [last p1]" "p2 = butlast p2 @ [last p2]" by auto
      with assms l have "list_all2 (\<lambda>x y. agree (tsub f x) (tsub f y)) (butlast p1) (butlast p2)"
        "agree (tsub f (last p1)) (tsub f (last p2))"
        by (metis length_butlast list_all2_append list_all2_Cons)+
      with False p Rest show ?thesis using agree_lists by (auto intro!: agree.tuple)
    qed (use assms t Rest in auto)
  next
    case TupleInputs
    with assms t show ?thesis by (cases p1; cases p2) (auto split: list.splits)
  qed (use t in auto)
qed

lemma keep_lists:
  assumes "list_all2 (\<lambda>x y. agree (tsub f x) (tsub f y)) xs ys" "goes_on tb f tb' f'"
    "\<forall>x\<in>set xs. fits_in tb0 x" "\<forall>y\<in>set ys. fits_in tb0 y"
  shows "list_all2 (\<lambda>x y. agree (tsub f' x) (tsub f' y)) xs ys"
proof -
  have "agree (tsub f' x) (tsub f' y)" if "agree (tsub f x) (tsub f y)" "x \<in> set xs" "y \<in> set ys" for x y
    using goes_on_agree [OF assms(2) that(1)] that(2,3) assms(3,4) fits_checked by blast
  with assms(1) show ?thesis by (rule_tac list.rel_mono_strong)
qed

section \<open>Types of one constructor\<close>

lemma closed_fits: "closed t \<Longrightarrow> fits_in tb t"
  by (simp add: fits_in_def closed_checked) (simp add: closed_def)

lemma inputs_fit: "\<forall>x\<in>set p. fits_in tb x \<Longrightarrow> fits_in tb (inputs_tuple p i)"
  by (cases "(p, i)" rule: inputs_tuple.cases) (auto simp: fits_in_def split: list.splits dest: in_set_butlastD)

lemma sound_fails: "solved tb f \<Longrightarrow> fails tb x = Some (tb', e) \<Longrightarrow> \<exists>f'. goes_on tb f tb' f' \<and> (e = None \<longrightarrow> P f')"
  by (auto simp: fails_def intro: goes_on_refl)

lemma sound_okay: "solved tb f \<Longrightarrow> okay tb = Some (tb', e) \<Longrightarrow> P f \<Longrightarrow> \<exists>f'. goes_on tb f tb' f' \<and> (e = None \<longrightarrow> P f')"
  by (auto simp: okay_def intro: goes_on_refl)

lemma sound_inputs:
  assumes "sound rec" "solved tb f" "\<forall>x\<in>set p1. fits_in tb x" "\<forall>y\<in>set p2. fits_in tb y"
    "unify_inputs rec tb p1 i1 p2 i2 a b = Some (tb', e)"
  shows "\<exists>f'. goes_on tb f tb' f' \<and> (e = None \<longrightarrow> agree (tsub f' (inputs_tuple p1 i1)) (tsub f' (inputs_tuple p2 i2)))"
proof -
  from assms(5) consider "i1 = i2" "unify_lists rec tb p1 p2 a b = Some (tb', e)"
    | "rec tb (inputs_tuple p1 i1) (inputs_tuple p2 i2) = Some (tb', e)" | "fails tb (Mismatch a b) = Some (tb', e)"
    by (auto simp: unify_inputs_def split: if_splits)
  then show ?thesis
  proof cases
    case 1
    with sound_lists [OF assms(1-4)] agree_inputs show ?thesis by blast
  next
    case 2
    then show ?thesis using soundD [OF assms(1) _ assms(2)] inputs_fit assms(3,4) by blast
  next
    case 3
    then show ?thesis by (rule sound_fails [OF assms(2)])
  qed
qed

lemma only_mem: "only ks d = Some k \<Longrightarrow> k \<in> set ks"
proof -
  assume "only ks d = Some k"
  then have "filter (\<lambda>k. trait_of k = Some d) ks = [k]" by (auto simp: only_def split: list.splits)
  then have "k \<in> set (filter (\<lambda>k. trait_of k = Some d) ks)" by simp
  then show ?thesis by simp
qed

lemma context_pairs_mem: "p \<in> set (context_pairs ks1 ks2) \<Longrightarrow> fst p \<in> set ks1 \<and> snd p \<in> set ks2"
  by (auto simp: context_pairs_def only_mem split: option.splits)

lemma sound_context:
  assumes "sound rec" "solved tb f" "row_vars r1 = {}" "row_vars r2 = {}"
    "unify_context_rows n ix rec tb r1 r2 a b = Some (tb', e)"
  shows "\<exists>f'. goes_on tb f tb' f' \<and> (e = None \<longrightarrow> r1 = r2)"
proof -
  have rr: "resolve_row n ix tb r1 = Some r1" "resolve_row n ix tb r2 = Some r2" for tb
    using assms(3,4) by (simp_all add: resolve_row_def resolve_row_closed)
  from assms(5) consider "fails tb (Mismatch a b) = Some (tb', e)"
    | "and_then (unify_all rec tb (context_pairs (row_keys r1) (row_keys r2)))
         (\<lambda>tb. if r1 = r2 then okay tb else fails tb (Mismatch a b)) = Some (tb', e)"
    by (auto simp: unify_context_rows_def rr split: if_splits)
  then show ?thesis
  proof cases
    case 1
    then show ?thesis by (rule sound_fails [OF assms(2)])
  next
    case 2
    have "fits_in tb (fst p) \<and> fits_in tb (snd p)" if "p \<in> set (context_pairs (row_keys r1) (row_keys r2))" for p
      using context_pairs_mem [OF that] assms(3,4) closed_fits [of "fst p"] closed_fits [of "snd p"]
      by (auto simp: row_vars_keys closed_def)
    then have fit: "\<forall>p\<in>set (context_pairs (row_keys r1) (row_keys r2)). fits_in tb (fst p) \<and> fits_in tb (snd p)"
      by blast
    have "\<exists>f'. goes_on tb f tb' f' \<and> (e = None \<longrightarrow> True \<and> r1 = r2)"
    proof (rule sound_then [OF 2])
      fix tb1 e1
      assume "unify_all rec tb (context_pairs (row_keys r1) (row_keys r2)) = Some (tb1, e1)"
      from sound_all [OF assms(1,2) fit this] show "\<exists>f1. goes_on tb f tb1 f1 \<and> (e1 = None \<longrightarrow> True)" by blast
    next
      fix tb1 f1
      assume "goes_on tb f tb1 f1" "(if r1 = r2 then okay tb1 else fails tb1 (Mismatch a b)) = Some (tb', e)"
      then show "\<exists>f2. goes_on tb1 f1 tb' f2 \<and> (e = None \<longrightarrow> r1 = r2)"
        by (auto simp: okay_def fails_def split: if_splits intro: goes_on_refl [OF goes_on_solved])
    qed
    then show ?thesis by simp
  qed
qed

lemma sound_data:
  assumes "solved tb f" "row_vars r1 = {}" "row_vars r2 = {}" "unify_data_rows n ix tb r1 r2 a b = Some (tb', e)"
  shows "\<exists>f'. goes_on tb f tb' f' \<and> (e = None \<longrightarrow> r1 = r2)"
proof -
  have "row_variable r1 = None" "row_variable r2 = None"
    using row_variable_Some [of r1] row_variable_Some [of r2] assms(2,3)
    by (cases "row_variable r1"; cases "row_variable r2"; simp add: row_vars_keys)+
  with assms(2-4) have "(if r1 = r2 then okay tb else fails tb (Mismatch a b)) = Some (tb', e)"
    by (simp add: unify_data_rows_def resolve_row_def resolve_row_closed split: if_splits)
  then show ?thesis using assms(1) by (auto simp: okay_def fails_def intro: goes_on_refl split: if_splits)
qed

lemma Fn_agree:
  assumes "checked (Fn p1 r1 row1 s i1 d)" "checked (Fn p2 r2 row2 s i2 d)"
    "agree (tsub f (inputs_tuple p1 i1)) (tsub f (inputs_tuple p2 i2))" "agree (tsub f r1) (tsub f r2)"
  shows "agree (tsub f (Fn p1 r1 row1 s i1 d)) (tsub f (Fn p2 r2 row2 s i2 d))"
proof -
  from inputs_tsub [OF assms(1), of f] obtain q1 j1 where q1:
    "tsub f (Fn p1 r1 row1 s i1 d) = Fn q1 (tsub f r1) row1 s j1 d" "inputs_tuple q1 j1 = tsub f (inputs_tuple p1 i1)"
    by blast
  from inputs_tsub [OF assms(2), of f] obtain q2 j2 where q2:
    "tsub f (Fn p2 r2 row2 s i2 d) = Fn q2 (tsub f r2) row2 s j2 d" "inputs_tuple q2 j2 = tsub f (inputs_tuple p2 i2)"
    by blast
  show ?thesis unfolding q1(1) q2(1) by (rule agree.fn) (simp_all add: q1 q2 assms)
qed

lemma sound_same:
  assumes rec: "sound rec" and tb: "solved tb f" and ab: "fits_in tb a" "fits_in tb b"
    and u: "unify_same n ix rec tb a b = Some (tb', e)"
  shows "\<exists>f'. goes_on tb f tb' f' \<and> (e = None \<longrightarrow> agree (tsub f' a) (tsub f' b))"
proof -
  note lists = sound_lists [OF rec _ _ _] and one = soundD [OF rec]
  have then_one: "\<exists>f'. goes_on tb f tb' f' \<and> (e = None \<longrightarrow> P f' \<and> agree (tsub f' x) (tsub f' y))"
    if "and_then r (\<lambda>tb. rec tb x y) = Some (tb', e)" "fits_in tb x" "fits_in tb y"
      "\<And>tb1 e1. r = Some (tb1, e1) \<Longrightarrow> \<exists>f1. goes_on tb f tb1 f1 \<and> (e1 = None \<longrightarrow> P f1)"
      "\<And>tb1 f1 f2. P f1 \<Longrightarrow> goes_on tb1 f1 tb' f2 \<Longrightarrow> P f2" for r x y P
  proof (rule sound_then [OF that(1,4) _ that(5)])
    fix tb1 f1
    assume g: "goes_on tb f tb1 f1" "rec tb1 x y = Some (tb', e)"
    from one [OF g(2) goes_on_solved [OF g(1)]] that(2,3) goes_on_fits [OF g(1)]
    show "\<exists>f2. goes_on tb1 f1 tb' f2 \<and> (e = None \<longrightarrow> agree (tsub f2 x) (tsub f2 y))" by simp
  qed
  have lists_one: "\<exists>f'. goes_on tb f tb' f' \<and> (e = None \<longrightarrow>
      list_all2 (\<lambda>x y. agree (tsub f' x) (tsub f' y)) xs ys \<and> agree (tsub f' x) (tsub f' y))"
    if "and_then (unify_lists rec tb xs ys a b) (\<lambda>tb. rec tb x y) = Some (tb', e)"
      "\<forall>x\<in>set (x # xs). fits_in tb x" "\<forall>y\<in>set (y # ys). fits_in tb y" for xs ys x y
  proof -
    have xy: "\<forall>x\<in>set xs. fits_in tb x" "\<forall>y\<in>set ys. fits_in tb y" "fits_in tb x" "fits_in tb y"
      using that(2,3) by auto
    show ?thesis
      by (rule then_one [OF that(1) xy(3,4)]) (use lists [OF tb xy(1,2)] keep_lists [OF _ _ xy(1,2)] in blast)+
  qed
  note parts = fits_parts [OF ab(1)] fits_parts [OF ab(2)]
  show ?thesis
    using u
  proof (cases rule: unify_same_cases)
    case mismatch
    then show ?thesis using tb by (auto simp: fails_def intro: goes_on_refl)
  next
    case (Ref x y m c)
    with parts have "fits_in tb x" "fits_in tb y" by auto
    from one [OF Ref(3) [symmetric] tb this] Ref(1,2) show ?thesis by (auto intro: agree.ref)
  next
    case (Opaque d s w1 a1 b1 w2 a2 b2)
    have "\<exists>f'. goes_on tb f tb' f' \<and> (e = None \<longrightarrow>
        list_all2 (\<lambda>x y. agree (tsub f' x) (tsub f' y)) a1 a2 \<and> agree (tsub f' b1) (tsub f' b2))"
      by (rule lists_one [OF Opaque(3) [symmetric]]) (use parts Opaque in auto)
    then show ?thesis using Opaque agree_lists by (auto intro!: agree.opaque)
  next
    case (Adt d a1 a2)
    with parts have "\<forall>x\<in>set a1. fits_in tb x" "\<forall>x\<in>set a2. fits_in tb x" by auto
    from lists [OF tb this Adt(3) [symmetric]] Adt(1,2) agree_lists show ?thesis by (auto intro!: agree.adt)
  next
    case (Tuple e1 e2)
    with parts have "\<forall>x\<in>set e1. fits_in tb x" "\<forall>x\<in>set e2. fits_in tb x" by auto
    from lists [OF tb this Tuple(3) [symmetric]] Tuple(1,2) agree_lists show ?thesis by (auto intro!: agree.tuple)
  next
    case (TupleRest e1 e2 r1 r2)
    have "\<exists>f'. goes_on tb f tb' f' \<and> (e = None \<longrightarrow>
        list_all2 (\<lambda>x y. agree (tsub f' x) (tsub f' y)) e1 e2 \<and> agree (tsub f' r1) (tsub f' r2))"
      by (rule lists_one [OF TupleRest(3) [symmetric]]) (use parts TupleRest in auto)
    then show ?thesis using TupleRest agree_lists by (auto intro!: agree.tuple)
  next
    case (Union m1 m2)
    with parts have "\<forall>x\<in>set m1. fits_in tb x" "\<forall>x\<in>set m2. fits_in tb x" by auto
    from lists [OF tb this Union(3) [symmetric]] Union(1,2) agree_lists show ?thesis by (auto intro!: agree.union)
  next
    case (Option x y)
    with parts have "fits_in tb x" "fits_in tb y" by auto
    from one [OF Option(3) [symmetric] tb this] Option(1,2) show ?thesis by (auto intro: agree.option)
  next
    case (Trait d a1 a2 bs1 bs2)
    have c: "\<forall>x\<in>set a1. closed x" "\<forall>x\<in>set a2. closed x" "closed a" "closed b"
      using ab Trait by (auto simp: fits_in_def closed_def)
    with lists [OF tb, of a1 a2 a b tb' e] Trait closed_fits
    obtain f' where "goes_on tb f tb' f'" "e = None \<longrightarrow> list_all2 (\<lambda>x y. agree (tsub f' x) (tsub f' y)) a1 a2" by metis
    moreover have "map (tsub f') a1 = a1" "map (tsub f') a2 = a2" for f' using c map_tsub_closed by auto
    ultimately show ?thesis using agree_lists [of f' a1 a2] c(3,4) Trait(1,2) by (auto intro!: agree.trait)
  next
    case (Assoc x t1 t2 s1 s2 a1 a2)
    have c: "\<forall>x\<in>set (s1 # a1). closed x" "\<forall>x\<in>set (s2 # a2). closed x" "closed a" "closed b"
      using ab Assoc by (auto simp: fits_in_def closed_def)
    then have cf: "\<forall>x\<in>set (s1 # a1). fits_in t x" "\<forall>x\<in>set (s2 # a2). fits_in t x" for t using closed_fits by blast+
    have "\<exists>f'. goes_on tb f tb' f' \<and> (e = None \<longrightarrow> agree s1 s2 \<and> list_all2 agree a1 a2)"
    proof (rule sound_then [OF Assoc(3) [symmetric]])
      fix tb1 e1
      assume "rec tb s1 s2 = Some (tb1, e1)"
      with one [of tb s1 s2 tb1 e1 f] tb cf c show "\<exists>f1. goes_on tb f tb1 f1 \<and> (e1 = None \<longrightarrow> agree s1 s2)" by auto
    next
      fix tb1 f1
      assume g: "goes_on tb f tb1 f1" "unify_lists rec tb1 a1 a2 a b = Some (tb', e)"
      from lists [OF goes_on_solved [OF g(1)], of a1 a2 a b tb' e] cf [of tb1] g(2)
      obtain f2 where f2: "goes_on tb1 f1 tb' f2" "e = None \<longrightarrow> list_all2 (\<lambda>x y. agree (tsub f2 x) (tsub f2 y)) a1 a2" by auto
      moreover have "map (tsub f2) a1 = a1" "map (tsub f2) a2 = a2" using c map_tsub_closed by auto
      ultimately show "\<exists>f2. goes_on tb1 f1 tb' f2 \<and> (e = None \<longrightarrow> list_all2 agree a1 a2)"
        using agree_lists [of f2 a1 a2] by auto
    qed
    then show ?thesis using c(3,4) Assoc(1,2) by (auto intro: agree.assoc)
  next
    case (Fn p1 r1 row1 i1 p2 r2 row2 i2 s d)
    have p: "\<forall>x\<in>set p1. fits_in tb x" "\<forall>x\<in>set p2. fits_in tb x" "fits_in tb r1" "fits_in tb r2" "checked a" "checked b"
      using ab Fn by (auto simp: fits_in_def)
    have k: "agree (tsub f2 (inputs_tuple p1 i1)) (tsub f2 (inputs_tuple p2 i2))"
      if "agree (tsub f1 (inputs_tuple p1 i1)) (tsub f1 (inputs_tuple p2 i2))" "goes_on tb1 f1 tb' f2" for tb1 f1 f2
      using goes_on_agree [OF that(2,1)] inputs_fit p(1,2) fits_checked by blast
    have "\<exists>f'. goes_on tb f tb' f' \<and> (e = None \<longrightarrow>
        agree (tsub f' (inputs_tuple p1 i1)) (tsub f' (inputs_tuple p2 i2)) \<and> agree (tsub f' r1) (tsub f' r2))"
      by (rule then_one [OF Fn(3) [symmetric] p(3,4)]) (use sound_inputs [OF rec tb p(1,2)] k in blast)+
    then show ?thesis using Fn_agree p(5,6) Fn(1,2) by blast
  next
    case (Ctx r1 r2)
    with sound_context [OF rec tb, of r1 r2 n ix a b tb' e] ab show ?thesis
      by (auto simp: fits_in_def intro: agree.refl)
  next
    case (Row r1 r2)
    with sound_data [OF tb, of r1 r2 n ix a b tb' e] ab show ?thesis
      by (auto simp: fits_in_def intro: agree.refl)
  qed
qed

section \<open>A side with a variable\<close>

lemma sound_bind:
  assumes "solved tb f" "unbound tb v" "fits_in tb t" "infer_of t = None" "bind_root n tb v t = Some (tb', e)"
  shows "\<exists>f'. goes_on tb f tb' f' \<and> (e = None \<longrightarrow> tsub f' t = tsub f' (Infer v))"
proof -
  from assms(2,5) have b: "bind_var n tb v t = Some (tb', e)"
    by (auto simp: bind_root_def bind_eq_Some_conv dest: root_unbound)
  then obtain occ where occ: "occurs n tb v t = Some occ" by (auto simp: bind_var_def bind_eq_Some_conv)
  from occurs_iff [OF assms(1,2,3) occ] have v: "occ = (v \<in> ty_vars (tsub f t))" .
  from b consider x where "fails tb x = Some (tb', e)"
    | "\<not> occ" "tb' = log_undo (UndoBind v) (tb\<lparr>it_binding := (it_binding tb)[v := Some t]\<rparr>)"
    by (auto simp: bind_var_def occ okay_def set_binding_def set_at_def bind_eq_Some_conv split: if_splits)
  then show ?thesis
  proof cases
    case 1
    then show ?thesis using assms(1) by (auto simp: fails_def intro: goes_on_refl)
  next
    case 2
    with v goes_on_bind [OF assms(1-4)] show ?thesis by blast
  qed
qed

lemma sound_vars:
  assumes "solved tb f" "unbound tb v" "unbound tb w" "unify_vars n tb v w a b = Some (tb', e)"
  shows "\<exists>f'. goes_on tb f tb' f' \<and> (e = None \<longrightarrow> f' v = f' w)"
proof -
  from assms(4) obtain x y kx ky where r: "root n tb v = Some x" "root n tb w = Some y"
    and k: "get_at (it_kind tb) x = Some kx" "get_at (it_kind tb) y = Some ky"
    and m: "(case merged_kind kx ky of None \<Rightarrow> fails tb (Mismatch a b)
      | Some merged \<Rightarrow> if x = y then okay tb else Option.bind (union_classes tb x y merged) okay) = Some (tb', e)"
    unfolding unify_vars_def bind_eq_Some_conv by blast
  from r assms(2,3) have [simp]: "x = v" "y = w" by (auto dest: root_unbound)
  show ?thesis
  proof (cases "v = w \<or> merged_kind kx ky = None")
    case True
    with m show ?thesis using goes_on_refl [OF assms(1)]
      by (auto simp: okay_def fails_def split: option.splits)
  next
    case False
    with m obtain m' where "union_classes tb v w m' = Some tb'" by (auto simp: okay_def bind_eq_Some_conv)
    with goes_on_union [OF assms(1-3)] False show ?thesis by blast
  qed
qed

section \<open>Every unification\<close>

lemma mut_of_Some: "mut_of t = Some x \<longleftrightarrow> t = Mut x"
  by (cases t) auto

lemma mut_of_Infer: "mut_of t = Some x \<Longrightarrow> infer_of t = None"
  by (cases t) auto

lemma sound_mut:
  assumes "sound rec" "solved tb f" "fits_in tb x" "fits_in tb y" "unify_mut n rec tb x y v w = Some (tb', e)"
    and "\<And>u. v = Some u \<Longrightarrow> unbound tb u \<and> fits_in tb w \<and> infer_of w = None"
  shows "\<exists>f'. goes_on tb f tb' f' \<and> (e = None \<longrightarrow> agree (tsub f' x) (tsub f' y) \<or>
    (\<exists>u. v = Some u \<and> tsub f' w = tsub f' (Infer u)))"
proof (cases v)
  case None
  with assms(5) soundD [OF assms(1) _ assms(2-4)] show ?thesis by (fastforce simp: unify_mut_def)
next
  case (Some u)
  from assms(5) [unfolded unify_mut_def Some] consider "bind_root n tb u w = Some (tb', e)" | "rec tb x y = Some (tb', e)"
    by (auto simp: bind_eq_Some_conv split: if_splits)
  then show ?thesis
  proof cases
    case 1
    with sound_bind [OF assms(2), of u w] assms(6) [OF Some] Some show ?thesis by blast
  next
    case 2
    with soundD [OF assms(1) _ assms(2-4)] show ?thesis by blast
  qed
qed

lemma sound_step:
  assumes rec: "sound rec" and tb: "solved tb f" and ab: "fits_in tb a" "fits_in tb b"
    and open_a: "\<And>v. a = Infer v \<Longrightarrow> unbound tb v" and open_b: "\<And>v. b = Infer v \<Longrightarrow> unbound tb v"
    and u: "unify_step n ix rec tb a b = Some (tb', e)"
  shows "\<exists>f'. goes_on tb f tb' f' \<and> (e = None \<longrightarrow> agree (tsub f' a) (tsub f' b))"
proof -
  have done_with: "\<exists>f'. goes_on tb f tb' f' \<and> (e = None \<longrightarrow> agree (tsub f' a) (tsub f' b))"
    if "okay tb = Some (tb', e)" "agree (tsub f a) (tsub f b)"
    using that goes_on_refl [OF tb] by (auto simp: okay_def)
  show ?thesis
  proof (cases "a = b \<or> a = Poison \<or> b = Poison")
    case True
    then have "okay tb = Some (tb', e)" using u by (auto simp: unify_step_def split: if_splits)
    moreover have "agree (tsub f a) (tsub f b)" using True by (auto intro: agree.intros)
    ultimately show ?thesis by (rule done_with)
  next
    case False
    note u' = u [unfolded unify_step_def]
    show ?thesis
    proof (cases "mut_of a")
      case a: (Some x)
      then have ax: "a = Mut x" "fits_in tb x" using ab by (auto simp: mut_of_Some fits_in_def)
      show ?thesis
      proof (cases "mut_of b")
        case b: (Some y)
        then have bb: "b = Mut y" "fits_in tb y" using ab by (auto simp: mut_of_Some fits_in_def)
        from u' False a b have "rec tb x y = Some (tb', e)" by (simp split: if_splits)
        from soundD [OF rec this tb ax(2) bb(2)] show ?thesis unfolding ax(1) bb(1)
          by (auto intro: agree.mut_l agree.mut_r)
      next
        case b: None
        with u' False a have m: "unify_mut n rec tb x b (infer_of b) a = Some (tb', e)" by (simp split: if_splits)
        have "\<exists>f'. goes_on tb f tb' f' \<and> (e = None \<longrightarrow> agree (tsub f' x) (tsub f' b) \<or>
          (\<exists>u. infer_of b = Some u \<and> tsub f' a = tsub f' (Infer u)))"
          by (rule sound_mut [OF rec tb ax(2) ab(2) m]) (use open_b ab a in \<open>auto simp: infer_of_Some mut_of_Infer\<close>)
        then show ?thesis unfolding ax(1) by (auto simp: infer_of_Some intro: agree.mut_l) (metis agree.refl)
      qed
    next
      case a: None
      show ?thesis
      proof (cases "mut_of b")
        case b: (Some y)
        then have bb: "b = Mut y" "fits_in tb y" using ab by (auto simp: mut_of_Some fits_in_def)
        from u' False a b have m: "unify_mut n rec tb a y (infer_of a) b = Some (tb', e)" by (simp split: if_splits)
        have "\<exists>f'. goes_on tb f tb' f' \<and> (e = None \<longrightarrow> agree (tsub f' a) (tsub f' y) \<or>
          (\<exists>u. infer_of a = Some u \<and> tsub f' b = tsub f' (Infer u)))"
          by (rule sound_mut [OF rec tb ab(1) bb(2) m]) (use open_a ab b in \<open>auto simp: infer_of_Some mut_of_Infer\<close>)
        then show ?thesis unfolding bb(1) by (auto simp: infer_of_Some intro: agree.mut_r agree.refl) (metis agree.refl)
      next
        case b: None
        show ?thesis
        proof (cases "infer_of a"; cases "infer_of b")
          fix x y
          assume i: "infer_of a = Some x" "infer_of b = Some y"
          with u' False a b have v: "unify_vars n tb x y a b = Some (tb', e)" by (simp split: if_splits)
          have "unbound tb x" "unbound tb y" using i open_a open_b by (auto simp: infer_of_Some)
          from sound_vars [OF tb this v] i show ?thesis by (auto simp: infer_of_Some) (metis agree.refl)
        next
          fix x
          assume i: "infer_of a = Some x" "infer_of b = None"
          with u' False a b have v: "bind_root n tb x b = Some (tb', e)" by (simp split: if_splits)
          have "unbound tb x" using i open_a by (auto simp: infer_of_Some)
          from sound_bind [OF tb this ab(2) i(2) v] i show ?thesis by (auto simp: infer_of_Some) (metis agree.refl)
        next
          fix y
          assume i: "infer_of a = None" "infer_of b = Some y"
          with u' False a b have v: "bind_root n tb y a = Some (tb', e)" by (simp split: if_splits)
          have "unbound tb y" using i open_b by (auto simp: infer_of_Some)
          from sound_bind [OF tb this ab(1) i(1) v] i show ?thesis by (auto simp: infer_of_Some) (metis agree.refl)
        next
          assume i: "infer_of a = None" "infer_of b = None"
          with u' False a b have v: "unify_same n ix rec tb a b = Some (tb', e)" by (simp split: if_splits)
          show ?thesis by (rule sound_same [OF rec tb ab v])
        qed
      qed
    qed
  qed
qed

lemma sound_unify: "sound (unify n ix)"
proof (induction n)
  case 0
  then show ?case by (simp add: sound_def)
next
  case (Suc n)
  show ?case unfolding sound_def
  proof (intro allI impI)
    fix tb f a b tb' e
    assume tb: "solved tb f" and ab: "fits_in tb a" "fits_in tb b" and "unify (Suc n) ix tb a b = Some (tb', e)"
    then obtain a' b' where s: "shallow (Suc n) tb a = Some a'" "shallow (Suc n) tb b = Some b'"
      "unify_step (Suc n) ix (unify n ix) tb a' b' = Some (tb', e)"
      unfolding unify.simps(2) bind_eq_Some_conv by blast
    have a': "tsub f a' = tsub f a" "fits_in tb a'" using shallow_tsub [OF tb ab(1) s(1)] by auto
    have b': "tsub f b' = tsub f b" "fits_in tb b'" using shallow_tsub [OF tb ab(2) s(2)] by auto
    obtain f' where f': "goes_on tb f tb' f'" "e = None \<longrightarrow> agree (tsub f' a') (tsub f' b')"
      using sound_step [OF Suc tb a'(2) b'(2) _ _ s(3)] s shallow_Infer by blast
    have "tsub f' a' = tsub f' a" "tsub f' b' = tsub f' b"
      using goes_on_same [OF f'(1)] a' b' ab fits_checked by blast+
    with f' show "\<exists>f'. goes_on tb f tb' f' \<and> (e = None \<longrightarrow> agree (tsub f' a) (tsub f' b))" by auto
  qed
qed

end
