(* ===== verification/UnifyFuel.thy ===== *)
theory UnifyFuel
  imports Unify
begin

text \<open>
  More fuel changes nothing: a result of \<open>resolve\<close>, \<open>occurs\<close> or \<open>unify\<close> with some fuel is the result with any
  larger one. \<open>below\<close> is the flat order of a run that has used its fuel up below every result.
\<close>

definition below :: "'a option \<Rightarrow> 'a option \<Rightarrow> bool" where
  "below x y \<longleftrightarrow> x = None \<or> x = y"

named_theorems below_rules "the constructs that keep the order of runs"

lemma below_refl [below_rules]: "below x x"
  by (simp add: below_def)

lemma below_Some: "below x y \<Longrightarrow> x = Some r \<Longrightarrow> y = Some r"
  by (auto simp: below_def)

lemma below_None [simp]: "below None x"
  by (simp add: below_def)

lemma below_trans: "below x y \<Longrightarrow> below y z \<Longrightarrow> below x z"
  by (auto simp: below_def)

lemma below_bind [below_rules]:
  "below x y \<Longrightarrow> (\<And>a. below (k a) (l a)) \<Longrightarrow> below (Option.bind x k) (Option.bind y l)"
  by (cases x; cases y) (auto simp: below_def)

lemma below_map [below_rules]: "below x y \<Longrightarrow> below (map_option g x) (map_option g y)"
  by (auto simp: below_def)

lemma below_if [below_rules]: "below x y \<Longrightarrow> below x' y' \<Longrightarrow> below (if c then x else x') (if c then y else y')"
  by simp

lemma below_and_then [below_rules]:
  "below r s \<Longrightarrow> (\<And>tb. below (k tb) (l tb)) \<Longrightarrow> below (and_then r k) (and_then s l)"
  by (auto simp: below_def and_then_def split: option.splits)

lemma below_option [below_rules]:
  "below x y \<Longrightarrow> (\<And>a. below (k a) (l a)) \<Longrightarrow>
   below (case c of None \<Rightarrow> x | Some a \<Rightarrow> k a) (case c of None \<Rightarrow> y | Some a \<Rightarrow> l a)"
  by (simp split: option.splits)

lemma below_map_opt [below_rules]: "(\<And>x. below (g x) (h x)) \<Longrightarrow> below (map_opt g xs) (map_opt h xs)"
  by (induction xs) (auto intro!: below_rules)

lemma below_any_opt [below_rules]: "(\<And>x. below (g x) (h x)) \<Longrightarrow> below (any_opt g xs) (any_opt h xs)"
  by (induction xs) (auto intro!: below_rules)

lemma below_step:
  assumes "\<And>n. below (F n) (F (Suc n))" "n \<le> m"
  shows "below (F n) (F m)"
  using assms(2) by (induction rule: dec_induct) (auto intro: below_refl below_trans assms(1))

section \<open>Lookups\<close>

lemma below_root [below_rules]: "n \<le> m \<Longrightarrow> below (root n tb v) (root m tb v)"
proof (rule below_step)
  show "below (root n tb v) (root (Suc n) tb v)" for n
  proof (induction n arbitrary: v)
    case (Suc n)
    then show ?case by (subst (1 2) root.simps(2)) (intro below_rules Suc.IH)
  qed simp
qed

lemma below_shallow [below_rules]: "n \<le> m \<Longrightarrow> below (shallow n tb t) (shallow m tb t)"
proof (rule below_step)
  show "below (shallow n tb t) (shallow (Suc n) tb t)" for n
  proof (induction n arbitrary: t)
    case (Suc n)
    show ?case
    proof (cases t)
      case (Infer v)
      have b: "below (case b of Some u \<Rightarrow> shallow n tb u | None \<Rightarrow> Some (Infer r))
        (case b of Some u \<Rightarrow> shallow (Suc n) tb u | None \<Rightarrow> Some (Infer r))" for b r
        by (intro below_rules Suc.IH)
      then show ?thesis unfolding Infer
        by (subst (1 2) shallow.simps(2)) (simp only: ty.case, intro below_bind below_root below_refl b le_SucI order_refl)
    qed (auto intro: below_rules)
  qed simp
qed

lemma below_occurs [below_rules]: "n \<le> m \<Longrightarrow> below (occurs n tb v t) (occurs m tb v t)"
proof (rule below_step)
  show "below (occurs n tb v t) (occurs (Suc n) tb v t)" for n
  proof (induction n arbitrary: t)
    case (Suc n)
    have "below (case u of Infer w \<Rightarrow> map_option (\<lambda>r. r = v) (root (Suc n) tb w) | _ \<Rightarrow> any_opt (occurs n tb v) (occurs_parts u))
      (case u of Infer w \<Rightarrow> map_option (\<lambda>r. r = v) (root (Suc (Suc n)) tb w)
        | _ \<Rightarrow> any_opt (occurs (Suc n) tb v) (occurs_parts u))" for u
    proof (cases u)
      case (Infer w)
      show ?thesis unfolding Infer ty.case by (intro below_rules) simp
    qed (simp_all only: ty.case below_any_opt [OF Suc.IH])
    then show ?case
      by (subst (1 2) occurs.simps(2)) (intro below_bind below_shallow le_SucI order_refl)
  qed simp
qed

lemma below_resolve_row_by [below_rules]:
  "(\<And>x. below (g x) (h x)) \<Longrightarrow> below (resolve_row_by g ix r) (resolve_row_by h ix r)"
  unfolding resolve_row_by_def by (intro below_rules)

lemma below_pair: "below x y \<Longrightarrow> below (map_option (Pair d) x) (map_option (Pair d) y)"
  by (rule below_map)

lemma below_resolve_parts [below_rules]:
  assumes "\<And>x. below (g x) (h x)"
  shows "below (resolve_parts g (resolve_row_by g ix) t) (resolve_parts h (resolve_row_by h ix) t)"
proof -
  have p: "below ((\<lambda>(d, x). map_option (Pair d) (g x)) b) ((\<lambda>(d, x). map_option (Pair d) (h x)) b)" for b :: "def_id \<times> ty"
    by (cases b) (simp add: below_map assms)
  show ?thesis
    unfolding resolve_parts_def by (cases t) (simp_all only: ty.case, (intro below_rules assms p)+)
qed

lemma below_resolve [below_rules]: "n \<le> m \<Longrightarrow> below (resolve n ix tb t) (resolve m ix tb t)"
proof (rule below_step)
  show "below (resolve n ix tb t) (resolve (Suc n) ix tb t)" for n
  proof (induction n arbitrary: t)
    case (Suc n)
    show ?case
      by (subst (1 2) resolve.simps(2)) (intro below_rules Suc.IH le_SucI order_refl)
  qed simp
qed

section \<open>Unification\<close>

lemma below_resolve_row [below_rules]: "n \<le> m \<Longrightarrow> below (resolve_row n ix tb r) (resolve_row m ix tb r)"
  unfolding resolve_row_def by (intro below_rules)

lemma below_bind_root [below_rules]: "n \<le> m \<Longrightarrow> below (bind_root n tb v t) (bind_root m tb v t)"
  unfolding bind_root_def bind_var_def by (intro below_rules)

lemma below_is_general [below_rules]: "n \<le> m \<Longrightarrow> below (is_general n tb v) (is_general m tb v)"
  unfolding is_general_def by (intro below_rules)

lemma below_unify_vars [below_rules]: "n \<le> m \<Longrightarrow> below (unify_vars n tb v w a b) (unify_vars m tb v w a b)"
  unfolding unify_vars_def by (intro below_rules)

lemma below_data [below_rules]: "n \<le> m \<Longrightarrow> below (unify_data_rows n ix tb r1 r2 a b) (unify_data_rows m ix tb r1 r2 a b)"
  unfolding unify_data_rows_def by (intro below_rules)

text \<open>Two unifiers for the types below, the second with at least the fuel of the first.\<close>

locale more_fuel =
  fixes rec1 rec2 :: unifier
  assumes rec: "below (rec1 tb a b) (rec2 tb a b)"
begin

lemma below_all: "below (unify_all rec1 tb ps) (unify_all rec2 tb ps)"
  by (induction ps arbitrary: tb) (auto intro!: below_rules rec)

lemma below_lists: "below (unify_lists rec1 tb xs ys a b) (unify_lists rec2 tb xs ys a b)"
  unfolding unify_lists_def by (intro below_rules below_all)

lemma below_inputs: "below (unify_inputs rec1 tb p1 i1 p2 i2 a b) (unify_inputs rec2 tb p1 i1 p2 i2 a b)"
  unfolding unify_inputs_def by (intro below_rules below_lists rec)

lemma below_context:
  "n \<le> m \<Longrightarrow> below (unify_context_rows n ix rec1 tb r1 r2 a b) (unify_context_rows m ix rec2 tb r1 r2 a b)"
  unfolding unify_context_rows_def by (intro below_rules below_all)

lemma below_same: "n \<le> m \<Longrightarrow> below (unify_same n ix rec1 tb a b) (unify_same m ix rec2 tb a b)"
  unfolding unify_same_def Let_def
  by (cases a; cases b) (simp_all add: below_lists below_refl below_data below_context below_if below_and_then below_inputs rec
    split: option.splits)

lemma below_mut: "n \<le> m \<Longrightarrow> below (unify_mut n rec1 tb a b v w) (unify_mut m rec2 tb a b v w)"
  unfolding unify_mut_def by (intro below_rules rec)

lemma below_unify_step: "n \<le> m \<Longrightarrow> below (unify_step n ix rec1 tb a b) (unify_step m ix rec2 tb a b)"
  unfolding unify_step_def
  by (cases "mut_of a"; cases "mut_of b"; cases "infer_of a"; cases "infer_of b")
    (simp_all add: below_refl rec below_same below_mut below_bind_root below_unify_vars)

end

lemma below_unify: "n \<le> m \<Longrightarrow> below (unify n ix tb a b) (unify m ix tb a b)"
proof (rule below_step)
  show "below (unify n ix tb a b) (unify (Suc n) ix tb a b)" for n
  proof (induction n arbitrary: tb a b)
    case (Suc n)
    show ?case
      by (subst (1 2) unify.simps(2)) (intro below_bind below_shallow more_fuel.below_unify_step more_fuel.intro Suc.IH le_SucI order_refl)
  qed simp
qed

interpretation fuel: more_fuel "unify n ix" "unify (n + k) ix" for n k ix
  by unfold_locales (simp add: below_unify)

end
