(* ===== verification/UnifyTotal.thy ===== *)
theory UnifyTotal
  imports UnifyAgrees UnifyFuel
begin

text \<open>
  Unification ends: with the open classes of the table first and the sizes of the two resolved types second,
  every call below a call is smaller, so some fuel is enough, for \<open>resolve\<close> and the occurs check too.
\<close>

fun weight :: "ty \<Rightarrow> nat" and row_weight :: "row \<Rightarrow> nat" where
  "weight (Adt d args) = Suc (sum_list (map weight args))"
| "weight (Tuple elems rest) = Suc (sum_list (map weight elems) + (case rest of None \<Rightarrow> 0 | Some r \<Rightarrow> weight r))"
| "weight (Union ms) = Suc (sum_list (map weight ms))"
| "weight (OptionTy t) = Suc (weight t)"
| "weight (Fn ps r row s i d) = Suc (Suc (sum_list (map weight ps) + weight r))"
| "weight (TraitValue d args bs) = Suc (sum_list (map weight args))"
| "weight (Opaque ow s b args bound) = Suc (sum_list (map weight args) + weight bound)"
| "weight (Assoc a tr self args) = Suc (weight self + sum_list (map weight args))"
| "weight (Mut t) = Suc (weight t)"
| "weight (RefTy t m c) = Suc (weight t)"
| "weight (Context r) = Suc (row_weight r)"
| "weight t = 1"
| "row_weight (Row keys params) = sum_list (map weight keys)"

lemma weight_mem: "x \<in> set xs \<Longrightarrow> weight x \<le> sum_list (map weight xs)"
  by (simp add: member_le_sum_list)

lemma weight_map: "x \<in> set xs \<Longrightarrow> weight (f x) \<le> sum_list (map (weight \<circ> f) xs)"
  by (simp add: member_le_sum_list)

lemma weight_inputs: "weight (inputs_tuple p i) \<le> Suc (sum_list (map weight p))"
proof (cases "i = Rest \<and> p \<noteq> []")
  case True
  then obtain q x where "p = q @ [x]" by (metis rev_exhaust)
  with True show ?thesis by simp
next
  case False
  then show ?thesis by (cases i) (auto split: list.splits)
qed

lemma weight_input_part: "x \<in> set p \<Longrightarrow> weight (tsub f x) \<le> weight (tsub f (inputs_tuple p i))"
proof (cases "i = Rest")
  case True
  assume x: "x \<in> set p"
  then have "x \<in> set (butlast p) \<or> x = last p" by (cases p rule: rev_cases) auto
  with True x show ?thesis by (auto simp: weight_map le_SucI trans_le_add1)
next
  case False
  assume "x \<in> set p"
  with False show ?thesis
    by (cases i) (auto split: list.splits simp: weight_map le_SucI trans_le_add2)
qed

lemma Fn_weight:
  assumes "checked (Fn p r row s i d)"
  shows "weight (tsub f (inputs_tuple p i)) + weight (tsub f r) < weight (tsub f (Fn p r row s i d))"
proof -
  from inputs_tsub [OF assms, of f] obtain p' i' where
    "tsub f (Fn p r row s i d) = Fn p' (tsub f r) row s i' d" "inputs_tuple p' i' = tsub f (inputs_tuple p i)"
    by blast
  with weight_inputs [of p' i'] show ?thesis by simp
qed

lemma weight_part:
  assumes "checked u" "x \<in> set (occurs_parts u)"
  shows "weight (tsub f x) < weight (tsub f u)"
proof (cases u)
  case (Fn p r row s i d)
  from Fn_weight [OF assms(1) [unfolded Fn], of f] have w:
    "weight (tsub f (inputs_tuple p i)) + weight (tsub f r) < weight (tsub f u)" by (simp add: Fn)
  from assms(2) consider "x = r" | "x \<in> set p" by (auto simp: Fn)
  then show ?thesis
  proof cases
    case 1
    with w show ?thesis by simp
  next
    case 2
    from weight_input_part [OF this, of f i] w show ?thesis by simp
  qed
next
  case (Tuple es rest)
  with assms show ?thesis
    by (cases rest) (auto simp: less_Suc_eq_le weight_map trans_le_add1)
qed (use assms in \<open>auto simp: less_Suc_eq_le weight_map trans_le_add1\<close>)

section \<open>Lookups return\<close>

lemma root_returns: "solved tb f \<Longrightarrow> v < length (it_parent tb) \<Longrightarrow> 33 \<le> n \<Longrightarrow> \<exists>r. root n tb v = Some r \<and> r < length (it_parent tb)"
  using root_found [of tb v n] by (simp add: solved_def table_good_def classes_ok_def)

lemma solved_columns:
  "solved tb f \<Longrightarrow> length (it_binding tb) = length (it_parent tb) \<and> length (it_kind tb) = length (it_parent tb) \<and>
     length (it_rank tb) = length (it_parent tb)"
  by (auto simp: solved_def table_good_def classes_ok_def columns_ok_def)

lemma shallow_returns:
  assumes "solved tb f" "fits_in tb t" "34 \<le> n"
  shows "\<exists>u. shallow n tb t = Some u"
proof (cases "infer_of t")
  case None
  with assms(3) shallow_other show ?thesis by (metis Suc_diff_1 less_le_trans zero_less_numeral)
next
  case (Some v)
  then have t: "t = Infer v" by (simp add: infer_of_Some)
  then have v: "v < length (it_parent tb)" using assms(2) by (simp add: fits_in_def)
  obtain m where n: "n = Suc (Suc m)"
    using assms(3) that [of "n - 2"] by simp
  obtain r where r: "root n tb v = Some r" "r < length (it_parent tb)"
    using root_returns [OF assms(1) v, of n] assms(3) by auto
  have "\<exists>u. (case it_binding tb ! r of Some u \<Rightarrow> shallow (Suc m) tb u | None \<Rightarrow> Some (Infer r)) = Some u"
  proof (cases "it_binding tb ! r")
    case (Some w)
    with assms(1) r(2) have "infer_of w = None" by (auto simp: solved_def table_good_def)
    with Some shallow_other show ?thesis by auto
  qed auto
  with r solved_columns [OF assms(1)] show ?thesis unfolding t n(1) by (simp add: get_at_def del: root.simps)
qed

lemma any_opt_returns: "(\<And>x. x \<in> set xs \<Longrightarrow> \<exists>b. g x = Some b) \<Longrightarrow> \<exists>b. any_opt g xs = Some b"
proof (induction xs)
  case (Cons x xs)
  from Cons.prems [of x] obtain b where "g x = Some b" by auto
  moreover from Cons obtain c where "any_opt g xs = Some c" by auto
  ultimately show ?case by (cases b; cases c) (auto intro: exI [of _ False])
qed (auto intro: exI [of _ False])

lemma occurs_returns:
  assumes "solved tb f"
  shows "fits_in tb t \<Longrightarrow> 34 + weight (tsub f t) \<le> n \<Longrightarrow> \<exists>b. occurs n tb v t = Some b"
proof (induction n arbitrary: t)
  case 0
  then show ?case by simp
next
  case (Suc n)
  obtain u where u: "shallow (Suc n) tb t = Some u"
    using shallow_returns [OF assms Suc.prems(1), of "Suc n"] Suc.prems(2) by auto
  have f: "tsub f u = tsub f t" "fits_in tb u" using shallow_tsub [OF assms Suc.prems(1) u] by auto
  show ?case
  proof (cases "infer_of u")
    case (Some w)
    then have w: "u = Infer w" by (simp add: infer_of_Some)
    with u have "unbound tb w" using shallow_Infer by blast
    with u w show ?thesis by (simp del: shallow.simps root.simps)
  next
    case None
    have "\<exists>b. any_opt (occurs n tb v) (occurs_parts u) = Some b"
    proof (rule any_opt_returns)
      fix x assume x: "x \<in> set (occurs_parts u)"
      with weight_part [of u x f] f Suc.prems(2) fits_parts [OF f(2) x] show "\<exists>b. occurs n tb v x = Some b"
        by (intro Suc.IH) (auto simp: fits_in_def)
    qed
    with u occurs_step [OF None] show ?thesis by (simp del: shallow.simps root.simps)
  qed
qed

lemma map_opt_returns: "(\<And>x. x \<in> set xs \<Longrightarrow> \<exists>b. g x = Some b) \<Longrightarrow> \<exists>b. map_opt g xs = Some b"
proof (induction xs)
  case (Cons x xs)
  from Cons.prems [of x] obtain b where "g x = Some b" by auto
  moreover from Cons obtain c where "map_opt g xs = Some c" by auto
  ultimately show ?case by simp
qed simp

lemma resolve_parts_returns:
  assumes u: "checked u" "has_infer u" and g: "\<And>x. x \<in> set (occurs_parts u) \<Longrightarrow> \<exists>y. g x = Some y"
  shows "\<exists>t. resolve_parts g (resolve_row_by g ix) u = Some t"
proof -
  have l: "\<exists>ys. map_opt g xs = Some ys" if "set xs \<subseteq> set (occurs_parts u)" for xs
    using map_opt_returns [of xs g] g that by blast
  show ?thesis
  proof (cases u)
    case (Fn ps res row s i d)
    obtain ps' res' where "map_opt g ps = Some ps'" "g res = Some res'" using l [of ps] g [of res] Fn by auto
    with Fn u show ?thesis by (simp add: resolve_parts_def resolve_row_closed)
  next
    case (Tuple es rest)
    obtain es' where "map_opt g es = Some es'" using l [of es] Tuple by auto
    moreover have "\<exists>y. g x = Some y" if "rest = Some x" for x using g that Tuple by auto
    ultimately show ?thesis using Tuple by (cases rest) (auto simp: resolve_parts_def)
  next
    case (Opaque ow s b args bound)
    obtain args' bound' where "map_opt g args = Some args'" "g bound = Some bound'"
      using l [of args] g [of bound] Opaque by auto
    with Opaque show ?thesis by (simp add: resolve_parts_def)
  next
    case (TraitValue d args bs)
    with u show ?thesis by (simp add: closed_def has_infer_iff)
  next
    case (Assoc a tr self args)
    with u show ?thesis by (simp add: closed_def has_infer_iff)
  next
    case (Adt d args)
    then show ?thesis using l [of args] by (auto simp: resolve_parts_def)
  next
    case (Union ms)
    then show ?thesis using l [of ms] by (auto simp: resolve_parts_def)
  qed (use u g in \<open>auto simp: resolve_parts_def has_infer_iff\<close>)
qed

lemma resolve_returns:
  assumes "solved tb f"
  shows "fits_in tb t \<Longrightarrow> 34 + weight (tsub f t) \<le> n \<Longrightarrow> \<exists>b. resolve n ix tb t = Some b"
proof (induction n arbitrary: t)
  case 0
  then show ?case by simp
next
  case (Suc n)
  obtain u where u: "shallow (Suc n) tb t = Some u"
    using shallow_returns [OF assms Suc.prems(1), of "Suc n"] Suc.prems(2) by auto
  have f: "tsub f u = tsub f t" "fits_in tb u" using shallow_tsub [OF assms Suc.prems(1) u] by auto
  show ?case
  proof (cases "has_infer u")
    case True
    have "\<exists>s. resolve_parts (resolve n ix tb) (resolve_row_by (resolve n ix tb) ix) u = Some s"
    proof (rule resolve_parts_returns [OF fits_checked [OF f(2)] True])
      fix x assume x: "x \<in> set (occurs_parts u)"
      with weight_part [of u x f] f Suc.prems(2) fits_parts [OF f(2) x] show "\<exists>y. resolve n ix tb x = Some y"
        by (intro Suc.IH) (auto simp: fits_in_def)
    qed
    with u show ?thesis by (auto simp del: shallow.simps)
  next
    case False
    with u show ?thesis by (simp del: shallow.simps)
  qed
qed

end
