(* ===== verification/UnifyEnds.thy ===== *)
theory UnifyEnds
  imports UnifyTotal
begin

text \<open>
  The recursion of \<open>unify\<close> ends, by lexicographic induction on the open classes and the sizes of the two
  resolved types; then what the theories above show is stated for the tables the checker builds.
\<close>

definition runs :: "(nat \<Rightarrow> 'a option) \<Rightarrow> bool" where
  "runs F \<longleftrightarrow> (\<exists>n r. F n = Some r)"

definition growing :: "(nat \<Rightarrow> 'a option) \<Rightarrow> bool" where
  "growing F \<longleftrightarrow> (\<forall>n m. n \<le> m \<longrightarrow> below (F n) (F m))"

lemma growingI: "(\<And>n m. n \<le> m \<Longrightarrow> below (F n) (F m)) \<Longrightarrow> growing F"
  by (simp add: growing_def)

lemma growingD:
  assumes "growing F" "F n = Some r" "n \<le> m"
  shows "F m = Some r"
proof -
  have "below (F n) (F m)" using assms(1,3) by (simp add: growing_def)
  then show ?thesis using assms(2) by (rule below_Some)
qed

lemma runs_if: "(c \<Longrightarrow> runs F) \<Longrightarrow> (\<not> c \<Longrightarrow> runs G) \<Longrightarrow> runs (\<lambda>n. if c then F n else G n)"
  by (cases c) auto

lemma runsI: "F n = Some r \<Longrightarrow> runs F"
  unfolding runs_def by blast

lemma runs_okay: "runs (\<lambda>n. okay tb)" "runs (\<lambda>n. fails tb x)"
  by (auto simp: runs_def okay_def fails_def)

lemma runs_then:
  assumes "runs F" "growing F" "\<And>n tb1. F n = Some (tb1, None) \<Longrightarrow> runs (\<lambda>n. K n tb1)" "\<And>tb1. growing (\<lambda>n. K n tb1)"
  shows "runs (\<lambda>n. and_then (F n) (K n))"
proof -
  from assms(1) obtain n tb1 e where n: "F n = Some (tb1, e)" by (auto simp: runs_def)
  show ?thesis
  proof (cases e)
    case None
    with n have "runs (\<lambda>n. K n tb1)" using assms(3) by blast
    then obtain m r where m: "K m tb1 = Some r" unfolding runs_def by blast
    have "F (max n m) = Some (tb1, None)" "K (max n m) tb1 = Some r"
      using growingD [OF assms(2) n, of "max n m"] growingD [OF assms(4) m, of "max n m"] None by auto
    then show ?thesis by (intro runsI [of _ "max n m"]) (simp add: and_then_def)
  next
    case (Some x)
    with n show ?thesis by (intro runsI [of _ n]) (simp add: and_then_def)
  qed
qed

lemma growing_unify [simp]: "growing (\<lambda>n. unify n ix tb a b)"
  by (intro growingI below_unify)

lemma more_unify: "n \<le> m \<Longrightarrow> more_fuel (unify n ix) (unify m ix)"
  by (intro more_fuel.intro below_unify)

lemma growing_all: "growing (\<lambda>n. unify_all (unify n ix) tb ps)"
  by (intro growingI more_fuel.below_all more_unify)

lemma growing_lists: "growing (\<lambda>n. unify_lists (unify n ix) tb xs ys a b)"
  by (intro growingI more_fuel.below_lists more_unify)

lemma growing_inputs: "growing (\<lambda>n. unify_inputs (unify n ix) tb p1 i1 p2 i2 a b)"
  by (intro growingI more_fuel.below_inputs more_unify)

section \<open>One level\<close>

text \<open>
  The calls below one on \<open>a\<close> and \<open>b\<close> in the table \<open>tb\<close>: on types that fit, whose sizes add up to less than
  \<open>w\<close>, in any table the call may have gone on to.
\<close>

definition calls_end :: "(ty \<Rightarrow> nat) \<Rightarrow> table \<Rightarrow> (nat \<Rightarrow> ty) \<Rightarrow> nat \<Rightarrow> bool" where
  "calls_end ix tb f w \<longleftrightarrow> (\<forall>tb1 f1 x y. goes_on tb f tb1 f1 \<longrightarrow> fits_in tb x \<longrightarrow> fits_in tb y \<longrightarrow>
     weight (tsub f x) + weight (tsub f y) < w \<longrightarrow> runs (\<lambda>n. unify n ix tb1 x y))"

lemma calls_endD:
  "calls_end ix tb f w \<Longrightarrow> goes_on tb f tb1 f1 \<Longrightarrow> fits_in tb x \<Longrightarrow> fits_in tb y \<Longrightarrow>
     weight (tsub f x) + weight (tsub f y) < w \<Longrightarrow> runs (\<lambda>n. unify n ix tb1 x y)"
  unfolding calls_end_def by blast

lemma runs_all:
  assumes "calls_end ix tb f w"
  shows "goes_on tb f tb1 f1 \<Longrightarrow>
    \<forall>p\<in>set ps. fits_in tb (fst p) \<and> fits_in tb (snd p) \<and> weight (tsub f (fst p)) + weight (tsub f (snd p)) < w \<Longrightarrow>
    runs (\<lambda>n. unify_all (unify n ix) tb1 ps)"
proof (induction ps arbitrary: tb1 f1)
  case Nil
  then show ?case by (simp add: runs_okay)
next
  case (Cons p ps)
  have p: "fits_in tb (fst p)" "fits_in tb (snd p)" "weight (tsub f (fst p)) + weight (tsub f (snd p)) < w"
    using Cons.prems(2) by auto
  show ?case unfolding unify_all.simps
  proof (rule runs_then)
    show "runs (\<lambda>n. unify n ix tb1 (fst p) (snd p))" by (rule calls_endD [OF assms Cons.prems(1) p])
    show "growing (\<lambda>n. unify_all (unify n ix) tb2 ps)" for tb2 by (rule growing_all)
    fix n tb2
    assume u: "unify n ix tb1 (fst p) (snd p) = Some (tb2, None)"
    have fit: "fits_in tb1 (fst p)" "fits_in tb1 (snd p)" using p goes_on_fits [OF Cons.prems(1)] by auto
    from soundD [OF sound_unify u goes_on_solved [OF Cons.prems(1)] fit]
    obtain f2 where "goes_on tb1 f1 tb2 f2" by blast
    from goes_on_trans [OF Cons.prems(1) this] Cons.prems(2) show "runs (\<lambda>n. unify_all (unify n ix) tb2 ps)"
      by (intro Cons.IH) auto
  qed simp
qed

lemma runs_lists:
  assumes "calls_end ix tb f w" "goes_on tb f tb1 f1" "\<forall>x\<in>set xs. fits_in tb x" "\<forall>y\<in>set ys. fits_in tb y"
    "\<And>x y. x \<in> set xs \<Longrightarrow> y \<in> set ys \<Longrightarrow> weight (tsub f x) + weight (tsub f y) < w"
  shows "runs (\<lambda>n. unify_lists (unify n ix) tb1 xs ys a b)"
proof (cases "length xs = length ys")
  case True
  have "runs (\<lambda>n. unify_all (unify n ix) tb1 (zip xs ys))"
  proof (rule runs_all [OF assms(1,2)], rule ballI)
    fix p assume "p \<in> set (zip xs ys)"
    then have "fst p \<in> set xs" "snd p \<in> set ys"
      using set_zip_leftD [of "fst p" "snd p"] set_zip_rightD [of "fst p" "snd p"] by simp_all
    with assms(3,4) assms(5) [of "fst p" "snd p"]
    show "fits_in tb (fst p) \<and> fits_in tb (snd p) \<and> weight (tsub f (fst p)) + weight (tsub f (snd p)) < w"
      by simp
  qed
  with True show ?thesis by (simp add: unify_lists_def)
next
  case False
  then show ?thesis by (simp add: unify_lists_def runs_okay)
qed

lemma runs_inputs:
  assumes "calls_end ix tb f w" "solved tb f" "\<forall>x\<in>set p1. fits_in tb x" "\<forall>y\<in>set p2. fits_in tb y"
    "weight (tsub f (inputs_tuple p1 i1)) + weight (tsub f (inputs_tuple p2 i2)) < w"
  shows "runs (\<lambda>n. unify_inputs (unify n ix) tb p1 i1 p2 i2 a b)"
proof -
  have l: "runs (\<lambda>n. unify_lists (unify n ix) tb p1 p2 a b)"
  proof (rule runs_lists [OF assms(1) goes_on_refl [OF assms(2)] assms(3,4)])
    fix x y assume "x \<in> set p1" "y \<in> set p2"
    with weight_input_part [of x p1 f i1] weight_input_part [of y p2 f i2] assms(5)
    show "weight (tsub f x) + weight (tsub f y) < w" by simp
  qed
  have c: "runs (\<lambda>n. unify n ix tb (inputs_tuple p1 i1) (inputs_tuple p2 i2))"
    by (rule calls_endD [OF assms(1) goes_on_refl [OF assms(2)] inputs_fit [OF assms(3)] inputs_fit [OF assms(4)] assms(5)])
  show ?thesis unfolding unify_inputs_def by (intro runs_if l c runs_okay)
qed

lemma parts_less:
  assumes "fits_in tb a" "fits_in tb b" "x \<in> set (occurs_parts a)" "y \<in> set (occurs_parts b)"
  shows "weight (tsub f x) + weight (tsub f y) < weight (tsub f a) + weight (tsub f b)"
  using weight_part [OF fits_checked [OF assms(1)] assms(3), of f]
    weight_part [OF fits_checked [OF assms(2)] assms(4), of f] by simp

lemma closed_weight: "closed t \<Longrightarrow> weight (tsub f t) = weight t"
  by simp

lemma runs_context:
  assumes "calls_end ix tb f (weight (Context r1) + weight (Context r2))" "solved tb f" "row_vars r1 = {}" "row_vars r2 = {}"
  shows "runs (\<lambda>n. unify_context_rows n ix (unify n ix) tb r1 r2 a b)"
proof -
  have rr: "resolve_row n ix tb r1 = Some r1" "resolve_row n ix tb r2 = Some r2" for n tb
    using assms(3,4) by (simp_all add: resolve_row_def resolve_row_closed)
  have c: "closed k" if "k \<in> set (row_keys r1) \<or> k \<in> set (row_keys r2)" for k
    using that assms(3,4) by (auto simp: row_vars_keys closed_def)
  have w: "weight k \<le> row_weight r" if "k \<in> set (row_keys r)" for k r
    using that by (cases r) (simp add: weight_mem)
  have "runs (\<lambda>n. unify_all (unify n ix) tb (context_pairs (row_keys r1) (row_keys r2)))"
  proof (rule runs_all [OF assms(1) goes_on_refl [OF assms(2)]], rule ballI)
    fix p assume "p \<in> set (context_pairs (row_keys r1) (row_keys r2))"
    then have "fst p \<in> set (row_keys r1)" "snd p \<in> set (row_keys r2)" using context_pairs_mem by blast+
    with c closed_fits w [of "fst p" r1] w [of "snd p" r2] show "fits_in tb (fst p) \<and> fits_in tb (snd p) \<and>
      weight (tsub f (fst p)) + weight (tsub f (snd p)) < weight (Context r1) + weight (Context r2)" by simp
  qed
  then have "runs (\<lambda>n. and_then (unify_all (unify n ix) tb (context_pairs (row_keys r1) (row_keys r2)))
      (\<lambda>tb. if r1 = r2 then okay tb else fails tb (Mismatch a b)))"
    by (rule runs_then) (auto simp: growing_all runs_okay growing_def below_refl)
  then show ?thesis
    unfolding unify_context_rows_def rr bind.bind_lunit by (intro runs_if runs_okay)
qed

lemma runs_data:
  assumes "row_vars r1 = {}" "row_vars r2 = {}"
  shows "runs (\<lambda>n. unify_data_rows n ix tb r1 r2 a b)"
proof -
  have "row_variable r1 = None" "row_variable r2 = None"
    using row_variable_Some [of r1] row_variable_Some [of r2] assms
    by (cases "row_variable r1"; cases "row_variable r2"; simp add: row_vars_keys)+
  then have "unify_data_rows n ix tb r1 r2 a b = (if r1 = r2 then okay tb else fails tb (Mismatch a b))" for n
    using assms by (simp add: unify_data_rows_def resolve_row_def resolve_row_closed)
  then show ?thesis by (simp add: runs_okay)
qed

lemma and_then_sound:
  assumes "solved tb f" "unify n ix tb x y = Some (tb1, None)" "fits_in tb x" "fits_in tb y"
  shows "\<exists>f1. goes_on tb f tb1 f1"
  using soundD [OF sound_unify assms(2,1,3,4)] by blast

lemma runs_same:
  assumes ends: "calls_end ix tb f (weight (tsub f a) + weight (tsub f b))" and tb: "solved tb f"
    and ab: "fits_in tb a" "fits_in tb b"
  shows "runs (\<lambda>n. unify_same n ix (unify n ix) tb a b)"
proof -
  note parts = fits_parts [OF ab(1)] fits_parts [OF ab(2)] and less = parts_less [OF ab]
  note go = goes_on_refl [OF tb]
  have one: "runs (\<lambda>n. unify n ix tb1 x y)" if "goes_on tb f tb1 f1" "x \<in> set (occurs_parts a)" "y \<in> set (occurs_parts b)"
    for tb1 f1 x y
    by (rule calls_endD [OF ends that(1)]) (use that(2,3) parts less in auto)
  have lists: "runs (\<lambda>n. unify_lists (unify n ix) tb xs ys a b)"
    if "set xs \<subseteq> set (occurs_parts a)" "set ys \<subseteq> set (occurs_parts b)" for xs ys
  proof (rule runs_lists [OF ends go])
    fix x y assume "x \<in> set xs" "y \<in> set ys"
    with that show "weight (tsub f x) + weight (tsub f y) < weight (tsub f a) + weight (tsub f b)" by (intro less) auto
  qed (use that parts in auto)
  have then_one: "runs (\<lambda>n. and_then (unify_lists (unify n ix) tb xs ys a b) (\<lambda>tb. unify n ix tb x y))"
    if "set (x # xs) \<subseteq> set (occurs_parts a)" "set (y # ys) \<subseteq> set (occurs_parts b)" for xs ys x y
  proof (rule runs_then)
    show "runs (\<lambda>n. unify_lists (unify n ix) tb xs ys a b)" using lists that by simp
    fix n tb1
    assume "unify_lists (unify n ix) tb xs ys a b = Some (tb1, None)"
    moreover have "\<forall>x\<in>set xs. fits_in tb x" "\<forall>y\<in>set ys. fits_in tb y" using that parts by auto
    ultimately obtain f1 where "goes_on tb f tb1 f1" using sound_lists [OF sound_unify tb] by blast
    from one [OF this] that show "runs (\<lambda>n. unify n ix tb1 x y)" by simp
  qed (simp_all add: growing_lists)
  have mismatch: "runs (\<lambda>n. fails tb (Mismatch a b))" by (rule runs_okay)
  note u = unify_same_def Let_def subset_insertI
  show ?thesis
  proof (cases a)
    case (Adt d1 a1)
    then show ?thesis using mismatch lists by (cases b) (auto simp: u intro!: runs_if)
  next
    case a: (Tuple e1 rest1)
    show ?thesis
    proof (cases b)
      case b: (Tuple e2 rest2)
      show ?thesis using mismatch lists then_one a b by (cases rest1; cases rest2) (auto simp: u subset_insertI)
    qed (use a mismatch in \<open>auto simp: u intro!: runs_if\<close>)
  next
    case (Union m1)
    then show ?thesis using mismatch lists by (cases b) (auto simp: u intro!: runs_if)
  next
    case (OptionTy x)
    then show ?thesis using mismatch one [OF go] by (cases b) (auto simp: u intro!: runs_if)
  next
    case a: (Fn p1 r1 row1 s1 i1 d1)
    show ?thesis
    proof (cases b)
      case b: (Fn p2 r2 row2 s2 i2 d2)
      have p: "\<forall>x\<in>set p1. fits_in tb x" "\<forall>x\<in>set p2. fits_in tb x" using parts a b by auto
      have w: "weight (tsub f (inputs_tuple p1 i1)) + weight (tsub f (inputs_tuple p2 i2)) < weight (tsub f a) + weight (tsub f b)"
        using Fn_weight [of p1 r1 row1 s1 i1 d1 f] Fn_weight [of p2 r2 row2 s2 i2 d2 f] ab a b by (simp add: fits_in_def)
      have "runs (\<lambda>n. and_then (unify_inputs (unify n ix) tb p1 i1 p2 i2 a b) (\<lambda>tb. unify n ix tb r1 r2))"
      proof (rule runs_then)
        show "runs (\<lambda>n. unify_inputs (unify n ix) tb p1 i1 p2 i2 a b)" by (rule runs_inputs [OF ends tb p w])
        fix n tb1
        assume "unify_inputs (unify n ix) tb p1 i1 p2 i2 a b = Some (tb1, None)"
        from sound_inputs [OF sound_unify tb p this] obtain f1 where "goes_on tb f tb1 f1" by blast
        from one [OF this] a b show "runs (\<lambda>n. unify n ix tb1 r1 r2)" by simp
      qed (simp_all add: growing_inputs)
      with a b mismatch show ?thesis by (auto simp: u intro!: runs_if)
    qed (use a mismatch in \<open>auto simp: u intro!: runs_if\<close>)
  next
    case a: (TraitValue d1 a1 bs1)
    show ?thesis
    proof (cases b)
      case b: (TraitValue d2 a2 bs2)
      have c: "\<forall>x\<in>set a1. closed x" "\<forall>x\<in>set a2. closed x" "closed a" "closed b"
        using ab a b by (auto simp: fits_in_def closed_def)
      have "runs (\<lambda>n. unify_lists (unify n ix) tb a1 a2 a b)"
      proof (rule runs_lists [OF ends go])
        fix x y assume xy: "x \<in> set a1" "y \<in> set a2"
        with c weight_mem [OF xy(1)] weight_mem [OF xy(2)] a b
        show "weight (tsub f x) + weight (tsub f y) < weight (tsub f a) + weight (tsub f b)" by simp
      qed (use c closed_fits in blast)+
      with a b mismatch show ?thesis by (auto simp: u intro!: runs_if)
    qed (use a mismatch in \<open>auto simp: u intro!: runs_if\<close>)
  next
    case (Opaque d1 s1 w1 a1 b1)
    then show ?thesis using mismatch then_one by (cases b) (auto simp: u intro!: runs_if)
  next
    case a: (Assoc x1 t1 s1 a1)
    show ?thesis
    proof (cases b)
      case b: (Assoc x2 t2 s2 a2)
      have c: "\<forall>x\<in>set (s1 # a1). closed x" "\<forall>x\<in>set (s2 # a2). closed x" "closed a" "closed b"
        using ab a b by (auto simp: fits_in_def closed_def)
      then have cf: "\<forall>x\<in>set (s1 # a1). fits_in tb x" "\<forall>x\<in>set (s2 # a2). fits_in tb x" using closed_fits by blast+
      have w: "weight (tsub f x) + weight (tsub f y) < weight (tsub f a) + weight (tsub f b)"
        if "x \<in> set (s1 # a1)" "y \<in> set (s2 # a2)" for x y
      proof -
        have "weight x < weight a" "weight y < weight b"
          using that a b weight_mem [of x a1] weight_mem [of y a2] by auto
        with that c show ?thesis by auto
      qed
      have "runs (\<lambda>n. and_then (unify n ix tb s1 s2) (\<lambda>tb. unify_lists (unify n ix) tb a1 a2 a b))"
      proof (rule runs_then)
        show "runs (\<lambda>n. unify n ix tb s1 s2)" by (rule calls_endD [OF ends go]) (use cf w in auto)
        fix n tb1
        assume n: "unify n ix tb s1 s2 = Some (tb1, None)"
        obtain f1 where "goes_on tb f tb1 f1" using and_then_sound [OF tb n] cf by auto
        then show "runs (\<lambda>n. unify_lists (unify n ix) tb1 a1 a2 a b)"
          by (rule runs_lists [OF ends]) (use cf w in auto)
      qed (simp_all add: growing_lists)
      with a b mismatch show ?thesis by (auto simp: u intro!: runs_if)
    qed (use a mismatch in \<open>auto simp: u intro!: runs_if\<close>)
  next
    case (RefTy x mx cx)
    then show ?thesis using mismatch one [OF go] by (cases b) (auto simp: u intro!: runs_if)
  next
    case a: (RowTy r1)
    then show ?thesis using mismatch runs_data ab by (cases b) (auto simp: u fits_in_def intro!: runs_if)
  next
    case a: (Context r1)
    show ?thesis
    proof (cases b)
      case b: (Context r2)
      have "tsub f a = a" "tsub f b = b" using ab a b by (simp_all add: fits_in_def)
      with runs_context [of ix tb f r1 r2 a b] ends tb ab a b show ?thesis by (auto simp: u fits_in_def intro!: runs_if)
    qed (use a mismatch in \<open>auto simp: u intro!: runs_if\<close>)
  qed (use mismatch in \<open>auto simp: u intro!: runs_if\<close>)
qed

end
