(* ===== verification/Inference.thy ===== *)
theory Inference
  imports UnifyEnds
begin

text \<open>
  The unifier's contract (\<^verbatim>\<open>crates/hd_types/src/unify.rs\<close>, \<^verbatim>\<open>crates/hd_check/DESIGN.md\<close> section 3), for the
  tables a body's checking builds from fresh variables and unifications: \<open>unify\<close> and \<open>resolve\<close> return, a
  success makes the two types agree, and what agreed before goes on agreeing. It is the contract for types
  whose variables stand where the occurs check looks; a variable in a trait value's argument escapes it, and
  then a binding can be a cycle.
\<close>

lemma runs_bind_root:
  assumes "solved tb f" "unbound tb v" "fits_in tb t"
  shows "runs (\<lambda>n. bind_root n tb v t)"
proof -
  obtain n where n: "n = Suc (33 + weight (tsub f t))" by blast
  obtain occ where o: "occurs n tb v t = Some occ"
    using occurs_returns [OF assms(1,3), of n v] n by auto
  have v: "v < length (it_kind tb)" "v < length (it_binding tb)"
    using assms(2) solved_columns [OF assms(1)] by (auto simp: unbound_def)
  have "bind_var n tb v t \<noteq> None"
    using v by (cases occ; cases "kind_takes (it_kind tb ! v) t")
      (simp_all add: bind_var_def o get_at_def set_binding_def set_at_def fails_def okay_def)
  then obtain r where "bind_var n tb v t = Some r" by blast
  moreover have "root n tb v = Some v" unfolding n using assms(2) by (rule root_Suc_unbound)
  ultimately have "bind_root n tb v t = Some r" by (simp add: bind_root_def)
  then show ?thesis by (rule runsI)
qed

lemma runs_unify_vars:
  assumes "solved tb f" "unbound tb v" "unbound tb w"
  shows "runs (\<lambda>n. unify_vars n tb v w a b)"
proof -
  have k: "v < length (it_kind tb)" "w < length (it_kind tb)"
    using assms(2,3) solved_columns [OF assms(1)] by (auto simp: unbound_def)
  have u: "\<exists>tb'. union_classes tb v w m = Some tb'" if "v \<noteq> w" for m
    using union_classes_columns [OF _ assms(2,3) that, of m] assms(1) by (auto simp: solved_def table_good_def)
  have "\<exists>r. unify_vars (Suc 0) tb v w a b = Some r"
  proof (cases "merged_kind (it_kind tb ! v) (it_kind tb ! w)")
    case None
    with assms(2,3) k show ?thesis by (simp add: unify_vars_def get_at_def fails_def del: root.simps)
  next
    case (Some m)
    then show ?thesis using assms(2,3) k u [of m]
      by (cases "v = w") (auto simp: unify_vars_def get_at_def okay_def simp del: root.simps)
  qed
  then show ?thesis by (auto simp: runs_def)
qed

lemma runs_mut:
  assumes "runs (\<lambda>n. unify n ix tb x y)" "\<And>u. v = Some u \<Longrightarrow> unbound tb u \<and> runs (\<lambda>n. bind_root n tb u w)" "solved tb f"
  shows "runs (\<lambda>n. unify_mut n (unify n ix) tb x y v w)"
proof (cases v)
  case None
  with assms(1) show ?thesis by (simp add: unify_mut_def)
next
  case (Some u)
  with assms(2) have u: "unbound tb u" "runs (\<lambda>n. bind_root n tb u w)" by auto
  have "u < length (it_kind tb)" using u(1) solved_columns [OF assms(3)] by (auto simp: unbound_def)
  then have g: "is_general (Suc n) tb u = Some (it_kind tb ! u = General)" for n
    using u(1) by (simp add: is_general_def get_at_def del: root.simps)
  obtain n r where r: "(if it_kind tb ! u = General then bind_root n tb u w else unify n ix tb x y) = Some r"
    using u(2) assms(1) by (cases "it_kind tb ! u = General") (auto simp: runs_def)
  then have "n \<noteq> 0" by (auto simp: bind_root_def split: if_splits intro: ccontr)
  then obtain m where m: "n = Suc m" by (cases n) auto
  have "unify_mut n (unify n ix) tb x y v w = Some r"
    using r unfolding m unify_mut_def Some by (simp add: g)
  then show ?thesis by (rule runsI)
qed

lemma runs_step:
  assumes ends: "calls_end ix tb f (weight (tsub f a) + weight (tsub f b))" and tb: "solved tb f"
    and ab: "fits_in tb a" "fits_in tb b"
    and open_a: "\<And>v. a = Infer v \<Longrightarrow> unbound tb v" and open_b: "\<And>v. b = Infer v \<Longrightarrow> unbound tb v"
  shows "runs (\<lambda>n. unify_step n ix (unify n ix) tb a b)"
proof -
  note go = goes_on_refl [OF tb]
  have one: "runs (\<lambda>n. unify n ix tb x y)"
    if "fits_in tb x" "fits_in tb y" "weight (tsub f x) + weight (tsub f y) < weight (tsub f a) + weight (tsub f b)" for x y
    by (rule calls_endD [OF ends go that])
  have root_a: "unbound tb u \<and> runs (\<lambda>n. bind_root n tb u t)" if "infer_of a = Some u" "fits_in tb t" for u t
    using that open_a runs_bind_root [OF tb] by (auto simp: infer_of_Some)
  have root_b: "unbound tb u \<and> runs (\<lambda>n. bind_root n tb u t)" if "infer_of b = Some u" "fits_in tb t" for u t
    using that open_b runs_bind_root [OF tb] by (auto simp: infer_of_Some)
  have M: "runs (\<lambda>n. (case (mut_of a, mut_of b) of
          (Some x, Some y) \<Rightarrow> unify n ix tb x y
        | (Some x, None) \<Rightarrow> unify_mut n (unify n ix) tb x b (infer_of b) a
        | (None, Some y) \<Rightarrow> unify_mut n (unify n ix) tb a y (infer_of a) b
        | (None, None) \<Rightarrow> (case (infer_of a, infer_of b) of
            (Some x, Some y) \<Rightarrow> unify_vars n tb x y a b
          | (Some x, None) \<Rightarrow> bind_root n tb x b
          | (None, Some y) \<Rightarrow> bind_root n tb y a
          | (None, None) \<Rightarrow> unify_same n ix (unify n ix) tb a b)))"
  proof (cases "mut_of a"; cases "mut_of b")
    fix x y
    assume "mut_of a = Some x" "mut_of b = Some y"
    with ab one [of x y] show ?thesis by (auto simp: mut_of_Some fits_in_def)
  next
    fix x
    assume m: "mut_of a = Some x" "mut_of b = None"
    then have "runs (\<lambda>n. unify_mut n (unify n ix) tb x b (infer_of b) a)"
      by (intro runs_mut [OF one _ tb] root_b) (use ab in \<open>auto simp: mut_of_Some fits_in_def\<close>)
    with m show ?thesis by simp
  next
    fix y
    assume m: "mut_of a = None" "mut_of b = Some y"
    then have "runs (\<lambda>n. unify_mut n (unify n ix) tb a y (infer_of a) b)"
      by (intro runs_mut [OF one _ tb] root_a) (use ab in \<open>auto simp: mut_of_Some fits_in_def\<close>)
    with m show ?thesis by simp
  next
    assume m: "mut_of a = None" "mut_of b = None"
    show ?thesis
      using runs_unify_vars [OF tb] root_a ab root_b runs_same [OF ends tb ab] open_a open_b
      by (cases "infer_of a"; cases "infer_of b") (simp_all add: m infer_of_Some)
  qed
  show ?thesis unfolding unify_step_def by (intro runs_if runs_okay M)
qed

lemma unify_ends:
  "solved tb f \<Longrightarrow> fits_in tb a \<Longrightarrow> fits_in tb b \<Longrightarrow> runs (\<lambda>n. unify n ix tb a b)"
proof (induction "(open_count tb, weight (tsub f a) + weight (tsub f b))" arbitrary: tb f a b
    rule: wf_induct_rule [OF wf_lex_prod [OF wf_less_than wf_less_than]])
  case 1
  note tb = "1.prems"(1) and ab = "1.prems"(2,3)
  obtain a' where a: "shallow 34 tb a = Some a'" using shallow_returns [OF tb ab(1), of 34] by auto
  obtain b' where b: "shallow 34 tb b = Some b'" using shallow_returns [OF tb ab(2), of 34] by auto
  have a': "tsub f a' = tsub f a" "fits_in tb a'" using shallow_tsub [OF tb ab(1) a] by auto
  have b': "tsub f b' = tsub f b" "fits_in tb b'" using shallow_tsub [OF tb ab(2) b] by auto
  have "calls_end ix tb f (weight (tsub f a') + weight (tsub f b'))"
    unfolding calls_end_def
  proof (intro allI impI)
    fix tb1 f1 x y
    assume g: "goes_on tb f tb1 f1" "fits_in tb x" "fits_in tb y"
      "weight (tsub f x) + weight (tsub f y) < weight (tsub f a') + weight (tsub f b')"
    have "((open_count tb1, weight (tsub f1 x) + weight (tsub f1 y)),
      open_count tb, weight (tsub f a) + weight (tsub f b)) \<in> less_than <*lex*> less_than"
      using g(1,4) a'(1) b'(1) by (auto simp: goes_on_def)
    then show "runs (\<lambda>n. unify n ix tb1 x y)"
      by (rule "1.hyps") (use g goes_on_solved goes_on_fits in blast)+
  qed
  moreover have "unbound tb v" if "a' = Infer v \<or> b' = Infer v" for v
    using that a b shallow_Infer by blast
  ultimately have "runs (\<lambda>n. unify_step n ix (unify n ix) tb a' b')"
    using runs_step tb a'(2) b'(2) by blast
  then obtain n r where n: "unify_step n ix (unify n ix) tb a' b' = Some r" unfolding runs_def by blast
  let ?n = "max n 34"
  have "shallow (Suc ?n) tb a = Some a'" "shallow (Suc ?n) tb b = Some b'"
    using below_Some [OF below_shallow a] below_Some [OF below_shallow b] by (simp_all del: shallow.simps)
  moreover have "unify_step (Suc ?n) ix (unify ?n ix) tb a' b' = Some r"
    by (rule below_Some [OF more_fuel.below_unify_step n]) (auto intro: more_unify)
  ultimately have "unify (Suc ?n) ix tb a b = Some r" by (simp del: shallow.simps)
  then show ?case by (rule runsI)
qed

section \<open>The tables of a body\<close>

inductive inferred :: "table \<Rightarrow> bool" where
  empty: "inferred empty_table"
| fresh: "inferred tb \<Longrightarrow> fresh tb k = Some (t, tb') \<Longrightarrow> inferred tb'"
| unify: "inferred tb \<Longrightarrow> fits_in tb a \<Longrightarrow> fits_in tb b \<Longrightarrow> unify n ix tb a b = Some (tb', e) \<Longrightarrow> inferred tb'"

lemma solved_fresh:
  assumes "solved tb f" "fresh tb k = Some (t, tb')"
  shows "\<exists>f'. solved tb' f'"
proof -
  let ?n = "length (it_parent tb)"
  let ?f = "f(?n := Infer ?n)"
  note s = assms(1) [unfolded solved_def stands_for_def table_good_def]
  from assms(2) have tb': "tb' = tb\<lparr>it_parent := it_parent tb @ [?n], it_rank := it_rank tb @ [0],
      it_binding := it_binding tb @ [None], it_kind := it_kind tb @ [k]\<rparr>"
    unfolding fresh_def Let_def by (metis (no_types, lifting) option.inject option.distinct(1) prod.inject)
  have ok: "classes_ok tb'" using classes_fresh [OF assms(2)] s by blast
  have len: "length (it_binding tb) = ?n" using solved_columns [OF assms(1)] by simp
  have "table_good tb'"
    using ok s len by (fastforce simp: table_good_def tb' nth_append fits_in_def less_Suc_eq)
  moreover have "stands_for tb' ?f"
    unfolding stands_for_def
  proof (intro conjI allI impI)
    fix v show "checked (?f v)" "interned (?f v)" using s by auto
  next
    fix v r
    assume r: "rep tb' v r" "v < length (it_parent tb')"
    show "?f v = (case it_binding tb' ! r of None \<Rightarrow> Infer r | Some t \<Rightarrow> tsub ?f t)"
    proof (cases "v = ?n")
      case True
      have "rep tb' ?n ?n" by (simp add: rep_def tb')
      with rep_unique [OF r(1)] True have "r = ?n" by simp
      with True len show ?thesis by (simp add: tb' nth_append)
    next
      case False
      with r(2) have v: "v < ?n" by (simp add: tb')
      then obtain r0 where r0: "rep tb v r0" "r0 < ?n"
        using has_root [of "it_parent tb" "it_rank tb" v] s by (auto simp: classes_ok_def rep_def)
      have "links (it_parent tb) \<subseteq> links (it_parent tb')" by (auto simp: links_def tb' nth_append)
      from rtrancl_mono [OF this] r0 have "rep tb' v r0" by (auto simp: rep_def tb' nth_append)
      with rep_unique [OF r(1)] have rr: "r = r0" by simp
      have fv: "f v = (case it_binding tb ! r0 of None \<Rightarrow> Infer r0 | Some t \<Rightarrow> tsub f t)" using s r0 v by auto
      have "tsub ?f t = tsub f t" if "it_binding tb ! r0 = Some t" for t
      proof (rule tsub_cong)
        have "ty_vars t \<subseteq> {..<?n}" using s that r0(2) by (auto simp: fits_in_def)
        then show "\<forall>v\<in>ty_vars t. ?f v = f v" by auto
      qed
      with fv rr v r0(2) len show ?thesis by (simp add: tb' nth_append split: option.splits)
    qed
  qed
  ultimately show ?thesis unfolding solved_def by blast
qed

lemma solved_empty: "solved empty_table Infer"
proof -
  have "it_parent empty_table = []" by (simp add: empty_table_def)
  then show ?thesis using empty_classes by (simp add: solved_def table_good_def stands_for_def)
qed

lemma inferred_solved: "inferred tb \<Longrightarrow> \<exists>f. solved tb f"
proof (induction rule: inferred.induct)
  case empty
  show ?case using solved_empty by blast
next
  case (fresh tb k t tb')
  then show ?case using solved_fresh by blast
next
  case (unify tb a b n ix tb' e)
  from unify.IH obtain f where f: "solved tb f" by blast
  from soundD [OF sound_unify unify.hyps(4) f unify.hyps(2,3)] obtain f' where "goes_on tb f tb' f'" by blast
  from goes_on_solved [OF this] show ?case by blast
qed

section \<open>The contract\<close>

lemma inferred_resolve:
  assumes "inferred tb" "fits_in tb t"
  shows "\<exists>m. \<forall>n\<ge>m. \<exists>u. resolve n ix tb t = Some u"
proof -
  obtain f where f: "solved tb f" using inferred_solved [OF assms(1)] by blast
  have "\<forall>n\<ge>34 + weight (tsub f t). \<exists>u. resolve n ix tb t = Some u"
    using resolve_returns [OF f assms(2)] by blast
  then show ?thesis by blast
qed

lemma agree_resolved:
  assumes f: "solved tb f" and ab: "fits_in tb a" "fits_in tb b" and agree: "agree (tsub f a) (tsub f b)"
  shows "\<exists>n a' b'. resolve n ix tb a = Some a' \<and> resolve n ix tb b = Some b' \<and> agree a' b'"
proof -
  let ?n = "34 + weight (tsub f a) + weight (tsub f b)"
  obtain a' where a': "resolve ?n ix tb a = Some a'" using resolve_returns [OF f ab(1), of ?n ix] by auto
  obtain b' where b': "resolve ?n ix tb b = Some b'" using resolve_returns [OF f ab(2), of ?n ix] by auto
  from resolve_tsub [OF f ab(1) a'] resolve_tsub [OF f ab(2) b'] agree a' b' show ?thesis by blast
qed

text \<open>C1. Unification is sound on the types whose variables stand where the occurs check looks: the types have
  no variable inside a trait value, a projection, a row, a context or the row of a function (\<open>fits_in\<close>), where
  a binding can be a cycle. In a table built from fresh variables and unifications of such types, if \<open>unify\<close>
  succeeds on two such types, both resolve in the table it leaves, to types that agree (equal up to \<open>mut\<close>
  markers, poison, function rows, bindings of trait values and borrow flags).\<close>

theorem unify_makes_agree:
  assumes "inferred tb" "fits_in tb a" "fits_in tb b" "unify n ix tb a b = Some (tb', None)"
  shows "\<exists>m a' b'. resolve m ix tb' a = Some a' \<and> resolve m ix tb' b = Some b' \<and> agree a' b'"
proof -
  obtain f where f: "solved tb f" using inferred_solved [OF assms(1)] by blast
  from soundD [OF sound_unify assms(4) f assms(2,3)]
  obtain f' where f': "goes_on tb f tb' f'" "agree (tsub f' a) (tsub f' b)" by auto
  from agree_resolved [OF goes_on_solved [OF f'(1)] _ _ f'(2)] show ?thesis
    using goes_on_fits [OF f'(1)] assms(2,3) by simp
qed

text \<open>C2. Unification returns, with success or an error, on the types whose variables stand where the occurs check
  looks, none of them inside a trait value, a projection, a row, a context or the row of a function (\<open>fits_in\<close>):
  for any two such types, in any table built from fresh variables and unifications of such types, there is fuel
  enough for the whole recursion, the lookups and the occurs checks below it, and more fuel gives the same
  result.\<close>

theorem unify_returns:
  assumes "inferred tb" "fits_in tb a" "fits_in tb b"
  shows "\<exists>m r. \<forall>n\<ge>m. unify n ix tb a b = Some r"
proof -
  obtain f where f: "solved tb f" using inferred_solved [OF assms(1)] by blast
  obtain m r where "unify m ix tb a b = Some r" using unify_ends [OF f assms(2,3)] unfolding runs_def by blast
  then show ?thesis using growingD [OF growing_unify] by blast
qed

text \<open>C3. Later unifications keep what earlier ones solved, on the types whose variables stand where the occurs
  check looks, none of them inside a trait value, a projection, a row, a context or the row of a function
  (\<open>fits_in\<close>): in a table built from fresh variables and unifications of such types, if two such types resolve
  to types that agree, then after any further unification of any two such types, failed or not, they still
  do.\<close>

theorem unify_keeps_agreement:
  assumes "inferred tb" "fits_in tb x" "fits_in tb y" "fits_in tb a" "fits_in tb b"
    and "resolve k ix tb x = Some x'" "resolve k ix tb y = Some y'" "agree x' y'"
    and "unify n ix tb a b = Some (tb', e)"
  shows "\<exists>m x'' y''. resolve m ix tb' x = Some x'' \<and> resolve m ix tb' y = Some y'' \<and> agree x'' y''"
proof -
  obtain f where f: "solved tb f" using inferred_solved [OF assms(1)] by blast
  from soundD [OF sound_unify assms(9) f assms(4,5)] obtain f' where f': "goes_on tb f tb' f'" by blast
  have "agree (tsub f x) (tsub f y)"
    using resolve_tsub [OF f assms(2,6)] resolve_tsub [OF f assms(3,7)] assms(8) by simp
  from goes_on_agree [OF f' this] have "agree (tsub f' x) (tsub f' y)" using assms(2,3) fits_checked by blast
  from agree_resolved [OF goes_on_solved [OF f'] _ _ this] show ?thesis
    using goes_on_fits [OF f'] assms(2,3) by simp
qed

text \<open>Resolving returns, and what it returns holds only variables whose class is still open: every solved
  variable is replaced, at any depth.\<close>

lemma resolve_complete:
  assumes "inferred tb" "fits_in tb t"
  shows "\<exists>m. \<forall>n\<ge>m. \<exists>u. resolve n ix tb t = Some u \<and> (\<forall>v\<in>ty_vars u. unbound tb v)"
proof -
  obtain m where m: "\<forall>n\<ge>m. \<exists>u. resolve n ix tb t = Some u" using inferred_resolve [OF assms] by blast
  show ?thesis
  proof (rule exI [of _ m], intro allI impI)
    fix n assume "m \<le> n"
    with m obtain u where "resolve n ix tb t = Some u" by blast
    with resolve_unbound show "\<exists>u. resolve n ix tb t = Some u \<and> (\<forall>v\<in>ty_vars u. unbound tb v)" by blast
  qed
qed

section \<open>The occurs check looks into no trait value\<close>

definition trait_pair :: "ty" where
  "trait_pair = TraitValue 7 [Infer 0] []"

text \<open>C40. A variable unifies with a trait value that has the variable as an argument: the occurs check does not
  look there, so the binding is a cycle, and resolving the variable then never ends, with any fuel.\<close>

theorem trait_value_cycle:
  "\<exists>tb tb'. inferred tb \<and> unify 2 ix tb (Infer 0) trait_pair = Some (tb', None) \<and> (\<forall>n. resolve n ix tb' (Infer 0) = None)"
proof -
  let ?tb = "empty_table\<lparr>it_parent := [0], it_rank := [0], it_binding := [None], it_kind := [General]\<rparr>"
  let ?tb' = "\<lparr>it_parent = [0], it_rank = [0], it_binding = [Some trait_pair], it_kind = [General],
    it_trail = [UndoBind 0]\<rparr>"
  have "fresh empty_table General = Some (Infer 0, ?tb)"
    by (simp add: fresh_def empty_table_def)
  then have t: "inferred ?tb" by (rule inferred.fresh [OF inferred.empty])
  have u: "unify 2 ix ?tb (Infer 0) trait_pair = Some (?tb', None)"
    by (simp add: numeral_2_eq_2 get_at_def unify_step_def bind_root_def bind_var_def kind_takes_def set_binding_def
      set_at_def okay_def log_undo_def empty_table_def trait_pair_def)
  have i: "has_infer trait_pair" by (simp add: has_infer_iff trait_pair_def)
  have "resolve n ix ?tb' (Infer 0) = None \<and> resolve n ix ?tb' trait_pair = None" for n
  proof (induction n)
    case (Suc n)
    have s: "shallow (Suc n) ?tb' trait_pair = Some trait_pair" for n
      by (simp add: trait_pair_def)
    have s0: "shallow (Suc n) ?tb' (Infer 0) = (if n = 0 then None else Some trait_pair)"
      using s by (cases n) (simp_all add: get_at_def)
    have p: "resolve_parts (resolve n ix ?tb') g trait_pair = None" for g
      using Suc by (simp add: resolve_parts_def trait_pair_def)
    show ?case unfolding resolve.simps(2) s s0 using i p by simp
  qed simp
  with t u show ?thesis by blast
qed

section \<open>Witnesses\<close>

definition pair_table :: table where
  "pair_table = \<lparr>it_parent = [0, 1], it_rank = [0, 0], it_binding = [None, None],
     it_kind = [General, General], it_trail = []\<rparr>"

lemma inferred_pair: "inferred pair_table"
proof -
  let ?tb = "\<lparr>it_parent = [0], it_rank = [0], it_binding = [None], it_kind = [General], it_trail = []\<rparr>"
  have "fresh empty_table General = Some (Infer 0, ?tb)" "fresh ?tb General = Some (Infer 1, pair_table)"
    by (simp_all add: fresh_def empty_table_def pair_table_def)
  then show ?thesis using inferred.fresh [OF inferred.fresh [OF inferred.empty]] by blast
qed

lemma pair_fits: "fits_in pair_table (Infer 0)" "fits_in pair_table (OptionTy (Infer 1))"
  by (auto simp: fits_in_def pair_table_def)

definition pair_solved :: table where
  "pair_solved = \<lparr>it_parent = [0, 1], it_rank = [0, 0], it_binding = [Some (OptionTy (Infer 1)), None],
     it_kind = [General, General], it_trail = [UndoBind 0]\<rparr>"

lemma pair_unify: "unify 3 (\<lambda>_. 0) pair_table (Infer 0) (OptionTy (Infer 1)) = Some (pair_solved, None)"
  by code_simp

theorem unify_makes_agree_witness:
  "\<exists>m a' b'. resolve m (\<lambda>_. 0) pair_solved (Infer 0) = Some a' \<and>
     resolve m (\<lambda>_. 0) pair_solved (OptionTy (Infer 1)) = Some b' \<and> agree a' b'"
  by (rule unify_makes_agree [OF inferred_pair pair_fits pair_unify])

theorem unify_returns_witness:
  "\<exists>n r. unify n (\<lambda>_. 0) pair_table (Infer 0) (OptionTy (Infer 1)) = Some r"
  using unify_returns [OF inferred_pair pair_fits, of "\<lambda>_. 0"] by blast

lemma pair_resolve: "resolve 2 (\<lambda>_. 0) pair_table (Infer 0) = Some (Infer 0)"
  by code_simp

theorem unify_keeps_agreement_witness:
  "\<exists>m x''. resolve m (\<lambda>_. 0) pair_solved (Infer 0) = Some x''"
  using unify_keeps_agreement [OF inferred_pair pair_fits(1,1) pair_fits pair_resolve pair_resolve agree.refl pair_unify]
  by blast

lemma resolve_complete_witness:
  "\<exists>m u. resolve m (\<lambda>_. 0) pair_table (OptionTy (Infer 1)) = Some u"
  using resolve_complete [OF inferred_pair pair_fits(2), of "\<lambda>_. 0"] by blast

end
