(* ===== verification/TyOps.thy ===== *)
theory TyOps
  imports Unify
begin

text \<open>
  \<^verbatim>\<open>crates/hd_types/src/pool.rs\<close>, the substitution of declared parameters, and its use for the members of
  a declared item (\<^verbatim>\<open>subst_owner\<close> of \<^verbatim>\<open>crates/hd_check/src/call.rs\<close>). The flag of the meta word cuts the
  recursion short: a type without a parameter is returned as it is.
\<close>

text \<open>The test at the entry of \<open>subst\<close>, and the interning at its end.\<close>

definition if_param :: "ty \<Rightarrow> ty \<Rightarrow> ty" where
  "if_param t u = (if has_param t then intern_ty u else t)"

definition row_arguments :: "(param_ref \<Rightarrow> ty option) \<Rightarrow> param_ref list \<Rightarrow> ty list \<times> param_ref list" where
  "row_arguments f params =
     (concat (map (\<lambda>p. case f p of Some t \<Rightarrow> [t] | None \<Rightarrow> []) params), filter (\<lambda>p. f p = None) params)"

fun subst :: "(ty \<Rightarrow> nat) \<Rightarrow> (param_ref \<Rightarrow> ty option) \<Rightarrow> ty \<Rightarrow> ty"
  and subst_row :: "(ty \<Rightarrow> nat) \<Rightarrow> (param_ref \<Rightarrow> ty option) \<Rightarrow> row \<Rightarrow> row" where
  "subst ix f (Param p) = (case f p of Some t \<Rightarrow> t | None \<Rightarrow> Param p)"
| "subst ix f (Opaque ow site borrows args bound) = if_param (Opaque ow site borrows args bound)
     (Opaque ow site borrows (map (subst ix f) args) (subst ix f bound))"
| "subst ix f (Adt d args) = if_param (Adt d args) (Adt d (map (subst ix f) args))"
| "subst ix f (Tuple elems rest) = if_param (Tuple elems rest)
     (Tuple (map (subst ix f) elems) (map_option (subst ix f) rest))"
| "subst ix f (Union members) = if_param (Union members) (Union (map (subst ix f) members))"
| "subst ix f (OptionTy i) = if_param (OptionTy i) (OptionTy (subst ix f i))"
| "subst ix f (Mut i) = if_param (Mut i) (Mut (subst ix f i))"
| "subst ix f (RefTy i m c) = if_param (RefTy i m c) (RefTy (subst ix f i) m c)"
| "subst ix f (Fn params result row suspends ins deps) = if_param (Fn params result row suspends ins deps)
     (Fn (map (subst ix f) params) (subst ix f result) (subst_row ix f row) suspends ins deps)"
| "subst ix f (RowTy r) = if_param (RowTy r) (RowTy (subst_row ix f r))"
| "subst ix f (Context r) = if_param (Context r) (Context (subst_row ix f r))"
| "subst ix f (TraitValue d args bindings) = if_param (TraitValue d args bindings)
     (TraitValue d (map (subst ix f) args) (map (\<lambda>b. (fst b, subst ix f (snd b))) bindings))"
| "subst ix f (Assoc a tr self args) = if_param (Assoc a tr self args)
     (Assoc a tr (subst ix f self) (map (subst ix f) args))"
| "subst ix f t = t"
| "subst_row ix f (Row keys params) =
     (if row_meta (Row keys params) AND HAS_PARAM = 0 then Row keys params
      else intern_row ix (map (subst ix f) keys @ fst (row_arguments f params)) (snd (row_arguments f params)))"

text \<open>The parameters of \<open>owner\<close> become its arguments.\<close>

definition subst_owner :: "(ty \<Rightarrow> nat) \<Rightarrow> def_id \<Rightarrow> ty list \<Rightarrow> ty \<Rightarrow> ty" where
  "subst_owner ix owner args t =
     subst ix (\<lambda>p. if pr_owner p = owner then get_at args (unat (pr_index p)) else None) t"

lemma no_param_row: "row_meta r AND HAS_PARAM = 0 \<Longrightarrow> subst_row ix f r = r"
  by (cases r) simp

lemma no_param: "\<not> has_param t \<Longrightarrow> subst ix f t = t"
  by (cases t) (simp_all add: if_param_def has_param_def flag_words)

end
