(* ===== verification/Patterns.thy ===== *)
theory Patterns
  imports TyOps
begin

text \<open>
  \<^verbatim>\<open>crates/hd_check/src/pat.rs\<close>, what the exhaustiveness test reads: the constructors of a type and the
  patterns of the arms. A pattern node is data as its accessors read it (the text of a literal is its value,
  when it has one), a declared item is its fields or its variants. Types are read through the inference
  table, whose lookups take the fuel of the environment; \<open>None\<close> is used-up fuel or a panic.
\<close>

section \<open>Constructors\<close>

datatype (plugins only: code size) item_data =
    DataItem "(string \<times> ty) list"
  | EnumItem "(string \<times> (string \<times> ty) list) list"
  | OtherItem

record type_env =
  te_fuel :: nat
  te_ix :: "ty \<Rightarrow> nat"
  te_table :: table
  te_items :: "def_id \<Rightarrow> item_data option"

primrec strip_by :: "nat \<Rightarrow> (ty \<Rightarrow> ty option) \<Rightarrow> ty \<Rightarrow> ty option" where
  "strip_by 0 r t = None"
| "strip_by (Suc n) r t = Option.bind (r t) (\<lambda>u.
     (case u of Mut i \<Rightarrow> strip_by n r i | RefTy i m c \<Rightarrow> strip_by n r i | _ \<Rightarrow> Some u))"

definition strip :: "type_env \<Rightarrow> ty \<Rightarrow> ty option" where
  "strip env = strip_by (te_fuel env) (resolve (te_fuel env) (te_ix env) (te_table env))"

definition int_range_of :: "ty \<Rightarrow> (int \<times> int) option" where
  "int_range_of t =
     (case t of
        Prim p \<Rightarrow> (case p of
            I8 \<Rightarrow> Some (- (2 ^ 7), 2 ^ 7 - 1) | I16 \<Rightarrow> Some (- (2 ^ 15), 2 ^ 15 - 1)
          | I32 \<Rightarrow> Some (- (2 ^ 31), 2 ^ 31 - 1) | I64 \<Rightarrow> Some (- (2 ^ 63), 2 ^ 63 - 1)
          | U8 \<Rightarrow> Some (0, 2 ^ 8 - 1) | U16 \<Rightarrow> Some (0, 2 ^ 16 - 1)
          | U32 \<Rightarrow> Some (0, 2 ^ 32 - 1) | Usize \<Rightarrow> Some (0, 2 ^ 32 - 1)
          | U64 \<Rightarrow> Some (0, 2 ^ 64 - 1)
          | _ \<Rightarrow> None)
      | _ \<Rightarrow> None)"

definition int_range :: "type_env \<Rightarrow> ty \<Rightarrow> (int \<times> int) option option" where
  "int_range env t = map_option int_range_of (strip env t)"

definition members_of :: "ty \<Rightarrow> ty list" where
  "members_of t = (case t of Tuple elems rest \<Rightarrow> elems @ (case rest of None \<Rightarrow> [] | Some r \<Rightarrow> [r]) | _ \<Rightarrow> [])"

definition tuple_members :: "type_env \<Rightarrow> ty \<Rightarrow> ty list option" where
  "tuple_members env t = map_option members_of (strip env t)"

fun decimal :: "nat \<Rightarrow> string" where
  "decimal n = (if n < 10 then [char_of (48 + n)] else decimal (n div 10) @ [char_of (48 + n mod 10)])"

declare decimal.simps [simp del]

definition union_name :: "nat \<Rightarrow> string" where
  "union_name i = CHR ''_'' # decimal i"

definition field_types :: "type_env \<Rightarrow> def_id \<Rightarrow> ty list \<Rightarrow> (string \<times> ty) list \<Rightarrow> ty list" where
  "field_types env d args fs = map (\<lambda>f. subst_owner (te_ix env) d args (snd f)) fs"

definition ctors :: "type_env \<Rightarrow> ty \<Rightarrow> (string \<times> ty list) list option option" where
  "ctors env t = Option.bind (strip env t) (\<lambda>st.
     (case st of
        Prim p \<Rightarrow> Some (if p = PrimBool then Some [(''true'', []), (''false'', [])] else None)
      | Tuple elems rest \<Rightarrow> map_option (\<lambda>ms. Some [(''()'', ms)]) (tuple_members env st)
      | OptionTy i \<Rightarrow> Some (Some [(''None'', []), (''Some'', [i])])
      | Union ms \<Rightarrow> Some (Some (map (\<lambda>i. (union_name i, [ms ! i])) [0..<length ms]))
      | Adt d args \<Rightarrow> Some (case te_items env d of
          Some (EnumItem vs) \<Rightarrow> Some (map (\<lambda>v. (fst v, field_types env d args (snd v))) vs)
        | Some (DataItem fs) \<Rightarrow> Some [(''{}'', field_types env d args fs)]
        | _ \<Rightarrow> None)
      | _ \<Rightarrow> Some None))"

definition ctor_fields :: "type_env \<Rightarrow> ty \<Rightarrow> string \<Rightarrow> ty list option option" where
  "ctor_fields env t c = Option.bind (strip env t) (\<lambda>st.
     let listed = map_option (\<lambda>cs. Option.bind cs (\<lambda>cs. map_of cs c)) (ctors env t) in
     (case st of
        Adt d args \<Rightarrow> (case te_items env d of
            None \<Rightarrow> Some None
          | Some (EnumItem vs) \<Rightarrow> Some (map_option (field_types env d args) (map_of vs c))
          | _ \<Rightarrow> listed)
      | _ \<Rightarrow> listed))"

section \<open>Patterns\<close>

datatype (plugins only: code size) pat =
    PWild
  | PCtor string "pat list"
  | PInt int int
  | PStr str
  | PFlt u64
  | PLit

text \<open>
  A literal by its first tokens: its value as a pattern bound after a \<open>-\<close> or not, its bits as a float, the
  value of a character, the cooked text of a string; \<open>None\<close> where it has none.
\<close>

datatype (plugins only: code size) literal =
    LitTrue
  | LitFalse
  | LitChar "u32 option"
  | LitNumber bool "int option" "u64 option"
  | LitString "str option"
  | LitOther

record range_bounds =
  rb_lo :: "int option option"
  rb_hi :: "int option option"
  rb_inclusive :: bool

datatype (plugins only: code size) pnode =
    WildcardPattern
  | BindingPattern
  | SpreadPattern
  | LiteralPattern literal
  | RangePattern range_bounds
  | TuplePattern "pnode list"
  | VariantPattern string "parg list option"
  | DataPattern "(string \<times> pnode option) list"
  | OtherPattern
and parg = PosArg pnode | NamedArg string pnode | SpreadArg

text \<open>The variant \<open>name\<close> of an enum type, with its index and its field types.\<close>

definition variant_fields :: "type_env \<Rightarrow> ty \<Rightarrow> string \<Rightarrow> (nat \<times> ty list) option option" where
  "variant_fields env t name = Option.bind (shallow (te_fuel env) (te_table env) t) (\<lambda>u.
     Some (case (case u of Mut i \<Rightarrow> i | _ \<Rightarrow> u) of
        OptionTy i \<Rightarrow> if name = ''None'' then Some (0, []) else if name = ''Some'' then Some (1, [i]) else None
      | Adt d args \<Rightarrow> (case te_items env d of
          Some (EnumItem vs) \<Rightarrow> map_option (\<lambda>i. (i, field_types env d args (snd (vs ! i))))
            (List.find (\<lambda>i. fst (vs ! i) = name) [0..<length vs])
        | _ \<Rightarrow> None)
      | Union ms \<Rightarrow> map_option (\<lambda>i. (i, [ms ! i])) (List.find (\<lambda>i. union_name i = name) [0..<length ms])
      | _ \<Rightarrow> None))"

text \<open>
  The sub-patterns of a variant pattern by field position. Positional arguments come first, named ones go to
  the field they name, unless it has its pattern already; a rest is not supported and leaves no sub-pattern.
\<close>

definition is_named :: "parg \<Rightarrow> bool" where
  "is_named a = (case a of NamedArg n p \<Rightarrow> True | _ \<Rightarrow> False)"

definition arg_slot :: "(string \<times> ty) list \<Rightarrow> nat \<Rightarrow> nat \<Rightarrow> parg \<Rightarrow> (nat \<times> pnode) option" where
  "arg_slot fs positional i a =
     (case a of
        PosArg p \<Rightarrow> if i < positional then Some (i, p) else None
      | NamedArg n p \<Rightarrow> map_option (\<lambda>k. (k, p)) (List.find (\<lambda>k. fst (fs ! k) = n) [0..<length fs])
      | SpreadArg \<Rightarrow> None)"

primrec fill_args :: "(string \<times> ty) list \<Rightarrow> nat \<Rightarrow> nat \<Rightarrow> pnode option list \<Rightarrow> parg list \<Rightarrow> pnode option list" where
  "fill_args fs positional i out [] = out"
| "fill_args fs positional i out (a # as) =
     (case arg_slot fs positional i a of
        Some (k, p) \<Rightarrow> fill_args fs positional (Suc i) (if out ! k = None then out[k := Some p] else out) as
      | None \<Rightarrow> fill_args fs positional (Suc i) out as)"

definition named_subs :: "(string \<times> ty) list \<Rightarrow> parg list \<Rightarrow> pnode option list" where
  "named_subs fs as =
     (let positional = length (takeWhile (\<lambda>a. \<not> is_named a) as) in
      fill_args fs positional 0 (replicate (max (length fs) positional) None) as)"

definition positional_subs :: "parg list \<Rightarrow> pnode option list" where
  "positional_subs as = concat (map (\<lambda>a. case a of PosArg p \<Rightarrow> [Some p] | _ \<Rightarrow> []) as)"

definition enum_variant :: "type_env \<Rightarrow> ty \<Rightarrow> string \<Rightarrow> (string \<times> ty) list option" where
  "enum_variant env u name =
     (case (case u of Mut i \<Rightarrow> i | _ \<Rightarrow> u) of
        Adt d args \<Rightarrow> (case te_items env d of Some (EnumItem vs) \<Rightarrow> map_of vs name | _ \<Rightarrow> None)
      | _ \<Rightarrow> None)"

definition variant_subs :: "type_env \<Rightarrow> ty \<Rightarrow> string \<Rightarrow> parg list option \<Rightarrow> pnode option list option" where
  "variant_subs env t name args =
     (case args of
        None \<Rightarrow> Some []
      | Some as \<Rightarrow>
          if SpreadArg \<in> set as then Some []
          else if \<not> list_ex is_named as then Some (positional_subs as)
          else map_option (\<lambda>u. case enum_variant env u name of None \<Rightarrow> [] | Some fs \<Rightarrow> named_subs fs as)
                 (resolve (te_fuel env) (te_ix env) (te_table env) t))"

definition literal_p :: "type_env \<Rightarrow> literal \<Rightarrow> ty \<Rightarrow> pat option" where
  "literal_p env l t =
     (case l of
        LitTrue \<Rightarrow> Some (PCtor ''true'' [])
      | LitFalse \<Rightarrow> Some (PCtor ''false'' [])
      | LitChar v \<Rightarrow> map_option (\<lambda>st.
          case v of Some c \<Rightarrow> if st = Prim PrimChar then PInt (uint c) (uint c) else PLit | None \<Rightarrow> PLit) (strip env t)
      | LitNumber neg v flt \<Rightarrow> map_option (\<lambda>st.
          if int_range_of st \<noteq> None then (case v of Some v \<Rightarrow> PInt v v | None \<Rightarrow> PLit)
          else if \<not> neg \<and> st \<in> {Prim F32, Prim F64} then (case flt of Some b \<Rightarrow> PFlt b | None \<Rightarrow> PLit)
          else PLit) (strip env t)
      | LitString v \<Rightarrow> map_option (\<lambda>st.
          case v of Some s \<Rightarrow> if st = Prim PrimString then PStr s else PLit | None \<Rightarrow> PLit) (strip env t)
      | LitOther \<Rightarrow> Some PLit)"

definition range_p :: "type_env \<Rightarrow> range_bounds \<Rightarrow> ty \<Rightarrow> pat option" where
  "range_p env b t = map_option (\<lambda>range.
     (case range of
        None \<Rightarrow> PLit
      | Some (least, greatest) \<Rightarrow>
          (case (case rb_lo b of None \<Rightarrow> Some least | Some v \<Rightarrow> v,
                 case rb_hi b of None \<Rightarrow> Some greatest
                 | Some v \<Rightarrow> map_option (\<lambda>v. if rb_inclusive b then v else v - 1) v) of
             (Some lo, Some hi) \<Rightarrow> PInt lo hi
           | _ \<Rightarrow> PLit))) (int_range env t)"

lemma fill_args_from: "Some x \<in> set (fill_args fs positional i out as) \<Longrightarrow>
    Some x \<in> set out \<or> (\<exists>a\<in>set as. a = PosArg x \<or> (\<exists>n. a = NamedArg n x))"
proof (induction as arbitrary: i out)
  case Nil
  then show ?case by simp
next
  case (Cons a as)
  show ?case
  proof (cases "arg_slot fs positional i a")
    case None
    then show ?thesis using Cons by fastforce
  next
    case (Some kp)
    obtain k p where kp: "kp = (k, p)" by force
    have "a = PosArg p \<or> (\<exists>n. a = NamedArg n p)"
      using Some kp by (auto simp: arg_slot_def split: parg.splits if_splits)
    moreover have "Some x \<in> set (if out ! k = None then out[k := Some p] else out) \<Longrightarrow> x = p \<or> Some x \<in> set out"
      by (auto split: if_splits dest!: subsetD [OF set_update_subset_insert])
    ultimately show ?thesis
      using Cons.IH [of "Suc i" "if out ! k = None then out[k := Some p] else out"] Cons.prems Some kp by auto
  qed
qed

lemma variant_subs_from:
  assumes "variant_subs env t name args = Some subs" "Some x \<in> set subs"
  shows "\<exists>as a. args = Some as \<and> a \<in> set as \<and> (a = PosArg x \<or> (\<exists>n. a = NamedArg n x))"
proof -
  obtain as where as: "args = Some as" using assms by (cases args) (auto simp: variant_subs_def)
  consider "subs = []" | "subs = positional_subs as" | fs where "subs = named_subs fs as"
    using assms(1) by (auto simp: variant_subs_def as split: if_splits option.splits)
  then show ?thesis
  proof cases
    case 1
    then show ?thesis using assms(2) by simp
  next
    case 2
    then show ?thesis using assms(2) as by (auto simp: positional_subs_def split: parg.splits)
  next
    case 3
    then show ?thesis using fill_args_from assms(2) as by (fastforce simp: named_subs_def Let_def)
  qed
qed

lemma map_opt_cong [fundef_cong]:
  "xs = ys \<Longrightarrow> (\<And>x. x \<in> set ys \<Longrightarrow> f x = g x) \<Longrightarrow> map_opt f xs = map_opt g ys"
  by (induction ys arbitrary: xs) auto

definition or_poison :: "ty list \<Rightarrow> nat \<Rightarrow> ty" where
  "or_poison ts i = (if i < length ts then ts ! i else Poison)"

definition field_index :: "(string \<times> ty) list \<Rightarrow> string \<Rightarrow> nat option" where
  "field_index fs name = List.find (\<lambda>k. fst (fs ! k) = name) [0..<length fs]"

text \<open>\<open>to_p\<close>; the patterns a data pattern leaves out, and a missing sub-pattern, match anything.\<close>

function to_p :: "type_env \<Rightarrow> pnode \<Rightarrow> ty \<Rightarrow> pat option" where
  "to_p env WildcardPattern t = Some PWild"
| "to_p env BindingPattern t = Some PWild"
| "to_p env SpreadPattern t = Some PWild"
| "to_p env (LiteralPattern l) t = literal_p env l t"
| "to_p env (RangePattern b) t = range_p env b t"
| "to_p env (TuplePattern ps) t =
     (if ps = [] then Some PWild
      else Option.bind (tuple_members env t) (\<lambda>ms.
        map_option (PCtor ''()'')
          (map_opt (\<lambda>x. to_p env (fst x) (or_poison ms (snd x))) (zip ps [0..<length ps]))))"
| "to_p env (VariantPattern name args) t =
     Option.bind (strip env t) (\<lambda>st. Option.bind (variant_fields env st name) (\<lambda>vf.
       Option.bind (variant_subs env st name args) (\<lambda>subs.
         let fts = (case vf of None \<Rightarrow> [] | Some (i, fts) \<Rightarrow> fts) in
         map_option (PCtor name)
           (map_opt (\<lambda>k. case get_at subs k of Some (Some p) \<Rightarrow> to_p env p (fts ! k) | _ \<Rightarrow> Some PWild)
              [0..<length fts]))))"
| "to_p env (DataPattern fps) t =
     Option.bind (ctors env t) (\<lambda>cs.
       (case cs of
          None \<Rightarrow> Some PLit
        | Some [] \<Rightarrow> Some PWild
        | Some (c # _) \<Rightarrow> Option.bind (strip env t) (\<lambda>st.
            (case st of
               Adt d args \<Rightarrow> (case te_items env d of
                 Some (DataItem fs) \<Rightarrow>
                   map_option (\<lambda>ups. PCtor ''{}''
                       (foldl (\<lambda>a u. a[fst u := snd u]) (replicate (length fs) PWild) (concat ups)))
                     (map_opt (\<lambda>f.
                        (case field_index fs (fst f) of
                           None \<Rightarrow> Some []
                         | Some k \<Rightarrow> map_option (\<lambda>p. [(k, p)])
                             (case snd f of None \<Rightarrow> Some PWild | Some p \<Rightarrow> to_p env p (or_poison (snd c) k)))) fps)
               | _ \<Rightarrow> Some PLit)
             | _ \<Rightarrow> Some PLit))))"
| "to_p env OtherPattern t = Some PLit"
  by pat_completeness auto

lemma sub_pattern_size:
  assumes "variant_subs env t name args = Some subs" "k < length subs \<and> Some p = subs ! k"
  shows "size p < size (VariantPattern name args)"
proof -
  have "Some p \<in> set subs" using assms(2) by (metis nth_mem)
  then obtain as a where a: "args = Some as" "a \<in> set as" "a = PosArg p \<or> (\<exists>n. a = NamedArg n p)"
    using variant_subs_from [OF assms(1)] by blast
  have "size a \<le> size_list size as" using a(2) by (metis size_list_estimation' order.refl)
  moreover have "size p < size a" using a(3) by auto
  ultimately show ?thesis using a(1) by simp
qed

lemma data_pattern_size: "f \<in> set fps \<Longrightarrow> snd f = Some p \<Longrightarrow> size p < size (DataPattern fps)"
  by (induction fps) (auto split: prod.splits)

lemma tuple_pattern_size: "x \<in> set (zip ps is) \<Longrightarrow> size (fst x) < size (TuplePattern ps)"
  by (cases x) (auto dest!: set_zip_leftD intro: size_list_estimation' le_imp_less_Suc)

termination to_p
  by (relation "measure (\<lambda>(env, p, t). size p)")
    (auto intro: sub_pattern_size data_pattern_size tuple_pattern_size simp del: pnode.size split: prod.splits)

end
