(* ===== verification/Usefulness.thy ===== *)
theory Usefulness
  imports Patterns
begin

text \<open>
  \<^verbatim>\<open>crates/hd_check/src/pat.rs\<close>: Maranget's usefulness test, and the two checks of a \<^verbatim>\<open>match\<close> that ask it.
  A matrix is a list of rows; a row without the column it is asked for is a panic (\<open>None\<close>), as is a bound of
  an integer pattern past \<open>i128\<close>. The code counts the depth of the recursion up to 64; here \<open>useful\<close> counts
  down, from 65 at the top.
\<close>

section \<open>The matrix\<close>

definition tail :: "'a list \<Rightarrow> 'a list option" where
  "tail xs = (case xs of [] \<Rightarrow> None | x # xs \<Rightarrow> Some xs)"

definition head :: "'a list \<Rightarrow> 'a option" where
  "head xs = (case xs of [] \<Rightarrow> None | x # xs \<Rightarrow> Some x)"

text \<open>\<open>filter_map\<close> with a function that may panic.\<close>

definition kept :: "('a \<Rightarrow> 'b option option) \<Rightarrow> 'a list \<Rightarrow> 'b list option" where
  "kept f xs = map_option (\<lambda>ys. concat (map (\<lambda>y. case y of None \<Rightarrow> [] | Some x \<Rightarrow> [x]) ys)) (map_opt f xs)"

text \<open>\<open>Vec::resize\<close> with wildcards.\<close>

definition resized :: "nat \<Rightarrow> pat list \<Rightarrow> pat list" where
  "resized n ps = take n ps @ replicate (n - length ps) PWild"

definition spec_row :: "string \<Rightarrow> nat \<Rightarrow> pat list \<Rightarrow> pat list option option" where
  "spec_row c arity r = map_option (\<lambda>p.
     (case p of
        PCtor d args \<Rightarrow> if d = c then Some (resized arity args @ tl r) else None
      | PWild \<Rightarrow> Some (replicate arity PWild @ tl r)
      | _ \<Rightarrow> None)) (head r)"

definition default_row :: "pat list \<Rightarrow> pat list option option" where
  "default_row r = map_option (\<lambda>p. if p = PWild then Some (tl r) else None) (head r)"

definition int_row :: "int \<Rightarrow> int \<Rightarrow> pat list \<Rightarrow> pat list option option" where
  "int_row s e r = map_option (\<lambda>p.
     (case p of
        PWild \<Rightarrow> Some (tl r)
      | PInt l h \<Rightarrow> if l \<le> s \<and> e \<le> h then Some (tl r) else None
      | _ \<Rightarrow> None)) (head r)"

fun is_int_pat :: "pat \<Rightarrow> bool" where
  "is_int_pat (PInt l h) = True"
| "is_int_pat p = False"

fun ctor_name :: "pat \<Rightarrow> string option" where
  "ctor_name (PCtor c args) = Some c"
| "ctor_name p = None"

definition rows_of :: "string \<Rightarrow> pat list \<Rightarrow> nat list" where
  "rows_of c heads = filter (\<lambda>i. ctor_name (heads ! i) = Some c) [0..<length heads]"

definition wild_rows :: "pat list \<Rightarrow> nat list" where
  "wild_rows heads = filter (\<lambda>i. heads ! i = PWild) [0..<length heads]"

definition head_rows :: "pat list list \<Rightarrow> nat list \<Rightarrow> nat list \<Rightarrow> pat list list option" where
  "head_rows m named wild = map_opt (get_at m) (sort (named @ wild))"

section \<open>Integer columns\<close>

definition bounds_in :: "int \<Rightarrow> int \<Rightarrow> pat list \<Rightarrow> int list option" where
  "bounds_in lo hi r = Option.bind (head r) (\<lambda>p.
     (case p of
        PInt l h \<Rightarrow> if l \<le> h then map_option (\<lambda>h'. filter (\<lambda>c. lo < c \<and> c \<le> hi) [l, h']) (i128_of (h + 1)) else Some []
      | _ \<Rightarrow> Some []))"

definition segments :: "int list \<Rightarrow> int \<Rightarrow> (int \<times> int) list" where
  "segments starts hi = zip starts (map (\<lambda>n. n - 1) (tl starts) @ [hi])"

type_synonym usefulness = "pat list list \<Rightarrow> pat list \<Rightarrow> ty list \<Rightarrow> bool option"

definition useful_int :: "usefulness \<Rightarrow> pat list list \<Rightarrow> pat list \<Rightarrow> ty list \<Rightarrow> int \<Rightarrow> int \<Rightarrow> bool option" where
  "useful_int rec m q tys lo hi =
     (if hi < lo then Some False
      else Option.bind (map_opt (bounds_in lo hi) m) (\<lambda>bs.
        any_opt (\<lambda>se. Option.bind (kept (int_row (fst se) (snd se)) m) (\<lambda>rows.
                   Option.bind (tail tys) (rec rows (tl q))))
          (segments (remdups_adj (sort (lo # concat bs))) hi)))"

section \<open>Usefulness\<close>

definition useful_ctor :: "usefulness \<Rightarrow> pat list list \<Rightarrow> pat list \<Rightarrow> ty list \<Rightarrow> string \<Rightarrow> ty list \<Rightarrow> pat list \<Rightarrow> bool option" where
  "useful_ctor rec m q tys c fts args = Option.bind (tail tys) (\<lambda>ts.
     Option.bind (kept (spec_row c (length fts)) m) (\<lambda>m'. rec m' (args @ tl q) (fts @ ts)))"

definition useful_wild :: "type_env \<Rightarrow> usefulness \<Rightarrow> pat list list \<Rightarrow> pat list \<Rightarrow> ty list \<Rightarrow> ty \<Rightarrow> bool option" where
  "useful_wild env rec m q tys t = Option.bind (ctors env t) (\<lambda>cs. Option.bind (map_opt head m) (\<lambda>heads.
     (case cs of
        Some cs \<Rightarrow>
          if cs \<noteq> [] \<and> (\<forall>c\<in>set cs. rows_of (fst c) heads \<noteq> []) then
            any_opt (\<lambda>c. Option.bind (head_rows m (rows_of (fst c) heads) (wild_rows heads)) (\<lambda>rows.
              useful_ctor rec rows q tys (fst c) (snd c) (replicate (length (snd c)) PWild))) cs
          else Option.bind (kept default_row m) (\<lambda>d. Option.bind (tail tys) (rec d (tl q)))
      | None \<Rightarrow> Option.bind (kept default_row m) (\<lambda>d. Option.bind (tail tys) (rec d (tl q))))))"

definition text_seen :: "pat \<Rightarrow> pat list list \<Rightarrow> bool option" where
  "text_seen p m = any_opt (\<lambda>r. map_option (\<lambda>h. h = PWild \<or> h = p) (head r)) m"

text \<open>The question \<open>q\<close> with the head \<open>p\<close>, in a column of type \<open>t\<close> that has an integer pattern or not.\<close>

definition useful_head :: "type_env \<Rightarrow> usefulness \<Rightarrow> pat list list \<Rightarrow> pat list \<Rightarrow> ty list \<Rightarrow> ty \<Rightarrow> bool \<Rightarrow> pat \<Rightarrow> bool option" where
  "useful_head env rec m q tys t ints p =
     (case p of
        PInt lo hi \<Rightarrow> useful_int rec m q tys lo hi
      | PStr s \<Rightarrow> map_option Not (text_seen p m)
      | PFlt b \<Rightarrow> map_option Not (text_seen p m)
      | PCtor c args \<Rightarrow> Option.bind (ctor_fields env t c) (\<lambda>fts.
          let fts = (case fts of Some fts \<Rightarrow> fts | None \<Rightarrow> replicate (length args) Poison) in
          useful_ctor rec m q tys c fts (resized (length fts) args))
      | PLit \<Rightarrow> Some True
      | PWild \<Rightarrow> Option.bind (if ints then int_range env t else Some None) (\<lambda>range.
          (case range of
             Some (lo, hi) \<Rightarrow> useful_int rec m q tys lo hi
           | None \<Rightarrow> useful_wild env rec m q tys t)))"

definition useful_step :: "type_env \<Rightarrow> usefulness \<Rightarrow> usefulness" where
  "useful_step env rec m q tys =
     (case q of
        [] \<Rightarrow> Some (m = [])
      | p # _ \<Rightarrow> Option.bind (any_opt (\<lambda>r. map_option is_int_pat (head r)) m) (\<lambda>ints.
          useful_head env rec m q tys (or_poison tys 0) ints p))"

primrec useful :: "nat \<Rightarrow> type_env \<Rightarrow> usefulness" where
  "useful 0 env = (\<lambda>m q tys. Some False)"
| "useful (Suc n) env = useful_step env (useful n env)"

text \<open>The call at depth 0.\<close>

definition useful_top :: "type_env \<Rightarrow> pat list list \<Rightarrow> pat \<Rightarrow> ty \<Rightarrow> bool option" where
  "useful_top env m p t = useful 65 env m [p] [t]"

section \<open>The checks of a match\<close>

record arm =
  ar_pat :: "pnode option"
  ar_guarded :: bool
  ar_rejected :: bool

definition arm_p :: "type_env \<Rightarrow> pnode option \<Rightarrow> ty \<Rightarrow> pat option" where
  "arm_p env p t = (case p of None \<Rightarrow> Some PWild | Some p \<Rightarrow> to_p env p t)"

definition refutable :: "type_env \<Rightarrow> pnode \<Rightarrow> ty \<Rightarrow> bool option" where
  "refutable env p t = Option.bind (to_p env p t) (\<lambda>p. useful_top env [[p]] PWild t)"

definition node_bounds :: "pnode \<Rightarrow> int list" where
  "node_bounds p =
     (case p of
        RangePattern b \<Rightarrow> concat (map (\<lambda>x. case x of Some (Some v) \<Rightarrow> [v] | _ \<Rightarrow> []) [rb_lo b, rb_hi b])
      | LiteralPattern (LitNumber neg v flt) \<Rightarrow> (case v of Some v \<Rightarrow> [v] | None \<Rightarrow> [])
      | _ \<Rightarrow> [])"

definition bound_outside :: "type_env \<Rightarrow> pnode \<Rightarrow> ty \<Rightarrow> bool option" where
  "bound_outside env p t = map_option (\<lambda>range.
     (case range of
        None \<Rightarrow> False
      | Some (least, greatest) \<Rightarrow> list_ex (\<lambda>v. v < least \<or> greatest < v) (node_bounds p))) (int_range env t)"

text \<open>Whether \<open>match\<close> is reported as not exhaustive, with the constructors no arm covers.\<close>

definition check_exhaustive :: "type_env \<Rightarrow> arm list \<Rightarrow> ty \<Rightarrow> string list option option" where
  "check_exhaustive env arms t =
     Option.bind (map_opt (\<lambda>a. map_option (\<lambda>p. [p]) (if ar_rejected a then Some PWild else arm_p env (ar_pat a) t))
       (filter (\<lambda>a. \<not> ar_guarded a) arms)) (\<lambda>m.
     Option.bind (useful_top env m PWild t) (\<lambda>u.
       if \<not> u then Some None
       else Option.bind (ctors env t) (\<lambda>cs.
         (case cs of
            None \<Rightarrow> Some (Some [''_''])
          | Some cs \<Rightarrow> map_option (\<lambda>names. Some (concat names)) (map_opt (\<lambda>c.
              map_option (\<lambda>u. if u then [fst c] else [])
                (useful_top env m (PCtor (fst c) (replicate (length (snd c)) PWild)) t)) cs)))))"

text \<open>The arms reported as unreachable, by position, from the patterns of the unguarded arms earlier.\<close>

definition arm_useful :: "type_env \<Rightarrow> pat list list \<Rightarrow> pat \<Rightarrow> ty \<Rightarrow> bool option" where
  "arm_useful env earlier p t =
     (case p of
        PCtor c args \<Rightarrow> Option.bind (map_opt head earlier) (\<lambda>heads.
          Option.bind (head_rows earlier (rows_of c heads) (wild_rows heads)) (\<lambda>m. useful_top env m p t))
      | _ \<Rightarrow> useful_top env earlier p t)"

primrec reachable_from :: "type_env \<Rightarrow> ty \<Rightarrow> nat \<Rightarrow> pat list list \<Rightarrow> arm list \<Rightarrow> nat list option" where
  "reachable_from env t i earlier [] = Some []"
| "reachable_from env t i earlier (a # as) =
     (if ar_rejected a then reachable_from env t (Suc i) earlier as
      else Option.bind (arm_p env (ar_pat a) t) (\<lambda>p. Option.bind (arm_useful env earlier p t) (\<lambda>u.
        Option.bind (if u then Some False else (case ar_pat a of None \<Rightarrow> Some False
                     | Some n \<Rightarrow> map_option Not (bound_outside env n t))) (\<lambda>report.
          map_option (\<lambda>is. if report then i # is else is)
            (reachable_from env t (Suc i) (if ar_guarded a then earlier else earlier @ [[p]]) as)))))"

definition check_reachable :: "type_env \<Rightarrow> arm list \<Rightarrow> ty \<Rightarrow> nat list option" where
  "check_reachable env arms t = reachable_from env t 0 [] arms"

end
