(* ===== verification/PatternValues.thy ===== *)
theory PatternValues
  imports Usefulness
begin

text \<open>
  What the usefulness test is about: the values of a type and the values a pattern matches. A value is read
  through its references; \<open>VOther\<close> stands for the values no pattern names. A literal the test does not read
  (\<open>PLit\<close>) matches nothing for certain. Then the matrix operations against their meaning on rows.
\<close>

datatype (plugins only: code size) pvalue =
    VInt int
  | VStr str
  | VFlt u64
  | VCtor string "pvalue list"
  | VOther

lemma zip_size: "x \<in> set (zip ps vs) \<Longrightarrow> size (fst x) < Suc (size_list size ps)"
  by (cases x) (auto dest!: set_zip_leftD intro: size_list_estimation' le_imp_less_Suc)

text \<open>A constructor pattern with fewer sub-patterns than the value has fields matches any rest, and a longer one is cut.\<close>

function matches :: "pat \<Rightarrow> pvalue \<Rightarrow> bool" where
  "matches PWild v = True"
| "matches (PInt lo hi) v = (\<exists>i. v = VInt i \<and> lo \<le> i \<and> i \<le> hi)"
| "matches (PStr s) v = (v = VStr s)"
| "matches (PFlt b) v = (v = VFlt b)"
| "matches PLit v = False"
| "matches (PCtor c ps) v =
     (case v of VCtor d vs \<Rightarrow> c = d \<and> list_all (\<lambda>x. matches (fst x) (snd x)) (zip ps vs) | _ \<Rightarrow> False)"
  by pat_completeness auto
termination matches
  by (relation "measure (\<lambda>(p, v). size p)") (auto dest: zip_size)

definition row_matches :: "pat list \<Rightarrow> pvalue list \<Rightarrow> bool" where
  "row_matches = list_all2 matches"

definition rows_cover :: "pat list list \<Rightarrow> pvalue list \<Rightarrow> bool" where
  "rows_cover m vs \<longleftrightarrow> (\<exists>r\<in>set m. row_matches r vs)"

text \<open>The values of a type: an integer in its range, a constructor on values of its fields, anything else for an open type.\<close>

inductive has_type :: "type_env \<Rightarrow> pvalue \<Rightarrow> ty \<Rightarrow> bool" for env where
  int: "int_range env t = Some (Some (lo, hi)) \<Longrightarrow> lo \<le> i \<Longrightarrow> i \<le> hi \<Longrightarrow> has_type env (VInt i) t"
| ctor: "ctor_fields env t c = Some (Some fts) \<Longrightarrow> list_all2 (has_type env) vs fts \<Longrightarrow> has_type env (VCtor c vs) t"
| other: "ctors env t = Some None \<Longrightarrow> int_range env t = Some None \<Longrightarrow> (\<forall>c vs. v \<noteq> VCtor c vs) \<Longrightarrow> has_type env v t"

text \<open>A pattern with the sub-patterns its constructor has fields for.\<close>

inductive pat_ok :: "type_env \<Rightarrow> pat \<Rightarrow> ty \<Rightarrow> bool" for env where
  leaf: "ctor_name p = None \<Longrightarrow> pat_ok env p t"
| ctor: "ctor_fields env t c = Some (Some fts) \<Longrightarrow> list_all2 (pat_ok env) args fts \<Longrightarrow> pat_ok env (PCtor c args) t"

inductive_cases pat_ok_ctor: "pat_ok env (PCtor c args) t"

section \<open>Constructors\<close>

lemma map_of_field_types:
  "map_of (map (\<lambda>v. (fst v, field_types env d args (snd v))) vs) c = map_option (field_types env d args) (map_of vs c)"
  by (induction vs) auto

lemma ctor_fields_some:
  assumes "ctors env t = Some (Some cs)"
  shows "ctor_fields env t c = Some (map_of cs c)"
proof -
  from assms obtain st where st: "strip env t = Some st" by (auto simp: ctors_def bind_eq_Some_conv)
  show ?thesis
    using assms by (cases st) (auto simp: ctor_fields_def st ctors_def map_of_field_types Let_def
      split: option.splits item_data.splits)
qed

lemma ctor_fields_none:
  assumes "ctors env t = Some None"
  shows "ctor_fields env t c = Some None"
proof -
  from assms obtain st where st: "strip env t = Some st" by (auto simp: ctors_def bind_eq_Some_conv)
  show ?thesis
    using assms by (cases st) (auto simp: ctor_fields_def st ctors_def Let_def split: option.splits item_data.splits)
qed

lemma int_range_open:
  assumes "int_range env t = Some (Some r)"
  shows "ctors env t = Some None"
proof -
  from assms obtain st where "strip env t = Some st" "int_range_of st = Some r"
    by (auto simp: int_range_def)
  then show ?thesis
    by (auto simp: ctors_def int_range_of_def split: ty.splits prim.splits)
qed

lemma has_type_int:
  assumes "has_type env v t" "int_range env t = Some (Some (lo, hi))"
  obtains i where "v = VInt i" "lo \<le> i" "i \<le> hi"
  using assms int_range_open [OF assms(2)] by (cases rule: has_type.cases) (auto simp: ctor_fields_none)

lemma has_type_ctors:
  assumes "has_type env v t" "ctors env t = Some (Some cs)"
  obtains c vs fts where "v = VCtor c vs" "map_of cs c = Some fts" "list_all2 (has_type env) vs fts"
  using assms by (cases rule: has_type.cases) (auto simp: ctor_fields_some dest: int_range_open)

section \<open>Rows\<close>

lemma kept_set: "kept f xs = Some ys \<Longrightarrow> set ys = {y. \<exists>x\<in>set xs. f x = Some (Some y)}"
  by (auto simp: kept_def map_opt_Some list_all2_conv_all_nth in_set_conv_nth split: option.splits)
    (metis nth_mem option.distinct(1) option.inject)+

lemma any_opt_Some: "any_opt f xs = Some False \<longleftrightarrow> (\<forall>x\<in>set xs. f x = Some False)"
  "any_opt f xs = Some True \<Longrightarrow> \<exists>x\<in>set xs. f x = Some True"
  by (induction xs) (auto simp: bind_eq_Some_conv split: if_splits)

lemma row_cons [simp]:
  "row_matches (p # r) (v # vs) \<longleftrightarrow> matches p v \<and> row_matches r vs"
  "row_matches [] vs \<longleftrightarrow> vs = []"
  "row_matches r [] \<longleftrightarrow> r = []"
  by (auto simp: row_matches_def)

lemma row_value: "row_matches r (v # vs) \<longleftrightarrow> (\<exists>p r'. r = p # r' \<and> matches p v \<and> row_matches r' vs)"
  by (cases r) auto

lemma row_append:
  "length ps = length vs \<Longrightarrow> row_matches (ps @ r) (vs @ ws) \<longleftrightarrow> row_matches ps vs \<and> row_matches r ws"
  by (simp add: row_matches_def list_all2_append)

lemma row_wild: "row_matches (replicate n PWild) vs \<longleftrightarrow> length vs = n"
  by (auto simp: row_matches_def list_all2_conv_all_nth)

lemma length_resized [simp]: "length (resized n ps) = n"
  by (simp add: resized_def)

lemma row_resized:
  "length vs = n \<Longrightarrow> row_matches (resized n ps) vs \<longleftrightarrow> list_all (\<lambda>x. matches (fst x) (snd x)) (zip ps vs)"
  by (auto simp: row_matches_def list_all2_conv_all_nth resized_def list_all_length nth_append)

lemma spec_row_matches:
  assumes "spec_row c (length vs) r = Some x"
  shows "row_matches r (VCtor c vs # ws) \<longleftrightarrow> (\<exists>r'. x = Some r' \<and> row_matches r' (vs @ ws))"
proof (cases r)
  case Nil
  then show ?thesis using assms by (simp add: spec_row_def head_def)
next
  case (Cons p ps)
  show ?thesis
    using assms unfolding Cons
    by (cases p) (auto simp: spec_row_def head_def row_append row_wild row_resized split: if_splits)
qed


text \<open>The rows a step keeps, by what they match.\<close>

lemma default_row_Some: "default_row r = Some (Some r') \<longleftrightarrow> r = PWild # r'"
  by (cases r) (auto simp: default_row_def head_def)

lemma int_row_Some:
  "int_row s e r = Some (Some r') \<longleftrightarrow> r = PWild # r' \<or> (\<exists>l h. r = PInt l h # r' \<and> l \<le> s \<and> e \<le> h)"
proof (cases r)
  case (Cons p ps)
  then show ?thesis by (cases p) (auto simp: int_row_def head_def)
qed (simp add: int_row_def head_def)

lemma covered_spec:
  assumes "kept (spec_row c (length vs)) m = Some m'"
  shows "rows_cover m' (vs @ ws) \<longleftrightarrow> rows_cover m (VCtor c vs # ws)"
proof -
  have rows: "\<exists>x. spec_row c (length vs) r = Some x" if "r \<in> set m" for r
    using assms that by (auto simp: kept_def map_opt_Some list_all2_conv_all_nth in_set_conv_nth)
  have "rows_cover m (VCtor c vs # ws) \<longleftrightarrow> (\<exists>r\<in>set m. \<exists>r'. spec_row c (length vs) r = Some (Some r') \<and> row_matches r' (vs @ ws))"
    using rows spec_row_matches unfolding rows_cover_def by (metis (no_types, lifting) option.inject)
  then show ?thesis by (auto simp: rows_cover_def kept_set [OF assms])
qed

lemma covered_default:
  assumes "kept default_row m = Some m'"
  shows "rows_cover m' vs \<Longrightarrow> rows_cover m (v # vs)"
    and "rows_cover m (v # vs) \<Longrightarrow> (\<And>p r. p # r \<in> set m \<Longrightarrow> p \<noteq> PWild \<Longrightarrow> \<not> matches p v) \<Longrightarrow> rows_cover m' vs"
proof -
  have rows: "(\<exists>r\<in>set m. default_row r = Some (Some r')) \<longleftrightarrow> PWild # r' \<in> set m" for r'
    by (auto simp: default_row_Some)
  show "rows_cover m (v # vs)" if "rows_cover m' vs"
    using that rows by (force simp: rows_cover_def kept_set [OF assms])
  show "rows_cover m' vs" if "rows_cover m (v # vs)" and "\<And>p r. p # r \<in> set m \<Longrightarrow> p \<noteq> PWild \<Longrightarrow> \<not> matches p v"
  proof -
    from that(1) obtain r where r: "r \<in> set m" "row_matches r (v # vs)" by (auto simp: rows_cover_def)
    then obtain p r' where pr: "r = p # r'" "matches p v" "row_matches r' vs" unfolding row_value by blast
    then have "p = PWild" using r that(2) by blast
    then show ?thesis using pr r rows by (auto simp: rows_cover_def kept_set [OF assms])
  qed
qed

lemma covered_int:
  assumes "kept (int_row s e) m = Some m'" "s \<le> i" "i \<le> e"
  shows "rows_cover m' vs \<Longrightarrow> rows_cover m (VInt i # vs)"
    and "rows_cover m (VInt i # vs) \<Longrightarrow>
      (\<And>l h r. PInt l h # r \<in> set m \<Longrightarrow> l \<le> i \<Longrightarrow> i \<le> h \<Longrightarrow> l \<le> s \<and> e \<le> h) \<Longrightarrow> rows_cover m' vs"
proof -
  have rows: "(\<exists>r\<in>set m. int_row s e r = Some (Some r')) \<longleftrightarrow>
      PWild # r' \<in> set m \<or> (\<exists>l h. PInt l h # r' \<in> set m \<and> l \<le> s \<and> e \<le> h)" for r'
    by (auto simp: int_row_Some)
  show "rows_cover m (VInt i # vs)" if "rows_cover m' vs"
    using that rows assms(2,3) by (force simp: rows_cover_def kept_set [OF assms(1)])
  show "rows_cover m' vs" if "rows_cover m (VInt i # vs)"
    and int: "\<And>l h r. PInt l h # r \<in> set m \<Longrightarrow> l \<le> i \<Longrightarrow> i \<le> h \<Longrightarrow> l \<le> s \<and> e \<le> h"
  proof -
    from that(1) obtain r where r: "r \<in> set m" "row_matches r (VInt i # vs)" by (auto simp: rows_cover_def)
    then obtain p r' where pr: "r = p # r'" "matches p (VInt i)" "row_matches r' vs" unfolding row_value by blast
    then have "p = PWild \<or> (\<exists>l h. p = PInt l h \<and> l \<le> i \<and> i \<le> h)" by (cases p) auto
    then have "PWild # r' \<in> set m \<or> (\<exists>l h. PInt l h # r' \<in> set m \<and> l \<le> s \<and> e \<le> h)"
      using r pr int by blast
    then show ?thesis using pr rows by (auto simp: rows_cover_def kept_set [OF assms(1)])
  qed
qed

end
