(* ===== verification/UsefulDepth.thy ===== *)
theory UsefulDepth
  imports PatternValues
begin

text \<open>
  How deep the usefulness test goes. The patterns of one column, over all rows, expand to one column per
  sub-pattern, for the constructor that has most of them; \<open>cost\<close> counts the columns one column becomes in
  this way, and \<open>width\<close> those of a matrix. Each call of the test takes a column off, so a matrix of width \<open>w\<close>
  ends at depth \<open>w\<close>.
\<close>

definition most :: "nat list \<Rightarrow> nat" where
  "most xs = foldr max xs 0"

lemma most_le: "most xs \<le> k \<longleftrightarrow> (\<forall>x\<in>set xs. x \<le> k)"
  by (induction xs) (auto simp: most_def)

lemma le_most: "x \<in> set xs \<Longrightarrow> x \<le> most xs"
  using most_le [of xs "most xs"] by blast

definition args_at :: "string \<Rightarrow> nat \<Rightarrow> pat list \<Rightarrow> pat list" where
  "args_at c i ps = concat (map (\<lambda>p. case p of
     PCtor d a \<Rightarrow> if d = c \<and> i < length a then [a ! i] else [] | _ \<Rightarrow> []) ps)"

definition arity_in :: "string \<Rightarrow> pat list \<Rightarrow> nat" where
  "arity_in c ps = most (map (\<lambda>p. case p of PCtor d a \<Rightarrow> if d = c then length a else 0 | _ \<Rightarrow> 0) ps)"

definition names_in :: "pat list \<Rightarrow> string list" where
  "names_in ps = concat (map (\<lambda>p. case ctor_name p of Some c \<Rightarrow> [c] | None \<Rightarrow> []) ps)"

lemma set_args_at: "set (args_at c i ps) = {a ! i | a. PCtor c a \<in> set ps \<and> i < length a}"
  by (force simp: args_at_def split: pat.splits if_splits)

lemma set_names_in: "set (names_in ps) = {c. \<exists>a. PCtor c a \<in> set ps}"
proof (induction ps)
  case (Cons p ps)
  then show ?case by (cases p) (auto simp: names_in_def)
qed (simp add: names_in_def)

lemma args_at_size:
  assumes "c \<in> set (names_in ps)"
  shows "size_list size (args_at c i ps) < size_list size ps"
proof -
  have le: "size_list size (args_at c i ps) \<le> size_list size ps" for ps
  proof (induction ps)
    case (Cons p ps)
    have "i < length a \<Longrightarrow> size (a ! i) \<le> size_list size a" for a :: "pat list"
      by (meson nth_mem order.refl size_list_estimation')
    then show ?case using Cons by (cases p) (force simp: args_at_def)+
  qed (simp add: args_at_def)
  show ?thesis
    using assms
  proof (induction ps)
    case (Cons p ps)
    show ?case
    proof (cases "\<exists>a. p = PCtor c a")
      case True
      then obtain a where p: "p = PCtor c a" by blast
      have "i < length a \<Longrightarrow> size (a ! i) \<le> size_list size a"
        by (meson nth_mem order.refl size_list_estimation')
      then show ?thesis using p le [of ps] by (force simp: args_at_def)
    next
      case False
      then have "c \<in> set (names_in ps)" using Cons.prems by (auto simp: set_names_in)
      moreover have "args_at c i (p # ps) = args_at c i ps"
        using False by (auto simp: args_at_def split: pat.splits)
      ultimately show ?thesis using Cons.IH by simp
    qed
  qed (simp add: names_in_def)
qed

function cost :: "pat list \<Rightarrow> nat" where
  "cost ps = Suc (most (map (\<lambda>c. sum_list (map (\<lambda>i. cost (args_at c i ps)) [0..<arity_in c ps])) (names_in ps)))"
  by pat_completeness auto
termination cost
  by (relation "measure (size_list size)") (auto simp: args_at_size)

declare cost.simps [simp del]

definition width :: "pat list list \<Rightarrow> nat \<Rightarrow> nat" where
  "width rs k = sum_list (map (\<lambda>j. cost (map (\<lambda>r. r ! j) rs)) [0..<k])"

lemma most_subset: "set xs \<subseteq> set ys \<Longrightarrow> most xs \<le> most ys"
  by (auto simp: most_le intro: le_most)

lemma arity_in_le: "PCtor c a \<in> set ps \<Longrightarrow> length a \<le> arity_in c ps"
  unfolding arity_in_def by (rule le_most) (auto intro!: image_eqI [of _ _ "PCtor c a"])

lemma arity_in_mono:
  "(\<And>a. PCtor c a \<in> set ps \<Longrightarrow> PCtor c a \<in> set qs) \<Longrightarrow> arity_in c ps \<le> arity_in c qs"
  using arity_in_le [of c _ qs] by (auto simp: arity_in_def [of c ps] most_le split: pat.splits)

lemma sum_upt_mono:
  assumes "m \<le> (n :: nat)" "\<And>i. i < m \<Longrightarrow> f i \<le> (g i :: nat)"
  shows "sum_list (map f [0..<m]) \<le> sum_list (map g [0..<n])"
proof -
  have "sum f {0..<m} \<le> sum g {0..<m}" by (intro sum_mono) (use assms in auto)
  also have "\<dots> \<le> sum g {0..<n}" by (intro sum_mono2) (use assms in auto)
  finally show ?thesis by (simp add: interv_sum_list_conv_sum_set_nat)
qed

text \<open>Fewer patterns cost no more, and wildcards cost nothing.\<close>

lemma cost_mono:
  "(\<And>c a. PCtor c a \<in> set ps \<Longrightarrow> PCtor c a \<in> set qs) \<Longrightarrow> cost ps \<le> cost qs"
proof (induction ps arbitrary: qs rule: cost.induct)
  case (1 ps)
  have sub: "sum_list (map (\<lambda>i. cost (args_at c i ps)) [0..<arity_in c ps]) \<le>
      sum_list (map (\<lambda>i. cost (args_at c i qs)) [0..<arity_in c qs])" if c: "c \<in> set (names_in ps)" for c
  proof (intro sum_upt_mono arity_in_mono)
    fix i assume "i < arity_in c ps"
    then show "cost (args_at c i ps) \<le> cost (args_at c i qs)"
      by (intro "1.IH" [OF c]) (auto simp: set_args_at dest: "1.prems")
  qed (use 1 in blast)
  have "sum_list (map (\<lambda>i. cost (args_at c i ps)) [0..<arity_in c ps]) \<le>
      most (map (\<lambda>c. sum_list (map (\<lambda>i. cost (args_at c i qs)) [0..<arity_in c qs])) (names_in qs))"
    if c: "c \<in> set (names_in ps)" for c
  proof -
    have "c \<in> set (names_in qs)" using c "1.prems" by (auto simp: set_names_in)
    then show ?thesis by (intro order.trans [OF sub [OF c]] le_most) auto
  qed
  then show ?case unfolding cost.simps [of ps] cost.simps [of qs] by (simp add: most_le)
qed

section \<open>The width of what a step leaves\<close>

lemma width_add:
  assumes "\<forall>r\<in>set rs. length r = a + k"
  shows "width rs (a + k) = sum_list (map (\<lambda>j. cost (map (\<lambda>r. r ! j) rs)) [0..<a]) + width (map (drop a) rs) k"
proof -
  have "[0..<a + k] = [0..<a] @ map (\<lambda>j. a + j) [0..<k]"
    using upt_add_eq_append [of 0 a k] map_add_upt [of a k] by (simp add: add.commute)
  moreover have "map (\<lambda>j. cost (map (\<lambda>r. r ! (a + j)) rs)) [0..<k] =
      map (\<lambda>j. cost (map (\<lambda>r. r ! j) (map (drop a) rs))) [0..<k]"
    using assms by (auto intro!: arg_cong [of _ _ cost])
  ultimately show ?thesis unfolding width_def by (simp only: map_append sum_list_append map_map comp_def)
qed

lemma width_mono:
  assumes "\<And>j c a r'. j < k \<Longrightarrow> r' \<in> set rs' \<Longrightarrow> r' ! j = PCtor c a \<Longrightarrow> \<exists>r\<in>set rs. r ! j = PCtor c a"
  shows "width rs' k \<le> width rs k"
  unfolding width_def
proof (intro sum_upt_mono cost_mono)
  fix j c a
  assume "j < k" and "PCtor c a \<in> set (map (\<lambda>r. r ! j) rs')"
  then show "PCtor c a \<in> set (map (\<lambda>r. r ! j) rs)" using assms by (metis (no_types, lifting) image_iff list.set_map)
qed simp

lemma width_Suc:
  assumes "\<forall>r\<in>set rs. length r = Suc k"
  shows "width rs (Suc k) = cost (map (\<lambda>r. r ! 0) rs) + width (map tl rs) k"
proof -
  have "drop 1 = (tl :: pat list \<Rightarrow> pat list)" by (simp add: fun_eq_iff drop_Suc)
  moreover have "width rs (1 + k) = sum_list (map (\<lambda>j. cost (map (\<lambda>r. r ! j) rs)) [0..<1]) + width (map (drop 1) rs) k"
    by (rule width_add) (use assms in simp)
  ultimately show ?thesis by (simp only: upt_rec [of 0 1] plus_1_eq_Suc) simp
qed

lemma cost_pos: "0 < cost ps"
  by (subst cost.simps) simp

text \<open>A step that takes a column off.\<close>

lemma width_tail:
  assumes "\<forall>r\<in>set rs. length r = Suc k" "\<And>r'. r' \<in> set rs' \<Longrightarrow> \<exists>p. p # r' \<in> set rs"
  shows "width rs' k < width rs (Suc k)"
proof -
  have "width rs' k \<le> width (map tl rs) k"
    by (intro width_mono) (use assms(2) in \<open>force simp: image_iff\<close>)
  then show ?thesis using cost_pos [of "map (\<lambda>r. r ! 0) rs"] width_Suc [OF assms(1)] by linarith
qed

text \<open>A step that expands it.\<close>

lemma spec_row_cases:
  assumes "spec_row c n r = Some (Some r')"
  obtains (ctor) a ps where "r = PCtor c a # ps" "r' = resized n a @ ps" | (wild) ps where "r = PWild # ps" "r' = replicate n PWild @ ps"
proof (cases r)
  case Nil
  then show ?thesis using assms by (simp add: spec_row_def head_def)
next
  case (Cons p ps)
  then show ?thesis using assms that by (cases p) (auto simp: spec_row_def head_def split: if_splits)
qed

lemma resized_id [simp]: "resized (length a) a = a"
  by (simp add: resized_def)

lemma spec_row_ok:
  assumes "spec_row c (length fts) r = Some (Some r')" "list_all2 (pat_ok env) r (t # ts)"
    and fts: "ctor_fields env t c = Some (Some fts)"
  shows "list_all2 (pat_ok env) r' (fts @ ts)"
  using assms(1)
proof (cases rule: spec_row_cases)
  case (ctor a ps)
  have "list_all2 (pat_ok env) a fts" using assms(2) fts ctor(1) by (auto elim: pat_ok_ctor)
  moreover from this have "resized (length fts) a = a" by (metis list_all2_lengthD resized_id)
  ultimately show ?thesis using assms(2) ctor by (auto intro: list_all2_appendI)
next
  case (wild ps)
  have "list_all2 (pat_ok env) (replicate (length fts) PWild) fts"
    by (auto simp: list_all2_conv_all_nth intro: pat_ok.leaf)
  then show ?thesis using assms(2) wild by (auto intro: list_all2_appendI)
qed

lemma width_spec:
  assumes ok: "\<forall>r\<in>set rs. list_all2 (pat_ok env) r (t # ts)" and fts: "ctor_fields env t c = Some (Some fts)"
    and from_rs: "\<And>r'. r' \<in> set rs' \<Longrightarrow> \<exists>r\<in>set rs. spec_row c (length fts) r = Some (Some r')"
    and named: "PCtor c args # qs \<in> set rs"
  shows "width rs' (length fts + length ts) < width rs (Suc (length ts))"
proof -
  let ?n = "length fts" and ?k = "length ts" and ?heads = "map (\<lambda>r. r ! 0) rs"
  have len: "\<forall>r\<in>set rs. length r = Suc ?k" using ok by (fastforce dest: list_all2_lengthD)
  have len': "\<forall>r'\<in>set rs'. length r' = ?n + ?k"
    using from_rs spec_row_ok [OF _ _ fts] ok by (metis length_append list_all2_lengthD)
  have arity: "length a = ?n" if "PCtor c a # ps \<in> set rs" for a ps
  proof -
    have "pat_ok env (PCtor c a) t" using ok that by fastforce
    then show ?thesis using fts by (auto elim!: pat_ok_ctor dest: list_all2_lengthD)
  qed
  have head: "PCtor c args \<in> set ?heads" using named by force
  have "sum_list (map (\<lambda>j. cost (map (\<lambda>r. r ! j) rs')) [0..<?n]) \<le>
      sum_list (map (\<lambda>i. cost (args_at c i ?heads)) [0..<arity_in c ?heads])"
  proof (intro sum_upt_mono cost_mono)
    show "?n \<le> arity_in c ?heads"
      using arity_in_le [OF head] arity [OF named] by simp
    fix j d a
    assume j: "j < ?n" and "PCtor d a \<in> set (map (\<lambda>r. r ! j) rs')"
    then obtain r' where r': "r' \<in> set rs'" "r' ! j = PCtor d a" by auto
    obtain r where r: "r \<in> set rs" "spec_row c ?n r = Some (Some r')" using from_rs r'(1) by blast
    show "PCtor d a \<in> set (args_at c j ?heads)"
      using r(2)
    proof (cases rule: spec_row_cases)
      case (ctor x ps)
      then have x: "length x = ?n" using arity r(1) by blast
      then have "resized ?n x = x" by (metis resized_id)
      then have "x ! j = PCtor d a" using ctor(2) r'(2) j x by (simp add: nth_append)
      moreover have "PCtor c x \<in> set ?heads" using r(1) ctor(1) by force
      ultimately show ?thesis using j x by (force simp: set_args_at)
    next
      case (wild ps)
      then show ?thesis using j r'(2) by (simp add: nth_append)
    qed
  qed
  also have "\<dots> < cost ?heads"
  proof -
    have "c \<in> set (names_in ?heads)" using head by (force simp: set_names_in)
    then show ?thesis by (subst cost.simps [of ?heads]) (auto simp: less_Suc_eq_le intro!: le_most)
  qed
  finally have "sum_list (map (\<lambda>j. cost (map (\<lambda>r. r ! j) rs')) [0..<?n]) < cost ?heads" .
  moreover have "width (map (drop ?n) rs') ?k \<le> width (map tl rs) ?k"
  proof (intro width_mono)
    fix j d a x
    assume "j < ?k" and "x \<in> set (map (drop ?n) rs')" and x: "x ! j = PCtor d a"
    then obtain r' where r': "r' \<in> set rs'" "x = drop ?n r'" by auto
    obtain r where r: "r \<in> set rs" "spec_row c ?n r = Some (Some r')" using from_rs r'(1) by blast
    have "drop ?n r' = tl r" using r(2) by (cases rule: spec_row_cases) auto
    then show "\<exists>r\<in>set (map tl rs). r ! j = PCtor d a" using r(1) r'(2) x by force
  qed
  ultimately show ?thesis using width_add [OF len'] width_Suc [OF len] by simp
qed

end
