(* ===== verification/UsefulSound.thy ===== *)
theory UsefulSound
  imports UsefulDepth
begin

text \<open>
  The usefulness test means what it says. When it answers no, at a depth the matrix stays within, every
  well-typed row of values the asked patterns match is matched by a row of the matrix; when it answers yes on
  wildcards, there is a row of values no row of the matrix matches.
\<close>

text \<open>A text or a float as the head of the question is compared with the first column only, so it has to be the last column.\<close>

fun no_text :: "pat \<Rightarrow> bool" where
  "no_text (PStr s) = False"
| "no_text (PFlt b) = False"
| "no_text (PCtor c args) = list_all no_text args"
| "no_text p = True"

fun text_last :: "pat list \<Rightarrow> bool" where
  "text_last [] = True"
| "text_last [p] = (case p of PCtor c args \<Rightarrow> text_last args | _ \<Rightarrow> True)"
| "text_last (p # q # ps) = (no_text p \<and> text_last (q # ps))"

lemma text_last_tl: "text_last (p # ps) \<Longrightarrow> text_last ps"
  by (cases ps) auto

lemma no_text_last: "list_all no_text ps \<Longrightarrow> text_last ps"
proof (induction ps rule: text_last.induct)
  case (2 p)
  then show ?case by (cases p) auto
qed auto

lemma text_last_append: "list_all no_text ps \<Longrightarrow> text_last qs \<Longrightarrow> text_last (ps @ qs)"
proof (induction ps)
  case (Cons p ps)
  show ?case
  proof (cases "ps @ qs")
    case Nil
    then show ?thesis using Cons.prems no_text_last [of "p # ps"] by simp
  next
    case c: (Cons r rs)
    then show ?thesis using Cons.IH Cons.prems by simp
  qed
qed simp

lemma text_last_ctor: "text_last (PCtor c args # qs) \<Longrightarrow> text_last (args @ qs)"
  by (cases qs) (auto intro: text_last_append)

lemma text_last_wild: "text_last qs \<Longrightarrow> text_last (replicate n PWild @ qs)"
  by (intro text_last_append) (auto simp: list_all_iff)

definition matrix_ok :: "type_env \<Rightarrow> pat list list \<Rightarrow> ty list \<Rightarrow> bool" where
  "matrix_ok env rs tys \<longleftrightarrow> (\<forall>r\<in>set rs. list_all2 (pat_ok env) r tys)"

definition sound_to :: "type_env \<Rightarrow> nat \<Rightarrow> usefulness \<Rightarrow> bool" where
  "sound_to env n rec \<longleftrightarrow> (\<forall>m q tys vs. matrix_ok env (q # m) tys \<longrightarrow> width (q # m) (length tys) < n \<longrightarrow>
     text_last q \<longrightarrow> rec m q tys = Some False \<longrightarrow> list_all2 (has_type env) vs tys \<longrightarrow> row_matches q vs \<longrightarrow> rows_cover m vs)"

lemma sound_toD:
  "sound_to env n rec \<Longrightarrow> rec m q tys = Some False \<Longrightarrow> matrix_ok env (q # m) tys \<Longrightarrow> width (q # m) (length tys) < n \<Longrightarrow>
    text_last q \<Longrightarrow> list_all2 (has_type env) vs tys \<Longrightarrow> row_matches q vs \<Longrightarrow> rows_cover m vs"
  by (simp add: sound_to_def)

section \<open>Rows by their head\<close>

lemma head_rows_set:
  assumes "map_opt head m = Some heads" "head_rows m (rows_of c heads) (wild_rows heads) = Some rows"
  shows "set rows = {r \<in> set m. \<exists>p ps. r = p # ps \<and> (ctor_name p = Some c \<or> p = PWild)}"
proof -
  have len: "length heads = length m" and nth: "i < length m \<Longrightarrow> head (m ! i) = Some (heads ! i)" for i
    using assms(1) by (auto simp: map_opt_Some list_all2_conv_all_nth)
  have cons: "i < length m \<Longrightarrow> \<exists>ps. m ! i = heads ! i # ps" for i
    using nth [of i] by (auto simp: head_def split: list.splits)
  have "set rows = {r. \<exists>i\<in>set (rows_of c heads) \<union> set (wild_rows heads). get_at m i = Some r}"
  proof -
    have "list_all2 (\<lambda>i r. get_at m i = Some r) (sort (rows_of c heads @ wild_rows heads)) rows"
      using assms(2) by (simp add: head_rows_def map_opt_Some)
    then have "set rows = {r. \<exists>i\<in>set (sort (rows_of c heads @ wild_rows heads)). get_at m i = Some r}"
      by (induction rule: list_all2_induct) auto
    then show ?thesis by simp
  qed
  also have "\<dots> = {m ! i | i. i < length m \<and> (ctor_name (heads ! i) = Some c \<or> heads ! i = PWild)}"
    by (auto simp: rows_of_def wild_rows_def len get_at_def)
  also have "\<dots> = {r \<in> set m. \<exists>p ps. r = p # ps \<and> (ctor_name p = Some c \<or> p = PWild)}"
  proof -
    have eq: "p = heads ! i" if "i < length m" "m ! i = p # ps" for i p ps
      using cons [OF that(1)] that(2) by auto
    have "\<exists>p ps. m ! i = p # ps \<and> p = heads ! i" if "i < length m" for i using cons [OF that] by auto
    then show ?thesis using eq by (auto simp: in_set_conv_nth) (metis eq)+
  qed
  finally show ?thesis .
qed

lemma ctor_name_Some: "ctor_name p = Some c \<longleftrightarrow> (\<exists>a. p = PCtor c a)"
  by (cases p) auto

lemma rows_of_head:
  assumes "map_opt head m = Some heads"
  shows "rows_of c heads \<noteq> [] \<longleftrightarrow> (\<exists>a ps. PCtor c a # ps \<in> set m)"
proof -
  have len: "length heads = length m" and nth: "i < length m \<Longrightarrow> head (m ! i) = Some (heads ! i)" for i
    using assms by (auto simp: map_opt_Some list_all2_conv_all_nth)
  have "rows_of c heads \<noteq> [] \<longleftrightarrow> (\<exists>i<length m. \<exists>a. heads ! i = PCtor c a)"
    by (auto simp: rows_of_def filter_empty_conv len ctor_name_Some)
  also have "\<dots> \<longleftrightarrow> (\<exists>i<length m. \<exists>a ps. m ! i = PCtor c a # ps)"
    using nth by (metis (no_types, lifting) head_def list.case(2) list.exhaust list.case(1) option.distinct(1) option.inject)
  finally show ?thesis by (metis in_set_conv_nth)
qed

lemma covered_head_rows:
  assumes "map_opt head m = Some heads" "head_rows m (rows_of c heads) (wild_rows heads) = Some rows"
  shows "rows_cover rows (VCtor c vs # ws) \<longleftrightarrow> rows_cover m (VCtor c vs # ws)"
proof -
  have "matches p (VCtor c vs) \<Longrightarrow> ctor_name p = Some c \<or> p = PWild" for p by (cases p) auto
  then show ?thesis
    unfolding rows_cover_def head_rows_set [OF assms] by (auto simp: row_value)
qed

section \<open>Integers\<close>

lemma segments_Cons: "segments (a # b # ss) hi = (a, b - 1) # segments (b # ss) hi" "segments [a] hi = [(a, hi)]"
  by (simp_all add: segments_def)

lemma segments_cover:
  "sorted (a # ss) \<Longrightarrow> a \<le> i \<Longrightarrow> i \<le> hi \<Longrightarrow> \<exists>se\<in>set (segments (a # ss) hi). fst se \<le> i \<and> i \<le> snd se"
proof (induction ss arbitrary: a)
  case (Cons b ss)
  then show ?case by (cases "b \<le> i") (auto simp: segments_Cons)
qed (simp add: segments_Cons)

lemma segments_free:
  "sorted_wrt (<) (a # ss) \<Longrightarrow> \<forall>c\<in>set (a # ss). c \<le> hi \<Longrightarrow> se \<in> set (segments (a # ss) hi) \<Longrightarrow>
    fst se \<in> set (a # ss) \<and> fst se \<le> snd se \<and> snd se \<le> hi \<and> (\<forall>c\<in>set (a # ss). c \<le> fst se \<or> snd se < c)"
proof (induction ss arbitrary: a)
  case (Cons b ss)
  show ?case
  proof (cases "se = (a, b - 1)")
    case True
    then show ?thesis using Cons.prems by force
  next
    case False
    then have "se \<in> set (segments (b # ss) hi)" using Cons.prems(3) by (simp add: segments_Cons)
    then have "fst se \<in> set (b # ss) \<and> fst se \<le> snd se \<and> snd se \<le> hi \<and> (\<forall>c\<in>set (b # ss). c \<le> fst se \<or> snd se < c)"
      using Cons by auto
    then show ?thesis using Cons.prems(1) by auto
  qed
qed (simp add: segments_Cons)

definition starts :: "int \<Rightarrow> int list list \<Rightarrow> int list" where
  "starts lo bs = remdups_adj (sort (lo # concat bs))"

lemma sorted_strict: "sorted xs \<Longrightarrow> sorted_wrt (<) (remdups_adj xs)"
  by (induction xs rule: remdups_adj.induct) (auto simp: less_le)

lemma starts_props:
  assumes "\<forall>c\<in>set (concat bs). lo < c"
  shows "\<exists>ss. starts lo bs = lo # ss" "sorted_wrt (<) (starts lo bs)" "set (starts lo bs) = insert lo (set (concat bs))"
proof -
  show s: "set (starts lo bs) = insert lo (set (concat bs))" by (simp add: starts_def set_insort_key)
  show w: "sorted_wrt (<) (starts lo bs)"
    unfolding starts_def by (intro sorted_strict sorted_sort)
  from s obtain a ss where a: "starts lo bs = a # ss" by (cases "starts lo bs") auto
  have "lo \<in> set (a # ss)" "\<forall>c\<in>set (a # ss). lo \<le> c" using s a assms by force+
  then have "a = lo" using w a by fastforce
  then show "\<exists>ss. starts lo bs = lo # ss" using a by simp
qed

lemma bounds_in_props:
  assumes "map_opt (bounds_in lo hi) m = Some bs"
  shows "\<forall>c\<in>set (concat bs). lo < c \<and> c \<le> hi"
    and "PInt l h # r \<in> set m \<Longrightarrow> l \<le> h \<Longrightarrow> lo < c \<Longrightarrow> c \<le> hi \<Longrightarrow> c = l \<or> c = h + 1 \<Longrightarrow> c \<in> set (concat bs)"
proof -
  have rows: "list_all2 (\<lambda>r b. bounds_in lo hi r = Some b) m bs" using assms by (simp add: map_opt_Some)
  have each: "\<forall>c\<in>set b. lo < c \<and> c \<le> hi" if "bounds_in lo hi r = Some b" for r b
  proof -
    from that obtain p ps where "r = p # ps" by (cases r) (auto simp: bounds_in_def head_def)
    then show ?thesis using that by (cases p) (auto simp: bounds_in_def head_def i128_of_def split: if_splits)
  qed
  have "\<forall>b\<in>set bs. \<forall>c\<in>set b. lo < c \<and> c \<le> hi"
    using rows by (induction rule: list_all2_induct) (auto dest: each)
  then show "\<forall>c\<in>set (concat bs). lo < c \<and> c \<le> hi" by auto
  assume r: "PInt l h # r \<in> set m" and c: "l \<le> h" "lo < c" "c \<le> hi" "c = l \<or> c = h + 1"
  have "\<exists>b\<in>set bs. bounds_in lo hi (PInt l h # r) = Some b"
    using rows r by (induction rule: list_all2_induct) auto
  then obtain b where b: "b \<in> set bs" "bounds_in lo hi (PInt l h # r) = Some b" by blast
  have "i128_of (h + 1) = Some x \<Longrightarrow> x = h + 1" for x by (simp add: i128_of_def split: if_splits)
  then have "b = filter (\<lambda>c. lo < c \<and> c \<le> hi) [l, h + 1]"
    using b(2) c(1) by (cases "i128_of (h + 1)") (simp_all add: bounds_in_def head_def del: filter.simps)
  then have "c \<in> set b" using c(2,3,4) by auto
  then show "c \<in> set (concat bs)" using b(1) by auto
qed

text \<open>One integer column: each value of the range is in a segment, and a segment is in or out of every row's range.\<close>

lemma useful_int_False:
  assumes "useful_int rec m (q # qs) (t # ts) lo hi = Some False" "lo \<le> i" "i \<le> hi"
  obtains s e rows where "kept (int_row s e) m = Some rows" "s \<le> i" "i \<le> e" "rec rows qs ts = Some False"
proof -
  obtain bs where bs: "map_opt (bounds_in lo hi) m = Some bs"
    and segs: "\<forall>se\<in>set (segments (starts lo bs) hi). \<exists>rows.
      kept (int_row (fst se) (snd se)) m = Some rows \<and> rec rows qs ts = Some False"
    using assms by (auto simp: useful_int_def bind_eq_Some_conv any_opt_Some(1) tail_def starts_def)
  obtain ss where ss: "starts lo bs = lo # ss"
    and w: "sorted_wrt (<) (starts lo bs)" using starts_props [of bs lo] bounds_in_props(1) [OF bs] by blast
  have "sorted (lo # ss)" using w ss by (metis strict_sorted_imp_sorted)
  then obtain se where "se \<in> set (segments (starts lo bs) hi)" "fst se \<le> i" "i \<le> snd se"
    using segments_cover [of lo ss i hi] assms(2,3) ss by auto
  then show ?thesis using segs that by blast
qed

lemma useful_int_True:
  assumes "useful_int rec m (q # qs) (t # ts) lo hi = Some True"
  obtains s e rows where "kept (int_row s e) m = Some rows" "lo \<le> s" "s \<le> e" "e \<le> hi" "rec rows qs ts = Some True"
    "\<And>l h r. PInt l h # r \<in> set m \<Longrightarrow> l \<le> s \<Longrightarrow> s \<le> h \<Longrightarrow> e \<le> h"
proof -
  from assms obtain bs where le: "lo \<le> hi" and bs: "map_opt (bounds_in lo hi) m = Some bs"
    and seg: "any_opt (\<lambda>se. Option.bind (kept (int_row (fst se) (snd se)) m) (\<lambda>rows.
                   Option.bind (tail (t # ts)) (rec rows (tl (q # qs))))) (segments (starts lo bs) hi) = Some True"
    by (auto simp: useful_int_def bind_eq_Some_conv starts_def split: if_splits)
  from any_opt_Some(2) [OF seg] obtain se rows where se: "se \<in> set (segments (starts lo bs) hi)"
    and rows: "kept (int_row (fst se) (snd se)) m = Some rows" "rec rows qs ts = Some True"
    by (auto simp: bind_eq_Some_conv tail_def)
  have gt: "\<forall>c\<in>set (concat bs). lo < c" using bounds_in_props(1) [OF bs] by blast
  obtain ss where ss: "starts lo bs = lo # ss" using starts_props(1) [OF gt] by blast
  have "\<forall>c\<in>set (starts lo bs). c \<le> hi" using starts_props(3) [OF gt] bounds_in_props(1) [OF bs] le by auto
  then have free: "fst se \<in> set (starts lo bs)" "fst se \<le> snd se" "snd se \<le> hi"
      "\<forall>c\<in>set (starts lo bs). c \<le> fst se \<or> snd se < c"
    using segments_free [of lo ss hi se] starts_props(2) [OF gt] se ss by auto
  have "lo \<le> fst se" using free(1) starts_props(3) [OF gt] gt by fastforce
  moreover have "snd se \<le> h" if "PInt l h # r \<in> set m" "l \<le> fst se" "fst se \<le> h" for l h r
  proof (rule ccontr)
    assume h: "\<not> snd se \<le> h"
    then have "h + 1 \<in> set (concat bs)"
      using bounds_in_props(2) [OF bs that(1), of "h + 1"] that \<open>lo \<le> fst se\<close> free(3) by linarith
    then have "h + 1 \<le> fst se \<or> snd se < h + 1" using free(4) starts_props(3) [OF gt] by blast
    then show False using h that(3) by linarith
  qed
  ultimately show ?thesis using that rows free(2,3) by blast
qed

section \<open>Soundness\<close>

lemma matrix_len: "matrix_ok env rs tys \<Longrightarrow> \<forall>r\<in>set rs. length r = length tys"
  by (auto simp: matrix_ok_def dest: list_all2_lengthD)

lemma covered_mono: "rows_cover rows vs \<Longrightarrow> set rows \<subseteq> set m \<Longrightarrow> rows_cover m vs"
  by (auto simp: rows_cover_def)

lemma step_tail:
  assumes rec: "sound_to env n rec" "rec rows qs ts = Some False"
    and ok: "matrix_ok env ((p # qs) # m) (t # ts)" "width ((p # qs) # m) (Suc (length ts)) < Suc n" "text_last (p # qs)"
    and rows: "\<And>r'. r' \<in> set rows \<Longrightarrow> \<exists>p. p # r' \<in> set m"
    and ws: "list_all2 (has_type env) ws ts" "row_matches qs ws"
  shows "rows_cover rows ws"
proof (rule sound_toD [OF rec])
  have from_m: "r' \<in> set (qs # rows) \<Longrightarrow> \<exists>p'. p' # r' \<in> set ((p # qs) # m)" for r'
    using rows [of r'] by auto
  show "matrix_ok env (qs # rows) ts"
    using ok(1) from_m unfolding matrix_ok_def by fastforce
  have "width (qs # rows) (length ts) < width ((p # qs) # m) (Suc (length ts))"
    by (rule width_tail [OF _ from_m]) (use matrix_len [OF ok(1)] in simp)
  then show "width (qs # rows) (length ts) < n" using ok(2) by linarith
qed (use ok(3) ws in \<open>auto intro: text_last_tl\<close>)

lemma step_ctor:
  assumes rec: "sound_to env n rec" "rec rows' (args @ qs) (fts @ ts) = Some False"
    and ok: "matrix_ok env ((p # qs) # m) (t # ts)" "width ((p # qs) # m) (Suc (length ts)) < Suc n"
    and fts: "ctor_fields env t c = Some (Some fts)"
    and rows: "set rows \<subseteq> set m" "kept (spec_row c (length fts)) rows = Some rows'"
    and q: "spec_row c (length fts) (p # qs) = Some (Some (args @ qs))" "text_last (args @ qs)"
    and named: "PCtor c a # ps \<in> set ((p # qs) # m)"
    and vs: "list_all2 (has_type env) vs fts" "list_all2 (has_type env) ws ts" "row_matches (args @ qs) (vs @ ws)"
  shows "rows_cover m (VCtor c vs # ws)"
proof -
  have from_m: "r' \<in> set ((args @ qs) # rows') \<Longrightarrow> \<exists>r\<in>set ((p # qs) # m). spec_row c (length fts) r = Some (Some r')" for r'
    using q(1) rows(1) kept_set [OF rows(2)] by auto
  have len: "length vs = length fts" using vs(1) by (rule list_all2_lengthD)
  have "rows_cover rows' (vs @ ws)"
  proof (rule sound_toD [OF rec])
    show "matrix_ok env ((args @ qs) # rows') (fts @ ts)"
      using from_m ok(1) spec_row_ok [OF _ _ fts] unfolding matrix_ok_def by blast
    have "width ((args @ qs) # rows') (length fts + length ts) < width ((p # qs) # m) (Suc (length ts))"
      by (rule width_spec [OF _ fts from_m named]) (use ok(1) in \<open>auto simp: matrix_ok_def\<close>)
    then show "width ((args @ qs) # rows') (length (fts @ ts)) < n" using ok(2) by simp
  qed (use q(2) vs in \<open>auto intro: list_all2_appendI\<close>)
  then have "rows_cover rows (VCtor c vs # ws)"
    using covered_spec [of c vs rows rows' ws] rows(2) len by simp
  then show ?thesis using rows(1) by (rule covered_mono)
qed

lemma spec_row_wild: "spec_row c n (PWild # qs) = Some (Some (replicate n PWild @ qs))"
  by (simp add: spec_row_def head_def)

lemma row_wild_append: "length vs = n \<Longrightarrow> row_matches qs ws \<Longrightarrow> row_matches (replicate n PWild @ qs) (vs @ ws)"
  by (simp add: row_append row_wild)

lemma sound_int:
  assumes rec: "sound_to env n rec" "useful_int rec m (p # qs) (t # ts) lo hi = Some False"
    and ok: "matrix_ok env ((p # qs) # m) (t # ts)" "width ((p # qs) # m) (Suc (length ts)) < Suc n" "text_last (p # qs)"
    and i: "lo \<le> i" "i \<le> hi" and ws: "list_all2 (has_type env) ws ts" "row_matches qs ws"
  shows "rows_cover m (VInt i # ws)"
proof -
  obtain s e rows where k: "kept (int_row s e) m = Some rows" "s \<le> i" "i \<le> e" "rec rows qs ts = Some False"
    by (rule useful_int_False [OF rec(2) i])
  have "rows_cover rows ws"
    by (rule step_tail [OF rec(1) k(4) ok _ ws]) (auto simp: kept_set [OF k(1)] int_row_Some)
  then show ?thesis by (rule covered_int(1) [OF k(1,2,3)])
qed

lemma sound_default:
  assumes rec: "sound_to env n rec" "kept default_row m = Some rows" "rec rows qs ts = Some False"
    and ok: "matrix_ok env ((p # qs) # m) (t # ts)" "width ((p # qs) # m) (Suc (length ts)) < Suc n" "text_last (p # qs)"
    and ws: "list_all2 (has_type env) ws ts" "row_matches qs ws"
  shows "rows_cover m (v # ws)"
proof -
  have "rows_cover rows ws"
    by (rule step_tail [OF rec(1,3) ok _ ws]) (auto simp: kept_set [OF rec(2)] default_row_Some)
  then show ?thesis by (rule covered_default(1) [OF rec(2)])
qed

lemma sound_wild:
  assumes rec: "sound_to env n rec" "useful_wild env rec m (PWild # qs) (t # ts) t = Some False"
    and ok: "matrix_ok env ((PWild # qs) # m) (t # ts)" "width ((PWild # qs) # m) (Suc (length ts)) < Suc n" "text_last (PWild # qs)"
    and ws: "has_type env v t" "list_all2 (has_type env) ws ts" "row_matches qs ws"
  shows "rows_cover m (v # ws)"
proof -
  from rec(2) obtain cs heads where cs: "ctors env t = Some cs" and heads: "map_opt head m = Some heads"
    by (auto simp: useful_wild_def bind_eq_Some_conv)
  show ?thesis
  proof (cases "\<exists>l. cs = Some l \<and> l \<noteq> [] \<and> (\<forall>c\<in>set l. rows_of (fst c) heads \<noteq> [])")
    case True
    then obtain l where l: "cs = Some l" "l \<noteq> []" "\<forall>c\<in>set l. rows_of (fst c) heads \<noteq> []" by blast
    obtain c vs fts where v: "v = VCtor c vs" "map_of l c = Some fts" "list_all2 (has_type env) vs fts"
      using has_type_ctors [OF ws(1)] cs l(1) by blast
    then have c: "(c, fts) \<in> set l" by (auto dest: map_of_SomeD)
    have fields: "ctor_fields env t c = Some (Some fts)" using ctor_fields_some cs l(1) v(2) by simp
    have "Option.bind (head_rows m (rows_of c heads) (wild_rows heads)) (\<lambda>rows.
        useful_ctor rec rows (PWild # qs) (t # ts) c fts (replicate (length fts) PWild)) = Some False"
      using rec(2) l c by (auto simp: useful_wild_def cs heads any_opt_Some(1))
    then obtain rows rows' where r: "head_rows m (rows_of c heads) (wild_rows heads) = Some rows"
        "kept (spec_row c (length fts)) rows = Some rows'"
        "rec rows' (replicate (length fts) PWild @ qs) (fts @ ts) = Some False"
      by (auto simp: bind_eq_Some_conv useful_ctor_def tail_def)
    have "rows_of c heads \<noteq> []" using l(3) c by fastforce
    then obtain a ps where named: "PCtor c a # ps \<in> set m" using rows_of_head [OF heads] by blast
    have len: "length vs = length fts" using v(3) by (rule list_all2_lengthD)
    have "set rows \<subseteq> set m" using head_rows_set [OF heads r(1)] by auto
    then have "rows_cover m (VCtor c vs # ws)"
      by (rule step_ctor [OF rec(1) r(3) ok(1,2) fields _ r(2) spec_row_wild _ _ v(3) ws(2)])
        (use named len ok(3) ws(3) in \<open>auto intro: text_last_wild text_last_tl row_wild_append\<close>)
    then show ?thesis using v(1) by simp
  next
    case False
    then have "Option.bind (kept default_row m) (\<lambda>d. Option.bind (tail (t # ts)) (rec d qs)) = Some False"
      using rec(2) by (auto simp: useful_wild_def cs heads split: option.splits if_splits)
    then obtain rows where r: "kept default_row m = Some rows" "rec rows qs ts = Some False"
      by (auto simp: bind_eq_Some_conv tail_def)
    show ?thesis by (rule sound_default [OF rec(1) r ok ws(2,3)])
  qed
qed

lemma any_opt_True: "any_opt f xs = Some True \<Longrightarrow> \<exists>x\<in>set xs. f x = Some True"
  by (rule any_opt_Some(2))

lemma sound_text:
  assumes "map_option Not (text_seen p m) = Some False"
    and "matrix_ok env m [t]" "matches p v"
  shows "rows_cover m [v]"
proof -
  from assms(1) have "any_opt (\<lambda>r. map_option (\<lambda>h. h = PWild \<or> h = p) (head r)) m = Some True"
    by (auto simp: text_seen_def)
  then obtain r where r: "r \<in> set m" "map_option (\<lambda>h. h = PWild \<or> h = p) (head r) = Some True"
    by (blast dest: any_opt_True)
  obtain h where "r = [h]" using matrix_len [OF assms(2)] r(1) by (cases r) auto
  then have "row_matches r [v]" using r(2) assms(3) by (auto simp: head_def)
  then show ?thesis using r(1) by (auto simp: rows_cover_def)
qed

lemma useful_sound_step:
  assumes rec: "sound_to env n rec"
  shows "sound_to env (Suc n) (useful_step env rec)"
  unfolding sound_to_def
proof (intro allI impI)
  fix m q tys vs
  assume ok: "matrix_ok env (q # m) tys" "width (q # m) (length tys) < Suc n" "text_last q"
    and no: "useful_step env rec m q tys = Some False"
    and vs: "list_all2 (has_type env) vs tys" "row_matches q vs"
  show "rows_cover m vs"
  proof (cases q)
    case Nil
    then obtain r where r: "r \<in> set m" using no by (cases m) (auto simp: useful_step_def)
    moreover have "r = []" "vs = []" using matrix_len [OF ok(1)] r vs Nil by auto
    ultimately show ?thesis by (auto simp: rows_cover_def)
  next
    case q: (Cons p qs)
    from vs ok(1) obtain t ts v ws where tys: "tys = t # ts" "vs = v # ws"
      by (cases tys; cases vs) (auto simp: q matrix_ok_def)
    from vs have v: "matches p v" "row_matches qs ws" "has_type env v t" "list_all2 (has_type env) ws ts"
      by (auto simp: q tys)
    from no obtain ints where no: "useful_head env rec m (p # qs) (t # ts) t ints p = Some False"
      by (auto simp: useful_step_def q tys bind_eq_Some_conv or_poison_def)
    note no = no [unfolded useful_head_def]
    note ok = ok [unfolded q tys, simplified length_Cons]
    show ?thesis
    proof (cases p)
      case PWild
      from no obtain range where range: "(if ints then int_range env t else Some None) = Some range"
        by (auto simp: PWild bind_eq_Some_conv split: if_splits)
      show ?thesis
      proof (cases range)
        case None
        then have "useful_wild env rec m (PWild # qs) (t # ts) t = Some False"
          using no range by (auto simp: PWild split: if_splits)
        then show ?thesis unfolding tys
          by (rule sound_wild [OF rec _ ok [unfolded PWild] v(3,4,2)])
      next
        case (Some lohi)
        then obtain lo hi where lohi: "range = Some (lo, hi)" by (cases lohi) auto
        have "int_range env t = Some (Some (lo, hi))" using range lohi by (auto split: if_splits)
        then obtain i where i: "v = VInt i" "lo \<le> i" "i \<le> hi" using has_type_int [OF v(3)] by blast
        have "useful_int rec m (PWild # qs) (t # ts) lo hi = Some False"
          using no range lohi by (auto simp: PWild split: if_splits)
        then show ?thesis unfolding tys i(1)
          by (rule sound_int [OF rec _ ok [unfolded PWild] i(2,3) v(4,2)])
      qed
    next
      case (PInt lo hi)
      from v(1) obtain i where i: "v = VInt i" "lo \<le> i" "i \<le> hi" by (auto simp: PInt)
      have "useful_int rec m (PInt lo hi # qs) (t # ts) lo hi = Some False" using no by (simp add: PInt)
      then show ?thesis unfolding tys i(1)
        by (rule sound_int [OF rec _ ok [unfolded PInt] i(2,3) v(4,2)])
    next
      case (PStr s)
      then have "qs = []" using ok(3) by (cases qs) auto
      then have "ts = []" "ws = []" using ok(1) v by (auto simp: matrix_ok_def)
      then show ?thesis using sound_text [of "PStr s" m env t v] no ok(1) v(1) by (simp add: PStr tys matrix_ok_def)
    next
      case (PFlt b)
      then have "qs = []" using ok(3) by (cases qs) auto
      then have "ts = []" "ws = []" using ok(1) v by (auto simp: matrix_ok_def)
      then show ?thesis using sound_text [of "PFlt b" m env t v] no ok(1) v(1) by (simp add: PFlt tys matrix_ok_def)
    next
      case PLit
      then show ?thesis using v(1) by simp
    next
      case (PCtor c args)
      have "pat_ok env (PCtor c args) t" using ok(1) by (simp add: matrix_ok_def PCtor)
      then obtain fts where fts: "ctor_fields env t c = Some (Some fts)" "list_all2 (pat_ok env) args fts"
        by (auto elim: pat_ok_ctor)
      then have len: "length args = length fts" by (auto dest: list_all2_lengthD)
      from v(1) obtain us where us: "v = VCtor c us" "list_all (\<lambda>x. matches (fst x) (snd x)) (zip args us)"
        by (auto simp: PCtor split: pvalue.splits)
      have typed: "list_all2 (has_type env) us fts"
        using v(3) fts(1) by (auto simp: us elim: has_type.cases)
      have args: "resized (length fts) args = args" using len by (metis resized_id)
      from no obtain rows' where r: "kept (spec_row c (length fts)) m = Some rows'"
          "rec rows' (args @ qs) (fts @ ts) = Some False"
        by (auto simp: PCtor fts args useful_ctor_def tail_def bind_eq_Some_conv)
      have "row_matches args us"
        using us(2) len typed row_resized [of us "length fts" args] args by (auto dest: list_all2_lengthD)
      then have "row_matches (args @ qs) (us @ ws)"
        using v(2) len typed by (subst row_append) (auto dest: list_all2_lengthD)
      then have "rows_cover m (VCtor c us # ws)"
        by (intro step_ctor [OF rec r(2) ok(1,2) fts(1) order.refl r(1) _ _ _ typed v(4)])
          (use ok(3) args in \<open>auto simp: PCtor spec_row_def head_def intro: text_last_ctor\<close>)
      then show ?thesis by (simp add: tys us(1))
    qed
  qed
qed

lemma useful_sound: "sound_to env n (useful n env)"
proof (induction n)
  case 0
  then show ?case by (simp add: sound_to_def)
next
  case (Suc n)
  then show ?case by (simp add: useful_sound_step)
qed

end
