(* ===== verification/UsefulExact.thy ===== *)
theory UsefulExact
  imports UsefulSound
begin

text \<open>
  When the usefulness test answers yes on wildcards there is a value no row matches, for types that have a
  value and whose constructors have different names.
\<close>

definition proper :: "type_env \<Rightarrow> ty set \<Rightarrow> bool" where
  "proper env T \<longleftrightarrow> (\<forall>t\<in>T. (\<exists>v. has_type env v t) \<and>
     (\<forall>cs. ctors env t = Some (Some cs) \<longrightarrow> distinct (map fst cs) \<and> (\<forall>c\<in>set cs. set (snd c) \<subseteq> T)))"

lemma proper_value: "proper env T \<Longrightarrow> t \<in> T \<Longrightarrow> \<exists>v. has_type env v t"
  by (simp add: proper_def)

lemma proper_values: "proper env T \<Longrightarrow> set ts \<subseteq> T \<Longrightarrow> \<exists>vs. list_all2 (has_type env) vs ts"
  by (induction ts) (auto simp: list_all2_Cons2 dest: proper_value)

lemma proper_ctors:
  assumes "proper env T" "t \<in> T" "ctors env t = Some (Some cs)" "(c, fts) \<in> set cs"
  shows "set fts \<subseteq> T" "ctor_fields env t c = Some (Some fts)"
proof -
  have d: "distinct (map fst cs)" "\<forall>c\<in>set cs. set (snd c) \<subseteq> T" using assms(1,2,3) by (auto simp: proper_def)
  show "set fts \<subseteq> T" using d(2) assms(4) by force
  have "map_of cs c = Some fts" using d(1) assms(4) by simp
  then show "ctor_fields env t c = Some (Some fts)" using ctor_fields_some [OF assms(3)] by simp
qed

lemma int_range_nonempty: "int_range_of t = Some (lo, hi) \<Longrightarrow> lo \<le> hi"
  by (auto simp: int_range_of_def split: ty.splits prim.splits)

definition exact_on :: "type_env \<Rightarrow> ty set \<Rightarrow> usefulness \<Rightarrow> bool" where
  "exact_on env T rec \<longleftrightarrow> (\<forall>m tys. set tys \<subseteq> T \<longrightarrow> rec m (replicate (length tys) PWild) tys = Some True \<longrightarrow>
     (\<exists>vs. list_all2 (has_type env) vs tys \<and> \<not> rows_cover m vs))"

lemma exact_onD:
  assumes "exact_on env T rec" "rec m (replicate (length tys) PWild) tys = Some True" "set tys \<subseteq> T"
  obtains vs where "list_all2 (has_type env) vs tys" "\<not> rows_cover m vs"
  using assms unfolding exact_on_def by blast

lemma exact_ctor:
  assumes rec: "exact_on env T rec"
    and yes: "useful_ctor rec m (p # replicate (length ts) PWild) (t # ts) c fts (replicate (length fts) PWild) = Some True"
    and ty: "set fts \<subseteq> T" "set ts \<subseteq> T" "ctor_fields env t c = Some (Some fts)"
  obtains vs ws where "has_type env (VCtor c vs) t" "list_all2 (has_type env) ws ts" "\<not> rows_cover m (VCtor c vs # ws)"
proof -
  from yes obtain m' where m': "kept (spec_row c (length fts)) m = Some m'"
    and "rec m' (replicate (length (fts @ ts)) PWild) (fts @ ts) = Some True"
    by (auto simp: useful_ctor_def tail_def bind_eq_Some_conv replicate_add)
  then obtain us where us: "list_all2 (has_type env) us (fts @ ts)" "\<not> rows_cover m' us"
    using exact_onD [OF rec] ty(1,2) by (metis le_sup_iff set_append)
  then obtain vs ws where vs: "us = vs @ ws" "list_all2 (has_type env) vs fts" "list_all2 (has_type env) ws ts"
    by (auto simp: list_all2_append2)
  have "\<not> rows_cover m (VCtor c vs # ws)"
    using covered_spec [of c vs m m' ws] m' us(2) vs list_all2_lengthD [OF vs(2)] by simp
  then show ?thesis using that vs has_type.ctor [OF ty(3) vs(2)] by blast
qed

lemma exact_int:
  assumes rec: "exact_on env T rec" "set ts \<subseteq> T"
    and yes: "useful_int rec m (p # replicate (length ts) PWild) (t # ts) lo hi = Some True"
    and range: "int_range env t = Some (Some (lo, hi))"
  shows "\<exists>vs. list_all2 (has_type env) vs (t # ts) \<and> \<not> rows_cover m vs"
proof -
  obtain s e rows where k: "kept (int_row s e) m = Some rows" "lo \<le> s" "s \<le> e" "e \<le> hi"
      "rec rows (replicate (length ts) PWild) ts = Some True"
      "\<And>l h r. PInt l h # r \<in> set m \<Longrightarrow> l \<le> s \<Longrightarrow> s \<le> h \<Longrightarrow> e \<le> h"
    by (rule useful_int_True [OF yes]) blast
  obtain ws where ws: "list_all2 (has_type env) ws ts" "\<not> rows_cover rows ws" by (rule exact_onD [OF rec(1) k(5) rec(2)])
  have "\<not> rows_cover m (VInt s # ws)"
    using covered_int(2) [OF k(1) order.refl k(3)] k(6) ws(2) by blast
  moreover have "has_type env (VInt s) t" by (rule has_type.int [OF range k(2)]) (use k(3,4) in linarith)
  ultimately show ?thesis using ws(1) by blast
qed

lemma exact_default:
  assumes rec: "exact_on env T rec" "set ts \<subseteq> T"
    and yes: "kept default_row m = Some rows" "rec rows (replicate (length ts) PWild) ts = Some True"
    and v: "has_type env v t" "\<And>p r. p # r \<in> set m \<Longrightarrow> p \<noteq> PWild \<Longrightarrow> \<not> matches p v"
  shows "\<exists>vs. list_all2 (has_type env) vs (t # ts) \<and> \<not> rows_cover m vs"
proof -
  obtain ws where ws: "list_all2 (has_type env) ws ts" "\<not> rows_cover rows ws" by (rule exact_onD [OF rec(1) yes(2) rec(2)])
  have "\<not> rows_cover m (v # ws)" using covered_default(2) [OF yes(1)] v(2) ws(2) by blast
  then show ?thesis using v(1) ws(1) by blast
qed

text \<open>A type with no integer pattern in its column, or with no listed constructor in it, has a value no pattern of the column names.\<close>

lemma fresh_value:
  assumes env: "proper env T" "t \<in> T" and heads: "map_opt head m = Some heads" and cs: "ctors env t = Some cs"
    and ints: "\<And>r. int_range env t = Some (Some r) \<Longrightarrow> \<forall>p\<in>set heads. \<not> is_int_pat p"
    and miss: "\<And>l. cs = Some l \<Longrightarrow> l = [] \<or> (\<exists>c\<in>set l. rows_of (fst c) heads = [])"
    and range: "int_range env t = Some rng"
  obtains v where "has_type env v t" "\<And>p r. p # r \<in> set m \<Longrightarrow> p \<noteq> PWild \<Longrightarrow> \<not> matches p v"
proof (cases cs)
  case (Some l)
  have "l \<noteq> []" using proper_value [OF env] cs Some by (auto elim: has_type_ctors)
  then obtain c fts where c: "(c, fts) \<in> set l" "rows_of c heads = []" using miss [OF Some] by force
  note cf = proper_ctors [OF env cs [unfolded Some] c(1)]
  obtain vs where "list_all2 (has_type env) vs fts" using proper_values [OF env(1) cf(1)] by blast
  then have "has_type env (VCtor c vs) t" by (rule has_type.ctor [OF cf(2)])
  moreover have "\<not> matches p (VCtor c vs)" if "p # r \<in> set m" "p \<noteq> PWild" for p r
    using rows_of_head [OF heads, of c] c(2) that by (cases p) auto
  ultimately show ?thesis using that by blast
next
  case None
  have int: "p # r' \<in> set m \<Longrightarrow> p \<in> set heads" for p r'
  proof -
    have "list_all2 (\<lambda>r h. head r = Some h) m heads" using heads by (simp add: map_opt_Some)
    then show "p # r' \<in> set m \<Longrightarrow> p \<in> set heads" by (induction rule: list_all2_induct) (auto simp: head_def)
  qed
  show ?thesis
  proof (cases rng)
    case None
    then have "has_type env VOther t" using \<open>cs = None\<close> cs range by (intro has_type.other) auto
    moreover have "\<not> matches p VOther" if "p \<noteq> PWild" for p using that by (cases p) auto
    ultimately show ?thesis using that by blast
  next
    case (Some lohi)
    obtain lo hi where lohi: "rng = Some (lo, hi)" using Some by (cases lohi) auto
    then have "lo \<le> hi" using range by (auto simp: int_range_def dest: int_range_nonempty)
    then have "has_type env (VInt lo) t" using range lohi by (intro has_type.int) auto
    moreover have "\<not> matches p (VInt lo)" if p: "p # r' \<in> set m" "p \<noteq> PWild" for p r'
    proof -
      have "\<not> is_int_pat p" using int [OF p(1)] ints range lohi by blast
      then show ?thesis using p(2) by (cases p) auto
    qed
    ultimately show ?thesis using that by blast
  qed
qed

lemma exact_wild:
  assumes env: "proper env T" "set (t # ts) \<subseteq> T" and rec: "exact_on env T rec"
    and heads: "map_opt head m = Some heads"
    and ints: "\<And>r. int_range env t = Some (Some r) \<Longrightarrow> \<forall>p\<in>set heads. \<not> is_int_pat p"
    and yes: "useful_wild env rec m (PWild # replicate (length ts) PWild) (t # ts) t = Some True"
  shows "\<exists>vs. list_all2 (has_type env) vs (t # ts) \<and> \<not> rows_cover m vs"
proof -
  have t: "t \<in> T" "set ts \<subseteq> T" using env(2) by auto
  from yes obtain cs where cs: "ctors env t = Some cs" by (auto simp: useful_wild_def bind_eq_Some_conv)
  from cs obtain rng where rng: "int_range env t = Some rng"
    by (cases "strip env t") (auto simp: ctors_def int_range_def)
  show ?thesis
  proof (cases "\<exists>l. cs = Some l \<and> l \<noteq> [] \<and> (\<forall>c\<in>set l. rows_of (fst c) heads \<noteq> [])")
    case True
    then obtain l where l: "cs = Some l" "l \<noteq> []" "\<forall>c\<in>set l. rows_of (fst c) heads \<noteq> []" by blast
    have "any_opt (\<lambda>c. Option.bind (head_rows m (rows_of (fst c) heads) (wild_rows heads)) (\<lambda>rows.
        useful_ctor rec rows (PWild # replicate (length ts) PWild) (t # ts) (fst c) (snd c)
          (replicate (length (snd c)) PWild))) l = Some True"
      using yes l by (auto simp: useful_wild_def cs heads)
    then obtain c fts rows where c: "(c, fts) \<in> set l" "head_rows m (rows_of c heads) (wild_rows heads) = Some rows"
        "useful_ctor rec rows (PWild # replicate (length ts) PWild) (t # ts) c fts (replicate (length fts) PWild) = Some True"
      by (auto dest!: any_opt_True simp: bind_eq_Some_conv)
    note cf = proper_ctors [OF env(1) t(1) cs [unfolded l(1)] c(1)]
    obtain vs ws where v: "has_type env (VCtor c vs) t" "list_all2 (has_type env) ws ts" "\<not> rows_cover rows (VCtor c vs # ws)"
      by (rule exact_ctor [OF rec c(3) cf(1) t(2) cf(2)])
    then have "\<not> rows_cover m (VCtor c vs # ws)" using covered_head_rows [OF heads c(2)] by blast
    then show ?thesis using v(1,2) by blast
  next
    case False
    then have "Option.bind (kept default_row m) (\<lambda>d.
        Option.bind (tail (t # ts)) (rec d (replicate (length ts) PWild))) = Some True"
      using yes by (auto simp: useful_wild_def cs heads split: option.splits if_splits)
    then obtain rows where r: "kept default_row m = Some rows" "rec rows (replicate (length ts) PWild) ts = Some True"
      by (auto simp: bind_eq_Some_conv tail_def)
    obtain v where v: "has_type env v t" "\<And>p r. p # r \<in> set m \<Longrightarrow> p \<noteq> PWild \<Longrightarrow> \<not> matches p v"
      by (rule fresh_value [OF env(1) t(1) heads cs ints _ rng]) (use False in auto)
    show ?thesis by (rule exact_default [OF rec t(2) r v])
  qed
qed

lemma exact_step:
  assumes env: "proper env T" and rec: "exact_on env T rec"
  shows "exact_on env T (useful_step env rec)"
  unfolding exact_on_def
proof (intro allI impI)
  fix m tys
  assume T: "set tys \<subseteq> T" and yes: "useful_step env rec m (replicate (length tys) PWild) tys = Some True"
  show "\<exists>vs. list_all2 (has_type env) vs tys \<and> \<not> rows_cover m vs"
  proof (cases tys)
    case Nil
    then show ?thesis using yes by (simp add: useful_step_def rows_cover_def)
  next
    case (Cons t ts)
    from yes obtain ints where ints: "any_opt (\<lambda>r. map_option is_int_pat (head r)) m = Some ints"
      and yes: "useful_head env rec m (PWild # replicate (length ts) PWild) (t # ts) t ints PWild = Some True"
      by (auto simp: useful_step_def Cons bind_eq_Some_conv or_poison_def)
    show ?thesis
    proof (cases "\<exists>lo hi. ints \<and> int_range env t = Some (Some (lo, hi))")
      case True
      then obtain lo hi where r: "int_range env t = Some (Some (lo, hi))" ints by blast
      have "useful_int rec m (PWild # replicate (length ts) PWild) (t # ts) lo hi = Some True"
        using yes r by (simp add: useful_head_def)
      from exact_int [OF rec _ this r(1)] show ?thesis using T Cons by simp
    next
      case False
      have wild: "useful_wild env rec m (PWild # replicate (length ts) PWild) (t # ts) t = Some True"
        using yes False by (auto simp: useful_head_def bind_eq_Some_conv split: if_splits option.splits)
      then obtain heads where heads: "map_opt head m = Some heads"
        by (auto simp: useful_wild_def bind_eq_Some_conv)
      have "\<forall>p\<in>set heads. \<not> is_int_pat p" if "\<not> ints"
      proof -
        have all: "\<forall>r\<in>set m. map_option is_int_pat (head r) = Some False"
          using ints that any_opt_Some(1) [of _ m] by simp
        have "list_all2 (\<lambda>r h. head r = Some h) m heads" using heads by (simp add: map_opt_Some)
        then show ?thesis using all by (induction rule: list_all2_induct) auto
      qed
      then show ?thesis unfolding Cons
        by (intro exact_wild [OF env _ rec heads _ wild]) (use T Cons False in auto)
    qed
  qed
qed

lemma useful_exact: "proper env T \<Longrightarrow> exact_on env T (useful n env)"
proof (induction n)
  case 0
  then show ?case by (simp add: exact_on_def)
next
  case (Suc n)
  then show ?case by (simp add: exact_step)
qed

end
