(* ===== verification/MatchChecks.thy ===== *)
theory MatchChecks
  imports UsefulExact
begin

text \<open>
  The two checks of a \<^verbatim>\<open>match\<close> (\<^verbatim>\<open>crates/hd_check/src/pat.rs\<close>) against its values: an accepted \<^verbatim>\<open>match\<close>
  covers every value, a reported one misses a value, and an arm reported as unreachable matches nothing new,
  as long as the patterns expand to at most 64 columns and a text is compared in a last column; with the two
  cases outside these bounds where the checks are wrong.
\<close>

section \<open>Exhaustiveness\<close>

lemma width_column: "\<forall>r\<in>set rs. length r = 1 \<Longrightarrow> width rs (Suc 0) = cost (map hd rs)"
proof -
  assume "\<forall>r\<in>set rs. length r = 1"
  then have "map (\<lambda>r. r ! 0) rs = map hd rs" by (auto simp: length_Suc_conv)
  then have "cost (map (\<lambda>r. r ! 0) rs) = cost (map hd rs)" by (rule arg_cong)
  then show ?thesis by (simp add: width_def)
qed

lemma useful_top_False:
  assumes "useful_top env (map (\<lambda>p. [p]) ps) q t = Some False"
    and "\<forall>p\<in>set (q # ps). pat_ok env p t" "cost (q # ps) \<le> 64" "text_last [q]"
    and "has_type env v t" "matches q v"
  shows "\<exists>p\<in>set ps. matches p v"
proof -
  have "rows_cover (map (\<lambda>p. [p]) ps) [v]"
  proof (rule sound_toD [OF useful_sound [of env 65], of _ "[q]" "[t]"])
    show "useful 65 env (map (\<lambda>p. [p]) ps) [q] [t] = Some False" using assms(1) by (simp add: useful_top_def)
    show "matrix_ok env ([q] # map (\<lambda>p. [p]) ps) [t]" using assms(2) by (simp add: matrix_ok_def)
    have "width ([q] # map (\<lambda>p. [p]) ps) (Suc 0) = cost (q # ps)"
      by (subst width_column) (simp_all add: comp_def)
    then show "width ([q] # map (\<lambda>p. [p]) ps) (length [t]) < 65" using assms(3) by simp
  qed (use assms(4,5,6) in simp_all)
  then show ?thesis by (auto simp: rows_cover_def)
qed

lemma cost_wild: "cost (PWild # ps) = cost ps"
  by (rule order.antisym; rule cost_mono) auto

lemma exhaustive_rows:
  fixes arms :: "arm list"
  assumes "\<forall>a\<in>set arms. \<not> ar_rejected a"
    and "map_opt (\<lambda>a. arm_p env (ar_pat a) t) (filter (\<lambda>a. \<not> ar_guarded a) arms) = Some ps"
  shows "map_opt (\<lambda>a. map_option (\<lambda>p. [p]) (if ar_rejected a then Some PWild else arm_p env (ar_pat a) t))
           (filter (\<lambda>a. \<not> ar_guarded a) arms) = Some (map (\<lambda>p. [p]) ps)"
proof -
  have each: "map_opt (\<lambda>a. map_option (\<lambda>p. [p]) (if ar_rejected a then Some PWild else arm_p env (ar_pat a) t)) as =
      map_option (map (\<lambda>p. [p])) (map_opt (\<lambda>a. arm_p env (ar_pat a) t) as)" if "\<forall>a\<in>set as. \<not> ar_rejected a" for as :: "arm list"
    using that by (induction as) (auto simp: option.map_comp comp_def split: bind_splits)
  show ?thesis by (subst each) (use assms in auto)
qed

text \<open>C19. An accepted \<^verbatim>\<open>match\<close> is exhaustive: when no arm was rejected, the patterns of the unguarded arms have the
  shape of the subject's type and expand to at most 64 columns, and the check reports nothing, every value of the
  type is matched by an unguarded arm, whatever the integers, texts and nesting of the patterns.\<close>

theorem exhaustive_covers:
  assumes "check_exhaustive env arms t = Some None" "\<forall>a\<in>set arms. \<not> ar_rejected a"
    and ps: "map_opt (\<lambda>a. arm_p env (ar_pat a) t) (filter (\<lambda>a. \<not> ar_guarded a) arms) = Some ps"
    and ok: "\<forall>p\<in>set ps. pat_ok env p t" "cost ps \<le> 64"
    and v: "has_type env v t"
  shows "\<exists>p\<in>set ps. matches p v"
proof (rule useful_top_False [OF _ _ _ _ v])
  show "useful_top env (map (\<lambda>p. [p]) ps) PWild t = Some False"
    using assms(1) exhaustive_rows [OF assms(2) ps] by (auto simp: check_exhaustive_def bind_eq_Some_conv
      split: if_splits option.splits)
qed (use ok in \<open>auto simp: cost_wild intro: pat_ok.leaf\<close>)

lemma useful_top_True:
  assumes "useful_top env (map (\<lambda>p. [p]) ps) PWild t = Some True" "proper env T" "t \<in> T"
  obtains v where "has_type env v t" "\<forall>p\<in>set ps. \<not> matches p v"
proof -
  have "useful 65 env (map (\<lambda>p. [p]) ps) (replicate (length [t]) PWild) [t] = Some True"
    using assms(1) by (simp add: useful_top_def)
  then obtain vs where vs: "list_all2 (has_type env) vs [t]" "\<not> rows_cover (map (\<lambda>p. [p]) ps) vs"
    using exact_onD [OF useful_exact [OF assms(2), of 65]] assms(3) by (metis empty_set insert_subset list.simps(15) empty_subsetI)
  then obtain v where "vs = [v]" by (auto simp: list_all2_Cons2)
  then show ?thesis using that vs by (auto simp: rows_cover_def)
qed

lemma useful_top_ctor:
  assumes yes: "useful_top env (map (\<lambda>p. [p]) ps) (PCtor c (replicate (length fts) PWild)) t = Some True"
    and env: "proper env T" "t \<in> T" "ctors env t = Some (Some cs)" "(c, fts) \<in> set cs"
  shows "\<exists>vs. has_type env (VCtor c vs) t \<and> (\<forall>p\<in>set ps. \<not> matches p (VCtor c vs))"
proof -
  note cf = proper_ctors [OF env]
  have r: "resized (length fts) (replicate (length fts) PWild) = replicate (length fts) PWild" by (simp add: resized_def)
  have "useful_step env (useful 64 env) (map (\<lambda>p. [p]) ps) [PCtor c (replicate (length fts) PWild)] [t] = Some True"
    using yes by (simp add: useful_top_def eval_nat_numeral)
  then have "useful_ctor (useful 64 env) (map (\<lambda>p. [p]) ps) (PCtor c (replicate (length fts) PWild) # replicate (length ([] :: ty list)) PWild)
      [t] c fts (replicate (length fts) PWild) = Some True"
    by (auto simp: useful_step_def useful_head_def or_poison_def cf r bind_eq_Some_conv)
  from exact_ctor [OF useful_exact [OF env(1)] this cf(1) _ cf(2)]
  obtain vs ws where "has_type env (VCtor c vs) t" "list_all2 (has_type env) ws []"
      "\<not> rows_cover (map (\<lambda>p. [p]) ps) (VCtor c vs # ws)" by auto
  then show ?thesis by (auto simp: rows_cover_def)
qed

text \<open>C20. A reported \<^verbatim>\<open>match\<close> misses a value: for a subject whose type, and the types of its parts, have values
  and constructors with different names, \<^verbatim>\<open>nonexhaustive-match\<close> is reported only when some value of the type is
  matched by no unguarded arm, and each constructor the message names is one of such a value.\<close>

theorem nonexhaustive_misses:
  assumes check: "check_exhaustive env arms t = Some (Some names)" and arms: "\<forall>a\<in>set arms. \<not> ar_rejected a"
    and ps: "map_opt (\<lambda>a. arm_p env (ar_pat a) t) (filter (\<lambda>a. \<not> ar_guarded a) arms) = Some ps"
    and env: "proper env T" "t \<in> T" and cs: "ctors env t = Some cs"
  shows "(\<exists>v. has_type env v t \<and> (\<forall>p\<in>set ps. \<not> matches p v)) \<and>
    (cs \<noteq> None \<longrightarrow> (\<forall>c\<in>set names. \<exists>vs. has_type env (VCtor c vs) t \<and> (\<forall>p\<in>set ps. \<not> matches p (VCtor c vs))))"
proof (intro conjI impI ballI)
  let ?m = "map (\<lambda>p. [p]) ps"
  from check have u: "useful_top env ?m PWild t = Some True"
    using exhaustive_rows [OF arms ps] by (auto simp: check_exhaustive_def bind_eq_Some_conv split: if_splits)
  show "\<exists>v. has_type env v t \<and> (\<forall>p\<in>set ps. \<not> matches p v)"
    by (rule useful_top_True [OF u env]) blast
  fix c assume "cs \<noteq> None" and c: "c \<in> set names"
  then obtain l where l: "cs = Some l" by auto
  have "map_option concat (map_opt (\<lambda>c. map_option (\<lambda>u. if u then [fst c] else [])
      (useful_top env ?m (PCtor (fst c) (replicate (length (snd c)) PWild)) t)) l) = Some names"
    using check u exhaustive_rows [OF arms ps] by (auto simp: check_exhaustive_def cs l)
  then obtain ns where ns: "names = concat ns"
      "list_all2 (\<lambda>c n. map_option (\<lambda>u. if u then [fst c] else [])
        (useful_top env ?m (PCtor (fst c) (replicate (length (snd c)) PWild)) t) = Some n) l ns"
    by (auto simp: map_opt_Some)
  from ns(2) have "n \<in> set ns \<Longrightarrow> c \<in> set n \<Longrightarrow> \<exists>fts. (c, fts) \<in> set l \<and>
      useful_top env ?m (PCtor c (replicate (length fts) PWild)) t = Some True" for n
    by (induction rule: list_all2_induct) (auto split: if_splits)
  then obtain fts where "(c, fts) \<in> set l" "useful_top env ?m (PCtor c (replicate (length fts) PWild)) t = Some True"
    using c ns(1) by auto
  then show "\<exists>vs. has_type env (VCtor c vs) t \<and> (\<forall>p\<in>set ps. \<not> matches p (VCtor c vs))"
    using useful_top_ctor env cs l by blast
qed

section \<open>Reachability\<close>

text \<open>The patterns of the unguarded arms that were not rejected.\<close>

definition earlier_ps :: "type_env \<Rightarrow> ty \<Rightarrow> arm list \<Rightarrow> pat list" where
  "earlier_ps env t arms = concat (map (\<lambda>a.
     if ar_rejected a \<or> ar_guarded a then [] else case arm_p env (ar_pat a) t of Some p \<Rightarrow> [p] | None \<Rightarrow> []) arms)"

lemma reachable_from_rows:
  "reachable_from env t i (map (\<lambda>p. [p]) rows) arms = Some out \<Longrightarrow> k \<in> set out \<Longrightarrow>
    \<exists>n p. k = i + n \<and> n < length arms \<and> arm_p env (ar_pat (arms ! n)) t = Some p \<and>
      arm_useful env (map (\<lambda>p. [p]) (rows @ earlier_ps env t (take n arms))) p t = Some False"
proof (induction arms arbitrary: i rows out)
  case Nil
  then show ?case by simp
next
  case (Cons a arms)
  have next_arm: "\<exists>n p. k = i + n \<and> n < length (a # arms) \<and> arm_p env (ar_pat ((a # arms) ! n)) t = Some p \<and>
      arm_useful env (map (\<lambda>p. [p]) (rows @ earlier_ps env t (take n (a # arms)))) p t = Some False"
    if "reachable_from env t (Suc i) (map (\<lambda>p. [p]) (rows @ ps)) arms = Some out'" "k \<in> set out'"
      "earlier_ps env t [a] = ps" for ps out'
  proof -
    note step = Cons.IH [OF that(1,2)]
    from step obtain n p where n: "k = Suc i + n" "n < length arms" "arm_p env (ar_pat (arms ! n)) t = Some p"
        "arm_useful env (map (\<lambda>p. [p]) ((rows @ ps) @ earlier_ps env t (take n arms))) p t = Some False"
      by blast
    have "earlier_ps env t (take (Suc n) (a # arms)) = ps @ earlier_ps env t (take n arms)"
      using that(3) by (simp add: earlier_ps_def)
    then show ?thesis using n by (intro exI [of _ "Suc n"]) simp
  qed
  show ?case
  proof (cases "ar_rejected a")
    case True
    then show ?thesis using Cons.prems next_arm [of "[]" out] by (simp add: earlier_ps_def)
  next
    case False
    then obtain p u where p: "arm_p env (ar_pat a) t = Some p" "arm_useful env (map (\<lambda>p. [p]) rows) p t = Some u"
      using Cons.prems(1) by (auto simp: bind_eq_Some_conv)
    let ?ps = "if ar_guarded a then [] else [p]"
    have ps: "earlier_ps env t [a] = ?ps" using False p(1) by (simp add: earlier_ps_def)
    have "\<exists>out'. reachable_from env t (Suc i) (map (\<lambda>p. [p]) (rows @ ?ps)) arms = Some out' \<and>
        (out = out' \<or> out = i # out' \<and> \<not> u)"
      using Cons.prems(1) False p by (auto simp: bind_eq_Some_conv split: if_splits)
    then obtain out' where r: "reachable_from env t (Suc i) (map (\<lambda>p. [p]) (rows @ ?ps)) arms = Some out'"
        "out = out' \<or> out = i # out' \<and> \<not> u" by blast
    show ?thesis
    proof (cases "k \<in> set out'")
      case True
      then show ?thesis by (rule next_arm [OF r(1) _ ps])
    next
      case False
      then have "\<not> u" "k = i" using Cons.prems(2) r(2) by auto
      then show ?thesis using p by (intro exI [of _ 0]) (simp add: earlier_ps_def)
    qed
  qed
qed

lemma arm_useful_False:
  assumes "arm_useful env (map (\<lambda>p. [p]) ps) q t = Some False"
    and ok: "\<forall>p\<in>set (q # ps). pat_ok env p t" "cost (q # ps) \<le> 64" "text_last [q]"
    and v: "has_type env v t" "matches q v"
  shows "\<exists>p\<in>set ps. matches p v"
proof (cases "ctor_name q")
  case None
  then have "useful_top env (map (\<lambda>p. [p]) ps) q t = Some False"
    using assms(1) by (cases q) (simp_all add: arm_useful_def)
  then show ?thesis by (rule useful_top_False [OF _ ok v])
next
  case (Some c)
  then obtain heads rows where h: "map_opt head (map (\<lambda>p. [p]) ps) = Some heads"
      "head_rows (map (\<lambda>p. [p]) ps) (rows_of c heads) (wild_rows heads) = Some rows"
      "useful_top env rows q t = Some False"
    using assms(1) by (cases q) (auto simp: arm_useful_def bind_eq_Some_conv)
  have sub: "set rows \<subseteq> set (map (\<lambda>p. [p]) ps)" using head_rows_set [OF h(1,2)] by auto
  then have rows: "rows = map (\<lambda>p. [p]) (map hd rows)" "set (map hd rows) \<subseteq> set ps" by (auto intro!: map_idI [symmetric] simp: subset_iff)
  have "cost (q # map hd rows) \<le> cost (q # ps)" by (rule cost_mono) (use rows(2) in auto)
  then have "\<exists>p\<in>set (map hd rows). matches p v"
    using useful_top_False [of env "map hd rows" q t v] h(3) rows ok v by fastforce
  then show ?thesis using rows(2) by blast
qed

text \<open>C21. An arm reported as unreachable matches nothing new: when the patterns have the shape of the subject's
  type, expand to at most 64 columns, and the arm's own pattern compares a text or a float in a last column only, every
  value of the type its pattern matches is matched by an unguarded arm before it.\<close>

theorem unreachable_covered:
  assumes "check_reachable env arms t = Some out" "i \<in> set out"
    and p: "i < length arms" "arm_p env (ar_pat (arms ! i)) t = Some p" "text_last [p]"
    and ok: "\<forall>q\<in>set (p # earlier_ps env t (take i arms)). pat_ok env q t" "cost (p # earlier_ps env t (take i arms)) \<le> 64"
    and v: "has_type env v t" "matches p v"
  shows "\<exists>j<i. \<exists>q. \<not> ar_guarded (arms ! j) \<and> arm_p env (ar_pat (arms ! j)) t = Some q \<and> matches q v"
proof -
  have "arm_useful env (map (\<lambda>p. [p]) (earlier_ps env t (take i arms))) p t = Some False"
    using reachable_from_rows [of env t 0 "[]" arms out i] assms(1,2) p(2) by (auto simp: check_reachable_def)
  then obtain q where q: "q \<in> set (earlier_ps env t (take i arms))" "matches q v"
    using arm_useful_False ok p(3) v by blast
  then obtain a where "a \<in> set (take i arms)" "\<not> ar_guarded a" "arm_p env (ar_pat a) t = Some q"
    by (auto simp: earlier_ps_def split: if_splits option.splits)
  then show ?thesis using q(2) by (auto simp: in_set_conv_nth)
qed

section \<open>Samples\<close>

text \<open>An enum \<open>A | B(bool)\<close> and its arms.\<close>

definition sample_env :: type_env where
  "sample_env = \<lparr>te_fuel = 3, te_ix = (\<lambda>_. 0), te_table = empty_table,
     te_items = (\<lambda>d. if d = 7 then Some (EnumItem [(''A'', []), (''B'', [(''x'', Prim PrimBool)])]) else None)\<rparr>"

definition sample_ty :: ty where "sample_ty = Adt 7 []"

definition match_arm :: "pnode \<Rightarrow> arm" where
  "match_arm p = \<lparr>ar_pat = Some p, ar_guarded = False, ar_rejected = False\<rparr>"

definition arm_a :: arm where "arm_a = match_arm (VariantPattern ''A'' None)"
definition arm_b :: "pnode \<Rightarrow> arm" where "arm_b p = match_arm (VariantPattern ''B'' (Some [PosArg p]))"

definition true_node :: pnode where "true_node = LiteralPattern LitTrue"
definition false_node :: pnode where "false_node = LiteralPattern LitFalse"

lemma sample_fields:
  "ctor_fields sample_env sample_ty ''A'' = Some (Some [])"
  "ctor_fields sample_env sample_ty ''B'' = Some (Some [Prim PrimBool])"
  "ctor_fields sample_env (Prim PrimBool) ''true'' = Some (Some [])"
  "ctor_fields sample_env (Prim PrimBool) ''false'' = Some (Some [])"
  by code_simp+

lemma sample_ctors:
  "ctors sample_env sample_ty = Some (Some [(''A'', []), (''B'', [Prim PrimBool])])"
  "ctors sample_env (Prim PrimBool) = Some (Some [(''true'', []), (''false'', [])])"
  by code_simp+

definition true_value :: pvalue where "true_value = VCtor ''true'' []"
definition b_value :: pvalue where "b_value = VCtor ''B'' [true_value]"

lemma sample_values: "has_type sample_env true_value (Prim PrimBool)" "has_type sample_env b_value sample_ty"
  unfolding b_value_def true_value_def
  by (auto intro!: has_type.ctor [OF sample_fields(2)] has_type.ctor [OF sample_fields(3)])

lemma wild_ok: "pat_ok env PWild t"
  by (simp add: pat_ok.leaf)

lemma sample_pats:
  "pat_ok sample_env (PCtor ''A'' []) sample_ty"
  "pat_ok sample_env (PCtor ''B'' [PCtor ''true'' []]) sample_ty"
  "pat_ok sample_env (PCtor ''B'' [PCtor ''false'' []]) sample_ty"
  "pat_ok sample_env (PCtor ''B'' [PWild]) sample_ty"
  by (auto intro!: pat_ok.ctor [OF sample_fields(1)] pat_ok.ctor [OF sample_fields(2)]
    pat_ok.ctor [OF sample_fields(3)] pat_ok.ctor [OF sample_fields(4)] wild_ok)

definition all_arms :: "arm list" where
  "all_arms = [arm_a, arm_b true_node, arm_b false_node]"

definition all_pats :: "pat list" where
  "all_pats = [PCtor ''A'' [], PCtor ''B'' [PCtor ''true'' []], PCtor ''B'' [PCtor ''false'' []]]"

lemma all_checked:
  "check_exhaustive sample_env all_arms sample_ty = Some None" "\<forall>a\<in>set all_arms. \<not> ar_rejected a"
  "map_opt (\<lambda>a. arm_p sample_env (ar_pat a) sample_ty) (filter (\<lambda>a. \<not> ar_guarded a) all_arms) = Some all_pats"
  by code_simp+

text \<open>A column of constructors without fields.\<close>

lemma cost_flat: "(\<And>c a. PCtor c a \<in> set ps \<Longrightarrow> a = []) \<Longrightarrow> cost ps = 1"
proof -
  assume flat: "\<And>c a. PCtor c a \<in> set ps \<Longrightarrow> a = []"
  have "arity_in c ps \<le> 0" for c
    unfolding arity_in_def most_le using flat by (auto split: pat.splits)
  then have "most (map (\<lambda>c. sum_list (map (\<lambda>i. cost (args_at c i ps)) [0..<arity_in c ps])) (names_in ps)) \<le> 0"
    unfolding most_le by simp
  then show ?thesis by (subst cost.simps) simp
qed

lemmas cost_parts = names_in_def arity_in_def args_at_def most_def

lemma all_cost: "cost all_pats \<le> 64"
proof -
  have "cost [PCtor ''true'' [], PCtor ''false'' []] = 1" by (rule cost_flat) auto
  then show ?thesis unfolding all_pats_def by (subst cost.simps) (simp add: cost_parts)
qed

theorem exhaustive_covers_witness: "\<exists>p\<in>set all_pats. matches p b_value"
  by (rule exhaustive_covers [OF all_checked(1,2,3) _ all_cost sample_values(2)])
    (auto simp: all_pats_def sample_pats)

definition two_arms :: "arm list" where
  "two_arms = [arm_a, arm_b true_node]"

definition two_pats :: "pat list" where
  "two_pats = [PCtor ''A'' [], PCtor ''B'' [PCtor ''true'' []]]"

lemma two_checked:
  "check_exhaustive sample_env two_arms sample_ty = Some (Some [''B''])" "\<forall>a\<in>set two_arms. \<not> ar_rejected a"
  "map_opt (\<lambda>a. arm_p sample_env (ar_pat a) sample_ty) (filter (\<lambda>a. \<not> ar_guarded a) two_arms) = Some two_pats"
  by code_simp+

lemma sample_proper: "proper sample_env {sample_ty, Prim PrimBool}"
  using sample_values by (auto simp: proper_def sample_ctors)

theorem nonexhaustive_misses_witness:
  "\<exists>vs. has_type sample_env (VCtor ''B'' vs) sample_ty \<and> \<not> matches (PCtor ''A'' []) (VCtor ''B'' vs) \<and>
    \<not> matches (PCtor ''B'' [PCtor ''true'' []]) (VCtor ''B'' vs)"
  using nonexhaustive_misses [OF two_checked sample_proper _ sample_ctors(1)] by (auto simp: two_pats_def)

definition late_arms :: "arm list" where
  "late_arms = [arm_a, arm_b WildcardPattern, arm_b true_node]"

lemma late_checked:
  "check_reachable sample_env late_arms sample_ty = Some [2]"
  "arm_p sample_env (ar_pat (late_arms ! 2)) sample_ty = Some (PCtor ''B'' [PCtor ''true'' []])"
  "earlier_ps sample_env sample_ty (take 2 late_arms) = [PCtor ''A'' [], PCtor ''B'' [PWild]]"
  "2 < length late_arms"
  by code_simp+

lemma late_cost: "cost [PCtor ''B'' [PCtor ''true'' []], PCtor ''A'' [], PCtor ''B'' [PWild]] \<le> 64"
proof -
  have "cost [PCtor ''true'' [], PWild] = 1" by (rule cost_flat) auto
  then show ?thesis by (subst cost.simps) (simp add: cost_parts)
qed

theorem unreachable_covered_witness:
  "\<exists>j<2. \<exists>q. \<not> ar_guarded (late_arms ! j) \<and> arm_p sample_env (ar_pat (late_arms ! j)) sample_ty = Some q \<and> matches q b_value"
  by (rule unreachable_covered [OF late_checked(1) _ late_checked(4,2) _ _ _ sample_values(2)])
    (use late_cost in \<open>auto simp: late_checked(3) sample_pats b_value_def true_value_def\<close>)

section \<open>Outside the bounds\<close>

definition number_node :: "int \<Rightarrow> pnode" where
  "number_node n = LiteralPattern (LitNumber False (Some n) None)"

definition wide_ty :: ty where "wide_ty = Tuple (replicate 64 (Prim U8)) None"
definition wide_arms :: "arm list" where
  "wide_arms = [match_arm (TuplePattern (number_node 1 # replicate 63 WildcardPattern))]"
definition wide_pat :: pat where "wide_pat = PCtor ''()'' (PInt 1 1 # replicate 63 PWild)"
definition wide_value :: pvalue where "wide_value = VCtor ''()'' (replicate 64 (VInt 2))"

lemma wide_fields: "ctor_fields sample_env wide_ty ''()'' = Some (Some (replicate 64 (Prim U8)))"
  by code_simp

lemma byte_range: "int_range sample_env (Prim U8) = Some (Some (0, 255))"
  by code_simp

text \<open>C39. Past the depth limit the check gives up without a word: a tuple of 64 bytes matched by the one arm
  \<open>(1, _, ..., _)\<close> is accepted as exhaustive, and the value \<open>(2, ..., 2)\<close> matches no arm.\<close>

theorem wide_match_accepted:
  "check_exhaustive sample_env wide_arms wide_ty = Some None \<and>
   map_opt (\<lambda>a. arm_p sample_env (ar_pat a) wide_ty) wide_arms = Some [wide_pat] \<and>
   has_type sample_env wide_value wide_ty \<and> \<not> matches wide_pat wide_value"
proof (intro conjI)
  show "check_exhaustive sample_env wide_arms wide_ty = Some None" by code_simp
  show "map_opt (\<lambda>a. arm_p sample_env (ar_pat a) wide_ty) wide_arms = Some [wide_pat]" by code_simp
  have "has_type sample_env (VInt 2) (Prim U8)" by (rule has_type.int [OF byte_range]) simp_all
  then show "has_type sample_env wide_value wide_ty"
    unfolding wide_value_def by (intro has_type.ctor [OF wide_fields]) (simp add: list_all2_conv_all_nth)
  have "replicate 64 (VInt 2) = VInt 2 # replicate 63 (VInt 2)" by (simp add: eval_nat_numeral)
  then show "\<not> matches wide_pat wide_value" by (simp add: wide_pat_def wide_value_def)
qed

definition pair_ty :: ty where "pair_ty = Tuple [Prim PrimString, Prim PrimBool] None"
definition pair_node :: "pnode \<Rightarrow> pnode" where
  "pair_node p = TuplePattern [LiteralPattern (LitString (Some [97])), p]"
definition pair_arms :: "arm list" where
  "pair_arms = [match_arm (pair_node false_node), match_arm (pair_node true_node), match_arm WildcardPattern]"
definition pair_pat :: "string \<Rightarrow> pat" where "pair_pat c = PCtor ''()'' [PStr [97], PCtor c []]"
definition pair_value :: pvalue where "pair_value = VCtor ''()'' [VStr [97], true_value]"

lemma pair_fields: "ctor_fields sample_env pair_ty ''()'' = Some (Some [Prim PrimString, Prim PrimBool])"
  by code_simp

lemma string_open: "ctors sample_env (Prim PrimString) = Some None" "int_range sample_env (Prim PrimString) = Some None"
  by code_simp+

text \<open>A text before another column is compared alone: of the arms \<open>("a", false)\<close>, \<open>("a", true)\<close> and \<open>_\<close> the
  second is reported as unreachable, though it matches a value the first does not.\<close>

lemma text_arm_reported:
  "check_reachable sample_env pair_arms pair_ty = Some [1] \<and>
   map_opt (\<lambda>a. arm_p sample_env (ar_pat a) pair_ty) pair_arms = Some [pair_pat ''false'', pair_pat ''true'', PWild] \<and>
   has_type sample_env pair_value pair_ty \<and> matches (pair_pat ''true'') pair_value \<and> \<not> matches (pair_pat ''false'') pair_value"
proof (intro conjI)
  show "check_reachable sample_env pair_arms pair_ty = Some [1]" by code_simp
  show "map_opt (\<lambda>a. arm_p sample_env (ar_pat a) pair_ty) pair_arms = Some [pair_pat ''false'', pair_pat ''true'', PWild]"
    by code_simp
  have "has_type sample_env (VStr [97]) (Prim PrimString)" by (rule has_type.other [OF string_open]) simp
  then show "has_type sample_env pair_value pair_ty"
    unfolding pair_value_def by (intro has_type.ctor [OF pair_fields]) (simp add: sample_values)
qed (simp_all add: pair_pat_def pair_value_def true_value_def)

end
