(* ===== verification/MatchReturns.thy ===== *)
theory MatchReturns
  imports MatchChecks Substitution
begin

text \<open>
  The checks of a \<^verbatim>\<open>match\<close> always return: for a subject without open type variables some fuel is enough for
  the types they read, more fuel gives the same answer, and no row is asked for a column it does not have.
\<close>

section \<open>Enough fuel\<close>

definition settles :: "(nat \<Rightarrow> 'a option) \<Rightarrow> 'a \<Rightarrow> bool" where
  "settles F r \<longleftrightarrow> (\<exists>k. \<forall>n\<ge>k. F n = Some r)"

lemma settlesI: "(\<And>n. k \<le> n \<Longrightarrow> F n = Some r) \<Longrightarrow> settles F r"
  unfolding settles_def by blast

lemma settles_const [simp]: "settles (\<lambda>n. Some r) s \<longleftrightarrow> r = s"
  by (auto simp: settles_def)

lemma settles_bind: "settles F r \<Longrightarrow> settles (\<lambda>n. K n r) s \<Longrightarrow> settles (\<lambda>n. Option.bind (F n) (K n)) s"
proof -
  assume "settles F r" "settles (\<lambda>n. K n r) s"
  then obtain k l where "\<forall>n\<ge>k. F n = Some r" "\<forall>n\<ge>l. K n r = Some s" by (auto simp: settles_def)
  then show ?thesis by (intro settlesI [of "max k l"]) auto
qed

lemma settles_map: "settles F r \<Longrightarrow> settles (\<lambda>n. map_option g (F n)) (g r)"
  by (auto simp: settles_def)

lemma settles_if: "(c \<Longrightarrow> \<exists>r. settles F r) \<Longrightarrow> (\<not> c \<Longrightarrow> \<exists>r. settles G r) \<Longrightarrow> \<exists>r. settles (\<lambda>n. if c then F n else G n) r"
  by (cases c) auto

lemma ex_settles_bind:
  "settles F r \<Longrightarrow> \<exists>s. settles (\<lambda>n. K n r) s \<Longrightarrow> \<exists>s. settles (\<lambda>n. Option.bind (F n) (K n)) s"
  by (blast intro: settles_bind)

lemma ex_settles_map: "\<exists>r. settles F r \<Longrightarrow> \<exists>r. settles (\<lambda>n. map_option g (F n)) r"
  by (blast intro: settles_map)

lemma settles_map_opt:
  "(\<And>x. x \<in> set xs \<Longrightarrow> \<exists>y. settles (\<lambda>n. f n x) y \<and> P x y) \<Longrightarrow>
    \<exists>ys. settles (\<lambda>n. map_opt (f n) xs) ys \<and> list_all2 P xs ys"
proof (induction xs)
  case (Cons x xs)
  obtain y where y1: "settles (\<lambda>n. f n x) y" "P x y" using Cons.prems by auto
  obtain ys where y2: "settles (\<lambda>n. map_opt (f n) xs) ys" "list_all2 P xs ys" using Cons by auto
  note y = y1 y2
  have "settles (\<lambda>n. map_opt (f n) (x # xs)) (y # ys)"
    by (simp, rule settles_bind [OF y(1) settles_map [OF y(3)]])
  then show ?case using y(2,4) by blast
qed simp

lemma ex_settles_map_opt:
  assumes "\<And>x. x \<in> set xs \<Longrightarrow> \<exists>y. settles (\<lambda>n. f n x) y"
  shows "\<exists>ys. settles (\<lambda>n. map_opt (f n) xs) ys"
proof -
  have "\<exists>ys. settles (\<lambda>n. map_opt (f n) xs) ys \<and> list_all2 (\<lambda>_ _. True) xs ys"
    by (rule settles_map_opt) (use assms in simp)
  then show ?thesis by blast
qed

lemma settles_any_opt: "(\<And>x. x \<in> set xs \<Longrightarrow> \<exists>y. settles (\<lambda>n. f n x) y) \<Longrightarrow> \<exists>y. settles (\<lambda>n. any_opt (f n) xs) y"
proof (induction xs)
  case Nil
  show ?case by (rule exI [of _ False]) simp
next
  case (Cons x xs)
  obtain y where y: "settles (\<lambda>n. f n x) y" using Cons.prems by auto
  have "\<exists>r. settles (\<lambda>n. if y then Some True else any_opt (f n) xs) r"
    using Cons by (intro settles_if) auto
  then show ?case unfolding any_opt.simps by (rule ex_settles_bind [OF y])
qed

section \<open>Types\<close>

abbreviation with_fuel :: "type_env \<Rightarrow> nat \<Rightarrow> type_env" where
  "with_fuel env n \<equiv> env\<lparr>te_fuel := n\<rparr>"

text \<open>The declared types of the items have no inference variable.\<close>

fun item_closed :: "item_data \<Rightarrow> bool" where
  "item_closed (DataItem fs) = (\<forall>f\<in>set fs. closed (snd f))"
| "item_closed (EnumItem vs) = (\<forall>v\<in>set vs. \<forall>f\<in>set (snd v). closed (snd f))"
| "item_closed OtherItem = True"

definition items_closed :: "type_env \<Rightarrow> bool" where
  "items_closed env \<longleftrightarrow> (\<forall>d i. te_items env d = Some i \<longrightarrow> item_closed i)"

lemma row_arguments_vars:
  "\<forall>p u. f p = Some u \<longrightarrow> closed u \<Longrightarrow> k \<in> set (fst (row_arguments f params)) \<Longrightarrow> ty_vars k = {}"
  by (auto simp: row_arguments_def closed_def split: option.splits)

lemma subst_closed:
  "\<forall>p u. f p = Some u \<longrightarrow> closed u \<Longrightarrow> closed t \<Longrightarrow> closed (subst ix f t)"
  "\<forall>p u. f p = Some u \<longrightarrow> closed u \<Longrightarrow> row_vars r = {} \<Longrightarrow> row_vars (subst_row ix f r) = {}"
  by (induction ix f t and ix f r rule: subst_subst_row.induct)
    (auto simp: closed_def if_param_def intern_row_vars row_arguments_vars split: option.splits)

fun peel :: "ty \<Rightarrow> ty" where
  "peel (Mut i) = peel i"
| "peel (RefTy i m c) = peel i"
| "peel t = t"

lemma peel_closed: "closed t \<Longrightarrow> closed (peel t)"
  by (induction t rule: peel.induct) (auto simp: closed_def)

lemma shallow_closed: "closed t \<Longrightarrow> shallow (Suc n) tb t = Some t"
  by (cases t) (auto simp: closed_def)

lemma resolve_closed: "closed t \<Longrightarrow> resolve (Suc n) ix tb t = Some t"
  by (simp add: shallow_closed has_infer_iff closed_def del: shallow.simps)

lemma strip_by_closed:
  "(\<And>u. closed u \<Longrightarrow> r u = Some u) \<Longrightarrow> closed t \<Longrightarrow> size t < n \<Longrightarrow> strip_by n r t = Some (peel t)"
proof (induction n arbitrary: t)
  case (Suc n)
  then show ?case by (cases t) (auto simp: closed_def)
qed simp

lemma settles_strip: "closed t \<Longrightarrow> settles (\<lambda>n. strip (with_fuel env n) t) (peel t)"
proof (intro settlesI [of "Suc (size t)"])
  fix n assume "closed t" "Suc (size t) \<le> n"
  moreover obtain m where "n = Suc m" using \<open>Suc (size t) \<le> n\<close> by (cases n) auto
  ultimately show "strip (with_fuel env n) t = Some (peel t)"
    by (simp add: strip_def strip_by_closed resolve_closed del: resolve.simps strip_by.simps)
qed

lemma settles_int_range: "closed t \<Longrightarrow> settles (\<lambda>n. int_range (with_fuel env n) t) (int_range_of (peel t))"
  unfolding int_range_def by (intro settles_map settles_strip)

lemma settles_members: "closed t \<Longrightarrow> settles (\<lambda>n. tuple_members (with_fuel env n) t) (members_of (peel t))"
  unfolding tuple_members_def by (intro settles_map settles_strip)

lemma members_closed: "closed t \<Longrightarrow> x \<in> set (members_of t) \<Longrightarrow> closed x"
  by (cases t) (auto simp: members_of_def closed_def split: option.splits)

lemma field_types_closed:
  assumes "\<forall>f\<in>set fs. closed (snd f)" "\<forall>x\<in>set args. closed x" "x \<in> set (field_types env d args fs)"
  shows "closed x"
proof -
  obtain f where f: "f \<in> set fs" "x = subst_owner (te_ix env) d args (snd f)"
    using assms(3) by (auto simp: field_types_def)
  show ?thesis unfolding f(2) subst_owner_def
    by (rule subst_closed(1)) (use assms(1,2) f(1) in \<open>auto simp: get_at_def split: if_splits\<close>)
qed

lemma field_types_fuel [simp]: "field_types (with_fuel env n) = field_types env"
  by (simp add: field_types_def fun_eq_iff)

lemma settles_ctors:
  assumes "closed t" "items_closed env"
  shows "\<exists>cs. settles (\<lambda>n. ctors (with_fuel env n) t) cs \<and> (\<forall>l. cs = Some l \<longrightarrow> (\<forall>c\<in>set l. \<forall>x\<in>set (snd c). closed x))"
proof -
  note st = settles_strip [OF assms(1), of env] and closed = peel_closed [OF assms(1)]
  have none: ?thesis if "\<And>env. strip env t = Some (peel t) \<Longrightarrow> ctors env t = Some None"
    using st that by (intro exI [of _ None]) (auto simp: settles_def)
  show ?thesis
  proof (cases "peel t")
    case (Tuple elems rest)
    have members: "settles (\<lambda>n. tuple_members (with_fuel env n) (peel t)) (members_of (peel (peel t)))"
      by (rule settles_members [OF closed])
    have "settles (\<lambda>n. ctors (with_fuel env n) t) (Some [(''()'', members_of (peel (peel t)))])"
      unfolding ctors_def
      by (rule settles_bind [OF st]) (use settles_map [OF members] in \<open>simp add: Tuple\<close>)
    then show ?thesis using members_closed [OF peel_closed [OF closed]] by fastforce
  next
    case (Adt d args)
    have args: "\<forall>x\<in>set args. closed x" using closed by (auto simp: Adt closed_def)
    let ?cs = "case te_items env d of
          Some (EnumItem vs) \<Rightarrow> Some (map (\<lambda>v. (fst v, field_types env d args (snd v))) vs)
        | Some (DataItem fs) \<Rightarrow> Some [(''{}'', field_types env d args fs)]
        | _ \<Rightarrow> None"
    have "settles (\<lambda>n. ctors (with_fuel env n) t) ?cs"
      unfolding ctors_def by (rule settles_bind [OF st]) (simp add: Adt split: option.split item_data.split)
    moreover have "\<forall>l. ?cs = Some l \<longrightarrow> (\<forall>c\<in>set l. \<forall>x\<in>set (snd c). closed x)"
    proof (cases "te_items env d")
      case (Some i)
      then have "item_closed i" using assms(2) by (auto simp: items_closed_def)
      then show ?thesis using Some
        by (cases i) (auto 0 3 intro: field_types_closed [OF _ args] dest: bspec)
    qed simp
    ultimately show ?thesis by blast
  next
    case (Union ms)
    have "settles (\<lambda>n. ctors (with_fuel env n) t) (Some (map (\<lambda>i. (union_name i, [ms ! i])) [0..<length ms]))"
      unfolding ctors_def by (rule settles_bind [OF st]) (simp add: Union)
    then show ?thesis using closed by (fastforce simp: Union closed_def)
  next
    case (OptionTy i)
    have "settles (\<lambda>n. ctors (with_fuel env n) t) (Some [(''None'', []), (''Some'', [i])])"
      unfolding ctors_def by (rule settles_bind [OF st]) (simp add: OptionTy)
    then show ?thesis using closed by (fastforce simp: OptionTy closed_def)
  next
    case (Prim p)
    have "settles (\<lambda>n. ctors (with_fuel env n) t) (if p = PrimBool then Some [(''true'', []), (''false'', [])] else None)"
      unfolding ctors_def by (rule settles_bind [OF st]) (simp add: Prim)
    then show ?thesis by (fastforce split: if_splits)
  qed (rule none, simp add: ctors_def)+
qed

lemma settles_ctor_fields:
  assumes "closed t" "items_closed env"
  shows "\<exists>f. settles (\<lambda>n. ctor_fields (with_fuel env n) t c) f \<and> (\<forall>l. f = Some l \<longrightarrow> (\<forall>x\<in>set l. closed x))"
proof -
  obtain cs where cs: "settles (\<lambda>n. ctors (with_fuel env n) t) cs"
    "\<forall>l. cs = Some l \<longrightarrow> (\<forall>c\<in>set l. \<forall>x\<in>set (snd c). closed x)" using settles_ctors [OF assms] by blast
  let ?f = "case cs of None \<Rightarrow> None | Some l \<Rightarrow> map_of l c"
  have "settles (\<lambda>n. ctor_fields (with_fuel env n) t c) ?f"
  proof -
    obtain k where "\<forall>n\<ge>k. ctors (with_fuel env n) t = Some cs" using cs(1) by (auto simp: settles_def)
    then show ?thesis
      by (intro settlesI [of k]) (auto simp: ctor_fields_none ctor_fields_some split: option.split)
  qed
  moreover have "\<forall>l. ?f = Some l \<longrightarrow> (\<forall>x\<in>set l. closed x)"
    using cs(2) by (force split: option.splits dest: map_of_SomeD)
  ultimately show ?thesis by blast
qed

section \<open>The matrix\<close>

text \<open>An integer pattern whose end is not the last \<open>i128\<close>, and a matrix of such patterns with rows of one length.\<close>

fun small_pat :: "pat \<Rightarrow> bool" where
  "small_pat (PInt l h) = (i128_of (h + 1) \<noteq> None)"
| "small_pat (PCtor c args) = list_all small_pat args"
| "small_pat p = True"

definition rect :: "nat \<Rightarrow> pat list list \<Rightarrow> bool" where
  "rect k rs \<longleftrightarrow> (\<forall>r\<in>set rs. length r = k \<and> list_all small_pat r)"

lemma rect_Cons [simp]: "rect k (r # rs) \<longleftrightarrow> length r = k \<and> list_all small_pat r \<and> rect k rs"
  by (auto simp: rect_def)

lemma kept_Some:
  assumes "\<And>r. r \<in> set m \<Longrightarrow> \<exists>x. f r = Some x \<and> (\<forall>y. x = Some y \<longrightarrow> Q y)"
  shows "\<exists>m'. kept f m = Some m' \<and> (\<forall>y\<in>set m'. Q y)"
proof -
  have "\<exists>xs. map_opt f m = Some xs \<and> (\<forall>x\<in>set xs. \<forall>y. x = Some y \<longrightarrow> Q y)"
    using assms
  proof (induction m)
    case (Cons r m)
    from Cons.prems [of r] obtain x where "f r = Some x" "\<forall>y. x = Some y \<longrightarrow> Q y" by auto
    moreover from Cons obtain xs where "map_opt f m = Some xs" "\<forall>x\<in>set xs. \<forall>y. x = Some y \<longrightarrow> Q y" by auto
    ultimately show ?case by auto
  qed simp
  then show ?thesis by (auto simp: kept_def split: option.splits)
qed

lemma rect_row: "rect (Suc k) m \<Longrightarrow> r \<in> set m \<Longrightarrow> \<exists>p ps. r = p # ps \<and> length ps = k \<and> small_pat p \<and> list_all small_pat ps"
  by (cases r) (auto simp: rect_def)

lemma small_resized: "list_all small_pat a \<Longrightarrow> list_all small_pat (resized n a)"
  by (auto simp: list_all_iff resized_def dest: in_set_takeD)

lemma kept_spec:
  assumes "rect (Suc k) m"
  shows "\<exists>m'. kept (spec_row c n) m = Some m' \<and> rect (n + k) m'"
  unfolding rect_def
proof (rule kept_Some)
  fix r assume "r \<in> set m"
  then obtain p ps where r: "r = p # ps" "length ps = k" "small_pat p" "list_all small_pat ps" using rect_row [OF assms] by blast
  then show "\<exists>x. spec_row c n r = Some x \<and> (\<forall>y. x = Some y \<longrightarrow> length y = n + k \<and> list_all small_pat y)"
    by (cases p) (auto simp: spec_row_def head_def small_resized, simp add: list_all_iff)
qed

lemma kept_default:
  assumes "rect (Suc k) m"
  shows "\<exists>m'. kept default_row m = Some m' \<and> rect k m'"
  unfolding rect_def
proof (rule kept_Some)
  fix r assume "r \<in> set m"
  then obtain p ps where "r = p # ps" "length ps = k" "list_all small_pat ps" using rect_row [OF assms] by blast
  then show "\<exists>x. default_row r = Some x \<and> (\<forall>y. x = Some y \<longrightarrow> length y = k \<and> list_all small_pat y)"
    by (auto simp: default_row_def head_def)
qed

lemma kept_int:
  assumes "rect (Suc k) m"
  shows "\<exists>m'. kept (int_row s e) m = Some m' \<and> rect k m'"
  unfolding rect_def
proof (rule kept_Some)
  fix r assume "r \<in> set m"
  then obtain p ps where "r = p # ps" "length ps = k" "list_all small_pat ps" using rect_row [OF assms] by blast
  then show "\<exists>x. int_row s e r = Some x \<and> (\<forall>y. x = Some y \<longrightarrow> length y = k \<and> list_all small_pat y)"
    by (cases p) (auto simp: int_row_def head_def)
qed

lemma map_opt_total: "(\<And>x. x \<in> set xs \<Longrightarrow> \<exists>y. f x = Some y) \<Longrightarrow> \<exists>ys. map_opt f xs = Some ys"
  by (induction xs) fastforce+

lemma any_opt_total: "(\<And>x. x \<in> set xs \<Longrightarrow> \<exists>y. f x = Some y) \<Longrightarrow> \<exists>y. any_opt f xs = Some y"
  by (induction xs) fastforce+

lemma rect_heads: "rect (Suc k) m \<Longrightarrow> \<exists>heads. map_opt head m = Some heads"
  by (intro map_opt_total) (auto dest!: rect_row simp: head_def)

lemma rect_bounds:
  assumes "rect (Suc k) m"
  shows "\<exists>bs. map_opt (bounds_in lo hi) m = Some bs"
proof (rule map_opt_total)
  fix r assume "r \<in> set m"
  then obtain p ps where "r = p # ps" "small_pat p" using rect_row [OF assms] by blast
  then show "\<exists>b. bounds_in lo hi r = Some b" by (cases p) (auto simp: bounds_in_def head_def)
qed

lemma head_rows_total:
  assumes "map_opt head m = Some heads"
  shows "\<exists>rows. head_rows m (rows_of c heads) (wild_rows heads) = Some rows"
proof -
  have "length heads = length m" using assms by (auto simp: map_opt_Some dest: list_all2_lengthD)
  then show ?thesis unfolding head_rows_def
    by (intro map_opt_total) (auto simp: rows_of_def wild_rows_def get_at_def)
qed

section \<open>The test\<close>

definition answers :: "(nat \<Rightarrow> usefulness) \<Rightarrow> bool" where
  "answers R \<longleftrightarrow> (\<forall>m q tys. rect (length tys) (q # m) \<longrightarrow> (\<forall>t\<in>set tys. closed t) \<longrightarrow> (\<exists>b. settles (\<lambda>n. R n m q tys) b))"

lemma answersD:
  "answers R \<Longrightarrow> rect (length tys) m \<Longrightarrow> length q = length tys \<Longrightarrow> list_all small_pat q \<Longrightarrow> \<forall>t\<in>set tys. closed t \<Longrightarrow>
    \<exists>b. settles (\<lambda>n. R n m q tys) b"
  by (simp add: answers_def)

lemma answers_int:
  assumes R: "answers R" and m: "rect (Suc (length ts)) m" "length qs = length ts" "list_all small_pat qs" "\<forall>t\<in>set ts. closed t"
  shows "\<exists>b. settles (\<lambda>n. useful_int (R n) m (p # qs) (t # ts) lo hi) b"
proof -
  obtain bs where bs: "map_opt (bounds_in lo hi) m = Some bs" using rect_bounds [OF m(1)] by blast
  have "\<exists>b. settles (\<lambda>n. any_opt (\<lambda>se. Option.bind (kept (int_row (fst se) (snd se)) m) (\<lambda>rows.
      Option.bind (tail (t # ts)) (R n rows (tl (p # qs))))) (segments (starts lo bs) hi)) b"
  proof (rule settles_any_opt)
    fix se
    obtain rows where "kept (int_row (fst se) (snd se)) m = Some rows" "rect (length ts) rows"
      using kept_int [OF m(1)] by blast
    then show "\<exists>b. settles (\<lambda>n. Option.bind (kept (int_row (fst se) (snd se)) m) (\<lambda>rows.
        Option.bind (tail (t # ts)) (R n rows (tl (p # qs))))) b"
      using answersD [OF R _ m(2,3,4)] by (simp add: tail_def)
  qed
  then show ?thesis by (cases "hi < lo") (auto simp: useful_int_def bs starts_def)
qed

lemma answers_ctor:
  assumes R: "answers R" and m: "rect (Suc (length ts)) m" "length qs = length ts" "list_all small_pat qs" "\<forall>t\<in>set ts. closed t"
    and args: "length args = length fts" "list_all small_pat args" "\<forall>t\<in>set fts. closed t"
  shows "\<exists>b. settles (\<lambda>n. useful_ctor (R n) m (p # qs) (t # ts) c fts args) b"
proof -
  obtain m' where m': "kept (spec_row c (length fts)) m = Some m'" "rect (length fts + length ts) m'"
    using kept_spec [OF m(1)] by blast
  then show ?thesis
    using answersD [OF R, of "fts @ ts" m' "args @ qs"] m args by (auto simp: useful_ctor_def tail_def)
qed

lemma answers_default:
  assumes R: "answers R" and m: "rect (Suc (length ts)) m" "length qs = length ts" "list_all small_pat qs" "\<forall>t\<in>set ts. closed t"
  shows "\<exists>b. settles (\<lambda>n. Option.bind (kept default_row m) (\<lambda>d. Option.bind (tail (t # ts)) (R n d qs))) b"
proof -
  obtain m' where "kept default_row m = Some m'" "rect (length ts) m'" using kept_default [OF m(1)] by blast
  then show ?thesis using answersD [OF R _ m(2,3,4)] by (simp add: tail_def)
qed

lemma answers_wild:
  assumes R: "answers R" and env: "items_closed env" "closed t"
    and m: "rect (Suc (length ts)) m" "length qs = length ts" "list_all small_pat qs" "\<forall>t\<in>set ts. closed t"
  shows "\<exists>b. settles (\<lambda>n. useful_wild (with_fuel env n) (R n) m (p # qs) (t # ts) t) b"
proof -
  obtain cs where cs: "settles (\<lambda>n. ctors (with_fuel env n) t) cs"
    "\<forall>l. cs = Some l \<longrightarrow> (\<forall>c\<in>set l. \<forall>x\<in>set (snd c). closed x)" using settles_ctors [OF env(2,1)] by blast
  obtain heads where heads: "map_opt head m = Some heads" using rect_heads [OF m(1)] by blast
  let ?default = "\<lambda>n. Option.bind (kept default_row m) (\<lambda>d. Option.bind (tail (t # ts)) (R n d qs))"
  have each: "\<exists>b. settles (\<lambda>n. Option.bind (head_rows m (rows_of (fst c) heads) (wild_rows heads)) (\<lambda>rows.
      useful_ctor (R n) rows (p # qs) (t # ts) (fst c) (snd c) (replicate (length (snd c)) PWild))) b"
    if "cs = Some l" "c \<in> set l" for l c
  proof -
    obtain rows where rows: "head_rows m (rows_of (fst c) heads) (wild_rows heads) = Some rows"
      using head_rows_total [OF heads] by blast
    have "rect (Suc (length ts)) rows" using m(1) head_rows_set [OF heads rows] by (auto simp: rect_def)
    then show ?thesis
      using answers_ctor [OF R _ m(2,3,4), of rows "replicate (length (snd c)) PWild" "snd c"] cs(2) that
      by (simp add: rows list_all_iff)
  qed
  have "\<exists>b. settles (\<lambda>n. case cs of
        Some cs \<Rightarrow>
          if cs \<noteq> [] \<and> (\<forall>c\<in>set cs. rows_of (fst c) heads \<noteq> []) then
            any_opt (\<lambda>c. Option.bind (head_rows m (rows_of (fst c) heads) (wild_rows heads)) (\<lambda>rows.
              useful_ctor (R n) rows (p # qs) (t # ts) (fst c) (snd c) (replicate (length (snd c)) PWild))) cs
          else ?default n
      | None \<Rightarrow> ?default n) b"
  proof (cases cs)
    case None
    then show ?thesis using answers_default [OF R m] by simp
  next
    case (Some l)
    show ?thesis
      unfolding Some option.case by (intro settles_if settles_any_opt each [OF Some] answers_default [OF R m])
  qed
  then show ?thesis
    unfolding useful_wild_def list.sel heads bind.bind_lunit by (rule ex_settles_bind [OF cs(1)])
qed

lemma answers_step:
  assumes R: "answers R" and env: "items_closed env"
  shows "answers (\<lambda>n. useful_step (with_fuel env n) (R n))"
  unfolding answers_def
proof (intro allI impI)
  fix m q tys
  assume rect: "rect (length tys) (q # m)" and closed: "\<forall>t\<in>set tys. closed t"
  show "\<exists>b. settles (\<lambda>n. useful_step (with_fuel env n) (R n) m q tys) b"
  proof (cases q)
    case Nil
    then show ?thesis by (simp add: useful_step_def)
  next
    case (Cons p qs)
    then obtain t ts where tys: "tys = t # ts" using rect by (cases tys) auto
    have m: "rect (Suc (length ts)) m" "length qs = length ts" "list_all small_pat qs" "\<forall>t\<in>set ts. closed t"
      and t: "closed t" and p: "small_pat p" using rect closed by (auto simp: Cons tys)
    have "\<exists>b. any_opt (\<lambda>r. map_option is_int_pat (head r)) m = Some b"
      by (rule any_opt_total) (use m(1) in \<open>auto dest!: rect_row simp: head_def\<close>)
    then obtain ints where ints: "any_opt (\<lambda>r. map_option is_int_pat (head r)) m = Some ints" by blast
    have seen: "\<exists>b. text_seen h m = Some b" for h
      unfolding text_seen_def by (rule any_opt_total) (use m(1) in \<open>auto dest!: rect_row simp: head_def\<close>)
    have "\<exists>b. settles (\<lambda>n. useful_head (with_fuel env n) (R n) m (p # qs) (t # ts) t ints p) b"
    proof (cases p)
      case PWild
      have range: "\<exists>r. settles (\<lambda>n. if ints then int_range (with_fuel env n) t else Some None) r"
        using settles_int_range [OF t] by (intro settles_if) (auto intro: exI [of _ None])
      then obtain r where r: "settles (\<lambda>n. if ints then int_range (with_fuel env n) t else Some None) r" by blast
      have "\<exists>b. settles (\<lambda>n. case r of Some (lo, hi) \<Rightarrow> useful_int (R n) m (p # qs) (t # ts) lo hi
          | None \<Rightarrow> useful_wild (with_fuel env n) (R n) m (p # qs) (t # ts) t) b"
        using answers_int [OF R m] answers_wild [OF R env t m] by (cases r) auto
      then show ?thesis unfolding PWild useful_head_def pat.case by (rule ex_settles_bind [OF r])
    next
      case (PInt lo hi)
      then show ?thesis using answers_int [OF R m] by (simp add: useful_head_def)
    next
      case (PStr s)
      then show ?thesis using seen [of p] by (auto simp: useful_head_def)
    next
      case (PFlt b)
      then show ?thesis using seen [of p] by (auto simp: useful_head_def)
    next
      case PLit
      then show ?thesis by (simp add: useful_head_def ex_bool_eq)
    next
      case (PCtor c args)
      obtain f where f: "settles (\<lambda>n. ctor_fields (with_fuel env n) t c) f" "\<forall>l. f = Some l \<longrightarrow> (\<forall>x\<in>set l. closed x)"
        using settles_ctor_fields [OF t env] by blast
      let ?fts = "case f of Some fts \<Rightarrow> fts | None \<Rightarrow> replicate (length args) Poison"
      have "\<exists>b. settles (\<lambda>n. useful_ctor (R n) m (p # qs) (t # ts) c ?fts (resized (length ?fts) args)) b"
        by (rule answers_ctor [OF R m])
          (use p f(2) in \<open>auto simp: PCtor small_resized closed_def split: option.split\<close>)
      then show ?thesis unfolding PCtor useful_head_def pat.case Let_def by (rule ex_settles_bind [OF f(1)])
    qed
    then show ?thesis by (simp add: useful_step_def Cons tys ints or_poison_def)
  qed
qed

lemma useful_answers: "items_closed env \<Longrightarrow> answers (\<lambda>n. useful d (with_fuel env n))"
proof (induction d)
  case 0
  then show ?case by (simp add: answers_def ex_bool_eq)
next
  case (Suc d)
  then show ?case by (simp add: answers_step)
qed

section \<open>The patterns of the arms\<close>

definition small_int :: "int \<Rightarrow> bool" where
  "small_int v \<longleftrightarrow> - (2 ^ 127) \<le> v \<and> v + 1 < 2 ^ 127"

fun small_literal :: "literal \<Rightarrow> bool" where
  "small_literal (LitNumber neg v flt) = (case v of Some v \<Rightarrow> small_int v | None \<Rightarrow> True)"
| "small_literal l = True"

fun small_node :: "pnode \<Rightarrow> bool" and small_arg :: "parg \<Rightarrow> bool" where
  "small_node (LiteralPattern l) = small_literal l"
| "small_node (RangePattern b) = (case rb_hi b of Some (Some v) \<Rightarrow> small_int v | _ \<Rightarrow> True)"
| "small_node (TuplePattern ps) = (\<forall>p\<in>set ps. small_node p)"
| "small_node (VariantPattern name args) = (case args of None \<Rightarrow> True | Some as \<Rightarrow> (\<forall>a\<in>set as. small_arg a))"
| "small_node (DataPattern fps) = (\<forall>f\<in>set fps. case snd f of None \<Rightarrow> True | Some p \<Rightarrow> small_node p)"
| "small_node p = True"
| "small_arg (PosArg p) = small_node p"
| "small_arg (NamedArg n p) = small_node p"
| "small_arg SpreadArg = True"

lemma small_int_range: "int_range_of t = Some (lo, hi) \<Longrightarrow> small_int hi"
  by (auto simp: int_range_of_def small_int_def split: ty.splits prim.splits)

lemma small_PInt: "small_int h \<Longrightarrow> small_pat (PInt l h) \<and> small_pat (PInt l (h - 1))"
  by (simp add: small_int_def i128_of_def)

lemma settles_strip_map:
  "closed t \<Longrightarrow> small_pat (g (peel t)) \<Longrightarrow> \<exists>q. settles (\<lambda>n. map_option g (strip (with_fuel env n) t)) q \<and> small_pat q"
  by (blast intro: settles_map [OF settles_strip])

lemma settles_literal:
  assumes "closed t" "small_literal l"
  shows "\<exists>q. settles (\<lambda>n. literal_p (with_fuel env n) l t) q \<and> small_pat q"
proof (cases l)
  case (LitChar v)
  have "small_int (uint c)" for c :: u32
    using uint_bounded [of c] order.trans [of "- (2 ^ 127)" 0 "uint c"] by (simp add: small_int_def)
  then show ?thesis unfolding literal_p_def LitChar literal.case
    by (intro settles_strip_map [OF assms(1)]) (auto simp: small_PInt simp del: small_pat.simps(1) split: option.split)
next
  case (LitNumber neg v flt)
  then show ?thesis using assms(2) unfolding literal_p_def LitNumber literal.case
    by (intro settles_strip_map [OF assms(1)]) (auto simp: small_PInt simp del: small_pat.simps(1) split: option.splits)
next
  case (LitString v)
  show ?thesis unfolding literal_p_def LitString literal.case
    by (rule settles_strip_map [OF assms(1)]) (auto split: option.split)
qed (auto simp: literal_p_def)

lemma settles_range:
  assumes "closed t" "case rb_hi b of Some (Some v) \<Rightarrow> small_int v | _ \<Rightarrow> True"
  shows "\<exists>q. settles (\<lambda>n. range_p (with_fuel env n) b t) q \<and> small_pat q"
proof -
  let ?range = "int_range_of (peel t)"
  have "small_int hi" if "?range = Some (lo, hi)" for lo hi using that by (rule small_int_range)
  then have "small_pat (case ?range of
        None \<Rightarrow> PLit
      | Some (least, greatest) \<Rightarrow>
          (case (case rb_lo b of None \<Rightarrow> Some least | Some v \<Rightarrow> v,
                 case rb_hi b of None \<Rightarrow> Some greatest
                 | Some v \<Rightarrow> map_option (\<lambda>v. if rb_inclusive b then v else v - 1) v) of
             (Some lo, Some hi) \<Rightarrow> PInt lo hi
           | _ \<Rightarrow> PLit))"
    using assms(2) by (auto split: option.splits simp: small_PInt simp del: small_pat.simps(1))
  then show ?thesis unfolding range_p_def
    using settles_map [OF settles_int_range [OF assms(1)]] by blast
qed

lemma settles_variant_fields:
  assumes "closed t" "items_closed env"
  shows "\<exists>vf. settles (\<lambda>n. variant_fields (with_fuel env n) t name) vf \<and> (\<forall>i fts. vf = Some (i, fts) \<longrightarrow> (\<forall>x\<in>set fts. closed x))"
proof -
  let ?u = "case t of Mut i \<Rightarrow> i | _ \<Rightarrow> t"
  let ?vf = "case ?u of
        OptionTy i \<Rightarrow> if name = ''None'' then Some (0, []) else if name = ''Some'' then Some (1, [i]) else None
      | Adt d args \<Rightarrow> (case te_items env d of
          Some (EnumItem vs) \<Rightarrow> map_option (\<lambda>i. (i, field_types env d args (snd (vs ! i))))
            (List.find (\<lambda>i. fst (vs ! i) = name) [0..<length vs])
        | _ \<Rightarrow> None)
      | Union ms \<Rightarrow> map_option (\<lambda>i. (i, [ms ! i])) (List.find (\<lambda>i. union_name i = name) [0..<length ms])
      | _ \<Rightarrow> None"
  have "settles (\<lambda>n. variant_fields (with_fuel env n) t name) ?vf"
  proof (rule settlesI [of 1])
    fix n :: nat assume "1 \<le> n"
    then obtain m where "n = Suc m" by (cases n) auto
    then show "variant_fields (with_fuel env n) t name = Some ?vf"
      using shallow_closed [OF assms(1)]
      by (simp add: variant_fields_def del: shallow.simps split: ty.split option.split item_data.split)
  qed
  moreover have "\<forall>i fts. ?vf = Some (i, fts) \<longrightarrow> (\<forall>x\<in>set fts. closed x)"
  proof -
    have u: "closed ?u" using assms(1) by (cases t) (auto simp: closed_def)
    show ?thesis
    proof (cases ?u)
      case (Adt d args)
      have args: "\<forall>x\<in>set args. closed x" using u by (auto simp: Adt closed_def)
      show ?thesis
      proof (intro allI impI ballI)
        fix i fts x assume "?vf = Some (i, fts)" "x \<in> set fts"
        then obtain vs where vs: "te_items env d = Some (EnumItem vs)" "i < length vs"
            "x \<in> set (field_types env d args (snd (vs ! i)))"
          by (auto simp: Adt find_Some_iff split: option.splits item_data.splits)
        have "vs ! i \<in> set vs" using vs(2) by simp
        moreover have "item_closed (EnumItem vs)" using assms(2) vs(1) unfolding items_closed_def by blast
        ultimately show "closed x" by (intro field_types_closed [OF _ args vs(3)]) simp
      qed
    next
      case (Union ms)
      then show ?thesis using u by (auto simp: closed_def find_Some_iff)
    qed (use u in \<open>auto simp: closed_def split: if_splits\<close>)
  qed
  ultimately show ?thesis by blast
qed

lemma ex_eq_if: "\<exists>s. (if c then a else b) = (s :: 'a)" "\<exists>s. (c \<longrightarrow> a = s) \<and> (\<not> c \<longrightarrow> b = s)"
    "\<exists>s. (c \<longrightarrow> a = s) \<and> (\<not> c \<longrightarrow> (d \<longrightarrow> b = s) \<and> (\<not> d \<longrightarrow> e = s))"
    "\<exists>s. (c \<longrightarrow> a = s) \<and> (\<not> c \<longrightarrow> (\<not> d \<longrightarrow> b = s) \<and> (d \<longrightarrow> e = s))"
  by auto

lemma settles_variant_subs:
  assumes "closed t" "case args of None \<Rightarrow> True | Some as \<Rightarrow> (\<forall>a\<in>set as. small_arg a)"
  shows "\<exists>subs. settles (\<lambda>n. variant_subs (with_fuel env n) t name args) subs \<and>
    (\<forall>p. Some p \<in> set subs \<longrightarrow> small_node p \<and> size p < size (VariantPattern name args))"
proof -
  have "\<exists>subs. \<forall>n. variant_subs (with_fuel env (Suc n)) t name args = Some subs"
  proof -
    have "enum_variant (with_fuel env n) = enum_variant env" for n by (simp add: enum_variant_def fun_eq_iff split: ty.split option.split item_data.split)
    then show ?thesis using resolve_closed [OF assms(1)]
      by (cases args) (simp_all add: variant_subs_def ex_eq_if del: resolve.simps)
  qed
  then obtain subs where subs: "\<And>n. variant_subs (with_fuel env (Suc n)) t name args = Some subs" by blast
  have "settles (\<lambda>n. variant_subs (with_fuel env n) t name args) subs"
  proof (rule settlesI [of 1])
    fix n :: nat assume "1 \<le> n"
    then show "variant_subs (with_fuel env n) t name args = Some subs" using subs by (cases n) auto
  qed
  moreover have "small_node p \<and> size p < size (VariantPattern name args)" if p: "Some p \<in> set subs" for p
  proof -
    obtain as a where a: "args = Some as" "a \<in> set as" "a = PosArg p \<or> (\<exists>n. a = NamedArg n p)"
      using variant_subs_from [OF subs p] by blast
    have "k < length subs \<and> Some p = subs ! k \<Longrightarrow> size p < size (VariantPattern name args)" for k
      by (rule sub_pattern_size [OF subs])
    moreover have "small_node p" using assms(2) a by auto
    ultimately show ?thesis using p by (metis in_set_conv_nth)
  qed
  ultimately show ?thesis by blast
qed

lemma or_poison_closed: "\<forall>x\<in>set ts. closed x \<Longrightarrow> closed (or_poison ts i)"
  by (simp add: or_poison_def closed_def)

definition expands :: "type_env \<Rightarrow> pnode \<Rightarrow> ty \<Rightarrow> bool" where
  "expands env p t \<longleftrightarrow> (\<exists>q. settles (\<lambda>n. to_p (with_fuel env n) p t) q \<and> small_pat q)"

lemma settles_all:
  assumes "\<And>x. x \<in> set xs \<Longrightarrow> \<exists>q. settles (\<lambda>n. f n x) q \<and> small_pat q"
  shows "\<exists>q. settles (\<lambda>n. map_option (PCtor c) (map_opt (f n) xs)) q \<and> small_pat q"
proof -
  obtain qs where qs: "settles (\<lambda>n. map_opt (f n) xs) qs" "list_all2 (\<lambda>x. small_pat) xs qs"
    using settles_map_opt [of xs f "\<lambda>x. small_pat"] assms by blast
  then have "list_all small_pat qs" by (auto simp: list_all2_conv_all_nth list_all_length)
  then show ?thesis using settles_map [OF qs(1), of "PCtor c"] by auto
qed

lemma ex_settles_bind_small:
  "settles F r \<Longrightarrow> \<exists>s. settles (\<lambda>n. K n r) s \<and> small_pat s \<Longrightarrow> \<exists>s. settles (\<lambda>n. Option.bind (F n) (K n)) s \<and> small_pat s"
  by (blast intro: settles_bind)

lemma expands_tuple:
  assumes "closed t" "\<And>p u. p \<in> set ps \<Longrightarrow> closed u \<Longrightarrow> expands env p u"
  shows "expands env (TuplePattern ps) t"
proof (cases "ps = []")
  case False
  let ?ms = "members_of (peel t)"
  have ms: "\<forall>x\<in>set ?ms. closed x" using members_closed [OF peel_closed [OF assms(1)]] by blast
  have "\<exists>q. settles (\<lambda>n. map_option (PCtor ''()'')
      (map_opt (\<lambda>x. to_p (with_fuel env n) (fst x) (or_poison ?ms (snd x))) (zip ps [0..<length ps]))) q \<and> small_pat q"
    by (rule settles_all)
      (use assms(2) or_poison_closed [OF ms] in \<open>fastforce simp: expands_def dest: set_zip_leftD\<close>)
  then show ?thesis
    using settles_bind [OF settles_members [OF assms(1)]] False unfolding expands_def by fastforce
qed (simp add: expands_def)

lemma expands_variant:
  assumes "closed t" "items_closed env" "small_node (VariantPattern name args)"
    and each: "\<And>p u. size p < size (VariantPattern name args) \<Longrightarrow> small_node p \<Longrightarrow> closed u \<Longrightarrow> expands env p u"
  shows "expands env (VariantPattern name args) t"
proof -
  note closed = peel_closed [OF assms(1)]
  obtain vf where vf: "settles (\<lambda>n. variant_fields (with_fuel env n) (peel t) name) vf"
      "\<forall>i fts. vf = Some (i, fts) \<longrightarrow> (\<forall>x\<in>set fts. closed x)"
    using settles_variant_fields [OF closed assms(2)] by blast
  obtain subs where subs: "settles (\<lambda>n. variant_subs (with_fuel env n) (peel t) name args) subs"
      "\<forall>p. Some p \<in> set subs \<longrightarrow> small_node p \<and> size p < size (VariantPattern name args)"
    using settles_variant_subs [OF closed, of args env name] assms(3) by auto
  let ?fts = "case vf of None \<Rightarrow> [] | Some (i, fts) \<Rightarrow> fts"
  have fts: "\<forall>x\<in>set ?fts. closed x" using vf(2) by (auto split: option.split)
  have "\<exists>q. settles (\<lambda>n. map_option (PCtor name)
      (map_opt (\<lambda>k. case get_at subs k of Some (Some p) \<Rightarrow> to_p (with_fuel env n) p (?fts ! k) | _ \<Rightarrow> Some PWild)
        [0..<length ?fts])) q \<and> small_pat q"
  proof (rule settles_all)
    fix k assume k: "k \<in> set [0..<length ?fts]"
    show "\<exists>q. settles (\<lambda>n. case get_at subs k of Some (Some p) \<Rightarrow> to_p (with_fuel env n) p (?fts ! k) | _ \<Rightarrow> Some PWild) q
        \<and> small_pat q"
    proof (cases "get_at subs k")
      case (Some s)
      then have "s \<in> set subs" by (auto simp: get_at_def split: if_splits)
      moreover have "closed (?fts ! k)" using fts nth_mem [of k ?fts] k by (simp del: nth_mem)
      ultimately have "s \<noteq> None \<Longrightarrow> expands env (the s) (?fts ! k)" using subs(2) each [of "the s" "?fts ! k"] by auto
      then show ?thesis unfolding Some option.case by (cases s) (simp_all add: expands_def)
    next
      case None
      show ?thesis unfolding None option.case by (rule exI [of _ PWild]) simp
    qed
  qed
  then show ?thesis unfolding expands_def to_p.simps Let_def
    by (intro ex_settles_bind_small [OF settles_strip [OF assms(1)]] ex_settles_bind_small [OF vf(1)]
        ex_settles_bind_small [OF subs(1)])
qed

lemma small_fold: "list_all small_pat a \<Longrightarrow> \<forall>u\<in>set us. small_pat (snd u) \<Longrightarrow> list_all small_pat (foldl (\<lambda>a u. a[fst u := snd u]) a us)"
  by (induction us arbitrary: a) (auto simp: list_all_iff dest!: subsetD [OF set_update_subset_insert])

abbreviation field_pattern :: "type_env \<Rightarrow> ty list \<Rightarrow> (string \<times> ty) list \<Rightarrow> string \<times> pnode option \<Rightarrow> (nat \<times> pat) list option" where
  "field_pattern env ts fs f \<equiv> (case field_index fs (fst f) of
      None \<Rightarrow> Some []
    | Some k \<Rightarrow> map_option (\<lambda>p. [(k, p)])
        (case snd f of None \<Rightarrow> Some PWild | Some p \<Rightarrow> to_p env p (or_poison ts k)))"

lemma expands_field:
  assumes "\<And>p u. snd f = Some p \<Longrightarrow> closed u \<Longrightarrow> expands env p u" "\<forall>x\<in>set ts. closed x"
  shows "\<exists>us. settles (\<lambda>n. field_pattern (with_fuel env n) ts fs f) us \<and> (\<forall>u\<in>set us. small_pat (snd u))"
proof (cases "field_index fs (fst f)")
  case (Some k)
  show ?thesis
  proof (cases "snd f")
    case (Some p)
    then obtain q where q: "settles (\<lambda>n. to_p (with_fuel env n) p (or_poison ts k)) q" "small_pat q"
      using assms(1) or_poison_closed [OF assms(2)] unfolding expands_def by blast
    then show ?thesis
      using settles_map [OF q(1), of "\<lambda>p. [(k, p)]"] \<open>field_index fs (fst f) = Some k\<close> Some by auto
  qed (simp add: Some)
qed simp

lemma expands_fields:
  assumes "\<And>f p u. f \<in> set fps \<Longrightarrow> snd f = Some p \<Longrightarrow> closed u \<Longrightarrow> expands env p u" "\<forall>x\<in>set ts. closed x"
  shows "\<exists>q. settles (\<lambda>n. map_option (\<lambda>ups. PCtor ''{}''
      (foldl (\<lambda>a u. a[fst u := snd u]) (replicate (length fs) PWild) (concat ups)))
      (map_opt (field_pattern (with_fuel env n) ts fs) fps)) q \<and> small_pat q"
proof -
  obtain ups where ups: "settles (\<lambda>n. map_opt (field_pattern (with_fuel env n) ts fs) fps) ups"
      "list_all2 (\<lambda>f us. \<forall>u\<in>set us. small_pat (snd u)) fps ups"
    using settles_map_opt [of fps "\<lambda>n. field_pattern (with_fuel env n) ts fs" "\<lambda>f us. \<forall>u\<in>set us. small_pat (snd u)"]
      expands_field assms by blast
  have "\<forall>u\<in>set (concat ups). small_pat (snd u)"
    using ups(2) by (induction rule: list_all2_induct) auto
  then have "list_all small_pat (foldl (\<lambda>a u. a[fst u := snd u]) (replicate (length fs) PWild) (concat ups))"
    by (intro small_fold) (auto simp: list_all_iff)
  then show ?thesis using settles_map [OF ups(1)] small_pat.simps(2) by blast
qed

lemma expands_data:
  assumes "closed t" "items_closed env"
    and each: "\<And>f p u. f \<in> set fps \<Longrightarrow> snd f = Some p \<Longrightarrow> closed u \<Longrightarrow> expands env p u"
  shows "expands env (DataPattern fps) t"
proof -
  obtain cs where cs: "settles (\<lambda>n. ctors (with_fuel env n) t) cs"
      "\<forall>l. cs = Some l \<longrightarrow> (\<forall>c\<in>set l. \<forall>x\<in>set (snd c). closed x)" using settles_ctors [OF assms(1,2)] by blast
  note st = settles_strip [OF assms(1), of env]
  show ?thesis unfolding expands_def to_p.simps
  proof (rule ex_settles_bind_small [OF cs(1)], cases cs)
    case (Some l)
    show "\<exists>q. settles (\<lambda>n. case cs of
          None \<Rightarrow> Some PLit
        | Some [] \<Rightarrow> Some PWild
        | Some (c # _) \<Rightarrow> Option.bind (strip (with_fuel env n) t) (\<lambda>st.
            (case st of
               Adt d args \<Rightarrow> (case te_items (with_fuel env n) d of
                 Some (DataItem fs) \<Rightarrow>
                   map_option (\<lambda>ups. PCtor ''{}''
                       (foldl (\<lambda>a u. a[fst u := snd u]) (replicate (length fs) PWild) (concat ups)))
                     (map_opt (field_pattern (with_fuel env n) (snd c) fs) fps)
               | _ \<Rightarrow> Some PLit)
             | _ \<Rightarrow> Some PLit))) q \<and> small_pat q"
    proof (cases l)
      case (Cons c cs')
      then have "\<forall>x\<in>set (snd c). closed x" using cs(2) Some by auto
      then have fields: "\<exists>q. settles (\<lambda>n. map_option (\<lambda>ups. PCtor ''{}''
          (foldl (\<lambda>a u. a[fst u := snd u]) (replicate (length fs) PWild) (concat ups)))
          (map_opt (field_pattern (with_fuel env n) (snd c) fs) fps)) q \<and> small_pat q" for fs
        using expands_fields [of fps env "snd c" fs] each by blast
      show ?thesis unfolding Some Cons option.case list.case
      proof (rule ex_settles_bind_small [OF st], cases "peel t")
        case (Adt d args)
        show "\<exists>q. settles (\<lambda>n. case peel t of
               Adt d args \<Rightarrow> (case te_items (with_fuel env n) d of
                 Some (DataItem fs) \<Rightarrow>
                   map_option (\<lambda>ups. PCtor ''{}''
                       (foldl (\<lambda>a u. a[fst u := snd u]) (replicate (length fs) PWild) (concat ups)))
                     (map_opt (field_pattern (with_fuel env n) (snd c) fs) fps)
               | _ \<Rightarrow> Some PLit)
             | _ \<Rightarrow> Some PLit) q \<and> small_pat q"
        proof (cases "te_items env d")
          case (Some i)
          then show ?thesis using fields by (cases i) (simp_all add: Adt)
        qed (simp add: Adt)
      qed simp_all
    qed (simp add: Some)
  qed simp
qed

lemma to_p_settles: "closed t \<Longrightarrow> items_closed env \<Longrightarrow> small_node p \<Longrightarrow> expands env p t"
proof (induction "size p" arbitrary: p t rule: less_induct)
  case less
  note step = less.hyps [OF _ _ less.prems(2)]
  show ?case
  proof (cases p)
    case (LiteralPattern l)
    then show ?thesis using settles_literal [OF less.prems(1), of l env] less.prems(3) by (simp add: expands_def)
  next
    case (RangePattern b)
    then show ?thesis using settles_range [OF less.prems(1), of b env] less.prems(3) by (simp add: expands_def)
  next
    case (TuplePattern ps)
    have "expands env q u" if "q \<in> set ps" "closed u" for q u
      using less.prems(3) that TuplePattern
      by (intro step) (auto intro: size_list_estimation' le_imp_less_Suc)
    then show ?thesis unfolding TuplePattern by (rule expands_tuple [OF less.prems(1)])
  next
    case (VariantPattern name args)
    then show ?thesis using step less.prems(3)
      by (auto intro!: expands_variant [OF less.prems(1,2)] simp del: pnode.size)
  next
    case (DataPattern fps)
    show ?thesis unfolding DataPattern
    proof (rule expands_data [OF less.prems(1,2)])
      fix f q u assume f: "f \<in> set fps" "snd f = Some q" "closed u"
      show "expands env q u" using less.prems(3) f
        by (intro step) (auto simp: DataPattern simp del: pnode.size intro: data_pattern_size)
    qed
  qed (simp_all add: expands_def)
qed

section \<open>The checks\<close>

lemma settles_arm:
  assumes "closed t" "items_closed env" "p = None \<or> small_node (the p)"
  shows "\<exists>q. settles (\<lambda>n. arm_p (with_fuel env n) p t) q \<and> small_pat q"
  using to_p_settles [OF assms(1,2), of "the p"] assms(3) by (cases p) (auto simp: arm_p_def expands_def)

lemma settles_top:
  assumes "items_closed env" "closed t" "rect 1 m" "small_pat q"
  shows "\<exists>b. settles (\<lambda>n. useful_top (with_fuel env n) m q t) b"
  unfolding useful_top_def
  by (rule answersD [OF useful_answers]) (use assms in simp_all)

lemma settles_bound: "closed t \<Longrightarrow> \<exists>b. settles (\<lambda>n. bound_outside (with_fuel env n) p t) b"
  unfolding bound_outside_def using settles_map [OF settles_int_range] by blast

definition small_arms :: "arm list \<Rightarrow> bool" where
  "small_arms arms \<longleftrightarrow> (\<forall>a\<in>set arms. ar_pat a = None \<or> small_node (the (ar_pat a)))"

lemma settles_arm_useful:
  assumes "items_closed env" "closed t" "rect 1 m" "small_pat q"
  shows "\<exists>b. settles (\<lambda>n. arm_useful (with_fuel env n) m q t) b"
proof (cases q)
  case (PCtor c args)
  obtain heads where heads: "map_opt head m = Some heads" using rect_heads [of 0 m] assms(3) by auto
  obtain rows where rows: "head_rows m (rows_of c heads) (wild_rows heads) = Some rows"
    using head_rows_total [OF heads] by blast
  have "rect 1 rows" using assms(3) head_rows_set [OF heads rows] by (auto simp: rect_def)
  then show ?thesis using settles_top [OF assms(1,2) _ assms(4)] by (simp add: arm_useful_def PCtor heads rows)
qed (use settles_top [OF assms] in \<open>simp_all add: arm_useful_def\<close>)

lemma settles_reachable:
  assumes env: "items_closed env" "closed t"
  shows "small_arms arms \<Longrightarrow> rect 1 m \<Longrightarrow> \<exists>js. settles (\<lambda>n. reachable_from (with_fuel env n) t i m arms) js"
proof (induction arms arbitrary: i m)
  case Nil
  show ?case by (rule exI [of _ "[]"]) simp
next
  case (Cons a as)
  have later: "\<exists>js. settles (\<lambda>n. reachable_from (with_fuel env n) t j m' as) js" if "rect 1 m'" for j m'
    using Cons.IH Cons.prems(1) that by (simp add: small_arms_def)
  obtain p where p: "settles (\<lambda>n. arm_p (with_fuel env n) (ar_pat a) t) p" "small_pat p"
    using settles_arm [OF env(2,1)] Cons.prems(1) unfolding small_arms_def by (meson list.set_intros(1))
  obtain u where u: "settles (\<lambda>n. arm_useful (with_fuel env n) m p t) u"
    using settles_arm_useful [OF env Cons.prems(2) p(2)] by blast
  obtain report where report: "settles (\<lambda>n. if u then Some False else (case ar_pat a of None \<Rightarrow> Some False
      | Some p \<Rightarrow> map_option Not (bound_outside (with_fuel env n) p t))) report"
  proof (atomize_elim, intro settles_if)
    show "\<exists>r. settles (\<lambda>n. case ar_pat a of None \<Rightarrow> Some False
        | Some p \<Rightarrow> map_option Not (bound_outside (with_fuel env n) p t)) r"
    proof (cases "ar_pat a")
      case (Some p)
      show ?thesis unfolding Some option.case by (rule ex_settles_map [OF settles_bound [OF env(2)]])
    qed (simp add: ex_bool_eq)
  qed (simp add: ex_bool_eq)
  have "rect 1 (if ar_guarded a then m else m @ [[p]])" using Cons.prems(2) p(2) by (auto simp: rect_def)
  note rest = ex_settles_map [OF later [OF this]]
  show ?case unfolding reachable_from.simps
    by (intro settles_if later [OF Cons.prems(2)] ex_settles_bind [OF p(1)] ex_settles_bind [OF u]
        ex_settles_bind [OF report] rest)
qed

lemma settles_exhaustive:
  assumes env: "items_closed env" "closed t" and arms: "small_arms arms"
  shows "\<exists>r. settles (\<lambda>n. check_exhaustive (with_fuel env n) arms t) r"
proof -
  obtain m where m: "settles (\<lambda>n. map_opt (\<lambda>a. map_option (\<lambda>p. [p]) (if ar_rejected a then Some PWild
        else arm_p (with_fuel env n) (ar_pat a) t)) (filter (\<lambda>a. \<not> ar_guarded a) arms)) m"
      "list_all2 (\<lambda>a r. length r = 1 \<and> list_all small_pat r) (filter (\<lambda>a. \<not> ar_guarded a) arms) m"
  proof (atomize_elim, rule settles_map_opt)
    fix a assume "a \<in> set (filter (\<lambda>a. \<not> ar_guarded a) arms)"
    then obtain q where q: "settles (\<lambda>n. arm_p (with_fuel env n) (ar_pat a) t) q" "small_pat q"
      using settles_arm [OF env(2,1)] arms unfolding small_arms_def by (metis filter_is_subset subsetD)
    show "\<exists>y. settles (\<lambda>n. map_option (\<lambda>p. [p]) (if ar_rejected a then Some PWild
        else arm_p (with_fuel env n) (ar_pat a) t)) y \<and> length y = 1 \<and> list_all small_pat y"
    proof (cases "ar_rejected a")
      case False
      then show ?thesis using settles_map [OF q(1), of "\<lambda>p. [p]"] q(2) by auto
    qed simp
  qed
  have rect: "rect 1 m" using m(2) by (auto simp: rect_def list_all2_conv_all_nth in_set_conv_nth)
  obtain u where u: "settles (\<lambda>n. useful_top (with_fuel env n) m PWild t) u" using settles_top [OF env rect, of PWild] by auto
  obtain cs where cs: "settles (\<lambda>n. ctors (with_fuel env n) t) cs" using settles_ctors [OF env(2,1)] by blast
  have each: "\<exists>r. settles (\<lambda>n. map_option (\<lambda>names. Some (concat names)) (map_opt (\<lambda>c. map_option (\<lambda>u. if u then [fst c] else [])
      (useful_top (with_fuel env n) m (PCtor (fst c) (replicate (length (snd c)) PWild)) t)) l)) r" for l
    by (intro ex_settles_map ex_settles_map_opt settles_top [OF env rect]) (simp add: list_all_iff)
  have names: "\<exists>r. settles (\<lambda>n. case cs of None \<Rightarrow> Some (Some [''_'']) | Some cs \<Rightarrow> map_option (\<lambda>names. Some (concat names))
      (map_opt (\<lambda>c. map_option (\<lambda>u. if u then [fst c] else [])
        (useful_top (with_fuel env n) m (PCtor (fst c) (replicate (length (snd c)) PWild)) t)) cs)) r"
    using each by (cases cs) simp_all
  show ?thesis unfolding check_exhaustive_def
    by (intro ex_settles_bind [OF m(1)] ex_settles_bind [OF u] settles_if ex_settles_bind [OF cs] names) simp
qed

text \<open>C22. The checks of a \<^verbatim>\<open>match\<close> always return: when the subject's type and the declared types of the
  items have no inference variable and no integer the patterns write reaches the last \<^verbatim>\<open>i128\<close>, some fuel is enough for
  both checks, and more fuel gives the same two answers, so neither loops, reads a missing column or overflows.\<close>

theorem checks_return:
  assumes "items_closed env" "closed t" "small_arms arms"
  shows "\<exists>names reported k. \<forall>n\<ge>k. check_exhaustive (env\<lparr>te_fuel := n\<rparr>) arms t = Some names \<and>
    check_reachable (env\<lparr>te_fuel := n\<rparr>) arms t = Some reported"
proof -
  obtain r where "settles (\<lambda>n. check_exhaustive (with_fuel env n) arms t) r"
    using settles_exhaustive [OF assms] by blast
  moreover obtain rs where "settles (\<lambda>n. check_reachable (with_fuel env n) arms t) rs"
    using settles_reachable [OF assms(1,2,3), of "[]" 0] by (auto simp: check_reachable_def rect_def)
  ultimately obtain k l where "\<forall>n\<ge>k. check_exhaustive (with_fuel env n) arms t = Some r"
      "\<forall>n\<ge>l. check_reachable (with_fuel env n) arms t = Some rs" by (auto simp: settles_def)
  then show ?thesis by (intro exI [of _ r] exI [of _ rs] exI [of _ "max k l"]) auto
qed

lemma sample_closed: "items_closed sample_env" "closed sample_ty" "small_arms two_arms"
  by (simp_all add: items_closed_def sample_env_def sample_ty_def closed_def small_arms_def two_arms_def arm_a_def
    arm_b_def match_arm_def true_node_def)

theorem checks_return_witness:
  "\<exists>names reported n. check_exhaustive (sample_env\<lparr>te_fuel := n\<rparr>) two_arms sample_ty = Some names \<and>
    check_reachable (sample_env\<lparr>te_fuel := n\<rparr>) two_arms sample_ty = Some reported"
  using checks_return [OF sample_closed] by blast

end
