(* ===== verification/ConstEval.thy ===== *)
theory ConstEval
  imports Tokens TyTree "HOL-Library.Signed_Division"
begin

text \<open>
  \<^verbatim>\<open>crates/hd_resolve/src/const_eval.rs\<close> and the number tokens of \<^verbatim>\<open>literal.rs\<close>: the evaluation of a const
  generic argument. A node is the data its accessors read: the kind, the children, the bytes of a number token,
  the token after the left operand, the decoded text of a literal (\<open>None\<close> where it has none). Integers are held
  in \<open>i128\<close>; an operation past it is a panic, the outer \<open>None\<close>. The code counts the depth of the named constants
  up to 64; here \<open>d\<close> counts down. Message texts are data.
\<close>

unbundle bit_operations_syntax

section \<open>Number tokens\<close>

definition radix_digits :: "str \<Rightarrow> (nat \<times> str) option" where
  "radix_digits t =
     (if length t < 2 \<or> t ! 0 \<noteq> 48 then None
      else if t ! 1 \<in> {120, 88} then Some (16, drop 2 t)
      else if t ! 1 \<in> {98, 66} then Some (2, drop 2 t)
      else if t ! 1 \<in> {111, 79} then Some (8, drop 2 t)
      else None)"

definition ascii_digit :: "u8 \<Rightarrow> bool" where
  "ascii_digit b \<longleftrightarrow> 48 \<le> b \<and> b \<le> 57"

text \<open>The length of an exponent: a sign or none, and a digit at least.\<close>

definition exponent_len :: "str \<Rightarrow> nat" where
  "exponent_len t =
     (if t \<noteq> [] \<and> hd t \<in> {101, 69} then
        let sign = (if 1 < length t \<and> t ! 1 \<in> {43, 45} then 1 else 0);
            rest = drop (1 + sign) t in
        if rest \<noteq> [] \<and> ascii_digit (hd rest) then
          1 + sign + length (takeWhile (\<lambda>b. ascii_digit b \<or> b = 95) rest)
        else 0
      else 0)"

definition split_suffix :: "str \<Rightarrow> str \<times> str" where
  "split_suffix t =
     (if radix_digits t \<noteq> None then (t, [])
      else let i = length (takeWhile (\<lambda>b. ascii_digit b \<or> b = 95 \<or> b = 46) t);
               j = i + exponent_len (drop i t) in
        (take j t, drop j t))"

text \<open>\<open>from_str_radix\<close> of an unsigned integer: a leading \<open>+\<close> is allowed.\<close>

definition to_digit :: "nat \<Rightarrow> u8 \<Rightarrow> nat option" where
  "to_digit radix b =
     (let v = (if ascii_digit b then Some (unat b - 48)
               else if 97 \<le> b \<and> b \<le> 122 then Some (unat b - 87)
               else if 65 \<le> b \<and> b \<le> 90 then Some (unat b - 55)
               else None) in
      case v of None \<Rightarrow> None | Some d \<Rightarrow> if d < radix then Some d else None)"

fun digits_value :: "nat \<Rightarrow> nat \<Rightarrow> str \<Rightarrow> nat option" where
  "digits_value radix acc [] = Some acc"
| "digits_value radix acc (b # bs) =
     (case to_digit radix b of None \<Rightarrow> None | Some d \<Rightarrow> digits_value radix (acc * radix + d) bs)"

definition parse_u128 :: "nat \<Rightarrow> str \<Rightarrow> nat option" where
  "parse_u128 radix t =
     (let ds = (if t \<noteq> [] \<and> hd t = 43 then tl t else t) in
      if ds = [] then None
      else case digits_value radix 0 ds of None \<Rightarrow> None | Some v \<Rightarrow> if v < 2 ^ 128 then Some v else None)"

text \<open>A number token without its \<open>_\<close>, as an \<open>i128\<close>.\<close>

definition number_value :: "str \<Rightarrow> int option" where
  "number_value digits =
     (case (case radix_digits digits of Some (radix, ds) \<Rightarrow> parse_u128 radix ds | None \<Rightarrow> parse_u128 10 digits) of
        None \<Rightarrow> None
      | Some v \<Rightarrow> i128_of (int v))"

definition prim_name :: "prim \<Rightarrow> str" where
  "prim_name p = ascii (case p of
     I8 \<Rightarrow> ''i8'' | I16 \<Rightarrow> ''i16'' | I32 \<Rightarrow> ''i32'' | I64 \<Rightarrow> ''i64'' | U8 \<Rightarrow> ''u8'' | U16 \<Rightarrow> ''u16'' | U32 \<Rightarrow> ''u32''
   | U64 \<Rightarrow> ''u64'' | Usize \<Rightarrow> ''usize'' | F32 \<Rightarrow> ''f32'' | F64 \<Rightarrow> ''f64'' | PrimBool \<Rightarrow> ''bool'' | PrimChar \<Rightarrow> ''char''
   | PrimString \<Rightarrow> ''string'')"

definition all_prims :: "prim list" where
  "all_prims = [I8, I16, I32, I64, U8, U16, U32, U64, Usize, F32, F64, PrimBool, PrimChar, PrimString]"

definition suffix_prim :: "str \<Rightarrow> prim option" where
  "suffix_prim suffix = List.find (\<lambda>p. prim_name p = suffix) all_prims"

section \<open>Values and errors\<close>

datatype (plugins only: code size) cval = VInt int prim | VBool bool | VChar u32 | VStr str

fun val_prim :: "cval \<Rightarrow> prim" where
  "val_prim (VInt v p) = p"
| "val_prim (VBool b) = PrimBool"
| "val_prim (VChar c) = PrimChar"
| "val_prim (VStr s) = PrimString"

datatype (plugins only: code size) nonconst =
    TupleNotScalar | Unavailable | CallOrCast | StringForm
  | SymbolicParameter str | RuntimeData str | RefersToItself str | SuffixCalls str

datatype (plugins only: code size) const_error =
    TypeMismatch prim prim
  | Overflows prim
  | LiteralTooLarge
  | InvalidShift int prim
  | DivisionByZero
  | Nonconstant nonconst
  | UnknownName str
  | KindMismatch str

datatype (plugins only: code size) fail = Poisoned | ConstFailure const_error

type_synonym 'r outcome = "(fail + 'r) option"

abbreviation ok :: "'a \<Rightarrow> 'a outcome" where "ok v \<equiv> Some (Inr v)"
abbreviation const_fails :: "const_error \<Rightarrow> 'a outcome" where "const_fails e \<equiv> Some (Inl (ConstFailure e))"

definition ok_then :: "'a outcome \<Rightarrow> ('a \<Rightarrow> 'b outcome) \<Rightarrow> 'b outcome" where
  "ok_then x f = (case x of None \<Rightarrow> None | Some (Inl e) \<Rightarrow> Some (Inl e) | Some (Inr v) \<Rightarrow> f v)"

section \<open>Integers\<close>

definition DEPTH :: nat where "DEPTH = 64"

definition int_bounds :: "prim \<Rightarrow> int \<times> int" where
  "int_bounds p =
     (case p of
        I8 \<Rightarrow> (- (2 ^ 7), 2 ^ 7 - 1) | I16 \<Rightarrow> (- (2 ^ 15), 2 ^ 15 - 1)
      | I32 \<Rightarrow> (- (2 ^ 31), 2 ^ 31 - 1) | I64 \<Rightarrow> (- (2 ^ 63), 2 ^ 63 - 1)
      | U8 \<Rightarrow> (0, 2 ^ 8 - 1) | U16 \<Rightarrow> (0, 2 ^ 16 - 1) | U32 \<Rightarrow> (0, 2 ^ 32 - 1) | Usize \<Rightarrow> (0, 2 ^ 32 - 1)
      | _ \<Rightarrow> (0, 2 ^ 64 - 1))"

definition bit_width :: "prim \<Rightarrow> nat" where
  "bit_width p =
     (if p \<in> {I8, U8} then 8 else if p \<in> {I16, U16} then 16 else if p \<in> {I32, U32, Usize} then 32 else 64)"

definition in_bounds :: "int \<Rightarrow> prim \<Rightarrow> bool" where
  "in_bounds v p \<longleftrightarrow> fst (int_bounds p) \<le> v \<and> v \<le> snd (int_bounds p)"

definition checked_int :: "int \<Rightarrow> prim \<Rightarrow> cval outcome" where
  "checked_int v p = (if in_bounds v p then ok (VInt v p) else const_fails (Overflows p))"

definition wrap_to :: "int \<Rightarrow> prim \<Rightarrow> int" where
  "wrap_to v p =
     (let w = bit_width p; bits = v AND (2 ^ w - 1) in
      if is_unsigned p \<or> drop_bit (w - 1) bits = 0 then bits else bits - 2 ^ w)"

text \<open>A product in \<open>i128\<close>.\<close>

definition mul128 :: "int \<Rightarrow> int \<Rightarrow> (int \<Rightarrow> 'a outcome) \<Rightarrow> 'a outcome" where
  "mul128 x y f = (case i128_of (x * y) of None \<Rightarrow> None | Some z \<Rightarrow> f z)"

primrec pow_loop :: "int \<Rightarrow> prim \<Rightarrow> nat \<Rightarrow> int \<Rightarrow> int outcome" where
  "pow_loop x p 0 acc = ok acc"
| "pow_loop x p (Suc c) acc =
     mul128 acc x (\<lambda>y. if in_bounds y p then pow_loop x p c y else const_fails (Overflows p))"

definition power_value :: "int \<Rightarrow> prim \<Rightarrow> int \<Rightarrow> cval outcome" where
  "power_value x p c = ok_then
     (if x = 0 then ok (of_bool (c = 0))
      else if x = 1 then ok 1
      else if x = -1 then ok (1 - 2 * (c smod 2))
      else pow_loop x p (nat c) 1)
     (\<lambda>acc. checked_int acc p)"

text \<open>A shift left of at most 63 bits keeps a 64-bit value inside \<open>i128\<close>.\<close>

definition shift_value :: "token_kind option \<Rightarrow> int \<Rightarrow> prim \<Rightarrow> int \<Rightarrow> prim \<Rightarrow> cval outcome" where
  "shift_value op x p c cp =
     (if c < 0 \<or> int (bit_width p) \<le> c then const_fails (InvalidShift c p)
      else if \<not> is_unsigned cp then const_fails (TypeMismatch U32 cp)
      else if op = Some (TCompound Shl) then ok (VInt (wrap_to (push_bit (nat c) x) p) p)
      else ok (VInt (drop_bit (nat c) (wrap_to x p)) p))"

definition int_value :: "token_kind option \<Rightarrow> int \<Rightarrow> int \<Rightarrow> prim \<Rightarrow> cval outcome" where
  "int_value op x y p =
     (if op = Some (TPunct Plus) then checked_int (x + y) p
      else if op = Some (TPunct Minus) then checked_int (x - y) p
      else if op = Some (TPunct Star) then mul128 x y (\<lambda>z. checked_int z p)
      else if op \<in> {Some (TPunct Slash), Some (TPunct Percent)} \<and> y = 0 then const_fails DivisionByZero
      else if op = Some (TPunct Slash) then checked_int (x sdiv y) p
      else if op = Some (TPunct Percent) then checked_int (x smod y) p
      else if op = Some (TPunct Amp) then ok (VInt (x AND y) p)
      else if op = Some (TPunct Pipe) then ok (VInt (x OR y) p)
      else if op = Some (TPunct Caret) then ok (VInt (x XOR y) p)
      else const_fails (Nonconstant Unavailable))"

section \<open>Nodes\<close>

datatype (plugins only: code size) literal_token = BoolToken bool | CharToken "u32 option" | NumberToken str | OtherToken

datatype (plugins only: code size) binary_kind = ShiftKind | PowerKind | ArithKind

datatype (plugins only: code size) cnode =
    LiteralExpr literal_token
  | StringExpr "str option"
  | ParenExpr "cnode list"
  | NameExpr "str option"
  | UnaryExpr "token_kind option" "cnode list"
  | LogicalExpr bool "cnode list"
  | ComparisonExpr "token_kind option" "cnode list"
  | BinaryExpr binary_kind "token_kind option" "cnode list"
  | CallExpr
  | OtherExpr

text \<open>\<open>ConstName\<close>, and the scope of the argument.\<close>

datatype (plugins only: code size) const_name = CParam param_ref | CBinding cnode | CRuntime | CUnknown | CType | CPoison

type_synonym const_scope = "str \<Rightarrow> const_name"

definition literal_value :: "literal_token \<Rightarrow> prim option \<Rightarrow> bool \<Rightarrow> cval outcome" where
  "literal_value l want negated =
     (case l of
        BoolToken b \<Rightarrow> ok (VBool b)
      | CharToken c \<Rightarrow> (case c of Some c \<Rightarrow> ok (VChar c) | None \<Rightarrow> Some (Inl Poisoned))
      | OtherToken \<Rightarrow> Some (Inl Poisoned)
      | NumberToken t \<Rightarrow>
          let (digits, suffix) = split_suffix t;
              typed = (if suffix = [] then
                         (case want of
                            Some p \<Rightarrow> if p \<in> {PrimBool, PrimChar, PrimString} then Some I32 else Some p
                          | None \<Rightarrow> Some I32)
                       else suffix_prim suffix) in
          (case typed of
             None \<Rightarrow> const_fails (Nonconstant (SuffixCalls suffix))
           | Some p \<Rightarrow>
               if is_float p then const_fails (TypeMismatch (case want of Some w \<Rightarrow> w | None \<Rightarrow> I32) p)
               else let ds = filter (\<lambda>b. b \<noteq> 95) digits in
                 (case number_value ds of
                    Some v \<Rightarrow>
                      if negated \<and> is_unsigned p then const_fails (TypeMismatch I64 p)
                      else checked_int (if negated then - v else v) p
                  | None \<Rightarrow>
                      if list_ex (\<lambda>b. b \<in> {46, 101, 69}) ds then const_fails (TypeMismatch p F64)
                      else const_fails LiteralTooLarge)))"

fun natural :: "const_scope \<Rightarrow> nat \<Rightarrow> cnode \<Rightarrow> prim option" where
  "natural lk d (LiteralExpr l) =
     (case l of
        BoolToken b \<Rightarrow> Some PrimBool
      | CharToken c \<Rightarrow> Some PrimChar
      | NumberToken t \<Rightarrow> suffix_prim (snd (split_suffix t))
      | OtherToken \<Rightarrow> None)"
| "natural lk d (StringExpr s) = Some PrimString"
| "natural lk d (ParenExpr kids) = (case kids of [] \<Rightarrow> None | e # _ \<Rightarrow> natural lk d e)"
| "natural lk d (UnaryExpr tok kids) =
     (case tok of
        None \<Rightarrow> None
      | Some k \<Rightarrow> if k = TPunct Bang then Some PrimBool else (case kids of [] \<Rightarrow> None | e # _ \<Rightarrow> natural lk d e))"
| "natural lk d (LogicalExpr is_and kids) = Some PrimBool"
| "natural lk d (ComparisonExpr op kids) = Some PrimBool"
| "natural lk d (BinaryExpr kind op kids) =
     (case kids of
        [] \<Rightarrow> None
      | l # rest \<Rightarrow>
          (case natural lk d l of
             Some p \<Rightarrow> Some p
           | None \<Rightarrow> if kind = ArithKind then (case rest of [] \<Rightarrow> None | r # _ \<Rightarrow> natural lk d r) else None))"
| "natural lk d (NameExpr nm) =
     (case nm of
        None \<Rightarrow> None
      | Some n \<Rightarrow> (case lk n of CBinding init \<Rightarrow> if d = 0 then None else natural lk (d - 1) init | _ \<Rightarrow> None))"
| "natural lk d CallExpr = None"
| "natural lk d OtherExpr = None"

definition typed_by :: "prim option \<Rightarrow> prim option \<Rightarrow> prim" where
  "typed_by want own = (case want of Some p \<Rightarrow> p | None \<Rightarrow> (case own of Some p \<Rightarrow> p | None \<Rightarrow> I32))"

text \<open>The common type of two operands.\<close>

definition common :: "prim option \<Rightarrow> prim option \<Rightarrow> prim option \<Rightarrow> prim \<Rightarrow> prim" where
  "common want l r fallback =
     (case want of Some p \<Rightarrow> p | None \<Rightarrow> (case l of Some p \<Rightarrow> p | None \<Rightarrow> (case r of Some p \<Rightarrow> p | None \<Rightarrow> fallback)))"

definition bool_of :: "cval outcome \<Rightarrow> bool outcome" where
  "bool_of x = ok_then x (\<lambda>v. case v of VBool b \<Rightarrow> ok b | _ \<Rightarrow> const_fails (TypeMismatch PrimBool (val_prim v)))"

definition unary_value :: "token_kind \<Rightarrow> prim \<Rightarrow> cval \<Rightarrow> cval outcome" where
  "unary_value tok p v =
     (case v of
        VInt i q \<Rightarrow>
          if tok = TPunct Minus then (if is_unsigned q then const_fails (TypeMismatch I64 q) else checked_int (- i) q)
          else if tok = TPunct Plus then ok v
          else ok (VInt (wrap_to (NOT i) q) q)
      | _ \<Rightarrow> const_fails (TypeMismatch p (val_prim v)))"

datatype ordering = OLess | OEqual | OGreater

definition cmp_ints :: "int \<Rightarrow> int \<Rightarrow> ordering" where
  "cmp_ints x y = (if x < y then OLess else if x = y then OEqual else OGreater)"

fun cmp_strs :: "str \<Rightarrow> str \<Rightarrow> ordering" where
  "cmp_strs [] [] = OEqual"
| "cmp_strs [] (b # bs) = OLess"
| "cmp_strs (a # as) [] = OGreater"
| "cmp_strs (a # as) (b # bs) = (if a < b then OLess else if b < a then OGreater else cmp_strs as bs)"

definition cmp_values :: "token_kind option \<Rightarrow> cval \<Rightarrow> cval \<Rightarrow> ordering option" where
  "cmp_values op a b =
     (case (a, b) of
        (VInt x p, VInt y q) \<Rightarrow> Some (cmp_ints x y)
      | (VChar x, VChar y) \<Rightarrow> Some (cmp_ints (uint x) (uint y))
      | (VStr x, VStr y) \<Rightarrow> Some (cmp_strs x y)
      | (VBool x, VBool y) \<Rightarrow>
          if op \<in> {Some (TCompound EqEq), Some (TCompound NotEq)} then
            Some (if x = y then OEqual else if x then OGreater else OLess)
          else None
      | _ \<Rightarrow> None)"

definition compare_values :: "token_kind option \<Rightarrow> cval \<Rightarrow> cval \<Rightarrow> cval outcome" where
  "compare_values op a b =
     (if val_prim a \<noteq> val_prim b then const_fails (TypeMismatch (val_prim a) (val_prim b))
      else (case cmp_values op a b of
        None \<Rightarrow> const_fails (TypeMismatch I32 (val_prim a))
      | Some ord \<Rightarrow>
          if op = Some (TCompound EqEq) then ok (VBool (ord = OEqual))
          else if op = Some (TCompound NotEq) then ok (VBool (ord \<noteq> OEqual))
          else if op = Some (TPunct Lt) then ok (VBool (ord = OLess))
          else if op = Some (TCompound LtEq) then ok (VBool (ord \<noteq> OGreater))
          else if op = Some (TPunct Gt) then ok (VBool (ord = OGreater))
          else if op = Some (TCompound GtEq) then ok (VBool (ord \<noteq> OLess))
          else const_fails (Nonconstant Unavailable)))"

definition count_value :: "binary_kind \<Rightarrow> token_kind option \<Rightarrow> prim \<Rightarrow> cval \<Rightarrow> cval \<Rightarrow> cval outcome" where
  "count_value kind op p a b =
     (case (a, b) of
        (VInt x q, VInt c cp) \<Rightarrow>
          if kind = PowerKind then
            (if \<not> is_unsigned cp then const_fails (TypeMismatch U32 cp) else power_value x q c)
          else shift_value op x q c cp
      | (VInt x q, _) \<Rightarrow> const_fails (TypeMismatch p (val_prim b))
      | _ \<Rightarrow> const_fails (TypeMismatch p (val_prim a)))"

definition arith_value :: "token_kind option \<Rightarrow> cval \<Rightarrow> cval \<Rightarrow> cval outcome" where
  "arith_value op a b =
     (case (a, b) of
        (VStr x, VStr y) \<Rightarrow>
          if op = Some (TPunct Plus) then ok (VStr (x @ y)) else const_fails (TypeMismatch PrimString PrimString)
      | (VInt x p, VInt y q) \<Rightarrow> if p \<noteq> q then const_fails (TypeMismatch p q) else int_value op x y p
      | _ \<Rightarrow> const_fails (TypeMismatch (val_prim a) (val_prim b)))"

section \<open>The evaluator\<close>

fun eval_node :: "const_scope \<Rightarrow> nat \<Rightarrow> cnode \<Rightarrow> prim option \<Rightarrow> cval outcome" where
  "eval_node lk d (LiteralExpr l) want = literal_value l want False"
| "eval_node lk d (StringExpr s) want =
     (case s of Some s \<Rightarrow> ok (VStr s) | None \<Rightarrow> const_fails (Nonconstant StringForm))"
| "eval_node lk d (ParenExpr kids) want =
     (case kids of [e] \<Rightarrow> eval_node lk d e want | _ \<Rightarrow> const_fails (Nonconstant TupleNotScalar))"
| "eval_node lk d (NameExpr nm) want =
     (case nm of
        None \<Rightarrow> const_fails (Nonconstant Unavailable)
      | Some n \<Rightarrow>
          (case lk n of
             CParam p \<Rightarrow> const_fails (Nonconstant (SymbolicParameter n))
           | CRuntime \<Rightarrow> const_fails (Nonconstant (RuntimeData n))
           | CPoison \<Rightarrow> Some (Inl Poisoned)
           | CUnknown \<Rightarrow> const_fails (UnknownName n)
           | CType \<Rightarrow> const_fails (KindMismatch n)
           | CBinding init \<Rightarrow>
               if d = 0 then const_fails (Nonconstant (RefersToItself n)) else eval_node lk (d - 1) init want))"
| "eval_node lk d (UnaryExpr tok kids) want =
     (case kids of
        [e] \<Rightarrow>
          (case tok of
             None \<Rightarrow> const_fails (Nonconstant Unavailable)
           | Some k \<Rightarrow>
               if k = TPunct Bang then
                 ok_then (bool_of (eval_node lk d e (Some PrimBool))) (\<lambda>b. ok (VBool (\<not> b)))
               else if k \<in> {TPunct Minus, TPunct Plus, TPunct Tilde} then
                 let p = typed_by want (natural lk d e) in
                 (case (k = TPunct Minus, e) of
                    (True, LiteralExpr (NumberToken t)) \<Rightarrow> literal_value (NumberToken t) (Some p) True
                  | _ \<Rightarrow> ok_then (eval_node lk d e (Some p)) (unary_value k p))
               else const_fails (Nonconstant Unavailable))
      | _ \<Rightarrow> Some (Inl Poisoned))"
| "eval_node lk d (LogicalExpr is_and kids) want =
     (case kids of
        [l, r] \<Rightarrow>
          ok_then (bool_of (eval_node lk d l (Some PrimBool))) (\<lambda>a.
            if a \<noteq> is_and then ok (VBool a)
            else ok_then (bool_of (eval_node lk d r (Some PrimBool))) (\<lambda>b. ok (VBool b)))
      | _ \<Rightarrow> Some (Inl Poisoned))"
| "eval_node lk d (ComparisonExpr op kids) want =
     (case kids of
        [l, r] \<Rightarrow>
          let p = common None (natural lk d l) (natural lk d r) I32 in
          ok_then (eval_node lk d l (Some p)) (\<lambda>a.
            ok_then (eval_node lk d r (Some p)) (\<lambda>b. compare_values op a b))
      | _ \<Rightarrow> Some (Inl Poisoned))"
| "eval_node lk d (BinaryExpr kind op kids) want =
     (case kids of
        [l, r] \<Rightarrow>
          if kind = ArithKind then
            let p = common want (natural lk d l) (natural lk d r) (if want = Some PrimString then PrimString else I32) in
            ok_then (eval_node lk d l (Some p)) (\<lambda>a.
              ok_then (eval_node lk d r (Some p)) (\<lambda>b. arith_value op a b))
          else
            let p = typed_by want (natural lk d l);
                count = (case natural lk d r of Some c \<Rightarrow> c | None \<Rightarrow> U32) in
            ok_then (eval_node lk d l (Some p)) (\<lambda>a.
              ok_then (eval_node lk d r (Some count)) (\<lambda>b. count_value kind op p a b))
      | _ \<Rightarrow> Some (Inl Poisoned))"
| "eval_node lk d CallExpr want = const_fails (Nonconstant CallOrCast)"
| "eval_node lk d OtherExpr want = const_fails (Nonconstant Unavailable)"

section \<open>The argument\<close>

datatype (plugins only: code size) const_arg = ValueArg const_value | ParamArg param_ref | PoisonArg

definition value_bits :: "int \<Rightarrow> u64" where
  "value_bits i =
     (if - (2 ^ 63) \<le> i \<and> i < 0 then word_of_int i else if 0 \<le> i \<and> i < 2 ^ 64 then word_of_int i else 0)"

text \<open>\<^verbatim>\<open>ConstValue\<close> as one word of the type pool, and back; a word that is no character is a panic.\<close>

fun const_bits :: "const_value \<Rightarrow> u64" where
  "const_bits (ConstInt p bits) = bits"
| "const_bits (ConstBool b) = of_bool b"
| "const_bits (ConstChar c) = ucast c"
| "const_bits (ConstStr s) = ucast s"

definition const_from_bits :: "prim \<Rightarrow> u64 \<Rightarrow> const_value option" where
  "const_from_bits p bits =
     (case p of
        PrimBool \<Rightarrow> Some (ConstBool (bits \<noteq> 0))
      | PrimChar \<Rightarrow> if bits < 0x110000 \<and> \<not> (0xD800 \<le> bits \<and> bits < 0xE000) then Some (ConstChar (ucast bits)) else None
      | PrimString \<Rightarrow> if bits < 2 ^ 32 then Some (ConstStr (ucast bits)) else None
      | _ \<Rightarrow> Some (ConstInt p bits))"

definition const_value_of :: "(str \<Rightarrow> u32) \<Rightarrow> cval \<Rightarrow> const_value" where
  "const_value_of intern v =
     (case v of
        VInt i p \<Rightarrow> ConstInt p (value_bits i)
      | VBool b \<Rightarrow> ConstBool b
      | VChar c \<Rightarrow> ConstChar c
      | VStr s \<Rightarrow> ConstStr (intern s))"

definition bare_param :: "const_scope \<Rightarrow> cnode \<Rightarrow> param_ref option" where
  "bare_param lk n = (case n of NameExpr (Some nm) \<Rightarrow> (case lk nm of CParam p \<Rightarrow> Some p | _ \<Rightarrow> None) | _ \<Rightarrow> None)"

definition const_argument ::
    "(str \<Rightarrow> u32) \<Rightarrow> const_scope \<Rightarrow> cnode option \<Rightarrow> prim option \<Rightarrow> (const_error + const_arg) option" where
  "const_argument intern lk arg want =
     (case arg of
        None \<Rightarrow> Some (Inr PoisonArg)
      | Some n \<Rightarrow>
          (case bare_param lk n of
             Some p \<Rightarrow> Some (Inr (ParamArg p))
           | None \<Rightarrow>
               (case eval_node lk DEPTH n want of
                  None \<Rightarrow> None
                | Some (Inl Poisoned) \<Rightarrow> Some (Inr PoisonArg)
                | Some (Inl (ConstFailure e)) \<Rightarrow> Some (Inl e)
                | Some (Inr v) \<Rightarrow>
                    (case want of
                       None \<Rightarrow> Some (Inr PoisonArg)
                     | Some w \<Rightarrow>
                         if val_prim v \<noteq> w then Some (Inl (TypeMismatch w (val_prim v)))
                         else Some (Inr (ValueArg (const_value_of intern v)))))))"

end
