(* ===== verification/ConstValues.thy ===== *)
theory ConstValues
  imports ConstEval
begin

text \<open>
  The const evaluator against the types and the integers of the language: every value fits its type, the type is
  the one \<open>natural\<close> announces, a power is exact, and the bits put in the type are the value.
\<close>

section \<open>Outcomes\<close>

lemma ok_then_ok: "ok_then x f = ok v \<longleftrightarrow> (\<exists>a. x = ok a \<and> f a = ok v)"
  by (auto simp: ok_then_def split: option.splits sum.splits)

lemma ok_then_simps [simp]:
  "ok_then None f = None" "ok_then (Some (Inl e)) f = Some (Inl e)" "ok_then (Some (Inr v)) f = f v"
  by (simp_all add: ok_then_def)

lemma bool_of_ok: "bool_of x = ok b \<longleftrightarrow> x = ok (VBool b)"
proof -
  have "(case v of VBool b \<Rightarrow> ok b | _ \<Rightarrow> const_fails (TypeMismatch PrimBool (val_prim v))) = ok b \<longleftrightarrow> v = VBool b" for v
    by (cases v) auto
  then show ?thesis by (auto simp: bool_of_def ok_then_ok)
qed

section \<open>Bounds\<close>

fun fits_type :: "cval \<Rightarrow> bool" where
  "fits_type (VInt v p) = (is_integer p \<longrightarrow> in_bounds v p)"
| "fits_type v = True"

lemma signed_bounds: "is_integer p \<Longrightarrow> \<not> is_unsigned p \<Longrightarrow>
    int_bounds p = (- (2 ^ (bit_width p - 1)), 2 ^ (bit_width p - 1) - 1)"
  by (cases p) (auto simp: int_bounds_def bit_width_def is_integer_def is_unsigned_def)

lemma unsigned_bounds: "is_unsigned p \<Longrightarrow> int_bounds p = (0, 2 ^ bit_width p - 1)"
  by (cases p) (auto simp: int_bounds_def bit_width_def is_integer_def is_unsigned_def)

lemma bit_width_cases: "bit_width p \<in> {8, 16, 32, 64}"
  by (simp add: bit_width_def)

lemma in_bounds_unsigned: "is_unsigned p \<Longrightarrow> in_bounds v p \<longleftrightarrow> take_bit (bit_width p) v = v"
  by (auto simp: in_bounds_def unsigned_bounds take_bit_int_eq_self_iff)

lemma in_bounds_signed:
  "is_integer p \<Longrightarrow> \<not> is_unsigned p \<Longrightarrow> in_bounds v p \<longleftrightarrow> signed_take_bit (bit_width p - 1) v = v"
  by (auto simp: in_bounds_def signed_bounds signed_take_bit_int_eq_self_iff)

lemma kept_unsigned:
  fixes x y :: int
  assumes "take_bit n x = x" "take_bit n y = y"
  shows "take_bit n (x AND y) = x AND y" "take_bit n (x OR y) = x OR y" "take_bit n (x XOR y) = x XOR y"
  using assms by (simp_all only: take_bit_and take_bit_or take_bit_xor)

lemma kept_signed:
  fixes x y :: int
  assumes "signed_take_bit n x = x" "signed_take_bit n y = y"
  shows "signed_take_bit n (x AND y) = x AND y" "signed_take_bit n (x OR y) = x OR y"
    "signed_take_bit n (x XOR y) = x XOR y"
proof -
  have "bit x (min n m) = bit x m" "bit y (min n m) = bit y m" for m
    using arg_cong [OF assms(1), of "\<lambda>z. bit z m"] arg_cong [OF assms(2), of "\<lambda>z. bit z m"]
    by (simp_all add: bit_signed_take_bit_iff min.commute [of m])
  then show "signed_take_bit n (x AND y) = x AND y" "signed_take_bit n (x OR y) = x OR y"
    "signed_take_bit n (x XOR y) = x XOR y"
    by (auto intro!: bit_eqI simp: bit_signed_take_bit_iff bit_and_iff bit_or_iff bit_xor_iff)
qed

lemma in_bounds_bits:
  assumes "is_integer p" "in_bounds x p" "in_bounds y p"
  shows "in_bounds (x AND y) p" "in_bounds (x OR y) p" "in_bounds (x XOR y) p"
  using assms kept_unsigned [of "bit_width p" x y] kept_signed [of "bit_width p - 1" x y]
  by (cases "is_unsigned p"; simp only: in_bounds_unsigned in_bounds_signed not_False_eq_True)+

text \<open>The wrapped value is the one whose bits the machine keeps.\<close>

lemma wrap_to_unsigned: "is_unsigned p \<Longrightarrow> wrap_to v p = take_bit (bit_width p) v"
  by (simp add: wrap_to_def Let_def take_bit_eq_mask mask_eq_exp_minus_1)

lemma wrap_to_signed: "is_integer p \<Longrightarrow> \<not> is_unsigned p \<Longrightarrow> wrap_to v p = signed_take_bit (bit_width p - 1) v"
proof -
  assume p: "is_integer p" "\<not> is_unsigned p"
  obtain w where w: "bit_width p = Suc w" using bit_width_cases [of p] by (cases "bit_width p") auto
  have bits: "v AND (2 ^ bit_width p - 1) = take_bit (Suc w) v" by (simp add: w take_bit_eq_mask mask_eq_exp_minus_1)
  have "drop_bit w (take_bit (Suc w) v) = of_bool (bit v w)"
  proof -
    have "drop_bit w (take_bit (Suc w) v) = take_bit 1 (drop_bit w v)"
      unfolding drop_bit_take_bit by (rule arg_cong2 [where f = take_bit]) simp_all
    then show ?thesis by (simp add: bit_iff_odd_drop_bit mod2_eq_if)
  qed
  moreover have "signed_take_bit w v = take_bit (Suc w) v - of_bool (bit v w) * 2 ^ Suc w"
    by (simp add: signed_take_bit_eq_take_bit_minus)
  moreover have "wrap_to v p = (if drop_bit w (take_bit (Suc w) v) = 0 then take_bit (Suc w) v else take_bit (Suc w) v - 2 ^ Suc w)"
    unfolding wrap_to_def Let_def bits using p(2) by (simp add: w del: power_Suc)
  ultimately show ?thesis using p by (simp add: w)
qed

lemma wrap_to_fits: "is_integer p \<Longrightarrow> in_bounds (wrap_to v p) p"
  by (cases "is_unsigned p") (simp_all add: in_bounds_unsigned in_bounds_signed wrap_to_unsigned wrap_to_signed)

lemma div_power_bounds:
  fixes v :: int
  assumes "- a \<le> v" "v < b" "0 \<le> a" "0 < b"
  shows "- a \<le> v div 2 ^ n" "v div 2 ^ n < b"
proof -
  have one: "(1 :: int) \<le> 2 ^ n" by simp
  have "b * 1 \<le> b * 2 ^ n" "a * 1 \<le> a * 2 ^ n" using assms(3,4) one by (intro mult_left_mono; simp)+
  then have "v < b * 2 ^ n" "- a * 2 ^ n \<le> v" using assms(1,2) by auto
  then have mono: "- a * 2 ^ n div 2 ^ n \<le> v div 2 ^ n" by (intro zdiv_mono1) simp_all
  moreover have "- a * 2 ^ n div 2 ^ n = - a" by (rule nonzero_mult_div_cancel_right) simp
  ultimately show "- a \<le> v div 2 ^ n" by simp
  show "v div 2 ^ n < b"
  proof (rule ccontr)
    assume "\<not> v div 2 ^ n < b"
    then have "b * 2 ^ n \<le> v div 2 ^ n * 2 ^ n" by (intro mult_right_mono) simp_all
    moreover have "v div 2 ^ n * 2 ^ n + v mod 2 ^ n = v" "0 \<le> v mod 2 ^ n"
      by (rule div_mult_mod_eq) simp
    ultimately show False using \<open>v < b * 2 ^ n\<close> by linarith
  qed
qed

lemma shift_right_fits: "is_integer p \<Longrightarrow> in_bounds v p \<Longrightarrow> in_bounds (drop_bit n v) p"
  using div_power_bounds [of 0 v "2 ^ bit_width p" n] div_power_bounds [of "2 ^ (bit_width p - 1)" v "2 ^ (bit_width p - 1)" n]
  by (cases "is_unsigned p") (auto simp: in_bounds_def unsigned_bounds signed_bounds drop_bit_eq_div)

section \<open>Types\<close>

text \<open>The type of an integer without a type of its own, where \<open>want\<close> is expected.\<close>

definition wanted :: "prim option \<Rightarrow> prim" where
  "wanted want = (case want of Some p \<Rightarrow> if p \<in> {PrimBool, PrimChar, PrimString} then I32 else p | None \<Rightarrow> I32)"

definition type_of :: "const_scope \<Rightarrow> nat \<Rightarrow> cnode \<Rightarrow> prim option \<Rightarrow> prim" where
  "type_of lk d n want = (case natural lk d n of Some p \<Rightarrow> p | None \<Rightarrow> wanted want)"

lemma checked_int_ok: "checked_int v p = ok r \<longleftrightarrow> in_bounds v p \<and> r = VInt v p"
  by (auto simp: checked_int_def)

lemma wanted_simps [simp]: "wanted None = I32" "wanted (Some (wanted w)) = wanted w" "wanted (Some I32) = I32"
  by (auto simp: wanted_def split: option.split)

lemma suffix_none: "suffix_prim [] = None"
  by (simp add: suffix_prim_def all_prims_def prim_name_def ascii_def)

definition number_type :: "str \<Rightarrow> prim option \<Rightarrow> prim option" where
  "number_type suffix want = (if suffix = [] then Some (wanted want) else suffix_prim suffix)"

lemma number_ok:
  assumes "literal_value (NumberToken t) want neg = ok r"
  shows "\<exists>v p. r = VInt v p \<and> number_type (snd (split_suffix t)) want = Some p \<and> \<not> is_float p \<and> in_bounds v p"
proof -
  obtain digits suffix where split: "split_suffix t = (digits, suffix)" by force
  have typed: "(if suffix = [] then
        (case want of Some p \<Rightarrow> if p \<in> {PrimBool, PrimChar, PrimString} then Some I32 else Some p | None \<Rightarrow> Some I32)
      else suffix_prim suffix) = number_type suffix want"
    by (auto simp: number_type_def wanted_def split: option.split)
  show ?thesis using assms
    by (auto simp: literal_value_def split typed checked_int_ok Let_def split: option.splits if_splits)
qed

lemma number_typed:
  assumes "literal_value (NumberToken t) want neg = ok r"
  shows "fits_type r \<and> val_prim r = (case suffix_prim (snd (split_suffix t)) of Some p \<Rightarrow> p | None \<Rightarrow> wanted want)"
proof -
  obtain v p where r: "r = VInt v p" "number_type (snd (split_suffix t)) want = Some p" "in_bounds v p"
    using number_ok [OF assms] by blast
  then show ?thesis by (cases "snd (split_suffix t) = []") (auto simp: number_type_def suffix_none)
qed

lemma literal_typed:
  assumes "literal_value l want neg = ok r"
  shows "fits_type r \<and> val_prim r = type_of lk d (LiteralExpr l) want"
proof (cases l)
  case (NumberToken t)
  then show ?thesis using number_typed assms by (simp add: type_of_def)
qed (use assms in \<open>auto simp: literal_value_def type_of_def split: option.splits\<close>)

lemma unary_typed:
  assumes "unary_value k p v = ok r" "fits_type v"
  shows "fits_type r \<and> val_prim r = val_prim v"
  using assms by (cases v) (auto simp: unary_value_def checked_int_ok wrap_to_fits split: if_splits)

lemma compare_typed: "compare_values op a b = ok r \<Longrightarrow> \<exists>b. r = VBool b"
  by (auto simp: compare_values_def split: option.splits if_splits)

lemma power_typed: "power_value x p c = ok r \<Longrightarrow> \<exists>v. r = VInt v p \<and> in_bounds v p"
  by (auto simp: power_value_def ok_then_ok checked_int_ok)

lemma shift_typed:
  "shift_value op x p c cp = ok r \<Longrightarrow> is_integer p \<longrightarrow> in_bounds x p \<Longrightarrow> \<exists>v. r = VInt v p \<and> (is_integer p \<longrightarrow> in_bounds v p)"
  by (auto simp: shift_value_def wrap_to_fits shift_right_fits split: if_splits)

lemma count_typed:
  assumes "count_value kind op p a b = ok r" "fits_type a"
  shows "fits_type r \<and> val_prim r = val_prim a"
  using assms by (cases a; cases b) (auto simp: count_value_def split: if_splits dest!: power_typed shift_typed)

lemma int_typed:
  assumes "int_value op x y p = ok r" "is_integer p \<longrightarrow> in_bounds x p \<and> in_bounds y p"
  shows "\<exists>v. r = VInt v p \<and> (is_integer p \<longrightarrow> in_bounds v p)"
  using assms by (auto simp: int_value_def mul128_def checked_int_ok in_bounds_bits split: if_splits option.splits)

lemma arith_typed:
  assumes "arith_value op a b = ok r" "fits_type a" "fits_type b"
  shows "fits_type r \<and> val_prim r = val_prim a \<and> val_prim a = val_prim b"
  using assms by (cases a; cases b) (auto simp: arith_value_def split: if_splits dest!: int_typed)

lemma type_of_arith:
  assumes "ta = type_of lk d l (Some p)" "tb = type_of lk d r (Some p)" "ta = tb"
    and "p = common want (natural lk d l) (natural lk d r) (if want = Some PrimString then PrimString else I32)"
  shows "ta = type_of lk d (BinaryExpr ArithKind op [l, r]) want"
  using assms by (auto simp: type_of_def common_def split: option.splits)

lemma type_of_count:
  assumes "ta = type_of lk d l (Some (typed_by want (natural lk d l)))" "kind \<noteq> ArithKind"
  shows "ta = type_of lk d (BinaryExpr kind op [l, r]) want"
  using assms by (auto simp: type_of_def typed_by_def split: option.splits)

lemma type_of_unary:
  assumes "t = type_of lk d e (Some (typed_by want (natural lk d e)))" "k \<noteq> TPunct Bang"
  shows "t = type_of lk d (UnaryExpr (Some k) [e]) want"
  using assms by (auto simp: type_of_def typed_by_def split: option.splits)

text \<open>A successful evaluation, by the kind of the node.\<close>

lemma two_kids: "(case kids of [l, r] \<Rightarrow> F l r | _ \<Rightarrow> Some (Inl Poisoned)) = ok v \<longleftrightarrow> (\<exists>l r. kids = [l, r] \<and> F l r = ok v)"
  by (auto split: list.splits)

lemma one_kid: "(case kids of [e] \<Rightarrow> F e | _ \<Rightarrow> Some (Inl g)) = ok v \<longleftrightarrow> (\<exists>e. kids = [e] \<and> F e = ok v)"
  by (auto split: list.splits)

lemma eval_paren: "eval_node lk d (ParenExpr kids) want = ok v \<Longrightarrow> \<exists>e. kids = [e] \<and> eval_node lk d e want = ok v"
  by (simp add: one_kid)

lemma eval_name: "eval_node lk d (NameExpr nm) want = ok v \<Longrightarrow>
    \<exists>n init. nm = Some n \<and> lk n = CBinding init \<and> d \<noteq> 0 \<and> eval_node lk (d - 1) init want = ok v"
  by (auto split: option.splits const_name.splits if_splits)

lemma eval_unary: "eval_node lk d (UnaryExpr tok kids) want = ok v \<Longrightarrow> \<exists>e k. kids = [e] \<and> tok = Some k \<and>
    (k = TPunct Bang \<and> (\<exists>b. v = VBool b) \<or>
     k \<noteq> TPunct Bang \<and> (\<exists>t. e = LiteralExpr (NumberToken t) \<and>
       literal_value (NumberToken t) (Some (typed_by want (natural lk d e))) True = ok v) \<or>
     k \<noteq> TPunct Bang \<and> (\<exists>a. eval_node lk d e (Some (typed_by want (natural lk d e))) = ok a \<and>
       unary_value k (typed_by want (natural lk d e)) a = ok v))"
  apply (simp add: one_kid)
  apply (erule exE)
  subgoal for e
    by (cases tok) (auto simp: ok_then_ok Let_def split: if_splits cnode.splits literal_token.splits bool.splits)
  done

lemma eval_logical: "eval_node lk d (LogicalExpr a kids) want = ok v \<Longrightarrow> \<exists>b. v = VBool b"
  by (auto simp: two_kids ok_then_ok split: if_splits)

lemma eval_comparison: "eval_node lk d (ComparisonExpr op kids) want = ok v \<Longrightarrow> \<exists>b. v = VBool b"
  by (auto simp: two_kids ok_then_ok Let_def dest: compare_typed)

lemma eval_arith: "eval_node lk d (BinaryExpr ArithKind op kids) want = ok v \<Longrightarrow> \<exists>l r p a b. kids = [l, r] \<and>
    p = common want (natural lk d l) (natural lk d r) (if want = Some PrimString then PrimString else I32) \<and>
    eval_node lk d l (Some p) = ok a \<and> eval_node lk d r (Some p) = ok b \<and> arith_value op a b = ok v"
  by (auto simp: two_kids ok_then_ok Let_def)

lemma eval_count: "eval_node lk d (BinaryExpr kind op kids) want = ok v \<Longrightarrow> kind \<noteq> ArithKind \<Longrightarrow>
    \<exists>l r count a b. kids = [l, r] \<and> eval_node lk d l (Some (typed_by want (natural lk d l))) = ok a \<and>
      eval_node lk d r (Some count) = ok b \<and> count_value kind op (typed_by want (natural lk d l)) a b = ok v"
  by (auto simp: two_kids ok_then_ok Let_def) blast

lemma eval_typed: "eval_node lk d n want = ok v \<Longrightarrow> fits_type v \<and> val_prim v = type_of lk d n want"
proof (induction d arbitrary: n want v rule: less_induct)
  case (less d)
  note deeper = less.IH
  from less.prems show ?case
  proof (induction n arbitrary: want v rule: measure_induct_rule [where f = size])
    case (less n)
    note parts = less.IH
    show ?case
    proof (cases n)
      case (LiteralExpr l)
      then show ?thesis using literal_typed less.prems by simp
    next
      case (StringExpr s)
      then show ?thesis using less.prems by (auto simp: type_of_def split: option.splits)
    next
      case (ParenExpr kids)
      then obtain e where e: "kids = [e]" "eval_node lk d e want = ok v" using eval_paren less.prems by blast
      then show ?thesis using parts [of e] by (simp add: ParenExpr type_of_def)
    next
      case (NameExpr nm)
      then obtain m init where i: "nm = Some m" "lk m = CBinding init" "d \<noteq> 0" "eval_node lk (d - 1) init want = ok v"
        using eval_name less.prems by blast
      then show ?thesis using deeper [of "d - 1" init] by (simp add: NameExpr type_of_def)
    next
      case (UnaryExpr tok kids)
      then obtain e k where e: "kids = [e]" "tok = Some k" and how: "k = TPunct Bang \<and> (\<exists>b. v = VBool b) \<or>
          k \<noteq> TPunct Bang \<and> (\<exists>t. e = LiteralExpr (NumberToken t) \<and>
            literal_value (NumberToken t) (Some (typed_by want (natural lk d e))) True = ok v) \<or>
          k \<noteq> TPunct Bang \<and> (\<exists>a. eval_node lk d e (Some (typed_by want (natural lk d e))) = ok a \<and>
            unary_value k (typed_by want (natural lk d e)) a = ok v)"
        using eval_unary [of lk d tok kids want v] less.prems by blast
      have small: "size e < size n" by (simp add: UnaryExpr e)
      from how consider (bang) b where "k = TPunct Bang" "v = VBool b"
        | (literal) t where "k \<noteq> TPunct Bang" "e = LiteralExpr (NumberToken t)"
            "literal_value (NumberToken t) (Some (typed_by want (natural lk d e))) True = ok v"
        | (plain) a where "k \<noteq> TPunct Bang" "eval_node lk d e (Some (typed_by want (natural lk d e))) = ok a"
            "unary_value k (typed_by want (natural lk d e)) a = ok v" by blast
      then show ?thesis
      proof cases
        case bang
        then show ?thesis by (simp add: UnaryExpr e type_of_def)
      next
        case literal
        from literal_typed [OF literal(3), of lk d] show ?thesis
          unfolding UnaryExpr e using type_of_unary [OF _ literal(1)] literal(2) by blast
      next
        case plain
        have a: "fits_type a" "val_prim a = type_of lk d e (Some (typed_by want (natural lk d e)))"
          using parts [OF small plain(2)] by simp_all
        have "fits_type v" "val_prim v = val_prim a" using unary_typed [OF plain(3) a(1)] by simp_all
        then show ?thesis unfolding UnaryExpr e using type_of_unary [OF _ plain(1)] a(2) by simp
      qed
    next
      case (LogicalExpr c kids)
      then obtain b where "v = VBool b" using eval_logical less.prems by blast
      then show ?thesis by (simp add: LogicalExpr type_of_def)
    next
      case (ComparisonExpr op kids)
      then obtain b where "v = VBool b" using eval_comparison less.prems by blast
      then show ?thesis by (simp add: ComparisonExpr type_of_def)
    next
      case (BinaryExpr kind op kids)
      show ?thesis
      proof (cases "kind = ArithKind")
        case True
        then obtain l r p a b where b: "kids = [l, r]"
            "p = common want (natural lk d l) (natural lk d r) (if want = Some PrimString then PrimString else I32)"
            "eval_node lk d l (Some p) = ok a" "eval_node lk d r (Some p) = ok b" "arith_value op a b = ok v"
          using eval_arith less.prems BinaryExpr by blast
        have ab: "fits_type a \<and> val_prim a = type_of lk d l (Some p)" "fits_type b \<and> val_prim b = type_of lk d r (Some p)"
          by (rule parts; use b(3,4) in \<open>simp add: BinaryExpr b(1)\<close>)+
        note v = arith_typed [OF b(5) conjunct1 [OF ab(1)] conjunct1 [OF ab(2)]]
        then show ?thesis unfolding BinaryExpr b(1) True
          using type_of_arith [OF conjunct2 [OF ab(1)] conjunct2 [OF ab(2)] _ b(2)] by simp
      next
        case False
        then obtain l r count a b where b: "kids = [l, r]" "eval_node lk d l (Some (typed_by want (natural lk d l))) = ok a"
            "count_value kind op (typed_by want (natural lk d l)) a b = ok v"
          using eval_count less.prems BinaryExpr by blast
        have a: "fits_type a \<and> val_prim a = type_of lk d l (Some (typed_by want (natural lk d l)))"
          by (rule parts; use b(2) in \<open>simp add: BinaryExpr b(1)\<close>)
        note v = count_typed [OF b(3) conjunct1 [OF a]]
        then show ?thesis unfolding BinaryExpr b(1) using type_of_count [OF conjunct2 [OF a] False] by simp
      qed
    qed (use less.prems in simp_all)
  qed
qed

section \<open>Powers\<close>

lemma power_mono_abs: "k \<le> n \<Longrightarrow> 1 \<le> \<bar>x :: int\<bar> \<Longrightarrow> \<bar>x ^ k\<bar> \<le> \<bar>x ^ n\<bar>"
  by (simp add: power_abs power_increasing)

lemma in_bounds_power_le:
  assumes p: "is_integer p" and x: "2 \<le> \<bar>x\<bar>" "in_bounds x p" and out: "\<not> in_bounds (x ^ k) p" and "k \<le> n"
  shows "\<not> in_bounds (x ^ n) p"
proof (cases "is_unsigned p")
  case True
  then have "x ^ k \<le> x ^ n" using x \<open>k \<le> n\<close> by (intro power_increasing) (auto simp: in_bounds_def unsigned_bounds)
  moreover have "0 \<le> x ^ k" using x True by (simp add: in_bounds_def unsigned_bounds)
  ultimately show ?thesis using out True by (auto simp: in_bounds_def unsigned_bounds)
next
  case False
  let ?b = "2 ^ (bit_width p - 1) :: int"
  have k: "?b \<le> x ^ k \<or> x ^ k < - ?b" using out p False by (auto simp: in_bounds_def signed_bounds)
  show ?thesis
  proof (cases "k = n")
    case True
    then show ?thesis using out by simp
  next
    case False
    then have "\<bar>x ^ Suc k\<bar> \<le> \<bar>x ^ n\<bar>" using \<open>k \<le> n\<close> x(1) by (intro power_mono_abs) simp_all
    moreover have "2 * \<bar>x ^ k\<bar> \<le> \<bar>x ^ Suc k\<bar>" using x(1) by (simp add: abs_mult mult_right_mono)
    moreover have "0 < ?b" by simp
    ultimately have "?b < \<bar>x ^ n\<bar>" using k by linarith
    then show ?thesis using p \<open>\<not> is_unsigned p\<close> by (auto simp: in_bounds_def signed_bounds)
  qed
qed

lemma pow_loop_exact:
  assumes p: "is_integer p" and x: "2 \<le> \<bar>x\<bar>" "in_bounds x p"
  shows "in_bounds (x ^ k) p \<Longrightarrow> pow_loop x p c (x ^ k) =
      (if in_bounds (x ^ (k + c)) p then ok (x ^ (k + c)) else const_fails (Overflows p)) \<or>
    pow_loop x p c (x ^ k) = None \<and> p = U64 \<and> \<not> in_bounds (x ^ (k + c)) p"
proof (induction c arbitrary: k)
  case 0
  then show ?case by simp
next
  case (Suc c)
  have step: "x ^ k * x = x ^ Suc k" by simp
  show ?case
  proof (cases "i128_of (x ^ Suc k)")
    case None
    have "p = U64"
    proof (rule ccontr)
      assume "p \<noteq> U64"
      have b: "\<bar>x ^ k\<bar> \<le> 2 ^ 63" "\<bar>x\<bar> \<le> 2 ^ 63"
        using Suc.prems x(2) p \<open>p \<noteq> U64\<close> by (cases p; auto simp: in_bounds_def int_bounds_def is_integer_def)+
      have "\<bar>x ^ Suc k\<bar> \<le> 2 ^ 63 * 2 ^ 63" unfolding power_Suc2 abs_mult by (intro mult_mono b) simp_all
      then show False using None by (auto simp: i128_of_def split: if_splits)
    qed
    moreover have "\<not> in_bounds (x ^ Suc k) p"
      using None p by (cases p) (auto simp: i128_of_def in_bounds_def int_bounds_def is_integer_def split: if_splits)
    then have "\<not> in_bounds (x ^ (k + Suc c)) p" by (rule in_bounds_power_le [OF p x]) simp
    ultimately show ?thesis using None by (simp add: mul128_def step del: power_Suc)
  next
    case (Some y)
    then have y: "y = x ^ Suc k" by (simp add: i128_of_def split: if_splits)
    show ?thesis
    proof (cases "in_bounds (x ^ Suc k) p")
      case True
      then have turn: "pow_loop x p (Suc c) (x ^ k) = pow_loop x p c (x ^ Suc k)"
        using Some y by (simp add: mul128_def step del: power_Suc)
      have "k + Suc c = Suc k + c" by simp
      then show ?thesis using Suc.IH [OF True] unfolding turn by (simp only:)
    next
      case False
      then have "\<not> in_bounds (x ^ (k + Suc c)) p" by (rule in_bounds_power_le [OF p x]) simp
      then show ?thesis using False Some y by (simp add: mul128_def step del: power_Suc)
    qed
  qed
qed

lemma minus_one_power: "0 \<le> c \<Longrightarrow> 1 - 2 * (c smod 2) = (- 1 :: int) ^ nat c"
proof -
  assume "0 \<le> c"
  then obtain n where "c = int n" using nonneg_int_cases by blast
  then show ?thesis by (cases "even n") (auto simp: signed_modulo_int_def elim!: evenE oddE simp flip: of_nat_mod)
qed

text \<open>A power is exact: for a base of an integer type and an exponent that is not negative, the evaluator gives the
  mathematical power when it fits the type, and the overflow error when it does not; the only other outcome is the
  panic of a product past \<open>i128\<close>, which needs an overflowing \<open>u64\<close>.\<close>

lemma power_exact:
  assumes "is_integer p" "in_bounds x p" "0 \<le> c"
  shows "power_value x p c =
      (if in_bounds (x ^ nat c) p then ok (VInt (x ^ nat c) p) else const_fails (Overflows p)) \<or>
    power_value x p c = None \<and> p = U64 \<and> \<not> in_bounds (x ^ nat c) p"
proof -
  consider "x = 0" | "x = 1" | "x = -1" | "2 \<le> \<bar>x\<bar>" by linarith
  then show ?thesis
  proof cases
    case 1
    then show ?thesis using assms(3) by (cases "c = 0") (auto simp: power_value_def checked_int_def zero_power)
  next
    case 2
    then show ?thesis by (simp add: power_value_def checked_int_def)
  next
    case 3
    then show ?thesis by (simp add: power_value_def checked_int_def minus_one_power [OF assms(3)])
  next
    case 4
    have "in_bounds (x ^ 0) p" using assms(1,2) 4
      by (cases p) (auto simp: in_bounds_def int_bounds_def is_integer_def)
    from pow_loop_exact [OF assms(1) 4 assms(2) this, of "nat c"] show ?thesis
      using 4 by (auto simp: power_value_def checked_int_def)
  qed
qed

lemma power_exact_witness: "power_value 3 U8 5 = ok (VInt 243 U8)"
proof -
  have "is_integer U8" "in_bounds 3 U8" "(0 :: int) \<le> 5" by (simp_all add: is_integer_def in_bounds_def int_bounds_def)
  from power_exact [OF this] show ?thesis by (simp add: in_bounds_def int_bounds_def)
qed

section \<open>The argument\<close>

text \<open>The value of the bits of an integer type.\<close>

definition bits_value :: "prim \<Rightarrow> u64 \<Rightarrow> int" where
  "bits_value p bits = (if is_unsigned p then uint bits else sint bits)"

lemma bits_value_bits: "is_integer p \<Longrightarrow> in_bounds i p \<Longrightarrow> bits_value p (value_bits i) = i"
  by (cases p) (auto simp: bits_value_def value_bits_def in_bounds_def int_bounds_def is_integer_def is_unsigned_def
    uint_word_of_int sint_sbintrunc' take_bit_int_eq_self_iff signed_take_bit_int_eq_self_iff)

lemma const_argument_parts:
  assumes "const_argument intern lk arg (Some w) = Some (Inr (ValueArg c))"
  obtains n v where "arg = Some n" "eval_node lk DEPTH n (Some w) = ok v" "val_prim v = w" "c = const_value_of intern v"
  using assms by (auto simp: const_argument_def split: option.splits sum.splits fail.splits if_splits)

text \<open>C23. A const argument of an integer type is the value of its expression: what is put in the type decodes to the
  value the expression evaluates to, the value fits the parameter's type, and the word kept in the type pool gives the
  same constant back.\<close>

theorem const_argument_value:
  assumes "const_argument intern lk arg (Some w) = Some (Inr (ValueArg c))" "is_integer w"
  shows "\<exists>n i. arg = Some n \<and> eval_node lk DEPTH n (Some w) = ok (VInt i w) \<and> in_bounds i w \<and>
    const_prim c = w \<and> bits_value w (const_bits c) = i \<and> const_from_bits w (const_bits c) = Some c"
proof -
  obtain n v where v: "arg = Some n" "eval_node lk DEPTH n (Some w) = ok v" "val_prim v = w" "c = const_value_of intern v"
    using const_argument_parts [OF assms(1)] .
  then obtain i where i: "v = VInt i w" using assms(2) by (cases v) (auto simp: is_integer_def)
  have "in_bounds i w" using eval_typed [OF v(2)] assms(2) i by simp
  moreover have "const_from_bits w (value_bits i) = Some (ConstInt w (value_bits i))"
    using assms(2) by (cases w) (simp_all add: const_from_bits_def is_integer_def)
  ultimately show ?thesis using v i bits_value_bits [OF assms(2)] by (auto simp: const_value_of_def)
qed

lemmas number_parts = literal_value_def split_suffix_def radix_digits_def ascii_def ascii_digit_def exponent_len_def
  number_value_def parse_u128_def to_digit_def suffix_prim_def all_prims_def prim_name_def i128_of_def checked_int_def
  in_bounds_def int_bounds_def is_unsigned_def is_float_def

lemmas argument_parts = const_argument_def bare_param_def DEPTH_def common_def typed_by_def const_value_of_def value_bits_def

definition number :: "string \<Rightarrow> cnode" where
  "number s = LiteralExpr (NumberToken (ascii s))"

definition no_names :: const_scope where "no_names = (\<lambda>n. CUnknown)"

lemma sample_argument:
  "const_argument (\<lambda>s. 0) no_names (Some (BinaryExpr ArithKind (Some (TPunct Minus)) [number ''3'', number ''5i8''])) (Some I8) =
    Some (Inr (ValueArg (ConstInt I8 (- 2))))"
  by (simp add: argument_parts number_parts number_def arith_value_def int_value_def)

theorem const_argument_value_witness: "bits_value I8 (const_bits (ConstInt I8 (- 2))) = -2"
proof -
  have "is_integer I8" by (simp add: is_integer_def)
  from const_argument_value [OF sample_argument this] show ?thesis by (simp add: bits_value_def is_unsigned_def)
qed

text \<open>The type of a const expression is the one \<open>natural\<close> announces before the evaluation: a suffix, an operator's
  result or a named constant's type; an expression without one takes the expected type, or \<open>i32\<close>. An integer of an
  integer type fits it after every operation.\<close>

lemma value_typed:
  assumes "eval_node lk d n want = ok v"
  shows "val_prim v = (case natural lk d n of Some p \<Rightarrow> p | None \<Rightarrow> wanted want) \<and>
    (\<forall>i p. v = VInt i p \<and> is_integer p \<longrightarrow> in_bounds i p)"
  using eval_typed [OF assms] by (auto simp: type_of_def)

lemma sample_shift:
  "eval_node no_names DEPTH (BinaryExpr ShiftKind (Some (TCompound Shl)) [number ''3u8'', number ''7'']) (Some U16) = ok (VInt 128 U8)"
  "natural no_names DEPTH (BinaryExpr ShiftKind (Some (TCompound Shl)) [number ''3u8'', number ''7'']) = Some U8"
  by (simp_all add: argument_parts number_parts number_def count_value_def shift_value_def bit_width_def wrap_to_def Let_def)

lemma value_typed_witness: "val_prim (VInt 128 U8) = U8 \<and> in_bounds 128 U8"
  using value_typed [OF sample_shift(1)] sample_shift(2) by (simp add: is_integer_def)

section \<open>Named constants\<close>

text \<open>Named constants that refer to each other without end are reported: when every name of a set is bound to
  a name of the set, evaluating one fails with the error of a constant that refers to itself, at any depth.\<close>

lemma cyclic_names_reported:
  assumes "\<forall>m\<in>N. \<exists>k\<in>N. lk m = CBinding (NameExpr (Some k))" "n \<in> N"
  shows "\<exists>m\<in>N. eval_node lk d (NameExpr (Some n)) want = const_fails (Nonconstant (RefersToItself m))"
  using assms(2)
proof (induction d arbitrary: n)
  case 0
  then obtain k where "lk n = CBinding (NameExpr (Some k))" using assms(1) by blast
  then show ?case using 0 by auto
next
  case (Suc d)
  then obtain k where k: "k \<in> N" "lk n = CBinding (NameExpr (Some k))" using assms(1) by blast
  from Suc.IH [OF k(1)] show ?case by (simp add: k(2))
qed

definition two_names :: const_scope where
  "two_names n = (if n = ascii ''A'' then CBinding (NameExpr (Some (ascii ''B''))) else CBinding (NameExpr (Some (ascii ''A''))))"

lemma cyclic_names_reported_witness:
  "\<exists>m\<in>{ascii ''A'', ascii ''B''}.
    eval_node two_names DEPTH (NameExpr (Some (ascii ''A''))) (Some I32) = const_fails (Nonconstant (RefersToItself m))"
  by (rule cyclic_names_reported) (auto simp: two_names_def)

section \<open>Outside the types\<close>

definition top_u64 :: cnode where "top_u64 = number ''18446744073709551615u64''"

text \<open>The product of two \<open>u64\<close> constants can panic: the product of the largest one with itself is past \<open>i128\<close>, where
  the evaluator multiplies before it checks the range.\<close>

lemma u64_product_panics:
  "const_argument intern no_names (Some (BinaryExpr ArithKind (Some (TPunct Star)) [top_u64, top_u64])) (Some U64) = None"
  by (simp add: argument_parts number_parts number_def top_u64_def arith_value_def int_value_def mul128_def)

text \<open>A number with a suffix that names a type without numbers is accepted: \<open>5bool\<close> is an integer constant of type
  \<open>bool\<close>, which is read back from the type as another constant, and \<open>55296char\<close> is one whose reading panics.\<close>

lemma suffix_of_other_type:
  "const_argument intern no_names (Some (number ''5bool'')) (Some PrimBool) = Some (Inr (ValueArg (ConstInt PrimBool 5))) \<and>
   const_from_bits PrimBool (const_bits (ConstInt PrimBool 5)) = Some (ConstBool True) \<and>
   const_argument intern no_names (Some (number ''55296char'')) (Some PrimChar) =
     Some (Inr (ValueArg (ConstInt PrimChar 55296))) \<and>
   const_from_bits PrimChar (const_bits (ConstInt PrimChar 55296)) = None"
  by (simp add: argument_parts number_parts number_def const_from_bits_def)

end
