(* ===== verification/AppendVec.thy ===== *)
theory AppendVec
  imports HdPrelude
begin

text \<open>
  \<^verbatim>\<open>crates/hd_base/src/append.rs\<close>: the growable column whose items never move. Chunk \<open>k\<close> holds
  \<open>2 ^ (k + 10)\<close> slots of raw memory; a slot is the value written to it or nothing
  (\<open>MaybeUninit\<close>), and a null chunk pointer is a chunk not yet allocated. A read has three outcomes:
  a value, a panic, or \<open>Uninit\<close>, the undefined behaviour of reading memory nobody wrote, which the
  comments of the unsafe blocks argue away. The writer's mutex makes an append one step; a reader that
  loaded the length earlier sees the memory of a later state, which is why the lemmas speak of reads
  below an earlier length. Indexes are \<open>u32\<close> in the code: with 22 chunks they stay below
  \<open>2 ^ 32 - 2 ^ 10\<close>, so no sum of the code overflows.
\<close>

section \<open>The chunks\<close>

definition CHUNKS :: nat where "CHUNKS = 22"

definition BASE_BITS :: nat where "BASE_BITS = 10"

fun ilog2 :: "nat \<Rightarrow> nat" where
  "ilog2 n = (if n < 2 then 0 else Suc (ilog2 (n div 2)))"

declare ilog2.simps [simp del]

definition chunk_cap :: "nat \<Rightarrow> nat" where
  "chunk_cap k = 2 ^ (k + BASE_BITS)"

definition locate :: "nat \<Rightarrow> nat \<times> nat" where
  "locate i =
     (let biased = i + 2 ^ BASE_BITS; k = ilog2 biased - BASE_BITS;
          start = 2 ^ (k + BASE_BITS) - 2 ^ BASE_BITS
      in (k, i - start))"

datatype 'a raw = Panic | Uninit | Got 'a

record 'a append_vec =
  av_chunks :: "(nat \<rightharpoonup> 'a) option list"
  av_len :: nat

definition new_vec :: "'a append_vec" where
  "new_vec = \<lparr>av_chunks = replicate CHUNKS None, av_len = 0\<rparr>"

section \<open>Operations\<close>

definition chunk_at :: "'a append_vec \<Rightarrow> nat \<Rightarrow> nat \<rightharpoonup> 'a" where
  "chunk_at v k = (case av_chunks v ! k of None \<Rightarrow> Map.empty | Some c \<Rightarrow> c)"

definition write_unpublished :: "'a append_vec \<Rightarrow> nat \<Rightarrow> 'a \<Rightarrow> 'a append_vec option" where
  "write_unpublished v i x =
     (let (k, off) = locate i
      in if k < CHUNKS then Some (v\<lparr>av_chunks := (av_chunks v)[k := Some ((chunk_at v k)(off \<mapsto> x))]\<rparr>)
         else None)"

definition push_item :: "'a append_vec \<Rightarrow> 'a \<Rightarrow> ('a append_vec \<times> nat) option" where
  "push_item v x =
     (case write_unpublished v (av_len v) x of
        None \<Rightarrow> None
      | Some w \<Rightarrow> Some (w\<lparr>av_len := av_len v + 1\<rparr>, av_len v))"

text \<open>The slot memory holds: \<open>None\<close> for memory nobody wrote or no chunk.\<close>

definition slot :: "'a append_vec \<Rightarrow> nat \<Rightarrow> 'a option" where
  "slot v i = (let (k, off) = locate i in chunk_at v k off)"

definition get_item :: "'a append_vec \<Rightarrow> nat \<Rightarrow> 'a option raw" where
  "get_item v i =
     (if av_len v \<le> i then Got None
      else if CHUNKS \<le> fst (locate i) then Panic
      else case slot v i of None \<Rightarrow> Uninit | Some x \<Rightarrow> Got (Some x))"

definition item_at :: "'a append_vec \<Rightarrow> nat \<Rightarrow> 'a raw" where
  "item_at v i = (case get_item v i of Got (Some x) \<Rightarrow> Got x | Got None \<Rightarrow> Panic | Uninit \<Rightarrow> Uninit | Panic \<Rightarrow> Panic)"

primrec write_all :: "'a append_vec \<Rightarrow> nat \<Rightarrow> 'a list \<Rightarrow> 'a append_vec option" where
  "write_all v i [] = Some v"
| "write_all v i (x # xs) = (case write_unpublished v i x of None \<Rightarrow> None | Some w \<Rightarrow> write_all w (Suc i) xs)"

text \<open>The loop that pads to the first chunk boundary from which the run fits; \<open>n\<close> counts the chunks left.\<close>

definition next_chunk :: "nat \<Rightarrow> nat" where
  "next_chunk k = 2 ^ (k + 1 + BASE_BITS) - 2 ^ BASE_BITS"

function pad_to :: "'a append_vec \<Rightarrow> nat \<Rightarrow> nat \<Rightarrow> 'a \<Rightarrow> ('a append_vec \<times> nat) option" where
  "pad_to v start n pad =
     (let (k, off) = locate start
      in if \<not> k < CHUNKS then None
         else if off + n \<le> chunk_cap k then Some (v, start)
         else case write_all v start (replicate (next_chunk k - start) pad) of
                None \<Rightarrow> None
              | Some w \<Rightarrow> pad_to w (next_chunk k) n pad)"
  by pat_completeness auto

definition push_run :: "'a append_vec \<Rightarrow> nat \<Rightarrow> 'a \<Rightarrow> 'a list \<Rightarrow> ('a append_vec \<times> nat) option" where
  "push_run v n pad xs =
     (if n = 0 then Some (v, av_len v)
      else case pad_to v (av_len v) n pad of
             None \<Rightarrow> None
           | Some (w, start) \<Rightarrow>
               (if length xs \<noteq> n then None
                else case write_all w start xs of
                       None \<Rightarrow> None
                     | Some u \<Rightarrow> Some (u\<lparr>av_len := start + n\<rparr>, start)))"

definition run_slice :: "'a append_vec \<Rightarrow> nat \<Rightarrow> nat \<Rightarrow> 'a list raw" where
  "run_slice v start n =
     (if n = 0 then Got []
      else if av_len v < start + n then Panic
      else let (k, off) = locate start
           in if CHUNKS \<le> k \<or> chunk_cap k < off + n then Panic
              else let slots = map (chunk_at v k) [off..<off + n]
                   in if None \<in> set slots then Uninit else Got (map the slots))"

section \<open>Where an item lies\<close>

definition chunk_start :: "nat \<Rightarrow> nat" where
  "chunk_start k = 2 ^ (k + BASE_BITS) - 2 ^ BASE_BITS"

lemma ilog2_eq: "2 ^ k \<le> n \<Longrightarrow> n < 2 ^ Suc k \<Longrightarrow> ilog2 n = k"
proof (induction k arbitrary: n)
  case 0
  then show ?case by (simp add: ilog2.simps)
next
  case (Suc k)
  have "2 ^ k \<le> n div 2" "n div 2 < 2 ^ Suc k"
    using Suc.prems by (auto simp: less_mult_imp_div_less)
  moreover have "\<not> n < 2"
  proof -
    have "2 * 1 \<le> 2 * (2::nat) ^ k" by (rule mult_le_mono2) simp
    also have "2 * 2 ^ k \<le> n" using Suc.prems(1) by simp
    finally show ?thesis by simp
  qed
  ultimately show ?case
    using Suc.IH [of "n div 2"] by (simp add: ilog2.simps [of n])
qed

lemma ilog2_bounds: "0 < n \<Longrightarrow> 2 ^ ilog2 n \<le> n \<and> n < 2 ^ Suc (ilog2 n)"
proof (induction n rule: ilog2.induct)
  case (1 n)
  show ?case
  proof (cases "n < 2")
    case True
    with 1 show ?thesis by (simp add: ilog2.simps [of n])
  next
    case False
    with 1 have "2 ^ ilog2 (n div 2) \<le> n div 2 \<and> n div 2 < 2 ^ Suc (ilog2 (n div 2))"
      by simp
    with False show ?thesis by (simp add: ilog2.simps [of n]) linarith
  qed
qed

lemma chunk_start_next: "chunk_start (Suc k) = chunk_start k + chunk_cap k"
  by (simp add: chunk_start_def chunk_cap_def)

lemma next_chunk_start: "next_chunk k = chunk_start (Suc k)"
  by (simp add: next_chunk_def chunk_start_def)

lemma chunk_cap_pos [simp]: "0 < chunk_cap k"
  by (simp add: chunk_cap_def)

lemma chunk_start_biased: "chunk_start k + 2 ^ BASE_BITS = 2 ^ (k + BASE_BITS)"
  by (simp add: chunk_start_def power_increasing)

lemma locate_start: "off < chunk_cap k \<Longrightarrow> locate (chunk_start k + off) = (k, off)"
proof -
  assume "off < chunk_cap k"
  moreover have "chunk_start k + off + 2 ^ BASE_BITS = 2 ^ (k + BASE_BITS) + off"
    using chunk_start_biased [of k] by simp
  ultimately have "ilog2 (chunk_start k + off + 2 ^ BASE_BITS) = k + BASE_BITS"
    by (simp add: ilog2_eq chunk_cap_def)
  then show ?thesis
    by (simp add: locate_def Let_def chunk_start_def)
qed

lemma locate_ex: "\<exists>k off. off < chunk_cap k \<and> i = chunk_start k + off"
proof -
  let ?b = "i + 2 ^ BASE_BITS"
  define m where "m = ilog2 ?b"
  have m: "2 ^ m \<le> ?b" "?b < 2 ^ Suc m"
    using ilog2_bounds [of ?b] by (simp_all add: m_def)
  have "BASE_BITS \<le> m"
  proof (rule ccontr)
    assume "\<not> BASE_BITS \<le> m"
    then have "(2::nat) ^ Suc m \<le> 2 ^ BASE_BITS" by (intro power_increasing) auto
    with m show False by simp
  qed
  then obtain k where k: "m = k + BASE_BITS" by (metis add.commute le_Suc_ex)
  have "chunk_start k \<le> i" "i - chunk_start k < chunk_cap k"
    using m chunk_start_biased [of k] by (auto simp: k chunk_cap_def chunk_start_def)
  then show ?thesis by (metis le_add_diff_inverse)
qed

lemma locate_cases:
  obtains k off where "locate i = (k, off)" "off < chunk_cap k" "i = chunk_start k + off"
  using locate_ex [of i] locate_start by metis

lemma locate_eq: "locate i = (k, off) \<longleftrightarrow> off < chunk_cap k \<and> i = chunk_start k + off"
  using locate_cases [of i] locate_start by (metis Pair_inject)

lemma locate_inject: "locate i = locate j \<Longrightarrow> i = j"
  by (metis locate_eq surj_pair)

lemma chunk_start_mono: "k \<le> l \<Longrightarrow> chunk_start k \<le> chunk_start l"
  by (simp add: chunk_start_def diff_le_mono)

lemma locate_chunk: "fst (locate i) < k \<longleftrightarrow> i < chunk_start k"
proof -
  obtain l off where l: "locate i = (l, off)" "off < chunk_cap l" "i = chunk_start l + off"
    by (rule locate_cases)
  show ?thesis
  proof (cases "l < k")
    case True
    then have "chunk_start (Suc l) \<le> chunk_start k" by (intro chunk_start_mono) simp
    with l True show ?thesis by (simp add: chunk_start_next)
  next
    case False
    with l chunk_start_mono [of k l] show ?thesis by simp
  qed
qed

termination pad_to
proof (relation "measure (\<lambda>(v, start, n, pad). CHUNKS - fst (locate start))")
  fix v :: "'a append_vec" and start n pad p k off w
  assume p: "p = locate start" "(k, off) = p" "\<not> \<not> k < CHUNKS"
  have "locate (next_chunk k) = (Suc k, 0)"
    using locate_start [of 0 "Suc k"] by (simp add: next_chunk_start)
  moreover have "fst (locate start) = k" "k < CHUNKS"
    using p by (metis fst_conv, simp)
  ultimately show "((w, next_chunk k, n, pad), v, start, n, pad) \<in> measure (\<lambda>(v, start, n, pad). CHUNKS - fst (locate start))"
    by simp
qed simp

declare pad_to.simps [simp del]

section \<open>The memory after a write\<close>

text \<open>Nothing is written outside a chunk's allocation.\<close>

definition in_chunks :: "'a append_vec \<Rightarrow> bool" where
  "in_chunks v \<longleftrightarrow>
     length (av_chunks v) = CHUNKS \<and>
     (\<forall>k < CHUNKS. \<forall>off. chunk_at v k off \<noteq> None \<longrightarrow> off < chunk_cap k)"

definition vec_inv :: "'a append_vec \<Rightarrow> bool" where
  "vec_inv v \<longleftrightarrow>
     in_chunks v \<and> av_len v \<le> chunk_start CHUNKS \<and> (\<forall>i < av_len v. slot v i \<noteq> None)"

definition items :: "'a append_vec \<Rightarrow> 'a list" where
  "items v = map (\<lambda>i. the (slot v i)) [0..<av_len v]"

lemma vec_invD:
  assumes "vec_inv v"
  shows "in_chunks v" "av_len v \<le> chunk_start CHUNKS" "i < av_len v \<Longrightarrow> slot v i \<noteq> None"
  using assms by (simp_all add: vec_inv_def)

lemma length_items [simp]: "length (items v) = av_len v"
  by (simp add: items_def)

lemma nth_items: "vec_inv v \<Longrightarrow> i < av_len v \<Longrightarrow> slot v i = Some (items v ! i)"
  using vec_invD(3) [of v i] by (simp add: items_def)

lemma items_eqI:
  "length xs = av_len v \<Longrightarrow> (\<And>i. i < av_len v \<Longrightarrow> slot v i = Some (xs ! i)) \<Longrightarrow> items v = xs"
  by (simp add: list_eq_iff_nth_eq items_def)

lemma new_vec_inv [simp]: "vec_inv new_vec" and items_new [simp]: "items new_vec = []"
  by (simp_all add: vec_inv_def in_chunks_def items_def new_vec_def chunk_at_def)

lemma slot_chunk: "locate i = (k, off) \<Longrightarrow> slot v i = chunk_at v k off"
  by (simp add: slot_def)

lemma av_len_update_memory [simp]:
  "chunk_at (v\<lparr>av_len := n\<rparr>) = chunk_at v" "slot (v\<lparr>av_len := n\<rparr>) = slot v"
  "in_chunks (v\<lparr>av_len := n\<rparr>) = in_chunks v"
  by (simp_all add: chunk_at_def slot_def in_chunks_def fun_eq_iff)

lemma write_unpublished_None: "write_unpublished v i x = None \<longleftrightarrow> chunk_start CHUNKS \<le> i"
  using locate_chunk [of i CHUNKS] by (auto simp: write_unpublished_def Let_def split: prod.splits if_splits)

lemma write_unpublished_Some:
  assumes "write_unpublished v i x = Some w" "in_chunks v"
  shows "av_len w = av_len v" "in_chunks w" "slot w j = (if j = i then Some x else slot v j)"
proof -
  obtain k0 off0 where l: "locate i = (k0, off0)" "off0 < chunk_cap k0" by (rule locate_cases)
  have len: "length (av_chunks v) = CHUNKS" using assms(2) by (simp add: in_chunks_def)
  from assms(1) l have k0: "k0 < CHUNKS"
    and w: "w = v\<lparr>av_chunks := (av_chunks v)[k0 := Some ((chunk_at v k0)(off0 \<mapsto> x))]\<rparr>"
    by (auto simp: write_unpublished_def split: if_splits)
  have at: "chunk_at w k = (if k = k0 then (chunk_at v k0)(off0 \<mapsto> x) else chunk_at v k)" for k
    using k0 len by (auto simp: w chunk_at_def)
  show "av_len w = av_len v" by (simp add: w)
  show "in_chunks w" using assms(2) l(2) by (simp add: in_chunks_def at) (simp add: w)
  obtain k off where j: "locate j = (k, off)" by force
  have "j = i \<longleftrightarrow> k = k0 \<and> off = off0" using j l locate_inject [of i j] by auto
  then show "slot w j = (if j = i then Some x else slot v j)" using j by (auto simp: slot_chunk at)
qed

lemma write_all_None: "write_all v i xs = None \<Longrightarrow> chunk_start CHUNKS < i + length xs"
proof (induction xs arbitrary: v i)
  case (Cons x xs)
  show ?case
  proof (cases "write_unpublished v i x")
    case None
    then show ?thesis by (simp add: write_unpublished_None)
  next
    case (Some w)
    with Cons.prems Cons.IH [of w "Suc i"] show ?thesis by simp
  qed
qed simp

lemma write_all_Some:
  assumes "write_all v i xs = Some w" "in_chunks v"
  shows "av_len w = av_len v" "in_chunks w" "xs = [] \<or> i + length xs \<le> chunk_start CHUNKS"
    "slot w j = (if i \<le> j \<and> j < i + length xs then Some (xs ! (j - i)) else slot v j)"
proof -
  have "av_len w = av_len v \<and> in_chunks w \<and> (xs = [] \<or> i + length xs \<le> chunk_start CHUNKS) \<and>
    slot w j = (if i \<le> j \<and> j < i + length xs then Some (xs ! (j - i)) else slot v j)"
    using assms
  proof (induction xs arbitrary: v i)
    case Nil
    then show ?case by auto
  next
    case (Cons x xs)
    then obtain u where u: "write_unpublished v i x = Some u" "write_all u (Suc i) xs = Some w"
      by (auto split: option.splits)
    note W = write_unpublished_Some [OF u(1) Cons.prems(2)]
    have i: "i < chunk_start CHUNKS" using u(1) write_unpublished_None [of v i x] by auto
    show ?case
      using Cons.IH [OF u(2) W(2)] W(1) W(3) [of j] i by (auto simp: nth_Cons' not_less_eq_eq)
  qed
  then show "av_len w = av_len v" "in_chunks w" "xs = [] \<or> i + length xs \<le> chunk_start CHUNKS"
    "slot w j = (if i \<le> j \<and> j < i + length xs then Some (xs ! (j - i)) else slot v j)"
    by blast+
qed

section \<open>What the operations do to the items\<close>

lemma push_item_inv:
  assumes "vec_inv v" "push_item v x = Some (w, i)"
  shows "vec_inv w" "i = length (items v)" "items w = items v @ [x]"
proof -
  obtain u where u: "write_unpublished v (av_len v) x = Some u"
    using assms(2) by (cases "write_unpublished v (av_len v) x") (simp_all add: push_item_def)
  have w: "w = u\<lparr>av_len := av_len v + 1\<rparr>" and i: "i = av_len v"
    using assms(2) u by (auto simp: push_item_def)
  note W = write_unpublished_Some [OF u vec_invD(1) [OF assms(1)]]
  have "av_len v < chunk_start CHUNKS" using u write_unpublished_None [of v "av_len v" x] by auto
  then show "vec_inv w"
    using W(2,3) vec_invD(3) [OF assms(1)] by (auto simp: vec_inv_def w less_Suc_eq)
  show "i = length (items v)" by (simp add: i)
  show "items w = items v @ [x]"
    using W(3) by (intro items_eqI) (auto simp: w nth_append nth_items [OF assms(1)])
qed

text \<open>An append panics exactly when the 22 chunks are full.\<close>

lemma push_item_None: "push_item v x = None \<longleftrightarrow> chunk_start CHUNKS \<le> av_len v"
  using write_unpublished_None [of v "av_len v" x]
  by (cases "write_unpublished v (av_len v) x") (simp_all add: push_item_def)

text \<open>A reader sees the item or \<open>None\<close>, and never memory nobody wrote.\<close>

lemma get_item_items:
  assumes "vec_inv v"
  shows "get_item v i = Got (if i < length (items v) then Some (items v ! i) else None)"
proof (cases "i < av_len v")
  case True
  with vec_invD(2) [OF assms] have "fst (locate i) < CHUNKS" by (simp add: locate_chunk)
  with True show ?thesis by (simp add: get_item_def nth_items [OF assms])
qed (simp add: get_item_def)

lemma item_at_items: "vec_inv v \<Longrightarrow> i < length (items v) \<Longrightarrow> item_at v i = Got (items v ! i)"
  by (simp add: item_at_def get_item_items)

lemma pad_to_Some:
  assumes "pad_to v start n pad = Some (w, s)" "in_chunks v"
  shows "av_len w = av_len v" "in_chunks w" "start \<le> s"
    "slot w j = (if start \<le> j \<and> j < s then Some pad else slot v j)"
    "fst (locate s) < CHUNKS" "snd (locate s) + n \<le> chunk_cap (fst (locate s))"
proof -
  have "av_len w = av_len v \<and> in_chunks w \<and> start \<le> s \<and>
    slot w j = (if start \<le> j \<and> j < s then Some pad else slot v j) \<and>
    fst (locate s) < CHUNKS \<and> snd (locate s) + n \<le> chunk_cap (fst (locate s))"
    using assms
  proof (induction v start n pad rule: pad_to.induct)
    case (1 v start n pad)
    obtain k off where l: "locate start = (k, off)" "off < chunk_cap k" "start = chunk_start k + off"
      by (rule locate_cases)
    with "1.prems"(1) have k: "k < CHUNKS" by (simp add: pad_to.simps [of v] split: if_splits)
    show ?case
    proof (cases "off + n \<le> chunk_cap k")
      case True
      with "1.prems" l k show ?thesis by (auto simp: pad_to.simps [of v])
    next
      case False
      with "1.prems"(1) l k obtain u
        where u: "write_all v start (replicate (next_chunk k - start) pad) = Some u"
          and rest: "pad_to u (next_chunk k) n pad = Some (w, s)"
        by (auto simp: pad_to.simps [of v] split: option.splits)
      note W = write_all_Some [OF u "1.prems"(2)]
      have lt: "start < next_chunk k" using l(2,3) by (simp add: next_chunk_start chunk_start_next)
      show ?thesis
        using "1.IH" [OF l(1) [symmetric] refl _ False u rest W(2)] k W(1) W(4) [of j] lt by auto
    qed
  qed
  then show "av_len w = av_len v" "in_chunks w" "start \<le> s"
    "slot w j = (if start \<le> j \<and> j < s then Some pad else slot v j)"
    "fst (locate s) < CHUNKS" "snd (locate s) + n \<le> chunk_cap (fst (locate s))"
    by blast+
qed

lemma run_slice_items:
  assumes "vec_inv v" "0 < n" "start + n \<le> av_len v" "snd (locate start) + n \<le> chunk_cap (fst (locate start))"
  shows "run_slice v start n = Got (take n (drop start (items v)))"
proof -
  obtain k off where l: "locate start = (k, off)" "off < chunk_cap k" "start = chunk_start k + off"
    by (rule locate_cases)
  have "start < chunk_start CHUNKS" using vec_invD(2) [OF assms(1)] assms(2,3) by simp
  then have k: "k < CHUNKS" using locate_chunk [of start CHUNKS] l(1) by simp
  have at: "chunk_at v k (off + j) = Some (items v ! (start + j))" if "j < n" for j
  proof -
    have "locate (start + j) = (k, off + j)"
      using locate_start [of "off + j" k] assms(4) l that by (simp add: add.assoc)
    then show ?thesis using nth_items [OF assms(1), of "start + j"] assms(3) that by (simp add: slot_chunk)
  qed
  have "map (chunk_at v k) [off..<off + n] = map Some (take n (drop start (items v)))"
    using assms(3) at by (intro nth_equalityI) auto
  then show ?thesis
    using assms l k by (simp add: run_slice_def Let_def comp_def del: map_map) (simp add: map_idI)
qed

text \<open>
  A run is appended after some padding, as one run inside one chunk, which is the first place it fits
  from the old end; it is then lent whole.
\<close>

lemma push_run_inv:
  assumes "vec_inv v" "push_run v (length xs) pad xs = Some (w, s)"
  shows "vec_inv w" "s = length (items v) + gap \<Longrightarrow> items w = items v @ replicate gap pad @ xs"
    "length (items v) \<le> s" "run_slice w s (length xs) = Got xs"
proof -
  have *: "vec_inv w \<and> length (items v) \<le> s \<and> items w = items v @ replicate (s - length (items v)) pad @ xs \<and>
    run_slice w s (length xs) = Got xs"
  proof (cases "xs = []")
    case True
    with assms show ?thesis by (auto simp: push_run_def run_slice_def)
  next
    case False
    with assms(2) obtain u w' where u: "pad_to v (av_len v) (length xs) pad = Some (u, s)"
      and w': "write_all u s xs = Some w'" and w: "w = w'\<lparr>av_len := s + length xs\<rparr>"
      by (auto simp: push_run_def split: option.splits prod.splits)
    note P = pad_to_Some [OF u vec_invD(1) [OF assms(1)]]
    note W = write_all_Some [OF w' P(2)]
    have sl: "slot w j = Some ((items v @ replicate (s - length (items v)) pad @ xs) ! j)" if "j < s + length xs" for j
      using W(4) [of j] P(3) P(4) [of j] that nth_items [OF assms(1), of j]
      by (auto simp: w nth_append)
    have inv: "vec_inv w" using W(2,3) False sl by (auto simp: vec_inv_def w)
    have it: "items w = items v @ replicate (s - length (items v)) pad @ xs"
      using P(3) sl by (intro items_eqI) (auto simp: w)
    have "run_slice w s (length xs) = Got (take (length xs) (drop s (items w)))"
      using False inv P(6) by (intro run_slice_items) (auto simp: w)
    then show ?thesis using inv it P(3) by simp
  qed
  then show "vec_inv w" "length (items v) \<le> s" "run_slice w s (length xs) = Got xs" by blast+
  show "s = length (items v) + gap \<Longrightarrow> items w = items v @ replicate gap pad @ xs" using * by simp
qed

text \<open>Items never move and are never written again: what a run or an index gave, it gives for ever.\<close>

lemma run_slice_Got:
  assumes "vec_inv v" "run_slice v start n = Got xs"
  shows "xs = take n (drop start (items v))" "length xs = n"
    "n = 0 \<or> start + n \<le> av_len v \<and> snd (locate start) + n \<le> chunk_cap (fst (locate start))"
proof -
  have *: "n = 0 \<or> start + n \<le> av_len v \<and> snd (locate start) + n \<le> chunk_cap (fst (locate start))"
    using assms(2) by (auto simp: run_slice_def Let_def split: if_splits prod.splits)
  then show "n = 0 \<or> start + n \<le> av_len v \<and> snd (locate start) + n \<le> chunk_cap (fst (locate start))" .
  show "xs = take n (drop start (items v))"
  proof (cases "n = 0")
    case True
    with assms(2) show ?thesis by (simp add: run_slice_def)
  next
    case False
    with * run_slice_items [OF assms(1), of n start] assms(2) show ?thesis by simp
  qed
  with * show "length xs = n" by auto
qed

lemma run_slice_stable:
  assumes "vec_inv v" "vec_inv w" "items w = items v @ ys" "run_slice v start n = Got xs"
  shows "run_slice w start n = Got xs"
proof (cases "n = 0")
  case True
  with assms(4) show ?thesis by (simp add: run_slice_def)
next
  case False
  note R = run_slice_Got [OF assms(1,4)]
  have "av_len w = av_len v + length ys" using arg_cong [OF assms(3), of length] by simp
  with False R(3) have "run_slice w start n = Got (take n (drop start (items w)))"
    by (intro run_slice_items [OF assms(2)]) auto
  with False R show ?thesis by (auto simp: assms(3))
qed

section \<open>The contract\<close>

text \<open>
  What the pools rely on: a column is a list that only grows at its end, an appended run is lent back
  whole, and what was lent stays.
\<close>

locale growing_column =
  fixes inv :: "'v \<Rightarrow> bool" and entries :: "'v \<Rightarrow> 'a list"
    and add :: "'v \<Rightarrow> 'a \<Rightarrow> ('v \<times> nat) option"
    and add_run :: "'v \<Rightarrow> nat \<Rightarrow> 'a \<Rightarrow> 'a list \<Rightarrow> ('v \<times> nat) option"
    and entry :: "'v \<Rightarrow> nat \<Rightarrow> 'a raw" and run :: "'v \<Rightarrow> nat \<Rightarrow> nat \<Rightarrow> 'a list raw"
  assumes add: "inv v \<Longrightarrow> add v x = Some (w, i) \<Longrightarrow> inv w \<and> i = length (entries v) \<and> entries w = entries v @ [x]"
    and add_run: "inv v \<Longrightarrow> add_run v (length xs) pad xs = Some (w, s) \<Longrightarrow>
      inv w \<and> (\<exists>ys. entries w = entries v @ ys) \<and> run w s (length xs) = Got xs \<and> s \<le> length (entries w)"
    and entry: "inv v \<Longrightarrow> i < length (entries v) \<Longrightarrow> entry v i = Got (entries v ! i)"
    and run: "inv v \<Longrightarrow> run v s n = Got xs \<Longrightarrow> xs = take n (drop s (entries v)) \<and> length xs = n"
    and run_stable: "inv v \<Longrightarrow> inv w \<Longrightarrow> entries w = entries v @ ys \<Longrightarrow> run v s n = Got xs \<Longrightarrow> run w s n = Got xs"
begin

definition later :: "'v \<Rightarrow> 'v \<Rightarrow> bool" where
  "later v w \<longleftrightarrow> inv v \<and> inv w \<and> (\<exists>ys. entries w = entries v @ ys)"

lemma later_refl: "inv v \<Longrightarrow> later v v"
  by (simp add: later_def)

lemma later_trans: "later u v \<Longrightarrow> later v w \<Longrightarrow> later u w"
  by (auto simp: later_def)

lemma later_add: "inv v \<Longrightarrow> add v x = Some (w, i) \<Longrightarrow> later v w"
  using add [of v x w i] by (auto simp: later_def)

lemma later_add_run: "inv v \<Longrightarrow> add_run v (length xs) pad xs = Some (w, s) \<Longrightarrow> later v w"
  using add_run [of v xs pad w s] by (auto simp: later_def)

lemma later_run: "later v w \<Longrightarrow> run v s n = Got xs \<Longrightarrow> run w s n = Got xs"
  unfolding later_def by (blast intro: run_stable)

lemma later_entry: "later v w \<Longrightarrow> i < length (entries v) \<Longrightarrow> entry w i = entry v i"
  using entry [of v i] entry [of w i] by (auto simp: later_def nth_append)

lemma later_length: "later v w \<Longrightarrow> length (entries v) \<le> length (entries w)"
  by (auto simp: later_def)

lemma run_entry: "inv v \<Longrightarrow> run v s n = Got xs \<Longrightarrow> k < n \<Longrightarrow> entry v (s + k) = Got (xs ! k)"
  using run [of v s n xs] entry [of v "s + k"] by auto

end

interpretation column: growing_column vec_inv items push_item push_run item_at run_slice
proof unfold_locales
  fix v w :: "'a append_vec" and x i pad s n ys and xs :: "'a list"
  assume v: "vec_inv v"
  show "push_item v x = Some (w, i) \<Longrightarrow> vec_inv w \<and> i = length (items v) \<and> items w = items v @ [x]"
    using push_item_inv [OF v] by blast
  show "push_run v (length xs) pad xs = Some (w, s) \<Longrightarrow>
      vec_inv w \<and> (\<exists>ys. items w = items v @ ys) \<and> run_slice w s (length xs) = Got xs \<and> s \<le> length (items w)"
    using push_run_inv(1,3,4) [OF v, of xs pad w s] push_run_inv(2) [OF v, of xs pad w s "s - length (items v)"]
      arg_cong [of "items w" "items v @ replicate (s - length (items v)) pad @ xs" length]
    by auto
  show "i < length (items v) \<Longrightarrow> item_at v i = Got (items v ! i)"
    using item_at_items [OF v] .
  show "run_slice v s n = Got xs \<Longrightarrow> xs = take n (drop s (items v)) \<and> length xs = n"
    using run_slice_Got [OF v] by blast
  show "vec_inv w \<Longrightarrow> items w = items v @ ys \<Longrightarrow> run_slice v s n = Got xs \<Longrightarrow> run_slice w s n = Got xs"
    using run_slice_stable [OF v] by blast
qed

lemma vec_small:
  assumes "vec_inv v"
  shows "length (items v) < 2 ^ 32 - 1"
  using vec_invD(2) [OF assms] by (simp add: chunk_start_def CHUNKS_def BASE_BITS_def)

section \<open>Any number of appends\<close>

text \<open>
  What writers can do to a column: append an item, append a run, or leave slots of a run behind that
  panicked before its length was published.
\<close>

inductive column_step :: "'a append_vec \<Rightarrow> 'a append_vec \<Rightarrow> bool" where
  "push_item v x = Some (w, i) \<Longrightarrow> column_step v w"
| "push_run v (length xs) pad xs = Some (w, s) \<Longrightarrow> column_step v w"
| "write_unpublished v i x = Some w \<Longrightarrow> av_len v \<le> i \<Longrightarrow> column_step v w"

lemma column_step_later:
  assumes "column_step v w" "vec_inv v"
  shows "column.later v w"
  using assms(1)
proof cases
  case (1 x i)
  then show ?thesis using column.later_add [OF assms(2)] by blast
next
  case (2 xs pad s)
  then show ?thesis using column.later_add_run [OF assms(2)] by blast
next
  case (3 i x)
  note W = write_unpublished_Some [OF 3(1) vec_invD(1) [OF assms(2)]]
  have "slot w j = slot v j" if "j < av_len v" for j using that 3(2) W(3) [of j] by simp
  then have "items w = items v" "vec_inv w"
    using W(1,2) assms(2) by (auto simp: items_def vec_inv_def)
  with assms(2) show ?thesis by (simp add: column.later_def)
qed

lemma columns_later: "column_step\<^sup>*\<^sup>* v w \<Longrightarrow> vec_inv v \<Longrightarrow> column.later v w"
proof (induction rule: rtranclp_induct)
  case base
  then show ?case by (rule column.later_refl)
next
  case (step u w)
  then have "column.later v u" by blast
  moreover from this have "vec_inv u" by (simp add: column.later_def)
  with step.hyps(2) have "column.later u w" by (rule column_step_later)
  ultimately show ?case by (rule column.later_trans)
qed

lemma run_slice_initialized:
  assumes "vec_inv v"
  shows "run_slice v start n \<noteq> Uninit"
proof
  assume u: "run_slice v start n = Uninit"
  then have "0 < n" "start + n \<le> av_len v" "snd (locate start) + n \<le> chunk_cap (fst (locate start))"
    by (auto simp: run_slice_def Let_def split: if_splits prod.splits)
  from run_slice_items [OF assms this] u show False by simp
qed

text \<open>C24. The unsafe column: after any appends, runs and abandoned runs no read reaches memory nobody wrote,
  and an item or a run once read reads the same after any further ones.\<close>

theorem published_items_stay:
  assumes "column_step\<^sup>*\<^sup>* new_vec v" "column_step\<^sup>*\<^sup>* v w"
  shows "get_item w i \<noteq> Uninit \<and> run_slice w start n \<noteq> Uninit \<and>
    (get_item v i = Got (Some x) \<longrightarrow> get_item w i = Got (Some x)) \<and>
    (run_slice v start n = Got xs \<longrightarrow> run_slice w start n = Got xs)"
proof -
  have "column.later new_vec v" by (rule columns_later [OF assms(1)]) simp
  then have v: "vec_inv v" by (simp add: column.later_def)
  have vw: "column.later v w" by (rule columns_later [OF assms(2) v])
  then have w: "vec_inv w" by (simp add: column.later_def)
  have "get_item w i = Got (Some x)" if "get_item v i = Got (Some x)"
  proof -
    from that have "i < length (items v)" "items v ! i = x" by (simp_all add: get_item_items [OF v] split: if_splits)
    with vw column.later_length [OF vw] show ?thesis
      by (auto simp: get_item_items [OF w] column.later_def nth_append)
  qed
  with run_slice_initialized [OF w] column.later_run [OF vw] show ?thesis
    by (simp add: get_item_items [OF w])
qed

lemma published_items_stay_witness:
  "\<exists>v w. column_step\<^sup>*\<^sup>* new_vec v \<and> column_step\<^sup>*\<^sup>* v w \<and> get_item w 0 = Got (Some (7 :: u8)) \<and>
     get_item w 0 \<noteq> (Uninit :: u8 option raw)"
proof -
  obtain v i where v: "push_item new_vec (7 :: u8) = Some (v, i)"
    using push_item_None [of new_vec "7 :: u8"]
    by (cases "push_item new_vec (7 :: u8)") (auto simp: new_vec_def chunk_start_def CHUNKS_def BASE_BITS_def)
  have a: "column_step\<^sup>*\<^sup>* new_vec v" using column_step.intros(1) [OF v] by blast
  have "get_item v 0 = Got (Some 7)"
    using push_item_inv [OF new_vec_inv v] by (simp add: get_item_items)
  then have "get_item v 0 = Got (Some 7)" "get_item v 0 \<noteq> (Uninit :: u8 option raw)"
    using published_items_stay [OF a rtranclp.rtrancl_refl, of 0 0 0 7 "[]"] by simp_all
  with a show ?thesis by blast
qed

end
