(* ===== verification/IdTable.thy ===== *)
theory IdTable
  imports HdPrelude
begin

text \<open>
  The hash-to-index table of \<^verbatim>\<open>crates/hd_types/src/pool.rs\<close> (\<open>IdTable\<close>, \<open>split\<close>, \<open>low\<close>): open addressing
  with linear probing over words that hold a 32-bit hash and an id. The probing loops end only because
  a table keeps an empty slot, so they are partial functions and the lemmas show that they return; a
  comparison of contents that panics is \<open>None\<close> too.
\<close>

section \<open>Slot words\<close>

definition low :: "u64 \<Rightarrow> u32" where
  "low w = ucast (w AND 0xFFFFFFFF)"

definition split_slot :: "u64 \<Rightarrow> u32 \<times> u32" where
  "split_slot w = (low (drop_bit 32 w), low w - 1)"

definition slot_word :: "u32 \<Rightarrow> u32 \<Rightarrow> u64" where
  "slot_word h i = push_bit 32 (ucast h) OR (ucast i + 1)"

lemma low_ucast: "low w = ucast w"
proof -
  have "(0xFFFFFFFF :: u64) = mask 32" by (simp add: mask_eq_exp_minus_1)
  then have "low w = ucast (w AND mask 32)" by (simp add: low_def)
  also have "\<dots> = ucast w" by (rule bit_word_eqI) (simp add: bit_simps)
  finally show ?thesis .
qed

lemma slot_word_bits:
  assumes "i \<noteq> - 1"
  shows "split_slot (slot_word h i) = (h, i)" "slot_word h i \<noteq> 0"
proof -
  have small: "unat (ucast i + 1 :: u64) = unat i + 1" "unat i + 1 < 2 ^ 32"
  proof -
    have "unat i \<noteq> unat (- 1 :: u32)" using assms by (metis unsigned_word_eqI)
    then have "unat i \<noteq> 2 ^ 32 - 1" by (simp add: unsigned_minus_1_eq_mask mask_eq_exp_minus_1)
    moreover have "unat i < 2 ^ 32" using unsigned_less [of i] by simp
    ultimately show lt: "unat i + 1 < 2 ^ 32" by linarith
    then show "unat (ucast i + 1 :: u64) = unat i + 1"
      by (simp add: unat_word_ariths unsigned_ucast_eq take_bit_nat_eq_self)
  qed
  then have hi: "\<not> bit (ucast i + 1 :: u64) n" if "32 \<le> n" for n
  proof -
    have "(ucast i + 1 :: u64) = take_bit 32 (ucast i + 1)"
      using small by (intro word_unat_eq_iff [THEN iffD2]) (simp add: unsigned_take_bit_eq take_bit_nat_eq_self)
    then show ?thesis using that by (metis bit_take_bit_iff not_less)
  qed
  have "low (drop_bit 32 (slot_word h i)) = h"
  proof (rule bit_word_eqI)
    fix n assume "n < LENGTH(32)"
    then show "bit (low (drop_bit 32 (slot_word h i))) n = bit h n"
      using hi [of "n + 32"] by (simp add: low_ucast slot_word_def bit_simps add.commute)
  qed
  moreover have lo: "low (slot_word h i) = i + 1"
  proof -
    have "low (slot_word h i) = ucast (ucast i + 1 :: u64)"
      by (rule bit_word_eqI) (simp add: low_ucast slot_word_def bit_simps)
    also have "\<dots> = i + 1"
      using small by (intro word_unat_eq_iff [THEN iffD2]) (simp add: unsigned_ucast_eq unat_word_ariths take_bit_eq_mod)
    finally show ?thesis .
  qed
  ultimately show "split_slot (slot_word h i) = (h, i)" by (simp add: split_slot_def)
  show "slot_word h i \<noteq> 0"
  proof
    assume "slot_word h i = 0"
    with lo have "i + 1 = 0" by (simp add: low_def)
    with assms show False by (simp add: eq_neg_iff_add_eq_0)
  qed
qed

section \<open>Operations\<close>

record id_table =
  it_slots :: "u64 list"
  it_len :: nat

definition empty_ids :: id_table where
  "empty_ids = \<lparr>it_slots = [], it_len = 0\<rparr>"

partial_function (option) find_from ::
    "u64 list \<Rightarrow> u32 \<Rightarrow> (u32 \<Rightarrow> bool option) \<Rightarrow> nat \<Rightarrow> nat \<Rightarrow> u32 option option" where
  "find_from slots h eq wrap s =
     (let w = slots ! s
      in if w = 0 then Some None
         else let (h', i) = split_slot w
              in if h' = h
                 then (case eq i of
                         None \<Rightarrow> None
                       | Some same \<Rightarrow>
                           (if same then Some (Some i) else find_from slots h eq wrap ((s + 1) AND wrap)))
                 else find_from slots h eq wrap ((s + 1) AND wrap))"

definition find_id :: "id_table \<Rightarrow> u32 \<Rightarrow> (u32 \<Rightarrow> bool option) \<Rightarrow> u32 option option" where
  "find_id t h eq =
     (if it_slots t = [] then Some None
      else let wrap = length (it_slots t) - 1 in find_from (it_slots t) h eq wrap (unat h AND wrap))"

partial_function (option) place_from :: "u64 list \<Rightarrow> nat \<Rightarrow> nat \<Rightarrow> nat option" where
  "place_from slots wrap s =
     (if slots ! s \<noteq> 0 then place_from slots wrap ((s + 1) AND wrap) else Some s)"

definition place_word :: "u64 list \<Rightarrow> u64 \<Rightarrow> u64 list option" where
  "place_word slots w =
     (let wrap = length slots - 1
      in case place_from slots wrap (unat (fst (split_slot w)) AND wrap) of
           None \<Rightarrow> None
         | Some s \<Rightarrow> Some (slots[s := w]))"

primrec place_words :: "u64 list \<Rightarrow> u64 list \<Rightarrow> u64 list option" where
  "place_words slots [] = Some slots"
| "place_words slots (w # ws) =
     (case place_word slots w of None \<Rightarrow> None | Some slots' \<Rightarrow> place_words slots' ws)"

definition grow_slots :: "id_table \<Rightarrow> u64 list option" where
  "grow_slots t =
     (if (it_len t + 1) * 4 > length (it_slots t) * 3
      then place_words (replicate (max (length (it_slots t) * 2) 64) 0) (filter (\<lambda>w. w \<noteq> 0) (it_slots t))
      else Some (it_slots t))"

definition insert_id :: "id_table \<Rightarrow> u32 \<Rightarrow> u32 \<Rightarrow> id_table option" where
  "insert_id t h i =
     (case grow_slots t of
        None \<Rightarrow> None
      | Some slots \<Rightarrow>
          (case place_word slots (slot_word h i) of
             None \<Rightarrow> None
           | Some slots' \<Rightarrow> Some \<lparr>it_slots = slots', it_len = it_len t + 1\<rparr>))"

section \<open>Probing\<close>

text \<open>The slots in the order a probe for a hash visits them.\<close>

definition probed :: "u64 list \<Rightarrow> u32 \<Rightarrow> nat \<Rightarrow> u64" where
  "probed slots h j = slots ! ((unat h + j) mod length slots)"

definition used :: "u64 list \<Rightarrow> u64 set" where
  "used slots = set slots - {0}"

definition power_sized :: "u64 list \<Rightarrow> bool" where
  "power_sized slots \<longleftrightarrow> (\<exists>k. length slots = 2 ^ k)"

text \<open>Every word is on its own probe path: no empty slot comes before it.\<close>

definition reachable_words :: "u64 list \<Rightarrow> bool" where
  "reachable_words slots \<longleftrightarrow>
     (\<forall>w \<in> used slots. \<exists>j. probed slots (fst (split_slot w)) j = w \<and>
        (\<forall>i < j. probed slots (fst (split_slot w)) i \<noteq> 0))"

lemma and_size:
  assumes "power_sized slots"
  shows "n AND (length slots - 1) = n mod length slots" "0 < length slots"
proof -
  from assms obtain k where k: "length slots = 2 ^ k" by (auto simp: power_sized_def)
  show "n AND (length slots - 1) = n mod length slots"
    unfolding k using take_bit_eq_mask [of k n] by (simp add: take_bit_eq_mod mask_eq_exp_minus_1)
  show "0 < length slots" by (simp add: k)
qed

lemma probe_step:
  "power_sized slots \<Longrightarrow> ((unat h + j) mod length slots + 1) AND (length slots - 1) = (unat h + Suc j) mod length slots"
  by (simp only: and_size(1)) (simp add: mod_simps)

lemma first_empty:
  assumes "0 \<in> set slots"
  obtains d where "probed slots h d = 0" "\<And>i. i < d \<Longrightarrow> probed slots h i \<noteq> 0"
proof -
  from assms obtain e where e: "e < length slots" "slots ! e = 0" by (auto simp: in_set_conv_nth)
  let ?n = "length slots"
  have "(unat h + (e + ?n * unat h - unat h)) mod ?n = e"
  proof -
    have "unat h \<le> e + ?n * unat h" using e(1) by (cases ?n) auto
    then have "unat h + (e + ?n * unat h - unat h) = e + ?n * unat h" by simp
    with e(1) show ?thesis by (metis mod_less mod_mult_self2)
  qed
  with e have ex: "\<exists>d. probed slots h d = 0" by (metis probed_def)
  show thesis
    by (rule that [OF LeastI_ex [OF ex]]) (use not_less_Least in blast)
qed

lemma find_from_probe:
  assumes "power_sized slots" "probed slots h (j + d) = 0" "\<And>i. i < d \<Longrightarrow> probed slots h (j + i) \<noteq> 0"
    and eq: "\<And>i. (h, i) \<in> split_slot ` used slots \<Longrightarrow> eq i \<noteq> None"
  shows "\<exists>r. find_from slots h eq (length slots - 1) ((unat h + j) mod length slots) = Some r \<and>
    (case r of
       Some i \<Rightarrow> (h, i) \<in> split_slot ` used slots \<and> eq i = Some True
     | None \<Rightarrow> (\<forall>k < d. \<forall>i. split_slot (probed slots h (j + k)) = (h, i) \<longrightarrow> eq i = Some False))"
  using assms(2,3)
proof (induction d arbitrary: j)
  case 0
  then show ?case by (simp add: find_from.simps probed_def Let_def)
next
  case (Suc d)
  let ?s = "(unat h + j) mod length slots"
  have nz: "slots ! ?s \<noteq> 0" using Suc.prems(2) [of 0] by (simp add: probed_def)
  have used: "slots ! ?s \<in> used slots"
    using nz and_size(2) [OF assms(1)] by (simp add: used_def)
  have IH: "\<exists>r. find_from slots h eq (length slots - 1) ((unat h + Suc j) mod length slots) = Some r \<and>
    (case r of
       Some i \<Rightarrow> (h, i) \<in> split_slot ` used slots \<and> eq i = Some True
     | None \<Rightarrow> (\<forall>k < d. \<forall>i. split_slot (probed slots h (Suc j + k)) = (h, i) \<longrightarrow> eq i = Some False))"
  proof (rule Suc.IH)
    show "probed slots h (Suc j + d) = 0" using Suc.prems(1) by simp
    show "i < d \<Longrightarrow> probed slots h (Suc j + i) \<noteq> 0" for i using Suc.prems(2) [of "Suc i"] by simp
  qed
  obtain h' i where sp: "split_slot (slots ! ?s) = (h', i)" by force
  have hd: "probed slots h j = slots ! ?s" by (simp add: probed_def)
  show ?case
  proof (cases "h' = h \<and> eq i = Some True")
    case True
    then show ?thesis using nz sp used by (simp add: find_from.simps Let_def) force
  next
    case False
    have "h' = h \<Longrightarrow> eq i = Some False"
      using False eq [of i] sp used by (cases "eq i") (force, auto)
    then have "find_from slots h eq (length slots - 1) ?s =
        find_from slots h eq (length slots - 1) ((unat h + Suc j) mod length slots)"
      using nz sp probe_step [OF assms(1), of h j] by (subst find_from.simps) (auto simp: Let_def)
    moreover have "split_slot (probed slots h j) = (h, i') \<Longrightarrow> eq i' = Some False" for i'
      using sp \<open>h' = h \<Longrightarrow> eq i = Some False\<close> by (simp add: hd)
    ultimately show ?thesis
      using IH by (auto split: option.splits simp: less_Suc_eq_0_disj)
  qed
qed

section \<open>The invariant\<close>

definition table_inv :: "id_table \<Rightarrow> bool" where
  "table_inv t \<longleftrightarrow>
     (it_slots t = [] \<and> it_len t = 0 \<or>
      power_sized (it_slots t) \<and> reachable_words (it_slots t) \<and>
      it_len t = length (filter (\<lambda>w. w \<noteq> 0) (it_slots t)) \<and> it_len t * 4 \<le> length (it_slots t) * 3)"

text \<open>The pairs of a hash and an id a table holds.\<close>

definition pairs :: "id_table \<Rightarrow> (u32 \<times> u32) set" where
  "pairs t = split_slot ` used (it_slots t)"

lemma table_inv_empty [simp]: "table_inv empty_ids" and pairs_empty [simp]: "pairs empty_ids = {}"
  by (simp_all add: table_inv_def pairs_def used_def empty_ids_def)

lemma has_empty:
  assumes "length (filter (\<lambda>w. w \<noteq> 0) slots) < length slots"
  shows "(0 :: u64) \<in> set slots"
proof (rule ccontr)
  assume "0 \<notin> set slots"
  then have "filter (\<lambda>w. w \<noteq> 0) slots = slots" by (intro filter_True) auto
  with assms show False by simp
qed

text \<open>Looking up returns, and it returns an id with this hash the comparison accepts exactly when there is one.\<close>

lemma find_id_pairs:
  assumes "table_inv t" "\<And>i. (h, i) \<in> pairs t \<Longrightarrow> eq i \<noteq> None"
  shows "\<exists>r. find_id t h eq = Some r \<and>
    (case r of
       Some i \<Rightarrow> (h, i) \<in> pairs t \<and> eq i = Some True
     | None \<Rightarrow> (\<forall>i. (h, i) \<in> pairs t \<longrightarrow> eq i = Some False))"
proof (cases "it_slots t = []")
  case True
  then show ?thesis by (simp add: find_id_def pairs_def used_def)
next
  case False
  let ?s = "it_slots t"
  from False assms(1) have inv: "power_sized ?s" "reachable_words ?s"
    "it_len t = length (filter (\<lambda>w. w \<noteq> 0) ?s)" "it_len t * 4 \<le> length ?s * 3"
    by (auto simp: table_inv_def)
  have "length (filter (\<lambda>w. w \<noteq> 0) ?s) < length ?s"
    using inv(3,4) False by (cases ?s) auto
  then obtain d where d: "probed ?s h d = 0" "\<And>i. i < d \<Longrightarrow> probed ?s h i \<noteq> 0"
    using first_empty [OF has_empty] by metis
  have "\<exists>r. find_from ?s h eq (length ?s - 1) ((unat h + 0) mod length ?s) = Some r \<and>
    (case r of
       Some i \<Rightarrow> (h, i) \<in> split_slot ` used ?s \<and> eq i = Some True
     | None \<Rightarrow> (\<forall>k < d. \<forall>i. split_slot (probed ?s h (0 + k)) = (h, i) \<longrightarrow> eq i = Some False))"
    using d assms(2) by (intro find_from_probe [OF inv(1)]) (auto simp: pairs_def)
  then obtain r where r: "find_from ?s h eq (length ?s - 1) (unat h AND (length ?s - 1)) = Some r"
    and r': "case r of
       Some i \<Rightarrow> (h, i) \<in> split_slot ` used ?s \<and> eq i = Some True
     | None \<Rightarrow> (\<forall>k < d. \<forall>i. split_slot (probed ?s h k) = (h, i) \<longrightarrow> eq i = Some False)"
    unfolding add_0_left add_0_right and_size(1) [OF inv(1), symmetric] by blast
  have "eq i = Some False" if "r = None" "(h, i) \<in> pairs t" for i
  proof -
    from that(2) obtain w where w: "w \<in> used ?s" "split_slot w = (h, i)" by (auto simp: pairs_def)
    with inv(2) obtain j where j: "probed ?s h j = w" "\<And>i. i < j \<Longrightarrow> probed ?s h i \<noteq> 0"
      unfolding reachable_words_def by fastforce
    have "w \<noteq> 0" using w(1) by (simp add: used_def)
    with d(1) j have "j < d" by (metis linorder_neqE_nat)
    with r' that(1) j(1) w(2) show ?thesis by auto
  qed
  with r r' False show ?thesis
    by (intro exI [of _ r]) (auto simp: find_id_def pairs_def split: option.splits)
qed

section \<open>Insertion\<close>

lemma place_from_probe:
  assumes "power_sized slots" "probed slots h (j + d) = 0" "\<And>i. i < d \<Longrightarrow> probed slots h (j + i) \<noteq> 0"
  shows "place_from slots (length slots - 1) ((unat h + j) mod length slots) = Some ((unat h + (j + d)) mod length slots)"
  using assms(2,3)
proof (induction d arbitrary: j)
  case 0
  then show ?case by (simp add: place_from.simps probed_def)
next
  case (Suc d)
  have "place_from slots (length slots - 1) ((unat h + Suc j) mod length slots) =
      Some ((unat h + (Suc j + d)) mod length slots)"
  proof (rule Suc.IH)
    show "probed slots h (Suc j + d) = 0" using Suc.prems(1) by simp
    show "i < d \<Longrightarrow> probed slots h (Suc j + i) \<noteq> 0" for i using Suc.prems(2) [of "Suc i"] by simp
  qed
  moreover have "slots ! ((unat h + j) mod length slots) \<noteq> 0"
    using Suc.prems(2) [of 0] by (simp add: probed_def)
  ultimately show ?case
    using probe_step [OF assms(1), of h j] by (subst place_from.simps) simp
qed

lemma used_count_update:
  assumes "p < length slots" "slots ! p = 0" "w \<noteq> (0 :: u64)"
  shows "length (filter (\<lambda>w. w \<noteq> 0) (slots[p := w])) = Suc (length (filter (\<lambda>w. w \<noteq> 0) slots))"
    "used (slots[p := w]) = insert w (used slots)"
proof -
  have s: "slots = take p slots @ 0 # drop (Suc p) slots"
    using assms(1,2) by (metis id_take_nth_drop)
  have u: "slots[p := w] = take p slots @ w # drop (Suc p) slots"
    using assms(1) by (simp add: upd_conv_take_nth_drop)
  have "length (filter (\<lambda>w. w \<noteq> 0) slots) =
      length (filter (\<lambda>w. w \<noteq> 0) (take p slots)) + length (filter (\<lambda>w. w \<noteq> 0) (drop (Suc p) slots))"
    by (subst s) simp
  then show "length (filter (\<lambda>w. w \<noteq> 0) (slots[p := w])) = Suc (length (filter (\<lambda>w. w \<noteq> 0) slots))"
    using assms(3) by (simp add: u)
  have "set slots = set (take p slots) \<union> {0} \<union> set (drop (Suc p) slots)"
    by (subst s) auto
  then show "used (slots[p := w]) = insert w (used slots)"
    using assms(3) by (auto simp: u used_def)
qed

lemma place_word_inv:
  assumes "power_sized slots" "reachable_words slots" "0 \<in> set slots" "w \<noteq> 0"
  shows "\<exists>slots'. place_word slots w = Some slots' \<and> length slots' = length slots \<and> reachable_words slots' \<and>
    used slots' = insert w (used slots) \<and>
    length (filter (\<lambda>w. w \<noteq> 0) slots') = Suc (length (filter (\<lambda>w. w \<noteq> 0) slots))"
proof -
  let ?h = "fst (split_slot w)"
  obtain d where d: "probed slots ?h d = 0" "\<And>i. i < d \<Longrightarrow> probed slots ?h i \<noteq> 0"
    using first_empty [OF assms(3)] by metis
  let ?p = "(unat ?h + d) mod length slots"
  have p: "?p < length slots" "slots ! ?p = 0"
    using and_size(2) [OF assms(1)] d(1) by (simp_all add: probed_def)
  have "place_word slots w = Some (slots[?p := w])"
    using place_from_probe [OF assms(1), of ?h 0 d] d and_size(1) [OF assms(1), of "unat ?h"]
    by (simp add: place_word_def Let_def)
  moreover have "reachable_words (slots[?p := w])"
    unfolding reachable_words_def
  proof
    have keep: "probed (slots[?p := w]) h i = (if (unat h + i) mod length slots = ?p then w else probed slots h i)" for h i
      using p(1) by (simp add: probed_def)
    fix x assume "x \<in> used (slots[?p := w])"
    then consider "x = w" | "x \<in> used slots"
      using used_count_update(2) [OF p assms(4)] by auto
    then show "\<exists>j. probed (slots[?p := w]) (fst (split_slot x)) j = x \<and>
        (\<forall>i < j. probed (slots[?p := w]) (fst (split_slot x)) i \<noteq> 0)"
    proof cases
      case 1
      with d(2) show ?thesis by (intro exI [of _ d]) (auto simp: keep assms(4))
    next
      case 2
      then obtain j where j: "probed slots (fst (split_slot x)) j = x"
        "\<forall>i < j. probed slots (fst (split_slot x)) i \<noteq> 0"
        using assms(2) by (auto simp: reachable_words_def)
      have "x \<noteq> 0" using 2 by (simp add: used_def)
      with j p(2) have "(unat (fst (split_slot x)) + j) mod length slots \<noteq> ?p" by (auto simp: probed_def)
      with j assms(4) show ?thesis by (intro exI [of _ j]) (simp add: keep)
    qed
  qed
  ultimately show ?thesis using used_count_update [OF p assms(4)] by simp
qed

lemma place_words_inv:
  assumes "power_sized slots" "reachable_words slots" "0 \<notin> set ws"
    "length (filter (\<lambda>w. w \<noteq> 0) slots) + length ws < length slots"
  shows "\<exists>slots'. place_words slots ws = Some slots' \<and> length slots' = length slots \<and> reachable_words slots' \<and>
    used slots' = set ws \<union> used slots \<and>
    length (filter (\<lambda>w. w \<noteq> 0) slots') = length ws + length (filter (\<lambda>w. w \<noteq> 0) slots)"
  using assms
proof (induction ws arbitrary: slots)
  case Nil
  then show ?case by simp
next
  case (Cons w ws)
  have "0 \<in> set slots" using Cons.prems(4) by (intro has_empty) simp
  then obtain s where s: "place_word slots w = Some s" "length s = length slots" "reachable_words s"
    "used s = insert w (used slots)"
    "length (filter (\<lambda>w. w \<noteq> 0) s) = Suc (length (filter (\<lambda>w. w \<noteq> 0) slots))"
    using place_word_inv [OF Cons.prems(1,2), of w] Cons.prems(3) by auto
  moreover have "power_sized s" using s(2) Cons.prems(1) by (simp add: power_sized_def)
  ultimately show ?case using Cons.IH [of s] Cons.prems(3,4) by auto
qed

lemma used_filter: "set (filter (\<lambda>w. w \<noteq> 0) slots) = used slots"
  by (auto simp: used_def)

lemma grow_slots_inv:
  assumes "table_inv t"
  shows "\<exists>s. grow_slots t = Some s \<and> power_sized s \<and> reachable_words s \<and> used s = used (it_slots t) \<and>
    length (filter (\<lambda>w. w \<noteq> 0) s) = it_len t \<and> (it_len t + 1) * 4 \<le> length s * 3"
proof (cases "(it_len t + 1) * 4 > length (it_slots t) * 3")
  case False
  then have "it_slots t \<noteq> []" by auto
  with False assms show ?thesis by (auto simp: grow_slots_def table_inv_def)
next
  case True
  let ?n = "max (length (it_slots t) * 2) 64"
  let ?e = "replicate ?n (0 :: u64)"
  let ?ws = "filter (\<lambda>w. w \<noteq> 0) (it_slots t)"
  have count: "length ?ws = it_len t" and load: "it_len t * 4 \<le> length (it_slots t) * 3"
    using assms by (auto simp: table_inv_def)
  have size: "power_sized ?e"
  proof -
    have "\<exists>k. ?n = 2 ^ k"
    proof (cases "length (it_slots t) * 2 \<le> 64")
      case True
      then show ?thesis by (intro exI [of _ 6]) simp
    next
      case False
      then have "it_slots t \<noteq> []" by auto
      with assms obtain k where "length (it_slots t) = 2 ^ k" by (auto simp: table_inv_def power_sized_def)
      with False show ?thesis by (intro exI [of _ "Suc k"]) simp
    qed
    then show ?thesis by (simp only: power_sized_def length_replicate)
  qed
  have "reachable_words ?e" by (simp add: reachable_words_def used_def)
  then obtain s where "place_words ?e ?ws = Some s" "length s = ?n" "reachable_words s" "used s = set ?ws \<union> used ?e"
    "length (filter (\<lambda>w. w \<noteq> 0) s) = length ?ws"
    using place_words_inv [OF size, of ?ws] count load by force
  moreover have "used ?e = {}" by (auto simp: used_def)
  moreover have "power_sized s" using size \<open>length s = ?n\<close> by (simp add: power_sized_def)
  moreover have "(it_len t + 1) * 4 \<le> ?n * 3" using load by (simp add: max_def)
  ultimately show ?thesis
    using True count by (simp only: grow_slots_def if_True used_filter Un_empty_right) simp
qed

text \<open>Insertion returns and adds exactly the new pair; the last id a \<open>u32\<close> can hold would not fit a slot word.\<close>

lemma insert_id_pairs:
  assumes "table_inv t" "i \<noteq> - 1"
  shows "\<exists>t'. insert_id t h i = Some t' \<and> table_inv t' \<and> pairs t' = insert (h, i) (pairs t)"
proof -
  obtain s where s: "grow_slots t = Some s" "power_sized s" "reachable_words s" "used s = used (it_slots t)"
    "length (filter (\<lambda>w. w \<noteq> 0) s) = it_len t" "(it_len t + 1) * 4 \<le> length s * 3"
    using grow_slots_inv [OF assms(1)] by blast
  note W = slot_word_bits [OF assms(2), of h]
  have "0 \<in> set s" using s(6) by (intro has_empty) (simp add: s(5))
  then obtain s' where "place_word s (slot_word h i) = Some s'" "length s' = length s" "reachable_words s'"
    "used s' = insert (slot_word h i) (used s)" "length (filter (\<lambda>w. w \<noteq> 0) s') = Suc (it_len t)"
    using place_word_inv [OF s(2,3) _ W(2)] s(5) by auto
  with s W(1) show ?thesis
    by (simp add: insert_id_def table_inv_def pairs_def power_sized_def)
qed

section \<open>The contract\<close>

text \<open>
  What the pools rely on: a table of pairs of a hash and an id, whose lookup finds an id of this hash
  the comparison accepts, and whose insertion adds one. \<open>indexes\<close> says that a table lists the items
  \<open>I\<close>, each under the hash of its contents.
\<close>

locale id_index =
  fixes inv :: "'t \<Rightarrow> bool" and held :: "'t \<Rightarrow> (u32 \<times> u32) set" and none :: 't
    and search :: "'t \<Rightarrow> u32 \<Rightarrow> (u32 \<Rightarrow> bool option) \<Rightarrow> u32 option option"
    and add :: "'t \<Rightarrow> u32 \<Rightarrow> u32 \<Rightarrow> 't option"
  assumes none: "inv none" "held none = {}"
    and search: "inv t \<Longrightarrow> (\<And>i. (h, i) \<in> held t \<Longrightarrow> eq i \<noteq> None) \<Longrightarrow>
      \<exists>r. search t h eq = Some r \<and>
        (case r of
           Some i \<Rightarrow> (h, i) \<in> held t \<and> eq i = Some True
         | None \<Rightarrow> (\<forall>i. (h, i) \<in> held t \<longrightarrow> eq i = Some False))"
    and add: "inv t \<Longrightarrow> i \<noteq> - 1 \<Longrightarrow> \<exists>t'. add t h i = Some t' \<and> inv t' \<and> held t' = insert (h, i) (held t)"
begin

definition indexes :: "'t \<Rightarrow> nat set \<Rightarrow> (nat \<Rightarrow> u32) \<Rightarrow> bool" where
  "indexes t I hash \<longleftrightarrow> inv t \<and> held t = (\<lambda>i. (hash i, word_of_nat i)) ` I \<and> (\<forall>i \<in> I. i < 2 ^ 32 - 1)"

lemma indexes_none: "indexes none {} hash"
  by (simp add: indexes_def none)

lemma indexes_cong: "indexes t I hash \<Longrightarrow> (\<And>i. i \<in> I \<Longrightarrow> hash' i = hash i) \<Longrightarrow> indexes t I hash'"
  by (force simp: indexes_def)

lemma search_item:
  assumes "indexes t I (\<lambda>i. hash (key i))" "\<And>i. i \<in> I \<Longrightarrow> eq (word_of_nat i) = Some (key i = c)"
  obtains i where "i \<in> I" "key i = c" "search t (hash c) eq = Some (Some (word_of_nat i))"
  | "\<And>i. i \<in> I \<Longrightarrow> key i \<noteq> c" "search t (hash c) eq = Some None"
proof -
  have "eq i \<noteq> None" if "(hash c, i) \<in> held t" for i
    using that assms by (auto simp: indexes_def)
  then obtain r where r: "search t (hash c) eq = Some r"
    "case r of
       Some i \<Rightarrow> (hash c, i) \<in> held t \<and> eq i = Some True
     | None \<Rightarrow> (\<forall>i. (hash c, i) \<in> held t \<longrightarrow> eq i = Some False)"
    using search [of t "hash c" eq] assms(1) by (auto simp: indexes_def)
  show thesis
  proof (cases r)
    case None
    have "key i \<noteq> c" if "i \<in> I" for i
      using that assms r(2) None by (force simp: indexes_def)
    with None r(1) that(2) show thesis by blast
  next
    case (Some w)
    with r(2) assms(1) obtain i where "i \<in> I" "w = word_of_nat i" "eq w = Some True"
      by (auto simp: indexes_def)
    with assms(2) r(1) Some that(1) [of i] show thesis by auto
  qed
qed

lemma add_item:
  assumes "indexes t I hash" "n < 2 ^ 32 - 1"
  obtains t' where "add t (hash n) (word_of_nat n) = Some t'" "indexes t' (insert n I) hash"
proof -
  have "(word_of_nat n :: u32) \<noteq> - 1"
  proof
    assume "(word_of_nat n :: u32) = - 1"
    then have "unat (word_of_nat n :: u32) = unat (- 1 :: u32)" by simp
    with assms(2) show False
      by (simp add: unat_of_nat take_bit_nat_eq_self unsigned_minus_1_eq_mask mask_eq_exp_minus_1 del: unat_1)
  qed
  with assms add [of t "word_of_nat n" "hash n"] that show thesis by (auto simp: indexes_def)
qed

end

interpretation ids: id_index table_inv pairs empty_ids find_id insert_id
  by unfold_locales (simp_all add: find_id_pairs insert_id_pairs)

end
