(* ===== verification/PoolCols.thy ===== *)
theory PoolCols
  imports AppendVec IdTable TyTree "HOL-Library.Monad_Syntax"
begin

text \<open>
  The columns of a type pool in \<^verbatim>\<open>crates/hd_types/src/pool.rs\<close> (\<open>PoolTag\<close>, \<open>Cols\<close>, \<open>Content\<close>) and the
  body-local pool over them. An item is a tag, an inline word or a record in the column \<open>extra\<close>, and a
  list's items lie in the column \<open>tys\<close>. Item indexes are natural numbers here and \<open>u32\<close> words where an
  item names another; a column holds fewer than \<open>2 ^ 32 - 1\<close> items, so one determines the other.
  \<open>None\<close> is a panic or a read of memory nobody wrote. \<open>cols_hold\<close> is the abstraction: columns hold a
  list of contents.
\<close>

section \<open>Tags and contents\<close>

datatype (plugins only: code size) pool_tag =
    PtPrim | PtNever | PtPoison | PtAdt | PtTuple | PtTupleRest | PtOption | PtFn | PtTraitValue | PtOpaque | PtParam
  | PtAssoc | PtMut | PtRef | PtRefMut | PtCRef | PtCRefMut | PtInfer | PtCanon | PtList | PtRow | PtRowTy | PtContext
  | PtConst | PtUnion | PtDeps

definition all_tags :: "pool_tag list" where
  "all_tags =
     [PtPrim, PtNever, PtPoison, PtAdt, PtTuple, PtTupleRest, PtOption, PtFn, PtTraitValue, PtOpaque, PtParam,
      PtAssoc, PtMut, PtRef, PtRefMut, PtCRef, PtCRefMut, PtInfer, PtCanon, PtList, PtRow, PtRowTy, PtContext,
      PtConst, PtUnion, PtDeps]"

text \<open>\<open>tag as u32\<close>: the place of a tag in the declaration.\<close>

definition tag_word :: "pool_tag \<Rightarrow> u32" where
  "tag_word t = word_of_nat (length (takeWhile (\<lambda>u. u \<noteq> t) all_tags))"

definition has_record :: "pool_tag \<Rightarrow> bool" where
  "has_record t =
     (t \<in> {PtAdt, PtTupleRest, PtFn, PtTraitValue, PtOpaque, PtParam, PtAssoc, PtList, PtRow, PtConst, PtDeps})"

record pcontent =
  ct_tag :: pool_tag
  ct_data :: u32
  ct_head :: "u32 list"
  ct_tys :: "u32 list"

definition fx_mix :: "u64 \<Rightarrow> u32 \<Rightarrow> u64" where
  "fx_mix h w = (word_rotl 5 h XOR ucast w) * 0x517cc1b727220a95"

definition content_hash :: "pcontent \<Rightarrow> u64" where
  "content_hash c =
     (let h = fx_mix 0 (tag_word (ct_tag c));
          h = (if has_record (ct_tag c) then foldl fx_mix (foldl fx_mix h (ct_head c)) (ct_tys c)
               else fx_mix h (ct_data c));
          h = (h XOR drop_bit 29 h) * 0x517cc1b727220a95
      in h XOR drop_bit 32 h)"

section \<open>The columns\<close>

record cols =
  pc_tag :: "pool_tag append_vec"
  pc_data :: "u32 append_vec"
  pc_meta :: "u32 append_vec"
  pc_extra :: "u32 append_vec"
  pc_tys :: "u32 append_vec"

definition new_cols :: cols where
  "new_cols = \<lparr>pc_tag = new_vec, pc_data = new_vec, pc_meta = new_vec, pc_extra = new_vec, pc_tys = new_vec\<rparr>"

fun got :: "'a raw \<Rightarrow> 'a option" where
  "got (Got x) = Some x"
| "got Panic = None"
| "got Uninit = None"

text \<open>\<open>u32::try_from(n).expect(..)\<close>.\<close>

definition fit_u32 :: "nat \<Rightarrow> u32 option" where
  "fit_u32 n = (if n < 2 ^ 32 then Some (word_of_nat n) else None)"

definition TY_NEVER :: u32 where "TY_NEVER = 14"

text \<open>The part of \<open>push\<close> that stores the variable part: the new columns and the item's \<open>data\<close> word.\<close>

definition push_parts :: "cols \<Rightarrow> pcontent \<Rightarrow> (cols \<times> u32) option" where
  "push_parts cs c =
     (if ct_tag c = PtList then do {
        n \<leftarrow> fit_u32 (length (ct_tys c));
        (tys, start) \<leftarrow> push_run (pc_tys cs) (unat n) TY_NEVER (ct_tys c);
        (extra, off) \<leftarrow> push_run (pc_extra cs) 2 0 [word_of_nat start, n];
        Some (cs\<lparr>pc_tys := tys, pc_extra := extra\<rparr>, word_of_nat off)
      } else if has_record (ct_tag c) then do {
        n \<leftarrow> fit_u32 (length (ct_head c));
        (extra, off) \<leftarrow> push_run (pc_extra cs) (unat n) 0 (ct_head c);
        Some (cs\<lparr>pc_extra := extra\<rparr>, word_of_nat off)
      } else Some (cs, ct_data c))"

definition cols_push :: "cols \<Rightarrow> pcontent \<Rightarrow> u32 \<Rightarrow> (cols \<times> nat) option" where
  "cols_push cs c m = do {
     (cs, d) \<leftarrow> push_parts cs c;
     (tags, i) \<leftarrow> push_item (pc_tag cs) (ct_tag c);
     (data, _) \<leftarrow> push_item (pc_data cs) d;
     (metas, _) \<leftarrow> push_item (pc_meta cs) m;
     Some (cs\<lparr>pc_tag := tags, pc_data := data, pc_meta := metas\<rparr>, i)
   }"

definition record_len :: "cols \<Rightarrow> pool_tag \<Rightarrow> nat \<Rightarrow> nat option" where
  "record_len cs t off =
     (let x = \<lambda>k. map_option unat (got (item_at (pc_extra cs) (off + k)))
      in case t of
           PtAdt \<Rightarrow> Some 2 | PtTupleRest \<Rightarrow> Some 2 | PtParam \<Rightarrow> Some 2 | PtList \<Rightarrow> Some 2
         | PtAssoc \<Rightarrow> Some 4
         | PtConst \<Rightarrow> Some 3
         | PtOpaque \<Rightarrow> Some 5
         | PtFn \<Rightarrow> Some 5
         | PtDeps \<Rightarrow> do { a \<leftarrow> x 0; b \<leftarrow> x 1; Some (2 + a + b) }
         | PtTraitValue \<Rightarrow> do { n \<leftarrow> x 2; Some (3 + 2 * n) }
         | PtRow \<Rightarrow> do { n \<leftarrow> x 0; p \<leftarrow> x (1 + n); Some (2 + n + 2 * p) }
         | _ \<Rightarrow> None)"

definition record_of :: "cols \<Rightarrow> pool_tag \<Rightarrow> u32 \<Rightarrow> u32 list option" where
  "record_of cs t off =
     (if \<not> has_record t then Some []
      else do { n \<leftarrow> record_len cs t (unat off); got (run_slice (pc_extra cs) (unat off) n) })"

definition record_at :: "cols \<Rightarrow> nat \<Rightarrow> u32 list option" where
  "record_at cs i = do {
     t \<leftarrow> got (item_at (pc_tag cs) i);
     d \<leftarrow> got (item_at (pc_data cs) i);
     record_of cs t d
   }"

definition list_at :: "cols \<Rightarrow> nat \<Rightarrow> u32 list option" where
  "list_at cs i = do {
     off \<leftarrow> got (item_at (pc_data cs) i);
     start \<leftarrow> got (item_at (pc_extra cs) (unat off));
     n \<leftarrow> got (item_at (pc_extra cs) (unat off + 1));
     got (run_slice (pc_tys cs) (unat start) (unat n))
   }"

definition matches_at :: "pcontent \<Rightarrow> cols \<Rightarrow> nat \<Rightarrow> bool option" where
  "matches_at c cs i = do {
     t \<leftarrow> got (item_at (pc_tag cs) i);
     if t \<noteq> ct_tag c then Some False
     else if t = PtList then map_option (\<lambda>l. l = ct_tys c) (list_at cs i)
     else if has_record t then map_option (\<lambda>r. r = ct_head c) (record_at cs i)
     else map_option (\<lambda>d. d = ct_data c) (got (item_at (pc_data cs) i))
   }"

section \<open>Well-formed contents\<close>

text \<open>The length of a record, read from its own words.\<close>

definition head_len :: "pool_tag \<Rightarrow> u32 list \<Rightarrow> nat" where
  "head_len t x =
     (case t of
        PtAssoc \<Rightarrow> 4 | PtConst \<Rightarrow> 3 | PtOpaque \<Rightarrow> 5 | PtFn \<Rightarrow> 5
      | PtDeps \<Rightarrow> 2 + unat (x ! 0) + unat (x ! 1)
      | PtTraitValue \<Rightarrow> 3 + 2 * unat (x ! 2)
      | PtRow \<Rightarrow> 2 + unat (x ! 0) + 2 * unat (x ! (1 + unat (x ! 0)))
      | _ \<Rightarrow> 2)"

definition content_ok :: "pcontent \<Rightarrow> bool" where
  "content_ok c \<longleftrightarrow>
     (if ct_tag c = PtList then ct_data c = 0 \<and> ct_head c = []
      else if has_record (ct_tag c)
           then ct_data c = 0 \<and> ct_tys c = [] \<and> length (ct_head c) = head_len (ct_tag c) (ct_head c)
      else ct_head c = [] \<and> ct_tys c = [])"

text \<open>Item \<open>i\<close> of the columns is these contents.\<close>

definition stored :: "cols \<Rightarrow> nat \<Rightarrow> pcontent \<Rightarrow> bool" where
  "stored cs i c \<longleftrightarrow>
     items (pc_tag cs) ! i = ct_tag c \<and>
     (let d = items (pc_data cs) ! i
      in if ct_tag c = PtList
         then \<exists>start n. run_slice (pc_extra cs) (unat d) 2 = Got [start, n] \<and>
                run_slice (pc_tys cs) (unat start) (unat n) = Got (ct_tys c)
         else if has_record (ct_tag c) then run_slice (pc_extra cs) (unat d) (length (ct_head c)) = Got (ct_head c)
         else d = ct_data c)"

definition cols_inv :: "cols \<Rightarrow> bool" where
  "cols_inv cs \<longleftrightarrow>
     vec_inv (pc_tag cs) \<and> vec_inv (pc_data cs) \<and> vec_inv (pc_meta cs) \<and> vec_inv (pc_extra cs) \<and> vec_inv (pc_tys cs)"

definition cols_hold :: "cols \<Rightarrow> pcontent list \<Rightarrow> bool" where
  "cols_hold cs its \<longleftrightarrow>
     cols_inv cs \<and> length (items (pc_tag cs)) = length its \<and>
     length (items (pc_data cs)) = length its \<and> length (items (pc_meta cs)) = length its \<and>
     (\<forall>i < length its. content_ok (its ! i) \<and> stored cs i (its ! i))"

lemma new_cols_hold [simp]: "cols_hold new_cols []"
  using items_new by (simp add: cols_hold_def cols_inv_def new_cols_def del: length_items)

section \<open>Appending an item\<close>

lemma unat_small: "n < 2 ^ 32 \<Longrightarrow> unat (word_of_nat n :: u32) = n"
  by (simp add: unat_of_nat take_bit_nat_eq_self)

lemma fit_u32_Some [simp]: "fit_u32 n = Some w \<longleftrightarrow> n < 2 ^ 32 \<and> w = word_of_nat n"
  by (auto simp: fit_u32_def)

lemma got_Some [simp]: "got r = Some x \<longleftrightarrow> r = Got x"
  by (cases r) auto

definition cols_later :: "cols \<Rightarrow> cols \<Rightarrow> bool" where
  "cols_later cs cs' \<longleftrightarrow>
     column.later (pc_tag cs) (pc_tag cs') \<and> column.later (pc_data cs) (pc_data cs') \<and>
     column.later (pc_meta cs) (pc_meta cs') \<and> column.later (pc_extra cs) (pc_extra cs') \<and>
     column.later (pc_tys cs) (pc_tys cs')"

lemma cols_later_refl: "cols_inv cs \<Longrightarrow> cols_later cs cs"
  by (simp add: cols_later_def cols_inv_def column.later_refl)

lemma cols_later_trans: "cols_later a b \<Longrightarrow> cols_later b c \<Longrightarrow> cols_later a c"
  unfolding cols_later_def by (blast intro: column.later_trans)

lemma later_nth: "column.later v w \<Longrightarrow> i < length (items v) \<Longrightarrow> items w ! i = items v ! i"
  by (auto simp: column.later_def nth_append)

lemma stored_later:
  assumes "cols_later cs cs'" "i < length (items (pc_tag cs))" "i < length (items (pc_data cs))" "stored cs i c"
  shows "stored cs' i c"
proof -
  have L: "column.later (pc_tag cs) (pc_tag cs')" "column.later (pc_data cs) (pc_data cs')"
    "column.later (pc_extra cs) (pc_extra cs')" "column.later (pc_tys cs) (pc_tys cs')"
    using assms(1) by (simp_all add: cols_later_def)
  show ?thesis
    using assms(4) later_nth [OF L(1) assms(2)] later_nth [OF L(2) assms(3)]
      column.later_run [OF L(3)] column.later_run [OF L(4)]
    unfolding stored_def Let_def by (auto split: if_splits)
qed

text \<open>What the variable part stores, before the item itself is appended.\<close>

lemma push_parts_stores:
  assumes "cols_inv cs" "content_ok c" "push_parts cs c = Some (cs', d)"
  shows "cols_inv cs'" "pc_tag cs' = pc_tag cs" "pc_data cs' = pc_data cs" "pc_meta cs' = pc_meta cs"
    "column.later (pc_extra cs) (pc_extra cs')" "column.later (pc_tys cs) (pc_tys cs')"
    "if ct_tag c = PtList
     then \<exists>start n. run_slice (pc_extra cs') (unat d) 2 = Got [start, n] \<and>
            run_slice (pc_tys cs') (unat start) (unat n) = Got (ct_tys c)
     else if has_record (ct_tag c) then run_slice (pc_extra cs') (unat d) (length (ct_head c)) = Got (ct_head c)
     else d = ct_data c"
proof -
  note inv = assms(1) [unfolded cols_inv_def]
  have tys: "vec_inv w \<and> column.later v w \<and> run_slice w (unat (word_of_nat s :: u32)) (length xs) = Got xs"
    if "vec_inv v" "push_run v (length xs) pad xs = Some (w, s)" for v w :: "u32 append_vec" and s pad xs
  proof -
    have w: "vec_inv w" "run_slice w s (length xs) = Got xs" "s \<le> length (items w)"
      using column.add_run [OF that] by auto
    then have "unat (word_of_nat s :: u32) = s" using vec_small [OF w(1)] by (intro unat_small) simp
    with w show ?thesis using column.later_add_run [OF that] by simp
  qed
  have "cols_inv cs' \<and> pc_tag cs' = pc_tag cs \<and> pc_data cs' = pc_data cs \<and> pc_meta cs' = pc_meta cs \<and>
    column.later (pc_extra cs) (pc_extra cs') \<and> column.later (pc_tys cs) (pc_tys cs') \<and>
    (if ct_tag c = PtList
     then \<exists>start n. run_slice (pc_extra cs') (unat d) 2 = Got [start, n] \<and>
            run_slice (pc_tys cs') (unat start) (unat n) = Got (ct_tys c)
     else if has_record (ct_tag c) then run_slice (pc_extra cs') (unat d) (length (ct_head c)) = Got (ct_head c)
     else d = ct_data c)"
  proof (cases "ct_tag c = PtList")
    case True
    from assms(3) True obtain tys start extra off
      where len: "length (ct_tys c) < 2 ^ 32"
        and t: "push_run (pc_tys cs) (length (ct_tys c)) TY_NEVER (ct_tys c) = Some (tys, start)"
        and e: "push_run (pc_extra cs) 2 0 [word_of_nat start, word_of_nat (length (ct_tys c))] = Some (extra, off)"
        and cs': "cs' = cs\<lparr>pc_tys := tys, pc_extra := extra\<rparr>" and d: "d = word_of_nat off"
      by (auto simp: push_parts_def unat_small bind_eq_Some_conv)
    have "push_run (pc_extra cs) (length [word_of_nat start, word_of_nat (length (ct_tys c)) :: u32]) 0
        [word_of_nat start, word_of_nat (length (ct_tys c))] = Some (extra, off)"
      using e by (simp add: numeral_2_eq_2)
    from tys [OF _ this] show ?thesis
      using True inv tys [OF _ t] unat_small [OF len] by (auto simp: cs' d cols_inv_def numeral_2_eq_2)
  next
    case False
    show ?thesis
    proof (cases "has_record (ct_tag c)")
      case True
      with False assms(3) obtain extra off
        where len: "length (ct_head c) < 2 ^ 32"
          and e: "push_run (pc_extra cs) (length (ct_head c)) 0 (ct_head c) = Some (extra, off)"
          and cs': "cs' = cs\<lparr>pc_extra := extra\<rparr>" and d: "d = word_of_nat off"
        by (auto simp: push_parts_def unat_small bind_eq_Some_conv)
      show ?thesis using True False inv tys [OF _ e] by (simp add: cs' d cols_inv_def column.later_refl)
    next
      case norec: False
      with False assms(3) inv show ?thesis
        by (auto simp: push_parts_def cols_inv_def column.later_refl)
    qed
  qed
  then show "cols_inv cs'" "pc_tag cs' = pc_tag cs" "pc_data cs' = pc_data cs" "pc_meta cs' = pc_meta cs"
    "column.later (pc_extra cs) (pc_extra cs')" "column.later (pc_tys cs) (pc_tys cs')"
    "if ct_tag c = PtList
     then \<exists>start n. run_slice (pc_extra cs') (unat d) 2 = Got [start, n] \<and>
            run_slice (pc_tys cs') (unat start) (unat n) = Got (ct_tys c)
     else if has_record (ct_tag c) then run_slice (pc_extra cs') (unat d) (length (ct_head c)) = Got (ct_head c)
     else d = ct_data c"
    by blast+
qed

lemma cols_push_hold:
  assumes "cols_hold cs its" "content_ok c" "cols_push cs c m = Some (cs', i)"
  shows "i = length its" "cols_hold cs' (its @ [c])" "cols_later cs cs'"
    "items (pc_meta cs') = items (pc_meta cs) @ [m]"
proof -
  note H = assms(1) [unfolded cols_hold_def]
  from assms(3) obtain u d tags data metas j k
    where u: "push_parts cs c = Some (u, d)" and t: "push_item (pc_tag u) (ct_tag c) = Some (tags, i)"
      and dt: "push_item (pc_data u) d = Some (data, j)" and mt: "push_item (pc_meta u) m = Some (metas, k)"
      and cs': "cs' = u\<lparr>pc_tag := tags, pc_data := data, pc_meta := metas\<rparr>"
    by (auto simp: cols_push_def bind_eq_Some_conv)
  note U = push_parts_stores [OF _ assms(2) u]
  have iu: "cols_inv u" using H U(1) by blast
  note inv = iu [unfolded cols_inv_def]
  have T: "vec_inv tags" "i = length (items (pc_tag u))" "items tags = items (pc_tag u) @ [ct_tag c]"
    and D: "vec_inv data" "items data = items (pc_data u) @ [d]"
    and M: "vec_inv metas" "items metas = items (pc_meta u) @ [m]"
    using column.add [OF _ t] column.add [OF _ dt] column.add [OF _ mt] inv by blast+
  have same: "pc_tag u = pc_tag cs" "pc_data u = pc_data cs" "pc_meta u = pc_meta cs"
    using H U(2-4) by blast+
  show i: "i = length its" using T(2) H same by simp
  have inv': "cols_inv cs'" using inv T(1) D(1) M(1) by (simp add: cs' cols_inv_def)
  show later: "cols_later cs cs'"
    using H U(5,6) T D M inv same by (auto simp: cs' cols_later_def column.later_def cols_inv_def)
  show "items (pc_meta cs') = items (pc_meta cs) @ [m]" using M(2) same by (simp add: cs')
  have len: "length (items (pc_tag cs)) = length its" "length (items (pc_data cs)) = length its"
    "length (items (pc_meta cs)) = length its" using H by simp_all
  have new: "stored cs' (length its) c"
    using U(7) H T(3) D(2) len same by (simp add: stored_def cs' nth_append Let_def del: length_items)
  have old: "stored cs' n (its ! n)" if "n < length its" for n
    using stored_later [OF later, of n "its ! n"] H that len by simp
  have "content_ok ((its @ [c]) ! n) \<and> stored cs' n ((its @ [c]) ! n)" if "n < length (its @ [c])" for n
    using that new old assms(2) H by (cases "n = length its") (auto simp: nth_append)
  moreover have "length (items (pc_tag cs')) = length (its @ [c])" "length (items (pc_data cs')) = length (its @ [c])"
    "length (items (pc_meta cs')) = length (its @ [c])"
    using T(3) D(2) M(2) len same by (simp_all add: cs' del: length_items)
  ultimately show "cols_hold cs' (its @ [c])" using inv' by (simp only: cols_hold_def simp_thms) blast
qed

section \<open>Reading an item\<close>

lemma cols_hold_stored:
  assumes "cols_hold cs its" "i < length its"
  shows "stored cs i (its ! i)" "content_ok (its ! i)" "cols_inv cs"
    "item_at (pc_tag cs) i = Got (ct_tag (its ! i))" "item_at (pc_data cs) i = Got (items (pc_data cs) ! i)"
    "\<exists>m. item_at (pc_meta cs) i = Got m"
proof -
  note H = assms(1) [unfolded cols_hold_def]
  show "stored cs i (its ! i)" "content_ok (its ! i)" "cols_inv cs" using H assms(2) by simp_all
  then show "item_at (pc_tag cs) i = Got (ct_tag (its ! i))" "item_at (pc_data cs) i = Got (items (pc_data cs) ! i)"
    "\<exists>m. item_at (pc_meta cs) i = Got m"
    using H assms(2) column.entry [of "pc_tag cs" i] column.entry [of "pc_data cs" i] column.entry [of "pc_meta cs" i]
    by (simp_all add: cols_inv_def stored_def)
qed

lemma record_len_run:
  assumes "vec_inv (pc_extra cs)" "run_slice (pc_extra cs) off (length x) = Got x" "length x = head_len t x"
    "has_record t" "t \<noteq> PtList"
  shows "record_len cs t off = Some (length x)"
proof -
  have at: "item_at (pc_extra cs) (off + k) = Got (x ! k)" if "k < length x" for k
    using column.run_entry [OF assms(1,2) that] .
  show ?thesis
  proof (cases t)
    case PtRow
    have "unat (x ! 0) + 1 < length x" "0 < length x" using assms(3) PtRow by (simp_all add: head_len_def)
    then show ?thesis
      using at [of 0] at [of "1 + unat (x ! 0)"] assms(3) PtRow by (simp add: record_len_def head_len_def Let_def)
  next
    case PtDeps
    then show ?thesis using at [of 0] at [of 1] assms(3) by (simp add: record_len_def head_len_def)
  next
    case PtTraitValue
    then show ?thesis using at [of 2] assms(3) by (simp add: record_len_def head_len_def)
  qed (use assms(3-5) in \<open>simp_all add: record_len_def head_len_def has_record_def\<close>)
qed

lemma record_of_hold:
  assumes "cols_hold cs its" "i < length its" "has_record (ct_tag (its ! i))" "ct_tag (its ! i) \<noteq> PtList"
  shows "record_of cs (ct_tag (its ! i)) (items (pc_data cs) ! i) = Some (ct_head (its ! i))"
proof -
  note S = cols_hold_stored [OF assms(1,2)]
  have run: "run_slice (pc_extra cs) (unat (items (pc_data cs) ! i)) (length (ct_head (its ! i))) = Got (ct_head (its ! i))"
    using S(1) assms(3,4) by (simp add: stored_def)
  have len: "length (ct_head (its ! i)) = head_len (ct_tag (its ! i)) (ct_head (its ! i))"
    using S(2) assms(3,4) by (simp add: content_ok_def)
  have "vec_inv (pc_extra cs)" using S(3) by (simp add: cols_inv_def)
  from record_len_run [OF this run len assms(3,4)] run assms(3) show ?thesis
    by (simp add: record_of_def)
qed

lemma record_at_hold:
  assumes "cols_hold cs its" "i < length its" "has_record (ct_tag (its ! i))" "ct_tag (its ! i) \<noteq> PtList"
  shows "record_at cs i = Some (ct_head (its ! i))"
  using record_of_hold [OF assms] cols_hold_stored [OF assms(1,2)] by (simp add: record_at_def)

lemma list_at_hold:
  assumes "cols_hold cs its" "i < length its" "ct_tag (its ! i) = PtList"
  shows "list_at cs i = Some (ct_tys (its ! i))"
proof -
  note S = cols_hold_stored [OF assms(1,2)]
  let ?d = "unat (items (pc_data cs) ! i)"
  obtain start n where r: "run_slice (pc_extra cs) ?d 2 = Got [start, n]"
    "run_slice (pc_tys cs) (unat start) (unat n) = Got (ct_tys (its ! i))"
    using S(1) assms(3) by (auto simp: stored_def)
  have "vec_inv (pc_extra cs)" using S(3) by (simp add: cols_inv_def)
  from column.run_entry [OF this r(1), of 0] column.run_entry [OF this r(1), of 1] r(2) S(5) show ?thesis
    by (simp add: list_at_def)
qed

text \<open>The comparison never panics on an item of the columns, and it is equality of contents.\<close>

lemma content_eqI:
  "content_ok c \<Longrightarrow> content_ok d \<Longrightarrow> ct_tag c = ct_tag d \<Longrightarrow>
   (if ct_tag c = PtList then ct_tys c = ct_tys d
    else if has_record (ct_tag c) then ct_head c = ct_head d else ct_data c = ct_data d) \<Longrightarrow> c = (d :: pcontent)"
  by (cases c, cases d) (auto simp: content_ok_def split: if_splits)

lemma matches_at_hold:
  assumes "cols_hold cs its" "content_ok c" "i < length its"
  shows "matches_at c cs i = Some (its ! i = c)"
proof -
  note S = cols_hold_stored [OF assms(1,3)]
  consider "ct_tag (its ! i) \<noteq> ct_tag c" | "ct_tag (its ! i) = ct_tag c" "ct_tag c = PtList"
    | "ct_tag (its ! i) = ct_tag c" "ct_tag c \<noteq> PtList" "has_record (ct_tag c)"
    | "ct_tag (its ! i) = ct_tag c" "ct_tag c \<noteq> PtList" "\<not> has_record (ct_tag c)" by blast
  then show ?thesis
  proof cases
    case 1
    then show ?thesis using S(4) by (auto simp: matches_at_def)
  next
    case 2
    then have "(its ! i = c) = (ct_tys (its ! i) = ct_tys c)" using content_eqI [OF S(2) assms(2)] by auto
    with 2 S(4) list_at_hold [OF assms(1,3)] show ?thesis by (simp add: matches_at_def)
  next
    case 3
    then have "(its ! i = c) = (ct_head (its ! i) = ct_head c)" using content_eqI [OF S(2) assms(2)] by auto
    with 3 S(4) record_at_hold [OF assms(1,3)] show ?thesis by (simp add: matches_at_def)
  next
    case 4
    then have "(its ! i = c) = (ct_data (its ! i) = ct_data c)" using content_eqI [OF S(2) assms(2)] by auto
    moreover have "items (pc_data cs) ! i = ct_data (its ! i)" using S(1) 4 by (auto simp: stored_def split: if_splits simp: has_record_def)
    ultimately show ?thesis using 4 S(4,5) by (simp add: matches_at_def)
  qed
qed

end
