(* ===== verification/InternPool.thy ===== *)
theory InternPool
  imports PoolCols
begin

text \<open>
  The global pool of \<^verbatim>\<open>crates/hd_types/src/pool.rs\<close> (\<open>InternPool::intern\<close>) as threads run it. A thread looks
  in its own read-through table, then locks the shard of the content's hash, looks there, and on a miss
  appends the item and indexes it before it unlocks the shard. The steps of different threads
  interleave; a step is what happens between two operations on memory the threads share. The append
  lock makes \<open>Cols::push\<close> one step, and nobody reads an item before its index is known. A thread that
  uses another pool in between replaces its read-through table (\<open>serve_other\<close>). \<open>ps_done\<close> is the log of
  the calls that returned, for the theorems.
\<close>

section \<open>The pieces of a call\<close>

definition SHARDS :: nat where "SHARDS = 64"

definition READ_THROUGH_SLOTS :: nat where "READ_THROUGH_SLOTS = 4096"

type_synonym read_through = "nat \<times> u64 list"

record intern_pool =
  ip_cols :: cols
  ip_shards :: "id_table list"
  ip_uid :: nat

definition empty_pool :: "nat \<Rightarrow> intern_pool" where
  "empty_pool uid = \<lparr>ip_cols = new_cols, ip_shards = replicate SHARDS empty_ids, ip_uid = uid\<rparr>"

definition hash32 :: "pcontent \<Rightarrow> u32" where
  "hash32 c = low (content_hash c)"

definition shard_of :: "pcontent \<Rightarrow> nat" where
  "shard_of c = unat (drop_bit 58 (content_hash c))"

definition cache_slot :: "pcontent \<Rightarrow> nat" where
  "cache_slot c = unat (hash32 c) mod READ_THROUGH_SLOTS"

definition probe_cache :: "intern_pool \<Rightarrow> read_through \<Rightarrow> pcontent \<Rightarrow> u32 option option" where
  "probe_cache p rt c =
     (if fst rt \<noteq> ip_uid p then Some None
      else do {
        w \<leftarrow> get_at (snd rt) (cache_slot c);
        if w = 0 then Some None
        else let (h, i) = split_slot w
             in if h = hash32 c
                then do {
                  same \<leftarrow> matches_at c (ip_cols p) (unat i);
                  Some (if same then Some i else None)
                }
                else Some None
      })"

definition fill_cache :: "intern_pool \<Rightarrow> read_through \<Rightarrow> pcontent \<Rightarrow> u32 \<Rightarrow> read_through" where
  "fill_cache p rt c i =
     (let slots = (if fst rt \<noteq> ip_uid p then replicate READ_THROUGH_SLOTS 0 else snd rt)
      in (ip_uid p, slots[cache_slot c := slot_word (hash32 c) i]))"

definition find_shard :: "intern_pool \<Rightarrow> pcontent \<Rightarrow> u32 option option" where
  "find_shard p c = find_id (ip_shards p ! shard_of c) (hash32 c) (\<lambda>i. matches_at c (ip_cols p) (unat i))"

definition append_item :: "intern_pool \<Rightarrow> pcontent \<Rightarrow> u32 \<Rightarrow> (intern_pool \<times> nat) option" where
  "append_item p c m = do {
     (cs, i) \<leftarrow> cols_push (ip_cols p) c m;
     Some (p\<lparr>ip_cols := cs\<rparr>, i)
   }"

definition index_item :: "intern_pool \<Rightarrow> pcontent \<Rightarrow> u32 \<Rightarrow> intern_pool option" where
  "index_item p c i = do {
     t \<leftarrow> insert_id (ip_shards p ! shard_of c) (hash32 c) i;
     Some (p\<lparr>ip_shards := (ip_shards p)[shard_of c := t]\<rparr>)
   }"

text \<open>A call that no other thread interleaves with.\<close>

definition intern_global ::
    "intern_pool \<Rightarrow> read_through \<Rightarrow> pcontent \<Rightarrow> u32 \<Rightarrow> (intern_pool \<times> read_through \<times> u32) option" where
  "intern_global p rt c m =
     (if m AND HAS_INFER \<noteq> 0 then None
      else do {
        cached \<leftarrow> probe_cache p rt c;
        (case cached of
           Some i \<Rightarrow> Some (p, rt, i)
         | None \<Rightarrow> do {
             found \<leftarrow> find_shard p c;
             (p, i) \<leftarrow> (case found of
                Some i \<Rightarrow> Some (p, i)
              | None \<Rightarrow> do {
                  (p, i) \<leftarrow> append_item p c m;
                  p \<leftarrow> index_item p c (word_of_nat i);
                  Some (p, word_of_nat i)
                });
             Some (p, fill_cache p rt c i, i)
           })
      })"

section \<open>The threads\<close>

text \<open>Where a thread is inside a call: \<open>Looking\<close> to \<open>Leaving\<close> hold the lock of the content's shard.\<close>

datatype (plugins only: size) intern_pc =
    Idle
  | Waiting pcontent u32
  | Looking pcontent u32
  | Missing pcontent u32
  | Appended pcontent u32
  | Leaving pcontent u32
  | Filling pcontent u32

record pool_threads =
  ps_pool :: intern_pool
  ps_cache :: "nat \<Rightarrow> read_through"
  ps_pc :: "nat \<Rightarrow> intern_pc"
  ps_lock :: "nat \<Rightarrow> nat option"
  ps_done :: "(nat \<times> pcontent \<times> u32) list"

definition threads_init :: "nat \<Rightarrow> pool_threads" where
  "threads_init uid =
     \<lparr>ps_pool = empty_pool uid, ps_cache = (\<lambda>_. (0, [])), ps_pc = (\<lambda>_. Idle), ps_lock = (\<lambda>_. None), ps_done = []\<rparr>"

inductive intern_step :: "nat \<Rightarrow> pool_threads \<Rightarrow> pool_threads \<Rightarrow> bool" for t :: nat where
  cache_hit: "ps_pc s t = Idle \<Longrightarrow> content_ok c \<Longrightarrow> m AND HAS_INFER = 0 \<Longrightarrow>
    probe_cache (ps_pool s) (ps_cache s t) c = Some (Some i) \<Longrightarrow>
    intern_step t s (s\<lparr>ps_done := (t, c, i) # ps_done s\<rparr>)"
| cache_miss: "ps_pc s t = Idle \<Longrightarrow> content_ok c \<Longrightarrow> m AND HAS_INFER = 0 \<Longrightarrow>
    probe_cache (ps_pool s) (ps_cache s t) c = Some None \<Longrightarrow>
    intern_step t s (s\<lparr>ps_pc := (ps_pc s)(t := Waiting c m)\<rparr>)"
| lock: "ps_pc s t = Waiting c m \<Longrightarrow> ps_lock s (shard_of c) = None \<Longrightarrow>
    intern_step t s (s\<lparr>ps_pc := (ps_pc s)(t := Looking c m), ps_lock := (ps_lock s)(shard_of c := Some t)\<rparr>)"
| found: "ps_pc s t = Looking c m \<Longrightarrow> find_shard (ps_pool s) c = Some (Some i) \<Longrightarrow>
    intern_step t s (s\<lparr>ps_pc := (ps_pc s)(t := Leaving c i)\<rparr>)"
| missed: "ps_pc s t = Looking c m \<Longrightarrow> find_shard (ps_pool s) c = Some None \<Longrightarrow>
    intern_step t s (s\<lparr>ps_pc := (ps_pc s)(t := Missing c m)\<rparr>)"
| append: "ps_pc s t = Missing c m \<Longrightarrow> append_item (ps_pool s) c m = Some (p, i) \<Longrightarrow>
    intern_step t s (s\<lparr>ps_pool := p, ps_pc := (ps_pc s)(t := Appended c (word_of_nat i))\<rparr>)"
| index: "ps_pc s t = Appended c i \<Longrightarrow> index_item (ps_pool s) c i = Some p \<Longrightarrow>
    intern_step t s (s\<lparr>ps_pool := p, ps_pc := (ps_pc s)(t := Leaving c i)\<rparr>)"
| unlock: "ps_pc s t = Leaving c i \<Longrightarrow>
    intern_step t s (s\<lparr>ps_pc := (ps_pc s)(t := Filling c i), ps_lock := (ps_lock s)(shard_of c := None)\<rparr>)"
| fill: "ps_pc s t = Filling c i \<Longrightarrow>
    intern_step t s
      (s\<lparr>ps_pc := (ps_pc s)(t := Idle),
         ps_cache := (ps_cache s)(t := fill_cache (ps_pool s) (ps_cache s t) c i),
         ps_done := (t, c, i) # ps_done s\<rparr>)"
| serve_other: "ps_pc s t = Idle \<Longrightarrow> uid \<noteq> ip_uid (ps_pool s) \<Longrightarrow>
    intern_step t s (s\<lparr>ps_cache := (ps_cache s)(t := (uid, slots))\<rparr>)"

inductive threads_reach :: "pool_threads \<Rightarrow> pool_threads \<Rightarrow> bool" where
  reach_refl: "threads_reach s s"
| reach_step: "threads_reach s s' \<Longrightarrow> intern_step t s' s'' \<Longrightarrow> threads_reach s s''"

section \<open>The pool as a list of contents\<close>

text \<open>
  \<open>pool_holds p its I\<close>: the columns of \<open>p\<close> hold the distinct contents \<open>its\<close>, and each shard indexes those
  items of its own that are not in \<open>I\<close>, the ones appended and not yet indexed.
\<close>

definition pool_holds :: "intern_pool \<Rightarrow> pcontent list \<Rightarrow> nat set \<Rightarrow> bool" where
  "pool_holds p its I \<longleftrightarrow>
     cols_hold (ip_cols p) its \<and> distinct its \<and> length (ip_shards p) = SHARDS \<and>
     (\<forall>sh < SHARDS. ids.indexes (ip_shards p ! sh) {i. i < length its \<and> shard_of (its ! i) = sh \<and> i \<notin> I}
        (\<lambda>i. hash32 (its ! i)))"

lemma shard_of_less: "shard_of c < SHARDS"
proof -
  have "unat (drop_bit 58 (content_hash c)) = unat (content_hash c) div 2 ^ 58"
    by (simp add: drop_bit_eq_div unat_div_distrib)
  moreover have "unat (content_hash c) < 2 ^ 64" using unsigned_less [of "content_hash c"] by simp
  ultimately show ?thesis by (simp add: shard_of_def SHARDS_def less_mult_imp_div_less)
qed

lemma empty_pool_holds: "pool_holds (empty_pool uid) [] {}"
  by (simp add: pool_holds_def empty_pool_def ids.indexes_none)

lemma pool_holds_small: "pool_holds p its I \<Longrightarrow> length its < 2 ^ 32 - 1"
  using vec_small [of "pc_tag (ip_cols p)"] by (simp add: pool_holds_def cols_hold_def cols_inv_def)

lemma pool_holds_unat: "pool_holds p its I \<Longrightarrow> i < length its \<Longrightarrow> unat (word_of_nat i :: u32) = i"
  using pool_holds_small [of p its I] by (intro unat_small) simp

lemma pool_matches:
  "pool_holds p its I \<Longrightarrow> content_ok c \<Longrightarrow> i < length its \<Longrightarrow> matches_at c (ip_cols p) i = Some (its ! i = c)"
  by (simp add: pool_holds_def matches_at_hold)

lemma find_shard_cases:
  assumes "pool_holds p its I" "content_ok c"
  obtains i where "i < length its" "its ! i = c" "find_shard p c = Some (Some (word_of_nat i))"
  | "\<And>i. i < length its \<Longrightarrow> i \<notin> I \<Longrightarrow> its ! i \<noteq> c" "find_shard p c = Some None"
proof -
  let ?J = "{i. i < length its \<and> shard_of (its ! i) = shard_of c \<and> i \<notin> I}"
  have idx: "ids.indexes (ip_shards p ! shard_of c) ?J (\<lambda>i. hash32 (its ! i))"
    using assms(1) shard_of_less [of c] by (simp add: pool_holds_def)
  have eq: "matches_at c (ip_cols p) (unat (word_of_nat i :: u32)) = Some (its ! i = c)" if "i \<in> ?J" for i
    using that pool_matches [OF assms, of i] pool_holds_unat [OF assms(1), of i] by simp
  show thesis
  proof (rule ids.search_item [where hash = hash32 and key = "(!) its" and c = c and
        eq = "\<lambda>i. matches_at c (ip_cols p) (unat i)", OF idx])
    fix i assume "i \<in> ?J" "its ! i = c"
      "find_id (ip_shards p ! shard_of c) (hash32 c) (\<lambda>i. matches_at c (ip_cols p) (unat i)) = Some (Some (word_of_nat i))"
    then show thesis using that(1) [of i] by (simp add: find_shard_def)
  next
    assume none: "\<And>i. i \<in> ?J \<Longrightarrow> its ! i \<noteq> c"
      and r: "find_id (ip_shards p ! shard_of c) (hash32 c) (\<lambda>i. matches_at c (ip_cols p) (unat i)) = Some None"
    show thesis
    proof (rule that(2))
      show "its ! i \<noteq> c" if "i < length its" "i \<notin> I" for i
        using none [of i] that by (cases "shard_of (its ! i) = shard_of c") auto
      show "find_shard p c = Some None" using r by (simp add: find_shard_def)
    qed
  qed (rule eq)
qed

lemma append_item_holds:
  assumes "pool_holds p its I" "content_ok c" "c \<notin> set its" "append_item p c m = Some (p', i)"
  shows "i = length its" "pool_holds p' (its @ [c]) (insert i I)" "ip_uid p' = ip_uid p"
    "cols_later (ip_cols p) (ip_cols p')" "items (pc_meta (ip_cols p')) = items (pc_meta (ip_cols p)) @ [m]"
proof -
  from assms(4) obtain cs where cs: "cols_push (ip_cols p) c m = Some (cs, i)" and p': "p' = p\<lparr>ip_cols := cs\<rparr>"
    by (auto simp: append_item_def bind_eq_Some_conv)
  have hold: "cols_hold (ip_cols p) its" using assms(1) by (simp add: pool_holds_def)
  note P = cols_push_hold [OF hold assms(2) cs]
  show "i = length its" by (rule P(1))
  show "ip_uid p' = ip_uid p" "cols_later (ip_cols p) (ip_cols p')"
    "items (pc_meta (ip_cols p')) = items (pc_meta (ip_cols p)) @ [m]"
    using P(3,4) by (simp_all add: p')
  have "ids.indexes (ip_shards p ! sh)
      {j. j < length (its @ [c]) \<and> shard_of ((its @ [c]) ! j) = sh \<and> j \<notin> insert i I} (\<lambda>j. hash32 ((its @ [c]) ! j))"
    if "sh < SHARDS" for sh
  proof -
    have "{j. j < length (its @ [c]) \<and> shard_of ((its @ [c]) ! j) = sh \<and> j \<notin> insert i I} =
        {j. j < length its \<and> shard_of (its ! j) = sh \<and> j \<notin> I}"
      using P(1) by (auto simp: nth_append less_Suc_eq)
    moreover have "ids.indexes (ip_shards p ! sh) {j. j < length its \<and> shard_of (its ! j) = sh \<and> j \<notin> I}
        (\<lambda>j. hash32 (its ! j))"
      using assms(1) that by (simp add: pool_holds_def)
    then have "ids.indexes (ip_shards p ! sh) {j. j < length its \<and> shard_of (its ! j) = sh \<and> j \<notin> I}
        (\<lambda>j. hash32 ((its @ [c]) ! j))"
      by (rule ids.indexes_cong) (auto simp: nth_append)
    ultimately show ?thesis by (simp only:)
  qed
  with assms(1,3) P(2) show "pool_holds p' (its @ [c]) (insert i I)" by (simp add: pool_holds_def p')
qed

lemma index_item_holds:
  assumes "pool_holds p its I" "i < length its"
  obtains p' where "index_item p (its ! i) (word_of_nat i) = Some p'" "pool_holds p' its (I - {i})"
    "ip_uid p' = ip_uid p" "ip_cols p' = ip_cols p"
proof -
  let ?c = "its ! i"
  let ?J = "\<lambda>sh I. {j. j < length its \<and> shard_of (its ! j) = sh \<and> j \<notin> I}"
  note sh = shard_of_less [of ?c]
  have old: "ids.indexes (ip_shards p ! k) (?J k I) (\<lambda>j. hash32 (its ! j))" if "k < SHARDS" for k
    using assms(1) that by (simp add: pool_holds_def)
  have small: "i < 2 ^ 32 - 1" using pool_holds_small [OF assms(1)] assms(2) by simp
  obtain t where t: "insert_id (ip_shards p ! shard_of ?c) (hash32 ?c) (word_of_nat i) = Some t"
    "ids.indexes t (insert i (?J (shard_of ?c) I)) (\<lambda>j. hash32 (its ! j))"
    using ids.add_item [OF old [OF sh] small] by blast
  let ?p = "p\<lparr>ip_shards := (ip_shards p)[shard_of ?c := t]\<rparr>"
  have "ids.indexes ((ip_shards p)[shard_of ?c := t] ! k) (?J k (I - {i})) (\<lambda>j. hash32 (its ! j))" if "k < SHARDS" for k
  proof (cases "k = shard_of ?c")
    case True
    then have "?J k (I - {i}) = insert i (?J (shard_of ?c) I)" using assms(2) by auto
    with True t(2) assms(1) that show ?thesis by (simp add: pool_holds_def)
  next
    case False
    then have "?J k (I - {i}) = ?J k I" by auto
    with False old [OF that] show ?thesis by simp
  qed
  with assms(1) have "pool_holds ?p its (I - {i})" by (simp add: pool_holds_def)
  with t(1) show thesis by (intro that [of ?p]) (simp_all add: index_item_def)
qed

section \<open>The read-through table\<close>

definition cache_ok :: "intern_pool \<Rightarrow> nat \<Rightarrow> read_through \<Rightarrow> bool" where
  "cache_ok p n rt \<longleftrightarrow>
     (fst rt = ip_uid p \<longrightarrow>
        length (snd rt) = READ_THROUGH_SLOTS \<and> (\<forall>w \<in> used (snd rt). unat (snd (split_slot w)) < n))"

lemma cache_slot_less: "cache_slot c < READ_THROUGH_SLOTS"
  by (simp add: cache_slot_def READ_THROUGH_SLOTS_def)

lemma cache_ok_mono: "cache_ok p n rt \<Longrightarrow> ip_uid p' = ip_uid p \<Longrightarrow> n \<le> n' \<Longrightarrow> cache_ok p' n' rt"
  by (auto simp: cache_ok_def)

text \<open>A hit is checked against the item: it never panics and never gives another item's index.\<close>

lemma probe_cache_cases:
  assumes "pool_holds p its I" "content_ok c" "cache_ok p (length its) rt"
  obtains i where "probe_cache p rt c = Some (Some i)" "unat i < length its" "its ! unat i = c"
  | "probe_cache p rt c = Some None"
proof (cases "fst rt = ip_uid p")
  case False
  then show thesis by (intro that(2)) (simp add: probe_cache_def)
next
  case True
  with assms(3) have len: "length (snd rt) = READ_THROUGH_SLOTS"
    and ok: "\<And>w. w \<in> used (snd rt) \<Longrightarrow> unat (snd (split_slot w)) < length its" by (auto simp: cache_ok_def)
  let ?w = "snd rt ! cache_slot c"
  have at: "get_at (snd rt) (cache_slot c) = Some ?w" using len cache_slot_less [of c] by simp
  obtain h i where hi: "split_slot ?w = (h, i)" by force
  show thesis
  proof (cases "?w = 0 \<or> h \<noteq> hash32 c")
    case True
    with \<open>fst rt = ip_uid p\<close> hi show thesis by (intro that(2)) (auto simp: probe_cache_def at)
  next
    case False
    then have "?w \<in> used (snd rt)" using len cache_slot_less [of c] by (simp add: used_def)
    with ok hi have i: "unat i < length its" by force
    from pool_matches [OF assms(1,2) this] False \<open>fst rt = ip_uid p\<close> hi
    have "probe_cache p rt c = Some (if its ! unat i = c then Some i else None)"
      by (simp add: probe_cache_def at)
    with i that show thesis by (cases "its ! unat i = c") auto
  qed
qed

lemma fill_cache_ok:
  assumes "cache_ok p n rt" "unat i < n" "i \<noteq> - 1"
  shows "cache_ok p n (fill_cache p rt c i)"
proof -
  let ?s = "if fst rt \<noteq> ip_uid p then replicate READ_THROUGH_SLOTS 0 else snd rt"
  have len: "length ?s = READ_THROUGH_SLOTS" using assms(1) by (auto simp: cache_ok_def)
  have "unat (snd (split_slot w)) < n" if "w \<in> used (?s[cache_slot c := slot_word (hash32 c) i])" for w
  proof -
    have "w = slot_word (hash32 c) i \<or> w \<in> used ?s"
      using that set_update_subset_insert [of ?s "cache_slot c" "slot_word (hash32 c) i"] by (auto simp: used_def)
    then show ?thesis
    proof
      assume "w = slot_word (hash32 c) i"
      with assms(2,3) show ?thesis by (simp add: slot_word_bits)
    next
      assume "w \<in> used ?s"
      with assms(1) show ?thesis by (auto simp: cache_ok_def used_def split: if_splits)
    qed
  qed
  with len show ?thesis by (simp add: cache_ok_def fill_cache_def Let_def)
qed

section \<open>The invariant of the threads\<close>

fun holding :: "intern_pc \<Rightarrow> nat option" where
  "holding (Looking c m) = Some (shard_of c)"
| "holding (Missing c m) = Some (shard_of c)"
| "holding (Appended c i) = Some (shard_of c)"
| "holding (Leaving c i) = Some (shard_of c)"
| "holding pc = None"

definition item_is :: "pcontent list \<Rightarrow> pcontent \<Rightarrow> u32 \<Rightarrow> bool" where
  "item_is its c i \<longleftrightarrow> unat i < length its \<and> its ! unat i = c"

fun pc_ok :: "pcontent list \<Rightarrow> intern_pc \<Rightarrow> bool" where
  "pc_ok its Idle = True"
| "pc_ok its (Waiting c m) = content_ok c"
| "pc_ok its (Looking c m) = content_ok c"
| "pc_ok its (Missing c m) = (content_ok c \<and> c \<notin> set its)"
| "pc_ok its (Appended c i) = (content_ok c \<and> item_is its c i)"
| "pc_ok its (Leaving c i) = (content_ok c \<and> item_is its c i)"
| "pc_ok its (Filling c i) = (content_ok c \<and> item_is its c i)"

fun appended :: "intern_pc \<Rightarrow> nat set" where
  "appended (Appended c i) = {unat i}"
| "appended pc = {}"

definition pending :: "pool_threads \<Rightarrow> nat set" where
  "pending s = (\<Union>t. appended (ps_pc s t))"

definition locks_ok :: "pool_threads \<Rightarrow> bool" where
  "locks_ok s \<longleftrightarrow> (\<forall>t sh. holding (ps_pc s t) = Some sh \<longleftrightarrow> ps_lock s sh = Some t)"

definition threads_inv :: "pool_threads \<Rightarrow> pcontent list \<Rightarrow> bool" where
  "threads_inv s its \<longleftrightarrow>
     pool_holds (ps_pool s) its (pending s) \<and> locks_ok s \<and> (\<forall>t. pc_ok its (ps_pc s t)) \<and>
     (\<forall>t. cache_ok (ps_pool s) (length its) (ps_cache s t)) \<and>
     (\<forall>(t, c, i) \<in> set (ps_done s). item_is its c i)"

lemma threads_init_inv: "0 < uid \<Longrightarrow> threads_inv (threads_init uid) []"
  using empty_pool_holds [of uid]
  by (simp add: threads_inv_def threads_init_def pending_def locks_ok_def cache_ok_def empty_pool_def)

lemma item_is_append: "item_is its c i \<Longrightarrow> item_is (its @ xs) c i"
  by (simp add: item_is_def nth_append)

lemma item_is_small: "pool_holds p its I \<Longrightarrow> item_is its c i \<Longrightarrow> i \<noteq> - 1"
proof
  assume "pool_holds p its I" "item_is its c i" "i = - 1"
  then have "unat (- 1 :: u32) < 2 ^ 32 - 1" using pool_holds_small [of p its I] by (simp add: item_is_def del: unat_1)
  then show False by (simp add: unsigned_minus_1_eq_mask mask_eq_exp_minus_1 del: unat_1)
qed

lemma pending_new:
  assumes "appended (ps_pc s t) = {}" "ps_pc s' = (ps_pc s)(t := pc)"
  shows "pending s' = appended pc \<union> pending s"
proof -
  have "appended (ps_pc s u) \<subseteq> pending s'" for u
    using assms by (cases "u = t") (auto simp: pending_def)
  moreover have "appended pc \<subseteq> pending s'" using assms(2) by (auto simp: pending_def)
  moreover have "pending s' \<subseteq> appended pc \<union> pending s"
    using assms(2) by (auto simp: pending_def split: if_splits)
  ultimately show ?thesis by (auto simp: pending_def)
qed

lemma appended_not_holding: "holding pc = None \<Longrightarrow> appended pc = {}"
  by (cases pc) auto

text \<open>Two threads never append the same contents: both would hold the shard's lock.\<close>

lemma same_shard:
  "locks_ok s \<Longrightarrow> holding (ps_pc s t) = Some sh \<Longrightarrow> holding (ps_pc s u) = Some sh \<Longrightarrow> t = u"
  by (metis locks_ok_def option.inject)

lemma pending_pc:
  assumes "i \<in> pending s"
  obtains t c w where "ps_pc s t = Appended c w" "i = unat w"
proof -
  from assms obtain t where "i \<in> appended (ps_pc s t)" by (auto simp: pending_def)
  then show thesis by (cases "ps_pc s t") (auto intro: that)
qed

lemma pendingI: "ps_pc s t = Appended c w \<Longrightarrow> unat w \<in> pending s"
  unfolding pending_def by (metis UN_I UNIV_I appended.simps(1) insertI1)

lemma locks_keep:
  "locks_ok s \<Longrightarrow> holding pc = holding (ps_pc s t) \<Longrightarrow> ps_pc s' = (ps_pc s)(t := pc) \<Longrightarrow> ps_lock s' = ps_lock s \<Longrightarrow>
   locks_ok s'"
  by (simp add: locks_ok_def)

lemma locks_take:
  "locks_ok s \<Longrightarrow> holding (ps_pc s t) = None \<Longrightarrow> ps_lock s sh = None \<Longrightarrow> holding pc = Some sh \<Longrightarrow>
   ps_pc s' = (ps_pc s)(t := pc) \<Longrightarrow> ps_lock s' = (ps_lock s)(sh := Some t) \<Longrightarrow> locks_ok s'"
  unfolding locks_ok_def by (auto split: if_splits) (metis option.distinct(1))+

lemma locks_release:
  "locks_ok s \<Longrightarrow> holding (ps_pc s t) = Some sh \<Longrightarrow> holding pc = None \<Longrightarrow>
   ps_pc s' = (ps_pc s)(t := pc) \<Longrightarrow> ps_lock s' = (ps_lock s)(sh := None) \<Longrightarrow> locks_ok s'"
  unfolding locks_ok_def by (auto split: if_splits) (metis option.inject option.distinct(1))+

text \<open>A step that leaves the pool's items alone.\<close>

lemma inv_move:
  assumes "threads_inv s its" "pc_ok its pc" "ps_pc s' = (ps_pc s)(t := pc)" "locks_ok s'"
    "pool_holds (ps_pool s') its (pending s')" "ip_uid (ps_pool s') = ip_uid (ps_pool s)"
    "\<And>u. cache_ok (ps_pool s) (length its) (ps_cache s' u)"
    "\<And>d. d \<in> set (ps_done s') \<Longrightarrow> d \<in> set (ps_done s) \<or> item_is its (fst (snd d)) (snd (snd d))"
  shows "threads_inv s' its"
  using assms(1-6) cache_ok_mono [OF assms(7) assms(6) order_refl] assms(8)
  unfolding threads_inv_def by (fastforce split: if_splits)

lemma inv_move_pc:
  assumes "threads_inv s its" "pc_ok its pc" "appended pc = {}" "appended (ps_pc s t) = {}"
    "locks_ok (s\<lparr>ps_pc := (ps_pc s)(t := pc), ps_lock := l\<rparr>)"
  shows "threads_inv (s\<lparr>ps_pc := (ps_pc s)(t := pc), ps_lock := l\<rparr>) its"
  using assms(1,5) pending_new [OF assms(4), of "s\<lparr>ps_pc := (ps_pc s)(t := pc), ps_lock := l\<rparr>" pc] assms(3)
  by (intro inv_move [OF assms(1,2)]) (auto simp: threads_inv_def)

lemma threads_invD:
  assumes "threads_inv s its"
  shows "pool_holds (ps_pool s) its (pending s)" "locks_ok s" "pc_ok its (ps_pc s t)"
    "cache_ok (ps_pool s) (length its) (ps_cache s t)" "(t, c, i) \<in> set (ps_done s) \<Longrightarrow> item_is its c i"
  using assms by (auto simp: threads_inv_def)

lemma inv_append:
  assumes "threads_inv s its" "ps_pc s t = Missing c m" "append_item (ps_pool s) c m = Some (p, i)"
  shows "threads_inv (s\<lparr>ps_pool := p, ps_pc := (ps_pc s)(t := Appended c (word_of_nat i))\<rparr>) (its @ [c])"
    (is "threads_inv ?s' _")
proof -
  note I = threads_invD [OF assms(1)]
  have c: "content_ok c" "c \<notin> set its" using I(3) [of t] assms(2) by simp_all
  note A = append_item_holds [OF I(1) c assms(3)]
  have i: "unat (word_of_nat i :: u32) = length its"
    using pool_holds_unat [OF A(2), of i] A(1) by simp
  have other: "pc_ok (its @ [c]) (ps_pc s u)" if "u \<noteq> t" for u
  proof (cases "ps_pc s u")
    case (Missing c' m')
    moreover have "shard_of c' \<noteq> shard_of c"
      using same_shard [OF I(2), of u _ t] Missing assms(2) that by auto
    ultimately show ?thesis using I(3) [of u] by auto
  qed (use I(3) [of u] in \<open>auto simp: item_is_append\<close>)
  have "pc_ok (its @ [c]) (ps_pc ?s' u)" for u
    using other [of u] c(1) i by (simp add: item_is_def)
  moreover have "locks_ok ?s'" using assms(2) by (intro locks_keep [OF I(2)]) simp_all
  moreover have "pending ?s' = insert i (pending s)"
    using pending_new [of s t ?s' "Appended c (word_of_nat i)"] assms(2) i A(1) by simp
  moreover have "cache_ok p (length (its @ [c])) (ps_cache s u)" for u
    using I(4) [of u] by (rule cache_ok_mono) (simp_all add: A(3))
  ultimately show ?thesis
    using A(2) I(5) by (auto simp: threads_inv_def item_is_append split: prod.splits)
qed

lemma inv_index:
  assumes "threads_inv s its" "ps_pc s t = Appended c i" "index_item (ps_pool s) c i = Some p"
  shows "threads_inv (s\<lparr>ps_pool := p, ps_pc := (ps_pc s)(t := Leaving c i)\<rparr>) its" (is "threads_inv ?s' _")
proof -
  note I = threads_invD [OF assms(1)]
  have c: "content_ok c" "unat i < length its" "its ! unat i = c"
    using I(3) [of t] assms(2) by (simp_all add: item_is_def)
  have p: "pool_holds p its (pending s - {unat i})" "ip_uid p = ip_uid (ps_pool s)"
  proof -
    obtain q where "index_item (ps_pool s) (its ! unat i) (word_of_nat (unat i)) = Some q"
      "pool_holds q its (pending s - {unat i})" "ip_uid q = ip_uid (ps_pool s)"
      by (rule index_item_holds [OF I(1) c(2)])
    with assms(3) c(3) show "pool_holds p its (pending s - {unat i})" "ip_uid p = ip_uid (ps_pool s)" by simp_all
  qed
  have alone: "u = t" if "ps_pc s u = Appended c' i'" "unat i' = unat i" for u c' i'
    using same_shard [OF I(2), of u _ t] I(3) [of u] that c(3) assms(2) by (auto simp: item_is_def)
  have "pending ?s' = pending s - {unat i}"
  proof
    show "pending ?s' \<subseteq> pending s - {unat i}"
    proof
      fix n assume "n \<in> pending ?s'"
      then obtain u c' w where u: "ps_pc ?s' u = Appended c' w" "n = unat w" by (rule pending_pc)
      then have "u \<noteq> t" by auto
      with u have "ps_pc s u = Appended c' w" by simp
      with u(2) \<open>u \<noteq> t\<close> alone [of u c' w] show "n \<in> pending s - {unat i}" by (auto intro: pendingI)
    qed
    show "pending s - {unat i} \<subseteq> pending ?s'"
    proof
      fix n assume n: "n \<in> pending s - {unat i}"
      then have "n \<in> pending s" by simp
      then obtain u c' w where u: "ps_pc s u = Appended c' w" "n = unat w" by (rule pending_pc)
      with n assms(2) have "u \<noteq> t" by auto
      with u(1) have "ps_pc ?s' u = Appended c' w" by simp
      with u(2) show "n \<in> pending ?s'" by (auto intro: pendingI)
    qed
  qed
  moreover have "locks_ok ?s'" using assms(2) by (intro locks_keep [OF I(2)]) simp_all
  ultimately show ?thesis
    using p I(4) c by (intro inv_move [OF assms(1)]) (auto simp: item_is_def)
qed

lemma inv_missed:
  assumes "threads_inv s its" "ps_pc s t = Looking c m" "find_shard (ps_pool s) c = Some None"
  shows "threads_inv (s\<lparr>ps_pc := (ps_pc s)(t := Missing c m)\<rparr>) its"
proof -
  note I = threads_invD [OF assms(1)]
  have c: "content_ok c" using I(3) [of t] assms(2) by simp
  have fresh: "its ! i \<noteq> c" if "i < length its" "i \<notin> pending s" for i
    using that by (rule_tac find_shard_cases [OF I(1) c]) (use assms(3) in auto)
  have "its ! i \<noteq> c" if "i \<in> pending s" for i
  proof
    assume ic: "its ! i = c"
    from that obtain u c' w where u: "ps_pc s u = Appended c' w" "i = unat w" by (rule pending_pc)
    with I(3) [of u] ic have "c' = c" by (simp add: item_is_def)
    with same_shard [OF I(2), of u _ t] u assms(2) show False by auto
  qed
  with fresh have "c \<notin> set its" by (metis in_set_conv_nth)
  moreover have "locks_ok (s\<lparr>ps_pc := (ps_pc s)(t := Missing c m)\<rparr>)"
    using assms(2) by (intro locks_keep [OF I(2)]) simp_all
  ultimately show ?thesis
    using assms(2) c by (intro inv_move_pc [OF assms(1), where l = "ps_lock s", simplified]) auto
qed

text \<open>Every step of every thread keeps the invariant and only adds to the items.\<close>

lemma step_inv:
  assumes "threads_inv s its" "intern_step t s s'"
  shows "\<exists>xs. threads_inv s' (its @ xs)"
  using assms(2)
proof cases
  note I = threads_invD [OF assms(1)]
  case (cache_hit c m i)
  have "item_is its c i"
    using cache_hit(5) by (rule_tac probe_cache_cases [OF I(1) cache_hit(3) I(4) [of t]]) (auto simp: item_is_def)
  then have "threads_inv s' its"
    using assms(1) by (auto simp: cache_hit(1) threads_inv_def pending_def locks_ok_def)
  then show ?thesis by (metis append_Nil2)
next
  note I = threads_invD [OF assms(1)]
  case (cache_miss c m)
  have "locks_ok s'" unfolding cache_miss(1) by (rule locks_keep [OF I(2)]) (use cache_miss(2) in simp_all)
  then have "threads_inv s' its"
    using cache_miss(2,3) unfolding cache_miss(1)
    by (intro inv_move_pc [OF assms(1), where l = "ps_lock s", simplified]) auto
  then show ?thesis by (metis append_Nil2)
next
  note I = threads_invD [OF assms(1)]
  case (lock c m)
  have "locks_ok s'" unfolding lock(1) by (rule locks_take [OF I(2) _ lock(3)]) (use lock(2) in simp_all)
  then have "threads_inv s' its"
    using lock(2) I(3) [of t] unfolding lock(1) by (intro inv_move_pc [OF assms(1)]) auto
  then show ?thesis by (metis append_Nil2)
next
  note I = threads_invD [OF assms(1)]
  case (found c m i)
  have c: "content_ok c" using I(3) [of t] found(2) by simp
  have "item_is its c i"
    by (rule find_shard_cases [OF I(1) c]) (use found(3) pool_holds_unat [OF I(1)] in \<open>auto simp: item_is_def\<close>)
  moreover have "locks_ok s'" unfolding found(1) by (rule locks_keep [OF I(2)]) (use found(2) in simp_all)
  ultimately have "threads_inv s' its"
    using found(2) c unfolding found(1) by (intro inv_move_pc [OF assms(1), where l = "ps_lock s", simplified]) auto
  then show ?thesis by (metis append_Nil2)
next
  case (missed c m)
  then show ?thesis using inv_missed [OF assms(1)] by (metis append_Nil2)
next
  case (append c m p i)
  then show ?thesis using inv_append [OF assms(1)] by metis
next
  case (index c i p)
  then show ?thesis using inv_index [OF assms(1)] by (metis append_Nil2)
next
  note I = threads_invD [OF assms(1)]
  case (unlock c i)
  have "locks_ok s'" unfolding unlock(1) by (rule locks_release [OF I(2)]) (use unlock(2) in simp_all)
  then have "threads_inv s' its"
    using unlock(2) I(3) [of t] unfolding unlock(1) by (intro inv_move_pc [OF assms(1)]) auto
  then show ?thesis by (metis append_Nil2)
next
  note I = threads_invD [OF assms(1)]
  case (fill c i)
  have c: "item_is its c i" using I(3) [of t] fill(2) by simp
  have "cache_ok (ps_pool s) (length its) (fill_cache (ps_pool s) (ps_cache s t) c i)"
    using c item_is_small [OF I(1) c] by (intro fill_cache_ok [OF I(4)]) (simp_all add: item_is_def)
  moreover have "locks_ok s'" unfolding fill(1) by (rule locks_keep [OF I(2)]) (use fill(2) in simp_all)
  moreover have "pending s' = pending s" using pending_new [of s t s' Idle] fill(1,2) by simp
  ultimately have "threads_inv s' its"
    using I(1) I(4) c by (intro inv_move [OF assms(1), of Idle s' t]) (auto simp: fill(1))
  then show ?thesis by (metis append_Nil2)
next
  note I = threads_invD [OF assms(1)]
  case (serve_other uid slots)
  have "threads_inv s' its"
    using assms(1) serve_other(3) by (auto simp: serve_other(1) threads_inv_def pending_def locks_ok_def cache_ok_def)
  then show ?thesis by (metis append_Nil2)
qed

lemma reach_inv:
  "threads_reach s s' \<Longrightarrow> threads_inv s its \<Longrightarrow> \<exists>xs. threads_inv s' (its @ xs)"
proof (induction rule: threads_reach.induct)
  case (reach_refl s)
  then show ?case by (metis append_Nil2)
next
  case (reach_step s s' t s'')
  then show ?case using step_inv [of s' _ t s''] by (metis append_assoc)
qed

lemma pool_reached:
  assumes "0 < uid" "threads_reach (threads_init uid) s"
  obtains its where "threads_inv s its"
  using reach_inv [OF assms(2) threads_init_inv [OF assms(1)]] by auto

section \<open>A call without interleaving\<close>

text \<open>
  On a pool with nothing pending a call gives the index of an item with these contents, and appends it
  with its meta word only when there was none.
\<close>

lemma intern_global_holds:
  assumes "pool_holds p its {}" "cache_ok p (length its) rt" "content_ok c"
    "intern_global p rt c m = Some (p', rt', i)"
  obtains "c \<in> set its" "item_is its c i" "pool_holds p' its {}" "cache_ok p' (length its) rt'" "ip_cols p' = ip_cols p"
      "ip_uid p' = ip_uid p" "m AND HAS_INFER = 0"
  | "c \<notin> set its" "item_is (its @ [c]) c i" "pool_holds p' (its @ [c]) {}" "cache_ok p' (length (its @ [c])) rt'"
      "cols_later (ip_cols p) (ip_cols p')" "ip_uid p' = ip_uid p" "m AND HAS_INFER = 0"
      "items (pc_meta (ip_cols p')) = items (pc_meta (ip_cols p)) @ [m]" "unat i = length its"
proof (rule probe_cache_cases [OF assms(1,3,2)])
  have m: "m AND HAS_INFER = 0" using assms(4) by (simp add: intern_global_def split: if_splits)
  {
    fix j assume "probe_cache p rt c = Some (Some j)" "unat j < length its" "its ! unat j = c"
    with assms m show thesis
      by (intro that(1)) (auto simp: intern_global_def item_is_def)
  }
  assume miss: "probe_cache p rt c = Some None"
  show thesis
  proof (rule find_shard_cases [OF assms(1,3)])
    fix j assume j: "j < length its" "its ! j = c" "find_shard p c = Some (Some (word_of_nat j))"
    have r: "p' = p" "rt' = fill_cache p rt c i" "i = word_of_nat j"
      using assms(4) m miss j(3) by (auto simp: intern_global_def)
    have i: "item_is its c i" using j(1,2) pool_holds_unat [OF assms(1) j(1)] by (simp add: item_is_def r(3))
    have "cache_ok p (length its) rt'" unfolding r(2)
      using i item_is_small [OF assms(1) i] by (intro fill_cache_ok [OF assms(2)]) (simp_all add: item_is_def)
    with assms(1) i j m r(1) show thesis by (intro that(1)) auto
  next
    assume none: "\<And>i. i < length its \<Longrightarrow> i \<notin> {} \<Longrightarrow> its ! i \<noteq> c" and f: "find_shard p c = Some None"
    have c: "c \<notin> set its" using none by (auto simp: in_set_conv_nth)
    from assms(4) m miss f obtain q j
      where q: "append_item p c m = Some (q, j)" "index_item q c (word_of_nat j) = Some p'"
        and r: "rt' = fill_cache p' rt c i" "i = word_of_nat j"
      by (auto simp: intern_global_def bind_eq_Some_conv split: prod.splits)
    note A = append_item_holds [OF assms(1,3) c q(1)]
    have j: "j < length (its @ [c])" "(its @ [c]) ! j = c" using A(1) by simp_all
    have p': "pool_holds p' (its @ [c]) {}" "ip_uid p' = ip_uid q" "ip_cols p' = ip_cols q"
      by (rule index_item_holds [OF A(2) j(1)], use q(2) j(2) in \<open>force simp: A(1)\<close>)+
    have i: "item_is (its @ [c]) c i" "unat i = length its"
      using j pool_holds_unat [OF p'(1) j(1)] A(1) by (simp_all add: item_is_def r(2))
    have "cache_ok p' (length (its @ [c])) rt'" unfolding r(1)
      using i item_is_small [OF p'(1) i(1)]
      by (intro fill_cache_ok cache_ok_mono [OF assms(2)]) (simp_all add: p'(2) A(3) item_is_def)
    with p' i A c m show thesis by (intro that(2)) simp_all
  qed
qed

text \<open>The call fails only for an item with an inference variable or when the columns are full.\<close>

lemma intern_global_None:
  assumes "pool_holds p its {}" "cache_ok p (length its) rt" "content_ok c" "intern_global p rt c m = None"
  shows "m AND HAS_INFER \<noteq> 0 \<or> c \<notin> set its \<and> append_item p c m = None"
proof (rule ccontr)
  assume n: "\<not> ?thesis"
  then have m: "m AND HAS_INFER = 0" by simp
  show False
  proof (rule probe_cache_cases [OF assms(1,3,2)])
    assume miss: "probe_cache p rt c = Some None"
    show False
    proof (rule find_shard_cases [OF assms(1,3)])
      assume none: "\<And>i. i < length its \<Longrightarrow> i \<notin> {} \<Longrightarrow> its ! i \<noteq> c" and f: "find_shard p c = Some None"
      have c: "c \<notin> set its" using none by (auto simp: in_set_conv_nth)
      with n obtain q j where q: "append_item p c m = Some (q, j)" by auto
      note A = append_item_holds [OF assms(1,3) c q]
      have j: "j < length (its @ [c])" "(its @ [c]) ! j = c" using A(1) by simp_all
      obtain p' where "index_item q c (word_of_nat j) = Some p'"
        using index_item_holds [OF A(2) j(1)] j(2) by metis
      with assms(4) m miss f q show False by (simp add: intern_global_def)
    qed (use assms(4) m miss in \<open>simp add: intern_global_def\<close>)
  qed (use assms(4) m in \<open>simp add: intern_global_def\<close>)
qed

lemma reach_one: "intern_step t s s' \<Longrightarrow> threads_reach s s'"
  by (rule reach_step [OF reach_refl])

lemma reach_trans: "threads_reach s s' \<Longrightarrow> threads_reach r s \<Longrightarrow> threads_reach r s'"
  by (induction rule: threads_reach.induct) (auto intro: reach_step)

section \<open>A call of one thread\<close>

text \<open>The call as one function is a run of the steps, when nobody holds the shard's lock.\<close>

lemma intern_global_run:
  assumes "ps_pc s t = Idle" "ps_lock s (shard_of c) = None" "content_ok c"
    "intern_global (ps_pool s) (ps_cache s t) c m = Some (p, rt, i)"
  shows "threads_reach s
    (s\<lparr>ps_pool := p, ps_cache := (ps_cache s)(t := rt), ps_done := (t, c, i) # ps_done s\<rparr>)"
proof -
  have m: "m AND HAS_INFER = 0" using assms(4) by (simp add: intern_global_def split: if_splits)
  obtain r where r: "probe_cache (ps_pool s) (ps_cache s t) c = Some r"
    using assms(4) m by (auto simp: intern_global_def bind_eq_Some_conv)
  show ?thesis
  proof (cases r)
    case (Some j)
    with assms(4) m r have "p = ps_pool s" "rt = ps_cache s t" "i = j" by (auto simp: intern_global_def)
    with cache_hit [OF assms(1,3) m] r Some show ?thesis by (intro reach_one [of t]) simp
  next
    case None
    let ?w = "s\<lparr>ps_pc := (ps_pc s)(t := Waiting c m)\<rparr>"
    let ?l = "s\<lparr>ps_pc := (ps_pc s)(t := Looking c m), ps_lock := (ps_lock s)(shard_of c := Some t)\<rparr>"
    let ?v = "\<lambda>q j. s\<lparr>ps_pool := q, ps_pc := (ps_pc s)(t := Leaving c j), ps_lock := (ps_lock s)(shard_of c := Some t)\<rparr>"
    have w: "intern_step t s ?w" using cache_miss [OF assms(1,3) m] r None by simp
    have l: "intern_step t ?w ?l" using lock [of ?w t c m] assms(2) by simp
    have "threads_reach s ?l" by (rule reach_step [OF reach_one [OF w] l])
    moreover have "threads_reach ?l (?v p i) \<and> rt = fill_cache p (ps_cache s t) c i"
    proof -
      obtain f where f: "find_shard (ps_pool s) c = Some f"
        using assms(4) m r None by (auto simp: intern_global_def bind_eq_Some_conv)
      show ?thesis
      proof (cases f)
        case (Some j)
        with assms(4) m r None f have "p = ps_pool s" "rt = fill_cache p (ps_cache s t) c i" "i = j"
          by (auto simp: intern_global_def)
        moreover have v: "?v (ps_pool s) j = ?l\<lparr>ps_pc := (ps_pc ?l)(t := Leaving c j)\<rparr>"
          by (rule pool_threads.equality) simp_all
        have "intern_step t ?l (?v (ps_pool s) j)" unfolding v
          by (rule found [of ?l t c m j]) (use f Some in simp_all)
        ultimately show ?thesis using reach_one by auto
      next
        case None
        with assms(4) m r \<open>r = None\<close> f obtain q j
          where q: "append_item (ps_pool s) c m = Some (q, j)" "index_item q c (word_of_nat j) = Some p"
            and i: "rt = fill_cache p (ps_cache s t) c i" "i = word_of_nat j"
          by (auto simp: intern_global_def bind_eq_Some_conv split: prod.splits)
        let ?m = "?l\<lparr>ps_pc := (ps_pc s)(t := Missing c m)\<rparr>"
        let ?a = "?l\<lparr>ps_pool := q, ps_pc := (ps_pc s)(t := Appended c i)\<rparr>"
        have "intern_step t ?l ?m" using missed [of ?l t c m] f None by simp
        moreover have "intern_step t ?m ?a" using append [of ?m t c m q j] q(1) i by simp
        moreover have v: "?v p i = ?a\<lparr>ps_pool := p, ps_pc := (ps_pc ?a)(t := Leaving c i)\<rparr>"
          by (rule pool_threads.equality) simp_all
        have "intern_step t ?a (?v p i)" unfolding v
          by (rule index [of ?a t c i p]) (use q(2) i in simp_all)
        ultimately show ?thesis using i(1) reach_step [OF reach_step [OF reach_one]] by blast
      qed
    qed
    moreover have "intern_step t (?v p i)
        (s\<lparr>ps_pool := p, ps_pc := (ps_pc s)(t := Filling c i), ps_lock := (ps_lock s)(shard_of c := None)\<rparr>)"
      using unlock [of "?v p i" t c i] by simp
    moreover have "intern_step t
        (s\<lparr>ps_pool := p, ps_pc := (ps_pc s)(t := Filling c i), ps_lock := (ps_lock s)(shard_of c := None)\<rparr>)
        (s\<lparr>ps_pool := p, ps_cache := (ps_cache s)(t := fill_cache p (ps_cache s t) c i),
           ps_done := (t, c, i) # ps_done s\<rparr>)"
      using fill [of "s\<lparr>ps_pool := p, ps_pc := (ps_pc s)(t := Filling c i), ps_lock := (ps_lock s)(shard_of c := None)\<rparr>" t c i]
        assms(1,2) by (simp add: fun_upd_idem)
    ultimately show ?thesis by (blast intro: reach_trans reach_step)
  qed
qed

end
