(* ===== verification/PoolThreads.thy ===== *)
theory PoolThreads
  imports InternPool
begin

text \<open>
  What the threads of \<open>InternPool\<close> get: equal contents one index and different contents different ones,
  for every interleaving; an index that reads back as its contents for ever; and calls that return, with
  full columns as the one exception.
\<close>

section \<open>Calls return\<close>

fun call_of :: "intern_pc \<Rightarrow> pcontent option" where
  "call_of Idle = None"
| "call_of (Waiting c m) = Some c"
| "call_of (Looking c m) = Some c"
| "call_of (Missing c m) = Some c"
| "call_of (Appended c i) = Some c"
| "call_of (Leaving c i) = Some c"
| "call_of (Filling c i) = Some c"

fun steps_left :: "intern_pc \<Rightarrow> nat" where
  "steps_left Idle = 0"
| "steps_left (Waiting c m) = 6"
| "steps_left (Looking c m) = 5"
| "steps_left (Missing c m) = 4"
| "steps_left (Appended c i) = 3"
| "steps_left (Leaving c i) = 2"
| "steps_left (Filling c i) = 1"

text \<open>The panic of a thread: it would append to full columns.\<close>

definition panics_at :: "pool_threads \<Rightarrow> nat \<Rightarrow> bool" where
  "panics_at s t \<longleftrightarrow> (\<exists>c m. ps_pc s t = Missing c m \<and> append_item (ps_pool s) c m = None)"

lemma past_lock_moves:
  assumes "threads_inv s its" "call_of (ps_pc s t) = Some c" "\<And>m. ps_pc s t \<noteq> Waiting c m" "\<not> panics_at s t"
  shows "\<exists>s'. intern_step t s s'"
proof -
  note I = threads_invD [OF assms(1)]
  show ?thesis
  proof (cases "ps_pc s t")
    case (Looking c' m)
    then have c: "content_ok c" "c' = c" using I(3) [of t] assms(2) by simp_all
    show ?thesis
      by (rule find_shard_cases [OF I(1) c(1)]) (use found [of s t c m] missed [of s t c m] Looking c in blast)+
  next
    case (Missing c' m)
    with assms(4) obtain p i where "append_item (ps_pool s) c' m = Some (p, i)"
      unfolding panics_at_def by fastforce
    with append [of s t c' m p i] Missing show ?thesis by blast
  next
    case (Appended c' i)
    then have c: "unat i < length its" "its ! unat i = c'" "c' = c"
      using I(3) [of t] assms(2) by (simp_all add: item_is_def)
    obtain p where "index_item (ps_pool s) c' i = Some p"
      using index_item_holds [OF I(1) c(1)] c(2) by auto
    with index [of s t c' i p] Appended show ?thesis by blast
  next
    case (Leaving c' i)
    with unlock [of s t c' i] show ?thesis by blast
  next
    case (Filling c' i)
    with fill [of s t c' i] show ?thesis by blast
  qed (use assms(2,3) in auto)
qed

text \<open>One step of a call under way: the call goes on or returns, and never waits again.\<close>

lemma call_step:
  assumes "intern_step t s s'" "call_of (ps_pc s t) = Some c"
  obtains pc where "ps_pc s' = (ps_pc s)(t := pc)" "steps_left pc < steps_left (ps_pc s t)" "\<And>d m. pc \<noteq> Waiting d m"
    "call_of pc = Some c \<and> ps_done s' = ps_done s \<or> pc = Idle \<and> (\<exists>i. ps_done s' = (t, c, i) # ps_done s)"
  using assms by cases auto

text \<open>\<open>calls_run U n s s'\<close>: \<open>n\<close> steps of the calls that the threads \<open>U\<close> have under way, in any order, lead
  from \<open>s\<close> to \<open>s'\<close>; a call that returned makes no further step and no thread starts another call.\<close>

inductive calls_run :: "nat set \<Rightarrow> nat \<Rightarrow> pool_threads \<Rightarrow> pool_threads \<Rightarrow> bool" for U where
  run_none: "calls_run U 0 s s"
| run_more: "calls_run U n s s' \<Longrightarrow> u \<in> U \<Longrightarrow> ps_pc s' u \<noteq> Idle \<Longrightarrow> intern_step u s' s'' \<Longrightarrow> calls_run U (Suc n) s s''"

definition work_left :: "nat set \<Rightarrow> pool_threads \<Rightarrow> nat" where
  "work_left U s = (\<Sum>u\<in>U. steps_left (ps_pc s u))"

lemma call_of_None: "call_of pc = None \<longleftrightarrow> pc = Idle"
  by (cases pc) simp_all

lemma work_left_step:
  assumes "finite U" "u \<in> U" "ps_pc s' = (ps_pc s)(u := pc)" "steps_left pc < steps_left (ps_pc s u)"
  shows "work_left U s' < work_left U s"
  unfolding work_left_def
  by (rule sum_strict_mono_ex1) (use assms in auto)

lemma calls_run_goes:
  assumes "finite U"
  shows "calls_run U n s s' \<Longrightarrow> threads_inv s its \<Longrightarrow>
    (\<exists>xs. threads_inv s' (its @ xs)) \<and> n + work_left U s' \<le> work_left U s \<and>
    (\<forall>v. v \<notin> U \<longrightarrow> ps_pc s' v = ps_pc s v) \<and> (\<forall>v d m. ps_pc s' v = Waiting d m \<longrightarrow> ps_pc s v = Waiting d m) \<and>
    (\<exists>ds. ps_done s' = ds @ ps_done s \<and>
       (\<forall>v d. call_of (ps_pc s v) = Some d \<longrightarrow>
          call_of (ps_pc s' v) = Some d \<or> ps_pc s' v = Idle \<and> (\<exists>i. (v, d, i) \<in> set ds)))"
proof (induction rule: calls_run.induct)
  case (run_none s)
  then have "threads_inv s (its @ [])" by simp
  moreover have "ps_done s = [] @ ps_done s" by simp
  ultimately show ?case by (intro conjI exI [of _ "[]"]) auto
next
  case (run_more n s s' u s'')
  obtain c where c: "call_of (ps_pc s' u) = Some c" using run_more.hyps(3) call_of_None by fastforce
  obtain pc where pc: "ps_pc s'' = (ps_pc s')(u := pc)" "steps_left pc < steps_left (ps_pc s' u)" "\<And>d m. pc \<noteq> Waiting d m"
    "call_of pc = Some c \<and> ps_done s'' = ps_done s' \<or> pc = Idle \<and> (\<exists>i. ps_done s'' = (u, c, i) # ps_done s')"
    by (rule call_step [OF run_more.hyps(4) c]) blast
  note I = run_more.IH [OF run_more.prems]
  from I [THEN conjunct1] obtain xs where "threads_inv s' (its @ xs)" by blast
  from step_inv [OF this run_more.hyps(4)] obtain ys where "threads_inv s'' ((its @ xs) @ ys)" by blast
  then have inv: "\<exists>xs. threads_inv s'' (its @ xs)" by (metis append_assoc)
  have work: "Suc n + work_left U s'' \<le> work_left U s"
    using work_left_step [OF assms run_more.hyps(2) pc(1,2)] I [THEN conjunct2, THEN conjunct1] by linarith
  obtain ds where ds: "ps_done s' = ds @ ps_done s"
      "\<And>v d. call_of (ps_pc s v) = Some d \<Longrightarrow>
          call_of (ps_pc s' v) = Some d \<or> ps_pc s' v = Idle \<and> (\<exists>i. (v, d, i) \<in> set ds)"
    using I [THEN conjunct2, THEN conjunct2, THEN conjunct2, THEN conjunct2] by blast
  have before: "\<forall>v. v \<notin> U \<longrightarrow> ps_pc s' v = ps_pc s v" "\<forall>v d m. ps_pc s' v = Waiting d m \<longrightarrow> ps_pc s v = Waiting d m"
    by (fact I [THEN conjunct2, THEN conjunct2, THEN conjunct1],
      fact I [THEN conjunct2, THEN conjunct2, THEN conjunct2, THEN conjunct1])
  have same: "d = c" if "call_of (ps_pc s u) = Some d" for d using ds(2) [OF that] c by auto
  have ret: "\<exists>es. ps_done s'' = es @ ps_done s \<and>
       (\<forall>v d. call_of (ps_pc s v) = Some d \<longrightarrow>
          call_of (ps_pc s'' v) = Some d \<or> ps_pc s'' v = Idle \<and> (\<exists>i. (v, d, i) \<in> set es))"
    using pc(4)
  proof
    assume "call_of pc = Some c \<and> ps_done s'' = ps_done s'"
    with ds c pc(1) same show ?thesis by (intro exI [of _ ds]) auto
  next
    assume "pc = Idle \<and> (\<exists>i. ps_done s'' = (u, c, i) # ps_done s')"
    then obtain i where "pc = Idle" "ps_done s'' = (u, c, i) # ps_done s'" by blast
    with ds c pc(1) same show ?thesis by (intro exI [of _ "(u, c, i) # ds"]) auto
  qed
  have others: "\<forall>v. v \<notin> U \<longrightarrow> ps_pc s'' v = ps_pc s v" using before(1) run_more.hyps(2) pc(1) by auto
  have waits: "ps_pc s v = Waiting d m" if "ps_pc s'' v = Waiting d m" for v d m
  proof -
    have "ps_pc s' v = Waiting d m" using that pc(1,3) by (cases "v = u") auto
    with before(2) show ?thesis by blast
  qed
  show ?case using inv work others ret by (intro conjI allI impI waits) simp_all
qed

text \<open>The threads a call depends on: its own and the one that holds the lock it waits for.\<close>

definition parties :: "pool_threads \<Rightarrow> nat \<Rightarrow> nat set" where
  "parties s t = insert t {u. \<exists>c m. ps_pc s t = Waiting c m \<and> ps_lock s (shard_of c) = Some u}"

lemma parties_work:
  assumes "locks_ok s"
  shows "finite (parties s t) \<and> work_left (parties s t) s \<le> 11"
proof -
  have one: "steps_left pc \<le> 6" for pc by (cases pc) simp_all
  have five: "holding pc = Some sh \<Longrightarrow> steps_left pc \<le> 5" for pc sh by (cases pc) simp_all
  consider "parties s t = {t}" | u c where "parties s t = {t, u}" "u \<noteq> t" "ps_lock s (shard_of c) = Some u"
    unfolding parties_def by (cases "ps_pc s t"; cases "ps_lock s (shard_of (the (call_of (ps_pc s t))))") auto
  then show ?thesis
  proof cases
    case 1
    then show ?thesis using one [of "ps_pc s t"] by (simp add: work_left_def)
  next
    case (2 u c)
    then have "holding (ps_pc s u) = Some (shard_of c)" using assms by (simp add: locks_ok_def)
    from five [OF this] one [of "ps_pc s t"] 2 show ?thesis by (simp add: work_left_def)
  qed
qed

text \<open>C7. A call returns: from every reachable state, whatever all the other threads are in the middle of, let the
  calls of the thread and of the one that holds the lock it waits for take their steps in any order, with no help
  from any other thread and no new call. Then after at most eleven steps in all no step is left, and as long as
  the thread's call has not returned, adding its index to the results, one of the two can take a step, unless it
  panics because its own item does not fit the columns.\<close>

theorem call_returns:
  assumes "0 < uid" "threads_reach (threads_init uid) s" "call_of (ps_pc s t) = Some c"
    and "calls_run (parties s t) n s s'"
  shows "n \<le> 11 \<and>
    ((\<exists>u \<in> parties s t. ps_pc s' u \<noteq> Idle \<and> (\<exists>s''. intern_step u s' s'')) \<or> (\<exists>u \<in> parties s t. panics_at s' u) \<or>
     ps_pc s' t = Idle \<and> (\<exists>new i. ps_done s' = new @ ps_done s \<and> (t, c, i) \<in> set new))"
proof -
  let ?U = "parties s t"
  obtain its where inv: "threads_inv s its" by (rule pool_reached [OF assms(1,2)])
  have U: "finite ?U" "work_left ?U s \<le> 11" using parties_work [OF threads_invD(2) [OF inv], of t] by simp_all
  note G = calls_run_goes [OF U(1) assms(4) inv]
  obtain xs where inv': "threads_inv s' (its @ xs)" using G by blast
  obtain ds where ds: "ps_done s' = ds @ ps_done s" "\<And>v d. call_of (ps_pc s v) = Some d \<Longrightarrow>
      call_of (ps_pc s' v) = Some d \<or> ps_pc s' v = Idle \<and> (\<exists>i. (v, d, i) \<in> set ds)"
    using G by blast
  have L: "holding (ps_pc s' u) = Some sh \<longleftrightarrow> ps_lock s' sh = Some u" "holding (ps_pc s u) = Some sh \<longleftrightarrow> ps_lock s sh = Some u"
    for u sh using threads_invD(2) [OF inv] threads_invD(2) [OF inv'] by (simp_all add: locks_ok_def)
  have moves: "\<exists>u \<in> ?U. ps_pc s' u \<noteq> Idle \<and> (\<exists>s''. intern_step u s' s'')"
    if t: "call_of (ps_pc s' t) = Some c" and fits: "\<not> (\<exists>u \<in> ?U. panics_at s' u)"
  proof -
    have past: "\<exists>u \<in> ?U. ps_pc s' u \<noteq> Idle \<and> (\<exists>s''. intern_step u s' s'')"
      if "v \<in> ?U" "call_of (ps_pc s' v) = Some d" "\<And>m. ps_pc s' v \<noteq> Waiting d m" for v d
      using past_lock_moves [OF inv' that(2,3)] that fits by (metis call_of.simps(1) option.distinct(1))
    have self: "t \<in> ?U" by (simp add: parties_def)
    show ?thesis
    proof (cases "\<exists>m. ps_pc s' t = Waiting c m")
      case False
      with past [OF self t] show ?thesis by blast
    next
      case True
      then obtain m where w: "ps_pc s' t = Waiting c m" by blast
      then have w0: "ps_pc s t = Waiting c m" using G by blast
      show ?thesis
      proof (cases "ps_lock s' (shard_of c)")
        case None
        from lock [OF w None] w self show ?thesis by (metis intern_pc.distinct(1))
      next
        case (Some v)
        then have h: "holding (ps_pc s' v) = Some (shard_of c)" using L by blast
        have "v \<in> ?U"
        proof (rule ccontr)
          assume "v \<notin> ?U"
          with h G have "ps_lock s (shard_of c) = Some v" using L by metis
          with w0 \<open>v \<notin> ?U\<close> show False by (simp add: parties_def)
        qed
        moreover obtain d where "call_of (ps_pc s' v) = Some d" "\<And>k. ps_pc s' v \<noteq> Waiting d k"
          using h by (cases "ps_pc s' v") auto
        ultimately show ?thesis by (rule past)
      qed
    qed
  qed
  have "n \<le> 11" using G U(2) by linarith
  moreover have "call_of (ps_pc s' t) = Some c \<or> ps_pc s' t = Idle \<and> (\<exists>i. (t, c, i) \<in> set ds)"
    by (rule ds(2) [OF assms(3)])
  ultimately show ?thesis using moves ds(1) by blast
qed

section \<open>One index per contents\<close>

text \<open>C5. Interning is canonical for any number of threads and any interleaving of their steps: two calls
  that returned gave the same index exactly when they were for the same contents.\<close>

theorem interning_canonical:
  assumes "0 < uid" "threads_reach (threads_init uid) s"
    "(t, c, i) \<in> set (ps_done s)" "(u, d, j) \<in> set (ps_done s)"
  shows "i = j \<longleftrightarrow> c = d"
proof -
  obtain its where inv: "threads_inv s its" by (rule pool_reached [OF assms(1,2)])
  then have "distinct its" by (simp add: threads_inv_def pool_holds_def)
  moreover have "item_is its c i" "item_is its d j"
    using threads_invD(5) [OF inv] assms(3,4) by blast+
  ultimately have "c = d \<longleftrightarrow> unat i = unat j"
    by (auto simp: item_is_def nth_eq_iff_index_eq)
  then show ?thesis by (simp add: word_unat_eq_iff)
qed

definition item_reads :: "cols \<Rightarrow> u32 \<Rightarrow> pcontent \<Rightarrow> bool" where
  "item_reads cs i c \<longleftrightarrow>
     item_at (pc_tag cs) (unat i) = Got (ct_tag c) \<and>
     (if ct_tag c = PtList then list_at cs (unat i) = Some (ct_tys c)
      else if has_record (ct_tag c) then record_at cs (unat i) = Some (ct_head c)
      else item_at (pc_data cs) (unat i) = Got (ct_data c))"

lemma item_is_reads:
  assumes "cols_hold cs its" "item_is its c i"
  shows "item_reads cs i c"
proof -
  have i: "unat i < length its" "its ! unat i = c" using assms(2) by (simp_all add: item_is_def)
  note S = cols_hold_stored [OF assms(1) i(1)]
  have "ct_tag c \<noteq> PtList \<Longrightarrow> \<not> has_record (ct_tag c) \<Longrightarrow> items (pc_data cs) ! unat i = ct_data c"
    using S(1) i(2) by (simp add: stored_def)
  then show ?thesis
    using S(4,5) i list_at_hold [OF assms(1) i(1)] record_at_hold [OF assms(1) i(1)]
    by (simp add: item_reads_def)
qed

text \<open>C6. An index never changes its meaning: in every later state, whatever other threads appended in
  between, reading the item gives the tag, the record, the list or the word that was interned.\<close>

theorem interned_item_stays:
  assumes "0 < uid" "threads_reach (threads_init uid) s" "(t, c, i) \<in> set (ps_done s)" "threads_reach s s'"
  shows "item_reads (ip_cols (ps_pool s')) i c"
proof -
  obtain its where inv: "threads_inv s its" by (rule pool_reached [OF assms(1,2)])
  obtain xs where inv': "threads_inv s' (its @ xs)" using reach_inv [OF assms(4) inv] by blast
  have "item_is (its @ xs) c i" using threads_invD(5) [OF inv assms(3)] by (rule item_is_append)
  with inv' show ?thesis by (intro item_is_reads) (auto simp: threads_inv_def pool_holds_def)
qed

section \<open>A run of two threads\<close>

definition word_item :: "pool_tag \<Rightarrow> pcontent" where
  "word_item t = \<lparr>ct_tag = t, ct_data = 0, ct_head = [], ct_tys = []\<rparr>"

lemma append_inline:
  assumes "pool_holds p its I" "\<not> has_record (ct_tag c)" "length its < chunk_start CHUNKS"
  shows "append_item p c m \<noteq> None"
proof -
  have len: "av_len (pc_tag (ip_cols p)) = length its" "av_len (pc_data (ip_cols p)) = length its"
    "av_len (pc_meta (ip_cols p)) = length its" using assms(1) by (simp_all add: pool_holds_def cols_hold_def)
  have "push_parts (ip_cols p) c = Some (ip_cols p, ct_data c)"
    using assms(2) by (auto simp: push_parts_def has_record_def)
  moreover obtain a b d where "push_item (pc_tag (ip_cols p)) (ct_tag c) = Some a"
    "push_item (pc_data (ip_cols p)) (ct_data c) = Some b" "push_item (pc_meta (ip_cols p)) m = Some d"
    using push_item_None [of "pc_tag (ip_cols p)"] push_item_None [of "pc_data (ip_cols p)"]
      push_item_None [of "pc_meta (ip_cols p)"] len assms(3) by (metis not_None_eq not_le)
  ultimately show ?thesis
    by (cases a, cases b, cases d) (simp add: append_item_def cols_push_def)
qed

lemma idle_call:
  assumes "threads_inv s its" "\<And>u. ps_pc s u = Idle" "content_ok c" "\<not> has_record (ct_tag c)"
    "length its < chunk_start CHUNKS"
  obtains s' i xs where "threads_reach s s'" "(t, c, i) \<in> set (ps_done s')" "set (ps_done s) \<subseteq> set (ps_done s')"
    "threads_inv s' xs" "length xs \<le> Suc (length its)" "\<And>u. ps_pc s' u = Idle"
proof -
  note I = threads_invD [OF assms(1)]
  have pend: "pending s = {}" by (simp add: pending_def assms(2))
  have free: "ps_lock s sh = None" for sh
    using I(2) by (cases "ps_lock s sh") (auto simp: locks_ok_def assms(2) dest: spec)
  have "intern_global (ps_pool s) (ps_cache s t) c 0 \<noteq> None"
    using intern_global_None [OF I(1) [unfolded pend] I(4) assms(3), of t 0] append_inline [OF I(1) assms(4,5), of 0]
    by (intro notI) simp
  then obtain p rt i where g: "intern_global (ps_pool s) (ps_cache s t) c 0 = Some (p, rt, i)"
    by (cases "intern_global (ps_pool s) (ps_cache s t) c 0") auto
  let ?s' = "s\<lparr>ps_pool := p, ps_cache := (ps_cache s)(t := rt), ps_done := (t, c, i) # ps_done s\<rparr>"
  have run: "threads_reach s ?s'" by (rule intern_global_run [OF assms(2) free assms(3) g])
  obtain xs where xs: "threads_inv ?s' (its @ xs)" using reach_inv [OF run assms(1)] by blast
  have "length (its @ xs) \<le> Suc (length its)"
  proof -
    have "pending ?s' = {}" by (simp add: pending_def assms(2))
    with xs have "cols_hold (ip_cols p) (its @ xs)" by (simp add: threads_inv_def pool_holds_def)
    then have n: "av_len (pc_tag (ip_cols p)) = length (its @ xs)" by (simp add: cols_hold_def)
    show ?thesis
    proof (rule intern_global_holds [OF I(1) [unfolded pend] I(4) assms(3) g])
      assume "ip_cols p = ip_cols (ps_pool s)"
      with n I(1) show ?thesis by (simp add: pool_holds_def cols_hold_def)
    next
      assume "pool_holds p (its @ [c]) {}"
      with n show ?thesis by (simp add: pool_holds_def cols_hold_def)
    qed
  qed
  then show thesis using that [OF run _ _ xs] assms(2) by auto
qed

lemma two_calls:
  "\<exists>s i j. threads_reach (threads_init 1) s \<and> (0, word_item PtNever, i) \<in> set (ps_done s) \<and>
     (1, word_item PtPoison, j) \<in> set (ps_done s)"
proof -
  have cap: "1 < chunk_start CHUNKS" by (simp add: chunk_start_def CHUNKS_def BASE_BITS_def)
  have ok: "content_ok (word_item t)" if "\<not> has_record t" for t
    using that by (auto simp: content_ok_def word_item_def has_record_def)
  have inv: "threads_inv (threads_init 1) []" by (rule threads_init_inv) simp
  obtain s i its where s: "threads_reach (threads_init 1) s" "(0, word_item PtNever, i) \<in> set (ps_done s)"
    "threads_inv s its" "length its \<le> 1" "\<And>u. ps_pc s u = Idle"
    by (rule idle_call [OF inv, of "word_item PtNever" 0])
      (use cap ok [of PtNever] in \<open>auto simp: threads_init_def word_item_def has_record_def\<close>)
  obtain s' j where "threads_reach s s'" "(1, word_item PtPoison, j) \<in> set (ps_done s')"
    "set (ps_done s) \<subseteq> set (ps_done s')"
    by (rule idle_call [OF s(3,5), of "word_item PtPoison" 1])
      (use s(4) cap ok [of PtPoison] in \<open>auto simp: word_item_def has_record_def\<close>)
  with s show ?thesis using reach_trans by blast
qed

lemma interning_canonical_witness:
  "\<exists>s i j. threads_reach (threads_init 1) s \<and> (0, word_item PtNever, i) \<in> set (ps_done s) \<and>
     (1, word_item PtPoison, j) \<in> set (ps_done s) \<and> i \<noteq> j"
proof -
  obtain s i j where s: "threads_reach (threads_init 1) s" "(0, word_item PtNever, i) \<in> set (ps_done s)"
    "(1, word_item PtPoison, j) \<in> set (ps_done s)"
    using two_calls by blast
  from interning_canonical [OF _ this] have "i \<noteq> j" by (simp add: word_item_def)
  with s show ?thesis by blast
qed

lemma interned_item_stays_witness:
  "\<exists>s i j. threads_reach (threads_init 1) s \<and> (1, word_item PtPoison, j) \<in> set (ps_done s) \<and>
     item_at (pc_tag (ip_cols (ps_pool s))) (unat j) = Got PtPoison"
proof -
  obtain s j where s: "threads_reach (threads_init 1) s" "(1, word_item PtPoison, j) \<in> set (ps_done s)"
    using two_calls by blast
  from interned_item_stays [OF _ this reach_refl] have "item_at (pc_tag (ip_cols (ps_pool s))) (unat j) = Got PtPoison"
    by (simp add: item_reads_def word_item_def)
  with s show ?thesis by blast
qed

text \<open>A thread that waits, for a lock nobody holds, can go on.\<close>

lemma call_returns_witness:
  "\<exists>s s'. threads_reach (threads_init 1) s \<and> ps_pc s 7 = Waiting (word_item PtNever) 0 \<and> intern_step 7 s s'"
proof -
  let ?s = "(threads_init 1)\<lparr>ps_pc := (ps_pc (threads_init 1))(7 := Waiting (word_item PtNever) 0)\<rparr>"
  have "intern_step 7 (threads_init 1) ?s"
    by (rule cache_miss)
      (simp_all add: threads_init_def content_ok_def word_item_def has_record_def probe_cache_def empty_pool_def)
  then have r: "threads_reach (threads_init 1) ?s" by (rule reach_one)
  have p: "parties ?s 7 = {7}" by (simp add: parties_def threads_init_def)
  have "\<not> panics_at ?s 7" "ps_pc ?s 7 \<noteq> Idle" by (simp_all add: panics_at_def)
  with call_returns [OF _ r _ run_none, of 7 "word_item PtNever"] have "\<exists>s'. intern_step 7 ?s s'"
    unfolding p by simp
  moreover have "ps_pc ?s 7 = Waiting (word_item PtNever) 0" by simp
  ultimately show ?thesis using r by blast
qed

end
