(* ===== verification/RefLower.thy ===== *)
theory RefLower
  imports TyTree
begin

text \<open>
  \<^verbatim>\<open>crates/hd_types/src/pool.rs\<close>, references on the way to the backend: \<open>lower_refs\<close> replaces a reference type
  by a data type over it, with the mutability as a \<open>Mut\<close> argument, and \<open>raise_refs\<close> gives it back, each distinct
  type once through a memo. Types are trees; a row's keys are ordered by their index \<open>ix\<close>.
\<close>

section \<open>Lowering\<close>

record ref_cells =
  rc_local :: def_id
  rc_counted :: def_id

definition holds_def :: "ref_cells \<Rightarrow> def_id \<Rightarrow> bool" where
  "holds_def cell d \<longleftrightarrow> d = rc_local cell \<or> d = rc_counted cell"

definition local_only :: "ref_cells \<Rightarrow> ref_cells" where
  "local_only cell = \<lparr>rc_local = rc_local cell, rc_counted = rc_local cell\<rparr>"

definition if_ref :: "ty \<Rightarrow> ty \<Rightarrow> ty" where
  "if_ref t u = (if has_ref t then intern_ty u else t)"

fun lower_refs :: "(ty \<Rightarrow> nat) \<Rightarrow> ref_cells \<Rightarrow> ty \<Rightarrow> ty"
  and lower_refs_row :: "(ty \<Rightarrow> nat) \<Rightarrow> ref_cells \<Rightarrow> row \<Rightarrow> row" where
  "lower_refs ix cell (RefTy i m c) = if_ref (RefTy i m c)
     (Adt (if c then rc_counted cell else rc_local cell)
        [if m then intern_ty (Mut (lower_refs ix cell i)) else lower_refs ix cell i])"
| "lower_refs ix cell (Adt d args) = if_ref (Adt d args) (Adt d (map (lower_refs ix cell) args))"
| "lower_refs ix cell (Opaque ow site borrows args bound) = if_ref (Opaque ow site borrows args bound)
     (Opaque ow site borrows (map (lower_refs ix cell) args) (lower_refs ix cell bound))"
| "lower_refs ix cell (Tuple elems rest) = if_ref (Tuple elems rest)
     (Tuple (map (lower_refs ix cell) elems) (map_option (lower_refs ix cell) rest))"
| "lower_refs ix cell (Union members) = if_ref (Union members) (Union (map (lower_refs ix cell) members))"
| "lower_refs ix cell (OptionTy i) = if_ref (OptionTy i) (OptionTy (lower_refs ix cell i))"
| "lower_refs ix cell (Mut i) = if_ref (Mut i) (Mut (lower_refs ix cell i))"
| "lower_refs ix cell (Fn params result row suspends ins deps) = if_ref (Fn params result row suspends ins deps)
     (Fn (map (lower_refs ix cell) params) (lower_refs ix cell result) (lower_refs_row ix cell row) suspends ins None)"
| "lower_refs ix cell (RowTy r) = if_ref (RowTy r) (RowTy (lower_refs_row ix cell r))"
| "lower_refs ix cell (Context r) = if_ref (Context r) (Context (lower_refs_row ix cell r))"
| "lower_refs ix cell (TraitValue d args bindings) = if_ref (TraitValue d args bindings)
     (TraitValue d (map (lower_refs ix cell) args) (map (\<lambda>b. (fst b, lower_refs ix cell (snd b))) bindings))"
| "lower_refs ix cell (Assoc a tr self args) = if_ref (Assoc a tr self args)
     (Assoc a tr (lower_refs ix cell self) (map (lower_refs ix cell) args))"
| "lower_refs ix cell t = t"
| "lower_refs_row ix cell (Row keys params) =
     (if row_meta (Row keys params) AND HAS_REF = 0 then Row keys params
      else intern_row ix (map (lower_refs ix cell) keys) params)"

definition lower_refs_list :: "(ty \<Rightarrow> nat) \<Rightarrow> ref_cells \<Rightarrow> ty list \<Rightarrow> ty list" where
  "lower_refs_list ix cell l =
     (if fold (\<lambda>x m. m OR meta_of x) l 0 AND HAS_REF = 0 then l else map (lower_refs ix cell) l)"

section \<open>Raising\<close>

type_synonym memo = "ty \<rightharpoonup> ty"

text \<open>The inner type of a carrier: a \<open>Mut\<close> argument is a mutable reference.\<close>

fun cell_inner :: "ty \<Rightarrow> ty \<times> bool" where
  "cell_inner (Mut i) = (i, True)"
| "cell_inner t = (t, False)"

lemma cell_inner_size [termination_simp]: "size (fst (cell_inner t)) \<le> size t"
  by (cases t rule: cell_inner.cases) simp_all

definition keep :: "ty \<Rightarrow> ty \<times> memo \<Rightarrow> ty \<times> memo" where
  "keep t r = (let u = intern_ty (fst r) in (u, (snd r)(t \<mapsto> u)))"

function raise_in :: "(ty \<Rightarrow> nat) \<Rightarrow> ref_cells \<Rightarrow> ty \<Rightarrow> memo \<Rightarrow> ty \<times> memo"
  and raise_list :: "(ty \<Rightarrow> nat) \<Rightarrow> ref_cells \<Rightarrow> ty list \<Rightarrow> memo \<Rightarrow> ty list \<times> memo"
  and raise_bindings :: "(ty \<Rightarrow> nat) \<Rightarrow> ref_cells \<Rightarrow> (def_id \<times> ty) list \<Rightarrow> memo \<Rightarrow> (def_id \<times> ty) list \<times> memo"
  and raise_row :: "(ty \<Rightarrow> nat) \<Rightarrow> ref_cells \<Rightarrow> row \<Rightarrow> memo \<Rightarrow> row \<times> memo" where
  "raise_in ix cell t memo =
     (case memo t of
        Some r \<Rightarrow> (r, memo)
      | None \<Rightarrow>
          (case t of
             Adt d args \<Rightarrow>
               (if holds_def cell d then
                  (case args of
                     [a] \<Rightarrow>
                       (let (i, memo) = raise_in ix cell (fst (cell_inner a)) memo
                        in keep t (RefTy i (snd (cell_inner a)) (d = rc_counted cell), memo))
                   | _ \<Rightarrow> keep t (Adt d args, memo))
                else (let (args, memo) = raise_list ix cell args memo in keep t (Adt d args, memo)))
           | Opaque ow site borrows args bound \<Rightarrow>
               (let (args, memo) = raise_list ix cell args memo; (b, memo) = raise_in ix cell bound memo
                in keep t (Opaque ow site borrows args b, memo))
           | Tuple elems rest \<Rightarrow>
               (let (elems, memo) = raise_list ix cell elems memo
                in case rest of
                     None \<Rightarrow> keep t (Tuple elems None, memo)
                   | Some r \<Rightarrow>
                       (let (r, memo) = raise_in ix cell r memo in keep t (Tuple elems (Some r), memo)))
           | Union members \<Rightarrow> (let (ms, memo) = raise_list ix cell members memo in keep t (Union ms, memo))
           | OptionTy i \<Rightarrow> (let (i, memo) = raise_in ix cell i memo in keep t (OptionTy i, memo))
           | Mut i \<Rightarrow> (let (i, memo) = raise_in ix cell i memo in keep t (Mut i, memo))
           | Assoc a tr self args \<Rightarrow>
               (let (s, memo) = raise_in ix cell self memo; (args, memo) = raise_list ix cell args memo
                in keep t (Assoc a tr s args, memo))
           | RefTy i m c \<Rightarrow> (let (i, memo) = raise_in ix cell i memo in keep t (RefTy i m c, memo))
           | Fn params result row suspends ins deps \<Rightarrow>
               (let (ps, memo) = raise_list ix cell params memo; (r, memo) = raise_in ix cell result memo;
                    (row, memo) = raise_row ix cell row memo
                in keep t (Fn ps r row suspends ins deps, memo))
           | RowTy r \<Rightarrow> (let (r, memo) = raise_row ix cell r memo in keep t (RowTy r, memo))
           | Context r \<Rightarrow> (let (r, memo) = raise_row ix cell r memo in keep t (Context r, memo))
           | TraitValue d args bindings \<Rightarrow>
               (let (args, memo) = raise_list ix cell args memo; (bs, memo) = raise_bindings ix cell bindings memo
                in keep t (TraitValue d args bs, memo))
           | _ \<Rightarrow> (t, memo(t \<mapsto> t))))"
| "raise_list ix cell [] memo = ([], memo)"
| "raise_list ix cell (x # xs) memo =
     (let (y, memo) = raise_in ix cell x memo; (ys, memo) = raise_list ix cell xs memo in (y # ys, memo))"
| "raise_bindings ix cell [] memo = ([], memo)"
| "raise_bindings ix cell (b # bs) memo =
     (let (y, memo) = raise_in ix cell (snd b) memo; (ys, memo) = raise_bindings ix cell bs memo
      in ((fst b, y) # ys, memo))"
| "raise_row ix cell (Row keys params) memo =
     (let (ks, memo) = raise_list ix cell keys memo in (intern_row ix ks params, memo))"
  by pat_completeness auto

termination
  by (relation "measure (\<lambda>x. case x of
      Inl (Inl (ix, cell, t, memo)) \<Rightarrow> 2 * size t
    | Inl (Inr (ix, cell, ts, memo)) \<Rightarrow> 2 * size_list size ts
    | Inr (Inl (ix, cell, bs, memo)) \<Rightarrow> 2 * size_list (size_prod (\<lambda>_. 0) size) bs
    | Inr (Inr (ix, cell, r, memo)) \<Rightarrow> 2 * size r)")
    (auto simp: termination_simp)

definition raise_refs :: "(ty \<Rightarrow> nat) \<Rightarrow> ref_cells \<Rightarrow> ty \<Rightarrow> ty" where
  "raise_refs ix cell t = fst (raise_in ix cell t Map.empty)"

section \<open>Raising without the memo\<close>

fun raised :: "(ty \<Rightarrow> nat) \<Rightarrow> ref_cells \<Rightarrow> ty \<Rightarrow> ty" and raised_row :: "(ty \<Rightarrow> nat) \<Rightarrow> ref_cells \<Rightarrow> row \<Rightarrow> row" where
  "raised ix cell (Adt d args) =
     (if holds_def cell d
      then (case args of
              [a] \<Rightarrow> RefTy (raised ix cell (fst (cell_inner a))) (snd (cell_inner a)) (d = rc_counted cell)
            | _ \<Rightarrow> Adt d args)
      else Adt d (map (raised ix cell) args))"
| "raised ix cell (Opaque ow site borrows args bound) =
     Opaque ow site borrows (map (raised ix cell) args) (raised ix cell bound)"
| "raised ix cell (Tuple elems rest) = Tuple (map (raised ix cell) elems) (map_option (raised ix cell) rest)"
| "raised ix cell (Union members) = Union (map (raised ix cell) members)"
| "raised ix cell (OptionTy i) = OptionTy (raised ix cell i)"
| "raised ix cell (Mut i) = Mut (raised ix cell i)"
| "raised ix cell (Assoc a tr self args) = Assoc a tr (raised ix cell self) (map (raised ix cell) args)"
| "raised ix cell (RefTy i m c) = RefTy (raised ix cell i) m c"
| "raised ix cell (Fn params result row suspends ins deps) =
     intern_ty (Fn (map (raised ix cell) params) (raised ix cell result) (raised_row ix cell row) suspends ins deps)"
| "raised ix cell (RowTy r) = RowTy (raised_row ix cell r)"
| "raised ix cell (Context r) = Context (raised_row ix cell r)"
| "raised ix cell (TraitValue d args bindings) =
     intern_ty (TraitValue d (map (raised ix cell) args) (map (\<lambda>b. (fst b, raised ix cell (snd b))) bindings))"
| "raised ix cell t = t"
| "raised_row ix cell (Row keys params) = intern_row ix (map (raised ix cell) keys) params"

definition memo_ok :: "(ty \<Rightarrow> nat) \<Rightarrow> ref_cells \<Rightarrow> memo \<Rightarrow> bool" where
  "memo_ok ix cell memo \<longleftrightarrow> (\<forall>t r. memo t = Some r \<longrightarrow> r = raised ix cell t)"

abbreviation gives :: "(ty \<Rightarrow> nat) \<Rightarrow> ref_cells \<Rightarrow> 'b \<times> memo \<Rightarrow> 'b \<Rightarrow> bool" where
  "gives ix cell r u \<equiv> fst r = u \<and> memo_ok ix cell (snd r)"

lemma keep_gives:
  "memo_ok ix cell (snd r) \<Longrightarrow> raised ix cell t = u \<Longrightarrow> intern_ty (fst r) = u \<Longrightarrow> gives ix cell (keep t r) u"
  by (simp add: keep_def memo_ok_def Let_def)

lemma fst_keep: "fst (keep t r) = intern_ty (fst r)"
  by (simp add: keep_def Let_def)

lemma snd_keep: "memo_ok ix cell (snd r) \<Longrightarrow> intern_ty (fst r) = raised ix cell t \<Longrightarrow> memo_ok ix cell (snd (keep t r))"
  by (simp add: keep_def memo_ok_def Let_def)

lemma memo_ok_leaf: "memo_ok ix cell memo \<Longrightarrow> raised ix cell t = t \<Longrightarrow> memo_ok ix cell (memo(t \<mapsto> t))"
  by (simp add: memo_ok_def)

definition raises :: "(ty \<Rightarrow> nat) \<Rightarrow> ref_cells \<Rightarrow> ty \<Rightarrow> bool" where
  "raises ix cell t \<longleftrightarrow> (\<forall>memo. memo_ok ix cell memo \<longrightarrow> gives ix cell (raise_in ix cell t memo) (raised ix cell t))"

lemma raises_list:
  "\<forall>x \<in> set ts. raises ix cell x \<Longrightarrow> memo_ok ix cell memo \<Longrightarrow>
   gives ix cell (raise_list ix cell ts memo) (map (raised ix cell) ts)"
  by (induction ts arbitrary: memo) (auto simp: raises_def split_beta Let_def)

lemma raises_bindings:
  "\<forall>b \<in> set bs. raises ix cell (snd b) \<Longrightarrow> memo_ok ix cell memo \<Longrightarrow>
   gives ix cell (raise_bindings ix cell bs memo) (map (\<lambda>b. (fst b, raised ix cell (snd b))) bs)"
  by (induction bs arbitrary: memo) (auto simp: raises_def split_beta Let_def)

lemma raises_row:
  "\<forall>x \<in> set (row_keys r). raises ix cell x \<Longrightarrow> memo_ok ix cell memo \<Longrightarrow>
   gives ix cell (raise_row ix cell r memo) (raised_row ix cell r)"
  using raises_list [of "row_keys r" ix cell memo] by (cases r) (simp add: split_beta Let_def)

text \<open>The memo changes nothing but the number of steps.\<close>

declare raise_in.simps [simp del]

lemma raisesI:
  assumes "\<And>memo. memo_ok ix cell memo \<Longrightarrow> memo t = None \<Longrightarrow> gives ix cell (raise_in ix cell t memo) (raised ix cell t)"
  shows "raises ix cell t"
  unfolding raises_def
proof (intro allI impI)
  fix memo assume m: "memo_ok ix cell memo"
  show "gives ix cell (raise_in ix cell t memo) (raised ix cell t)"
  proof (cases "memo t")
    case (Some r)
    with m show ?thesis by (simp add: raise_in.simps [of ix cell t]) (simp add: memo_ok_def)
  qed (rule assms [OF m])
qed

lemma raise_one: "raises ix cell t \<Longrightarrow> memo_ok ix cell memo \<Longrightarrow> gives ix cell (raise_in ix cell t memo) (raised ix cell t)"
  by (simp add: raises_def)

lemmas raise_forms =
  raise_in.simps [where t = "Opaque ow site b args bd" for ow site b args bd]
  raise_in.simps [where t = "Union ms" for ms] raise_in.simps [where t = "OptionTy i" for i]
  raise_in.simps [where t = "Mut i" for i] raise_in.simps [where t = "Assoc a tr s args" for a tr s args]
  raise_in.simps [where t = "RefTy i m c" for i m c]
  raise_in.simps [where t = "Fn ps res row s ins deps" for ps res row s ins deps]
  raise_in.simps [where t = "RowTy rw" for rw] raise_in.simps [where t = "Context rw" for rw]
  raise_in.simps [where t = "TraitValue d args bs" for d args bs]
  raise_in.simps [where t = "Prim p" for p] raise_in.simps [where t = Never] raise_in.simps [where t = Poison]
  raise_in.simps [where t = "Param q" for q] raise_in.simps [where t = "Const v" for v]
  raise_in.simps [where t = "Infer n" for n] raise_in.simps [where t = "Canon k" for k]

lemma raise_raised: "raises ix cell t" "\<forall>x \<in> set (row_keys r). raises ix cell x"
proof (induction ix cell t and ix cell r rule: raised_raised_row.induct)
  case (1 ix cell d args)
  show ?case
  proof (rule raisesI)
    fix memo assume m: "memo_ok ix cell memo" "memo (Adt d args) = None"
    show "gives ix cell (raise_in ix cell (Adt d args) memo) (raised ix cell (Adt d args))"
    proof (cases "holds_def cell d")
      case True
      consider a where "args = [a]" | "\<nexists>a. args = [a]" by blast
      then show ?thesis
      proof cases
        case (1 a)
        have "raises ix cell (fst (cell_inner a))" using "1.IH"(1) True 1 by simp
        from raise_one [OF this m(1)] m(2) True 1 show ?thesis
          by (simp add: raise_in.simps [of ix cell "Adt d [a]"] split_beta Let_def) (intro keep_gives; simp)
      next
        case 2
        with True have "raised ix cell (Adt d args) = Adt d args" by (auto split: list.splits)
        moreover from 2 True m(2) have "raise_in ix cell (Adt d args) memo = keep (Adt d args) (Adt d args, memo)"
          by (auto simp: raise_in.simps [of ix cell "Adt d args"] split: list.splits)
        ultimately show ?thesis using m(1) by (simp only:) (intro keep_gives; simp)
      qed
    next
      case False
      with "1.IH"(2) have "\<forall>x \<in> set args. raises ix cell x" by simp
      from raises_list [OF this m(1)] m(2) False show ?thesis
        by (simp add: raise_in.simps [of ix cell "Adt d args"] split_beta Let_def) (intro keep_gives; simp)
    qed
  qed
next
  case (3 ix cell elems rest)
  show ?case
  proof (rule raisesI)
    fix memo assume m: "memo_ok ix cell memo" "memo (Tuple elems rest) = None"
    have l: "gives ix cell (raise_list ix cell elems memo) (map (raised ix cell) elems)"
      using 3 by (intro raises_list m(1)) simp
    show "gives ix cell (raise_in ix cell (Tuple elems rest) memo) (raised ix cell (Tuple elems rest))"
    proof (cases rest)
      case None
      with l m(2) show ?thesis
        by (simp add: raise_in.simps [of ix cell "Tuple elems None"] split_beta Let_def) (intro keep_gives; simp)
    next
      case (Some r)
      with 3 have "raises ix cell r" by simp
      from raise_one [OF this] l m(2) Some show ?thesis
        by (simp add: raise_in.simps [of ix cell "Tuple elems (Some r)"] split_beta Let_def) (intro keep_gives; simp)
    qed
  qed
next
  case (12 ix cell d args bindings)
  show ?case
  proof (rule raisesI)
    fix memo assume m: "memo_ok ix cell memo" "memo (TraitValue d args bindings) = None"
    have l: "gives ix cell (raise_list ix cell args memo) (map (raised ix cell) args)"
      using 12 by (intro raises_list m(1)) simp
    have "gives ix cell (raise_bindings ix cell bindings (snd (raise_list ix cell args memo)))
        (map (\<lambda>b. (fst b, raised ix cell (snd b))) bindings)"
      using 12 l by (intro raises_bindings) (auto elim: snds.cases)
    with l m show "gives ix cell (raise_in ix cell (TraitValue d args bindings) memo) (raised ix cell (TraitValue d args bindings))"
      by (simp add: raise_forms split_beta Let_def) (intro keep_gives; simp)
  qed
qed (auto intro!: raisesI simp: raise_forms fst_keep snd_keep memo_ok_leaf split_beta Let_def raise_one raises_list raises_bindings raises_row)

lemma raise_refs_raised: "raise_refs ix cell t = raised ix cell t"
  using raise_one [OF raise_raised(1), of ix cell Map.empty t] by (simp add: raise_refs_def memo_ok_def)

section \<open>No reference is left\<close>

fun ref_free :: "ty \<Rightarrow> bool" and row_ref_free :: "row \<Rightarrow> bool" where
  "ref_free (RefTy i m c) = False"
| "ref_free (Adt d args) = (\<forall>x \<in> set args. ref_free x)"
| "ref_free (Opaque ow site borrows args bound) = ((\<forall>x \<in> set args. ref_free x) \<and> ref_free bound)"
| "ref_free (Tuple elems rest) = ((\<forall>x \<in> set elems. ref_free x) \<and> (case rest of None \<Rightarrow> True | Some r \<Rightarrow> ref_free r))"
| "ref_free (Union members) = (\<forall>x \<in> set members. ref_free x)"
| "ref_free (OptionTy i) = ref_free i"
| "ref_free (Mut i) = ref_free i"
| "ref_free (Fn params result row s i d) = ((\<forall>x \<in> set params. ref_free x) \<and> ref_free result \<and> row_ref_free row)"
| "ref_free (RowTy r) = row_ref_free r"
| "ref_free (Context r) = row_ref_free r"
| "ref_free (TraitValue d args bindings) =
     ((\<forall>x \<in> set args. ref_free x) \<and> (\<forall>b \<in> set bindings. ref_free (snd b)))"
| "ref_free (Assoc a tr self args) = (ref_free self \<and> (\<forall>x \<in> set args. ref_free x))"
| "ref_free t = True"
| "row_ref_free (Row keys params) = (\<forall>x \<in> set keys. ref_free x)"

lemma no_ref_free: "\<not> has_ref t \<Longrightarrow> ref_free t" "row_meta r AND HAS_REF = 0 \<Longrightarrow> row_ref_free r"
  by (induction t and r rule: ref_free_row_ref_free.induct)
    (auto simp: has_ref_def flags flag_words split: option.splits)

lemma intern_ref_free: "ref_free (intern_ty t) = ref_free t"
  by (cases t rule: intern_ty.cases) (auto split: list.splits ty.splits option.splits)

lemma intern_row_ref_free:
  "\<forall>x \<in> set keys. ref_free x \<Longrightarrow> row_ref_free (intern_row ix keys params)"
proof -
  have "ref_free t \<Longrightarrow> x \<in> set (flat_keys t) \<Longrightarrow> ref_free x" for t x
    by (cases t rule: flat_keys.cases) (auto elim: row_ref_free.elims)
  then show "\<forall>x \<in> set keys. ref_free x \<Longrightarrow> row_ref_free (intern_row ix keys params)" by (auto simp: intern_row_def)
qed

lemma if_ref_free: "(has_ref t \<Longrightarrow> ref_free u) \<Longrightarrow> ref_free (if_ref t u)"
  by (simp add: if_ref_def intern_ref_free no_ref_free)

text \<open>C15. The backend never sees a reference type: after the lowering none is left, at any depth, whatever
  the type was.\<close>

theorem lowered_ref_free: "ref_free (lower_refs ix cell t) \<and> row_ref_free (lower_refs_row ix cell r)"
proof (rule conjI)
  show "ref_free (lower_refs ix cell t)" and "row_ref_free (lower_refs_row ix cell r)"
    by (induction ix cell t and ix cell r rule: lower_refs_lower_refs_row.induct)
      (auto intro!: if_ref_free intern_row_ref_free simp: no_ref_free simp del: row_ref_free.simps row_meta.simps
        split: option.splits)
qed

end
