(* ===== verification/RefRaise.thy ===== *)
theory RefRaise
  imports RefLower
begin

text \<open>
  \<open>raise_refs\<close> undoes \<open>lower_refs\<close> on the types the checker has: no declared type is a carrier, a shared
  reference is not over a \<^verbatim>\<open>mut\<close> type (the checker rejects it), a dependency map is on a function that has a
  reference, and rows and bindings are in the order of the pool. What is lost are the dependency maps.
\<close>

section \<open>The types the lowering is for\<close>

fun erase_deps :: "ty \<Rightarrow> ty" where
  "erase_deps (Fn params result row s i d) = Fn (map erase_deps params) (erase_deps result) row s i None"
| "erase_deps (Adt d args) = Adt d (map erase_deps args)"
| "erase_deps (Opaque ow site borrows args bound) = Opaque ow site borrows (map erase_deps args) (erase_deps bound)"
| "erase_deps (Tuple elems rest) = Tuple (map erase_deps elems) (map_option erase_deps rest)"
| "erase_deps (Union members) = Union (map erase_deps members)"
| "erase_deps (OptionTy i) = OptionTy (erase_deps i)"
| "erase_deps (Mut i) = Mut (erase_deps i)"
| "erase_deps (RefTy i m c) = RefTy (erase_deps i) m c"
| "erase_deps (TraitValue d args bindings) =
     TraitValue d (map erase_deps args) (map (\<lambda>b. (fst b, erase_deps (snd b))) bindings)"
| "erase_deps (Assoc a tr self args) = Assoc a tr (erase_deps self) (map erase_deps args)"
| "erase_deps t = t"

fun is_mut :: "ty \<Rightarrow> bool" where
  "is_mut (Mut i) = True"
| "is_mut t = False"

fun is_row :: "ty \<Rightarrow> bool" where
  "is_row (RowTy r) = True"
| "is_row t = False"

fun is_tuple :: "ty \<Rightarrow> bool" where
  "is_tuple (Tuple elems rest) = True"
| "is_tuple t = False"

fun one_tuple_type :: "ty list \<Rightarrow> bool" where
  "one_tuple_type [p] = is_tuple p"
| "one_tuple_type ps = False"

lemma one_tuple_type_map: "(\<And>x. is_tuple (f x) = is_tuple x) \<Longrightarrow> one_tuple_type (map f ps) = one_tuple_type ps"
  by (cases ps rule: one_tuple_type.cases) simp_all

fun raisable :: "(ty \<Rightarrow> nat) \<Rightarrow> ref_cells \<Rightarrow> ty \<Rightarrow> bool" and row_raisable :: "(ty \<Rightarrow> nat) \<Rightarrow> ref_cells \<Rightarrow> row \<Rightarrow> bool" where
  "raisable ix cell (RefTy i m c) = (raisable ix cell i \<and> (m \<or> \<not> is_mut i))"
| "raisable ix cell (Adt d args) = (\<not> holds_def cell d \<and> (\<forall>x \<in> set args. raisable ix cell x))"
| "raisable ix cell (Opaque ow site borrows args bound) = ((\<forall>x \<in> set args. raisable ix cell x) \<and> raisable ix cell bound)"
| "raisable ix cell (Tuple elems rest) =
     ((\<forall>x \<in> set elems. raisable ix cell x) \<and> (case rest of None \<Rightarrow> True | Some r \<Rightarrow> raisable ix cell r))"
| "raisable ix cell (Union members) = (\<forall>x \<in> set members. raisable ix cell x)"
| "raisable ix cell (OptionTy i) = raisable ix cell i"
| "raisable ix cell (Mut i) = raisable ix cell i"
| "raisable ix cell (Fn params result row s i d) =
     ((\<forall>x \<in> set params. raisable ix cell x) \<and> raisable ix cell result \<and> row_raisable ix cell row \<and>
      (d = None \<or> has_ref (Fn params result row s i d)) \<and> (i = TupleInputs \<longrightarrow> \<not> one_tuple_type params))"
| "raisable ix cell (RowTy r) = row_raisable ix cell r"
| "raisable ix cell (Context r) = row_raisable ix cell r"
| "raisable ix cell (TraitValue d args bindings) =
     ((\<forall>x \<in> set args. raisable ix cell x) \<and> (\<forall>b \<in> set bindings. raisable ix cell (snd b)) \<and> sorted (map fst bindings))"
| "raisable ix cell (Assoc a tr self args) = (raisable ix cell self \<and> (\<forall>x \<in> set args. raisable ix cell x))"
| "raisable ix cell t = True"
| "row_raisable ix cell (Row keys params) =
     ((\<forall>k \<in> set keys. raisable ix cell k \<and> \<not> is_row k \<and> erase_deps k = k) \<and>
      sorted_wrt (\<lambda>a b. ix a < ix b) keys \<and> sorted_wrt (\<lambda>a b. param_key a < param_key b) params)"

section \<open>Rows in order\<close>

lemma strict_remdups:
  "sorted (map f xs) \<Longrightarrow> inj_on f (set xs) \<Longrightarrow> sorted_wrt (\<lambda>a b. (f a :: nat) < f b) (remdups_adj xs)"
proof (induction xs rule: remdups_adj.induct)
  case (3 x y xs)
  show ?case
  proof (cases "x = y")
    case True
    with 3 show ?thesis by simp
  next
    case False
    with 3 have "sorted_wrt (\<lambda>a b. f a < f b) (remdups_adj (y # xs))" by (simp add: inj_on_def)
    moreover have "f x < f z" if "z \<in> set (y # xs)" for z
    proof -
      have "f x < f y" using 3(3,4) False by (auto simp: inj_on_def order.order_iff_strict)
      moreover have "f y \<le> f z" using 3(3) that by auto
      ultimately show ?thesis by simp
    qed
    ultimately show ?thesis using False by simp
  qed
qed auto

lemma strictly_in_order:
  assumes "sorted_wrt (\<lambda>a b. (f a :: nat) < f b) ks" "set zs = set ks"
  shows "remdups_adj (sort_key f zs) = ks"
proof -
  have "sorted_wrt (<) (map f ks)" using assms(1) by (simp add: sorted_wrt_map)
  then have inj: "inj_on f (set ks)" by (simp add: strict_sorted_iff distinct_map)
  have "sorted_wrt (<) (map f (remdups_adj (sort_key f zs)))"
    using strict_remdups [OF sorted_sort_key [of f zs]] inj assms(2) by (simp add: sorted_wrt_map)
  moreover have "sorted_wrt (<) (map f ks)" using assms(1) by (simp add: sorted_wrt_map)
  moreover have "set (map f (remdups_adj (sort_key f zs))) = set (map f ks)" using assms(2) by simp
  ultimately have "map f (remdups_adj (sort_key f zs)) = map f ks" by (intro strict_sorted_equal) auto
  then show ?thesis by (rule map_inj_on) (use inj assms(2) in simp)
qed

lemma flat_rows: "\<forall>k \<in> set ks. \<not> is_row k \<Longrightarrow> concat (map flat_keys ks) = ks \<and> concat (map flat_params ks) = []"
proof (induction ks)
  case (Cons k ks)
  then have "flat_keys k = [k] \<and> flat_params k = []" by (cases k) auto
  with Cons show ?case by simp
qed simp

lemma intern_row_other:
  "\<forall>k \<in> set keys. \<not> is_row k \<Longrightarrow> sorted_wrt (\<lambda>a b. param_key a < param_key b) params \<Longrightarrow>
   intern_row ix keys params = Row (remdups_adj (sort_key ix keys)) params"
  using strictly_in_order [of param_key params params] by (simp add: intern_row_def flat_rows)

section \<open>The heads of lowered types\<close>

lemma if_ref_cases: "if_ref t u = t \<or> if_ref t u = intern_ty u"
  by (simp add: if_ref_def)

lemma lower_heads:
  "is_mut (lower_refs ix cell t) = is_mut t" "is_row (lower_refs ix cell t) = is_row t"
  "is_tuple (lower_refs ix cell t) = is_tuple t"
proof -
  have "is_mut (intern_ty (Fn ps r row s i d)) = False" "is_row (intern_ty (Fn ps r row s i d)) = False"
    "is_tuple (intern_ty (Fn ps r row s i d)) = False" for ps r row s i d
    by (cases "Fn ps r row s i d" rule: intern_ty.cases; auto split: list.splits ty.splits option.splits)+
  then show "is_mut (lower_refs ix cell t) = is_mut t" "is_row (lower_refs ix cell t) = is_row t"
    "is_tuple (lower_refs ix cell t) = is_tuple t"
    by (cases t; simp add: if_ref_def del: intern_ty.simps(1))+
qed

section \<open>Raising what was lowered\<close>

lemma intern_fn_no_tuple:
  "(i = TupleInputs \<longrightarrow> \<not> one_tuple_type params) \<Longrightarrow> intern_ty (Fn params result row s i d) = Fn params result row s i d"
proof (cases params)
  case Nil
  then show ?thesis by (cases i) simp_all
next
  case (Cons p ps)
  assume "i = TupleInputs \<longrightarrow> \<not> one_tuple_type params"
  with Cons show ?thesis by (cases i; cases p; cases ps) (simp_all split: option.splits)
qed

lemma raised_same:
  "raisable ix cell t \<Longrightarrow> raised ix cell t = t" "row_raisable ix cell r \<Longrightarrow> raised_row ix cell r = r"
proof (induction ix cell t and ix cell r rule: raisable_row_raisable.induct)
  case (8 ix cell params result row s i d)
  then have "map (raised ix cell) params = params" "raised ix cell result = result" "raised_row ix cell row = row"
    by (simp_all add: map_idI)
  moreover have "intern_ty (Fn params result row s i d) = Fn params result row s i d"
    using 8(4) by (intro intern_fn_no_tuple) simp
  ultimately show ?case by (simp only: raised.simps)
next
  case (11 ix cell d args bindings)
  then have "map (raised ix cell) args = args" "map (\<lambda>b. (fst b, raised ix cell (snd b))) bindings = bindings"
    by (simp_all add: map_idI)
  then show ?case using 11 by (simp add: sort_key_id_if_sorted)
next
  case (14 ix cell keys params)
  then have "map (raised ix cell) keys = keys" by (simp add: map_idI)
  with 14 show ?case using strictly_in_order [of ix keys keys] by (simp add: intern_row_other)
qed (auto simp: map_idI split: option.splits)

lemma no_ref_parts: "\<not> has_ref t \<longleftrightarrow> meta_of t AND HAS_REF = 0"
  by (simp add: has_ref_def)

lemma erase_same: "raisable ix cell t \<Longrightarrow> \<not> has_ref t \<Longrightarrow> erase_deps t = t"
  by (induction t rule: erase_deps.induct)
    (auto simp: map_idI no_ref_parts flags flag_words split: option.splits)

lemma if_ref_raised:
  assumes "raisable ix cell t" "intern_ty u = u" "has_ref t \<Longrightarrow> raised ix cell u = erase_deps t"
  shows "raised ix cell (if_ref t u) = erase_deps t"
  using assms raised_same(1) [OF assms(1)] erase_same [OF assms(1)] by (simp add: if_ref_def)

lemma if_ref_raised_eq:
  "raisable ix cell t \<Longrightarrow> intern_ty u = u \<Longrightarrow> erase_deps t = v \<Longrightarrow> raised ix cell u = v \<Longrightarrow> raised ix cell (if_ref t u) = v"
  using if_ref_raised [of ix cell t u] by simp

lemma cell_inner_other: "\<not> is_mut t \<Longrightarrow> cell_inner t = (t, False)"
  by (cases t rule: cell_inner.cases) simp_all

lemma erase_tuple: "is_tuple (erase_deps t) = is_tuple t"
  by (cases t) simp_all

lemma map_lowered:
  "(\<And>x. x \<in> set xs \<Longrightarrow> raisable ix cell x \<Longrightarrow> raised ix cell (lower_refs ix cell x) = erase_deps x) \<Longrightarrow>
   \<forall>x \<in> set xs. raisable ix cell x \<Longrightarrow> map (raised ix cell) (map (lower_refs ix cell) xs) = map erase_deps xs"
  by simp

text \<open>C16. Raising undoes lowering, for the types that \<open>raisable\<close> describes and two different carriers: a lowered
  type gives back the type it came from, the kinds and the mutability of its references included, less its
  dependency maps. \<open>raisable\<close> asks for the pool's form of the type (bindings and the keys and parameters of rows
  strictly in order, no row among the keys, no function over one tuple type); for no carrier among its data
  types, as raising turns every carrier into a reference; for no shared reference over a \<^verbatim>\<open>mut\<close> type, which
  lowering makes the carrier of a mutable one; and for dependency maps only on functions that hold a
  reference, and on none in the keys of a row.\<close>

theorem raise_lowered:
  assumes "rc_local cell \<noteq> rc_counted cell" "raisable ix cell t"
  shows "raise_refs ix cell (lower_refs ix cell t) = erase_deps t"
proof -
  have "rc_local cell \<noteq> rc_counted cell \<Longrightarrow> raisable ix cell t \<Longrightarrow> raised ix cell (lower_refs ix cell t) = erase_deps t"
    and "rc_local cell \<noteq> rc_counted cell \<Longrightarrow> row_raisable ix cell r \<Longrightarrow> raised_row ix cell (lower_refs_row ix cell r) = r"
    for t r
  proof (induction ix cell t and ix cell r rule: lower_refs_lower_refs_row.induct)
    case (1 ix cell i m c)
    then have i: "raised ix cell (lower_refs ix cell i) = erase_deps i" by (cases m) simp_all
    have "cell_inner (lower_refs ix cell i) = (lower_refs ix cell i, False)" if "\<not> m"
      using 1 that by (intro cell_inner_other) (simp add: lower_heads)
    with 1(3) i have "raised ix cell (Adt (if c then rc_counted cell else rc_local cell)
        [if m then intern_ty (Mut (lower_refs ix cell i)) else lower_refs ix cell i]) = erase_deps (RefTy i m c)"
      by (cases m; cases c) (simp_all add: holds_def_def)
    with 1(4) show ?case by (simp only: lower_refs.simps) (rule if_ref_raised, simp_all)
  next
    case (8 ix cell params result row suspends ins deps)
    let ?u = "Fn (map (lower_refs ix cell) params) (lower_refs ix cell result) (lower_refs_row ix cell row) suspends ins None"
    have "map (raised ix cell) (map (lower_refs ix cell) params) = map erase_deps params"
      using 8 by (intro map_lowered) simp_all
    moreover have "raised ix cell (lower_refs ix cell result) = erase_deps result"
      "raised_row ix cell (lower_refs_row ix cell row) = row" using 8 by simp_all
    moreover have "ins = TupleInputs \<longrightarrow> \<not> one_tuple_type (map erase_deps params)"
      using 8(5) by (simp add: one_tuple_type_map erase_tuple)
    ultimately have "raised ix cell ?u = erase_deps (Fn params result row suspends ins deps)"
      by (simp only: raised.simps erase_deps.simps intern_fn_no_tuple)
    moreover have "intern_ty ?u = ?u"
      using 8(5) by (intro intern_fn_no_tuple) (simp add: one_tuple_type_map lower_heads)
    ultimately show ?case using 8(5) by (simp only: lower_refs.simps) (rule if_ref_raised)
  next
    case (11 ix cell d args bindings)
    let ?bs = "map (\<lambda>b. (fst b, lower_refs ix cell (snd b))) bindings"
    have bs: "map (\<lambda>b. (fst b, raised ix cell (snd b))) ?bs = map (\<lambda>b. (fst b, erase_deps (snd b))) bindings"
      using 11 by (auto simp: comp_def)
    have "map (raised ix cell) (map (lower_refs ix cell) args) = map erase_deps args"
      using 11 by (intro map_lowered) simp_all
    moreover have "sort_key fst ?bs = ?bs" "sort_key fst (map (\<lambda>b. (fst b, erase_deps (snd b))) bindings) =
        map (\<lambda>b. (fst b, erase_deps (snd b))) bindings"
      using 11(4) by (auto intro!: sort_key_id_if_sorted simp: comp_def)
    ultimately have "raised ix cell (TraitValue d (map (lower_refs ix cell) args) ?bs) = erase_deps (TraitValue d args bindings)"
      "intern_ty (TraitValue d (map (lower_refs ix cell) args) ?bs) = TraitValue d (map (lower_refs ix cell) args) ?bs"
      by (simp_all only: raised.simps erase_deps.simps intern_ty.simps bs)
    with 11(4) show ?case by (simp only: lower_refs.simps) (rule if_ref_raised)
  next
    case (14 ix cell keys params)
    note R = 14(3)
    show ?case
    proof (cases "row_meta (Row keys params) AND HAS_REF = 0")
      case True
      with raised_same(2) [OF R] show ?thesis by simp
    next
      case False
      let ?ks = "remdups_adj (sort_key ix (map (lower_refs ix cell) keys))"
      have key: "raised ix cell (lower_refs ix cell k) = k" if "k \<in> set keys" for k
        using 14(1) [OF False that 14(2)] R that by simp
      have low: "intern_row ix (map (lower_refs ix cell) keys) params = Row ?ks params"
        using R by (intro intern_row_other) (auto simp: lower_heads)
      have s: "set (map (raised ix cell) ?ks) = set keys" by (auto simp: key image_image)
      then have "intern_row ix (map (raised ix cell) ?ks) params = Row (remdups_adj (sort_key ix (map (raised ix cell) ?ks))) params"
        using R by (intro intern_row_other) auto
      moreover have "remdups_adj (sort_key ix (map (raised ix cell) ?ks)) = keys"
        using R s by (intro strictly_in_order) simp_all
      ultimately show ?thesis using False low by simp
    qed
  qed (auto intro!: if_ref_raised_eq simp: comp_def split: option.splits)
  then show ?thesis using assms by (simp add: raise_refs_raised)
qed

lemma raise_lowered_witness:
  "raise_refs (\<lambda>_. 0) \<lparr>rc_local = 776, rc_counted = 777\<rparr>
     (lower_refs (\<lambda>_. 0) \<lparr>rc_local = 776, rc_counted = 777\<rparr>
        (Fn [RefTy (Prim I32) True True] (OptionTy (RefTy (Prim I32) False False)) (Row [] []) False Fixed (Some ([], [0])))) =
   Fn [RefTy (Prim I32) True True] (OptionTy (RefTy (Prim I32) False False)) (Row [] []) False Fixed None"
  by (subst raise_lowered) (simp_all add: has_ref_def flag_words)

text \<open>The memo of \<open>raise_refs\<close> changes nothing but the number of steps: the walk that visits each distinct
  type once gives what the plain walk of the whole type gives.\<close>

lemma raise_memo_plain: "raise_refs ix cell t = raised ix cell t"
  by (rule raise_refs_raised)

end
