(* ===== verification/PoolTypes.thy ===== *)
theory PoolTypes
  imports InternPool ConstEval
begin

text \<open>
  Types in the pools of \<^verbatim>\<open>crates/hd_types/src/pool.rs\<close>: the body-local pool (\<open>LocalPool\<close>), the view that
  reads and builds through both pools (\<open>Types\<close>), and how a type, a list, a row and a dependency map
  become an item and back (\<open>intern_ty\<close>, \<open>list\<close>, \<open>row\<close>, \<open>fn_deps\<close>, \<open>get\<close>, \<open>row_data\<close>). \<open>ty_data\<close> is
  \<open>TyData\<close> with the indexes the code has; an id of another crate (a \<open>DefId\<close>, an \<open>InferVar\<close>) is its raw
  word. \<open>None\<close> is a panic. A view is the two pools and the thread's read-through table.
\<close>

section \<open>Types as the code has them\<close>

datatype (plugins only: code size) ty_data =
    TdPrim prim
  | TdNever
  | TdPoison
  | TdAdt def_id u32
  | TdTuple u32 "u32 option"
  | TdUnion u32
  | TdOption u32
  | TdFn u32 u32 u32 bool inputs u32
  | TdTraitValue def_id u32 "(def_id \<times> u32) list"
  | TdOpaque def_id u32 bool u32 u32
  | TdParam param_ref
  | TdConst const_value
  | TdAssoc def_id def_id u32 u32
  | TdMut u32
  | TdRef u32 bool bool
  | TdInfer u32
  | TdCanon u8
  | TdRow u32
  | TdContext u32

definition DEPS_NONE :: u32 where "DEPS_NONE = - 1"

fun inputs_bits :: "inputs \<Rightarrow> u32" where
  "inputs_bits Fixed = 0"
| "inputs_bits Rest = 2"
| "inputs_bits TupleInputs = 4"

definition inputs_from_bits :: "u32 \<Rightarrow> inputs" where
  "inputs_from_bits w = (if w AND 4 \<noteq> 0 then TupleInputs else if w AND 2 \<noteq> 0 then Rest else Fixed)"

definition inputs_word :: "inputs \<Rightarrow> bool \<Rightarrow> u32" where
  "inputs_word i suspends = of_bool suspends OR inputs_bits i"

section \<open>The local pool and the view\<close>

definition LOCAL :: u32 where "LOCAL = push_bit 31 1"
definition GEN_SHIFT :: nat where "GEN_SHIFT = 27"
definition GEN_MASK :: u32 where "GEN_MASK = 0xF"
definition LOCAL_ROW :: u32 where "LOCAL_ROW = push_bit GEN_SHIFT 1 - 1"

record local_pool =
  lp_cols :: cols
  lp_index :: id_table
  lp_generation :: u32

definition new_local :: "u32 \<Rightarrow> local_pool" where
  "new_local n = \<lparr>lp_cols = new_cols, lp_index = empty_ids, lp_generation = n AND GEN_MASK\<rparr>"

definition local_intern :: "local_pool \<Rightarrow> pcontent \<Rightarrow> u32 \<Rightarrow> (local_pool \<times> u32) option" where
  "local_intern l c m = do {
     found \<leftarrow> find_id (lp_index l) (hash32 c) (\<lambda>i. matches_at c (lp_cols l) (unat i));
     (l, row) \<leftarrow> (case found of
        Some i \<Rightarrow> Some (l, i)
      | None \<Rightarrow> do {
          (cs, i) \<leftarrow> cols_push (lp_cols l) c m;
          idx \<leftarrow> insert_id (lp_index l) (hash32 c) (word_of_nat i);
          Some (l\<lparr>lp_cols := cs, lp_index := idx\<rparr>, word_of_nat i)
        });
     if row \<le> LOCAL_ROW then Some (l, LOCAL OR push_bit GEN_SHIFT (lp_generation l) OR row) else None
   }"

record types_view =
  tv_global :: intern_pool
  tv_cache :: read_through
  tv_local :: "local_pool option"

definition view_at :: "types_view \<Rightarrow> u32 \<Rightarrow> (cols \<times> nat) option" where
  "view_at tv i =
     (if i AND LOCAL = 0 then Some (ip_cols (tv_global tv), unat i)
      else case tv_local tv of
             None \<Rightarrow> None
           | Some l \<Rightarrow>
               (if drop_bit GEN_SHIFT i AND GEN_MASK = lp_generation l then Some (lp_cols l, unat (i AND LOCAL_ROW))
                else None))"

definition meta_word :: "types_view \<Rightarrow> u32 \<Rightarrow> u32 option" where
  "meta_word tv i = do { (cs, k) \<leftarrow> view_at tv i; got (item_at (pc_meta cs) k) }"

definition intern_content :: "types_view \<Rightarrow> pcontent \<Rightarrow> u32 \<Rightarrow> (types_view \<times> u32) option" where
  "intern_content tv c m =
     (if m AND HAS_INFER = 0 then do {
        (p, rt, i) \<leftarrow> intern_global (tv_global tv) (tv_cache tv) c m;
        Some (tv\<lparr>tv_global := p, tv_cache := rt\<rparr>, i)
      } else do {
        l \<leftarrow> tv_local tv;
        (l, i) \<leftarrow> local_intern l c m;
        Some (tv\<lparr>tv_local := Some l\<rparr>, i)
      })"

section \<open>Lists, rows and dependency maps\<close>

primrec metas_or :: "types_view \<Rightarrow> u32 \<Rightarrow> u32 list \<Rightarrow> u32 option" where
  "metas_or tv m [] = Some m"
| "metas_or tv m (x # xs) = do { w \<leftarrow> meta_word tv x; metas_or tv (m OR w) xs }"

definition list_content :: "u32 list \<Rightarrow> pcontent" where
  "list_content ids = \<lparr>ct_tag = PtList, ct_data = 0, ct_head = [], ct_tys = ids\<rparr>"

definition intern_list :: "types_view \<Rightarrow> u32 list \<Rightarrow> (types_view \<times> u32) option" where
  "intern_list tv ids = do { m \<leftarrow> metas_or tv 0 ids; intern_content tv (list_content ids) m }"

definition list_items :: "types_view \<Rightarrow> u32 \<Rightarrow> u32 list option" where
  "list_items tv l = do { (cs, i) \<leftarrow> view_at tv l; list_at cs i }"

definition param_words :: "param_ref \<Rightarrow> u32 list" where
  "param_words p = [pr_owner p, ucast (pr_index p)]"

definition row_content :: "u32 list \<Rightarrow> param_ref list \<Rightarrow> pcontent" where
  "row_content keys params =
     \<lparr>ct_tag = PtRow, ct_data = 0,
      ct_head = word_of_nat (length keys) # keys @ word_of_nat (length params) # concat (map param_words params),
      ct_tys = []\<rparr>"

text \<open>\<open>chunks(2)\<close> with both words read; \<open>u16::try_from(w).expect(..)\<close>.\<close>

fun word_pairs :: "u32 list \<Rightarrow> (u32 \<times> u32) list option" where
  "word_pairs [] = Some []"
| "word_pairs [a] = None"
| "word_pairs (a # b # ws) = map_option (\<lambda>ps. (a, b) # ps) (word_pairs ws)"

definition param_of :: "u32 \<times> u32 \<Rightarrow> param_ref option" where
  "param_of w = (if unat (snd w) < 2 ^ 16 then Some \<lparr>pr_owner = fst w, pr_index = ucast (snd w)\<rparr> else None)"

fun all_some :: "'a option list \<Rightarrow> 'a list option" where
  "all_some [] = Some []"
| "all_some (x # xs) = do { y \<leftarrow> x; ys \<leftarrow> all_some xs; Some (y # ys) }"

definition row_data :: "types_view \<Rightarrow> u32 \<Rightarrow> (u32 list \<times> param_ref list) option" where
  "row_data tv r = do {
     (cs, i) \<leftarrow> view_at tv r;
     w \<leftarrow> record_at cs i;
     n \<leftarrow> map_option unat (get_at w 0);
     keys \<leftarrow> get_range w 1 (n + 1);
     rest \<leftarrow> get_range w (n + 2) (length w);
     ps \<leftarrow> word_pairs rest;
     params \<leftarrow> all_some (map param_of ps);
     Some (keys, params)
   }"

definition deps_content :: "u32 list \<Rightarrow> u32 list \<Rightarrow> pcontent" where
  "deps_content ins outs =
     \<lparr>ct_tag = PtDeps, ct_data = 0,
      ct_head = word_of_nat (length ins) # word_of_nat (length outs) # ins @ outs, ct_tys = []\<rparr>"

definition deps_of :: "types_view \<Rightarrow> u32 \<Rightarrow> fn_deps option" where
  "deps_of tv d =
     (if d = DEPS_NONE then Some None
      else do {
        (cs, i) \<leftarrow> view_at tv d;
        off \<leftarrow> got (item_at (pc_data cs) i);
        x \<leftarrow> record_of cs PtDeps off;
        n \<leftarrow> map_option unat (get_at x 0);
        ins \<leftarrow> get_range x 2 (2 + n);
        outs \<leftarrow> get_range x (2 + n) (length x);
        Some (Some (ins, outs))
      })"

section \<open>Types\<close>

definition prim_word :: "prim \<Rightarrow> u32" where
  "prim_word p = word_of_nat (length (takeWhile (\<lambda>q. q \<noteq> p) all_prims))"

fun ref_tag :: "bool \<Rightarrow> bool \<Rightarrow> pool_tag" where
  "ref_tag False False = PtRef"
| "ref_tag False True = PtRefMut"
| "ref_tag True False = PtCRef"
| "ref_tag True True = PtCRefMut"

definition word_content :: "pool_tag \<Rightarrow> u32 \<Rightarrow> pcontent" where
  "word_content t w = \<lparr>ct_tag = t, ct_data = w, ct_head = [], ct_tys = []\<rparr>"

definition head_content :: "pool_tag \<Rightarrow> u32 list \<Rightarrow> pcontent" where
  "head_content t ws = \<lparr>ct_tag = t, ct_data = 0, ct_head = ws, ct_tys = []\<rparr>"

fun encode :: "ty_data \<Rightarrow> pcontent" where
  "encode (TdPrim p) = word_content PtPrim (prim_word p)"
| "encode TdNever = word_content PtNever 0"
| "encode TdPoison = word_content PtPoison 0"
| "encode (TdAdt d args) = head_content PtAdt [d, args]"
| "encode (TdTuple elems None) = word_content PtTuple elems"
| "encode (TdTuple elems (Some r)) = head_content PtTupleRest [elems, r]"
| "encode (TdUnion members) = word_content PtUnion members"
| "encode (TdOption t) = word_content PtOption t"
| "encode (TdFn params result row suspends ins deps) =
     head_content PtFn [params, result, row, inputs_word ins suspends, deps]"
| "encode (TdTraitValue d args bindings) =
     (let bs = sort_key fst bindings
      in head_content PtTraitValue (d # args # word_of_nat (length bs) # concat (map (\<lambda>(a, t). [a, t]) bs)))"
| "encode (TdOpaque ow site borrows args bound) = head_content PtOpaque [ow, site, args, bound, of_bool borrows]"
| "encode (TdParam p) = head_content PtParam (param_words p)"
| "encode (TdConst v) =
     head_content PtConst [prim_word (const_prim v), low (const_bits v), low (drop_bit 32 (const_bits v))]"
| "encode (TdAssoc a tr self args) = head_content PtAssoc [a, tr, self, args]"
| "encode (TdMut t) = word_content PtMut t"
| "encode (TdRef t m c) = word_content (ref_tag c m) t"
| "encode (TdInfer v) = word_content PtInfer v"
| "encode (TdCanon i) = word_content PtCanon (ucast i)"
| "encode (TdRow r) = word_content PtRowTy r"
| "encode (TdContext r) = word_content PtContext r"

text \<open>The metas a type is made of: the flags of its own and the items it reads them from.\<close>

fun own_flags :: "ty_data \<Rightarrow> u32" where
  "own_flags TdPoison = HAS_POISON"
| "own_flags (TdFn params result row suspends ins deps) = HAS_FN"
| "own_flags (TdOpaque ow site borrows args bound) = HAS_OPAQUE OR (if borrows then HAS_REF else 0)"
| "own_flags (TdParam p) = HAS_PARAM"
| "own_flags (TdAssoc a tr self args) = HAS_ASSOC"
| "own_flags (TdRef t m c) = HAS_REF"
| "own_flags (TdInfer v) = HAS_INFER"
| "own_flags (TdCanon i) = HAS_CANON"
| "own_flags _ = 0"

fun data_ids :: "ty_data \<Rightarrow> u32 list" where
  "data_ids (TdAdt d args) = [args]"
| "data_ids (TdTuple elems rest) = elems # (case rest of None \<Rightarrow> [] | Some r \<Rightarrow> [r])"
| "data_ids (TdUnion members) = [members]"
| "data_ids (TdOption t) = [t]"
| "data_ids (TdFn params result row suspends ins deps) = [params, result, row]"
| "data_ids (TdTraitValue d args bindings) = args # map snd bindings"
| "data_ids (TdOpaque ow site borrows args bound) = [args, bound]"
| "data_ids (TdAssoc a tr self args) = [self, args]"
| "data_ids (TdMut t) = [t]"
| "data_ids (TdRef t m c) = [t]"
| "data_ids (TdRow r) = [r]"
| "data_ids (TdContext r) = [r]"
| "data_ids _ = []"

definition data_meta :: "types_view \<Rightarrow> ty_data \<Rightarrow> u32 option" where
  "data_meta tv d = metas_or tv (own_flags d) (data_ids d)"

fun fits_pool :: "ty_data \<Rightarrow> bool" where
  "fits_pool (TdTraitValue d args bindings) = (length bindings < 2 ^ 32)"
| "fits_pool _ = True"

definition intern_plain :: "types_view \<Rightarrow> ty_data \<Rightarrow> (types_view \<times> u32) option" where
  "intern_plain tv d =
     (if fits_pool d then do { m \<leftarrow> data_meta tv d; intern_content tv (encode d) m } else None)"

definition decode_ty :: "pool_tag \<Rightarrow> u32 \<Rightarrow> u32 list \<Rightarrow> ty_data option" where
  "decode_ty t d x =
     (case t of
        PtPrim \<Rightarrow> map_option TdPrim (get_at all_prims (unat d))
      | PtNever \<Rightarrow> Some TdNever
      | PtPoison \<Rightarrow> Some TdPoison
      | PtAdt \<Rightarrow> do { a \<leftarrow> get_at x 0; b \<leftarrow> get_at x 1; Some (TdAdt a b) }
      | PtTuple \<Rightarrow> Some (TdTuple d None)
      | PtTupleRest \<Rightarrow> do { a \<leftarrow> get_at x 0; b \<leftarrow> get_at x 1; Some (TdTuple a (Some b)) }
      | PtUnion \<Rightarrow> Some (TdUnion d)
      | PtOption \<Rightarrow> Some (TdOption d)
      | PtFn \<Rightarrow> do {
          a \<leftarrow> get_at x 0; b \<leftarrow> get_at x 1; r \<leftarrow> get_at x 2; w \<leftarrow> get_at x 3; e \<leftarrow> get_at x 4;
          Some (TdFn a b r (w AND 1 \<noteq> 0) (inputs_from_bits w) e)
        }
      | PtTraitValue \<Rightarrow> do {
          a \<leftarrow> get_at x 0; b \<leftarrow> get_at x 1; rest \<leftarrow> get_range x 3 (length x); bs \<leftarrow> word_pairs rest;
          Some (TdTraitValue a b bs)
        }
      | PtOpaque \<Rightarrow> do {
          a \<leftarrow> get_at x 0; s \<leftarrow> get_at x 1; bo \<leftarrow> get_at x 4; args \<leftarrow> get_at x 2; b \<leftarrow> get_at x 3;
          Some (TdOpaque a s (bo \<noteq> 0) args b)
        }
      | PtParam \<Rightarrow> do { a \<leftarrow> get_at x 0; b \<leftarrow> get_at x 1; map_option TdParam (param_of (a, b)) }
      | PtConst \<Rightarrow> do {
          a \<leftarrow> get_at x 0; b \<leftarrow> get_at x 1; c \<leftarrow> get_at x 2; p \<leftarrow> get_at all_prims (unat a);
          map_option TdConst (const_from_bits p (ucast b OR push_bit 32 (ucast c)))
        }
      | PtAssoc \<Rightarrow> do {
          a \<leftarrow> get_at x 0; b \<leftarrow> get_at x 1; c \<leftarrow> get_at x 2; e \<leftarrow> get_at x 3; Some (TdAssoc a b c e)
        }
      | PtMut \<Rightarrow> Some (TdMut d)
      | PtRef \<Rightarrow> Some (TdRef d False False)
      | PtRefMut \<Rightarrow> Some (TdRef d True False)
      | PtCRef \<Rightarrow> Some (TdRef d False True)
      | PtCRefMut \<Rightarrow> Some (TdRef d True True)
      | PtInfer \<Rightarrow> Some (TdInfer d)
      | PtCanon \<Rightarrow> if unat d < 2 ^ 8 then Some (TdCanon (ucast d)) else None
      | PtRowTy \<Rightarrow> Some (TdRow d)
      | PtContext \<Rightarrow> Some (TdContext d)
      | PtList \<Rightarrow> None
      | PtRow \<Rightarrow> None
      | PtDeps \<Rightarrow> None)"

definition get_ty :: "types_view \<Rightarrow> u32 \<Rightarrow> ty_data option" where
  "get_ty tv t = do {
     (cs, i) \<leftarrow> view_at tv t;
     tag \<leftarrow> got (item_at (pc_tag cs) i);
     d \<leftarrow> got (item_at (pc_data cs) i);
     x \<leftarrow> record_of cs tag d;
     decode_ty tag d x
   }"

text \<open>A function type whose inputs are one tuple type takes the form with one parameter per element.\<close>

definition intern_data :: "types_view \<Rightarrow> ty_data \<Rightarrow> (types_view \<times> u32) option" where
  "intern_data tv t =
     (case t of
        TdFn params result row suspends TupleInputs deps \<Rightarrow> do {
          ps \<leftarrow> list_items tv params;
          (case ps of
             [one] \<Rightarrow> do {
               d \<leftarrow> get_ty tv one;
               (case d of
                  TdTuple elems rest \<Rightarrow>
                    (case rest of
                       None \<Rightarrow> intern_plain tv (TdFn elems result row suspends Fixed deps)
                     | Some r \<Rightarrow> do {
                         es \<leftarrow> list_items tv elems;
                         (tv, all) \<leftarrow> intern_list tv (es @ [r]);
                         intern_plain tv (TdFn all result row suspends Rest deps)
                       })
                | _ \<Rightarrow> intern_plain tv t)
             }
           | _ \<Rightarrow> intern_plain tv t)
        }
      | _ \<Rightarrow> intern_plain tv t)"

text \<open>A row: keys that are rows themselves are flattened, then both parts are sorted without duplicates.\<close>

primrec flatten_keys ::
    "types_view \<Rightarrow> u32 list \<Rightarrow> u32 list \<times> param_ref list \<Rightarrow> (u32 list \<times> param_ref list) option" where
  "flatten_keys tv [] acc = Some acc"
| "flatten_keys tv (k # ks) acc = do {
     d \<leftarrow> get_ty tv k;
     acc \<leftarrow> (case d of
        TdRow r \<Rightarrow> do { (keys, params) \<leftarrow> row_data tv r; Some (fst acc @ keys, snd acc @ params) }
      | _ \<Rightarrow> Some (fst acc @ [k], snd acc));
     flatten_keys tv ks acc
   }"

definition pool_row :: "types_view \<Rightarrow> u32 list \<Rightarrow> param_ref list \<Rightarrow> (types_view \<times> u32) option" where
  "pool_row tv keys params = do {
     (keys, params) \<leftarrow> flatten_keys tv keys ([], params);
     let keys = remdups_adj (sort_key (\<lambda>t. t) keys);
     let params = remdups_adj (sort_key param_key params);
     m \<leftarrow> metas_or tv 0 keys;
     _ \<leftarrow> fit_u32 (length keys);
     _ \<leftarrow> fit_u32 (length params);
     intern_content tv (row_content keys params) (if params = [] then m else m OR HAS_PARAM)
   }"

text \<open>A dependency map: an input lifetime no result has becomes its own, and lifetimes are renumbered.\<close>

primrec number_ins :: "u32 list \<Rightarrow> nat \<Rightarrow> u32 list \<Rightarrow> u32 list \<Rightarrow> u32 list \<times> u32 list" where
  "number_ins outs k [] seen = (seen, [])"
| "number_ins outs k (l # ls) seen =
     (let l = (if l \<in> set outs then l else push_bit 31 1 OR word_of_nat k);
          at = length (takeWhile (\<lambda>x. x \<noteq> l) seen);
          seen = (if at < length seen then seen else seen @ [l]);
          (seen, ws) = number_ins outs (Suc k) ls seen
      in (seen, word_of_nat (at + 1) # ws))"

definition number_out :: "u32 list \<Rightarrow> u32 \<Rightarrow> u32" where
  "number_out seen l =
     (let at = length (takeWhile (\<lambda>x. \<not> (x = l \<and> l \<noteq> 0)) seen)
      in if at < length seen then word_of_nat (at + 1) else 0)"

definition pool_fn_deps :: "types_view \<Rightarrow> u32 list \<Rightarrow> u32 list \<Rightarrow> (types_view \<times> u32) option" where
  "pool_fn_deps tv ins outs =
     (if outs = [] then Some (tv, DEPS_NONE)
      else do {
        _ \<leftarrow> fit_u32 (length ins + 1);
        _ \<leftarrow> fit_u32 (length outs);
        let (seen, ws) = number_ins outs 0 ins [];
        intern_content tv (deps_content ws (map (number_out seen) outs)) 0
      })"

section \<open>Decoding an encoded type\<close>

text \<open>The form in which a type is stored: the bindings of a trait value in the order of their names.\<close>

fun canon_data :: "ty_data \<Rightarrow> ty_data" where
  "canon_data (TdTraitValue d args bindings) = TdTraitValue d args (sort_key fst bindings)"
| "canon_data d = d"

text \<open>A const value that its own bits give back: the range of its type, a character, a text.\<close>

definition const_ok :: "const_value \<Rightarrow> bool" where
  "const_ok v \<longleftrightarrow> const_from_bits (const_prim v) (const_bits v) = Some v"

fun data_ok :: "ty_data \<Rightarrow> bool" where
  "data_ok (TdTraitValue d args bindings) = (length bindings < 2 ^ 32)"
| "data_ok (TdConst v) = const_ok v"
| "data_ok _ = True"

lemma data_ok_fits: "data_ok d \<Longrightarrow> fits_pool d"
  by (cases d) simp_all

lemma prim_of_word: "get_at all_prims (unat (prim_word p)) = Some p"
  by (cases p) (simp_all add: prim_word_def all_prims_def)

lemma inputs_of_word:
  "inputs_from_bits (inputs_word i s) = i" "(inputs_word i s AND 1 \<noteq> 0) = s"
  by (cases i; cases s; simp add: inputs_from_bits_def inputs_word_def)+

lemma word_halves: "ucast (low b) OR push_bit 32 (ucast (low (drop_bit 32 b))) = (b :: u64)"
  by (rule bit_word_eqI) (auto simp: low_ucast bit_simps)

lemma word_pairs_concat: "word_pairs (concat (map (\<lambda>(a, t). [a, t]) bs)) = Some bs"
  by (induction bs) (auto split: prod.splits)

lemma widen_narrow: "ucast (ucast (x :: u16) :: u32) = x" "ucast (ucast (y :: u8) :: u32) = y"
  by (rule bit_word_eqI; simp add: bit_simps)+

lemma param_of_words: "param_of (pr_owner p, ucast (pr_index p)) = Some p"
proof -
  have "unat (pr_index p) < 2 ^ 16" using unsigned_less [of "pr_index p"] by simp
  then have "unat (ucast (pr_index p) :: u32) < 2 ^ 16"
    by (simp add: unsigned_ucast_eq take_bit_nat_eq_self)
  then show ?thesis by (simp add: param_of_def widen_narrow)
qed

lemma canon_word: "unat (ucast (i :: u8) :: u32) < 2 ^ 8"
proof -
  have "unat i < 2 ^ 8" using unsigned_less [of i] by simp
  then show ?thesis by (simp add: unsigned_ucast_eq take_bit_nat_eq_self)
qed

lemmas content_defs = word_content_def head_content_def list_content_def row_content_def deps_content_def

lemma get_at_simps: "get_at (x # xs) 0 = Some x" "get_at (x # xs) (Suc n) = get_at xs n"
  by (auto simp: get_at_def)

lemma decode_encode:
  assumes "data_ok d"
  shows "decode_ty (ct_tag (encode d)) (ct_data (encode d)) (ct_head (encode d)) = Some (canon_data d)"
proof (cases d)
  case (TdTuple elems rest)
  then show ?thesis by (cases rest) (simp_all add: decode_ty_def content_defs get_at_simps)
next
  case (TdFn params result row suspends ins deps)
  then show ?thesis
    using inputs_of_word [of ins suspends] by (simp add: decode_ty_def content_defs get_at_def)
next
  case (TdTraitValue e args bindings)
  then show ?thesis
    using word_pairs_concat [of "sort_key fst bindings"]
    by (simp add: decode_ty_def content_defs Let_def get_at_def get_range_def)
next
  case (TdOpaque ow site borrows args bound)
  then show ?thesis by (simp add: decode_ty_def content_defs get_at_def)
next
  case (TdConst v)
  then show ?thesis
    using assms word_halves [of "const_bits v"] prim_of_word [of "const_prim v"]
    by (simp add: decode_ty_def content_defs get_at_simps numeral_2_eq_2 const_ok_def del: get_at_Some)
next
  case (TdRef t m c)
  then show ?thesis by (cases m; cases c) (simp_all add: decode_ty_def content_defs)
qed (use prim_of_word param_of_words canon_word in
    \<open>simp_all add: decode_ty_def content_defs param_words_def get_at_simps get_at_def widen_narrow del: get_at_Some\<close>)

text \<open>Encoding is injective up to the order of bindings, and an item of a type is no list, row or map.\<close>

lemma encode_canon: "encode (canon_data d) = encode d"
  by (cases d) (simp_all add: sort_key_id_if_sorted)

lemma encode_inject: "data_ok d \<Longrightarrow> data_ok e \<Longrightarrow> encode d = encode e \<longleftrightarrow> canon_data d = canon_data e"
  using decode_encode [of d] decode_encode [of e] encode_canon [of d] encode_canon [of e] by auto

definition is_type_tag :: "pool_tag \<Rightarrow> bool" where
  "is_type_tag t \<longleftrightarrow> t \<notin> {PtList, PtRow, PtDeps}"

lemma encode_tag: "is_type_tag (ct_tag (encode d))"
proof (cases d)
  case (TdTuple elems rest)
  then show ?thesis by (cases rest) (simp_all add: is_type_tag_def content_defs)
next
  case (TdRef t m c)
  then show ?thesis by (cases m; cases c) (simp_all add: is_type_tag_def content_defs)
qed (simp_all add: is_type_tag_def content_defs Let_def)

lemma length_bindings: "length (concat (map (\<lambda>(a, t). [a, t]) bs)) = 2 * length bs"
  by (induction bs) auto

lemma encode_ok: "data_ok d \<Longrightarrow> content_ok (encode d)"
proof (cases d)
  case (TdTuple elems rest)
  then show ?thesis by (cases rest) (simp_all add: content_ok_def content_defs has_record_def head_len_def)
next
  case (TdTraitValue e args bindings)
  moreover assume "data_ok d"
  ultimately show ?thesis
    by (simp add: content_ok_def content_defs has_record_def head_len_def Let_def length_bindings unat_small)
next
  case (TdRef t m c)
  then show ?thesis by (cases m; cases c) (simp_all add: content_ok_def content_defs has_record_def)
qed (simp_all add: content_ok_def content_defs has_record_def head_len_def param_words_def)

lemma length_params: "length (concat (map param_words ps)) = 2 * length ps"
  by (induction ps) (auto simp: param_words_def)

lemma other_contents_ok:
  "content_ok (list_content ids)"
  "length keys < 2 ^ 32 \<Longrightarrow> length params < 2 ^ 32 \<Longrightarrow> content_ok (row_content keys params)"
  "length ins < 2 ^ 32 \<Longrightarrow> length outs < 2 ^ 32 \<Longrightarrow> content_ok (deps_content ins outs)"
  by (simp_all add: content_ok_def content_defs has_record_def head_len_def unat_small nth_append length_params)

end
