(* ===== verification/PoolViews.thy ===== *)
theory PoolViews
  imports PoolTypes
begin

text \<open>
  What a view of the two pools holds: \<open>view_holds tv G L\<close> says that the global pool holds the contents
  \<open>G\<close>, the local pool \<open>L\<close>, and that the meta word of every item is the one its contents give. Interning
  keeps this and only adds items; reading an item gives back what was interned. Indexes below \<open>2 ^ 31\<close>
  are global: the global pool does not check that bound itself (\<open>index_past_half_is_local\<close>).
\<close>

section \<open>The items of a view\<close>

definition local_holds :: "local_pool \<Rightarrow> pcontent list \<Rightarrow> bool" where
  "local_holds l L \<longleftrightarrow>
     cols_hold (lp_cols l) L \<and> distinct L \<and> length L \<le> 2 ^ 27 \<and> lp_generation l AND GEN_MASK = lp_generation l \<and>
     ids.indexes (lp_index l) {..<length L} (\<lambda>i. hash32 (L ! i))"

definition item_of :: "types_view \<Rightarrow> pcontent list \<Rightarrow> pcontent list \<Rightarrow> u32 \<Rightarrow> pcontent option" where
  "item_of tv G L i =
     (if i AND LOCAL = 0 then get_at G (unat i)
      else case tv_local tv of
             None \<Rightarrow> None
           | Some l \<Rightarrow>
               if drop_bit GEN_SHIFT i AND GEN_MASK = lp_generation l then get_at L (unat (i AND LOCAL_ROW)) else None)"

definition pools_hold :: "types_view \<Rightarrow> pcontent list \<Rightarrow> pcontent list \<Rightarrow> bool" where
  "pools_hold tv G L \<longleftrightarrow>
     pool_holds (tv_global tv) G {} \<and> cache_ok (tv_global tv) (length G) (tv_cache tv) \<and> length G \<le> 2 ^ 31 \<and>
     (case tv_local tv of None \<Rightarrow> L = [] | Some l \<Rightarrow> local_holds l L)"

text \<open>The index words: bit 31, then the generation, then the row.\<close>

definition local_id :: "u32 \<Rightarrow> u32 \<Rightarrow> u32" where
  "local_id g row = LOCAL OR push_bit GEN_SHIFT g OR row"

lemma bit_LOCAL: "bit LOCAL n \<longleftrightarrow> n = 31"
  by (simp only: LOCAL_def bit_push_bit_iff bit_1_iff possible_bit_word) auto

lemma is_global: "i AND LOCAL = 0 \<longleftrightarrow> \<not> bit i 31"
proof
  assume "i AND LOCAL = 0"
  then have "\<not> bit (i AND LOCAL) 31" by simp
  then show "\<not> bit i 31" by (simp add: bit_and_iff bit_LOCAL)
next
  assume "\<not> bit i 31"
  then show "i AND LOCAL = 0" by (intro bit_eqI) (auto simp: bit_and_iff bit_LOCAL)
qed

lemma global_small: "i AND LOCAL = 0 \<longleftrightarrow> unat i < 2 ^ 31"
proof -
  have "unat i < 2 ^ 32" using unsigned_less [of i] by simp
  then have "unat i div 2 ^ 31 < 2" by (simp add: less_mult_imp_div_less)
  moreover have "bit i 31 = odd (unat i div 2 ^ 31)"
    using bit_unsigned_iff [of i 31, where ?'a = nat] by (simp add: bit_iff_odd)
  ultimately show ?thesis
    by (cases "unat i div 2 ^ 31 = 0") (auto simp: is_global less_2_cases_iff div_eq_0_iff)
qed

lemma id_masks: "GEN_MASK = mask 4" "LOCAL_ROW = mask 27"
  by (simp_all add: GEN_MASK_def LOCAL_ROW_def GEN_SHIFT_def mask_eq_exp_minus_1)

lemma local_id_parts:
  assumes "g AND GEN_MASK = g" "unat row < 2 ^ 27"
  shows "local_id g row AND LOCAL \<noteq> 0" "drop_bit GEN_SHIFT (local_id g row) AND GEN_MASK = g"
    "local_id g row AND LOCAL_ROW = row"
proof -
  have g: "n < 4" if "bit g n" for n
    using that assms(1) by (metis id_masks(1) bit_and_iff bit_mask_iff)
  have r: "n < 27" if "bit row n" for n
  proof -
    have "row = take_bit 27 row"
      using assms(2) by (intro word_unat_eq_iff [THEN iffD2]) (simp add: unsigned_take_bit_eq take_bit_nat_eq_self)
    with that show ?thesis by (metis bit_take_bit_iff)
  qed
  have "bit (local_id g row) 31" by (simp add: local_id_def bit_or_iff bit_LOCAL)
  then show "local_id g row AND LOCAL \<noteq> 0" by (simp only: is_global not_not)
  show "drop_bit GEN_SHIFT (local_id g row) AND GEN_MASK = g"
    by (rule bit_word_eqI)
      (auto simp: local_id_def id_masks bit_or_iff bit_LOCAL bit_simps GEN_SHIFT_def dest: g r)
  show "local_id g row AND LOCAL_ROW = row"
    by (rule bit_word_eqI)
      (auto simp: local_id_def id_masks bit_or_iff bit_LOCAL bit_simps GEN_SHIFT_def dest: g r)
qed

lemma local_id_of:
  "i AND LOCAL \<noteq> 0 \<Longrightarrow> i = local_id (drop_bit GEN_SHIFT i AND GEN_MASK) (i AND LOCAL_ROW)"
proof (rule bit_word_eqI)
  fix n assume "i AND LOCAL \<noteq> 0" "n < LENGTH(32)"
  then show "bit i n = bit (local_id (drop_bit GEN_SHIFT i AND GEN_MASK) (i AND LOCAL_ROW)) n"
    by (cases "n = 31") (auto simp: is_global local_id_def id_masks bit_or_iff bit_LOCAL bit_simps GEN_SHIFT_def)
qed

lemma local_row_small: "unat (i AND LOCAL_ROW) < 2 ^ 27" and row_in_pool: "unat row < 2 ^ 27 \<longleftrightarrow> row \<le> LOCAL_ROW"
proof -
  have "i AND LOCAL_ROW = take_bit 27 i" by (simp add: id_masks take_bit_eq_mask)
  then show "unat (i AND LOCAL_ROW) < 2 ^ 27" by (simp only: unsigned_take_bit_eq take_bit_nat_less_exp)
  have "unat LOCAL_ROW = 2 ^ 27 - 1" by (simp add: LOCAL_ROW_def GEN_SHIFT_def)
  then show "unat row < 2 ^ 27 \<longleftrightarrow> row \<le> LOCAL_ROW" by (auto simp: word_le_nat_alt)
qed

section \<open>Reading\<close>

text \<open>An item of the view is an item of one of the two pools' columns.\<close>

lemma view_item:
  assumes "pools_hold tv G L" "item_of tv G L i = Some c"
  obtains cs its k where "view_at tv i = Some (cs, k)" "cols_hold cs its" "k < length its" "its ! k = c"
proof (cases "i AND LOCAL = 0")
  case True
  with assms that [of "ip_cols (tv_global tv)" "unat i" G] show thesis
    by (auto simp: item_of_def view_at_def pools_hold_def pool_holds_def)
next
  case False
  with assms(2) obtain l where l: "tv_local tv = Some l" "drop_bit GEN_SHIFT i AND GEN_MASK = lp_generation l"
    "get_at L (unat (i AND LOCAL_ROW)) = Some c"
    by (auto simp: item_of_def split: option.splits if_splits)
  with assms(1) False that [of "lp_cols l" "unat (i AND LOCAL_ROW)" L] show thesis
    by (auto simp: view_at_def pools_hold_def local_holds_def)
qed

lemma cols_hold_record_of:
  assumes "cols_hold cs its" "k < length its" "ct_tag (its ! k) \<noteq> PtList"
  shows "record_of cs (ct_tag (its ! k)) (items (pc_data cs) ! k) = Some (ct_head (its ! k))"
proof (cases "has_record (ct_tag (its ! k))")
  case True
  with record_of_hold [OF assms(1,2) _ assms(3)] show ?thesis by simp
next
  case False
  with cols_hold_stored(2) [OF assms(1,2)] assms(3) show ?thesis by (simp add: record_of_def content_ok_def)
qed

lemma cols_hold_data:
  assumes "cols_hold cs its" "k < length its" "\<not> has_record (ct_tag (its ! k))"
  shows "items (pc_data cs) ! k = ct_data (its ! k)"
  using cols_hold_stored(1) [OF assms(1,2)] assms(3) by (auto simp: stored_def has_record_def split: if_splits)

lemma encode_data: "has_record (ct_tag (encode d)) \<Longrightarrow> decode_ty (ct_tag (encode d)) w x = decode_ty (ct_tag (encode d)) 0 x"
proof (cases d)
  case (TdTuple elems rest)
  moreover assume "has_record (ct_tag (encode d))"
  ultimately show ?thesis by (cases rest) (auto simp: decode_ty_def content_defs has_record_def)
next
  case (TdRef t m c)
  moreover assume "has_record (ct_tag (encode d))"
  ultimately show ?thesis by (cases m; cases c) (auto simp: decode_ty_def content_defs has_record_def)
qed (simp_all add: decode_ty_def content_defs has_record_def Let_def)

text \<open>Reading a type's index decodes to the type that was encoded, in its stored form.\<close>

lemma get_ty_item:
  assumes "pools_hold tv G L" "item_of tv G L t = Some (encode d)" "data_ok d"
  shows "get_ty tv t = Some (canon_data d)"
proof -
  obtain cs its k where k: "view_at tv t = Some (cs, k)" "cols_hold cs its" "k < length its" "its ! k = encode d"
    by (rule view_item [OF assms(1,2)])
  have tag: "ct_tag (its ! k) \<noteq> PtList" using encode_tag [of d] k(4) by (auto simp: is_type_tag_def)
  note S = cols_hold_stored [OF k(2,3)]
  have "decode_ty (ct_tag (encode d)) (items (pc_data cs) ! k) (ct_head (encode d)) = Some (canon_data d)"
  proof (cases "has_record (ct_tag (encode d))")
    case True
    have "decode_ty (ct_tag (encode d)) (items (pc_data cs) ! k) (ct_head (encode d)) =
        decode_ty (ct_tag (encode d)) (ct_data (encode d)) (ct_head (encode d))"
      by (subst (1 2) encode_data [OF True]) (rule refl)
    with decode_encode [OF assms(3)] show ?thesis by simp
  next
    case False
    with cols_hold_data [OF k(2,3)] k(4) decode_encode [OF assms(3)] show ?thesis by simp
  qed
  with k S(4,5) cols_hold_record_of [OF k(2,3) tag] show ?thesis by (simp add: get_ty_def)
qed

lemma list_items_item:
  assumes "pools_hold tv G L" "item_of tv G L l = Some (list_content xs)"
  shows "list_items tv l = Some xs"
proof -
  obtain cs its k where k: "view_at tv l = Some (cs, k)" "cols_hold cs its" "k < length its" "its ! k = list_content xs"
    by (rule view_item [OF assms])
  with list_at_hold [OF k(2,3)] show ?thesis by (simp add: list_items_def list_content_def)
qed

lemma word_pairs_params: "word_pairs (concat (map param_words ps)) = Some (map (\<lambda>p. (pr_owner p, ucast (pr_index p))) ps)"
  by (induction ps) (simp_all add: param_words_def)

lemma all_some_map: "(\<And>x. x \<in> set xs \<Longrightarrow> f x = Some (g x)) \<Longrightarrow> all_some (map f xs) = Some (map g xs)"
  by (induction xs) simp_all

lemma row_data_item:
  assumes "pools_hold tv G L" "item_of tv G L r = Some (row_content keys params)" "length keys < 2 ^ 32"
  shows "row_data tv r = Some (keys, params)"
proof -
  obtain cs its k where k: "view_at tv r = Some (cs, k)" "cols_hold cs its" "k < length its"
    "its ! k = row_content keys params"
    by (rule view_item [OF assms(1,2)])
  have w: "record_at cs k = Some (word_of_nat (length keys) # keys @ word_of_nat (length params) # concat (map param_words params))"
    using record_at_hold [OF k(2,3)] k(4) by (simp add: row_content_def has_record_def)
  have "all_some (map param_of (map (\<lambda>p. (pr_owner p, ucast (pr_index p))) params)) = Some params"
    using all_some_map [of params "\<lambda>p. param_of (pr_owner p, ucast (pr_index p))" "\<lambda>p. p"]
    by (simp add: param_of_words comp_def)
  with k(1) w unat_small [OF assms(3)] show ?thesis
    by (simp add: row_data_def get_at_def get_range_def word_pairs_params)
qed

section \<open>Interning\<close>

lemma get_at_append: "get_at (xs @ [x]) i = (if i = length xs then Some x else get_at xs i)"
  by (auto simp: get_at_def nth_append)

lemma item_at_got: "vec_inv v \<Longrightarrow> got (item_at v k) = get_at (items v) k"
  by (simp add: item_at_def get_item_items get_at_def)

lemma local_intern_holds:
  assumes "local_holds l L" "content_ok c" "local_intern l c m = Some (l', i)"
  obtains k where "k < length L" "L ! k = c" "l' = l" "i = local_id (lp_generation l) (word_of_nat k)"
  | "c \<notin> set L" "local_holds l' (L @ [c])" "lp_generation l' = lp_generation l"
      "items (pc_meta (lp_cols l')) = items (pc_meta (lp_cols l)) @ [m]"
      "i = local_id (lp_generation l) (word_of_nat (length L))"
proof -
  note H = assms(1) [unfolded local_holds_def]
  have idx: "ids.indexes (lp_index l) {..<length L} (\<lambda>i. hash32 (L ! i))" using H by blast
  have un: "unat (word_of_nat k :: u32) = k" if "k \<le> 2 ^ 27" for k using that by (intro unat_small) simp
  have eq: "matches_at c (lp_cols l) (unat (word_of_nat k :: u32)) = Some (L ! k = c)" if "k \<in> {..<length L}" for k
    using matches_at_hold [of "lp_cols l" L c k] H assms(2) that un [of k] by simp
  show thesis
  proof (rule ids.search_item [where hash = hash32 and key = "(!) L" and c = c and
        eq = "\<lambda>i. matches_at c (lp_cols l) (unat i)", OF idx])
    fix k assume k: "k \<in> {..<length L}" "L ! k = c"
      "find_id (lp_index l) (hash32 c) (\<lambda>i. matches_at c (lp_cols l) (unat i)) = Some (Some (word_of_nat k))"
    with assms(3) have "l' = l" "i = local_id (lp_generation l) (word_of_nat k)"
      by (auto simp: local_intern_def local_id_def split: if_splits)
    with k that(1) show thesis by auto
  next
    assume none: "\<And>k. k \<in> {..<length L} \<Longrightarrow> L ! k \<noteq> c"
      and f: "find_id (lp_index l) (hash32 c) (\<lambda>i. matches_at c (lp_cols l) (unat i)) = Some None"
    then obtain cs k idx' where cs: "cols_push (lp_cols l) c m = Some (cs, k)"
      and idx': "insert_id (lp_index l) (hash32 c) (word_of_nat k) = Some idx'"
      and l': "l' = l\<lparr>lp_cols := cs, lp_index := idx'\<rparr>" and row: "word_of_nat k \<le> LOCAL_ROW"
      and i: "i = local_id (lp_generation l) (word_of_nat k)"
      using assms(3) by (auto simp: local_intern_def local_id_def bind_eq_Some_conv split: if_splits)
    have hold: "cols_hold (lp_cols l) L" using H by blast
    note P = cols_push_hold [OF hold assms(2) cs]
    have c: "c \<notin> set L" using none by (auto simp: in_set_conv_nth)
    have small: "length L < 2 ^ 27"
      using row row_in_pool [of "word_of_nat k"] un [of k] P(1) H by simp
    have hash: "ids.indexes (lp_index l) {..<length L} (\<lambda>i. hash32 ((L @ [c]) ! i))"
      by (rule ids.indexes_cong [OF idx]) (simp add: nth_append)
    have "ids.indexes idx' (insert (length L) {..<length L}) (\<lambda>i. hash32 ((L @ [c]) ! i))"
      by (rule ids.add_item [OF hash, of "length L"]) (use small idx' P(1) in simp_all)
    moreover have "insert (length L) {..<length L} = {..<length (L @ [c])}" by auto
    ultimately have "local_holds l' (L @ [c])"
      using P(2) H c small by (simp add: local_holds_def l')
    with c P(1,4) i that(2) show thesis by (simp add: l')
  qed (rule eq)
qed

definition room :: "types_view \<Rightarrow> bool" where
  "room tv \<longleftrightarrow> av_len (pc_tag (ip_cols (tv_global tv))) \<le> 2 ^ 31"

lemma pools_hold_room: "pools_hold tv G L \<Longrightarrow> room tv"
  by (simp add: pools_hold_def pool_holds_def cols_hold_def room_def)

lemma meta_word_global:
  "pools_hold tv G L \<Longrightarrow> i AND LOCAL = 0 \<Longrightarrow> meta_word tv i = get_at (items (pc_meta (ip_cols (tv_global tv)))) (unat i)"
  by (simp add: meta_word_def view_at_def item_at_got pools_hold_def pool_holds_def cols_hold_def cols_inv_def)

lemma meta_word_local:
  "pools_hold tv G L \<Longrightarrow> i AND LOCAL \<noteq> 0 \<Longrightarrow> meta_word tv i =
    (case tv_local tv of
       None \<Rightarrow> None
     | Some l \<Rightarrow>
         if drop_bit GEN_SHIFT i AND GEN_MASK = lp_generation l
         then get_at (items (pc_meta (lp_cols l))) (unat (i AND LOCAL_ROW)) else None)"
  by (simp add: meta_word_def view_at_def item_at_got pools_hold_def local_holds_def cols_hold_def cols_inv_def
      split: option.splits)

text \<open>
  Interning finds the item, or adds one item and nothing else; the item is global exactly when its meta
  word has no inference flag.
\<close>

lemma intern_content_holds:
  assumes "pools_hold tv G L" "content_ok c" "intern_content tv c m = Some (tv', i)" "room tv'"
  obtains "item_of tv G L i = Some c" "pools_hold tv' G L" "item_of tv' G L = item_of tv G L"
      "meta_word tv' = meta_word tv" "i AND LOCAL = 0 \<longleftrightarrow> m AND HAS_INFER = 0"
  | G' L' where "item_of tv G L i = None" "pools_hold tv' G' L'" "item_of tv' G' L' = (item_of tv G L)(i := Some c)"
      "meta_word tv' = (meta_word tv)(i := Some m)" "i AND LOCAL = 0 \<longleftrightarrow> m AND HAS_INFER = 0"
proof (cases "m AND HAS_INFER = 0")
  case m: True
  with assms(3) obtain p rt where g: "intern_global (tv_global tv) (tv_cache tv) c m = Some (p, rt, i)"
    and tv': "tv' = tv\<lparr>tv_global := p, tv_cache := rt\<rparr>"
    by (auto simp: intern_content_def bind_eq_Some_conv)
  have P: "pool_holds (tv_global tv) G {}" "cache_ok (tv_global tv) (length G) (tv_cache tv)" "length G \<le> 2 ^ 31"
    using assms(1) by (simp_all add: pools_hold_def)
  show thesis
  proof (rule intern_global_holds [OF P(1,2) assms(2) g])
    assume c: "item_is G c i" "pool_holds p G {}" "cache_ok p (length G) rt" "ip_cols p = ip_cols (tv_global tv)"
    then have i: "i AND LOCAL = 0" using P(3) by (simp add: global_small item_is_def)
    show thesis
    proof (rule that(1))
      show "pools_hold tv' G L" using assms(1) c by (simp add: pools_hold_def tv')
      show "item_of tv G L i = Some c" using c(1) i by (simp add: item_of_def item_is_def)
      show "item_of tv' G L = item_of tv G L" by (simp add: item_of_def tv' fun_eq_iff)
      show "meta_word tv' = meta_word tv" using c(4) by (simp add: meta_word_def view_at_def tv' fun_eq_iff)
    qed (use i m in simp)
  next
    assume c: "c \<notin> set G" "item_is (G @ [c]) c i" "pool_holds p (G @ [c]) {}" "cache_ok p (length (G @ [c])) rt"
      "items (pc_meta (ip_cols p)) = items (pc_meta (ip_cols (tv_global tv))) @ [m]" "unat i = length G"
    have len: "length (G @ [c]) \<le> 2 ^ 31" using assms(4) c(3) by (simp add: room_def tv' pool_holds_def cols_hold_def)
    then have i: "i AND LOCAL = 0" using c(6) by (simp add: global_small)
    have hold: "pools_hold tv' (G @ [c]) L" using assms(1) c len by (simp add: pools_hold_def tv')
    show thesis
    proof (rule that(2) [OF _ hold])
      show "item_of tv G L i = None" using i c(6) by (simp add: item_of_def)
      show "item_of tv' (G @ [c]) L = (item_of tv G L)(i := Some c)"
      proof
        fix j
        have "j = i \<longleftrightarrow> unat j = length G" using c(6) by (metis word_unat_eq_iff)
        then show "item_of tv' (G @ [c]) L j = ((item_of tv G L)(i := Some c)) j"
          using i by (auto simp: item_of_def tv' get_at_append)
      qed
      show "meta_word tv' = (meta_word tv)(i := Some m)"
      proof
        fix j
        have "j = i \<longleftrightarrow> unat j = length G" using c(6) by (metis word_unat_eq_iff)
        moreover have "length (items (pc_meta (ip_cols (tv_global tv)))) = length G"
          using P(1) by (simp add: pool_holds_def cols_hold_def)
        moreover have "tv_local tv' = tv_local tv" "tv_global tv' = p" by (simp_all add: tv')
        ultimately show "meta_word tv' j = ((meta_word tv)(i := Some m)) j"
          using i meta_word_global [OF hold, of j] meta_word_global [OF assms(1), of j]
            meta_word_local [OF hold, of j] meta_word_local [OF assms(1), of j]
          by (cases "j AND LOCAL = 0") (auto simp: c(5) get_at_append)
      qed
    qed (use i m in simp)
  qed
next
  case m: False
  with assms(3) obtain l l' where l: "tv_local tv = Some l" "local_intern l c m = Some (l', i)"
    and tv': "tv' = tv\<lparr>tv_local := Some l'\<rparr>"
    by (auto simp: intern_content_def bind_eq_Some_conv)
  have P: "local_holds l L" using assms(1) l(1) by (simp add: pools_hold_def)
  then have gen: "lp_generation l AND GEN_MASK = lp_generation l" and small: "length L \<le> 2 ^ 27"
    by (simp_all add: local_holds_def)
  have id: "i AND LOCAL \<noteq> 0" "drop_bit GEN_SHIFT i AND GEN_MASK = lp_generation l" "unat (i AND LOCAL_ROW) = k"
    if "i = local_id (lp_generation l) (word_of_nat k)" "k < 2 ^ 27" for k
    using local_id_parts [OF gen, of "word_of_nat k"] that unat_small [of k] by simp_all
  show thesis
  proof (rule local_intern_holds [OF P assms(2) l(2)])
    fix k assume k: "k < length L" "L ! k = c" "l' = l" "i = local_id (lp_generation l) (word_of_nat k)"
    note I = id [OF k(4)]
    have "tv' = tv" using l(1) k(3) by (simp add: tv')
    show thesis
      by (rule that(1)) (use I k small l(1) m assms(1) \<open>tv' = tv\<close> in \<open>simp_all add: item_of_def\<close>)
  next
    assume c: "c \<notin> set L" "local_holds l' (L @ [c])" "lp_generation l' = lp_generation l"
      "items (pc_meta (lp_cols l')) = items (pc_meta (lp_cols l)) @ [m]"
      "i = local_id (lp_generation l) (word_of_nat (length L))"
    have "length L < 2 ^ 27" using c(2) by (simp add: local_holds_def)
    note I = id [OF c(5) this]
    have hold: "pools_hold tv' G (L @ [c])" using assms(1) c(2) by (simp add: pools_hold_def tv')
    have same: "j = i \<longleftrightarrow> unat (j AND LOCAL_ROW) = length L"
      if "j AND LOCAL \<noteq> 0" "drop_bit GEN_SHIFT j AND GEN_MASK = lp_generation l" for j
      using local_id_of [OF that(1)] local_id_of [OF I(1)] I(2,3) that(2) by (metis word_unat_eq_iff)
    show thesis
    proof (rule that(2) [OF _ hold])
      show "item_of tv G L i = None" using I l(1) by (simp add: item_of_def)
      show "item_of tv' G (L @ [c]) = (item_of tv G L)(i := Some c)"
      proof
        show "item_of tv' G (L @ [c]) j = ((item_of tv G L)(i := Some c)) j" for j
          using same [of j] I l(1) c(3) by (auto simp: item_of_def tv' get_at_append)
      qed
      show "meta_word tv' = (meta_word tv)(i := Some m)"
      proof
        fix j
        have "length (items (pc_meta (lp_cols l))) = length L" using P by (simp add: local_holds_def cols_hold_def)
        then show "meta_word tv' j = ((meta_word tv)(i := Some m)) j"
          using same [of j] I l(1) c(3) meta_word_global [OF hold, of j] meta_word_global [OF assms(1), of j]
            meta_word_local [OF hold, of j] meta_word_local [OF assms(1), of j]
          by (cases "j AND LOCAL = 0") (auto simp: c(4) tv' get_at_append)
      qed
    qed (use I m in simp)
  qed
qed

text \<open>
  The global pool does not check that an index is below \<open>2 ^ 31\<close>, as the local pool checks its rows: the
  item after \<open>2 ^ 31\<close> others gets an index whose top bit is set, which every view reads as a local one.
\<close>

lemma index_past_half_is_local:
  assumes "pool_holds p its {}" "cache_ok p (length its) rt" "content_ok c" "c \<notin> set its" "2 ^ 31 \<le> length its"
    "intern_global p rt c m = Some (p', rt', i)"
  shows "i AND LOCAL \<noteq> 0"
proof (rule intern_global_holds [OF assms(1-3,6)])
  assume "unat i = length its"
  with assms(5) show ?thesis unfolding global_small by simp
qed (use assms(4) in blast)

section \<open>The invariant of a view\<close>

primrec flags_from :: "(u32 \<Rightarrow> u32 option) \<Rightarrow> u32 \<Rightarrow> u32 list \<Rightarrow> u32 option" where
  "flags_from mt m [] = Some m"
| "flags_from mt m (x # xs) = (case mt x of None \<Rightarrow> None | Some w \<Rightarrow> flags_from mt (m OR w) xs)"

lemma metas_or_flags: "metas_or tv m xs = flags_from (meta_word tv) m xs"
  by (induction xs arbitrary: m) (auto split: option.splits)

lemma flags_from_Some:
  "flags_from mt m xs = Some w \<longleftrightarrow>
   (\<forall>x \<in> set xs. mt x \<noteq> None) \<and> w = fold (\<lambda>x m. m OR the (mt x)) xs m"
  by (induction xs arbitrary: m) (auto split: option.splits)

lemma fold_or_start: "fold (\<lambda>x m. m OR g x) xs (a OR b) = a OR fold (\<lambda>x m. m OR (g x :: u32)) xs b"
  by (induction xs arbitrary: b) (simp_all add: or.assoc)

lemma fold_or_mset:
  assumes "mset xs = mset ys"
  shows "fold (\<lambda>x m. m OR g x) xs m = fold (\<lambda>x m. m OR (g x :: u32)) ys m"
proof (rule fold_permuted_eq [where P = "\<lambda>_. True" and z = m])
  show "mset xs = mset ys" by (rule assms)
qed (simp_all add: ac_simps)

lemma flags_from_None: "flags_from mt m xs = None \<longleftrightarrow> (\<exists>x \<in> set xs. mt x = None)"
  by (induction xs arbitrary: m) (auto split: option.splits)

lemma flags_from_mset:
  assumes "mset xs = mset ys"
  shows "flags_from mt m xs = flags_from mt m ys"
proof (cases "flags_from mt m ys")
  case None
  then have "\<exists>x \<in> set ys. mt x = None" by (simp only: flags_from_None)
  then have "flags_from mt m xs = None" by (simp only: flags_from_None mset_eq_setD [OF assms])
  with None show ?thesis by (simp only:)
next
  case (Some w)
  then have "flags_from mt m xs = Some w"
    by (simp only: flags_from_Some mset_eq_setD [OF assms] fold_or_mset [OF assms]) blast
  with Some show ?thesis by (simp only:)
qed

lemma map_le_Some: "mt \<subseteq>\<^sub>m mt' \<Longrightarrow> mt x = Some w \<Longrightarrow> mt' x = Some w"
  by (metis domI map_le_def)

lemma flags_from_map_le:
  assumes "mt \<subseteq>\<^sub>m mt'" "flags_from mt m xs = Some w"
  shows "flags_from mt' m xs = Some w"
  using assms(2) by (induction xs arbitrary: m) (auto split: option.splits dest: map_le_Some [OF assms(1)])

text \<open>The contents interning makes, and the meta word each of them has.\<close>

definition row_flags :: "param_ref list \<Rightarrow> u32" where
  "row_flags params = (if params = [] then 0 else HAS_PARAM)"

inductive flags_of :: "(u32 \<Rightarrow> u32 option) \<Rightarrow> pcontent \<Rightarrow> u32 \<Rightarrow> bool" for mt where
  "flags_from mt 0 ids = Some w \<Longrightarrow> flags_of mt (list_content ids) w"
| "length keys < 2 ^ 32 \<Longrightarrow> length params < 2 ^ 32 \<Longrightarrow> flags_from mt (row_flags params) keys = Some w \<Longrightarrow>
   flags_of mt (row_content keys params) w"
| "length ins < 2 ^ 32 \<Longrightarrow> length outs < 2 ^ 32 \<Longrightarrow> flags_of mt (deps_content ins outs) 0"
| "data_ok d \<Longrightarrow> flags_from mt (own_flags d) (data_ids d) = Some w \<Longrightarrow> flags_of mt (encode d) w"

lemma flags_of_ok: "flags_of mt c w \<Longrightarrow> content_ok c"
  by (induction rule: flags_of.induct) (auto intro: other_contents_ok encode_ok)

lemma flags_of_map_le: "flags_of mt c w \<Longrightarrow> mt \<subseteq>\<^sub>m mt' \<Longrightarrow> flags_of mt' c w"
  by (induction rule: flags_of.induct) (auto intro: flags_of.intros flags_from_map_le)

lemma concat_params_inject: "concat (map param_words ps) = concat (map param_words qs) \<Longrightarrow> ps = qs"
  using word_pairs_params [of ps] word_pairs_params [of qs] param_of_words
  by (metis (no_types, lifting) all_some_map list.map_comp option.inject list.map_ident comp_apply)

lemma row_content_inject:
  assumes "row_content keys params = row_content keys' params'" "length keys < 2 ^ 32" "length keys' < 2 ^ 32"
  shows "keys = keys'" "params = params'"
proof -
  have w: "(word_of_nat (length keys) :: u32) = word_of_nat (length keys')"
    and r: "keys @ word_of_nat (length params) # concat (map param_words params) =
      keys' @ word_of_nat (length params') # concat (map param_words params')"
    using assms(1) by (simp_all add: row_content_def)
  have "length keys = length keys'" using w unat_small [OF assms(2)] unat_small [OF assms(3)] by metis
  with r show "keys = keys'" "params = params'" by (auto dest: concat_params_inject)
qed

lemma data_flags_canon:
  "flags_from mt (own_flags (canon_data d)) (data_ids (canon_data d)) = flags_from mt (own_flags d) (data_ids d)"
proof (cases d)
  case (TdTraitValue e args bindings)
  have "flags_from mt m (map snd (sort_key fst bindings)) = flags_from mt m (map snd bindings)" for m
    by (rule flags_from_mset) simp
  with TdTraitValue show ?thesis by (simp split: option.splits)
qed simp_all

text \<open>The meta word is a function of the contents.\<close>

lemma encode_not_other:
  "encode d \<noteq> list_content ids" "encode d \<noteq> row_content keys params" "encode d \<noteq> deps_content ins outs"
  using encode_tag [of d] by (auto simp: is_type_tag_def content_defs)

lemma flags_of_unique: "flags_of mt c v \<Longrightarrow> flags_of mt c w \<Longrightarrow> v = w"
proof (induction rule: flags_of.induct)
  case (1 ids v)
  from 1(2) 1(1) show ?case
    by cases (auto simp: content_defs encode_not_other [symmetric, unfolded content_defs])
next
  case (2 keys params v)
  from 2(4) show ?case
  proof cases
    case (2 keys' params')
    with row_content_inject [OF 2(1)] 2 \<open>length keys < 2 ^ 32\<close>
      \<open>flags_from mt (row_flags params) keys = Some v\<close> show ?thesis by auto
  qed (auto simp: content_defs encode_not_other [symmetric, unfolded content_defs])
next
  case (3 ins outs)
  from 3(3) show ?case
    by cases (auto simp: content_defs encode_not_other [symmetric, unfolded content_defs])
next
  case (4 d v)
  from 4(3) show ?case
  proof cases
    case (4 d')
    with encode_inject [of d d'] \<open>data_ok d\<close> have "canon_data d = canon_data d'" by simp
    with data_flags_canon [of mt d] data_flags_canon [of mt d'] 4
      \<open>flags_from mt (own_flags d) (data_ids d) = Some v\<close> show ?thesis by simp
  qed (use encode_not_other [of d] in auto)
qed

definition view_ok :: "types_view \<Rightarrow> (u32 \<Rightarrow> pcontent option) \<Rightarrow> bool" where
  "view_ok tv at \<longleftrightarrow>
     (\<exists>G L. pools_hold tv G L \<and> at = item_of tv G L) \<and>
     (\<forall>i c. at i = Some c \<longrightarrow>
        (\<exists>w. meta_word tv i = Some w \<and> flags_of (meta_word tv) c w \<and> (i AND LOCAL = 0 \<longleftrightarrow> w AND HAS_INFER = 0)))"

lemma item_meta:
  assumes "pools_hold tv G L"
  shows "item_of tv G L i = None \<longleftrightarrow> meta_word tv i = None"
proof (cases "i AND LOCAL = 0")
  case True
  with assms meta_word_global [OF assms True] show ?thesis
    by (simp add: item_of_def pools_hold_def pool_holds_def cols_hold_def)
next
  case False
  with assms meta_word_local [OF assms False] show ?thesis
    by (auto simp: item_of_def pools_hold_def local_holds_def cols_hold_def split: option.splits)
qed

lemma view_okD:
  assumes "view_ok tv at" "at i = Some c"
  shows "\<exists>w. meta_word tv i = Some w \<and> flags_of (meta_word tv) c w \<and> (i AND LOCAL = 0 \<longleftrightarrow> w AND HAS_INFER = 0)"
  using assms by (auto simp: view_ok_def)

lemma view_meta_item: "view_ok tv at \<Longrightarrow> at i = None \<longleftrightarrow> meta_word tv i = None"
  using item_meta by (auto simp: view_ok_def)

text \<open>One index per contents, over both pools.\<close>

lemma view_inject:
  assumes "view_ok tv at" "at i = Some c" "at j = Some c"
  shows "i = j"
proof -
  obtain G L where h: "pools_hold tv G L" "at = item_of tv G L" using assms(1) by (auto simp: view_ok_def)
  have side: "i AND LOCAL = 0 \<longleftrightarrow> j AND LOCAL = 0"
    using view_okD [OF assms(1,2)] view_okD [OF assms(1,3)] flags_of_unique by metis
  show ?thesis
  proof (cases "i AND LOCAL = 0")
    case True
    have "distinct G" using h(1) by (simp add: pools_hold_def pool_holds_def)
    with True side assms(2,3) h(2) have "unat i = unat j"
      by (auto simp: item_of_def nth_eq_iff_index_eq)
    then show ?thesis by (simp add: word_unat_eq_iff)
  next
    case False
    then obtain l where l: "tv_local tv = Some l" "drop_bit GEN_SHIFT i AND GEN_MASK = lp_generation l"
      "drop_bit GEN_SHIFT j AND GEN_MASK = lp_generation l"
      "get_at L (unat (i AND LOCAL_ROW)) = Some c" "get_at L (unat (j AND LOCAL_ROW)) = Some c"
      using side assms(2,3) h(2) by (auto simp: item_of_def split: option.splits if_splits)
    have "distinct L" using h(1) l(1) by (simp add: pools_hold_def local_holds_def)
    with l(4,5) have "i AND LOCAL_ROW = j AND LOCAL_ROW"
      by (auto simp: nth_eq_iff_index_eq word_unat_eq_iff)
    with local_id_of [of i] local_id_of [of j] l(2,3) False side show ?thesis by metis
  qed
qed

lemma view_intern:
  assumes "view_ok tv at" "flags_of (meta_word tv) c m" "intern_content tv c m = Some (tv', i)" "room tv'"
  obtains at' where "view_ok tv' at'" "at' i = Some c" "at \<subseteq>\<^sub>m at'" "meta_word tv \<subseteq>\<^sub>m meta_word tv'"
proof -
  obtain G L where h: "pools_hold tv G L" "at = item_of tv G L" using assms(1) by (auto simp: view_ok_def)
  show thesis
  proof (rule intern_content_holds [OF h(1) flags_of_ok [OF assms(2)] assms(3,4)])
    assume o: "item_of tv G L i = Some c" "pools_hold tv' G L" "item_of tv' G L = item_of tv G L"
      "meta_word tv' = meta_word tv"
    have "view_ok tv' at" unfolding view_ok_def
    proof
      show "\<exists>G L. pools_hold tv' G L \<and> at = item_of tv' G L" using h(2) o(2,3) by metis
      show "\<forall>i c. at i = Some c \<longrightarrow> (\<exists>w. meta_word tv' i = Some w \<and> flags_of (meta_word tv') c w \<and>
          (i AND LOCAL = 0 \<longleftrightarrow> w AND HAS_INFER = 0))"
        unfolding o(4) using view_okD [OF assms(1)] by blast
    qed
    with o h(2) that [of at] show thesis by simp
  next
    fix G' L'
    assume n: "item_of tv G L i = None" "pools_hold tv' G' L'" "item_of tv' G' L' = (item_of tv G L)(i := Some c)"
      "meta_word tv' = (meta_word tv)(i := Some m)" "i AND LOCAL = 0 \<longleftrightarrow> m AND HAS_INFER = 0"
    have mt: "meta_word tv \<subseteq>\<^sub>m meta_word tv'"
      using n(1,4) item_meta [OF h(1), of i] by (auto simp: map_le_def)
    have "\<exists>w. meta_word tv' j = Some w \<and> flags_of (meta_word tv') e w \<and> (j AND LOCAL = 0 \<longleftrightarrow> w AND HAS_INFER = 0)"
      if "(at(i := Some c)) j = Some e" for j e
    proof (cases "j = i")
      case True
      with that n(4,5) flags_of_map_le [OF assms(2) mt] show ?thesis by auto
    next
      case False
      with that have "at j = Some e" by simp
      from view_okD [OF assms(1) this] False show ?thesis
        using flags_of_map_le [OF _ mt] n(4) by auto
    qed
    moreover have "\<exists>G L. pools_hold tv' G L \<and> at(i := Some c) = item_of tv' G L"
      using n(2,3) h(2) by metis
    ultimately have "view_ok tv' (at(i := Some c))" unfolding view_ok_def by blast
    moreover have "at \<subseteq>\<^sub>m (at(i := Some c))" using n(1) h(2) by (simp add: map_le_def dom_def)
    ultimately show thesis using mt by (intro that) simp_all
  qed
qed

end
