(* ===== verification/PoolTrees.thy ===== *)
theory PoolTrees
  imports PoolViews
begin

text \<open>
  The indexes of the pools stand for the trees of \<open>TyTree\<close>. \<open>denotes at t \<tau>\<close> says that the item of index
  \<open>t\<close>, with the items it names, spells the type \<open>\<tau>\<close>. Interning a type whose parts denote trees gives an
  index of \<open>TyTree.intern_ty\<close> of the tree; an index denotes one tree and a tree has one index, so
  \<open>==\<close> on indexes is equality of trees; and the meta word stored with an index is \<open>meta_of\<close> of its tree.
\<close>

section \<open>What interning adds\<close>

lemma push_item_len: "push_item v x = Some (w, i) \<Longrightarrow> av_len w = av_len v + 1"
  by (auto simp: push_item_def split: option.splits)

lemma push_parts_tag: "push_parts cs c = Some (cs', d) \<Longrightarrow> pc_tag cs' = pc_tag cs"
  by (auto simp: push_parts_def bind_eq_Some_conv split: if_splits)

lemma cols_push_len: "cols_push cs c m = Some (cs', i) \<Longrightarrow> av_len (pc_tag cs) \<le> av_len (pc_tag cs')"
  by (auto simp: cols_push_def bind_eq_Some_conv dest!: push_item_len push_parts_tag)

lemma intern_global_len:
  "intern_global p rt c m = Some (p', rt', i) \<Longrightarrow> av_len (pc_tag (ip_cols p)) \<le> av_len (pc_tag (ip_cols p'))"
  by (auto simp: intern_global_def append_item_def index_item_def bind_eq_Some_conv dest!: cols_push_len
      split: if_splits option.splits prod.splits)

lemma intern_content_room: "intern_content tv c m = Some (tv', i) \<Longrightarrow> room tv' \<Longrightarrow> room tv"
  by (auto simp: intern_content_def room_def bind_eq_Some_conv dest!: intern_global_len split: if_splits)

lemma intern_plain_room: "intern_plain tv d = Some (tv', i) \<Longrightarrow> room tv' \<Longrightarrow> room tv"
  by (auto simp: intern_plain_def bind_eq_Some_conv dest: intern_content_room split: if_splits)

lemma plain_view:
  assumes "view_ok tv at" "data_ok d" "intern_plain tv d = Some (tv', i)" "room tv'"
  obtains at' where "view_ok tv' at'" "at' i = Some (encode d)" "at \<subseteq>\<^sub>m at'" "meta_word tv \<subseteq>\<^sub>m meta_word tv'"
proof -
  obtain m where m: "data_meta tv d = Some m" "intern_content tv (encode d) m = Some (tv', i)"
    using assms(3) by (auto simp: intern_plain_def bind_eq_Some_conv split: if_splits)
  have "flags_of (meta_word tv) (encode d) m"
    using m(1) assms(2) by (auto intro: flags_of.intros simp: data_meta_def metas_or_flags)
  from view_intern [OF assms(1) this m(2) assms(4)] that show thesis .
qed

lemma list_view:
  assumes "view_ok tv at" "intern_list tv ids = Some (tv', i)" "room tv'"
  obtains at' where "view_ok tv' at'" "at' i = Some (list_content ids)" "at \<subseteq>\<^sub>m at'" "meta_word tv \<subseteq>\<^sub>m meta_word tv'"
proof -
  obtain m where m: "metas_or tv 0 ids = Some m" "intern_content tv (list_content ids) m = Some (tv', i)"
    using assms(2) by (auto simp: intern_list_def bind_eq_Some_conv)
  have "flags_of (meta_word tv) (list_content ids) m"
    using m(1) by (auto intro: flags_of.intros simp: metas_or_flags)
  from view_intern [OF assms(1) this m(2) assms(3)] that show thesis .
qed

lemma row_view:
  assumes "view_ok tv at" "pool_row tv keys params = Some (tv', i)" "room tv'"
  obtains at' ks ps where "view_ok tv' at'" "flatten_keys tv keys ([], params) = Some (ks, ps)"
    "at' i = Some (row_content (remdups_adj (sort_key (\<lambda>t. t) ks)) (remdups_adj (sort_key param_key ps)))"
    "length (remdups_adj (sort_key (\<lambda>t. t) ks)) < 2 ^ 32" "length (remdups_adj (sort_key param_key ps)) < 2 ^ 32"
    "at \<subseteq>\<^sub>m at'" "meta_word tv \<subseteq>\<^sub>m meta_word tv'"
proof -
  obtain ks ps m where f: "flatten_keys tv keys ([], params) = Some (ks, ps)"
    and m: "metas_or tv 0 (remdups_adj (sort_key (\<lambda>t. t) ks)) = Some m"
    and len: "length (remdups_adj (sort_key (\<lambda>t. t) ks)) < 2 ^ 32" "length (remdups_adj (sort_key param_key ps)) < 2 ^ 32"
    and c: "intern_content tv (row_content (remdups_adj (sort_key (\<lambda>t. t) ks)) (remdups_adj (sort_key param_key ps)))
        (if remdups_adj (sort_key param_key ps) = [] then m else m OR HAS_PARAM) = Some (tv', i)"
    using assms(2) by (auto simp: pool_row_def bind_eq_Some_conv Let_def split: prod.splits)
  let ?m = "if remdups_adj (sort_key param_key ps) = [] then m else m OR HAS_PARAM"
  have "flags_from (meta_word tv) (row_flags (remdups_adj (sort_key param_key ps))) (remdups_adj (sort_key (\<lambda>t. t) ks)) = Some ?m"
    using m fold_or_start [of "\<lambda>x. the (meta_word tv x)" "remdups_adj (sort_key (\<lambda>t. t) ks)" HAS_PARAM 0]
    by (auto simp: metas_or_flags flags_from_Some row_flags_def or.commute)
  then have "flags_of (meta_word tv) (row_content (remdups_adj (sort_key (\<lambda>t. t) ks)) (remdups_adj (sort_key param_key ps))) ?m"
    by (rule flags_of.intros(2) [OF len])
  from view_intern [OF assms(1) this c assms(3)] that f len show thesis by metis
qed

lemma number_ins_length: "length (snd (number_ins outs k ls seen)) = length ls"
  by (induction ls arbitrary: k seen) (simp_all add: Let_def split: prod.splits, metis snd_conv)

lemma deps_view:
  assumes "view_ok tv at" "pool_fn_deps tv ins outs = Some (tv', i)" "room tv'" "outs \<noteq> []"
  obtains at' seen ws where "view_ok tv' at'" "number_ins outs 0 ins [] = (seen, ws)"
    "at' i = Some (deps_content ws (map (number_out seen) outs))"
    "at \<subseteq>\<^sub>m at'" "meta_word tv \<subseteq>\<^sub>m meta_word tv'"
proof -
  obtain seen ws where n: "number_ins outs 0 ins [] = (seen, ws)" by force
  with assms(2,4) have len: "length ins < 2 ^ 32" "length outs < 2 ^ 32"
    and c: "intern_content tv (deps_content ws (map (number_out seen) outs)) 0 = Some (tv', i)"
    by (auto simp: pool_fn_deps_def bind_eq_Some_conv Let_def)
  have "length ws = length ins" using number_ins_length [of outs 0 ins "[]"] n by simp
  with len have "flags_of (meta_word tv) (deps_content ws (map (number_out seen) outs)) 0"
    by (intro flags_of.intros(3)) simp_all
  from view_intern [OF assms(1) this c assms(3)] that n show thesis by metis
qed

section \<open>The tree of an index\<close>

definition deps_denote :: "(u32 \<Rightarrow> pcontent option) \<Rightarrow> u32 \<Rightarrow> fn_deps \<Rightarrow> bool" where
  "deps_denote at d deps \<longleftrightarrow>
     (case deps of
        None \<Rightarrow> d = DEPS_NONE
      | Some (ins, outs) \<Rightarrow>
          d \<noteq> DEPS_NONE \<and> at d = Some (deps_content ins outs) \<and> length ins < 2 ^ 32 \<and> length outs < 2 ^ 32)"

inductive denotes :: "(u32 \<Rightarrow> pcontent option) \<Rightarrow> u32 \<Rightarrow> ty \<Rightarrow> bool"
  and shape :: "(u32 \<Rightarrow> pcontent option) \<Rightarrow> ty_data \<Rightarrow> ty \<Rightarrow> bool"
  and row_denotes :: "(u32 \<Rightarrow> pcontent option) \<Rightarrow> u32 \<Rightarrow> row \<Rightarrow> bool"
  for at where
  denotes_item: "at t = Some (encode d) \<Longrightarrow> data_ok d \<Longrightarrow> canon_data d = d \<Longrightarrow> shape at d \<tau> \<Longrightarrow> denotes at t \<tau>"
| shape_prim: "shape at (TdPrim p) (Prim p)"
| shape_never: "shape at TdNever Never"
| shape_poison: "shape at TdPoison Poison"
| shape_adt: "at l = Some (list_content ids) \<Longrightarrow> list_all2 (denotes at) ids args \<Longrightarrow> shape at (TdAdt d l) (Adt d args)"
| shape_tuple: "at l = Some (list_content ids) \<Longrightarrow> list_all2 (denotes at) ids elems \<Longrightarrow>
    shape at (TdTuple l None) (Tuple elems None)"
| shape_tuple_rest: "at l = Some (list_content ids) \<Longrightarrow> list_all2 (denotes at) ids elems \<Longrightarrow> denotes at r \<rho> \<Longrightarrow>
    shape at (TdTuple l (Some r)) (Tuple elems (Some \<rho>))"
| shape_union: "at l = Some (list_content ids) \<Longrightarrow> list_all2 (denotes at) ids ms \<Longrightarrow> shape at (TdUnion l) (Union ms)"
| shape_option: "denotes at t \<tau> \<Longrightarrow> shape at (TdOption t) (OptionTy \<tau>)"
| shape_fn: "at l = Some (list_content ids) \<Longrightarrow> list_all2 (denotes at) ids params \<Longrightarrow> denotes at res \<rho> \<Longrightarrow>
    row_denotes at r row \<Longrightarrow> deps_denote at dp deps \<Longrightarrow>
    shape at (TdFn l res r suspends ins dp) (Fn params \<rho> row suspends ins deps)"
| shape_trait_value: "at l = Some (list_content ids) \<Longrightarrow> list_all2 (denotes at) ids args \<Longrightarrow>
    list_all2 (\<lambda>b c. fst b = fst c \<and> denotes at (snd b) (snd c)) bs bindings \<Longrightarrow>
    shape at (TdTraitValue d l bs) (TraitValue d args bindings)"
| shape_opaque: "at l = Some (list_content ids) \<Longrightarrow> list_all2 (denotes at) ids args \<Longrightarrow> denotes at b \<beta> \<Longrightarrow>
    shape at (TdOpaque ow site borrows l b) (Opaque ow site borrows args \<beta>)"
| shape_param: "shape at (TdParam p) (Param p)"
| shape_const: "shape at (TdConst v) (Const v)"
| shape_assoc: "denotes at s \<sigma> \<Longrightarrow> at l = Some (list_content ids) \<Longrightarrow> list_all2 (denotes at) ids args \<Longrightarrow>
    shape at (TdAssoc a tr s l) (Assoc a tr \<sigma> args)"
| shape_mut: "denotes at t \<tau> \<Longrightarrow> shape at (TdMut t) (Mut \<tau>)"
| shape_ref: "denotes at t \<tau> \<Longrightarrow> shape at (TdRef t m c) (RefTy \<tau> m c)"
| shape_infer: "shape at (TdInfer v) (Infer (unat v))"
| shape_canon: "shape at (TdCanon i) (Canon i)"
| shape_row: "row_denotes at r row \<Longrightarrow> shape at (TdRow r) (RowTy row)"
| shape_context: "row_denotes at r row \<Longrightarrow> shape at (TdContext r) (Context row)"
| denotes_row: "at r = Some (row_content keys params) \<Longrightarrow> length keys < 2 ^ 32 \<Longrightarrow> length params < 2 ^ 32 \<Longrightarrow>
    list_all2 (denotes at) keys ks \<Longrightarrow> row_denotes at r (Row ks params)"

inductive_cases denotes_itemE: "denotes at t \<tau>"
inductive_cases row_denotesE: "row_denotes at r row"

inductive_simps shape_simps:
  "shape at (TdPrim p) \<tau>" "shape at TdNever \<tau>" "shape at TdPoison \<tau>" "shape at (TdAdt d l) \<tau>"
  "shape at (TdTuple l None) \<tau>" "shape at (TdTuple l (Some r)) \<tau>" "shape at (TdUnion l) \<tau>" "shape at (TdOption t) \<tau>"
  "shape at (TdFn l res r s i dp) \<tau>" "shape at (TdTraitValue d l bs) \<tau>" "shape at (TdOpaque ow st b l t) \<tau>"
  "shape at (TdParam q) \<tau>" "shape at (TdConst v) \<tau>" "shape at (TdAssoc a tr t l) \<tau>" "shape at (TdMut t) \<tau>"
  "shape at (TdRef t m c) \<tau>" "shape at (TdInfer n) \<tau>" "shape at (TdCanon k) \<tau>" "shape at (TdRow r) \<tau>"
  "shape at (TdContext r) \<tau>"

inductive_simps tree_simps:
  "shape at d (Prim p)" "shape at d Never" "shape at d Poison" "shape at d (Adt n args)"
  "shape at d (Tuple elems None)" "shape at d (Tuple elems (Some \<rho>))" "shape at d (Union ms)" "shape at d (OptionTy \<sigma>)"
  "shape at d (Fn ps \<rho> row s i deps)" "shape at d (TraitValue n args bindings)" "shape at d (Opaque ow st b args \<beta>)"
  "shape at d (Param q)" "shape at d (Const v)" "shape at d (Assoc a tr \<sigma> args)" "shape at d (Mut \<sigma>)"
  "shape at d (RefTy \<sigma> m c)" "shape at d (Infer n)" "shape at d (Canon k)" "shape at d (RowTy row)"
  "shape at d (Context row)"

text \<open>Items that are added change no tree.\<close>

lemma denotes_later:
  assumes "at \<subseteq>\<^sub>m at'"
  shows "denotes at t \<tau> \<Longrightarrow> denotes at' t \<tau>" and "shape at d \<tau> \<Longrightarrow> shape at' d \<tau>"
    and "row_denotes at r row \<Longrightarrow> row_denotes at' r row"
proof (induction rule: denotes_shape_row_denotes.inducts)
  case (shape_fn l ids params res \<rho> r row dp deps suspends ins)
  have "deps_denote at' dp deps"
    using shape_fn map_le_Some [OF assms] by (auto simp: deps_denote_def split: option.splits prod.splits)
  with shape_fn map_le_Some [OF assms] show ?case
    by (intro denotes_shape_row_denotes.shape_fn) (auto elim: list_all2_mono)
next
  case (shape_trait_value l ids args bs bindings d)
  then show ?case using map_le_Some [OF assms]
    by (intro denotes_shape_row_denotes.shape_trait_value) (auto elim: list_all2_mono)
qed (use map_le_Some [OF assms] in
    \<open>auto intro!: denotes_shape_row_denotes.intros elim!: list_all2_mono\<close>)

section \<open>One tree per index, one index per tree\<close>

lemma list_all2_functional:
  "list_all2 (\<lambda>x y. P x y \<and> (\<forall>z. P x z \<longrightarrow> y = z)) xs ys \<Longrightarrow> list_all2 P xs zs \<Longrightarrow> ys = zs"
  by (induction arbitrary: zs rule: list_all2_induct) (auto simp: list_all2_Cons1)

lemma list_all2_injective:
  "list_all2 (\<lambda>x y. P x y \<and> (\<forall>z. P z y \<longrightarrow> x = z)) xs ys \<Longrightarrow> list_all2 P zs ys \<Longrightarrow> xs = zs"
  by (induction arbitrary: zs rule: list_all2_induct) (auto simp: list_all2_Cons2)

lemma list_content_eq [simp]: "list_content xs = list_content ys \<longleftrightarrow> xs = ys"
  by (simp add: list_content_def)

lemma encode_canonical: "encode d = encode e \<Longrightarrow> data_ok d \<Longrightarrow> data_ok e \<Longrightarrow> canon_data d = d \<Longrightarrow> canon_data e = e \<Longrightarrow> d = e"
  using encode_inject [of d e] by simp

lemma deps_content_inject:
  "deps_content ins outs = deps_content ins' outs' \<Longrightarrow> length ins < 2 ^ 32 \<Longrightarrow> length ins' < 2 ^ 32 \<Longrightarrow>
   ins = ins' \<and> outs = outs'"
proof -
  assume c: "deps_content ins outs = deps_content ins' outs'" and "length ins < 2 ^ 32" "length ins' < 2 ^ 32"
  then have "unat (word_of_nat (length ins) :: u32) = unat (word_of_nat (length ins') :: u32)"
    "length ins < 2 ^ 32" "length ins' < 2 ^ 32"
    by (simp_all add: deps_content_def)
  then have "length ins = length ins'" by (simp only: unat_small)
  with c show ?thesis by (simp add: deps_content_def)
qed

lemma deps_denote_unique:
  "deps_denote at d deps \<Longrightarrow> deps_denote at d deps' \<Longrightarrow> deps = deps'"
  by (auto simp: deps_denote_def split: option.splits prod.splits dest: deps_content_inject)

text \<open>The rule for the bindings of a trait value.\<close>

abbreviation same_binding :: "(u32 \<Rightarrow> pcontent option) \<Rightarrow> u32 \<times> u32 \<Rightarrow> u32 \<times> ty \<Rightarrow> bool" where
  "same_binding at b c \<equiv> fst b = fst c \<and> denotes at (snd b) (snd c)"

lemma bindings_functional:
  "list_all2 (\<lambda>b c. fst b = fst c \<and> denotes at (snd b) (snd c) \<and> (\<forall>\<tau>. denotes at (snd b) \<tau> \<longrightarrow> snd c = \<tau>)) bs cs \<Longrightarrow>
   list_all2 (same_binding at) bs ds \<Longrightarrow> cs = ds"
  by (induction arbitrary: ds rule: list_all2_induct) (auto simp: list_all2_Cons1)

lemma bindings_injective:
  "list_all2 (\<lambda>b c. fst b = fst c \<and> denotes at (snd b) (snd c) \<and> (\<forall>t. denotes at t (snd c) \<longrightarrow> snd b = t)) bs cs \<Longrightarrow>
   list_all2 (same_binding at) ds cs \<Longrightarrow> bs = ds"
  by (induction arbitrary: ds rule: list_all2_induct) (auto simp: list_all2_Cons2)

lemma list_tree:
  "at l = Some (list_content ids) \<Longrightarrow> list_all2 (\<lambda>x y. denotes at x y \<and> (\<forall>\<upsilon>. denotes at x \<upsilon> \<longrightarrow> y = \<upsilon>)) ids args \<Longrightarrow>
   at l = Some (list_content ids') \<Longrightarrow> list_all2 (denotes at) ids' args' \<Longrightarrow> args = args'"
  using list_all2_functional [of "denotes at" ids args args'] by simp

lemma denotes_unique:
  shows "denotes at t \<tau> \<Longrightarrow> \<forall>\<upsilon>. denotes at t \<upsilon> \<longrightarrow> \<tau> = \<upsilon>" and "shape at d \<tau> \<Longrightarrow> \<forall>\<upsilon>. shape at d \<upsilon> \<longrightarrow> \<tau> = \<upsilon>"
    and "row_denotes at r row \<Longrightarrow> \<forall>\<rho>. row_denotes at r \<rho> \<longrightarrow> row = \<rho>"
proof (induction rule: denotes_shape_row_denotes.inducts)
  case (denotes_item t d \<tau>)
  show ?case
  proof (intro allI impI)
    fix \<upsilon> assume "denotes at t \<upsilon>"
    then obtain e where "at t = Some (encode e)" "data_ok e" "canon_data e = e" "shape at e \<upsilon>"
      by (rule denotes_itemE)
    moreover from this have "d = e"
      using \<open>at t = Some (encode d)\<close> \<open>data_ok d\<close> \<open>canon_data d = d\<close> by (metis encode_canonical option.inject)
    ultimately show "\<tau> = \<upsilon>" using \<open>\<forall>\<upsilon>. shape at d \<upsilon> \<longrightarrow> \<tau> = \<upsilon>\<close> by blast
  qed
next
  case (shape_trait_value l ids args bs bindings d)
  then show ?case
    by (auto simp: shape_simps dest: list_all2_functional bindings_functional)
next
  case (shape_fn l ids params res \<rho> r row dp deps suspends ins)
  show ?case
  proof (intro allI impI)
    fix \<upsilon> assume "shape at (TdFn l res r suspends ins dp) \<upsilon>"
    then obtain ids' params' \<rho>' row' deps' where u: "\<upsilon> = Fn params' \<rho>' row' suspends ins deps'"
      and p: "at l = Some (list_content ids')" "list_all2 (denotes at) ids' params'" "denotes at res \<rho>'"
        "row_denotes at r row'" "deps_denote at dp deps'"
      by (simp only: shape_simps) blast
    have "ids' = ids" using p(1) \<open>at l = Some (list_content ids)\<close> by simp
    with p(2) have "params = params'" by (intro list_all2_functional [OF shape_fn(2)]) simp
    moreover have "\<rho> = \<rho>'" "row = row'" using p(3,4) shape_fn by blast+
    moreover have "deps = deps'" using \<open>deps_denote at dp deps\<close> p(5) by (rule deps_denote_unique)
    ultimately show "Fn params \<rho> row suspends ins deps = \<upsilon>" by (simp only: u)
  qed
next
  case (denotes_row r keys params ks)
  show ?case
  proof (intro allI impI)
    fix \<rho> assume "row_denotes at r \<rho>"
    then obtain keys' params' ks' where k: "\<rho> = Row ks' params'" "at r = Some (row_content keys' params')"
      "length keys' < 4294967296" "list_all2 (denotes at) keys' ks'"
      by (rule row_denotesE) (rule that)
    have "row_content keys params = row_content keys' params'"
      using k(2) \<open>at r = Some (row_content keys params)\<close> by simp
    from row_content_inject [OF this \<open>length keys < 2 ^ 32\<close>] k(3) have "keys = keys'" "params = params'" by simp_all
    with list_all2_functional [OF denotes_row(2)] k show "Row ks params = \<rho>" by blast
  qed
next
  case (shape_tuple_rest l ids elems r \<rho>)
  show ?case
  proof (intro allI impI)
    fix \<upsilon> assume "shape at (TdTuple l (Some r)) \<upsilon>"
    then obtain ids' elems' \<rho>' where u: "\<upsilon> = Tuple elems' (Some \<rho>')"
      and p: "at l = Some (list_content ids')" "list_all2 (denotes at) ids' elems'" "denotes at r \<rho>'"
      by (simp only: shape_simps) blast
    have "ids' = ids" using p(1) \<open>at l = Some (list_content ids)\<close> by simp
    with p(2) have "elems = elems'" by (intro list_all2_functional [OF shape_tuple_rest(2)]) simp
    moreover have "\<rho> = \<rho>'" using p(3) shape_tuple_rest by blast
    ultimately show "Tuple elems (Some \<rho>) = \<upsilon>" by (simp only: u)
  qed
qed (simp (no_asm) only: shape_simps, blast dest: list_tree)+

definition one_index :: "(u32 \<Rightarrow> pcontent option) \<Rightarrow> bool" where
  "one_index at \<longleftrightarrow> (\<forall>i j c. at i = Some c \<longrightarrow> at j = Some c \<longrightarrow> i = j)"

lemma view_one_index: "view_ok tv at \<Longrightarrow> one_index at"
  using view_inject unfolding one_index_def by blast

lemma deps_denote_index:
  "one_index at \<Longrightarrow> deps_denote at d deps \<Longrightarrow> deps_denote at d' deps \<Longrightarrow> d = d'"
  unfolding one_index_def deps_denote_def by (auto split: option.splits prod.splits)

lemma list_index:
  "one_index at \<Longrightarrow> at l = Some (list_content ids) \<Longrightarrow>
   list_all2 (\<lambda>x y. denotes at x y \<and> (\<forall>u. denotes at u y \<longrightarrow> x = u)) ids args \<Longrightarrow>
   at l' = Some (list_content ids') \<Longrightarrow> list_all2 (denotes at) ids' args \<Longrightarrow> l = l'"
  using list_all2_injective [of "denotes at" ids args ids'] unfolding one_index_def by blast

lemma denotes_index:
  assumes "one_index at"
  shows "denotes at t \<tau> \<Longrightarrow> \<forall>u. denotes at u \<tau> \<longrightarrow> t = u" and "shape at d \<tau> \<Longrightarrow> \<forall>e. shape at e \<tau> \<longrightarrow> d = e"
    and "row_denotes at r row \<Longrightarrow> \<forall>s. row_denotes at s row \<longrightarrow> r = s"
proof (induction rule: denotes_shape_row_denotes.inducts)
  case (denotes_item t d \<tau>)
  show ?case
  proof (intro allI impI)
    fix u assume "denotes at u \<tau>"
    then obtain e where e: "at u = Some (encode e)" "shape at e \<tau>" by (rule denotes_itemE)
    then have "d = e" using \<open>\<forall>e. shape at e \<tau> \<longrightarrow> d = e\<close> by blast
    with e(1) \<open>at t = Some (encode d)\<close> assms show "t = u" unfolding one_index_def by blast
  qed
next
  case (shape_trait_value l ids args bs bindings d)
  then show ?case by (auto simp: tree_simps dest: list_index [OF assms] bindings_injective)
next
  note I = assms [unfolded one_index_def, rule_format]
  case (shape_fn l ids params res \<rho> r row dp deps suspends ins)
  show ?case
  proof (intro allI impI)
    fix e assume "shape at e (Fn params \<rho> row suspends ins deps)"
    then obtain ids' l' res' r' dp' where e: "e = TdFn l' res' r' suspends ins dp'"
      and p: "at l' = Some (list_content ids')" "list_all2 (denotes at) ids' params" "denotes at res' \<rho>"
        "row_denotes at r' row" "deps_denote at dp' deps"
      by (simp only: tree_simps) blast
    have "ids = ids'" by (rule list_all2_injective [OF shape_fn(2) p(2)])
    with p(1) \<open>at l = Some (list_content ids)\<close> have "l = l'" by (intro I) simp_all
    moreover have "res = res'" "r = r'" using p(3,4) shape_fn by blast+
    moreover have "dp = dp'" using \<open>deps_denote at dp deps\<close> p(5) by (rule deps_denote_index [OF assms])
    ultimately show "TdFn l res r suspends ins dp = e" by (simp only: e)
  qed
next
  case (denotes_row r keys params ks)
  show ?case
  proof (intro allI impI)
    fix s assume "row_denotes at s (Row ks params)"
    then obtain keys' where k: "at s = Some (row_content keys' params)" "list_all2 (denotes at) keys' ks"
      by (auto elim: row_denotesE)
    have "keys = keys'" by (rule list_all2_injective [OF denotes_row(2) k(2)])
    with k(1) \<open>at r = Some (row_content keys params)\<close> assms show "r = s" unfolding one_index_def by blast
  qed
next
  case (shape_tuple_rest l ids elems r \<rho>)
  show ?case
  proof (intro allI impI)
    fix e assume "shape at e (Tuple elems (Some \<rho>))"
    then obtain ids' l' r' where e: "e = TdTuple l' (Some r')"
      and p: "at l' = Some (list_content ids')" "list_all2 (denotes at) ids' elems" "denotes at r' \<rho>"
      by (simp only: tree_simps) blast
    have "l = l'" by (rule list_index [OF assms shape_tuple_rest(1,2) p(1,2)])
    moreover have "r = r'" using p(3) shape_tuple_rest by blast
    ultimately show "TdTuple l (Some r) = e" by (simp only: e)
  qed
next
  case (shape_infer v)
  then show ?case by (auto simp: tree_simps word_unat_eq_iff)
qed (simp (no_asm) only: tree_simps, blast dest: list_index [OF assms])+

section \<open>The stored meta word\<close>

lemma flags_of_parts:
  "flags_of mt (list_content ids) w \<Longrightarrow> flags_from mt 0 ids = Some w"
  "data_ok d \<Longrightarrow> flags_of mt (encode d) w \<Longrightarrow> flags_from mt (own_flags d) (data_ids d) = Some w"
  "length keys < 2 ^ 32 \<Longrightarrow> flags_of mt (row_content keys params) w \<Longrightarrow>
   flags_from mt (row_flags params) keys = Some w"
proof -
  show "flags_of mt (list_content ids) w \<Longrightarrow> flags_from mt 0 ids = Some w"
    by (erule flags_of.cases)
      (use encode_not_other in \<open>auto simp: content_defs intro: sym\<close>)
  show "data_ok d \<Longrightarrow> flags_of mt (encode d) w \<Longrightarrow> flags_from mt (own_flags d) (data_ids d) = Some w"
  proof (erule flags_of.cases)
    fix e v assume "data_ok d" "encode d = encode e" "w = v" "data_ok e"
      "flags_from mt (own_flags e) (data_ids e) = Some v"
    with encode_inject [of d e] data_flags_canon [of mt d] data_flags_canon [of mt e] show ?thesis by simp
  qed (use encode_not_other in auto)
  show "length keys < 2 ^ 32 \<Longrightarrow> flags_of mt (row_content keys params) w \<Longrightarrow>
      flags_from mt (row_flags params) keys = Some w"
  proof (erule flags_of.cases)
    fix keys' params' v assume "length keys < 2 ^ 32" "row_content keys params = row_content keys' params'"
      "length keys' < 2 ^ 32" "flags_from mt (row_flags params') keys' = Some v" "w = v"
    with row_content_inject [of keys params keys' params'] show ?thesis by simp
  qed (simp_all add: encode_not_other [symmetric], simp_all add: content_defs)
qed

lemma flags_from_trees:
  "list_all2 (\<lambda>x \<tau>. denotes at x \<tau> \<and> mt x = Some (meta_of \<tau>)) ids args \<Longrightarrow>
   flags_from mt m ids = Some (fold (\<lambda>x m. m OR meta_of x) args m)"
  by (induction arbitrary: m rule: list_all2_induct) simp_all

lemma denotes_meta:
  assumes "view_ok tv at"
  shows "denotes at t \<tau> \<Longrightarrow> meta_word tv t = Some (meta_of \<tau>)"
    and "shape at d \<tau> \<Longrightarrow> flags_from (meta_word tv) (own_flags d) (data_ids d) = Some (meta_of \<tau>)"
    and "row_denotes at r row \<Longrightarrow> meta_word tv r = Some (row_meta row)"
proof (induction rule: denotes_shape_row_denotes.inducts)
  have list: "meta_word tv l = Some (fold (\<lambda>x m. m OR meta_of x) args 0)"
    if "at l = Some (list_content ids)" "list_all2 (\<lambda>x \<tau>. denotes at x \<tau> \<and> meta_word tv x = Some (meta_of \<tau>)) ids args"
    for l ids args
    using view_okD [OF assms that(1)] flags_of_parts(1) flags_from_trees [OF that(2), of 0] by fastforce
  {
    case (denotes_item t d \<tau>)
    obtain w where "meta_word tv t = Some w" "flags_of (meta_word tv) (encode d) w"
      using view_okD [OF assms \<open>at t = Some (encode d)\<close>] by blast
    with flags_of_parts(2) [OF \<open>data_ok d\<close>] denotes_item show ?case by simp
  next
    case (shape_trait_value l ids args bs bindings d)
    have "flags_from (meta_word tv) m (map snd bs) = Some (fold (\<lambda>b m. m OR meta_of (snd b)) bindings m)" for m
      using shape_trait_value(3) by (induction arbitrary: m rule: list_all2_induct) simp_all
    with list [OF shape_trait_value(1,2)] show ?case by simp
  next
    case (denotes_row r keys params ks)
    obtain w where "meta_word tv r = Some w" "flags_of (meta_word tv) (row_content keys params) w"
      using view_okD [OF assms \<open>at r = Some (row_content keys params)\<close>] by blast
    moreover from this have "flags_from (meta_word tv) (row_flags params) keys = Some w"
      using flags_of_parts(3) [OF \<open>length keys < 2 ^ 32\<close>] by blast
    moreover have "fold (\<lambda>x m. m OR meta_of x) ks (row_flags params OR 0) = row_flags params OR fold (\<lambda>x m. m OR meta_of x) ks 0"
      by (rule fold_or_start)
    ultimately show ?case
      using flags_from_trees [OF denotes_row(2), of "row_flags params"] by (simp add: row_flags_def or.commute)
  next
    case (shape_tuple_rest l ids elems r \<rho>)
    with list [OF shape_tuple_rest(1,2)] show ?case by simp
  next
    case (shape_adt l ids args d)
    with list [OF shape_adt(1,2)] show ?case by simp
  next
    case (shape_tuple l ids elems)
    with list [OF shape_tuple(1,2)] show ?case by simp
  next
    case (shape_union l ids ms)
    with list [OF shape_union(1,2)] show ?case by simp
  next
    case (shape_fn l ids params res \<rho> r row dp deps suspends ins)
    with list [OF shape_fn(1,2)] show ?case by (simp add: or.assoc)
  next
    case (shape_opaque l ids args b \<beta> ow site borrows)
    with list [OF shape_opaque(1,2)] show ?case by (simp add: or.assoc)
  next
    case (shape_assoc s \<sigma> l ids args a tr)
    with list show ?case by (simp add: or.assoc)
  }
qed (auto simp: HAS_POISON_def HAS_PARAM_def HAS_INFER_def)

section \<open>Interning a tree\<close>

lemma list_all2_insort_key:
  "list_all2 (\<lambda>x y. R x y \<and> f x = g y) xs ys \<Longrightarrow> R x y \<Longrightarrow> f x = g y \<Longrightarrow>
   list_all2 (\<lambda>x y. R x y \<and> f x = g y) (insort_key f x xs) (insort_key g y ys)"
  by (induction rule: list_all2_induct) simp_all

lemma list_all2_sort_key:
  "list_all2 (\<lambda>x y. R x y \<and> f x = g y) xs ys \<Longrightarrow>
   list_all2 (\<lambda>x y. R x y \<and> f x = g y) (sort_key f xs) (sort_key g ys)"
  by (induction rule: list_all2_induct) (simp_all add: list_all2_insort_key)

lemma shape_canon_data:
  "shape at d \<tau> \<Longrightarrow> (\<And>l r s i p. d \<noteq> TdFn l r s i TupleInputs p) \<Longrightarrow> shape at (canon_data d) (TyTree.intern_ty \<tau>)"
proof (cases d)
  case (TdTraitValue e l bs)
  moreover assume "shape at d \<tau>"
  ultimately obtain ids args bindings where \<tau>: "\<tau> = TraitValue e args bindings"
    and p: "at l = Some (list_content ids)" "list_all2 (denotes at) ids args" "list_all2 (same_binding at) bs bindings"
    by (auto simp: shape_simps)
  have "list_all2 (\<lambda>x y. denotes at (snd x) (snd y) \<and> fst x = fst y) (sort_key fst bs) (sort_key fst bindings)"
    using p(3) by (intro list_all2_sort_key) (auto elim: list_all2_mono)
  with p show ?thesis
    by (auto simp: \<tau> TdTraitValue intro!: denotes_shape_row_denotes.shape_trait_value elim: list_all2_mono)
next
  case (TdFn l r s i ins p)
  moreover assume "shape at d \<tau>" "\<And>l r s i p. d \<noteq> TdFn l r s i TupleInputs p"
  ultimately show ?thesis by (cases ins) (auto simp: shape_simps)
next
  case (TdTuple l rest)
  moreover assume "shape at d \<tau>"
  ultimately show ?thesis by (cases rest) (auto simp: shape_simps)
qed (auto simp: shape_simps)

lemma canon_data_ok: "data_ok d \<Longrightarrow> data_ok (canon_data d)"
  by (cases d) simp_all

lemma canon_data_idem: "canon_data (canon_data d) = canon_data d"
  by (cases d) (simp_all add: sort_key_id_if_sorted)

lemma plain_denotes:
  assumes "view_ok tv at" "data_ok d" "intern_plain tv d = Some (tv', t)" "room tv'" "shape at (canon_data d) \<tau>"
  obtains at' where "view_ok tv' at'" "at \<subseteq>\<^sub>m at'" "meta_word tv \<subseteq>\<^sub>m meta_word tv'" "denotes at' t \<tau>"
proof (rule plain_view [OF assms(1-4)])
  fix at' assume v: "view_ok tv' at'" "at' t = Some (encode d)" "at \<subseteq>\<^sub>m at'" "meta_word tv \<subseteq>\<^sub>m meta_word tv'"
  have "denotes at' t \<tau>"
    using v(2) assms(2,5) canon_data_ok [of d] canon_data_idem [of d]
    by (intro denotes_item [of at' t "canon_data d"]) (auto simp: encode_canon intro: denotes_later(2) [OF v(3)])
  with v that show thesis by blast
qed

lemma view_reads:
  assumes "view_ok tv at"
  shows "at l = Some (list_content ids) \<Longrightarrow> list_items tv l = Some ids"
    "at t = Some (encode d) \<Longrightarrow> data_ok d \<Longrightarrow> get_ty tv t = Some (canon_data d)"
    "at r = Some (row_content keys params) \<Longrightarrow> length keys < 2 ^ 32 \<Longrightarrow> row_data tv r = Some (keys, params)"
  using assms list_items_item get_ty_item row_data_item by (auto simp: view_ok_def)

text \<open>The form of a function type over one tuple type.\<close>

lemma intern_fn_other:
  assumes "\<And>els rest. params \<noteq> [Tuple els rest]"
  shows "TyTree.intern_ty (Fn params \<rho> row s i deps) = Fn params \<rho> row s i deps"
proof (cases i)
  case TupleInputs
  consider "params = []" | \<pi> where "params = [\<pi>]" | \<pi> \<pi>' ps where "params = \<pi> # \<pi>' # ps"
    by (cases params rule: list.exhaust; cases "tl params") auto
  then show ?thesis
  proof cases
    case (2 \<pi>)
    have "\<nexists>els rest. \<pi> = Tuple els rest" using assms 2 by blast
    with 2 show ?thesis by (cases \<pi>) (simp_all add: TupleInputs)
  next
    case (3 \<pi> \<pi>' ps)
    then show ?thesis by (cases \<pi>) (simp_all add: TupleInputs split: option.splits)
  qed (simp add: TupleInputs)
qed simp_all

lemma fn_tuple_denotes:
  assumes "view_ok tv at" "shape at (TdFn l res r suspends TupleInputs dp) \<tau>"
    "intern_data tv (TdFn l res r suspends TupleInputs dp) = Some (tv', t)" "room tv'"
  obtains at' where "view_ok tv' at'" "at \<subseteq>\<^sub>m at'" "meta_word tv \<subseteq>\<^sub>m meta_word tv'" "denotes at' t (TyTree.intern_ty \<tau>)"
proof -
  let ?d = "TdFn l res r suspends TupleInputs dp"
  note got_it = that
  have sh: "shape at (canon_data ?d) \<tau>" "data_ok ?d" using assms(2) by simp_all
  from assms(2) obtain ids params \<rho> row deps where \<tau>: "\<tau> = Fn params \<rho> row suspends TupleInputs deps"
    and p: "at l = Some (list_content ids)" "list_all2 (denotes at) ids params" "denotes at res \<rho>"
      "row_denotes at r row" "deps_denote at dp deps"
    unfolding shape_simps by blast
  have items: "list_items tv l = Some ids" by (rule view_reads(1) [OF assms(1) p(1)])
  have same: thesis
    if i: "intern_plain tv ?d = Some (tv', t)" and ty: "TyTree.intern_ty \<tau> = \<tau>"
  proof (rule plain_denotes [OF assms(1) sh(2) i assms(4) sh(1)])
    fix at' assume v: "view_ok tv' at'" "at \<subseteq>\<^sub>m at'" "meta_word tv \<subseteq>\<^sub>m meta_word tv'" "denotes at' t \<tau>"
    show thesis by (rule got_it [OF v(1-3)]) (simp only: ty v(4))
  qed
  show thesis
  proof (cases "\<exists>one. ids = [one]")
    case False
    then have "\<And>\<pi>. params \<noteq> [\<pi>]" using p(2) by (auto simp: list_all2_Cons2)
    then have "TyTree.intern_ty \<tau> = \<tau>" unfolding \<tau> by (intro intern_fn_other)
    moreover have "intern_plain tv ?d = Some (tv', t)"
      using assms(3) items False by (auto simp: intern_data_def split: list.splits)
    ultimately show thesis by (intro same)
  next
    case True
    then obtain one \<pi> where one: "ids = [one]" "params = [\<pi>]" "denotes at one \<pi>" using p(2) by (auto simp: list_all2_Cons1)
    then obtain e where e: "at one = Some (encode e)" "data_ok e" "canon_data e = e" "shape at e \<pi>"
      by (auto elim: denotes_itemE)
    have get: "get_ty tv one = Some e" using view_reads(2) [OF assms(1) e(1,2)] e(3) by simp
    show thesis
    proof (cases "\<exists>elems rest. e = TdTuple elems rest")
      case False
      then have "\<And>els rest. \<pi> \<noteq> Tuple els rest" using e(4) by (cases e) (auto simp: shape_simps)
      then have "TyTree.intern_ty \<tau> = \<tau>" unfolding \<tau> one by (intro intern_fn_other) simp
      moreover have "intern_plain tv ?d = Some (tv', t)"
        using assms(3) items one(1) get False by (cases e) (auto simp: intern_data_def)
      ultimately show thesis by (intro same)
    next
      case True
      then obtain elems rest where tup: "e = TdTuple elems rest" by blast
      show thesis
      proof (cases rest)
        case None
        with e(4) tup obtain els xs where \<pi>: "\<pi> = Tuple els None" "at elems = Some (list_content xs)"
          "list_all2 (denotes at) xs els" by (auto simp: shape_simps)
        have fixed: "shape at (canon_data (TdFn elems res r suspends Fixed dp)) (Fn els \<rho> row suspends Fixed deps)"
          using \<pi> p by (auto intro: denotes_shape_row_denotes.shape_fn)
        have i: "intern_plain tv (TdFn elems res r suspends Fixed dp) = Some (tv', t)"
          using assms(3) items one(1) get tup None by (simp add: intern_data_def)
        show thesis
        proof (rule plain_denotes [OF assms(1) _ i assms(4) fixed])
          fix at' assume v: "view_ok tv' at'" "at \<subseteq>\<^sub>m at'" "meta_word tv \<subseteq>\<^sub>m meta_word tv'"
            "denotes at' t (Fn els \<rho> row suspends Fixed deps)"
          show thesis by (rule got_it [OF v(1-3)]) (simp add: \<tau> one(2) \<pi>(1) v(4))
        qed simp
      next
        case (Some x)
        with e(4) tup obtain els xs \<sigma> where \<pi>: "\<pi> = Tuple els (Some \<sigma>)" "at elems = Some (list_content xs)"
          "list_all2 (denotes at) xs els" "denotes at x \<sigma>" by (auto simp: shape_simps)
        obtain u all where u: "intern_list tv (xs @ [x]) = Some (u, all)"
          "intern_plain u (TdFn all res r suspends Rest dp) = Some (tv', t)"
          using assms(3) items one(1) get tup Some view_reads(1) [OF assms(1) \<pi>(2)]
          by (auto simp: intern_data_def bind_eq_Some_conv)
        show thesis
        proof (rule list_view [OF assms(1) u(1) intern_plain_room [OF u(2) assms(4)]])
          fix at1 assume a: "view_ok u at1" "at1 all = Some (list_content (xs @ [x]))" "at \<subseteq>\<^sub>m at1"
            "meta_word tv \<subseteq>\<^sub>m meta_word u"
          have "list_all2 (denotes at1) (xs @ [x]) (els @ [\<sigma>])"
            using \<pi>(3,4) denotes_later(1) [OF a(3)] by (intro list_all2_appendI) (auto elim: list_all2_mono)
          moreover have "deps_denote at1 dp deps"
            using p(5) map_le_Some [OF a(3)] by (auto simp: deps_denote_def split: option.splits prod.splits)
          ultimately have sh: "shape at1 (TdFn all res r suspends Rest dp) (Fn (els @ [\<sigma>]) \<rho> row suspends Rest deps)"
            using a(2) denotes_later [OF a(3)] p(3,4) by (blast intro: denotes_shape_row_denotes.shape_fn)
          show thesis
          proof (rule plain_denotes [OF a(1) _ u(2) assms(4)])
            fix at' assume v: "view_ok tv' at'" "at1 \<subseteq>\<^sub>m at'" "meta_word u \<subseteq>\<^sub>m meta_word tv'"
              "denotes at' t (Fn (els @ [\<sigma>]) \<rho> row suspends Rest deps)"
            show thesis
              by (rule got_it [OF v(1) map_le_trans [OF a(3) v(2)] map_le_trans [OF a(4) v(3)]])
                (simp add: \<tau> one(2) \<pi>(1) v(4))
          qed (use sh in simp_all)
        qed
      qed
    qed
  qed
qed

text \<open>Interning a type whose parts denote trees gives an index of the interned tree.\<close>

lemma intern_denotes:
  assumes "view_ok tv at" "shape at d \<tau>" "data_ok d" "intern_data tv d = Some (tv', t)" "room tv'"
  obtains at' where "view_ok tv' at'" "at \<subseteq>\<^sub>m at'" "meta_word tv \<subseteq>\<^sub>m meta_word tv'" "denotes at' t (TyTree.intern_ty \<tau>)"
proof (cases "\<exists>l r s i p. d = TdFn l r s i TupleInputs p")
  case True
  then obtain l r s i p where d: "d = TdFn l r s i TupleInputs p" by blast
  with assms have "shape at (TdFn l r s i TupleInputs p) \<tau>"
    "intern_data tv (TdFn l r s i TupleInputs p) = Some (tv', t)" by simp_all
  from fn_tuple_denotes [OF assms(1) this assms(5)] that show thesis .
next
  case False
  then have "intern_data tv d = intern_plain tv d"
    by (cases d) (auto simp: intern_data_def split: inputs.splits)
  with assms(4) have i: "intern_plain tv d = Some (tv', t)" by simp
  have "shape at (canon_data d) (TyTree.intern_ty \<tau>)"
    by (rule shape_canon_data [OF assms(2)]) (use False in blast)
  from plain_denotes [OF assms(1,3) i assms(5) this] that show thesis .
qed

section \<open>Interning a row\<close>

lemma sort_words: "sort_key (\<lambda>t. t) xs = sort_key unat (xs :: u32 list)"
proof -
  have "insort_key (\<lambda>t. t) x ys = insort_key unat x (ys :: u32 list)" for x ys
    by (induction ys) (simp_all add: word_le_nat_alt)
  then show ?thesis by (induction xs) (simp_all add: sort_key_def)
qed

lemma list_all2_remdups_adj:
  assumes "\<And>x y x' y'. R x y \<Longrightarrow> R x' y' \<Longrightarrow> x = x' \<longleftrightarrow> y = y'"
  shows "list_all2 R xs ys \<Longrightarrow> list_all2 R (remdups_adj xs) (remdups_adj ys)"
proof (induction xs arbitrary: ys rule: remdups_adj.induct)
  case (3 a b xs)
  then obtain u v vs where ys: "ys = u # v # vs" and r: "R a u" "R b v" "list_all2 R xs vs"
    by (auto simp: list_all2_Cons1)
  have "list_all2 R (b # xs) (v # vs)" "list_all2 R (a # xs) (u # vs)" using r by simp_all
  with 3(1,2) assms [OF r(1,2)] r show ?case by (auto simp: ys)
qed (auto simp: list_all2_Cons1)

text \<open>The keys of a row: a key that is a row is its keys and its parameters.\<close>

lemma flat_other: "\<nexists>r. \<tau> = RowTy r \<Longrightarrow> flat_keys \<tau> = [\<tau>] \<and> flat_params \<tau> = []"
  by (cases \<tau>) simp_all

lemma flatten_denotes:
  assumes "view_ok tv at"
  shows "list_all2 (denotes at) keys \<kappa>s \<Longrightarrow>
    \<exists>ks. flatten_keys tv keys acc = Some (fst acc @ ks, snd acc @ concat (map flat_params \<kappa>s)) \<and>
      list_all2 (denotes at) ks (concat (map flat_keys \<kappa>s))"
proof (induction arbitrary: acc rule: list_all2_induct)
  case Nil
  then show ?case by simp
next
  case (Cons k keys \<kappa> \<kappa>s)
  obtain e where e: "at k = Some (encode e)" "data_ok e" "canon_data e = e" "shape at e \<kappa>"
    using Cons(1) by (auto elim: denotes_itemE)
  have get: "get_ty tv k = Some e" using view_reads(2) [OF assms e(1,2)] e(3) by simp
  show ?case
  proof (cases "\<exists>r. e = TdRow r")
    case True
    then obtain r where r: "e = TdRow r" by blast
    with e(4) obtain ks ps rs where k: "\<kappa> = RowTy (Row ks ps)" "at r = Some (row_content rs ps)" "length rs < 2 ^ 32"
      "list_all2 (denotes at) rs ks" by (auto simp: shape_simps elim: row_denotesE)
    have "flatten_keys tv (k # keys) acc = flatten_keys tv keys (fst acc @ rs, snd acc @ ps)"
      using view_reads(3) [OF assms k(2,3)] get r by simp
    with Cons(3) [of "(fst acc @ rs, snd acc @ ps)"] k(1,4) show ?thesis by (auto intro: list_all2_appendI)
  next
    case False
    then have "\<nexists>r. \<kappa> = RowTy r" using e(4) by (auto simp: tree_simps)
    note F = flat_other [OF this]
    have "flatten_keys tv (k # keys) acc = flatten_keys tv keys (fst acc @ [k], snd acc)"
      using get False by (cases e) simp_all
    with Cons(3) [of "(fst acc @ [k], snd acc)"] Cons(1) F show ?thesis by (auto intro: list_all2_appendI)
  qed
qed

lemma row_interned:
  assumes "view_ok tv at" "list_all2 (denotes at) keys \<kappa>s" "pool_row tv keys params = Some (tv', r)" "room tv'"
    "\<And>t \<tau>. denotes at t \<tau> \<Longrightarrow> ix \<tau> = unat t"
  obtains at' where "view_ok tv' at'" "at \<subseteq>\<^sub>m at'" "meta_word tv \<subseteq>\<^sub>m meta_word tv'"
    "row_denotes at' r (TyTree.intern_row ix \<kappa>s params)"
proof (rule row_view [OF assms(1,3,4)])
  fix at' :: "u32 \<Rightarrow> pcontent option" and ks :: "u32 list" and ps :: "param_ref list"
  let ?ks = "remdups_adj (sort_key (\<lambda>t. t) ks)" let ?ps = "remdups_adj (sort_key param_key ps)"
  assume v: "view_ok tv' at'" "flatten_keys tv keys ([], params) = Some (ks, ps)"
    "at' r = Some (row_content ?ks ?ps)" "length ?ks < 2 ^ 32" "length ?ps < 2 ^ 32"
    "at \<subseteq>\<^sub>m at'" "meta_word tv \<subseteq>\<^sub>m meta_word tv'"
  have k: "list_all2 (denotes at) ks (concat (map flat_keys \<kappa>s))" "ps = params @ concat (map flat_params \<kappa>s)"
    using flatten_denotes [OF assms(1,2), of "([], params)"] v(2) by auto
  have "list_all2 (\<lambda>x y. denotes at x y \<and> unat x = ix y) (sort_key unat ks) (sort_key ix (concat (map flat_keys \<kappa>s)))"
    using k(1) assms(5) by (intro list_all2_sort_key) (auto elim!: list_all2_mono)
  then have "list_all2 (denotes at) (sort_key (\<lambda>t. t) ks) (sort_key ix (concat (map flat_keys \<kappa>s)))"
    unfolding sort_words by (auto elim: list_all2_mono)
  then have "list_all2 (denotes at) ?ks (remdups_adj (sort_key ix (concat (map flat_keys \<kappa>s))))"
    by (rule list_all2_remdups_adj [rotated]) (metis assms(5) denotes_unique word_unat_eq_iff)
  then have "row_denotes at' r (TyTree.intern_row ix \<kappa>s params)"
    unfolding intern_row_def using v(3-5) k(2)
    by (intro denotes_shape_row_denotes.denotes_row) (auto elim!: list_all2_mono intro: denotes_later(1) [OF v(6)])
  with v that show thesis by blast
qed

end
