(* ===== verification/PoolSeed.thy ===== *)
theory PoolSeed
  imports PoolTrees
begin

text \<open>
  A new pool and what its views see. \<open>seeded_pool\<close> is \<open>InternPool::default\<close>: the primitives, \<open>Never\<close>,
  \<open>Poison\<close>, the empty list, the empty row and \<open>void\<close>, interned first, so that \<open>Ty::I32\<close> and the other
  constants are the indexes they are written as. \<open>reached\<close> holds the views that building types makes from
  a new pool: in each of them an index is one tree and reads back as what was interned.
\<close>

section \<open>The stored contents\<close>

definition contents_at :: "cols \<Rightarrow> nat \<Rightarrow> pcontent option" where
  "contents_at cs k = do {
     t \<leftarrow> got (item_at (pc_tag cs) k);
     d \<leftarrow> got (item_at (pc_data cs) k);
     if t = PtList then map_option list_content (list_at cs k)
     else do {
       x \<leftarrow> record_of cs t d;
       Some \<lparr>ct_tag = t, ct_data = (if has_record t then 0 else d), ct_head = x, ct_tys = []\<rparr>
     }
   }"

definition stored_at :: "types_view \<Rightarrow> u32 \<Rightarrow> pcontent option" where
  "stored_at tv i = do { (cs, k) \<leftarrow> view_at tv i; contents_at cs k }"

lemma contents_at_hold:
  assumes "cols_hold cs its" "k < length its"
  shows "contents_at cs k = Some (its ! k)"
proof -
  note ok = cols_hold_stored(2) [OF assms, unfolded content_ok_def]
  note S = cols_hold_stored(4,5) [OF assms]
  show ?thesis
  proof (cases "ct_tag (its ! k) = PtList")
    case True
    with ok S list_at_hold [OF assms True] show ?thesis
      by (cases "its ! k") (simp add: contents_at_def list_content_def)
  next
    case False
    with ok S cols_hold_record_of [OF assms False] cols_hold_data [OF assms] show ?thesis
      by (cases "its ! k") (auto simp: contents_at_def split: if_splits)
  qed
qed

lemma stored_at_item:
  assumes "pools_hold tv G L"
  shows "stored_at tv i = item_of tv G L i"
proof (cases "item_of tv G L i")
  case (Some c)
  from assms Some show ?thesis
  proof (rule view_item)
    fix cs its k assume "view_at tv i = Some (cs, k)" "cols_hold cs its" "k < length its" "its ! k = c"
    with Some show ?thesis by (simp add: stored_at_def contents_at_hold)
  qed
next
  case None
  have "got (item_at (pc_tag cs) k) = None" if v: "view_at tv i = Some (cs, k)" for cs k
  proof (cases "i AND LOCAL = 0")
    case True
    with v None assms show ?thesis
      by (auto simp: view_at_def item_of_def item_at_got pools_hold_def pool_holds_def cols_hold_def cols_inv_def)
  next
    case False
    with v None assms show ?thesis
      by (auto simp: view_at_def item_of_def item_at_got pools_hold_def local_holds_def cols_hold_def cols_inv_def
          split: option.splits if_splits)
  qed
  with None show ?thesis by (cases "view_at tv i") (auto simp: stored_at_def contents_at_def)
qed

lemma view_ok_stored: "view_ok tv at \<Longrightarrow> at = stored_at tv"
  using stored_at_item by (auto simp: view_ok_def)

section \<open>A new pool\<close>

definition EMPTY_LIST :: u32 where "EMPTY_LIST = 16"
definition EMPTY_ROW :: u32 where "EMPTY_ROW = 17"
definition TY_POISON :: u32 where "TY_POISON = 15"
definition TY_VOID :: u32 where "TY_VOID = 18"

definition types_of :: "intern_pool \<Rightarrow> read_through \<Rightarrow> types_view" where
  "types_of p rt = \<lparr>tv_global = p, tv_cache = rt, tv_local = None\<rparr>"

definition with_local :: "intern_pool \<Rightarrow> read_through \<Rightarrow> local_pool \<Rightarrow> types_view" where
  "with_local p rt l = \<lparr>tv_global = p, tv_cache = rt, tv_local = Some l\<rparr>"

primrec intern_types :: "types_view \<Rightarrow> ty_data list \<Rightarrow> (types_view \<times> u32 list) option" where
  "intern_types tv [] = Some (tv, [])"
| "intern_types tv (d # ds) = do {
     (tv, t) \<leftarrow> intern_data tv d;
     (tv, ts) \<leftarrow> intern_types tv ds;
     Some (tv, t # ts)
   }"

definition seed_types :: "ty_data list" where
  "seed_types = map TdPrim all_prims @ [TdNever, TdPoison]"

definition seeded_pool :: "nat \<Rightarrow> read_through \<Rightarrow> (types_view \<times> u32 list) option" where
  "seeded_pool uid rt = do {
     (tv, ts) \<leftarrow> intern_types (types_of (empty_pool uid) rt) seed_types;
     (tv, l) \<leftarrow> intern_list tv [];
     (tv, r) \<leftarrow> pool_row tv [] [];
     (tv, v) \<leftarrow> intern_data tv (TdTuple EMPTY_LIST None);
     Some (tv, ts @ [l, r, v])
   }"

section \<open>Views that building types reaches\<close>

inductive types_step :: "types_view \<Rightarrow> types_view \<Rightarrow> bool" where
  build_type: "data_ok d \<Longrightarrow> intern_data tv d = Some (tv', t) \<Longrightarrow> room tv' \<Longrightarrow> types_step tv tv'"
| build_list: "intern_list tv ids = Some (tv', l) \<Longrightarrow> room tv' \<Longrightarrow> types_step tv tv'"
| build_row: "pool_row tv keys params = Some (tv', r) \<Longrightarrow> room tv' \<Longrightarrow> types_step tv tv'"
| build_deps: "pool_fn_deps tv ins outs = Some (tv', d) \<Longrightarrow> room tv' \<Longrightarrow> types_step tv tv'"

inductive types_run :: "types_view \<Rightarrow> types_view \<Rightarrow> bool" for tv where
  run_here: "types_run tv tv"
| run_step: "types_run tv u \<Longrightarrow> types_step u v \<Longrightarrow> types_run tv v"

inductive reached :: "types_view \<Rightarrow> bool" where
  "fst rt \<noteq> uid \<Longrightarrow> types_run (types_of (empty_pool uid) rt) tv \<Longrightarrow> reached tv"
| "fst rt \<noteq> uid \<Longrightarrow> types_run (with_local (empty_pool uid) rt (new_local n)) tv \<Longrightarrow> reached tv"

lemma intern_data_calls:
  assumes "intern_data tv d = Some (tv', t)" "data_ok d"
  obtains e where "data_ok e" "intern_plain tv e = Some (tv', t)"
  | xs u l e where "intern_list tv xs = Some (u, l)" "data_ok e" "intern_plain u e = Some (tv', t)"
proof (cases "intern_plain tv d = Some (tv', t)")
  case True
  with assms(2) that(1) show thesis by blast
next
  case other: False
  with assms(1) obtain l r w s p where d: "d = TdFn l r w s TupleInputs p"
    by (cases d) (auto simp: intern_data_def split: inputs.splits)
  obtain one elems rest where g: "list_items tv l = Some [one]" "get_ty tv one = Some (TdTuple elems rest)"
  proof -
    obtain ps where ps: "list_items tv l = Some ps"
      using assms(1) by (auto simp: intern_data_def d bind_eq_Some_conv)
    with assms(1) other obtain one where one: "ps = [one]"
      by (cases ps; cases "tl ps") (auto simp: intern_data_def d)
    with ps assms(1) obtain e where e: "get_ty tv one = Some e"
      by (auto simp: intern_data_def d bind_eq_Some_conv)
    with ps one assms(1) other obtain elems rest where "e = TdTuple elems rest"
      by (cases e) (auto simp: intern_data_def d)
    with ps one e that show thesis by blast
  qed
  show thesis
  proof (cases rest)
    case None
    with assms(1) g have "intern_plain tv (TdFn elems r w s Fixed p) = Some (tv', t)" by (simp add: intern_data_def d)
    then show thesis by (rule that(1) [rotated]) simp
  next
    case (Some x)
    with assms(1) g obtain es u k where i: "intern_list tv (es @ [x]) = Some (u, k)"
      "intern_plain u (TdFn k r w s Rest p) = Some (tv', t)"
      by (auto simp: intern_data_def d bind_eq_Some_conv)
    show thesis by (rule that(2) [OF i(1) _ i(2)]) simp
  qed
qed

lemma types_step_ok:
  assumes "types_step tv tv'" "view_ok tv (stored_at tv)"
  shows "view_ok tv' (stored_at tv') \<and> stored_at tv \<subseteq>\<^sub>m stored_at tv'"
  using assms(1)
proof cases
  case (build_type d t)
  have *: "view_ok v (stored_at v) \<and> stored_at u \<subseteq>\<^sub>m stored_at v"
    if "view_ok u (stored_at u)" "data_ok e" "intern_plain u e = Some (v, i)" "room v" for u v e i
    by (rule plain_view [OF that]) (use view_ok_stored in metis)
  from build_type(2,1) show ?thesis
  proof (rule intern_data_calls)
    show ?thesis if "data_ok e" "intern_plain tv e = Some (tv', t)" for e
      using * [OF assms(2) that build_type(3)] .
    show ?thesis
      if i: "intern_list tv xs = Some (u, l)" "data_ok e" "intern_plain u e = Some (tv', t)" for xs u l e
    proof (rule list_view [OF assms(2) i(1) intern_plain_room [OF i(3) build_type(3)]])
      fix at' assume a: "view_ok u at'" "stored_at tv \<subseteq>\<^sub>m at'"
      then have "view_ok u (stored_at u)" "stored_at tv \<subseteq>\<^sub>m stored_at u" using view_ok_stored by metis+
      with * [OF _ i(2,3) build_type(3)] show ?thesis using map_le_trans by blast
    qed
  qed
next
  case (build_list ids l)
  show ?thesis by (rule list_view [OF assms(2) build_list]) (use view_ok_stored in metis)
next
  case (build_row keys params r)
  show ?thesis by (rule row_view [OF assms(2) build_row]) (use view_ok_stored in metis)
next
  case (build_deps ins outs d)
  show ?thesis
  proof (cases "outs = []")
    case True
    with build_deps(1) assms(2) show ?thesis by (simp add: pool_fn_deps_def)
  next
    case False
    show ?thesis by (rule deps_view [OF assms(2) build_deps False]) (use view_ok_stored in metis)
  qed
qed

lemma types_run_ok:
  assumes "types_run tv tv'" "view_ok tv (stored_at tv)"
  shows "view_ok tv' (stored_at tv') \<and> stored_at tv \<subseteq>\<^sub>m stored_at tv'"
  using assms
proof (induction rule: types_run.induct)
  case (run_step u v)
  with types_step_ok [OF run_step(2)] show ?case using map_le_trans by blast
qed simp

lemma new_view_ok:
  assumes "fst rt \<noteq> uid"
  shows "view_ok (types_of (empty_pool uid) rt) (stored_at (types_of (empty_pool uid) rt))"
    and "view_ok (with_local (empty_pool uid) rt (new_local n)) (stored_at (with_local (empty_pool uid) rt (new_local n)))"
proof -
  have g: "pools_hold (types_of (empty_pool uid) rt) [] []"
    using empty_pool_holds [of uid] assms
    by (simp add: pools_hold_def types_of_def cache_ok_def empty_pool_def)
  have "lp_generation (new_local n) AND GEN_MASK = lp_generation (new_local n)"
    by (simp add: new_local_def and.assoc)
  then have "local_holds (new_local n) []"
    by (simp add: local_holds_def) (simp add: new_local_def ids.indexes_none)
  with empty_pool_holds [of uid] assms
  have l: "pools_hold (with_local (empty_pool uid) rt (new_local n)) [] []"
    by (simp add: pools_hold_def with_local_def cache_ok_def empty_pool_def)
  have none: "item_of tv [] [] i = None" for tv i
    by (simp add: item_of_def get_at_def split: option.splits)
  have *: "view_ok tv (stored_at tv)" if "pools_hold tv [] []" for tv
  proof -
    have s: "stored_at tv = item_of tv [] []" using stored_at_item [OF that] by blast
    show ?thesis using that by (auto simp: view_ok_def s none)
  qed
  show "view_ok (types_of (empty_pool uid) rt) (stored_at (types_of (empty_pool uid) rt))" by (rule * [OF g])
  show "view_ok (with_local (empty_pool uid) rt (new_local n)) (stored_at (with_local (empty_pool uid) rt (new_local n)))"
    by (rule * [OF l])
qed

lemma reached_ok: "reached tv \<Longrightarrow> view_ok tv (stored_at tv)"
  by (induction rule: reached.induct) (use types_run_ok new_view_ok in blast)+

section \<open>A pool with room has an index for every item\<close>

lemma locate_small: "i < 2 ^ BASE_BITS \<Longrightarrow> locate i = (0, i)"
  using locate_start [of i 0] by (simp add: chunk_start_def chunk_cap_def)

lemma first_chunk: "2 ^ BASE_BITS \<le> chunk_start CHUNKS"
  by (simp add: chunk_start_def CHUNKS_def BASE_BITS_def)

lemma write_all_small: "start + length xs \<le> 2 ^ BASE_BITS \<Longrightarrow> \<exists>w. write_all v start xs = Some w"
proof (induction xs arbitrary: v start)
  case (Cons x xs)
  then have "write_unpublished v start x \<noteq> None"
    using write_unpublished_None [of v start x] first_chunk by simp
  with Cons show ?case by (auto simp: Cons.IH [of "Suc start"])
qed simp

lemma push_run_small:
  assumes "av_len v + length xs \<le> 2 ^ BASE_BITS"
  shows "\<exists>w. push_run v (length xs) pad xs = Some (w, av_len v) \<and> av_len w = av_len v + length xs"
proof (cases "xs = []")
  case False
  then have "locate (av_len v) = (0, av_len v)" using assms by (intro locate_small) (cases xs; simp)
  then have "pad_to v (av_len v) (length xs) pad = Some (v, av_len v)"
    using assms by (subst pad_to.simps) (simp add: CHUNKS_def chunk_cap_def)
  moreover obtain w where "write_all v (av_len v) xs = Some w" using write_all_small [OF assms] by blast
  ultimately show ?thesis using False by (simp add: push_run_def)
qed (simp add: push_run_def)

definition short_content :: "pcontent \<Rightarrow> bool" where
  "short_content c \<longleftrightarrow> content_ok c \<and> length (ct_head c) \<le> 8 \<and> length (ct_tys c) \<le> 8"

lemma cols_push_small:
  assumes "cols_hold cs its" "short_content c" "length its \<le> 100"
    "av_len (pc_extra cs) \<le> 8 * length its" "av_len (pc_tys cs) \<le> 8 * length its"
  shows "\<exists>cs' i. cols_push cs c m = Some (cs', i) \<and>
    av_len (pc_extra cs') \<le> 8 * Suc (length its) \<and> av_len (pc_tys cs') \<le> 8 * Suc (length its)"
proof -
  have cap: "2 ^ BASE_BITS = (1024 :: nat)" by (simp add: BASE_BITS_def)
  have len: "length (ct_head c) \<le> 8" "length (ct_tys c) \<le> 8" using assms(2) by (simp_all add: short_content_def)
  have "\<exists>u d. push_parts cs c = Some (u, d) \<and> pc_tag u = pc_tag cs \<and> pc_data u = pc_data cs \<and> pc_meta u = pc_meta cs \<and>
      av_len (pc_extra u) \<le> 8 * Suc (length its) \<and> av_len (pc_tys u) \<le> 8 * Suc (length its)"
  proof -
    obtain tys where tys: "push_run (pc_tys cs) (length (ct_tys c)) TY_NEVER (ct_tys c) = Some (tys, av_len (pc_tys cs))"
      "av_len tys = av_len (pc_tys cs) + length (ct_tys c)"
      using push_run_small [of "pc_tys cs" "ct_tys c"] assms(3,5) len(2) cap by auto
    obtain ex where ex: "push_run (pc_extra cs) (length (ct_head c)) 0 (ct_head c) = Some (ex, av_len (pc_extra cs))"
      "av_len ex = av_len (pc_extra cs) + length (ct_head c)"
      using push_run_small [of "pc_extra cs" "ct_head c"] assms(3,4) len(1) cap by auto
    have two: "\<exists>ex2. push_run (pc_extra cs) 2 0 [a, b] = Some (ex2, av_len (pc_extra cs)) \<and>
        av_len ex2 = av_len (pc_extra cs) + 2" for a b
      using push_run_small [of "pc_extra cs" "[a, b]" 0] assms(3,4) cap by (simp add: numeral_2_eq_2)
    obtain ex2 where "push_run (pc_extra cs) 2 0 [word_of_nat (av_len (pc_tys cs)), word_of_nat (length (ct_tys c))] =
        Some (ex2, av_len (pc_extra cs))" "av_len ex2 = av_len (pc_extra cs) + 2"
      using two by blast
    moreover have "unat (word_of_nat (length (ct_tys c)) :: u32) = length (ct_tys c)"
      "unat (word_of_nat (length (ct_head c)) :: u32) = length (ct_head c)"
      using len by (simp_all add: unat_small)
    ultimately show ?thesis
      using tys ex len assms(4,5) by (cases "ct_tag c = PtList"; cases "has_record (ct_tag c)") (simp_all add: push_parts_def fit_u32_def)
  qed
  then obtain u d where u: "push_parts cs c = Some (u, d)" "pc_tag u = pc_tag cs" "pc_data u = pc_data cs"
    "pc_meta u = pc_meta cs" "av_len (pc_extra u) \<le> 8 * Suc (length its)" "av_len (pc_tys u) \<le> 8 * Suc (length its)"
    by blast
  have "av_len (pc_tag cs) = length its" "av_len (pc_data cs) = length its" "av_len (pc_meta cs) = length its"
    using assms(1) by (simp_all add: cols_hold_def)
  moreover have "length its < chunk_start CHUNKS" using assms(3) first_chunk cap by simp
  ultimately obtain a b e where "push_item (pc_tag u) (ct_tag c) = Some a" "push_item (pc_data u) d = Some b"
    "push_item (pc_meta u) m = Some e"
    using push_item_None [of "pc_tag cs" "ct_tag c"] push_item_None [of "pc_data cs" d] push_item_None [of "pc_meta cs" m]
      u(2-4) by (metis not_None_eq not_le)
  with u show ?thesis by (cases a; cases b; cases e) (simp add: cols_push_def)
qed

definition small_view :: "types_view \<Rightarrow> pcontent list \<Rightarrow> bool" where
  "small_view tv G \<longleftrightarrow>
     pools_hold tv G [] \<and> view_ok tv (stored_at tv) \<and> length G \<le> 100 \<and>
     av_len (pc_extra (ip_cols (tv_global tv))) \<le> 8 * length G \<and> av_len (pc_tys (ip_cols (tv_global tv))) \<le> 8 * length G"

lemma intern_global_cols:
  "intern_global p rt c m = Some (p', rt', i) \<Longrightarrow>
   ip_cols p' = ip_cols p \<or> (\<exists>k. cols_push (ip_cols p) c m = Some (ip_cols p', k))"
  by (auto simp: intern_global_def append_item_def index_item_def bind_eq_Some_conv
      split: if_splits option.splits prod.splits)

text \<open>A small view interns every new global item at the next index.\<close>

lemma small_intern:
  assumes "small_view tv G" "length G < 100" "short_content c" "c \<notin> set G" "flags_of (meta_word tv) c m"
    "m AND HAS_INFER = 0"
  shows "\<exists>tv'. intern_content tv c m = Some (tv', word_of_nat (length G)) \<and> small_view tv' (G @ [c]) \<and>
    tv_local tv' = tv_local tv \<and> room tv'"
proof -
  note S = assms(1) [unfolded small_view_def]
  have ok: "content_ok c" using assms(3) by (simp add: short_content_def)
  have P: "pool_holds (tv_global tv) G {}" "cache_ok (tv_global tv) (length G) (tv_cache tv)"
    using S by (simp_all add: pools_hold_def)
  have hold: "cols_hold (ip_cols (tv_global tv)) G" using P(1) by (simp add: pool_holds_def)
  obtain cs k where cs: "cols_push (ip_cols (tv_global tv)) c m = Some (cs, k)"
    "av_len (pc_extra cs) \<le> 8 * Suc (length G)" "av_len (pc_tys cs) \<le> 8 * Suc (length G)"
    using cols_push_small [OF hold assms(3)] S by blast
  have "intern_global (tv_global tv) (tv_cache tv) c m \<noteq> None"
    using intern_global_None [OF P ok, of m] assms(6) cs(1) by (intro notI) (simp add: append_item_def)
  then obtain p rt i where g: "intern_global (tv_global tv) (tv_cache tv) c m = Some (p, rt, i)"
    by (cases "intern_global (tv_global tv) (tv_cache tv) c m") auto
  let ?tv = "tv\<lparr>tv_global := p, tv_cache := rt\<rparr>"
  have i: "intern_content tv c m = Some (?tv, i)" using g assms(6) by (simp add: intern_content_def)
  show ?thesis
  proof (rule intern_global_holds [OF P ok g])
    assume n: "pool_holds p (G @ [c]) {}" "cache_ok p (length (G @ [c])) rt" "unat i = length G"
    have hold': "pools_hold ?tv (G @ [c]) []" using n S assms(2) by (simp add: pools_hold_def)
    have room: "room ?tv" by (rule pools_hold_room [OF hold'])
    have "view_ok tv (stored_at tv)" using S by blast
    then have "view_ok ?tv (stored_at ?tv)"
      by (rule view_intern [OF _ assms(5) i room]) (use view_ok_stored in metis)
    moreover have "ip_cols p = cs"
      using intern_global_cols [OF g] cs(1) n(1) hold by (auto simp: pool_holds_def cols_hold_def)
    ultimately have "small_view ?tv (G @ [c])"
      using hold' cs assms(2) by (simp add: small_view_def)
    moreover have "i = word_of_nat (length G)" by (simp flip: n(3))
    ultimately show ?thesis using i room by auto
  qed (use assms(4) in blast)
qed

section \<open>The constants of a new pool\<close>

lemma types_run_trans: "types_run u v \<Longrightarrow> types_run tv u \<Longrightarrow> types_run tv v"
  by (induction rule: types_run.induct) (auto intro: run_step)

lemma types_run_one: "types_step tv u \<Longrightarrow> types_run tv u"
  by (rule run_step [OF run_here])

definition no_parts :: "ty_data \<Rightarrow> bool" where
  "no_parts d \<longleftrightarrow> d \<in> insert TdNever (insert TdPoison (range TdPrim))"

lemma small_no_parts:
  assumes "small_view tv G" "length G < 100" "no_parts d" "encode d \<notin> set G"
  shows "\<exists>tv'. intern_data tv d = Some (tv', word_of_nat (length G)) \<and> small_view tv' (G @ [encode d]) \<and>
    tv_local tv' = tv_local tv \<and> types_run tv tv'"
proof -
  have d: "data_ok d" "data_ids d = []" "own_flags d AND HAS_INFER = 0" "short_content (encode d)"
    "intern_data tv d = intern_content tv (encode d) (own_flags d)"
    using assms(3) encode_ok [of d]
    by (auto simp: no_parts_def short_content_def content_defs HAS_POISON_def HAS_INFER_def intern_data_def
        intern_plain_def data_meta_def)
  have f: "flags_of (meta_word tv) (encode d) (own_flags d)"
    using d(1,2) by (intro flags_of.intros(4)) simp_all
  from small_intern [OF assms(1,2) d(4) assms(4) f d(3)] d(1,5) show ?thesis
    by (auto intro!: types_run_one build_type)
qed

lemma small_types:
  assumes "\<forall>d \<in> set ds. no_parts d" "distinct (map encode ds)"
  shows "small_view tv G \<Longrightarrow> length G + length ds \<le> 100 \<Longrightarrow> set G \<inter> encode ` set ds = {} \<Longrightarrow>
    \<exists>tv'. intern_types tv ds = Some (tv', map word_of_nat [length G..<length G + length ds]) \<and>
      small_view tv' (G @ map encode ds) \<and> tv_local tv' = tv_local tv \<and> types_run tv tv'"
  using assms
proof (induction ds arbitrary: tv G)
  case Nil
  then show ?case by (auto intro: run_here)
next
  case (Cons d ds)
  obtain u where u: "intern_data tv d = Some (u, word_of_nat (length G))" "small_view u (G @ [encode d])"
    "tv_local u = tv_local tv" "types_run tv u"
    using small_no_parts [of tv G d] Cons.prems by auto
  obtain v where v: "intern_types u ds = Some (v, map word_of_nat [Suc (length G)..<Suc (length G) + length ds])"
    "small_view v ((G @ [encode d]) @ map encode ds)" "tv_local v = tv_local u" "types_run u v"
    using Cons.IH [of u "G @ [encode d]"] u(2) Cons.prems by auto
  have "[length G..<length G + length (d # ds)] = length G # [Suc (length G)..<Suc (length G) + length ds]"
    by (subst upt_rec) simp
  with u v types_run_trans [OF v(4) u(4)] show ?case by simp
qed

lemma small_stored: "small_view tv G \<Longrightarrow> i < length G \<Longrightarrow> stored_at tv (word_of_nat i) = Some (G ! i)"
proof -
  assume s: "small_view tv G" "i < length G"
  then have "unat (word_of_nat i :: u32) = i" by (intro unat_small) (simp add: small_view_def)
  moreover from this s have "(word_of_nat i :: u32) AND LOCAL = 0" by (simp add: global_small small_view_def)
  moreover have "pools_hold tv G []" using s(1) by (simp add: small_view_def)
  ultimately show ?thesis using s(2) stored_at_item by (simp add: item_of_def)
qed

definition seed_contents :: "pcontent list" where
  "seed_contents =
     map encode seed_types @ [list_content [], row_content [] [], encode (TdTuple EMPTY_LIST None)]"

lemma seeds_distinct: "distinct seed_contents"
  by (simp add: seed_contents_def seed_types_def all_prims_def content_defs prim_word_def)

lemma seed_views:
  assumes "small_view tv []"
  obtains tv1 tv2 tv3 tv4 where
    "intern_types tv seed_types = Some (tv1, map prim_word all_prims @ [TY_NEVER, TY_POISON])"
    "intern_list tv1 [] = Some (tv2, EMPTY_LIST)" "pool_row tv2 [] [] = Some (tv3, EMPTY_ROW)"
    "intern_data tv3 (TdTuple EMPTY_LIST None) = Some (tv4, TY_VOID)"
    "small_view tv4 seed_contents" "types_run tv tv4" "tv_local tv4 = tv_local tv"
proof -
  let ?G = "map encode seed_types"
  note D = seeds_distinct [unfolded seed_contents_def]
  have len: "length seed_types = 16" by (simp add: seed_types_def all_prims_def)
  have np: "\<forall>d \<in> set seed_types. no_parts d" by (auto simp: seed_types_def no_parts_def)
  obtain tv1 where v1: "intern_types tv seed_types = Some (tv1, map word_of_nat [0..<16])"
    "small_view tv1 ?G" "tv_local tv1 = tv_local tv" "types_run tv tv1"
    using small_types [OF np _ assms] D len by auto
  have ids: "map word_of_nat [0..<16] = map prim_word all_prims @ [TY_NEVER, TY_POISON]"
    by (simp add: all_prims_def prim_word_def TY_NEVER_def TY_POISON_def upt_rec)
  have sc: "short_content (list_content [])" "short_content (row_content [] [])" "short_content (encode (TdTuple EMPTY_LIST None))"
    using other_contents_ok(1) [of "[]"] other_contents_ok(2) [of "[]" "[]"] encode_ok [of "TdTuple EMPTY_LIST None"] by (simp_all add: short_content_def content_defs)
  obtain tv2 where v2: "intern_content tv1 (list_content []) 0 = Some (tv2, 16)"
    "small_view tv2 (?G @ [list_content []])" "tv_local tv2 = tv_local tv1" "room tv2"
    using small_intern [OF v1(2) _ sc(1), of 0] D len flags_of.intros(1) [of "meta_word tv1" "[]" 0] by auto
  have l2: "intern_list tv1 [] = Some (tv2, EMPTY_LIST)" using v2(1) by (simp add: intern_list_def EMPTY_LIST_def)
  obtain tv3 where v3: "intern_content tv2 (row_content [] []) 0 = Some (tv3, 17)"
    "small_view tv3 ((?G @ [list_content []]) @ [row_content [] []])" "tv_local tv3 = tv_local tv2" "room tv3"
    using small_intern [OF v2(2) _ sc(2), of 0] D len
      flags_of.intros(2) [of "[]" "[]" "meta_word tv2" 0] by (auto simp: row_flags_def)
  have l3: "pool_row tv2 [] [] = Some (tv3, EMPTY_ROW)" using v3(1) by (simp add: pool_row_def EMPTY_ROW_def fit_u32_def)
  have "stored_at tv3 EMPTY_LIST = Some (list_content [])"
    using small_stored [OF v3(2), of 16] len by (simp add: EMPTY_LIST_def nth_append)
  then have "\<exists>w. meta_word tv3 EMPTY_LIST = Some w \<and> flags_of (meta_word tv3) (list_content []) w"
    using view_okD [of tv3 "stored_at tv3" EMPTY_LIST] v3(2) by (auto simp: small_view_def)
  then have mt: "meta_word tv3 EMPTY_LIST = Some 0" by (auto dest: flags_of_parts(1))
  then have f: "flags_of (meta_word tv3) (encode (TdTuple EMPTY_LIST None)) 0" by (intro flags_of.intros(4)) simp_all
  obtain tv4 where v4: "intern_content tv3 (encode (TdTuple EMPTY_LIST None)) 0 = Some (tv4, 18)"
    "small_view tv4 (((?G @ [list_content []]) @ [row_content [] []]) @ [encode (TdTuple EMPTY_LIST None)])"
    "tv_local tv4 = tv_local tv3" "room tv4"
    using small_intern [OF v3(2) _ sc(3) _ f] D len by auto
  have l4: "intern_data tv3 (TdTuple EMPTY_LIST None) = Some (tv4, TY_VOID)"
    using v4(1) mt by (simp add: intern_data_def intern_plain_def data_meta_def TY_VOID_def)
  have "types_run tv tv4"
    using v1(4) build_list [OF l2 v2(4)] build_row [OF l3 v3(4)] build_type [OF _ l4 v4(4)]
    by (meson run_step data_ok.simps)
  with v1 ids l2 l3 l4 v4(2) v2(3) v3(3) v4(3) that [of tv1 tv2 tv3 tv4] show thesis by (simp add: seed_contents_def)
qed

lemma new_small:
  assumes "fst rt \<noteq> uid"
  shows "small_view (types_of (empty_pool uid) rt) []"
proof -
  have "pools_hold (types_of (empty_pool uid) rt) [] []"
    using empty_pool_holds [of uid] assms by (simp add: pools_hold_def types_of_def cache_ok_def empty_pool_def)
  then show ?thesis using new_view_ok(1) [OF assms]
    by (simp add: small_view_def) (simp add: types_of_def empty_pool_def new_cols_def new_vec_def)
qed

text \<open>Every primitive, \<open>Never\<close>, \<open>Poison\<close>, the empty list, the empty row and \<open>void\<close> of a new pool have
  the indexes that the constants of \<open>Ty\<close>, \<open>TyList\<close> and \<open>RowId\<close> are written with.\<close>

lemma seeded_constants:
  assumes "fst rt \<noteq> uid"
  shows "\<exists>tv. seeded_pool uid rt =
    Some (tv, map prim_word all_prims @ [TY_NEVER, TY_POISON, EMPTY_LIST, EMPTY_ROW, TY_VOID])"
  by (rule seed_views [OF new_small [OF assms]]) (simp add: seeded_pool_def)

lemma seeded_constants_witness:
  "\<exists>tv. seeded_pool 1 (0, []) =
    Some (tv, [0, 1, 2, 3, 4, 5, 6, 7, 8, 9, 10, 11, 12, 13, 14, 15, 16, 17, 18])"
  using seeded_constants [of "(0, [])" 1]
  by (simp add: all_prims_def prim_word_def TY_NEVER_def TY_POISON_def EMPTY_LIST_def EMPTY_ROW_def TY_VOID_def)

section \<open>Types as indexes\<close>

text \<open>A function type whose inputs are one tuple type: the list of its elements and its rest element.\<close>

fun one_tuple :: "types_view \<Rightarrow> ty_data \<Rightarrow> (u32 \<times> u32 option) option" where
  "one_tuple tv (TdFn params result row suspends TupleInputs deps) =
     (case list_items tv params of
        Some [one] \<Rightarrow> (case get_ty tv one of Some (TdTuple elems rest) \<Rightarrow> Some (elems, rest) | _ \<Rightarrow> None)
      | _ \<Rightarrow> None)"
| "one_tuple tv _ = None"

fun over_elements :: "ty_data \<Rightarrow> u32 \<Rightarrow> inputs \<Rightarrow> ty_data" where
  "over_elements (TdFn params result row suspends ins deps) elems ins' = TdFn elems result row suspends ins' deps"
| "over_elements d elems ins' = d"

lemma one_tuple_fn:
  assumes "one_tuple tv d = Some (elems, rest)"
  obtains params result row suspends deps one where "d = TdFn params result row suspends TupleInputs deps"
    "list_items tv params = Some [one]" "get_ty tv one = Some (TdTuple elems rest)"
  using assms by (cases "(tv, d)" rule: one_tuple.cases) (auto split: option.splits list.splits ty_data.splits)

lemma over_elements_ok: "one_tuple tv d = Some r \<Longrightarrow> data_ok (over_elements d l i) \<and> canon_data (over_elements d l i) = over_elements d l i"
  by (cases r) (auto elim!: one_tuple_fn)

text \<open>What the call interns.\<close>

lemma intern_data_forms:
  assumes "intern_data tv d = Some (tv', t)"
  obtains (plain) "one_tuple tv d = None" "intern_plain tv d = Some (tv', t)"
  | (fixed) elems where "one_tuple tv d = Some (elems, None)" "intern_plain tv (over_elements d elems Fixed) = Some (tv', t)"
  | (rest) elems r es u all where "one_tuple tv d = Some (elems, Some r)" "list_items tv elems = Some es"
      "intern_list tv (es @ [r]) = Some (u, all)" "intern_plain u (over_elements d all Rest) = Some (tv', t)"
proof (cases "one_tuple tv d")
  case None
  have "intern_plain tv d = Some (tv', t)"
  proof (cases "\<exists>params result row suspends deps. d = TdFn params result row suspends TupleInputs deps")
    case True
    then obtain params result row suspends deps where d: "d = TdFn params result row suspends TupleInputs deps" by blast
    with assms obtain ps where ps: "list_items tv params = Some ps" by (auto simp: intern_data_def bind_eq_Some_conv)
    show ?thesis
    proof (cases "\<exists>one. ps = [one]")
      case True
      then obtain one where one: "ps = [one]" by blast
      with assms d ps obtain e where e: "get_ty tv one = Some e" by (auto simp: intern_data_def bind_eq_Some_conv)
      with None d ps one have "\<nexists>elems rest. e = TdTuple elems rest" by auto
      with assms d ps one e show ?thesis by (cases e) (auto simp: intern_data_def)
    next
      case False
      with assms d ps show ?thesis by (auto simp: intern_data_def split: list.splits)
    qed
  next
    case False
    with assms show ?thesis by (cases d) (auto simp: intern_data_def split: inputs.splits)
  qed
  with None show thesis by (rule plain)
next
  case (Some r)
  then obtain elems w where r: "one_tuple tv d = Some (elems, w)" by (cases r) auto
  then obtain params result row suspends deps one where d: "d = TdFn params result row suspends TupleInputs deps"
    "list_items tv params = Some [one]" "get_ty tv one = Some (TdTuple elems w)" by (rule one_tuple_fn)
  show thesis
  proof (cases w)
    case None
    with assms r d show thesis by (intro fixed [of elems]) (simp_all add: intern_data_def)
  next
    case (Some x)
    from assms d Some obtain es u all where "list_items tv elems = Some es" "intern_list tv (es @ [x]) = Some (u, all)"
      "intern_plain u (over_elements d all Rest) = Some (tv', t)"
      by (auto simp: intern_data_def bind_eq_Some_conv)
    with r Some show thesis by (intro rest) simp_all
  qed
qed

lemma step_reached: "reached tv \<Longrightarrow> types_step tv tv' \<Longrightarrow> reached tv'"
  by (erule reached.cases) (auto intro: reached.intros run_step)

text \<open>An item interned from a type reads back in any later view.\<close>

lemma plain_reads_back:
  assumes "view_ok tv at" "data_ok e" "intern_plain tv e = Some (tv', t)" "room tv'" "types_run tv' tv''"
  shows "get_ty tv'' t = Some (canon_data e) \<and> at \<subseteq>\<^sub>m stored_at tv''"
proof (rule plain_view [OF assms(1-4)])
  fix at' assume "view_ok tv' at'" "at' t = Some (encode e)" "at \<subseteq>\<^sub>m at'"
  then have v: "view_ok tv' (stored_at tv')" "stored_at tv' t = Some (encode e)" "at \<subseteq>\<^sub>m stored_at tv'"
    using view_ok_stored by metis+
  have later: "view_ok tv'' (stored_at tv'')" "stored_at tv' \<subseteq>\<^sub>m stored_at tv''"
    using types_run_ok [OF assms(5) v(1)] by simp_all
  show ?thesis
    using view_reads(2) [OF later(1) map_le_Some [OF later(2) v(2)] assms(2)] map_le_trans [OF v(3) later(2)] by simp
qed

text \<open>C10. A type that was interned reads back, from its index and in any later view: in general as the type that
  was given, the bindings of a trait value in the order of their names. The one exception is the code's own: a
  function type whose inputs are one tuple type reads back as the function over the elements of the tuple, with
  \<open>Fixed\<close> inputs, or with \<open>Rest\<close> inputs and a list that has the tuple's rest element last. The type is one the
  pool can hold (\<open>data_ok\<close>: fewer than \<open>2 ^ 32\<close> bindings, a const value in the range of its type), and
  at most \<open>2 ^ 31\<close> items are in the global pool after the call (\<open>room\<close>).\<close>

theorem type_reads_back:
  assumes "reached tv" "data_ok d" "intern_data tv d = Some (tv', t)" "room tv'" "types_run tv' tv''"
  shows "case one_tuple tv d of
      None \<Rightarrow> get_ty tv'' t = Some (canon_data d)
    | Some (elems, None) \<Rightarrow> get_ty tv'' t = Some (over_elements d elems Fixed)
    | Some (elems, Some r) \<Rightarrow> (\<exists>es all. list_items tv elems = Some es \<and> list_items tv'' all = Some (es @ [r]) \<and>
        get_ty tv'' t = Some (over_elements d all Rest))"
  using assms(3)
proof (cases rule: intern_data_forms)
  case plain
  with plain_reads_back [OF reached_ok [OF assms(1)] assms(2) plain(2) assms(4,5)] show ?thesis by simp
next
  case (fixed elems)
  note ok = over_elements_ok [OF fixed(1), of elems Fixed]
  from plain_reads_back [OF reached_ok [OF assms(1)] ok [THEN conjunct1] fixed(2) assms(4,5)] fixed(1) ok
  show ?thesis by simp
next
  case (rest elems r es u all)
  note ok = over_elements_ok [OF rest(1), of all Rest]
  obtain at1 where u: "view_ok u at1" "at1 all = Some (list_content (es @ [r]))"
    by (rule list_view [OF reached_ok [OF assms(1)] rest(3) intern_plain_room [OF rest(4) assms(4)]])
  note reads = plain_reads_back [OF u(1) ok [THEN conjunct1] rest(4) assms(4,5)]
  have "view_ok tv'' (stored_at tv'')"
  proof (rule plain_view [OF u(1) ok [THEN conjunct1] rest(4) assms(4)])
    fix at' assume "view_ok tv' at'"
    then have "view_ok tv' (stored_at tv')" using view_ok_stored by metis
    with types_run_ok [OF assms(5)] show ?thesis by simp
  qed
  from view_reads(1) [OF this map_le_Some [OF reads [THEN conjunct2] u(2)]] reads ok rest(1,2) show ?thesis by auto
qed



text \<open>C11. The meta word kept beside an index is the one its type has: its flags say whether a variable,
  a parameter or any other marked form occurs anywhere in the type.\<close>

theorem stored_meta:
  assumes "reached tv" "denotes (stored_at tv) t \<tau>"
  shows "meta_word tv t = Some (meta_of \<tau>)"
  by (rule denotes_meta(1) [OF reached_ok [OF assms(1)] assms(2)])




section \<open>A sample\<close>

text \<open>In a new pool, \<open>i32?\<close> gets the next index and the row of \<open>i32\<close> the one after it.\<close>

lemma seed_denotes:
  assumes "small_view tv seed_contents"
  shows "denotes (stored_at tv) 2 (Prim I32)"
proof -
  have "stored_at tv 2 = Some (encode (TdPrim I32))"
    using small_stored [OF assms, of 2]
    by (simp add: seed_contents_def seed_types_def all_prims_def)
  then show ?thesis by (rule denotes_item) (simp_all add: shape_simps)
qed

lemma sample:
  obtains tv tv' tv'' where "reached tv" "shape (stored_at tv) (TdOption 2) (OptionTy (Prim I32))"
    "intern_data tv (TdOption 2) = Some (tv', 19)" "room tv'" "reached tv'"
    "denotes (stored_at tv') 2 (Prim I32)" "denotes (stored_at tv') 19 (OptionTy (Prim I32))"
    "pool_row tv' [2, 2] [] = Some (tv'', 20)" "room tv''" "types_run tv' tv''"
proof (rule seed_views [OF new_small [of "(0, [])" 1]])
  fix tv assume s: "small_view tv seed_contents" "types_run (types_of (empty_pool 1) (0, [])) tv"
  have r: "reached tv" by (rule reached.intros(1) [OF _ s(2)]) simp
  have sh: "shape (stored_at tv) (TdOption 2) (OptionTy (Prim I32))"
    using seed_denotes [OF s(1)] by (simp add: shape_simps)
  have ok: "view_ok tv (stored_at tv)" using s(1) by (simp add: small_view_def)
  have m: "meta_word tv 2 = Some 0" using denotes_meta(1) [OF ok seed_denotes [OF s(1)]] by simp
  then have f: "flags_of (meta_word tv) (encode (TdOption 2)) 0" by (intro flags_of.intros(4)) simp_all
  have len: "length seed_contents = 19" by (simp add: seed_contents_def seed_types_def all_prims_def)
  have new: "encode (TdOption 2) \<notin> set seed_contents" "short_content (encode (TdOption 2))"
    using encode_ok [of "TdOption 2"]
    by (simp_all add: seed_contents_def seed_types_def all_prims_def content_defs short_content_def)
  obtain tv' where i: "intern_content tv (encode (TdOption 2)) 0 = Some (tv', 19)"
    "small_view tv' (seed_contents @ [encode (TdOption 2)])" "room tv'"
    using small_intern [OF s(1) _ new(2,1) f] len by auto
  have d: "intern_data tv (TdOption 2) = Some (tv', 19)"
    using i(1) m by (simp add: intern_data_def intern_plain_def data_meta_def)
  have r': "reached tv'" by (rule step_reached [OF r build_type [OF _ d i(3)]]) simp
  have p: "denotes (stored_at tv') 2 (Prim I32)"
  proof (rule denotes_item)
    show "stored_at tv' 2 = Some (encode (TdPrim I32))"
      using small_stored [OF i(2), of 2] len
      by (simp add: nth_append) (simp add: seed_contents_def seed_types_def all_prims_def)
  qed (simp_all add: shape_simps)
  have o: "denotes (stored_at tv') 19 (OptionTy (Prim I32))"
  proof (rule denotes_item)
    show "stored_at tv' 19 = Some (encode (TdOption 2))"
      using small_stored [OF i(2), of 19] len by (simp add: nth_append)
  qed (use p in \<open>simp_all add: shape_simps\<close>)
  have ok': "view_ok tv' (stored_at tv')" using i(2) by (simp add: small_view_def)
  have m': "meta_word tv' 2 = Some 0" using denotes_meta(1) [OF ok' p] by simp
  have f': "flags_of (meta_word tv') (row_content [2] []) 0"
    by (rule flags_of.intros(2)) (simp_all add: m' row_flags_def)
  have new': "row_content [2] [] \<notin> set (seed_contents @ [encode (TdOption 2)])" "short_content (row_content [2] [])"
    using other_contents_ok(2) [of "[2]" "[]"]
    by (simp_all add: seed_contents_def seed_types_def all_prims_def content_defs short_content_def)
  obtain tv'' where w: "intern_content tv' (row_content [2] []) 0 = Some (tv'', 20)" "room tv''"
    using small_intern [OF i(2) _ new'(2,1) f'] len by auto
  have get: "get_ty tv' 2 = Some (TdPrim I32)"
    using view_reads(2) [OF ok', of 2 "TdPrim I32"] small_stored [OF i(2), of 2] len
    by (simp add: nth_append) (simp add: seed_contents_def seed_types_def all_prims_def)
  have row: "pool_row tv' [2, 2] [] = Some (tv'', 20)"
    using w(1) m' get by (simp add: pool_row_def fit_u32_def)
  show thesis
    by (rule that [OF r sh d i(3) r' p o row w(2) types_run_one [OF build_row [OF row w(2)]]])
qed simp

lemma type_reads_back_witness:
  "\<exists>tv tv' tv''. reached tv \<and> intern_data tv (TdOption 2) = Some (tv', 19) \<and> types_run tv' tv'' \<and>
     get_ty tv'' 19 = Some (TdOption 2)"
proof -
  obtain tv tv' tv'' where s: "reached tv" "intern_data tv (TdOption 2) = Some (tv', 19)" "room tv'" "types_run tv' tv''"
    by (rule sample)
  from type_reads_back [OF s(1) _ s(2-4)] have "get_ty tv'' 19 = Some (TdOption 2)" by simp
  with s show ?thesis by blast
qed



lemma stored_meta_witness: "\<exists>tv. reached tv \<and> meta_word tv 19 = Some 0"
proof -
  obtain tv where s: "reached tv" "denotes (stored_at tv) 19 (OptionTy (Prim I32))" by (rule sample)
  from stored_meta [OF s] s(1) show ?thesis by auto
qed


end
