(* ===== verification/PoolDeps.thy ===== *)
theory PoolDeps
  imports PoolSeed
begin

text \<open>
  The dependency maps of function types (\<open>fn_deps\<close>, \<open>deps_of\<close>): which input reference slots each result slot
  depends on. Lifetimes are renumbered by first occurrence. What comes back from the pool depends exactly as
  what was given (\<open>deps_kept\<close>), and two maps that differ only in the names of their lifetimes are one item
  (\<open>deps_renamed\<close>). The words \<open>1 << 31 | k\<close> are taken: the code names with them the input slots that no result
  depends on.
\<close>

section \<open>Reading a map back\<close>

lemma deps_of_item:
  assumes "pools_hold tv G L" "item_of tv G L d = Some (deps_content ins outs)" "d \<noteq> DEPS_NONE"
    "length ins < 2 ^ 32"
  shows "deps_of tv d = Some (Some (ins, outs))"
proof -
  obtain cs its k where k: "view_at tv d = Some (cs, k)" "cols_hold cs its" "k < length its"
    "its ! k = deps_content ins outs"
    by (rule view_item [OF assms(1,2)])
  have t: "ct_tag (its ! k) = PtDeps" "ct_head (its ! k) = word_of_nat (length ins) # word_of_nat (length outs) # ins @ outs"
    using k(4) by (simp_all add: deps_content_def)
  have "record_of cs PtDeps (items (pc_data cs) ! k) = Some (word_of_nat (length ins) # word_of_nat (length outs) # ins @ outs)"
    using cols_hold_record_of [OF k(2,3)] t by simp
  with k(1) cols_hold_stored(5) [OF k(2,3)] assms(3) unat_small [OF assms(4)] show ?thesis
    by (simp add: deps_of_def get_at_def get_range_def)
qed

section \<open>Numbering\<close>

definition own_lifetime :: "u32 list \<Rightarrow> nat \<Rightarrow> u32 \<Rightarrow> u32" where
  "own_lifetime outs k l = (if l \<in> set outs then l else push_bit 31 1 OR word_of_nat k)"

definition index_in :: "'a list \<Rightarrow> 'a \<Rightarrow> nat" where
  "index_in xs x = length (takeWhile (\<lambda>y. y \<noteq> x) xs)"

lemma index_in_nth: "x \<in> set xs \<Longrightarrow> index_in xs x < length xs \<and> xs ! index_in xs x = x"
  unfolding index_in_def by (induction xs) auto

lemma index_in_absent: "x \<notin> set xs \<Longrightarrow> index_in xs x = length xs"
  unfolding index_in_def by (induction xs) auto

lemma index_in_append: "x \<in> set xs \<Longrightarrow> index_in (xs @ ys) x = index_in xs x"
  unfolding index_in_def by (induction xs) auto

lemma index_in_less: "index_in xs x < length xs \<longleftrightarrow> x \<in> set xs"
  by (cases "x \<in> set xs") (simp_all add: index_in_nth index_in_absent)

lemma index_in_new: "x \<notin> set xs \<Longrightarrow> index_in (xs @ [x]) x = length xs"
  unfolding index_in_def by (induction xs) auto

lemma index_in_inject: "x \<in> set xs \<Longrightarrow> y \<in> set xs \<Longrightarrow> index_in xs x = index_in xs y \<longleftrightarrow> x = y"
  using index_in_nth [of x xs] index_in_nth [of y xs] by metis

lemma index_in_map: "inj_on g (insert x (set xs)) \<Longrightarrow> index_in (map g xs) (g x) = index_in xs x"
  unfolding index_in_def by (induction xs) (auto simp: inj_on_def)

text \<open>The names as they are met, each once.\<close>

definition meet :: "'a list \<Rightarrow> 'a \<Rightarrow> 'a list" where
  "meet seen l = (if l \<in> set seen then seen else seen @ [l])"

lemma meet_set [simp]: "set (meet seen l) = insert l (set seen)"
  by (auto simp: meet_def)

lemma index_in_meet: "x \<in> set seen \<Longrightarrow> index_in (meet seen l) x = index_in seen x"
  by (simp add: meet_def index_in_append)

lemma index_in_met: "index_in (meet seen l) l = index_in seen l"
  by (simp add: meet_def index_in_new index_in_absent)

lemma number_ins_Cons:
  "number_ins outs k (l # ls) seen =
   (let o_l = own_lifetime outs k l; (seen', ws) = number_ins outs (Suc k) ls (meet seen o_l)
    in (seen', word_of_nat (index_in seen o_l + 1) # ws))"
  using index_in_less [of seen "own_lifetime outs k l"]
  by (simp add: Let_def own_lifetime_def meet_def index_in_def split: prod.splits)

declare number_ins.simps(2) [simp del]

lemma number_ins_names:
  "number_ins outs k ls seen = (seen', ws) \<Longrightarrow>
   length seen' \<le> length seen + length ls \<and>
   set seen' = set seen \<union> (\<lambda>i. own_lifetime outs (k + i) (ls ! i)) ` {..<length ls} \<and>
   (\<forall>x \<in> set seen. index_in seen' x = index_in seen x) \<and>
   ws = map (\<lambda>i. word_of_nat (index_in seen' (own_lifetime outs (k + i) (ls ! i)) + 1)) [0..<length ls]"
proof (induction ls arbitrary: k seen seen' ws)
  case (Cons l ls)
  let ?l = "own_lifetime outs k l"
  obtain s w where sw: "number_ins outs (Suc k) ls (meet seen ?l) = (s, w)" by force
  with Cons.prems have r: "seen' = s" "ws = word_of_nat (index_in seen ?l + 1) # w"
    by (simp_all add: number_ins_Cons Let_def)
  note I = Cons.IH [OF sw]
  have "(\<lambda>i. own_lifetime outs (k + i) ((l # ls) ! i)) ` {..<length (l # ls)} =
      insert ?l ((\<lambda>i. own_lifetime outs (Suc k + i) (ls ! i)) ` {..<length ls})"
    by (simp add: lessThan_Suc_eq_insert_0 image_image)
  moreover have "index_in s ?l = index_in seen ?l" using I by (simp add: index_in_met)
  moreover have "[0..<length (l # ls)] = 0 # map Suc [0..<length ls]" by (simp add: map_Suc_upt upt_conv_Cons del: upt_Suc)
  moreover have "length (meet seen ?l) \<le> Suc (length seen)" by (simp add: meet_def)
  ultimately show ?case using I r index_in_meet [of _ seen ?l] by (auto simp: comp_def)
qed simp

lemma number_out_index: "number_out seen l = (if l \<noteq> 0 \<and> l \<in> set seen then word_of_nat (index_in seen l + 1) else 0)"
proof (cases "l = 0")
  case True
  then show ?thesis by (simp add: number_out_def Let_def takeWhile_eq_all_conv [THEN iffD2])
next
  case False
  then have "(\<lambda>x. \<not> (x = l \<and> l \<noteq> 0)) = (\<lambda>x. x \<noteq> l)" by simp
  with False index_in_less [of seen l] show ?thesis
    unfolding number_out_def index_in_def by (simp add: Let_def)
qed

section \<open>What a map says\<close>

text \<open>The word that stands for the lifetime of the input slot \<open>k\<close> alone; a name given below \<open>2 ^ 31\<close> is none.\<close>

definition slot_name :: "nat \<Rightarrow> u32" where
  "slot_name k = push_bit 31 1 OR word_of_nat k"

lemma low_no_slot: "unat l < 2 ^ 31 \<Longrightarrow> l \<noteq> slot_name k"
proof
  assume "unat l < 2 ^ 31" "l = slot_name k"
  moreover have "bit (slot_name k) 31" unfolding slot_name_def by (simp only: bit_or_iff LOCAL_def [symmetric] bit_LOCAL) simp
  moreover have "\<not> bit l 31" using \<open>unat l < 2 ^ 31\<close> by (simp add: is_global [symmetric] global_small)
  ultimately show False by simp
qed

lemma own_is_named: "l \<noteq> slot_name k \<Longrightarrow> l \<in> set outs \<Longrightarrow> l = own_lifetime outs k m \<longleftrightarrow> l = m"
  by (auto simp: own_lifetime_def slot_name_def)

lemma numbers_depend:
  assumes "number_ins outs 0 ins [] = (seen, ws)" "length ins + 1 < 2 ^ 32" "\<forall>l \<in> set outs. \<forall>k < length ins. l \<noteq> slot_name k"
    "i < length ins" "j < length outs"
  shows "number_out seen (outs ! j) = ws ! i \<and> number_out seen (outs ! j) \<noteq> 0 \<longleftrightarrow> outs ! j = ins ! i \<and> outs ! j \<noteq> 0"
proof -
  let ?own = "own_lifetime outs i (ins ! i)"
  note N = number_ins_names [OF assms(1)]
  have ws: "ws ! i = word_of_nat (index_in seen ?own + 1)" using N assms(4) by simp
  have own: "?own \<in> set seen" using N assms(4) by auto
  have small: "unat (word_of_nat (index_in seen x + 1) :: u32) = index_in seen x + 1" if "x \<in> set seen" for x
    using index_in_less [of seen x] that N assms(2) by (intro unat_small) simp
  have nz: "(word_of_nat (index_in seen x + 1) :: u32) \<noteq> 0" if "x \<in> set seen" for x
    using small [OF that] by (metis Suc_eq_plus1 nat.distinct(1) unsigned_0)
  have o: "outs ! j \<in> set outs" using assms(5) by simp
  have same: "outs ! j = ?own \<longleftrightarrow> outs ! j = ins ! i" using assms(3,4) o by (intro own_is_named) blast+
  show ?thesis
  proof (cases "outs ! j \<noteq> 0 \<and> outs ! j \<in> set seen")
    case True
    then have "number_out seen (outs ! j) = ws ! i \<longleftrightarrow> index_in seen (outs ! j) = index_in seen ?own"
      using small [of "outs ! j"] small [OF own] unfolding ws number_out_index by (metis add_right_cancel)
    with True own same nz [of "outs ! j"] show ?thesis by (simp add: index_in_inject number_out_index)
  next
    case False
    with own same show ?thesis by (auto simp: number_out_index)
  qed
qed

text \<open>C13. A dependency map keeps its meaning, as long as no result lifetime is one of the words \<open>1 << 31 | k\<close> with
  which the code names the input slots, as no name below \<open>2 ^ 31\<close> is, and at most \<open>2 ^ 31\<close> items are in
  the global pool after the call (\<open>room\<close>). The map of a function without result slots is the map \<open>NONE\<close>. For any
  other, what is read back, in any later view, has a slot for each that was given, and a result slot depends on
  an input slot exactly when it did.\<close>

theorem deps_kept:
  assumes "reached tv" "pool_fn_deps tv ins outs = Some (tv', d)" "room tv'" "types_run tv' tv''"
    "\<forall>l \<in> set outs. \<forall>k < length ins. l \<noteq> slot_name k"
  shows "if outs = [] then deps_of tv'' d = Some None
    else \<exists>ws os. deps_of tv'' d = Some (Some (ws, os)) \<and> length ws = length ins \<and> length os = length outs \<and>
      (\<forall>i < length ins. \<forall>j < length outs.
         (os ! j = ws ! i \<and> os ! j \<noteq> 0) = (outs ! j = ins ! i \<and> outs ! j \<noteq> 0))"
proof (cases "outs = []")
  case True
  with assms(2) have "d = DEPS_NONE" by (simp add: pool_fn_deps_def)
  with True show ?thesis by (simp add: deps_of_def)
next
  case False
  have "\<exists>ws os. deps_of tv'' d = Some (Some (ws, os)) \<and> length ws = length ins \<and> length os = length outs \<and>
      (\<forall>i < length ins. \<forall>j < length outs.
         (os ! j = ws ! i \<and> os ! j \<noteq> 0) = (outs ! j = ins ! i \<and> outs ! j \<noteq> 0))"
  proof (rule deps_view [OF reached_ok [OF assms(1)] assms(2,3) False])
    fix at' seen ws
    assume v: "view_ok tv' at'" "number_ins outs 0 ins [] = (seen, ws)" "at' d = Some (deps_content ws (map (number_out seen) outs))"
    have len: "length ins + 1 < 2 ^ 32" "length ws = length ins"
      using assms(2) False number_ins_length [of outs 0 ins "[]"] v(2) by (auto simp: pool_fn_deps_def bind_eq_Some_conv)
    have s: "view_ok tv' (stored_at tv')" "stored_at tv' d = Some (deps_content ws (map (number_out seen) outs))"
      using v(1,3) view_ok_stored by metis+
    have later: "view_ok tv'' (stored_at tv'')" "stored_at tv' \<subseteq>\<^sub>m stored_at tv''"
      using types_run_ok [OF assms(4) s(1)] by simp_all
    note at = map_le_Some [OF later(2) s(2)]
    obtain w where w: "flags_of (meta_word tv'') (deps_content ws (map (number_out seen) outs)) w" "d AND LOCAL = 0 \<longleftrightarrow> w AND HAS_INFER = 0"
      using view_okD [OF later(1) at] by blast
    from w(1) have "w = 0"
    proof cases
      case (4 e)
      with encode_not_other(3) [of e ws "map (number_out seen) outs"] show ?thesis by simp
    qed (simp_all add: content_defs)
    with w(2) have g: "d AND LOCAL = 0" by simp
    have "d \<noteq> DEPS_NONE"
    proof
      assume "d = DEPS_NONE"
      with g show False by (simp add: DEPS_NONE_def LOCAL_def)
    qed
    moreover obtain G L where "pools_hold tv'' G L" "stored_at tv'' = item_of tv'' G L"
      using later(1) by (auto simp: view_ok_def)
    ultimately have "deps_of tv'' d = Some (Some (ws, map (number_out seen) outs))"
      using at len by (intro deps_of_item) simp_all
    with len numbers_depend [OF v(2) len(1) assms(5)] show ?thesis
      by (intro exI [of _ ws] exI [of _ "map (number_out seen) outs"] conjI) simp_all
  qed
  with False show ?thesis by simp
qed

text \<open>A name that the code uses for a slot: the result of \<open>ins = [5]\<close>, \<open>outs = [1 << 31]\<close> has a lifetime that
  no input has, and the map says that it depends on the input.\<close>

lemma deps_name_taken: "number_ins [slot_name 0] 0 [5] [] = ([slot_name 0], [1]) \<and> number_out [slot_name 0] (slot_name 0) = 1"
proof -
  have n: "slot_name 0 = 2147483648" by (simp add: slot_name_def)
  show ?thesis unfolding n by (simp add: number_ins_Cons own_lifetime_def meet_def index_in_def number_out_index)
qed

section \<open>Names do not matter\<close>

lemma own_renamed:
  assumes "inj_on f (insert l (set outs))"
  shows "own_lifetime (map f outs) k (f l) = (if l \<in> set outs then f l else own_lifetime outs k l)"
  using assms by (auto simp: own_lifetime_def inj_on_def)

lemma number_ins_renamed:
  assumes "inj_on f A" "set outs \<subseteq> A" "\<forall>l \<in> A. unat l < 2 ^ 31 \<and> unat (f l) < 2 ^ 31"
  defines "g \<equiv> \<lambda>x. if bit x 31 then x else f x"
  shows "set ls \<subseteq> A \<Longrightarrow> set seen \<subseteq> A \<union> {x. bit x 31} \<Longrightarrow> number_ins outs k ls seen = (seen', ws) \<Longrightarrow>
    number_ins (map f outs) k (map f ls) (map g seen) = (map g seen', ws) \<and> set seen' \<subseteq> A \<union> {x. bit x 31}"
proof (induction ls arbitrary: k seen seen' ws)
  case (Cons l ls)
  let ?o = "own_lifetime outs k l"
  have low: "\<not> bit x 31" "\<not> bit (f x) 31" if "x \<in> A" for x
    using assms(3) that by (simp_all add: is_global [symmetric] global_small)
  have inj: "inj_on g (A \<union> {x. bit x 31})"
    using assms(1) low unfolding g_def inj_on_def by (metis Un_iff mem_Collect_eq)
  have high: "bit ?o 31" if "l \<notin> set outs"
    unfolding own_lifetime_def using that by (simp only: if_False bit_or_iff LOCAL_def [symmetric] bit_LOCAL) simp
  have l: "l \<in> A" using Cons.prems(1) by simp
  have o: "?o \<in> A \<union> {x. bit x 31}"
  proof (cases "l \<in> set outs")
    case True
    with assms(2) show ?thesis by (auto simp: own_lifetime_def)
  next
    case False
    with high show ?thesis by simp
  qed
  have name: "own_lifetime (map f outs) k (f l) = g ?o"
  proof (cases "l \<in> set outs")
    case True
    with low(1) [OF l] show ?thesis by (simp add: own_lifetime_def g_def)
  next
    case False
    have "inj_on f (insert l (set outs))" using assms(1,2) l by (meson inj_on_subset insert_subset)
    with False high [OF False] show ?thesis by (simp add: own_renamed g_def)
  qed
  have sub: "set (meet seen ?o) \<subseteq> A \<union> {x. bit x 31}" using Cons.prems(2) o by simp
  have "g ?o \<in> g ` set seen \<longleftrightarrow> ?o \<in> set seen"
    using inj_on_image_mem_iff [OF inj] o Cons.prems(2) by blast
  then have m: "meet (map g seen) (g ?o) = map g (meet seen ?o)" by (simp add: meet_def)
  have ix: "index_in (map g seen) (g ?o) = index_in seen ?o"
    using o Cons.prems(2) by (intro index_in_map inj_on_subset [OF inj]) auto
  obtain s w where sw: "number_ins outs (Suc k) ls (meet seen ?o) = (s, w)" by force
  with Cons.prems(3) have r: "seen' = s" "ws = word_of_nat (index_in seen ?o + 1) # w"
    by (simp_all add: number_ins_Cons Let_def)
  have "number_ins (map f outs) (Suc k) (map f ls) (map g (meet seen ?o)) = (map g s, w) \<and> set s \<subseteq> A \<union> {x. bit x 31}"
    by (rule Cons.IH [OF _ sub sw]) (use Cons.prems(1) in simp)
  with r name m ix show ?case by (simp add: number_ins_Cons Let_def)
qed simp

text \<open>Maps that differ only in the names of their lifetimes are one item: renaming the lifetimes, with 0 for
  none kept, gives the same index and the same pool.\<close>

lemma deps_renamed:
  assumes "inj_on f (insert 0 (set ins \<union> set outs))" "f 0 = 0"
    "\<forall>l \<in> set ins \<union> set outs. unat l < 2 ^ 31 \<and> unat (f l) < 2 ^ 31"
  shows "pool_fn_deps tv (map f ins) (map f outs) = pool_fn_deps tv ins outs"
proof -
  let ?A = "insert 0 (set ins \<union> set outs)" and ?g = "\<lambda>x :: u32. if bit x 31 then x else f x"
  obtain seen ws where n: "number_ins outs 0 ins [] = (seen, ws)" by force
  have A: "\<forall>l \<in> ?A. unat l < 2 ^ 31 \<and> unat (f l) < 2 ^ 31" using assms(2,3) by simp
  have R: "number_ins (map f outs) 0 (map f ins) [] = (map ?g seen, ws) \<and> set seen \<subseteq> ?A \<union> {x. bit x 31}"
    using number_ins_renamed [OF assms(1) _ A, of outs ins "[]" 0 seen ws] n by auto
  have out: "number_out (map ?g seen) (f l) = number_out seen l" if "l \<in> set outs" for l
  proof -
    have low: "\<not> bit x 31" "\<not> bit (f x) 31" if "x \<in> ?A" for x
      using A that by (simp_all only: is_global [symmetric] global_small)
    have inj: "inj_on ?g (?A \<union> {x. bit x 31})"
      using assms(1) low unfolding inj_on_def by (metis Un_iff mem_Collect_eq)
    have l: "l \<in> ?A" "f l = ?g l" using that low(1) by simp_all
    have "f l = 0 \<longleftrightarrow> l = 0" using assms(1,2) l(1) by (metis inj_onD insertI1)
    then have "?g l = 0 \<longleftrightarrow> l = 0" using low(1) [OF l(1)] by simp
    moreover have "?g l \<in> ?g ` set seen \<longleftrightarrow> l \<in> set seen"
      using inj_on_image_mem_iff [OF inj] l(1) R by blast
    moreover have "index_in (map ?g seen) (?g l) = index_in seen l"
      using l(1) R by (intro index_in_map inj_on_subset [OF inj]) auto
    ultimately have "number_out (map ?g seen) (?g l) = number_out seen l" by (simp only: number_out_index set_map)
    then show ?thesis by (subst l(2))
  qed
  then have "map (number_out (map ?g seen)) (map f outs) = map (number_out seen) outs" by simp
  then show ?thesis
    unfolding pool_fn_deps_def Let_def n R [THEN conjunct1] prod.case by (simp only: length_map map_is_Nil_conv)
qed

lemma deps_renamed_witness:
  "pool_fn_deps (types_of (empty_pool 1) (0, [])) (map (\<lambda>x. x * 2) [5, 7, 5]) (map (\<lambda>x. x * 2) [7, 0]) =
   pool_fn_deps (types_of (empty_pool 1) (0, [])) [5, 7, 5] [7, 0]"
  by (rule deps_renamed) (auto simp: inj_on_def)

text \<open>In a new pool, the map of \<open>fn(&'5 A, &'7 B) -> &'7 C\<close>.\<close>

lemma deps_kept_witness:
  "\<exists>tv tv' ws os. reached tv \<and> pool_fn_deps tv [5, 7] [7] = Some (tv', 19) \<and> deps_of tv' 19 = Some (Some (ws, os)) \<and>
     os ! 0 = ws ! 1 \<and> os ! 0 \<noteq> ws ! 0"
proof (rule seed_views [OF new_small [of "(0, [])" 1]])
  fix tv assume s: "small_view tv seed_contents" "types_run (types_of (empty_pool 1) (0, [])) tv"
  have r: "reached tv" by (rule reached.intros(1) [OF _ s(2)]) simp
  have n: "number_ins [7] 0 [5, 7] [] = ([2147483648, 7], [1, 2])"
    by (simp add: number_ins_Cons own_lifetime_def meet_def index_in_def)
  have new: "deps_content [1, 2] [2] \<notin> set seed_contents" "short_content (deps_content [1, 2] [2])"
    using other_contents_ok(3) [of "[1, 2]" "[2]"]
    by (simp_all add: seed_contents_def seed_types_def all_prims_def content_defs short_content_def)
  have f: "flags_of (meta_word tv) (deps_content [1, 2] [2]) 0" by (rule flags_of.intros(3)) simp_all
  obtain tv' where i: "intern_content tv (deps_content [1, 2] [2]) 0 = Some (tv', 19)" "room tv'"
    using small_intern [OF s(1) _ new(2,1) f] by (auto simp: seed_contents_def seed_types_def all_prims_def)
  have d: "pool_fn_deps tv [5, 7] [7] = Some (tv', 19)"
    using i(1) by (simp add: pool_fn_deps_def fit_u32_def n number_out_index index_in_def)
  have low: "\<forall>l \<in> set [7 :: u32]. \<forall>k < length [5, 7 :: u32]. l \<noteq> slot_name k" using low_no_slot [of 7] by simp
  obtain ws os where w: "deps_of tv' 19 = Some (Some (ws, os))"
    and all: "\<forall>i < length [5, 7 :: u32]. \<forall>j < length [7 :: u32].
      (os ! j = ws ! i \<and> os ! j \<noteq> 0) = ([7] ! j = [5, 7 :: u32] ! i \<and> [7 :: u32] ! j \<noteq> 0)"
    using deps_kept [OF r d i(2) run_here low] by (simp only: list.distinct if_False) blast
  have at: "1 < length [5, 7 :: u32]" "0 < length [5, 7 :: u32]" "0 < length [7 :: u32]" by simp_all
  have "[7] ! 0 = [5, 7 :: u32] ! 1 \<and> [7 :: u32] ! 0 \<noteq> 0" "[7] ! 0 \<noteq> [5, 7 :: u32] ! 0" by simp_all
  then have "os ! 0 = ws ! 1 \<and> os ! 0 \<noteq> 0" "\<not> (os ! 0 = ws ! 0 \<and> os ! 0 \<noteq> 0)" using all at by blast+
  then have "os ! 0 = ws ! 1 \<and> os ! 0 \<noteq> ws ! 0" by blast
  with r d w(1) show ?thesis by blast
qed simp

end
