(* ===== verification/Lifetimes.thy ===== *)
theory Lifetimes
  imports PoolDeps
begin

text \<open>
  The lifetimes of a function type (\<^verbatim>\<open>crates/hd_types/src/pool.rs\<close>): the reference slots of a type in
  pre-order (\<open>ref_slots\<close>), the dependency map that written lifetimes give (\<open>fn_deps_written\<close>) with its two
  rules of elision, and the map of a function type when it lines up with its slots (\<open>fn_ty_deps\<close>). Types are
  trees; \<open>tree_deps\<close> is the content of the item that \<open>pool_fn_deps\<close> interns.
\<close>

section \<open>Reference slots\<close>

fun ref_slots_at :: "nat \<Rightarrow> ty \<Rightarrow> nat" where
  "ref_slots_at depth (RefTy i m c) =
     (if depth > 32 \<or> \<not> has_ref (RefTy i m c) \<or> c then 0 else 1 + ref_slots_at (depth + 1) i)"
| "ref_slots_at depth (Opaque ow site borrows args bound) =
     (if depth > 32 \<or> \<not> has_ref (Opaque ow site borrows args bound) \<or> \<not> borrows then 0 else 1)"
| "ref_slots_at depth (Mut i) = (if depth > 32 \<or> \<not> has_ref (Mut i) then 0 else ref_slots_at (depth + 1) i)"
| "ref_slots_at depth (OptionTy i) = (if depth > 32 \<or> \<not> has_ref (OptionTy i) then 0 else ref_slots_at (depth + 1) i)"
| "ref_slots_at depth (Tuple elems rest) =
     (if depth > 32 \<or> \<not> has_ref (Tuple elems rest) then 0
      else sum_list (map (ref_slots_at (depth + 1)) elems) +
        (case rest of None \<Rightarrow> 0 | Some r \<Rightarrow> ref_slots_at (depth + 1) r))"
| "ref_slots_at depth (Union members) =
     (if depth > 32 \<or> \<not> has_ref (Union members) then 0 else sum_list (map (ref_slots_at (depth + 1)) members))"
| "ref_slots_at depth (Adt d args) =
     (if depth > 32 \<or> \<not> has_ref (Adt d args) then 0 else sum_list (map (ref_slots_at (depth + 1)) args))"
| "ref_slots_at depth (TraitValue d args bindings) =
     (if depth > 32 \<or> \<not> has_ref (TraitValue d args bindings) then 0
      else sum_list (map (ref_slots_at (depth + 1)) args))"
| "ref_slots_at depth t = 0"

definition ref_slots :: "ty \<Rightarrow> nat" where
  "ref_slots t = ref_slots_at 0 t"

text \<open>The slots counted without the flag and without the limit.\<close>

fun slots :: "ty \<Rightarrow> nat" where
  "slots (RefTy i m c) = (if c then 0 else 1 + slots i)"
| "slots (Opaque ow site borrows args bound) = of_bool borrows"
| "slots (Mut i) = slots i"
| "slots (OptionTy i) = slots i"
| "slots (Tuple elems rest) = sum_list (map slots elems) + (case rest of None \<Rightarrow> 0 | Some r \<Rightarrow> slots r)"
| "slots (Union members) = sum_list (map slots members)"
| "slots (Adt d args) = sum_list (map slots args)"
| "slots (TraitValue d args bindings) = sum_list (map slots args)"
| "slots t = 0"

fun slot_depth :: "ty \<Rightarrow> nat" where
  "slot_depth (RefTy i m c) = Suc (slot_depth i)"
| "slot_depth (Mut i) = Suc (slot_depth i)"
| "slot_depth (OptionTy i) = Suc (slot_depth i)"
| "slot_depth (Tuple elems rest) = Suc (max (fold max (map slot_depth elems) 0) (case rest of None \<Rightarrow> 0 | Some r \<Rightarrow> slot_depth r))"
| "slot_depth (Union members) = Suc (fold max (map slot_depth members) 0)"
| "slot_depth (Adt d args) = Suc (fold max (map slot_depth args) 0)"
| "slot_depth (TraitValue d args bindings) = Suc (fold max (map slot_depth args) 0)"
| "slot_depth t = 1"

lemma fold_max_le: "fold max xs a \<le> n \<longleftrightarrow> a \<le> n \<and> (\<forall>x \<in> set xs. x \<le> (n :: nat))"
  by (induction xs arbitrary: a) auto

lemma fold_max_part: "x \<in> set xs \<Longrightarrow> f x \<le> fold max (map f xs) (0 :: nat)"
  using fold_max_le [of "map f xs" 0 "fold max (map f xs) 0"] by simp

lemma no_ref_slots: "\<not> has_ref t \<Longrightarrow> slots t = 0"
  by (induction t rule: slots.induct)
    (auto simp: has_ref_def flags flag_words sum_list_eq_0_iff split: option.splits if_splits)

lemma slots_list:
  assumes "\<And>x. x \<in> set xs \<Longrightarrow> depth + slot_depth x \<le> 32 \<Longrightarrow> ref_slots_at (Suc depth) x = slots x"
    "depth + fold max (map slot_depth xs) 0 \<le> 32"
  shows "map (ref_slots_at (Suc depth)) xs = map slots xs"
proof (rule map_cong [OF refl])
  fix x assume x: "x \<in> set xs"
  then show "ref_slots_at (Suc depth) x = slots x"
    using assms(2) fold_max_part [OF x, of slot_depth] by (intro assms(1)) simp_all
qed

lemma slots_at: "depth + slot_depth t \<le> 33 \<Longrightarrow> ref_slots_at depth t = slots t"
proof (induction depth t rule: ref_slots_at.induct)
  case (5 depth elems rest)
  show ?case
  proof (cases "has_ref (Tuple elems rest)")
    case True
    have "map (ref_slots_at (Suc depth)) elems = map slots elems"
      using 5 True by (intro slots_list) simp_all
    moreover have "(case rest of None \<Rightarrow> 0 | Some r \<Rightarrow> ref_slots_at (depth + 1) r) = (case rest of None \<Rightarrow> 0 | Some r \<Rightarrow> slots r)"
      using 5 True by (auto split: option.splits)
    ultimately show ?thesis using True 5 by (simp cong: map_cong)
  qed (use no_ref_slots in \<open>simp del: slots.simps\<close>)
next
  case (6 depth members)
  show ?case
  proof (cases "has_ref (Union members)")
    case True
    with 6 have "map (ref_slots_at (Suc depth)) members = map slots members" by (intro slots_list) simp_all
    with True 6 show ?thesis by (simp cong: map_cong)
  qed (use no_ref_slots in \<open>simp del: slots.simps\<close>)
next
  case (7 depth d args)
  show ?case
  proof (cases "has_ref (Adt d args)")
    case True
    with 7 have "map (ref_slots_at (Suc depth)) args = map slots args" by (intro slots_list) simp_all
    with True 7 show ?thesis by (simp cong: map_cong)
  qed (use no_ref_slots in \<open>simp del: slots.simps\<close>)
next
  case (8 depth d args bindings)
  show ?case
  proof (cases "has_ref (TraitValue d args bindings)")
    case True
    with 8 have "map (ref_slots_at (Suc depth)) args = map slots args" by (intro slots_list) simp_all
    with True 8 show ?thesis by (simp cong: map_cong)
  qed (use no_ref_slots in \<open>simp del: slots.simps\<close>)
next
  case (1 depth i m c)
  then show ?case by (auto simp: has_ref_def flags flag_words)
next
  case (2 depth ow site borrows args bound)
  then show ?case by (auto simp: has_ref_def flags flag_words)
next
  case (3 depth i)
  then show ?case using no_ref_slots [of i] by (auto simp: has_ref_def)
next
  case (4 depth i)
  then show ?case using no_ref_slots [of i] by (auto simp: has_ref_def)
qed simp_all

section \<open>Written lifetimes\<close>

definition tree_deps :: "u32 list \<Rightarrow> u32 list \<Rightarrow> fn_deps" where
  "tree_deps ins outs =
     (if outs = [] then None
      else let (seen, ws) = number_ins outs 0 ins [] in Some (ws, map (number_out seen) outs))"

definition written_at :: "u16 list \<Rightarrow> nat \<Rightarrow> u32 option" where
  "written_at written k = (case get_at written k of Some l \<Rightarrow> if l \<noteq> 0 then Some (ucast l) else None | None \<Rightarrow> None)"

definition written_ins :: "ty list \<Rightarrow> u16 list \<Rightarrow> u32 list" where
  "written_ins params written =
     map (\<lambda>k. case written_at written k of Some l \<Rightarrow> l | None \<Rightarrow> push_bit 16 1 OR word_of_nat k)
       [0..<sum_list (map ref_slots params)]"

definition elided :: "u32 list \<Rightarrow> u32" where
  "elided ins = (case remdups_adj (sort ins) of [one] \<Rightarrow> one | _ \<Rightarrow> 0)"

definition written_outs :: "ty list \<Rightarrow> ty \<Rightarrow> u16 list \<Rightarrow> u32 list" where
  "written_outs params result written =
     map (\<lambda>j. case written_at written (sum_list (map ref_slots params) + j) of
                Some l \<Rightarrow> l | None \<Rightarrow> elided (written_ins params written))
       [0..<ref_slots result]"

definition fn_deps_written :: "ty list \<Rightarrow> ty \<Rightarrow> u16 list \<Rightarrow> fn_deps" where
  "fn_deps_written params result written = tree_deps (written_ins params written) (written_outs params result written)"

fun fn_ty_deps :: "ty \<Rightarrow> (u32 list \<times> u32 list) option" where
  "fn_ty_deps (Mut i) = fn_ty_deps i"
| "fn_ty_deps (Fn params result row suspends inputs deps) =
     (case deps of
        None \<Rightarrow> None
      | Some (ins, outs) \<Rightarrow>
          if length ins = sum_list (map ref_slots params) \<and> length outs = ref_slots result then Some (ins, outs) else None)"
| "fn_ty_deps t = None"

lemma tree_deps_pool:
  "pool_fn_deps tv ins outs =
   (case tree_deps ins outs of
      None \<Rightarrow> Some (tv, DEPS_NONE)
    | Some (ws, os) \<Rightarrow> do {
        _ \<leftarrow> fit_u32 (length ins + 1); _ \<leftarrow> fit_u32 (length outs); intern_content tv (deps_content ws os) 0
      })"
  by (simp add: pool_fn_deps_def tree_deps_def Let_def split: prod.splits)

section \<open>The rules of elision\<close>

lemma elided_one: "l \<in> set ins \<Longrightarrow> l \<noteq> 0 \<Longrightarrow> elided ins = l \<longleftrightarrow> set ins = {l}"
proof
  assume l: "l \<in> set ins" "l \<noteq> 0" "elided ins = l"
  then obtain one where "remdups_adj (sort ins) = [one]" by (auto simp: elided_def split: list.splits)
  moreover from this have "set ins = {one}" by (metis remdups_adj_set set_sort list.set(1) list.simps(15))
  ultimately show "set ins = {l}" using l(1) by simp
next
  assume l: "l \<in> set ins" "set ins = {l}"
  then have "sort ins = replicate (length ins) l" by (intro replicate_eqI) simp_all
  moreover have "ins \<noteq> []" using l(1) by auto
  ultimately show "elided ins = l" by (simp add: elided_def remdups_adj_replicate)
qed

definition same_lifetime :: "u16 list \<Rightarrow> nat \<Rightarrow> nat \<Rightarrow> bool" where
  "same_lifetime written i k \<longleftrightarrow> i = k \<or> written_at written i \<noteq> None \<and> written_at written i = written_at written k"

definition lifetime_of :: "u16 list \<Rightarrow> nat \<Rightarrow> u32" where
  "lifetime_of written k = (case written_at written k of Some l \<Rightarrow> l | None \<Rightarrow> push_bit 16 1 OR word_of_nat k)"

lemma written_small: "written_at written k = Some l \<Longrightarrow> unat l < 2 ^ 16 \<and> l \<noteq> 0"
proof -
  assume "written_at written k = Some l"
  then obtain w where w: "w \<noteq> 0" "l = ucast (w :: u16)" by (auto simp: written_at_def split: option.splits if_splits)
  have "unat w < 2 ^ 16" using unsigned_less [of w] by simp
  then have "unat l = unat w" by (simp add: w(2) unsigned_ucast_eq take_bit_nat_eq_self)
  with w(1) \<open>unat w < 2 ^ 16\<close> show ?thesis by (metis unsigned_eq_0_iff)
qed

lemma own_word:
  assumes "k < 2 ^ 16"
  shows "unat (push_bit 16 1 OR word_of_nat k :: u32) = 2 ^ 16 + k"
proof -
  have "(push_bit 16 1 :: u32) AND word_of_nat k = 0"
  proof (rule bit_word_eqI)
    fix n
    have "bit (word_of_nat k :: u32) 16 = bit k 16" by (simp add: bit_of_nat_iff)
    moreover have "\<not> bit k 16" using assms by (simp add: bit_iff_odd)
    moreover have "bit (push_bit 16 1 :: u32) n \<longleftrightarrow> n = 16"
      by (simp only: bit_push_bit_iff bit_1_iff possible_bit_word) auto
    ultimately show "bit ((push_bit 16 1 :: u32) AND word_of_nat k) n = bit 0 n"
      unfolding bit_and_iff by (metis bit_0_eq bot_apply bot_bool_def)
  qed
  then have "push_bit 16 1 OR word_of_nat k = (push_bit 16 1 + word_of_nat k :: u32)" by (rule disjunctive_add_eq_or [symmetric])
  also have "\<dots> = word_of_nat (2 ^ 16 + k)" by (simp add: push_bit_eq_mult)
  finally have e: "push_bit 16 1 OR word_of_nat k = (word_of_nat (2 ^ 16 + k) :: u32)" .
  show ?thesis unfolding e using assms by (intro unat_small) simp
qed

lemma lifetime_of_same:
  assumes "i < 2 ^ 16" "k < 2 ^ 16"
  shows "lifetime_of written i = lifetime_of written k \<longleftrightarrow> same_lifetime written i k"
proof -
  have "written_at written i = Some l \<Longrightarrow> l \<noteq> push_bit 16 1 OR word_of_nat n" if "n < 2 ^ 16" for i l n
    using written_small [of written i l] own_word [OF that] by auto
  moreover have "(push_bit 16 1 OR word_of_nat i :: u32) = push_bit 16 1 OR word_of_nat k \<longleftrightarrow> i = k"
    using own_word [OF assms(1)] own_word [OF assms(2)] by (metis add_left_cancel)
  ultimately show ?thesis
    using assms by (auto simp: lifetime_of_def same_lifetime_def split: option.splits)
qed

lemma lifetime_of_low:
  assumes "k < 2 ^ 16"
  shows "unat (lifetime_of written k) < 2 ^ 31" "lifetime_of written k \<noteq> 0"
proof -
  have *: "unat (lifetime_of written k) < 2 ^ 17 \<and> 0 < unat (lifetime_of written k)"
  proof (cases "written_at written k")
    case None
    with own_word [OF assms] assms show ?thesis by (simp add: lifetime_of_def)
  next
    case (Some l)
    with written_small [OF Some] show ?thesis by (simp add: lifetime_of_def unat_gt_0)
  qed
  then show "unat (lifetime_of written k) < 2 ^ 31" "lifetime_of written k \<noteq> 0" by auto
qed

lemma written_nth:
  "k < sum_list (map ref_slots params) \<Longrightarrow> written_ins params written ! k = lifetime_of written k"
  "j < ref_slots result \<Longrightarrow> written_outs params result written ! j =
    (case written_at written (sum_list (map ref_slots params) + j) of
       Some l \<Rightarrow> l | None \<Rightarrow> elided (written_ins params written))"
  by (simp_all add: written_ins_def written_outs_def lifetime_of_def split: option.splits)

lemma elided_low:
  assumes "\<forall>x \<in> set xs. unat x < (2 ^ 31 :: nat)"
  shows "unat (elided xs) < 2 ^ 31"
proof -
  have "elided xs = 0 \<or> elided xs \<in> set xs"
    unfolding elided_def by (auto split: list.splits) (metis list.set_intros(1) remdups_adj_set set_sort)
  with assms show ?thesis by auto
qed

text \<open>C14. The rules of lifetime elision, for a function type with at most \<open>2 ^ 16\<close> input reference slots: the words
  \<open>1 << 16 | k\<close> with which the code names the slots that write no lifetime are distinct up to there. A result
  without reference slots has the map \<open>NONE\<close>. Otherwise there is a map and it lines up with the slots of its type;
  an input slot that writes no lifetime has one of its own; a result slot depends on the input slots that write
  its lifetime or, when it writes none, on the inputs if they have one lifetime among them, and on none if not.\<close>

theorem written_lifetimes:
  assumes "sum_list (map ref_slots params) \<le> 2 ^ 16"
  shows "if ref_slots result = 0 then fn_deps_written params result written = None
    else \<exists>ws os. fn_deps_written params result written = Some (ws, os) \<and>
      fn_ty_deps (Fn params result row suspends inputs (Some (ws, os))) = Some (ws, os) \<and>
      (\<forall>i < sum_list (map ref_slots params). \<forall>j < ref_slots result.
         (os ! j = ws ! i \<and> os ! j \<noteq> 0) =
         (case written_at written (sum_list (map ref_slots params) + j) of
            Some l \<Rightarrow> written_at written i = Some l
          | None \<Rightarrow> \<forall>k < sum_list (map ref_slots params). same_lifetime written k i))"
proof (cases "ref_slots result = 0")
  case True
  then show ?thesis by (simp add: fn_deps_written_def tree_deps_def written_outs_def)
next
  case False
  let ?n = "sum_list (map ref_slots params)" and ?ins = "written_ins params written"
    and ?outs = "written_outs params result written"
  have len: "length ?ins = ?n" "length ?outs = ref_slots result" by (simp_all add: written_ins_def written_outs_def)
  have ne: "?outs \<noteq> []" using len(2) False by auto
  obtain seen ws where n: "number_ins ?outs 0 ?ins [] = (seen, ws)" by force
  have w: "fn_deps_written params result written = Some (ws, map (number_out seen) ?outs)"
    using ne n by (simp add: fn_deps_written_def tree_deps_def)
  have lens: "length ws = ?n" using number_ins_length [of ?outs 0 ?ins "[]"] n len(1) by simp
  have ins: "\<forall>x \<in> set ?ins. unat x < 2 ^ 31"
    using lifetime_of_low(1) assms(1) len(1) by (auto simp: in_set_conv_nth written_nth)
  have low: "\<forall>l \<in> set ?outs. unat l < 2 ^ 31"
  proof
    fix l assume "l \<in> set ?outs"
    then obtain j where j: "j < ref_slots result" "l = ?outs ! j" using len(2) by (auto simp: in_set_conv_nth)
    show "unat l < 2 ^ 31"
    proof (cases "written_at written (?n + j)")
      case None
      with j elided_low [OF ins] show ?thesis by (simp add: written_nth(2))
    next
      case (Some m)
      with j written_small [OF Some] show ?thesis by (simp add: written_nth(2))
    qed
  qed
  then have outs: "\<forall>l \<in> set ?outs. \<forall>k < length ?ins. l \<noteq> slot_name k" using low_no_slot by blast
  have "(?outs ! j = ?ins ! i \<and> ?outs ! j \<noteq> 0) =
      (case written_at written (?n + j) of Some l \<Rightarrow> written_at written i = Some l | None \<Rightarrow> \<forall>k < ?n. same_lifetime written k i)"
    if ij: "i < ?n" "j < ref_slots result" for i j
  proof -
    have i: "i < 2 ^ 16" using ij(1) assms(1) by simp
    have "?ins ! i \<in> set ?ins" using ij(1) len(1) by (intro nth_mem) simp
    moreover have "?ins ! i = lifetime_of written i" by (rule written_nth(1) [OF ij(1)])
    ultimately have I: "?ins ! i = lifetime_of written i" "?ins ! i \<noteq> 0" "?ins ! i \<in> set ?ins"
      using lifetime_of_low(2) [OF i] by simp_all
    show ?thesis
    proof (cases "written_at written (?n + j)")
      case (Some l)
      have "l \<noteq> push_bit 16 1 OR word_of_nat i" using written_small [OF Some] own_word [OF i] by auto
      then have "l = lifetime_of written i \<longleftrightarrow> written_at written i = Some l"
        by (auto simp: lifetime_of_def split: option.splits)
      with Some ij I written_small [OF Some] show ?thesis by (simp add: written_nth(2))
    next
      case None
      have "set ?ins = {?ins ! i} \<longleftrightarrow> (\<forall>k < ?n. same_lifetime written k i)"
      proof -
        have "set ?ins = {?ins ! i} \<longleftrightarrow> (\<forall>k < ?n. ?ins ! k = ?ins ! i)"
          using I(3) len(1) by (auto simp: set_conv_nth)
        also have "\<dots> \<longleftrightarrow> (\<forall>k < ?n. same_lifetime written k i)"
          using lifetime_of_same [OF _ i] assms(1) ij(1) by (auto simp: written_nth(1))
        finally show ?thesis .
      qed
      with None ij elided_one [OF I(3,2)] I(2) show ?thesis by (simp add: written_nth(2)) metis
    qed
  qed
  with numbers_depend [OF n _ outs] len assms(1) w lens False show ?thesis
    unfolding if_not_P [OF False] by (intro exI [of _ ws] exI [of _ "map (number_out seen) ?outs"] conjI) simp_all
qed

text \<open>In \<open>fn(&A, &'2 B) -> (&'2 C, &D)\<close> the first result depends on the second input and the second on none.\<close>

lemma written_lifetimes_witness:
  "\<exists>ws os. fn_deps_written [RefTy (Prim I32) False False, RefTy (Prim U8) False False]
      (Tuple [RefTy (Prim I32) False False, RefTy (Prim U8) False False] None) [0, 2, 2, 0] = Some (ws, os) \<and>
    os ! 0 = ws ! 1 \<and> os ! 0 \<noteq> ws ! 0 \<and> \<not> (os ! 1 = ws ! 0 \<and> os ! 1 \<noteq> 0)"
proof -
  let ?params = "[RefTy (Prim I32) False False, RefTy (Prim U8) False False]"
    and ?result = "Tuple [RefTy (Prim I32) False False, RefTy (Prim U8) False False] None"
    and ?w = "[0, 2, 2, 0] :: u16 list"
  have s: "sum_list (map ref_slots ?params) = 2" "ref_slots ?result = 2"
    by (simp_all add: ref_slots_def has_ref_def flag_words)
  have at: "written_at ?w 0 = None" "written_at ?w 1 = Some 2" "written_at ?w (2 + 0) = Some 2" "written_at ?w (2 + 1) = None"
    by (simp_all add: written_at_def get_at_def)
  obtain ws os where w: "fn_deps_written ?params ?result ?w = Some (ws, os)"
    and all: "\<forall>i < (2 :: nat). \<forall>j < (2 :: nat). (os ! j = ws ! i \<and> os ! j \<noteq> 0) =
      (case written_at ?w (2 + j) of Some l \<Rightarrow> written_at ?w i = Some l | None \<Rightarrow> \<forall>k < (2 :: nat). same_lifetime ?w k i)"
    using written_lifetimes [of ?params ?result ?w "Row [] []" False Fixed] unfolding s by auto
  have lt: "(0 :: nat) < 2" "(1 :: nat) < 2" by simp_all
  have "\<not> same_lifetime ?w 1 0" using at by (simp add: same_lifetime_def)
  then have "\<not> (os ! 1 = ws ! 0 \<and> os ! 1 \<noteq> 0)"
    using all [rule_format, OF lt(1,2)] lt(2) unfolding at option.case by blast
  moreover have "os ! 0 = ws ! 1 \<and> os ! 0 \<noteq> 0"
    using all [rule_format, OF lt(2,1)] unfolding at option.case by blast
  moreover have "\<not> (os ! 0 = ws ! 0 \<and> os ! 0 \<noteq> 0)"
    using all [rule_format, OF lt(1,1)] unfolding at option.case by blast
  ultimately show ?thesis using w by blast
qed

end
