(* ===== verification/Spec2Isabelle.thy ===== *)
theory Spec2Isabelle
  imports HdBase Executors SliceSort Wire DocPrinter Journal Replay FixIts LayoutSamples Inference MatchReturns ConstValues PoolThreads RefRaise Lifetimes
begin

text \<open>
  The core of the \<^verbatim>\<open>hd\<close> compiler (\<^verbatim>\<open>src/crates\<close>, Rust), modelled in Isabelle/HOL.

  \<^bold>\<open>The program.\<close> \<^verbatim>\<open>hd\<close> compiles a language laid out by indentation to WebAssembly. A run reads a
  project (\<^verbatim>\<open>hd_project\<close>, \<^verbatim>\<open>hd_deps\<close>), lexes and parses each file (\<^verbatim>\<open>hd_syntax\<close>), resolves names
  (\<^verbatim>\<open>hd_resolve\<close>), checks bodies (\<^verbatim>\<open>hd_check\<close>, with the type pool, the inference table and the trait
  solver of \<^verbatim>\<open>hd_types\<close>), lowers them (\<^verbatim>\<open>hd_tir\<close>, \<^verbatim>\<open>hd_mono\<close>, \<^verbatim>\<open>hd_opt\<close>) and emits wasm
  (\<^verbatim>\<open>hd_wasm_linear\<close>). The phases are tasks of one graph (\<^verbatim>\<open>hd_sched\<close>) and their results are cached
  in a binary form (\<^verbatim>\<open>hd_base\<close>, \<^verbatim>\<open>hd_cache\<close>). A program runs in a host that can record every call
  it makes and replay the record (\<^verbatim>\<open>hd_run\<close>). \<^verbatim>\<open>hd fmt\<close> (\<^verbatim>\<open>hd_fmt\<close>) and \<^verbatim>\<open>hd check --fix\<close>
  (\<^verbatim>\<open>hd_cli\<close>) rewrite sources.

  \<^bold>\<open>Conventions.\<close> A fixed-width integer is a word (\<open>u8\<close>, \<open>u16\<close>, \<open>u32\<close>, \<open>u64\<close>); a \<open>usize\<close> that only
  counts or indexes is a natural number. A \<open>str\<close> is the list of its UTF-8 bytes. A panic (an index past
  a vector, a slice inside a character, an overflow in a checked build) is \<open>None\<close>, or \<open>Panicked\<close> where
  the result also has an error value; an error the code returns is a value of its own. Rust code that
  may not end takes fuel, and running out is \<open>None\<close> or \<open>OutOfFuel\<close>; each such function has a theorem that
  some fuel is enough. A vector used as a stack is a list with its top first. The text of a message is
  data: one constructor per message, with what it quotes.

  \<^bold>\<open>Shared\<close> (\<open>HdPrelude\<close>): the words, little-endian bytes, checked indexing, and the list and word lemmas
  the components use. \<open>HdBase\<close>: ids, \<open>Fuel\<close> and the in-run hasher (\<^verbatim>\<open>hd_base/src/lib.rs\<close>, \<^verbatim>\<open>hash.rs\<close>).

  \<^bold>\<open>Sorting and the wire\<close> (\<^verbatim>\<open>hd_base/src/sort.rs\<close>, \<^verbatim>\<open>wire.rs\<close>). \<open>SliceSort\<close> has the insertion sort of short
  slices and the merge sort over \<open>u32\<close> positions with the in-place permutation that follows it; the
  theorems say that it is the stable sort and that the two keyed sorts agree. \<open>Wire\<close> has the writer and the
  reader of cache sections; the theorems are the round trip of any field sequence and that a cut section is
  flagged.

  \<^bold>\<open>The scheduler\<close> (\<^verbatim>\<open>hd_sched/src/lib.rs\<close>, \<^verbatim>\<open>pool.rs\<close>). \<open>Sched\<close> has the task graph with every operation.
  \<open>Executors\<close> has an abstract system in which any ready task may start at any time, the serial and stepping
  executors, and the pool as a step relation over its workers; the theorems say that each executor is one of
  the abstract schedules, that the serial run ends, and when tasks are left.

  \<^bold>\<open>The front end\<close> (\<^verbatim>\<open>hd_syntax/src/lexer.rs\<close>, \<^verbatim>\<open>layout.rs\<close>). \<open>Utf8\<close> is what a \<open>chars()\<close> sees. \<open>Tokens\<close> has
  the token kinds, the token buffer and the table of lines; \<open>Lexer\<close> the scanners of one token and the mutual
  recursion of code, strings and interpolations, then the delimiter matcher and the module documentation.
  Its loops take fuel: each step moves forward, so \<open>3 * n + 1\<close> for a source of \<open>n\<close> bytes is enough.
  \<open>Scanners\<close> shows what each scanner leaves alone; \<open>LexerTotal\<close> that lexing returns without a panic and tiles
  the source; \<open>Lines\<close> that the table of lines is right; \<open>Delims\<close> that delimiters are matched exactly.
  \<open>Layout\<close> has the cursor that inserts \<open>NEWLINE\<close>, \<open>INDENT\<close> and \<open>DEDENT\<close>. \<open>LayoutProps\<close> shows for any
  sequence of a parser's operations that what it delivers is balanced and complete; \<open>LayoutTotal\<close> that it
  does not panic on lexed tokens and reaches the end within \<open>5 t + 4 n + 6\<close> further deliveries, for \<open>t\<close>
  tokens and \<open>n\<close> operations; \<open>Offside\<close> that outside brackets it is the offside rule, lines that continue
  the one before included; \<open>LayoutSamples\<close> has
  concrete sources.

  \<^bold>\<open>The formatter's printer\<close> (\<^verbatim>\<open>hd_fmt/src/document.rs\<close>). \<open>DocPrinter\<close> has the commands of a document, the
  jump tables, the optimised and the plain test of what fits on a line, and the printing loop; the theorems
  say that the two tests agree, that printing is linear, when it panics, and the shape of the output.

  \<^bold>\<open>Running\<close> (\<^verbatim>\<open>hd_run/src/journal.rs\<close>, \<^verbatim>\<open>replay.rs\<close>). \<open>Uleb\<close> has the variable-length integers; \<open>Journal\<close> the
  rows with their checksums, the reader that stops at the first torn or corrupt row, the payloads and the
  recorder; \<open>Replay\<close> reads the inputs of a record and answers a run from them. The theorems are the round
  trips, what a torn or corrupt journal still gives, and which runs a replay accepts.

  \<^bold>\<open>The fixing pass\<close> (\<^verbatim>\<open>hd_cli/src/fix.rs\<close>). \<open>FixIts\<close> has the choice of fix-its, their application and the
  rounds; the check is a parameter. The theorems say that the pass always returns, never adds an error, and
  that a round is one simultaneous replacement.

  \<^bold>\<open>Types and unification\<close> (\<^verbatim>\<open>hd_types/src/pool.rs\<close>, \<^verbatim>\<open>unify.rs\<close>). \<open>TyTree\<close> has the types as trees, with
  their meta words and what interning does to a type or a row; a row's keys are ordered by their pool
  index, the parameter \<open>ix\<close>. \<open>InferTable\<close> has the union-find table with its trail; \<open>Unify\<close> has \<open>resolve\<close>, the
  occurs check and \<open>unify\<close>. \<open>UnifyTrail\<close> states the contract of the two writes (\<open>table_steps\<close>) and derives it
  for \<open>unify\<close>; \<open>Trials\<close> (a rollback is exact), \<open>Classes\<close> (the forest and its ranks) and \<open>Literals\<close> (the kinds of
  literal classes) interpret it. \<open>Substitution\<close> and \<open>UnifySound\<close> read a table as a substitution, \<open>UnifyAgrees\<close>
  is the induction over the recursion; \<open>UnifyFuel\<close>, \<open>UnifyTotal\<close> and \<open>UnifyEnds\<close> show that it ends: a lookup
  needs 33 units of fuel, the occurs check and \<open>resolve\<close> 34 more than the weight of the resolved type, and
  \<open>unify\<close> as much as the lexicographic order of open classes and weights makes of it. \<open>Inference\<close> states
  the contract for the tables a body's checking builds.

  \<^bold>\<open>Not modelled.\<close> The parser and the green tree, name resolution and lowering, the checker around the
  inference table, the trait solver, the intermediate representations and the wasm back end, the wasmtime
  host, the cache on disk, project and dependency discovery, and the commands: much of it is input and output
  or needs the tree of the parser. The tables of the Unicode crates, the digests and the checker
  given to the fixing pass are parameters.

  \<^bold>\<open>Exhaustiveness\<close> (\<^verbatim>\<open>hd_check/src/pat.rs\<close>). \<open>TyOps\<close> has the substitution of declared parameters, \<open>Patterns\<close> the
  constructors of a type and \<open>to_p\<close>, which reads a pattern against one; a pattern node is the data its accessors
  read. \<open>Usefulness\<close> has the test and the two checks of a \<^verbatim>\<open>match\<close>. The code counts the depth of the recursion up to
  64 and then answers no; \<open>useful\<close> counts down from 65. \<open>PatternValues\<close> says what values a type has and a pattern
  matches. \<open>UsefulDepth\<close> bounds the depth by the \<open>cost\<close> of the patterns, the columns they expand to: with a cost
  of at most 64 the limit is not reached. \<open>UsefulSound\<close> reads a negative answer (the rows cover every value the question
  matches), \<open>UsefulExact\<close> a positive one (a value is missed), and \<open>MatchChecks\<close> states both for the checks, with two
  inputs outside the bounds where they are wrong. \<open>MatchReturns\<close> shows that the checks return. Not modelled: the
  declaration of the bindings, and the decision tree with the code it emits.

  \<^bold>\<open>Const generic arguments\<close> (\<^verbatim>\<open>hd_resolve/src/const_eval.rs\<close>, \<^verbatim>\<open>literal.rs\<close>). \<open>ConstEval\<close> has the number tokens,
  the checked integers, \<open>natural\<close>, the evaluator and \<open>const_argument\<close>; a product past \<open>i128\<close> is a panic, the depth of
  named constants counts down from 64. \<open>ConstValues\<close> shows that a value has the type \<open>natural\<close> announces and fits it,
  that powers are exact, that the constant put in a type is the value, and that cyclic constants are reported; and
  states two inputs the code gets wrong. Not modelled: the decoding of escapes, and the scopes that answer the names.

  \<^bold>\<open>The type pool\<close> (\<^verbatim>\<open>hd_base/src/append.rs\<close>, \<^verbatim>\<open>hd_types/src/pool.rs\<close>). \<open>AppendVec\<close> has the column whose items
  never move, over raw memory, where reading a slot nobody wrote is an outcome of its own; no read reaches it. \<open>IdTable\<close>
  has the open-addressing table; its probing loops are partial functions that return because a quarter of the slots
  stays empty. \<open>PoolCols\<close> has the tags, the contents and the columns of a pool, \<open>InternPool\<close> a call of \<open>intern\<close> as steps
  of threads over the read-through tables, the locked shards and the columns. \<open>PoolThreads\<close> shows for every interleaving
  that equal contents get one index, that an index keeps its contents and that calls return. A mutex is a step that waits
  for its owner; the memory orderings that make a published item visible are not modelled. \<open>PoolTypes\<close> has the
  body-local pool, the view that reads and builds through both pools, and how a type, a list, a row and a dependency map
  become an item and back. \<open>PoolViews\<close> has the invariant of a view (each item once, on the side its flags say, with the
  meta word of its contents), \<open>PoolTrees\<close> the trees of \<open>TyTree\<close> that indexes stand for, and \<open>PoolSeed\<close> a new pool and the
  views that building types reaches: interning a type implements \<open>TyTree.intern_ty\<close>, interning a row \<open>TyTree.intern_row\<close>,
  an index is one tree and a tree has one index, it reads back as what was interned, and its meta word is \<open>meta_of\<close> of
  the tree. So the other theories compare types as trees, as the code compares indexes. \<open>PoolDeps\<close> shows that a
  dependency map keeps its meaning through the pool and not its names; \<open>Lifetimes\<close> has the reference slots of a type and the
  rules of lifetime elision. \<open>RefLower\<close> has the replacement of reference types before the backend and its inverse with the
  memo; \<open>RefRaise\<close> shows that the one undoes the other. Not modelled: the other threads' calls between the steps of one
  view, the walks that look for a parameter, and the printing of types.

  Next: the selection of dependency versions and the trait solver.
\<close>

end
